(* ===== verification/Ese_Prelude.thy ===== *)
theory Ese_Prelude
  imports Main "HOL-Library.Word" "HOL-Library.Monad_Syntax"
begin

text \<open>
  Shared vocabulary of the development: the machine types of the C++ code, the JET status
  codes, bounds-checked buffer access, little-endian numbers, exclusive-or sums over words,
  and the generic lemmas the components use.

  A buffer is a list of bytes. A C++ access \<open>pb[i]\<close> outside the buffer is undefined
  behaviour; in the model it is the value \<open>None\<close> of \<open>rd\<close> and \<open>wr\<close>, and
  \<open>None\<close> is propagated by \<open>Option.bind\<close>. A theorem that an operation returns
  \<open>Some\<close> is therefore a memory-safety theorem.
\<close>

unbundle bit_operations_syntax

section \<open>Machine types and status codes\<close>

type_synonym BYTE = "8 word"
type_synonym WORD16 = "16 word"
type_synonym ULONG = "32 word"
type_synonym QWORD = "64 word"
type_synonym ERR = int

definition JET_errSuccess :: ERR where "JET_errSuccess = 0"
definition JET_wrnBufferTruncated :: ERR where "JET_wrnBufferTruncated = 1006"
definition JET_errOutOfMemory :: ERR where "JET_errOutOfMemory = - 1011"
definition JET_errDecompressionFailed :: ERR where "JET_errDecompressionFailed = - 1620"

named_theorems jet_codes "the numeric values of the JET status codes"
named_theorems buf_simps "bounds-checked buffer access"
named_theorems xor_simps "exclusive-or sums"

declare JET_errSuccess_def [jet_codes] JET_wrnBufferTruncated_def [jet_codes]
  JET_errOutOfMemory_def [jet_codes] JET_errDecompressionFailed_def [jet_codes]

text \<open>A 32-bit signed \<open>INT\<close> result: two's complement wrap-around of an exact integer.\<close>

definition INT32 :: "int \<Rightarrow> int" where
  "INT32 x = signed_take_bit 31 x"

lemma INT32_id [simp]: "- (2 ^ 31) \<le> x \<Longrightarrow> x < 2 ^ 31 \<Longrightarrow> INT32 x = x"
  by (simp add: INT32_def signed_take_bit_int_eq_self_iff)

text \<open>C division of an \<open>INT\<close> by a positive constant truncates towards zero.\<close>

definition cdiv :: "int \<Rightarrow> int \<Rightarrow> int" where
  "cdiv a b = (if 0 \<le> a then a div b else - ((- a) div b))"

section \<open>Buffers\<close>

definition rd :: "'a list \<Rightarrow> nat \<Rightarrow> 'a option" where
  "rd xs i = (if i < length xs then Some (xs ! i) else None)"

definition wr :: "'a list \<Rightarrow> nat \<Rightarrow> 'a \<Rightarrow> 'a list option" where
  "wr xs i v = (if i < length xs then Some (xs[i := v]) else None)"

lemma rd_in [buf_simps]: "i < length xs \<Longrightarrow> rd xs i = Some (xs ! i)"
  by (simp add: rd_def)

lemma rd_out [buf_simps]: "length xs \<le> i \<Longrightarrow> rd xs i = None"
  by (simp add: rd_def)

lemma wr_in [buf_simps]: "i < length xs \<Longrightarrow> wr xs i v = Some (xs[i := v])"
  by (simp add: wr_def)

lemma wr_out [buf_simps]: "length xs \<le> i \<Longrightarrow> wr xs i v = None"
  by (simp add: wr_def)

lemma rd_SomeD: "rd xs i = Some v \<Longrightarrow> i < length xs \<and> v = xs ! i"
  by (simp add: rd_def split: if_splits)

lemma wr_SomeD: "wr xs i v = Some ys \<Longrightarrow> i < length xs \<and> ys = xs[i := v]"
  by (auto simp: wr_def split: if_splits)

lemma wr_length: "wr xs i v = Some ys \<Longrightarrow> length ys = length xs"
  by (auto dest: wr_SomeD)

lemma take_Suc_update: "i < length xs \<Longrightarrow> take (Suc i) (xs[i := v]) = take i xs @ [v]"
  by (simp add: take_Suc_conv_app_nth)

section \<open>Little-endian numbers\<close>

fun le_nat :: "BYTE list \<Rightarrow> nat" where
  "le_nat [] = 0"
| "le_nat (b # bs) = unat b + 256 * le_nat bs"

lemma le_nat_bound: "le_nat bs < 256 ^ length bs"
proof (induction bs)
  case Nil
  then show ?case by simp
next
  case (Cons b bs)
  have "unat b < 256"
    using unsigned_less [of b] by simp
  with Cons show ?case
    by simp
qed

lemma le_nat_append: "le_nat (xs @ ys) = le_nat xs + 256 ^ length xs * le_nat ys"
  by (induction xs) (auto simp: algebra_simps)

lemma le_nat_div: "k \<le> length bs \<Longrightarrow> le_nat bs div 256 ^ k = le_nat (drop k bs)"
proof -
  assume k: "k \<le> length bs"
  have "le_nat bs = le_nat (take k bs) + 256 ^ k * le_nat (drop k bs)"
    using le_nat_append [of "take k bs" "drop k bs"] k by simp
  moreover have "le_nat (take k bs) < 256 ^ k"
    using le_nat_bound [of "take k bs"] k by simp
  ultimately show ?thesis
    by simp
qed

section \<open>Exclusive-or sums\<close>

lemma xor_cancel_left [simp]: "(h XOR a = h XOR b) \<longleftrightarrow> (a = b)" for h :: "'a::len word"
proof
  assume "h XOR a = h XOR b"
  then have "h XOR (h XOR a) = h XOR (h XOR b)" by simp
  then show "a = b" by (simp flip: xor.assoc)
qed simp

lemma xor_left_self: "x XOR (x XOR y) = y" for x y :: "'a::len word"
  by (simp flip: xor.assoc)

lemma xor_cancel_right [simp]: "(a XOR h = b XOR h) \<longleftrightarrow> (a = b)" for h :: "'a::len word"
  by (simp add: xor.commute [of _ h])

primrec xorsum :: "(nat \<Rightarrow> 'a::len word) \<Rightarrow> nat \<Rightarrow> 'a word" where
  "xorsum f 0 = 0"
| "xorsum f (Suc n) = xorsum f n XOR f n"

declare xorsum.simps [xor_simps]

lemma xorsum_cong: "(\<And>i. i < n \<Longrightarrow> f i = g i) \<Longrightarrow> xorsum f n = xorsum g n"
  by (induction n) auto

lemma xorsum_zero [simp]: "xorsum (\<lambda>_. 0) n = 0"
  by (induction n) auto

lemma xorsum_XOR [xor_simps]: "xorsum (\<lambda>i. f i XOR g i) n = xorsum f n XOR xorsum g n"
  by (induction n) (auto simp: ac_simps)

lemma xorsum_add: "xorsum f (m + n) = xorsum f m XOR xorsum (\<lambda>i. f (m + i)) n"
  by (induction n) (auto simp: ac_simps)

lemma xorsum_mult: "xorsum f (m * n) = xorsum (\<lambda>k. xorsum (\<lambda>j. f (m * k + j)) m) n"
proof (induction n)
  case 0
  then show ?case by simp
next
  case (Suc n)
  then show ?case
    using xorsum_add [of f "m * n" m] by (simp add: add.commute)
qed

lemma xorsum_hom:
  fixes h :: "'a::len word \<Rightarrow> 'b::len word"
  assumes "h 0 = 0" and "\<And>x y. h (x XOR y) = h x XOR h y"
  shows "h (xorsum f n) = xorsum (\<lambda>i. h (f i)) n"
  by (induction n) (simp_all add: assms)

lemma xorsum_delta: "xorsum (\<lambda>i. if i = k then a else 0) n = (if k < n then a else 0)"
  by (induction n) (auto simp: less_Suc_eq)

lemma xorsum_fun_upd:
  "xorsum (f(k := f k XOR d)) n = xorsum f n XOR (if k < n then d else 0)"
proof -
  have "xorsum (f(k := f k XOR d)) n = xorsum (\<lambda>i. f i XOR (if i = k then d else 0)) n"
    by (rule xorsum_cong) auto
  then show ?thesis
    by (simp add: xorsum_XOR xorsum_delta)
qed

section \<open>Bits\<close>

lemma or_eq_xor: "a AND b = 0 \<Longrightarrow> a OR b = a XOR b" for a b :: "'a::len word"
  by (auto simp: bit_eq_iff bit_simps)

lemma bit_nat_le: "bit k n \<Longrightarrow> 2 ^ n \<le> k" for k :: nat
  by (metis bit_iff_odd div_less dvd_0_right not_less)

lemma bit_split_nat:
  fixes t k :: nat
  assumes "t < 2 ^ a"
  shows "bit (2 ^ a * k + t) n \<longleftrightarrow> (if n < a then bit t n else bit k (n - a))"
proof -
  have "take_bit a (2 ^ a * k + t) = t" "drop_bit a (2 ^ a * k + t) = k"
    using assms by (simp_all add: take_bit_eq_mod drop_bit_eq_div)
  then have "bit t n = bit (take_bit a (2 ^ a * k + t)) n"
      "bit k (n - a) = bit (drop_bit a (2 ^ a * k + t)) (n - a)"
    by simp_all
  then show ?thesis
    by (auto simp: bit_simps)
qed

lemma nat_bit_bound: "x < 2 ^ n \<Longrightarrow> bit x b \<Longrightarrow> b < n" for x :: nat
proof -
  assume x: "x < 2 ^ n" and b: "bit x b"
  have "(2::nat) ^ b < 2 ^ n"
    using bit_nat_le [OF b] x by linarith
  then show "b < n"
    by simp
qed

lemma add_eq_xor:
  fixes a b :: "'a::len word"
  assumes "\<And>n. \<not> (bit a n \<and> bit b n)"
  shows "a + b = a XOR b"
  using assms by (subst disjunctive_add) (auto simp: bit_eq_iff bit_simps)

lemma AND_mask_eq: "w AND mask n = take_bit n w" for w :: "'a::len word"
  by (simp only: take_bit_eq_mask)

lemma word_of_nat_pow_minus_1: "word_of_nat (2 ^ k) - 1 = (mask k :: 'a::len word)"
  by (simp add: mask_eq_exp_minus_1)

lemmas xor_homs = push_bit_xor take_bit_xor drop_bit_xor

end
