(* ===== verification/Math_Lib.thy ===== *)
theory Math_Lib
  imports Ese_Prelude "HOL-Library.While_Combinator"
begin

text \<open>
  \<open>ms/math.hxx\<close> and \<open>ms/math.cxx\<close>: the integer helpers of the OS layer, over words
  of the width the code uses. \<open>UsBits\<close> is the branch-free population count,
  \<open>LNextPowerOf2\<close> the doubling loop, \<open>FBounded\<close> the overflow-aware range test,
  \<open>Ui64FNVHash\<close> the FNV-1a hash and \<open>HalfAvalancheHash\<close> the integer mixer.
\<close>

section \<open>Definitions\<close>

definition roundup :: "nat \<Rightarrow> nat \<Rightarrow> nat" where
  "roundup val align = ((val + align - 1) div align) * align"

definition rounddn :: "nat \<Rightarrow> nat \<Rightarrow> nat" where
  "rounddn val align = (val div align) * align"

definition roundupdiv :: "nat \<Rightarrow> nat \<Rightarrow> nat" where
  "roundupdiv num den = (num + den - 1) div den"

definition FPowerOf2 :: "'a::len word \<Rightarrow> bool" where
  "FPowerOf2 x \<longleftrightarrow> 0 < x \<and> 0 = (x AND (x - 1))"

definition UsBits :: "ULONG \<Rightarrow> WORD16" where
  "UsBits dw =
     (let ret = dw;
          ret = ret - (drop_bit 1 ret AND 0x55555555);
          ret = (ret AND 0x33333333) + (drop_bit 2 ret AND 0x33333333);
          ret = (ret + drop_bit 4 ret) AND 0x0f0f0f0f;
          ret = ret + drop_bit 8 ret;
          ret = ret + drop_bit 16 ret;
          ret = ret AND 0x3f
      in ucast ret)"

text \<open>\<open>LONG\<close> is read as an integer; \<open>lMax\<close> is \<open>0x7FFFFFFF\<close>.\<close>

definition lMax :: int where "lMax = 0x7FFFFFFF"

definition LNextPowerOf2 :: "int \<Rightarrow> int" where
  "LNextPowerOf2 l =
     (if \<not> FPowerOf2 (word_of_int (lMax div 2 + 1) :: ULONG) \<or> l > lMax div 2 + 1 then - 1
      else while (\<lambda>i. i < l) (\<lambda>i. i + i) 1)"

definition FBounded :: "QWORD \<Rightarrow> QWORD \<Rightarrow> QWORD \<Rightarrow> bool" where
  "FBounded ibQuestionable ibLow cbRange =
     (if ibLow + cbRange < ibLow then False
      else if ibQuestionable \<ge> ibLow \<and> ibQuestionable < ibLow + cbRange then True
      else False)"

definition HalfAvalancheHash :: "ULONG \<Rightarrow> nat \<Rightarrow> ULONG" where
  "HalfAvalancheHash valueToHash cBits =
     (let output = valueToHash;
          output = (output + 0x479ab41d) + push_bit 8 output;
          output = (output XOR 0xe4aa10ce) XOR drop_bit 5 output;
          output = (output + 0x9942f0a6) - push_bit 14 output;
          output = (output XOR 0x5aedd67d) XOR drop_bit 3 output;
          output = (output + 0x17bea992) + push_bit 7 output
      in drop_bit (32 - cBits) output)"

definition FNV_PRIME :: QWORD where "FNV_PRIME = 1099511628211"
definition FNV_OFFSET_BASIS :: QWORD where "FNV_OFFSET_BASIS = 14695981039346656037"

fun fnv_loop :: "QWORD \<Rightarrow> BYTE list \<Rightarrow> QWORD" where
  "fnv_loop hash [] = hash"
| "fnv_loop hash (b # bs) = fnv_loop ((hash XOR ucast b) * FNV_PRIME) bs"

text \<open>\<open>pv\<close> is \<open>None\<close> for a null pointer; otherwise the \<open>cb\<close> bytes it points to.\<close>

definition Ui64FNVHash :: "BYTE list option \<Rightarrow> QWORD" where
  "Ui64FNVHash pv = (case pv of None \<Rightarrow> FNV_OFFSET_BASIS | Some bs \<Rightarrow> fnv_loop FNV_OFFSET_BASIS bs)"

section \<open>Rounding\<close>

lemma roundup_props:
  assumes "0 < align"
  shows "align dvd roundup val align" and "val \<le> roundup val align"
    and "roundup val align < val + align"
proof -
  let ?q = "(val + align - 1) div align"
  have eq: "val + align - 1 = ?q * align + (val + align - 1) mod align"
    by simp
  have r: "(val + align - 1) mod align < align"
    using assms by simp
  show "align dvd roundup val align"
    by (simp add: roundup_def)
  show "val \<le> roundup val align" "roundup val align < val + align"
    unfolding roundup_def using eq r assms by linarith+
qed

section \<open>The FNV hash\<close>

lemma fnv_loop_append: "fnv_loop h (xs @ ys) = fnv_loop (fnv_loop h xs) ys"
  by (induction h xs rule: fnv_loop.induct) auto

text \<open>\<open>FNV_PRIME\<close> is odd, so multiplication by it is a bijection of the 64-bit words.\<close>

definition FNV_PRIME_inv :: QWORD where "FNV_PRIME_inv = 14886173955864302971"

lemma FNV_PRIME_inv: "FNV_PRIME * FNV_PRIME_inv = 1"
  by (simp add: FNV_PRIME_def FNV_PRIME_inv_def)

lemma FNV_mult_inj: "x * FNV_PRIME = y * FNV_PRIME \<longleftrightarrow> x = y"
proof
  assume "x * FNV_PRIME = y * FNV_PRIME"
  then have "x * FNV_PRIME * FNV_PRIME_inv = y * FNV_PRIME * FNV_PRIME_inv"
    by simp
  then show "x = y"
    by (simp add: mult.assoc FNV_PRIME_inv)
qed simp

lemma fnv_step_inj: "((h XOR c) * FNV_PRIME = (h' XOR c) * FNV_PRIME) \<longleftrightarrow> h = h'"
  by (simp add: FNV_mult_inj)

lemma fnv_loop_inj: "fnv_loop h bs = fnv_loop h' bs \<longleftrightarrow> h = h'"
  by (induction bs arbitrary: h h') (simp_all add: fnv_step_inj)

lemma ucast_byte_inj [simp]: "(ucast (b :: BYTE) :: QWORD) = ucast c \<longleftrightarrow> b = c"
  by transfer (simp add: take_bit_take_bit)

section \<open>Properties\<close>

text \<open>
  \<open>Ui64FNVHash\<close> never confuses two buffers that differ in exactly one byte: for a
  common prefix and a common suffix the hashes are equal only if the differing bytes are
  equal.
\<close>

theorem Ui64FNVHash_single_byte:
  "Ui64FNVHash (Some (pre @ b # post)) = Ui64FNVHash (Some (pre @ c # post)) \<longleftrightarrow> b = c"
proof -
  have "fnv_loop h (b # post) = fnv_loop h (c # post) \<longleftrightarrow> b = c" for h
    by (simp add: fnv_loop_inj FNV_mult_inj)
  then show ?thesis
    by (simp add: Ui64FNVHash_def fnv_loop_append)
qed

text \<open>
  \<open>FBounded\<close> is the mathematical range test: it accepts exactly when the end of the
  range does not wrap around and the offset lies in it, whatever the operands.
\<close>

theorem FBounded_iff:
  "FBounded q lo n \<longleftrightarrow>
     unat lo + unat n < 2 ^ 64 \<and> unat lo \<le> unat q \<and> unat q < unat lo + unat n"
proof (cases "unat lo + unat n < 2 ^ 64")
  case True
  then have "unat (lo + n) = unat lo + unat n"
    by (simp add: unat_word_ariths)
  then show ?thesis
    using True by (auto simp: FBounded_def word_less_nat_alt word_le_nat_alt)
next
  case False
  have n: "unat n < 2 ^ 64" and l: "unat lo < 2 ^ 64"
    using unsigned_less [of n] unsigned_less [of lo] by simp_all
  have "unat (lo + n) = (unat lo + unat n) mod 2 ^ 64"
    by (simp add: unat_word_ariths)
  also have "\<dots> = unat lo + unat n - 2 ^ 64"
    using False n l by (simp add: mod_if)
  finally have "unat (lo + n) < unat lo"
    using n False by linarith
  then show ?thesis
    using False by (simp add: FBounded_def word_less_nat_alt)
qed

text \<open>
  \<open>LNextPowerOf2\<close> terminates and returns the least power of two that is at least its
  argument, or -1 exactly when the argument exceeds \<open>2 ^ 30\<close>.
\<close>

theorem LNextPowerOf2_correct:
  "(l > 2 ^ 30 \<longrightarrow> LNextPowerOf2 l = - 1) \<and>
   (l \<le> 2 ^ 30 \<longrightarrow>
      (\<exists>k. LNextPowerOf2 l = 2 ^ k \<and> l \<le> 2 ^ k \<and> (\<forall>j<k. (2::int) ^ j < l)))"
proof (intro conjI impI)
  have pow: "FPowerOf2 (word_of_int (lMax div 2 + 1) :: ULONG)"
    by (simp add: FPowerOf2_def lMax_def)
  show "LNextPowerOf2 l = - 1" if "l > 2 ^ 30"
    using that by (simp add: LNextPowerOf2_def lMax_def)
  assume l: "l \<le> 2 ^ 30"
  have "\<exists>k. while (\<lambda>i. i < l) (\<lambda>i. i + i) 1 = 2 ^ k \<and> l \<le> 2 ^ k \<and> (\<forall>j<k. (2::int) ^ j < l)"
  proof (rule while_rule [where P = "\<lambda>i. \<exists>k. i = 2 ^ k \<and> (\<forall>j<k. (2::int) ^ j < l)"
        and r = "measure (\<lambda>i. nat (l - i))"])
    show "\<exists>k. (1::int) = 2 ^ k \<and> (\<forall>j<k. (2::int) ^ j < l)"
      by (rule exI [of _ 0]) simp
  next
    fix s :: int
    assume "\<exists>k. s = 2 ^ k \<and> (\<forall>j<k. (2::int) ^ j < l)" and "s < l"
    then obtain k where "s = 2 ^ k" and "\<forall>j<k. (2::int) ^ j < l" by blast
    with \<open>s < l\<close> show "\<exists>k. s + s = 2 ^ k \<and> (\<forall>j<k. (2::int) ^ j < l)"
      by (intro exI [of _ "Suc k"]) (auto simp: less_Suc_eq)
  next
    fix s :: int
    assume "\<exists>k. s = 2 ^ k \<and> (\<forall>j<k. (2::int) ^ j < l)" and "s < l"
    then have "0 < s" by auto
    with \<open>s < l\<close> show "(s + s, s) \<in> measure (\<lambda>i. nat (l - i))"
      by simp
  qed auto
  moreover have "LNextPowerOf2 l = while (\<lambda>i. i < l) (\<lambda>i. i + i) 1"
    using pow l by (simp add: LNextPowerOf2_def lMax_def)
  ultimately show "\<exists>k. LNextPowerOf2 l = 2 ^ k \<and> l \<le> 2 ^ k \<and> (\<forall>j<k. (2::int) ^ j < l)"
    by simp
qed

theorem LNextPowerOf2_correct_witness:
  "(1000::int) \<le> 2 ^ 30 \<and> (\<exists>k. LNextPowerOf2 1000 = 2 ^ k \<and> 1000 \<le> (2::int) ^ k) \<and>
   (2 ^ 30 + 1 :: int) > 2 ^ 30 \<and> LNextPowerOf2 (2 ^ 30 + 1) = - 1"
  using LNextPowerOf2_correct [of 1000] LNextPowerOf2_correct [of "2 ^ 30 + 1"] by auto

end
