(* ===== verification/Quota.thy ===== *)
theory Quota
  imports Ese_Prelude
begin

text \<open>
  \<open>CQuota\<close> of \<open>ms/cresmgr.hxx\<close>: a counter of free resources that threads decrement
  with a compare-and-swap loop (\<open>FAcquire\<close>) and increment atomically
  (\<open>Release\<close>). The state is the pair of \<open>LONG\<close> fields, kept at 32 bits because
  the loop relies on wrap-around: with no free resource the expected value of the
  compare-and-swap is \<open>0x80000000\<close>, which the counter never holds. The code is modelled
  twice: as the sequential operation, and as a step relation in which any number of threads
  interleave between the read and the compare-and-swap.
\<close>

section \<open>State and operations\<close>

record CQuota =
  m_cQuotaFree :: ULONG
  m_cQuota :: ULONG

definition QUOTA_MAX :: ULONG where "QUOTA_MAX = 0x7FFFFFFF"

definition CQuota_new :: CQuota where
  "CQuota_new = \<lparr>m_cQuotaFree = - 1, m_cQuota = QUOTA_MAX\<rparr>"

definition GetQuota :: "CQuota \<Rightarrow> ULONG" where
  "GetQuota q = (if m_cQuota q <s 0 then QUOTA_MAX else m_cQuota q)"

definition GetQuotaFree :: "CQuota \<Rightarrow> ULONG" where
  "GetQuotaFree q = (if m_cQuota q <s 0 then QUOTA_MAX else m_cQuotaFree q)"

text \<open>\<open>AtomicCompareExchange\<close>: the new value of the target and the value it had before.\<close>

definition AtomicCompareExchange :: "ULONG \<Rightarrow> ULONG \<Rightarrow> ULONG \<Rightarrow> ULONG \<times> ULONG" where
  "AtomicCompareExchange target initial final =
     (if target = initial then final else target, target)"

definition cQuotaFreeAI :: "ULONG \<Rightarrow> ULONG" where
  "cQuotaFreeAI cQuotaFree = (cQuotaFree - 1) AND 0x7FFFFFFF"

definition cQuotaFreeBIExpected :: "ULONG \<Rightarrow> ULONG" where
  "cQuotaFreeBIExpected cQuotaFree = cQuotaFreeAI cQuotaFree + 1"

datatype attempt = Acquired | Retry | Exhausted

text \<open>
  One pass of the loop body after the read: \<open>cQuotaFree\<close> is the value read, \<open>q\<close> the
  state at the compare-and-swap.
\<close>

definition FAcquire_body :: "CQuota \<Rightarrow> ULONG \<Rightarrow> CQuota \<times> attempt" where
  "FAcquire_body q cQuotaFree =
     (let (mem, cQuotaFreeBI) = AtomicCompareExchange (m_cQuotaFree q)
            (cQuotaFreeBIExpected cQuotaFree) (cQuotaFreeAI cQuotaFree);
          q' = q\<lparr>m_cQuotaFree := mem\<rparr>
      in if cQuotaFreeBI = cQuotaFreeBIExpected cQuotaFree then (q', Acquired)
         else if 0 <s cQuotaFreeBIExpected cQuotaFree then (q', Retry)
         else (q', Exhausted))"

definition unlimited :: "CQuota \<Rightarrow> bool" where
  "unlimited q \<longleftrightarrow> m_cQuota q \<ge> QUOTA_MAX"

text \<open>\<open>FAcquire\<close> run without interference: the loop with \<open>fuel\<close> passes.\<close>

fun FAcquire :: "nat \<Rightarrow> CQuota \<Rightarrow> (CQuota \<times> bool) option" where
  "FAcquire 0 q = None"
| "FAcquire (Suc fuel) q =
     (if unlimited q then Some (q, True)
      else case FAcquire_body q (m_cQuotaFree q) of
        (q', Acquired) \<Rightarrow> Some (q', True)
      | (q', Retry) \<Rightarrow> FAcquire fuel q'
      | (q', Exhausted) \<Rightarrow> Some (q', False))"

definition Release :: "CQuota \<Rightarrow> CQuota" where
  "Release q = (if unlimited q then q else q\<lparr>m_cQuotaFree := m_cQuotaFree q + 1\<rparr>)"

section \<open>Threads\<close>

datatype qpc = Outside | AtLoop | HasRead ULONG

record qsys =
  quota :: CQuota
  pcs :: "nat \<Rightarrow> qpc"
  held :: nat

inductive qstep :: "qsys \<Rightarrow> qsys \<Rightarrow> bool" where
  call: "pcs s t = Outside \<Longrightarrow> \<not> unlimited (quota s) \<Longrightarrow>
     qstep s (s\<lparr>pcs := (pcs s)(t := AtLoop)\<rparr>)"
| read: "pcs s t = AtLoop \<Longrightarrow>
     qstep s (s\<lparr>pcs := (pcs s)(t := HasRead (m_cQuotaFree (quota s)))\<rparr>)"
| acquired: "pcs s t = HasRead c \<Longrightarrow> FAcquire_body (quota s) c = (q', Acquired) \<Longrightarrow>
     qstep s (s\<lparr>quota := q', pcs := (pcs s)(t := Outside), held := Suc (held s)\<rparr>)"
| retry: "pcs s t = HasRead c \<Longrightarrow> FAcquire_body (quota s) c = (q', Retry) \<Longrightarrow>
     qstep s (s\<lparr>quota := q', pcs := (pcs s)(t := AtLoop)\<rparr>)"
| exhausted: "pcs s t = HasRead c \<Longrightarrow> FAcquire_body (quota s) c = (q', Exhausted) \<Longrightarrow>
     qstep s (s\<lparr>quota := q', pcs := (pcs s)(t := Outside)\<rparr>)"
| release: "held s = Suc n \<Longrightarrow>
     qstep s (s\<lparr>quota := Release (quota s), held := n\<rparr>)"

text \<open>Start states: all \<open>n\<close> resources free and nobody in the code.\<close>

inductive qreach :: "nat \<Rightarrow> qsys \<Rightarrow> bool" for n :: nat where
  start: "n < 2 ^ 31 - 1 \<Longrightarrow>
     qreach n \<lparr>quota = \<lparr>m_cQuotaFree = word_of_nat n, m_cQuota = word_of_nat n\<rparr>,
               pcs = (\<lambda>_. Outside), held = 0\<rparr>"
| step: "qreach n s \<Longrightarrow> qstep s s' \<Longrightarrow> qreach n s'"

inductive_cases qstepE: "qstep s s'"

section \<open>The compare-and-swap arithmetic\<close>

lemma and_mask31: "unat (w AND 0x7FFFFFFF :: ULONG) = unat w mod 2 ^ 31"
proof -
  have "(0x7FFFFFFF :: ULONG) = mask 31"
    by (simp add: mask_eq_exp_minus_1)
  then have "w AND 0x7FFFFFFF = take_bit 31 w"
    by (simp only: take_bit_eq_mask)
  moreover have "unat (take_bit 31 w) = take_bit 31 (unat w)"
    by (rule unsigned_take_bit_eq)
  ultimately show ?thesis
    by (simp only: take_bit_eq_mod)
qed

lemma expected_pos:
  assumes "0 < unat c" and "unat c < 2 ^ 31"
  shows "unat (cQuotaFreeAI c) = unat c - 1" and "cQuotaFreeBIExpected c = c"
    and "0 <s cQuotaFreeBIExpected c"
proof -
  have "unat (c - 1) = unat c - 1"
    using assms by (simp add: unat_sub_if_size word_size unat_minus_one)
  then show ai: "unat (cQuotaFreeAI c) = unat c - 1"
    using assms by (simp add: cQuotaFreeAI_def and_mask31)
  have "unat (cQuotaFreeBIExpected c) = unat c"
    using assms ai by (simp add: cQuotaFreeBIExpected_def unat_word_ariths)
  then show e: "cQuotaFreeBIExpected c = c"
    by (simp add: word_unat_eq_iff)
  have "int (unat c) < int (2 ^ 31)" and "int 0 < int (unat c)"
    using assms by (simp_all only: of_nat_less_iff)
  then have "uint c < 2 ^ 31" and "0 < uint c"
    by simp_all
  then have "sint c = uint c"
    by (simp add: sint_uint signed_take_bit_int_eq_self_iff)
  then show "0 <s cQuotaFreeBIExpected c"
    using \<open>0 < uint c\<close> by (simp add: e word_sless_alt)
qed

lemma expected_zero: "cQuotaFreeBIExpected 0 = 0x80000000"
  by (simp add: cQuotaFreeBIExpected_def cQuotaFreeAI_def)

section \<open>Invariant\<close>

definition qinv :: "nat \<Rightarrow> qsys \<Rightarrow> bool" where
  "qinv n s \<longleftrightarrow> n < 2 ^ 31 - 1 \<and> m_cQuota (quota s) = word_of_nat n \<and>
     unat (m_cQuotaFree (quota s)) + held s = n \<and>
     (\<forall>t c. pcs s t = HasRead c \<longrightarrow> unat c \<le> n)"

lemma unat_of_nat31: "n < 2 ^ 31 \<Longrightarrow> unat (word_of_nat n :: ULONG) = n"
  by (simp add: unat_of_nat take_bit_nat_eq_self_iff)

lemma qinv_limited: "qinv n s \<Longrightarrow> \<not> unlimited (quota s)"
  by (simp add: qinv_def unlimited_def QUOTA_MAX_def word_le_nat_alt unat_of_nat31)

text \<open>A successful compare-and-swap took one of at least one free resources.\<close>

lemma body_Acquired:
  assumes "FAcquire_body q c = (q', Acquired)" and "unat c < 2 ^ 31 - 1"
    and "unat (m_cQuotaFree q) < 2 ^ 31 - 1"
  shows "0 < unat (m_cQuotaFree q)" and "c = m_cQuotaFree q"
    and "unat (m_cQuotaFree q') = unat (m_cQuotaFree q) - 1" and "m_cQuota q' = m_cQuota q"
proof -
  from assms(1) have eq: "m_cQuotaFree q = cQuotaFreeBIExpected c"
    and q': "q' = q\<lparr>m_cQuotaFree := cQuotaFreeAI c\<rparr>"
    by (auto simp: FAcquire_body_def AtomicCompareExchange_def Let_def split: if_splits)
  have "0 < unat c"
  proof (rule ccontr)
    assume "\<not> 0 < unat c"
    then have "c = 0"
      by (simp add: unat_eq_0)
    then show False
      using eq assms(3) by (simp add: expected_zero)
  qed
  moreover note expected_pos [OF this]
  ultimately show "0 < unat (m_cQuotaFree q)" "c = m_cQuotaFree q"
    "unat (m_cQuotaFree q') = unat (m_cQuotaFree q) - 1" "m_cQuota q' = m_cQuota q"
    using assms(2) eq q' by simp_all
qed

lemma body_not_Acquired:
  "FAcquire_body q c = (q', r) \<Longrightarrow> r \<noteq> Acquired \<Longrightarrow> q' = q"
  by (auto simp: FAcquire_body_def AtomicCompareExchange_def Let_def split: if_splits)

lemma body_Exhausted:
  "FAcquire_body q c = (q', Exhausted) \<Longrightarrow> unat c < 2 ^ 31 - 1 \<Longrightarrow> c = 0"
  using expected_pos(3) [of c]
  by (cases "c = 0")
    (auto simp: FAcquire_body_def AtomicCompareExchange_def Let_def unat_gt_0 split: if_splits)

lemma body_Retry:
  "FAcquire_body q c = (q', Retry) \<Longrightarrow> unat c < 2 ^ 31 - 1 \<Longrightarrow> c \<noteq> m_cQuotaFree q"
  using expected_pos(2) [of c]
  by (cases "c = 0")
    (auto simp: FAcquire_body_def AtomicCompareExchange_def Let_def unat_gt_0 expected_zero
      word_sless_alt split: if_splits)

lemma qinv_step: "qstep s s' \<Longrightarrow> qinv n s \<Longrightarrow> qinv n s'"
proof (erule qstepE, goal_cases)
  case (3 t c q')
  have "unat c < 2 ^ 31 - 1" and "unat (m_cQuotaFree (quota s)) < 2 ^ 31 - 1"
    using 3 unfolding qinv_def by (metis le_less_trans le_add1)+
  from body_Acquired [OF 3(4) this] 3 show ?case
    by (auto simp: qinv_def)
next
  case (6 k)
  note lim = qinv_limited [OF 6(1)]
  from 6 have "unat (m_cQuotaFree (quota s)) + Suc k = n" "n < 2 ^ 31 - 1"
    by (auto simp: qinv_def)
  then have "unat (m_cQuotaFree (quota s) + 1) = Suc (unat (m_cQuotaFree (quota s)))"
    by (simp add: unat_word_ariths)
  with 6 lim show ?case
    by (auto simp: qinv_def Release_def)
qed (auto simp: qinv_def dest!: body_not_Acquired)

lemma qreach_qinv: "qreach n s \<Longrightarrow> qinv n s"
proof (induction rule: qreach.induct)
  case start
  then show ?case by (simp add: qinv_def unat_of_nat31)
next
  case (step s s')
  then show ?case by (blast intro: qinv_step)
qed

section \<open>Properties\<close>

text \<open>
  C22: however the threads interleave, the free counter and the resources handed out always
  add up to the quota; in particular the compare-and-swap loop never hands out more than the
  quota and the counter never goes negative.
\<close>

theorem quota_never_exceeded:
  assumes "qreach n s"
  shows "unat (m_cQuotaFree (quota s)) + held s = n \<and> held s \<le> n"
  using qreach_qinv [OF assms] by (auto simp: qinv_def)

text \<open>
  A run that uses a quota of one up: the next thread reads zero free resources and its
  compare-and-swap gives up.
\<close>

definition qsys0 :: qsys where
  "qsys0 = \<lparr>quota = \<lparr>m_cQuotaFree = word_of_nat 1, m_cQuota = word_of_nat 1\<rparr>,
            pcs = (\<lambda>_. Outside), held = 0\<rparr>"

lemma qreach_one:
  "qreach 1 (qsys0\<lparr>quota := \<lparr>m_cQuotaFree = 0, m_cQuota = 1\<rparr>,
                   pcs := ((pcs qsys0)(0 := Outside)), held := 1\<rparr>)"
proof -
  let ?s1 = "qsys0\<lparr>pcs := (pcs qsys0)(0 := AtLoop)\<rparr>"
  let ?s2 = "?s1\<lparr>pcs := (pcs ?s1)(0 := HasRead 1)\<rparr>"
  have "qreach 1 qsys0"
    unfolding qsys0_def by (rule qreach.start) simp
  then have "qreach 1 ?s1"
    by (rule qreach.step) (rule qstep.call, simp_all add: qsys0_def unlimited_def QUOTA_MAX_def word_le_nat_alt)
  then have "qreach 1 ?s2"
    by (rule qreach.step) (use qstep.read [of ?s1 0] in \<open>simp add: qsys0_def\<close>)
  moreover have "FAcquire_body (quota ?s2) 1 = (\<lparr>m_cQuotaFree = 0, m_cQuota = 1\<rparr>, Acquired)"
    by (simp add: FAcquire_body_def AtomicCompareExchange_def qsys0_def cQuotaFreeBIExpected_def
        cQuotaFreeAI_def)
  then have "qstep ?s2 (?s2\<lparr>quota := \<lparr>m_cQuotaFree = 0, m_cQuota = 1\<rparr>,
      pcs := (pcs ?s2)(0 := Outside), held := Suc (held ?s2)\<rparr>)"
    by (rule qstep.acquired [rotated]) simp
  ultimately have "qreach 1 (?s2\<lparr>quota := \<lparr>m_cQuotaFree = 0, m_cQuota = 1\<rparr>,
      pcs := (pcs ?s2)(0 := Outside), held := Suc (held ?s2)\<rparr>)"
    by (rule qreach.step)
  then show ?thesis
    by (simp add: qsys0_def)
qed

theorem quota_never_exceeded_witness:
  "held (qsys0\<lparr>quota := \<lparr>m_cQuotaFree = 0, m_cQuota = 1\<rparr>,
               pcs := ((pcs qsys0)(0 := Outside)), held := 1\<rparr>) \<le> 1"
  by (rule conjunct2 [OF quota_never_exceeded [OF qreach_one]])

text \<open>
  The loop is lock-free and its answers are right: a retry happens only when another
  thread changed the counter since it was read, and giving up happens only when the value read
  was zero.
\<close>

theorem quota_attempt_outcome:
  assumes "qreach n s" and "pcs s t = HasRead c" and "FAcquire_body (quota s) c = (q', r)"
  shows "(r = Acquired \<longrightarrow> c = m_cQuotaFree (quota s) \<and> 0 < unat c
            \<and> unat (m_cQuotaFree q') = unat (m_cQuotaFree (quota s)) - 1)
       \<and> (r = Retry \<longrightarrow> c \<noteq> m_cQuotaFree (quota s) \<and> q' = quota s)
       \<and> (r = Exhausted \<longrightarrow> c = 0 \<and> q' = quota s)"
proof -
  from qreach_qinv [OF assms(1)] assms(2)
  have c: "unat c < 2 ^ 31 - 1" and m: "unat (m_cQuotaFree (quota s)) < 2 ^ 31 - 1"
    unfolding qinv_def by (metis le_less_trans le_add1)+
  show ?thesis
    using assms(3) body_Acquired [OF _ c m] body_not_Acquired body_Retry [OF _ c]
      body_Exhausted [OF _ c]
    by auto
qed

theorem quota_attempt_outcome_witness:
  "\<exists>s q'. qreach 0 s \<and> pcs s 0 = HasRead 0 \<and> FAcquire_body (quota s) 0 = (q', Exhausted)
     \<and> q' = quota s"
proof -
  let ?s0 = "\<lparr>quota = \<lparr>m_cQuotaFree = word_of_nat 0, m_cQuota = word_of_nat 0\<rparr>,
              pcs = (\<lambda>_. Outside), held = 0\<rparr> :: qsys"
  let ?s1 = "?s0\<lparr>pcs := (pcs ?s0)(0 := AtLoop)\<rparr>"
  let ?s2 = "?s1\<lparr>pcs := (pcs ?s1)(0 := HasRead 0)\<rparr>"
  have "qreach 0 ?s0"
    by (rule qreach.start) simp
  then have "qreach 0 ?s1"
    by (rule qreach.step) (rule qstep.call, simp_all add: unlimited_def QUOTA_MAX_def word_le_nat_alt)
  then have r: "qreach 0 ?s2"
    by (rule qreach.step) (use qstep.read [of ?s1 0] in simp)
  have b: "FAcquire_body (quota ?s2) 0 = (quota ?s2, Exhausted)"
    by (simp add: FAcquire_body_def AtomicCompareExchange_def expected_zero word_sless_alt)
  from quota_attempt_outcome [OF r _ b] r b show ?thesis
    by auto
qed

text \<open>
  Run without interference, \<open>FAcquire\<close> returns in one pass; it succeeds and takes
  exactly one resource if and only if one is free, and \<open>Release\<close> puts it back.
\<close>

theorem FAcquire_sequential:
  assumes "\<not> unlimited q" and "unat (m_cQuotaFree q) \<le> unat (m_cQuota q)"
  shows "\<exists>q'. FAcquire 1 q = Some (q', 0 < unat (m_cQuotaFree q))
     \<and> (0 < unat (m_cQuotaFree q) \<longrightarrow>
          unat (m_cQuotaFree q') = unat (m_cQuotaFree q) - 1 \<and> Release q' = q)
     \<and> (unat (m_cQuotaFree q) = 0 \<longrightarrow> q' = q)"
proof -
  have lt: "unat (m_cQuotaFree q) < 2 ^ 31 - 1"
    using assms by (simp add: unlimited_def QUOTA_MAX_def word_le_nat_alt)
  show ?thesis
  proof (cases "0 < unat (m_cQuotaFree q)")
    case True
    note e = expected_pos [OF True]
    have "FAcquire_body q (m_cQuotaFree q)
        = (q\<lparr>m_cQuotaFree := cQuotaFreeAI (m_cQuotaFree q)\<rparr>, Acquired)"
      using lt e by (simp add: FAcquire_body_def AtomicCompareExchange_def)
    moreover have "cQuotaFreeAI (m_cQuotaFree q) + 1 = m_cQuotaFree q"
      using lt e(2) by (simp add: cQuotaFreeBIExpected_def)
    moreover have "Suc 0 = (1 :: nat)" by simp
    ultimately show ?thesis
      using assms lt e(1) True by (auto simp: Release_def unlimited_def One_nat_def)
  next
    case False
    then have z: "m_cQuotaFree q = 0"
      by (simp add: unat_eq_0)
    then have "FAcquire_body q (m_cQuotaFree q) = (q, Exhausted)"
      by (simp add: FAcquire_body_def AtomicCompareExchange_def expected_zero word_sless_alt)
    then show ?thesis
      using assms z by (simp add: One_nat_def)
  qed
qed

theorem FAcquire_sequential_witness:
  "\<exists>q'. FAcquire 1 \<lparr>m_cQuotaFree = 3, m_cQuota = 5\<rparr> = Some (q', True)
     \<and> unat (m_cQuotaFree q') = 2"
  using FAcquire_sequential [of "\<lparr>m_cQuotaFree = 3, m_cQuota = 5\<rparr>"]
  by (auto simp: unlimited_def QUOTA_MAX_def word_le_nat_alt)

end
