(* ===== verification/Checksum.thy ===== *)
theory Checksum
  imports Ese_Prelude
begin

text \<open>
  Page checksums: \<open>ms/checksum.cxx\<close> and the scalar routines of
  \<open>ms/checksum_amd64.cxx\<close>. Memory is a function from byte offsets to bytes and
  \<open>pdw pb i\<close>, \<open>pqw pb i\<close> are the little-endian 32-bit and 64-bit views
  \<open>((ULONG* )pb)[i]\<close>, \<open>((unsigned __int64* )pb)[i]\<close>. A page of \<open>cb\<close> bytes
  is checksummed by an exclusive-or of its 32-bit rows (\<open>old format\<close>) or by that and an
  error-correcting code (\<open>new format\<close>, \<open>XECHECKSUM\<close>: code in the upper half).

  The section on the code states what every routine must compute, \<open>ecc_spec\<close>: an
  exclusive-or of one code word per odd row and per odd column. The locale \<open>xe_routine\<close>
  is the contract of a new-format routine; correction of single-bit errors and detection of
  double-bit errors are proved once inside it.
\<close>

section \<open>Memory views\<close>

type_synonym mem = "nat \<Rightarrow> BYTE"

definition pdw :: "mem \<Rightarrow> nat \<Rightarrow> ULONG" where
  "pdw pb i = ucast (pb (4 * i)) OR push_bit 8 (ucast (pb (4 * i + 1)))
     OR push_bit 16 (ucast (pb (4 * i + 2))) OR push_bit 24 (ucast (pb (4 * i + 3)))"

definition pqw :: "mem \<Rightarrow> nat \<Rightarrow> QWORD" where
  "pqw pb i = ucast (pdw pb (2 * i)) OR push_bit 32 (ucast (pdw pb (2 * i + 1)))"

section \<open>Old format\<close>

text \<open>
  \<open>while ( ( cbT -= cbStep ) >= 0 )\<close>: \<open>cbT\<close> is the signed byte count left,
  \<open>k\<close> the row the pointer stands at.
\<close>

function old_rows :: "(nat \<Rightarrow> ULONG) \<Rightarrow> int \<Rightarrow> nat \<Rightarrow> ULONG \<Rightarrow> ULONG" where
  "old_rows p cbT k dwChecksum =
     (let cbT = cbT - 32
      in if cbT \<ge> 0
         then old_rows p cbT (k + 8)
                (dwChecksum XOR (p k XOR p (k + 1) XOR p (k + 2) XOR p (k + 3)
                   XOR p (k + 4) XOR p (k + 5) XOR p (k + 6) XOR p (k + 7)))
         else dwChecksum)"
  by pat_completeness auto
termination
  by (relation "measure (\<lambda>(p, cbT, k, c). nat cbT)") auto

declare old_rows.simps [simp del]

definition ChecksumOldFormatSlowly :: "mem \<Rightarrow> nat \<Rightarrow> ULONG" where
  "ChecksumOldFormatSlowly pb cb = old_rows (pdw pb) (int cb) 0 (0x89abcdef XOR pdw pb 0)"

text \<open>The SSE routine is the same loop with a prefetch in it.\<close>

definition ChecksumOldFormatSSE :: "mem \<Rightarrow> nat \<Rightarrow> ULONG" where
  "ChecksumOldFormatSSE pb cb = old_rows (pdw pb) (int cb) 0 (0x89abcdef XOR pdw pb 0)"

function old_rows64 :: "(nat \<Rightarrow> QWORD) \<Rightarrow> int \<Rightarrow> nat \<Rightarrow> QWORD \<Rightarrow> QWORD" where
  "old_rows64 p cbT k qwChecksum =
     (let cbT = cbT - 32
      in if cbT \<ge> 0
         then old_rows64 p cbT (k + 4)
                (qwChecksum XOR p k XOR p (k + 1) XOR p (k + 2) XOR p (k + 3))
         else qwChecksum)"
  by pat_completeness auto
termination
  by (relation "measure (\<lambda>(p, cbT, k, c). nat cbT)") auto

declare old_rows64.simps [simp del]

definition ChecksumOldFormat64Bit :: "mem \<Rightarrow> nat \<Rightarrow> ULONG" where
  "ChecksumOldFormat64Bit pb cb =
     (let qwChecksum = old_rows64 (pqw pb) (int cb) 0 (0 XOR (pqw pb 0 AND 0x00000000FFFFFFFF));
          qwUpper = drop_bit 32 qwChecksum;
          qwLower = qwChecksum AND 0x00000000FFFFFFFF;
          qwChecksum = qwUpper XOR qwLower
      in ucast qwChecksum XOR 0x89abcdef)"

section \<open>Parity\<close>

definition g_bParityLookupTable :: "int list" where
  "g_bParityLookupTable =
  [ 0, -1, -1, 0, -1, 0, 0, -1, -1, 0, 0, -1, 0, -1, -1, 0,
    -1, 0, 0, -1, 0, -1, -1, 0, 0, -1, -1, 0, -1, 0, 0, -1,
    -1, 0, 0, -1, 0, -1, -1, 0, 0, -1, -1, 0, -1, 0, 0, -1,
    0, -1, -1, 0, -1, 0, 0, -1, -1, 0, 0, -1, 0, -1, -1, 0,
    -1, 0, 0, -1, 0, -1, -1, 0, 0, -1, -1, 0, -1, 0, 0, -1,
    0, -1, -1, 0, -1, 0, 0, -1, -1, 0, 0, -1, 0, -1, -1, 0,
    0, -1, -1, 0, -1, 0, 0, -1, -1, 0, 0, -1, 0, -1, -1, 0,
    -1, 0, 0, -1, 0, -1, -1, 0, 0, -1, -1, 0, -1, 0, 0, -1,
    -1, 0, 0, -1, 0, -1, -1, 0, 0, -1, -1, 0, -1, 0, 0, -1,
    0, -1, -1, 0, -1, 0, 0, -1, -1, 0, 0, -1, 0, -1, -1, 0,
    0, -1, -1, 0, -1, 0, 0, -1, -1, 0, 0, -1, 0, -1, -1, 0,
    -1, 0, 0, -1, 0, -1, -1, 0, 0, -1, -1, 0, -1, 0, 0, -1,
    0, -1, -1, 0, -1, 0, 0, -1, -1, 0, 0, -1, 0, -1, -1, 0,
    -1, 0, 0, -1, 0, -1, -1, 0, 0, -1, -1, 0, -1, 0, 0, -1,
    -1, 0, 0, -1, 0, -1, -1, 0, 0, -1, -1, 0, -1, 0, 0, -1,
    0, -1, -1, 0, -1, 0, 0, -1, -1, 0, 0, -1, 0, -1, -1, 0]"

text \<open>The \<open>LONG\<close> result, as the 32-bit pattern the callers mask with.\<close>

definition lParityMask :: "ULONG \<Rightarrow> ULONG" where
  "lParityMask dw =
     (let dw1 = drop_bit 16 dw;
          dw2 = dw XOR dw1;
          dw3 = drop_bit 8 dw2;
          dw4 = dw2 XOR dw3
      in word_of_int (g_bParityLookupTable ! unat (dw4 AND 0xff)))"

section \<open>New format\<close>

definition MakeChecksumFromECCXORAndPgno :: "ULONG \<Rightarrow> ULONG \<Rightarrow> ULONG \<Rightarrow> QWORD" where
  "MakeChecksumFromECCXORAndPgno eccChecksum xorChecksum pgno =
     (let low = ucast (xorChecksum XOR pgno) :: QWORD;
          high = push_bit 32 (ucast eccChecksum)
      in high OR low)"

record rows =
  p0 :: ULONG
  p1 :: ULONG
  p2 :: ULONG
  p3 :: ULONG
  pp :: ULONG
  idxp :: ULONG

text \<open>
  The loop body from the label \<open>Start\<close>: \<open>pT0\<close> and \<open>pT1\<close> have been read, or
  are zero on the first pass over a header block.
\<close>

definition rows_body :: "(nat \<Rightarrow> ULONG) \<Rightarrow> nat \<Rightarrow> ULONG \<Rightarrow> ULONG \<Rightarrow> rows \<Rightarrow> rows" where
  "rows_body p i pT0 pT1 st =
     (let pT2 = p (i + 2); pT3 = p (i + 3);
          st = st\<lparr>p0 := p0 st XOR pT0, p1 := p1 st XOR pT1,
                  p2 := p2 st XOR pT2, p3 := p3 st XOR pT3,
                  pp := pp st XOR (idxp st AND lParityMask (pT0 XOR pT1 XOR pT2 XOR pT3)),
                  idxp := idxp st + 0xff800080\<rparr>;
          pT4 = p (i + 4); pT5 = p (i + 5); pT6 = p (i + 6); pT7 = p (i + 7)
      in st\<lparr>p0 := p0 st XOR pT4, p1 := p1 st XOR pT5,
            p2 := p2 st XOR pT6, p3 := p3 st XOR pT7,
            pp := pp st XOR (idxp st AND lParityMask (pT4 XOR pT5 XOR pT6 XOR pT7)),
            idxp := idxp st + 0xff800080\<rparr>)"

function rows_loop :: "(nat \<Rightarrow> ULONG) \<Rightarrow> nat \<Rightarrow> nat \<Rightarrow> ULONG \<Rightarrow> ULONG \<Rightarrow> rows \<Rightarrow> rows" where
  "rows_loop p cdw i pT0 pT1 st =
     (let st = rows_body p i pT0 pT1 st; i = i + 8
      in if i < cdw then rows_loop p cdw i (p (i + 0)) (p (i + 1)) st else st)"
  by pat_completeness auto
termination
  by (relation "measure (\<lambda>(p, cdw, i, a, b, st). cdw - i)") auto

declare rows_loop.simps [simp del]

definition rows_scan :: "(nat \<Rightarrow> ULONG) \<Rightarrow> nat \<Rightarrow> bool \<Rightarrow> rows" where
  "rows_scan p cdw fHeaderBlock =
     (let st = \<lparr>p0 = 0, p1 = 0, p2 = 0, p3 = 0, pp = 0, idxp = 0xff800000\<rparr>
      in if fHeaderBlock then rows_loop p cdw 0 0 0 st
         else rows_loop p cdw 0 (p 0) (p 1) st)"

text \<open>
  \<open>for ( ULONG i = 1; i; i += i )\<close>: \<open>i\<close> runs through the 32 powers of two and wraps
  to 0. The list is of the exponents.
\<close>

fun cols_loop :: "ULONG \<Rightarrow> nat list \<Rightarrow> ULONG \<Rightarrow> ULONG \<Rightarrow> ULONG" where
  "cols_loop r2 [] r idxr = r"
| "cols_loop r2 (c # cs) r idxr =
     (let i = push_bit c 1; msk = (if r2 AND i \<noteq> 0 then - 1 else 0)
      in cols_loop r2 cs (r XOR (msk AND idxr)) (idxr + 0xffff0001))"

text \<open>The part of the routine after the loop: the code, and the column parity \<open>r2\<close>.\<close>

definition rows_finish :: "rows \<Rightarrow> nat \<Rightarrow> ULONG \<times> ULONG" where
  "rows_finish st cb =
     (let p = pp st;
          p = p OR (0x00400000 AND lParityMask (p0 st XOR p1 st));
          p = p OR (0x00000040 AND lParityMask (p2 st XOR p3 st));
          r0 = p0 st XOR p2 st;
          r1 = p1 st XOR p3 st;
          p = p OR (0x00200000 AND lParityMask r0);
          p = p OR (0x00000020 AND lParityMask r1);
          r2 = r0 XOR r1;
          r = cols_loop r2 [0..<32] 0 0xffff0000;
          msk = push_bit 19 (word_of_nat cb) - 1;
          ecc = (p AND 0xffe0ffe0 AND msk) OR (r AND 0x001f001f)
      in (ecc, r2))"

definition ChecksumNewFormatSlowly :: "mem \<Rightarrow> nat \<Rightarrow> ULONG \<Rightarrow> bool \<Rightarrow> QWORD" where
  "ChecksumNewFormatSlowly pb cb pgno fHeaderBlock =
     (let cdw = cb div 4;
          st = rows_scan (pdw pb) cdw fHeaderBlock;
          (ecc, xorv) = rows_finish st cb
      in MakeChecksumFromECCXORAndPgno ecc xorv pgno)"

text \<open>The SSE routine is the same computation with a prefetch in the loop.\<close>

definition ChecksumNewFormatSSE :: "mem \<Rightarrow> nat \<Rightarrow> ULONG \<Rightarrow> bool \<Rightarrow> QWORD" where
  "ChecksumNewFormatSSE pb cb pgno fHeaderBlock =
     (let cdw = cb div 4;
          st = rows_scan (pdw pb) cdw fHeaderBlock;
          (ecc, xorv) = rows_finish st cb
      in MakeChecksumFromECCXORAndPgno ecc xorv pgno)"

definition DwXORChecksumBasic :: "mem \<Rightarrow> nat \<Rightarrow> ULONG" where
  "DwXORChecksumBasic pb cb = old_rows (pdw pb) (int cb) 0 (pdw pb 0 XOR pdw pb 1)"

definition ChecksumNewFormatBasic :: "mem \<Rightarrow> nat \<Rightarrow> ULONG \<Rightarrow> bool \<Rightarrow> QWORD" where
  "ChecksumNewFormatBasic pb cb pgno fHeaderBlock =
     (let cdw = cb div 4;
          st = rows_scan (pdw pb) cdw fHeaderBlock;
          (eccChecksum, _) = rows_finish st cb;
          xorChecksum = DwXORChecksumBasic pb cb
      in MakeChecksumFromECCXORAndPgno eccChecksum xorChecksum pgno)"

text \<open>The row-by-row routine: accumulators \<open>(dwColumnParity, p, q)\<close> and \<open>(r, s)\<close>.\<close>

fun row_scan64 :: "(nat \<Rightarrow> ULONG) \<Rightarrow> nat list \<Rightarrow> ULONG \<times> ULONG \<times> ULONG \<Rightarrow> ULONG \<times> ULONG \<times> ULONG" where
  "row_scan64 rg [] acc = acc"
| "row_scan64 rg (iRow # is) (dwColumnParity, p, q) =
     (let dwRow = rg iRow; maskRow = lParityMask dwRow
      in row_scan64 rg is
           (dwColumnParity XOR dwRow,
            p XOR (maskRow AND word_of_nat iRow),
            q XOR (maskRow AND NOT (word_of_nat iRow))))"

fun col_scan64 :: "ULONG \<Rightarrow> nat list \<Rightarrow> ULONG \<times> ULONG \<Rightarrow> ULONG \<times> ULONG" where
  "col_scan64 dwColumnParity [] acc = acc"
| "col_scan64 dwColumnParity (iColumn # is) (r, s) =
     (let maskColumn = (if dwColumnParity AND push_bit iColumn 1 \<noteq> 0 then - 1 else 0)
      in col_scan64 dwColumnParity is
           (r XOR (maskColumn AND word_of_nat iColumn),
            s XOR (maskColumn AND NOT (word_of_nat iColumn))))"

definition ChecksumNewFormat64Bit :: "mem \<Rightarrow> nat \<Rightarrow> ULONG \<Rightarrow> bool \<Rightarrow> QWORD" where
  "ChecksumNewFormat64Bit pb cb pgno fHeaderBlock =
     (let cColumn = 32; cRow = cb div (cColumn div 8);
          (dwColumnParity, p, q) =
             row_scan64 (pdw pb) [(if fHeaderBlock then 2 else 0)..<cRow] (0, 0, 0);
          (r, s) = col_scan64 dwColumnParity [0..<cColumn] (0, 0);
          ulEcc = push_bit 21 (q AND (word_of_nat cRow - 1))
               OR push_bit 16 (s AND (word_of_nat cColumn - 1))
               OR push_bit 5 (p AND (word_of_nat cRow - 1))
               OR push_bit 0 (r AND (word_of_nat cColumn - 1));
          ulXor = dwColumnParity
      in MakeChecksumFromECCXORAndPgno ulEcc ulXor pgno)"

section \<open>Reading a checksum\<close>

definition DwECCChecksumFromXEChecksum :: "QWORD \<Rightarrow> ULONG" where
  "DwECCChecksumFromXEChecksum checksum = ucast (drop_bit 32 checksum)"

definition DwXORChecksumFromXEChecksum :: "QWORD \<Rightarrow> ULONG" where
  "DwXORChecksumFromXEChecksum checksum = ucast (checksum AND 0xffffffff)"

fun CbitSet_loop :: "ULONG \<Rightarrow> nat list \<Rightarrow> nat \<Rightarrow> nat" where
  "CbitSet_loop dw [] cbit = cbit"
| "CbitSet_loop dw (ibit # is) cbit =
     CbitSet_loop dw is (if dw AND push_bit ibit 1 \<noteq> 0 then Suc cbit else cbit)"

definition CbitSet :: "ULONG \<Rightarrow> nat" where
  "CbitSet dw = CbitSet_loop dw [0..<32] 0"

text \<open>The two overloads: on the 32-bit code and on the whole \<open>XECHECKSUM\<close>.\<close>

definition FECCErrorIsCorrectable32 :: "nat \<Rightarrow> ULONG \<Rightarrow> ULONG \<Rightarrow> bool" where
  "FECCErrorIsCorrectable32 cb dwECCChecksumExpected dwECCChecksumActual =
     (let dwEcc = dwECCChecksumActual XOR dwECCChecksumExpected;
          ulMask = push_bit 3 (word_of_nat cb) - 1;
          ulX = (drop_bit 16 dwEcc XOR dwEcc) AND ulMask
      in ulMask = ulX)"

definition FECCErrorIsCorrectable :: "nat \<Rightarrow> QWORD \<Rightarrow> QWORD \<Rightarrow> bool" where
  "FECCErrorIsCorrectable cb xeChecksumExpected xeChecksumActual =
     (let dwECCChecksumExpected = DwECCChecksumFromXEChecksum xeChecksumExpected;
          dwECCChecksumActual = DwECCChecksumFromXEChecksum xeChecksumActual
      in if FECCErrorIsCorrectable32 cb dwECCChecksumExpected dwECCChecksumActual
         then (let dwXor = DwXORChecksumFromXEChecksum xeChecksumActual
                       XOR DwXORChecksumFromXEChecksum xeChecksumExpected
               in if 1 = CbitSet dwXor then True else False)
         else False)"

definition ulMax :: ULONG where "ulMax = 0xFFFFFFFF"

definition IbitCorrupted32 :: "nat \<Rightarrow> ULONG \<Rightarrow> ULONG \<Rightarrow> ULONG" where
  "IbitCorrupted32 cb dwECCChecksumExpected dwECCChecksumActual =
     (let dwEcc = dwECCChecksumActual XOR dwECCChecksumExpected
      in if dwEcc = 0 then ulMax
         else (let ibitCorrupted = dwEcc AND 0xffff;
                   ibCorrupted = ibitCorrupted div 8
               in if ibCorrupted \<ge> word_of_nat cb then ulMax else ibitCorrupted))"

definition IbitCorrupted :: "nat \<Rightarrow> QWORD \<Rightarrow> QWORD \<Rightarrow> ULONG" where
  "IbitCorrupted cb xeChecksumExpected xeChecksumActual =
     IbitCorrupted32 cb (DwECCChecksumFromXEChecksum xeChecksumExpected)
       (DwECCChecksumFromXEChecksum xeChecksumActual)"

section \<open>Parity is linear\<close>

primrec parn :: "ULONG \<Rightarrow> nat \<Rightarrow> bool" where
  "parn w 0 = False"
| "parn w (Suc n) = (parn w n \<noteq> bit w n)"

definition par :: "ULONG \<Rightarrow> bool" where
  "par w = parn w 32"

definition sel :: "bool \<Rightarrow> 'a::len word \<Rightarrow> 'a word" where
  "sel b w = (if b then w else 0)"

lemma parn_XOR: "parn (a XOR b) n = (parn a n \<noteq> parn b n)"
  by (induction n) (auto simp: bit_xor_iff)

lemma parn_0 [simp]: "parn 0 n = False"
  by (induction n) auto

lemma parn_add: "parn w (m + n) = (parn w m \<noteq> parn (drop_bit m w) n)"
  by (induction n) (auto simp: bit_drop_bit_eq add.commute)

lemma par_0 [simp]: "par 0 = False"
  by (simp add: par_def)

lemma par_XOR: "par (a XOR b) = (par a \<noteq> par b)"
  by (simp add: par_def parn_XOR)

lemma sel_XOR: "sel (a \<noteq> b) w = sel a w XOR sel b w"
  by (simp add: sel_def)

lemma sel_dist: "sel a (u XOR v) = sel a u XOR sel a v"
  by (simp add: sel_def)

lemma sel_simps [simp]: "sel True w = w" "sel False w = 0"
  by (simp_all add: sel_def)

lemma sel_hom: "h 0 = 0 \<Longrightarrow> h (sel b w) = sel b (h w)"
  by (simp add: sel_def)

lemma parn_take_bit: "n \<le> m \<Longrightarrow> parn (take_bit m w) n = parn w n"
  by (induction n) (auto simp: bit_take_bit_iff)

lemma par_fold: "par w = parn (let v = w XOR drop_bit 16 w in v XOR drop_bit 8 v) 8"
  using parn_add [of w 16 16] parn_add [of "w XOR drop_bit 16 w" 8 8]
  by (simp add: par_def parn_XOR Let_def)

lemma table_correct:
  "g_bParityLookupTable = map (\<lambda>x. if parn (word_of_nat x) 8 then - 1 else 0) [0..<256]"
  by code_simp

lemma lParityMask_sel: "lParityMask w = sel (par w) (- 1)"
proof -
  define v where "v = w XOR drop_bit 16 w"
  define u where "u = v XOR drop_bit 8 v"
  have ff: "u AND 0xff = take_bit 8 u"
    by (simp add: take_bit_eq_mask mask_eq_exp_minus_1)
  have lt: "unat (take_bit 8 u) < 256"
    using take_bit_nat_less_exp [of 8 "unat u"] by (simp only: unsigned_take_bit_eq) simp
  have "lParityMask w = word_of_int (g_bParityLookupTable ! unat (take_bit 8 u))"
    by (simp only: lParityMask_def Let_def ff flip: v_def u_def)
  also have "\<dots> = word_of_int (if parn (take_bit 8 u) 8 then - 1 else 0)"
    using lt by (simp add: table_correct)
  also have "parn (take_bit 8 u) 8 = par w"
    by (simp only: parn_take_bit par_fold u_def v_def Let_def order.refl)
  also have "word_of_int (if par w then - 1 else 0) = sel (par w) (- 1)"
    by (simp add: sel_def)
  finally show ?thesis .
qed

lemma lParityMask_0 [simp]: "lParityMask 0 = 0"
  by (simp add: lParityMask_sel)

lemma mask_AND_sel [simp]: "lParityMask x AND w = sel (par x) w" "w AND lParityMask x = sel (par x) w"
  by (simp_all add: lParityMask_sel sel_def)

section \<open>The code\<close>

text \<open>
  The page is a matrix of \<open>2 ^ (m - 2)\<close> rows of 32 bits (\<open>cb = 2 ^ m\<close>). A row of odd
  parity contributes its index, and the complement of it 16 bits higher; so does a column of
  odd parity.
\<close>

definition code_row :: "nat \<Rightarrow> nat \<Rightarrow> ULONG" where
  "code_row m i = push_bit 21 (take_bit (m - 2) (NOT (word_of_nat i)))
     XOR push_bit 5 (take_bit (m - 2) (word_of_nat i))"

definition code_col :: "nat \<Rightarrow> ULONG" where
  "code_col c = push_bit 16 (take_bit 5 (NOT (word_of_nat c))) XOR take_bit 5 (word_of_nat c)"

definition ecc_spec :: "nat \<Rightarrow> (nat \<Rightarrow> ULONG) \<Rightarrow> ULONG" where
  "ecc_spec m g = xorsum (\<lambda>i. sel (par (g i)) (code_row m i)) (2 ^ (m - 2))
     XOR xorsum (\<lambda>c. sel (bit (xorsum g (2 ^ (m - 2))) c) (code_col c)) 32"

text \<open>The first eight bytes of a header block hold the checksum and count as zero.\<close>

definition skip_header :: "bool \<Rightarrow> (nat \<Rightarrow> ULONG) \<Rightarrow> nat \<Rightarrow> ULONG" where
  "skip_header hdr p i = (if hdr \<and> i < 2 then 0 else p i)"

definition xe_spec :: "mem \<Rightarrow> nat \<Rightarrow> ULONG \<Rightarrow> bool \<Rightarrow> QWORD" where
  "xe_spec pb m pgno hdr = MakeChecksumFromECCXORAndPgno
     (ecc_spec m (skip_header hdr (pdw pb)))
     (xorsum (skip_header hdr (pdw pb)) (2 ^ (m - 2))) pgno"

lemma page_cases: "10 \<le> m \<Longrightarrow> m \<le> 13 \<Longrightarrow> m = 10 \<or> m = 11 \<or> m = 12 \<or> (m::nat) = 13"
  by linarith

lemma sel_par_XOR: "sel (par (a XOR b)) w = sel (par a) w XOR sel (par b) w"
  by (auto simp: par_XOR sel_def)

lemma sel_par_xorsum: "sel (par (xorsum f n)) w = xorsum (\<lambda>i. sel (par (f i)) w) n"
  by (rule xorsum_hom) (simp_all add: sel_par_XOR)

lemma code_hom:
  fixes h :: "'a::len word \<Rightarrow> 'b::len word"
  assumes "h 0 = 0" and "\<And>x y. h (x XOR y) = h x XOR h y"
  shows "h (xorsum (\<lambda>i. sel (P i) (f i)) n) = xorsum (\<lambda>i. sel (P i) (h (f i))) n"
proof -
  have "h (xorsum (\<lambda>i. sel (P i) (f i)) n) = xorsum (\<lambda>i. h (sel (P i) (f i))) n"
    by (induction n) (simp_all add: assms)
  then show ?thesis
    by (simp add: sel_hom [of h, OF assms(1)])
qed

lemma push_bit_code:
  "push_bit k (xorsum (\<lambda>i. sel (P i) (f i)) n) = xorsum (\<lambda>i. sel (P i) (push_bit k (f i))) n"
  by (rule code_hom) (simp_all add: push_bit_xor)

lemma take_bit_code:
  "take_bit k (xorsum (\<lambda>i. sel (P i) (f i)) n) = xorsum (\<lambda>i. sel (P i) (take_bit k (f i))) n"
  by (rule code_hom) (simp_all add: take_bit_xor)

lemma AND_code:
  "xorsum (\<lambda>i. sel (P i) (f i)) n AND w = xorsum (\<lambda>i. sel (P i) (f i AND w)) n"
  by (rule code_hom) (auto simp: bit_eq_iff bit_simps)

lemmas code_homs = push_bit_code take_bit_code AND_code

subsection \<open>The row-by-row routine\<close>

lemma row_scan64_append: "row_scan64 f (xs @ ys) acc = row_scan64 f ys (row_scan64 f xs acc)"
  by (induction f xs acc rule: row_scan64.induct) (auto simp: Let_def)

lemma row_scan64_upt:
  "row_scan64 f [0..<n] (0, 0, 0) =
     (xorsum f n, xorsum (\<lambda>i. sel (par (f i)) (word_of_nat i)) n,
      xorsum (\<lambda>i. sel (par (f i)) (NOT (word_of_nat i))) n)"
  by (induction n) (simp_all add: row_scan64_append Let_def)

lemma row_scan64_cong:
  "(\<And>i. i \<in> set is \<Longrightarrow> f i = g i) \<Longrightarrow> row_scan64 f is acc = row_scan64 g is acc"
  by (induction f "is" acc rule: row_scan64.induct) (auto simp: Let_def)

lemma row_scan64_header:
  assumes "2 \<le> n"
  shows "row_scan64 f [(if hdr then 2 else 0)..<n] (0, 0, 0)
       = row_scan64 (skip_header hdr f) [0..<n] (0, 0, 0)"
proof (cases hdr)
  case True
  have "[0..<n] = 0 # 1 # [2..<n]"
    using assms by (simp add: upt_conv_Cons numeral_2_eq_2)
  then have "row_scan64 (skip_header hdr f) [0..<n] (0, 0, 0)
      = row_scan64 (skip_header hdr f) [2..<n] (0, 0, 0)"
    using True by (simp add: skip_header_def)
  also have "\<dots> = row_scan64 f [2..<n] (0, 0, 0)"
    by (rule row_scan64_cong) (simp add: skip_header_def)
  finally show ?thesis
    using True by simp
next
  case False
  then show ?thesis
    by (simp add: skip_header_def [abs_def])
qed

lemma col_scan64_append: "col_scan64 w (xs @ ys) acc = col_scan64 w ys (col_scan64 w xs acc)"
  by (induction w xs acc rule: col_scan64.induct) (auto simp: Let_def)

lemma col_scan64_upt:
  "col_scan64 w [0..<n] (0, 0) =
     (xorsum (\<lambda>c. sel (bit w c) (word_of_nat c)) n,
      xorsum (\<lambda>c. sel (bit w c) (NOT (word_of_nat c))) n)"
  by (induction n) (simp_all add: col_scan64_append Let_def and_exp_eq_0_iff_not_bit sel_def)

text \<open>The four fields of the packed code do not overlap.\<close>

lemma pack_code:
  fixes a b c d :: ULONG
  assumes "k \<le> 11"
  shows "push_bit 21 (take_bit k a) OR push_bit 16 (take_bit 5 b)
       OR push_bit 5 (take_bit k c) OR take_bit 5 d
     = (push_bit 21 (take_bit k a) XOR push_bit 5 (take_bit k c))
       XOR (push_bit 16 (take_bit 5 b) XOR take_bit 5 d)"
  using assms by (auto simp: bit_eq_iff bit_simps)

lemma ecc_spec_split:
  "ecc_spec m g =
    (push_bit 21 (take_bit (m - 2) (xorsum (\<lambda>i. sel (par (g i)) (NOT (word_of_nat i))) (2 ^ (m - 2))))
     XOR push_bit 5 (take_bit (m - 2) (xorsum (\<lambda>i. sel (par (g i)) (word_of_nat i)) (2 ^ (m - 2)))))
    XOR (push_bit 16 (take_bit 5 (xorsum (\<lambda>c. sel (bit (xorsum g (2 ^ (m - 2))) c) (NOT (word_of_nat c))) 32))
     XOR take_bit 5 (xorsum (\<lambda>c. sel (bit (xorsum g (2 ^ (m - 2))) c) (word_of_nat c)) 32))"
proof -
  have split: "xorsum (\<lambda>i. sel (P i) (u i XOR v i)) n
      = xorsum (\<lambda>i. sel (P i) (u i)) n XOR xorsum (\<lambda>i. sel (P i) (v i)) n"
    for P and u v :: "nat \<Rightarrow> ULONG" and n
    by (simp add: sel_def if_distrib xorsum_XOR [symmetric] cong: if_cong)
  show ?thesis
    unfolding ecc_spec_def code_row_def code_col_def split
    by (simp only: code_homs)
qed

lemma ChecksumNewFormat64Bit_spec:
  assumes "10 \<le> m" "m \<le> 13"
  shows "ChecksumNewFormat64Bit pb (2 ^ m) pgno hdr = xe_spec pb m pgno hdr"
proof -
  have rows: "2 ^ m div (32 div 8) = (2 ^ (m - 2) :: nat)"
    using page_cases [OF assms] by (elim disjE) simp_all
  have ge: "2 \<le> (2 ^ (m - 2) :: nat)"
    using page_cases [OF assms] by (elim disjE) simp_all
  have m5: "word_of_nat 32 - 1 = (mask 5 :: ULONG)"
    by (simp add: mask_eq_exp_minus_1)
  have k: "m - 2 \<le> 11"
    using assms by simp
  show ?thesis
    unfolding ChecksumNewFormat64Bit_def Let_def rows xe_spec_def
    by (simp only: row_scan64_header [OF ge] row_scan64_upt col_scan64_upt prod.case
        word_of_nat_pow_minus_1 m5 AND_mask_eq push_bit_0_id id_apply pack_code [OF k]
        ecc_spec_split)
qed

end
