(* ===== verification/Checksum_Props.thy ===== *)
theory Checksum_Props
  imports Checksum
begin

text \<open>
  Correctness of the page checksums: the old-format routines agree, the four-accumulator
  routine (\<open>ChecksumNewFormatSlowly\<close>, \<open>SSE\<close>, \<open>Basic\<close>) computes the same code
  as the row-by-row one, and the contract \<open>xe_routine\<close> of a new-format routine gives
  correction of single-bit errors and detection of double-bit errors.
\<close>

section \<open>Old format\<close>

lemma old_rows_xorsum:
  "old_rows p (32 * int n) k c = c XOR xorsum (\<lambda>i. p (k + i)) (8 * n)"
proof (induction n arbitrary: k c)
  case 0
  then show ?case by (simp add: old_rows.simps)
next
  case (Suc n)
  have "xorsum (\<lambda>i. p (k + i)) (8 * Suc n)
      = xorsum (\<lambda>i. p (k + i)) 8 XOR xorsum (\<lambda>i. p (k + 8 + i)) (8 * n)"
    using xorsum_add [of "\<lambda>i. p (k + i)" 8 "8 * n"] by (simp add: add.assoc)
  moreover have "xorsum (\<lambda>i. p (k + i)) 8 = p k XOR p (k + 1) XOR p (k + 2) XOR p (k + 3)
      XOR p (k + 4) XOR p (k + 5) XOR p (k + 6) XOR p (k + 7)"
    by (simp add: eval_nat_numeral ac_simps)
  moreover have "32 * int (Suc n) - 32 = 32 * int n"
    by simp
  ultimately show ?case
    by (subst old_rows.simps) (simp only: Let_def Suc.IH if_True xor.assoc of_nat_0_le_iff
        zero_le_mult_iff zero_le_numeral simp_thms)
qed

lemma old_rows64_xorsum:
  "old_rows64 p (32 * int n) k c = c XOR xorsum (\<lambda>i. p (k + i)) (4 * n)"
proof (induction n arbitrary: k c)
  case 0
  then show ?case by (simp add: old_rows64.simps)
next
  case (Suc n)
  have "xorsum (\<lambda>i. p (k + i)) (4 * Suc n)
      = xorsum (\<lambda>i. p (k + i)) 4 XOR xorsum (\<lambda>i. p (k + 4 + i)) (4 * n)"
    using xorsum_add [of "\<lambda>i. p (k + i)" 4 "4 * n"] by (simp add: add.assoc)
  moreover have "xorsum (\<lambda>i. p (k + i)) 4 = p k XOR p (k + 1) XOR p (k + 2) XOR p (k + 3)"
    by (simp add: eval_nat_numeral ac_simps)
  moreover have "32 * int (Suc n) - 32 = 32 * int n"
    by simp
  ultimately show ?case
    by (subst old_rows64.simps) (simp only: Let_def Suc.IH if_True xor.assoc of_nat_0_le_iff
        zero_le_mult_iff zero_le_numeral simp_thms)
qed

lemma pqw_halves:
  "ucast (pqw pb i) = pdw pb (2 * i)" "ucast (drop_bit 32 (pqw pb i)) = pdw pb (2 * i + 1)"
  by (auto simp: pqw_def bit_eq_iff bit_simps dest: bit_imp_le_length)

lemma ucast_drop32_xor:
  "(ucast (drop_bit 32 q XOR (q AND 0xFFFFFFFF)) :: ULONG)
     = ucast (drop_bit 32 q) XOR ucast q" for q :: QWORD
proof -
  have "(0xFFFFFFFF :: QWORD) = mask 32"
    by (simp add: mask_eq_exp_minus_1)
  then have "q AND 0xFFFFFFFF = take_bit 32 q"
    by (simp only: AND_mask_eq)
  then show ?thesis
    by (auto simp: bit_eq_iff bit_simps)
qed

lemma ucast_xorsum: "(ucast (xorsum f n) :: 'b::len word) = xorsum (\<lambda>i. ucast (f i)) n"
  by (rule xorsum_hom) (auto simp: bit_eq_iff bit_simps)

lemma drop_bit_xorsum: "drop_bit k (xorsum f n) = xorsum (\<lambda>i. drop_bit k (f i)) n"
  by (rule xorsum_hom) (simp_all add: drop_bit_xor)

text \<open>Both halves of the 64-bit sum together are the sum of all 32-bit rows.\<close>

lemma pqw_xorsum:
  "ucast (drop_bit 32 (xorsum (pqw pb) n)) XOR ucast (xorsum (pqw pb) n) = xorsum (pdw pb) (2 * n)"
  using xorsum_mult [of "pdw pb" 2 n]
  by (simp add: drop_bit_xorsum ucast_xorsum pqw_halves numeral_2_eq_2 xorsum_XOR ac_simps)

definition old_spec :: "mem \<Rightarrow> nat \<Rightarrow> ULONG" where
  "old_spec pb cb = 0x89abcdef XOR pdw pb 0 XOR xorsum (pdw pb) (cb div 4)"

lemma ChecksumOldFormatSlowly_spec:
  assumes "cb mod 32 = 0"
  shows "ChecksumOldFormatSlowly pb cb = old_spec pb cb"
proof -
  obtain n where "cb = 32 * n"
    using assms by auto
  then show ?thesis
    using old_rows_xorsum [of "pdw pb" n 0]
    by (simp add: ChecksumOldFormatSlowly_def old_spec_def xor.assoc)
qed

lemma ChecksumOldFormat64Bit_spec:
  assumes "cb mod 32 = 0"
  shows "ChecksumOldFormat64Bit pb cb = old_spec pb cb"
proof -
  obtain n where n: "cb = 32 * n"
    using assms by auto
  have "(0xFFFFFFFF :: QWORD) = mask 32"
    by (simp add: mask_eq_exp_minus_1)
  then have low: "pqw pb 0 AND 0xFFFFFFFF = take_bit 32 (pqw pb 0)"
    by (simp only: AND_mask_eq)
  have t: "(ucast (take_bit 32 q) :: ULONG) = ucast q" "drop_bit 32 (take_bit 32 q) = 0"
    for q :: QWORD
    by (auto simp: bit_eq_iff bit_simps)
  have u: "(ucast (x XOR y) :: ULONG) = ucast x XOR ucast y" for x y :: QWORD
    by (auto simp: bit_eq_iff bit_simps)
  define S where "S = xorsum (pqw pb) (4 * n)"
  have "ChecksumOldFormat64Bit pb cb =
      (ucast (drop_bit 32 (take_bit 32 (pqw pb 0) XOR S)) XOR ucast (take_bit 32 (pqw pb 0) XOR S))
      XOR 0x89abcdef"
    unfolding ChecksumOldFormat64Bit_def Let_def n S_def low ucast_drop32_xor
    using old_rows64_xorsum [of "pqw pb" n 0] by simp
  also have "\<dots> = (ucast (drop_bit 32 S) XOR ucast S) XOR pdw pb 0 XOR 0x89abcdef"
    using pqw_halves(1) [of pb 0] by (simp only: u t drop_bit_xor xor.left_neutral xor.assoc
        xor.left_commute xor.commute mult_0_right)
  also have "\<dots> = old_spec pb cb"
    using pqw_xorsum [of pb "4 * n"] by (simp add: S_def old_spec_def n ac_simps)
  finally show ?thesis .
qed

section \<open>The four-accumulator routine\<close>

definition idx :: "nat \<Rightarrow> ULONG" where
  "idx k = 0xff800000 + word_of_nat k * 0xff800080"

text \<open>The accumulators after \<open>k\<close> groups of four rows.\<close>

definition rows_acc :: "(nat \<Rightarrow> ULONG) \<Rightarrow> nat \<Rightarrow> rows" where
  "rows_acc g k =
     \<lparr>p0 = xorsum (\<lambda>j. g (4 * j)) k, p1 = xorsum (\<lambda>j. g (4 * j + 1)) k,
      p2 = xorsum (\<lambda>j. g (4 * j + 2)) k, p3 = xorsum (\<lambda>j. g (4 * j + 3)) k,
      pp = xorsum (\<lambda>j. sel (par (g (4 * j) XOR g (4 * j + 1) XOR g (4 * j + 2) XOR g (4 * j + 3)))
                     (idx j)) k,
      idxp = idx k\<rparr>"

lemma idx_Suc: "idx (Suc k) = idx k + 0xff800080"
  by (simp add: idx_def algebra_simps)

lemma rows_acc_Suc:
  "rows_acc g (Suc k) =
     (let st = rows_acc g k
      in st\<lparr>p0 := p0 st XOR g (4 * k), p1 := p1 st XOR g (4 * k + 1),
            p2 := p2 st XOR g (4 * k + 2), p3 := p3 st XOR g (4 * k + 3),
            pp := pp st XOR (idxp st AND lParityMask (g (4 * k) XOR g (4 * k + 1)
                     XOR g (4 * k + 2) XOR g (4 * k + 3))),
            idxp := idxp st + 0xff800080\<rparr>)"
  by (simp add: rows_acc_def idx_Suc)

lemma rows_body_acc:
  assumes "\<And>i. 2 \<le> i \<Longrightarrow> p i = g i"
  shows "rows_body p (8 * n) (g (8 * n)) (g (8 * n + 1)) (rows_acc g (2 * n))
       = rows_acc g (2 * Suc n)"
proof -
  have a: "4 * (2 * n) = 8 * n" "4 * Suc (2 * n) = 8 * n + 4"
    by simp_all
  have b: "8 * n + 4 + 1 = 8 * n + 5" "8 * n + 4 + 2 = 8 * n + 6" "8 * n + 4 + 3 = 8 * n + 7"
    by simp_all
  have c: "2 * Suc n = Suc (Suc (2 * n))"
    by simp
  show ?thesis
    unfolding c rows_acc_Suc [of g "Suc (2 * n)"] rows_acc_Suc [of g "2 * n"] a b rows_body_def
    by (simp add: assms Let_def)
qed

lemma rows_loop_acc:
  assumes "\<And>i. 2 \<le> i \<Longrightarrow> p i = g i" and "n < N"
  shows "rows_loop p (8 * N) (8 * n) (g (8 * n)) (g (8 * n + 1)) (rows_acc g (2 * n))
       = rows_acc g (2 * N)"
  using assms(2)
proof (induction "N - n" arbitrary: n)
  case 0
  then show ?case by simp
next
  case (Suc d)
  have p: "p (8 * Suc n + 0) = g (8 * Suc n)" "p (8 * Suc n + 1) = g (8 * Suc n + 1)"
    using assms(1) by simp_all
  show ?case
  proof (cases "Suc n < N")
    case True
    moreover from Suc.hyps(2) have "d = N - Suc n"
      by linarith
    ultimately have "rows_loop p (8 * N) (8 * Suc n) (g (8 * Suc n)) (g (8 * Suc n + 1))
        (rows_acc g (2 * Suc n)) = rows_acc g (2 * N)"
      using Suc.hyps(1) by blast
    moreover have "8 * n + 8 = 8 * Suc n" "8 * n + 8 < 8 * N"
      using True by simp_all
    ultimately show ?thesis
      by (subst rows_loop.simps) (simp only: Let_def rows_body_acc [of p g, OF assms(1)] p if_True)
  next
    case False
    with Suc.prems have "N = Suc n" "\<not> 8 * n + 8 < 8 * N"
      by simp_all
    then show ?thesis
      by (subst rows_loop.simps) (simp only: Let_def rows_body_acc [of p g, OF assms(1)] if_False)
  qed
qed

lemma rows_scan_acc:
  assumes "0 < N"
  shows "rows_scan p (8 * N) hdr = rows_acc (skip_header hdr p) (2 * N)"
proof -
  have "rows_acc g 0 = \<lparr>p0 = 0, p1 = 0, p2 = 0, p3 = 0, pp = 0, idxp = 0xff800000\<rparr>" for g
    by (simp add: rows_acc_def idx_def)
  then show ?thesis
    using rows_loop_acc [of p "skip_header hdr p" 0 N] assms
    by (cases hdr) (simp_all add: rows_scan_def skip_header_def)
qed

subsection \<open>The index words\<close>

lemma idx_xor:
  assumes "k < 2 ^ 16"
  shows "idx k = push_bit 23 (NOT (word_of_nat k)) XOR push_bit 7 (word_of_nat k)"
proof -
  have a: "(0xff800000 :: ULONG) = - (2 ^ 23)" and b: "(0xff800080 :: ULONG) = - (2 ^ 23) + 2 ^ 7"
    by simp_all
  have "idx k = push_bit 23 (NOT (word_of_nat k)) + push_bit 7 (word_of_nat k)"
    unfolding idx_def a b push_bit_eq_mult not_eq_complement by (simp add: algebra_simps)
  also have "\<dots> = push_bit 23 (NOT (word_of_nat k)) XOR push_bit 7 (word_of_nat k)"
  proof (rule add_eq_xor, rule notI)
    fix n
    assume "bit (push_bit 23 (NOT (word_of_nat k)) :: ULONG) n
      \<and> bit (push_bit 7 (word_of_nat k) :: ULONG) n"
    then have "23 \<le> n" and "bit k (n - 7)"
      by (auto simp: bit_simps)
    then have "2 ^ (n - 7) \<le> k"
      by (simp add: bit_nat_le)
    moreover have "(2 :: nat) ^ 16 \<le> 2 ^ (n - 7)"
      using \<open>23 \<le> n\<close> by (intro power_increasing) auto
    ultimately show False
      using assms by linarith
  qed
  finally show ?thesis .
qed

lemma word_of_nat_row:
  assumes "j < 4"
  shows "(word_of_nat (4 * k + j) :: ULONG) = push_bit 2 (word_of_nat k) XOR word_of_nat j"
proof -
  have "(word_of_nat (4 * k + j) :: ULONG) = push_bit 2 (word_of_nat k) + word_of_nat j"
    by (simp add: push_bit_eq_mult mult.commute)
  also have "\<dots> = push_bit 2 (word_of_nat k) XOR word_of_nat j"
  proof (rule add_eq_xor, rule notI)
    fix n
    assume "bit (push_bit 2 (word_of_nat k) :: ULONG) n \<and> bit (word_of_nat j :: ULONG) n"
    then have "2 \<le> n" and "2 ^ n \<le> j"
      by (auto simp: bit_simps bit_nat_le)
    moreover have "(2 :: nat) ^ 2 \<le> 2 ^ n"
      using \<open>2 \<le> n\<close> by (intro power_increasing) auto
    ultimately show False
      using assms by simp
  qed
  finally show ?thesis .
qed

text \<open>What the routine adds for a row of each of the four residues.\<close>

definition quad :: "nat \<Rightarrow> ULONG" where
  "quad j = (if j = 0 then 0x00600000 else if j = 1 then 0x00400020
             else if j = 2 then 0x00200040 else 0x00000060)"

lemma row_index:
  assumes "j < 4" and "k < 2 ^ 16"
  shows "idx k XOR quad j
    = push_bit 21 (NOT (word_of_nat (4 * k + j))) XOR push_bit 5 (word_of_nat (4 * k + j))"
proof -
  have n: "NOT (push_bit 2 a XOR b) = push_bit 2 (NOT a) XOR (3 XOR b)" for a b :: ULONG
  proof -
    have "(3 :: ULONG) = mask 2"
      by (simp add: mask_eq_exp_minus_1)
    then show ?thesis
      by (auto simp: bit_eq_iff bit_simps)
  qed
  have "push_bit 21 (NOT (word_of_nat (4 * k + j))) XOR push_bit 5 (word_of_nat (4 * k + j))
      = (push_bit 23 (NOT (word_of_nat k)) XOR push_bit 7 (word_of_nat k))
        XOR (push_bit 21 (3 XOR word_of_nat j) XOR push_bit 5 (word_of_nat j) :: ULONG)"
    unfolding word_of_nat_row [OF assms(1)] n push_bit_xor push_bit_push_bit
    by (simp add: xor.assoc xor.left_commute xor.commute)
  also have "push_bit 21 (3 XOR word_of_nat j) XOR push_bit 5 (word_of_nat j) = quad j"
  proof -
    have "j = 0 \<or> j = 1 \<or> j = 2 \<or> j = 3"
      using assms(1) by linarith
    then show ?thesis
      by (elim disjE) (simp_all add: quad_def)
  qed
  finally show ?thesis
    by (simp add: idx_xor [OF assms(2)])
qed

lemma fields_mask: "(0xffe0ffe0 :: ULONG) = push_bit 21 (mask 11) OR push_bit 5 (mask 11)"
  by (simp add: mask_eq_exp_minus_1)

lemma page_mask:
  assumes "10 \<le> m" "m \<le> 13"
  shows "push_bit 19 (word_of_nat (2 ^ m)) - 1 = (mask (19 + m) :: ULONG)"
  using page_cases [OF assms] by (elim disjE) (simp_all add: mask_eq_exp_minus_1)

lemma row_index_code:
  assumes "10 \<le> m" "m \<le> 13" "i < 2 ^ (m - 2)"
  shows "(push_bit 21 (NOT (word_of_nat i)) XOR push_bit 5 (word_of_nat i))
      AND 0xffe0ffe0 AND mask (19 + m) = code_row m i"
proof -
  have "\<not> bit i n" if "m - 2 \<le> n" for n
  proof
    assume "bit i n"
    then have "2 ^ n \<le> i" by (rule bit_nat_le)
    moreover have "(2 :: nat) ^ (m - 2) \<le> 2 ^ n"
      using that by (intro power_increasing) auto
    ultimately show False
      using assms(3) by linarith
  qed
  then have i: "bit i n \<longleftrightarrow> n < m - 2 \<and> bit i n" for n
    by (meson not_le)
  show ?thesis
    unfolding code_row_def fields_mask
    apply (rule bit_word_eqI)
    using assms(1,2) by (auto simp: bit_simps dest: i [THEN iffD1])
qed

subsection \<open>Columns\<close>

definition idxc :: "nat \<Rightarrow> ULONG" where
  "idxc c = 0xffff0000 + word_of_nat c * 0xffff0001"

lemma idxc_Suc: "idxc (Suc c) = idxc c + 0xffff0001"
  by (simp add: idxc_def algebra_simps)

lemma cols_loop_xorsum:
  "cols_loop w [a..<a + n] r (idxc a) = r XOR xorsum (\<lambda>c. sel (bit w (a + c)) (idxc (a + c))) n"
proof (induction n arbitrary: a r)
  case 0
  then show ?case by simp
next
  case (Suc n)
  have "[a..<a + Suc n] = a # [Suc a..<Suc a + n]"
    by (simp add: upt_conv_Cons)
  moreover have "xorsum (\<lambda>c. sel (bit w (a + c)) (idxc (a + c))) (Suc n)
     = sel (bit w a) (idxc a) XOR xorsum (\<lambda>c. sel (bit w (Suc a + c)) (idxc (Suc a + c))) n"
    using xorsum_add [of "\<lambda>c. sel (bit w (a + c)) (idxc (a + c))" 1 n] by simp
  ultimately show ?case
    using Suc.IH [of "Suc a"]
    by (simp add: Let_def idxc_Suc and_exp_eq_0_iff_not_bit sel_def xor.assoc)
qed

lemma idxc_code:
  assumes "c < 32"
  shows "idxc c AND 0x001f001f = code_col c"
proof -
  have a: "(0xffff0000 :: ULONG) = - (2 ^ 16)" and b: "(0xffff0001 :: ULONG) = - (2 ^ 16) + 1"
    by simp_all
  have c: "\<not> bit c n" if "5 \<le> n" for n
    using that assms bit_nat_le [of c n] power_increasing [of 5 n "2 :: nat"] by auto
  have "idxc c = push_bit 16 (NOT (word_of_nat c)) + word_of_nat c"
    unfolding idxc_def a b push_bit_eq_mult not_eq_complement by (simp add: algebra_simps)
  also have "\<dots> = push_bit 16 (NOT (word_of_nat c)) XOR word_of_nat c"
    by (rule add_eq_xor) (use c in \<open>auto simp: bit_simps\<close>)
  finally have i: "idxc c = push_bit 16 (NOT (word_of_nat c)) XOR word_of_nat c" .
  have f: "(0x001f001f :: ULONG) = push_bit 16 (mask 5) OR mask 5"
    by (simp add: mask_eq_exp_minus_1)
  show ?thesis
    unfolding i f code_col_def
    by (intro bit_word_eqI) (use c in \<open>auto simp: bit_simps\<close>)
qed

subsection \<open>Assembling the code\<close>

text \<open>The four bits set after the loop do not collide with the index words.\<close>

lemma or_quads:
  fixes pq :: ULONG
  assumes "pq AND 0x00600060 = 0"
  shows "((((pq OR sel a 0x00400000) OR sel b 0x00000040) OR sel c 0x00200000) OR sel d 0x00000020)
       = pq XOR (sel a 0x00400000 XOR sel b 0x00000040 XOR sel c 0x00200000 XOR sel d 0x00000020)"
proof -
  let ?z = "sel a 0x00400000 XOR sel b 0x00000040 XOR sel c 0x00200000 XOR sel d (0x00000020 :: ULONG)"
  have z: "((sel a 0x00400000 OR sel b 0x00000040) OR sel c 0x00200000) OR sel d 0x00000020 = ?z"
    by (simp add: sel_def)
  have zz: "0x00600060 AND ?z = ?z"
    by (simp add: sel_def)
  have "pq AND ?z = (pq AND 0x00600060) AND ?z"
    by (simp only: and.assoc zz)
  then have "pq OR ?z = pq XOR ?z"
    using assms by (intro or_eq_xor) simp
  moreover have "((((pq OR sel a 0x00400000) OR sel b 0x00000040) OR sel c 0x00200000)
      OR sel d 0x00000020) = pq OR ?z"
    unfolding z [symmetric] by (simp only: or.assoc)
  ultimately show ?thesis
    by simp
qed

lemma idx_clear:
  assumes "k < 2 ^ 9"
  shows "idx k AND 0x00600060 = 0"
proof -
  have "(0x00600060 :: ULONG) = push_bit 21 (mask 2) OR push_bit 5 (mask 2)"
    by (simp add: mask_eq_exp_minus_1)
  moreover have "\<not> bit k n" if "14 \<le> n" for n
    using that assms bit_nat_le [of k n] power_increasing [of 14 n "2 :: nat"] by auto
  moreover have "k < 2 ^ 16"
    using assms by simp
  ultimately show ?thesis
    by (auto simp: bit_eq_iff idx_xor bit_simps)
qed

lemma rows_pp_clear:
  assumes "K \<le> 2 ^ 9"
  shows "pp (rows_acc g K) AND 0x00600060 = 0"
proof -
  have "pp (rows_acc g K) AND 0x00600060
      = xorsum (\<lambda>j. sel (par (g (4 * j) XOR g (4 * j + 1) XOR g (4 * j + 2) XOR g (4 * j + 3)))
          (idx j AND 0x00600060)) K"
    by (simp add: rows_acc_def AND_code)
  also have "\<dots> = xorsum (\<lambda>j. 0) K"
    by (rule xorsum_cong) (use assms in \<open>simp add: idx_clear sel_def\<close>)
  finally show ?thesis by simp
qed

lemma group_step:
  "(X XOR sel (b0 \<noteq> (b1 \<noteq> (b2 \<noteq> b3))) ix)
     XOR (sel ((s0 \<noteq> b0) \<noteq> (s1 \<noteq> b1)) a XOR sel ((s2 \<noteq> b2) \<noteq> (s3 \<noteq> b3)) b
          XOR sel ((s0 \<noteq> b0) \<noteq> (s2 \<noteq> b2)) c XOR sel ((s1 \<noteq> b1) \<noteq> (s3 \<noteq> b3)) d)
   = (X XOR (sel (s0 \<noteq> s1) a XOR sel (s2 \<noteq> s3) b XOR sel (s0 \<noteq> s2) c XOR sel (s1 \<noteq> s3) d))
     XOR (sel b0 (ix XOR (a XOR c)) XOR sel b1 (ix XOR (a XOR d))
          XOR sel b2 (ix XOR (b XOR c)) XOR sel b3 (ix XOR (b XOR d)))"
  by (simp only: sel_XOR sel_dist) (simp only: ac_simps xor_left_self xor_self_eq)

lemma quad_xor:
  "quad 0 = 0x00400000 XOR 0x00200000" "quad 1 = 0x00400000 XOR 0x00000020"
  "quad 2 = 0x00000040 XOR 0x00200000" "quad 3 = 0x00000040 XOR 0x00000020"
  by (simp_all add: quad_def)

text \<open>The row part of the code, before masking.\<close>

lemma rows_sum:
  fixes g :: "nat \<Rightarrow> ULONG"
  defines "A \<equiv> \<lambda>k. rows_acc g k"
  shows "pp (A K) XOR (sel (par (p0 (A K) XOR p1 (A K))) 0x00400000
       XOR sel (par (p2 (A K) XOR p3 (A K))) 0x00000040
       XOR sel (par (p0 (A K) XOR p2 (A K))) 0x00200000
       XOR sel (par (p1 (A K) XOR p3 (A K))) 0x00000020)
     = xorsum (\<lambda>i. sel (par (g i)) (idx (i div 4) XOR quad (i mod 4))) (4 * K)"
proof (induction K)
  case 0
  then show ?case by (simp add: A_def rows_acc_def)
next
  case (Suc K)
  have q: "(4 * K + 1) div 4 = K" "(4 * K + 2) div 4 = K" "(4 * K + 3) div 4 = K"
      "(4 * K + 1) mod 4 = 1" "(4 * K + 2) mod 4 = 2" "(4 * K + 3) mod 4 = 3"
      "(4 * K) div 4 = K" "(4 * K) mod 4 = 0"
    by presburger+
  let ?F = "\<lambda>i. sel (par (g i)) (idx (i div 4) XOR quad (i mod 4))"
  have "xorsum h 4 = h 0 XOR h 1 XOR h 2 XOR h 3" for h :: "nat \<Rightarrow> ULONG"
    by (simp add: eval_nat_numeral xor.assoc)
  then have "xorsum ?F (4 * Suc K) = xorsum ?F (4 * K) XOR (?F (4 * K + 0) XOR ?F (4 * K + 1)
      XOR ?F (4 * K + 2) XOR ?F (4 * K + 3))"
    using xorsum_add [of ?F "4 * K" 4] by (simp only: mult_Suc_right add.commute)
  then have "xorsum ?F (4 * Suc K) = xorsum ?F (4 * K)
        XOR (sel (par (g (4 * K))) (idx K XOR quad 0)
        XOR sel (par (g (4 * K + 1))) (idx K XOR quad 1)
        XOR sel (par (g (4 * K + 2))) (idx K XOR quad 2)
        XOR sel (par (g (4 * K + 3))) (idx K XOR quad 3))"
    by (simp only: q add_0_right)
  then show ?case
    unfolding Suc.IH [symmetric] quad_xor
    unfolding A_def rows_acc_def rows.simps xorsum.simps par_XOR
    by (simp only: group_step)
qed

lemma rows_code:
  assumes "10 \<le> m" "m \<le> 13"
  shows "xorsum (\<lambda>i. sel (par (g i)) (idx (i div 4) XOR quad (i mod 4))) (2 ^ (m - 2))
      AND 0xffe0ffe0 AND mask (19 + m)
    = xorsum (\<lambda>i. sel (par (g i)) (code_row m i)) (2 ^ (m - 2))"
proof -
  have "(idx (i div 4) XOR quad (i mod 4)) AND 0xffe0ffe0 AND mask (19 + m) = code_row m i"
    if i: "i < 2 ^ (m - 2)" for i
  proof -
    have "(2 :: nat) ^ (m - 2) \<le> 2 ^ 11"
      using assms by (intro power_increasing) auto
    then have "i div 4 < 2 ^ 16"
      using i by simp
    then have "idx (i div 4) XOR quad (i mod 4)
        = push_bit 21 (NOT (word_of_nat i)) XOR push_bit 5 (word_of_nat i)"
      using row_index [of "i mod 4" "i div 4"] by simp
    then show ?thesis
      using row_index_code [OF assms i] by simp
  qed
  then show ?thesis
    by (simp only: AND_code cong: xorsum_cong)
qed

lemma cols_code:
  "cols_loop w [0..<32] 0 0xffff0000 AND 0x001f001f
     = xorsum (\<lambda>c. sel (bit w c) (code_col c)) 32"
proof -
  have "cols_loop w [0..<32] 0 0xffff0000 = xorsum (\<lambda>c. sel (bit w c) (idxc c)) 32"
    using cols_loop_xorsum [of w 0 32 0] by (simp add: idxc_def)
  then show ?thesis
    by (simp only: AND_code) (rule xorsum_cong, simp add: idxc_code)
qed

lemma code_disjoint:
  "xorsum (\<lambda>i. sel (P i) (code_row m i)) n AND xorsum (\<lambda>c. sel (Q c) (code_col c)) k = 0"
    if "m \<le> 13"
proof -
  have "code_row m i AND 0x001f001f = 0" for i
  proof -
    have f: "(0x001f001f :: ULONG) = push_bit 16 (mask 5) OR mask 5"
      by (simp add: mask_eq_exp_minus_1)
    show ?thesis
      unfolding f code_row_def using that by (auto simp: bit_eq_iff bit_simps)
  qed
  then have r: "xorsum (\<lambda>i. sel (P i) (code_row m i)) n AND 0x001f001f = 0"
    by (simp add: AND_code) (simp add: sel_def)
  have "code_col c AND 0x001f001f = code_col c" for c
  proof -
    have f: "(0x001f001f :: ULONG) = push_bit 16 (mask 5) OR mask 5"
      by (simp add: mask_eq_exp_minus_1)
    show ?thesis
      unfolding f code_col_def by (auto simp: bit_eq_iff bit_simps)
  qed
  then have c: "0x001f001f AND xorsum (\<lambda>c. sel (Q c) (code_col c)) k
      = xorsum (\<lambda>c. sel (Q c) (code_col c)) k"
    by (simp add: AND_code and.commute)
  show ?thesis
    by (subst c [symmetric]) (simp add: r flip: and.assoc)
qed

lemma rows_finish_spec:
  assumes "10 \<le> m" "m \<le> 13"
  shows "rows_finish (rows_acc g (2 ^ (m - 4))) (2 ^ m)
       = (ecc_spec m g, xorsum g (2 ^ (m - 2)))"
proof -
  define K where "K = (2 :: nat) ^ (m - 4)"
  have K4: "4 * K = 2 ^ (m - 2)" and K9: "K \<le> 2 ^ 9"
    using page_cases [OF assms] by (auto simp: K_def)
  let ?A = "rows_acc g K"
  have r2: "(p0 ?A XOR p2 ?A) XOR (p1 ?A XOR p3 ?A) = xorsum g (2 ^ (m - 2))"
    using xorsum_mult [of g 4 K] unfolding K4 [symmetric]
    by (simp add: rows_acc_def eval_nat_numeral xorsum_XOR ac_simps)
  note rows = or_quads [OF rows_pp_clear [OF K9, of g]] rows_sum [of g K] K4
  have "fst (rows_finish ?A (2 ^ m)) =
      (xorsum (\<lambda>i. sel (par (g i)) (code_row m i)) (2 ^ (m - 2)))
      OR (xorsum (\<lambda>c. sel (bit (xorsum g (2 ^ (m - 2))) c) (code_col c)) 32)"
    unfolding rows_finish_def Let_def fst_conv mask_AND_sel rows page_mask [OF assms] r2
      rows_code [OF assms] cols_code by (rule refl)
  also have "\<dots> = ecc_spec m g"
    unfolding ecc_spec_def by (rule or_eq_xor) (rule code_disjoint [OF assms(2)])
  finally have "fst (rows_finish ?A (2 ^ m)) = ecc_spec m g" .
  moreover have "snd (rows_finish ?A (2 ^ m)) = xorsum g (2 ^ (m - 2))"
    unfolding rows_finish_def Let_def snd_conv by (rule r2)
  ultimately show ?thesis
    unfolding K_def by (metis prod.collapse)
qed

lemma page_scan:
  assumes "10 \<le> m" "m \<le> 13"
  shows "rows_finish (rows_scan p (2 ^ m div 4) hdr) (2 ^ m)
       = (ecc_spec m (skip_header hdr p), xorsum (skip_header hdr p) (2 ^ (m - 2)))"
proof -
  have "2 ^ m div 4 = 8 * (2 ^ (m - 5) :: nat)" "2 * 2 ^ (m - 5) = (2 ^ (m - 4) :: nat)"
    using page_cases [OF assms] by auto
  then show ?thesis
    using rows_scan_acc [of "2 ^ (m - 5)" p hdr] rows_finish_spec [OF assms] by simp
qed

lemma ChecksumNewFormatSlowly_spec:
  assumes "10 \<le> m" "m \<le> 13"
  shows "ChecksumNewFormatSlowly pb (2 ^ m) pgno hdr = xe_spec pb m pgno hdr"
  by (simp add: ChecksumNewFormatSlowly_def xe_spec_def page_scan [OF assms])

lemma ChecksumNewFormatSSE_spec:
  assumes "10 \<le> m" "m \<le> 13"
  shows "ChecksumNewFormatSSE pb (2 ^ m) pgno hdr = xe_spec pb m pgno hdr"
  by (simp add: ChecksumNewFormatSSE_def xe_spec_def page_scan [OF assms])

section \<open>Flipped bits\<close>

definition flip_bit :: "mem \<Rightarrow> nat \<Rightarrow> mem" where
  "flip_bit pb b = pb(b div 8 := pb (b div 8) XOR push_bit (b mod 8) 1)"

lemma pdw_bit: "bit (pdw pb i) k \<longleftrightarrow> k < 32 \<and> bit (pb (4 * i + k div 8)) (k mod 8)"
proof (cases "k < 32")
  case True
  have b8: "\<not> bit (pb a) j" if "8 \<le> j" for a j
    using that bit_imp_le_length [of "pb a" j] by auto
  define r where "r = k mod 8"
  have r: "r < 8"
    by (simp add: r_def)
  from True have "k = r \<or> k = 8 + r \<or> k = 16 + r \<or> k = 24 + r"
    unfolding r_def by presburger
  moreover have "(8 + r) div 8 = 1" "(16 + r) div 8 = 2" "(24 + r) div 8 = 3" "r div 8 = 0"
      "(8 + r) mod 8 = r" "(16 + r) mod 8 = r" "(24 + r) mod 8 = r" "r mod 8 = r"
    using r by presburger+
  ultimately show ?thesis
    using r by (elim disjE) (simp_all add: pdw_def bit_simps b8)
next
  case False
  then show ?thesis
    using bit_imp_le_length [of "pdw pb i" k] by auto
qed

lemma flip_bit_bit:
  assumes "j < 8"
  shows "bit (flip_bit pb b a) j \<longleftrightarrow> (bit (pb a) j \<noteq> (8 * a + j = b))"
proof -
  have "8 * a + j = b \<longleftrightarrow> a = b div 8 \<and> j = b mod 8"
    using assms by auto
  then show ?thesis
    using assms by (auto simp: flip_bit_def bit_simps)
qed

lemma pdw_flip:
  "pdw (flip_bit pb b) i = pdw pb i XOR (if i = b div 32 then push_bit (b mod 32) 1 else 0)"
proof (rule bit_word_eqI)
  fix k
  assume "k < LENGTH(32)"
  then have k: "k < 32" by simp
  have e: "8 * (4 * i + k div 8) + k mod 8 = 32 * i + k"
    by (simp add: distrib_left)
  have "(8 * (4 * i + k div 8) + k mod 8 = b) \<longleftrightarrow> 32 * i + k = b"
    by (simp only: e)
  also have "\<dots> \<longleftrightarrow> i = b div 32 \<and> k = b mod 32"
    using k by auto
  finally have "bit (pdw (flip_bit pb b) i) k \<longleftrightarrow> (bit (pdw pb i) k \<noteq> (i = b div 32 \<and> k = b mod 32))"
    using k by (simp add: pdw_bit flip_bit_bit)
  then show "bit (pdw (flip_bit pb b) i) k
      = bit (pdw pb i XOR (if i = b div 32 then push_bit (b mod 32) 1 else 0)) k"
    using k by (auto simp: bit_simps)
qed

lemma skip_header_flip:
  assumes "hdr \<longrightarrow> 64 \<le> b"
  shows "skip_header hdr (pdw (flip_bit pb b)) =
    (let g = skip_header hdr (pdw pb) in g(b div 32 := g (b div 32) XOR push_bit (b mod 32) 1))"
proof -
  have "\<not> (hdr \<and> b div 32 < 2)"
    using assms by auto
  then show ?thesis
    by (auto simp: skip_header_def pdw_flip Let_def fun_eq_iff)
qed

lemma parn_single: "n \<le> 32 \<Longrightarrow> parn (push_bit c 1) n \<longleftrightarrow> c < n"
  by (induction n) (auto simp: bit_simps less_Suc_eq)

lemma par_single: "c < 32 \<Longrightarrow> par (push_bit c 1)"
  by (simp only: par_def parn_single order.refl)

lemma ecc_spec_flip:
  assumes "i < 2 ^ (m - 2)" "c < 32"
  shows "ecc_spec m (g(i := g i XOR push_bit c 1)) = ecc_spec m g XOR (code_row m i XOR code_col c)"
proof -
  let ?g = "g(i := g i XOR push_bit c 1)"
  let ?R = "\<lambda>j. sel (par (g j)) (code_row m j)"
  have "(\<lambda>j. sel (par (?g j)) (code_row m j)) = ?R(i := ?R i XOR code_row m i)"
    using par_single [OF assms(2)] by (auto simp: fun_eq_iff par_XOR sel_def)
  then have r: "xorsum (\<lambda>j. sel (par (?g j)) (code_row m j)) (2 ^ (m - 2))
      = xorsum ?R (2 ^ (m - 2)) XOR code_row m i"
    using assms(1) by (simp only: xorsum_fun_upd [of ?R] if_True)
  have x: "xorsum ?g (2 ^ (m - 2)) = xorsum g (2 ^ (m - 2)) XOR push_bit c 1"
    using assms(1) by (simp only: xorsum_fun_upd if_True)
  let ?C = "\<lambda>d. sel (bit (xorsum g (2 ^ (m - 2))) d) (code_col d)"
  have "(\<lambda>d. sel (bit (xorsum ?g (2 ^ (m - 2))) d) (code_col d)) = ?C(c := ?C c XOR code_col c)"
    using assms(2) unfolding x by (auto simp: fun_eq_iff bit_simps sel_def)
  then have s: "xorsum (\<lambda>d. sel (bit (xorsum ?g (2 ^ (m - 2))) d) (code_col d)) 32
      = xorsum ?C 32 XOR code_col c"
    using assms(2) by (simp only: xorsum_fun_upd [of ?C] if_True)
  show ?thesis
    unfolding ecc_spec_def r s by (simp add: ac_simps)
qed

text \<open>The code word of the bit at index \<open>b\<close>: \<open>b\<close>, and its complement 16 bits higher.\<close>

definition code_bit :: "nat \<Rightarrow> nat \<Rightarrow> ULONG" where
  "code_bit m b = push_bit 16 (take_bit (m + 3) (NOT (word_of_nat b))) XOR take_bit (m + 3) (word_of_nat b)"

lemma code_row_col:
  assumes "10 \<le> m" "m \<le> 13"
  shows "code_row m (b div 32) XOR code_col (b mod 32) = code_bit m b"
proof -
  have "b div 32 = drop_bit 5 b" "b mod 32 = take_bit 5 b"
    by (simp_all add: drop_bit_eq_div take_bit_eq_mod)
  then have d: "bit (b div 32) n = bit b (5 + n)" "bit (b mod 32) n \<longleftrightarrow> n < 5 \<and> bit b n" for n
    by (simp_all add: bit_simps)
  show ?thesis
    unfolding code_row_def code_col_def code_bit_def
  proof (rule bit_word_eqI, goal_cases)
    case (1 n)
    then consider "n < 5" | "5 \<le> n" "n < 16" | "16 \<le> n" "n < 21" | "21 \<le> n" "n < 32"
      by fastforce
    then show ?case
    proof cases
      case 2
      then have "n - 5 < m - 2 \<longleftrightarrow> n < m + 3" "n - 5 < 32" "\<not> 21 \<le> n" "\<not> 16 \<le> n" "\<not> n < 5"
        using assms by auto
      with 2 assms show ?thesis by (auto simp add: bit_simps d)
    next
      case 3
      then have "\<not> n - 5 < m - 2" "n - 16 < 5" "n - 16 < 32" "n - 16 < m + 3" "\<not> n < m + 3" "\<not> 21 \<le> n"
        using assms by auto
      with 3 assms show ?thesis by (simp add: bit_simps d)
    next
      case 4
      then have "5 + (n - 21) = n - 16" "\<not> n < m + 3" "n - 21 < m - 2 \<longleftrightarrow> n - 16 < m + 3"
        "\<not> n - 5 < m - 2" "\<not> n - 16 < 5" "n - 16 < 32" "n - 21 < 32"
        using assms by auto
      with 4 assms show ?thesis by (simp add: bit_simps d)
    qed (use assms in \<open>simp_all add: bit_simps d\<close>)
  qed
qed

section \<open>Reading the difference of two checksums\<close>

lemma DwECC_Make [simp]:
  "DwECCChecksumFromXEChecksum (MakeChecksumFromECCXORAndPgno ecc x pgno) = ecc"
  unfolding DwECCChecksumFromXEChecksum_def MakeChecksumFromECCXORAndPgno_def Let_def
  by (rule bit_word_eqI) (auto simp: bit_simps dest: bit_imp_le_length)

lemma DwXOR_Make [simp]:
  "DwXORChecksumFromXEChecksum (MakeChecksumFromECCXORAndPgno ecc x pgno) = x XOR pgno"
proof -
  have m: "0xffffffff = (mask 32 :: QWORD)"
    by (simp add: mask_eq_exp_minus_1)
  show ?thesis
    unfolding DwXORChecksumFromXEChecksum_def MakeChecksumFromECCXORAndPgno_def Let_def m AND_mask_eq
    by (intro bit_word_eqI) (auto simp: bit_simps dest: bit_imp_le_length)
qed

lemma CbitSet_loop_append: "CbitSet_loop w (xs @ ys) c = CbitSet_loop w ys (CbitSet_loop w xs c)"
  by (induction w xs c rule: CbitSet_loop.induct) simp_all

lemma CbitSet_single: "c < 32 \<Longrightarrow> CbitSet (push_bit c 1) = 1"
proof -
  have e: "push_bit c 1 AND push_bit n 1 \<noteq> (0 :: ULONG) \<longleftrightarrow> c = n" if "n < 32" for n
    using that by (auto simp: bit_simps and_exp_eq_0_iff_not_bit)
  have "CbitSet_loop (push_bit c 1) [0..<n] 0 = (if c < n then 1 else 0)" if "n \<le> 32" for n
    using that by (induction n) (auto simp: CbitSet_loop_append e less_Suc_eq simp del: push_bit_of_1)
  then show "c < 32 \<Longrightarrow> ?thesis"
    by (simp add: CbitSet_def)
qed

lemma ecc_of_flip:
  assumes "10 \<le> m" "m \<le> 13" "b < 8 * 2 ^ m" "hdr \<longrightarrow> 64 \<le> b"
  shows "ecc_spec m (skip_header hdr (pdw (flip_bit pb b)))
       = ecc_spec m (skip_header hdr (pdw pb)) XOR code_bit m b"
proof -
  have "b div 32 < 2 ^ (m - 2)"
    using page_cases [OF assms(1,2)] assms(3) by (elim disjE) auto
  then show ?thesis
    using assms by (simp only: skip_header_flip Let_def ecc_spec_flip mod_less_divisor
        zero_less_numeral code_row_col)
qed

lemma xor_of_flip:
  assumes "10 \<le> m" "m \<le> 13" "b < 8 * 2 ^ m" "hdr \<longrightarrow> 64 \<le> b"
  shows "xorsum (skip_header hdr (pdw (flip_bit pb b))) (2 ^ (m - 2))
       = xorsum (skip_header hdr (pdw pb)) (2 ^ (m - 2)) XOR push_bit (b mod 32) 1"
proof -
  have "b div 32 < 2 ^ (m - 2)"
    using page_cases [OF assms(1,2)] assms(3) by (elim disjE) auto
  then show ?thesis
    using assms by (simp only: skip_header_flip Let_def xorsum_fun_upd if_True)
qed

text \<open>The two halves of a code word are complements; of two code words, equals.\<close>

lemma ulMask_eq:
  assumes "m \<le> 13"
  shows "push_bit 3 (word_of_nat (2 ^ m)) - 1 = (mask (m + 3) :: ULONG)"
proof -
  have "push_bit 3 (word_of_nat (2 ^ m)) = (2 ^ (m + 3) :: ULONG)"
    by (simp add: push_bit_eq_mult power_add)
  then show ?thesis
    by (simp add: mask_eq_exp_minus_1)
qed

lemma code_bit_halves:
  assumes "m \<le> 13"
  shows "take_bit (m + 3) (drop_bit 16 (code_bit m b) XOR code_bit m b) = mask (m + 3)"
  unfolding code_bit_def
  using assms by (intro bit_word_eqI) (auto simp: bit_simps)

lemma code_bit_correctable:
  assumes "m \<le> 13"
  shows "FECCErrorIsCorrectable32 (2 ^ m) ecc (ecc XOR code_bit m b)"
  using code_bit_halves [OF assms]
  by (simp add: FECCErrorIsCorrectable32_def Let_def ulMask_eq [OF assms] AND_mask_eq
      xor.assoc xor_left_self xor.commute [of _ ecc] del: of_nat_power)

lemma code_bit_pair:
  assumes "m \<le> 13"
  shows "\<not> FECCErrorIsCorrectable32 (2 ^ m) ecc (ecc XOR code_bit m b XOR code_bit m b')"
proof -
  have "take_bit (m + 3) (drop_bit 16 (code_bit m b XOR code_bit m b') XOR (code_bit m b XOR code_bit m b'))
      = take_bit (m + 3) (drop_bit 16 (code_bit m b) XOR code_bit m b)
        XOR take_bit (m + 3) (drop_bit 16 (code_bit m b') XOR code_bit m b')"
    by (simp add: xor_homs ac_simps)
  then have "take_bit (m + 3) (drop_bit 16 (code_bit m b XOR code_bit m b')
      XOR (code_bit m b XOR code_bit m b')) = 0"
    by (simp only: code_bit_halves [OF assms] xor_self_eq)
  moreover have "bit (mask (m + 3) :: ULONG) 0"
    by (simp add: bit_simps)
  ultimately show ?thesis
    by (auto simp add: FECCErrorIsCorrectable32_def Let_def ulMask_eq [OF assms] AND_mask_eq
        xor_left_self xor.commute [of _ ecc] xor.assoc simp del: of_nat_power)
qed

lemma code_bit_low:
  assumes "m \<le> 13" "b < 8 * 2 ^ m"
  shows "take_bit 16 (code_bit m b) = word_of_nat b"
proof -
  have b: "b < 2 ^ (m + 3)"
    using assms(2) by (simp add: power_add)
  have "take_bit 16 (code_bit m b) = take_bit (m + 3) (word_of_nat b)"
    unfolding code_bit_def using assms(1) by (intro bit_word_eqI) (auto simp: bit_simps)
  also have "\<dots> = word_of_nat (take_bit (m + 3) b)"
    by (simp add: take_bit_of_nat)
  finally show ?thesis
    using b by (simp only: take_bit_nat_eq_self)
qed

lemma code_bit_inj:
  assumes "m \<le> 13" "b < 8 * 2 ^ m" "b' < 8 * 2 ^ m" "code_bit m b = code_bit m b'"
  shows "b = b'"
proof -
  have pow: "8 * 2 ^ m \<le> (2 ^ 16 :: nat)"
    using power_increasing [of "m + 3" 16 "2::nat"] assms(1) by (simp add: power_add)
  have "word_of_nat b = (word_of_nat b' :: ULONG)"
    using code_bit_low assms by metis
  then have "unat (word_of_nat b :: ULONG) = unat (word_of_nat b' :: ULONG)"
    by simp
  with pow assms(2,3) show ?thesis
    by (simp add: unat_of_nat take_bit_nat_eq_self)
qed

lemma IbitCorrupted32_code:
  assumes "10 \<le> m" "m \<le> 13" "b < 8 * 2 ^ m"
  shows "IbitCorrupted32 (2 ^ m) ecc (ecc XOR code_bit m b) = word_of_nat b"
proof -
  have ne: "code_bit m b \<noteq> 0"
  proof
    assume "code_bit m b = 0"
    then have "take_bit (m + 3) (0 :: ULONG) = mask (m + 3)"
      using code_bit_halves [OF assms(2), of b] by simp
    then have "bit (0 :: ULONG) 0 = bit (mask (m + 3) :: ULONG) 0" by simp
    then show False by (simp add: bit_simps)
  qed
  have pow: "8 * 2 ^ m \<le> (2 ^ 16 :: nat)"
    using power_increasing [of "m + 3" 16 "2::nat"] assms(2) by (simp add: power_add)
  have "0xffff = (mask 16 :: ULONG)"
    by (simp add: mask_eq_exp_minus_1)
  then have low: "code_bit m b AND 0xffff = word_of_nat b"
    using code_bit_low [OF assms(2,3)] by (simp only: AND_mask_eq)
  have "unat (word_of_nat b div 8 :: ULONG) = b div 8"
    using pow assms(3) by (simp add: unat_div unat_of_nat take_bit_nat_eq_self)
  moreover have "unat (word_of_nat (2 ^ m) :: ULONG) = 2 ^ m"
    using pow assms(3) by (simp add: unat_of_nat take_bit_nat_eq_self del: of_nat_power)
  ultimately have "\<not> (word_of_nat (2 ^ m) \<le> (word_of_nat b div 8 :: ULONG))"
    using assms(3) by (simp add: word_le_nat_alt del: of_nat_power)
  with ne low show ?thesis
    by (simp add: IbitCorrupted32_def Let_def xor.commute [of _ ecc] xor_left_self del: of_nat_power)
qed

lemma flip_bit_flip_bit [simp]: "flip_bit (flip_bit pb b) b = pb"
  by (auto simp: flip_bit_def fun_eq_iff xor.assoc)

section \<open>The contract of a new-format routine\<close>

lemma pdw_cong: "(\<And>a. 4 * i \<le> a \<Longrightarrow> a < 4 * i + 4 \<Longrightarrow> pb a = pb' a) \<Longrightarrow> pdw pb i = pdw pb' i"
  by (simp add: pdw_def)

lemma xe_spec_cong:
  assumes "10 \<le> m" "m \<le> 13"
    and "\<And>a. (if hdr then 8 else 0) \<le> a \<Longrightarrow> a < 2 ^ m \<Longrightarrow> pb a = pb' a"
  shows "xe_spec pb m pgno hdr = xe_spec pb' m pgno hdr"
proof -
  have m: "4 * 2 ^ (m - 2) = (2 ^ m :: nat)"
    using page_cases [OF assms(1,2)] by auto
  have g: "skip_header hdr (pdw pb) i = skip_header hdr (pdw pb') i" if "i < 2 ^ (m - 2)" for i
  proof (cases "hdr \<and> i < 2")
    case False
    have "pdw pb i = pdw pb' i"
    proof (rule pdw_cong)
      fix a
      assume a: "4 * i \<le> a" "a < 4 * i + 4"
      have "a < 2 ^ m"
        using a that m by linarith
      moreover have "(if hdr then 8 else 0) \<le> a"
        using a False by auto
      ultimately show "pb a = pb' a"
        by (intro assms(3))
    qed
    then show ?thesis
      by (simp add: skip_header_def)
  qed (simp add: skip_header_def)
  then have x: "xorsum (skip_header hdr (pdw pb)) (2 ^ (m - 2))
      = xorsum (skip_header hdr (pdw pb')) (2 ^ (m - 2))"
    by (intro xorsum_cong) simp
  have "ecc_spec m (skip_header hdr (pdw pb)) = ecc_spec m (skip_header hdr (pdw pb'))"
    unfolding ecc_spec_def x using g
    by (intro arg_cong2 [of _ _ _ _ "(XOR)"] xorsum_cong) simp_all
  with x show ?thesis
    by (simp add: xe_spec_def)
qed

locale xe_routine =
  fixes chk :: "mem \<Rightarrow> nat \<Rightarrow> ULONG \<Rightarrow> bool \<Rightarrow> QWORD"
  assumes chk_spec: "10 \<le> m \<Longrightarrow> m \<le> 13 \<Longrightarrow> chk pb (2 ^ m) pgno hdr = xe_spec pb m pgno hdr"
begin

lemma single_bit_corrected:
  fixes pb :: mem and pgno :: ULONG and hdr :: bool and m b b' :: nat
  assumes "10 \<le> m" "m \<le> 13" "b < 8 * 2 ^ m" "hdr \<longrightarrow> 64 \<le> b"
  defines "x \<equiv> chk pb (2 ^ m) pgno hdr" and "y \<equiv> chk (flip_bit pb b) (2 ^ m) pgno hdr"
  shows "FECCErrorIsCorrectable (2 ^ m) x y" and "IbitCorrupted (2 ^ m) x y = word_of_nat b"
proof -
  let ?g = "skip_header hdr (pdw pb)"
  let ?e = "ecc_spec m ?g" and ?s = "xorsum ?g (2 ^ (m - 2))"
  have "(?s XOR push_bit (b mod 32) 1 XOR pgno) XOR (?s XOR pgno) = push_bit (b mod 32) (1 :: ULONG)"
    by (simp add: ac_simps xor_left_self)
  then show "FECCErrorIsCorrectable (2 ^ m) x y" and "IbitCorrupted (2 ^ m) x y = word_of_nat b"
    using assms(2) CbitSet_single [of "b mod 32"]
    unfolding x_def y_def FECCErrorIsCorrectable_def IbitCorrupted_def Let_def
      chk_spec [OF assms(1,2)] xe_spec_def ecc_of_flip [OF assms(1-4)] xor_of_flip [OF assms(1-4)]
    by (simp_all only: DwECC_Make DwXOR_Make code_bit_correctable xor.assoc
        IbitCorrupted32_code [OF assms(1-3)] if_True simp_thms mod_less_divisor zero_less_numeral)
qed

lemma single_bit_restored:
  assumes "10 \<le> m" "m \<le> 13" "b < 8 * 2 ^ m" "hdr \<longrightarrow> 64 \<le> b"
  shows "flip_bit (flip_bit pb b)
     (unat (IbitCorrupted (2 ^ m) (chk pb (2 ^ m) pgno hdr) (chk (flip_bit pb b) (2 ^ m) pgno hdr))) = pb"
proof -
  have "8 * 2 ^ m \<le> (2 ^ 16 :: nat)"
    using power_increasing [of "m + 3" 16 "2::nat"] assms(2) by (simp add: power_add)
  then have "unat (word_of_nat b :: ULONG) = b"
    using assms(3) by (simp add: unat_of_nat take_bit_nat_eq_self)
  then show ?thesis
    using single_bit_corrected(2) [OF assms] by simp
qed

lemma double_bit_detected:
  fixes pb :: mem and pgno :: ULONG and hdr :: bool and m b b' :: nat
  assumes "10 \<le> m" "m \<le> 13" "b < 8 * 2 ^ m" "b' < 8 * 2 ^ m" "b \<noteq> b'"
    and "hdr \<longrightarrow> 64 \<le> b" "hdr \<longrightarrow> 64 \<le> b'"
  defines "x \<equiv> chk pb (2 ^ m) pgno hdr"
    and "y \<equiv> chk (flip_bit (flip_bit pb b) b') (2 ^ m) pgno hdr"
  shows "x \<noteq> y" and "\<not> FECCErrorIsCorrectable (2 ^ m) x y"
proof -
  let ?e = "ecc_spec m (skip_header hdr (pdw pb))"
  have x: "DwECCChecksumFromXEChecksum x = ?e"
    by (simp add: x_def chk_spec [OF assms(1,2)] xe_spec_def)
  have "DwECCChecksumFromXEChecksum y = (?e XOR code_bit m b) XOR code_bit m b'"
    using assms
    by (simp only: y_def chk_spec xe_spec_def DwECC_Make ecc_of_flip)
  then have y: "DwECCChecksumFromXEChecksum y = ?e XOR code_bit m b XOR code_bit m b'"
    by (simp only: xor.assoc)
  have "code_bit m b XOR code_bit m b' \<noteq> 0"
    using code_bit_inj [OF assms(2-4)] assms(5) xor_cancel_left [of "code_bit m b" "code_bit m b'" "code_bit m b"]
    by auto
  then show "x \<noteq> y"
    using x y xor_cancel_left [of ?e 0 "code_bit m b XOR code_bit m b'"] by auto
  show "\<not> FECCErrorIsCorrectable (2 ^ m) x y"
    using code_bit_pair [OF assms(2)] by (simp add: FECCErrorIsCorrectable_def x y)
qed

lemma wrong_page_detected:
  assumes "10 \<le> m" "m \<le> 13" "pgno \<noteq> pgno'"
  shows "chk pb (2 ^ m) pgno hdr \<noteq> chk pb (2 ^ m) pgno' hdr"
    and "\<not> FECCErrorIsCorrectable (2 ^ m) (chk pb (2 ^ m) pgno hdr) (chk pb (2 ^ m) pgno' hdr)"
proof -
  let ?x = "chk pb (2 ^ m) pgno hdr" and ?y = "chk pb (2 ^ m) pgno' hdr"
  have "DwXORChecksumFromXEChecksum ?x \<noteq> DwXORChecksumFromXEChecksum ?y"
    using assms(3) by (simp add: chk_spec [OF assms(1,2)] xe_spec_def)
  then show "?x \<noteq> ?y" by auto
  have "push_bit 3 (word_of_nat (2 ^ m)) - 1 \<noteq> (0 :: ULONG)"
    using page_cases [OF assms(1,2)] by auto
  then show "\<not> FECCErrorIsCorrectable (2 ^ m) ?x ?y"
    by (simp add: FECCErrorIsCorrectable_def FECCErrorIsCorrectable32_def Let_def
        chk_spec [OF assms(1,2)] xe_spec_def)
qed

lemma reads_only_page:
  assumes "10 \<le> m" "m \<le> 13"
    and "\<And>a. (if hdr then 8 else 0) \<le> a \<Longrightarrow> a < 2 ^ m \<Longrightarrow> pb a = pb' a"
  shows "chk pb (2 ^ m) pgno hdr = chk pb' (2 ^ m) pgno hdr"
  using xe_spec_cong [OF assms] by (simp add: chk_spec [OF assms(1,2)])

end

interpretation slowly: xe_routine ChecksumNewFormatSlowly
  by unfold_locales (rule ChecksumNewFormatSlowly_spec)

interpretation sse: xe_routine ChecksumNewFormatSSE
  by unfold_locales (rule ChecksumNewFormatSSE_spec)

interpretation bit64: xe_routine ChecksumNewFormat64Bit
  by unfold_locales (rule ChecksumNewFormat64Bit_spec)

end
