(* ===== verification/Checksum_SIMD.thy ===== *)
theory Checksum_SIMD
  imports Checksum_Props
begin

text \<open>
  The vector checksum routines: \<open>ChecksumOldFormatSSE2\<close> and \<open>ChecksumNewFormatSSE2\<close> of
  \<open>ms/checksum_amd64.cxx\<close>, \<open>ChecksumNewFormatAVX\<close> of \<open>ms/checksum_avx.cxx\<close>, and the
  self-patching dispatch of \<open>ms/checksum.cxx\<close>. A vector register is the tuple of its 32-bit
  lanes and an intrinsic is the lane function the processor manual documents. The lanes that
  \<open>_mm256_castsi128_si256\<close> leaves undefined are an argument of the model.

  The lemmas split the code of a row, a column or a byte by the position of its index bits,
  so that each accumulator of a routine is one part of the code; every routine satisfies the
  contract \<open>xe_routine\<close>, and so does the dispatch, in every state of its pointer.
\<close>

section \<open>Vector registers\<close>

datatype m128i = M128 ULONG ULONG ULONG ULONG

fun m128i_i32 :: "m128i \<Rightarrow> nat \<Rightarrow> ULONG" where
  "m128i_i32 (M128 a b c d) k = (if k = 0 then a else if k = 1 then b else if k = 2 then c else d)"

definition pdq :: "mem \<Rightarrow> nat \<Rightarrow> m128i" where
  "pdq pb i = M128 (pdw pb (4 * i)) (pdw pb (4 * i + 1)) (pdw pb (4 * i + 2)) (pdw pb (4 * i + 3))"

definition mm_setzero_si128 :: m128i where
  "mm_setzero_si128 = M128 0 0 0 0"

fun mm_xor_si128 :: "m128i \<Rightarrow> m128i \<Rightarrow> m128i" where
  "mm_xor_si128 (M128 a b c d) (M128 a' b' c' d') = M128 (a XOR a') (b XOR b') (c XOR c') (d XOR d')"

definition mm_shuffle_epi32 :: "m128i \<Rightarrow> nat \<Rightarrow> m128i" where
  "mm_shuffle_epi32 dq imm = M128 (m128i_i32 dq (imm mod 4)) (m128i_i32 dq (imm div 4 mod 4))
     (m128i_i32 dq (imm div 16 mod 4)) (m128i_i32 dq (imm div 64 mod 4))"

fun mm_unpackhi_epi64 :: "m128i \<Rightarrow> m128i \<Rightarrow> m128i" where
  "mm_unpackhi_epi64 (M128 a b c d) (M128 a' b' c' d') = M128 c d c' d'"

definition mm_cvtsi128_si32 :: "m128i \<Rightarrow> ULONG" where
  "mm_cvtsi128_si32 dq = m128i_i32 dq 0"

definition mm_cvtsi128_si64 :: "m128i \<Rightarrow> QWORD" where
  "mm_cvtsi128_si64 dq = ucast (m128i_i32 dq 0) OR push_bit 32 (ucast (m128i_i32 dq 1))"

definition mm_popcnt_u32 :: "ULONG \<Rightarrow> nat" where
  "mm_popcnt_u32 w = length (filter (bit w) [0..<32])"

definition mm_popcnt_u64 :: "QWORD \<Rightarrow> nat" where
  "mm_popcnt_u64 w = length (filter (bit w) [0..<64])"

datatype m256i = M256 (lo128: m128i) (hi128: m128i)

definition pqq :: "mem \<Rightarrow> nat \<Rightarrow> m256i" where
  "pqq pb i = M256 (pdq pb (2 * i)) (pdq pb (2 * i + 1))"

definition mm256_setzero_si256 :: m256i where
  "mm256_setzero_si256 = M256 mm_setzero_si128 mm_setzero_si128"

fun mm256_xor :: "m256i \<Rightarrow> m256i \<Rightarrow> m256i" where
  "mm256_xor (M256 a b) (M256 a' b') = M256 (mm_xor_si128 a a') (mm_xor_si128 b b')"

text \<open>One 4-bit control of \<open>_mm256_permute2f128_si256\<close>: which half, or zero.\<close>

definition permute_half :: "m256i \<Rightarrow> m256i \<Rightarrow> nat \<Rightarrow> m128i" where
  "permute_half a b c = (if c div 8 mod 2 = 1 then mm_setzero_si128
     else if c mod 4 = 0 then lo128 a else if c mod 4 = 1 then hi128 a
     else if c mod 4 = 2 then lo128 b else hi128 b)"

definition mm256_permute2f128_si256 :: "m256i \<Rightarrow> m256i \<Rightarrow> nat \<Rightarrow> m256i" where
  "mm256_permute2f128_si256 a b imm = M256 (permute_half a b (imm mod 16)) (permute_half a b (imm div 16 mod 16))"

definition mm256_castsi128_si256 :: "m128i \<Rightarrow> m128i \<Rightarrow> m256i" where
  "mm256_castsi128_si256 undef dq = M256 dq undef"

definition mm256_insertf128_si256 :: "m256i \<Rightarrow> m128i \<Rightarrow> nat \<Rightarrow> m256i" where
  "mm256_insertf128_si256 qq dq imm = (if imm mod 2 = 0 then M256 dq (hi128 qq) else M256 (lo128 qq) dq)"

definition m256i_i32 :: "m256i \<Rightarrow> nat \<Rightarrow> ULONG" where
  "m256i_i32 qq k = (if k < 4 then m128i_i32 (lo128 qq) k else m128i_i32 (hi128 qq) (k - 4))"

section \<open>Old format\<close>

function old_rows_SSE2 :: "(nat \<Rightarrow> m128i) \<Rightarrow> int \<Rightarrow> nat \<Rightarrow> m128i \<Rightarrow> m128i" where
  "old_rows_SSE2 p cbT k owChecksum =
     (let cbT = cbT - 128
      in if cbT \<ge> 0
         then (let owChecksumT1 = mm_xor_si128 (p k) (p (k + 1));
                   owChecksumT2 = mm_xor_si128 (p (k + 2)) (p (k + 3));
                   owChecksumT3 = mm_xor_si128 (p (k + 4)) (p (k + 5));
                   owChecksumT4 = mm_xor_si128 (p (k + 6)) (p (k + 7));
                   owChecksumT1 = mm_xor_si128 owChecksumT1 owChecksumT2;
                   owChecksumT3 = mm_xor_si128 owChecksumT3 owChecksumT4;
                   owChecksum = mm_xor_si128 owChecksum owChecksumT1;
                   owChecksum = mm_xor_si128 owChecksum owChecksumT3
               in old_rows_SSE2 p cbT (k + 8) owChecksum)
         else owChecksum)"
  by pat_completeness auto
termination
  by (relation "measure (\<lambda>(p, cbT, k, c). nat cbT)") auto

declare old_rows_SSE2.simps [simp del]

definition ChecksumOldFormatSSE2 :: "mem \<Rightarrow> nat \<Rightarrow> ULONG" where
  "ChecksumOldFormatSSE2 pb cb =
     (let ulChecksum = 0x89abcdef XOR pdw pb 0;
          owChecksum = old_rows_SSE2 (pdq pb) (int cb) 0 mm_setzero_si128
      in ulChecksum XOR (m128i_i32 owChecksum 0 XOR m128i_i32 owChecksum 1
           XOR m128i_i32 owChecksum 2 XOR m128i_i32 owChecksum 3))"

section \<open>Parity masks\<close>

datatype ChecksumParityMaskFunc = ParityMaskFuncDefault | ParityMaskFuncPopcnt

definition lParityMask128 :: "m128i \<Rightarrow> ULONG" where
  "lParityMask128 dq =
     (let dq1 = mm_shuffle_epi32 dq 0x4e;
          dq2 = mm_xor_si128 dq dq1;
          dq3 = mm_shuffle_epi32 dq2 0x1b;
          dq4 = mm_xor_si128 dq2 dq3
      in lParityMask (mm_cvtsi128_si32 dq4))"

text \<open>\<open>fX86\<close> is the 32-bit build, which has no 64-bit population count.\<close>

definition lParityMaskPopcnt128 :: "bool \<Rightarrow> m128i \<Rightarrow> ULONG" where
  "lParityMaskPopcnt128 fX86 dq =
     (let dq1 = mm_shuffle_epi32 dq 0x4e;
          dq2 = mm_xor_si128 dq dq1;
          popcnt = (if fX86
            then (let dq3 = mm_shuffle_epi32 dq2 0x1b; dq4 = mm_xor_si128 dq2 dq3
                  in mm_popcnt_u32 (mm_cvtsi128_si32 dq4))
            else mm_popcnt_u64 (mm_cvtsi128_si64 dq2))
      in - word_of_nat (popcnt mod 2))"

definition lParityMaskPopcnt :: "ULONG \<Rightarrow> ULONG" where
  "lParityMaskPopcnt dw = - word_of_nat (mm_popcnt_u32 dw mod 2)"

definition lParityMaskAVX :: "bool \<Rightarrow> m256i \<Rightarrow> ULONG" where
  "lParityMaskAVX fX86 qq =
     (let qq1 = mm256_permute2f128_si256 qq qq 0x01;
          dq2 = lo128 (mm256_xor qq1 qq);
          dq3 = mm_shuffle_epi32 dq2 0x4e;
          dq4 = mm_xor_si128 dq3 dq2;
          popcnt = (if fX86
            then (let dq5 = mm_shuffle_epi32 dq4 0x1b; dq6 = mm_xor_si128 dq5 dq4
                  in mm_popcnt_u32 (mm_cvtsi128_si32 dq6))
            else mm_popcnt_u64 (mm_cvtsi128_si64 dq4))
      in - word_of_nat (popcnt mod 2))"

definition g_bECCLookupTable :: "nat list" where
  "g_bECCLookupTable =
  [ 0x00, 0x70, 0x61, 0x11, 0x52, 0x22, 0x33, 0x43, 0x43, 0x33, 0x22, 0x52, 0x11, 0x61, 0x70, 0x00,
    0x34, 0x44, 0x55, 0x25, 0x66, 0x16, 0x07, 0x77, 0x77, 0x07, 0x16, 0x66, 0x25, 0x55, 0x44, 0x34,
    0x25, 0x55, 0x44, 0x34, 0x77, 0x07, 0x16, 0x66, 0x66, 0x16, 0x07, 0x77, 0x34, 0x44, 0x55, 0x25,
    0x11, 0x61, 0x70, 0x00, 0x43, 0x33, 0x22, 0x52, 0x52, 0x22, 0x33, 0x43, 0x00, 0x70, 0x61, 0x11,
    0x16, 0x66, 0x77, 0x07, 0x44, 0x34, 0x25, 0x55, 0x55, 0x25, 0x34, 0x44, 0x07, 0x77, 0x66, 0x16,
    0x22, 0x52, 0x43, 0x33, 0x70, 0x00, 0x11, 0x61, 0x61, 0x11, 0x00, 0x70, 0x33, 0x43, 0x52, 0x22,
    0x33, 0x43, 0x52, 0x22, 0x61, 0x11, 0x00, 0x70, 0x70, 0x00, 0x11, 0x61, 0x22, 0x52, 0x43, 0x33,
    0x07, 0x77, 0x66, 0x16, 0x55, 0x25, 0x34, 0x44, 0x44, 0x34, 0x25, 0x55, 0x16, 0x66, 0x77, 0x07,
    0x07, 0x77, 0x66, 0x16, 0x55, 0x25, 0x34, 0x44, 0x44, 0x34, 0x25, 0x55, 0x16, 0x66, 0x77, 0x07,
    0x33, 0x43, 0x52, 0x22, 0x61, 0x11, 0x00, 0x70, 0x70, 0x00, 0x11, 0x61, 0x22, 0x52, 0x43, 0x33,
    0x22, 0x52, 0x43, 0x33, 0x70, 0x00, 0x11, 0x61, 0x61, 0x11, 0x00, 0x70, 0x33, 0x43, 0x52, 0x22,
    0x16, 0x66, 0x77, 0x07, 0x44, 0x34, 0x25, 0x55, 0x55, 0x25, 0x34, 0x44, 0x07, 0x77, 0x66, 0x16,
    0x11, 0x61, 0x70, 0x00, 0x43, 0x33, 0x22, 0x52, 0x52, 0x22, 0x33, 0x43, 0x00, 0x70, 0x61, 0x11,
    0x25, 0x55, 0x44, 0x34, 0x77, 0x07, 0x16, 0x66, 0x66, 0x16, 0x07, 0x77, 0x34, 0x44, 0x55, 0x25,
    0x34, 0x44, 0x55, 0x25, 0x66, 0x16, 0x07, 0x77, 0x77, 0x07, 0x16, 0x66, 0x25, 0x55, 0x44, 0x34,
    0x00, 0x70, 0x61, 0x11, 0x52, 0x22, 0x33, 0x43, 0x43, 0x33, 0x22, 0x52, 0x11, 0x61, 0x70, 0x00]"

definition lECCLookup8bit :: "ULONG \<Rightarrow> ULONG" where
  "lECCLookup8bit b = word_of_nat (g_bECCLookupTable ! unat (b AND 0xff))"

section \<open>New format, 128-bit registers\<close>

record sse2 =
  dq0 :: m128i
  dq1 :: m128i
  dq2 :: m128i
  dq3 :: m128i
  p128 :: ULONG
  idxp128 :: ULONG

definition parity128 :: "ChecksumParityMaskFunc \<Rightarrow> bool \<Rightarrow> m128i \<Rightarrow> ULONG" where
  "parity128 T fX86 dq =
     (if T = ParityMaskFuncPopcnt then lParityMaskPopcnt128 fX86 dq else lParityMask128 dq)"

text \<open>The loop body from the label \<open>Start\<close>, \<open>dqL0\<close> read.\<close>

definition sse2_body :: "ChecksumParityMaskFunc \<Rightarrow> bool \<Rightarrow> (nat \<Rightarrow> m128i) \<Rightarrow> nat \<Rightarrow> m128i \<Rightarrow> sse2 \<Rightarrow> sse2" where
  "sse2_body T fX86 p i dqL0 st =
     (let dqL1 = p (i + 1); dqL2 = p (i + 2); dqL3 = p (i + 3);
          st = st\<lparr>dq0 := mm_xor_si128 (dq0 st) dqL0, dq1 := mm_xor_si128 (dq1 st) dqL1,
                  dq2 := mm_xor_si128 (dq2 st) dqL2, dq3 := mm_xor_si128 (dq3 st) dqL3\<rparr>;
          dqLAcc = mm_xor_si128 (mm_xor_si128 (mm_xor_si128 dqL0 dqL1) dqL2) dqL3;
          parityL = parity128 T fX86 dqLAcc;
          st = st\<lparr>p128 := p128 st XOR (idxp128 st AND parityL), idxp128 := idxp128 st + 0xfe000200\<rparr>;
          dqH0 = p (i + 4); dqH1 = p (i + 5); dqH2 = p (i + 6); dqH3 = p (i + 7);
          st = st\<lparr>dq0 := mm_xor_si128 (dq0 st) dqH0, dq1 := mm_xor_si128 (dq1 st) dqH1,
                  dq2 := mm_xor_si128 (dq2 st) dqH2, dq3 := mm_xor_si128 (dq3 st) dqH3\<rparr>;
          dqHAcc = mm_xor_si128 (mm_xor_si128 (mm_xor_si128 dqH0 dqH1) dqH2) dqH3;
          parityH = parity128 T fX86 dqHAcc
      in st\<lparr>p128 := p128 st XOR (idxp128 st AND parityH), idxp128 := idxp128 st + 0xfe000200\<rparr>)"

function sse2_loop :: "ChecksumParityMaskFunc \<Rightarrow> bool \<Rightarrow> (nat \<Rightarrow> m128i) \<Rightarrow> nat \<Rightarrow> nat \<Rightarrow> m128i \<Rightarrow> sse2 \<Rightarrow> sse2" where
  "sse2_loop T fX86 p cdq i dqL0 st =
     (let st = sse2_body T fX86 p i dqL0 st; i = i + 8
      in if i < cdq then sse2_loop T fX86 p cdq i (p (i + 0)) st else st)"
  by pat_completeness auto
termination
  by (relation "measure (\<lambda>(T, x, p, cdq, i, a, st). cdq - i)") auto

declare sse2_loop.simps [simp del]

definition sse2_scan :: "ChecksumParityMaskFunc \<Rightarrow> bool \<Rightarrow> (nat \<Rightarrow> m128i) \<Rightarrow> nat \<Rightarrow> bool \<Rightarrow> sse2" where
  "sse2_scan T fX86 p cdq fHeaderBlock =
     (let st = \<lparr>dq0 = mm_setzero_si128, dq1 = mm_setzero_si128, dq2 = mm_setzero_si128,
                dq3 = mm_setzero_si128, p128 = 0, idxp128 = 0xfe000000\<rparr>
      in if fHeaderBlock
         then sse2_loop T fX86 p cdq 0 (mm_unpackhi_epi64 mm_setzero_si128 (p 0)) st
         else sse2_loop T fX86 p cdq 0 (p 0) st)"

text \<open>
  The loops over stored dwords and over the four bytes of the folded dword; \<open>mk\<close> is the parity
  mask of a dword or byte, accumulators \<open>(dw0, q)\<close> and \<open>(r, byte0)\<close>.
\<close>

fun dword_scan :: "(ULONG \<Rightarrow> ULONG) \<Rightarrow> ULONG list \<Rightarrow> ULONG \<Rightarrow> ULONG \<times> ULONG \<Rightarrow> ULONG \<times> ULONG" where
  "dword_scan mk [] idxq acc = acc"
| "dword_scan mk (dwT # dws) idxq (dw0, q) =
     dword_scan mk dws (idxq + 0xffe00020) (dw0 XOR dwT, q XOR (idxq AND mk dwT))"

fun byte_scan :: "(ULONG \<Rightarrow> ULONG) \<Rightarrow> nat \<Rightarrow> ULONG \<Rightarrow> ULONG \<Rightarrow> ULONG \<times> ULONG \<Rightarrow> ULONG \<times> ULONG" where
  "byte_scan mk 0 byteT idxr acc = acc"
| "byte_scan mk (Suc n) byteT idxr (r, byte0) =
     byte_scan mk n (drop_bit 8 byteT) (idxr + 0xfff80008)
       (r XOR (idxr AND mk (byteT AND 0xff)), byte0 XOR byteT)"

definition ChecksumNewFormatSSE2 ::
  "ChecksumParityMaskFunc \<Rightarrow> bool \<Rightarrow> mem \<Rightarrow> nat \<Rightarrow> ULONG \<Rightarrow> bool \<Rightarrow> QWORD" where
  "ChecksumNewFormatSSE2 T fX86 pb cb pgno fHeaderBlock =
     (let cdq = cb div 16;
          st = sse2_scan T fX86 (pdq pb) cdq fHeaderBlock;
          dws = [m128i_i32 dq k. dq \<leftarrow> [dq0 st, dq1 st, dq2 st, dq3 st], k \<leftarrow> [0, 1, 2, 3]];
          mk = (if T = ParityMaskFuncPopcnt then lParityMaskPopcnt else lParityMask);
          (dw0, q) = dword_scan mk dws 0xffe00000 (0, 0);
          mkb = (if T = ParityMaskFuncPopcnt then lParityMaskPopcnt
                 else (\<lambda>b. word_of_int (g_bParityLookupTable ! unat b)));
          (r, byte0) = byte_scan mkb 4 dw0 0xfff80000 (0, 0);
          bits = lECCLookup8bit byte0;
          r = r OR (bits AND 0x07);
          r = r OR (push_bit 12 bits AND 0x00070000);
          msk = push_bit 19 (word_of_nat cb) - 1;
          ecc = (p128 st AND 0xfe00fe00 AND msk) OR (q AND 0x01e001e0) OR (r AND 0x001f001f);
          xorv = dw0
      in MakeChecksumFromECCXORAndPgno ecc xorv pgno)"

section \<open>New format, 256-bit registers\<close>

record avx =
  qq0 :: m256i
  qq1 :: m256i
  qq2 :: m256i
  qq3 :: m256i
  p256 :: ULONG
  idxp256 :: ULONG

definition avx_body :: "bool \<Rightarrow> (nat \<Rightarrow> m256i) \<Rightarrow> nat \<Rightarrow> m256i \<Rightarrow> avx \<Rightarrow> avx" where
  "avx_body fX86 p i qqL0 st =
     (let qqL1 = p (i + 1); qqL2 = p (i + 2); qqL3 = p (i + 3);
          st = st\<lparr>qq0 := mm256_xor (qq0 st) qqL0, qq1 := mm256_xor (qq1 st) qqL1,
                  qq2 := mm256_xor (qq2 st) qqL2, qq3 := mm256_xor (qq3 st) qqL3\<rparr>;
          qqLAcc = mm256_xor (mm256_xor (mm256_xor qqL0 qqL1) qqL2) qqL3
      in st\<lparr>p256 := p256 st XOR (idxp256 st AND lParityMaskAVX fX86 qqLAcc),
            idxp256 := idxp256 st + 0xfc000400\<rparr>)"

function avx_loop :: "bool \<Rightarrow> (nat \<Rightarrow> m256i) \<Rightarrow> nat \<Rightarrow> nat \<Rightarrow> m256i \<Rightarrow> avx \<Rightarrow> avx" where
  "avx_loop fX86 p cqq i qqL0 st =
     (let st = avx_body fX86 p i qqL0 st; i = i + 4
      in if i < cqq then avx_loop fX86 p cqq i (p (i + 0)) st else st)"
  by pat_completeness auto
termination
  by (relation "measure (\<lambda>(x, p, cqq, i, a, st). cqq - i)") auto

declare avx_loop.simps [simp del]

definition avx_scan :: "m128i \<Rightarrow> bool \<Rightarrow> mem \<Rightarrow> nat \<Rightarrow> bool \<Rightarrow> avx" where
  "avx_scan undef fX86 pb cqq fHeaderBlock =
     (let z = mm256_setzero_si256;
          st = \<lparr>qq0 = z, qq1 = z, qq2 = z, qq3 = z, p256 = 0, idxp256 = 0xfc000000\<rparr>
      in if fHeaderBlock
         then (let qqL0 = mm256_castsi128_si256 undef (mm_unpackhi_epi64 mm_setzero_si128 (pdq pb 0));
                   qqL0 = mm256_insertf128_si256 qqL0 (pdq pb 1) 1
               in avx_loop fX86 (pqq pb) cqq 0 qqL0 st)
         else avx_loop fX86 (pqq pb) cqq 0 (pqq pb 0) st)"

definition ChecksumNewFormatAVX ::
  "m128i \<Rightarrow> bool \<Rightarrow> mem \<Rightarrow> nat \<Rightarrow> ULONG \<Rightarrow> bool \<Rightarrow> QWORD" where
  "ChecksumNewFormatAVX undef fX86 pb cb pgno fHeaderBlock =
     (let cqq = cb div 32;
          st = avx_scan undef fX86 pb cqq fHeaderBlock;
          qqAcc = mm256_xor (mm256_xor (mm256_xor (qq0 st) (qq1 st)) (qq2 st)) (qq3 st);
          q = 0; idxq = 0xff000000;
          q = q XOR (idxq AND lParityMaskAVX fX86 (qq0 st)); idxq = idxq + 0xff000100;
          q = q XOR (idxq AND lParityMaskAVX fX86 (qq1 st)); idxq = idxq + 0xff000100;
          q = q XOR (idxq AND lParityMaskAVX fX86 (qq2 st)); idxq = idxq + 0xff000100;
          q = q XOR (idxq AND lParityMaskAVX fX86 (qq3 st));
          (dwAcc, q') = dword_scan lParityMaskPopcnt (map (m256i_i32 qqAcc) [0..<8]) 0xffe00000 (0, 0);
          (r, byte0) = byte_scan lParityMaskPopcnt 4 dwAcc 0xfff80000 (0, 0);
          bits = lECCLookup8bit byte0;
          r = r OR (bits AND 0x07);
          r = r OR (push_bit 12 bits AND 0x00070000);
          msk = push_bit 19 (word_of_nat cb) - 1;
          ecc = (p256 st AND 0xfc00fc00 AND msk) OR (q AND 0x03000300) OR (q' AND 0x00e000e0)
             OR (r AND 0x001f001f);
          xorv = dwAcc
      in MakeChecksumFromECCXORAndPgno ecc xorv pgno)"

section \<open>Dispatch\<close>

text \<open>
  What the build and the processor offer. The first call through the function pointer lands in
  the selector, which stores the routine it picks; later calls go straight to it.
\<close>

record cpu =
  fX86 :: bool
  fCHPE :: bool
  FSSEInstructionsAvailable :: bool
  FSSE2InstructionsAvailable :: bool
  FAVXEnabled :: bool
  FPopcntAvailable :: bool

datatype pfn_old = OldSlowly | Old64Bit | OldSSE | OldSSE2

datatype pfn_new = NewSlowly | New64Bit | NewSSE | NewSSE2 ChecksumParityMaskFunc | NewAVX

definition select_old :: "cpu \<Rightarrow> pfn_old" where
  "select_old c =
     (if fX86 c \<and> fCHPE c then OldSlowly
      else if FSSEInstructionsAvailable c
        then (if FSSE2InstructionsAvailable c then OldSSE2 else OldSSE)
      else if \<not> fX86 c then Old64Bit
      else OldSlowly)"

definition select_new :: "cpu \<Rightarrow> pfn_new" where
  "select_new c =
     (if fX86 c \<and> fCHPE c then NewSlowly
      else if FAVXEnabled c \<and> FPopcntAvailable c then NewAVX
      else if FSSEInstructionsAvailable c
        then (if FSSE2InstructionsAvailable c
              then (if FPopcntAvailable c then NewSSE2 ParityMaskFuncPopcnt
                    else NewSSE2 ParityMaskFuncDefault)
              else NewSSE)
      else if \<not> fX86 c then New64Bit
      else NewSlowly)"

fun call_old :: "pfn_old \<Rightarrow> mem \<Rightarrow> nat \<Rightarrow> ULONG" where
  "call_old OldSlowly = ChecksumOldFormatSlowly"
| "call_old Old64Bit = ChecksumOldFormat64Bit"
| "call_old OldSSE = ChecksumOldFormatSSE"
| "call_old OldSSE2 = ChecksumOldFormatSSE2"

fun call_new :: "m128i \<Rightarrow> bool \<Rightarrow> pfn_new \<Rightarrow> mem \<Rightarrow> nat \<Rightarrow> ULONG \<Rightarrow> bool \<Rightarrow> QWORD" where
  "call_new u x86 NewSlowly = ChecksumNewFormatSlowly"
| "call_new u x86 New64Bit = ChecksumNewFormat64Bit"
| "call_new u x86 NewSSE = ChecksumNewFormatSSE"
| "call_new u x86 (NewSSE2 T) = ChecksumNewFormatSSE2 T x86"
| "call_new u x86 NewAVX = ChecksumNewFormatAVX u x86"

text \<open>
  The function pointers \<open>pfnChecksumOldFormat\<close> and \<open>pfnChecksumNewFormat\<close>: \<open>None\<close> is
  their initial value, the selector itself. Results are the checksum and the pointer's new value.
\<close>

definition ChecksumSelectOldFormat :: "cpu \<Rightarrow> mem \<Rightarrow> nat \<Rightarrow> ULONG \<times> pfn_old option" where
  "ChecksumSelectOldFormat c pb cb =
     (let pfn = select_old c; pfnChecksumOldFormat = Some pfn in (call_old pfn pb cb, pfnChecksumOldFormat))"

definition ChecksumOldFormat :: "cpu \<Rightarrow> pfn_old option \<Rightarrow> mem \<Rightarrow> nat \<Rightarrow> ULONG \<times> pfn_old option" where
  "ChecksumOldFormat c pfnChecksumOldFormat pb cb =
     (case pfnChecksumOldFormat of
        None \<Rightarrow> ChecksumSelectOldFormat c pb cb
      | Some pfn \<Rightarrow> (call_old pfn pb cb, pfnChecksumOldFormat))"

definition ChecksumSelectNewFormat ::
  "cpu \<Rightarrow> m128i \<Rightarrow> mem \<Rightarrow> nat \<Rightarrow> ULONG \<Rightarrow> bool \<Rightarrow> QWORD \<times> pfn_new option" where
  "ChecksumSelectNewFormat c u pb cb pgno fHeaderBlock =
     (let pfn = select_new c; pfnChecksumNewFormat = Some pfn
      in (call_new u (fX86 c) pfn pb cb pgno fHeaderBlock, pfnChecksumNewFormat))"

definition ChecksumNewFormat ::
  "cpu \<Rightarrow> m128i \<Rightarrow> pfn_new option \<Rightarrow> mem \<Rightarrow> nat \<Rightarrow> ULONG \<Rightarrow> bool \<Rightarrow> QWORD \<times> pfn_new option" where
  "ChecksumNewFormat c u pfnChecksumNewFormat pb cb pgno fHeaderBlock =
     (case pfnChecksumNewFormat of
        None \<Rightarrow> ChecksumSelectNewFormat c u pb cb pgno fHeaderBlock
      | Some pfn \<Rightarrow> (call_new u (fX86 c) pfn pb cb pgno fHeaderBlock, pfnChecksumNewFormat))"

text \<open>A sequence of calls by one process, threading the pointer.\<close>

fun run_new :: "cpu \<Rightarrow> pfn_new option \<Rightarrow> (m128i \<times> mem \<times> nat \<times> ULONG \<times> bool) list \<Rightarrow> QWORD list \<times> pfn_new option" where
  "run_new c pfn [] = ([], pfn)"
| "run_new c pfn ((u, pb, cb, pgno, hdr) # calls) =
     (let (x, pfn) = ChecksumNewFormat c u pfn pb cb pgno hdr; (xs, pfn) = run_new c pfn calls
      in (x # xs, pfn))"

section \<open>Fields of the code\<close>

primrec bsum :: "(nat \<Rightarrow> bool) \<Rightarrow> nat \<Rightarrow> bool" where
  "bsum P 0 = False"
| "bsum P (Suc n) = (bsum P n \<noteq> P n)"

lemma bsum_cong: "(\<And>i. i < n \<Longrightarrow> P i = Q i) \<Longrightarrow> bsum P n = bsum Q n"
  by (induction n) auto

lemma sel_bsum: "sel (bsum P n) w = xorsum (\<lambda>i. sel (P i) w) n"
  by (induction n) (auto simp: sel_def)

lemma par_xorsum: "par (xorsum g n) = bsum (\<lambda>i. par (g i)) n"
  by (induction n) (auto simp: par_XOR)

lemma bit_xorsum: "bit (xorsum g n) c = bsum (\<lambda>i. bit (g i) c) n"
  by (induction n) (auto simp: bit_simps)

lemma parn_bsum: "parn w n = bsum (bit w) n"
  by (induction n) auto

lemma xorsum_swap:
  "xorsum (\<lambda>i. xorsum (\<lambda>j. f i j) n) m = xorsum (\<lambda>j. xorsum (\<lambda>i. f i j) m) n"
  by (induction n) (simp_all add: xorsum_XOR)

text \<open>
  A sum over \<open>a * n\<close> indices whose code splits into a part for the quotient and a part for
  the remainder by \<open>a\<close>.
\<close>

lemma code_fubini:
  assumes "\<And>k t. k < n \<Longrightarrow> t < a \<Longrightarrow> C (a * k + t) = B t XOR A k"
  shows "xorsum (\<lambda>i. sel (P i) (C i)) (a * n)
    = xorsum (\<lambda>k. sel (bsum (\<lambda>t. P (a * k + t)) a) (A k)) n
      XOR xorsum (\<lambda>t. sel (bsum (\<lambda>k. P (a * k + t)) n) (B t)) a"
proof -
  have "xorsum (\<lambda>i. sel (P i) (C i)) (a * n)
      = xorsum (\<lambda>k. xorsum (\<lambda>t. sel (P (a * k + t)) (A k) XOR sel (P (a * k + t)) (B t)) a) n"
    unfolding xorsum_mult
    by (intro xorsum_cong) (simp add: assms sel_dist xor.commute)
  also have "\<dots> = xorsum (\<lambda>k. xorsum (\<lambda>t. sel (P (a * k + t)) (A k)) a) n
      XOR xorsum (\<lambda>t. xorsum (\<lambda>k. sel (P (a * k + t)) (B t)) n) a"
    by (simp only: xorsum_XOR xorsum_swap [of "\<lambda>k t. sel (P (a * k + t)) (B t)" a n])
  finally show ?thesis
    by (simp only: sel_bsum)
qed

text \<open>The \<open>n\<close>-bit index \<open>x\<close> at bit \<open>lo\<close>, its complement 16 bits higher.\<close>

definition codef :: "nat \<Rightarrow> nat \<Rightarrow> nat \<Rightarrow> ULONG" where
  "codef lo n x = push_bit (lo + 16) (take_bit n (NOT (word_of_nat x)))
     XOR push_bit lo (take_bit n (word_of_nat x))"

lemma bit_codef:
  "bit (codef lo n x) b \<longleftrightarrow> b < 32 \<and>
     ((lo \<le> b \<and> b - lo < n \<and> bit x (b - lo))
      \<noteq> (lo + 16 \<le> b \<and> b - (lo + 16) < n \<and> \<not> bit x (b - (lo + 16))))"
  by (cases "b < 32") (auto simp: codef_def bit_simps dest: bit_imp_le_length)

lemma code_row_codef: "code_row m i = codef 5 (m - 2) i"
  by (simp add: code_row_def codef_def)

lemma code_col_codef: "code_col c = codef 0 5 c"
  by (simp add: code_col_def codef_def)

lemma field_split:
  fixes t k :: nat
  assumes "t < 2 ^ a"
  shows "(lo \<le> b \<and> b - lo < a + n \<and> (bit (2 ^ a * k + t) (b - lo) = v)) =
    ((lo \<le> b \<and> b - lo < a \<and> (bit t (b - lo) = v))
     \<noteq> (lo + a \<le> b \<and> b - (lo + a) < n \<and> (bit k (b - (lo + a)) = v)))"
proof (cases "b - lo < a")
  case True
  then have "\<not> lo + a \<le> b \<or> b = lo + a \<and> a = 0" "b - lo < a + n"
    by auto
  with True show ?thesis
    by (auto simp add: bit_split_nat [OF assms])
next
  case False
  then have "lo \<le> b \<and> b - lo < a + n \<longleftrightarrow> lo + a \<le> b \<and> b - (lo + a) < n" "b - lo - a = b - (lo + a)"
    by auto
  with False show ?thesis
    by (simp add: bit_split_nat [OF assms]) blast
qed

lemma codef_split:
  assumes "t < 2 ^ a"
  shows "codef lo (a + n) (2 ^ a * k + t) = codef lo a t XOR codef (lo + a) n k"
proof (rule bit_word_eqI)
  fix b
  assume "b < LENGTH(32)"
  have e: "lo + a + 16 = lo + 16 + a"
    by simp
  note f = field_split [OF assms, of lo b n k True, simplified]
    field_split [OF assms, of "lo + 16" b n k False, simplified]
  show "bit (codef lo (a + n) (2 ^ a * k + t)) b = bit (codef lo a t XOR codef (lo + a) n k) b"
    unfolding bit_codef bit_xor_iff e f by argo
qed

text \<open>The running index words of the routines.\<close>

definition idxg :: "nat \<Rightarrow> nat \<Rightarrow> ULONG" where
  "idxg lo k = push_bit (lo + 16) (NOT (word_of_nat k)) + push_bit lo (word_of_nat k)"

lemma idxg_Suc: "idxg lo (Suc k) = idxg lo k + (push_bit lo 1 - push_bit (lo + 16) 1)"
  by (simp add: idxg_def push_bit_eq_mult not_eq_complement algebra_simps)

lemma idxg_xor:
  assumes "k < 2 ^ n" "n \<le> 16"
  shows "idxg lo k = push_bit (lo + 16) (NOT (word_of_nat k)) XOR push_bit lo (word_of_nat k)"
  unfolding idxg_def
  using assms by (intro add_eq_xor) (auto simp: bit_simps dest: nat_bit_bound [OF assms(1)])

lemma idxg_code:
  assumes "k < 2 ^ n" "n \<le> 16"
    and "\<And>b. lo \<le> b \<Longrightarrow> b < lo + n \<Longrightarrow> b < 32 \<Longrightarrow> bit W b"
    and "\<And>b. lo + 16 \<le> b \<Longrightarrow> b < 32 \<Longrightarrow> bit W b \<longleftrightarrow> b < lo + 16 + n"
  shows "idxg lo k AND W = codef lo n k"
proof (rule bit_word_eqI)
  fix b
  assume "b < LENGTH(32)"
  then have b: "b < 32" by simp
  have "bit k (b - lo) \<Longrightarrow> b - lo < n"
    by (rule nat_bit_bound [OF assms(1)])
  then show "bit (idxg lo k AND W) b = bit (codef lo n k) b"
    using b assms(2) assms(3,4) [of b]
    unfolding idxg_xor [OF assms(1,2)] bit_codef
    by (auto simp: bit_simps)
qed

text \<open>Fields at different positions do not overlap.\<close>

definition in_field :: "nat \<Rightarrow> nat \<Rightarrow> nat \<Rightarrow> bool" where
  "in_field lo n b \<longleftrightarrow> (lo \<le> b \<and> b < lo + n) \<or> (lo + 16 \<le> b \<and> b < lo + 16 + n)"

lemma codef_sum_field:
  "bit (xorsum (\<lambda>i. sel (P i) (codef lo n (f i))) N) b \<Longrightarrow> in_field lo n b"
  by (induction N) (auto simp: bit_simps bit_codef in_field_def sel_def split: if_splits)

lemma or_fields:
  fixes u v :: "'a::len word"
  assumes "\<And>b. bit u b \<Longrightarrow> F b" "\<And>b. bit v b \<Longrightarrow> \<not> F b"
  shows "u OR v = u XOR v"
  using assms by (intro or_eq_xor) (auto simp: bit_eq_iff bit_simps)

section \<open>Parity masks\<close>

lemma filter_bsum: "odd (length (filter P [0..<n])) = bsum P n"
  by (induction n) auto

lemma popcnt32_par: "odd (mm_popcnt_u32 w) = par w"
  by (simp only: mm_popcnt_u32_def filter_bsum par_def parn_bsum)

lemma popcnt_mask: "- word_of_nat (c mod 2) = sel (odd c) (- 1)"
  by (simp add: sel_def odd_iff_mod_2_eq_one even_iff_mod_2_eq_zero)

lemma lParityMaskPopcnt_sel: "lParityMaskPopcnt w = sel (par w) (- 1)"
  by (simp only: lParityMaskPopcnt_def popcnt_mask popcnt32_par)

lemma bsum_add: "bsum P (m + n) = (bsum P m \<noteq> bsum (\<lambda>i. P (m + i)) n)"
  by (induction n) auto

lemma popcnt64_par: "odd (mm_popcnt_u64 (ucast a OR push_bit 32 (ucast b))) = par (a XOR b)"
    for a b :: ULONG
proof -
  let ?w = "ucast a OR push_bit 32 (ucast b) :: QWORD"
  have "bsum (bit ?w) 64 = (bsum (bit ?w) 32 \<noteq> bsum (\<lambda>i. bit ?w (32 + i)) 32)"
    using bsum_add [of "bit ?w" 32 32] by simp
  moreover have "bsum (bit ?w) 32 = bsum (bit a) 32"
    by (rule bsum_cong) (auto simp: bit_simps)
  moreover have "bsum (\<lambda>i. bit ?w (32 + i)) 32 = bsum (bit b) 32"
    by (rule bsum_cong) (auto simp: bit_simps dest: bit_imp_le_length)
  ultimately show ?thesis
    by (simp only: mm_popcnt_u64_def filter_bsum par_XOR) (simp only: par_def parn_bsum)
qed

fun hxor :: "m128i \<Rightarrow> ULONG" where
  "hxor (M128 a b c d) = a XOR b XOR c XOR d"

lemma lParityMask128_sel: "lParityMask128 dq = sel (par (hxor dq)) (- 1)"
  by (cases dq) (simp add: lParityMask128_def mm_shuffle_epi32_def mm_cvtsi128_si32_def
      lParityMask_sel ac_simps)

lemma lParityMaskPopcnt128_sel: "lParityMaskPopcnt128 x dq = sel (par (hxor dq)) (- 1)"
  by (cases dq) (simp add: lParityMaskPopcnt128_def mm_shuffle_epi32_def mm_cvtsi128_si32_def
      mm_cvtsi128_si64_def Let_def popcnt_mask popcnt32_par popcnt64_par ac_simps)

lemma parity128_sel: "parity128 T x dq = sel (par (hxor dq)) (- 1)"
  by (simp add: parity128_def lParityMask128_sel lParityMaskPopcnt128_sel)

lemma lParityMaskAVX_sel: "lParityMaskAVX x qq = sel (par (hxor (lo128 qq) XOR hxor (hi128 qq))) (- 1)"
proof -
  obtain a b c d a' b' c' d' where "qq = M256 (M128 a b c d) (M128 a' b' c' d')"
    by (metis m128i.exhaust m256i.exhaust)
  then show ?thesis
    by (simp add: lParityMaskAVX_def mm_shuffle_epi32_def mm_cvtsi128_si32_def permute_half_def
        mm_cvtsi128_si64_def mm256_permute2f128_si256_def Let_def popcnt_mask popcnt32_par popcnt64_par ac_simps)
qed

lemma AND_sel [simp]: "w AND sel b (- 1) = sel b w" "sel b (- 1) AND w = sel b w"
  by (simp_all add: sel_def)

section \<open>The finishing scans\<close>

lemma dword_scan_sum:
  assumes "\<And>w. mk w = sel (par w) (- 1)"
  shows "dword_scan mk ds (idxg 5 t) (a, q)
    = (a XOR xorsum ((!) ds) (length ds),
       q XOR xorsum (\<lambda>i. sel (par (ds ! i)) (idxg 5 (t + i))) (length ds))"
proof (induction ds arbitrary: t a q)
  case Nil
  then show ?case by simp
next
  case (Cons d ds)
  have "idxg 5 (Suc t) = idxg 5 t + 0xffe00020"
    by (simp add: idxg_Suc)
  moreover have "xorsum f (Suc n) = f 0 XOR xorsum (\<lambda>i. f (Suc i)) n" for f :: "nat \<Rightarrow> ULONG" and n
    using xorsum_add [of f 1 n] by simp
  ultimately show ?case
    using Cons.IH [of "Suc t"] by (simp add: assms xor.assoc del: xorsum.simps)
qed

lemma byte_scan_sum:
  assumes "\<And>w. mk (take_bit 8 w) = sel (par (take_bit 8 w)) (- 1)"
  shows "byte_scan mk 4 w 0xfff80000 (0, 0)
    = (xorsum (\<lambda>b. sel (par (take_bit 8 (drop_bit (8 * b) w))) (idxg 3 b)) 4,
       w XOR drop_bit 8 w XOR drop_bit 16 w XOR drop_bit 24 w)"
proof -
  have m: "0xff = (mask 8 :: ULONG)"
    by (simp add: mask_eq_exp_minus_1)
  have four: "4 = Suc (Suc (Suc (Suc 0)))"
    by simp
  have "idxg 3 0 = 0xfff80000" "idxg 3 1 = 0xfff80000 + 0xfff80008"
    "idxg 3 2 = 0xfff80000 + 0xfff80008 + 0xfff80008"
    "idxg 3 3 = 0xfff80000 + 0xfff80008 + 0xfff80008 + 0xfff80008"
    by (simp_all add: idxg_def not_eq_complement mask_eq_exp_minus_1)
  moreover have "xorsum f 4 = f 0 XOR f 1 XOR f 2 XOR f 3" for f :: "nat \<Rightarrow> ULONG"
    by (simp add: eval_nat_numeral xor.assoc)
  moreover have "byte_scan mk 4 w i0 (0, 0) =
      (i0 AND mk (w AND 0xff) XOR (i0 + s) AND mk (drop_bit 8 w AND 0xff)
       XOR (i0 + s + s) AND mk (drop_bit 16 w AND 0xff)
       XOR (i0 + s + s + s) AND mk (drop_bit 24 w AND 0xff),
       w XOR drop_bit 8 w XOR drop_bit 16 w XOR drop_bit 24 w)" if "s = 0xfff80008" for i0 s
    unfolding four byte_scan.simps by (simp add: that xor.assoc drop_bit_drop_bit)
  ultimately show ?thesis
    by (simp add: m AND_mask_eq assms)
qed

lemma par_byte: "par (take_bit 8 w) = bsum (bit w) 8"
proof -
  have "bsum (\<lambda>i. bit (take_bit 8 w) (8 + i)) n = False" for n
    by (induction n) (auto simp: bit_simps)
  moreover have "bsum (bit (take_bit 8 w)) 8 = bsum (bit w) 8"
    by (rule bsum_cong) (simp add: bit_simps)
  ultimately show ?thesis
    using bsum_add [of "bit (take_bit 8 w)" 8 24] by (simp add: par_def parn_bsum)
qed

lemma parity_byte:
  fixes w :: ULONG
  shows "word_of_int (g_bParityLookupTable ! unat (take_bit 8 w)) = sel (par (take_bit 8 w)) (- 1 :: ULONG)"
proof -
  have "unat (take_bit 8 w) < 256"
    using take_bit_nat_less_exp [of 8 "unat w"] by (simp only: unsigned_take_bit_eq) simp
  then have "word_of_int (g_bParityLookupTable ! unat (take_bit 8 w)) = sel (parn (take_bit 8 w) 8) (- 1 :: ULONG)"
    by (simp add: table_correct sel_def)
  also have "parn (take_bit 8 w) 8 = bsum (bit w) 8"
    unfolding parn_bsum by (rule bsum_cong) (simp add: bit_simps)
  finally show ?thesis
    by (simp add: par_byte)
qed

text \<open>The table is built by doubling: bit \<open>d\<close> of the index adds \<open>7 - d\<close> and \<open>d\<close>, a nibble each.\<close>

fun dbl :: "nat list \<Rightarrow> nat list" where
  "dbl [] = [0]"
| "dbl (c # cs) = dbl cs @ map (xor c) (dbl cs)"

lemma ecc_table: "g_bECCLookupTable = dbl (rev (map (\<lambda>d. 16 * (7 - d) + d) [0..<8]))"
proof -
  have "rev (map (\<lambda>d. 16 * (7 - d) + d) [0..<8]) = [0x07, 0x16, 0x25, 0x34, 0x43, 0x52, 0x61, 0x70 :: nat]"
    by (simp add: upt_conv_Cons)
  then show ?thesis
    by (simp add: g_bECCLookupTable_def)
qed

definition spread :: "ULONG \<Rightarrow> ULONG" where
  "spread w = (w AND 0x07) OR (push_bit 12 w AND 0x00070000)"

lemma spread_eq: "spread w = take_bit 3 w XOR push_bit 16 (take_bit 3 (drop_bit 4 w))"
proof -
  have "(7 :: ULONG) = mask 3" "(0x70000 :: ULONG) = push_bit 16 (mask 3)"
    by (simp_all add: mask_eq_exp_minus_1)
  then show ?thesis
    by (auto simp: spread_def bit_eq_iff bit_simps)
qed

lemma spread_0 [simp]: "spread 0 = 0"
  by (simp add: spread_eq)

lemma spread_XOR: "spread (a XOR b) = spread a XOR spread b"
  by (simp add: spread_eq xor_homs ac_simps)

lemma length_dbl [simp]: "length (dbl cs) = 2 ^ length cs"
  by (induction cs) simp_all

lemma word_of_nat_xor: "(word_of_nat (a XOR b) :: ULONG) = word_of_nat a XOR word_of_nat b"
  by (rule bit_word_eqI) (simp add: bit_simps)

lemma dbl_nth:
  "n < 2 ^ k \<Longrightarrow> spread (word_of_nat (dbl (rev (map f [0..<k])) ! n))
     = xorsum (\<lambda>d. sel (bit n d) (spread (word_of_nat (f d)))) k"
proof (induction k arbitrary: n)
  case 0
  then show ?case by simp
next
  case (Suc k)
  show ?case
  proof (cases "n < 2 ^ k")
    case True
    then have "\<not> bit n k"
      using nat_bit_bound by blast
    with True Suc.IH show ?thesis
      by (simp add: nth_append)
  next
    case False
    define t where "t = n - 2 ^ k"
    have t: "n = 2 ^ k * 1 + t" "t < 2 ^ k"
      using False Suc.prems by (simp_all add: t_def)
    then have "bit n d \<longleftrightarrow> (if d < k then bit t d else bit (1 :: nat) (d - k))" for d
      using bit_split_nat [of t k 1 d] by simp
    then have "xorsum (\<lambda>d. sel (bit n d) (spread (word_of_nat (f d)))) k
        = xorsum (\<lambda>d. sel (bit t d) (spread (word_of_nat (f d)))) k" and "bit n k"
      by (auto intro: xorsum_cong simp: bit_0)
    with t Suc.IH [OF t(2)] show ?thesis
      by (simp add: nth_append word_of_nat_xor spread_XOR xor.commute)
  qed
qed

lemma spread_codef: "d < 8 \<Longrightarrow> spread (word_of_nat (16 * (7 - d) + d)) = codef 0 3 d"
proof -
  assume "d < 8"
  then have "d = 0 \<or> d = 1 \<or> d = 2 \<or> d = 3 \<or> d = 4 \<or> d = 5 \<or> d = 6 \<or> d = 7"
    by linarith
  then show ?thesis
    unfolding codef_def spread_eq
    by (elim disjE) (simp_all add: take_bit_eq_mod drop_bit_eq_div push_bit_eq_mult not_eq_complement)
qed

lemma lECCLookup8bit_sum:
  "(lECCLookup8bit w AND 0x07) OR (push_bit 12 (lECCLookup8bit w) AND 0x00070000)
   = xorsum (\<lambda>d. sel (bit w d) (codef 0 3 d)) 8"
proof -
  let ?n = "unat (take_bit 8 w)"
  have n: "?n < 2 ^ 8"
    using take_bit_nat_less_exp [of 8 "unat w"] by (simp only: unsigned_take_bit_eq)
  have "w AND 0xff = take_bit 8 w"
    by (simp add: take_bit_eq_mask mask_eq_exp_minus_1)
  then have "spread (lECCLookup8bit w)
      = xorsum (\<lambda>d. sel (bit ?n d) (spread (word_of_nat (16 * (7 - d) + d)))) 8"
    unfolding lECCLookup8bit_def ecc_table by (simp only: dbl_nth [OF n])
  also have "\<dots> = xorsum (\<lambda>d. sel (bit w d) (codef 0 3 d)) 8"
    by (rule xorsum_cong) (simp only: spread_codef, simp add: bit_simps)
  finally show ?thesis
    by (simp only: spread_def)
qed

text \<open>Bytes and bits of the folded dword make up the column code.\<close>

lemma cols_split:
  "xorsum (\<lambda>c. sel (bit w c) (code_col c)) 32
   = xorsum (\<lambda>b. sel (par (take_bit 8 (drop_bit (8 * b) w))) (codef 3 2 b)) 4
     XOR xorsum (\<lambda>d. sel (bit (w XOR drop_bit 8 w XOR drop_bit 16 w XOR drop_bit 24 w) d) (codef 0 3 d)) 8"
proof -
  have "code_col (8 * k + t) = codef 0 3 t XOR codef 3 2 k" if "t < 8" for k t
    using codef_split [of t 3 0 2 k] that by (simp add: code_col_codef)
  then have "xorsum (\<lambda>c. sel (bit w c) (code_col c)) (8 * 4)
    = xorsum (\<lambda>k. sel (bsum (\<lambda>t. bit w (8 * k + t)) 8) (codef 3 2 k)) 4
      XOR xorsum (\<lambda>t. sel (bsum (\<lambda>k. bit w (8 * k + t)) 4) (codef 0 3 t)) 8"
    by (intro code_fubini)
  also have "xorsum (\<lambda>k. sel (bsum (\<lambda>t. bit w (8 * k + t)) 8) (codef 3 2 k)) 4
      = xorsum (\<lambda>b. sel (par (take_bit 8 (drop_bit (8 * b) w))) (codef 3 2 b)) 4"
    by (intro xorsum_cong) (simp only: par_byte bit_drop_bit_eq comp_def)
  also have "xorsum (\<lambda>t. sel (bsum (\<lambda>k. bit w (8 * k + t)) 4) (codef 0 3 t)) 8
      = xorsum (\<lambda>d. sel (bit (w XOR drop_bit 8 w XOR drop_bit 16 w XOR drop_bit 24 w) d) (codef 0 3 d)) 8"
    by (intro xorsum_cong)
      (simp add: eval_nat_numeral bit_xor_iff bit_drop_bit_eq, rule arg_cong2 [of _ _ _ _ sel], auto)
  finally show ?thesis
    by simp
qed

lemma mask_1f: "(0x001f001f :: ULONG) = push_bit 16 (mask 5) OR mask 5"
  by (simp add: mask_eq_exp_minus_1)

lemma codef_in_field: "bit (codef lo n x) b \<Longrightarrow> in_field lo n b"
  by (auto simp: bit_codef in_field_def)

lemma codef_sum_AND:
  assumes "\<And>b. in_field lo n b \<Longrightarrow> b < 32 \<Longrightarrow> bit W b"
  shows "xorsum (\<lambda>i. sel (P i) (codef lo n (f i))) N AND W = xorsum (\<lambda>i. sel (P i) (codef lo n (f i))) N"
proof -
  have "codef lo n x AND W = codef lo n x" for x
    using assms by (intro bit_word_eqI) (auto simp: bit_and_iff dest: codef_in_field)
  then show ?thesis
    by (simp add: AND_code)
qed

lemma column_finish:
  fixes w :: ULONG
  assumes "\<And>w. mk (take_bit 8 w) = sel (par (take_bit 8 w)) (- 1)"
  shows "(case byte_scan mk 4 w 0xfff80000 (0, 0) of (r, byte0) \<Rightarrow>
     (r OR (lECCLookup8bit byte0 AND 0x07) OR (push_bit 12 (lECCLookup8bit byte0) AND 0x00070000))
       AND 0x001f001f)
    = xorsum (\<lambda>c. sel (bit w c) (code_col c)) 32"
proof -
  let ?A = "xorsum (\<lambda>b. sel (par (take_bit 8 (drop_bit (8 * b) w))) (idxg 3 b)) 4"
  let ?B = "xorsum (\<lambda>d. sel (bit (w XOR drop_bit 8 w XOR drop_bit 16 w XOR drop_bit 24 w) d) (codef 0 3 d)) 8"
  let ?C = "xorsum (\<lambda>b. sel (par (take_bit 8 (drop_bit (8 * b) w))) (codef 3 2 b)) 4"
  have "idxg 3 b AND 0x001f001f = codef 3 2 b" if "b < 4" for b
    unfolding mask_1f using that by (intro idxg_code) (auto simp: bit_simps)
  then have A: "?A AND 0x001f001f = ?C"
    unfolding AND_code by (intro xorsum_cong) simp
  have B: "?B AND 0x001f001f = ?B"
    unfolding mask_1f by (rule codef_sum_AND) (auto simp: in_field_def bit_simps)
  have "(?A OR ?B) AND 0x001f001f = ?C OR ?B"
    using A B by (simp only: bit.conj_disj_distrib2)
  also have "\<dots> = ?C XOR ?B"
    by (rule or_fields [where F = "in_field 3 2"])
      (auto dest!: codef_sum_field simp: in_field_def)
  finally show ?thesis
    unfolding byte_scan_sum [OF assms] prod.case or.assoc lECCLookup8bit_sum cols_split .
qed

section \<open>The 128-bit routines\<close>

definition vec :: "(nat \<Rightarrow> ULONG) \<Rightarrow> nat \<Rightarrow> m128i" where
  "vec g i = M128 (g (4 * i)) (g (4 * i + 1)) (g (4 * i + 2)) (g (4 * i + 3))"

lemma pdq_vec: "pdq pb = vec (pdw pb)"
  by (simp add: fun_eq_iff pdq_def vec_def)

lemma vec_header:
  "(if hdr then mm_unpackhi_epi64 mm_setzero_si128 (vec p 0) else vec p 0) = vec (skip_header hdr p) 0"
  by (simp add: vec_def skip_header_def mm_setzero_si128_def)

lemma vec_skip: "0 < i \<Longrightarrow> vec p i = vec (skip_header hdr p) i"
  by (simp add: vec_def skip_header_def)

lemma xorsum_16: "xorsum f 16 = f 0 XOR f 1 XOR f 2 XOR f 3 XOR f 4 XOR f 5 XOR f 6 XOR f 7
   XOR f 8 XOR f 9 XOR f 10 XOR f 11 XOR f 12 XOR f 13 XOR f 14 XOR f 15"
  by (simp add: eval_nat_numeral xor.assoc)

lemma xorsum_8: "xorsum f 8 = f 0 XOR f 1 XOR f 2 XOR f 3 XOR f 4 XOR f 5 XOR f 6 XOR f 7"
  by (simp add: eval_nat_numeral xor.assoc)

lemma xorsum_4: "xorsum f 4 = f 0 XOR f 1 XOR f 2 XOR f 3"
  by (simp add: eval_nat_numeral xor.assoc)

subsection \<open>Old format\<close>

lemma hxor_mm_xor: "hxor (mm_xor_si128 a b) = hxor a XOR hxor b"
  by (cases a; cases b) (simp add: ac_simps)

lemma hxor_vec: "hxor (vec g i) = xorsum (\<lambda>j. g (4 * i + j)) 4"
  by (simp add: vec_def xorsum_4)

lemma old_rows_SSE2_sum:
  "hxor (old_rows_SSE2 (vec g) (128 * int n) k c) = hxor c XOR xorsum (\<lambda>i. hxor (vec g (k + i))) (8 * n)"
proof (induction n arbitrary: k c)
  case 0
  then show ?case by (simp add: old_rows_SSE2.simps)
next
  case (Suc n)
  have "xorsum (\<lambda>i. hxor (vec g (k + i))) (8 * Suc n) =
      xorsum (\<lambda>i. hxor (vec g (k + i))) 8 XOR xorsum (\<lambda>i. hxor (vec g (k + 8 + i))) (8 * n)"
    using xorsum_add [of "\<lambda>i. hxor (vec g (k + i))" 8 "8 * n"] by (simp add: add.assoc)
  moreover have "128 * int (Suc n) - 128 = 128 * int n" "0 \<le> 128 * int n"
    by simp_all
  ultimately show ?case
    unfolding xorsum_8
    by (subst old_rows_SSE2.simps) (simp only: Let_def Suc.IH if_True hxor_mm_xor xor.assoc add_0_right)
qed

lemma ChecksumOldFormatSSE2_spec: "128 dvd cb \<Longrightarrow> ChecksumOldFormatSSE2 pb cb = old_spec pb cb"
proof -
  assume "128 dvd cb"
  then obtain n where n: "cb = 128 * n" ..
  let ?o = "old_rows_SSE2 (vec (pdw pb)) (int cb) 0 mm_setzero_si128"
  have "m128i_i32 ?o 0 XOR m128i_i32 ?o 1 XOR m128i_i32 ?o 2 XOR m128i_i32 ?o 3 = hxor ?o"
    by (cases ?o) simp
  also have "\<dots> = xorsum (\<lambda>i. xorsum (\<lambda>j. pdw pb (4 * i + j)) 4) (8 * n)"
    using old_rows_SSE2_sum [of "pdw pb" n 0 mm_setzero_si128]
    by (simp add: n mm_setzero_si128_def hxor_vec)
  also have "\<dots> = xorsum (pdw pb) (cb div 4)"
    using xorsum_mult [of "pdw pb" 4 "8 * n"] by (simp add: n)
  finally show ?thesis
    by (simp add: ChecksumOldFormatSSE2_def pdq_vec old_spec_def Let_def xor.assoc)
qed

subsection \<open>New format\<close>

definition vsum :: "(nat \<Rightarrow> ULONG) \<Rightarrow> nat \<Rightarrow> nat \<Rightarrow> m128i" where
  "vsum g j K = M128 (xorsum (\<lambda>k. g (16 * k + 4 * j)) K) (xorsum (\<lambda>k. g (16 * k + (4 * j + 1))) K)
     (xorsum (\<lambda>k. g (16 * k + (4 * j + 2))) K) (xorsum (\<lambda>k. g (16 * k + (4 * j + 3))) K)"

definition sse2_acc :: "(nat \<Rightarrow> ULONG) \<Rightarrow> nat \<Rightarrow> sse2" where
  "sse2_acc g K = \<lparr>dq0 = vsum g 0 K, dq1 = vsum g 1 K, dq2 = vsum g 2 K, dq3 = vsum g 3 K,
     p128 = xorsum (\<lambda>k. sel (par (xorsum (\<lambda>t. g (16 * k + t)) 16)) (idxg 9 k)) K,
     idxp128 = idxg 9 K\<rparr>"

lemma vsum_step:
  "i = 4 * K + j \<Longrightarrow> mm_xor_si128 (vsum g j K) (vec g i) = vsum g j (Suc K)"
  by (simp add: vsum_def vec_def add.assoc)

lemma vec_group:
  "hxor (vec g i) XOR hxor (vec g (i + 1)) XOR hxor (vec g (i + 2)) XOR hxor (vec g (i + 3))
     = xorsum (\<lambda>t. g (4 * i + t)) 16"
proof -
  have "hxor (vec g (i + j)) = xorsum (\<lambda>l. g (4 * i + (4 * j + l))) 4" for j
    by (simp add: hxor_vec distrib_left add.assoc)
  then have "xorsum (\<lambda>j. hxor (vec g (i + j))) 4 = xorsum (\<lambda>t. g (4 * i + t)) (4 * 4)"
    unfolding xorsum_mult by simp
  then show ?thesis
    by (simp add: xorsum_4)
qed

lemma idxg9_Suc: "idxg 9 (Suc k) = idxg 9 k + 0xfe000200"
  by (simp add: idxg_Suc)

lemma sse2_body_acc:
  assumes "\<And>i. 0 < i \<Longrightarrow> p i = vec g i"
  shows "sse2_body T x p (8 * n) (vec g (8 * n)) (sse2_acc g (2 * n)) = sse2_acc g (2 * Suc n)"
proof -
  have e: "xorsum (\<lambda>t. g (4 * (8 * n) + t)) 16 = xorsum (\<lambda>t. g (16 * (2 * n) + t)) 16"
    "xorsum (\<lambda>t. g (4 * (8 * n + 4) + t)) 16 = xorsum (\<lambda>t. g (16 * Suc (2 * n) + t)) 16"
    by (simp_all add: add.assoc add.commute)
  have i: "8 * n + 4 + 1 = 8 * n + 5" "8 * n + 4 + 2 = 8 * n + 6" "8 * n + 4 + 3 = 8 * n + 7"
    by simp_all
  have h: "hxor (vec g (8 * n)) XOR hxor (vec g (8 * n + 1)) XOR hxor (vec g (8 * n + 2)) XOR hxor (vec g (8 * n + 3))
      = xorsum (\<lambda>t. g (16 * (2 * n) + t)) 16"
    "hxor (vec g (8 * n + 4)) XOR hxor (vec g (8 * n + 5)) XOR hxor (vec g (8 * n + 6)) XOR hxor (vec g (8 * n + 7))
      = xorsum (\<lambda>t. g (16 * Suc (2 * n) + t)) 16"
    using vec_group [of g "8 * n"] vec_group [of g "8 * n + 4"] unfolding e i by blast+
  have v: "mm_xor_si128 (vsum g 0 (2 * n)) (vec g (8 * n)) = vsum g 0 (Suc (2 * n))"
    "mm_xor_si128 (vsum g 1 (2 * n)) (vec g (8 * n + 1)) = vsum g 1 (Suc (2 * n))"
    "mm_xor_si128 (vsum g 2 (2 * n)) (vec g (8 * n + 2)) = vsum g 2 (Suc (2 * n))"
    "mm_xor_si128 (vsum g 3 (2 * n)) (vec g (8 * n + 3)) = vsum g 3 (Suc (2 * n))"
    "mm_xor_si128 (vsum g 0 (Suc (2 * n))) (vec g (8 * n + 4)) = vsum g 0 (Suc (Suc (2 * n)))"
    "mm_xor_si128 (vsum g 1 (Suc (2 * n))) (vec g (8 * n + 5)) = vsum g 1 (Suc (Suc (2 * n)))"
    "mm_xor_si128 (vsum g 2 (Suc (2 * n))) (vec g (8 * n + 6)) = vsum g 2 (Suc (Suc (2 * n)))"
    "mm_xor_si128 (vsum g 3 (Suc (2 * n))) (vec g (8 * n + 7)) = vsum g 3 (Suc (Suc (2 * n)))"
    by (rule vsum_step, simp)+
  have two: "2 * Suc n = Suc (Suc (2 * n))"
    by simp
  have p: "p (8 * n + j) = vec g (8 * n + j)" if "0 < j" for j
    using that by (intro assms) simp
  show ?thesis
    unfolding sse2_body_def Let_def sse2_acc_def parity128_sel
    by (simp only: p [OF zero_less_one] p [OF zero_less_numeral] sse2.simps v hxor_mm_xor xor.assoc
        h idxg9_Suc [symmetric] AND_sel xorsum.simps two)
qed

lemma sse2_loop_acc:
  assumes "\<And>i. 0 < i \<Longrightarrow> p i = vec g i" and "n < N"
  shows "sse2_loop T x p (8 * N) (8 * n) (vec g (8 * n)) (sse2_acc g (2 * n)) = sse2_acc g (2 * N)"
  using assms(2)
proof (induction "N - n" arbitrary: n)
  case 0
  then show ?case by simp
next
  case (Suc d)
  have e: "8 * n + 8 = 8 * Suc n"
    by simp
  show ?case
  proof (cases "Suc n = N")
    case True
    then show ?thesis
      by (subst sse2_loop.simps) (simp only: Let_def sse2_body_acc [OF assms(1)] e nat_neq_iff, simp)
  next
    case False
    then have "Suc n < N" and "d = N - Suc n"
      using Suc by auto
    with Suc.hyps(1) have "sse2_loop T x p (8 * N) (8 * Suc n) (vec g (8 * Suc n)) (sse2_acc g (2 * Suc n))
        = sse2_acc g (2 * N)" by blast
    moreover have "p (8 * Suc n) = vec g (8 * Suc n)"
      by (intro assms(1)) simp
    ultimately show ?thesis
      using \<open>Suc n < N\<close>
      by (subst sse2_loop.simps) (simp only: Let_def sse2_body_acc [OF assms(1)] e add_0_right
          nat_mult_less_cancel_disj zero_less_numeral simp_thms if_True)
  qed
qed

lemma sse2_scan_acc:
  assumes "0 < N"
  shows "sse2_scan T x (pdq pb) (8 * N) hdr = sse2_acc (skip_header hdr (pdw pb)) (2 * N)"
proof -
  let ?g = "skip_header hdr (pdw pb)"
  have "sse2_acc ?g (2 * 0) = \<lparr>dq0 = mm_setzero_si128, dq1 = mm_setzero_si128, dq2 = mm_setzero_si128,
                dq3 = mm_setzero_si128, p128 = 0, idxp128 = 0xfe000000\<rparr>"
    by (simp add: sse2_acc_def vsum_def mm_setzero_si128_def idxg_def not_eq_complement mask_eq_exp_minus_1)
  moreover have "sse2_loop T x (pdq pb) (8 * N) (8 * 0) (vec ?g (8 * 0)) (sse2_acc ?g (2 * 0)) = sse2_acc ?g (2 * N)"
    by (intro sse2_loop_acc assms) (simp add: pdq_vec vec_skip)
  ultimately show ?thesis
    using vec_header [of hdr "pdw pb"] by (cases hdr) (simp_all add: sse2_scan_def pdq_vec)
qed

lemma rows_split:
  assumes "a * n = 2 ^ (m - 2)" "a = 2 ^ s" "s + q = m - 2" "m \<le> 13"
  shows "xorsum (\<lambda>i. sel (par (g i)) (code_row m i)) (2 ^ (m - 2))
    = xorsum (\<lambda>k. sel (par (xorsum (\<lambda>t. g (a * k + t)) a)) (codef (5 + s) q k)) n
      XOR xorsum (\<lambda>t. sel (par (xorsum (\<lambda>k. g (a * k + t)) n)) (codef 5 s t)) a"
proof -
  have "code_row m (a * k + t) = codef 5 s t XOR codef (5 + s) q k" if "t < a" for k t
    using codef_split [of t s 5 q k] that assms by (simp add: code_row_codef)
  then show ?thesis
    unfolding assms(1) [symmetric] par_xorsum by (intro code_fubini)
qed

lemma sum_fields:
  assumes "\<And>k. k < N \<Longrightarrow> k < 2 ^ n" "n \<le> 16"
    and "\<And>b. lo \<le> b \<Longrightarrow> b < lo + n \<Longrightarrow> b < 32 \<Longrightarrow> bit W b"
    and "\<And>b. lo + 16 \<le> b \<Longrightarrow> b < 32 \<Longrightarrow> bit W b \<longleftrightarrow> b < lo + 16 + n"
  shows "xorsum (\<lambda>k. sel (P k) (idxg lo k)) N AND W = xorsum (\<lambda>k. sel (P k) (codef lo n k)) N"
  unfolding AND_code
  by (intro xorsum_cong arg_cong [where f = "sel _"] idxg_code) (use assms in auto)

lemma code_col_sum_field:
  "bit (xorsum (\<lambda>c. sel (P c) (code_col c)) N) b \<Longrightarrow> in_field 0 5 b"
  unfolding code_col_codef by (rule codef_sum_field)

lemma page_fields:
  assumes "10 \<le> m" "m \<le> 13"
  shows "(0xfe00fe00 :: ULONG) AND mask (19 + m) = (push_bit 25 (mask 7) OR push_bit 9 (mask 7)) AND mask (19 + m)"
    and "(0xfc00fc00 :: ULONG) AND mask (19 + m) = (push_bit 26 (mask 6) OR push_bit 10 (mask 6)) AND mask (19 + m)"
  by (simp_all add: mask_eq_exp_minus_1)

text \<open>Each routine folds the page to \<open>a\<close> dwords, lane \<open>t\<close> of every group.\<close>

definition lane_sum :: "(nat \<Rightarrow> ULONG) \<Rightarrow> nat \<Rightarrow> nat \<Rightarrow> nat \<Rightarrow> ULONG" where
  "lane_sum g a K t = xorsum (\<lambda>k. g (a * k + t)) K"

lemma lane_sum_total: "xorsum (lane_sum g a K) a = xorsum g (a * K)"
proof -
  have "lane_sum g a K = (\<lambda>t. xorsum (\<lambda>k. g (a * k + t)) K)"
    by (simp add: fun_eq_iff lane_sum_def)
  then show ?thesis
    by (simp only: xorsum_mult xorsum_swap [of "\<lambda>k t. g (a * k + t)" a K])
qed

lemma dword_scan_map:
  assumes "\<And>w. mk w = sel (par w) (- 1)"
  shows "dword_scan mk (map D [0..<n]) 0xffe00000 (0, 0)
      = (xorsum D n, xorsum (\<lambda>t. sel (par (D t)) (idxg 5 t)) n)"
proof -
  have "idxg 5 0 = 0xffe00000"
    by (simp add: idxg_def not_eq_complement mask_eq_exp_minus_1)
  moreover have "xorsum ((!) (map D [0..<n])) n = xorsum D n"
    "xorsum (\<lambda>i. sel (par (map D [0..<n] ! i)) (idxg 5 (0 + i))) n = xorsum (\<lambda>t. sel (par (D t)) (idxg 5 t)) n"
    by (rule xorsum_cong, simp)+
  ultimately show ?thesis
    using dword_scan_sum [OF assms, of "map D [0..<n]" 0 0 0] by simp
qed

lemma sse2_dwords:
  "[m128i_i32 dq k. dq \<leftarrow> [vsum g 0 K, vsum g 1 K, vsum g 2 K, vsum g 3 K], k \<leftarrow> [0, 1, 2, 3]]
   = map (lane_sum g 16 K) [0..<16]"
proof -
  have v: "vsum g j K = M128 (lane_sum g 16 K (4 * j)) (lane_sum g 16 K (4 * j + 1))
      (lane_sum g 16 K (4 * j + 2)) (lane_sum g 16 K (4 * j + 3))" for j
    by (simp add: vsum_def lane_sum_def)
  have "[0..<16] = [0, 1, 2, 3, 4, 5, 6, 7, 8, 9, 10, 11, 12, 13, 14, 15 :: nat]"
    by code_simp
  then show ?thesis
    by (simp add: v numeral_2_eq_2 del: upt_rec_numeral)
qed

lemma sse2_fields:
  assumes "10 \<le> m" "m \<le> 13"
  defines "K \<equiv> 2 ^ (m - 6)"
  shows "(xorsum (\<lambda>k. sel (par (xorsum (\<lambda>t. g (16 * k + t)) 16)) (idxg 9 k)) K AND 0xfe00fe00 AND mask (19 + m))
     OR (xorsum (\<lambda>t. sel (par (lane_sum g 16 K t)) (idxg 5 t)) 16 AND 0x01e001e0)
     OR xorsum (\<lambda>c. sel (bit (xorsum g (2 ^ (m - 2))) c) (code_col c)) 32
    = ecc_spec m g"
proof -
  let ?P = "xorsum (\<lambda>k. sel (par (xorsum (\<lambda>t. g (16 * k + t)) 16)) (codef 9 (m - 6) k)) K"
  let ?Q = "xorsum (\<lambda>t. sel (par (lane_sum g 16 K t)) (codef 5 4 t)) 16"
  let ?C = "xorsum (\<lambda>c. sel (bit (xorsum g (2 ^ (m - 2))) c) (code_col c)) 32"
  have P: "xorsum (\<lambda>k. sel (par (xorsum (\<lambda>t. g (16 * k + t)) 16)) (idxg 9 k)) K AND 0xfe00fe00 AND mask (19 + m) = ?P"
    unfolding page_fields [OF assms(1,2)]
    by (intro sum_fields) (use assms(1,2) in \<open>auto simp: bit_simps K_def\<close>)
  have m4: "(0x01e001e0 :: ULONG) = push_bit 21 (mask 4) OR push_bit 5 (mask 4)"
    by (simp add: mask_eq_exp_minus_1)
  have Q: "xorsum (\<lambda>t. sel (par (lane_sum g 16 K t)) (idxg 5 t)) 16 AND 0x01e001e0 = ?Q"
    unfolding m4 by (intro sum_fields) (auto simp: bit_simps)
  have "?P OR ?Q OR ?C = ?P OR (?Q XOR ?C)"
    by (subst or_fields [of ?Q "in_field 5 4" ?C])
      (auto dest!: codef_sum_field code_col_sum_field simp: in_field_def)
  also have "\<dots> = ?P XOR ?Q XOR ?C"
    using assms(1,2) by (intro or_fields [of ?P "in_field 9 (m - 6)"])
      (auto dest!: codef_sum_field code_col_sum_field simp: in_field_def bit_xor_iff)
  also have "\<dots> = ecc_spec m g"
  proof -
    have r: "16 * K = 2 ^ (m - 2)" "16 = (2::nat) ^ 4" "4 + (m - 6) = m - 2"
      using page_cases [OF assms(1,2)] by (auto simp: K_def)
    show ?thesis
      using rows_split [OF r assms(2), of g] unfolding ecc_spec_def lane_sum_def by (simp add: xor.assoc)
  qed
  finally show ?thesis
    unfolding P Q .
qed

lemma ChecksumNewFormatSSE2_spec:
  assumes "10 \<le> m" "m \<le> 13"
  shows "ChecksumNewFormatSSE2 T x pb (2 ^ m) pgno hdr = xe_spec pb m pgno hdr"
proof -
  define g where "g = skip_header hdr (pdw pb)"
  define K where "K = (2 :: nat) ^ (m - 6)"
  have K: "2 ^ m div 16 = 8 * (2 ^ (m - 7) :: nat)" "2 * 2 ^ (m - 7) = K" "16 * K = 2 ^ (m - 2)"
    using page_cases [OF assms] by (auto simp: K_def)
  have scan: "sse2_scan T x (pdq pb) (2 ^ m div 16) hdr = sse2_acc g K"
    using sse2_scan_acc [of "2 ^ (m - 7)" T x pb hdr] by (simp add: K g_def)
  have mk: "(if T = ParityMaskFuncPopcnt then lParityMaskPopcnt else lParityMask) w = sel (par w) (- 1)" for w
    by (simp add: lParityMaskPopcnt_sel lParityMask_sel)
  have mkb: "(if T = ParityMaskFuncPopcnt then lParityMaskPopcnt
      else (\<lambda>b. word_of_int (g_bParityLookupTable ! unat b))) (take_bit 8 w) = sel (par (take_bit 8 w)) (- 1)" for w
    by (simp add: lParityMaskPopcnt_sel parity_byte)
  note cf = column_finish [OF mkb, of "xorsum g (2 ^ (m - 2))"]
  show ?thesis
    unfolding ChecksumNewFormatSSE2_def Let_def scan xe_spec_def g_def [symmetric]
      sse2_fields [OF assms, of g, folded K_def, symmetric]
    using cf by (simp only: sse2_acc_def sse2.simps sse2_dwords dword_scan_map [OF mk] prod.case
        page_mask [OF assms] lane_sum_total K or.assoc split_beta fst_conv snd_conv)
qed

section \<open>The 256-bit routine\<close>

definition vec256 :: "(nat \<Rightarrow> ULONG) \<Rightarrow> nat \<Rightarrow> m256i" where
  "vec256 g i = M256 (vec g (2 * i)) (vec g (2 * i + 1))"

lemma pqq_vec: "pqq pb = vec256 (pdw pb)"
  by (simp add: fun_eq_iff pqq_def vec256_def pdq_vec)

lemma vec256_skip: "0 < i \<Longrightarrow> vec256 p i = vec256 (skip_header hdr p) i"
  by (simp add: vec256_def vec_skip [of _ p hdr])

definition qsum :: "(nat \<Rightarrow> ULONG) \<Rightarrow> nat \<Rightarrow> nat \<Rightarrow> m256i" where
  "qsum g j K = M256
     (M128 (lane_sum g 32 K (8 * j)) (lane_sum g 32 K (8 * j + 1))
           (lane_sum g 32 K (8 * j + 2)) (lane_sum g 32 K (8 * j + 3)))
     (M128 (lane_sum g 32 K (8 * j + 4)) (lane_sum g 32 K (8 * j + 5))
           (lane_sum g 32 K (8 * j + 6)) (lane_sum g 32 K (8 * j + 7)))"

definition hxor256 :: "m256i \<Rightarrow> ULONG" where
  "hxor256 qq = hxor (lo128 qq) XOR hxor (hi128 qq)"

lemma hxor256_xor: "hxor256 (mm256_xor a b) = hxor256 a XOR hxor256 b"
  by (cases a; cases b) (simp add: hxor256_def hxor_mm_xor ac_simps)

lemma hxor256_vec: "hxor256 (vec256 g i) = xorsum (\<lambda>l. g (8 * i + l)) 8"
proof -
  have "xorsum (\<lambda>l. g (8 * i + l)) (4 + 4) = xorsum (\<lambda>l. g (8 * i + l)) 4 XOR xorsum (\<lambda>l. g (8 * i + (4 + l))) 4"
    by (rule xorsum_add)
  moreover have "hxor (vec g (2 * i + 1)) = xorsum (\<lambda>l. g (8 * i + (4 + l))) 4"
    unfolding hxor_vec by (rule xorsum_cong) (simp add: algebra_simps)
  ultimately show ?thesis
    by (simp add: hxor256_def vec256_def hxor_vec)
qed

lemma hxor256_qsum: "hxor256 (qsum g j K) = xorsum (\<lambda>l. lane_sum g 32 K (8 * j + l)) 8"
  by (simp add: hxor256_def qsum_def xorsum_8 xor.assoc)

definition avx_acc :: "(nat \<Rightarrow> ULONG) \<Rightarrow> nat \<Rightarrow> avx" where
  "avx_acc g K = \<lparr>qq0 = qsum g 0 K, qq1 = qsum g 1 K, qq2 = qsum g 2 K, qq3 = qsum g 3 K,
     p256 = xorsum (\<lambda>k. sel (par (xorsum (\<lambda>t. g (32 * k + t)) 32)) (idxg 10 k)) K,
     idxp256 = idxg 10 K\<rparr>"

lemma qsum_step:
  assumes "i = 4 * K + j"
  shows "mm256_xor (qsum g j K) (vec256 g i) = qsum g j (Suc K)"
proof -
  have "lane_sum g 32 (Suc K) t = lane_sum g 32 K t XOR g (32 * K + t)" for t
    by (simp add: lane_sum_def)
  then show ?thesis
    by (simp add: assms qsum_def vec256_def vec_def ac_simps)
qed

lemma vec256_group:
  "hxor256 (vec256 g i) XOR hxor256 (vec256 g (i + 1)) XOR hxor256 (vec256 g (i + 2)) XOR hxor256 (vec256 g (i + 3))
     = xorsum (\<lambda>t. g (8 * i + t)) 32"
proof -
  have "hxor256 (vec256 g (i + j)) = xorsum (\<lambda>l. g (8 * i + (8 * j + l))) 8" for j
    by (simp add: hxor256_vec distrib_left add.assoc)
  then have "xorsum (\<lambda>j. hxor256 (vec256 g (i + j))) 4 = xorsum (\<lambda>t. g (8 * i + t)) (8 * 4)"
    unfolding xorsum_mult by simp
  then show ?thesis
    by (simp add: xorsum_4)
qed

lemma avx_body_acc:
  assumes "\<And>i. 0 < i \<Longrightarrow> p i = vec256 g i"
  shows "avx_body x p (4 * n) (vec256 g (4 * n)) (avx_acc g n) = avx_acc g (Suc n)"
proof -
  have h: "hxor256 (vec256 g (4 * n)) XOR hxor256 (vec256 g (4 * n + 1)) XOR hxor256 (vec256 g (4 * n + 2))
      XOR hxor256 (vec256 g (4 * n + 3)) = xorsum (\<lambda>t. g (32 * n + t)) 32"
    using vec256_group [of g "4 * n"] by simp
  have q: "mm256_xor (qsum g 0 n) (vec256 g (4 * n)) = qsum g 0 (Suc n)"
    "mm256_xor (qsum g 1 n) (vec256 g (4 * n + 1)) = qsum g 1 (Suc n)"
    "mm256_xor (qsum g 2 n) (vec256 g (4 * n + 2)) = qsum g 2 (Suc n)"
    "mm256_xor (qsum g 3 n) (vec256 g (4 * n + 3)) = qsum g 3 (Suc n)"
    by (rule qsum_step, simp)+
  have i: "idxg 10 (Suc n) = idxg 10 n + 0xfc000400"
    by (simp add: idxg_Suc)
  have p: "p (4 * n + j) = vec256 g (4 * n + j)" if "0 < j" for j
    using that by (intro assms) simp
  show ?thesis
    unfolding avx_body_def Let_def avx_acc_def lParityMaskAVX_sel hxor256_def [symmetric]
    by (simp only: p [OF zero_less_one] p [OF zero_less_numeral] avx.simps q hxor256_xor xor.assoc
        h i AND_sel xorsum.simps)
qed

lemma avx_loop_acc:
  assumes "\<And>i. 0 < i \<Longrightarrow> p i = vec256 g i" and "n < N"
  shows "avx_loop x p (4 * N) (4 * n) (vec256 g (4 * n)) (avx_acc g n) = avx_acc g N"
  using assms(2)
proof (induction "N - n" arbitrary: n)
  case 0
  then show ?case by simp
next
  case (Suc d)
  have e: "4 * n + 4 = 4 * Suc n"
    by simp
  show ?case
  proof (cases "Suc n = N")
    case True
    then show ?thesis
      by (subst avx_loop.simps) (simp only: Let_def avx_body_acc [OF assms(1)] e, simp)
  next
    case False
    then have "Suc n < N" and "d = N - Suc n"
      using Suc by auto
    with Suc.hyps(1) have "avx_loop x p (4 * N) (4 * Suc n) (vec256 g (4 * Suc n)) (avx_acc g (Suc n)) = avx_acc g N"
      by blast
    moreover have "p (4 * Suc n) = vec256 g (4 * Suc n)"
      by (intro assms(1)) simp
    ultimately show ?thesis
      using \<open>Suc n < N\<close>
      by (subst avx_loop.simps) (simp only: Let_def avx_body_acc [OF assms(1)] e add_0_right
          nat_mult_less_cancel_disj zero_less_numeral simp_thms if_True)
  qed
qed

lemma avx_scan_acc:
  assumes "0 < N"
  shows "avx_scan u x pb (4 * N) hdr = avx_acc (skip_header hdr (pdw pb)) N"
proof -
  let ?g = "skip_header hdr (pdw pb)"
  have z: "avx_acc ?g 0 = \<lparr>qq0 = mm256_setzero_si256, qq1 = mm256_setzero_si256, qq2 = mm256_setzero_si256,
                qq3 = mm256_setzero_si256, p256 = 0, idxp256 = 0xfc000000\<rparr>"
    by (simp add: avx_acc_def qsum_def lane_sum_def mm256_setzero_si256_def mm_setzero_si128_def idxg_def
        not_eq_complement mask_eq_exp_minus_1)
  have l: "avx_loop x (vec256 (pdw pb)) (4 * N) (4 * 0) (vec256 ?g (4 * 0)) (avx_acc ?g 0) = avx_acc ?g N"
    by (intro avx_loop_acc assms) (simp add: vec256_skip)
  have "vec256 ?g 0 = (if hdr
      then mm256_insertf128_si256 (mm256_castsi128_si256 u (mm_unpackhi_epi64 mm_setzero_si128 (vec (pdw pb) 0)))
        (vec (pdw pb) 1) 1 else vec256 (pdw pb) 0)"
    by (simp add: vec256_def mm256_insertf128_si256_def mm256_castsi128_si256_def vec_def skip_header_def
        mm_setzero_si128_def)
  with l z show ?thesis
    by (cases hdr) (simp_all add: avx_scan_def pdq_vec pqq_vec Let_def)
qed

lemma avx_lanes:
  "map (m256i_i32 (mm256_xor (mm256_xor (mm256_xor (qsum g 0 K) (qsum g 1 K)) (qsum g 2 K)) (qsum g 3 K))) [0..<8]
   = map (lane_sum (lane_sum g 32 K) 8 4) [0..<8]"
proof -
  have "[0..<8] = [0, 1, 2, 3, 4, 5, 6, 7 :: nat]"
    by code_simp
  moreover have "lane_sum f 8 4 t = f t XOR f (8 + t) XOR f (16 + t) XOR f (24 + t)" for f t
    by (simp add: lane_sum_def xorsum_4)
  ultimately show ?thesis
    by (simp add: qsum_def m256i_i32_def numeral_2_eq_2 xor.assoc del: upt_rec_numeral)
qed

lemma avx_fields:
  fixes g :: "nat \<Rightarrow> ULONG"
  assumes "10 \<le> m" "m \<le> 13"
  defines "K \<equiv> 2 ^ (m - 7)"
  defines "D \<equiv> lane_sum g 32 K"
  shows "(xorsum (\<lambda>k. sel (par (xorsum (\<lambda>t. g (32 * k + t)) 32)) (idxg 10 k)) K AND 0xfc00fc00 AND mask (19 + m))
     OR (xorsum (\<lambda>j. sel (par (xorsum (\<lambda>l. D (8 * j + l)) 8)) (idxg 8 j)) 4 AND 0x03000300)
     OR (xorsum (\<lambda>t. sel (par (lane_sum D 8 4 t)) (idxg 5 t)) 8 AND 0x00e000e0)
     OR xorsum (\<lambda>c. sel (bit (xorsum g (2 ^ (m - 2))) c) (code_col c)) 32
    = ecc_spec m g"
proof -
  let ?P = "xorsum (\<lambda>k. sel (par (xorsum (\<lambda>t. g (32 * k + t)) 32)) (codef 10 (m - 7) k)) K"
  let ?Q = "xorsum (\<lambda>j. sel (par (xorsum (\<lambda>l. D (8 * j + l)) 8)) (codef 8 2 j)) 4"
  let ?R = "xorsum (\<lambda>t. sel (par (lane_sum D 8 4 t)) (codef 5 3 t)) 8"
  let ?C = "xorsum (\<lambda>c. sel (bit (xorsum g (2 ^ (m - 2))) c) (code_col c)) 32"
  have P: "xorsum (\<lambda>k. sel (par (xorsum (\<lambda>t. g (32 * k + t)) 32)) (idxg 10 k)) K AND 0xfc00fc00 AND mask (19 + m) = ?P"
    unfolding page_fields [OF assms(1,2)]
    by (intro sum_fields) (use assms(1,2) in \<open>auto simp: bit_simps K_def\<close>)
  have m: "(0x03000300 :: ULONG) = push_bit 24 (mask 2) OR push_bit 8 (mask 2)"
    "(0x00e000e0 :: ULONG) = push_bit 21 (mask 3) OR push_bit 5 (mask 3)"
    by (simp_all add: mask_eq_exp_minus_1)
  have Q: "xorsum (\<lambda>j. sel (par (xorsum (\<lambda>l. D (8 * j + l)) 8)) (idxg 8 j)) 4 AND 0x03000300 = ?Q"
    unfolding m by (intro sum_fields) (auto simp: bit_simps)
  have R: "xorsum (\<lambda>t. sel (par (lane_sum D 8 4 t)) (idxg 5 t)) 8 AND 0x00e000e0 = ?R"
    unfolding m by (intro sum_fields) (auto simp: bit_simps)
  have "?P OR ?Q OR ?R OR ?C = ?P OR ?Q OR (?R XOR ?C)"
    by (subst or_fields [of ?R "in_field 5 3" ?C])
      (auto dest!: codef_sum_field code_col_sum_field simp: in_field_def)
  also have "?Q OR (?R XOR ?C) = ?Q XOR ?R XOR ?C"
    by (intro or_fields [of ?Q "in_field 8 2"])
      (auto dest!: codef_sum_field code_col_sum_field simp: in_field_def bit_xor_iff)
  also have "?P OR (?Q XOR ?R XOR ?C) = ?P XOR ?Q XOR ?R XOR ?C"
    using assms(1,2) by (intro or_fields [of ?P "in_field 10 (m - 7)"])
      (auto dest!: codef_sum_field code_col_sum_field simp: in_field_def bit_xor_iff)
  also have "\<dots> = ecc_spec m g"
  proof -
    have r: "32 * K = 2 ^ (m - 2)" "32 = (2::nat) ^ 5" "5 + (m - 7) = m - 2"
      using page_cases [OF assms(1,2)] by (auto simp: K_def)
    have D: "D = (\<lambda>t. xorsum (\<lambda>k. g (32 * k + t)) K)"
      by (simp add: D_def lane_sum_def fun_eq_iff)
    have "xorsum (\<lambda>i. sel (par (g i)) (code_row m i)) (2 ^ (m - 2))
        = ?P XOR xorsum (\<lambda>t. sel (par (D t)) (codef 5 5 t)) 32"
      using rows_split [OF r assms(2), of g] unfolding D by simp
    moreover have "xorsum (\<lambda>t. sel (par (D t)) (codef 5 5 t)) (8 * 4) = ?Q XOR ?R"
      unfolding par_xorsum lane_sum_def
    proof (rule code_fubini)
      fix k t :: nat
      assume "t < 8"
      then show "codef 5 5 (8 * k + t) = codef 5 3 t XOR codef 8 2 k"
        using codef_split [of t 3 5 2 k] by simp
    qed
    ultimately show ?thesis
      unfolding ecc_spec_def by (simp add: xor.assoc)
  qed
  finally show ?thesis
    unfolding P Q R .
qed

lemma ChecksumNewFormatAVX_spec:
  assumes "10 \<le> m" "m \<le> 13"
  shows "ChecksumNewFormatAVX u x pb (2 ^ m) pgno hdr = xe_spec pb m pgno hdr"
proof -
  define g where "g = skip_header hdr (pdw pb)"
  define K where "K = (2 :: nat) ^ (m - 7)"
  have K: "2 ^ m div 32 = 4 * K" "32 * K = 2 ^ (m - 2)" "0 < K"
    using page_cases [OF assms] by (auto simp: K_def)
  have scan: "avx_scan u x pb (2 ^ m div 32) hdr = avx_acc g K"
    unfolding K(1) g_def by (rule avx_scan_acc) (rule K(3))
  have total: "xorsum (lane_sum (lane_sum g 32 K) 8 4) 8 = xorsum g (2 ^ (m - 2))"
    using lane_sum_total [of "lane_sum g 32 K" 8 4] lane_sum_total [of g 32 K] by (simp add: K(2))
  have i: "0xff000000 = idxg 8 0" "idxg 8 0 + 0xff000100 = idxg 8 1" "idxg 8 1 + 0xff000100 = idxg 8 2"
    "idxg 8 2 + 0xff000100 = idxg 8 3"
    by (simp_all add: idxg_def not_eq_complement mask_eq_exp_minus_1)
  have q: "((sel a (idxg 8 0) XOR sel b (idxg 8 1)) XOR sel c (idxg 8 2)) XOR sel d (idxg 8 3)
      = xorsum (\<lambda>j. sel (par (xorsum (\<lambda>l. lane_sum g 32 K (8 * j + l)) 8)) (idxg 8 j)) 4"
    if "a = par (hxor256 (qsum g 0 K))" "b = par (hxor256 (qsum g 1 K))"
      "c = par (hxor256 (qsum g 2 K))" "d = par (hxor256 (qsum g 3 K))" for a b c d
    unfolding that hxor256_qsum xorsum_4 by (simp only: xor.assoc)
  note cf = column_finish [of lParityMaskPopcnt "xorsum g (2 ^ (m - 2))", OF lParityMaskPopcnt_sel]
  show ?thesis
    unfolding ChecksumNewFormatAVX_def Let_def scan xe_spec_def g_def [symmetric]
      avx_fields [OF assms, of g, folded K_def, symmetric] lParityMaskAVX_sel hxor256_def [symmetric]
    using cf by (simp only: avx_acc_def avx.simps avx_lanes dword_scan_map [OF lParityMaskPopcnt_sel] prod.case
        page_mask [OF assms] total or.assoc split_beta fst_conv snd_conv AND_sel xor.left_neutral i q)
qed

section \<open>The routines satisfy the contract\<close>

interpretation sse2: xe_routine "ChecksumNewFormatSSE2 T x"
  by unfold_locales (rule ChecksumNewFormatSSE2_spec)

interpretation avx: xe_routine "ChecksumNewFormatAVX u x"
  by unfold_locales (rule ChecksumNewFormatAVX_spec)

lemma call_new_spec:
  "10 \<le> m \<Longrightarrow> m \<le> 13 \<Longrightarrow> call_new u x pfn pb (2 ^ m) pgno hdr = xe_spec pb m pgno hdr"
  by (cases pfn) (simp_all add: slowly.chk_spec sse.chk_spec bit64.chk_spec sse2.chk_spec avx.chk_spec)

lemma ChecksumNewFormat_fst:
  "fst (ChecksumNewFormat c u pfn pb cb pgno hdr)
     = call_new u (fX86 c) (case pfn of None \<Rightarrow> select_new c | Some f \<Rightarrow> f) pb cb pgno hdr"
  by (simp add: ChecksumNewFormat_def ChecksumSelectNewFormat_def Let_def split: option.split)

lemma ChecksumNewFormat_snd:
  "snd (ChecksumNewFormat c u pfn pb cb pgno hdr) = Some (case pfn of None \<Rightarrow> select_new c | Some f \<Rightarrow> f)"
  by (simp add: ChecksumNewFormat_def ChecksumSelectNewFormat_def Let_def split: option.split)

lemma ChecksumOldFormat_fst:
  "fst (ChecksumOldFormat c pfn pb cb) = call_old (case pfn of None \<Rightarrow> select_old c | Some f \<Rightarrow> f) pb cb"
  by (simp add: ChecksumOldFormat_def ChecksumSelectOldFormat_def Let_def split: option.split)

interpretation dispatch: xe_routine "\<lambda>pb cb pgno hdr. fst (ChecksumNewFormat c u pfn pb cb pgno hdr)"
  by unfold_locales (simp add: ChecksumNewFormat_fst call_new_spec)

lemma call_old_spec: "128 dvd cb \<Longrightarrow> call_old pfn pb cb = old_spec pb cb"
proof -
  assume d: "128 dvd cb"
  then have "32 dvd cb"
    by (rule dvd_trans [rotated]) simp
  then have "cb mod 32 = 0"
    by simp
  with d show ?thesis
    by (cases pfn) (simp_all add: ChecksumOldFormatSlowly_spec ChecksumOldFormat64Bit_spec
        ChecksumOldFormatSSE2_spec ChecksumOldFormatSSE_def flip: ChecksumOldFormatSlowly_def)
qed

lemma run_new_pointer:
  "calls \<noteq> [] \<Longrightarrow> snd (run_new c pfn calls) = Some (case pfn of None \<Rightarrow> select_new c | Some f \<Rightarrow> f)"
proof (induction calls arbitrary: pfn)
  case (Cons a calls)
  then show ?case
    by (cases a; cases "calls = []") (simp_all add: ChecksumNewFormat_snd split_beta Let_def)
qed simp

lemma run_new_results:
  assumes "\<And>u pb cb pgno hdr. (u, pb, cb, pgno, hdr) \<in> set calls \<Longrightarrow> \<exists>m. 10 \<le> m \<and> m \<le> 13 \<and> cb = 2 ^ m"
  shows "fst (run_new c pfn calls) = map (\<lambda>(u, pb, cb, pgno, hdr). ChecksumNewFormat64Bit pb cb pgno hdr) calls"
  using assms
proof (induction calls arbitrary: pfn)
  case (Cons a calls)
  obtain u pb cb pgno hdr where a: "a = (u, pb, cb, pgno, hdr)"
    by (metis prod_cases5)
  obtain m where "10 \<le> m" "m \<le> 13" "cb = 2 ^ m"
    using Cons.prems [of u pb cb pgno hdr] a by auto
  moreover have "fst (run_new c f calls) = map (\<lambda>(u, pb, cb, pgno, hdr). ChecksumNewFormat64Bit pb cb pgno hdr) calls" for f
    using Cons.IH Cons.prems by (meson list.set_intros(2))
  ultimately show ?case
    by (simp add: a split_beta Let_def dispatch.chk_spec bit64.chk_spec)
qed simp

lemma Make_eq_iff:
  "MakeChecksumFromECCXORAndPgno e x pgno = MakeChecksumFromECCXORAndPgno e y pgno \<longleftrightarrow> x = y"
  using DwXOR_Make xor_cancel_right by metis

lemma skip_header_sum:
  assumes "2 \<le> n"
  shows "xorsum (skip_header hdr p) n = (if hdr then p 0 XOR p 1 else 0) XOR xorsum p n"
proof -
  have n: "n = 2 + (n - 2)"
    using assms by simp
  have "xorsum f n = f 0 XOR f 1 XOR xorsum (\<lambda>i. f (2 + i)) (n - 2)" for f :: "nat \<Rightarrow> ULONG"
    by (subst n, subst xorsum_add) (simp add: numeral_2_eq_2 xor.assoc)
  from this [of p] this [of "skip_header hdr p"] show ?thesis
    by (simp add: skip_header_def xor.assoc xor_left_self xor.left_commute)
qed

lemma DwXORChecksumBasic_sum:
  "10 \<le> m \<Longrightarrow> m \<le> 13 \<Longrightarrow> DwXORChecksumBasic pb (2 ^ m) = xorsum (skip_header True (pdw pb)) (2 ^ (m - 2))"
proof -
  assume m: "10 \<le> m" "m \<le> 13"
  have e: "2 ^ m = 32 * (2 ^ (m - 5) :: nat)" "8 * 2 ^ (m - 5) = (2 ^ (m - 2) :: nat)" "2 \<le> (2 ^ (m - 2) :: nat)"
    using page_cases [OF m] by auto
  show ?thesis
    using old_rows_xorsum [of "pdw pb" "2 ^ (m - 5)" 0 "pdw pb 0 XOR pdw pb 1"]
    unfolding DwXORChecksumBasic_def skip_header_sum [OF e(3)] by (simp add: e(1,2))
qed

section \<open>Properties\<close>

text \<open>Three processors: everything available, SSE only in a 32-bit build, nothing.\<close>

definition cpu_avx :: cpu where
  "cpu_avx = \<lparr>fX86 = False, fCHPE = False, FSSEInstructionsAvailable = True,
     FSSE2InstructionsAvailable = True, FAVXEnabled = True, FPopcntAvailable = True\<rparr>"

definition cpu_sse :: cpu where
  "cpu_sse = \<lparr>fX86 = True, fCHPE = False, FSSEInstructionsAvailable = True,
     FSSE2InstructionsAvailable = False, FAVXEnabled = False, FPopcntAvailable = False\<rparr>"

definition cpu_plain :: cpu where
  "cpu_plain = \<lparr>fX86 = False, fCHPE = False, FSSEInstructionsAvailable = False,
     FSSE2InstructionsAvailable = False, FAVXEnabled = False, FPopcntAvailable = False\<rparr>"

text \<open>
  C4: whatever the processor offers and whatever the dispatch pointer holds, a single flipped bit
  of a page (outside the stored checksum, when the page has one) is recognised as correctable,
  and flipping back the bit that \<open>IbitCorrupted\<close> names restores the page.
\<close>

theorem single_bit_error_corrected:
  fixes pb :: mem
  assumes "10 \<le> m" "m \<le> 13" "b < 8 * 2 ^ m" "hdr \<longrightarrow> 64 \<le> b"
  shows "FECCErrorIsCorrectable (2 ^ m) (fst (ChecksumNewFormat c u pfn pb (2 ^ m) pgno hdr))
           (fst (ChecksumNewFormat c' u' pfn' (flip_bit pb b) (2 ^ m) pgno hdr))
       \<and> flip_bit (flip_bit pb b) (unat (IbitCorrupted (2 ^ m)
           (fst (ChecksumNewFormat c u pfn pb (2 ^ m) pgno hdr))
           (fst (ChecksumNewFormat c' u' pfn' (flip_bit pb b) (2 ^ m) pgno hdr)))) = pb"
  using bit64.single_bit_corrected(1) [OF assms] bit64.single_bit_restored [OF assms] assms(1,2)
  by (simp add: dispatch.chk_spec bit64.chk_spec)

theorem single_bit_error_corrected_witness:
  "FECCErrorIsCorrectable (2 ^ 12)
     (fst (ChecksumNewFormat cpu_avx (M128 1 2 3 4) None (\<lambda>a. word_of_nat a) (2 ^ 12) 7 True))
     (fst (ChecksumNewFormat cpu_sse (M128 0 0 0 0) (Some NewSSE)
        (flip_bit (\<lambda>a. word_of_nat a) 1000) (2 ^ 12) 7 True))"
  by (rule single_bit_error_corrected [THEN conjunct1]) simp_all

text \<open>
  C5: two flipped bits always change the checksum and are never taken for a correctable error.
\<close>

theorem double_bit_error_detected:
  fixes pb :: mem
  assumes "10 \<le> m" "m \<le> 13" "b < 8 * 2 ^ m" "b' < 8 * 2 ^ m" "b \<noteq> b'"
    and "hdr \<longrightarrow> 64 \<le> b" "hdr \<longrightarrow> 64 \<le> b'"
  shows "fst (ChecksumNewFormat c u pfn pb (2 ^ m) pgno hdr)
           \<noteq> fst (ChecksumNewFormat c' u' pfn' (flip_bit (flip_bit pb b) b') (2 ^ m) pgno hdr)
       \<and> \<not> FECCErrorIsCorrectable (2 ^ m) (fst (ChecksumNewFormat c u pfn pb (2 ^ m) pgno hdr))
           (fst (ChecksumNewFormat c' u' pfn' (flip_bit (flip_bit pb b) b') (2 ^ m) pgno hdr))"
  using bit64.double_bit_detected [OF assms] assms(1,2) by (simp add: dispatch.chk_spec bit64.chk_spec)

theorem double_bit_error_detected_witness:
  "\<not> FECCErrorIsCorrectable (2 ^ 13)
     (fst (ChecksumNewFormat cpu_avx (M128 1 2 3 4) None (\<lambda>a. word_of_nat a) (2 ^ 13) 7 True))
     (fst (ChecksumNewFormat cpu_plain (M128 1 2 3 4) (Some New64Bit)
        (flip_bit (flip_bit (\<lambda>a. word_of_nat a) 1000) 65535) (2 ^ 13) 7 True))"
  by (rule double_bit_error_detected [THEN conjunct2]) simp_all

text \<open>
  The same page content under another page number has another checksum, and the difference is
  not taken for a bit error.
\<close>

theorem misplaced_page_detected:
  assumes "10 \<le> m" "m \<le> 13" "pgno \<noteq> pgno'"
  shows "fst (ChecksumNewFormat c u pfn pb (2 ^ m) pgno hdr)
           \<noteq> fst (ChecksumNewFormat c' u' pfn' pb (2 ^ m) pgno' hdr)
       \<and> \<not> FECCErrorIsCorrectable (2 ^ m) (fst (ChecksumNewFormat c u pfn pb (2 ^ m) pgno hdr))
           (fst (ChecksumNewFormat c' u' pfn' pb (2 ^ m) pgno' hdr))"
  using bit64.wrong_page_detected [OF assms] assms(1,2) by (simp add: dispatch.chk_spec bit64.chk_spec)

theorem misplaced_page_detected_witness:
  "fst (ChecksumNewFormat cpu_avx (M128 0 0 0 0) None (\<lambda>a. word_of_nat a) (2 ^ 12) 7 True)
     \<noteq> fst (ChecksumNewFormat cpu_avx (M128 0 0 0 0) None (\<lambda>a. word_of_nat a) (2 ^ 12) 8 True)"
  by (rule misplaced_page_detected [THEN conjunct1]) simp_all

lemma run_new_64:
  assumes "\<And>u pb cb pgno hdr. (u, pb, cb, pgno, hdr) \<in> set calls \<Longrightarrow> \<exists>m. 10 \<le> m \<and> m \<le> 13 \<and> cb = 2 ^ m"
    and "calls \<noteq> []"
  shows "run_new c None calls =
    (map (\<lambda>(u, pb, cb, pgno, hdr). ChecksumNewFormat64Bit pb cb pgno hdr) calls, Some (select_new c))"
proof -
  have "fst (run_new c None calls) = map (\<lambda>(u, pb, cb, pgno, hdr). ChecksumNewFormat64Bit pb cb pgno hdr) calls"
    by (rule run_new_results) (rule assms(1))
  moreover have "snd (run_new c None calls) = Some (select_new c)"
    using run_new_pointer [OF assms(2), of c None] by simp
  ultimately show ?thesis
    by (metis prod.collapse)
qed

text \<open>
  C20: in any sequence of calls through the self-patching pointer on pages of \<open>2 ^ m\<close> bytes from 1 to 8 kilobytes, every call returns the checksum that
  the bitwise specification \<open>xe_spec\<close> gives for its page, whichever vector routine the processor selects, and after the first
  call the pointer holds the selected routine.
\<close>

theorem dispatch_transparent:
  assumes "\<And>u pb m pgno hdr. (u, pb, m, pgno, hdr) \<in> set calls \<Longrightarrow> 10 \<le> m \<and> m \<le> 13" "calls \<noteq> []"
  shows "run_new c None (map (\<lambda>(u, pb, m, pgno, hdr). (u, pb, 2 ^ m, pgno, hdr)) calls)
    = (map (\<lambda>(u, pb, m, pgno, hdr). xe_spec pb m pgno hdr) calls, Some (select_new c))"
proof -
  let ?calls = "map (\<lambda>(u, pb, m, pgno, hdr). (u, pb, 2 ^ m, pgno, hdr)) calls"
  have "run_new c None ?calls = (map (\<lambda>(u, pb, cb, pgno, hdr). ChecksumNewFormat64Bit pb cb pgno hdr) ?calls, Some (select_new c))"
    using assms by (intro run_new_64) fastforce+
  also have "map (\<lambda>(u, pb, cb, pgno, hdr). ChecksumNewFormat64Bit pb cb pgno hdr) ?calls = map (\<lambda>(u, pb, m, pgno, hdr). xe_spec pb m pgno hdr) calls"
    using assms(1) by (auto simp: bit64.chk_spec)
  finally show ?thesis .
qed

theorem dispatch_transparent_witness:
  "run_new cpu_avx None (map (\<lambda>(u, pb, m, pgno, hdr). (u, pb, 2 ^ m, pgno, hdr))
      [(M128 1 2 3 4, \<lambda>a. word_of_nat a, 12, 5, True), (M128 0 0 0 0, \<lambda>a. 7, 13, 6, False)])
    = (map (\<lambda>(u, pb, m, pgno, hdr). xe_spec pb m pgno hdr)
       [(M128 1 2 3 4, \<lambda>a. word_of_nat a, 12, 5, True), (M128 0 0 0 0, \<lambda>a. 7, 13, 6, False)], Some (select_new cpu_avx))"
  by (rule dispatch_transparent) auto

text \<open>
  The checksum of a page depends on the bytes of the page only, and on a header block not on
  its first eight bytes, where the checksum itself is stored.
\<close>

theorem checksum_frame:
  assumes "10 \<le> m" "m \<le> 13"
    and "\<And>a. (if hdr then 8 else 0) \<le> a \<Longrightarrow> a < 2 ^ m \<Longrightarrow> pb a = pb' a"
  shows "fst (ChecksumNewFormat c u pfn pb (2 ^ m) pgno hdr) = fst (ChecksumNewFormat c' u' pfn' pb' (2 ^ m) pgno hdr)"
  using bit64.reads_only_page [OF assms] assms(1,2) by (simp add: dispatch.chk_spec bit64.chk_spec)

theorem checksum_frame_witness:
  "fst (ChecksumNewFormat cpu_avx (M128 1 2 3 4) None (\<lambda>a. word_of_nat a) (2 ^ 12) 5 True)
   = fst (ChecksumNewFormat cpu_plain (M128 9 9 9 9) (Some NewSlowly)
       (\<lambda>a. if a < 8 \<or> 4096 \<le> a then 77 else word_of_nat a) (2 ^ 12) 5 True)"
  by (rule checksum_frame) simp_all

text \<open>
  C21: every old-format routine the dispatch may pick computes the seed exclusive-or all dwords of
  the page but the first, where that checksum is stored.
\<close>

theorem old_checksum_correct:
  assumes "128 dvd cb" "0 < cb"
  shows "fst (ChecksumOldFormat c pfn pb cb) = 0x89abcdef XOR xorsum (\<lambda>i. pdw pb (1 + i)) (cb div 4 - 1)"
proof -
  have "4 \<le> cb"
    using assms by (auto dest: dvd_imp_le)
  then have e: "1 + (cb div 4 - 1) = cb div 4"
    by auto
  have "xorsum (pdw pb) (cb div 4) = pdw pb 0 XOR xorsum (\<lambda>i. pdw pb (1 + i)) (cb div 4 - 1)"
    using xorsum_add [of "pdw pb" 1 "cb div 4 - 1"] unfolding e by simp
  then show ?thesis
    by (simp add: ChecksumOldFormat_fst call_old_spec [OF assms(1)] old_spec_def xor_left_self)
qed

theorem old_checksum_correct_witness:
  "fst (ChecksumOldFormat cpu_avx None (\<lambda>a. if a = 5 then 0xff else 0) 128)
     = 0x89abcdef XOR xorsum (\<lambda>i. pdw (\<lambda>a. if a = 5 then 0xff else 0) (1 + i)) (128 div 4 - 1)"
  by (rule old_checksum_correct) simp_all

text \<open>
  C25: \<open>ChecksumNewFormatBasic\<close> leaves the first two dwords out of its exclusive-or even when
  the block is no header block: it agrees with the other routines on header blocks, and elsewhere
  exactly when these two dwords are equal.
\<close>

theorem basic_routine_agrees:
  assumes "10 \<le> m" "m \<le> 13"
  shows "ChecksumNewFormatBasic pb (2 ^ m) pgno hdr = ChecksumNewFormatSlowly pb (2 ^ m) pgno hdr
    \<longleftrightarrow> hdr \<or> pdw pb 0 = pdw pb 1"
proof -
  let ?s = "\<lambda>h. xorsum (skip_header h (pdw pb)) (2 ^ (m - 2))"
  have "2 \<le> (2 ^ (m - 2) :: nat)"
    using page_cases [OF assms] by auto
  then have "?s True = ?s hdr \<longleftrightarrow> hdr \<or> pdw pb 0 XOR pdw pb 1 = 0"
    using xor_cancel_right [of "pdw pb 0 XOR pdw pb 1" "xorsum (pdw pb) (2 ^ (m - 2))" 0]
    by (cases hdr) (simp_all add: skip_header_sum)
  moreover have "pdw pb 0 XOR pdw pb 1 = 0 \<longleftrightarrow> pdw pb 0 = pdw pb 1"
    using xor_cancel_left [of "pdw pb 0" "pdw pb 1" "pdw pb 0"] by auto
  ultimately show ?thesis
    unfolding ChecksumNewFormatBasic_def slowly.chk_spec [OF assms] xe_spec_def Let_def
    by (simp only: page_scan [OF assms] prod.case DwXORChecksumBasic_sum [OF assms] Make_eq_iff)
qed

theorem basic_routine_agrees_witness:
  "ChecksumNewFormatBasic (\<lambda>a. if a = 0 then 1 else 0) (2 ^ 12) 5 False
     \<noteq> ChecksumNewFormatSlowly (\<lambda>a. if a = 0 then 1 else 0) (2 ^ 12) 5 False"
  by (subst basic_routine_agrees) (simp_all add: pdw_def)

end
