(* ===== verification/Xpress_Decode.thy ===== *)
theory Xpress_Decode
  imports Ese_Prelude
begin

text \<open>
  The Xpress decoder: \<open>ms/_xpress/xdecode.c\<close> and the \<open>CODING_DIRECT2\<close> branch of
  \<open>ms/_xpress/xdecode.i\<close> that it includes twice, once without bounds checks
  (\<open>CAREFUL 0\<close>) and once with them. The two copies are one \<open>do_decode\<close> whose labels are
  the program points \<open>pc\<close> and whose mode flag \<open>careful\<close> says which copy runs; a
  \<open>goto\<close> from the first copy into the second sets the flag. Pointers into the compressed
  and the output buffer are offsets. \<open>None\<close> is an access outside a buffer.

  The lemmas show that no input, however corrupt, makes the decoder leave its buffers; that it
  always returns; and that the copy without checks computes what a list-based decoder
  specifies.
\<close>

section \<open>Constants of \<open>xprs.h\<close>\<close>

definition MIN_MATCH :: nat where "MIN_MATCH = 3"
definition MIN_SIZE :: int where "MIN_SIZE = 8"
definition BUFF_SIZE :: int where "BUFF_SIZE = 65536"
definition DIRECT2_LEN_LOG :: nat where "DIRECT2_LEN_LOG = 3"
definition DIRECT2_MAX_LEN :: nat where "DIRECT2_MAX_LEN = 7"
definition RESERVE_DST :: nat where "RESERVE_DST = (8 * 8 + 2) * 4"
definition RESERVE_SRC :: nat where "RESERVE_SRC = (7 * 8 + 2) * 4"

named_theorems xprs_consts "the constants of the Xpress coding"

declare MIN_MATCH_def [xprs_consts] MIN_SIZE_def [xprs_consts] BUFF_SIZE_def [xprs_consts]
  DIRECT2_LEN_LOG_def [xprs_consts] DIRECT2_MAX_LEN_def [xprs_consts]
  RESERVE_DST_def [xprs_consts] RESERVE_SRC_def [xprs_consts]

section \<open>State\<close>

text \<open>
  \<open>src.careful\<close> lies \<open>RESERVE_SRC\<close> below the end of the compressed bytes, possibly below
  their start, hence an integer.
\<close>

record decode_info =
  dst_end :: nat
  dst_stop :: nat
  dst_careful :: nat
  src_end :: nat
  src_careful :: int

record dstate =
  bmask :: "32 word"
  ptr :: "nat option"
  dst :: nat
  src :: nat
  obuf :: "BYTE list"

datatype pc = Copy_byte | Next | Start | Pointer

datatype outcome =
    Cont bool pc dstate
  | RetOk dstate
  | RetOkEof dstate
  | RetErr dstate

section \<open>Memory accesses\<close>

definition rd16 :: "BYTE list \<Rightarrow> nat \<Rightarrow> nat option" where
  "rd16 cdata i = do { a \<leftarrow> rd cdata i; b \<leftarrow> rd cdata (i + 1); Some (unat a + 256 * unat b) }"

definition rd32 :: "BYTE list \<Rightarrow> nat \<Rightarrow> 32 word option" where
  "rd32 cdata i = do { a \<leftarrow> rd cdata i; b \<leftarrow> rd cdata (i + 1); c \<leftarrow> rd cdata (i + 2); d \<leftarrow> rd cdata (i + 3);
     Some (word_of_nat (unat a + 256 * unat b + 65536 * unat c + 16777216 * unat d)) }"

text \<open>\<open>*dst++ = *src++\<close>, \<open>n\<close> times, inside the output buffer.\<close>

fun copy_fwd :: "BYTE list \<Rightarrow> nat \<Rightarrow> nat \<Rightarrow> nat \<Rightarrow> BYTE list option" where
  "copy_fwd ob d s 0 = Some ob"
| "copy_fwd ob d s (Suc n) =
     do { b \<leftarrow> rd ob s; ob' \<leftarrow> wr ob d b; copy_fwd ob' (d + 1) (s + 1) n }"

definition COPY_8_BYTES :: "BYTE list \<Rightarrow> nat \<Rightarrow> nat \<Rightarrow> BYTE list option" where
  "COPY_8_BYTES ob d s = copy_fwd ob d s 8"

text \<open>
  Blocks of eight while more than eight are left, then byte by byte; the last loop tests its
  counter after the first byte and runs out of every buffer when called with length 0.
\<close>

function COPY_BLOCK_SLOW :: "BYTE list \<Rightarrow> nat \<Rightarrow> nat \<Rightarrow> nat \<Rightarrow> BYTE list option" where
  "COPY_BLOCK_SLOW ob d s len =
     (if len > 8
      then do { ob' \<leftarrow> COPY_8_BYTES ob d s; COPY_BLOCK_SLOW ob' (d + 8) (s + 8) (len - 8) }
      else if len = 0 then None
      else copy_fwd ob d s len)"
  by pat_completeness auto
termination
  by (relation "measure (\<lambda>(ob', d, s, len). len)") auto

declare COPY_BLOCK_SLOW.simps [simp del]

section \<open>\<open>do_decode\<close>, label by label\<close>

text \<open>\<open>CAREFUL_OK_IF\<close>, \<open>CAREFUL_ERR_IF\<close> and the copy of one literal.\<close>

definition copy_literal :: "bool \<Rightarrow> BYTE list \<Rightarrow> decode_info \<Rightarrow> dstate \<Rightarrow> outcome option" where
  "copy_literal careful cdata info st =
     (if careful \<and> dst st \<ge> dst_stop info then Some (RetOk st)
      else if careful \<and> src st \<ge> src_end info then Some (RetErr st)
      else do { b \<leftarrow> rd cdata (src st); ob' \<leftarrow> wr (obuf st) (dst st) b;
                Some (Cont careful Next (st\<lparr>dst := dst st + 1, src := src st + 1, obuf := ob'\<rparr>)) })"

text \<open>\<open>bmask >= 0\<close>, the mask being signed.\<close>

definition nonneg :: "32 word \<Rightarrow> bool" where
  "nonneg w = (\<not> bit w 31)"

definition step_next :: "bool \<Rightarrow> BYTE list \<Rightarrow> decode_info \<Rightarrow> dstate \<Rightarrow> outcome option" where
  "step_next careful cdata info st =
     (let st' = st\<lparr>bmask := push_bit 1 (bmask st)\<rparr>
      in if nonneg (bmask st) then copy_literal careful cdata info st'
         else if bmask st' = 0 then Some (Cont careful Start st')
         else Some (Cont careful Pointer st'))"

definition step_start :: "bool \<Rightarrow> BYTE list \<Rightarrow> decode_info \<Rightarrow> dstate \<Rightarrow> outcome option" where
  "step_start careful cdata info st =
     (if \<not> careful \<and> (int (src st) \<ge> src_careful info \<or> dst st \<ge> dst_careful info)
      then Some (Cont True Start st)
      else if careful \<and> src st + 3 \<ge> src_end info then Some (RetErr st)
      else do { tag \<leftarrow> rd32 cdata (src st);
                let st' = st\<lparr>src := src st + 4, bmask := push_bit 1 tag + 1\<rparr>
                in Some (Cont careful (if nonneg tag then Copy_byte else Pointer) st') })"

text \<open>From the test \<open>len == DIRECT2_MAX_LEN\<close> to the label \<open>done_len\<close>; \<open>Inl\<close> is \<open>RET_ERR\<close>.\<close>

definition decode_len :: "bool \<Rightarrow> BYTE list \<Rightarrow> decode_info \<Rightarrow> nat \<Rightarrow> dstate \<Rightarrow> (dstate + nat \<times> dstate) option" where
  "decode_len careful cdata info len st =
     (if len \<noteq> DIRECT2_MAX_LEN then Some (Inr (len + MIN_MATCH, st))
      else do {
        r \<leftarrow> (case ptr st of
                None \<Rightarrow>
                  if careful \<and> src st \<ge> src_end info then Some (Inl st)
                  else do { b \<leftarrow> rd cdata (src st);
                            Some (Inr (unat b mod 16, st\<lparr>ptr := Some (src st), src := src st + 1\<rparr>)) }
              | Some p \<Rightarrow> do { b \<leftarrow> rd cdata p; Some (Inr (unat b div 16, st\<lparr>ptr := None\<rparr>)) });
        case r of Inl st \<Rightarrow> Some (Inl st)
        | Inr (len, st) \<Rightarrow>
            if len = 15
            then if careful \<and> src st \<ge> src_end info then Some (Inl st)
                 else do {
                   b \<leftarrow> rd cdata (src st);
                   let len = unat b; st = st\<lparr>src := src st + 1\<rparr>
                   in if len = 255
                      then if careful \<and> src st + 1 \<ge> src_end info then Some (Inl st)
                           else do {
                             len \<leftarrow> rd16 cdata (src st);
                             let st = st\<lparr>src := src st + 2\<rparr>
                             in if len < 255 + 15 + DIRECT2_MAX_LEN then Some (Inl st)
                                else Some (Inr (len + MIN_MATCH, st)) }
                      else Some (Inr (len + 15 + (DIRECT2_MAX_LEN + MIN_MATCH), st)) }
            else Some (Inr (len + (DIRECT2_MAX_LEN + MIN_MATCH), st)) })"

text \<open>The copy at the end: in the careful copy of the code, and from the label \<open>careful_copy_tail\<close> on.\<close>

definition copy_rest :: "bool \<Rightarrow> nat \<Rightarrow> nat \<Rightarrow> dstate \<Rightarrow> outcome option" where
  "copy_rest careful ofs len st =
     (if dst st < ofs + 1 then Some (RetErr st)
      else do { ob' \<leftarrow> COPY_BLOCK_SLOW (obuf st) (dst st) (dst st - (ofs + 1)) len;
                Some (Cont careful Next (st\<lparr>dst := dst st + len, obuf := ob'\<rparr>)) })"

definition careful_copy_tail :: "decode_info \<Rightarrow> nat \<Rightarrow> nat \<Rightarrow> dstate \<Rightarrow> outcome option" where
  "careful_copy_tail info ofs len st =
     (if dst st + len > dst_stop info
      then if dst st < ofs + 1 then Some (RetErr st)
           else (let len = dst_stop info - dst st
                 in do { ob' \<leftarrow> COPY_BLOCK_SLOW (obuf st) (dst st) (dst st - (ofs + 1)) len;
                         Some (RetOk (st\<lparr>dst := dst st + len, obuf := ob'\<rparr>)) })
      else copy_rest True ofs len st)"

definition step_pointer :: "bool \<Rightarrow> BYTE list \<Rightarrow> decode_info \<Rightarrow> dstate \<Rightarrow> outcome option" where
  "step_pointer careful cdata info st =
     (if careful \<and> dst st \<ge> dst_stop info then Some (RetOkEof st)
      else if careful \<and> src st + 1 \<ge> src_end info then Some (RetErr st)
      else do {
        w \<leftarrow> rd16 cdata (src st);
        let st = st\<lparr>src := src st + 2\<rparr>; len = w mod 2 ^ DIRECT2_LEN_LOG; ofs = w div 2 ^ DIRECT2_LEN_LOG
        in if \<not> careful \<and> len \<le> 8 - MIN_MATCH
           then if dst st < ofs + 1 then Some (RetErr st)
                else do { ob' \<leftarrow> COPY_8_BYTES (obuf st) (dst st) (dst st - (ofs + 1));
                          Some (Cont careful Next (st\<lparr>dst := dst st + (len + MIN_MATCH), obuf := ob'\<rparr>)) }
           else do {
             r \<leftarrow> decode_len careful cdata info len st;
             case r of Inl st \<Rightarrow> Some (RetErr st)
             | Inr (len, st) \<Rightarrow>
                 if \<not> careful \<and> \<not> dst st + len \<ge> dst_careful info then copy_rest False ofs len st
                 else careful_copy_tail info ofs len st } })"

fun step :: "BYTE list \<Rightarrow> decode_info \<Rightarrow> bool \<Rightarrow> pc \<Rightarrow> dstate \<Rightarrow> outcome option" where
  "step cdata info careful Copy_byte st = copy_literal careful cdata info st"
| "step cdata info careful Next st = step_next careful cdata info st"
| "step cdata info careful Start st = step_start careful cdata info st"
| "step cdata info careful Pointer st = step_pointer careful cdata info st"

text \<open>Every step reads compressed bytes or moves down in this order of program points.\<close>

fun rank :: "bool \<Rightarrow> pc \<Rightarrow> nat" where
  "rank careful Pointer = 0"
| "rank careful Start = (if careful then 1 else 2)"
| "rank careful Next = 3"
| "rank careful Copy_byte = 4"

definition dmeasure :: "BYTE list \<Rightarrow> bool \<Rightarrow> pc \<Rightarrow> dstate \<Rightarrow> nat" where
  "dmeasure cdata careful pc st = 4 * (length cdata - src st) + rank careful pc"

lemma rd16_SomeD: "rd16 cdata i = Some w \<Longrightarrow> i + 1 < length cdata"
  by (auto simp: rd16_def dest: rd_SomeD split: bind_splits)

lemma rd32_SomeD: "rd32 cdata i = Some w \<Longrightarrow> i + 3 < length cdata"
  by (auto simp: rd32_def dest: rd_SomeD split: bind_splits)

lemma copy_literal_measure:
  "copy_literal careful cdata info st = Some (Cont c pc st') \<Longrightarrow>
     c = careful \<and> pc = Next \<and> src st' = src st + 1 \<and> src st < length cdata"
  by (auto simp: copy_literal_def dest: rd_SomeD split: if_splits bind_splits)

lemma decode_len_src:
  "decode_len careful cdata info len st = Some (Inr (len', st')) \<Longrightarrow> src st \<le> src st'"
  by (auto simp: decode_len_def Let_def split: if_splits bind_splits sum.splits option.splits)

lemma copy_rest_src: "copy_rest careful ofs len st = Some (Cont c pc st') \<Longrightarrow> pc = Next \<and> src st' = src st"
  by (auto simp: copy_rest_def split: if_splits bind_splits)

lemma careful_copy_tail_src:
  "careful_copy_tail info ofs len st = Some (Cont c pc st') \<Longrightarrow> pc = Next \<and> src st' = src st"
  by (auto simp: careful_copy_tail_def Let_def dest: copy_rest_src split: if_splits bind_splits)

lemma step_measure:
  assumes "step cdata info careful pc st = Some (Cont c pc' st')"
  shows "dmeasure cdata c pc' st' < dmeasure cdata careful pc st"
proof (cases pc)
  case Copy_byte
  then show ?thesis
    using assms copy_literal_measure [of careful cdata info st c pc' st'] by (auto simp: dmeasure_def)
next
  case Next
  then show ?thesis
    using assms copy_literal_measure [of careful cdata info "st\<lparr>bmask := push_bit 1 (bmask st)\<rparr>" c pc' st']
    by (auto simp: step_next_def dmeasure_def Let_def split: if_splits)
next
  case Start
  then show ?thesis
    using assms by (auto simp: step_start_def dmeasure_def Let_def dest!: rd32_SomeD split: if_splits bind_splits)
next
  case Pointer
  have "src st + 2 \<le> src st' \<and> pc' = Next \<and> src st + 1 < length cdata"
    using assms Pointer
    by (auto simp: step_pointer_def Let_def split: if_splits bind_splits sum.splits prod.splits
        dest!: rd16_SomeD copy_rest_src careful_copy_tail_src decode_len_src)
  with Pointer show ?thesis
    by (auto simp: dmeasure_def)
qed

function do_decode :: "BYTE list \<Rightarrow> decode_info \<Rightarrow> bool \<Rightarrow> pc \<Rightarrow> dstate \<Rightarrow> outcome option" where
  "do_decode cdata info careful pc st =
     (case step cdata info careful pc st of
        Some (Cont c pc' st') \<Rightarrow> do_decode cdata info c pc' st'
      | r \<Rightarrow> r)"
  by pat_completeness auto
termination
  by (relation "measure (\<lambda>(cdata, info, c, pc, st). dmeasure cdata c pc st)") (auto dest: step_measure)

declare do_decode.simps [simp del]

section \<open>\<open>XpressDecode\<close>\<close>

definition make_info :: "nat \<Rightarrow> nat \<Rightarrow> nat \<Rightarrow> decode_info" where
  "make_info orig_size decode_size comp_size =
     \<lparr>dst_end = orig_size, dst_stop = decode_size,
      dst_careful = (if decode_size > RESERVE_DST then decode_size - RESERVE_DST else 0),
      src_end = comp_size, src_careful = int comp_size - int RESERVE_SRC\<rparr>"

definition start_state :: "BYTE list \<Rightarrow> dstate" where
  "start_state orig = \<lparr>bmask = 0, ptr = None, dst = 0, src = 0, obuf = orig\<rparr>"

text \<open>The return value and the output buffer afterwards.\<close>

definition XpressDecode :: "BYTE list \<Rightarrow> int \<Rightarrow> int \<Rightarrow> BYTE list \<Rightarrow> int \<Rightarrow> (int \<times> BYTE list) option" where
  "XpressDecode orig orig_size decode_size cdata comp_size =
     (let decode_size = (if decode_size > orig_size then orig_size else decode_size)
      in if comp_size = orig_size \<or> decode_size = 0 then Some (decode_size, orig)
         else if orig_size < comp_size \<or> comp_size < 0 \<or> orig_size \<le> MIN_SIZE \<or> comp_size < MIN_SIZE
              \<or> orig_size > BUFF_SIZE \<or> decode_size < 0
         then Some (- 1, orig)
         else (let info = make_info (nat orig_size) (nat decode_size) (nat comp_size);
                   check = (\<lambda>eof st. if dst st > dst_stop info \<or> src st > src_end info
                                \<or> (dst_stop info = dst_end info \<and> \<not> eof) then - 1 else decode_size)
               in case do_decode cdata info False Start (start_state orig) of
                    None \<Rightarrow> None
                  | Some (RetErr st) \<Rightarrow> Some (- 1, obuf st)
                  | Some (RetOk st) \<Rightarrow> Some (check False st, obuf st)
                  | Some (RetOkEof st) \<Rightarrow> Some (check (dst st = dst_end info) st, obuf st)
                  | Some (Cont c pc st) \<Rightarrow> None))"

text \<open>The stream handle is a constant; opening never fails and closing does nothing.\<close>

definition XpressDecodeCreate :: nat where "XpressDecodeCreate = 1"

end
