(* ===== verification/Xpress_Props.thy ===== *)
theory Xpress_Props
  imports Xpress_Decode
begin

text \<open>
  Correctness of the Xpress decoder: the specification \<open>lz_decode\<close>, a decoder that checks every
  access and builds a list; the invariant \<open>dinv\<close>, which accounts for the room that the copy
  without checks relies on; the step-by-step refinement; and the theorems on \<open>XpressDecode\<close>.
\<close>

section \<open>Forward copies\<close>

text \<open>A match appends, byte by byte, what stands \<open>k\<close> bytes before the end.\<close>

fun lz_copy :: "BYTE list \<Rightarrow> nat \<Rightarrow> nat \<Rightarrow> BYTE list" where
  "lz_copy acc k 0 = acc"
| "lz_copy acc k (Suc n) = lz_copy (acc @ [acc ! (length acc - k)]) k n"

lemma length_lz_copy [simp]: "length (lz_copy acc k n) = length acc + n"
  by (induction acc k n rule: lz_copy.induct) auto

lemma take_lz_copy: "n \<le> m \<Longrightarrow> take (length acc + n) (lz_copy acc k m) = lz_copy acc k n"
proof (induction acc k n arbitrary: m rule: lz_copy.induct)
  case (1 acc k)
  have "take (length acc) (lz_copy acc k m) = acc"
  proof (induction acc k m rule: lz_copy.induct)
    case (2 acc k n)
    have "take (length acc) (take (length acc + 1) (lz_copy (acc @ [acc ! (length acc - k)]) k n)) = acc"
      using 2 by simp
    then show ?case by simp
  qed simp
  then show ?case by simp
next
  case (2 acc k n)
  then obtain m' where m: "m = Suc m'" "n \<le> m'"
    by (cases m) auto
  then show ?case
    using 2 by simp
qed

lemma copy_fwd_lz:
  assumes "s < d" "d + n \<le> length ob"
  shows "\<exists>ob'. copy_fwd ob d s n = Some ob' \<and> length ob' = length ob
     \<and> drop (d + n) ob' = drop (d + n) ob \<and> take (d + n) ob' = lz_copy (take d ob) (d - s) n"
  using assms
proof (induction n arbitrary: ob d s)
  case 0
  then show ?case by simp
next
  case (Suc n)
  let ?ob = "ob[d := ob ! s]"
  have "\<exists>ob'. copy_fwd ?ob (Suc d) (Suc s) n = Some ob' \<and> length ob' = length ?ob
     \<and> drop (Suc d + n) ob' = drop (Suc d + n) ?ob
     \<and> take (Suc d + n) ob' = lz_copy (take (Suc d) ?ob) (Suc d - Suc s) n"
    using Suc.prems by (intro Suc.IH) auto
  moreover have "take (Suc d) ?ob = take d ob @ [take d ob ! (length (take d ob) - (d - s))]"
    using Suc.prems by (simp add: take_Suc_update)
  ultimately show ?case
    using Suc.prems by (auto simp: buf_simps drop_update_cancel)
qed

lemma COPY_BLOCK_SLOW_fwd: "0 < n \<Longrightarrow> COPY_BLOCK_SLOW ob d s n = copy_fwd ob d s n"
proof (induction ob d s n rule: COPY_BLOCK_SLOW.induct)
  case (1 ob d s n)
  have add: "copy_fwd ob d s (m + k) = do { ob' \<leftarrow> copy_fwd ob d s m; copy_fwd ob' (d + m) (s + m) k }" for ob d s m k
    by (induction ob d s m rule: copy_fwd.induct) (auto simp: Option.bind_assoc elem_set intro!: bind_option_cong)
  show ?case
  proof (cases "8 < n")
    case True
    with 1 have "COPY_BLOCK_SLOW ob' (d + 8) (s + 8) (n - 8) = copy_fwd ob' (d + 8) (s + 8) (n - 8)"
      if "COPY_8_BYTES ob d s = Some ob'" for ob'
      using that by simp
    with True show ?thesis
      using add [of ob d s 8 "n - 8"]
      by (subst COPY_BLOCK_SLOW.simps) (auto simp: COPY_8_BYTES_def elem_set intro!: bind_option_cong)
  next
    case False
    with 1 show ?thesis
      by (subst COPY_BLOCK_SLOW.simps) simp
  qed
qed

section \<open>The specification: decoding to a list\<close>

text \<open>
  The same coding read by a decoder that checks everything and builds its output as a list:
  \<open>stop\<close> is the number of bytes wanted. \<open>lz_len\<close> reads a match length, \<open>None\<close> when the
  input ends or the length is not minimal.
\<close>

record lz =
  lmask :: "32 word"
  lptr :: "nat option"
  lsrc :: nat
  lout :: "BYTE list"

datatype lzout = LCont pc lz | LOk lz | LOkEof lz | LErr

definition le16 :: "BYTE list \<Rightarrow> nat \<Rightarrow> nat" where
  "le16 cdata i = unat (cdata ! i) + 256 * unat (cdata ! (i + 1))"

definition le32 :: "BYTE list \<Rightarrow> nat \<Rightarrow> 32 word" where
  "le32 cdata i = word_of_nat (unat (cdata ! i) + 256 * unat (cdata ! (i + 1))
     + 65536 * unat (cdata ! (i + 2)) + 16777216 * unat (cdata ! (i + 3)))"

definition lz_len :: "BYTE list \<Rightarrow> nat \<Rightarrow> nat option \<Rightarrow> nat \<Rightarrow> (nat \<times> nat option \<times> nat) option" where
  "lz_len cdata len p i =
     (if len \<noteq> 7 then Some (len + 3, p, i)
      else if p = None \<and> length cdata \<le> i then None
      else (let (nib, p, i) = (case p of None \<Rightarrow> (unat (cdata ! i) mod 16, Some i, i + 1)
                                | Some j \<Rightarrow> (unat (cdata ! j) div 16, None, i))
            in if nib \<noteq> 15 then Some (nib + 10, p, i)
               else if length cdata \<le> i then None
               else if unat (cdata ! i) \<noteq> 255 then Some (unat (cdata ! i) + 25, p, i + 1)
               else if length cdata \<le> i + 2 \<or> le16 cdata (i + 1) < 277 then None
               else Some (le16 cdata (i + 1) + 3, p, i + 3)))"

definition lz_literal :: "BYTE list \<Rightarrow> nat \<Rightarrow> lz \<Rightarrow> lzout" where
  "lz_literal cdata stop a =
     (if stop \<le> length (lout a) then LOk a
      else if length cdata \<le> lsrc a then LErr
      else LCont Next (a\<lparr>lsrc := lsrc a + 1, lout := lout a @ [cdata ! lsrc a]\<rparr>))"

definition lz_pointer :: "BYTE list \<Rightarrow> nat \<Rightarrow> lz \<Rightarrow> lzout" where
  "lz_pointer cdata stop a =
     (if stop \<le> length (lout a) then LOkEof a
      else if length cdata \<le> lsrc a + 1 then LErr
      else (let w = le16 cdata (lsrc a); ofs = w div 8 + 1
            in case lz_len cdata (w mod 8) (lptr a) (lsrc a + 2) of
                 None \<Rightarrow> LErr
               | Some (len, p, i) \<Rightarrow>
                   if length (lout a) < ofs then LErr
                   else if stop < length (lout a) + len
                   then LOk (a\<lparr>lptr := p, lsrc := i, lout := lz_copy (lout a) ofs (stop - length (lout a))\<rparr>)
                   else LCont Next (a\<lparr>lptr := p, lsrc := i, lout := lz_copy (lout a) ofs len\<rparr>)))"

fun lz_step :: "BYTE list \<Rightarrow> nat \<Rightarrow> pc \<Rightarrow> lz \<Rightarrow> lzout" where
  "lz_step cdata stop Copy_byte a = lz_literal cdata stop a"
| "lz_step cdata stop Next a =
     (let a' = a\<lparr>lmask := push_bit 1 (lmask a)\<rparr>
      in if nonneg (lmask a) then lz_literal cdata stop a'
         else LCont (if lmask a' = 0 then Start else Pointer) a')"
| "lz_step cdata stop Start a =
     (if length cdata \<le> lsrc a + 3 then LErr
      else LCont (if nonneg (le32 cdata (lsrc a)) then Copy_byte else Pointer)
             (a\<lparr>lsrc := lsrc a + 4, lmask := push_bit 1 (le32 cdata (lsrc a)) + 1\<rparr>))"
| "lz_step cdata stop Pointer a = lz_pointer cdata stop a"

definition lz_measure :: "BYTE list \<Rightarrow> pc \<Rightarrow> lz \<Rightarrow> nat" where
  "lz_measure cdata pc a = 4 * (length cdata - lsrc a) + rank True pc"

lemma lz_len_src: "lz_len cdata len p i = Some (n, p', i') \<Longrightarrow> i \<le> i' \<and> i' \<le> i + 4"
  by (auto simp: lz_len_def Let_def split: if_splits option.splits)

lemma lz_step_measure: "lz_step cdata stop pc a = LCont pc' a' \<Longrightarrow> lz_measure cdata pc' a' < lz_measure cdata pc a"
  by (cases pc)
    (auto simp: lz_measure_def lz_literal_def lz_pointer_def Let_def dest!: lz_len_src split: if_splits option.splits)

function lz_run :: "BYTE list \<Rightarrow> nat \<Rightarrow> pc \<Rightarrow> lz \<Rightarrow> lzout" where
  "lz_run cdata stop pc a = (case lz_step cdata stop pc a of LCont pc' a' \<Rightarrow> lz_run cdata stop pc' a' | r \<Rightarrow> r)"
  by pat_completeness auto
termination
  by (relation "measure (\<lambda>(cdata, stop, pc, a). lz_measure cdata pc a)") (auto dest: lz_step_measure)

declare lz_run.simps [simp del]

definition lz_start :: lz where
  "lz_start = \<lparr>lmask = 0, lptr = None, lsrc = 0, lout = []\<rparr>"

definition abs_state :: "dstate \<Rightarrow> lz" where
  "abs_state st = \<lparr>lmask = bmask st, lptr = ptr st, lsrc = src st, lout = take (dst st) (obuf st)\<rparr>"

section \<open>The invariant of the decoder\<close>

text \<open>
  The mask holds a marker bit below the flags that are left; \<open>marker w z\<close> says it stands at
  \<open>z\<close>, so that \<open>31 - z\<close> flags are left after the current one. In the copy without checks
  each flag may take 7 compressed bytes and write 8, so there has to be room for all of them.
\<close>

definition marker :: "32 word \<Rightarrow> nat \<Rightarrow> bool" where
  "marker w z \<longleftrightarrow> z \<le> 31 \<and> bit w z \<and> (\<forall>j<z. \<not> bit w j)"

definition room :: "decode_info \<Rightarrow> dstate \<Rightarrow> nat \<Rightarrow> bool" where
  "room info st k \<longleftrightarrow> src st + 7 * k \<le> src_end info \<and> dst st + 8 * k \<le> dst_stop info"

definition dinv :: "BYTE list \<Rightarrow> decode_info \<Rightarrow> bool \<Rightarrow> pc \<Rightarrow> dstate \<Rightarrow> bool" where
  "dinv cdata info careful pc st \<longleftrightarrow>
     src_end info = length cdata \<and> dst_stop info \<le> length (obuf st)
     \<and> (\<forall>p. ptr st = Some p \<longrightarrow> p < length cdata)
     \<and> src_careful info = int (src_end info) - 232
     \<and> (0 < dst_careful info \<longrightarrow> dst_careful info + 264 = dst_stop info)
     \<and> room info st 0
     \<and> (\<not> careful \<longrightarrow>
         (pc = Copy_byte \<longrightarrow> marker (bmask st) 0 \<and> room info st 32)
         \<and> (pc = Next \<longrightarrow> (\<exists>z. marker (bmask st) z \<and> room info st (31 - z)))
         \<and> (pc = Pointer \<longrightarrow> (\<exists>z. marker (bmask st) z \<and> room info st (32 - z))))"

lemma marker_shift:
  assumes "marker w z"
  shows "push_bit 1 w = 0 \<longleftrightarrow> z = 31"
    and "z < 31 \<Longrightarrow> marker (push_bit 1 w) (Suc z)"
proof -
  have s: "bit (push_bit 1 w) (Suc n) \<longleftrightarrow> n < 31 \<and> bit w n" "\<not> bit (push_bit 1 w) 0" for n
    unfolding bit_push_bit_iff by auto
  have "push_bit 1 w = 0 \<longleftrightarrow> (\<forall>n. \<not> bit (push_bit 1 w) n)"
    by (metis bit_0_eq bit_eqI bot_apply bot_bool_def)
  also have "\<dots> \<longleftrightarrow> (\<forall>n<31. \<not> bit w n)"
    using s by (metis not0_implies_Suc)
  finally have "push_bit 1 w = 0 \<longleftrightarrow> (\<forall>n<31. \<not> bit w n)" .
  then show "push_bit 1 w = 0 \<longleftrightarrow> z = 31"
    using assms by (auto simp: marker_def) (meson le_neq_implies_less)
  show "z < 31 \<Longrightarrow> marker (push_bit 1 w) (Suc z)"
    using assms s unfolding marker_def by (metis Suc_leI less_Suc_eq_0_disj)
qed

lemma marker_nonneg: "marker w z \<Longrightarrow> nonneg w \<Longrightarrow> z < 31"
  by (auto simp: marker_def nonneg_def le_less)

lemma marker_tag: "marker (push_bit 1 w + 1) 0"
  by (simp add: marker_def bit_0)

text \<open>What a step has to establish, against the step of the specification.\<close>

fun good :: "BYTE list \<Rightarrow> decode_info \<Rightarrow> bool \<Rightarrow> pc \<Rightarrow> dstate \<Rightarrow> outcome \<Rightarrow> bool" where
  "good cdata info careful pc st (Cont c pc' st') \<longleftrightarrow>
     dinv cdata info c pc' st' \<and> length (obuf st') = length (obuf st)
     \<and> drop (dst_stop info) (obuf st') = drop (dst_stop info) (obuf st)
     \<and> (lz_step cdata (dst_stop info) pc (abs_state st) = LCont pc' (abs_state st')
        \<or> pc = Start \<and> pc' = Start \<and> st' = st)"
| "good cdata info careful pc st (RetOk st') \<longleftrightarrow>
     length (obuf st') = length (obuf st) \<and> room info st' 0 \<and> dst st' = dst_stop info
     \<and> drop (dst_stop info) (obuf st') = drop (dst_stop info) (obuf st)
     \<and> lz_step cdata (dst_stop info) pc (abs_state st) = LOk (abs_state st')"
| "good cdata info careful pc st (RetOkEof st') \<longleftrightarrow>
     length (obuf st') = length (obuf st) \<and> room info st' 0 \<and> dst st' = dst_stop info
     \<and> drop (dst_stop info) (obuf st') = drop (dst_stop info) (obuf st)
     \<and> lz_step cdata (dst_stop info) pc (abs_state st) = LOkEof (abs_state st')"
| "good cdata info careful pc st (RetErr st') \<longleftrightarrow>
     length (obuf st') = length (obuf st)
     \<and> drop (dst_stop info) (obuf st') = drop (dst_stop info) (obuf st)
     \<and> lz_step cdata (dst_stop info) pc (abs_state st) = LErr"

lemma dinv_basic:
  assumes "dinv cdata info careful pc st"
  shows "src_end info = length cdata" "dst_stop info \<le> length (obuf st)" "dst st \<le> dst_stop info"
    "src st \<le> src_end info" "length (take (dst st) (obuf st)) = dst st"
  using assms by (auto simp: dinv_def room_def)

text \<open>A literal, from any program point whose mask and room allow it.\<close>

lemma literal_good:
  assumes "dinv cdata info True Next st"
    and "\<not> careful \<Longrightarrow> \<exists>z. marker (bmask st) z \<and> room info st (32 - z)"
  shows "\<exists>r. copy_literal careful cdata info st = Some r \<and> (case r of
      Cont c pc' st' \<Rightarrow> dinv cdata info c pc' st' \<and> length (obuf st') = length (obuf st)
        \<and> drop (dst_stop info) (obuf st') = drop (dst_stop info) (obuf st)
        \<and> lz_literal cdata (dst_stop info) (abs_state st) = LCont pc' (abs_state st')
    | RetOk st' \<Rightarrow> st' = st \<and> dst st = dst_stop info \<and> lz_literal cdata (dst_stop info) (abs_state st) = LOk (abs_state st)
    | RetErr st' \<Rightarrow> st' = st \<and> lz_literal cdata (dst_stop info) (abs_state st) = LErr
    | _ \<Rightarrow> False)"
proof -
  note b = dinv_basic [OF assms(1)]
  consider (ok) "careful" "dst st \<ge> dst_stop info"
    | (err) "careful" "dst st < dst_stop info" "src st \<ge> src_end info"
    | (go) "dst st < dst_stop info" "src st < src_end info" "\<not> careful \<or> careful"
    using assms(2) b(3) by (force simp: room_def marker_def)
  then show ?thesis
  proof cases
    case ok
    then show ?thesis
      using b by (simp add: copy_literal_def lz_literal_def abs_state_def)
  next
    case err
    then show ?thesis
      using b by (simp add: copy_literal_def lz_literal_def abs_state_def)
  next
    case go
    let ?st = "st\<lparr>dst := dst st + 1, src := src st + 1, obuf := (obuf st)[dst st := cdata ! src st]\<rparr>"
    have s: "copy_literal careful cdata info st = Some (Cont careful Next ?st)"
      using go b by (simp add: copy_literal_def buf_simps)
    have "\<exists>z. marker (bmask st) z \<and> room info ?st (31 - z)" if c: "\<not> careful"
    proof -
      obtain z where "marker (bmask st) z" "room info st (32 - z)"
        using assms(2) [OF c] by blast
      moreover from this have "room info ?st (31 - z)"
        by (auto simp: room_def marker_def)
      ultimately show ?thesis by blast
    qed
    then have "dinv cdata info careful Next ?st"
      using assms(1) go by (auto simp: dinv_def room_def)
    moreover have "lz_literal cdata (dst_stop info) (abs_state st) = LCont Next (abs_state ?st)"
      using go b by (simp add: lz_literal_def abs_state_def take_Suc_update)
    moreover have "drop (dst_stop info) (obuf ?st) = drop (dst_stop info) (obuf st)"
      using go by simp
    ultimately show ?thesis
      using s by simp
  qed
qed

lemma rd16_le16: "i + 1 < length cdata \<Longrightarrow> rd16 cdata i = Some (le16 cdata i)"
  by (simp add: rd16_def le16_def buf_simps)

lemma rd32_le32: "i + 3 < length cdata \<Longrightarrow> rd32 cdata i = Some (le32 cdata i)"
  by (simp add: rd32_def le32_def buf_simps)

lemma decode_len_good:
  assumes "src_end info = length cdata" "\<And>p. ptr st = Some p \<Longrightarrow> p < length cdata"
    and "\<not> careful \<Longrightarrow> src st + 4 < length cdata"
  shows "case lz_len cdata len (ptr st) (src st) of
      None \<Rightarrow> \<exists>st'. decode_len careful cdata info len st = Some (Inl st') \<and> obuf st' = obuf st
    | Some (n, p, i) \<Rightarrow> decode_len careful cdata info len st = Some (Inr (n, st\<lparr>ptr := p, src := i\<rparr>))
        \<and> 3 \<le> n \<and> (\<forall>j. p = Some j \<longrightarrow> j < length cdata) \<and> i \<le> src st + 4 \<and> (src st \<le> length cdata \<longrightarrow> i \<le> length cdata)"
proof (cases "len = 7")
  case False
  then show ?thesis
    using assms(2) by (simp add: lz_len_def decode_len_def xprs_consts)
next
  case True
  show ?thesis
  proof (cases "ptr st")
    case None
    show ?thesis
    proof (cases careful)
      case True
      with None \<open>len = 7\<close> assms(1) show ?thesis
        by (auto simp: lz_len_def decode_len_def xprs_consts Let_def buf_simps rd16_le16)
    next
      case False
      with None \<open>len = 7\<close> assms(1) assms(3) show ?thesis
        by (auto simp: lz_len_def decode_len_def xprs_consts Let_def buf_simps rd16_le16)
    qed
  next
    case (Some p)
    then have "p < length cdata"
      by (rule assms(2))
    show ?thesis
    proof (cases careful)
      case True
      with Some \<open>len = 7\<close> \<open>p < length cdata\<close> assms(1) show ?thesis
        by (auto simp: lz_len_def decode_len_def xprs_consts Let_def buf_simps rd16_le16)
    next
      case False
      with Some \<open>len = 7\<close> \<open>p < length cdata\<close> assms(1) assms(3) show ?thesis
        by (auto simp: lz_len_def decode_len_def xprs_consts Let_def buf_simps rd16_le16)
    qed
  qed
qed

lemma next_good:
  assumes "dinv cdata info careful Next st"
  shows "\<exists>r. step_next careful cdata info st = Some r \<and> good cdata info careful Next st r"
proof (cases "nonneg (bmask st)")
  case True
  let ?st = "st\<lparr>bmask := push_bit 1 (bmask st)\<rparr>"
  have "dinv cdata info True Next ?st"
    using assms by (simp add: dinv_def room_def)
  moreover have "\<exists>z. marker (bmask ?st) z \<and> room info ?st (32 - z)" if c: "\<not> careful"
  proof -
    obtain z where z: "marker (bmask st) z" "room info st (31 - z)"
      using assms c by (auto simp: dinv_def)
    then have "z < 31"
      using True marker_nonneg by blast
    then have "marker (bmask ?st) (Suc z)" "room info ?st (32 - Suc z)"
      using z marker_shift(2) by (simp_all add: room_def del: push_bit_Suc)
    then show ?thesis by blast
  qed
  ultimately obtain r where r: "copy_literal careful cdata info ?st = Some r" "case r of
      Cont c pc' st' \<Rightarrow> dinv cdata info c pc' st' \<and> length (obuf st') = length (obuf ?st)
        \<and> drop (dst_stop info) (obuf st') = drop (dst_stop info) (obuf ?st)
        \<and> lz_literal cdata (dst_stop info) (abs_state ?st) = LCont pc' (abs_state st')
    | RetOk st' \<Rightarrow> st' = ?st \<and> dst ?st = dst_stop info \<and> lz_literal cdata (dst_stop info) (abs_state ?st) = LOk (abs_state ?st)
    | RetErr st' \<Rightarrow> st' = ?st \<and> lz_literal cdata (dst_stop info) (abs_state ?st) = LErr
    | _ \<Rightarrow> False"
    using literal_good by blast
  have a: "abs_state ?st = (abs_state st)\<lparr>lmask := push_bit 1 (lmask (abs_state st))\<rparr>"
    by (simp add: abs_state_def)
  have "room info st 0"
    using assms by (simp add: dinv_def)
  with r True show ?thesis
    unfolding a by (cases r) (auto simp: step_next_def abs_state_def room_def)
next
  case False
  let ?st = "st\<lparr>bmask := push_bit 1 (bmask st)\<rparr>"
  have a: "abs_state ?st = (abs_state st)\<lparr>lmask := push_bit 1 (lmask (abs_state st))\<rparr>"
    by (simp add: abs_state_def)
  have "\<exists>z. marker (bmask ?st) z \<and> room info ?st (32 - z)" if c: "\<not> careful" "push_bit 1 (bmask st) \<noteq> 0"
  proof -
    obtain z where z: "marker (bmask st) z" "room info st (31 - z)"
      using assms c by (auto simp: dinv_def)
    with c(2) have "z < 31"
      using marker_shift(1) by (metis le_neq_implies_less marker_def)
    then have "marker (bmask ?st) (Suc z)" "room info ?st (32 - Suc z)"
      using z marker_shift(2) by (simp_all add: room_def del: push_bit_Suc)
    then show ?thesis by blast
  qed
  then have "push_bit 1 (bmask st) \<noteq> 0 \<Longrightarrow> dinv cdata info careful Pointer ?st"
    "push_bit 1 (bmask st) = 0 \<Longrightarrow> dinv cdata info careful Start ?st"
    using assms by (auto simp: dinv_def room_def)
  with False show ?thesis
    by (auto simp: step_next_def Let_def a) (auto simp: abs_state_def)
qed

lemma start_good:
  assumes "dinv cdata info careful Start st"
  shows "\<exists>r. step_start careful cdata info st = Some r \<and> good cdata info careful Start st r"
proof -
  note b = dinv_basic [OF assms]
  have room: "src st + 232 < src_end info \<and> dst st + 264 < dst_stop info"
    if "\<not> (int (src st) \<ge> src_careful info \<or> dst st \<ge> dst_careful info)"
  proof -
    have "0 < dst_careful info"
      using that by auto
    with assms that show ?thesis
      by (auto simp: dinv_def)
  qed
  consider (switch) "\<not> careful" "int (src st) \<ge> src_careful info \<or> dst st \<ge> dst_careful info"
    | (err) "careful" "src st + 3 \<ge> src_end info"
    | (go) "src st + 3 < src_end info"
        "careful \<or> src st + 232 < src_end info \<and> dst st + 264 < dst_stop info"
        "careful \<or> \<not> (int (src st) \<ge> src_careful info \<or> dst st \<ge> dst_careful info)"
    using room by fastforce
  then show ?thesis
  proof cases
    case switch
    then have "step_start careful cdata info st = Some (Cont True Start st)" "dinv cdata info True Start st"
      using assms by (auto simp: step_start_def dinv_def)
    then show ?thesis by auto
  next
    case err
    then show ?thesis
      using b by (simp add: step_start_def abs_state_def)
  next
    case go
    let ?t = "le32 cdata (src st)"
    let ?st = "st\<lparr>src := src st + 4, bmask := push_bit 1 ?t + 1\<rparr>"
    have s: "step_start careful cdata info st = Some (Cont careful (if nonneg ?t then Copy_byte else Pointer) ?st)"
      using go b rd32_le32 [of "src st" cdata] by (auto simp: step_start_def Let_def)
    have "\<not> careful \<Longrightarrow> room info ?st 32" "marker (bmask ?st) 0" "room info ?st 0"
      using go b marker_tag [of ?t] by (auto simp: room_def)
    then have "dinv cdata info careful (if nonneg ?t then Copy_byte else Pointer) ?st"
      using assms by (auto simp: dinv_def room_def intro!: exI [of _ 0])
    moreover have "lz_step cdata (dst_stop info) Start (abs_state st)
        = LCont (if nonneg ?t then Copy_byte else Pointer) (abs_state ?st)"
      using go b by (simp add: abs_state_def)
    ultimately show ?thesis
      using s by simp
  qed
qed

lemma drop_mono: "drop k xs = drop k ys \<Longrightarrow> k \<le> n \<Longrightarrow> drop n xs = drop n ys"
  by (metis drop_drop le_add_diff_inverse2)

lemma copy_block_good:
  assumes "ofs + 1 \<le> d" "0 < n" "d + n \<le> length ob"
  shows "\<exists>ob'. COPY_BLOCK_SLOW ob d (d - (ofs + 1)) n = Some ob' \<and> length ob' = length ob
     \<and> drop (d + n) ob' = drop (d + n) ob \<and> take (d + n) ob' = lz_copy (take d ob) (ofs + 1) n"
  using copy_fwd_lz [of "d - (ofs + 1)" d n ob] assms by (simp add: COPY_BLOCK_SLOW_fwd)

text \<open>
  The copy of a match of at least three bytes; \<open>st\<close> is the state after the match has been read.
  Outcome and output are the specification's.
\<close>

definition lz_match :: "nat \<Rightarrow> nat \<Rightarrow> nat \<Rightarrow> lz \<Rightarrow> lzout" where
  "lz_match stop ofs len a =
     (if length (lout a) < ofs then LErr
      else if stop < length (lout a) + len then LOk (a\<lparr>lout := lz_copy (lout a) ofs (stop - length (lout a))\<rparr>)
      else LCont Next (a\<lparr>lout := lz_copy (lout a) ofs len\<rparr>))"

fun goodm :: "BYTE list \<Rightarrow> decode_info \<Rightarrow> dstate \<Rightarrow> lzout \<Rightarrow> outcome \<Rightarrow> bool" where
  "goodm cdata info st r (Cont c pc' st') \<longleftrightarrow>
     dinv cdata info c pc' st' \<and> length (obuf st') = length (obuf st)
     \<and> drop (dst_stop info) (obuf st') = drop (dst_stop info) (obuf st) \<and> r = LCont pc' (abs_state st')"
| "goodm cdata info st r (RetOk st') \<longleftrightarrow>
     length (obuf st') = length (obuf st) \<and> room info st' 0 \<and> dst st' = dst_stop info
     \<and> drop (dst_stop info) (obuf st') = drop (dst_stop info) (obuf st) \<and> r = LOk (abs_state st')"
| "goodm cdata info st r (RetOkEof st') \<longleftrightarrow> False"
| "goodm cdata info st r (RetErr st') \<longleftrightarrow> obuf st' = obuf st \<and> r = LErr"

lemma tail_good:
  assumes "dinv cdata info True Next st" "dst st < dst_stop info" "3 \<le> len"
  shows "\<exists>r. careful_copy_tail info ofs len st = Some r
    \<and> goodm cdata info st (lz_match (dst_stop info) (ofs + 1) len (abs_state st)) r"
proof (cases "dst st < ofs + 1")
  case True
  then show ?thesis
    using dinv_basic [OF assms(1)]
    by (auto simp: careful_copy_tail_def copy_rest_def lz_match_def abs_state_def)
next
  case False
  note b = dinv_basic [OF assms(1)]
  define n where "n = (if dst st + len > dst_stop info then dst_stop info - dst st else len)"
  have n: "0 < n" "dst st + n \<le> dst_stop info"
    using assms(2,3) by (auto simp: n_def)
  obtain ob' where ob': "COPY_BLOCK_SLOW (obuf st) (dst st) (dst st - (ofs + 1)) n = Some ob'"
    "length ob' = length (obuf st)" "drop (dst st + n) ob' = drop (dst st + n) (obuf st)"
    "take (dst st + n) ob' = lz_copy (take (dst st) (obuf st)) (ofs + 1) n"
    using copy_block_good [of ofs "dst st" n "obuf st"] False n b(2) by auto
  let ?st = "st\<lparr>dst := dst st + n, obuf := ob'\<rparr>"
  have inv: "dinv cdata info True Next ?st" "drop (dst_stop info) ob' = drop (dst_stop info) (obuf st)"
    using assms(1) n ob'(2) drop_mono [OF ob'(3) n(2)] by (auto simp: dinv_def room_def)
  have abs: "abs_state ?st = (abs_state st)\<lparr>lout := lz_copy (take (dst st) (obuf st)) (ofs + 1) n\<rparr>"
    using ob'(4) by (simp add: abs_state_def)
  show ?thesis
  proof (cases "dst st + len > dst_stop info")
    case True
    then have "careful_copy_tail info ofs len st = Some (RetOk ?st)" "dst ?st = dst_stop info"
      using False ob'(1) assms(2) by (simp_all add: careful_copy_tail_def n_def Let_def)
    moreover have "lz_match (dst_stop info) (ofs + 1) len (abs_state st) = LOk (abs_state ?st)"
      unfolding abs using True False b(5) by (simp add: lz_match_def n_def) (simp add: abs_state_def)
    ultimately show ?thesis
      using ob'(2) inv by (auto simp: dinv_def)
  next
    case l: False
    then have "careful_copy_tail info ofs len st = Some (Cont True Next ?st)"
      using False ob'(1) by (simp add: careful_copy_tail_def copy_rest_def n_def)
    moreover have "lz_match (dst_stop info) (ofs + 1) len (abs_state st) = LCont Next (abs_state ?st)"
      unfolding abs using l False b(5) by (simp add: lz_match_def n_def) (simp add: abs_state_def)
    ultimately show ?thesis
      using ob'(2) inv by auto
  qed
qed

lemma fast_good:
  assumes "dinv cdata info True Next st" "dst st + len < dst_careful info" "3 \<le> len"
    and "marker (bmask st) z" "src st + 7 * (31 - z) \<le> src_end info"
  shows "\<exists>r. copy_rest False ofs len st = Some r
    \<and> goodm cdata info st (lz_match (dst_stop info) (ofs + 1) len (abs_state st)) r"
proof (cases "dst st < ofs + 1")
  case True
  then show ?thesis
    using dinv_basic [OF assms(1)] by (auto simp: copy_rest_def lz_match_def abs_state_def)
next
  case False
  note b = dinv_basic [OF assms(1)]
  have c: "dst_careful info + 264 = dst_stop info"
    using assms(1,2) by (auto simp: dinv_def)
  obtain ob' where ob': "COPY_BLOCK_SLOW (obuf st) (dst st) (dst st - (ofs + 1)) len = Some ob'"
    "length ob' = length (obuf st)" "drop (dst st + len) ob' = drop (dst st + len) (obuf st)"
    "take (dst st + len) ob' = lz_copy (take (dst st) (obuf st)) (ofs + 1) len"
    using copy_block_good [of ofs "dst st" len "obuf st"] False assms(2,3) c b(2) by auto
  let ?st = "st\<lparr>dst := dst st + len, obuf := ob'\<rparr>"
  have "room info ?st (31 - z)" "room info ?st 0"
    using assms c by (auto simp: room_def)
  then have "dinv cdata info False Next ?st"
    using assms(1,4) ob'(2) by (auto simp: dinv_def)
  moreover have "drop (dst_stop info) ob' = drop (dst_stop info) (obuf st)"
    using drop_mono [OF ob'(3)] assms(2) c by simp
  moreover have "copy_rest False ofs len st = Some (Cont False Next ?st)"
    using False ob'(1) by (simp add: copy_rest_def)
  moreover have "lz_match (dst_stop info) (ofs + 1) len (abs_state st) = LCont Next (abs_state ?st)"
    using False b(5) assms(2) c ob'(4) by (simp add: lz_match_def abs_state_def)
  ultimately show ?thesis
    using ob'(2) by auto
qed

text \<open>A short match in the copy without checks: eight bytes are written, \<open>n\<close> of them count.\<close>

lemma short_good:
  assumes "dinv cdata info True Next st" "3 \<le> n" "n \<le> 8"
    and "marker (bmask st) z" "src st + 7 * (31 - z) \<le> src_end info" "dst st + 8 * (32 - z) \<le> dst_stop info"
  shows "\<exists>r. (if dst st < ofs + 1 then Some (RetErr st)
       else do { ob' \<leftarrow> COPY_8_BYTES (obuf st) (dst st) (dst st - (ofs + 1));
                 Some (Cont False Next (st\<lparr>dst := dst st + n, obuf := ob'\<rparr>)) }) = Some r
    \<and> goodm cdata info st (lz_match (dst_stop info) (ofs + 1) n (abs_state st)) r"
proof (cases "dst st < ofs + 1")
  case True
  then show ?thesis
    using dinv_basic [OF assms(1)] by (auto simp: lz_match_def abs_state_def)
next
  case False
  note b = dinv_basic [OF assms(1)]
  have d8: "dst st + 8 \<le> dst_stop info"
    using assms(4,6) by (auto simp: marker_def)
  obtain ob' where ob': "COPY_8_BYTES (obuf st) (dst st) (dst st - (ofs + 1)) = Some ob'"
    "length ob' = length (obuf st)" "drop (dst st + 8) ob' = drop (dst st + 8) (obuf st)"
    "take (dst st + 8) ob' = lz_copy (take (dst st) (obuf st)) (ofs + 1) 8"
    using copy_fwd_lz [of "dst st - (ofs + 1)" "dst st" 8 "obuf st"] False d8 b(2)
    by (auto simp: COPY_8_BYTES_def)
  have "take (dst st + n) ob' = take (dst st + n) (take (dst st + 8) ob')"
    using assms(3) by (simp add: min_absorb1)
  then have t: "take (dst st + n) ob' = lz_copy (take (dst st) (obuf st)) (ofs + 1) n"
    using take_lz_copy [of n 8 "take (dst st) (obuf st)" "ofs + 1"] assms(3) by (simp only: ob'(4) b(5))
  let ?st = "st\<lparr>dst := dst st + n, obuf := ob'\<rparr>"
  have "room info ?st (31 - z)" "room info ?st 0"
    using assms(1,3,4,5,6) d8 by (auto simp: room_def marker_def)
  then have "dinv cdata info False Next ?st"
    using assms(1,4) ob'(2) by (auto simp: dinv_def)
  moreover have "drop (dst_stop info) ob' = drop (dst_stop info) (obuf st)"
    using drop_mono [OF ob'(3)] d8 by simp
  moreover have "lz_match (dst_stop info) (ofs + 1) n (abs_state st) = LCont Next (abs_state ?st)"
    using False b(5) assms(3) d8 t by (simp add: lz_match_def abs_state_def)
  ultimately show ?thesis
    using ob'(1,2) False by auto
qed

lemma lz_pointer_match:
  assumes "length (lout a) < stop" "lsrc a + 1 < length cdata"
  shows "lz_pointer cdata stop a = (case lz_len cdata (le16 cdata (lsrc a) mod 8) (lptr a) (lsrc a + 2) of
      None \<Rightarrow> LErr
    | Some (len, p, i) \<Rightarrow> lz_match stop (le16 cdata (lsrc a) div 8 + 1) len (a\<lparr>lptr := p, lsrc := i\<rparr>))"
  using assms by (simp add: lz_pointer_def lz_match_def Let_def split: option.split)

lemma goodm_good:
  assumes "goodm cdata info st' (lz_step cdata (dst_stop info) Pointer (abs_state st)) r" "obuf st' = obuf st"
  shows "good cdata info careful Pointer st r"
  using assms by (cases r) auto

lemma pointer_good:
  assumes "dinv cdata info careful Pointer st"
  shows "\<exists>r. step_pointer careful cdata info st = Some r \<and> good cdata info careful Pointer st r"
proof -
  note b = dinv_basic [OF assms]
  let ?w = "le16 cdata (src st)"
  obtain z where z: "\<not> careful \<Longrightarrow> marker (bmask st) z \<and> room info st (32 - z)"
    using assms by (auto simp: dinv_def)
  consider (eof) "careful" "dst st \<ge> dst_stop info"
    | (err) "careful" "dst st < dst_stop info" "src st + 1 \<ge> src_end info"
    | (go) "dst st < dst_stop info" "src st + 1 < src_end info"
    using z b(3) by (force simp: room_def marker_def)
  then show ?thesis
  proof cases
    case eof
    then show ?thesis
      using b assms by (simp add: step_pointer_def lz_pointer_def abs_state_def dinv_def)
  next
    case err
    then show ?thesis
      using b by (simp add: step_pointer_def lz_pointer_def abs_state_def)
  next
    case go
    have spec: "lz_step cdata (dst_stop info) Pointer (abs_state st) =
      (case lz_len cdata (?w mod 8) (ptr st) (src st + 2) of None \<Rightarrow> LErr
       | Some (len, p, i) \<Rightarrow> lz_match (dst_stop info) (?w div 8 + 1) len (abs_state (st\<lparr>ptr := p, src := i\<rparr>)))"
      using go b lz_pointer_match [of "abs_state st" "dst_stop info" cdata]
      by (simp add: abs_state_def split: option.split)
    have step: "step_pointer careful cdata info st =
      (if \<not> careful \<and> ?w mod 8 \<le> 5
       then if dst st < ?w div 8 + 1 then Some (RetErr (st\<lparr>src := src st + 2\<rparr>))
            else do { ob' \<leftarrow> COPY_8_BYTES (obuf st) (dst st) (dst st - (?w div 8 + 1));
                      Some (Cont False Next (st\<lparr>src := src st + 2, dst := dst st + (?w mod 8 + 3), obuf := ob'\<rparr>)) }
       else do {
         r \<leftarrow> decode_len careful cdata info (?w mod 8) (st\<lparr>src := src st + 2\<rparr>);
         case r of Inl st \<Rightarrow> Some (RetErr st)
         | Inr (len, st) \<Rightarrow>
             if \<not> careful \<and> \<not> dst st + len \<ge> dst_careful info then copy_rest False (?w div 8) len st
             else careful_copy_tail info (?w div 8) len st })"
      using go b rd16_le16 [of "src st" cdata]
      by (auto simp: step_pointer_def Let_def xprs_consts intro!: bind_option_cong)
    have valid: "\<And>p. ptr st = Some p \<Longrightarrow> p < length cdata"
      using assms by (simp add: dinv_def)
    have fast: "marker (bmask st) z" "src st + 7 + 7 * (31 - z) \<le> src_end info"
        "dst st + 8 * (32 - z) \<le> dst_stop info" if "\<not> careful"
      using z [OF that] by (auto simp: room_def marker_def)
    show ?thesis
    proof (cases "\<not> careful \<and> ?w mod 8 \<le> 5")
      case True
      let ?st = "st\<lparr>src := src st + 2\<rparr>"
      have inv: "dinv cdata info True Next ?st"
        using assms go by (auto simp: dinv_def room_def)
      have "lz_len cdata (?w mod 8) (ptr st) (src st + 2) = Some (?w mod 8 + 3, ptr st, src st + 2)"
        using True by (auto simp: lz_len_def)
      then have l: "lz_step cdata (dst_stop info) Pointer (abs_state st)
          = lz_match (dst_stop info) (?w div 8 + 1) (?w mod 8 + 3) (abs_state ?st)"
        unfolding spec by (simp add: abs_state_def)
      have e: "step_pointer careful cdata info st = (if dst ?st < ?w div 8 + 1 then Some (RetErr ?st)
          else do { ob' \<leftarrow> COPY_8_BYTES (obuf ?st) (dst ?st) (dst ?st - (?w div 8 + 1));
                    Some (Cont False Next (?st\<lparr>dst := dst ?st + (?w mod 8 + 3), obuf := ob'\<rparr>)) })"
        unfolding step using True by simp
      have "marker (bmask ?st) z" "src ?st + 7 * (31 - z) \<le> src_end info" "dst ?st + 8 * (32 - z) \<le> dst_stop info"
          "3 \<le> ?w mod 8 + 3" "?w mod 8 + 3 \<le> 8"
        using fast True by auto
      from short_good [OF inv this(4,5,1,2,3), of "?w div 8"] obtain r where
        r: "step_pointer careful cdata info st = Some r"
          "goodm cdata info ?st (lz_match (dst_stop info) (?w div 8 + 1) (?w mod 8 + 3) (abs_state ?st)) r"
        unfolding e by blast
      then show ?thesis
        using goodm_good [of cdata info ?st st r careful] unfolding l by simp
    next
      case False
      let ?st = "st\<lparr>src := src st + 2\<rparr>"
      have d: "case lz_len cdata (?w mod 8) (ptr ?st) (src ?st) of
          None \<Rightarrow> \<exists>st'. decode_len careful cdata info (?w mod 8) ?st = Some (Inl st') \<and> obuf st' = obuf ?st
        | Some (n, p, i) \<Rightarrow> decode_len careful cdata info (?w mod 8) ?st = Some (Inr (n, ?st\<lparr>ptr := p, src := i\<rparr>))
            \<and> 3 \<le> n \<and> (\<forall>j. p = Some j \<longrightarrow> j < length cdata) \<and> i \<le> src ?st + 4
            \<and> (src ?st \<le> length cdata \<longrightarrow> i \<le> length cdata)"
        using fast b(1) valid by (intro decode_len_good) auto
      show ?thesis
      proof (cases "lz_len cdata (?w mod 8) (ptr st) (src st + 2)")
        case None
        then have "lz_step cdata (dst_stop info) Pointer (abs_state st) = LErr"
          unfolding spec None by simp
        then show ?thesis
          using None d False by (auto simp: step)
      next
        case (Some r)
        obtain n p i where r: "r = (n, p, i)"
          by (cases r)
        let ?s = "st\<lparr>ptr := p, src := i\<rparr>"
        have d': "decode_len careful cdata info (?w mod 8) ?st = Some (Inr (n, ?s))" "3 \<le> n"
          "\<forall>j. p = Some j \<longrightarrow> j < length cdata" "i \<le> src st + 6" "i \<le> length cdata"
          using d Some r go b(1) by auto
        have inv: "dinv cdata info True Next ?s"
          using assms d' b(1) by (auto simp: dinv_def room_def)
        have l: "lz_step cdata (dst_stop info) Pointer (abs_state st)
            = lz_match (dst_stop info) (?w div 8 + 1) n (abs_state ?s)"
          unfolding spec Some r by simp
        have s: "step_pointer careful cdata info st =
            (if \<not> careful \<and> \<not> dst st + n \<ge> dst_careful info then copy_rest False (?w div 8) n ?s
             else careful_copy_tail info (?w div 8) n ?s)"
          unfolding step using False d'(1) by auto
        have "\<exists>r. step_pointer careful cdata info st = Some r
            \<and> goodm cdata info ?s (lz_match (dst_stop info) (?w div 8 + 1) n (abs_state ?s)) r"
          unfolding s using fast_good [OF inv, of n z "?w div 8"] tail_good [OF inv, of n "?w div 8"] fast d' go
          by auto
        then show ?thesis
          using goodm_good [of cdata info ?s st _ careful] unfolding l by auto
      qed
    qed
  qed
qed

lemma step_good:
  assumes "dinv cdata info careful pc st"
  shows "\<exists>r. step cdata info careful pc st = Some r \<and> good cdata info careful pc st r"
proof (cases pc)
  case Copy_byte
  have i: "dinv cdata info True Next st" and "room info st 0"
    using assms by (auto simp: dinv_def)
  have "\<exists>z. marker (bmask st) z \<and> room info st (32 - z)" if "\<not> careful"
    using assms that Copy_byte by (auto simp: dinv_def intro!: exI [of _ 0])
  from literal_good [of cdata info st careful, OF i this] obtain r where
    r: "copy_literal careful cdata info st = Some r" "case r of
      Cont c pc' st' \<Rightarrow> dinv cdata info c pc' st' \<and> length (obuf st') = length (obuf st)
        \<and> drop (dst_stop info) (obuf st') = drop (dst_stop info) (obuf st)
        \<and> lz_literal cdata (dst_stop info) (abs_state st) = LCont pc' (abs_state st')
    | RetOk st' \<Rightarrow> st' = st \<and> dst st = dst_stop info \<and> lz_literal cdata (dst_stop info) (abs_state st) = LOk (abs_state st)
    | RetErr st' \<Rightarrow> st' = st \<and> lz_literal cdata (dst_stop info) (abs_state st) = LErr
    | _ \<Rightarrow> False"
    by blast
  then show ?thesis
    using Copy_byte \<open>room info st 0\<close> by (cases r) auto
qed (use assms next_good start_good pointer_good in auto)

section \<open>The whole decoder\<close>

lemma lz_run_step: "lz_step cdata stop pc a = LCont pc' a' \<Longrightarrow> lz_run cdata stop pc a = lz_run cdata stop pc' a'"
  by (subst lz_run.simps) simp

lemma lz_run_done: "(\<And>pc' a'. lz_step cdata stop pc a \<noteq> LCont pc' a') \<Longrightarrow> lz_run cdata stop pc a = lz_step cdata stop pc a"
  by (subst lz_run.simps) (simp split: lzout.split)

definition finished :: "BYTE list \<Rightarrow> decode_info \<Rightarrow> dstate \<Rightarrow> lzout \<Rightarrow> outcome \<Rightarrow> bool" where
  "finished cdata info st l r \<longleftrightarrow> (case r of
      Cont c pc' st' \<Rightarrow> False
    | RetErr st' \<Rightarrow> l = LErr \<and> length (obuf st') = length (obuf st)
        \<and> drop (dst_stop info) (obuf st') = drop (dst_stop info) (obuf st)
    | RetOk st' \<Rightarrow> l = LOk (abs_state st') \<and> length (obuf st') = length (obuf st)
        \<and> drop (dst_stop info) (obuf st') = drop (dst_stop info) (obuf st)
        \<and> dst st' = dst_stop info \<and> src st' \<le> src_end info
    | RetOkEof st' \<Rightarrow> l = LOkEof (abs_state st') \<and> length (obuf st') = length (obuf st)
        \<and> drop (dst_stop info) (obuf st') = drop (dst_stop info) (obuf st)
        \<and> dst st' = dst_stop info \<and> src st' \<le> src_end info)"

lemma do_decode_good:
  "dinv cdata info careful pc st \<Longrightarrow>
   \<exists>r. do_decode cdata info careful pc st = Some r
     \<and> finished cdata info st (lz_run cdata (dst_stop info) pc (abs_state st)) r"
proof (induction cdata info careful pc st rule: do_decode.induct)
  case (1 cdata info careful pc st)
  obtain r where r: "step cdata info careful pc st = Some r" "good cdata info careful pc st r"
    using step_good [OF "1.prems"] by blast
  show ?case
  proof (cases r)
    case (Cont c pc' st')
    then obtain r' where r': "do_decode cdata info c pc' st' = Some r'"
      "finished cdata info st' (lz_run cdata (dst_stop info) pc' (abs_state st')) r'"
      using "1.IH" [OF r(1)] r by auto
    have "lz_run cdata (dst_stop info) pc (abs_state st) = lz_run cdata (dst_stop info) pc' (abs_state st')"
      using r(2) Cont lz_run_step by auto
    moreover have "do_decode cdata info careful pc st = Some r'"
      using r(1) Cont r'(1) by (subst do_decode.simps) simp
    ultimately show ?thesis
      using r(2) r'(2) Cont by (auto simp: finished_def split: outcome.splits)
  next
    case (RetOk st')
    then show ?thesis
      using r lz_run_done [of cdata "dst_stop info" pc "abs_state st"]
      by (subst do_decode.simps) (simp add: finished_def room_def)
  next
    case (RetOkEof st')
    then show ?thesis
      using r lz_run_done [of cdata "dst_stop info" pc "abs_state st"]
      by (subst do_decode.simps) (simp add: finished_def room_def)
  next
    case (RetErr st')
    then show ?thesis
      using r lz_run_done [of cdata "dst_stop info" pc "abs_state st"]
      by (subst do_decode.simps) (simp add: finished_def)
  qed
qed

text \<open>What a block decodes to: nothing when it is corrupt or, decoded to its end, has no end mark.\<close>

definition lz_decode :: "BYTE list \<Rightarrow> nat \<Rightarrow> nat \<Rightarrow> BYTE list option" where
  "lz_decode cdata orig_size decode_size =
     (case lz_run cdata decode_size Start lz_start of
        LOk a \<Rightarrow> if decode_size = orig_size then None else Some (lout a)
      | LOkEof a \<Rightarrow> Some (lout a)
      | _ \<Rightarrow> None)"

lemma start_dinv:
  assumes "decode_size \<le> length orig"
  shows "dinv cdata (make_info orig_size decode_size (length cdata)) False Start (start_state orig)"
  using assms by (auto simp: dinv_def make_info_def start_state_def room_def xprs_consts)

definition valid_sizes :: "int \<Rightarrow> int \<Rightarrow> int \<Rightarrow> bool" where
  "valid_sizes orig_size decode_size comp_size \<longleftrightarrow>
     8 < orig_size \<and> orig_size \<le> 65536 \<and> 8 \<le> comp_size \<and> comp_size < orig_size
     \<and> 0 < decode_size \<and> decode_size \<le> orig_size"

lemma XpressDecode_correct:
  assumes "valid_sizes orig_size decode_size (int (length cdata))" "nat decode_size \<le> length orig"
  shows "case lz_decode cdata (nat orig_size) (nat decode_size) of
      Some xs \<Rightarrow> length xs = nat decode_size
        \<and> XpressDecode orig orig_size decode_size cdata (int (length cdata))
            = Some (decode_size, xs @ drop (nat decode_size) orig)
    | None \<Rightarrow> \<exists>out. XpressDecode orig orig_size decode_size cdata (int (length cdata)) = Some (- 1, out)
        \<and> length out = length orig \<and> drop (nat decode_size) out = drop (nat decode_size) orig"
proof -
  define info where "info = make_info (nat orig_size) (nat decode_size) (length cdata)"
  have stop: "dst_stop info = nat decode_size" "dst_end info = nat orig_size" "src_end info = length cdata"
    by (simp_all add: info_def make_info_def)
  obtain r where r: "do_decode cdata info False Start (start_state orig) = Some r"
    "finished cdata info (start_state orig) (lz_run cdata (dst_stop info) Start (abs_state (start_state orig))) r"
    using do_decode_good [OF start_dinv [OF assms(2)]] unfolding info_def by blast
  have start: "abs_state (start_state orig) = lz_start" "obuf (start_state orig) = orig"
    by (simp_all add: abs_state_def start_state_def lz_start_def)
  have x: "XpressDecode orig orig_size decode_size cdata (int (length cdata)) =
    (let check = (\<lambda>eof st. if dst st > dst_stop info \<or> src st > src_end info
                    \<or> (dst_stop info = dst_end info \<and> \<not> eof) then - 1 else decode_size)
     in case r of RetErr st \<Rightarrow> Some (- 1, obuf st)
        | RetOk st \<Rightarrow> Some (check False st, obuf st)
        | RetOkEof st \<Rightarrow> Some (check (dst st = dst_end info) st, obuf st)
        | Cont c pc st \<Rightarrow> None)"
    using assms(1) r(1) by (simp add: XpressDecode_def valid_sizes_def xprs_consts flip: info_def)
  have whole: "obuf st = take (nat decode_size) (obuf st) @ drop (nat decode_size) orig"
    if "drop (nat decode_size) (obuf st) = drop (nat decode_size) orig" for st
    using append_take_drop_id [of "nat decode_size" "obuf st"] that by simp
  have z: "nat decode_size = nat orig_size \<longleftrightarrow> decode_size = orig_size"
    using assms(1) by (auto simp: valid_sizes_def)
  note fin = r(2) [unfolded start(1) stop(1)]
  have lout: "lout (abs_state st) = take (dst st) (obuf st)" for st
    by (simp add: abs_state_def)
  show ?thesis
  proof (cases r)
    case (RetOk st)
    then show ?thesis
      using fin assms(2) whole [of st]
      by (auto simp: x finished_def stop start(2) lout lz_decode_def Let_def)
  next
    case (RetOkEof st)
    then show ?thesis
      using fin assms(2) whole [of st]
      by (auto simp: x finished_def stop start(2) lout lz_decode_def Let_def)
  next
    case (RetErr st)
    then show ?thesis
      using fin by (auto simp: x finished_def stop start(2) lz_decode_def)
  next
    case (Cont c pc st)
    then show ?thesis
      using r(2) by (simp add: finished_def)
  qed
qed

section \<open>Decoding a prefix\<close>

definition lz_result :: "lzout \<Rightarrow> BYTE list option" where
  "lz_result r = (case r of LOk a \<Rightarrow> Some (lout a) | LOkEof a \<Rightarrow> Some (lout a) | _ \<Rightarrow> None)"

lemma lz_copy_prefix: "take (length acc) (lz_copy acc k n) = acc"
  using take_lz_copy [of 0 n acc k] by simp

lemma lz_step_extends:
  assumes "lz_step cdata stop pc a = r"
  shows "case r of LErr \<Rightarrow> True
    | LCont pc' a' \<Rightarrow> take (length (lout a)) (lout a') = lout a \<and> length (lout a) \<le> length (lout a')
    | LOk a' \<Rightarrow> take (length (lout a)) (lout a') = lout a \<and> length (lout a) \<le> length (lout a')
    | LOkEof a' \<Rightarrow> take (length (lout a)) (lout a') = lout a \<and> length (lout a) \<le> length (lout a')"
  using assms
  by (cases pc) (auto simp: lz_literal_def lz_pointer_def Let_def lz_copy_prefix split: lzout.splits option.splits if_splits)

lemma lz_run_extends:
  "lz_result (lz_run cdata stop pc a) = Some xs \<Longrightarrow> take (length (lout a)) xs = lout a"
proof (induction cdata stop pc a rule: lz_run.induct)
  case (1 cdata stop pc a)
  note e = lz_step_extends [of cdata stop pc a, OF refl]
  show ?case
  proof (cases "lz_step cdata stop pc a")
    case (LCont pc' a')
    then have "take (length (lout a')) xs = lout a'"
      using 1 by (simp add: lz_run_step)
    moreover have "take (length (lout a)) xs = take (length (lout a)) (take (length (lout a')) xs)"
      using e LCont by (simp add: min_absorb1)
    ultimately show ?thesis
      using e LCont by simp
  qed (use e 1 in \<open>auto simp: lz_run_done lz_result_def\<close>)
qed

lemma lz_step_stop:
  assumes "stop \<le> stop'" "length (lout a) \<le> stop"
  shows "lz_step cdata stop' pc a = LCont pc' a' \<Longrightarrow>
      length (lout a') \<le> stop \<and> lz_step cdata stop pc a = LCont pc' a'
      \<or> stop \<le> length (lout a') \<and> lz_result (lz_run cdata stop pc a) = Some (take stop (lout a'))"
    and "lz_result (lz_step cdata stop' pc a) = Some xs \<Longrightarrow> lz_result (lz_run cdata stop pc a) = Some (take stop xs)"
proof -
  have c: "take stop (lz_copy (lout a) k n) = lz_copy (lout a) k (stop - length (lout a))"
    if "stop \<le> length (lout a) + n" for k n
    using take_lz_copy [of "stop - length (lout a)" n "lout a" k] assms(2) that by simp
  have run: "lz_result (lz_run cdata stop pc a) = lz_result (lz_step cdata stop pc a)"
    if "lz_result (lz_step cdata stop pc a) \<noteq> None"
    using that by (subst lz_run_done) (auto simp: lz_result_def)
  have "lz_step cdata stop' pc a = LCont pc' a' \<Longrightarrow>
      length (lout a') \<le> stop \<and> lz_step cdata stop pc a = LCont pc' a'
      \<or> stop \<le> length (lout a') \<and> lz_result (lz_step cdata stop pc a) = Some (take stop (lout a'))"
    using assms
    by (cases pc) (auto simp: lz_literal_def lz_pointer_def Let_def c not_le lz_copy_prefix lz_result_def
        split: option.splits if_splits)
  then show "lz_step cdata stop' pc a = LCont pc' a' \<Longrightarrow>
      length (lout a') \<le> stop \<and> lz_step cdata stop pc a = LCont pc' a'
      \<or> stop \<le> length (lout a') \<and> lz_result (lz_run cdata stop pc a) = Some (take stop (lout a'))"
    using run by auto
  have "lz_result (lz_step cdata stop' pc a) = Some xs \<Longrightarrow> lz_result (lz_step cdata stop pc a) = Some (take stop xs)"
    using assms
    by (cases pc) (auto simp: lz_literal_def lz_pointer_def Let_def c not_le lz_copy_prefix lz_result_def
        split: option.splits if_splits)
  then show "lz_result (lz_step cdata stop' pc a) = Some xs \<Longrightarrow> lz_result (lz_run cdata stop pc a) = Some (take stop xs)"
    using run by auto
qed

lemma lz_run_prefix:
  "stop \<le> stop' \<Longrightarrow> length (lout a) \<le> stop \<Longrightarrow> lz_result (lz_run cdata stop' pc a) = Some xs
   \<Longrightarrow> lz_result (lz_run cdata stop pc a) = Some (take stop xs)"
proof (induction cdata stop' pc a rule: lz_run.induct)
  case (1 cdata stop' pc a)
  show ?case
  proof (cases "\<exists>pc' a'. lz_step cdata stop' pc a = LCont pc' a'")
    case True
    then obtain pc' a' where s: "lz_step cdata stop' pc a = LCont pc' a'"
      by blast
    then have xs: "lz_result (lz_run cdata stop' pc' a') = Some xs"
      using "1.prems"(3) by (simp add: lz_run_step)
    from lz_step_stop(1) [OF "1.prems"(1,2) s] show ?thesis
    proof (elim disjE conjE)
      assume "length (lout a') \<le> stop" "lz_step cdata stop pc a = LCont pc' a'"
      then show ?thesis
        using "1.IH" [OF s] "1.prems"(1) xs by (simp add: lz_run_step)
    next
      assume l: "stop \<le> length (lout a')" "lz_result (lz_run cdata stop pc a) = Some (take stop (lout a'))"
      have "take stop xs = take stop (take (length (lout a')) xs)"
        using l(1) by (simp add: min_absorb1)
      with l(2) show ?thesis
        by (simp add: lz_run_extends [OF xs])
    qed
  next
    case False
    then show ?thesis
      using "1.prems" lz_step_stop(2) [OF "1.prems"(1,2)] by (simp add: lz_run_done)
  qed
qed

lemma lz_decode_prefix:
  assumes "lz_decode cdata orig_size orig_size = Some xs" "n < orig_size"
  shows "lz_decode cdata orig_size n = Some (take n xs)"
proof -
  have "lz_result (lz_run cdata orig_size Start lz_start) = Some xs"
    using assms(1) by (auto simp: lz_decode_def lz_result_def split: lzout.splits)
  then have "lz_result (lz_run cdata n Start lz_start) = Some (take n xs)"
    using assms(2) by (intro lz_run_prefix [of n orig_size]) (auto simp: lz_start_def)
  then show ?thesis
    using assms(2) by (auto simp: lz_decode_def lz_result_def split: lzout.splits)
qed

section \<open>Properties\<close>

lemma XpressDecode_trivial:
  "\<not> valid_sizes orig_size decode_size comp_size \<Longrightarrow> decode_size \<le> orig_size \<Longrightarrow>
   XpressDecode orig orig_size decode_size cdata comp_size
     = Some (if comp_size = orig_size \<or> decode_size = 0 then decode_size else - 1, orig)"
  by (auto simp: XpressDecode_def valid_sizes_def xprs_consts)

lemma XpressDecode_returns:
  assumes "decode_size \<le> orig_size" "nat decode_size \<le> length orig"
  shows "\<exists>r out. XpressDecode orig orig_size decode_size cdata (int (length cdata)) = Some (r, out)
    \<and> (r = decode_size \<or> r = - 1) \<and> length out = length orig
    \<and> drop (nat decode_size) out = drop (nat decode_size) orig"
proof (cases "valid_sizes orig_size decode_size (int (length cdata))")
  case True
  then show ?thesis
    using XpressDecode_correct [OF True assms(2)] assms(2) by (auto split: option.splits)
next
  case False
  then show ?thesis
    using assms(1) by (simp add: XpressDecode_trivial)
qed

lemma XpressDecode_clamp:
  "XpressDecode orig orig_size decode_size cdata comp_size = XpressDecode orig orig_size (min decode_size orig_size) cdata comp_size"
  by (simp add: XpressDecode_def min_def)

text \<open>
  C2: whatever the compressed bytes and the two sizes, \<open>decode_size\<close> above \<open>orig_size\<close> included, with an output buffer of at least the smaller of the
  sizes, \<open>XpressDecode\<close> returns, reads inside the compressed bytes only, writes inside the first \<open>min decode_size orig_size\<close> bytes of the buffer
  only, and its value is \<open>min decode_size orig_size\<close> or \<open>-1\<close>.
\<close>

theorem XpressDecode_memory_safe:
  assumes "nat (min decode_size orig_size) \<le> length orig"
  shows "\<exists>r out. XpressDecode orig orig_size decode_size cdata (int (length cdata)) = Some (r, out)
    \<and> (r = min decode_size orig_size \<or> r = - 1) \<and> length out = length orig
    \<and> drop (nat (min decode_size orig_size)) out = drop (nat (min decode_size orig_size)) orig"
  using XpressDecode_returns [OF min.cobounded2 assms, of cdata] unfolding XpressDecode_clamp [of orig orig_size decode_size] .

theorem XpressDecode_memory_safe_witness:
  "\<exists>r out. XpressDecode (replicate 20 0) 16 99 [0xFF, 0xFF, 0xFF, 0xFF, 0xFF, 0xFF, 0xFF, 0xFF, 0xFF, 0xFF]
      (int (length [0xFF, 0xFF, 0xFF, 0xFF, 0xFF, 0xFF, 0xFF, 0xFF, 0xFF, 0xFF :: BYTE])) = Some (r, out)
    \<and> (r = min 99 16 \<or> r = - 1) \<and> length out = length (replicate 20 (0 :: BYTE))
    \<and> drop (nat (min 99 16)) out = drop (nat (min 99 16)) (replicate 20 0)"
  by (rule XpressDecode_memory_safe) simp

text \<open>
  C3: on every block of valid sizes the decoder, with its copy without bounds checks, returns what
  the list-based decoder specifies: the decoded bytes, or \<open>-1\<close> exactly when there are none.
\<close>

theorem XpressDecode_refines_spec:
  assumes "valid_sizes orig_size decode_size (int (length cdata))" "nat decode_size \<le> length orig"
  shows "map_option (\<lambda>(r, out). (r, take (nat r) out)) (XpressDecode orig orig_size decode_size cdata (int (length cdata)))
    = Some (case lz_decode cdata (nat orig_size) (nat decode_size) of None \<Rightarrow> (- 1, []) | Some xs \<Rightarrow> (decode_size, xs))"
  using XpressDecode_correct [OF assms] by (auto split: option.splits)

definition sample :: "BYTE list" where
  "sample = [0xFF, 0xFF, 0xFF, 0x7F, 0x61, 0x07, 0x00, 0x05]"

lemma lz_copy_run: "lz_copy (replicate (Suc m) b) 1 n = replicate (Suc m + n) b"
proof (induction n arbitrary: m)
  case (Suc n)
  have "replicate (Suc m) b @ [replicate (Suc m) b ! (length (replicate (Suc m) b) - 1)] = replicate (Suc (Suc m)) b"
    by (simp add: replicate_append_same del: replicate_Suc) simp
  then show ?case
    using Suc [of "Suc m"] by (simp only: lz_copy.simps add_Suc_right add_Suc)
qed simp

lemmas lz_eval = lz_run.simps [of _ _ Start] lz_run.simps [of _ _ Copy_byte] lz_run.simps [of _ _ Next]
  lz_run.simps [of _ _ Pointer] lz_literal_def lz_pointer_def lz_len_def le16_def le32_def nonneg_def

lemma sample_lz: "lz_decode sample 16 16 = Some (replicate 16 0x61)"
proof -
  have c: "lz_copy [0x61] (Suc 0) 15 = replicate 16 0x61"
    using lz_copy_run [of 0 "0x61" 15] by simp
  show ?thesis
    by (simp add: lz_decode_def lz_start_def sample_def lz_eval c)
qed

theorem XpressDecode_refines_spec_witness:
  "map_option (\<lambda>(r, out). (r, take (nat r) out)) (XpressDecode (replicate 20 0) 16 16 sample 8)
    = Some (16, replicate 16 0x61)"
proof -
  have "valid_sizes 16 16 (int (length sample))"
    by (simp add: valid_sizes_def sample_def)
  moreover have "lz_decode sample (nat 16) (nat 16) = Some (replicate 16 0x61)"
    using sample_lz by simp
  ultimately show ?thesis
    using XpressDecode_refines_spec [of 16 16 sample "replicate 20 0"] by (simp add: sample_def)
qed

text \<open>
  When a block decodes completely, decoding any shorter length gives the corresponding prefix,
  and the rest of the buffer is left alone.
\<close>

theorem XpressDecode_prefix:
  assumes "XpressDecode orig n n cdata (int (length cdata)) = Some (n, out)" "valid_sizes n n (int (length cdata))"
    and "n \<le> int (length orig)" "0 < k" "k < n" "nat k \<le> length orig'"
  shows "XpressDecode orig' n k cdata (int (length cdata)) = Some (k, take (nat k) out @ drop (nat k) orig')"
proof -
  have "nat n \<le> length orig"
    using assms(3) by simp
  then obtain xs where xs: "lz_decode cdata (nat n) (nat n) = Some xs" "length xs = nat n" "out = xs @ drop (nat n) orig"
    using XpressDecode_correct [OF assms(2), of orig] assms(1,2)
    by (auto simp: valid_sizes_def split: option.splits)
  have "lz_decode cdata (nat n) (nat k) = Some (take (nat k) xs)"
    using lz_decode_prefix [OF xs(1), of "nat k"] assms(4,5) by simp
  moreover have "valid_sizes n k (int (length cdata))"
    using assms(2,4,5) by (auto simp: valid_sizes_def)
  ultimately show ?thesis
    using XpressDecode_correct [of n k cdata orig'] assms(5,6) xs(2,3) by auto
qed

theorem XpressDecode_prefix_witness:
  "XpressDecode [0, 0, 0, 0, 0, 9] 16 5 sample (int (length sample)) = Some (5, take (nat 5) (replicate 16 0x61) @ drop (nat 5) [0, 0, 0, 0, 0, 9])"
proof (rule XpressDecode_prefix)
  have "valid_sizes 16 16 (int (length sample))"
    by (simp add: valid_sizes_def sample_def)
  from XpressDecode_correct [OF this, of "replicate 16 0"]
  show "XpressDecode (replicate 16 0) 16 16 sample (int (length sample)) = Some (16, replicate 16 0x61)"
    using sample_lz by simp
qed (simp_all add: valid_sizes_def sample_def)

lemma XpressDecode_equal_size: "XpressDecode orig n n cdata n = Some (n, orig)"
  by (simp add: XpressDecode_def)

end
