(* ===== verification/Ptr_Cache.thy ===== *)
theory Ptr_Cache
  imports Ese_Prelude "HOL-Library.Multiset"
begin

text \<open>
  The lock-free pointer caches of \<open>ms/collection.hxx\<close>: \<open>GetCachedPtr\<close>,
  \<open>FCachePtr\<close> and the class \<open>ObjectPool\<close> built on them. A pointer is a natural
  number, 0 the null pointer; \<open>OSSyncGetCurrentProcessor\<close> is an argument.

  One pass through a loop body is one atomic access to the array, so the bodies are shared by
  the sequential functions, whose loops are cut off by fuel that is proved sufficient, and by a
  step relation that interleaves any number of threads at these accesses.
\<close>

section \<open>Atomics\<close>

text \<open>Results are the value read and the array afterwards; \<open>None\<close> is an index outside it.\<close>

definition AtomicExchangePointer :: "nat list \<Rightarrow> nat \<Rightarrow> nat \<Rightarrow> (nat \<times> nat list) option" where
  "AtomicExchangePointer arr i v = do { old \<leftarrow> rd arr i; arr' \<leftarrow> wr arr i v; Some (old, arr') }"

definition AtomicCompareExchangePointer :: "nat list \<Rightarrow> nat \<Rightarrow> nat \<Rightarrow> nat \<Rightarrow> (nat \<times> nat list) option" where
  "AtomicCompareExchangePointer arr i initial final =
     do { old \<leftarrow> rd arr i; arr' \<leftarrow> (if old = initial then wr arr i final else Some arr); Some (old, arr') }"

section \<open>\<open>GetCachedPtr\<close> and \<open>FCachePtr\<close>\<close>

text \<open>What a loop body does next: return a value or go on at another index.\<close>

datatype 'r iter = Done 'r | Go nat

definition get_body :: "nat list \<Rightarrow> nat \<Rightarrow> nat \<Rightarrow> (nat list \<times> nat iter) option" where
  "get_body arr startIndex index =
     do { (ptr, arr') \<leftarrow> AtomicExchangePointer arr index 0;
          Some (arr', if 0 \<noteq> ptr then Done ptr
                      else (let index = (index + 1) mod length arr
                            in if startIndex \<noteq> index then Go index else Done 0)) }"

definition put_body :: "nat \<Rightarrow> nat list \<Rightarrow> nat \<Rightarrow> nat \<Rightarrow> (nat list \<times> bool iter) option" where
  "put_body ptr arr startIndex index =
     do { (old, arr') \<leftarrow> AtomicCompareExchangePointer arr index 0 ptr;
          Some (arr', if 0 = old then Done True
                      else (let index = (index + 1) mod length arr
                            in if startIndex \<noteq> index then Go index else Done False)) }"

fun get_loop :: "nat \<Rightarrow> nat list \<Rightarrow> nat \<Rightarrow> nat \<Rightarrow> (nat list \<times> nat) option" where
  "get_loop 0 arr startIndex index = None"
| "get_loop (Suc fuel) arr startIndex index =
     do { (arr', r) \<leftarrow> get_body arr startIndex index;
          case r of Done v \<Rightarrow> Some (arr', v) | Go i \<Rightarrow> get_loop fuel arr' startIndex i }"

fun put_loop :: "nat \<Rightarrow> nat \<Rightarrow> nat list \<Rightarrow> nat \<Rightarrow> nat \<Rightarrow> (nat list \<times> bool) option" where
  "put_loop 0 ptr arr startIndex index = None"
| "put_loop (Suc fuel) ptr arr startIndex index =
     do { (arr', r) \<leftarrow> put_body ptr arr startIndex index;
          case r of Done v \<Rightarrow> Some (arr', v) | Go i \<Rightarrow> put_loop fuel ptr arr' startIndex i }"

definition GetCachedPtr :: "nat \<Rightarrow> nat list \<Rightarrow> (nat list \<times> nat) option" where
  "GetCachedPtr processor arr =
     (let startIndex = processor mod length arr in get_loop (length arr) arr startIndex startIndex)"

definition FCachePtr :: "nat \<Rightarrow> nat \<Rightarrow> nat list \<Rightarrow> (nat list \<times> bool) option" where
  "FCachePtr processor ptr arr =
     (let startIndex = processor mod length arr in put_loop (length arr) ptr arr startIndex startIndex)"

section \<open>\<open>ObjectPool\<close>\<close>

text \<open>\<open>live\<close> are the objects that exist; \<open>new\<close> returns an address that is not one of them.\<close>

record ObjectPool =
  m_rgpobjects :: "nat list"
  m_cobjectsAllocated :: "32 word"
  m_cobjectsFreed :: "32 word"
  live :: "nat set"

definition ObjectPool_new :: "nat \<Rightarrow> ObjectPool" where
  "ObjectPool_new NumObjectsInPool =
     \<lparr>m_rgpobjects = replicate NumObjectsInPool 0, m_cobjectsAllocated = 0, m_cobjectsFreed = 0, live = {}\<rparr>"

text \<open>\<open>pobject\<close> is what \<open>new Object()\<close> returned.\<close>

definition NewObject :: "nat \<Rightarrow> ObjectPool \<Rightarrow> ObjectPool \<times> nat" where
  "NewObject pobject op =
     (if pobject \<noteq> 0
      then (op\<lparr>m_cobjectsAllocated := m_cobjectsAllocated op + 1, live := insert pobject (live op)\<rparr>, pobject)
      else (op, pobject))"

text \<open>Deleting an object that does not exist is undefined behaviour, \<open>None\<close>.\<close>

definition DeleteObject :: "nat \<Rightarrow> ObjectPool \<Rightarrow> ObjectPool option" where
  "DeleteObject pobject op =
     (if pobject = 0 then Some op
      else if pobject \<notin> live op then None
      else Some (op\<lparr>m_cobjectsFreed := m_cobjectsFreed op + 1, live := live op - {pobject}\<rparr>))"

definition Allocate :: "nat \<Rightarrow> nat \<Rightarrow> ObjectPool \<Rightarrow> (ObjectPool \<times> nat) option" where
  "Allocate processor pobject op =
     do { (arr, pt) \<leftarrow> GetCachedPtr processor (m_rgpobjects op);
          let op = op\<lparr>m_rgpobjects := arr\<rparr>
          in Some (if pt = 0 then NewObject pobject op else (op, pt)) }"

definition Free :: "nat \<Rightarrow> nat \<Rightarrow> ObjectPool \<Rightarrow> ObjectPool option" where
  "Free processor pobject op =
     do { (arr, cached) \<leftarrow> FCachePtr processor pobject (m_rgpobjects op);
          let op = op\<lparr>m_rgpobjects := arr\<rparr>
          in if \<not> cached then DeleteObject pobject op else Some op }"

fun free_entries :: "nat list \<Rightarrow> ObjectPool \<Rightarrow> ObjectPool option" where
  "free_entries [] op = Some op"
| "free_entries (p # ps) op = do { op' \<leftarrow> DeleteObject p op; free_entries ps op' }"

definition FreeAllEntries :: "ObjectPool \<Rightarrow> ObjectPool option" where
  "FreeAllEntries op = free_entries (m_rgpobjects op) op"

section \<open>Interleaving\<close>

text \<open>A thread is idle, inside one of the two loops, or holds a pointer it was given.\<close>

datatype thread = Idle | Getting nat nat | Putting nat nat nat | Holding nat | Missed

record csys =
  slots :: "nat list"
  threads :: "thread list"

text \<open>
  What a step does to the pointers as a whole: \<open>Created\<close> is the creation after a miss, of whatever non-null pointer the creator returns, be it the
  address of a new object or, as with \<open>XpressDecodeCreate\<close>, the same constant each time; \<open>Deleted\<close> is what the caller
  does when \<open>FCachePtr\<close> returns false.
\<close>

datatype cevent = Moved | Created nat | Deleted nat

inductive cstep :: "csys \<Rightarrow> cevent \<Rightarrow> csys \<Rightarrow> bool" where
  get_call: "threads s ! t = Idle \<Longrightarrow> t < length (threads s) \<Longrightarrow> start = processor mod length (slots s) \<Longrightarrow>
     cstep s Moved (s\<lparr>threads := (threads s)[t := Getting start start]\<rparr>)"
| get_iter: "threads s ! t = Getting start i \<Longrightarrow> t < length (threads s) \<Longrightarrow>
     get_body (slots s) start i = Some (arr, r) \<Longrightarrow>
     cstep s Moved (s\<lparr>slots := arr, threads := (threads s)[t := (case r of Go j \<Rightarrow> Getting start j
        | Done p \<Rightarrow> if p = 0 then Missed else Holding p)]\<rparr>)"
| create: "threads s ! t = Missed \<Longrightarrow> t < length (threads s) \<Longrightarrow> p \<noteq> 0 \<Longrightarrow>
     cstep s (Created p) (s\<lparr>threads := (threads s)[t := Holding p]\<rparr>)"
| create_fails: "threads s ! t = Missed \<Longrightarrow> t < length (threads s) \<Longrightarrow>
     cstep s Moved (s\<lparr>threads := (threads s)[t := Idle]\<rparr>)"
| put_call: "threads s ! t = Holding p \<Longrightarrow> t < length (threads s) \<Longrightarrow> start = processor mod length (slots s) \<Longrightarrow>
     cstep s Moved (s\<lparr>threads := (threads s)[t := Putting p start start]\<rparr>)"
| put_iter: "threads s ! t = Putting p start i \<Longrightarrow> t < length (threads s) \<Longrightarrow>
     put_body p (slots s) start i = Some (arr, r) \<Longrightarrow>
     cstep s (if r = Done False then Deleted p else Moved)
       (s\<lparr>slots := arr, threads := (threads s)[t := (case r of Go j \<Rightarrow> Putting p start j | Done _ \<Rightarrow> Idle)]\<rparr>)"

inductive creach :: "nat \<Rightarrow> nat \<Rightarrow> cevent list \<Rightarrow> csys \<Rightarrow> bool" for n k :: nat where
  init: "creach n k [] \<lparr>slots = replicate n 0, threads = replicate k Idle\<rparr>"
| step: "creach n k evs s \<Longrightarrow> cstep s ev s' \<Longrightarrow> creach n k (evs @ [ev]) s'"

definition created :: "cevent list \<Rightarrow> nat list" where
  "created evs = concat (map (\<lambda>ev. case ev of Created p \<Rightarrow> [p] | _ \<Rightarrow> []) evs)"

definition deleted :: "cevent list \<Rightarrow> nat list" where
  "deleted evs = concat (map (\<lambda>ev. case ev of Deleted p \<Rightarrow> [p] | _ \<Rightarrow> []) evs)"

fun held :: "thread \<Rightarrow> nat list" where
  "held (Holding p) = [p]"
| "held (Putting p start i) = [p]"
| "held _ = []"

definition owned :: "csys \<Rightarrow> nat list" where
  "owned s = filter (\<lambda>p. p \<noteq> 0) (slots s) @ concat (map held (threads s))"

section \<open>The loops\<close>

lemma get_body_Some:
  "get_body arr s i = Some (arr', r) \<longleftrightarrow> i < length arr \<and> arr' = arr[i := 0] \<and>
     r = (if arr ! i \<noteq> 0 then Done (arr ! i)
          else if (i + 1) mod length arr \<noteq> s then Go ((i + 1) mod length arr) else Done 0)"
  by (auto simp: get_body_def AtomicExchangePointer_def rd_def wr_def Let_def)

lemma put_body_Some:
  "put_body p arr s i = Some (arr', r) \<longleftrightarrow> i < length arr \<and> arr' = (if arr ! i = 0 then arr[i := p] else arr) \<and>
     r = (if arr ! i = 0 then Done True
          else if (i + 1) mod length arr \<noteq> s then Go ((i + 1) mod length arr) else Done False)"
  by (auto simp: put_body_def AtomicCompareExchangePointer_def rd_def wr_def Let_def)

text \<open>The indices in the order the loops visit them.\<close>

definition visit :: "nat \<Rightarrow> nat \<Rightarrow> nat list" where
  "visit start n = map (\<lambda>k. (start + k) mod n) [0..<n]"

lemma rotate_neq: "(s :: nat) < n \<Longrightarrow> 0 < k \<Longrightarrow> k < n \<Longrightarrow> (s + k) mod n \<noteq> s"
  by (cases "s + k < n") (auto simp: mod_if)

lemma rotate_wrap: "(s :: nat) < n \<Longrightarrow> (s + n) mod n = s"
  by simp

lemma rotate_next:
  assumes "s < n" "k < n"
  shows "((s + k) mod n + 1) mod n = (s + Suc k) mod n"
    and "(s + Suc k) mod n \<noteq> s \<longleftrightarrow> Suc k \<noteq> n"
proof -
  show "((s + k) mod n + 1) mod n = (s + Suc k) mod n"
    by (simp add: mod_simps)
  show "(s + Suc k) mod n \<noteq> s \<longleftrightarrow> Suc k \<noteq> n"
    using assms rotate_neq [of s n "Suc k"] rotate_wrap [of s n] by (cases "Suc k = n") (simp_all only:, simp_all)
qed

lemma get_loop_find:
  assumes "start < length arr" "k < length arr" "length arr - k \<le> fuel"
    and "\<And>j. j < k \<Longrightarrow> arr ! ((start + j) mod length arr) = 0"
  shows "get_loop fuel arr start ((start + k) mod length arr)
    = Some (case find (\<lambda>i. arr ! i \<noteq> 0) (map (\<lambda>k. (start + k) mod length arr) [k..<length arr]) of
              None \<Rightarrow> (arr, 0) | Some i \<Rightarrow> (arr[i := 0], arr ! i))"
  using assms(2-4)
proof (induction fuel arbitrary: k)
  case (Suc fuel)
  let ?i = "(start + k) mod length arr"
  have i: "?i < length arr"
    by (rule mod_less_divisor) (use assms(1) in linarith)
  have k: "[k..<length arr] = k # [Suc k..<length arr]"
    using Suc.prems(1) by (simp add: upt_conv_Cons)
  show ?case
  proof (cases "arr ! ?i = 0")
    case False
    then show ?thesis
      using i k by (simp add: get_body_Some [THEN iffD2])
  next
    case zero: True
    have upd: "arr[?i := 0] = arr"
      using zero by (metis list_update_id)
    show ?thesis
    proof (cases "Suc k = length arr")
      case True
      then have "get_body arr start ?i = Some (arr, Done 0)"
        using i zero upd rotate_next [OF assms(1) Suc.prems(1)] by (simp add: get_body_Some)
      then show ?thesis
        using True k zero by simp
    next
      case False
      then have b: "get_body arr start ?i = Some (arr, Go ((start + Suc k) mod length arr))"
        using i zero upd rotate_next [OF assms(1) Suc.prems(1)] by (simp add: get_body_Some)
      have "arr ! ((start + j) mod length arr) = 0" if "j < Suc k" for j
        using that zero Suc.prems(3) by (cases "j = k") auto
      then have "get_loop fuel arr start ((start + Suc k) mod length arr) = Some
          (case find (\<lambda>i. arr ! i \<noteq> 0) (map (\<lambda>k. (start + k) mod length arr) [Suc k..<length arr]) of
              None \<Rightarrow> (arr, 0) | Some i \<Rightarrow> (arr[i := 0], arr ! i))"
        using False Suc.prems by (intro Suc.IH) auto
      then show ?thesis
        using b k zero by simp
    qed
  qed
qed simp

lemma put_loop_find:
  assumes "start < length arr" "k < length arr" "length arr - k \<le> fuel"
    and "\<And>j. j < k \<Longrightarrow> arr ! ((start + j) mod length arr) \<noteq> 0"
  shows "put_loop fuel p arr start ((start + k) mod length arr)
    = Some (case find (\<lambda>i. arr ! i = 0) (map (\<lambda>k. (start + k) mod length arr) [k..<length arr]) of
              None \<Rightarrow> (arr, False) | Some i \<Rightarrow> (arr[i := p], True))"
  using assms(2-4)
proof (induction fuel arbitrary: k)
  case (Suc fuel)
  let ?i = "(start + k) mod length arr"
  have i: "?i < length arr"
    by (rule mod_less_divisor) (use assms(1) in linarith)
  have k: "[k..<length arr] = k # [Suc k..<length arr]"
    using Suc.prems(1) by (simp add: upt_conv_Cons)
  show ?case
  proof (cases "arr ! ?i = 0")
    case True
    then show ?thesis
      using i k by (simp add: put_body_Some [THEN iffD2])
  next
    case full: False
    show ?thesis
    proof (cases "Suc k = length arr")
      case True
      then have "put_body p arr start ?i = Some (arr, Done False)"
        using i full rotate_next [OF assms(1) Suc.prems(1)] by (simp add: put_body_Some)
      then show ?thesis
        using True k full by simp
    next
      case False
      then have b: "put_body p arr start ?i = Some (arr, Go ((start + Suc k) mod length arr))"
        using i full rotate_next [OF assms(1) Suc.prems(1)] by (simp add: put_body_Some)
      have "arr ! ((start + j) mod length arr) \<noteq> 0" if "j < Suc k" for j
        using that full Suc.prems(3) by (cases "j = k") auto
      then have "put_loop fuel p arr start ((start + Suc k) mod length arr) = Some
          (case find (\<lambda>i. arr ! i = 0) (map (\<lambda>k. (start + k) mod length arr) [Suc k..<length arr]) of
              None \<Rightarrow> (arr, False) | Some i \<Rightarrow> (arr[i := p], True))"
        using False Suc.prems by (intro Suc.IH) auto
      then show ?thesis
        using b k full by simp
    qed
  qed
qed simp

lemma GetCachedPtr_find:
  "arr \<noteq> [] \<Longrightarrow> GetCachedPtr processor arr =
    Some (case find (\<lambda>i. arr ! i \<noteq> 0) (visit (processor mod length arr) (length arr)) of
            None \<Rightarrow> (arr, 0) | Some i \<Rightarrow> (arr[i := 0], arr ! i))"
  using get_loop_find [of "processor mod length arr" arr 0 "length arr"] by (simp add: GetCachedPtr_def visit_def)

lemma FCachePtr_find:
  "arr \<noteq> [] \<Longrightarrow> FCachePtr processor p arr =
    Some (case find (\<lambda>i. arr ! i = 0) (visit (processor mod length arr) (length arr)) of
            None \<Rightarrow> (arr, False) | Some i \<Rightarrow> (arr[i := p], True))"
  using put_loop_find [of "processor mod length arr" arr 0 "length arr" p] by (simp add: FCachePtr_def visit_def)

lemma set_visit: "start < n \<Longrightarrow> set (visit start n) = {..<n}"
proof -
  assume s: "start < n"
  have "i \<in> set (visit start n)" if "i < n" for i
  proof -
    define k where "k = (i + n - start) mod n"
    have "(start + k) mod n = (start + (i + n - start)) mod n"
      by (simp add: k_def mod_simps)
    also have "\<dots> = i"
      using s that by simp
    finally have "(start + k) mod n = i" .
    moreover have "k < n"
      using s by (simp add: k_def)
    ultimately show ?thesis
      by (auto simp: visit_def intro!: image_eqI [of _ _ k])
  qed
  then show ?thesis
    using s by (auto simp: visit_def)
qed

text \<open>What the caller sees, whatever the processor.\<close>

lemma GetCachedPtr_cases:
  assumes "arr \<noteq> []"
  obtains (hit) i where "i < length arr" "arr ! i \<noteq> 0" "GetCachedPtr processor arr = Some (arr[i := 0], arr ! i)"
  | (miss) "set arr = {0}" "GetCachedPtr processor arr = Some (arr, 0)"
proof (cases "find (\<lambda>i. arr ! i \<noteq> 0) (visit (processor mod length arr) (length arr))")
  case None
  then have "\<forall>i<length arr. arr ! i = 0"
    using assms set_visit [of "processor mod length arr" "length arr"] by (auto simp: find_None_iff)
  then have "set arr = {0}"
    using assms by (metis in_set_conv_nth insertI1 list.set_cases subsetI subset_singletonD set_empty singleton_iff)
  then show ?thesis
    using None miss GetCachedPtr_find [OF assms, of processor] by simp
next
  case (Some i)
  then have "arr ! i \<noteq> 0" "i \<in> set (visit (processor mod length arr) (length arr))"
    by (auto simp: find_Some_iff)
  then show ?thesis
    using Some hit [of i] GetCachedPtr_find [OF assms, of processor] assms
      set_visit [of "processor mod length arr" "length arr"] by simp
qed

lemma FCachePtr_cases:
  assumes "arr \<noteq> []"
  obtains (stored) i where "i < length arr" "arr ! i = 0" "FCachePtr processor p arr = Some (arr[i := p], True)"
  | (full) "0 \<notin> set arr" "FCachePtr processor p arr = Some (arr, False)"
proof (cases "find (\<lambda>i. arr ! i = 0) (visit (processor mod length arr) (length arr))")
  case None
  then have "\<forall>i<length arr. arr ! i \<noteq> 0"
    using assms set_visit [of "processor mod length arr" "length arr"] by (auto simp: find_None_iff)
  then have "0 \<notin> set arr"
    by (auto simp: in_set_conv_nth)
  then show ?thesis
    using None full FCachePtr_find [OF assms, of processor p] by simp
next
  case (Some i)
  then have "arr ! i = 0" "i \<in> set (visit (processor mod length arr) (length arr))"
    by (auto simp: find_Some_iff)
  then show ?thesis
    using Some stored [of i] FCachePtr_find [OF assms, of processor p] assms
      set_visit [of "processor mod length arr" "length arr"] by simp
qed

section \<open>Interleaved threads\<close>

lemma mset_concat_update:
  "t < length ts \<Longrightarrow> mset (concat (map f (ts[t := x]))) + mset (f (ts ! t)) = mset (concat (map f ts)) + mset (f x)"
proof (induction ts arbitrary: t)
  case (Cons a ts)
  then show ?case
    by (cases t) (auto simp: ac_simps)
qed simp

lemma filter_concat: "filter P xs = concat (map (\<lambda>x. if P x then [x] else []) xs)"
  by (induction xs) auto

lemma mset_filter_update:
  "i < length xs \<Longrightarrow> mset (filter P (xs[i := v])) + (if P (xs ! i) then {#xs ! i#} else {#})
     = mset (filter P xs) + (if P v then {#v#} else {#})"
  using mset_concat_update [of i xs "\<lambda>x. if P x then [x] else []" v]
  by (simp only: filter_concat if_distrib [of mset] mset.simps cong: if_cong)

lemma owned_threads:
  "t < length (threads s) \<Longrightarrow> mset (owned (s\<lparr>threads := (threads s)[t := x]\<rparr>)) + mset (held (threads s ! t))
     = mset (owned s) + mset (held x)"
  using mset_concat_update [of t "threads s" held x] by (simp add: owned_def ac_simps)

lemma owned_slots:
  "i < length (slots s) \<Longrightarrow> mset (owned (s\<lparr>slots := (slots s)[i := v]\<rparr>)) + (if slots s ! i \<noteq> 0 then {#slots s ! i#} else {#})
     = mset (owned s) + (if v \<noteq> 0 then {#v#} else {#})"
  using mset_filter_update [of i "slots s" "\<lambda>p. p \<noteq> 0" v] by (simp add: owned_def ac_simps)

lemma distinct_count: "distinct xs \<longleftrightarrow> (\<forall>a. count (mset xs) a \<le> 1)"
proof
  assume "distinct xs"
  then show "\<forall>a. count (mset xs) a \<le> 1"
    by (simp add: distinct_count_atmost_1)
next
  show "\<forall>a. count (mset xs) a \<le> 1 \<Longrightarrow> distinct xs"
  proof (induction xs)
    case (Cons x xs)
    have c: "count (mset (x # xs)) a = (if a = x then 1 else 0) + count (mset xs) a" for a
      by simp
    have "count (mset xs) a \<le> 1" for a
      using Cons.prems c [of a] by (metis le_add2 le_trans)
    moreover have "count (mset xs) x = 0"
      using Cons.prems c [of x] by (metis One_nat_def add_le_same_cancel1 le_zero_eq)
    ultimately show ?case
      using Cons.IH
      by (simp add: count_eq_zero_iff)
  qed simp
qed

lemma distinct_mset_le: "mset xs \<subseteq># mset ys \<Longrightarrow> distinct ys \<Longrightarrow> distinct xs"
  unfolding distinct_count by (meson le_trans mset_subset_eq_count)

text \<open>Every atomic access moves a pointer between a slot and a thread, or drops or creates one.\<close>

lemma get_iter_owned:
  assumes "threads s ! t = Getting start i" "t < length (threads s)" "get_body (slots s) start i = Some (arr, r)"
  shows "mset (owned (s\<lparr>slots := arr, threads := (threads s)[t := (case r of Go j \<Rightarrow> Getting start j
        | Done p \<Rightarrow> if p = 0 then Missed else Holding p)]\<rparr>)) = mset (owned s)"
proof -
  let ?s = "s\<lparr>slots := (slots s)[i := 0]\<rparr>"
  have g: "i < length (slots s)" "arr = (slots s)[i := 0]"
      "r = (if slots s ! i \<noteq> 0 then Done (slots s ! i)
          else if (i + 1) mod length (slots s) \<noteq> start then Go ((i + 1) mod length (slots s)) else Done 0)"
    using assms(3) unfolding get_body_Some by auto
  show ?thesis
    using owned_slots [OF g(1), of 0] owned_threads [of t ?s "case r of Go j \<Rightarrow> Getting start j
        | Done p \<Rightarrow> if p = 0 then Missed else Holding p"] assms(1,2)
    by (cases "slots s ! i = 0") (auto simp: g(2,3))
qed

lemma put_iter_owned:
  assumes "threads s ! t = Putting p start i" "t < length (threads s)" "put_body p (slots s) start i = Some (arr, r)" "p \<noteq> 0"
  shows "mset (owned (s\<lparr>slots := arr, threads := (threads s)[t := (case r of Go j \<Rightarrow> Putting p start j | Done _ \<Rightarrow> Idle)]\<rparr>))
     + (if r = Done False then {#p#} else {#}) = mset (owned s)"
proof -
  let ?s = "s\<lparr>slots := (slots s)[i := p]\<rparr>"
  let ?x = "case r of Go j \<Rightarrow> Putting p start j | Done _ \<Rightarrow> Idle"
  have g: "i < length (slots s)" "arr = (if slots s ! i = 0 then (slots s)[i := p] else slots s)"
      "r = (if slots s ! i = 0 then Done True
          else if (i + 1) mod length (slots s) \<noteq> start then Go ((i + 1) mod length (slots s)) else Done False)"
    using assms(3) unfolding put_body_Some by auto
  show ?thesis
  proof (cases "slots s ! i = 0")
    case True
    then show ?thesis
      using owned_slots [OF g(1), of p] owned_threads [of t ?s ?x] assms(1,2,4) by (auto simp: g(2,3))
  next
    case False
    have "mset (owned (s\<lparr>threads := (threads s)[t := ?x]\<rparr>)) + {#p#} = mset (owned s) + mset (held ?x)"
      using owned_threads [of t s ?x] assms(1,2) by simp
    moreover have "s\<lparr>slots := arr, threads := (threads s)[t := ?x]\<rparr> = s\<lparr>threads := (threads s)[t := ?x]\<rparr>"
      using False by (simp add: g(2))
    ultimately show ?thesis
      using False by (auto simp: g(3))
  qed
qed

lemma held_iff: "p \<in> set (held x) \<longleftrightarrow> x = Holding p \<or> (\<exists>a b. x = Putting p a b)"
  by (cases x) auto

lemma cstep_owned:
  assumes "cstep s ev s'" "0 \<notin> set (owned s)"
  shows "mset (owned s') + mset (deleted [ev]) = mset (owned s) + mset (created [ev]) \<and> 0 \<notin> set (created [ev])"
  using assms(1)
proof (cases rule: cstep.cases)
  case (put_iter t p start i arr r)
  have "threads s ! t \<in> set (threads s)" "p \<in> set (held (threads s ! t))"
    using put_iter(3) nth_mem [OF put_iter(4)] by (simp_all add: held_iff)
  then have "p \<in> set (owned s)"
    by (auto simp: owned_def)
  then have "p \<noteq> 0"
    using assms(2) by metis
  then show ?thesis
    using put_iter_owned [of s t p start i arr r] put_iter by (auto simp: created_def deleted_def)
next
  case (get_iter t start i arr r)
  then show ?thesis
    using get_iter_owned [of s t start i arr r] by (simp_all add: created_def deleted_def)
next
  case (create t p)
  then show ?thesis
    using owned_threads [of t s "Holding p"] by (simp_all add: created_def deleted_def)
next
  case (create_fails t)
  then show ?thesis
    using owned_threads [of t s Idle] by (simp_all add: created_def deleted_def)
next
  case (get_call t start processor)
  then show ?thesis
    using owned_threads [of t s "Getting start start"] by (simp_all add: created_def deleted_def)
next
  case (put_call t p start processor)
  then show ?thesis
    using owned_threads [of t s "Putting p start start"] by (simp_all add: created_def deleted_def)
qed

lemma events_append: "created (evs @ evs') = created evs @ created evs'" "deleted (evs @ evs') = deleted evs @ deleted evs'"
  by (simp_all add: created_def deleted_def)

lemma creach_owned: "creach n k evs s \<Longrightarrow> mset (created evs) = mset (owned s) + mset (deleted evs) \<and> 0 \<notin> set (created evs)"
proof (induction rule: creach.induct)
  case init
  then show ?case
    by (simp add: owned_def created_def deleted_def)
next
  case (step evs s ev s')
  have "0 \<notin> set (owned s)"
    using step.IH by (metis set_mset_mset union_iff)
  from cstep_owned [OF step.hyps(2) this] show ?case
    using step.IH by (simp add: events_append)
qed

text \<open>
  C23: under every interleaving of threads taking pointers from the array and putting them back, the pointers in the slots and in the hands of threads
  are exactly the ones created and not deleted since, each as many times: none is lost, none is handed out or cached twice. So with a creator that never returns
  the same pointer twice, no pointer is in two slots, in a slot and in a thread's hands, or in the hands of two threads; with a constant handle,
  as many places hold it as creations have not been undone.
\<close>

theorem cached_pointer_has_one_owner:
  assumes "creach n k evs s"
  shows "mset (created evs) = mset (owned s) + mset (deleted evs) \<and> (distinct (created evs) \<longrightarrow> distinct (owned s))"
proof -
  have "mset (created evs) = mset (owned s) + mset (deleted evs)"
    using creach_owned [OF assms] by blast
  then show ?thesis
    using distinct_mset_le [of "owned s" "created evs"] by simp
qed

lemma creach_example:
  "creach 2 2 [Moved, Moved, Moved, Created 1, Moved, Moved, Moved, Created 1, Moved, Moved, Moved, Moved]
     \<lparr>slots = [1, 1], threads = [Idle, Idle]\<rparr>"
proof -
  have "creach 2 2 [] \<lparr>slots = [0, 0], threads = [Idle, Idle]\<rparr>"
    using creach.init [of 2 2] by (simp add: numeral_2_eq_2)
  from creach.step [OF this cstep.get_call [of _ 0 _ 1]]
  have "creach 2 2 [Moved] \<lparr>slots = [0, 0], threads = [Getting 1 1, Idle]\<rparr>" by simp
  from creach.step [OF this cstep.get_iter [of _ 0 1 1 "[0, 0]" "Go 0"]]
  have "creach 2 2 [Moved, Moved] \<lparr>slots = [0, 0], threads = [Getting 1 0, Idle]\<rparr>" by (simp add: get_body_Some)
  from creach.step [OF this cstep.get_iter [of _ 0 1 0 "[0, 0]" "Done 0"]]
  have "creach 2 2 [Moved, Moved, Moved] \<lparr>slots = [0, 0], threads = [Missed, Idle]\<rparr>" by (simp add: get_body_Some)
  from creach.step [OF this cstep.create [of _ 0 1]]
  have "creach 2 2 [Moved, Moved, Moved, Created 1] \<lparr>slots = [0, 0], threads = [Holding 1, Idle]\<rparr>" by simp
  from creach.step [OF this cstep.get_call [of _ 1 _ 0]]
  have "creach 2 2 [Moved, Moved, Moved, Created 1, Moved] \<lparr>slots = [0, 0], threads = [Holding 1, Getting 0 0]\<rparr>" by simp
  from creach.step [OF this cstep.get_iter [of _ 1 0 0 "[0, 0]" "Go 1"]]
  have "creach 2 2 [Moved, Moved, Moved, Created 1, Moved, Moved] \<lparr>slots = [0, 0], threads = [Holding 1, Getting 0 1]\<rparr>" by (simp add: get_body_Some)
  from creach.step [OF this cstep.get_iter [of _ 1 0 1 "[0, 0]" "Done 0"]]
  have "creach 2 2 [Moved, Moved, Moved, Created 1, Moved, Moved, Moved] \<lparr>slots = [0, 0], threads = [Holding 1, Missed]\<rparr>" by (simp add: get_body_Some)
  from creach.step [OF this cstep.create [of _ 1 1]]
  have "creach 2 2 [Moved, Moved, Moved, Created 1, Moved, Moved, Moved, Created 1] \<lparr>slots = [0, 0], threads = [Holding 1, Holding 1]\<rparr>" by simp
  from creach.step [OF this cstep.put_call [of _ 0 1 _ 1]]
  have "creach 2 2 [Moved, Moved, Moved, Created 1, Moved, Moved, Moved, Created 1, Moved] \<lparr>slots = [0, 0], threads = [Putting 1 1 1, Holding 1]\<rparr>" by simp
  from creach.step [OF this cstep.put_iter [of _ 0 1 1 1 "[0, 1]" "Done True"]]
  have "creach 2 2 [Moved, Moved, Moved, Created 1, Moved, Moved, Moved, Created 1, Moved, Moved] \<lparr>slots = [0, 1], threads = [Idle, Holding 1]\<rparr>" by (simp add: put_body_Some)
  from creach.step [OF this cstep.put_call [of _ 1 1 _ 0]]
  have "creach 2 2 [Moved, Moved, Moved, Created 1, Moved, Moved, Moved, Created 1, Moved, Moved, Moved] \<lparr>slots = [0, 1], threads = [Idle, Putting 1 0 0]\<rparr>" by simp
  from creach.step [OF this cstep.put_iter [of _ 1 1 0 0 "[1, 1]" "Done True"]]
  show ?thesis by (simp add: put_body_Some)
qed

theorem cached_pointer_has_one_owner_witness:
  "mset (created [Moved, Moved, Moved, Created 1, Moved, Moved, Moved, Created 1, Moved, Moved, Moved, Moved])
    = mset (owned \<lparr>slots = [1, 1], threads = [Idle, Idle]\<rparr>)
      + mset (deleted [Moved, Moved, Moved, Created 1, Moved, Moved, Moved, Created 1, Moved, Moved, Moved, Moved])"
  using cached_pointer_has_one_owner [OF creach_example] by blast

text \<open>
  \<open>GetCachedPtr\<close> and \<open>FCachePtr\<close> return on every array: the first takes a pointer
  from some slot, or the array is all null; the second stores the pointer in a null slot, or there
  is none and the array is unchanged.
\<close>

theorem cache_calls_return:
  assumes "arr \<noteq> []"
  shows "((\<exists>i<length arr. arr ! i \<noteq> 0 \<and> GetCachedPtr processor arr = Some (arr[i := 0], arr ! i))
         \<or> set arr = {0} \<and> GetCachedPtr processor arr = Some (arr, 0))
       \<and> ((\<exists>i<length arr. arr ! i = 0 \<and> FCachePtr processor p arr = Some (arr[i := p], True))
         \<or> 0 \<notin> set arr \<and> FCachePtr processor p arr = Some (arr, False))"
  by (rule GetCachedPtr_cases [OF assms, of processor]; rule FCachePtr_cases [OF assms, of processor p]) auto

theorem cache_calls_return_witness:
  "((\<exists>i<length [0, 7, 0 :: nat]. [0, 7, 0 :: nat] ! i \<noteq> 0
       \<and> GetCachedPtr 2 [0, 7, 0] = Some ([0, 7, 0][i := 0], [0, 7, 0] ! i))
     \<or> set [0, 7, 0 :: nat] = {0} \<and> GetCachedPtr 2 [0, 7, 0] = Some ([0, 7, 0], 0))
   \<and> ((\<exists>i<length [0, 7, 0 :: nat]. [0, 7, 0 :: nat] ! i = 0
       \<and> FCachePtr 4 5 [0, 7, 0] = Some ([0, 7, 0][i := 5], True))
     \<or> 0 \<notin> set [0, 7, 0 :: nat] \<and> FCachePtr 4 5 [0, 7, 0] = Some ([0, 7, 0], False))"
  using cache_calls_return [of "[0, 7, 0]" 2 5] cache_calls_return [of "[0, 7, 0]" 4 5] by blast

section \<open>The contract of a pointer cache\<close>

text \<open>What a client of the two calls relies on.\<close>

locale ptr_cache =
  fixes get :: "nat \<Rightarrow> nat list \<Rightarrow> (nat list \<times> nat) option"
    and put :: "nat \<Rightarrow> nat \<Rightarrow> nat list \<Rightarrow> (nat list \<times> bool) option"
  assumes get_law: "arr \<noteq> [] \<Longrightarrow>
      (\<exists>i<length arr. arr ! i \<noteq> 0 \<and> get processor arr = Some (arr[i := 0], arr ! i))
      \<or> set arr = {0} \<and> get processor arr = Some (arr, 0)"
    and put_law: "arr \<noteq> [] \<Longrightarrow>
      (\<exists>i<length arr. arr ! i = 0 \<and> put processor p arr = Some (arr[i := p], True))
      \<or> 0 \<notin> set arr \<and> put processor p arr = Some (arr, False)"
begin

lemma get_members:
  assumes "arr \<noteq> []"
  obtains arr' p where "get processor arr = Some (arr', p)" "length arr' = length arr"
    "set arr' \<subseteq> insert 0 (set arr)" "p \<in> insert 0 (set arr)"
proof (rule disjE [OF get_law [OF assms, of processor]])
  assume "\<exists>i<length arr. arr ! i \<noteq> 0 \<and> get processor arr = Some (arr[i := 0], arr ! i)"
  then obtain i where "i < length arr" "get processor arr = Some (arr[i := 0], arr ! i)"
    by blast
  then show thesis
    using that [of "arr[i := 0]" "arr ! i"] set_update_subset_insert [of arr i 0] by simp
next
  assume "set arr = {0} \<and> get processor arr = Some (arr, 0)"
  then show thesis
    using that [of arr 0] by simp
qed

lemma put_members:
  assumes "arr \<noteq> []"
  obtains arr' c where "put processor p arr = Some (arr', c)" "length arr' = length arr"
    "set arr' \<subseteq> insert p (set arr)"
proof (rule disjE [OF put_law [OF assms, of processor p]])
  assume "\<exists>i<length arr. arr ! i = 0 \<and> put processor p arr = Some (arr[i := p], True)"
  then obtain i where "i < length arr" "put processor p arr = Some (arr[i := p], True)"
    by blast
  then show thesis
    using that [of "arr[i := p]" True] set_update_subset_insert [of arr i p] by simp
next
  assume "0 \<notin> set arr \<and> put processor p arr = Some (arr, False)"
  then show thesis
    using that [of arr False] by auto
qed

text \<open>A pointer put back is found again.\<close>

lemma put_get:
  assumes "arr \<noteq> []" "p \<noteq> 0" "put processor p arr = Some (arr', True)"
  shows "\<exists>q arr''. get processor' arr' = Some (arr'', q) \<and> q \<noteq> 0"
proof -
  have "p \<in> set arr'"
    using put_law [OF assms(1), of processor p] assms(3) by (auto simp: set_update_memI)
  moreover from this have "arr' \<noteq> []"
    by auto
  ultimately show ?thesis
    using get_law [of arr' processor'] assms(2) by auto
qed

end

interpretation cache: ptr_cache GetCachedPtr FCachePtr
proof
  show "(\<exists>i<length arr. arr ! i \<noteq> 0 \<and> GetCachedPtr processor arr = Some (arr[i := 0], arr ! i))
      \<or> set arr = {0} \<and> GetCachedPtr processor arr = Some (arr, 0)" if "arr \<noteq> []" for arr processor
    by (rule GetCachedPtr_cases [OF that, of processor]) auto
  show "(\<exists>i<length arr. arr ! i = 0 \<and> FCachePtr processor p arr = Some (arr[i := p], True))
      \<or> 0 \<notin> set arr \<and> FCachePtr processor p arr = Some (arr, False)" if "arr \<noteq> []" for arr processor p
    by (rule FCachePtr_cases [OF that, of processor p]) auto
qed

section \<open>The object pool\<close>

text \<open>
  The pool with its clients: \<open>out\<close> are the objects clients hold. \<open>new\<close> returns null or an
  address that is not in use.
\<close>

inductive pool_reach :: "nat \<Rightarrow> ObjectPool \<Rightarrow> nat set \<Rightarrow> bool" for n :: nat where
  init: "pool_reach n (ObjectPool_new n) {}"
| alloc: "pool_reach n op out \<Longrightarrow> new \<notin> live op \<Longrightarrow> Allocate processor new op = Some (op', p) \<Longrightarrow>
     pool_reach n op' (if p = 0 then out else insert p out)"
| free: "pool_reach n op out \<Longrightarrow> p \<in> out \<Longrightarrow> Free processor p op = Some op' \<Longrightarrow> pool_reach n op' (out - {p})"

definition pool_inv :: "nat \<Rightarrow> ObjectPool \<Rightarrow> nat set \<Rightarrow> bool" where
  "pool_inv n op out \<longleftrightarrow> length (m_rgpobjects op) = n \<and> distinct (filter (\<lambda>p. p \<noteq> 0) (m_rgpobjects op))
     \<and> live op = out \<union> (set (m_rgpobjects op) - {0}) \<and> out \<inter> set (m_rgpobjects op) = {} \<and> 0 \<notin> out
     \<and> finite out \<and> m_cobjectsAllocated op - m_cobjectsFreed op = of_nat (card (live op))"

lemma nonnull_set: "set (filter (\<lambda>p. p \<noteq> 0) xs) = set xs - {0}"
  by auto

lemma pool_inv_take:
  assumes "pool_inv n op out" "i < length (m_rgpobjects op)" "m_rgpobjects op ! i \<noteq> 0"
  shows "pool_inv n (op\<lparr>m_rgpobjects := (m_rgpobjects op)[i := 0]\<rparr>) (insert (m_rgpobjects op ! i) out)"
proof -
  let ?a = "m_rgpobjects op" and ?p = "m_rgpobjects op ! i"
  have m: "add_mset ?p (mset (filter (\<lambda>p. p \<noteq> 0) (?a[i := 0]))) = mset (filter (\<lambda>p. p \<noteq> 0) ?a)"
    using mset_filter_update [of i ?a "\<lambda>p. p \<noteq> 0" 0] assms(2,3) by simp
  then have "mset (?p # filter (\<lambda>p. p \<noteq> 0) (?a[i := 0])) = mset (filter (\<lambda>p. p \<noteq> 0) ?a)"
    by simp
  moreover have "distinct (filter (\<lambda>p. p \<noteq> 0) ?a)"
    using assms(1) by (simp add: pool_inv_def)
  ultimately have d: "distinct (?p # filter (\<lambda>p. p \<noteq> 0) (?a[i := 0]))"
    and e: "set (?p # filter (\<lambda>p. p \<noteq> 0) (?a[i := 0])) = set (filter (\<lambda>p. p \<noteq> 0) ?a)"
    by (metis mset_eq_imp_distinct_iff, metis mset_eq_setD)
  have p: "?p \<in> set ?a"
    using assms(2) by (rule nth_mem)
  have s: "set (?a[i := 0]) - {0} = set ?a - {0} - {?p}"
    using d e unfolding nonnull_set [symmetric] list.simps(15) distinct.simps by blast
  have "live op = insert ?p out \<union> (set (?a[i := 0]) - {0})"
    unfolding s using assms(1,3) p by (auto simp: pool_inv_def)
  moreover have "insert ?p out \<inter> set (?a[i := 0]) = {}"
  proof -
    have o: "0 \<notin> insert ?p out" "out \<inter> set ?a = {}"
      using assms(1,3) by (simp_all add: pool_inv_def)
    have "x \<notin> set (?a[i := 0])" if x: "x \<in> insert ?p out" for x
    proof -
      have "x \<notin> set (?a[i := 0]) - {0}"
        using x o(2) unfolding s by auto
      moreover have "x \<noteq> 0"
        using x o(1) by metis
      ultimately show ?thesis by simp
    qed
    then show ?thesis by (metis disjoint_iff)
  qed
  ultimately show ?thesis
    using assms d by (simp add: pool_inv_def)
qed

lemma pool_inv_put:
  assumes "pool_inv n op out" "p \<in> out" "i < length (m_rgpobjects op)" "m_rgpobjects op ! i = 0"
  shows "pool_inv n (op\<lparr>m_rgpobjects := (m_rgpobjects op)[i := p]\<rparr>) (out - {p})"
proof -
  let ?a = "m_rgpobjects op"
  have "0 \<notin> out" "out \<inter> set ?a = {}"
    using assms(1) by (simp_all add: pool_inv_def)
  with assms(2) have p: "p \<noteq> 0" "p \<notin> set ?a"
    by auto
  have "mset (filter (\<lambda>p. p \<noteq> 0) (?a[i := p])) = mset (p # filter (\<lambda>p. p \<noteq> 0) ?a)"
    using mset_filter_update [of i ?a "\<lambda>p. p \<noteq> 0" p] assms(3,4) p(1) by simp
  moreover have "distinct (p # filter (\<lambda>p. p \<noteq> 0) ?a)"
    using assms(1) p by (simp add: pool_inv_def)
  ultimately have d: "distinct (filter (\<lambda>p. p \<noteq> 0) (?a[i := p]))"
    and "set (filter (\<lambda>p. p \<noteq> 0) (?a[i := p])) = insert p (set (filter (\<lambda>p. p \<noteq> 0) ?a))"
    by (metis mset_eq_imp_distinct_iff, metis mset_eq_setD list.simps(15))
  then have s: "set (?a[i := p]) - {0} = insert p (set ?a - {0})"
    by (simp only: nonnull_set)
  have "live op = (out - {p}) \<union> (set (?a[i := p]) - {0})"
    unfolding s using assms(1,2) p by (auto simp: pool_inv_def)
  moreover have "(out - {p}) \<inter> set (?a[i := p]) = {}"
  proof -
    have o: "0 \<notin> out" "out \<inter> set ?a = {}"
      using assms(1) by (simp_all add: pool_inv_def)
    have "x \<notin> set (?a[i := p]) - {0}" if "x \<in> out - {p}" for x
      using that o(2) unfolding s by auto
    with o(1) show ?thesis by auto
  qed
  moreover have "0 \<notin> out - {p}" "finite (out - {p})"
    using assms(1) by (auto simp: pool_inv_def)
  ultimately show ?thesis
    using assms(1) d by (simp add: pool_inv_def)
qed

lemma Allocate_inv:
  assumes "pool_inv n op out" "0 < n" "new \<notin> live op"
  shows "\<exists>op' p. Allocate processor new op = Some (op', p) \<and> pool_inv n op' (if p = 0 then out else insert p out)
    \<and> (p \<noteq> 0 \<longrightarrow> p \<notin> out)"
proof -
  have ne: "m_rgpobjects op \<noteq> []"
    using assms(1,2) by (auto simp: pool_inv_def)
  show ?thesis
  proof (cases rule: GetCachedPtr_cases [OF ne, of processor])
    case (1 i)
    then have "m_rgpobjects op ! i \<notin> out"
      using assms(1) nth_mem [of i "m_rgpobjects op"] unfolding pool_inv_def by blast
    then show ?thesis
      using 1 pool_inv_take [OF assms(1), of i] by (simp add: Allocate_def)
  next
    case 2
    have l: "finite (live op)"
      using assms(1) by (auto simp: pool_inv_def)
    have "pool_inv n (fst (NewObject new op)) (if new = 0 then out else insert new out)"
    proof (cases "new = 0")
      case True
      then show ?thesis
        using assms(1) by (simp add: NewObject_def)
    next
      case False
      have "card (insert new (live op)) = Suc (card (live op))"
        using l assms(3) by simp
      moreover have "insert new (live op) = insert new out \<union> (set (m_rgpobjects op) - {0})"
        "insert new out \<inter> set (m_rgpobjects op) = {}" "0 \<notin> insert new out"
        using assms(1,3) False unfolding pool_inv_def by auto
      ultimately show ?thesis
        using False assms(1) by (simp add: NewObject_def pool_inv_def)
    qed
    moreover have "new \<noteq> 0 \<longrightarrow> new \<notin> out"
      using assms(1,3) by (auto simp: pool_inv_def)
    ultimately show ?thesis
      using 2 by (auto simp: Allocate_def NewObject_def split: if_splits)
  qed
qed

lemma Free_inv:
  assumes "pool_inv n op out" "0 < n" "p \<in> out"
  shows "\<exists>op'. Free processor p op = Some op' \<and> pool_inv n op' (out - {p})"
proof -
  have ne: "m_rgpobjects op \<noteq> []"
    using assms(1,2) by (auto simp: pool_inv_def)
  show ?thesis
  proof (cases rule: FCachePtr_cases [OF ne, of processor p])
    case (1 i)
    then show ?thesis
      using pool_inv_put [OF assms(1,3)] by (simp add: Free_def)
  next
    case 2
    have p: "p \<noteq> 0" "p \<in> live op" "finite (live op)" "p \<notin> set (m_rgpobjects op)"
      using assms(1,3) unfolding pool_inv_def by auto
    then have "card (live op - {p}) = card (live op) - 1" "0 < card (live op)"
      by (auto simp: card_gt_0_iff)
    moreover have "live op - {p} = (out - {p}) \<union> (set (m_rgpobjects op) - {0})"
      using assms(1) p(4) unfolding pool_inv_def by blast
    moreover have "(out - {p}) \<inter> set (m_rgpobjects op) = {}" "0 \<notin> out - {p}" "finite (out - {p})"
      using assms(1) unfolding pool_inv_def by blast+
    ultimately show ?thesis
      using 2 p assms(1) by (auto simp: Free_def DeleteObject_def pool_inv_def)
  qed
qed

lemma pool_reach_inv: "pool_reach n op out \<Longrightarrow> 0 < n \<Longrightarrow> pool_inv n op out"
proof (induction rule: pool_reach.induct)
  case init
  then show ?case
    by (simp add: pool_inv_def ObjectPool_new_def)
next
  case (alloc op out new processor op' p)
  then show ?case
    using Allocate_inv [of n op out new processor] by auto
next
  case (free op out p processor op')
  then show ?case
    using Free_inv [of n op out p processor] by auto
qed

lemma free_entries_ok:
  "set ps - {0} \<subseteq> live op \<Longrightarrow> 0 \<notin> live op \<Longrightarrow> distinct (filter (\<lambda>p. p \<noteq> 0) ps) \<Longrightarrow>
   \<exists>op'. free_entries ps op = Some op' \<and> live op' = live op - set ps
     \<and> m_cobjectsAllocated op' = m_cobjectsAllocated op
     \<and> m_cobjectsFreed op' = m_cobjectsFreed op + of_nat (length (filter (\<lambda>p. p \<noteq> 0) ps))"
proof (induction ps arbitrary: op)
  case (Cons p ps)
  show ?case
  proof (cases "p = 0")
    case True
    then have "\<exists>op'. free_entries ps op = Some op' \<and> live op' = live op - set ps
     \<and> m_cobjectsAllocated op' = m_cobjectsAllocated op
     \<and> m_cobjectsFreed op' = m_cobjectsFreed op + of_nat (length (filter (\<lambda>p. p \<noteq> 0) ps))"
      using Cons.prems by (intro Cons.IH) auto
    with True Cons.prems show ?thesis
      by (auto simp: DeleteObject_def)
  next
    case False
    let ?op = "op\<lparr>m_cobjectsFreed := m_cobjectsFreed op + 1, live := live op - {p}\<rparr>"
    have "p \<in> live op" "p \<notin> set ps"
      using False Cons.prems(1,3) by auto
    then have "\<exists>op'. free_entries ps ?op = Some op' \<and> live op' = live ?op - set ps
     \<and> m_cobjectsAllocated op' = m_cobjectsAllocated ?op
     \<and> m_cobjectsFreed op' = m_cobjectsFreed ?op + of_nat (length (filter (\<lambda>p. p \<noteq> 0) ps))"
      using Cons.prems False by (intro Cons.IH) auto
    with False \<open>p \<in> live op\<close> show ?thesis
      by (auto simp: DeleteObject_def)
  qed
qed simp

text \<open>
  In every history of allocations and frees the pool's counters account for exactly the objects
  that exist, and the destructor deletes the cached ones without touching a deleted object; when
  the clients have returned everything, the destructor's assertion that as many objects were freed
  as allocated holds.
\<close>

theorem pool_destructor_balanced:
  assumes "pool_reach n op out" "0 < n"
  shows "m_cobjectsAllocated op - m_cobjectsFreed op = of_nat (card (live op))
    \<and> (\<exists>op'. FreeAllEntries op = Some op' \<and> live op' = out
        \<and> (out = {} \<longrightarrow> m_cobjectsAllocated op' = m_cobjectsFreed op'))"
proof -
  let ?a = "m_rgpobjects op"
  have inv: "distinct (filter (\<lambda>p. p \<noteq> 0) ?a)" "live op = out \<union> (set ?a - {0})" "out \<inter> set ?a = {}" "0 \<notin> out"
      "finite out" "m_cobjectsAllocated op - m_cobjectsFreed op = of_nat (card (live op))"
    using pool_reach_inv [OF assms] by (simp_all add: pool_inv_def)
  then obtain op' where op': "FreeAllEntries op = Some op'" "live op' = live op - set ?a"
      "m_cobjectsAllocated op' = m_cobjectsAllocated op"
      "m_cobjectsFreed op' = m_cobjectsFreed op + of_nat (length (filter (\<lambda>p. p \<noteq> 0) ?a))"
    using free_entries_ok [of ?a op] by (auto simp: FreeAllEntries_def)
  moreover have "live op - set ?a = out"
    using inv(2,3,4) by blast
  moreover have "card (set ?a - {0}) = length (filter (\<lambda>p. p \<noteq> 0) ?a)"
    using distinct_card [OF inv(1)] by (simp only: nonnull_set)
  ultimately show ?thesis
    using inv(2,6) by (auto simp: diff_eq_eq add.commute)
qed

lemma free_entries_kept:
  "free_entries ps op = Some op' \<Longrightarrow> m_rgpobjects op' = m_rgpobjects op \<and> live op' = live op - (set ps - {0})"
  by (induction ps arbitrary: op) (auto simp: DeleteObject_def split: bind_splits if_splits)

lemma free_entries_gone:
  "p \<in> set ps \<Longrightarrow> p \<noteq> 0 \<Longrightarrow> p \<notin> live op \<Longrightarrow> free_entries ps op = None"
proof (induction ps arbitrary: op)
  case (Cons q ps)
  show ?case
  proof (cases "DeleteObject q op")
    case (Some op')
    then have "p \<notin> live op'" "q \<noteq> p"
      using Cons.prems by (auto simp: DeleteObject_def split: if_splits)
    with Some Cons show ?thesis
      by simp
  qed simp
qed simp

text \<open>
  C38: \<open>FreeAllEntries\<close> leaves the pointers it deleted in the pool, so that calling it a second
  time, as the destructor does after an explicit call, deletes an object twice.
\<close>

theorem pool_double_delete:
  assumes "FreeAllEntries op = Some op'" "p \<in> set (m_rgpobjects op)" "p \<noteq> 0"
  shows "m_rgpobjects op' = m_rgpobjects op \<and> FreeAllEntries op' = None"
  using free_entries_kept [of "m_rgpobjects op" op op'] free_entries_gone [of p "m_rgpobjects op" op'] assms
  by (simp add: FreeAllEntries_def)

definition pool7 :: ObjectPool where
  "pool7 = \<lparr>m_rgpobjects = [7, 0], m_cobjectsAllocated = 1, m_cobjectsFreed = 0, live = {7}\<rparr>"

lemma pool7_reach: "pool_reach 2 pool7 {}"
proof -
  let ?op = "\<lparr>m_rgpobjects = [0, 0], m_cobjectsAllocated = 1, m_cobjectsFreed = 0, live = {7}\<rparr>"
  have "Allocate 0 7 (ObjectPool_new 2) = Some (?op, 7)"
    by (simp add: Allocate_def ObjectPool_new_def GetCachedPtr_find visit_def NewObject_def numeral_2_eq_2 Let_def)
  then have "pool_reach 2 ?op {7}"
    using pool_reach.alloc [OF pool_reach.init [of 2], of 7 0 ?op 7] by (simp add: ObjectPool_new_def)
  moreover have "Free 0 7 ?op = Some pool7"
    by (simp add: Free_def FCachePtr_find visit_def pool7_def Let_def)
  ultimately show ?thesis
    using pool_reach.free [of 2 ?op "{7}" 7 0 pool7] by simp
qed

theorem pool_destructor_balanced_witness:
  "m_cobjectsAllocated pool7 - m_cobjectsFreed pool7 = of_nat (card (live pool7))
    \<and> (\<exists>op'. FreeAllEntries pool7 = Some op' \<and> live op' = {}
        \<and> ({} = ({} :: nat set) \<longrightarrow> m_cobjectsAllocated op' = m_cobjectsFreed op'))"
  by (rule pool_destructor_balanced [OF pool7_reach]) simp

theorem pool_double_delete_witness:
  "FreeAllEntries (pool7\<lparr>m_cobjectsFreed := 1, live := {}\<rparr>) = None"
proof -
  have "FreeAllEntries pool7 = Some (pool7\<lparr>m_cobjectsFreed := 1, live := {}\<rparr>)"
    by (simp add: FreeAllEntries_def pool7_def DeleteObject_def)
  then show ?thesis
    using pool_double_delete [of pool7 _ 7] by (simp add: pool7_def)
qed

end
