(* ===== verification/Decompress.thy ===== *)
theory Decompress
  imports Xpress_Props Ptr_Cache
begin

text \<open>
  The decompressor of \<open>decompress.cpp\<close>: the class \<open>CDataCompressor\<close> with its dispatch
  on the compression scheme, the two 7-bit decoders, the Xpress decoder with its cached handles,
  and the exported function \<open>decompress\<close>. A call yields \<open>None\<close> when the code would
  access memory outside its buffers, otherwise the status, the value of \<open>*pcbDataActual\<close>
  and the output buffer. \<open>INT\<close> arithmetic wraps as on the machine (\<open>INT32\<close>).

  The specification of the 7-bit formats is arithmetic: the payload is one little-endian number,
  and character \<open>k\<close> is its \<open>k\<close>-th group of seven bits.
\<close>

section \<open>Data\<close>

datatype COMPRESSION_SCHEME = COMPRESS_NONE | COMPRESS_7BITASCII | COMPRESS_7BITUNICODE
  | COMPRESS_XPRESS | COMPRESS_SCRUB | COMPRESS_XPRESS9 | COMPRESS_XPRESS10 | COMPRESS_MAXIMUM

fun scheme_code :: "COMPRESSION_SCHEME \<Rightarrow> BYTE" where
  "scheme_code COMPRESS_NONE = 0"
| "scheme_code COMPRESS_7BITASCII = 1"
| "scheme_code COMPRESS_7BITUNICODE = 2"
| "scheme_code COMPRESS_XPRESS = 3"
| "scheme_code COMPRESS_SCRUB = 4"
| "scheme_code COMPRESS_XPRESS9 = 5"
| "scheme_code COMPRESS_XPRESS10 = 6"
| "scheme_code COMPRESS_MAXIMUM = 0x1f"

text \<open>\<open>class DATA\<close>: \<open>m_cb\<close> is unsigned, \<open>Cb()\<close> reads it as \<open>INT\<close>.\<close>

record DATA =
  Pv :: "BYTE list"
  m_cb :: ULONG

definition Cb :: "DATA \<Rightarrow> int" where
  "Cb d = sint (m_cb d)"

definition SetPv :: "BYTE list \<Rightarrow> DATA \<Rightarrow> DATA" where
  "SetPv pv d = d\<lparr>Pv := pv\<rparr>"

definition SetCb :: "nat \<Rightarrow> DATA \<Rightarrow> DATA" where
  "SetCb cb d = d\<lparr>m_cb := word_of_nat cb\<rparr>"

record CDataCompressor =
  m_cdecodeCachedMax :: nat
  m_rgdecodeXpress :: "nat list"

text \<open>\<open>ErrInit\<close>: one cached handle per processor; \<open>new\<close> throws when it fails.\<close>

definition ErrInit :: "nat \<Rightarrow> CDataCompressor" where
  "ErrInit processorCountMax =
     \<lparr>m_cdecodeCachedMax = processorCountMax, m_rgdecodeXpress = replicate processorCountMax 0\<rparr>"

text \<open>Output buffers: \<open>None\<close> is the null pointer.\<close>

type_synonym obuffer = "BYTE list option"

type_synonym result = "(ERR \<times> int \<times> obuffer) option"

section \<open>The 7-bit formats\<close>

text \<open>One character at byte \<open>ibCompressed\<close>, bit \<open>ibitCompressed\<close>.\<close>

definition decode7 :: "BYTE list \<Rightarrow> nat \<Rightarrow> nat \<Rightarrow> BYTE option" where
  "decode7 pbCompressed ibCompressed ibitCompressed =
     (if ibitCompressed \<le> 1
      then do { bCompressed \<leftarrow> rd pbCompressed ibCompressed;
                Some (drop_bit ibitCompressed bCompressed AND 0x7F) }
      else do { b0 \<leftarrow> rd pbCompressed ibCompressed; b1 \<leftarrow> rd pbCompressed (ibCompressed + 1);
                let wCompressed = (ucast b0 :: WORD16) OR push_bit 8 (ucast b1)
                in Some (ucast (drop_bit ibitCompressed wCompressed AND 0x7F)) })"

definition advance7 :: "nat \<Rightarrow> nat \<Rightarrow> nat \<times> nat" where
  "advance7 ibCompressed ibitCompressed =
     (let ibitCompressed = ibitCompressed + 7
      in if ibitCompressed \<ge> 8 then (ibCompressed + 1, ibitCompressed mod 8)
         else (ibCompressed, ibitCompressed))"

function ascii_loop :: "BYTE list \<Rightarrow> nat \<Rightarrow> nat \<Rightarrow> nat \<Rightarrow> nat \<Rightarrow> BYTE list \<Rightarrow> BYTE list option" where
  "ascii_loop pbCompressed ibDataMax ibData ibCompressed ibitCompressed pbData =
     (if ibData < ibDataMax
      then do { bDecompressed \<leftarrow> decode7 pbCompressed ibCompressed ibitCompressed;
                pbData' \<leftarrow> wr pbData ibData bDecompressed;
                let (ib, ibit) = advance7 ibCompressed ibitCompressed
                in ascii_loop pbCompressed ibDataMax (ibData + 1) ib ibit pbData' }
      else Some pbData)"
  by pat_completeness auto
termination
  by (relation "measure (\<lambda>(p, m, i, _). m - i)") auto

declare ascii_loop.simps [simp del]

text \<open>The arithmetic on \<open>INT\<close> that both decoders do on the header.\<close>

definition cTotal7 :: "BYTE \<Rightarrow> int \<Rightarrow> int" where
  "cTotal7 bHeader cb =
     (let cbitFinal = uint (bHeader AND 0x7) + 1;
          cbitTotal = INT32 (INT32 (INT32 (cb - 2) * 8) + cbitFinal)
      in cdiv cbitTotal 7)"

definition ErrDecompress7BitAscii :: "DATA \<Rightarrow> obuffer \<Rightarrow> int \<Rightarrow> result" where
  "ErrDecompress7BitAscii dataCompressed pbData cbDataMax =
     do { bHeader \<leftarrow> rd (Pv dataCompressed) 0;
          let cbTotal = cTotal7 bHeader (Cb dataCompressed);
              err = (if cbTotal > cbDataMax then JET_wrnBufferTruncated else JET_errSuccess)
          in case pbData of
               None \<Rightarrow> Some (err, cbTotal, None)
             | Some pb \<Rightarrow>
                 if 0 = cbDataMax then Some (err, cbTotal, pbData)
                 else do { pb' \<leftarrow> ascii_loop (Pv dataCompressed) (nat (min cbTotal cbDataMax)) 0 1 0 pb;
                           Some (err, cbTotal, Some pb') } }"

function unicode_loop :: "BYTE list \<Rightarrow> nat \<Rightarrow> nat \<Rightarrow> nat \<Rightarrow> nat \<Rightarrow> BYTE list \<Rightarrow> BYTE list option" where
  "unicode_loop pbCompressed ibDataMax ibData ibCompressed ibitCompressed pbData =
     (if ibData < ibDataMax
      then do { bDecompressed \<leftarrow> decode7 pbCompressed ibCompressed ibitCompressed;
                pbData' \<leftarrow> wr pbData ibData bDecompressed;
                if ibData + 1 \<ge> ibDataMax then Some pbData'
                else do {
                  pbData'' \<leftarrow> wr pbData' (ibData + 1) 0;
                  if ibData + 2 \<ge> ibDataMax then Some pbData''
                  else (let (ib, ibit) = advance7 ibCompressed ibitCompressed
                        in unicode_loop pbCompressed ibDataMax (ibData + 2) ib ibit pbData'') } }
      else Some pbData)"
  by pat_completeness auto
termination
  by (relation "measure (\<lambda>(p, m, i, _). m - i)") auto

declare unicode_loop.simps [simp del]

definition ErrDecompress7BitUnicode :: "DATA \<Rightarrow> obuffer \<Rightarrow> int \<Rightarrow> result" where
  "ErrDecompress7BitUnicode dataCompressed pbData cbDataMax =
     do { bHeader \<leftarrow> rd (Pv dataCompressed) 0;
          let cwTotal = cTotal7 bHeader (Cb dataCompressed);
              cbDataActual = INT32 (cwTotal * 2);
              err = (if cbDataActual > cbDataMax then JET_wrnBufferTruncated else JET_errSuccess)
          in case pbData of
               None \<Rightarrow> Some (err, cbDataActual, None)
             | Some pb \<Rightarrow>
                 if 0 = cbDataMax then Some (err, cbDataActual, pbData)
                 else do { pb' \<leftarrow> unicode_loop (Pv dataCompressed) (nat (min cbDataActual cbDataMax)) 0 1 0 pb;
                           Some (err, cbDataActual, Some pb') } }"

section \<open>Xpress\<close>

definition ErrXpressDecodeOpen :: "nat \<Rightarrow> CDataCompressor \<Rightarrow> (CDataCompressor \<times> ERR \<times> nat) option" where
  "ErrXpressDecodeOpen processor this =
     do { (rg, decode) \<leftarrow> GetCachedPtr processor (m_rgdecodeXpress this);
          let this = this\<lparr>m_rgdecodeXpress := rg\<rparr>
          in if 0 \<noteq> decode then Some (this, JET_errSuccess, decode)
             else (let decode = XpressDecodeCreate
                   in if decode = 0 then Some (this, JET_errOutOfMemory, 0)
                      else Some (this, JET_errSuccess, decode)) }"

text \<open>Releasing a handle that is not cached calls \<open>XpressDecodeClose\<close>, which does nothing.\<close>

definition XpressDecodeClose_ptr :: "nat \<Rightarrow> nat \<Rightarrow> CDataCompressor \<Rightarrow> CDataCompressor option" where
  "XpressDecodeClose_ptr processor decode this =
     (if decode \<noteq> 0
      then do { (rg, cached) \<leftarrow> FCachePtr processor decode (m_rgdecodeXpress this);
                Some (this\<lparr>m_rgdecodeXpress := rg\<rparr>) }
      else Some this)"

text \<open>The part between opening and closing the handle.\<close>

definition xpress_body :: "BYTE list \<Rightarrow> int \<Rightarrow> int \<Rightarrow> BYTE list \<Rightarrow> int \<Rightarrow> (ERR \<times> BYTE list) option" where
  "xpress_body pb cbUncompressed cbDataMax pbCompressedData cbCompressedData =
     (let cbWanted = min cbUncompressed cbDataMax
      in do { (cbDecoded, pb') \<leftarrow> XpressDecode pb cbUncompressed cbWanted pbCompressedData cbCompressedData;
              Some (if - 1 = cbDecoded then JET_errDecompressionFailed
                    else if cbUncompressed > cbDataMax then JET_wrnBufferTruncated
                    else JET_errSuccess, pb') })"

definition ErrDecompressXpress ::
  "nat \<Rightarrow> CDataCompressor \<Rightarrow> DATA \<Rightarrow> obuffer \<Rightarrow> int \<Rightarrow> (CDataCompressor \<times> ERR \<times> int \<times> obuffer) option" where
  "ErrDecompressXpress processor this dataCompressed pbData cbDataMax =
     do { cbUncompressed \<leftarrow> rd16 (Pv dataCompressed) 1;
          let cbUncompressed = int cbUncompressed;
              pbCompressedData = drop 3 (Pv dataCompressed);
              cbCompressedData = INT32 (Cb dataCompressed - 3)
          in case pbData of
               None \<Rightarrow> Some (this, JET_wrnBufferTruncated, cbUncompressed, None)
             | Some pb \<Rightarrow>
                 if 0 = cbDataMax then Some (this, JET_wrnBufferTruncated, cbUncompressed, pbData)
                 else do {
                   (this, err, decode) \<leftarrow> ErrXpressDecodeOpen processor this;
                   (err, pb) \<leftarrow> (if err < JET_errSuccess then Some (err, pb)
                                 else xpress_body pb cbUncompressed cbDataMax pbCompressedData cbCompressedData);
                   this \<leftarrow> XpressDecodeClose_ptr processor decode this;
                   Some (this, err, cbUncompressed, Some pb) } }"

section \<open>Dispatch\<close>

definition ErrDecompressScrub :: "DATA \<Rightarrow> ERR" where
  "ErrDecompressScrub d = JET_errSuccess"

definition ErrDecompress ::
  "nat \<Rightarrow> CDataCompressor \<Rightarrow> DATA \<Rightarrow> obuffer \<Rightarrow> int \<Rightarrow> (CDataCompressor \<times> ERR \<times> int \<times> obuffer) option" where
  "ErrDecompress processor this dataCompressed pbData cbDataMax =
     do { bHeader \<leftarrow> rd (Pv dataCompressed) 0;
          let bIdentifier = drop_bit 3 bHeader
          in if bIdentifier = scheme_code COMPRESS_7BITASCII
             then do { (err, actual, pb) \<leftarrow> ErrDecompress7BitAscii dataCompressed pbData cbDataMax;
                       Some (this, err, actual, pb) }
             else if bIdentifier = scheme_code COMPRESS_7BITUNICODE
             then do { (err, actual, pb) \<leftarrow> ErrDecompress7BitUnicode dataCompressed pbData cbDataMax;
                       Some (this, err, actual, pb) }
             else if bIdentifier = scheme_code COMPRESS_XPRESS
             then ErrDecompressXpress processor this dataCompressed pbData cbDataMax
             else if bIdentifier = scheme_code COMPRESS_SCRUB
             then Some (this, ErrDecompressScrub dataCompressed, 0, pbData)
             else Some (this, JET_errDecompressionFailed, 0, pbData) }"

text \<open>
  The exported function; \<open>worker\<close> is its static variable. The results are the returned status
  and \<open>*decompressed\<close>, both unsigned, the output buffer and the worker afterwards.
\<close>

definition decompress ::
  "nat \<Rightarrow> CDataCompressor \<Rightarrow> BYTE list \<Rightarrow> nat \<Rightarrow> obuffer \<Rightarrow> nat \<Rightarrow> (ULONG \<times> ULONG \<times> obuffer \<times> CDataCompressor) option" where
  "decompress processor worker data data_size out_buffer out_buffer_size =
     (let dataCompressed = SetCb data_size (SetPv data \<lparr>Pv = [], m_cb = 0\<rparr>)
      in do { (worker, res, actual, out) \<leftarrow>
                 ErrDecompress processor worker dataCompressed out_buffer (sint (word_of_nat out_buffer_size :: ULONG));
              Some (word_of_int res, word_of_int actual, out, worker) })"

end
