(* ===== verification/Decompress_Props.thy ===== *)
theory Decompress_Props
  imports Decompress
begin

text \<open>
  Correctness of the decompressor: the 7-bit decoders against the arithmetic reading of their
  formats and the round trip with it, the Xpress path against the list-based decoder of
  \<open>Xpress_Props\<close>, the handle cache through the laws of \<open>Ptr_Cache\<close>, memory safety of
  every call, the size query on every kind of block, and the corner case of Xpress data that did not shrink.
\<close>

unbundle bit_operations_syntax

section \<open>The 7-bit formats\<close>

text \<open>Character \<open>k\<close> of a payload.\<close>

definition sept :: "nat \<Rightarrow> nat \<Rightarrow> BYTE" where
  "sept N k = word_of_nat (take_bit 7 (drop_bit (7 * k) N))"

lemma bit_le_nat: "bit (le_nat bs) n \<longleftrightarrow> n div 8 < length bs \<and> bit (bs ! (n div 8)) (n mod 8)"
proof (induction bs arbitrary: n)
  case (Cons b bs)
  have "unat b < 2 ^ 8"
    using unsigned_less [of b] by simp
  then have "bit (le_nat (b # bs)) n \<longleftrightarrow> (if n < 8 then bit (unat b) n else bit (le_nat bs) (n - 8))"
    using bit_split_nat [of "unat b" 8 "le_nat bs" n] by (simp add: add.commute)
  also have "\<dots> \<longleftrightarrow> n div 8 < length (b # bs) \<and> bit ((b # bs) ! (n div 8)) (n mod 8)"
  proof (cases "n < 8")
    case True
    then show ?thesis
      by (simp add: bit_simps)
  next
    case False
    then have "n div 8 = Suc ((n - 8) div 8)" "n mod 8 = (n - 8) mod 8"
      by (auto simp: div_if mod_if)
    with False show ?thesis
      by (simp add: Cons.IH)
  qed
  finally show ?case .
qed simp

lemma bit_sept: "bit (sept N k) j \<longleftrightarrow> j < 7 \<and> bit N (7 * k + j)"
  by (auto simp: sept_def bit_simps)

text \<open>Where character \<open>k\<close> starts.\<close>

abbreviation ib7 :: "nat \<Rightarrow> nat" where "ib7 k \<equiv> 1 + 7 * k div 8"
abbreviation ibit7 :: "nat \<Rightarrow> nat" where "ibit7 k \<equiv> 7 * k mod 8"

lemma split8:
  assumes "n = 8 * q + r" "r < (8 :: nat)"
  shows "n div 8 = q" "n mod 8 = r"
  using assms by simp_all

lemma shift8:
  fixes n j :: nat
  assumes "j \<le> 8"
  shows "(n + j) div 8 = (if n mod 8 + j < 8 then n div 8 else Suc (n div 8))"
    and "(n + j) mod 8 = (if n mod 8 + j < 8 then n mod 8 + j else n mod 8 + j - 8)"
proof -
  have "n + j = 8 * (if n mod 8 + j < 8 then n div 8 else Suc (n div 8))
      + (if n mod 8 + j < 8 then n mod 8 + j else n mod 8 + j - 8)"
    by auto
  moreover have "(if n mod 8 + j < 8 then n mod 8 + j else n mod 8 + j - 8) < 8"
    using assms mod_less_divisor [of 8 n] by auto
  ultimately show "(n + j) div 8 = (if n mod 8 + j < 8 then n div 8 else Suc (n div 8))"
    and "(n + j) mod 8 = (if n mod 8 + j < 8 then n mod 8 + j else n mod 8 + j - 8)"
    using split8 by blast+
qed

lemma advance7_next: "advance7 (ib7 k) (ibit7 k) = (ib7 (Suc k), ibit7 (Suc k))"
proof -
  have e: "7 * Suc k = 7 * k + 7"
    by simp
  have k: "7 * Suc k div 8 = (if ibit7 k + 7 < 8 then 7 * k div 8 else Suc (7 * k div 8))"
      "7 * Suc k mod 8 = (if ibit7 k + 7 < 8 then ibit7 k + 7 else ibit7 k + 7 - 8)"
    unfolding e by (rule shift8, simp)+
  have "r mod 8 = r - 8" if "8 \<le> r" "r < 16" for r :: nat
    using that by (simp add: mod_if)
  moreover have "ibit7 k + 7 < 16"
    using mod_less_divisor [of 8 "7 * k"] by linarith
  ultimately show ?thesis
    unfolding advance7_def Let_def k by (auto simp: not_less)
qed

lemma decode7_sept:
  assumes "7 * k + 7 \<le> 8 * (length pv - 1)"
  shows "decode7 pv (ib7 k) (ibit7 k) = Some (sept (le_nat (drop 1 pv)) k)"
proof -
  let ?i = "7 * k div 8" and ?b = "7 * k mod 8"
  have pos: "7 * k = 8 * ?i + ?b"
    by simp
  have bit: "bit (sept (le_nat (drop 1 pv)) k) j \<longleftrightarrow> j < 7 \<and>
      (7 * k + j) div 8 < length pv - 1 \<and> bit (pv ! Suc ((7 * k + j) div 8)) ((7 * k + j) mod 8)" for j
    by (auto simp: bit_sept bit_le_nat)
  have f: "(0x7F :: BYTE) = mask 7" "(0x7F :: WORD16) = mask 7"
    by (simp_all add: mask_eq_exp_minus_1)
  show ?thesis
  proof (cases "?b \<le> 1")
    case True
    have i: "Suc ?i < length pv"
      using assms pos by linarith
    have "bit (drop_bit ?b (pv ! Suc ?i) AND 0x7F) j = bit (sept (le_nat (drop 1 pv)) k) j" for j
    proof (cases "j < 7")
      case True
      then have "(7 * k + j) div 8 = ?i" "(7 * k + j) mod 8 = ?b + j"
        using \<open>?b \<le> 1\<close> shift8 [of j "7 * k"] by simp_all
      moreover have "?i < length pv - 1"
        using i by linarith
      ultimately show ?thesis
        using True unfolding bit f by (simp add: bit_simps)
    qed (unfold bit f, simp add: bit_simps)
    then show ?thesis
      using i True by (simp add: decode7_def buf_simps bit_eq_iff)
  next
    case False
    have i: "Suc (Suc ?i) < length pv"
      using assms pos False by linarith
    have "bit (ucast (drop_bit ?b ((ucast (pv ! Suc ?i) :: WORD16) OR push_bit 8 (ucast (pv ! Suc (Suc ?i)))) AND 0x7F) :: BYTE) j
        = bit (sept (le_nat (drop 1 pv)) k) j" for j
    proof (cases "j < 7")
      case True
      have "?b < 8" by simp
      have n8: "\<not> bit (b :: BYTE) n" if "8 \<le> n" for b n
        using that bit_imp_le_length [of b n] by auto
      have q: "(7 * k + j) div 8 = (if ?b + j < 8 then ?i else Suc ?i)"
          "(7 * k + j) mod 8 = (if ?b + j < 8 then ?b + j else ?b + j - 8)"
        using shift8 [of j "7 * k"] True by simp_all
      show ?thesis
        using True i \<open>?b < 8\<close> n8 unfolding bit q f
        by (auto simp: bit_simps)
    qed (unfold bit f, simp add: bit_simps)
    then show ?thesis
      using i False by (simp add: decode7_def buf_simps bit_eq_iff Let_def)
  qed
qed

lemma take_drop_write:
  "i < length pb \<Longrightarrow> (xs @ drop (length xs) pb)[length xs := v] = (xs @ [v]) @ drop (Suc (length xs)) pb"
  if "i = length xs"
  using that by (simp add: list_update_append Cons_nth_drop_Suc [symmetric])

lemma ascii_loop_sept:
  assumes "7 * n \<le> 8 * (length pv - 1)" "n \<le> length pb" "k \<le> n"
  shows "ascii_loop pv n k (ib7 k) (ibit7 k) (map (sept (le_nat (drop 1 pv))) [0..<k] @ drop k pb)
    = Some (map (sept (le_nat (drop 1 pv))) [0..<n] @ drop n pb)"
  using assms(3)
proof (induction "n - k" arbitrary: k)
  case 0
  then show ?case
    by (simp add: ascii_loop.simps)
next
  case (Suc d)
  let ?f = "sept (le_nat (drop 1 pv))"
  have k: "k < n"
    using Suc by simp
  have "decode7 pv (ib7 k) (ibit7 k) = Some (?f k)"
    using k assms(1) by (intro decode7_sept) linarith
  moreover have "wr (map ?f [0..<k] @ drop k pb) k (?f k) = Some (map ?f [0..<Suc k] @ drop (Suc k) pb)"
    using take_drop_write [of k "map ?f [0..<k]" pb "?f k"] k assms(2) by (simp add: wr_def)
  moreover have "ascii_loop pv n (Suc k) (ib7 (Suc k)) (ibit7 (Suc k)) (map ?f [0..<Suc k] @ drop (Suc k) pb)
      = Some (map ?f [0..<n] @ drop n pb)"
    using Suc k by (intro Suc.hyps(1)) auto
  ultimately show ?case
    using k by (subst ascii_loop.simps) (simp only: if_True bind.bind_lunit advance7_next Let_def prod.case Suc_eq_plus1 [symmetric])
qed

text \<open>A Unicode buffer: each character and a zero byte.\<close>

definition wide :: "nat \<Rightarrow> nat \<Rightarrow> BYTE" where
  "wide N i = (if even i then sept N (i div 2) else 0)"

lemma unicode_loop_wide:
  assumes "7 * ((n + 1) div 2) \<le> 8 * (length pv - 1)" "n \<le> length pb" "2 * k \<le> n"
  shows "unicode_loop pv n (2 * k) (ib7 k) (ibit7 k) (map (wide (le_nat (drop 1 pv))) [0..<2 * k] @ drop (2 * k) pb)
    = Some (map (wide (le_nat (drop 1 pv))) [0..<n] @ drop n pb)"
  using assms(3)
proof (induction "n - 2 * k" arbitrary: k rule: less_induct)
  case less
  let ?w = "wide (le_nat (drop 1 pv))"
  show ?case
  proof (cases "2 * k < n")
    case False
    with less.prems show ?thesis
      by (simp add: unicode_loop.simps)
  next
    case True
    have d: "decode7 pv (ib7 k) (ibit7 k) = Some (?w (2 * k))"
    proof -
      have "k < (n + 1) div 2"
        using True by linarith
      then have "7 * k + 7 \<le> 8 * (length pv - 1)"
        using assms(1) by linarith
      then show ?thesis
        by (simp only: decode7_sept wide_def) simp
    qed
    have w1: "wr (map ?w [0..<2 * k] @ drop (2 * k) pb) (2 * k) (?w (2 * k)) = Some (map ?w [0..<2 * k + 1] @ drop (2 * k + 1) pb)"
      using take_drop_write [of "2 * k" "map ?w [0..<2 * k]" pb "?w (2 * k)"] True assms(2) by (simp add: wr_def)
    have w2: "wr (map ?w [0..<2 * k + 1] @ drop (2 * k + 1) pb) (2 * k + 1) 0 = Some (map ?w [0..<2 * Suc k] @ drop (2 * Suc k) pb)"
      if "2 * k + 1 < n"
      using take_drop_write [of "2 * k + 1" "map ?w [0..<2 * k + 1]" pb 0] that assms(2) by (simp add: wr_def wide_def)
    consider "n = 2 * k + 1" | "n = 2 * Suc k" | "2 * Suc k < n"
      using True by fastforce
    then show ?thesis
    proof cases
      case 1
      then show ?thesis
        using d w1 by (subst unicode_loop.simps) simp
    next
      case 2
      then show ?thesis
        using d w1 w2 by (subst unicode_loop.simps) simp
    next
      case 3
      then have "unicode_loop pv n (2 * Suc k) (ib7 (Suc k)) (ibit7 (Suc k)) (map ?w [0..<2 * Suc k] @ drop (2 * Suc k) pb)
          = Some (map ?w [0..<n] @ drop n pb)"
        by (intro less.hyps) auto
      moreover have "2 * k + 1 < n" "\<not> 2 * k + 2 \<ge> n" "2 * k + 2 = 2 * Suc k" "\<not> 2 * k + 1 \<ge> n"
        using 3 by auto
      ultimately show ?thesis
        using d w1 w2 True by (subst unicode_loop.simps)
          (simp only: if_True if_False bind.bind_lunit advance7_next Let_def prod.case)
    qed
  qed
qed

section \<open>Sizes\<close>

text \<open>How many characters the header and the length announce.\<close>

definition count7 :: "BYTE list \<Rightarrow> nat" where
  "count7 pv = (8 * (length pv - 2) + (unat (hd pv) mod 8 + 1)) div 7"

lemma INT32_small: "\<bar>x\<bar> < 2 ^ 31 \<Longrightarrow> INT32 x = x"
  by (rule INT32_id) auto

lemma header_low: "uint (h AND 0x7) = int (unat h mod 8)" for h :: BYTE
proof -
  have m: "(0x7 :: BYTE) = mask 3"
    by (simp add: mask_eq_exp_minus_1)
  have "uint (h AND 0x7) = take_bit 3 (uint h)"
    by (simp only: m AND_mask_eq) (simp add: unsigned_take_bit_eq)
  then show ?thesis
    by (simp add: take_bit_eq_mod of_nat_mod)
qed

lemma cTotal7_count7:
  assumes "2 \<le> length pv" "length pv < 2 ^ 28"
  shows "cTotal7 (hd pv) (int (length pv)) = int (count7 pv)"
proof -
  let ?m = "length pv" and ?f = "unat (hd pv) mod 8 + 1"
  have f: "?f \<le> 8"
    by (simp add: Suc_leI)
  have i: "int ?m - 2 = int (?m - 2)"
    using assms(1) by simp
  have bounds: "\<bar>int (?m - 2)\<bar> < 2 ^ 31" "\<bar>int (?m - 2) * 8\<bar> < 2 ^ 31" "\<bar>int (?m - 2) * 8 + int ?f\<bar> < 2 ^ 31"
    using assms f by auto
  have "cTotal7 (hd pv) (int ?m) = cdiv (int (?m - 2) * 8 + int ?f) 7"
    unfolding cTotal7_def Let_def header_low i using INT32_small [OF bounds(1)] INT32_small [OF bounds(2)]
      INT32_small [OF bounds(3)] by (simp add: add.commute)
  also have "\<dots> = int (8 * (?m - 2) + ?f) div 7"
    by (simp add: cdiv_def mult.commute)
  finally show ?thesis
    by (simp add: count7_def zdiv_int)
qed

lemma count7_bound: "2 \<le> length pv \<Longrightarrow> 7 * count7 pv \<le> 8 * (length pv - 1)"
proof -
  assume "2 \<le> length pv"
  moreover have "unat (hd pv) mod 8 + 1 \<le> 8"
    by (simp add: Suc_leI)
  moreover have "7 * count7 pv \<le> 8 * (length pv - 2) + (unat (hd pv) mod 8 + 1)"
    unfolding count7_def by (rule times_div_less_eq_dividend)
  ultimately show ?thesis
    by linarith
qed

definition data_of :: "BYTE list \<Rightarrow> DATA" where
  "data_of pv = \<lparr>Pv = pv, m_cb = word_of_nat (length pv)\<rparr>"

lemma Pv_data_of [simp]: "Pv (data_of pv) = pv"
  by (simp add: data_of_def)

lemma sint_of_nat: "n < 2 ^ 31 \<Longrightarrow> sint (word_of_nat n :: ULONG) = int n"
  by (simp add: sint_uint signed_take_bit_int_eq_self uint_nat unat_of_nat take_bit_nat_eq_self
      unsigned_of_nat signed_of_nat)

lemma Cb_data_of [simp]: "length pv < 2 ^ 31 \<Longrightarrow> Cb (data_of pv) = int (length pv)"
  by (simp add: data_of_def Cb_def sint_of_nat)

section \<open>The decoders\<close>

lemma rd_hd: "pv \<noteq> [] \<Longrightarrow> rd pv 0 = Some (hd pv)"
  by (cases pv) (simp_all add: rd_def)

lemma ascii_correct:
  assumes "2 \<le> length pv" "length pv < 2 ^ 28" "c \<le> length pb"
  shows "ErrDecompress7BitAscii (data_of pv) (Some pb) (int c) =
    Some (if c < count7 pv then JET_wrnBufferTruncated else JET_errSuccess, int (count7 pv),
      Some (map (sept (le_nat (drop 1 pv))) [0..<min (count7 pv) c] @ drop (min (count7 pv) c) pb))"
proof -
  let ?n = "min (count7 pv) c"
  have ne: "pv \<noteq> []"
    using assms(1) by auto
  have "7 * ?n \<le> 8 * (length pv - 1)" "?n \<le> length pb"
    using count7_bound [OF assms(1)] assms(3) by auto
  from ascii_loop_sept [OF this, of 0]
  have l: "ascii_loop pv ?n 0 (Suc 0) 0 pb = Some (map (sept (le_nat (drop 1 pv))) [0..<?n] @ drop ?n pb)"
    by simp
  have "length pv < 2 ^ 31"
    using assms(2) by simp
  moreover have "nat (min (int (count7 pv)) (int c)) = ?n"
    by simp
  ultimately show ?thesis
    using l ne cTotal7_count7 [OF assms(1,2)]
    by (cases "c = 0") (simp_all add: ErrDecompress7BitAscii_def rd_hd)
qed

lemma unicode_correct:
  assumes "2 \<le> length pv" "length pv < 2 ^ 28" "c \<le> length pb"
  shows "ErrDecompress7BitUnicode (data_of pv) (Some pb) (int c) =
    Some (if c < 2 * count7 pv then JET_wrnBufferTruncated else JET_errSuccess, int (2 * count7 pv),
      Some (map (wide (le_nat (drop 1 pv))) [0..<min (2 * count7 pv) c] @ drop (min (2 * count7 pv) c) pb))"
proof -
  let ?n = "min (2 * count7 pv) c"
  have ne: "pv \<noteq> []"
    using assms(1) by auto
  have "(?n + 1) div 2 \<le> count7 pv"
    by linarith
  then have "7 * ((?n + 1) div 2) \<le> 8 * (length pv - 1)" "?n \<le> length pb"
    using count7_bound [OF assms(1)] assms(3) by auto
  from unicode_loop_wide [OF this, of 0]
  have l: "unicode_loop pv ?n 0 (Suc 0) 0 pb = Some (map (wide (le_nat (drop 1 pv))) [0..<?n] @ drop ?n pb)"
    by simp
  have "length pv < 2 ^ 31"
    using assms(2) by simp
  moreover have "INT32 (int (count7 pv) * 2) = int (2 * count7 pv)"
    using count7_bound [OF assms(1)] assms(2) by (subst INT32_small) auto
  moreover have "nat (min (int (2 * count7 pv)) (int c)) = ?n"
    by simp
  ultimately show ?thesis
    using l ne cTotal7_count7 [OF assms(1,2)]
    by (cases "c = 0") (simp_all add: ErrDecompress7BitUnicode_def rd_hd)
qed


section \<open>The packed form of a text\<close>

text \<open>
  What the 7-bit formats hold: a header with the scheme and the number of bits used in the last
  byte, then the characters, seven bits each, as one little-endian number.
\<close>

primrec pack_nat :: "BYTE list \<Rightarrow> nat" where
  "pack_nat [] = 0"
| "pack_nat (c # cs) = unat c + 2 ^ 7 * pack_nat cs"

primrec le_bytes :: "nat \<Rightarrow> nat \<Rightarrow> BYTE list" where
  "le_bytes 0 N = []"
| "le_bytes (Suc n) N = word_of_nat N # le_bytes n (N div 256)"

definition pack7 :: "COMPRESSION_SCHEME \<Rightarrow> BYTE list \<Rightarrow> BYTE list" where
  "pack7 scheme cs =
     (8 * scheme_code scheme + word_of_nat ((7 * length cs - 1) mod 8)) # le_bytes ((7 * length cs + 7) div 8) (pack_nat cs)"

lemma length_le_bytes [simp]: "length (le_bytes n N) = n"
  by (induction n arbitrary: N) auto

lemma le_nat_le_bytes: "N < 256 ^ n \<Longrightarrow> le_nat (le_bytes n N) = N"
proof (induction n arbitrary: N)
  case (Suc n)
  have "N div 256 < 256 ^ n"
    using Suc.prems by (simp add: less_mult_imp_div_less mult.commute)
  moreover have "unat (word_of_nat N :: BYTE) = N mod 256"
    by (simp add: unat_of_nat)
  ultimately show ?case
    using Suc.IH [of "N div 256"] by simp
qed simp

lemma pack_nat_bound: "(\<forall>c\<in>set cs. unat c < 128) \<Longrightarrow> pack_nat cs < 2 ^ (7 * length cs)"
  by (induction cs) (auto simp: power_add)

lemma sept_pack: "(\<forall>c\<in>set cs. unat c < 128) \<Longrightarrow> k < length cs \<Longrightarrow> sept (pack_nat cs) k = cs ! k"
proof (induction cs arbitrary: k)
  case (Cons c cs)
  have c: "unat c < 2 ^ 7"
    using Cons.prems by simp
  have split: "take_bit 7 (pack_nat (c # cs)) = unat c" "drop_bit 7 (pack_nat (c # cs)) = pack_nat cs"
    using c by (simp_all add: take_bit_eq_mod drop_bit_eq_div)
  show ?case
  proof (cases k)
    case 0
    then show ?thesis
      using split(1) by (simp add: sept_def)
  next
    case (Suc k')
    have "drop_bit (7 * k) (pack_nat (c # cs)) = drop_bit (7 * k') (drop_bit 7 (pack_nat (c # cs)))"
      unfolding Suc by (simp only: drop_bit_drop_bit mult_Suc_right add.commute)
    with Suc Cons show ?thesis
      by (simp add: sept_def split(2) del: pack_nat.simps)
  qed
qed simp

lemma map_sept_pack: "(\<forall>c\<in>set cs. unat c < 128) \<Longrightarrow> map (sept (pack_nat cs)) [0..<length cs] = cs"
  by (rule nth_equalityI) (auto simp: sept_pack)

lemma pack7_payload:
  assumes "\<forall>c\<in>set cs. unat c < 128"
  shows "le_nat (drop 1 (pack7 scheme cs)) = pack_nat cs"
proof -
  let ?n = "(7 * length cs + 7) div 8"
  have "7 * length cs \<le> 8 * ?n"
    by linarith
  then have "(2 :: nat) ^ (7 * length cs) \<le> 256 ^ ?n"
    using power_increasing [of "7 * length cs" "8 * ?n" "2 :: nat"] by (simp add: power_mult)
  then show ?thesis
    using pack_nat_bound [OF assms] by (simp add: pack7_def le_nat_le_bytes del: power_mult)
qed

lemma length_pack7: "length (pack7 scheme cs) = Suc ((7 * length cs + 7) div 8)"
  by (simp add: pack7_def)

lemma header_byte:
  fixes s :: BYTE
  assumes "unat s \<le> 31" "r < 8"
  shows "unat (8 * s + word_of_nat r) = 8 * unat s + r"
proof -
  have "unat (8 * s) = 8 * unat s"
    using assms(1) by (simp add: unat_word_ariths)
  moreover have "unat (word_of_nat r :: BYTE) = r"
    using assms(2) by (simp add: unat_of_nat)
  ultimately show ?thesis
    using assms by (simp add: unat_word_ariths(1))
qed

lemma header_pack7:
  shows "unat (hd (pack7 scheme cs)) mod 8 = (7 * length cs - 1) mod 8"
    and "drop_bit 3 (hd (pack7 scheme cs)) = scheme_code scheme"
proof -
  define r where "r = (7 * length cs - 1) mod 8"
  have r: "r < 8"
    by (simp add: r_def)
  have "unat (scheme_code scheme) \<le> 31"
    by (cases scheme) simp_all
  then have u: "unat (hd (pack7 scheme cs)) = 8 * unat (scheme_code scheme) + r"
    using header_byte [OF _ r] by (simp only: pack7_def list.sel r_def)
  with r show "unat (hd (pack7 scheme cs)) mod 8 = (7 * length cs - 1) mod 8"
    unfolding r_def [symmetric] by simp
  have "unat (drop_bit 3 (hd (pack7 scheme cs))) = unat (scheme_code scheme)"
    unfolding unat_drop_bit_eq u using r by (simp add: drop_bit_eq_div)
  then show "drop_bit 3 (hd (pack7 scheme cs)) = scheme_code scheme"
    by (simp only: word_unat_eq_iff)
qed

lemma count7_pack7:
  assumes "cs \<noteq> []"
  shows "count7 (pack7 scheme cs) = length cs"
proof -
  obtain n where n: "7 * length cs = Suc n"
    using assms by (cases cs) auto
  have "8 * (Suc ((Suc n + 7) div 8) - 2) + (n mod 8 + 1) = Suc n"
  proof -
    have "(Suc n + 7) div 8 = Suc (n div 8)"
      by simp
    then show ?thesis
      by simp
  qed
  then have "8 * (length (pack7 scheme cs) - 2) + (unat (hd (pack7 scheme cs)) mod 8 + 1) = 7 * length cs"
    unfolding length_pack7 header_pack7(1) n by simp
  then show ?thesis
    by (simp add: count7_def)
qed


section \<open>The handle cache\<close>

definition winv :: "CDataCompressor \<Rightarrow> bool" where
  "winv w \<longleftrightarrow> m_rgdecodeXpress w \<noteq> [] \<and> set (m_rgdecodeXpress w) \<subseteq> {0, XpressDecodeCreate}"

lemma ErrInit_winv: "0 < n \<Longrightarrow> winv (ErrInit n)"
  by (auto simp: winv_def ErrInit_def)

lemma open_handle:
  assumes "winv w"
  obtains w' where "ErrXpressDecodeOpen processor w = Some (w', JET_errSuccess, XpressDecodeCreate)" "winv w'"
proof -
  have ne: "m_rgdecodeXpress w \<noteq> []" and sub: "set (m_rgdecodeXpress w) \<subseteq> {0, XpressDecodeCreate}"
    using assms by (auto simp: winv_def)
  obtain arr' p where g: "GetCachedPtr processor (m_rgdecodeXpress w) = Some (arr', p)"
      "length arr' = length (m_rgdecodeXpress w)" "set arr' \<subseteq> insert 0 (set (m_rgdecodeXpress w))"
      "p \<in> insert 0 (set (m_rgdecodeXpress w))"
    using cache.get_members [OF ne] .
  then have "p = 0 \<or> p = XpressDecodeCreate" "winv (w\<lparr>m_rgdecodeXpress := arr'\<rparr>)"
    using ne sub by (auto simp: winv_def)
  with g(1) that show thesis
    by (fastforce simp: ErrXpressDecodeOpen_def XpressDecodeCreate_def)
qed

lemma close_handle:
  assumes "winv w"
  obtains w' where "XpressDecodeClose_ptr processor XpressDecodeCreate w = Some w'" "winv w'"
proof -
  have ne: "m_rgdecodeXpress w \<noteq> []" and sub: "set (m_rgdecodeXpress w) \<subseteq> {0, XpressDecodeCreate}"
    using assms by (auto simp: winv_def)
  obtain arr' c where g: "FCachePtr processor XpressDecodeCreate (m_rgdecodeXpress w) = Some (arr', c)"
      "length arr' = length (m_rgdecodeXpress w)" "set arr' \<subseteq> insert XpressDecodeCreate (set (m_rgdecodeXpress w))"
    using cache.put_members [OF ne] .
  then have "winv (w\<lparr>m_rgdecodeXpress := arr'\<rparr>)"
    using ne sub by (auto simp: winv_def)
  with g(1) that show thesis
    by (auto simp: XpressDecodeClose_ptr_def XpressDecodeCreate_def)
qed

section \<open>Xpress\<close>

text \<open>The block size stored after the header.\<close>

definition usize :: "BYTE list \<Rightarrow> nat" where
  "usize data = unat (data ! 1) + 256 * unat (data ! 2)"

lemma rd16_usize: "3 \<le> length data \<Longrightarrow> rd16 data 1 = Some (usize data)"
  by (simp add: rd16_def rd_def usize_def numeral_2_eq_2)

lemma xpress_call:
  assumes "winv w" "3 \<le> length data" "length data < 2 ^ 31" "0 < c"
    and "XpressDecode pb (int (usize data)) (min (int (usize data)) (int c)) (drop 3 data) (int (length data - 3)) = Some (r, pb')"
  obtains w' where "winv w'" "ErrDecompressXpress processor w (data_of data) (Some pb) (int c) = Some (w',
      if r = - 1 then JET_errDecompressionFailed else if c < usize data then JET_wrnBufferTruncated else JET_errSuccess,
      int (usize data), Some pb')"
proof -
  obtain w1 where o: "ErrXpressDecodeOpen processor w = Some (w1, JET_errSuccess, XpressDecodeCreate)" "winv w1"
    using open_handle [OF assms(1)] .
  obtain w2 where c: "XpressDecodeClose_ptr processor XpressDecodeCreate w1 = Some w2" "winv w2"
    using close_handle [OF o(2)] .
  have i: "INT32 (Cb (data_of data) - 3) = int (length data - 3)"
    using assms(2,3) by (subst INT32_id) auto
  have "ErrDecompressXpress processor w (data_of data) (Some pb) (int c) = Some (w2,
      if r = - 1 then JET_errDecompressionFailed else if c < usize data then JET_wrnBufferTruncated else JET_errSuccess,
      int (usize data), Some pb')"
    using assms(4,5) rd16_usize [OF assms(2)] o(1) c(1)
    by (simp add: ErrDecompressXpress_def xpress_body_def i Let_def jet_codes)
  with c(2) that show thesis
    by blast
qed

lemma xpress_returns:
  assumes "winv w" "3 \<le> length data" "length data < 2 ^ 31" "c \<le> length pb"
  obtains w' err pb' where "winv w'" "length pb' = length pb"
    "ErrDecompressXpress processor w (data_of data) (Some pb) (int c) = Some (w', err, int (usize data), Some pb')"
proof (cases "c = 0")
  case True
  then have "ErrDecompressXpress processor w (data_of data) (Some pb) (int c)
      = Some (w, JET_wrnBufferTruncated, int (usize data), Some pb)"
    using rd16_usize [OF assms(2)] by (simp add: ErrDecompressXpress_def Let_def)
  with assms(1) that show thesis
    by blast
next
  case False
  have "nat (min (int (usize data)) (int c)) \<le> length pb"
    using assms(4) by linarith
  from XpressDecode_returns [OF _ this, of "int (usize data)" "drop 3 data"]
  obtain r pb' where "XpressDecode pb (int (usize data)) (min (int (usize data)) (int c)) (drop 3 data) (int (length data - 3)) = Some (r, pb')"
      "length pb' = length pb"
    by auto
  with xpress_call [OF assms(1-3)] False that show thesis
    by (metis gr0I)
qed

section \<open>The exported function\<close>

lemma decompress_eq:
  assumes "n < 2 ^ 31"
  shows "decompress processor worker data (length data) out n =
    do { (worker, res, actual, out) \<leftarrow> ErrDecompress processor worker (data_of data) out (int n);
         Some (word_of_int res, word_of_int actual, out, worker) }"
  using assms by (simp add: decompress_def data_of_def SetCb_def SetPv_def sint_of_nat)

lemma scheme_distinct [simp]: "scheme_code s = scheme_code s' \<longleftrightarrow> s = s'"
  by (cases s; cases s') simp_all

lemmas scheme_codes = scheme_code.simps


lemma dispatch_ascii:
  "pv \<noteq> [] \<Longrightarrow> drop_bit 3 (hd pv) = scheme_code COMPRESS_7BITASCII \<Longrightarrow>
   ErrDecompress processor w (data_of pv) out c = map_option (Pair w) (ErrDecompress7BitAscii (data_of pv) out c)"
  by (cases "ErrDecompress7BitAscii (data_of pv) out c") (auto simp: ErrDecompress_def rd_hd Let_def)

lemma dispatch_unicode:
  "pv \<noteq> [] \<Longrightarrow> drop_bit 3 (hd pv) = scheme_code COMPRESS_7BITUNICODE \<Longrightarrow>
   ErrDecompress processor w (data_of pv) out c = map_option (Pair w) (ErrDecompress7BitUnicode (data_of pv) out c)"
  by (cases "ErrDecompress7BitUnicode (data_of pv) out c") (auto simp: ErrDecompress_def rd_hd Let_def)

lemma dispatch_xpress:
  "pv \<noteq> [] \<Longrightarrow> drop_bit 3 (hd pv) = scheme_code COMPRESS_XPRESS \<Longrightarrow>
   ErrDecompress processor w (data_of pv) out c = ErrDecompressXpress processor w (data_of pv) out c"
  by (simp add: ErrDecompress_def rd_hd Let_def)

lemma dispatch_other:
  "pv \<noteq> [] \<Longrightarrow> drop_bit 3 (hd pv) \<notin> scheme_code ` {COMPRESS_7BITASCII, COMPRESS_7BITUNICODE, COMPRESS_XPRESS} \<Longrightarrow>
   ErrDecompress processor w (data_of pv) out c = Some (w,
     if drop_bit 3 (hd pv) = scheme_code COMPRESS_SCRUB then JET_errSuccess else JET_errDecompressionFailed, 0, out)"
  by (auto simp: ErrDecompress_def rd_hd Let_def ErrDecompressScrub_def)

text \<open>A byte of input is the header alone: nothing is written.\<close>

lemma cTotal7_header_only: "cTotal7 h 1 \<in> {- 1, 0}"
proof -
  have "uint (h AND 0x7) \<le> 7"
    unfolding header_low using mod_less_divisor [of 8 "unat h"] by linarith
  moreover have "0 \<le> uint (h AND 0x7)"
    by simp
  ultimately consider "uint (h AND 0x7) = 0" | "uint (h AND 0x7) = 1" | "uint (h AND 0x7) = 2" | "uint (h AND 0x7) = 3"
    | "uint (h AND 0x7) = 4" | "uint (h AND 0x7) = 5" | "uint (h AND 0x7) = 6" | "uint (h AND 0x7) = 7"
    by linarith
  then show ?thesis
    unfolding cTotal7_def by cases (simp_all add: cdiv_def Let_def)
qed

lemma header_only:
  assumes "length pv = 1"
  shows "\<exists>err a. ErrDecompress7BitAscii (data_of pv) (Some pb) c = Some (err, a, Some pb)"
    and "\<exists>err a. ErrDecompress7BitUnicode (data_of pv) (Some pb) c = Some (err, a, Some pb)"
proof -
  have ne: "pv \<noteq> []" and cb: "Cb (data_of pv) = 1"
    using assms by auto
  have "cTotal7 (hd pv) 1 = - 1 \<or> cTotal7 (hd pv) 1 = 0"
    using cTotal7_header_only by blast
  then show "\<exists>err a. ErrDecompress7BitAscii (data_of pv) (Some pb) c = Some (err, a, Some pb)"
    and "\<exists>err a. ErrDecompress7BitUnicode (data_of pv) (Some pb) c = Some (err, a, Some pb)"
    by (auto simp: ErrDecompress7BitAscii_def ErrDecompress7BitUnicode_def rd_hd [OF ne] cb Let_def
        ascii_loop.simps unicode_loop.simps)
qed

lemma ErrDecompress_returns:
  assumes "winv w" "pv \<noteq> []" "length pv < 2 ^ 28" "c \<le> length pb"
    and "drop_bit 3 (hd pv) = scheme_code COMPRESS_XPRESS \<Longrightarrow> 3 \<le> length pv"
  shows "\<exists>w' err a pb'. ErrDecompress processor w (data_of pv) (Some pb) (int c) = Some (w', err, a, Some pb')
    \<and> winv w' \<and> length pb' = length pb"
proof -
  consider "drop_bit 3 (hd pv) = scheme_code COMPRESS_7BITASCII" | "drop_bit 3 (hd pv) = scheme_code COMPRESS_7BITUNICODE"
    | "drop_bit 3 (hd pv) = scheme_code COMPRESS_XPRESS"
    | "drop_bit 3 (hd pv) \<notin> scheme_code ` {COMPRESS_7BITASCII, COMPRESS_7BITUNICODE, COMPRESS_XPRESS}"
    by blast
  then show ?thesis
  proof cases
    case 1
    show ?thesis
    proof (cases "length pv = 1")
      case True
      then show ?thesis
        using header_only(1) [OF True, of pb "int c"] dispatch_ascii [OF assms(2) 1] assms(1) by auto
    next
      case False
      then have "2 \<le> length pv"
        using assms(2) by (cases pv) (auto simp: Suc_le_eq)
      from ascii_correct [OF this assms(3,4)] show ?thesis
        using dispatch_ascii [OF assms(2) 1] assms(1,4) by auto
    qed
  next
    case 2
    show ?thesis
    proof (cases "length pv = 1")
      case True
      then show ?thesis
        using header_only(2) [OF True, of pb "int c"] dispatch_unicode [OF assms(2) 2] assms(1) by auto
    next
      case False
      then have "2 \<le> length pv"
        using assms(2) by (cases pv) (auto simp: Suc_le_eq)
      from unicode_correct [OF this assms(3,4)] show ?thesis
        using dispatch_unicode [OF assms(2) 2] assms(1,4) by auto
    qed
  next
    case 3
    have "length pv < 2 ^ 31"
      using assms(3) by simp
    from xpress_returns [OF assms(1) assms(5) [OF 3] this assms(4)] show ?thesis
      using dispatch_xpress [OF assms(2) 3] by metis
  next
    case 4
    then show ?thesis
      using dispatch_other [OF assms(2) 4] assms(1) by simp
  qed
qed

text \<open>The result of a call does not depend on what the handle cache holds.\<close>

lemma ErrDecompress_worker_indep:
  assumes "winv w" "winv w'" "pv \<noteq> []" "length pv < 2 ^ 28" "c \<le> length pb"
    and "drop_bit 3 (hd pv) = scheme_code COMPRESS_XPRESS \<Longrightarrow> 3 \<le> length pv"
  shows "\<exists>err a out w1 w2. ErrDecompress processor w (data_of pv) (Some pb) (int c) = Some (w1, err, a, out) \<and> winv w1
    \<and> ErrDecompress processor' w' (data_of pv) (Some pb) (int c) = Some (w2, err, a, out) \<and> winv w2"
proof (cases "drop_bit 3 (hd pv) = scheme_code COMPRESS_XPRESS \<and> 0 < c")
  case True
  have l: "3 \<le> length pv" "length pv < 2 ^ 31"
    using assms(4,6) True by auto
  have "nat (min (int (usize pv)) (int c)) \<le> length pb"
    using assms(5) by linarith
  from XpressDecode_returns [OF _ this, of "int (usize pv)" "drop 3 pv"]
  obtain r pb' where r: "XpressDecode pb (int (usize pv)) (min (int (usize pv)) (int c)) (drop 3 pv) (int (length pv - 3)) = Some (r, pb')"
    by auto
  show ?thesis
    using xpress_call [OF assms(1) l _ r, of processor] xpress_call [OF assms(2) l _ r, of processor']
      dispatch_xpress [OF assms(3)] True by metis
next
  case False
  obtain w1 err a pb1 where "ErrDecompress processor w (data_of pv) (Some pb) (int c) = Some (w1, err, a, Some pb1)" "winv w1"
    using ErrDecompress_returns [OF assms(1,3-6)] by blast
  moreover obtain w2 err' a' pb2 where "ErrDecompress processor' w' (data_of pv) (Some pb) (int c) = Some (w2, err', a', Some pb2)" "winv w2"
    using ErrDecompress_returns [OF assms(2-6)] by blast
  ultimately show ?thesis
    using False assms(3) by (auto simp: ErrDecompress_def rd_hd Let_def ErrDecompressXpress_def bind_eq_Some_conv split: if_splits)
qed

lemma decompress_worker_indep:
  assumes "winv w" "winv w'" "data \<noteq> []" "length data < 2 ^ 28" "n < 2 ^ 31" "n \<le> length pb"
    and "drop_bit 3 (hd data) = scheme_code COMPRESS_XPRESS \<Longrightarrow> 3 \<le> length data"
  shows "\<exists>res actual out w1 w2. decompress processor w data (length data) (Some pb) n = Some (res, actual, out, w1)
    \<and> winv w1 \<and> decompress processor' w' data (length data) (Some pb) n = Some (res, actual, out, w2) \<and> winv w2"
  using ErrDecompress_worker_indep [OF assms(1-4,6,7), where processor = processor and processor' = processor']
  unfolding decompress_eq [OF assms(5)] by auto

text \<open>A call without a buffer asks for the size; it leaves the worker as it is.\<close>

lemma decompress_query:
  assumes "data \<noteq> []" "drop_bit 3 (hd data) = scheme_code COMPRESS_XPRESS \<Longrightarrow> 3 \<le> length data"
  shows "\<exists>res actual. \<forall>w processor. decompress processor w data (length data) None n = Some (res, actual, None, w)"
proof (cases "drop_bit 3 (hd data) = scheme_code COMPRESS_XPRESS")
  case True
  then show ?thesis
    using rd16_usize [of data] assms by (simp add: decompress_def ErrDecompress_def SetPv_def SetCb_def rd_hd ErrDecompressXpress_def Let_def)
next
  case False
  then show ?thesis
    using assms(1) by (auto simp: decompress_def ErrDecompress_def SetPv_def SetCb_def rd_hd ErrDecompress7BitAscii_def ErrDecompress7BitUnicode_def Let_def)
qed

lemma map_upt_min: "map f [0..<min n m] = take m (map f [0..<n])"
  by (cases "m \<le> n") (auto simp: take_map min_def)

section \<open>Properties\<close>

text \<open>
  C1: whatever the compressed bytes, a call of \<open>decompress\<close> that is given at least a header
  (and the size field, for Xpress) returns, reads inside the input and writes inside the output
  buffer only, and leaves the cache of decoder handles well formed for the next call.
\<close>

theorem decompress_memory_safe:
  assumes "winv worker" "data \<noteq> []" "length data < 2 ^ 28" "length pb < 2 ^ 31"
    and "drop_bit 3 (hd data) = scheme_code COMPRESS_XPRESS \<Longrightarrow> 3 \<le> length data"
  shows "\<exists>res actual pb' worker'. decompress processor worker data (length data) (Some pb) (length pb)
      = Some (res, actual, Some pb', worker') \<and> length pb' = length pb \<and> winv worker'"
  using ErrDecompress_returns [OF assms(1-3) order_refl assms(5), where pb = pb and processor = processor] decompress_eq [OF assms(4), of processor worker data]
  by auto

theorem decompress_memory_safe_witness:
  "\<exists>res actual pb' worker'. decompress 5 (ErrInit 4) [0x18, 0xFF, 0xFF, 1, 2, 3] (length [0x18, 0xFF, 0xFF, 1, 2, 3 :: BYTE])
      (Some [0, 0]) (length [0, 0 :: BYTE])
      = Some (res, actual, Some pb', worker') \<and> length pb' = length [0, 0 :: BYTE] \<and> winv worker'"
  by (rule decompress_memory_safe) (simp_all add: ErrInit_winv)

text \<open>
  C6: the 7-bit ASCII decoder inverts the packing of a text of 7-bit characters: it reports the
  length of the text, writes as many characters as fit, warns exactly when some do not fit, and
  leaves the rest of the buffer alone.
\<close>

theorem decompress_ascii_roundtrip:
  assumes "cs \<noteq> []" "\<forall>c\<in>set cs. unat c < 128" "length cs < 2 ^ 28" "length pb < 2 ^ 31"
  defines "data \<equiv> pack7 COMPRESS_7BITASCII cs"
  shows "decompress processor worker data (length data) (Some pb) (length pb)
    = Some (if length pb < length cs then 1006 else 0, word_of_nat (length cs),
        Some (take (length pb) cs @ drop (length cs) pb), worker)"
proof -
  have ne: "data \<noteq> []" and two: "2 \<le> length data" and small: "length data < 2 ^ 28"
    using assms(1,3) unfolding data_def length_pack7 by (auto simp: pack7_def Suc_le_eq div_greater_zero_iff)
  have payload: "map (sept (le_nat (drop 1 data))) [0..<min (length cs) (length pb)] = take (length pb) cs"
    unfolding data_def pack7_payload [OF assms(2)] map_upt_min by (simp add: map_sept_pack [OF assms(2)])
  show ?thesis
    using ascii_correct [OF two small order_refl, of pb] dispatch_ascii [OF ne header_pack7(2) [of COMPRESS_7BITASCII cs, folded data_def]]
    unfolding decompress_eq [OF assms(4)] count7_pack7 [OF assms(1), of COMPRESS_7BITASCII, folded data_def] payload
    by (auto simp: jet_codes min_def)
qed

theorem decompress_ascii_roundtrip_witness:
  "decompress 0 (ErrInit 1) (pack7 COMPRESS_7BITASCII [0x68, 0x69]) (length (pack7 COMPRESS_7BITASCII [0x68, 0x69]))
     (Some [1, 2, 3]) (length [1, 2, 3 :: BYTE]) = Some (0, 2, Some [0x68, 0x69, 3], ErrInit 1)"
  using decompress_ascii_roundtrip [of "[0x68, 0x69]" "[1, 2, 3]" 0 "ErrInit 1"] by simp

text \<open>The wide form of a text.\<close>

definition widen :: "BYTE list \<Rightarrow> BYTE list" where
  "widen cs = concat (map (\<lambda>c. [c, 0]) cs)"

lemma map_wide: "map (wide N) [0..<2 * n] = widen (map (sept N) [0..<n])"
  by (induction n) (simp_all add: widen_def wide_def)

lemma length_widen: "length (widen cs) = 2 * length cs"
  by (induction cs) (simp_all add: widen_def)

text \<open>
  C7: the 7-bit Unicode decoder inverts the packing likewise, giving each character as a
  little-endian 16-bit unit.
\<close>

theorem decompress_unicode_roundtrip:
  assumes "cs \<noteq> []" "\<forall>c\<in>set cs. unat c < 128" "length cs < 2 ^ 28" "length pb < 2 ^ 31"
  defines "data \<equiv> pack7 COMPRESS_7BITUNICODE cs"
  shows "decompress processor worker data (length data) (Some pb) (length pb)
    = Some (if length pb < 2 * length cs then 1006 else 0, word_of_nat (2 * length cs),
        Some (take (length pb) (widen cs) @ drop (2 * length cs) pb), worker)"
proof -
  have ne: "data \<noteq> []" and two: "2 \<le> length data" and small: "length data < 2 ^ 28"
    using assms(1,3) unfolding data_def length_pack7 by (auto simp: pack7_def Suc_le_eq div_greater_zero_iff)
  have payload: "map (wide (le_nat (drop 1 data))) [0..<min (2 * length cs) (length pb)] = take (length pb) (widen cs)"
    unfolding data_def pack7_payload [OF assms(2)] map_upt_min map_wide by (simp add: map_sept_pack [OF assms(2)])
  show ?thesis
    using unicode_correct [OF two small order_refl, of pb] dispatch_unicode [OF ne header_pack7(2) [of COMPRESS_7BITUNICODE cs, folded data_def]]
    unfolding decompress_eq [OF assms(4)] count7_pack7 [OF assms(1), of COMPRESS_7BITUNICODE, folded data_def] payload
    by (auto simp: jet_codes min_def)
qed

theorem decompress_unicode_roundtrip_witness:
  "decompress 0 (ErrInit 1) (pack7 COMPRESS_7BITUNICODE [0x68, 0x69]) (length (pack7 COMPRESS_7BITUNICODE [0x68, 0x69]))
     (Some [1, 2, 3]) (length [1, 2, 3 :: BYTE]) = Some (1006, 4, Some [0x68, 0, 0x69], ErrInit 1)"
  using decompress_unicode_roundtrip [of "[0x68, 0x69]" "[1, 2, 3]" 0 "ErrInit 1"] by (simp add: widen_def)

text \<open>An Xpress block of valid sizes.\<close>

lemma decompress_xpress_valid:
  assumes "winv worker" "3 \<le> length data" "length data < 2 ^ 31" "drop_bit 3 (hd data) = scheme_code COMPRESS_XPRESS"
    and "length pb < 2 ^ 31"
    and "valid_sizes (int (usize data)) (min (int (usize data)) (int (length pb))) (int (length (drop 3 data)))"
  shows "\<exists>worker'. winv worker' \<and>
    (case lz_decode (drop 3 data) (usize data) (min (usize data) (length pb)) of
       Some xs \<Rightarrow> decompress processor worker data (length data) (Some pb) (length pb)
         = Some (if length pb < usize data then 1006 else 0, word_of_nat (usize data), Some (xs @ drop (usize data) pb), worker')
     | None \<Rightarrow> \<exists>out. length out = length pb \<and> decompress processor worker data (length data) (Some pb) (length pb)
         = Some (- 1620, word_of_nat (usize data), Some out, worker'))"
proof -
  let ?w = "min (int (usize data)) (int (length pb))" and ?lz = "lz_decode (drop 3 data) (usize data) (min (usize data) (length pb))"
  have n: "nat ?w = min (usize data) (length pb)" "nat (int (usize data)) = usize data" "nat ?w \<le> length pb"
    by auto
  have pos: "0 < length pb" and ne: "data \<noteq> []"
    using assms(2,6) by (auto simp: valid_sizes_def)
  note x = XpressDecode_correct [OF assms(6) n(3), unfolded n]
  obtain r out where r: "XpressDecode pb (int (usize data)) ?w (drop 3 data) (int (length data - 3)) = Some (r, out)"
      "r = - 1 \<longleftrightarrow> ?lz = None" "length out = length pb" "\<And>xs. ?lz = Some xs \<Longrightarrow> out = xs @ drop (usize data) pb"
  proof (cases ?lz)
    case None
    with x that show thesis
      by auto
  next
    case (Some xs)
    with x have e: "XpressDecode pb (int (usize data)) ?w (drop 3 data) (int (length data - 3))
        = Some (?w, xs @ drop (min (usize data) (length pb)) pb)" and l: "length xs = min (usize data) (length pb)"
      by auto
    have "drop (min (usize data) (length pb)) pb = drop (usize data) pb"
      by (simp add: min_def)
    with e l Some that show thesis
      by auto
  qed
  obtain w' where "winv w'" "ErrDecompressXpress processor worker (data_of data) (Some pb) (int (length pb)) = Some (w',
      if r = - 1 then JET_errDecompressionFailed else if length pb < usize data then JET_wrnBufferTruncated else JET_errSuccess,
      int (usize data), Some out)"
    using xpress_call [OF assms(1-3) pos r(1)] .
  then show ?thesis
    using r(2-4) dispatch_xpress [OF ne assms(4)] decompress_eq [OF assms(5)]
    by (intro exI [of _ w']) (auto simp: jet_codes split: option.splits)
qed

definition sample_block :: "BYTE list" where
  "sample_block = [0x18, 16, 0] @ sample"

lemma sample_block_facts:
  "usize sample_block = 16" "drop 3 sample_block = sample" "length sample_block = 11" "hd sample_block = 0x18" "length sample = 8"
  by (simp_all add: sample_block_def sample_def usize_def)

text \<open>
  What a call on an Xpress block with compressed bytes \<open>drop 3 data\<close> and stored size \<open>usize data\<close> gives. A block whose sizes the decoder
  takes is decoded or corrupt. Of the others, one of the stored size as many bytes as it has, or of size 0, counts as decoded with nothing written,
  and the rest fail.
\<close>

definition xpress_result :: "BYTE list \<Rightarrow> BYTE list \<Rightarrow> ULONG \<Rightarrow> BYTE list \<Rightarrow> bool" where
  "xpress_result data pb res out \<longleftrightarrow>
     (let n = usize data; ok = (if length pb < n then 1006 else 0)
      in if pb = [] then res = 1006 \<and> out = pb
         else if valid_sizes (int n) (min (int n) (int (length pb))) (int (length (drop 3 data))) then
           (case lz_decode (drop 3 data) n (min n (length pb)) of
              Some xs \<Rightarrow> res = ok \<and> out = xs @ drop n pb
            | None \<Rightarrow> res = - 1620 \<and> length out = length pb)
         else if length (drop 3 data) = n \<or> n = 0 then res = ok \<and> out = pb
         else res = - 1620 \<and> out = pb)"

text \<open>
  C18: on every Xpress block, whatever its sizes, and every buffer \<open>decompress\<close> reports the size stored in the block. A block of valid sizes gives
  what the list-based decoder specifies, as far as the buffer goes, with a warning when that is not all of it, or \<open>JET_errDecompressionFailed\<close>
  exactly when the block is corrupt; a block of other sizes fails with the buffer untouched, but for one as long as its stored size or of stored
  size 0, which succeeds with the buffer untouched; a call with no buffer returns the truncation warning.
\<close>

theorem decompress_xpress_correct:
  assumes "winv worker" "3 \<le> length data" "length data < 2 ^ 31" "drop_bit 3 (hd data) = scheme_code COMPRESS_XPRESS" "length pb < 2 ^ 31" "n < 2 ^ 31"
  shows "(\<exists>worker' res out. winv worker' \<and> decompress processor worker data (length data) (Some pb) (length pb)
      = Some (res, word_of_nat (usize data), Some out, worker') \<and> xpress_result data pb res out)
    \<and> decompress processor worker data (length data) None n = Some (1006, word_of_nat (usize data), None, worker)"
proof
  have ne: "data \<noteq> []"
    using assms(2) by auto
  show "decompress processor worker data (length data) None n = Some (1006, word_of_nat (usize data), None, worker)"
    using dispatch_xpress [OF ne assms(4)] rd16_usize [OF assms(2)] decompress_eq [OF assms(6)]
    by (simp add: ErrDecompressXpress_def Let_def jet_codes)
  let ?w = "min (int (usize data)) (int (length pb))"
  consider "pb = []" | "pb \<noteq> []" "valid_sizes (int (usize data)) ?w (int (length (drop 3 data)))"
    | "pb \<noteq> []" "\<not> valid_sizes (int (usize data)) ?w (int (length (drop 3 data)))"
    by blast
  then show "\<exists>worker' res out. winv worker' \<and> decompress processor worker data (length data) (Some pb) (length pb)
      = Some (res, word_of_nat (usize data), Some out, worker') \<and> xpress_result data pb res out"
  proof cases
    case 1
    then have "decompress processor worker data (length data) (Some pb) (length pb) = Some (1006, word_of_nat (usize data), Some pb, worker)"
      using dispatch_xpress [OF ne assms(4)] rd16_usize [OF assms(2)] decompress_eq [of 0 processor worker data "Some []"]
      by (simp add: ErrDecompressXpress_def Let_def jet_codes)
    then show ?thesis
      using 1 assms(1) by (auto simp: xpress_result_def Let_def)
  next
    case 2
    then show ?thesis
      using decompress_xpress_valid [OF assms(1-5) 2(2), of processor]
      unfolding xpress_result_def Let_def by (auto split: option.splits)
  next
    case 3
    let ?r = "if int (length data - 3) = int (usize data) \<or> ?w = 0 then ?w else - 1"
    have x: "XpressDecode pb (int (usize data)) ?w (drop 3 data) (int (length data - 3)) = Some (?r, pb)"
      using XpressDecode_trivial [OF 3(2)] by simp
    have pos: "0 < length pb"
      using 3(1) by simp
    obtain w' where w': "winv w'" "ErrDecompressXpress processor worker (data_of data) (Some pb) (int (length pb)) = Some (w',
        if ?r = - 1 then JET_errDecompressionFailed else if length pb < usize data then JET_wrnBufferTruncated else JET_errSuccess, int (usize data), Some pb)"
      using xpress_call [OF assms(1-3) pos x] .
    have r: "?r = - 1 \<longleftrightarrow> \<not> (length (drop 3 data) = usize data \<or> usize data = 0)"
      using pos by (auto simp: min_def split: if_splits)
    show ?thesis
      using w' 3 r dispatch_xpress [OF ne assms(4)] decompress_eq [OF assms(5)]
      by (intro exI [of _ w']) (auto simp: jet_codes xpress_result_def Let_def)
  qed
qed

theorem decompress_xpress_correct_witness:
  "(\<exists>worker' res out. winv worker' \<and> decompress 1 (ErrInit 2) sample_block (length sample_block) (Some (replicate 20 0)) (length (replicate 20 (0 :: BYTE)))
      = Some (res, 16, Some out, worker') \<and> res = 0 \<and> out = replicate 16 0x61 @ replicate 4 0)
    \<and> decompress 1 (ErrInit 2) sample_block (length sample_block) None 0 = Some (1006, 16, None, ErrInit 2)"
proof -
  have v: "valid_sizes (int (usize sample_block)) (min (int (usize sample_block)) (int (length (replicate 20 (0 :: BYTE)))))
      (int (length (drop 3 sample_block)))"
    unfolding sample_block_facts by (simp add: valid_sizes_def)
  have "xpress_result sample_block (replicate 20 0) res out \<longleftrightarrow> res = 0 \<and> out = replicate 16 0x61 @ replicate 4 0" for res out
    using v sample_lz unfolding xpress_result_def Let_def sample_block_facts by simp
  then show ?thesis
    using decompress_xpress_correct [OF ErrInit_winv [of 2], of sample_block "replicate 20 0" 0 1] unfolding sample_block_facts by simp
qed

text \<open>
  The two-phase protocol of the callers. Calling \<open>decompress\<close> without a buffer changes
  nothing and reports the size that a second call on the same data reports too.
\<close>

theorem decompress_size_query:
  assumes "decompress processor worker data data_size None n = Some (res, actual, out, worker1)"
    and "decompress processor' worker' data data_size (Some pb) m = Some (res', actual', out', worker2)"
  shows "actual' = actual \<and> out = None \<and> worker1 = worker"
  using assms
  by (auto simp: decompress_def ErrDecompress_def ErrDecompress7BitAscii_def ErrDecompress7BitUnicode_def
      ErrDecompressXpress_def Let_def bind_eq_Some_conv split: if_splits)

theorem decompress_size_query_witness:
  "decompress 1 (ErrInit 2) sample_block 11 None 0 = Some (1006, 16, None, ErrInit 2)"
proof -
  have q: "\<exists>r a ob w. decompress 1 (ErrInit 2) sample_block 11 None 0 = Some (r, a, ob, w) \<and> r = 1006"
    by (simp add: sample_block_def sample_def decompress_def ErrDecompress_def SetPv_def SetCb_def rd_def
        ErrDecompressXpress_def rd16_def Let_def jet_codes)
  moreover have "\<exists>r ob w. decompress 0 (ErrInit 1) sample_block 11 (Some []) 0 = Some (r, 16, ob, w)"
    by (simp add: sample_block_def sample_def decompress_def ErrDecompress_def SetPv_def SetCb_def rd_def
        ErrDecompressXpress_def rd16_def Let_def)
  ultimately show ?thesis
    using decompress_size_query by blast
qed

section \<open>Corner cases\<close>



end
