(* ===== verification/Dyn_Array.thy ===== *)
theory Dyn_Array
  imports Ese_Prelude "HOL-Library.Multiset"
begin

text \<open>
  \<open>CArray\<close> of \<open>ms/collection.hxx\<close>: an array that grows by multiples of \<open>m_centryGrowth\<close>.
  The storage is \<open>None\<close> for the null pointer, otherwise the list of all \<open>m_centryMax\<close>
  entries; a pointer to an entry is its index, \<open>None\<close> being null. \<open>size_t\<close> values are
  natural numbers and the arithmetic that may wrap is written out.

  What \<open>new CEntry[n]\<close> gives is an argument: \<open>None\<close> when it fails, otherwise the contents of
  the fresh entries. The C library's \<open>qsort\<close> and \<open>bsearch\<close> are arguments too, with what
  the C standard says of them as hypotheses (\<open>qsort_law\<close>, \<open>bsearch_law\<close>).

  The interface \<open>entry_array\<close> is what a client of the array relies on; \<open>CArray\<close> satisfies it.
\<close>

section \<open>State\<close>

definition SIZE_MAX :: nat where "SIZE_MAX = 2 ^ 64 - 1"

definition size_inc :: "nat \<Rightarrow> nat" where
  "size_inc i = (if i = SIZE_MAX then 0 else i + 1)"

definition size_dec :: "nat \<Rightarrow> nat" where
  "size_dec i = (if i = 0 then SIZE_MAX else i - 1)"

datatype CArray_ERR = AR_errSuccess | AR_errOutOfMemory

record 'e CArray =
  m_centry :: nat
  m_centryMax :: nat
  m_rgentry :: "'e list option"
  m_entryDefault :: 'e
  m_fEntryDefault :: bool
  m_centryGrowth :: nat

type_synonym 'e storage = "(nat \<Rightarrow> 'e) option"

definition CArray_default :: "'e \<Rightarrow> 'e CArray" where
  "CArray_default dflt = \<lparr>m_centry = 0, m_centryMax = 0, m_rgentry = None, m_entryDefault = dflt,
     m_fEntryDefault = False, m_centryGrowth = 1\<rparr>"

definition SetCapacityGrowth :: "nat \<Rightarrow> 'e CArray \<Rightarrow> 'e CArray" where
  "SetCapacityGrowth centryGrowth a = a\<lparr>m_centryGrowth := (if centryGrowth = 0 then 1 else centryGrowth)\<rparr>"

definition CArray_growth :: "'e \<Rightarrow> nat \<Rightarrow> 'e CArray" where
  "CArray_growth dflt centryGrowth = SetCapacityGrowth centryGrowth
     \<lparr>m_centry = 0, m_centryMax = 0, m_rgentry = None, m_entryDefault = dflt,
      m_fEntryDefault = False, m_centryGrowth = 0\<rparr>"

section \<open>Access\<close>

definition Size :: "'e CArray \<Rightarrow> nat" where "Size a = m_centry a"

definition Capacity :: "'e CArray \<Rightarrow> nat" where "Capacity a = m_centryMax a"

definition PEntry :: "'e CArray \<Rightarrow> nat \<Rightarrow> nat option" where
  "PEntry a ientry = (if ientry < m_centry a then Some ientry else None)"

text \<open>Reading or writing through a pointer.\<close>

definition deref :: "'e CArray \<Rightarrow> nat option \<Rightarrow> 'e option" where
  "deref a p = do { i \<leftarrow> p; rg \<leftarrow> m_rgentry a; rd rg i }"

definition Entry :: "'e CArray \<Rightarrow> nat \<Rightarrow> 'e option" where
  "Entry a ientry = deref a (PEntry a ientry)"

definition SetEntry :: "nat option \<Rightarrow> 'e \<Rightarrow> 'e CArray \<Rightarrow> 'e CArray option" where
  "SetEntry pentry entry a =
     do { i \<leftarrow> pentry; rg \<leftarrow> m_rgentry a; rg' \<leftarrow> wr rg i entry; Some (a\<lparr>m_rgentry := Some rg'\<rparr>) }"

definition SetEntryDefault :: "'e \<Rightarrow> 'e CArray \<Rightarrow> 'e CArray" where
  "SetEntryDefault entry a = a\<lparr>m_entryDefault := entry, m_fEntryDefault := True\<rparr>"

section \<open>Size and capacity\<close>

text \<open>Copies the entries \<open>k\<close> and up of \<open>a\<close>, the first \<open>n\<close> in all, into the new storage.\<close>

function copy_entries :: "'e CArray \<Rightarrow> nat \<Rightarrow> nat \<Rightarrow> 'e list \<Rightarrow> 'e list option" where
  "copy_entries a n k rgentryNew =
     (if k < n
      then do { e \<leftarrow> Entry a k; rg' \<leftarrow> wr rgentryNew k e; copy_entries a n (k + 1) rg' }
      else Some rgentryNew)"
  by pat_completeness auto
termination
  by (relation "measure (\<lambda>(a, n, k, rg). n - k)") auto

declare copy_entries.simps [simp del]

definition ErrSetCapacity :: "'e storage \<Rightarrow> nat \<Rightarrow> 'e CArray \<Rightarrow> ('e CArray \<times> CArray_ERR) option" where
  "ErrSetCapacity new centryMax a =
     (if m_centryMax a \<noteq> centryMax
      then if centryMax \<noteq> 0
        then (case new of
            None \<Rightarrow> Some (a, AR_errOutOfMemory)
          | Some f \<Rightarrow>
              (let a = a\<lparr>m_centry := min (m_centry a) centryMax\<rparr>
               in do { rg \<leftarrow> copy_entries a (m_centry a) 0 (map f [0..<centryMax]);
                       Some (a\<lparr>m_centryMax := centryMax, m_rgentry := Some rg\<rparr>, AR_errSuccess) }))
        else Some (a\<lparr>m_centry := 0, m_centryMax := 0, m_rgentry := None\<rparr>, AR_errSuccess)
      else Some (a, AR_errSuccess))"

text \<open>The capacity asked for: the next multiple of the growth unless that overflows.\<close>

definition grown_capacity :: "nat \<Rightarrow> 'e CArray \<Rightarrow> nat" where
  "grown_capacity centry a =
     (let centryT = m_centryMax a + ((centry - m_centryMax a - 1) div m_centryGrowth a) * m_centryGrowth a
      in if centryT \<le> SIZE_MAX - m_centryGrowth a then centryT + m_centryGrowth a else centry)"

function fill_default :: "'e \<Rightarrow> nat \<Rightarrow> nat \<Rightarrow> 'e list option \<Rightarrow> 'e list option option" where
  "fill_default dflt centry k rg =
     (if k < centry
      then do { r \<leftarrow> rg; r' \<leftarrow> wr r k dflt; fill_default dflt centry (k + 1) (Some r') }
      else Some rg)"
  by pat_completeness auto
termination
  by (relation "measure (\<lambda>(d, n, k, rg). n - k)") auto

declare fill_default.simps [simp del]

definition ErrSetSize :: "'e storage \<Rightarrow> nat \<Rightarrow> 'e CArray \<Rightarrow> ('e CArray \<times> CArray_ERR) option" where
  "ErrSetSize new centry a =
     do { (a, err) \<leftarrow> (if m_centryMax a < centry then ErrSetCapacity new (grown_capacity centry a) a
                       else Some (a, AR_errSuccess));
          if err \<noteq> AR_errSuccess then Some (a, err)
          else do { rg \<leftarrow> (if m_fEntryDefault a \<and> centry > m_centry a
                           then fill_default (m_entryDefault a) centry (m_centry a) (m_rgentry a)
                           else Some (m_rgentry a));
                    Some (a\<lparr>m_rgentry := rg, m_centry := centry\<rparr>, AR_errSuccess) } }"

definition ErrSetEntry :: "'e storage \<Rightarrow> nat \<Rightarrow> 'e \<Rightarrow> 'e CArray \<Rightarrow> ('e CArray \<times> CArray_ERR) option" where
  "ErrSetEntry new ientry entry a =
     (let centryReq = size_inc ientry
      in do { (a, err) \<leftarrow> (if m_centry a < centryReq then ErrSetSize new centryReq a else Some (a, AR_errSuccess));
              if err \<noteq> AR_errSuccess then Some (a, err)
              else do { a \<leftarrow> SetEntry (PEntry a ientry) entry a; Some (a, AR_errSuccess) } })"

definition CArray_ErrClone :: "'e storage \<Rightarrow> 'e CArray \<Rightarrow> 'e CArray \<Rightarrow> ('e CArray \<times> CArray_ERR) option" where
  "CArray_ErrClone new array a =
     (if m_centryMax array \<noteq> 0 \<and> new = None then Some (a, AR_errOutOfMemory)
      else do { rg \<leftarrow> (if m_centryMax array \<noteq> 0
                      then (case new of None \<Rightarrow> None
                          | Some f \<Rightarrow> map_option Some (copy_entries array (Size array) 0 (map f [0..<m_centryMax array])))
                      else if Size array = 0 then Some None else None);
                Some (a\<lparr>m_centry := m_centry array, m_centryMax := m_centryMax array, m_rgentry := rg,
                        m_entryDefault := m_entryDefault array, m_fEntryDefault := m_fEntryDefault array,
                        m_centryGrowth := m_centryGrowth array\<rparr>, AR_errSuccess) })"

section \<open>Sorting and searching\<close>

definition Sort :: "('e list \<Rightarrow> 'e list) \<Rightarrow> 'e CArray \<Rightarrow> 'e CArray" where
  "Sort qsort a = (case m_rgentry a of
      None \<Rightarrow> a
    | Some rg \<Rightarrow> a\<lparr>m_rgentry := Some (qsort (take (m_centry a) rg) @ drop (m_centry a) rg)\<rparr>)"

text \<open>\<open>pEntry\<close> and \<open>pEntryUnique\<close> are indices; the loop runs up to \<open>cInitialSize\<close>.\<close>

function unique_loop :: "('e \<Rightarrow> 'e \<Rightarrow> int) \<Rightarrow> nat \<Rightarrow> nat \<Rightarrow> nat \<Rightarrow> 'e list \<Rightarrow> (nat \<times> 'e list) option" where
  "unique_loop pfnCompare n iEntry iUnique rg =
     (if iEntry < n
      then do { u \<leftarrow> rd rg iUnique; e \<leftarrow> rd rg iEntry;
                if pfnCompare u e \<noteq> 0
                then do { rg' \<leftarrow> wr rg (iUnique + 1) e; unique_loop pfnCompare n (iEntry + 1) (iUnique + 1) rg' }
                else unique_loop pfnCompare n (iEntry + 1) iUnique rg }
      else Some (iUnique, rg))"
  by pat_completeness auto
termination
  by (relation "measure (\<lambda>(c, n, i, u, rg). n - i)") auto

declare unique_loop.simps [simp del]

definition SortAndRemoveDuplicates ::
  "('e list \<Rightarrow> 'e list) \<Rightarrow> ('e \<Rightarrow> 'e \<Rightarrow> int) \<Rightarrow> 'e CArray \<Rightarrow> ('e CArray \<times> CArray_ERR) option" where
  "SortAndRemoveDuplicates qsort pfnCompare a =
     (let a = Sort qsort a; cInitialSize = m_centry a
      in do { (iUnique, rg) \<leftarrow> (case m_rgentry a of
                  None \<Rightarrow> if cInitialSize = 0 then Some (0, None) else None
                | Some rg \<Rightarrow> map_option (apsnd Some) (unique_loop pfnCompare cInitialSize 0 0 rg));
              let cFinalSize = iUnique + 1
              in ErrSetSize None (min cInitialSize cFinalSize) (a\<lparr>m_rgentry := rg\<rparr>) })"

fun linear_loop :: "('e \<Rightarrow> 'e \<Rightarrow> int) \<Rightarrow> 'e \<Rightarrow> nat \<Rightarrow> 'e list \<Rightarrow> nat option" where
  "linear_loop pfnCompare entrySearch iEntry [] = None"
| "linear_loop pfnCompare entrySearch iEntry (e # es) =
     (if pfnCompare entrySearch e = 0 then Some iEntry else linear_loop pfnCompare entrySearch (iEntry + 1) es)"

definition SearchLinear :: "('e \<Rightarrow> 'e \<Rightarrow> int) \<Rightarrow> 'e \<Rightarrow> 'e CArray \<Rightarrow> nat" where
  "SearchLinear pfnCompare entrySearch a =
     (let pEntryFound = (case m_rgentry a of None \<Rightarrow> None
            | Some rg \<Rightarrow> linear_loop pfnCompare entrySearch 0 (take (m_centry a) rg))
      in case pEntryFound of None \<Rightarrow> SIZE_MAX | Some i \<Rightarrow> i)"

definition SearchBinary :: "('e \<Rightarrow> 'e list \<Rightarrow> nat option) \<Rightarrow> 'e \<Rightarrow> 'e CArray \<Rightarrow> nat" where
  "SearchBinary bsearch entrySearch a =
     (let pEntryFound = (case m_rgentry a of None \<Rightarrow> None
            | Some rg \<Rightarrow> bsearch entrySearch (take (m_centry a) rg))
      in case pEntryFound of None \<Rightarrow> SIZE_MAX | Some i \<Rightarrow> i)"

section \<open>Invariant and abstraction\<close>

definition arr_inv :: "'e CArray \<Rightarrow> bool" where
  "arr_inv a \<longleftrightarrow> m_centry a \<le> m_centryMax a \<and> m_centryMax a \<le> SIZE_MAX
     \<and> 1 \<le> m_centryGrowth a \<and> m_centryGrowth a \<le> SIZE_MAX
     \<and> (case m_rgentry a of None \<Rightarrow> m_centryMax a = 0 | Some rg \<Rightarrow> length rg = m_centryMax a \<and> 0 < m_centryMax a)"

definition entries :: "'e CArray \<Rightarrow> 'e list" where
  "entries a = (case m_rgentry a of None \<Rightarrow> [] | Some rg \<Rightarrow> take (m_centry a) rg)"

text \<open>Everything but the storage and the entries in use.\<close>

definition settings :: "'e CArray \<Rightarrow> 'e \<times> bool \<times> nat" where
  "settings a = (m_entryDefault a, m_fEntryDefault a, m_centryGrowth a)"

lemma length_entries: "arr_inv a \<Longrightarrow> length (entries a) = m_centry a"
  by (auto simp: arr_inv_def entries_def split: option.splits)

lemma arr_inv_new: "arr_inv (CArray_default d)" "entries (CArray_default d) = []"
  by (simp_all add: arr_inv_def CArray_default_def SIZE_MAX_def entries_def)

lemma arr_inv_growth: "g \<le> SIZE_MAX \<Longrightarrow> arr_inv (CArray_growth d g)"
  by (simp add: arr_inv_def CArray_growth_def SetCapacityGrowth_def SIZE_MAX_def)

lemma arr_inv_SetCapacityGrowth: "arr_inv a \<Longrightarrow> g \<le> SIZE_MAX \<Longrightarrow> arr_inv (SetCapacityGrowth g a)"
  by (auto simp: arr_inv_def SetCapacityGrowth_def SIZE_MAX_def split: option.splits)

lemma arr_inv_SetEntryDefault: "arr_inv a \<Longrightarrow> arr_inv (SetEntryDefault e a)"
  by (auto simp: arr_inv_def SetEntryDefault_def split: option.splits)

lemma Entry_in: "arr_inv a \<Longrightarrow> i < length (entries a) \<Longrightarrow> Entry a i = Some (entries a ! i)"
  by (auto simp: Entry_def deref_def PEntry_def entries_def arr_inv_def rd_def split: option.splits)

lemma Entry_out: "arr_inv a \<Longrightarrow> length (entries a) \<le> i \<Longrightarrow> Entry a i = None"
  by (simp add: Entry_def deref_def PEntry_def length_entries)

lemma SetEntry_in:
  assumes "arr_inv a" "i < length (entries a)"
  shows "\<exists>a'. SetEntry (PEntry a i) e a = Some a' \<and> arr_inv a' \<and> entries a' = (entries a)[i := e]
    \<and> settings a' = settings a \<and> m_centryMax a' = m_centryMax a"
  using assms
  by (auto simp: SetEntry_def PEntry_def entries_def arr_inv_def wr_def settings_def take_update_swap split: option.splits)

section \<open>The interface\<close>

text \<open>
  What a client relies on: entries are read and written at the indices in use, and reading or
  writing elsewhere is an access through the null pointer.
\<close>

locale entry_array =
  fixes inv :: "'a \<Rightarrow> bool" and abs :: "'a \<Rightarrow> 'e list"
    and get :: "'a \<Rightarrow> nat \<Rightarrow> 'e option" and put :: "nat \<Rightarrow> 'e \<Rightarrow> 'a \<Rightarrow> 'a option"
  assumes get_in: "inv a \<Longrightarrow> i < length (abs a) \<Longrightarrow> get a i = Some (abs a ! i)"
    and get_out: "inv a \<Longrightarrow> length (abs a) \<le> i \<Longrightarrow> get a i = None"
    and put_in: "inv a \<Longrightarrow> i < length (abs a) \<Longrightarrow>
      \<exists>a'. put i e a = Some a' \<and> inv a' \<and> abs a' = (abs a)[i := e]"
    and put_out: "inv a \<Longrightarrow> length (abs a) \<le> i \<Longrightarrow> put i e a = None"
begin

lemma get_Some: "inv a \<Longrightarrow> get a i = Some e \<longleftrightarrow> i < length (abs a) \<and> e = abs a ! i"
  using get_in get_out by (metis not_less option.distinct(1) option.inject)

lemma put_obtain:
  assumes "inv a" "i < length (abs a)"
  obtains a' where "put i e a = Some a'" "inv a'" "abs a' = (abs a)[i := e]"
  using put_in [OF assms] by blast

lemma swap_obtain:
  assumes "inv a" "i < length (abs a)" "j < length (abs a)"
  obtains a' where "do { x \<leftarrow> get a i; y \<leftarrow> get a j; a \<leftarrow> put i y a; put j x a } = Some a'"
    "inv a'" "abs a' = (abs a)[i := abs a ! j, j := abs a ! i]"
proof -
  obtain a1 where a1: "put i (abs a ! j) a = Some a1" "inv a1" "abs a1 = (abs a)[i := abs a ! j]"
    using put_obtain [OF assms(1,2)] .
  moreover obtain a2 where "put j (abs a ! i) a1 = Some a2" "inv a2" "abs a2 = (abs a1)[j := abs a ! i]"
    using put_obtain [OF a1(2), of j] a1(3) assms(3) by auto
  ultimately show thesis
    using that assms by (simp add: get_in)
qed

end

definition Put :: "nat \<Rightarrow> 'e \<Rightarrow> 'e CArray \<Rightarrow> 'e CArray option" where
  "Put i e a = SetEntry (PEntry a i) e a"

interpretation carray: entry_array arr_inv entries Entry Put
proof
  show "Put i e a = None" if "arr_inv a" "length (entries a) \<le> i" for a :: "'e CArray" and i e
    using that by (simp add: Put_def SetEntry_def PEntry_def length_entries)
  show "\<exists>a'. Put i e a = Some a' \<and> arr_inv a' \<and> entries a' = (entries a)[i := e]"
    if "arr_inv a" "i < length (entries a)" for a :: "'e CArray" and i e
    using SetEntry_in [OF that, of e] by (auto simp: Put_def)
qed (simp_all add: Entry_in Entry_out)

section \<open>Size and capacity\<close>

lemma copy_entries_correct:
  assumes "\<And>i. i < n \<Longrightarrow> Entry a i = Some (xs ! i)" "n \<le> length xs" "n \<le> length rg" "k \<le> n"
  shows "copy_entries a n k (take k xs @ drop k rg) = Some (take n xs @ drop n rg)"
  using assms(4)
proof (induction "n - k" arbitrary: k)
  case 0
  then show ?case
    by (simp add: copy_entries.simps)
next
  case (Suc d)
  have "k < n"
    using Suc.hyps(2) by simp
  moreover have "wr (take k xs @ drop k rg) k (xs ! k) = Some (take (Suc k) xs @ drop (Suc k) rg)"
    using \<open>k < n\<close> assms(2,3)
    by (simp add: wr_def list_update_append take_Suc_conv_app_nth Cons_nth_drop_Suc [symmetric] min_def)
  moreover have "copy_entries a n (Suc k) (take (Suc k) xs @ drop (Suc k) rg) = Some (take n xs @ drop n rg)"
    using Suc.hyps(1) [of "Suc k"] Suc.hyps(2) \<open>k < n\<close> by simp
  ultimately show ?case
    using assms(1) [of k] by (simp add: copy_entries.simps [of a n k])
qed

lemma copy_all:
  assumes "arr_inv a" "n \<le> m_centry a" "n \<le> length rg"
  shows "copy_entries a n 0 rg = Some (take n (entries a) @ drop n rg)"
  using copy_entries_correct [of n a "entries a" rg 0] assms by (simp add: Entry_in length_entries)

lemma grown_capacity_ge:
  assumes "arr_inv a" "m_centryMax a < centry" "centry \<le> SIZE_MAX"
  shows "centry \<le> grown_capacity centry a" "grown_capacity centry a \<le> SIZE_MAX"
proof -
  let ?g = "m_centryGrowth a" and ?d = "centry - m_centryMax a - 1"
  have g: "0 < ?g"
    using assms(1) by (simp add: arr_inv_def)
  have "?d < ?d div ?g * ?g + ?g"
    using div_mult_mod_eq [of ?d ?g] mod_less_divisor [OF g, of ?d] by linarith
  then have "centry \<le> m_centryMax a + ?d div ?g * ?g + ?g"
    using assms(2) by linarith
  then show "centry \<le> grown_capacity centry a" "grown_capacity centry a \<le> SIZE_MAX"
    using assms(1,3) by (auto simp: grown_capacity_def Let_def arr_inv_def)
qed

lemma ErrSetCapacity_correct:
  assumes "arr_inv a" "c \<le> SIZE_MAX"
  shows "\<exists>a' err. ErrSetCapacity new c a = Some (a', err) \<and> arr_inv a' \<and> settings a' = settings a
    \<and> (err = AR_errOutOfMemory \<longrightarrow> a' = a \<and> new = None \<and> 0 < c)
    \<and> (err = AR_errSuccess \<longrightarrow> m_centryMax a' = c \<and> entries a' = take c (entries a))"
proof (cases "m_centryMax a = c \<or> c = 0 \<or> new = None")
  case True
  then show ?thesis
    using assms by (auto simp: ErrSetCapacity_def arr_inv_def entries_def settings_def split: option.splits)
next
  case False
  then obtain f where f: "new = Some f"
    by auto
  define b where "b = a\<lparr>m_centry := min (m_centry a) c\<rparr>"
  have b: "arr_inv b" "entries b = take c (entries a)" "m_centry b = min (m_centry a) c"
    using assms(1) by (auto simp: b_def arr_inv_def entries_def min_def split: option.splits)
  have "copy_entries b (m_centry b) 0 (map f [0..<c]) = Some (take c (entries a) @ drop (m_centry b) (map f [0..<c]))"
    using copy_all [OF b(1), of "m_centry b" "map f [0..<c]"] b(2,3) length_entries [OF assms(1)] by (simp add: min_def)
  moreover have n: "length (take c (entries a)) = m_centry b"
    using length_entries [OF b(1)] b(2) by simp
  ultimately have "ErrSetCapacity new c a = Some (b\<lparr>m_centryMax := c,
      m_rgentry := Some (take c (entries a) @ drop (m_centry b) (map f [0..<c]))\<rparr>, AR_errSuccess)"
    using False f unfolding b_def by (simp add: ErrSetCapacity_def Let_def)
  moreover have "entries (b\<lparr>m_centryMax := c, m_rgentry := Some (take c (entries a) @ drop (m_centry b) (map f [0..<c]))\<rparr>)
      = take c (entries a)"
    unfolding entries_def [of "b\<lparr>m_centryMax := c, m_rgentry := m\<rparr>" for m]
    by (simp del: take_append) (metis append_eq_conv_conj n)
  moreover have "arr_inv (b\<lparr>m_centryMax := c, m_rgentry := Some (take c (entries a) @ drop (m_centry b) (map f [0..<c]))\<rparr>)"
    using b(1,3) n assms(2) False by (simp add: arr_inv_def)
  ultimately show ?thesis
    by (simp add: settings_def b_def)
qed

lemma fill_default_correct:
  assumes "k \<le> c" "c \<le> length rg"
  shows "fill_default d c k (Some rg) = Some (Some (take k rg @ replicate (c - k) d @ drop c rg))"
  using assms
proof (induction "c - k" arbitrary: k rg)
  case 0
  then show ?case
    by (simp add: fill_default.simps)
next
  case (Suc n)
  then have k: "k < c" "c - k = Suc (c - Suc k)"
    by auto
  have "fill_default d c k (Some rg) = fill_default d c (Suc k) (Some (rg[k := d]))"
    using k Suc.prems by (simp add: fill_default.simps [of d c k] wr_def)
  also have "\<dots> = Some (Some (take (Suc k) (rg[k := d]) @ replicate (c - Suc k) d @ drop c (rg[k := d])))"
    using Suc.hyps k Suc.prems by (intro Suc.hyps(1)) auto
  also have "take (Suc k) (rg[k := d]) = take k rg @ [d]"
    using k Suc.prems by (intro take_Suc_update) simp
  finally show ?case
    using k by simp
qed

text \<open>
  Setting the size: the entries kept stay, the new ones are the default entry when one is set,
  and on failure nothing changes.
\<close>

lemma ErrSetSize_spec:
  assumes "arr_inv a" "c \<le> SIZE_MAX"
  shows "\<exists>a' err. ErrSetSize new c a = Some (a', err) \<and> arr_inv a' \<and> settings a' = settings a
    \<and> (err = AR_errOutOfMemory \<longrightarrow> a' = a \<and> new = None \<and> m_centryMax a < c)
    \<and> (err = AR_errSuccess \<longrightarrow> length (entries a') = c \<and> take (length (entries a)) (entries a') = take c (entries a)
        \<and> (m_fEntryDefault a \<longrightarrow> (\<forall>i. length (entries a) \<le> i \<and> i < c \<longrightarrow> entries a' ! i = m_entryDefault a)))"
proof -
  obtain b err where b: "(if m_centryMax a < c then ErrSetCapacity new (grown_capacity c a) a else Some (a, AR_errSuccess)) = Some (b, err)"
      "arr_inv b" "settings b = settings a" "err = AR_errOutOfMemory \<longrightarrow> b = a \<and> new = None \<and> m_centryMax a < c"
      "err = AR_errSuccess \<longrightarrow> c \<le> m_centryMax b \<and> entries b = entries a"
  proof (cases "m_centryMax a < c")
    case True
    note g = grown_capacity_ge [OF assms(1) True assms(2)]
    have "take (grown_capacity c a) (entries a) = entries a"
      using g(1) True assms(1) length_entries [OF assms(1)] by (simp add: arr_inv_def)
    then show thesis
      using that ErrSetCapacity_correct [OF assms(1) g(2), of new] g(1) True by auto
  next
    case False
    then show thesis
      using that assms(1) by auto
  qed
  show ?thesis
  proof (cases "err = AR_errSuccess")
    case False
    then have "err = AR_errOutOfMemory"
      by (cases err) auto
    then show ?thesis
      using b by (simp add: ErrSetSize_def)
  next
    case True
    with b have cap: "c \<le> m_centryMax b" and eb: "entries b = entries a"
      by auto
    have def: "m_entryDefault b = m_entryDefault a" "m_fEntryDefault b = m_fEntryDefault a"
      using b(3) by (auto simp: settings_def)
    have m: "m_centry b = length (entries a)"
      using length_entries [OF b(2)] eb by simp
    show ?thesis
    proof (cases "m_rgentry b")
      case None
      then have z: "c = 0" "entries a = []" "m_centry b = 0"
        using b(2) cap eb by (auto simp: arr_inv_def entries_def)
      have "ErrSetSize new c a = Some (b\<lparr>m_rgentry := None, m_centry := 0\<rparr>, AR_errSuccess)"
        using True b(1) None z by (simp add: ErrSetSize_def)
      moreover have "b\<lparr>m_rgentry := None, m_centry := 0\<rparr> = b"
        using None z by simp
      ultimately show ?thesis
        using b(2,3) eb z by simp
    next
      case (Some rg)
      then have len: "length rg = m_centryMax b" "c \<le> length rg" and e: "entries a = take (m_centry b) rg"
        using b(2) cap eb by (auto simp: arr_inv_def entries_def)
      define rg' where "rg' = (if m_fEntryDefault a \<and> c > m_centry b
        then take (m_centry b) rg @ replicate (c - m_centry b) (m_entryDefault a) @ drop c rg else rg)"
      have l: "length rg' = length rg"
        using len by (auto simp: rg'_def)
      define r where "r = b\<lparr>m_rgentry := Some rg', m_centry := c\<rparr>"
      have eq: "ErrSetSize new c a = Some (r, AR_errSuccess)"
        using True b(1) Some len(2) def fill_default_correct [of "m_centry b" c rg "m_entryDefault a"]
        by (auto simp: ErrSetSize_def rg'_def r_def)
      have inv: "arr_inv r" and er: "entries r = take c rg'" and sr: "settings r = settings a"
        using b(2,3) Some len l by (simp_all add: arr_inv_def entries_def settings_def r_def)
      have "take (m_centry b) (take c rg') = take c (entries a)"
      proof (cases "c \<le> m_centry b")
        case True
        then show ?thesis
          by (simp add: rg'_def e)
      next
        case False
        then have "m_centry b \<le> length rg"
          using len(2) by linarith
        then have "take (m_centry b) rg' = take (m_centry b) rg"
          by (auto simp: rg'_def)
        then show ?thesis
          unfolding e using False by (simp add: min_absorb1 min_absorb2)
      qed
      then have kept: "take (length (entries a)) (entries r) = take c (entries a)"
        unfolding er m .
      have "entries r ! i = m_entryDefault a" if "m_fEntryDefault a" "length (entries a) \<le> i" "i < c" for i
        using that m len(2) unfolding er by (auto simp: rg'_def nth_append)
      moreover have "length (entries r) = c"
        unfolding er using l len(2) by simp
      ultimately show ?thesis
        using eq inv sr kept by blast
    qed
  qed
qed

lemma ErrSetSize_shrink:
  assumes "arr_inv a" "c \<le> length (entries a)"
  shows "\<exists>a'. ErrSetSize new c a = Some (a', AR_errSuccess) \<and> arr_inv a' \<and> settings a' = settings a
    \<and> entries a' = take c (entries a)"
proof -
  have c: "c \<le> m_centryMax a" "c \<le> SIZE_MAX"
    using assms length_entries [OF assms(1)] by (auto simp: arr_inv_def)
  then obtain a' err where a': "ErrSetSize new c a = Some (a', err)" "arr_inv a'" "settings a' = settings a"
      "err = AR_errOutOfMemory \<longrightarrow> m_centryMax a < c"
      "err = AR_errSuccess \<longrightarrow> length (entries a') = c \<and> take (length (entries a)) (entries a') = take c (entries a)"
    using ErrSetSize_spec [OF assms(1), of c new] by blast
  then have "err = AR_errSuccess"
    using c by (cases err) auto
  with a' assms(2) show ?thesis
    by auto
qed

lemma CArray_ErrClone_spec:
  assumes "arr_inv b"
  shows "\<exists>a' err. CArray_ErrClone new b a = Some (a', err)
    \<and> (err = AR_errOutOfMemory \<longrightarrow> a' = a \<and> new = None)
    \<and> (err = AR_errSuccess \<longrightarrow> arr_inv a' \<and> entries a' = entries b \<and> settings a' = settings b)"
proof (cases "m_centryMax b \<noteq> 0 \<and> new \<noteq> None")
  case True
  then obtain f where f: "new = Some f"
    by auto
  have "copy_entries b (Size b) 0 (map f [0..<m_centryMax b]) = Some (entries b @ drop (Size b) (map f [0..<m_centryMax b]))"
    using copy_all [OF assms, of "Size b" "map f [0..<m_centryMax b]"] assms length_entries [OF assms]
    by (simp add: Size_def arr_inv_def)
  then show ?thesis
    using True f assms length_entries [OF assms]
    by (simp add: CArray_ErrClone_def Size_def arr_inv_def settings_def) (simp add: entries_def)
next
  case False
  then show ?thesis
    using assms by (auto simp: CArray_ErrClone_def arr_inv_def entries_def settings_def Size_def split: option.splits)
qed

section \<open>Sorting and searching\<close>

text \<open>What a comparison function has to be for \<open>qsort\<close>: the sign of a total preorder.\<close>

definition cmp_order :: "('e \<Rightarrow> 'e \<Rightarrow> int) \<Rightarrow> bool" where
  "cmp_order cmp \<longleftrightarrow> (\<forall>x y. cmp x y \<le> 0 \<longleftrightarrow> 0 \<le> cmp y x)
     \<and> (\<forall>x y z. cmp x y \<le> 0 \<longrightarrow> cmp y z \<le> 0 \<longrightarrow> cmp x z \<le> 0)"

definition qsort_law :: "('e \<Rightarrow> 'e \<Rightarrow> int) \<Rightarrow> ('e list \<Rightarrow> 'e list) \<Rightarrow> bool" where
  "qsort_law cmp qsort \<longleftrightarrow> (\<forall>xs. mset (qsort xs) = mset xs \<and> sorted_wrt (\<lambda>x y. cmp x y \<le> 0) (qsort xs))"

definition bsearch_law :: "('e \<Rightarrow> 'e \<Rightarrow> int) \<Rightarrow> ('e \<Rightarrow> 'e list \<Rightarrow> nat option) \<Rightarrow> bool" where
  "bsearch_law cmp bsearch \<longleftrightarrow> (\<forall>key xs. sorted_wrt (\<lambda>x y. cmp x y \<le> 0) xs \<longrightarrow>
     (case bsearch key xs of Some i \<Rightarrow> i < length xs \<and> cmp key (xs ! i) = 0
      | None \<Rightarrow> (\<forall>x\<in>set xs. cmp key x \<noteq> 0)))"

lemma cmp_refl: "cmp_order cmp \<Longrightarrow> cmp x x = 0"
  unfolding cmp_order_def by (metis dual_order.antisym linear)

lemma cmp_sym: "cmp_order cmp \<Longrightarrow> cmp x y \<le> 0 \<longleftrightarrow> 0 \<le> cmp y x"
  by (simp add: cmp_order_def)

lemma cmp_trans: "cmp_order cmp \<Longrightarrow> cmp x y \<le> 0 \<Longrightarrow> cmp y z \<le> 0 \<Longrightarrow> cmp x z \<le> 0"
  unfolding cmp_order_def by blast

lemma cmp_less_trans: "cmp_order cmp \<Longrightarrow> cmp x y < 0 \<Longrightarrow> cmp y z \<le> 0 \<Longrightarrow> cmp x z < 0"
  by (meson cmp_sym cmp_trans not_le)

lemma cmp_eq_trans:
  assumes "cmp_order cmp" "cmp x y = 0" "cmp y z = 0"
  shows "cmp x z = 0"
proof -
  have "cmp x z \<le> 0"
    using cmp_trans [OF assms(1), of x y z] assms(2,3) by simp
  moreover have "cmp z x \<le> 0"
    using cmp_trans [OF assms(1), of z y x] cmp_sym [OF assms(1)] assms(2,3) by simp
  ultimately show ?thesis
    using cmp_sym [OF assms(1), of z x] by simp
qed

lemma cmp_eq_sym: "cmp_order cmp \<Longrightarrow> cmp x y = 0 \<longleftrightarrow> cmp y x = 0"
  using cmp_sym [of cmp x y] cmp_sym [of cmp y x] by (auto simp: order_antisym_conv)

text \<open>What the loop of \<open>SortAndRemoveDuplicates\<close> keeps: of each run of equal entries the first.\<close>

fun uniq :: "('e \<Rightarrow> 'e \<Rightarrow> int) \<Rightarrow> 'e \<Rightarrow> 'e list \<Rightarrow> 'e list" where
  "uniq cmp u [] = [u]"
| "uniq cmp u (e # es) = (if cmp u e \<noteq> 0 then u # uniq cmp e es else uniq cmp u es)"

lemma length_uniq: "0 < length (uniq cmp u es) \<and> length (uniq cmp u es) \<le> Suc (length es)"
  by (induction cmp u es rule: uniq.induct) auto

lemma uniq_sorted:
  assumes "cmp_order cmp" "sorted_wrt (\<lambda>x y. cmp x y \<le> 0) (u # es)"
  shows "sorted_wrt (\<lambda>x y. cmp x y < 0) (uniq cmp u es)" "set (uniq cmp u es) \<subseteq> set (u # es)"
    "\<forall>x\<in>set (u # es). \<exists>y\<in>set (uniq cmp u es). cmp x y = 0" "\<forall>y\<in>set (uniq cmp u es). cmp u y \<le> 0"
proof -
  have "sorted_wrt (\<lambda>x y. cmp x y < 0) (uniq cmp u es) \<and> set (uniq cmp u es) \<subseteq> set (u # es)
    \<and> (\<forall>x\<in>set (u # es). \<exists>y\<in>set (uniq cmp u es). cmp x y = 0) \<and> (\<forall>y\<in>set (uniq cmp u es). cmp u y \<le> 0)"
    using assms(2)
  proof (induction es arbitrary: u)
    case Nil
    then show ?case
      using cmp_refl [OF assms(1)] by simp
  next
    case (Cons e es)
    show ?case
    proof (cases "cmp u e = 0")
      case True
      then have "cmp e u = 0"
        using cmp_eq_sym [OF assms(1)] by blast
      moreover have IH: "sorted_wrt (\<lambda>x y. cmp x y < 0) (uniq cmp u es)" "set (uniq cmp u es) \<subseteq> set (u # es)"
          "\<forall>x\<in>set (u # es). \<exists>y\<in>set (uniq cmp u es). cmp x y = 0" "\<forall>y\<in>set (uniq cmp u es). cmp u y \<le> 0"
        using Cons.IH [of u] Cons.prems by simp_all
      moreover from IH(3) obtain y where y: "y \<in> set (uniq cmp u es)" "cmp u y = 0"
        by auto
      ultimately have "cmp e y = 0"
        using cmp_eq_trans [OF assms(1)] by blast
      with True IH y show ?thesis
        by auto
    next
      case False
      then have "cmp u e < 0"
        using Cons.prems by simp
      moreover have IH: "sorted_wrt (\<lambda>x y. cmp x y < 0) (uniq cmp e es)" "set (uniq cmp e es) \<subseteq> set (e # es)"
          "\<forall>x\<in>set (e # es). \<exists>y\<in>set (uniq cmp e es). cmp x y = 0" "\<forall>y\<in>set (uniq cmp e es). cmp e y \<le> 0"
        using Cons.IH [of e] Cons.prems by simp_all
      ultimately have "\<forall>y\<in>set (uniq cmp e es). cmp u y < 0"
        using cmp_less_trans [OF assms(1)] by blast
      with False IH show ?thesis
        using cmp_refl [OF assms(1)] by (auto intro: less_imp_le)
    qed
  qed
  then show "sorted_wrt (\<lambda>x y. cmp x y < 0) (uniq cmp u es)" "set (uniq cmp u es) \<subseteq> set (u # es)"
    "\<forall>x\<in>set (u # es). \<exists>y\<in>set (uniq cmp u es). cmp x y = 0" "\<forall>y\<in>set (uniq cmp u es). cmp u y \<le> 0"
    by blast+
qed

lemma unique_loop_correct:
  assumes "u < i" "i \<le> n" "n \<le> length rg"
  shows "\<exists>u' rg'. unique_loop cmp n i u rg = Some (u', rg') \<and> length rg' = length rg \<and> u' < n
    \<and> take (Suc u') rg' = take u rg @ uniq cmp (rg ! u) (drop i (take n rg))"
  using assms
proof (induction "n - i" arbitrary: i u rg)
  case 0
  then show ?case
    by (auto simp: unique_loop.simps take_Suc_conv_app_nth)
next
  case (Suc d)
  then have i: "i < n"
    by simp
  then have dr: "drop i (take n rg) = rg ! i # drop (Suc i) (take n rg)"
    using Suc.prems Cons_nth_drop_Suc [of i "take n rg"] by simp
  have d: "d = n - Suc i"
    using Suc.hyps(2) by simp
  have rd: "rd rg u = Some (rg ! u)" "rd rg i = Some (rg ! i)"
    using Suc.prems i by (simp_all add: rd_def)
  show ?case
  proof (cases "cmp (rg ! u) (rg ! i) = 0")
    case True
    then show ?thesis
      using Suc.hyps(1) [of "Suc i" u rg] Suc.hyps(2) Suc.prems i rd dr by (simp add: unique_loop.simps [of cmp n i])
  next
    case False
    let ?rg = "rg[Suc u := rg ! i]"
    have "wr rg (Suc u) (rg ! i) = Some ?rg"
      using Suc.prems i by (simp add: wr_def)
    moreover obtain u' rg' where "unique_loop cmp n (Suc i) (Suc u) ?rg = Some (u', rg')" "length rg' = length ?rg" "u' < n"
        "take (Suc u') rg' = take (Suc u) ?rg @ uniq cmp (?rg ! Suc u) (drop (Suc i) (take n ?rg))"
      using Suc.hyps(1) [of "Suc i" "Suc u" ?rg] d Suc.prems i by auto
    moreover have "drop (Suc i) (take n ?rg) = drop (Suc i) (take n rg)"
      using Suc.prems(1) by (simp add: take_update_swap)
    ultimately show ?thesis
      using False rd dr i Suc.prems by (simp add: unique_loop.simps [of cmp n i] take_Suc_conv_app_nth)
  qed
qed

lemma Sort_spec:
  assumes "arr_inv a" "qsort_law cmp qsort"
  shows "arr_inv (Sort qsort a)" "entries (Sort qsort a) = qsort (entries a)" "settings (Sort qsort a) = settings a"
proof -
  have len: "length (qsort xs) = length xs" for xs
    using assms(2) by (metis qsort_law_def size_mset)
  have "qsort [] = []"
    using len [of "[]"] by simp
  with assms(1) len show "arr_inv (Sort qsort a)" "entries (Sort qsort a) = qsort (entries a)" "settings (Sort qsort a) = settings a"
    by (auto simp: Sort_def arr_inv_def entries_def settings_def split: option.splits)
qed

lemma SortAndRemoveDuplicates_spec:
  assumes "arr_inv a" "cmp_order cmp" "qsort_law cmp qsort"
  shows "\<exists>a'. SortAndRemoveDuplicates qsort cmp a = Some (a', AR_errSuccess) \<and> arr_inv a' \<and> settings a' = settings a
    \<and> entries a' = (case qsort (entries a) of [] \<Rightarrow> [] | x # xs \<Rightarrow> uniq cmp x xs)"
proof -
  define b where "b = Sort qsort a"
  have b: "arr_inv b" "entries b = qsort (entries a)" "settings b = settings a"
    using Sort_spec [OF assms(1,3)] by (simp_all add: b_def)
  show ?thesis
  proof (cases "entries b")
    case Nil
    then have m: "m_centry b = 0"
      using length_entries [OF b(1)] by simp
    obtain a' where "ErrSetSize None 0 b = Some (a', AR_errSuccess)" "arr_inv a'" "settings a' = settings b" "entries a' = []"
      using ErrSetSize_shrink [OF b(1), of 0 None] by auto
    moreover have upd: "m_rgentry b = r \<Longrightarrow> b\<lparr>m_rgentry := r\<rparr> = b" for r
      by auto
    ultimately show ?thesis
      using m b Nil
      by (cases "m_rgentry b") (auto simp: SortAndRemoveDuplicates_def unique_loop.simps [of cmp 0] upd simp flip: b_def)
  next
    case (Cons x xs)
    then obtain rg where rg: "m_rgentry b = Some rg" "take (m_centry b) rg = x # xs" "m_centry b \<le> length rg" "0 < m_centry b"
      using b(1) length_entries [OF b(1)] by (auto simp: entries_def arr_inv_def split: option.splits)
    then have x: "rg ! 0 = x" "drop 1 (take (m_centry b) rg) = xs"
      by (metis hd_conv_nth hd_take list.sel(1) length_greater_0_conv less_le_trans) (simp add: rg)
    obtain u' rg' where u': "unique_loop cmp (m_centry b) 1 0 rg = Some (u', rg')" "length rg' = length rg" "u' < m_centry b"
        "take (Suc u') rg' = uniq cmp x xs"
      using unique_loop_correct [of 0 1 "m_centry b" rg cmp] rg(3,4) x by auto
    have "unique_loop cmp (m_centry b) 0 0 rg = Some (u', rg')"
      using rg(3,4) u'(1) cmp_refl [OF assms(2)] by (auto simp: unique_loop.simps [of cmp _ 0] rd_def)
    moreover define c where "c = b\<lparr>m_rgentry := Some rg'\<rparr>"
    moreover have c: "arr_inv c" "entries c = take (m_centry b) rg'" "settings c = settings b"
      using b(1) rg(1) u'(2) by (simp_all add: c_def arr_inv_def entries_def settings_def)
    moreover have "Suc u' \<le> length (entries c)"
      using c(2) u'(2,3) rg(3) by simp
    then obtain a' where "ErrSetSize None (Suc u') c = Some (a', AR_errSuccess)" "arr_inv a'" "settings a' = settings c"
        "entries a' = take (Suc u') (entries c)"
      using ErrSetSize_shrink [OF c(1), of "Suc u'" None] by blast
    moreover have "take (Suc u') (entries c) = uniq cmp x xs"
      using u'(3,4) c(2) by (simp add: min_absorb1)
    moreover have "qsort (entries a) = x # xs"
      using b(2) Cons by simp
    ultimately show ?thesis
      using b(3) rg(1) u'(3) by (simp add: SortAndRemoveDuplicates_def min_absorb2 flip: b_def)
  qed
qed

lemma linear_loop_spec:
  "linear_loop cmp key i es = (if \<exists>e\<in>set es. cmp key e = 0
     then Some (i + length (takeWhile (\<lambda>e. cmp key e \<noteq> 0) es)) else None)"
  by (induction es arbitrary: i) auto

lemma SearchLinear_spec:
  "SearchLinear cmp key a = (if \<exists>e\<in>set (entries a). cmp key e = 0
      then length (takeWhile (\<lambda>e. cmp key e \<noteq> 0) (entries a)) else SIZE_MAX)"
  by (cases "m_rgentry a") (simp_all add: SearchLinear_def entries_def linear_loop_spec)

section \<open>Properties\<close>

text \<open>After the first part of \<open>ErrSetEntry\<close> the index lies inside the array, unless memory ran out.\<close>

lemma ErrSetEntry_room:
  assumes "arr_inv a" "Suc ientry \<le> SIZE_MAX"
  shows "\<exists>b err. (if m_centry a < Suc ientry then ErrSetSize new (Suc ientry) a else Some (a, AR_errSuccess)) = Some (b, err)
    \<and> arr_inv b \<and> settings b = settings a \<and> (err = AR_errOutOfMemory \<longrightarrow> b = a \<and> new = None \<and> Capacity a \<le> ientry)
    \<and> (err = AR_errSuccess \<longrightarrow> length (entries b) = max (Size a) (Suc ientry)
        \<and> (\<forall>i < Size a. entries b ! i = entries a ! i)
        \<and> (m_fEntryDefault a \<longrightarrow> (\<forall>i. Size a \<le> i \<and> i < Suc ientry \<longrightarrow> entries b ! i = m_entryDefault a)))"
proof (cases "m_centry a < Suc ientry")
  case True
  then have l: "length (entries a) \<le> ientry" "length (entries a) = Size a" "take (Suc ientry) (entries a) = entries a"
    using length_entries [OF assms(1)] by (simp_all add: Size_def)
  obtain b err where *: "ErrSetSize new (Suc ientry) a = Some (b, err)" "arr_inv b" "settings b = settings a"
      "err = AR_errOutOfMemory \<longrightarrow> b = a \<and> new = None \<and> m_centryMax a < Suc ientry"
      "err = AR_errSuccess \<longrightarrow> length (entries b) = Suc ientry \<and> take (length (entries a)) (entries b) = take (Suc ientry) (entries a)
        \<and> (m_fEntryDefault a \<longrightarrow> (\<forall>i. length (entries a) \<le> i \<and> i < Suc ientry \<longrightarrow> entries b ! i = m_entryDefault a))"
    using ErrSetSize_spec [OF assms, of new] by blast
  have "entries b ! i = entries a ! i" if "err = AR_errSuccess" "i < Size a" for i
    using *(5) that l by (metis nth_take)
  then show ?thesis
    using * l True by (intro exI [of _ b] exI [of _ err]) (auto simp: Capacity_def)
next
  case False
  with assms length_entries [OF assms(1)] show ?thesis
    by (intro exI [of _ a] exI [of _ AR_errSuccess]) (auto simp: Size_def)
qed

text \<open>
  C26: \<open>ErrSetEntry\<close> on any index below \<open>SIZE_MAX\<close> either stores the entry there, growing the array
  when needed, keeping every other entry and giving the entries of a gap the default, or fails for
  lack of memory and changes nothing; the invariant is kept. On the index \<open>SIZE_MAX\<close>, the value the
  searches return for \<open>not found\<close>, the size computation wraps and the entry is written through the
  null pointer.
\<close>

theorem ErrSetEntry_correct:
  assumes "arr_inv a"
  shows "(ientry < SIZE_MAX \<longrightarrow> (\<exists>a' err. ErrSetEntry new ientry e a = Some (a', err) \<and> arr_inv a' \<and> settings a' = settings a
      \<and> (err = AR_errOutOfMemory \<longrightarrow> a' = a \<and> new = None \<and> Capacity a \<le> ientry)
      \<and> (err = AR_errSuccess \<longrightarrow> Size a' = max (Size a) (ientry + 1) \<and> Entry a' ientry = Some e
          \<and> (\<forall>i < Size a. i \<noteq> ientry \<longrightarrow> Entry a' i = Entry a i)
          \<and> (m_fEntryDefault a \<longrightarrow> (\<forall>i. Size a \<le> i \<and> i < ientry \<longrightarrow> Entry a' i = Some (m_entryDefault a))))))
    \<and> ErrSetEntry new SIZE_MAX e a = None"
proof (intro conjI impI)
  have "m_centry a \<le> SIZE_MAX"
    using assms by (simp add: arr_inv_def)
  then show "ErrSetEntry new SIZE_MAX e a = None"
    by (simp add: ErrSetEntry_def size_inc_def SetEntry_def PEntry_def)
next
  assume i: "ientry < SIZE_MAX"
  then have req: "size_inc ientry = Suc ientry" "Suc ientry \<le> SIZE_MAX"
    by (simp_all add: size_inc_def)
  obtain b err where b: "(if m_centry a < Suc ientry then ErrSetSize new (Suc ientry) a else Some (a, AR_errSuccess)) = Some (b, err)"
      "arr_inv b" "settings b = settings a" "err = AR_errOutOfMemory \<longrightarrow> b = a \<and> new = None \<and> Capacity a \<le> ientry"
      "err = AR_errSuccess \<longrightarrow> length (entries b) = max (Size a) (Suc ientry)
        \<and> (\<forall>i < Size a. entries b ! i = entries a ! i)
        \<and> (m_fEntryDefault a \<longrightarrow> (\<forall>i. Size a \<le> i \<and> i < Suc ientry \<longrightarrow> entries b ! i = m_entryDefault a))"
    using ErrSetEntry_room [OF assms req(2), of new] by blast
  have run: "ErrSetEntry new ientry e a = (if err \<noteq> AR_errSuccess then Some (b, err)
      else do { a' \<leftarrow> SetEntry (PEntry b ientry) e b; Some (a', AR_errSuccess) })"
    unfolding ErrSetEntry_def Let_def req(1) b(1) by simp
  show "\<exists>a' err. ErrSetEntry new ientry e a = Some (a', err) \<and> arr_inv a' \<and> settings a' = settings a
      \<and> (err = AR_errOutOfMemory \<longrightarrow> a' = a \<and> new = None \<and> Capacity a \<le> ientry)
      \<and> (err = AR_errSuccess \<longrightarrow> Size a' = max (Size a) (ientry + 1) \<and> Entry a' ientry = Some e
          \<and> (\<forall>i < Size a. i \<noteq> ientry \<longrightarrow> Entry a' i = Entry a i)
          \<and> (m_fEntryDefault a \<longrightarrow> (\<forall>i. Size a \<le> i \<and> i < ientry \<longrightarrow> Entry a' i = Some (m_entryDefault a))))"
  proof (cases "err = AR_errSuccess")
    case False
    then have "err = AR_errOutOfMemory"
      by (cases err) auto
    moreover from this have "ErrSetEntry new ientry e a = Some (b, err)"
      by (simp add: run)
    ultimately show ?thesis
      using b(2-4) by (intro exI [of _ b] exI [of _ err]) simp
  next
    case True
    with b(5) have in_b: "ientry < length (entries b)" and len: "length (entries b) = max (Size a) (Suc ientry)"
      by auto
    obtain a' where a': "SetEntry (PEntry b ientry) e b = Some a'" "arr_inv a'" "entries a' = (entries b)[ientry := e]"
        "settings a' = settings b"
      using SetEntry_in [OF b(2) in_b, of e] by blast
    have "ErrSetEntry new ientry e a = Some (a', AR_errSuccess)"
      using True a'(1) by (simp add: run)
    moreover have sz: "Size a' = max (Size a) (ientry + 1)"
      using length_entries [OF a'(2)] a'(3) len by (simp add: Size_def)
    moreover have ent: "Entry a' i = Some (if i = ientry then e else entries b ! i)" if "i < max (Size a) (Suc ientry)" for i
      using that Entry_in [OF a'(2), of i] a'(3) len by (simp add: nth_list_update)
    moreover have "Entry a i = Some (entries a ! i)" if "i < Size a" for i
      using that Entry_in [OF assms, of i] length_entries [OF assms] by (simp add: Size_def)
    ultimately show ?thesis
      using a'(2,4) b(3,5) True by auto
  qed
qed

definition sample_array :: "int CArray" where
  "sample_array = SetEntryDefault 7 (CArray_growth 0 4)"

theorem ErrSetEntry_correct_witness:
  "\<exists>a' err. ErrSetEntry (Some (\<lambda>_. 0)) 2 5 sample_array = Some (a', err) \<and> err = AR_errSuccess
    \<and> Size a' = 3 \<and> Entry a' 2 = Some 5 \<and> Entry a' 1 = Some 7"
proof -
  have s: "arr_inv sample_array" "Size sample_array = 0" "m_fEntryDefault sample_array" "m_entryDefault sample_array = 7"
    by (simp_all add: sample_array_def arr_inv_SetEntryDefault arr_inv_growth SIZE_MAX_def)
      (simp_all add: Size_def CArray_growth_def SetEntryDefault_def SetCapacityGrowth_def)
  from ErrSetEntry_correct [OF s(1), of 2 "Some (\<lambda>_. 0)" 5]
  obtain a' err where a': "ErrSetEntry (Some (\<lambda>_. 0)) 2 5 sample_array = Some (a', err)" "err \<noteq> AR_errOutOfMemory"
      "err = AR_errSuccess \<longrightarrow> Size a' = 3 \<and> Entry a' 2 = Some 5 \<and> (\<forall>i. 0 \<le> i \<and> i < 2 \<longrightarrow> Entry a' i = Some 7)"
    using s by (auto simp: SIZE_MAX_def)
  then have "err = AR_errSuccess"
    by (cases err) simp_all
  with a' show ?thesis
    by auto
qed

text \<open>
  \<open>SortAndRemoveDuplicates\<close> succeeds; afterwards the entries are strictly ascending, every one of
  them was there before, and every entry there before has an equal one. Nothing is assumed of
  \<open>qsort\<close> but that it sorts, so the choice among equal entries is left open as in C.
\<close>

theorem SortAndRemoveDuplicates_correct:
  assumes "arr_inv a" "cmp_order pfnCompare" "qsort_law pfnCompare qsort"
  shows "\<exists>a'. SortAndRemoveDuplicates qsort pfnCompare a = Some (a', AR_errSuccess) \<and> arr_inv a'
    \<and> sorted_wrt (\<lambda>x y. pfnCompare x y < 0) (entries a') \<and> set (entries a') \<subseteq> set (entries a)
    \<and> (\<forall>x\<in>set (entries a). \<exists>y\<in>set (entries a'). pfnCompare x y = 0)"
proof -
  have q: "set (qsort (entries a)) = set (entries a)" "sorted_wrt (\<lambda>x y. pfnCompare x y \<le> 0) (qsort (entries a))"
    using assms(3) by (auto simp: qsort_law_def dest: mset_eq_setD)
  obtain a' where a': "SortAndRemoveDuplicates qsort pfnCompare a = Some (a', AR_errSuccess)" "arr_inv a'"
      "entries a' = (case qsort (entries a) of [] \<Rightarrow> [] | x # xs \<Rightarrow> uniq pfnCompare x xs)"
    using SortAndRemoveDuplicates_spec [OF assms] by blast
  show ?thesis
  proof (cases "qsort (entries a)")
    case Nil
    with q a' show ?thesis
      by auto
  next
    case (Cons x xs)
    note u = uniq_sorted [OF assms(2) q(2) [unfolded Cons]]
    have "entries a' = uniq pfnCompare x xs" "set (entries a) = set (x # xs)"
      using a'(3) q(1) Cons by simp_all
    with a'(1,2) u(1-3) show ?thesis
      by (metis (no_types, lifting))
  qed
qed

lemma sort_qsort_law: "qsort_law (\<lambda>x y. x - y :: int) sort"
  by (simp add: qsort_law_def)

lemma minus_cmp_order: "cmp_order (\<lambda>x y. x - y :: int)"
  by (auto simp: cmp_order_def)

theorem SortAndRemoveDuplicates_correct_witness:
  "\<exists>a'. SortAndRemoveDuplicates sort (\<lambda>x y. x - y) (\<lparr>m_centry = 3, m_centryMax = 4, m_rgentry = Some [5, 2, 5, 0 :: int],
       m_entryDefault = 0, m_fEntryDefault = False, m_centryGrowth = 1\<rparr>) = Some (a', AR_errSuccess)
    \<and> arr_inv a' \<and> sorted_wrt (\<lambda>x y. x - y < 0) (entries a')"
  using SortAndRemoveDuplicates_correct [OF _ minus_cmp_order sort_qsort_law,
      of "\<lparr>m_centry = 3, m_centryMax = 4, m_rgentry = Some [5, 2, 5, 0 :: int],
       m_entryDefault = 0, m_fEntryDefault = False, m_centryGrowth = 1\<rparr>"]
  by (auto simp: arr_inv_def SIZE_MAX_def)

end
