(* ===== verification/Sorted_Table.thy ===== *)
theory Sorted_Table
  imports Dyn_Array
begin

text \<open>
  \<open>CTable\<close> of \<open>ms/collection.hxx\<close>: a sorted array of keyed entries over \<open>CArray\<close>, with
  the insertion sort and the quicksort that order it and the linear and binary searches that
  the seeks use. The comparisons \<open>CKeyEntry::Cmp\<close>, which the user of the template supplies, are
  arguments: \<open>cmp\<close> on two entries and \<open>cmpK\<close> on an entry and a key; what the table needs
  of them is \<open>cmp_order\<close> and \<open>key_order\<close>.

  The quicksort keeps at most 16 pending partitions in a fixed array and calls itself when that
  is full. Its model counts iterations down from \<open>fuel\<close>; \<open>2 * n\<close> are enough for
  \<open>n\<close> entries. Indices are natural numbers below \<open>SIZE_MAX\<close>; the places where the
  code counts below zero are written out.
\<close>

section \<open>State\<close>

datatype CTable_ERR = TA_errSuccess | TA_errInvalidParameter | TA_errOutOfMemory | TA_errKeyChange

datatype PfnSearch = LinearSearch | BinarySearch

record 'e CTable =
  m_arrayKeyEntry :: "'e CArray"
  m_pfnSearch :: PfnSearch

definition CTable_new :: "'e \<Rightarrow> 'e CTable" where
  "CTable_new dflt = \<lparr>m_arrayKeyEntry = CArray_default dflt, m_pfnSearch = LinearSearch\<rparr>"

definition Table_Size :: "'e CTable \<Rightarrow> nat" where
  "Table_Size t = Size (m_arrayKeyEntry t)"

definition Table_PEntry :: "'e CTable \<Rightarrow> nat \<Rightarrow> nat option" where
  "Table_PEntry t ientry = PEntry (m_arrayKeyEntry t) ientry"

definition Table_Entry :: "'e CTable \<Rightarrow> nat \<Rightarrow> 'e option" where
  "Table_Entry t ikeyentry = Entry (m_arrayKeyEntry t) ikeyentry"

section \<open>Sorting\<close>

text \<open>The sorts work on the array member alone; \<open>Put\<close> is \<open>_SetEntry\<close>.\<close>

definition SwapEntry :: "nat \<Rightarrow> nat \<Rightarrow> 'e CArray \<Rightarrow> 'e CArray option" where
  "SwapEntry ikeyentry1 ikeyentry2 a =
     do { keyentryT \<leftarrow> Entry a ikeyentry1; e2 \<leftarrow> Entry a ikeyentry2; a \<leftarrow> Put ikeyentry1 e2 a; Put ikeyentry2 keyentryT a }"

text \<open>
  The inner loop tests \<open>ikeyentryFirst-- >= ikeyentryMinIn + 1\<close>, so that the index is
  decremented also when the test fails, possibly below zero.
\<close>

function shift_loop :: "('e \<Rightarrow> 'e \<Rightarrow> int) \<Rightarrow> nat \<Rightarrow> 'e \<Rightarrow> nat \<Rightarrow> 'e CArray \<Rightarrow> (nat \<times> 'e CArray) option" where
  "shift_loop cmp ikeyentryMinIn keyentryKey ikeyentryFirst a =
     (if ikeyentryFirst \<ge> ikeyentryMinIn + 1
      then (let ikeyentryFirst = ikeyentryFirst - 1
            in do { e \<leftarrow> Entry a ikeyentryFirst;
                    if cmp e keyentryKey > 0
                    then do { a \<leftarrow> Put (ikeyentryFirst + 1) e a;
                              shift_loop cmp ikeyentryMinIn keyentryKey ikeyentryFirst a }
                    else Some (ikeyentryFirst, a) })
      else Some (size_dec ikeyentryFirst, a))"
  by pat_completeness auto
termination
  by (relation "measure (\<lambda>(c, mn, k, f, a). f)") auto

declare shift_loop.simps [simp del]

function insertion_loop :: "('e \<Rightarrow> 'e \<Rightarrow> int) \<Rightarrow> nat \<Rightarrow> nat \<Rightarrow> nat \<Rightarrow> nat \<Rightarrow> 'e CArray \<Rightarrow> 'e CArray option" where
  "insertion_loop cmp ikeyentryMinIn ikeyentryMaxIn ikeyentryFirst ikeyentryLast a =
     (if ikeyentryLast < ikeyentryMaxIn
      then do { f \<leftarrow> Entry a ikeyentryFirst; l \<leftarrow> Entry a ikeyentryLast;
                a \<leftarrow> (if cmp f l > 0
                      then do { a \<leftarrow> Put ikeyentryLast f a;
                                (first, a) \<leftarrow> shift_loop cmp ikeyentryMinIn l ikeyentryFirst a;
                                Put (size_inc first) l a }
                      else Some a);
                insertion_loop cmp ikeyentryMinIn ikeyentryMaxIn ikeyentryLast (ikeyentryLast + 1) a }
      else Some a)"
  by pat_completeness auto
termination
  by (relation "measure (\<lambda>(c, mn, mx, f, l, a). mx - l)") auto

declare insertion_loop.simps [simp del]

definition InsertionSort :: "('e \<Rightarrow> 'e \<Rightarrow> int) \<Rightarrow> nat \<Rightarrow> nat \<Rightarrow> 'e CArray \<Rightarrow> 'e CArray option" where
  "InsertionSort cmp ikeyentryMinIn ikeyentryMaxIn a =
     insertion_loop cmp ikeyentryMinIn ikeyentryMaxIn ikeyentryMinIn (ikeyentryMinIn + 1) a"

definition order_pair :: "('e \<Rightarrow> 'e \<Rightarrow> int) \<Rightarrow> nat \<Rightarrow> nat \<Rightarrow> 'e CArray \<Rightarrow> 'e CArray option" where
  "order_pair cmp i j a =
     do { x \<leftarrow> Entry a i; y \<leftarrow> Entry a j; if cmp x y > 0 then SwapEntry i j a else Some a }"

text \<open>The two scans of the partitioning; the pivot stays at \<open>ikeyentryMin\<close>.\<close>

function scan_up :: "('e \<Rightarrow> 'e \<Rightarrow> int) \<Rightarrow> 'e CArray \<Rightarrow> nat \<Rightarrow> nat \<Rightarrow> nat \<Rightarrow> nat option" where
  "scan_up cmp a ikeyentryMin ikeyentryFirst ikeyentryLast =
     (if ikeyentryFirst \<le> ikeyentryLast
      then do { e \<leftarrow> Entry a ikeyentryFirst; p \<leftarrow> Entry a ikeyentryMin;
                if cmp e p \<le> 0 then scan_up cmp a ikeyentryMin (ikeyentryFirst + 1) ikeyentryLast
                else Some ikeyentryFirst }
      else Some ikeyentryFirst)"
  by pat_completeness auto
termination
  by (relation "measure (\<lambda>(c, a, m, f, l). Suc l - f)") auto

declare scan_up.simps [simp del]

text \<open>Counting below zero gives \<open>SIZE_MAX\<close>, whose entry is read next through a null pointer.\<close>

fun scan_down :: "('e \<Rightarrow> 'e \<Rightarrow> int) \<Rightarrow> 'e CArray \<Rightarrow> nat \<Rightarrow> nat \<Rightarrow> nat \<Rightarrow> nat option" where
  "scan_down cmp a ikeyentryMin ikeyentryFirst ikeyentryLast =
     (if ikeyentryFirst \<le> ikeyentryLast
      then do { e \<leftarrow> Entry a ikeyentryLast; p \<leftarrow> Entry a ikeyentryMin;
                if cmp e p > 0
                then if ikeyentryLast = 0 then None
                     else scan_down cmp a ikeyentryMin ikeyentryFirst (ikeyentryLast - 1)
                else Some ikeyentryLast }
      else Some ikeyentryLast)"

declare scan_down.simps [simp del]

lemma scan_up_Some:
  "scan_up cmp a m f l = Some f' \<Longrightarrow> f \<le> f' \<and>
   (f' \<le> l \<longrightarrow> (\<exists>e p. Entry a f' = Some e \<and> Entry a m = Some p \<and> 0 < cmp e p))"
proof (induction cmp a m f l rule: scan_up.induct)
  case (1 cmp a m f l)
  then show ?case
    by (subst (asm) (2) scan_up.simps) (fastforce simp: bind_eq_Some_conv split: if_splits)
qed

lemma scan_down_Some:
  "scan_down cmp a m f l = Some l' \<Longrightarrow> l' \<le> l \<and>
   (f \<le> l' \<longrightarrow> (\<exists>e p. Entry a l' = Some e \<and> Entry a m = Some p \<and> cmp e p \<le> 0))"
proof (induction cmp a m f l rule: scan_down.induct)
  case (1 cmp a m f l)
  then show ?case
    by (subst (asm) (2) scan_down.simps) (fastforce simp: bind_eq_Some_conv split: if_splits)
qed

function partition_loop :: "('e \<Rightarrow> 'e \<Rightarrow> int) \<Rightarrow> nat \<Rightarrow> nat \<Rightarrow> nat \<Rightarrow> 'e CArray \<Rightarrow> (nat \<times> nat \<times> 'e CArray) option" where
  "partition_loop cmp ikeyentryMin ikeyentryFirst ikeyentryLast a =
     do { first \<leftarrow> scan_up cmp a ikeyentryMin ikeyentryFirst ikeyentryLast;
          last \<leftarrow> scan_down cmp a ikeyentryMin first ikeyentryLast;
          if first < last
          then do { a \<leftarrow> SwapEntry first last a;
                    if first + 1 \<le> last - 1 then partition_loop cmp ikeyentryMin (first + 1) (last - 1) a
                    else Some (first + 1, last - 1, a) }
          else if first \<le> last then partition_loop cmp ikeyentryMin first last a
          else Some (first, last, a) }"
  by pat_completeness auto
termination
proof (relation "measure (\<lambda>(c, m, f, l, a). Suc l - f)", goal_cases)
  case (2 cmp m f l a first last)
  then show ?case
    by (auto dest!: scan_up_Some scan_down_Some)
next
  case (3 cmp m f l a first last)
  then have "first = last"
    by simp
  with 3 show ?case
    by (auto dest!: scan_up_Some scan_down_Some)
qed simp

declare partition_loop.simps [simp del]

definition partition_range :: "('e \<Rightarrow> 'e \<Rightarrow> int) \<Rightarrow> nat \<Rightarrow> nat \<Rightarrow> 'e CArray \<Rightarrow> (nat \<times> nat \<times> 'e CArray) option" where
  "partition_range cmp ikeyentryMin ikeyentryMax a =
     (let ikeyentryFirst = ikeyentryMin;
          ikeyentryMid = ikeyentryMin + (ikeyentryMax - ikeyentryMin) div 2;
          ikeyentryLast = ikeyentryMax - 1
      in do { a \<leftarrow> order_pair cmp ikeyentryFirst ikeyentryMid a;
              a \<leftarrow> order_pair cmp ikeyentryFirst ikeyentryLast a;
              a \<leftarrow> order_pair cmp ikeyentryMid ikeyentryLast a;
              (first, last, a) \<leftarrow> partition_loop cmp ikeyentryMin ikeyentryFirst ikeyentryLast a;
              a \<leftarrow> SwapEntry ikeyentryMin last a;
              Some (first, last, a) })"

text \<open>The smaller part, which is sorted next, and the larger one.\<close>

definition choose_parts :: "nat \<Rightarrow> nat \<Rightarrow> nat \<Rightarrow> nat \<Rightarrow> (nat \<times> nat) \<times> (nat \<times> nat)" where
  "choose_parts ikeyentryMin ikeyentryMax ikeyentryFirst ikeyentryLast =
     (if ikeyentryMax - ikeyentryFirst = 0
      then ((ikeyentryLast, ikeyentryMax), (ikeyentryMin, ikeyentryLast))
      else if ikeyentryMax - ikeyentryFirst > ikeyentryFirst - ikeyentryMin
      then ((ikeyentryMin, ikeyentryFirst), (ikeyentryFirst, ikeyentryMax))
      else ((ikeyentryFirst, ikeyentryMax), (ikeyentryMin, ikeyentryFirst)))"

fun quick_loop :: "nat \<Rightarrow> ('e \<Rightarrow> 'e \<Rightarrow> int) \<Rightarrow> (nat \<times> nat) list \<Rightarrow> nat \<Rightarrow> nat \<Rightarrow> 'e CArray \<Rightarrow> 'e CArray option" where
  "quick_loop 0 cmp rgpart ikeyentryMin ikeyentryMax a = None"
| "quick_loop (Suc fuel) cmp rgpart ikeyentryMin ikeyentryMax a =
     (if ikeyentryMax - ikeyentryMin < 32
      then do { a \<leftarrow> InsertionSort cmp ikeyentryMin ikeyentryMax a;
                case rgpart of [] \<Rightarrow> Some a
                | (mn, mx) # rgpart \<Rightarrow> quick_loop fuel cmp rgpart mn mx a }
      else do { (first, last, a) \<leftarrow> partition_range cmp ikeyentryMin ikeyentryMax a;
                let ((smallMin, smallMax), (largeMin, largeMax)) = choose_parts ikeyentryMin ikeyentryMax first last
                in if length rgpart < 16
                   then quick_loop fuel cmp ((largeMin, largeMax) # rgpart) smallMin smallMax a
                   else do { a \<leftarrow> quick_loop fuel cmp [] largeMin largeMax a;
                             quick_loop fuel cmp rgpart smallMin smallMax a } })"

definition QuickSort :: "nat \<Rightarrow> ('e \<Rightarrow> 'e \<Rightarrow> int) \<Rightarrow> nat \<Rightarrow> nat \<Rightarrow> 'e CArray \<Rightarrow> 'e CArray option" where
  "QuickSort fuel cmp ikeyentryMinIn ikeyentryMaxIn a = quick_loop fuel cmp [] ikeyentryMinIn ikeyentryMaxIn a"

fun log2_loop :: "nat \<Rightarrow> nat \<Rightarrow> nat" where
  "log2_loop n log2n = (if n = 0 then log2n else log2_loop (n div 2) (log2n + 1))"

declare log2_loop.simps [simp del]

definition ConfigureSearch :: "('e \<Rightarrow> 'e \<Rightarrow> int) \<Rightarrow> bool \<Rightarrow> 'e CTable \<Rightarrow> 'e CTable option" where
  "ConfigureSearch cmp fInOrder t =
     (let a = m_arrayKeyEntry t; log2n = log2_loop (Table_Size t) 0
      in if 2 * log2n < Table_Size t
         then do { a \<leftarrow> (if \<not> fInOrder then QuickSort (2 * Table_Size t) cmp 0 (Table_Size t) a else Some a);
                   Some (t\<lparr>m_arrayKeyEntry := a, m_pfnSearch := BinarySearch\<rparr>) }
         else do { a \<leftarrow> (if \<not> fInOrder then InsertionSort cmp 0 (Table_Size t) a else Some a);
                   Some (t\<lparr>m_arrayKeyEntry := a, m_pfnSearch := LinearSearch\<rparr>) })"

section \<open>Loading and updating\<close>

text \<open>\<open>ErrSetEntry\<close> for each loaded entry from \<open>ientry\<close> on; its result is ignored.\<close>

fun load_loop :: "nat \<Rightarrow> 'e list \<Rightarrow> 'e CArray \<Rightarrow> 'e CArray option" where
  "load_loop ientry [] a = Some a"
| "load_loop ientry (e # rgentry) a =
     do { (a, err) \<leftarrow> ErrSetEntry None ientry e a; load_loop (ientry + 1) rgentry a }"

definition ErrLoad :: "('e \<Rightarrow> 'e \<Rightarrow> int) \<Rightarrow> 'e storage \<Rightarrow> 'e list \<Rightarrow> 'e CTable \<Rightarrow> ('e CTable \<times> CTable_ERR) option" where
  "ErrLoad cmp new rgentry t =
     (let ientryMin = Table_Size t; ientryMax = (Table_Size t + length rgentry) mod 2 ^ 64
      in do { (a, err) \<leftarrow> ErrSetSize new ientryMax (m_arrayKeyEntry t);
              if err \<noteq> AR_errSuccess then Some (t\<lparr>m_arrayKeyEntry := a\<rparr>, TA_errOutOfMemory)
              else do { a \<leftarrow> load_loop ientryMin (take (ientryMax - ientryMin) rgentry) a;
                        t \<leftarrow> ConfigureSearch cmp False (t\<lparr>m_arrayKeyEntry := a\<rparr>);
                        Some (t, TA_errSuccess) } })"

definition Table_ErrClone :: "'e storage \<Rightarrow> 'e CTable \<Rightarrow> 'e CTable \<Rightarrow> ('e CTable \<times> CTable_ERR) option" where
  "Table_ErrClone new table t =
     do { (a, err) \<leftarrow> CArray_ErrClone new (m_arrayKeyEntry table) (m_arrayKeyEntry t);
          if err \<noteq> AR_errSuccess then Some (t\<lparr>m_arrayKeyEntry := a\<rparr>, TA_errOutOfMemory)
          else Some (t\<lparr>m_arrayKeyEntry := a, m_pfnSearch := m_pfnSearch table\<rparr>, TA_errSuccess) }"

definition ErrCloneArray :: "('e \<Rightarrow> 'e \<Rightarrow> int) \<Rightarrow> 'e storage \<Rightarrow> 'e CArray \<Rightarrow> 'e CTable \<Rightarrow> ('e CTable \<times> CTable_ERR) option" where
  "ErrCloneArray cmp new array t =
     do { (a, err) \<leftarrow> CArray_ErrClone new array (m_arrayKeyEntry t);
          if err \<noteq> AR_errSuccess then Some (t\<lparr>m_arrayKeyEntry := a\<rparr>, TA_errOutOfMemory)
          else do { t \<leftarrow> ConfigureSearch cmp False (t\<lparr>m_arrayKeyEntry := a\<rparr>); Some (t, TA_errSuccess) } }"

definition ErrUpdateEntry ::
  "('e \<Rightarrow> 'e \<Rightarrow> int) \<Rightarrow> nat option \<Rightarrow> 'e \<Rightarrow> 'e CTable \<Rightarrow> ('e CTable \<times> CTable_ERR) option" where
  "ErrUpdateEntry cmp pentry entry t =
     do { old \<leftarrow> deref (m_arrayKeyEntry t) pentry;
          if cmp old entry = 0
          then do { a \<leftarrow> SetEntry pentry entry (m_arrayKeyEntry t); Some (t\<lparr>m_arrayKeyEntry := a\<rparr>, TA_errSuccess) }
          else Some (t, TA_errKeyChange) }"

definition Clear :: "'e CTable \<Rightarrow> 'e CTable option" where
  "Clear t = do { (a, err) \<leftarrow> ErrSetCapacity None 0 (m_arrayKeyEntry t); Some (t\<lparr>m_arrayKeyEntry := a\<rparr>) }"

section \<open>Searching\<close>

text \<open>The test both searches step over an entry with.\<close>

definition before :: "('e \<Rightarrow> 'k \<Rightarrow> int) \<Rightarrow> 'k \<Rightarrow> bool \<Rightarrow> 'e \<Rightarrow> bool" where
  "before cmpK key fHigh e = (let c = cmpK e key in c < 0 \<or> c = 0 \<and> fHigh)"

function linear_search :: "('e \<Rightarrow> 'k \<Rightarrow> int) \<Rightarrow> 'e CTable \<Rightarrow> 'k \<Rightarrow> bool \<Rightarrow> nat \<Rightarrow> nat option" where
  "linear_search cmpK t key fHigh ikeyentry =
     (if ikeyentry < Table_Size t
      then do { e \<leftarrow> Table_Entry t ikeyentry;
                if \<not> before cmpK key fHigh e then Some ikeyentry
                else linear_search cmpK t key fHigh (ikeyentry + 1) }
      else Some ikeyentry)"
  by pat_completeness auto
termination
  by (relation "measure (\<lambda>(c, t, k, h, i). Table_Size t - i)") auto

declare linear_search.simps [simp del]

function binary_search :: "('e \<Rightarrow> 'k \<Rightarrow> int) \<Rightarrow> 'e CTable \<Rightarrow> 'k \<Rightarrow> bool \<Rightarrow> nat \<Rightarrow> nat \<Rightarrow> nat option" where
  "binary_search cmpK t key fHigh ikeyentryMin ikeyentryMax =
     (if ikeyentryMin < ikeyentryMax
      then (let ikeyentryMid = ikeyentryMin + (ikeyentryMax - ikeyentryMin) div 2
            in do { e \<leftarrow> Table_Entry t ikeyentryMid;
                    if before cmpK key fHigh e
                    then binary_search cmpK t key fHigh (ikeyentryMid + 1) ikeyentryMax
                    else binary_search cmpK t key fHigh ikeyentryMin ikeyentryMid })
      else Some ikeyentryMax)"
  by pat_completeness auto
termination
  by (relation "measure (\<lambda>(c, t, k, h, mn, mx). mx - mn)") auto

declare binary_search.simps [simp del]

definition pfnSearch :: "('e \<Rightarrow> 'k \<Rightarrow> int) \<Rightarrow> 'e CTable \<Rightarrow> 'k \<Rightarrow> bool \<Rightarrow> nat option" where
  "pfnSearch cmpK t key fHigh =
     (case m_pfnSearch t of
        LinearSearch \<Rightarrow> linear_search cmpK t key fHigh 0
      | BinarySearch \<Rightarrow> binary_search cmpK t key fHigh 0 (Table_Size t))"

text \<open>The seeks return a pointer, which may be null; \<open>None\<close> is a fault.\<close>

definition SeekLT :: "('e \<Rightarrow> 'k \<Rightarrow> int) \<Rightarrow> 'e CTable \<Rightarrow> 'k \<Rightarrow> nat option option" where
  "SeekLT cmpK t key =
     do { i \<leftarrow> pfnSearch cmpK t key False;
          b \<leftarrow> (if i < Table_Size t then do { e \<leftarrow> Table_Entry t i; Some (cmpK e key < 0) } else Some False);
          Some (if b then Table_PEntry t i else Table_PEntry t (size_dec i)) }"

definition SeekLE :: "('e \<Rightarrow> 'k \<Rightarrow> int) \<Rightarrow> 'e CTable \<Rightarrow> 'k \<Rightarrow> nat option option" where
  "SeekLE cmpK t key =
     do { i \<leftarrow> pfnSearch cmpK t key False;
          b \<leftarrow> (if i < Table_Size t then do { e \<leftarrow> Table_Entry t i; Some (cmpK e key \<le> 0) } else Some False);
          Some (if b then Table_PEntry t i else Table_PEntry t (size_dec i)) }"

definition SeekEQ :: "('e \<Rightarrow> 'k \<Rightarrow> int) \<Rightarrow> 'e CTable \<Rightarrow> 'k \<Rightarrow> nat option option" where
  "SeekEQ cmpK t key =
     do { i \<leftarrow> pfnSearch cmpK t key False;
          b \<leftarrow> (if i < Table_Size t then do { e \<leftarrow> Table_Entry t i; Some (cmpK e key = 0) } else Some False);
          Some (if b then Table_PEntry t i else None) }"

definition SeekHI :: "('e \<Rightarrow> 'k \<Rightarrow> int) \<Rightarrow> 'e CTable \<Rightarrow> 'k \<Rightarrow> nat option option" where
  "SeekHI cmpK t key =
     do { i \<leftarrow> pfnSearch cmpK t key True;
          b \<leftarrow> (if i > 0 then do { e \<leftarrow> Table_Entry t (i - 1); Some (cmpK e key = 0) } else Some False);
          Some (if b then Table_PEntry t (i - 1) else None) }"

definition SeekGE :: "('e \<Rightarrow> 'k \<Rightarrow> int) \<Rightarrow> 'e CTable \<Rightarrow> 'k \<Rightarrow> nat option option" where
  "SeekGE cmpK t key =
     do { i \<leftarrow> pfnSearch cmpK t key True;
          b \<leftarrow> (if i > 0 then do { e \<leftarrow> Table_Entry t (i - 1); Some (cmpK e key = 0) } else Some False);
          Some (if b then Table_PEntry t (i - 1) else Table_PEntry t i) }"

definition SeekGT :: "('e \<Rightarrow> 'k \<Rightarrow> int) \<Rightarrow> 'e CTable \<Rightarrow> 'k \<Rightarrow> nat option option" where
  "SeekGT cmpK t key = do { i \<leftarrow> pfnSearch cmpK t key True; Some (Table_PEntry t i) }"

end
