(* ===== verification/Table_Props.thy ===== *)
theory Table_Props
  imports Sorted_Table
begin

text \<open>
  Correctness of \<open>CTable\<close>: the insertion sort and the quicksort leave an ordered permutation of
  the range they are given and touch nothing else; every operation keeps the table ordered; both
  searches return the number of entries before the key, and the six seeks follow from that. The
  array is used through the laws of \<open>entry_array\<close>.
\<close>

section \<open>Entries of the array\<close>

lemma Entry_mid: "arr_inv a \<Longrightarrow> entries a = xs @ y # ys \<Longrightarrow> Entry a (length xs) = Some y"
  by (simp add: Entry_in)

lemma Put_mid:
  assumes "arr_inv a" "entries a = xs @ y # ys"
  obtains a' where "Put (length xs) e a = Some a'" "arr_inv a'" "entries a' = xs @ e # ys"
proof -
  have "length xs < length (entries a)"
    using assms(2) by simp
  from carray.put_obtain [OF assms(1) this, of e] obtain a' where "Put (length xs) e a = Some a'" "arr_inv a'"
      "entries a' = (entries a)[length xs := e]" .
  with assms(2) that show thesis
    by simp
qed

lemma SwapEntry_obtain:
  assumes "arr_inv a" "i < length (entries a)" "j < length (entries a)"
  obtains a' where "SwapEntry i j a = Some a'" "arr_inv a'" "entries a' = (entries a)[i := entries a ! j, j := entries a ! i]"
  using carray.swap_obtain [OF assms] unfolding SwapEntry_def by blast

lemma SwapEntry_ends:
  assumes "arr_inv a" "entries a = xs @ x # ys @ y # zs"
  obtains a' where "SwapEntry (length xs) (length xs + Suc (length ys)) a = Some a'" "arr_inv a'"
    "entries a' = xs @ y # ys @ x # zs"
proof -
  obtain a' where a': "SwapEntry (length xs) (length xs + Suc (length ys)) a = Some a'" "arr_inv a'"
      "entries a' = (entries a)[length xs := entries a ! (length xs + Suc (length ys)),
         length xs + Suc (length ys) := entries a ! length xs]"
    by (rule SwapEntry_obtain [OF assms(1), of "length xs" "length xs + Suc (length ys)"]) (simp_all add: assms(2))
  moreover have "(xs @ x # ys @ y # zs) ! (length xs + Suc (length ys)) = y"
    by (simp add: nth_append)
  ultimately have "entries a' = xs @ y # ys @ x # zs"
    unfolding assms(2) by (simp add: list_update_append)
  with a' that show thesis
    by blast
qed

lemma SwapEntry_same:
  assumes "arr_inv a" "i < length (entries a)"
  obtains a' where "SwapEntry i i a = Some a'" "arr_inv a'" "entries a' = entries a"
  using SwapEntry_obtain [OF assms(1,2,2)] by (metis list_update_id list_update_overwrite)

section \<open>Insertion sort\<close>

abbreviation ordered :: "('e \<Rightarrow> 'e \<Rightarrow> int) \<Rightarrow> 'e list \<Rightarrow> bool" where
  "ordered cmp \<equiv> sorted_wrt (\<lambda>x y. cmp x y \<le> 0)"

lemma shift_loop_correct:
  assumes "arr_inv a" "entries a = pre @ A @ h # B" "length pre + length A \<le> SIZE_MAX"
  shows "\<exists>f a1 a' A1 A2. shift_loop cmp (length pre) key (length pre + length A) a = Some (f, a1)
    \<and> Put (size_inc f) key a1 = Some a' \<and> arr_inv a' \<and> entries a' = pre @ A1 @ key # A2 @ B
    \<and> A = A1 @ A2 \<and> (\<forall>x\<in>set A2. 0 < cmp x key) \<and> (A1 \<noteq> [] \<longrightarrow> cmp (last A1) key \<le> 0)"
  using assms
proof (induction A arbitrary: a h B rule: rev_induct)
  case Nil
  have "size_inc (size_dec (length pre)) = length pre"
    using Nil.prems(3) by (cases "length pre") (auto simp: size_inc_def size_dec_def)
  moreover obtain a' where "Put (length pre) key a = Some a'" "arr_inv a'" "entries a' = pre @ key # B"
    using Put_mid [OF Nil.prems(1), of pre h B key] Nil.prems(2) by auto
  ultimately show ?case
    by (simp add: shift_loop.simps)
next
  case (snoc x A)
  let ?f = "length pre + length A"
  have e: "Entry a ?f = Some x"
    using Entry_mid [OF snoc.prems(1), of "pre @ A" x "h # B"] snoc.prems(2) by simp
  show ?case
  proof (cases "0 < cmp x key")
    case True
    obtain a1 where a1: "Put (Suc ?f) x a = Some a1" "arr_inv a1" "entries a1 = pre @ A @ x # x # B"
      using Put_mid [OF snoc.prems(1), of "pre @ A @ [x]" h B x] snoc.prems(2) by auto
    have "length pre + length A \<le> SIZE_MAX"
      using snoc.prems(3) by simp
    from snoc.IH [OF a1(2,3) this]
    obtain f a2 a' A1 A2 where r: "shift_loop cmp (length pre) key ?f a1 = Some (f, a2)" "Put (size_inc f) key a2 = Some a'"
        "arr_inv a'" "entries a' = pre @ A1 @ key # A2 @ x # B" "A = A1 @ A2" "\<forall>x\<in>set A2. 0 < cmp x key"
        "A1 \<noteq> [] \<longrightarrow> cmp (last A1) key \<le> 0"
      by blast
    have "shift_loop cmp (length pre) key (length pre + length (A @ [x])) a = Some (f, a2)"
      using e a1(1) r(1) True by (subst shift_loop.simps) (simp add: Let_def)
    with r True show ?thesis
      by (intro exI [of _ f] exI [of _ a2] exI [of _ a'] exI [of _ A1] exI [of _ "A2 @ [x]"]) simp
  next
    case False
    obtain a' where "Put (Suc ?f) key a = Some a'" "arr_inv a'" "entries a' = pre @ (A @ [x]) @ key # B"
      using Put_mid [OF snoc.prems(1), of "pre @ A @ [x]" h B key] snoc.prems(2) by auto
    moreover have "size_inc ?f = Suc ?f"
      using snoc.prems(3) by (simp add: size_inc_def)
    moreover have "shift_loop cmp (length pre) key (length pre + length (A @ [x])) a = Some (?f, a)"
      using e False by (subst shift_loop.simps) (simp add: Let_def)
    ultimately show ?thesis
      using False by (intro exI [of _ ?f] exI [of _ a] exI [of _ a'] exI [of _ "A @ [x]"] exI [of _ "[]"]) simp
  qed
qed

lemma insert_ordered:
  assumes "cmp_order cmp" "ordered cmp (A1 @ A2 @ [z])" "\<forall>x\<in>set A2. 0 < cmp x u" "0 < cmp z u"
    and "A1 \<noteq> [] \<longrightarrow> cmp (last A1) u \<le> 0"
  shows "ordered cmp (A1 @ u # A2 @ [z])"
proof -
  have "cmp x u \<le> 0" if x: "x \<in> set A1" for x
  proof -
    obtain B l where B: "A1 = B @ [l]"
      using x by (cases A1 rule: rev_cases) auto
    then have "cmp l u \<le> 0"
      using assms(5) by simp
    moreover have "cmp x l \<le> 0"
      using x assms(2) B cmp_refl [OF assms(1), of l] by (auto simp: sorted_wrt_append)
    ultimately show ?thesis
      by (meson assms(1) cmp_trans)
  qed
  moreover have "cmp u x \<le> 0" if "x \<in> set A2 \<union> {z}" for x
    using that assms(3,4) cmp_sym [OF assms(1), of u x] by auto
  ultimately show ?thesis
    using assms(2) by (auto simp: sorted_wrt_append)
qed

lemma insertion_loop_correct:
  assumes "arr_inv a" "entries a = pre @ (S @ [z]) @ U @ post" "ordered cmp (S @ [z])" "cmp_order cmp"
  shows "\<exists>a' M. insertion_loop cmp (length pre) (length pre + Suc (length S) + length U) (length pre + length S)
      (length pre + Suc (length S)) a = Some a' \<and> arr_inv a' \<and> entries a' = pre @ M @ post
    \<and> mset M = mset (S @ [z] @ U) \<and> ordered cmp M"
  using assms(1-3)
proof (induction U arbitrary: a S z)
  case Nil
  then show ?case
    by (intro exI [of _ a] exI [of _ "S @ [z]"]) (simp add: insertion_loop.simps)
next
  case (Cons u U)
  let ?n = "length pre" and ?f = "length pre + length S"
  have sz: "?f \<le> SIZE_MAX"
    using Cons.prems(1,2) length_entries [OF Cons.prems(1)] by (simp add: arr_inv_def)
  have e: "Entry a ?f = Some z" "Entry a (Suc ?f) = Some u"
    using Entry_mid [OF Cons.prems(1), of "pre @ S" z "u # U @ post"]
      Entry_mid [OF Cons.prems(1), of "pre @ S @ [z]" u "U @ post"] Cons.prems(2) by simp_all
  show ?case
  proof (cases "0 < cmp z u")
    case True
    obtain a1 where a1: "Put (Suc ?f) z a = Some a1" "arr_inv a1" "entries a1 = pre @ S @ z # z # U @ post"
      using Put_mid [OF Cons.prems(1), of "pre @ S @ [z]" u "U @ post" z] Cons.prems(2) by auto
    obtain f a2 a3 A1 A2 where r: "shift_loop cmp ?n u ?f a1 = Some (f, a2)" "Put (size_inc f) u a2 = Some a3"
        "arr_inv a3" "entries a3 = pre @ A1 @ u # A2 @ z # U @ post" "S = A1 @ A2" "\<forall>x\<in>set A2. 0 < cmp x u"
        "A1 \<noteq> [] \<longrightarrow> cmp (last A1) u \<le> 0"
      using shift_loop_correct [OF a1(2,3) sz, of cmp u] by blast
    have o: "ordered cmp ((A1 @ u # A2) @ [z])"
      using insert_ordered [OF assms(4), of A1 A2 z u] Cons.prems(3) r(5-7) True by simp
    have "entries a3 = pre @ ((A1 @ u # A2) @ [z]) @ U @ post"
      using r(4) by simp
    from Cons.IH [OF r(3) this o] obtain a' M where
        "insertion_loop cmp ?n (?n + Suc (length (A1 @ u # A2)) + length U) (?n + length (A1 @ u # A2)) (?n + Suc (length (A1 @ u # A2))) a3 = Some a'"
        "arr_inv a'" "entries a' = pre @ M @ post" "mset M = mset ((A1 @ u # A2) @ [z] @ U)" "ordered cmp M"
      by blast
    moreover have "length (A1 @ u # A2) = Suc (length S)" "mset S = mset A1 + mset A2"
      using r(5) by simp_all
    moreover have "insertion_loop cmp ?n mx ?f (Suc ?f) a = insertion_loop cmp ?n mx (Suc ?f) (Suc (Suc ?f)) a3"
      if "Suc ?f < mx" for mx
      using e a1(1) r(1,2) True that by (simp add: insertion_loop.simps [of cmp ?n mx ?f])
    ultimately show ?thesis
      by (intro exI [of _ a'] exI [of _ M]) simp
  next
    case False
    then have o: "ordered cmp ((S @ [z]) @ [u])"
      using Cons.prems(3) cmp_trans [OF assms(4), of _ z u] by (auto simp: sorted_wrt_append)
    have "entries a = pre @ ((S @ [z]) @ [u]) @ U @ post"
      using Cons.prems(2) by simp
    from Cons.IH [OF Cons.prems(1) this o] obtain a' M where
        "insertion_loop cmp ?n (?n + Suc (length (S @ [z])) + length U) (?n + length (S @ [z])) (?n + Suc (length (S @ [z]))) a = Some a'"
        "arr_inv a'" "entries a' = pre @ M @ post" "mset M = mset ((S @ [z]) @ [u] @ U)" "ordered cmp M"
      by blast
    then show ?thesis
      using e False by (intro exI [of _ a'] exI [of _ M]) (simp add: insertion_loop.simps [of cmp ?n _ ?f])
  qed
qed

lemma InsertionSort_correct:
  assumes "arr_inv a" "entries a = pre @ M @ post" "cmp_order cmp"
  shows "\<exists>a' M'. InsertionSort cmp (length pre) (length pre + length M) a = Some a' \<and> arr_inv a'
    \<and> entries a' = pre @ M' @ post \<and> mset M' = mset M \<and> ordered cmp M'"
proof (cases M)
  case Nil
  then show ?thesis
    using assms by (simp add: InsertionSort_def insertion_loop.simps)
next
  case (Cons z U)
  then show ?thesis
    using insertion_loop_correct [OF assms(1), of pre "[]" z U post cmp] assms(2,3) by (simp add: InsertionSort_def)
qed
section \<open>Partitioning\<close>

text \<open>
  During the partitioning the entries of the range are the pivot \<open>p\<close>, entries \<open>L\<close> not above
  it, entries \<open>M\<close> not looked at, and entries \<open>G\<close> above it.
\<close>

lemma scan_up_correct:
  assumes "arr_inv a" "entries a = pre @ p # L @ M @ G"
  shows "scan_up cmp a (length pre) (length pre + Suc (length L)) (length pre + length L + length M)
    = Some (length pre + Suc (length L) + length (takeWhile (\<lambda>e. cmp e p \<le> 0) M))"
  using assms(2)
proof (induction M arbitrary: L)
  case Nil
  then show ?case
    by (simp add: scan_up.simps)
next
  case (Cons x M)
  have "Entry a (length pre) = Some p" "Entry a (length pre + Suc (length L)) = Some x"
    using Entry_mid [OF assms(1), of pre p] Entry_mid [OF assms(1), of "pre @ p # L" x] Cons.prems by simp_all
  moreover have "entries a = pre @ p # (L @ [x]) @ M @ G"
    using Cons.prems by simp
  note Cons.IH [OF this]
  ultimately show ?case
    by (simp add: scan_up.simps [of cmp a "length pre" "Suc (length pre + length L)"])
qed

lemma scan_down_correct:
  assumes "arr_inv a" "entries a = pre @ p # L @ M @ G"
  shows "scan_down cmp a (length pre) (length pre + Suc (length L)) (length pre + length L + length M)
    = Some (length pre + length L + length M - length (takeWhile (\<lambda>e. 0 < cmp e p) (rev M)))"
  using assms(2)
proof (induction M arbitrary: G rule: rev_induct)
  case Nil
  then show ?case
    by (simp add: scan_down.simps)
next
  case (snoc x M)
  have "Entry a (length pre) = Some p" "Entry a (Suc (length pre + length L + length M)) = Some x"
    using Entry_mid [OF assms(1), of pre p] Entry_mid [OF assms(1), of "pre @ p # L @ M" x] snoc.prems
    by (simp_all add: add.assoc)
  moreover have "entries a = pre @ p # L @ M @ [x] @ G"
    using snoc.prems by simp
  note snoc.IH [OF this]
  ultimately show ?case
    by (simp add: scan_down.simps [of cmp a "length pre" "Suc (length pre + length L)" "Suc _"])
qed

text \<open>What is left of \<open>M\<close> after both scans.\<close>

lemma trimmed_cases:
  assumes "M2 = rev (dropWhile (\<lambda>e. 0 < cmp e p) (rev (dropWhile (\<lambda>e. cmp e p \<le> (0::int)) M)))"
  obtains "M2 = []" | g N l where "M2 = g # N @ [l]" "0 < cmp g p" "cmp l p \<le> 0"
proof (cases M2)
  case (Cons g N)
  let ?D = "dropWhile (\<lambda>e. cmp e p \<le> 0) M" and ?E = "dropWhile (\<lambda>e. 0 < cmp e p) (rev (dropWhile (\<lambda>e. cmp e p \<le> (0::int)) M))"
  have "?E \<noteq> []"
    using Cons assms by auto
  have "?D = rev ?E @ rev (takeWhile (\<lambda>e. 0 < cmp e p) (rev ?D))"
    by (metis rev_append rev_rev_ident takeWhile_dropWhile_id)
  moreover have "rev ?E = g # N"
    using assms Cons by simp
  ultimately have "?D = g # N @ rev (takeWhile (\<lambda>e. 0 < cmp e p) (rev ?D))"
    by (metis append_Cons)
  then have g: "0 < cmp g p"
    using hd_dropWhile [of "\<lambda>e. cmp e p \<le> 0" M] by (metis list.distinct(1) list.sel(1) not_le)
  have l: "cmp (last M2) p \<le> 0"
    using hd_dropWhile [OF \<open>?E \<noteq> []\<close>] \<open>?E \<noteq> []\<close> assms by (simp add: last_rev)
  show thesis
  proof (cases N rule: rev_cases)
    case Nil
    then show thesis
      using Cons g l by simp
  next
    case (snoc N' l')
    then show thesis
      using that(2) [of g N' l'] Cons g l by simp
  qed
qed (use that in simp)

lemma partition_loop_correct:
  assumes "arr_inv a" "entries a = pre @ p # L @ M @ G @ post"
    and "\<forall>x\<in>set L. cmp x p \<le> 0" "\<forall>x\<in>set G. 0 < cmp x p"
  shows "\<exists>a' L' G'. partition_loop cmp (length pre) (length pre + Suc (length L)) (length pre + length L + length M) a
      = Some (length pre + Suc (length L'), length pre + length L', a')
    \<and> arr_inv a' \<and> entries a' = pre @ p # L' @ G' @ post \<and> mset (L' @ G') = mset (L @ M @ G)
    \<and> (\<forall>x\<in>set L'. cmp x p \<le> 0) \<and> (\<forall>x\<in>set G'. 0 < cmp x p)"
  using assms
proof (induction "length M" arbitrary: a L M G rule: less_induct)
  case less
  let ?n = "length pre"
  define T where "T = takeWhile (\<lambda>e. cmp e p \<le> 0) M"
  define D where "D = dropWhile (\<lambda>e. cmp e p \<le> 0) M"
  define W where "W = takeWhile (\<lambda>e. 0 < cmp e p) (rev D)"
  define M2 where "M2 = rev (dropWhile (\<lambda>e. 0 < cmp e p) (rev D))"
  have M: "M = T @ M2 @ rev W"
    unfolding T_def M2_def W_def by (metis D_def rev_append rev_rev_ident takeWhile_dropWhile_id)
  have T: "\<forall>x\<in>set T. cmp x p \<le> 0" and W: "\<forall>x\<in>set W. 0 < cmp x p"
    by (auto simp: T_def W_def dest: set_takeWhileD)
  have up: "scan_up cmp a ?n (?n + Suc (length L)) (?n + length L + length M) = Some (?n + Suc (length (L @ T)))"
    using scan_up_correct [OF less.prems(1), of pre p L M "G @ post" cmp] less.prems(2) by (simp add: T_def)
  have D: "D = M2 @ rev W"
    unfolding M2_def W_def by (metis rev_append rev_rev_ident takeWhile_dropWhile_id)
  have MD: "M = T @ D"
    unfolding T_def D_def by simp
  have "entries a = pre @ p # (L @ T) @ D @ G @ post"
    using less.prems(2) MD by simp
  from scan_down_correct [OF less.prems(1) this, of cmp]
  have dn: "scan_down cmp a ?n (?n + Suc (length (L @ T))) (?n + length L + length M) = Some (?n + length (L @ T) + length M2)"
    unfolding MD W_def [symmetric] using D by (simp add: add.assoc)
  from trimmed_cases [of M2 cmp p M, OF M2_def [unfolded D_def]] show ?case
  proof cases
    case 1
    have "partition_loop cmp ?n (?n + Suc (length L)) (?n + length L + length M) a
        = Some (?n + Suc (length (L @ T)), ?n + length (L @ T), a)"
      using up dn 1 by (subst partition_loop.simps) simp
    moreover have "entries a = pre @ p # (L @ T) @ (rev W @ G) @ post"
      using less.prems(2) M 1 by simp
    ultimately show ?thesis
      using less.prems(1,3,4) T W M 1 by (intro exI [of _ a] exI [of _ "L @ T"] exI [of _ "rev W @ G"]) auto
  next
    case (2 g N l)
    let ?xs = "pre @ p # L @ T"
    have "entries a = ?xs @ g # N @ l # rev W @ G @ post"
      using less.prems(2) M 2(1) by simp
    from SwapEntry_ends [OF less.prems(1) this] obtain a1 where
      a1: "SwapEntry (length ?xs) (length ?xs + Suc (length N)) a = Some a1" "arr_inv a1"
        "entries a1 = ?xs @ l # N @ g # rev W @ G @ post" .
    have "length N < length M"
      using M 2(1) by simp
    moreover have "entries a1 = pre @ p # (L @ T @ [l]) @ N @ (g # rev W @ G) @ post"
      using a1(3) by simp
    moreover have "\<forall>x\<in>set (L @ T @ [l]). cmp x p \<le> 0" "\<forall>x\<in>set (g # rev W @ G). 0 < cmp x p"
      using less.prems(3,4) T W 2(2,3) by auto
    ultimately obtain a' L' G' where IH:
        "partition_loop cmp ?n (?n + Suc (length (L @ T @ [l]))) (?n + length (L @ T @ [l]) + length N) a1
          = Some (?n + Suc (length L'), ?n + length L', a')"
        "arr_inv a'" "entries a' = pre @ p # L' @ G' @ post" "mset (L' @ G') = mset ((L @ T @ [l]) @ N @ (g # rev W @ G))"
        "\<forall>x\<in>set L'. cmp x p \<le> 0" "\<forall>x\<in>set G'. 0 < cmp x p"
      using less.hyps [of N a1 "L @ T @ [l]" "g # rev W @ G"] a1(2) by blast
    have "partition_loop cmp ?n (?n + Suc (length L)) (?n + length L + length M) a
        = Some (?n + Suc (length L'), ?n + length L', a')"
    proof (cases "N = []")
      case True
      have "partition_loop cmp ?n (?n + Suc (length (L @ T @ [l]))) (?n + length (L @ T @ [l]) + length N) a1
          = Some (?n + Suc (length (L @ T @ [l])), ?n + length (L @ T @ [l]), a1)"
        using True by (subst partition_loop.simps) (simp add: scan_up.simps scan_down.simps)
      with IH(1) have "a' = a1" "length L' = length (L @ T @ [l])"
        by simp_all
      then show ?thesis
        using up dn 2(1) a1(1) True by (subst partition_loop.simps) simp
    next
      case False
      then show ?thesis
        using up dn 2(1) a1(1) IH(1) by (subst partition_loop.simps) (simp add: Suc_le_eq)
    qed
    with IH(2-6) show ?thesis
      using M 2(1) by (intro exI [of _ a'] exI [of _ L'] exI [of _ G']) auto
  qed
qed
lemma order_pair_correct:
  assumes "arr_inv a" "i < length (entries a)" "j < length (entries a)"
  obtains a' where "order_pair cmp i j a = Some a'" "arr_inv a'"
    "entries a' = entries a \<or> entries a' = (entries a)[i := entries a ! j, j := entries a ! i]"
proof (cases "0 < cmp (entries a ! i) (entries a ! j)")
  case True
  obtain a' where "SwapEntry i j a = Some a'" "arr_inv a'" "entries a' = (entries a)[i := entries a ! j, j := entries a ! i]"
    using SwapEntry_obtain [OF assms] .
  with True assms that show thesis
    by (simp add: order_pair_def Entry_in)
next
  case False
  with assms that show thesis
    by (simp add: order_pair_def Entry_in)
qed

text \<open>Two lists that differ by a permutation of the positions from \<open>m\<close> up to \<open>M\<close>.\<close>

definition seg :: "nat \<Rightarrow> nat \<Rightarrow> 'e list \<Rightarrow> 'e list" where
  "seg m M xs = take (M - m) (drop m xs)"

definition perm_in :: "nat \<Rightarrow> nat \<Rightarrow> 'e list \<Rightarrow> 'e list \<Rightarrow> bool" where
  "perm_in m M xs ys \<longleftrightarrow> length ys = length xs \<and> take m ys = take m xs \<and> drop M ys = drop M xs
     \<and> mset (seg m M ys) = mset (seg m M xs)"

lemma seg_split: "m \<le> M \<Longrightarrow> M \<le> length xs \<Longrightarrow> xs = take m xs @ seg m M xs @ drop M xs"
  unfolding seg_def by (metis append.assoc append_take_drop_id le_add_diff_inverse take_add)

lemma seg_append: "seg (length pre) (length pre + length M) (pre @ M @ post) = M"
  by (simp add: seg_def)

lemma length_seg: "M \<le> length xs \<Longrightarrow> length (seg m M xs) = M - m"
  by (simp add: seg_def)

lemma seg_nth: "m + i < M \<Longrightarrow> M \<le> length xs \<Longrightarrow> seg m M xs ! i = xs ! (m + i)"
  by (simp add: seg_def)

lemma seg_join: "m \<le> k \<Longrightarrow> k \<le> M \<Longrightarrow> M \<le> length xs \<Longrightarrow> seg m M xs = seg m k xs @ seg k M xs"
  by (rule nth_equalityI) (auto simp: length_seg seg_nth nth_append add.commute)

lemma perm_in_refl: "perm_in m M xs xs"
  by (simp add: perm_in_def)

lemma perm_in_trans: "perm_in m M xs ys \<Longrightarrow> perm_in m M ys zs \<Longrightarrow> perm_in m M xs zs"
  by (simp add: perm_in_def)

lemma perm_in_segI:
  assumes "xs = pre @ A @ post" "ys = pre @ B @ post" "mset B = mset A"
  shows "perm_in (length pre) (length pre + length A) xs ys"
proof -
  have "length B = length A"
    using assms(3) by (metis size_mset)
  with assms seg_append [of pre A post] seg_append [of pre B post] show ?thesis
    by (simp add: perm_in_def)
qed

lemma perm_in_swap:
  assumes "m \<le> i" "i < M" "m \<le> j" "j < M" "M \<le> length xs"
  shows "perm_in m M xs (xs[i := xs ! j, j := xs ! i])"
proof -
  let ?ys = "xs[i := xs ! j, j := xs ! i]"
  have "seg m M ?ys = (seg m M xs)[i - m := seg m M xs ! (j - m), j - m := seg m M xs ! (i - m)]"
    using assms by (intro nth_equalityI) (auto simp: length_seg seg_nth nth_list_update)
  also have "mset \<dots> = mset (seg m M xs)"
    using assms by (intro mset_swap) (simp_all add: length_seg)
  finally show ?thesis
    using assms by (simp add: perm_in_def)
qed

lemma order_pair_perm:
  assumes "arr_inv a" "m \<le> i" "i < M" "m \<le> j" "j < M" "M \<le> length (entries a)"
  obtains a' where "order_pair cmp i j a = Some a'" "arr_inv a'" "perm_in m M (entries a) (entries a')"
proof -
  have "i < length (entries a)" "j < length (entries a)"
    using assms by simp_all
  from order_pair_correct [OF assms(1) this, of cmp] obtain a' where "order_pair cmp i j a = Some a'" "arr_inv a'"
    "entries a' = entries a \<or> entries a' = (entries a)[i := entries a ! j, j := entries a ! i]" .
  with perm_in_refl perm_in_swap [OF assms(2-6)] that show thesis
    by metis
qed

lemma perm_in_length: "perm_in m M xs ys \<Longrightarrow> length ys = length xs"
  by (simp add: perm_in_def)

text \<open>The result of partitioning a range: everything up to \<open>last\<close> is at most the pivot, which
  stands there, and everything from \<open>first\<close> on is above it.\<close>

lemma partition_range_correct:
  assumes "arr_inv a" "m + 2 \<le> M" "M \<le> length (entries a)" "cmp_order cmp"
  obtains a' l where "partition_range cmp m M a = Some (Suc l, l, a')" "arr_inv a'" "perm_in m M (entries a) (entries a')"
    "m \<le> l" "l < M" "\<And>i. m \<le> i \<Longrightarrow> i \<le> l \<Longrightarrow> cmp (entries a' ! i) (entries a' ! l) \<le> 0"
    "\<And>i. l < i \<Longrightarrow> i < M \<Longrightarrow> 0 < cmp (entries a' ! i) (entries a' ! l)"
proof -
  let ?mid = "m + (M - m) div 2" and ?last = "M - 1"
  have b: "m \<le> ?mid" "?mid < M" "m \<le> ?last" "?last < M" "m < M" "m \<le> m"
    using assms(2) by auto
  obtain a1 where a1: "order_pair cmp m ?mid a = Some a1" "arr_inv a1" "perm_in m M (entries a) (entries a1)"
    using order_pair_perm [OF assms(1) b(6,5,1,2) assms(3)] .
  have l1: "M \<le> length (entries a1)"
    using a1(3) assms(3) by (simp add: perm_in_length)
  obtain a2 where a2: "order_pair cmp m ?last a1 = Some a2" "arr_inv a2" "perm_in m M (entries a1) (entries a2)"
    using order_pair_perm [OF a1(2) b(6,5,3,4) l1] .
  have l2: "M \<le> length (entries a2)"
    using a2(3) l1 by (simp add: perm_in_length)
  obtain a3 where a3: "order_pair cmp ?mid ?last a2 = Some a3" "arr_inv a3" "perm_in m M (entries a2) (entries a3)"
    using order_pair_perm [OF a2(2) b(1-4) l2] .
  have l3: "M \<le> length (entries a3)"
    using a3(3) l2 by (simp add: perm_in_length)
  define pre where "pre = take m (entries a3)"
  define post where "post = drop M (entries a3)"
  have pre: "length pre = m"
    using l3 b(5) by (simp add: pre_def)
  obtain p N where N: "seg m M (entries a3) = p # N"
    using length_seg [OF l3, of m] b(5) by (cases "seg m M (entries a3)") auto
  have e3: "entries a3 = pre @ (p # N) @ post"
    using seg_split [OF less_imp_le [OF b(5)] l3] N by (simp add: pre_def post_def)
  have M: "M = m + Suc (length N)"
    using length_seg [OF l3, of m] N b(5) by simp
  obtain a4 L G where a4: "partition_loop cmp m (m + 1) (m + length N) a3 = Some (m + Suc (length L), m + length L, a4)"
      "arr_inv a4" "entries a4 = pre @ p # L @ G @ post" "mset (L @ G) = mset N"
      "\<forall>x\<in>set L. cmp x p \<le> 0" "\<forall>x\<in>set G. 0 < cmp x p"
    using partition_loop_correct [OF a3(2), of pre p "[]" N "[]" post cmp] e3 pre by auto
  have "scan_up cmp a3 m m (m + length N) = scan_up cmp a3 m (m + 1) (m + length N)"
    using Entry_mid [OF a3(2), of pre p "N @ post"] e3 pre cmp_refl [OF assms(4), of p]
    by (simp add: scan_up.simps [of cmp a3 m m])
  then have "partition_loop cmp m m ?last a3 = Some (m + Suc (length L), m + length L, a4)"
    using a4(1) M by (simp add: partition_loop.simps [of cmp m m] partition_loop.simps [of cmp m "Suc m"])
  moreover obtain a5 L' where a5: "SwapEntry m (m + length L) a4 = Some a5" "arr_inv a5"
      "entries a5 = pre @ L' @ p # G @ post" "mset (L' @ [p]) = mset (p # L)" "length L' = length L"
  proof (cases L rule: rev_cases)
    case Nil
    have "m < length (entries a4)"
      using a4(3) pre by simp
    from SwapEntry_same [OF a4(2) this] show thesis
      using that [of _ "[]"] Nil a4(3) by auto
  next
    case (snoc K k)
    have "entries a4 = pre @ p # K @ k # G @ post"
      using a4(3) snoc by simp
    from SwapEntry_ends [OF a4(2) this] show thesis
      using that [of _ "k # K"] snoc pre by auto
  qed
  ultimately have run: "partition_range cmp m M a = Some (Suc (m + length L), m + length L, a5)"
    using a1(1) a2(1) a3(1) by (simp add: partition_range_def Let_def)
  have len: "length L + length G = length N"
    using a4(4) by (metis length_append size_mset)
  have "mset (L' @ p # G) = mset (p # N)"
    using a4(4) a5(4) by simp
  then have "perm_in (length pre) (length pre + length (p # N)) (entries a3) (entries a5)"
    using e3 a5(3) perm_in_segI [of "entries a3" pre "p # N" post "entries a5" "L' @ p # G"] by simp
  then have perm: "perm_in m M (entries a) (entries a5)"
    using a1(3) a2(3) a3(3) perm_in_trans pre M by (metis length_Cons)
  have piv: "entries a5 ! (m + length L) = p"
    using a5(3,5) pre by (simp add: nth_append)
  have "set L' \<subseteq> insert p (set L)"
    using a5(4) by (metis list.simps(15) mset_eq_setD set_append Un_upper1)
  then have low: "cmp (entries a5 ! i) p \<le> 0" if "m \<le> i" "i \<le> m + length L" for i
  proof (cases "i = m + length L")
    case False
    then have "entries a5 ! i = L' ! (i - m)" "i - m < length L'"
      using that a5(3,5) pre by (auto simp: nth_append)
    then show ?thesis
      using \<open>set L' \<subseteq> insert p (set L)\<close> a4(5) cmp_refl [OF assms(4), of p] nth_mem by fastforce
  qed (use piv cmp_refl [OF assms(4)] in simp)
  have high: "0 < cmp (entries a5 ! i) p" if "m + length L < i" "i < M" for i
  proof -
    have i: "i - Suc (m + length L) < length G" "i = length (pre @ L' @ [p]) + (i - Suc (m + length L))"
      using that len M a5(5) pre by auto
    have "entries a5 ! i = G ! (i - Suc (m + length L))"
      using a5(3) i by (metis append.assoc append_Cons append_Nil nth_append nth_append_length_plus)
    then show ?thesis
      using a4(6) i(1) by simp
  qed
  show thesis
    using that [OF run a5(2) perm] piv low high M len by simp
qed
section \<open>Quicksort\<close>

text \<open>
  \<open>P\<close> are the ranges still to be sorted: outside them nothing changes, and each ends as an
  ordered permutation of what it was.
\<close>

definition inside :: "nat \<Rightarrow> nat \<times> nat \<Rightarrow> bool" where
  "inside i r \<longleftrightarrow> fst r \<le> i \<and> i < snd r"

definition same_out :: "(nat \<times> nat) set \<Rightarrow> 'e list \<Rightarrow> 'e list \<Rightarrow> bool" where
  "same_out P xs ys \<longleftrightarrow> length ys = length xs \<and> (\<forall>i<length xs. (\<forall>r\<in>P. \<not> inside i r) \<longrightarrow> ys ! i = xs ! i)"

definition range_sorted :: "('e \<Rightarrow> 'e \<Rightarrow> int) \<Rightarrow> 'e list \<Rightarrow> 'e list \<Rightarrow> nat \<times> nat \<Rightarrow> bool" where
  "range_sorted cmp xs ys r \<longleftrightarrow> mset (seg (fst r) (snd r) ys) = mset (seg (fst r) (snd r) xs)
     \<and> ordered cmp (seg (fst r) (snd r) ys)"

definition sorts :: "('e \<Rightarrow> 'e \<Rightarrow> int) \<Rightarrow> (nat \<times> nat) set \<Rightarrow> 'e list \<Rightarrow> 'e list \<Rightarrow> bool" where
  "sorts cmp P xs ys \<longleftrightarrow> same_out P xs ys \<and> (\<forall>r\<in>P. range_sorted cmp xs ys r)"

definition apart :: "nat \<times> nat \<Rightarrow> nat \<times> nat \<Rightarrow> bool" where
  "apart r s \<longleftrightarrow> (\<forall>i. \<not> (inside i r \<and> inside i s))"

definition in_list :: "'e list \<Rightarrow> nat \<times> nat \<Rightarrow> bool" where
  "in_list xs r \<longleftrightarrow> fst r \<le> snd r \<and> snd r \<le> length xs"

lemma apart_sym: "apart r s \<longleftrightarrow> apart s r"
  by (auto simp: apart_def)

lemma seg_same:
  assumes "same_out P xs ys" "in_list xs r" "\<forall>s\<in>P. apart r s"
  shows "seg (fst r) (snd r) ys = seg (fst r) (snd r) xs"
proof (rule nth_equalityI)
  show "length (seg (fst r) (snd r) ys) = length (seg (fst r) (snd r) xs)"
    using assms by (simp add: length_seg in_list_def same_out_def)
  fix i
  assume "i < length (seg (fst r) (snd r) ys)"
  then have i: "fst r + i < snd r"
    using assms by (simp add: length_seg in_list_def same_out_def)
  then have "inside (fst r + i) r"
    by (simp add: inside_def)
  then have "ys ! (fst r + i) = xs ! (fst r + i)"
    using assms i by (auto simp: same_out_def in_list_def apart_def)
  then show "seg (fst r) (snd r) ys ! i = seg (fst r) (snd r) xs ! i"
    using assms i by (simp add: seg_nth in_list_def same_out_def)
qed

lemma sorts_combine:
  assumes "sorts cmp P xs ys" "sorts cmp Q ys zs" "\<forall>r\<in>P. \<forall>s\<in>Q. apart r s"
    and "\<forall>r\<in>P \<union> Q. in_list xs r"
  shows "sorts cmp (P \<union> Q) xs zs"
proof -
  have len: "length ys = length xs" "length zs = length xs"
    using assms(1,2) by (simp_all add: sorts_def same_out_def)
  have "range_sorted cmp xs zs r" if "r \<in> P" for r
  proof -
    have "in_list ys r"
      using that assms(4) len by (auto simp: in_list_def)
    then have "seg (fst r) (snd r) zs = seg (fst r) (snd r) ys"
      using that assms(2,3) by (intro seg_same [of Q]) (auto simp: sorts_def)
    then show ?thesis
      using that assms(1) by (auto simp: sorts_def range_sorted_def)
  qed
  moreover have "range_sorted cmp xs zs r" if "r \<in> Q" for r
  proof -
    have "seg (fst r) (snd r) ys = seg (fst r) (snd r) xs"
      using that assms(1,3,4) by (intro seg_same [of P]) (auto simp: sorts_def apart_sym)
    then show ?thesis
      using that assms(2) by (auto simp: sorts_def range_sorted_def)
  qed
  moreover have "same_out (P \<union> Q) xs zs"
    using assms(1,2) len by (auto simp: sorts_def same_out_def)
  ultimately show ?thesis
    by (auto simp: sorts_def)
qed

lemma perm_in_outside: "perm_in m M xs ys \<Longrightarrow> M \<le> length xs \<Longrightarrow> same_out {(m, M)} xs ys"
proof -
  assume p: "perm_in m M xs ys" and M: "M \<le> length xs"
  have "ys ! i = xs ! i" if "i < length xs" "\<not> inside i (m, M)" for i
  proof (cases "i < m")
    case True
    then show ?thesis
      using p by (metis nth_take perm_in_def)
  next
    case False
    then have "M \<le> i"
      using that by (simp add: inside_def)
    then show ?thesis
      using p that M by (metis le_add_diff_inverse nth_drop perm_in_def perm_in_length)
  qed
  with p show ?thesis
    by (simp add: same_out_def perm_in_length)
qed

text \<open>Sorting the two parts of a partitioned range sorts the range.\<close>

lemma sorts_parts:
  assumes "perm_in m M xs ys" "m \<le> k" "k \<le> M" "M \<le> length xs"
    and "\<And>i j. m \<le> i \<Longrightarrow> i < k \<Longrightarrow> k \<le> j \<Longrightarrow> j < M \<Longrightarrow> cmp (ys ! i) (ys ! j) \<le> 0"
    and "sorts cmp ({(m, k), (k, M)} \<union> P) ys zs" "\<forall>r\<in>P. apart (m, M) r" "\<forall>r\<in>P. in_list xs r"
  shows "sorts cmp (insert (m, M) P) xs zs"
proof -
  have len: "length ys = length xs" "length zs = length xs"
    using assms(1,6) by (simp_all add: perm_in_length sorts_def same_out_def)
  have out: "same_out {(m, M)} xs ys"
    using perm_in_outside [OF assms(1,4)] .
  have parts: "range_sorted cmp ys zs (m, k)" "range_sorted cmp ys zs (k, M)"
    using assms(6) by (auto simp: sorts_def)
  have j: "seg m M zs = seg m k zs @ seg k M zs" "seg m M ys = seg m k ys @ seg k M ys"
    using seg_join [of m k M zs] seg_join [of m k M ys] assms(2-4) len by simp_all
  have "cmp x y \<le> 0" if "x \<in> set (seg m k zs)" "y \<in> set (seg k M zs)" for x y
  proof -
    have "x \<in> set (seg m k ys)" "y \<in> set (seg k M ys)"
      using that parts by (auto simp: range_sorted_def dest: mset_eq_setD)
    then obtain i j where "i < length (seg m k ys)" "x = seg m k ys ! i" "j < length (seg k M ys)" "y = seg k M ys ! j"
      by (metis in_set_conv_nth)
    then show ?thesis
      using assms(2-5) len by (auto simp: length_seg seg_nth)
  qed
  then have "ordered cmp (seg m M zs)"
    using parts unfolding j by (simp add: range_sorted_def sorted_wrt_append)
  moreover have "mset (seg m M zs) = mset (seg m M ys)"
    using parts unfolding j by (simp add: range_sorted_def)
  ultimately have "range_sorted cmp xs zs (m, M)"
    using assms(1) by (simp add: range_sorted_def perm_in_def)
  moreover have "range_sorted cmp xs zs r" if "r \<in> P" for r
  proof -
    have "seg (fst r) (snd r) ys = seg (fst r) (snd r) xs"
      using that out assms(7,8) by (intro seg_same) (auto simp: apart_sym)
    then show ?thesis
      using that assms(6) by (auto simp: sorts_def range_sorted_def)
  qed
  moreover have "same_out (insert (m, M) P) xs zs"
    using out assms(2,3,6) len by (auto simp: sorts_def same_out_def inside_def)
  ultimately show ?thesis
    by (auto simp: sorts_def)
qed

definition weight :: "nat \<times> nat \<Rightarrow> nat" where
  "weight r = (if snd r \<le> fst r then 1 else 2 * (snd r - fst r) - 1)"

lemma InsertionSort_sorts:
  assumes "arr_inv a" "in_list (entries a) (m, M)" "cmp_order cmp"
  obtains a' where "InsertionSort cmp m M a = Some a'" "arr_inv a'" "sorts cmp {(m, M)} (entries a) (entries a')"
proof -
  let ?pre = "take m (entries a)" and ?S = "seg m M (entries a)"
  have b: "m \<le> M" "M \<le> length (entries a)"
    using assms(2) by (simp_all add: in_list_def)
  have l: "length ?pre = m" "length ?pre + length ?S = M"
    using b by (simp_all add: length_seg)
  obtain a' M' where a': "InsertionSort cmp m M a = Some a'" "arr_inv a'" "entries a' = ?pre @ M' @ drop M (entries a)"
      "mset M' = mset ?S" "ordered cmp M'"
    using InsertionSort_correct [OF assms(1) seg_split [OF b] assms(3)] l by auto
  have M': "length M' = length ?S"
    using a'(4) by (metis size_mset)
  have "perm_in m M (entries a) (entries a')"
    using perm_in_segI [OF seg_split [OF b] a'(3,4)] l by simp
  moreover have "seg m M (entries a') = M'"
    using seg_append [of ?pre M' "drop M (entries a)"] a'(3) l M' by simp
  ultimately show thesis
    using that a' b by (simp add: sorts_def range_sorted_def perm_in_outside)
qed

lemma quick_loop_correct:
  assumes "arr_inv a" "cmp_order cmp" "\<forall>r\<in>set ((m, M) # rgpart). in_list (entries a) r"
    and "sorted_wrt apart ((m, M) # rgpart)" "sum_list (map weight ((m, M) # rgpart)) \<le> fuel"
  shows "\<exists>a'. quick_loop fuel cmp rgpart m M a = Some a' \<and> arr_inv a' \<and> sorts cmp (set ((m, M) # rgpart)) (entries a) (entries a')"
  using assms(1,3-5)
proof (induction fuel arbitrary: a m M rgpart)
  case 0
  moreover have "0 < weight (m, M)"
    by (auto simp: weight_def)
  ultimately show ?case
    by simp
next
  case (Suc fuel)
  have b: "m \<le> M" "M \<le> length (entries a)"
    using Suc.prems(2) by (simp_all add: in_list_def)
  show ?case
  proof (cases "M - m < 32")
    case True
    obtain a1 where a1: "InsertionSort cmp m M a = Some a1" "arr_inv a1" "sorts cmp {(m, M)} (entries a) (entries a1)"
      using InsertionSort_sorts [OF Suc.prems(1) _ assms(2)] Suc.prems(2) by (metis list.set_intros(1))
    have len: "length (entries a1) = length (entries a)"
      using a1(3) by (simp add: sorts_def same_out_def)
    show ?thesis
    proof (cases rgpart)
      case Nil
      then show ?thesis
        using True a1 by simp
    next
      case (Cons r rest)
      obtain mn mx where r: "r = (mn, mx)"
        by (cases r)
      have "0 < weight (m, M)"
        by (auto simp: weight_def)
      then have "sum_list (map weight ((mn, mx) # rest)) \<le> fuel"
        using Suc.prems(4) Cons r by simp
      then obtain a' where a': "quick_loop fuel cmp rest mn mx a1 = Some a'" "arr_inv a'"
          "sorts cmp (set ((mn, mx) # rest)) (entries a1) (entries a')"
        using Suc.IH [OF a1(2), of mn mx rest] Suc.prems(2,3) Cons r len by (auto simp: in_list_def)
      have "sorts cmp ({(m, M)} \<union> set ((mn, mx) # rest)) (entries a) (entries a')"
        using sorts_combine [OF a1(3) a'(3)] Suc.prems(2,3) Cons r by auto
      then show ?thesis
        using True a1(1) a' Cons r by (simp add: insert_commute)
    qed
  next
    case False
    then have "m + 2 \<le> M"
      by simp
    from partition_range_correct [OF Suc.prems(1) this b(2) assms(2)] obtain a1 l where
      p: "partition_range cmp m M a = Some (Suc l, l, a1)" "arr_inv a1" "perm_in m M (entries a) (entries a1)"
        "m \<le> l" "l < M" "\<And>i. m \<le> i \<Longrightarrow> i \<le> l \<Longrightarrow> cmp (entries a1 ! i) (entries a1 ! l) \<le> 0"
        "\<And>i. l < i \<Longrightarrow> i < M \<Longrightarrow> 0 < cmp (entries a1 ! i) (entries a1 ! l)"
      by metis
    have len: "length (entries a1) = length (entries a)"
      using p(3) by (simp add: perm_in_length)
    obtain k s t where k: "m < k" "k < M" "choose_parts m M (Suc l) l = (s, t)"
        "(s, t) = ((m, k), (k, M)) \<or> (s, t) = ((k, M), (m, k))"
        "\<And>i j. m \<le> i \<Longrightarrow> i < k \<Longrightarrow> k \<le> j \<Longrightarrow> j < M \<Longrightarrow> cmp (entries a1 ! i) (entries a1 ! j) \<le> 0"
    proof (cases "Suc l = M")
      case True
      then show thesis
        using that [of l "(l, M)" "(m, l)"] p(4-6) False by (auto simp: choose_parts_def le_less_Suc_eq)
    next
      case False
      have "cmp (entries a1 ! i) (entries a1 ! j) \<le> 0" if "m \<le> i" "i < Suc l" "Suc l \<le> j" "j < M" for i j
        using p(6) [of i] p(7) [of j] that cmp_trans [OF assms(2), of "entries a1 ! i" "entries a1 ! l" "entries a1 ! j"]
          cmp_sym [OF assms(2), of "entries a1 ! l" "entries a1 ! j"] by auto
      then show thesis
        using that [of "Suc l" "(m, Suc l)" "(Suc l, M)"] that [of "Suc l" "(Suc l, M)" "(m, Suc l)"] p(4,5) False
        by (cases "Suc l - m < M - Suc l") (auto simp: choose_parts_def)
    qed
    have st: "{s, t} = {(m, k), (k, M)}" "weight s + weight t + 1 = weight (m, M)" "apart s t"
      "in_list (entries a1) s" "in_list (entries a1) t"
      using k(1,2,4) b len by (auto simp: weight_def apart_def inside_def in_list_def)
    have ap: "apart s r" "apart t r" if "r \<in> set rgpart" for r
      using that k(1,2,4) Suc.prems(3) by (auto simp: apart_def inside_def)
    have ins: "in_list (entries a1) r" if "r \<in> set rgpart" for r
      using that Suc.prems(2) len by (auto simp: in_list_def)
    obtain s1 s2 t1 t2 where s: "s = (s1, s2)" and t: "t = (t1, t2)"
      by (cases s, cases t)
    have w: "weight s + weight t + sum_list (map weight rgpart) \<le> fuel"
      using Suc.prems(4) st(2) by simp
    have "\<exists>a'. quick_loop (Suc fuel) cmp rgpart m M a = Some a' \<and> arr_inv a'
        \<and> sorts cmp ({s, t} \<union> set rgpart) (entries a1) (entries a')"
    proof (cases "length rgpart < 16")
      case True
      have "\<exists>a'. quick_loop fuel cmp (t # rgpart) s1 s2 a1 = Some a' \<and> arr_inv a'
          \<and> sorts cmp (set ((s1, s2) # t # rgpart)) (entries a1) (entries a')"
        using p(2) st(3-5) ap ins w s Suc.prems(3) by (intro Suc.IH) auto
      then show ?thesis
        using False True p(1) k(3) s t by simp
    next
      case full: False
      have "\<exists>a2. quick_loop fuel cmp [] t1 t2 a1 = Some a2 \<and> arr_inv a2 \<and> sorts cmp (set [(t1, t2)]) (entries a1) (entries a2)"
        using p(2) st(5) w t by (intro Suc.IH) auto
      then obtain a2 where a2: "quick_loop fuel cmp [] t1 t2 a1 = Some a2" "arr_inv a2" "sorts cmp {t} (entries a1) (entries a2)"
        using t by auto
      have len2: "length (entries a2) = length (entries a1)"
        using a2(3) by (simp add: sorts_def same_out_def)
      have "\<exists>a3. quick_loop fuel cmp rgpart s1 s2 a2 = Some a3 \<and> arr_inv a3 \<and> sorts cmp (set ((s1, s2) # rgpart)) (entries a2) (entries a3)"
        using a2(2) st(4) ap ins w s Suc.prems(3) len2 by (intro Suc.IH) (auto simp: in_list_def)
      then obtain a3 where a3: "quick_loop fuel cmp rgpart s1 s2 a2 = Some a3" "arr_inv a3"
          "sorts cmp (insert s (set rgpart)) (entries a2) (entries a3)"
        using s by auto
      have "sorts cmp ({t} \<union> insert s (set rgpart)) (entries a1) (entries a3)"
        using st(3-5) ap ins by (intro sorts_combine [OF a2(3) a3(3)]) (auto simp: apart_sym)
      moreover have "{t} \<union> insert s (set rgpart) = {s, t} \<union> set rgpart"
        by auto
      ultimately show ?thesis
        using False full p(1) k(3) a2(1) a3(1,2) s t by auto
    qed
    then obtain a' where a': "quick_loop (Suc fuel) cmp rgpart m M a = Some a'" "arr_inv a'"
        "sorts cmp ({(m, k), (k, M)} \<union> set rgpart) (entries a1) (entries a')"
      unfolding st(1) by blast
    have "sorts cmp (insert (m, M) (set rgpart)) (entries a) (entries a')"
      using Suc.prems(2,3) k(1,2,5) b by (intro sorts_parts [OF p(3) _ _ b(2) _ a'(3)]) auto
    with a' show ?thesis
      by auto
  qed
qed

lemma QuickSort_sorts:
  assumes "arr_inv a" "cmp_order cmp" "n = length (entries a)" "2 * n \<le> fuel" "0 < fuel"
  shows "\<exists>a'. QuickSort fuel cmp 0 n a = Some a' \<and> arr_inv a' \<and> mset (entries a') = mset (entries a) \<and> ordered cmp (entries a')"
proof -
  have "\<exists>a'. quick_loop fuel cmp [] 0 n a = Some a' \<and> arr_inv a' \<and> sorts cmp (set [(0, n)]) (entries a) (entries a')"
    using assms by (intro quick_loop_correct) (auto simp: in_list_def weight_def)
  then show ?thesis
    using assms(3) by (auto simp: QuickSort_def sorts_def range_sorted_def seg_def same_out_def)
qed
section \<open>Tables\<close>

definition table_inv :: "('e \<Rightarrow> 'e \<Rightarrow> int) \<Rightarrow> 'e CTable \<Rightarrow> bool" where
  "table_inv cmp t \<longleftrightarrow> arr_inv (m_arrayKeyEntry t) \<and> ordered cmp (entries (m_arrayKeyEntry t))"

abbreviation rows_of :: "'e CTable \<Rightarrow> 'e list" where
  "rows_of t \<equiv> entries (m_arrayKeyEntry t)"

lemma Table_Size_rows: "arr_inv (m_arrayKeyEntry t) \<Longrightarrow> Table_Size t = length (rows_of t)"
  by (simp add: Table_Size_def Size_def length_entries)

lemma log2_loop_pos: "0 < n \<Longrightarrow> l < log2_loop n l"
proof (induction n l rule: log2_loop.induct)
  case (1 n l)
  then show ?case
    by (cases "n div 2 = 0") (simp_all add: log2_loop.simps [of n l] log2_loop.simps [of 0])
qed

lemma ConfigureSearch_correct:
  assumes "arr_inv (m_arrayKeyEntry t)" "cmp_order cmp"
  shows "\<exists>t'. ConfigureSearch cmp False t = Some t' \<and> table_inv cmp t' \<and> mset (rows_of t') = mset (rows_of t)"
proof -
  let ?a = "m_arrayKeyEntry t" and ?n = "Table_Size t"
  have n: "?n = length (rows_of t)"
    using Table_Size_rows [OF assms(1)] .
  obtain a1 where a1: "InsertionSort cmp 0 ?n ?a = Some a1" "arr_inv a1" "mset (entries a1) = mset (rows_of t)" "ordered cmp (entries a1)"
    using InsertionSort_correct [OF assms(1), of "[]" "rows_of t" "[]"] assms(2) n by auto
  show ?thesis
  proof (cases "2 * log2_loop ?n 0 < ?n")
    case True
    then obtain a2 where "QuickSort (2 * ?n) cmp 0 ?n ?a = Some a2" "arr_inv a2" "mset (entries a2) = mset (rows_of t)" "ordered cmp (entries a2)"
      using QuickSort_sorts [OF assms n, of "2 * ?n"] by auto
    with True show ?thesis
      by (simp add: ConfigureSearch_def table_inv_def Let_def)
  next
    case False
    with a1 show ?thesis
      by (simp add: ConfigureSearch_def table_inv_def Let_def)
  qed
qed

lemma load_loop_correct:
  assumes "arr_inv a" "entries a = xs @ ys @ zs" "length ys = length es"
  shows "\<exists>a'. load_loop (length xs) es a = Some a' \<and> arr_inv a' \<and> entries a' = xs @ es @ zs"
  using assms
proof (induction es arbitrary: a xs ys)
  case (Cons e es)
  obtain y ys' where ys: "ys = y # ys'"
    using Cons.prems(3) by (cases ys) auto
  have m: "length xs < m_centry a"
    using Cons.prems(1,2) ys length_entries [OF Cons.prems(1)] by simp
  then have "length xs < SIZE_MAX"
    using Cons.prems(1) by (simp add: arr_inv_def)
  moreover obtain a1 where a1: "Put (length xs) e a = Some a1" "arr_inv a1" "entries a1 = xs @ e # ys' @ zs"
    using Put_mid [OF Cons.prems(1), of xs y "ys' @ zs" e] Cons.prems(2) ys by auto
  ultimately have "ErrSetEntry None (length xs) e a = Some (a1, AR_errSuccess)"
    using m by (simp add: ErrSetEntry_def size_inc_def Put_def)
  moreover have "\<exists>a'. load_loop (length (xs @ [e])) es a1 = Some a' \<and> arr_inv a' \<and> entries a' = (xs @ [e]) @ es @ zs"
    using a1 Cons.prems(3) ys by (intro Cons.IH [of a1 "xs @ [e]" ys']) auto
  ultimately show ?case
    by simp
qed auto

lemma ErrLoad_spec:
  assumes "table_inv cmp t" "cmp_order cmp" "Table_Size t + length rgentry \<le> SIZE_MAX"
  shows "\<exists>t' err. ErrLoad cmp new rgentry t = Some (t', err) \<and> table_inv cmp t'
    \<and> (err = TA_errSuccess \<longrightarrow> mset (rows_of t') = mset (rows_of t) + mset rgentry)
    \<and> (err \<noteq> TA_errSuccess \<longrightarrow> err = TA_errOutOfMemory \<and> t' = t \<and> new = None)"
proof -
  let ?a = "m_arrayKeyEntry t" and ?n = "Table_Size t + length rgentry"
  have inv: "arr_inv ?a"
    using assms(1) by (simp add: table_inv_def)
  have sz: "Table_Size t = length (rows_of t)"
    using Table_Size_rows [OF inv] .
  have n: "?n mod 2 ^ 64 = ?n"
    using assms(3) by (simp add: SIZE_MAX_def)
  obtain a1 err where a1: "ErrSetSize new ?n ?a = Some (a1, err)" "arr_inv a1"
      "err = AR_errOutOfMemory \<longrightarrow> a1 = ?a \<and> new = None"
      "err = AR_errSuccess \<longrightarrow> length (entries a1) = ?n \<and> take (length (rows_of t)) (entries a1) = take ?n (rows_of t)"
    using ErrSetSize_spec [OF inv assms(3), of new] by blast
  show ?thesis
  proof (cases "err = AR_errSuccess")
    case False
    then have "err = AR_errOutOfMemory"
      by (cases err) auto
    moreover have "t\<lparr>m_arrayKeyEntry := m_arrayKeyEntry t\<rparr> = t"
      by simp
    ultimately show ?thesis
      using a1 assms(1) n by (simp add: ErrLoad_def Let_def)
  next
    case True
    then have "take (length (rows_of t)) (entries a1) = rows_of t"
      using a1(4) sz by simp
    then have e: "entries a1 = rows_of t @ drop (length (rows_of t)) (entries a1) @ []"
      by (metis append_Nil2 append_take_drop_id)
    obtain a2 where a2: "load_loop (length (rows_of t)) rgentry a1 = Some a2" "arr_inv a2" "entries a2 = rows_of t @ rgentry"
      using load_loop_correct [OF a1(2) e, of rgentry] True a1(4) sz by auto
    obtain t' where "ConfigureSearch cmp False (t\<lparr>m_arrayKeyEntry := a2\<rparr>) = Some t'" "table_inv cmp t'"
        "mset (rows_of t') = mset (entries a2)"
      using ConfigureSearch_correct [of "t\<lparr>m_arrayKeyEntry := a2\<rparr>" cmp] a2(2) assms(2) by auto
    then show ?thesis
      using True a1(1) a2 n sz by (simp add: ErrLoad_def Let_def)
  qed
qed

section \<open>Searches\<close>

text \<open>What a comparison with a key has to be: monotone in the entry.\<close>

definition key_order :: "('e \<Rightarrow> 'e \<Rightarrow> int) \<Rightarrow> ('e \<Rightarrow> 'k \<Rightarrow> int) \<Rightarrow> bool" where
  "key_order cmp cmpK \<longleftrightarrow> (\<forall>x y k. cmp x y \<le> 0 \<longrightarrow> (cmpK y k \<le> 0 \<longrightarrow> cmpK x k \<le> 0) \<and> (cmpK y k < 0 \<longrightarrow> cmpK x k < 0))"

lemma before_mono: "key_order cmp cmpK \<Longrightarrow> cmp x y \<le> 0 \<Longrightarrow> before cmpK key h y \<Longrightarrow> before cmpK key h x"
  unfolding key_order_def before_def Let_def by (metis le_less order_refl)

text \<open>The number of entries a search steps over.\<close>

definition rank_of :: "('e \<Rightarrow> 'k \<Rightarrow> int) \<Rightarrow> 'e CTable \<Rightarrow> 'k \<Rightarrow> bool \<Rightarrow> nat" where
  "rank_of cmpK t key fHigh = length (filter (before cmpK key fHigh) (rows_of t))"

lemma ordered_split:
  assumes "ordered cmp xs" "key_order cmp cmpK"
  shows "i < length xs \<Longrightarrow> before cmpK key h (xs ! i) \<longleftrightarrow> i < length (filter (before cmpK key h) xs)"
  using assms(1)
proof (induction xs arbitrary: i)
  case (Cons x xs)
  show ?case
  proof (cases "before cmpK key h x")
    case True
    then show ?thesis
      using Cons by (cases i) auto
  next
    case False
    then have "\<forall>y\<in>set (x # xs). \<not> before cmpK key h y"
      using Cons.prems(2) before_mono [OF assms(2), of x] by auto
    moreover from this have "filter (before cmpK key h) (x # xs) = []"
      by (simp only: filter_empty_conv)
    ultimately show ?thesis
      using nth_mem [OF Cons.prems(1)] by (metis less_nat_zero_code list.size(3))
  qed
qed simp

lemma rank_le: "rank_of cmpK t key h \<le> length (rows_of t)"
  by (simp add: rank_of_def)

lemma Table_Entry_rows: "arr_inv (m_arrayKeyEntry t) \<Longrightarrow> i < length (rows_of t) \<Longrightarrow> Table_Entry t i = Some (rows_of t ! i)"
  by (simp add: Table_Entry_def Entry_in)

lemma linear_search_rank:
  assumes "table_inv cmp t" "key_order cmp cmpK" "i \<le> rank_of cmpK t key h"
  shows "linear_search cmpK t key h i = Some (rank_of cmpK t key h)"
  using assms(3)
proof (induction "rank_of cmpK t key h - i" arbitrary: i)
  case 0
  have inv: "arr_inv (m_arrayKeyEntry t)" "ordered cmp (rows_of t)"
    using assms(1) by (simp_all add: table_inv_def)
  have "i = rank_of cmpK t key h"
    using 0 by simp
  then show ?case
    using ordered_split [OF inv(2) assms(2), of i key h] Table_Entry_rows [OF inv(1), of i] Table_Size_rows [OF inv(1)]
    by (simp add: linear_search.simps [of cmpK t key h] flip: rank_of_def)
next
  case (Suc d)
  have inv: "arr_inv (m_arrayKeyEntry t)" "ordered cmp (rows_of t)"
    using assms(1) by (simp_all add: table_inv_def)
  have i: "i < rank_of cmpK t key h"
    using Suc.hyps(2) by simp
  then have "i < length (rows_of t)"
    using rank_le [of cmpK t key h] by simp
  then show ?case
    using ordered_split [OF inv(2) assms(2), of i key h] Table_Entry_rows [OF inv(1), of i] Table_Size_rows [OF inv(1)] i
      Suc.hyps(1) [of "Suc i"] Suc.hyps(2)
    by (simp add: linear_search.simps [of cmpK t key h i] flip: rank_of_def)
qed

lemma binary_search_rank:
  assumes "table_inv cmp t" "key_order cmp cmpK" "mn \<le> rank_of cmpK t key h" "rank_of cmpK t key h \<le> mx" "mx \<le> length (rows_of t)"
  shows "binary_search cmpK t key h mn mx = Some (rank_of cmpK t key h)"
  using assms(3-5)
proof (induction "mx - mn" arbitrary: mn mx rule: less_induct)
  case less
  have inv: "arr_inv (m_arrayKeyEntry t)" "ordered cmp (rows_of t)"
    using assms(1) by (simp_all add: table_inv_def)
  show ?case
  proof (cases "mn < mx")
    case True
    let ?mid = "mn + (mx - mn) div 2"
    have mid: "mn \<le> ?mid" "?mid < mx" "?mid < length (rows_of t)"
      using True less.prems(3) by auto
    note e = Table_Entry_rows [OF inv(1) mid(3)]
    note o = ordered_split [OF inv(2) assms(2) mid(3), of key h, folded rank_of_def]
    show ?thesis
    proof (cases "before cmpK key h (rows_of t ! ?mid)")
      case True': True
      have "binary_search cmpK t key h (?mid + 1) mx = Some (rank_of cmpK t key h)"
        using True' o mid less.prems by (intro less.hyps) auto
      then show ?thesis
        using True True' e by (simp add: binary_search.simps [of cmpK t key h mn] Let_def)
    next
      case False
      have "binary_search cmpK t key h mn ?mid = Some (rank_of cmpK t key h)"
        using False o mid less.prems by (intro less.hyps) auto
      then show ?thesis
        using True False e by (simp add: binary_search.simps [of cmpK t key h mn] Let_def)
    qed
  next
    case False
    then show ?thesis
      using less.prems by (simp add: binary_search.simps)
  qed
qed

lemma pfnSearch_rank:
  assumes "table_inv cmp t" "key_order cmp cmpK"
  shows "pfnSearch cmpK t key h = Some (rank_of cmpK t key h)"
  using linear_search_rank [OF assms, of 0] binary_search_rank [OF assms, of 0 _ _ "length (rows_of t)"]
    Table_Size_rows [of t] assms(1) rank_le [of cmpK t key h]
  by (auto simp: pfnSearch_def table_inv_def split: PfnSearch.splits)
section \<open>Histories\<close>

lemma ErrUpdateEntry_spec:
  assumes "table_inv cmp t" "cmp_order cmp" "i < length (rows_of t)"
  shows "\<exists>t' err. ErrUpdateEntry cmp (Table_PEntry t i) e t = Some (t', err) \<and> table_inv cmp t'
    \<and> (err = TA_errSuccess \<longrightarrow> rows_of t' = (rows_of t)[i := e] \<and> cmp (rows_of t ! i) e = 0)
    \<and> (err \<noteq> TA_errSuccess \<longrightarrow> err = TA_errKeyChange \<and> t' = t \<and> cmp (rows_of t ! i) e \<noteq> 0)"
proof -
  let ?a = "m_arrayKeyEntry t"
  have inv: "arr_inv ?a" "ordered cmp (rows_of t)"
    using assms(1) by (simp_all add: table_inv_def)
  have d: "deref ?a (Table_PEntry t i) = Some (rows_of t ! i)"
    using Entry_in [OF inv(1) assms(3)] by (simp add: Entry_def Table_PEntry_def)
  show ?thesis
  proof (cases "cmp (rows_of t ! i) e = 0")
    case True
    obtain a' where a': "SetEntry (Table_PEntry t i) e ?a = Some a'" "arr_inv a'" "entries a' = (rows_of t)[i := e]"
      using SetEntry_in [OF inv(1) assms(3), of e] by (auto simp: Table_PEntry_def)
    have "cmp ((rows_of t)[i := e] ! j) ((rows_of t)[i := e] ! k) \<le> 0" if "j < k" "k < length (rows_of t)" for j k
    proof -
      have o: "cmp (rows_of t ! j) (rows_of t ! k) \<le> 0"
        using inv(2) that by (simp add: sorted_wrt_iff_nth_less)
      moreover have "cmp e (rows_of t ! i) \<le> 0" "cmp (rows_of t ! i) e \<le> 0"
        using True cmp_eq_sym [OF assms(2), of e "rows_of t ! i"] by simp_all
      ultimately show ?thesis
        using that cmp_trans [OF assms(2), of e "rows_of t ! i" "rows_of t ! k"]
          cmp_trans [OF assms(2), of "rows_of t ! j" "rows_of t ! i" e]
        by (cases "j = i"; cases "k = i") simp_all
    qed
    then have "ordered cmp ((rows_of t)[i := e])"
      by (simp add: sorted_wrt_iff_nth_less)
    with True d a' show ?thesis
      by (simp add: ErrUpdateEntry_def table_inv_def)
  next
    case False
    with d assms(1) show ?thesis
      by (simp add: ErrUpdateEntry_def)
  qed
qed

text \<open>Tables that loads, updates through the table's own pointers, clones and clears lead to.\<close>

inductive table_reach :: "('e \<Rightarrow> 'e \<Rightarrow> int) \<Rightarrow> 'e \<Rightarrow> 'e CTable \<Rightarrow> bool" for cmp dflt where
  new: "table_reach cmp dflt (CTable_new dflt)"
| load: "table_reach cmp dflt t \<Longrightarrow> Table_Size t + length rgentry \<le> SIZE_MAX \<Longrightarrow>
    ErrLoad cmp mem rgentry t = Some (t', err) \<Longrightarrow> table_reach cmp dflt t'"
| update: "table_reach cmp dflt t \<Longrightarrow> ErrUpdateEntry cmp (Table_PEntry t i) e t = Some (t', err) \<Longrightarrow> table_reach cmp dflt t'"
| clone: "table_reach cmp dflt t \<Longrightarrow> table_reach cmp dflt u \<Longrightarrow>
    Table_ErrClone mem u t = Some (t', err) \<Longrightarrow> table_reach cmp dflt t'"
| clone_array: "table_reach cmp dflt t \<Longrightarrow> arr_inv array \<Longrightarrow>
    ErrCloneArray cmp mem array t = Some (t', err) \<Longrightarrow> table_reach cmp dflt t'"
| clear: "table_reach cmp dflt t \<Longrightarrow> Clear t = Some t' \<Longrightarrow> table_reach cmp dflt t'"

lemma table_reach_inv: "table_reach cmp dflt t \<Longrightarrow> cmp_order cmp \<Longrightarrow> table_inv cmp t"
proof (induction rule: table_reach.induct)
  case new
  then show ?case
    by (simp add: table_inv_def CTable_new_def arr_inv_new)
next
  case (load t rgentry mem t' err)
  then show ?case
    using ErrLoad_spec [of cmp t rgentry mem] by auto
next
  case (update t i e t' err)
  have "i < length (rows_of t)"
  proof (rule ccontr)
    assume "\<not> i < length (rows_of t)"
    then have "Table_PEntry t i = None"
      using update.IH update.prems length_entries [of "m_arrayKeyEntry t"] by (simp add: Table_PEntry_def PEntry_def table_inv_def)
    then show False
      using update.hyps(2) by (simp add: ErrUpdateEntry_def deref_def)
  qed
  then show ?case
    using ErrUpdateEntry_spec [OF update.IH [OF update.prems] update.prems, of i e] update.hyps(2) by auto
next
  case (clone t u mem t' err)
  then have "arr_inv (m_arrayKeyEntry u)" "table_inv cmp t" "table_inv cmp u"
    by (simp_all add: table_inv_def)
  then show ?case
    using CArray_ErrClone_spec [of "m_arrayKeyEntry u" mem "m_arrayKeyEntry t"] clone.hyps(3)
    by (auto simp: Table_ErrClone_def table_inv_def bind_eq_Some_conv split: if_splits) (metis CArray_ERR.exhaust)+
next
  case (clone_array t array mem t' err)
  then obtain a e where a: "CArray_ErrClone mem array (m_arrayKeyEntry t) = Some (a, e)"
      "e = AR_errOutOfMemory \<longrightarrow> a = m_arrayKeyEntry t" "e = AR_errSuccess \<longrightarrow> arr_inv a"
    using CArray_ErrClone_spec [of array mem "m_arrayKeyEntry t"] by blast
  show ?case
  proof (cases "e = AR_errSuccess")
    case True
    then obtain t1 where "ConfigureSearch cmp False (t\<lparr>m_arrayKeyEntry := a\<rparr>) = Some t1" "table_inv cmp t1"
      using ConfigureSearch_correct [of "t\<lparr>m_arrayKeyEntry := a\<rparr>" cmp] a(3) clone_array.prems by auto
    then show ?thesis
      using True a(1) clone_array.hyps(3) by (simp add: ErrCloneArray_def)
  next
    case False
    then have "a = m_arrayKeyEntry t"
      using a(2) by (cases e) auto
    then show ?thesis
      using False a(1) clone_array.hyps(3) clone_array.IH clone_array.prems by (auto simp: ErrCloneArray_def)
  qed
next
  case (clear t t')
  then obtain a err where a: "ErrSetCapacity None 0 (m_arrayKeyEntry t) = Some (a, err)" "arr_inv a"
      "err = AR_errOutOfMemory \<longrightarrow> a = m_arrayKeyEntry t" "err = AR_errSuccess \<longrightarrow> entries a = []"
    using ErrSetCapacity_correct [of "m_arrayKeyEntry t" 0 None] by (auto simp: table_inv_def)
  then have "t' = t\<lparr>m_arrayKeyEntry := a\<rparr>"
    using clear.hyps(2) by (simp add: Clear_def)
  then show ?case
    using a clear.IH clear.prems by (cases err) (simp_all add: table_inv_def)
qed

section \<open>Properties\<close>

text \<open>
  C27: the quicksort, with its fixed stack of 16 pending partitions and its recursion when that is
  full, stops within \<open>2 * n\<close> iterations on \<open>n\<close> entries, stays inside the array, and leaves an ordered
  permutation of the entries.
\<close>

theorem QuickSort_correct:
  assumes "arr_inv a" "cmp_order cmp" "2 * Size a \<le> fuel" "0 < fuel"
  shows "\<exists>a'. QuickSort fuel cmp 0 (Size a) a = Some a' \<and> arr_inv a' \<and> mset (entries a') = mset (entries a)
    \<and> sorted_wrt (\<lambda>x y. cmp x y \<le> 0) (entries a')"
  using QuickSort_sorts [OF assms(1,2), of "Size a" fuel] assms(3,4) length_entries [OF assms(1)] by (simp add: Size_def)

definition array_of :: "int list \<Rightarrow> int CArray" where
  "array_of xs = \<lparr>m_centry = length xs, m_centryMax = length xs, m_rgentry = Some xs,
     m_entryDefault = 0, m_fEntryDefault = False, m_centryGrowth = 1\<rparr>"

theorem QuickSort_correct_witness:
  "\<exists>a'. QuickSort 80 (\<lambda>x y. x - y) 0 (Size (array_of (rev [0..39]))) (array_of (rev [0..39])) = Some a'
    \<and> arr_inv a' \<and> mset (entries a') = mset (entries (array_of (rev [0..39]))) \<and> sorted_wrt (\<lambda>x y. x - y \<le> 0) (entries a')"
  by (rule QuickSort_correct) (simp_all add: array_of_def arr_inv_def SIZE_MAX_def minus_cmp_order Size_def)

text \<open>
  C28: in every history of loads, updates, clones and clears a table is ordered; a load adds exactly
  the given entries, or fails for lack of memory and changes nothing.
\<close>

theorem table_always_ordered:
  assumes "table_reach cmp dflt t" "cmp_order cmp" "Table_Size t + length rgentry \<le> SIZE_MAX"
  shows "sorted_wrt (\<lambda>x y. cmp x y \<le> 0) (rows_of t)
    \<and> (\<exists>t' err. ErrLoad cmp new rgentry t = Some (t', err)
        \<and> (err = TA_errSuccess \<longrightarrow> mset (rows_of t') = mset (rows_of t) + mset rgentry)
        \<and> (err \<noteq> TA_errSuccess \<longrightarrow> err = TA_errOutOfMemory \<and> t' = t \<and> new = None))"
proof -
  have inv: "table_inv cmp t"
    using table_reach_inv [OF assms(1,2)] .
  then show ?thesis
    using ErrLoad_spec [OF inv assms(2,3), of new] by (auto simp: table_inv_def)
qed

theorem table_always_ordered_witness:
  "\<exists>t' err. ErrLoad (\<lambda>x y. x - y) (Some (\<lambda>_. 0)) [3, 1, 2] (CTable_new 0) = Some (t', err)
    \<and> err = TA_errSuccess \<and> mset (rows_of t') = {#1, 2, 3 :: int#}"
proof -
  have "Table_Size (CTable_new (0 :: int)) + length [3, 1, 2 :: int] \<le> SIZE_MAX"
    by (simp add: Table_Size_def Size_def CTable_new_def CArray_default_def SIZE_MAX_def)
  from table_always_ordered [OF table_reach.new minus_cmp_order this, of "Some (\<lambda>_. 0)"]
  obtain t' err where "ErrLoad (\<lambda>x y. x - y) (Some (\<lambda>_. 0)) [3, 1, 2] (CTable_new 0) = Some (t', err)"
      "err = TA_errSuccess \<longrightarrow> mset (rows_of t') = mset (rows_of (CTable_new 0)) + mset [3, 1, 2]" "err = TA_errSuccess"
    by auto
  then show ?thesis
    by (simp add: CTable_new_def arr_inv_new)
qed

text \<open>
  C29: the six seeks, by whichever search the table is configured for. With \<open>lo\<close> entries below the
  key and \<open>hi\<close> entries not above it, \<open>SeekLT\<close> finds the last entry below, \<open>SeekEQ\<close> the
  first equal one, \<open>SeekHI\<close> the last equal one, \<open>SeekGT\<close> the first above; \<open>SeekLE\<close> and
  \<open>SeekGE\<close> prefer an equal entry and otherwise are \<open>SeekLT\<close> and \<open>SeekGT\<close>. Null is returned
  exactly when there is no such entry, and no seek faults.
\<close>

theorem seeks_correct:
  assumes "table_inv cmp t" "key_order cmp cmpK"
    and "lo = length (filter (\<lambda>e. cmpK e key < 0) (rows_of t))"
    and "hi = length (filter (\<lambda>e. cmpK e key \<le> 0) (rows_of t))" and "n = length (rows_of t)"
  shows "SeekLT cmpK t key = Some (if 0 < lo then Some (lo - 1) else None)
    \<and> SeekLE cmpK t key = Some (if lo < hi then Some lo else if 0 < lo then Some (lo - 1) else None)
    \<and> SeekEQ cmpK t key = Some (if lo < hi then Some lo else None)
    \<and> SeekHI cmpK t key = Some (if lo < hi then Some (hi - 1) else None)
    \<and> SeekGE cmpK t key = Some (if lo < hi then Some (hi - 1) else if hi < n then Some hi else None)
    \<and> SeekGT cmpK t key = Some (if hi < n then Some hi else None)"
proof -
  have inv: "arr_inv (m_arrayKeyEntry t)" "ordered cmp (rows_of t)"
    using assms(1) by (simp_all add: table_inv_def)
  have b: "before cmpK key False = (\<lambda>e. cmpK e key < 0)" "before cmpK key True = (\<lambda>e. cmpK e key \<le> 0)"
    by (auto simp: before_def Let_def fun_eq_iff)
  have s: "pfnSearch cmpK t key False = Some lo" "pfnSearch cmpK t key True = Some hi"
    using pfnSearch_rank [OF assms(1,2), of key] by (simp_all add: rank_of_def b assms(3,4))
  have ord: "cmpK (rows_of t ! i) key < 0 \<longleftrightarrow> i < lo" "cmpK (rows_of t ! i) key \<le> 0 \<longleftrightarrow> i < hi" if "i < n" for i
    using ordered_split [OF inv(2) assms(2), of i key False] ordered_split [OF inv(2) assms(2), of i key True] that
    by (simp_all add: b assms(3-5))
  have eq: "cmpK (rows_of t ! i) key = 0 \<longleftrightarrow> lo \<le> i \<and> i < hi" if "i < n" for i
    using ord [OF that] by linarith
  have le: "lo \<le> n" "hi \<le> n"
    by (simp_all add: assms(3-5))
  have lohi: "lo \<le> hi"
  proof (rule ccontr)
    assume "\<not> lo \<le> hi"
    then show False
      using ord [of hi] le(1) by auto
  qed
  have n: "Table_Size t = n" "n \<le> SIZE_MAX"
    using Table_Size_rows [OF inv(1)] inv(1) length_entries [OF inv(1)] by (simp_all add: assms(5) arr_inv_def)
  have e: "Table_Entry t i = Some (rows_of t ! i)" if "i < n" for i
    using Table_Entry_rows [OF inv(1)] that by (simp add: assms(5))
  have p: "Table_PEntry t i = (if i < n then Some i else None)" for i
    using length_entries [OF inv(1)] by (simp add: Table_PEntry_def PEntry_def assms(5))
  have p1: "Table_PEntry t i = Some i" if "i < n" for i
    using that by (simp add: p)
  have p2: "Table_PEntry t i = None" if "n \<le> i" for i
    using that by (simp add: p)
  have d: "Table_PEntry t (size_dec i) = Some (i - 1)" if "0 < i" "i \<le> n" for i
    using that n(2) by (simp add: p size_dec_def)
  have d0: "Table_PEntry t (size_dec 0) = None"
    using n(2) by (simp add: p size_dec_def)
  show ?thesis
    using le lohi
    by (auto simp: SeekLT_def SeekLE_def SeekEQ_def SeekHI_def SeekGE_def SeekGT_def s n(1) e ord eq p1 p2 d d0)
qed

definition sample_table :: "int CTable" where
  "sample_table = \<lparr>m_arrayKeyEntry = array_of [1, 4, 4, 9], m_pfnSearch = BinarySearch\<rparr>"

theorem seeks_correct_witness:
  "SeekHI (\<lambda>e k. e - k) sample_table 4 = Some (Some 2) \<and> SeekGT (\<lambda>e k. e - k) sample_table 4 = Some (Some 3)"
proof -
  have "table_inv (\<lambda>x y. x - y) sample_table" "key_order (\<lambda>x y. x - y) (\<lambda>e k. e - k :: int)"
    by (auto simp: table_inv_def sample_table_def array_of_def arr_inv_def entries_def SIZE_MAX_def key_order_def)
  from seeks_correct [OF this refl refl refl, of 4] show ?thesis
    by (simp add: sample_table_def array_of_def entries_def)
qed

end
