(* ===== verification/Red_Black.thy ===== *)
theory Red_Black
  imports Ese_Prelude
begin

text \<open>
  \<open>InvasiveRedBlackTree\<close> and \<open>CRedBlackTree\<close> of \<open>ms/collection.hxx\<close>: a left-leaning
  red-black tree whose nodes lie inside the objects it holds. A subtree is a value of type
  \<open>Node\<close>: \<open>Null\<close> is the null pointer, and a node carries the object it lies in, its key, its
  color and its two subtrees. Every node is reached by one path only, so the operations, which write the
  fields of the nodes they are given and return the new top, are functions on that value; reading
  a field through a null pointer gives \<open>None\<close>. In a release build scrubbing a node does nothing.
  That a node is reached by one path only is the caller's duty: \<open>InitNode_\<close> builds the node anew inside its object, so an object must
  not be linked when it is inserted under a new key. The theorems on histories have this as a hypothesis.

  In \<open>CRedBlackTree\<close> the objects are nodes on the heap: addresses with the data stored there.
  What \<open>new\<close> returns is an argument, \<open>None\<close> when it fails.
\<close>

section \<open>Nodes\<close>

datatype RedBlackTreeColor = Red | Black

datatype ('k, 'o) Node = Null | Node 'o 'k RedBlackTreeColor "('k, 'o) Node" "('k, 'o) Node"

datatype RBT_ERR = RB_errSuccess | RB_errOutOfMemory | RB_errEntryNotFound | RB_errDuplicateEntry

fun Key :: "('k, 'o) Node \<Rightarrow> 'k option" where
  "Key Null = None"
| "Key (Node ob k c l r) = Some k"

fun Color :: "('k, 'o) Node \<Rightarrow> RedBlackTreeColor option" where
  "Color Null = None"
| "Color (Node ob k c l r) = Some c"

fun PnodeLeft :: "('k, 'o) Node \<Rightarrow> ('k, 'o) Node option" where
  "PnodeLeft Null = None"
| "PnodeLeft (Node ob k c l r) = Some l"

fun PnodeRight :: "('k, 'o) Node \<Rightarrow> ('k, 'o) Node option" where
  "PnodeRight Null = None"
| "PnodeRight (Node ob k c l r) = Some r"

fun SetColor :: "RedBlackTreeColor \<Rightarrow> ('k, 'o) Node \<Rightarrow> ('k, 'o) Node option" where
  "SetColor c' Null = None"
| "SetColor c' (Node ob k c l r) = Some (Node ob k c' l r)"

fun SetLeft :: "('k, 'o) Node \<Rightarrow> ('k, 'o) Node \<Rightarrow> ('k, 'o) Node option" where
  "SetLeft l' Null = None"
| "SetLeft l' (Node ob k c l r) = Some (Node ob k c l' r)"

fun SetRight :: "('k, 'o) Node \<Rightarrow> ('k, 'o) Node \<Rightarrow> ('k, 'o) Node option" where
  "SetRight r' Null = None"
| "SetRight r' (Node ob k c l r) = Some (Node ob k c l r')"

fun FlipColor :: "('k, 'o) Node \<Rightarrow> ('k, 'o) Node option" where
  "FlipColor Null = None"
| "FlipColor (Node ob k c l r) = Some (Node ob k (if Red = c then Black else Red) l r)"

fun NodeToCObject :: "('k, 'o) Node \<Rightarrow> 'o option" where
  "NodeToCObject Null = None"
| "NodeToCObject (Node ob k c l r) = Some ob"

definition FIsNonNullAndRed :: "('k, 'o) Node \<Rightarrow> bool" where
  "FIsNonNullAndRed pnode \<longleftrightarrow> Color pnode = Some Red"

definition InitNode :: "'k \<Rightarrow> 'o \<Rightarrow> ('k, 'o) Node" where
  "InitNode key pObject = Node pObject key Red Null Null"

section \<open>Rotations and the local repairs\<close>

definition RotateLeft :: "('k, 'o) Node \<Rightarrow> ('k, 'o) Node option" where
  "RotateLeft pnode =
     do { pnodeNewTop \<leftarrow> PnodeRight pnode;
          middle \<leftarrow> PnodeLeft pnodeNewTop; pnode \<leftarrow> SetRight middle pnode;
          pnodeNewTop \<leftarrow> SetLeft pnode pnodeNewTop;
          l \<leftarrow> PnodeLeft pnodeNewTop; c \<leftarrow> Color l; pnodeNewTop \<leftarrow> SetColor c pnodeNewTop;
          l \<leftarrow> SetColor Red l; SetLeft l pnodeNewTop }"

definition RotateRight :: "('k, 'o) Node \<Rightarrow> ('k, 'o) Node option" where
  "RotateRight pnode =
     do { pnodeNewTop \<leftarrow> PnodeLeft pnode;
          middle \<leftarrow> PnodeRight pnodeNewTop; pnode \<leftarrow> SetLeft middle pnode;
          pnodeNewTop \<leftarrow> SetRight pnode pnodeNewTop;
          r \<leftarrow> PnodeRight pnodeNewTop; c \<leftarrow> Color r; pnodeNewTop \<leftarrow> SetColor c pnodeNewTop;
          r \<leftarrow> SetColor Red r; SetRight r pnodeNewTop }"

definition FlipColors :: "('k, 'o) Node \<Rightarrow> ('k, 'o) Node option" where
  "FlipColors pnode =
     do { pnode \<leftarrow> FlipColor pnode;
          l \<leftarrow> PnodeLeft pnode;
          pnode \<leftarrow> (if l \<noteq> Null then do { l \<leftarrow> FlipColor l; SetLeft l pnode } else Some pnode);
          r \<leftarrow> PnodeRight pnode;
          if r \<noteq> Null then do { r \<leftarrow> FlipColor r; SetRight r pnode } else Some pnode }"

definition Fixup :: "('k, 'o) Node \<Rightarrow> ('k, 'o) Node option" where
  "Fixup pnode =
     do { r \<leftarrow> PnodeRight pnode;
          pnodeT \<leftarrow> (if FIsNonNullAndRed r then RotateLeft pnode else Some pnode);
          l \<leftarrow> PnodeLeft pnodeT;
          b \<leftarrow> (if FIsNonNullAndRed l then do { ll \<leftarrow> PnodeLeft l; Some (FIsNonNullAndRed ll) } else Some False);
          pnodeT \<leftarrow> (if b then RotateRight pnodeT else Some pnodeT);
          l \<leftarrow> PnodeLeft pnodeT; r \<leftarrow> PnodeRight pnodeT;
          if FIsNonNullAndRed l \<and> FIsNonNullAndRed r then FlipColors pnodeT else Some pnodeT }"

definition MoveRedRight :: "('k, 'o) Node \<Rightarrow> ('k, 'o) Node option" where
  "MoveRedRight pnode =
     do { pnodeT \<leftarrow> FlipColors pnode;
          l \<leftarrow> PnodeLeft pnodeT; ll \<leftarrow> PnodeLeft l;
          if FIsNonNullAndRed ll then do { pnodeT \<leftarrow> RotateRight pnodeT; FlipColors pnodeT }
          else Some pnodeT }"

definition MoveRedLeft :: "('k, 'o) Node \<Rightarrow> ('k, 'o) Node option" where
  "MoveRedLeft pnode =
     do { pnodeT \<leftarrow> FlipColors pnode;
          r \<leftarrow> PnodeRight pnodeT; rl \<leftarrow> PnodeLeft r;
          if FIsNonNullAndRed rl
          then do { r \<leftarrow> RotateRight r; pnodeT \<leftarrow> SetRight r pnodeT;
                    pnodeT \<leftarrow> RotateLeft pnodeT; FlipColors pnodeT }
          else Some pnodeT }"

lemma RotateLeft_Node:
  "RotateLeft (Node ob k c l (Node ob' k' c' a b)) = Some (Node ob' k' c (Node ob k Red l a) b)"
  by (simp add: RotateLeft_def)

lemma RotateLeft_Null: "RotateLeft Null = None" "RotateLeft (Node ob k c l Null) = None"
  by (simp_all add: RotateLeft_def)

lemma RotateRight_Node:
  "RotateRight (Node ob k c (Node ob' k' c' a b) r) = Some (Node ob' k' c a (Node ob k Red b r))"
  by (simp add: RotateRight_def)

lemma RotateRight_Null: "RotateRight Null = None" "RotateRight (Node ob k c Null r) = None"
  by (simp_all add: RotateRight_def)

lemmas rotate_simps = RotateLeft_Node RotateLeft_Null RotateRight_Node RotateRight_Null

lemma size_RotateLeft: "RotateLeft t = Some t' \<Longrightarrow> size t' = size t"
  by (cases t; cases "the (PnodeRight t)") (auto simp: rotate_simps)

lemma size_RotateRight: "RotateRight t = Some t' \<Longrightarrow> size t' = size t"
  by (cases t; cases "the (PnodeLeft t)") (auto simp: rotate_simps)

lemma size_FlipColor: "FlipColor t = Some t' \<Longrightarrow> size t' = size t"
  by (cases t) auto

lemma size_FlipColors: "FlipColors t = Some t' \<Longrightarrow> size t' = size t"
  by (cases t) (auto simp: FlipColors_def bind_eq_Some_conv dest!: size_FlipColor split: if_splits)

lemma size_MoveRedLeft: "MoveRedLeft t = Some t' \<Longrightarrow> size t' = size t"
  by (cases t)
    (auto simp: MoveRedLeft_def bind_eq_Some_conv split: if_splits
      dest!: size_FlipColors size_RotateLeft size_RotateRight elim!: SetRight.elims PnodeRight.elims)

lemma size_MoveRedRight: "MoveRedRight t = Some t' \<Longrightarrow> size t' = size t"
  by (auto simp: MoveRedRight_def bind_eq_Some_conv split: if_splits dest!: size_FlipColors size_RotateRight)

lemma size_Fixup: "Fixup t = Some t' \<Longrightarrow> size t' = size t"
  by (auto simp: Fixup_def bind_eq_Some_conv split: if_splits dest!: size_FlipColors size_RotateRight size_RotateLeft)

lemma size_PnodeLeft: "PnodeLeft t = Some l \<Longrightarrow> size l < size t"
  by (cases t) auto

lemma size_PnodeRight: "PnodeRight t = Some r \<Longrightarrow> size r < size t"
  by (cases t) auto

lemmas size_rules = size_MoveRedLeft size_MoveRedRight size_RotateRight size_Fixup size_PnodeLeft size_PnodeRight

section \<open>Searching\<close>

fun Find :: "'k::linorder \<Rightarrow> ('k, 'o) Node \<Rightarrow> ('k, 'o) Node" where
  "Find key Null = Null"
| "Find key (Node ob k c l r) =
     (if key = k then Node ob k c l r else if key < k then Find key l else Find key r)"

definition FContainsKey :: "'k::linorder \<Rightarrow> ('k, 'o) Node \<Rightarrow> bool" where
  "FContainsKey key m_pnodeRoot \<longleftrightarrow> Find key m_pnodeRoot \<noteq> Null"

definition ErrFind :: "'k::linorder \<Rightarrow> ('k, 'o) Node \<Rightarrow> RBT_ERR \<times> 'o option" where
  "ErrFind key m_pnodeRoot =
     (let pnode = Find key m_pnodeRoot
      in if pnode = Null then (RB_errEntryNotFound, None) else (RB_errSuccess, NodeToCObject pnode))"

text \<open>The loop of \<open>ErrFindNearest\<close>, entered with a node.\<close>

fun nearest :: "'k::linorder \<Rightarrow> ('k, 'o) Node \<Rightarrow> ('k, 'o) Node" where
  "nearest key Null = Null"
| "nearest key (Node ob k c l r) =
     (if key = k then Node ob k c l r
      else if key < k then (if l = Null then Node ob k c l r else nearest key l)
      else (if r = Null then Node ob k c l r else nearest key r))"

text \<open>The key and the object found; \<open>None\<close> leaves the two output variables alone.\<close>

definition found :: "('k, 'o) Node \<Rightarrow> ('k \<times> 'o) option" where
  "found pnode = do { k \<leftarrow> Key pnode; ob \<leftarrow> NodeToCObject pnode; Some (k, ob) }"

definition ErrFindNearest :: "'k::linorder \<Rightarrow> ('k, 'o) Node \<Rightarrow> RBT_ERR \<times> ('k \<times> 'o) option" where
  "ErrFindNearest key m_pnodeRoot =
     (if m_pnodeRoot = Null then (RB_errEntryNotFound, None)
      else (RB_errSuccess, found (nearest key m_pnodeRoot)))"

fun at_least :: "'k::linorder \<Rightarrow> ('k, 'o) Node \<Rightarrow> ('k, 'o) Node \<Rightarrow> ('k, 'o) Node" where
  "at_least key pnodeMatch Null = pnodeMatch"
| "at_least key pnodeMatch (Node ob k c l r) =
     (if key = k then Node ob k c l r
      else if key < k then at_least key (Node ob k c l r) l
      else at_least key pnodeMatch r)"

definition ErrFindGreaterThanOrEqual :: "'k::linorder \<Rightarrow> ('k, 'o) Node \<Rightarrow> RBT_ERR \<times> ('k \<times> 'o) option" where
  "ErrFindGreaterThanOrEqual key m_pnodeRoot =
     (let pnodeMatch = at_least key Null m_pnodeRoot
      in if pnodeMatch = Null then (RB_errEntryNotFound, None) else (RB_errSuccess, found pnodeMatch))"

section \<open>Insertion\<close>

fun ErrInsert_node :: "'k::linorder \<Rightarrow> 'o \<Rightarrow> ('k, 'o) Node \<Rightarrow> (('k, 'o) Node \<times> RBT_ERR) option" where
  "ErrInsert_node key pObject Null = Some (InitNode key pObject, RB_errSuccess)"
| "ErrInsert_node key pObject (Node ob k c l r) =
     do { (pnodeRoot, err) \<leftarrow>
            (if key = k then Some (Node ob k c l r, RB_errDuplicateEntry)
             else if key < k
             then do { (pnodeT, err) \<leftarrow> ErrInsert_node key pObject l; Some (Node ob k c pnodeT r, err) }
             else do { (pnodeT, err) \<leftarrow> ErrInsert_node key pObject r; Some (Node ob k c l pnodeT, err) });
          pnodeRoot \<leftarrow> Fixup pnodeRoot;
          Some (pnodeRoot, err) }"

text \<open>The object is in no tree, or the key is in the tree already and the object is not touched.\<close>

definition ErrInsert :: "'k::linorder \<Rightarrow> 'o \<Rightarrow> ('k, 'o) Node \<Rightarrow> (('k, 'o) Node \<times> RBT_ERR) option" where
  "ErrInsert key pObject m_pnodeRoot = ErrInsert_node key pObject m_pnodeRoot"

section \<open>Deletion\<close>

fun PnodeMin :: "('k, 'o) Node \<Rightarrow> ('k, 'o) Node" where
  "PnodeMin Null = Null"
| "PnodeMin (Node ob k c l r) = (if l = Null then Node ob k c l r else PnodeMin l)"

text \<open>Both descents first make the child they enter, or its left child, red.\<close>

definition left_ready :: "('k, 'o) Node \<Rightarrow> ('k, 'o) Node option" where
  "left_ready pnodeT =
     do { l \<leftarrow> PnodeLeft pnodeT;
          b \<leftarrow> (if \<not> FIsNonNullAndRed l then do { ll \<leftarrow> PnodeLeft l; Some (\<not> FIsNonNullAndRed ll) } else Some False);
          if b then MoveRedLeft pnodeT else Some pnodeT }"

definition right_ready :: "('k, 'o) Node \<Rightarrow> ('k, 'o) Node option" where
  "right_ready pnodeT =
     do { r \<leftarrow> PnodeRight pnodeT;
          b \<leftarrow> (if \<not> FIsNonNullAndRed r then do { rl \<leftarrow> PnodeLeft r; Some (\<not> FIsNonNullAndRed rl) } else Some False);
          if b then MoveRedRight pnodeT else Some pnodeT }"

lemma size_left_ready: "left_ready t = Some t' \<Longrightarrow> size t' = size t"
  by (auto simp: left_ready_def bind_eq_Some_conv split: if_splits dest: size_rules)

lemma size_right_ready: "right_ready t = Some t' \<Longrightarrow> size t' = size t"
  by (auto simp: right_ready_def bind_eq_Some_conv split: if_splits dest: size_rules)

function RemoveMinNode :: "('k, 'o) Node \<Rightarrow> ('k, 'o) Node option" where
  "RemoveMinNode pnode =
     do { l \<leftarrow> PnodeLeft pnode;
          if l = Null then Some Null
          else do { pnodeT \<leftarrow> left_ready pnode;
                    l \<leftarrow> PnodeLeft pnodeT; l \<leftarrow> RemoveMinNode l; pnodeT \<leftarrow> SetLeft l pnodeT;
                    Fixup pnodeT } }"
  by pat_completeness auto
termination
  by (relation "measure size") (auto dest!: size_left_ready size_PnodeLeft)

declare RemoveMinNode.simps [simp del]

text \<open>The new subtree and the object of the node taken out.\<close>

function Delete :: "'k::linorder \<Rightarrow> ('k, 'o) Node \<Rightarrow> (('k, 'o) Node \<times> 'o) option" where
  "Delete key pnode =
     do { k \<leftarrow> Key pnode;
          if key < k
          then do { pnodeT \<leftarrow> left_ready pnode;
                    l \<leftarrow> PnodeLeft pnodeT; (l, deleted) \<leftarrow> Delete key l; pnodeT \<leftarrow> SetLeft l pnodeT;
                    pnodeT \<leftarrow> Fixup pnodeT; Some (pnodeT, deleted) }
          else do {
            l \<leftarrow> PnodeLeft pnode;
            pnodeT \<leftarrow> (if FIsNonNullAndRed l then RotateRight pnode else Some pnode);
            k \<leftarrow> Key pnodeT; r \<leftarrow> PnodeRight pnodeT;
            if key = k \<and> r = Null
            then do { deleted \<leftarrow> NodeToCObject pnodeT; Some (Null, deleted) }
            else do {
              pnodeT \<leftarrow> right_ready pnodeT;
              k \<leftarrow> Key pnodeT; r \<leftarrow> PnodeRight pnodeT;
              (pnodeT, deleted) \<leftarrow>
                (if key = k
                 then do { deleted \<leftarrow> NodeToCObject pnodeT; l \<leftarrow> PnodeLeft pnodeT; c \<leftarrow> Color pnodeT;
                           pnodeRight \<leftarrow> RemoveMinNode r;
                           pnodeT \<leftarrow> SetLeft l (PnodeMin r); pnodeT \<leftarrow> SetRight pnodeRight pnodeT;
                           pnodeT \<leftarrow> SetColor c pnodeT;
                           Some (pnodeT, deleted) }
                 else do { (r, deleted) \<leftarrow> Delete key r; pnodeT \<leftarrow> SetRight r pnodeT; Some (pnodeT, deleted) });
              pnodeT \<leftarrow> Fixup pnodeT;
              Some (pnodeT, deleted) } } }"
  by pat_completeness auto
termination
  by (relation "measure (\<lambda>(key, t). size t)")
    (auto dest!: size_left_ready size_right_ready size_PnodeLeft size_PnodeRight size_RotateRight split: if_splits)

declare Delete.simps [simp del]

definition ErrDelete :: "'k::linorder \<Rightarrow> ('k, 'o) Node \<Rightarrow> (('k, 'o) Node \<times> RBT_ERR \<times> 'o option) option" where
  "ErrDelete key m_pnodeRoot =
     (if \<not> FContainsKey key m_pnodeRoot then Some (m_pnodeRoot, RB_errEntryNotFound, None)
      else do { (m_pnodeRoot, deleted) \<leftarrow> Delete key m_pnodeRoot; Some (m_pnodeRoot, RB_errSuccess, Some deleted) })"

section \<open>Emptying, moving and merging\<close>

text \<open>The objects whose nodes \<open>MakeEmpty_\<close> scrubs, in order.\<close>

fun MakeEmpty_node :: "('k, 'o) Node \<Rightarrow> 'o list" where
  "MakeEmpty_node Null = []"
| "MakeEmpty_node (Node ob k c l r) = MakeEmpty_node l @ MakeEmpty_node r @ [ob]"

definition MakeEmpty :: "('k, 'o) Node \<Rightarrow> ('k, 'o) Node \<times> 'o list" where
  "MakeEmpty m_pnodeRoot = (Null, MakeEmpty_node m_pnodeRoot)"

text \<open>The tree itself and the source, afterwards.\<close>

definition Move :: "('k, 'o) Node \<Rightarrow> ('k, 'o) Node \<Rightarrow> ('k, 'o) Node \<times> ('k, 'o) Node" where
  "Move this prbtSrc = (if this \<noteq> Null then (this, prbtSrc) else (prbtSrc, Null))"

lemma size_SetLeft: "SetLeft l' t = Some t' \<Longrightarrow> PnodeLeft t = Some l \<Longrightarrow> size t' + size l = size t + size l'"
  by (cases t) auto

lemma size_SetRight: "SetRight r' t = Some t' \<Longrightarrow> PnodeRight t = Some r \<Longrightarrow> size t' + size r = size t + size r'"
  by (cases t) auto

lemma size_SetColor: "SetColor c t = Some t' \<Longrightarrow> size t' = size t"
  by (cases t) auto

lemma size_RemoveMinNode: "RemoveMinNode t = Some t' \<Longrightarrow> size t' < size t"
proof (induction t arbitrary: t' rule: RemoveMinNode.induct)
  case (1 t)
  obtain l where l: "PnodeLeft t = Some l"
    using "1.prems" by (auto simp: RemoveMinNode.simps [of t] bind_eq_Some_conv)
  show ?case
  proof (cases "l = Null")
    case True
    then show ?thesis
      using "1.prems" l size_PnodeLeft [OF l] by (auto simp: RemoveMinNode.simps [of t])
  next
    case False
    then obtain u v v' u' where *: "left_ready t = Some u" "PnodeLeft u = Some v" "RemoveMinNode v = Some v'"
        "SetLeft v' u = Some u'" "Fixup u' = Some t'"
      using "1.prems" l by (auto simp: RemoveMinNode.simps [of t] bind_eq_Some_conv)
    then have "size v' < size v"
      using "1.IH" [OF l False] by blast
    then show ?thesis
      using size_SetLeft [OF *(4,2)] size_Fixup [OF *(5)] size_left_ready [OF *(1)] by simp
  qed
qed

lemma size_PnodeMin: "SetLeft l (PnodeMin t) = Some u \<Longrightarrow> SetRight r u = Some u' \<Longrightarrow> size u' = Suc (size l + size r)"
  by (induction t) (auto split: if_splits)

lemma Delete_Null [simp]: "Delete key Null = None"
  by (subst Delete.simps) simp

lemma size_Delete: "Delete key t = Some (t', ob) \<Longrightarrow> size t' < size t"
proof (induction key t arbitrary: t' ob rule: Delete.induct)
  case (1 key t)
  obtain k l where k: "Key t = Some k" and l: "PnodeLeft t = Some l" and pos: "0 < size t"
    using "1.prems" by (cases t) auto
  show ?case
  proof (cases "key < k")
    case True
    then obtain u v v' u' where *: "left_ready t = Some u" "PnodeLeft u = Some v" "Delete key v = Some (v', ob)"
        "SetLeft v' u = Some u'" "Fixup u' = Some t'"
      using "1.prems" k by (auto simp: Delete.simps [of key t] bind_eq_Some_conv)
    then have "size v' < size v"
      using "1.IH"(1) [OF k True] by blast
    then show ?thesis
      using size_SetLeft [OF *(4,2)] size_Fixup [OF *(5)] size_left_ready [OF *(1)] by simp
  next
    case False
    let ?rot = "if FIsNonNullAndRed l then RotateRight t else Some t"
    from "1.prems" k l False obtain s ks rs where s: "?rot = Some s" "Key s = Some ks" "PnodeRight s = Some rs"
      by (auto simp: Delete.simps [of key t] bind_eq_Some_conv)
    have sz: "size s = size t"
      using s(1) by (auto split: if_splits dest: size_RotateRight)
    show ?thesis
    proof (cases "key = ks \<and> rs = Null")
      case True
      then show ?thesis
        using "1.prems" k l False s pos by (subst (asm) Delete.simps [of key t]) (auto simp: bind_eq_Some_conv)
    next
      case nrm: False
      obtain u ku ru w where u: "right_ready s = Some u" "Key u = Some ku" "PnodeRight u = Some ru"
        and w: "(if key = ku
                 then do { deleted \<leftarrow> NodeToCObject u; l \<leftarrow> PnodeLeft u; c \<leftarrow> Color u;
                           pnodeRight \<leftarrow> RemoveMinNode ru;
                           pnodeT \<leftarrow> SetLeft l (PnodeMin ru); pnodeT \<leftarrow> SetRight pnodeRight pnodeT;
                           pnodeT \<leftarrow> SetColor c pnodeT;
                           Some (pnodeT, deleted) }
                 else do { (r, deleted) \<leftarrow> Delete key ru; pnodeT \<leftarrow> SetRight r u; Some (pnodeT, deleted) }) = Some (w, ob)"
          "Fixup w = Some t'"
        using "1.prems" k l False s nrm by (subst (asm) Delete.simps [of key t]) (auto simp: bind_eq_Some_conv)
      have "size w < size u"
      proof (cases "key = ku")
        case True
        then obtain lu v r1 r2 c where *: "PnodeLeft u = Some lu" "RemoveMinNode ru = Some v"
            "SetLeft lu (PnodeMin ru) = Some r1" "SetRight v r1 = Some r2" "SetColor c r2 = Some w"
          using w(1) by (auto simp: bind_eq_Some_conv)
        have "size u = Suc (size lu + size ru)"
          using *(1) u(3) by (cases u) auto
        then show ?thesis
          using size_RemoveMinNode [OF *(2)] size_PnodeMin [OF *(3,4)] size_SetColor [OF *(5)] by simp
      next
        case other: False
        then obtain v where v: "Delete key ru = Some (v, ob)" "SetRight v u = Some w"
          using w(1) by (auto simp: bind_eq_Some_conv)
        then have "size v < size ru"
          using "1.IH"(2) [OF k False l s nrm u other] by blast
        then show ?thesis
          using size_SetRight [OF v(2) u(3)] by simp
      qed
      then show ?thesis
        using size_Fixup [OF w(2)] size_right_ready [OF u(1)] sz by simp
    qed
  qed
qed

text \<open>The loop of \<open>ErrMerge\<close>: this tree, the source and \<open>rbtLeftOvers\<close>.\<close>

function merge_loop ::
  "('k::linorder, 'o) Node \<Rightarrow> ('k, 'o) Node \<Rightarrow> ('k, 'o) Node \<Rightarrow> (('k, 'o) Node \<times> ('k, 'o) Node) option" where
  "merge_loop this Null rbtLeftOvers = Some (this, rbtLeftOvers)"
| "merge_loop this (Node pnodeMove keyMove c l r) rbtLeftOvers =
     do { (src, errDel, deleted) \<leftarrow> ErrDelete keyMove (Node pnodeMove keyMove c l r);
          (this, errMove) \<leftarrow> ErrInsert keyMove pnodeMove this;
          if errMove \<noteq> RB_errSuccess
          then do { (rbtLeftOvers, errLeftOver) \<leftarrow> ErrInsert keyMove pnodeMove rbtLeftOvers;
                    merge_loop this src rbtLeftOvers }
          else merge_loop this src rbtLeftOvers }"
  by pat_completeness auto
termination
proof (relation "measure (\<lambda>(this, src, left). size src)", goal_cases)
  case (2 this ob k c l r left x src y errDel deleted z this' errMove u left' err')
  then show ?case
    by (auto simp: ErrDelete_def FContainsKey_def bind_eq_Some_conv dest!: size_Delete)
next
  case (3 this ob k c l r left x src y errDel deleted z this' errMove)
  then show ?case
    by (auto simp: ErrDelete_def FContainsKey_def bind_eq_Some_conv dest!: size_Delete)
qed simp

text \<open>This tree, the source, and the result.\<close>

definition ErrMerge ::
  "('k::linorder, 'o) Node \<Rightarrow> ('k, 'o) Node \<Rightarrow> (('k, 'o) Node \<times> ('k, 'o) Node \<times> RBT_ERR) option" where
  "ErrMerge this prbtSrc =
     (let (this, prbtSrc) = (if this = Null then Move this prbtSrc else (this, prbtSrc))
      in do { (this, rbtLeftOvers) \<leftarrow> merge_loop this prbtSrc Null;
              if rbtLeftOvers \<noteq> Null
              then (let (prbtSrc, rbtLeftOvers) = Move Null rbtLeftOvers
                    in Some (this, prbtSrc, RB_errDuplicateEntry))
              else Some (this, Null, RB_errSuccess) })"

section \<open>Validity checks\<close>

text \<open>What \<open>AssertValid\<close> asserts of one node and \<open>AssertValid_\<close> of a tree.\<close>

fun AssertValid_node :: "('k::linorder, 'o) Node \<Rightarrow> bool" where
  "AssertValid_node Null = True"
| "AssertValid_node (Node ob k c l r) =
     ((case l of Null \<Rightarrow> True | Node obl kl cl ll lr \<Rightarrow> kl < k \<and> ob \<noteq> obl)
      \<and> (case r of Null \<Rightarrow> True | Node obr kr cr rl rr \<Rightarrow> kr > k \<and> ob \<noteq> obr)
      \<and> (l \<noteq> Null \<and> r \<noteq> Null \<longrightarrow> c = Black \<or> Color l = Some Black \<or> Color r = Some Black)
      \<and> (r \<noteq> Null \<and> Color r = Some Red \<longrightarrow> l \<noteq> Null \<and> Color l = Some Red))"

fun AssertValid :: "('k::linorder, 'o) Node \<Rightarrow> bool" where
  "AssertValid Null = True"
| "AssertValid (Node ob k c l r) = (AssertValid_node (Node ob k c l r) \<and> AssertValid l \<and> AssertValid r)"

section \<open>\<open>CRedBlackTree\<close>\<close>

record ('k, 'd) CRedBlackTree =
  m_irbtBase :: "('k, nat) Node"
  m_data :: "nat \<rightharpoonup> 'd"

definition CRedBlackTree_new :: "('k, 'd) CRedBlackTree" where
  "CRedBlackTree_new = \<lparr>m_irbtBase = Null, m_data = Map.empty\<rparr>"

definition PnodeAlloc :: "nat option \<Rightarrow> 'd \<Rightarrow> ('k, 'd) CRedBlackTree \<Rightarrow> ('k, 'd) CRedBlackTree \<times> nat option" where
  "PnodeAlloc new data t =
     (case new of None \<Rightarrow> (t, None) | Some a \<Rightarrow> (t\<lparr>m_data := (m_data t)(a \<mapsto> data)\<rparr>, Some a))"

text \<open>Freeing a node that is not allocated faults.\<close>

definition RBT_Free :: "nat \<Rightarrow> ('k, 'd) CRedBlackTree \<Rightarrow> ('k, 'd) CRedBlackTree option" where
  "RBT_Free pnode t = do { d \<leftarrow> m_data t pnode; Some (t\<lparr>m_data := (m_data t)(pnode := None)\<rparr>) }"

text \<open>With \<open>pdata\<close> null nothing is read; the result is the error and what is stored through \<open>pdata\<close>.\<close>

definition RBT_ErrFind :: "bool \<Rightarrow> 'k::linorder \<Rightarrow> ('k, 'd) CRedBlackTree \<Rightarrow> (RBT_ERR \<times> 'd option) option" where
  "RBT_ErrFind pdata key t =
     (let (err, pnode) = ErrFind key (m_irbtBase t)
      in if pdata \<and> err = RB_errSuccess
         then do { a \<leftarrow> pnode; d \<leftarrow> m_data t a; Some (err, Some d) }
         else Some (err, None))"

definition RBT_found ::
  "bool \<Rightarrow> RBT_ERR \<times> ('k \<times> nat) option \<Rightarrow> ('k, 'd) CRedBlackTree \<Rightarrow> (RBT_ERR \<times> ('k \<times> 'd option) option) option" where
  "RBT_found pdataFound res t =
     (let (err, f) = res
      in if err = RB_errSuccess
         then do { (k, a) \<leftarrow> f;
                   d \<leftarrow> (if pdataFound then do { d \<leftarrow> m_data t a; Some (Some d) } else Some None);
                   Some (err, Some (k, d)) }
         else Some (err, None))"

definition RBT_ErrFindNearest ::
  "bool \<Rightarrow> 'k::linorder \<Rightarrow> ('k, 'd) CRedBlackTree \<Rightarrow> (RBT_ERR \<times> ('k \<times> 'd option) option) option" where
  "RBT_ErrFindNearest pdataFound key t = RBT_found pdataFound (ErrFindNearest key (m_irbtBase t)) t"

definition RBT_ErrFindGreaterThanOrEqual ::
  "bool \<Rightarrow> 'k::linorder \<Rightarrow> ('k, 'd) CRedBlackTree \<Rightarrow> (RBT_ERR \<times> ('k \<times> 'd option) option) option" where
  "RBT_ErrFindGreaterThanOrEqual pdataFound key t =
     RBT_found pdataFound (ErrFindGreaterThanOrEqual key (m_irbtBase t)) t"

definition RBT_ErrInsert ::
  "nat option \<Rightarrow> 'k::linorder \<Rightarrow> 'd \<Rightarrow> ('k, 'd) CRedBlackTree \<Rightarrow> (('k, 'd) CRedBlackTree \<times> RBT_ERR) option" where
  "RBT_ErrInsert new key data t =
     (let (t, pnode) = PnodeAlloc new data t
      in case pnode of None \<Rightarrow> Some (t, RB_errOutOfMemory)
         | Some a \<Rightarrow>
             do { (base, err) \<leftarrow> ErrInsert key a (m_irbtBase t);
                  let t = t\<lparr>m_irbtBase := base\<rparr>
                  in if RB_errSuccess \<noteq> err then do { t \<leftarrow> RBT_Free a t; Some (t, err) } else Some (t, err) })"

definition RBT_ErrDelete :: "'k::linorder \<Rightarrow> ('k, 'd) CRedBlackTree \<Rightarrow> (('k, 'd) CRedBlackTree \<times> RBT_ERR) option" where
  "RBT_ErrDelete key t =
     do { (base, err, pnode) \<leftarrow> ErrDelete key (m_irbtBase t);
          let t = t\<lparr>m_irbtBase := base\<rparr>
          in if err = RB_errSuccess then do { a \<leftarrow> pnode; t \<leftarrow> RBT_Free a t; Some (t, err) }
             else Some (t, err) }"

fun RBT_MakeEmpty_node :: "('k, nat) Node \<Rightarrow> ('k, 'd) CRedBlackTree \<Rightarrow> ('k, 'd) CRedBlackTree option" where
  "RBT_MakeEmpty_node Null t = Some t"
| "RBT_MakeEmpty_node (Node a k c l r) t =
     do { t \<leftarrow> RBT_MakeEmpty_node l t; t \<leftarrow> RBT_MakeEmpty_node r t; RBT_Free a t }"

definition RBT_MakeEmpty :: "('k, 'd) CRedBlackTree \<Rightarrow> ('k, 'd) CRedBlackTree option" where
  "RBT_MakeEmpty t =
     (case m_irbtBase t of Null \<Rightarrow> Some t
      | Node pnodeRoot k c l r \<Rightarrow>
          do { t \<leftarrow> RBT_MakeEmpty_node l t; t \<leftarrow> RBT_MakeEmpty_node r t;
               let (base, scrubbed) = MakeEmpty (Node pnodeRoot k c Null Null);
                   t = t\<lparr>m_irbtBase := base\<rparr>
               in RBT_Free pnodeRoot t })"

end
