(* ===== verification/Red_Black_Props.thy ===== *)
theory Red_Black_Props
  imports Red_Black
begin

text \<open>
  The red-black tree keeps its shape: every operation leaves a left-leaning red-black tree, in which
  only the root may be red above a red child, because the code never colors the root black. Insertion
  and deletion are analysed branch by branch: what each local repair gives on explicit trees, what
  the descents prepare, and the induction over the size for \<open>Delete_\<close>.
\<close>

section \<open>Shape invariants\<close>

lemma red_simps [simp]:
  "\<not> FIsNonNullAndRed Null" "FIsNonNullAndRed (Node ob k c l r) \<longleftrightarrow> c = Red"
  by (simp_all add: FIsNonNullAndRed_def)

lemma not_Red [simp]: "c \<noteq> Red \<longleftrightarrow> c = Black" "Red \<noteq> c \<longleftrightarrow> c = Black"
  by (cases c; simp)+

lemma not_Black [simp]: "c \<noteq> Black \<longleftrightarrow> c = Red"
  by (cases c) simp_all

text \<open>The entries of a tree in order of their nodes, and the number of black nodes on the leftmost path.\<close>

primrec items :: "('k, 'o) Node \<Rightarrow> ('k \<times> 'o) list" where
  "items Null = []"
| "items (Node ob k c l r) = items l @ (k, ob) # items r"

primrec bh :: "('k, 'o) Node \<Rightarrow> nat" where
  "bh Null = 0"
| "bh (Node ob k c l r) = bh l + (if c = Black then 1 else 0)"

text \<open>Left-leaning red-black trees, and those that allow a red left child under a red root.\<close>

primrec valid :: "('k, 'o) Node \<Rightarrow> bool" where
  "valid Null \<longleftrightarrow> True"
| "valid (Node ob k c l r) \<longleftrightarrow> valid l \<and> valid r \<and> bh l = bh r \<and> \<not> FIsNonNullAndRed r
     \<and> (c = Red \<longrightarrow> \<not> FIsNonNullAndRed l)"

fun quasi :: "('k, 'o) Node \<Rightarrow> bool" where
  "quasi Null \<longleftrightarrow> True"
| "quasi (Node ob k c l r) \<longleftrightarrow> valid l \<and> valid r \<and> bh l = bh r \<and> \<not> FIsNonNullAndRed r"

lemma valid_quasi: "valid t \<Longrightarrow> quasi t"
  by (cases t) auto

lemma black_bh_0: "valid t \<Longrightarrow> \<not> FIsNonNullAndRed t \<Longrightarrow> bh t = 0 \<longleftrightarrow> t = Null"
  by (cases t) auto

lemma black_bh_eq: "valid s \<Longrightarrow> valid t \<Longrightarrow> bh s = bh t \<Longrightarrow> \<not> FIsNonNullAndRed s \<Longrightarrow> \<not> FIsNonNullAndRed t \<Longrightarrow>
    s = Null \<longleftrightarrow> t = Null"
  using black_bh_0 [of s] black_bh_0 [of t] by metis

section \<open>The local repairs on explicit trees\<close>

lemma FlipColors_Node:
  "FlipColors (Node ob k c (Node ob1 k1 c1 l1 r1) (Node ob2 k2 c2 l2 r2)) =
     Some (Node ob k (if c = Red then Black else Red)
       (Node ob1 k1 (if c1 = Red then Black else Red) l1 r1) (Node ob2 k2 (if c2 = Red then Black else Red) l2 r2))"
  by (simp add: FlipColors_def)

lemma Fixup_id: "\<not> FIsNonNullAndRed r \<Longrightarrow> \<not> FIsNonNullAndRed l \<Longrightarrow> Fixup (Node ob k c l r) = Some (Node ob k c l r)"
  by (simp add: Fixup_def)

lemma Fixup_left:
  "\<not> FIsNonNullAndRed r \<Longrightarrow> \<not> FIsNonNullAndRed a \<Longrightarrow>
   Fixup (Node ob k c (Node ob1 k1 Red a b) r) = Some (Node ob k c (Node ob1 k1 Red a b) r)"
  by (simp add: Fixup_def)

lemma Fixup_left_left:
  "\<not> FIsNonNullAndRed r \<Longrightarrow>
   Fixup (Node ob k c (Node ob1 k1 Red (Node ob2 k2 Red x y) b) r) =
     Some (Node ob1 k1 (if c = Red then Black else Red) (Node ob2 k2 Black x y) (Node ob k Black b r))"
  by (simp add: Fixup_def rotate_simps FlipColors_Node)

lemma Fixup_right:
  "\<not> FIsNonNullAndRed l \<Longrightarrow> \<not> FIsNonNullAndRed b \<Longrightarrow>
   Fixup (Node ob k c l (Node ob1 k1 Red a b)) = Some (Node ob1 k1 c (Node ob k Red l a) b)"
  by (simp add: Fixup_def rotate_simps)

lemma Fixup_both:
  "\<not> FIsNonNullAndRed b \<Longrightarrow> Fixup (Node ob k c (Node ob2 k2 Red x y) (Node ob1 k1 Red a b)) =
     Some (Node ob k (if c = Red then Black else Red) (Node ob2 k2 Black x y) (Node ob1 k1 Black a b))"
  by (simp add: Fixup_def rotate_simps FlipColors_Node)

lemmas Fixup_simps = Fixup_id Fixup_left Fixup_left_left Fixup_right Fixup_both

lemma red_cases: "FIsNonNullAndRed t \<Longrightarrow> (\<And>ob k l r. t = Node ob k Red l r \<Longrightarrow> P) \<Longrightarrow> P"
  by (cases t) auto

lemma Fixup_black:
  assumes "quasi l" "valid r" "bh l = bh r"
  shows "\<exists>t'. Fixup (Node ob k Black l r) = Some t' \<and> valid t' \<and> bh t' = Suc (bh l)
    \<and> items t' = items l @ (k, ob) # items r
    \<and> (valid l \<and> \<not> (FIsNonNullAndRed l \<and> FIsNonNullAndRed r) \<longrightarrow> \<not> FIsNonNullAndRed t')"
proof (cases "FIsNonNullAndRed l"; cases "FIsNonNullAndRed r")
  assume lr: "FIsNonNullAndRed l" "FIsNonNullAndRed r"
  then show ?thesis
    using assms by (auto elim!: red_cases simp: Fixup_simps)
next
  assume lr: "FIsNonNullAndRed l" "\<not> FIsNonNullAndRed r"
  then obtain ob1 k1 a b where l: "l = Node ob1 k1 Red a b"
    by (auto elim: red_cases)
  show ?thesis
    using assms lr l by (cases "FIsNonNullAndRed a") (auto elim!: red_cases simp: Fixup_simps)
next
  assume lr: "\<not> FIsNonNullAndRed l" "FIsNonNullAndRed r"
  then have "valid l"
    using assms(1) by (cases l) auto
  then show ?thesis
    using assms lr by (auto elim!: red_cases simp: Fixup_simps)
next
  assume lr: "\<not> FIsNonNullAndRed l" "\<not> FIsNonNullAndRed r"
  then have "valid l"
    using assms(1) by (cases l) auto
  then show ?thesis
    using assms lr by (auto simp: Fixup_simps)
qed

lemma Fixup_red:
  assumes "valid l" "valid r" "bh l = bh r"
  shows "\<exists>t'. Fixup (Node ob k Red l r) = Some t' \<and> quasi t' \<and> items t' = items l @ (k, ob) # items r
    \<and> (\<not> (FIsNonNullAndRed l \<and> FIsNonNullAndRed r) \<longrightarrow> bh t' = bh l)
    \<and> (\<not> FIsNonNullAndRed l \<and> \<not> FIsNonNullAndRed r \<longrightarrow> valid t')"
proof (cases "FIsNonNullAndRed l"; cases "FIsNonNullAndRed r")
  assume "FIsNonNullAndRed l" "FIsNonNullAndRed r"
  then show ?thesis
    using assms by (auto elim!: red_cases simp: Fixup_simps)
next
  assume "FIsNonNullAndRed l" "\<not> FIsNonNullAndRed r"
  then show ?thesis
    using assms by (auto elim!: red_cases simp: Fixup_simps)
next
  assume "\<not> FIsNonNullAndRed l" "FIsNonNullAndRed r"
  then show ?thesis
    using assms by (auto elim!: red_cases simp: Fixup_simps)
next
  assume "\<not> FIsNonNullAndRed l" "\<not> FIsNonNullAndRed r"
  then show ?thesis
    using assms by (auto simp: Fixup_simps)
qed

section \<open>Ordered trees\<close>

abbreviation increasing :: "('k::linorder \<times> 'o) list \<Rightarrow> bool" where
  "increasing xs \<equiv> sorted_wrt (<) (map fst xs)"

abbreviation without :: "'k \<Rightarrow> ('k \<times> 'o) list \<Rightarrow> ('k \<times> 'o) list" where
  "without key \<equiv> filter (\<lambda>p. fst p \<noteq> key)"

definition inserted :: "'k::linorder \<Rightarrow> 'o \<Rightarrow> ('k \<times> 'o) list \<Rightarrow> ('k \<times> 'o) list" where
  "inserted key ob xs = filter (\<lambda>p. fst p < key) xs @ (key, ob) # filter (\<lambda>p. key < fst p) xs"

lemma without_absent: "key \<notin> fst ` set xs \<Longrightarrow> without key xs = xs"
  by (auto simp: filter_id_conv)

lemma inserted_left:
  assumes "increasing (xs @ p # ys)" "key < fst p"
  shows "inserted key ob (xs @ p # ys) = inserted key ob xs @ p # ys"
proof -
  have "key < fst q" if "q \<in> set ys" for q
    using assms that by (fastforce simp: sorted_wrt_append)
  then have "filter (\<lambda>q. fst q < key) ys = []" "filter (\<lambda>q. key < fst q) ys = ys"
    by (fastforce simp: filter_empty_conv intro!: filter_True)+
  then show ?thesis
    using assms(2) by (simp add: inserted_def)
qed

lemma inserted_right:
  assumes "increasing (xs @ p # ys)" "fst p < key"
  shows "inserted key ob (xs @ p # ys) = xs @ p # inserted key ob ys"
proof -
  have "fst q < key" if "q \<in> set xs" for q
    using assms that by (fastforce simp: sorted_wrt_append)
  then have "filter (\<lambda>q. key < fst q) xs = []" "filter (\<lambda>q. fst q < key) xs = xs"
    by (fastforce simp: filter_empty_conv intro!: filter_True)+
  then show ?thesis
    using assms(2) by (simp add: inserted_def)
qed

lemma set_inserted: "key \<notin> fst ` set xs \<Longrightarrow> set (inserted key ob xs) = insert (key, ob) (set xs)"
  by (auto simp: inserted_def) (metis antisym_conv3 image_eqI prod.sel(1))+

lemma increasing_inserted: "increasing xs \<Longrightarrow> increasing (inserted key ob xs)"
  by (auto simp: inserted_def sorted_wrt_append sorted_wrt_map intro: sorted_wrt_filter)

lemma increasing_without: "increasing xs \<Longrightarrow> increasing (without key xs)"
  by (simp add: sorted_wrt_map sorted_wrt_filter)

lemma key_side:
  assumes "increasing (xs @ (k, ob) # ys)"
  shows "key < k \<Longrightarrow> key \<notin> fst ` set ys" "k < key \<Longrightarrow> key \<notin> fst ` set xs"
    "k \<notin> fst ` set xs" "k \<notin> fst ` set ys" "increasing xs" "increasing ys"
  using assms by (auto simp: sorted_wrt_append)

section \<open>Insertion\<close>

lemma Fixup_quasi: "quasi (Node ob k c l r) \<Longrightarrow> Fixup (Node ob k c l r) = Some (Node ob k c l r)"
  by (cases "FIsNonNullAndRed l") (auto elim!: red_cases simp: Fixup_simps)

lemma insert_duplicate:
  assumes "valid t" "increasing (items t)" "key \<in> fst ` set (items t)"
  shows "ErrInsert_node key ob t = Some (t, RB_errDuplicateEntry)"
  using assms
proof (induction t)
  case (Node ob' k c l r)
  have "quasi (Node ob' k c l r)"
    using Node.prems(1) by simp
  note fx = Fixup_quasi [OF this]
  have b: "valid l" "valid r" "increasing (items l)" "increasing (items r)"
    using Node.prems(1,2) by (simp_all add: sorted_wrt_append)
  have "key = k \<or> key < k \<and> key \<in> fst ` set (items l) \<or> k < key \<and> key \<in> fst ` set (items r)"
    using Node.prems(3) key_side(1,2) [of "items l" k ob' "items r" key] Node.prems(2)
    by (cases rule: linorder_cases [of key k]) auto
  then consider "key = k" | "key < k" "key \<in> fst ` set (items l)" | "k < key" "key \<in> fst ` set (items r)"
    by blast
  then show ?case
    using Node.IH b fx by cases simp_all
qed simp

text \<open>Inserting below the root: the black height stays, and a black node gives a valid tree.\<close>

lemma insert_valid:
  assumes "valid t" "increasing (items t)" "key \<notin> fst ` set (items t)"
  shows "\<exists>t'. ErrInsert_node key ob t = Some (t', RB_errSuccess) \<and> quasi t' \<and> bh t' = bh t
    \<and> items t' = inserted key ob (items t) \<and> (\<not> FIsNonNullAndRed t \<longrightarrow> valid t')"
  using assms
proof (induction t)
  case Null
  then show ?case
    by (simp add: InitNode_def inserted_def)
next
  case (Node ob' k c l r)
  have srt: "increasing (items l)" "increasing (items r)" and ne: "key \<noteq> k"
    using Node.prems(2,3) by (auto simp: sorted_wrt_append)
  have b: "valid l" "valid r" "bh l = bh r" "\<not> FIsNonNullAndRed r" "c = Red \<longrightarrow> \<not> FIsNonNullAndRed l"
    using Node.prems(1) by auto
  show ?case
  proof (cases "key < k")
    case True
    obtain l' where l': "ErrInsert_node key ob l = Some (l', RB_errSuccess)" "quasi l'" "bh l' = bh l"
        "items l' = inserted key ob (items l)" "\<not> FIsNonNullAndRed l \<longrightarrow> valid l'"
      using Node.IH(1) [OF b(1) srt(1)] Node.prems(3) by auto
    have it: "inserted key ob (items (Node ob' k c l r)) = items l' @ (k, ob') # items r"
      using inserted_left [of "items l" "(k, ob')" "items r" key ob] Node.prems(2) True l'(4) by simp
    show ?thesis
      using Fixup_black [of l' r ob' k] Fixup_red [of l' r ob' k] l' b ne True it by (cases c) (auto simp: valid_quasi)
  next
    case False
    obtain r' where r': "ErrInsert_node key ob r = Some (r', RB_errSuccess)" "quasi r'" "bh r' = bh r"
        "items r' = inserted key ob (items r)" "valid r'"
      using Node.IH(2) [OF b(2) srt(2)] Node.prems(3) b(4) by auto
    have it: "inserted key ob (items (Node ob' k c l r)) = items l @ (k, ob') # items r'"
      using inserted_right [of "items l" "(k, ob')" "items r" key ob] Node.prems(2) False ne r'(4) by simp
    show ?thesis
      using Fixup_black [of l r' ob' k] Fixup_red [of l r' ob' k] r' b ne False it by (cases c) (auto simp: valid_quasi)
  qed
qed

text \<open>At the root a red left child under a red node is allowed.\<close>

lemma Fixup_top:
  assumes "quasi l" "valid r" "bh l = bh r" "c = Red \<longrightarrow> valid l \<or> \<not> FIsNonNullAndRed r"
  shows "\<exists>t'. Fixup (Node ob k c l r) = Some t' \<and> quasi t' \<and> items t' = items l @ (k, ob) # items r"
proof (cases "c = Black \<or> valid l")
  case True
  then show ?thesis
    using Fixup_black [OF assms(1-3)] Fixup_red [OF _ assms(2,3)] valid_quasi by (cases c) fastforce+
next
  case False
  then obtain ob1 k1 c1 a b where l: "l = Node ob1 k1 c1 a b"
    by (cases l) auto
  show ?thesis
    using assms False l by (cases c1; cases "FIsNonNullAndRed a") (auto elim!: red_cases simp: Fixup_simps)
qed

lemma insert_top:
  assumes "quasi t" "increasing (items t)"
  shows "\<exists>t'. ErrInsert key ob t = Some (t', if key \<in> fst ` set (items t) then RB_errDuplicateEntry else RB_errSuccess)
    \<and> quasi t' \<and> (if key \<in> fst ` set (items t) then t' = t else items t' = inserted key ob (items t))"
proof (cases t)
  case Null
  then show ?thesis
    by (simp add: ErrInsert_def InitNode_def inserted_def)
next
  case (Node ob' k c l r)
  have b: "valid l" "valid r" "bh l = bh r" "\<not> FIsNonNullAndRed r" and srt: "increasing (items l)" "increasing (items r)"
    using assms Node by (auto simp: sorted_wrt_append)
  have out: "key \<notin> fst ` set (items r)" if "key < k"
    using key_side(1) assms(2) that Node by fastforce
  have out': "key \<notin> fst ` set (items l)" if "k < key"
    using key_side(2) assms(2) that Node by fastforce
  have fx: "Fixup t = Some t"
    using Fixup_quasi [of ob' k c l r] assms(1) Node by simp
  consider "key = k" | "key < k" | "k < key"
    by fastforce
  then show ?thesis
  proof cases
    case 1
    then show ?thesis
      using fx assms(1) Node by (simp add: ErrInsert_def)
  next
    case 2
    show ?thesis
    proof (cases "key \<in> fst ` set (items l)")
      case True
      then show ?thesis
        using insert_duplicate [OF b(1) srt(1) True, of ob] fx assms(1) 2 Node by (auto simp: ErrInsert_def)
    next
      case False
      obtain l' where "ErrInsert_node key ob l = Some (l', RB_errSuccess)" "quasi l'" "bh l' = bh l"
          "items l' = inserted key ob (items l)"
        using insert_valid [OF b(1) srt(1) False, of ob] by auto
      then show ?thesis
        using Fixup_top [of l' r c ob' k] b 2 False out inserted_left [of "items l" "(k, ob')" "items r" key ob] assms(2) Node
        by (auto simp: ErrInsert_def)
    qed
  next
    case 3
    show ?thesis
    proof (cases "key \<in> fst ` set (items r)")
      case True
      then show ?thesis
        using insert_duplicate [OF b(2) srt(2) True, of ob] fx assms(1) 3 Node by (auto simp: ErrInsert_def)
    next
      case False
      obtain r' where "ErrInsert_node key ob r = Some (r', RB_errSuccess)" "valid r'" "bh r' = bh r"
          "items r' = inserted key ob (items r)"
        using insert_valid [OF b(2) srt(2) False, of ob] b(4) by auto
      then show ?thesis
        using Fixup_top [of l r' c ob' k] b 3 False out' inserted_right [of "items l" "(k, ob')" "items r" key ob] assms(2) Node
          valid_quasi [OF b(1)]
        by (auto simp: ErrInsert_def)
    qed
  qed
qed

section \<open>Deletion\<close>

text \<open>A subtree the deletion may descend into: it or its left child is red.\<close>

fun strong :: "('k, 'o) Node \<Rightarrow> bool" where
  "strong Null \<longleftrightarrow> False"
| "strong (Node ob k c l r) \<longleftrightarrow> valid (Node ob k c l r) \<and> (c = Red \<or> FIsNonNullAndRed l)"

text \<open>The black node with a red right child that \<open>MoveRedRight_\<close> leaves on the way to \<open>key\<close>.\<close>

fun leaning :: "'k::linorder \<Rightarrow> ('k, 'o) Node \<Rightarrow> bool" where
  "leaning key Null \<longleftrightarrow> False"
| "leaning key (Node ob k c l r) \<longleftrightarrow> c = Black \<and> valid l \<and> valid r \<and> bh l = bh r
     \<and> \<not> FIsNonNullAndRed l \<and> FIsNonNullAndRed r \<and> k \<le> key"

lemma left_ready_ok:
  assumes "quasi (Node ob k c l r)" "l \<noteq> Null"
  shows "\<exists>ob1 k1 c1 l1 r1 xs. left_ready (Node ob k c l r) = Some (Node ob1 k1 c1 l1 r1)
    \<and> items (Node ob1 k1 c1 l1 r1) = items (Node ob k c l r) \<and> items l1 = items l @ xs
    \<and> strong l1 \<and> valid r1 \<and> bh l1 = bh r1 \<and> (c = Red \<and> c1 = Red \<longrightarrow> \<not> FIsNonNullAndRed r1)
    \<and> (strong (Node ob k c l r) \<longrightarrow> bh (Node ob1 k1 c1 l1 r1) = bh (Node ob k c l r)
        \<and> (c1 = Black \<or> \<not> FIsNonNullAndRed l1 \<and> \<not> FIsNonNullAndRed r1)
        \<and> (c = Black \<longrightarrow> c1 = Black \<and> \<not> FIsNonNullAndRed r1))"
proof -
  obtain obl kl cl ll lr where l: "l = Node obl kl cl ll lr"
    using assms(2) by (cases l) auto
  show ?thesis
  proof (cases "cl = Red \<or> FIsNonNullAndRed ll")
    case True
    then show ?thesis
      using assms(1) l by (auto simp: left_ready_def)
  next
    case False
    then have "r \<noteq> Null"
      using assms(1) l black_bh_eq [of l r] by auto
    then obtain obr kr rl rr where r: "r = Node obr kr Black rl rr"
      using assms(1) by (cases r) auto
    show ?thesis
    proof (cases "FIsNonNullAndRed rl")
      case True
      then show ?thesis
        using assms(1) l r False
        by (auto elim!: red_cases simp: left_ready_def MoveRedLeft_def FlipColors_Node rotate_simps)
    next
      case nrl: False
      then show ?thesis
        using assms(1) l r False
        by (auto simp: left_ready_def MoveRedLeft_def FlipColors_Node)
    qed
  qed
qed

lemma right_ready_ok:
  assumes "quasi (Node ob k c l r)" "\<not> FIsNonNullAndRed l" "r \<noteq> Null" "k \<le> key"
  shows "\<exists>ob1 k1 c1 l1 r1. right_ready (Node ob k c l r) = Some (Node ob1 k1 c1 l1 r1)
    \<and> items (Node ob1 k1 c1 l1 r1) = items (Node ob k c l r) \<and> valid l1 \<and> bh l1 = bh r1
    \<and> (strong r1 \<and> ob1 = ob \<and> k1 = k \<and> items r1 = items r
        \<or> leaning key r1 \<and> (k1, ob1) \<in> set (items l) \<and> (\<exists>xs. items r1 = xs @ (k, ob) # items r))
    \<and> (c1 = Red \<and> c = Red \<longrightarrow> \<not> FIsNonNullAndRed l1)
    \<and> (strong (Node ob k c l r) \<longrightarrow> bh (Node ob1 k1 c1 l1 r1) = bh (Node ob k c l r)
        \<and> (c1 = Black \<or> \<not> FIsNonNullAndRed l1 \<and> \<not> FIsNonNullAndRed r1))"
proof -
  obtain obr kr rl rr where r: "r = Node obr kr Black rl rr"
    using assms(1,3) by (cases r) auto
  show ?thesis
  proof (cases "FIsNonNullAndRed rl")
    case True
    then show ?thesis
      using assms r by (auto simp: right_ready_def)
  next
    case False
    have "l \<noteq> Null"
      using assms r black_bh_eq [of l r] by auto
    then obtain obl kl ll lr where l: "l = Node obl kl Black ll lr"
      using assms(2) by (cases l) auto
    show ?thesis
    proof (cases "FIsNonNullAndRed ll")
      case True
      then show ?thesis
        using assms l r False
        by (auto elim!: red_cases simp: right_ready_def MoveRedRight_def FlipColors_Node rotate_simps)
    next
      case nll: False
      then show ?thesis
        using assms l r False
        by (auto simp: right_ready_def MoveRedRight_def FlipColors_Node)
    qed
  qed
qed

text \<open>Rebuilding a node whose children the descent prepared.\<close>

lemma Fixup_strong:
  assumes "valid l" "valid r" "bh l = bh r" "c = Black \<or> \<not> FIsNonNullAndRed l \<and> \<not> FIsNonNullAndRed r"
  shows "\<exists>t'. Fixup (Node ob k c l r) = Some t' \<and> valid t' \<and> bh t' = bh (Node ob k c l r)
    \<and> items t' = items l @ (k, ob) # items r
    \<and> (c = Black \<and> \<not> (FIsNonNullAndRed l \<and> FIsNonNullAndRed r) \<longrightarrow> \<not> FIsNonNullAndRed t')"
  using Fixup_black [OF valid_quasi [OF assms(1)] assms(2,3), of ob k] Fixup_red [OF assms(1-3), of ob k] assms
  by (cases c) auto

lemma PnodeMin_hd: "t \<noteq> Null \<Longrightarrow> \<exists>ob k c l r. PnodeMin t = Node ob k c l r \<and> hd (items t) = (k, ob)"
proof (induction t)
  case (Node ob k c l r)
  then show ?case
    by (cases l) (auto simp: hd_append)
qed simp

lemma RemoveMinNode_last [simp]: "RemoveMinNode (Node ob k c Null r) = Some Null"
  by (subst RemoveMinNode.simps) simp

lemma RemoveMinNode_ok:
  "strong t \<Longrightarrow> \<exists>t'. RemoveMinNode t = Some t' \<and> valid t' \<and> bh t' = bh t
    \<and> (FIsNonNullAndRed t' \<longrightarrow> FIsNonNullAndRed t) \<and> items t' = tl (items t)"
proof (induction t rule: RemoveMinNode.induct)
  case (1 t)
  then obtain ob k c l r where t: "t = Node ob k c l r"
    by (cases t) auto
  show ?case
  proof (cases "l = Null")
    case True
    then show ?thesis
      using "1.prems" t black_bh_eq [of l r] by auto
  next
    case False
    have "quasi t"
      using "1.prems" t by auto
    then obtain ob1 k1 c1 l1 r1 xs where s: "left_ready t = Some (Node ob1 k1 c1 l1 r1)"
        "items (Node ob1 k1 c1 l1 r1) = items t" "strong l1" "valid r1" "bh l1 = bh r1"
        "bh (Node ob1 k1 c1 l1 r1) = bh t" "c1 = Black \<or> \<not> FIsNonNullAndRed l1 \<and> \<not> FIsNonNullAndRed r1"
        "c = Black \<longrightarrow> c1 = Black \<and> \<not> FIsNonNullAndRed r1"
      using left_ready_ok [of ob k c l r] False "1.prems" unfolding t by blast
    obtain l' where l': "RemoveMinNode l1 = Some l'" "valid l'" "bh l' = bh l1"
        "FIsNonNullAndRed l' \<longrightarrow> FIsNonNullAndRed l1" "items l' = tl (items l1)"
      using "1.IH" [of l "Node ob1 k1 c1 l1 r1" l1] s(1,3) False t by auto
    obtain t' where t': "Fixup (Node ob1 k1 c1 l' r1) = Some t'" "valid t'" "bh t' = bh (Node ob1 k1 c1 l' r1)"
        "items t' = items l' @ (k1, ob1) # items r1"
        "c1 = Black \<and> \<not> (FIsNonNullAndRed l' \<and> FIsNonNullAndRed r1) \<longrightarrow> \<not> FIsNonNullAndRed t'"
      using Fixup_strong [of l' r1 c1 ob1 k1] l' s by metis
    have "items l1 \<noteq> []"
      using s(3) by (cases l1) auto
    then have "items t' = tl (items t)"
      using t'(4) l'(5) s(2) by (metis items.simps(2) tl_append2)
    moreover have "RemoveMinNode t = Some t'"
      using False s(1) l'(1) t'(1) unfolding t by (subst RemoveMinNode.simps) simp
    moreover have "FIsNonNullAndRed t' \<longrightarrow> FIsNonNullAndRed t"
      using t'(5) s(8) t by (cases c) auto
    ultimately show ?thesis
      using t'(2,3) s(6) l'(3) by simp
  qed
qed

lemma min_items:
  assumes "strong r"
  shows "\<exists>ob k c' l' r' t'. PnodeMin r = Node ob k c' l' r' \<and> RemoveMinNode r = Some t' \<and> valid t' \<and> bh t' = bh r
    \<and> (FIsNonNullAndRed t' \<longrightarrow> FIsNonNullAndRed r) \<and> items r = (k, ob) # items t'"
proof -
  have "r \<noteq> Null" "items r \<noteq> []"
    using assms by (cases r; auto)+
  then show ?thesis
    using PnodeMin_hd [of r] RemoveMinNode_ok [OF assms] by (metis list.collapse)
qed

text \<open>
  The last part of \<open>Delete_\<close> on a prepared node: its own removal by way of the least node on the
  right, or the descent to the right.
\<close>

definition finish :: "'k::linorder \<Rightarrow> ('k, 'o) Node \<Rightarrow> (('k, 'o) Node \<times> 'o) option" where
  "finish key pnodeT =
     do { k \<leftarrow> Key pnodeT; r \<leftarrow> PnodeRight pnodeT;
          (pnodeT, deleted) \<leftarrow>
            (if key = k
             then do { deleted \<leftarrow> NodeToCObject pnodeT; l \<leftarrow> PnodeLeft pnodeT; c \<leftarrow> Color pnodeT;
                       pnodeRight \<leftarrow> RemoveMinNode r;
                       pnodeT \<leftarrow> SetLeft l (PnodeMin r); pnodeT \<leftarrow> SetRight pnodeRight pnodeT;
                       pnodeT \<leftarrow> SetColor c pnodeT;
                       Some (pnodeT, deleted) }
             else do { (r, deleted) \<leftarrow> Delete key r; pnodeT \<leftarrow> SetRight r pnodeT; Some (pnodeT, deleted) });
          pnodeT \<leftarrow> Fixup pnodeT;
          Some (pnodeT, deleted) }"

lemma Delete_right:
  assumes "\<not> key < k" "(if FIsNonNullAndRed l then RotateRight (Node ob k c l r) else Some (Node ob k c l r)) = Some (Node ob1 k1 c1 l1 r1)"
    and "\<not> (key = k1 \<and> r1 = Null)"
  shows "Delete key (Node ob k c l r) = do { pnodeT \<leftarrow> right_ready (Node ob1 k1 c1 l1 r1); finish key pnodeT }"
  using assms by (subst Delete.simps) (auto simp: finish_def [abs_def])

lemma Delete_left:
  assumes "key < k"
  shows "Delete key (Node ob k c l r) =
     do { pnodeT \<leftarrow> left_ready (Node ob k c l r);
          l \<leftarrow> PnodeLeft pnodeT; (l, deleted) \<leftarrow> Delete key l; pnodeT \<leftarrow> SetLeft l pnodeT;
          pnodeT \<leftarrow> Fixup pnodeT; Some (pnodeT, deleted) }"
  using assms by (subst Delete.simps) simp

text \<open>What a deletion inside the tree gives.\<close>

definition deleted_from :: "'k::linorder \<Rightarrow> ('k, 'o) Node \<Rightarrow> ('k, 'o) Node \<Rightarrow> 'o \<Rightarrow> bool" where
  "deleted_from key t t' ob \<longleftrightarrow> valid t' \<and> bh t' = bh t \<and> (FIsNonNullAndRed t' \<longrightarrow> FIsNonNullAndRed t)
     \<and> items t' = without key (items t) \<and> (key, ob) \<in> set (items t)"

text \<open>The right part, given what the descent into the right child does.\<close>

lemma finish_ok:
  assumes "strong r \<or> leaning key r \<and> k \<noteq> key" "valid l" "bh l = bh r" "increasing (items l @ (k, ob) # items r)"
    and "k \<noteq> key \<Longrightarrow> \<exists>r' ob'. Delete key r = Some (r', ob') \<and> deleted_from key r r' ob'" "k \<le> key"
  shows "\<exists>t' ob'. finish key (Node ob k c l r) = Some (t', ob') \<and> quasi t'
    \<and> items t' = without key (items (Node ob k c l r)) \<and> (key, ob') \<in> set (items (Node ob k c l r))
    \<and> (c = Black \<or> \<not> FIsNonNullAndRed l \<and> \<not> FIsNonNullAndRed r \<longrightarrow> valid t' \<and> bh t' = bh (Node ob k c l r))
    \<and> (c = Black \<and> \<not> FIsNonNullAndRed l \<longrightarrow> \<not> FIsNonNullAndRed t')"
proof -
  note side = key_side [OF assms(4)]
  have "\<exists>ob1 k1 r' ob'. finish key (Node ob k c l r) = do { t' \<leftarrow> Fixup (Node ob1 k1 c l r'); Some (t', ob') }
      \<and> valid r' \<and> bh r' = bh r \<and> (FIsNonNullAndRed r' \<longrightarrow> FIsNonNullAndRed r)
      \<and> items l @ (k1, ob1) # items r' = without key (items (Node ob k c l r)) \<and> (key, ob') \<in> set (items (Node ob k c l r))"
  proof (cases "k = key")
    case True
    then obtain ob1 k1 c' l' r' u where m: "PnodeMin r = Node ob1 k1 c' l' r'" "RemoveMinNode r = Some u" "valid u" "bh u = bh r"
        "FIsNonNullAndRed u \<longrightarrow> FIsNonNullAndRed r" "items r = (k1, ob1) # items u"
      using min_items [of r] assms(1) by metis
    have "without key (items (Node ob k c l r)) = items l @ items r"
      using True side(3,4) by (simp add: without_absent)
    then show ?thesis
      using True m by (intro exI [of _ ob1] exI [of _ k1] exI [of _ u] exI [of _ ob]) (simp add: finish_def)
  next
    case False
    then obtain r' ob' where r': "Delete key r = Some (r', ob')" "deleted_from key r r' ob'"
      using assms(5) by blast
    have "without key (items (Node ob k c l r)) = items l @ (k, ob) # without key (items r)"
      using False side(2) assms(6) by (simp add: without_absent)
    then show ?thesis
      using False r' by (intro exI [of _ ob] exI [of _ k] exI [of _ r'] exI [of _ ob']) (auto simp: finish_def deleted_from_def)
  qed
  then obtain ob1 k1 r' ob' where f: "finish key (Node ob k c l r) = do { t' \<leftarrow> Fixup (Node ob1 k1 c l r'); Some (t', ob') }"
      "valid r'" "bh r' = bh r" "FIsNonNullAndRed r' \<longrightarrow> FIsNonNullAndRed r"
      "items l @ (k1, ob1) # items r' = without key (items (Node ob k c l r))" "(key, ob') \<in> set (items (Node ob k c l r))"
    by blast
  have "\<exists>t'. Fixup (Node ob1 k1 c l r') = Some t' \<and> quasi t' \<and> items t' = items l @ (k1, ob1) # items r'
      \<and> (c = Black \<or> \<not> FIsNonNullAndRed l \<and> \<not> FIsNonNullAndRed r \<longrightarrow> valid t' \<and> bh t' = bh (Node ob k c l r))
      \<and> (c = Black \<and> \<not> FIsNonNullAndRed l \<longrightarrow> \<not> FIsNonNullAndRed t')"
  proof (cases "c = Black \<or> \<not> FIsNonNullAndRed l \<and> \<not> FIsNonNullAndRed r")
    case True
    then have "c = Black \<or> \<not> FIsNonNullAndRed l \<and> \<not> FIsNonNullAndRed r'"
      using f(4) by blast
    with assms(2,3) f(2,3) obtain t' where "Fixup (Node ob1 k1 c l r') = Some t'" "valid t'"
        "bh t' = bh (Node ob1 k1 c l r')" "items t' = items l @ (k1, ob1) # items r'"
        "c = Black \<and> \<not> (FIsNonNullAndRed l \<and> FIsNonNullAndRed r') \<longrightarrow> \<not> FIsNonNullAndRed t'"
      using Fixup_strong [of l r' c ob1 k1] by auto
    then show ?thesis
      by (auto simp: valid_quasi)
  next
    case False
    then show ?thesis
      using Fixup_top [of l r' c ob1 k1] assms(2,3) f(2,3) valid_quasi [OF assms(2)] by auto
  qed
  then obtain t' where "Fixup (Node ob1 k1 c l r') = Some t'" "quasi t'" "items t' = items l @ (k1, ob1) # items r'"
      "c = Black \<or> \<not> FIsNonNullAndRed l \<and> \<not> FIsNonNullAndRed r \<longrightarrow> valid t' \<and> bh t' = bh (Node ob k c l r)"
      "c = Black \<and> \<not> FIsNonNullAndRed l \<longrightarrow> \<not> FIsNonNullAndRed t'"
    by blast
  then show ?thesis
    using f(1,5,6) by (intro exI [of _ t'] exI [of _ ob']) simp
qed

lemma in_left: "increasing (xs @ (k, ob) # ys) \<Longrightarrow> key \<in> fst ` set xs \<Longrightarrow> key < k"
  by (auto simp: sorted_wrt_append)

lemma without_left:
  assumes "increasing (xs @ (k, ob) # ys)" "key \<in> fst ` set xs"
  shows "without key (xs @ (k, ob) # ys) = without key xs @ (k, ob) # ys"
  using in_left [OF assms] key_side(1) [OF assms(1)] without_absent by fastforce

lemma in_right:
  assumes "increasing (xs @ (k, ob) # ys)" "key \<in> fst ` set (xs @ (k, ob) # ys)" "\<not> key < k" "k \<noteq> key"
  shows "key \<in> fst ` set ys"
  using assms(2-4) key_side(2) [OF assms(1), of key] by (auto simp: not_less_iff_gr_or_eq)

lemma in_below:
  assumes "increasing (xs @ (k, ob) # ys)" "key \<in> fst ` set (xs @ (k, ob) # ys)" "key < k"
  shows "key \<in> fst ` set xs"
  using assms key_side(1) [OF assms(1), of key] by auto

lemma leaning_strong: "leaning key (Node ob k c l r) \<Longrightarrow> strong r"
  by (cases r) auto

text \<open>
  A deletion anywhere: at the root the result may have a red left child under a red node, below it
  the black height is kept too. The descents use what holds of all smaller trees.
\<close>

definition deleted_top :: "'k::linorder \<Rightarrow> ('k, 'o) Node \<Rightarrow> ('k, 'o) Node \<Rightarrow> 'o \<Rightarrow> bool" where
  "deleted_top key t t' ob \<longleftrightarrow> quasi t' \<and> items t' = without key (items t) \<and> (key, ob) \<in> set (items t)
     \<and> (strong t \<longrightarrow> deleted_from key t t' ob)"

definition smaller_deletes :: "'k::linorder \<Rightarrow> ('k, 'o) Node \<Rightarrow> bool" where
  "smaller_deletes key t \<longleftrightarrow> (\<forall>s :: ('k, 'o) Node. size s < size t \<longrightarrow> strong s \<or> leaning key s \<longrightarrow> increasing (items s) \<longrightarrow>
     key \<in> fst ` set (items s) \<longrightarrow> (\<exists>s' ob. Delete key s = Some (s', ob) \<and> deleted_from key s s' ob))"

lemma smaller_deletesD:
  fixes s t :: "('k::linorder, 'o) Node"
  shows "smaller_deletes key t \<Longrightarrow> size s < size t \<Longrightarrow> strong s \<or> leaning key s \<Longrightarrow> increasing (items s) \<Longrightarrow>
   key \<in> fst ` set (items s) \<Longrightarrow> \<exists>s' ob. Delete key s = Some (s', ob) \<and> deleted_from key s s' ob"
  unfolding smaller_deletes_def by blast

lemma delete_left_branch:
  assumes "quasi (Node ob k c l r)" "increasing (items l @ (k, ob) # items r)" "key \<in> fst ` set (items l)"
    and "smaller_deletes key (Node ob k c l r)"
  shows "\<exists>t' ob'. Delete key (Node ob k c l r) = Some (t', ob') \<and> deleted_top key (Node ob k c l r) t' ob'"
proof -
  let ?t = "Node ob k c l r"
  have lt: "key < k" and ln: "l \<noteq> Null"
    using in_left [OF assms(2,3)] assms(3) by auto
  obtain ob1 k1 c1 l1 r1 xs where s: "left_ready ?t = Some (Node ob1 k1 c1 l1 r1)"
      "items (Node ob1 k1 c1 l1 r1) = items ?t" "items l1 = items l @ xs" "strong l1" "valid r1" "bh l1 = bh r1"
      "strong ?t \<longrightarrow> bh (Node ob1 k1 c1 l1 r1) = bh ?t \<and> (c1 = Black \<or> \<not> FIsNonNullAndRed l1 \<and> \<not> FIsNonNullAndRed r1)
        \<and> (c = Black \<longrightarrow> c1 = Black \<and> \<not> FIsNonNullAndRed r1)"
    using left_ready_ok [OF assms(1) ln] by blast
  have srt1: "increasing (items l1 @ (k1, ob1) # items r1)" and l1: "key \<in> fst ` set (items l1)"
    using s(2,3) assms(2,3) by auto
  obtain l' ob' where l': "Delete key l1 = Some (l', ob')" "deleted_from key l1 l' ob'"
    using smaller_deletesD [OF assms(4), of l1] size_left_ready [OF s(1)] s(4) key_side(5) [OF srt1] l1 by auto
  have v: "valid l'" "bh l' = bh r1" "FIsNonNullAndRed l' \<longrightarrow> FIsNonNullAndRed l1"
    using l'(2) s(6) by (simp_all add: deleted_from_def)
  obtain t' where t': "Fixup (Node ob1 k1 c1 l' r1) = Some t'" "quasi t'" "items t' = items l' @ (k1, ob1) # items r1"
    using Fixup_top [of l' r1 c1 ob1 k1] v s(5) valid_quasi by metis
  have it: "items t' = without key (items ?t)" "(key, ob') \<in> set (items ?t)"
    using without_left [OF srt1 l1] t'(3) l'(2) unfolding s(2) [symmetric] by (simp_all add: deleted_from_def)
  have "valid t' \<and> bh t' = bh ?t \<and> (FIsNonNullAndRed t' \<longrightarrow> FIsNonNullAndRed ?t)" if "strong ?t"
  proof -
    have c1: "bh (Node ob1 k1 c1 l1 r1) = bh ?t" "c1 = Black \<or> \<not> FIsNonNullAndRed l' \<and> \<not> FIsNonNullAndRed r1"
        "c = Black \<longrightarrow> c1 = Black \<and> \<not> FIsNonNullAndRed r1"
      using s(7) that v(3) by blast+
    from Fixup_strong [OF v(1) s(5) v(2) c1(2), of ob1 k1] obtain u where u: "Fixup (Node ob1 k1 c1 l' r1) = Some u" "valid u"
        "bh u = bh (Node ob1 k1 c1 l' r1)" "c1 = Black \<and> \<not> (FIsNonNullAndRed l' \<and> FIsNonNullAndRed r1) \<longrightarrow> \<not> FIsNonNullAndRed u"
      by blast
    have "t' = u"
      using u(1) t'(1) by simp
    moreover have "bh u = bh ?t"
      using u(3) c1(1) v(2) s(6) unfolding bh.simps by linarith
    moreover have "FIsNonNullAndRed u \<longrightarrow> FIsNonNullAndRed ?t"
      using u(4) c1(3) by (cases c) (simp, blast)
    ultimately show ?thesis
      using u(2) by simp
  qed
  then have "deleted_top key ?t t' ob'"
    unfolding deleted_top_def deleted_from_def using t'(2) it by blast
  moreover have "Delete key ?t = Some (t', ob')"
    using Delete_left [OF lt, of ob c l r] s(1) l'(1) t'(1) by simp
  ultimately show ?thesis
    by blast
qed

lemma delete_rotate_branch:
  assumes "quasi (Node ob k c (Node obl kl Red a b) r)" "increasing (items a @ (kl, obl) # items (Node ob k Red b r))"
    and "key \<in> fst ` set (items (Node ob k Red b r))" "k \<le> key" "smaller_deletes key (Node ob k c (Node obl kl Red a b) r)"
  shows "\<exists>t' ob'. Delete key (Node ob k c (Node obl kl Red a b) r) = Some (t', ob')
    \<and> deleted_top key (Node ob k c (Node obl kl Red a b) r) t' ob'"
proof -
  let ?r = "Node ob k Red b r"
  have c: "valid a" "valid b" "valid r" "\<not> FIsNonNullAndRed a" "\<not> FIsNonNullAndRed b" "\<not> FIsNonNullAndRed r"
      "bh a = bh b" "bh b = bh r"
    using assms(1) by auto
  have kl: "kl < k"
    using assms(2) by (simp add: sorted_wrt_append)
  have IH: "\<exists>r' ob'. Delete key ?r = Some (r', ob') \<and> deleted_from key ?r r' ob'"
    using smaller_deletesD [OF assms(5), of ?r] c key_side(6) [OF assms(2)] assms(3) by simp
  have "Delete key (Node ob k c (Node obl kl Red a b) r) = finish key (Node obl kl c a ?r)"
    using Delete_right [of key k "Node obl kl Red a b" ob c r obl kl c a ?r] assms(4) kl
    by (auto simp: rotate_simps right_ready_def)
  moreover obtain t' ob' where "finish key (Node obl kl c a ?r) = Some (t', ob')" "quasi t'"
      "items t' = without key (items (Node obl kl c a ?r))" "(key, ob') \<in> set (items (Node obl kl c a ?r))"
      "c = Black \<longrightarrow> valid t' \<and> bh t' = bh (Node obl kl c a ?r) \<and> \<not> FIsNonNullAndRed t'"
  proof -
    have p: "strong ?r \<or> leaning key ?r \<and> kl \<noteq> key" "bh a = bh ?r" "kl \<le> key"
      using c assms(4) kl by auto
    show ?thesis
      using finish_ok [OF p(1) c(1) p(2) assms(2) IH p(3), of c] c(4) that by blast
  qed
  ultimately show ?thesis
    by (simp add: deleted_top_def deleted_from_def)
qed

lemma delete_right_branch:
  assumes "quasi (Node ob k c l r)" "\<not> FIsNonNullAndRed l" "increasing (items l @ (k, ob) # items r)" "k \<le> key"
    and "k \<noteq> key \<longrightarrow> key \<in> fst ` set (items r)" "smaller_deletes key (Node ob k c l r)"
  shows "\<exists>t' ob'. Delete key (Node ob k c l r) = Some (t', ob') \<and> deleted_top key (Node ob k c l r) t' ob'"
proof (cases "r = Null")
  case True
  then have "k = key" "l = Null"
    using assms(1,2,5) black_bh_eq [of l r] by auto
  moreover have "Delete key (Node ob key c Null Null) = Some (Null, ob)"
    by (subst Delete.simps) simp
  ultimately show ?thesis
    using True by (auto simp: deleted_top_def deleted_from_def)
next
  case False
  let ?t = "Node ob k c l r"
  obtain ob1 k1 c1 l1 r1 where s: "right_ready ?t = Some (Node ob1 k1 c1 l1 r1)"
      "items (Node ob1 k1 c1 l1 r1) = items ?t" "valid l1" "bh l1 = bh r1"
      "strong r1 \<and> ob1 = ob \<and> k1 = k \<and> items r1 = items r
       \<or> leaning key r1 \<and> (k1, ob1) \<in> set (items l) \<and> (\<exists>xs. items r1 = xs @ (k, ob) # items r)"
      "strong ?t \<longrightarrow> bh (Node ob1 k1 c1 l1 r1) = bh ?t \<and> (c1 = Black \<or> \<not> FIsNonNullAndRed l1 \<and> \<not> FIsNonNullAndRed r1)"
    using right_ready_ok [OF assms(1,2) False assms(4)] by blast
  have srt1: "increasing (items l1 @ (k1, ob1) # items r1)"
    using s(2) assms(3) by simp
  have k1: "strong r1 \<or> leaning key r1 \<and> k1 \<noteq> key" "k1 \<le> key"
    using s(5) in_left [OF assms(3), of k1] assms(4) by force+
  have mem1: "key \<in> fst ` set (items r1)" if "k1 \<noteq> key"
    using s(5) assms(5) that by force
  have IH: "\<exists>r' ob'. Delete key r1 = Some (r', ob') \<and> deleted_from key r1 r' ob'" if "k1 \<noteq> key"
    using smaller_deletesD [OF assms(6), of r1] size_right_ready [OF s(1)] k1(1) key_side(6) [OF srt1] mem1 [OF that] by auto
  have c: "c = Red" if "strong ?t"
    using that assms(2) by simp
  have "Delete key ?t = finish key (Node ob1 k1 c1 l1 r1)"
    using Delete_right [of key k l ob c r ob k c l r] assms(2,4) False s(1) by simp
  moreover obtain t' ob' where t': "finish key (Node ob1 k1 c1 l1 r1) = Some (t', ob')" "quasi t'"
      "items t' = without key (items ?t)" "(key, ob') \<in> set (items ?t)"
      "c1 = Black \<or> \<not> FIsNonNullAndRed l1 \<and> \<not> FIsNonNullAndRed r1 \<longrightarrow> valid t' \<and> bh t' = bh (Node ob1 k1 c1 l1 r1)"
    using finish_ok [OF k1(1) s(3,4) srt1 IH k1(2), of c1] unfolding s(2) by blast
  moreover have "deleted_from key ?t t' ob'" if "strong ?t"
    using s(6) [rule_format, OF that] c [OF that] t'(3-5) by (simp add: deleted_from_def)
  ultimately show ?thesis
    by (auto simp only: deleted_top_def)
qed

lemma Delete_step:
  assumes "quasi t" "increasing (items t)" "key \<in> fst ` set (items t)" "smaller_deletes key t"
  shows "\<exists>t' ob'. Delete key t = Some (t', ob') \<and> deleted_top key t t' ob'"
proof -
  obtain ob k c l r where t: "t = Node ob k c l r"
    using assms(3) by (cases t) auto
  have srt: "increasing (items l @ (k, ob) # items r)" and mem: "key \<in> fst ` set (items l @ (k, ob) # items r)"
    using assms(2,3) t by simp_all
  show ?thesis
  proof (cases "key < k")
    case True
    then show ?thesis
      using delete_left_branch [of ob k c l r key] in_below [OF srt mem] assms t srt by simp
  next
    case False
    then have r: "k \<noteq> key \<longrightarrow> key \<in> fst ` set (items r)" "k \<le> key"
      using in_right [OF srt mem] by auto
    show ?thesis
    proof (cases "FIsNonNullAndRed l")
      case True
      then obtain obl kl a b where l: "l = Node obl kl Red a b"
        by (rule red_cases)
      have "key \<in> fst ` set (items (Node ob k Red b r))"
        using r(1) by auto
      then show ?thesis
        using delete_rotate_branch [of ob k c obl kl a b r key] assms t l srt r(2) by simp
    next
      case nl: False
      then show ?thesis
        using delete_right_branch [of ob k c l r key] assms t srt r by simp
    qed
  qed
qed

lemma Delete_leaning:
  assumes "leaning key (Node ob k c l r)" "increasing (items l @ (k, ob) # items r)"
    and "key \<in> fst ` set (items l @ (k, ob) # items r)" "smaller_deletes key (Node ob k c l r)"
  shows "\<exists>t' ob'. Delete key (Node ob k c l r) = Some (t', ob') \<and> deleted_from key (Node ob k c l r) t' ob'"
proof -
  have lr: "valid l" "bh l = bh r" "c = Black" "\<not> FIsNonNullAndRed l" "FIsNonNullAndRed r" "r \<noteq> Null" "k \<le> key" "\<not> key < k"
    using assms(1) by auto
  have sr: "strong r"
    using leaning_strong [OF assms(1)] .
  have IH: "\<exists>r' ob'. Delete key r = Some (r', ob') \<and> deleted_from key r r' ob'" if "k \<noteq> key"
    using smaller_deletesD [OF assms(4), of r] sr key_side(6) [OF assms(2)] in_right [OF assms(2,3) lr(8) that] by simp
  have "Delete key (Node ob k c l r) = finish key (Node ob k c l r)"
    using Delete_right [OF lr(8), of l ob c r ob k c l r] lr by (auto simp: right_ready_def)
  then show ?thesis
    using finish_ok [of r key k l ob c] sr lr IH assms(2) by (auto simp: deleted_from_def)
qed

lemma Delete_inside:
  "strong t \<or> leaning key t \<Longrightarrow> increasing (items t) \<Longrightarrow> key \<in> fst ` set (items t) \<Longrightarrow>
   \<exists>t' ob. Delete key t = Some (t', ob) \<and> deleted_from key t t' ob"
proof (induction "size t" arbitrary: t rule: less_induct)
  case less
  then have IH: "smaller_deletes key t"
    by (simp add: smaller_deletes_def)
  obtain ob k c l r where t: "t = Node ob k c l r"
    using less.prems(1) by (cases t) auto
  show ?case
  proof (cases "strong t")
    case True
    then have "quasi t"
      using t by simp
    then show ?thesis
      using Delete_step [OF _ less.prems(2,3) IH] True by (auto simp: deleted_top_def)
  next
    case False
    then show ?thesis
      using Delete_leaning [of key ob k c l r] less.prems IH t by auto
  qed
qed

lemma Delete_top:
  assumes "quasi t" "increasing (items t)" "key \<in> fst ` set (items t)"
  shows "\<exists>t' ob. Delete key t = Some (t', ob) \<and> quasi t' \<and> items t' = without key (items t) \<and> (key, ob) \<in> set (items t)"
proof -
  have "smaller_deletes key t"
    unfolding smaller_deletes_def using Delete_inside by blast
  from Delete_step [OF assms this] show ?thesis
    by (auto simp: deleted_top_def)
qed

end
