(* ===== verification/Red_Black_Map.thy ===== *)
theory Red_Black_Map
  imports Red_Black_Props
begin

text \<open>
  The red-black tree as a map. The interface \<open>object_map\<close> states what insertion and deletion promise
  about the contents; \<open>InvasiveRedBlackTree\<close> satisfies it, and histories, \<open>ErrMerge\<close> and
  \<open>CRedBlackTree\<close> are proved correct from its laws. The searches are related to the
  ordered list of entries, and the height is bounded.
\<close>

section \<open>Searches\<close>

lemma Find_items:
  "increasing (items t) \<Longrightarrow> (case Find key t of Null \<Rightarrow> key \<notin> fst ` set (items t) | Node ob k c l r \<Rightarrow> k = key \<and> (key, ob) \<in> set (items t))"
proof (induction t)
  case (Node ob k c l r)
  have srt: "increasing (items l @ (k, ob) # items r)"
    using Node.prems by simp
  show ?case
    using Node.IH key_side [OF srt] key_side(1,2) [OF srt, of key]
    by (cases key k rule: linorder_cases) (auto split: Node.splits)
qed simp

lemma map_of_items:
  assumes "increasing xs" "(k, ob) \<in> set xs"
  shows "map_of xs k = Some ob"
  using assms by (intro map_of_is_SomeI) (simp_all add: strict_sorted_iff)

lemma FContainsKey_items: "increasing (items t) \<Longrightarrow> FContainsKey key t \<longleftrightarrow> key \<in> fst ` set (items t)"
  using Find_items [of t key] by (force simp: FContainsKey_def split: Node.splits)

lemma ErrFind_items:
  assumes "increasing (items t)"
  shows "ErrFind key t = (case map_of (items t) key of
     None \<Rightarrow> (RB_errEntryNotFound, None) | Some ob \<Rightarrow> (RB_errSuccess, Some ob))"
proof (cases "Find key t")
  case Null
  then have "map_of (items t) key = None"
    using Find_items [OF assms, of key] by (simp add: map_of_eq_None_iff)
  then show ?thesis
    using Null by (simp add: ErrFind_def)
next
  case (Node ob k c l r)
  then have "map_of (items t) key = Some ob"
    using Find_items [OF assms, of key] map_of_items [OF assms] by simp
  then show ?thesis
    using Node by (simp add: ErrFind_def)
qed

lemma found_Node [simp]: "found Null = None" "found (Node ob k c l r) = Some (k, ob)"
  by (simp_all add: found_def)

lemma at_least_items:
  "increasing (items t) \<Longrightarrow> found (at_least key m t) =
     (case filter (\<lambda>p. key \<le> fst p) (items t) of [] \<Rightarrow> found m | p # _ \<Rightarrow> Some p)"
proof (induction t arbitrary: m)
  case (Node ob k c l r)
  have srt: "increasing (items l @ (k, ob) # items r)"
    using Node.prems by simp
  have low: "fst p < k" if "p \<in> set (items l)" for p
    using srt that by (auto simp: sorted_wrt_append)
  consider "key = k" | "key < k" | "k < key"
    by fastforce
  then show ?case
  proof cases
    case 1
    have "filter (\<lambda>p. key \<le> fst p) (items l) = []"
      using low 1 by (force simp: filter_empty_conv)
    then show ?thesis
      using 1 by (simp add: found_def)
  next
    case 2
    then show ?thesis
      using Node.IH(1) [OF key_side(5) [OF srt]]
      by (cases "filter (\<lambda>p. key \<le> fst p) (items l)") (simp_all add: less_imp_le less_imp_neq)
  next
    case 3
    have "filter (\<lambda>p. key \<le> fst p) (items l) = []"
      using low 3 by (force simp: filter_empty_conv)
    moreover have "\<not> key < k" "key \<noteq> k" "\<not> key \<le> k"
      using 3 by auto
    ultimately show ?thesis
      using Node.IH(2) [OF key_side(6) [OF srt]] by simp
  qed
qed simp

lemma ErrFindGE_items:
  assumes "increasing (items t)"
  shows "ErrFindGreaterThanOrEqual key t = (case filter (\<lambda>p. key \<le> fst p) (items t) of
     [] \<Rightarrow> (RB_errEntryNotFound, None) | p # _ \<Rightarrow> (RB_errSuccess, Some p))"
proof -
  have "at_least key Null t = Null \<longleftrightarrow> found (at_least key Null t) = None"
    by (cases "at_least key Null t") (simp_all add: found_def)
  then show ?thesis
    using at_least_items [OF assms, of key Null] by (auto simp: ErrFindGreaterThanOrEqual_def found_def split: list.splits)
qed

text \<open>An entry next to a key: nothing lies between them.\<close>

definition adjacent :: "'k::linorder \<Rightarrow> 'k \<times> 'o \<Rightarrow> ('k \<times> 'o) list \<Rightarrow> bool" where
  "adjacent key p xs \<longleftrightarrow> p \<in> set xs \<and> (\<forall>q \<in> set xs. \<not> (fst p < fst q \<and> fst q \<le> key) \<and> \<not> (key \<le> fst q \<and> fst q < fst p))"

lemma adjacent_left:
  assumes "increasing (xs @ (k, ob) # ys)" "adjacent key p xs" "key < k"
  shows "adjacent key p (xs @ (k, ob) # ys)"
proof -
  have "fst p < k"
    using in_left [OF assms(1), of "fst p"] assms(2) by (simp add: adjacent_def)
  moreover have "k < fst q" if "q \<in> set ys" for q
    using assms(1) that by (auto simp: sorted_wrt_append)
  ultimately show ?thesis
    using assms(2,3) by (auto simp: adjacent_def) (meson less_asym less_trans not_less)+
qed

lemma adjacent_right:
  assumes "increasing (xs @ (k, ob) # ys)" "adjacent key p ys" "k < key"
  shows "adjacent key p (xs @ (k, ob) # ys)"
proof -
  have "k < fst p"
    using assms(1,2) by (auto simp: sorted_wrt_append adjacent_def)
  moreover have "fst q < k" if "q \<in> set xs" for q
    using assms(1) that by (auto simp: sorted_wrt_append)
  ultimately show ?thesis
    using assms(2,3) by (auto simp: adjacent_def) (meson less_asym less_trans not_less)+
qed

lemma adjacent_self:
  assumes "increasing (xs @ (k, ob) # ys)" "key < k \<Longrightarrow> xs = []" "k < key \<Longrightarrow> ys = []"
  shows "adjacent key (k, ob) (xs @ (k, ob) # ys)"
proof -
  have "\<not> (k < fst q \<and> fst q \<le> key) \<and> \<not> (key \<le> fst q \<and> fst q < k)" if "q \<in> set (xs @ (k, ob) # ys)" for q
  proof (cases "fst q" k rule: linorder_cases)
    case less
    then have "q \<in> set xs"
      using that key_side(1) [OF assms(1), of "fst q"] by auto
    then show ?thesis
      using less assms(2) le_less_trans [of key "fst q" k] by auto
  next
    case greater
    then have "q \<in> set ys"
      using that key_side(2) [OF assms(1), of "fst q"] by auto
    then show ?thesis
      using greater assms(3) less_le_trans [of k "fst q" key] by auto
  qed simp
  then show ?thesis
    by (simp add: adjacent_def)
qed

lemma nearest_items:
  "increasing (items t) \<Longrightarrow> t \<noteq> Null \<Longrightarrow> \<exists>p. found (nearest key t) = Some p \<and> adjacent key p (items t)"
proof (induction t)
  case (Node ob k c l r)
  have srt: "increasing (items l @ (k, ob) # items r)"
    using Node.prems by simp
  consider "key < k \<longrightarrow> l = Null" "k < key \<longrightarrow> r = Null" | "key < k" "l \<noteq> Null" | "k < key" "r \<noteq> Null"
    by blast
  then show ?case
  proof cases
    case 1
    then have "nearest key (Node ob k c l r) = Node ob k c l r"
      by (cases key k rule: linorder_cases) auto
    then show ?thesis
      using adjacent_self [OF srt, of key] 1 by simp
  next
    case 2
    then show ?thesis
      using Node.IH(1) [OF key_side(5) [OF srt]] adjacent_left [OF srt, of key] by auto
  next
    case 3
    then show ?thesis
      using Node.IH(2) [OF key_side(6) [OF srt]] adjacent_right [OF srt, of key] by auto
  qed
qed simp

section \<open>The tree as a map\<close>

definition rbt_inv :: "('k::linorder, 'o) Node \<Rightarrow> bool" where
  "rbt_inv t \<longleftrightarrow> quasi t \<and> increasing (items t)"

definition lookup :: "('k, 'o) Node \<Rightarrow> 'k \<rightharpoonup> 'o" where
  "lookup t = map_of (items t)"

lemma lookup_None: "lookup t key = None \<longleftrightarrow> key \<notin> fst ` set (items t)"
  by (simp add: lookup_def map_of_eq_None_iff)

lemma lookup_Some: "rbt_inv t \<Longrightarrow> (key, ob) \<in> set (items t) \<Longrightarrow> lookup t key = Some ob"
  by (simp add: rbt_inv_def lookup_def map_of_items)

lemma increasing_distinct: "increasing xs \<Longrightarrow> distinct (map fst xs)"
  by (simp add: strict_sorted_iff)

lemma map_of_inserted:
  assumes "increasing xs" "key \<notin> fst ` set xs"
  shows "map_of (inserted key ob xs) = (map_of xs)(key \<mapsto> ob)"
proof -
  have "map_of (inserted key ob xs) = map_of ((key, ob) # xs)"
    using assms increasing_distinct [OF increasing_inserted [OF assms(1), of key ob]] increasing_distinct [OF assms(1)]
    by (subst map_of_inject_set) (simp_all add: set_inserted)
  then show ?thesis
    by simp
qed

lemma map_of_without: "map_of (without key xs) = (map_of xs)(key := None)"
  by (induction xs) (auto simp: fun_eq_iff)

text \<open>
  The interface of a map of objects: insertion refuses a key that is present, deletion hands the
  object back. A client of the tree relies on these laws only.
\<close>

datatype ('k, 'o) map_op = Ins 'k 'o | Del 'k

fun map_run :: "('k, 'o) map_op list \<Rightarrow> ('k \<rightharpoonup> 'o) \<Rightarrow> (RBT_ERR \<times> 'o option) list \<times> ('k \<rightharpoonup> 'o)" where
  "map_run [] m = ([], m)"
| "map_run (Ins k ob # ops) m =
     (if m k = None then apfst ((#) (RB_errSuccess, None)) (map_run ops (m(k \<mapsto> ob)))
      else apfst ((#) (RB_errDuplicateEntry, None)) (map_run ops m))"
| "map_run (Del k # ops) m =
     apfst ((#) (if m k = None then RB_errEntryNotFound else RB_errSuccess, m k)) (map_run ops (m(k := None)))"

fun tree_run ::
  "('k \<Rightarrow> 'o \<Rightarrow> 't \<Rightarrow> ('t \<times> RBT_ERR) option) \<Rightarrow> ('k \<Rightarrow> 't \<Rightarrow> ('t \<times> RBT_ERR \<times> 'o option) option)
     \<Rightarrow> ('k, 'o) map_op list \<Rightarrow> 't \<Rightarrow> ((RBT_ERR \<times> 'o option) list \<times> 't) option" where
  "tree_run ins del [] t = Some ([], t)"
| "tree_run ins del (Ins k ob # ops) t =
     do { (t, err) \<leftarrow> ins k ob t; (rs, t) \<leftarrow> tree_run ins del ops t; Some ((err, None) # rs, t) }"
| "tree_run ins del (Del k # ops) t =
     do { (t, err, ob) \<leftarrow> del k t; (rs, t) \<leftarrow> tree_run ins del ops t; Some ((err, ob) # rs, t) }"

locale object_map =
  fixes inv :: "'t \<Rightarrow> bool" and contents :: "'t \<Rightarrow> 'k \<rightharpoonup> 'o"
    and ins :: "'k \<Rightarrow> 'o \<Rightarrow> 't \<Rightarrow> ('t \<times> RBT_ERR) option"
    and del :: "'k \<Rightarrow> 't \<Rightarrow> ('t \<times> RBT_ERR \<times> 'o option) option"
  assumes ins_law: "inv t \<Longrightarrow> \<exists>t'. ins k ob t = Some (t', if contents t k = None then RB_errSuccess else RB_errDuplicateEntry)
      \<and> inv t' \<and> contents t' = (if contents t k = None then (contents t)(k \<mapsto> ob) else contents t)"
    and del_law: "inv t \<Longrightarrow> \<exists>t'. del k t = Some (t', if contents t k = None then RB_errEntryNotFound else RB_errSuccess, contents t k)
      \<and> inv t' \<and> contents t' = (contents t)(k := None)"
begin

lemma run_refines:
  "inv t \<Longrightarrow> \<exists>t'. tree_run ins del ops t = Some (fst (map_run ops (contents t)), t')
    \<and> inv t' \<and> contents t' = snd (map_run ops (contents t))"
proof (induction ops arbitrary: t)
  case (Cons op ops)
  show ?case
  proof (cases op)
    case (Ins k ob)
    obtain t1 where t1: "ins k ob t = Some (t1, if contents t k = None then RB_errSuccess else RB_errDuplicateEntry)"
        "inv t1" "contents t1 = (if contents t k = None then (contents t)(k \<mapsto> ob) else contents t)"
      using ins_law [OF Cons.prems] by blast
    then show ?thesis
      using Cons.IH [OF t1(2)] Ins by (auto simp del: fun_upd_apply)
  next
    case (Del k)
    obtain t1 where t1: "del k t = Some (t1, if contents t k = None then RB_errEntryNotFound else RB_errSuccess, contents t k)"
        "inv t1" "contents t1 = (contents t)(k := None)"
      using del_law [OF Cons.prems] by blast
    then show ?thesis
      using Cons.IH [OF t1(2)] Del by (auto simp del: fun_upd_apply)
  qed
qed simp

end

lemma ErrInsert_law:
  assumes "rbt_inv t"
  shows "\<exists>t'. ErrInsert k ob t = Some (t', if lookup t k = None then RB_errSuccess else RB_errDuplicateEntry)
      \<and> rbt_inv t' \<and> lookup t' = (if lookup t k = None then (lookup t)(k \<mapsto> ob) else lookup t)"
  using insert_top [of t k ob] assms increasing_inserted [of "items t" k ob] map_of_inserted [of "items t" k ob]
  by (cases "k \<in> fst ` set (items t)") (auto simp: rbt_inv_def lookup_None, auto simp: lookup_def)

lemma ErrDelete_law:
  assumes "rbt_inv t"
  shows "\<exists>t'. ErrDelete k t = Some (t', if lookup t k = None then RB_errEntryNotFound else RB_errSuccess, lookup t k)
      \<and> rbt_inv t' \<and> lookup t' = (lookup t)(k := None)"
proof (cases "k \<in> fst ` set (items t)")
  case True
  then obtain t' ob where t': "Delete k t = Some (t', ob)" "quasi t'" "items t' = without k (items t)" "(k, ob) \<in> set (items t)"
    using Delete_top [of t k] assms by (auto simp: rbt_inv_def)
  have "rbt_inv t'" "lookup t' = (lookup t)(k := None)"
    using t'(2,3) assms increasing_without [of "items t" k] by (simp_all add: rbt_inv_def lookup_def map_of_without)
  then show ?thesis
    using t'(1) lookup_Some [OF assms t'(4)] True FContainsKey_items [of t k] assms by (simp add: ErrDelete_def rbt_inv_def)
next
  case False
  then have "lookup t k = None"
    by (simp add: lookup_None)
  then show ?thesis
    using False FContainsKey_items [of t k] assms by (simp add: ErrDelete_def rbt_inv_def fun_upd_idem)
qed

interpretation rbt: object_map rbt_inv lookup ErrInsert ErrDelete
  by unfold_locales (rule ErrInsert_law ErrDelete_law; assumption)+

lemma rbt_inv_Null [simp]: "rbt_inv Null" "lookup Null = Map.empty"
  by (simp_all add: rbt_inv_def lookup_def)

section \<open>Height and validity\<close>

primrec height :: "('k, 'o) Node \<Rightarrow> nat" where
  "height Null = 0"
| "height (Node ob k c l r) = Suc (max (height l) (height r))"

lemma height_valid: "valid t \<Longrightarrow> height t \<le> 2 * bh t + (if FIsNonNullAndRed t then 1 else 0)"
  by (induction t) (auto split: if_splits)

lemma bh_size: "valid t \<Longrightarrow> 2 ^ bh t \<le> size t + 1"
  by (induction t) (auto split: if_splits)

lemma height_quasi:
  assumes "quasi t"
  shows "2 ^ height t \<le> 4 * (size t + 1)\<^sup>2"
proof -
  have h: "height t \<le> 2 * bh t + 2" "2 ^ bh t \<le> size t + 1"
  proof (atomize (full), cases t)
    case (Node ob k c l r)
    then show "height t \<le> 2 * bh t + 2 \<and> 2 ^ bh t \<le> size t + 1"
      using assms height_valid [of l] height_valid [of r] bh_size [of l] bh_size [of r] by (cases c) (auto split: if_splits)
  qed simp
  have "(2::nat) ^ height t \<le> 2 ^ (2 * bh t + 2)"
    using h(1) by (intro power_increasing) simp_all
  also have "\<dots> = 4 * (2 ^ bh t)\<^sup>2"
    by (simp add: power_add power_mult power2_eq_square power_mult_distrib mult_2)
  also have "\<dots> \<le> 4 * (size t + 1)\<^sup>2"
    using h(2) by (simp add: power_mono)
  finally show ?thesis .
qed

lemma AssertValid_child:
  assumes "increasing (items l @ (k, ob) # items r)" "distinct (map snd (items l @ (k, ob) # items r))"
  shows "l = Node obl kl cl ll lr \<Longrightarrow> kl < k \<and> ob \<noteq> obl" "r = Node obr kr cr rl rr \<Longrightarrow> k < kr \<and> ob \<noteq> obr"
  using assms by (auto simp: sorted_wrt_append)

lemma AssertValid_quasi:
  "quasi t \<Longrightarrow> increasing (items t) \<Longrightarrow> distinct (map snd (items t)) \<Longrightarrow> AssertValid t"
proof (induction t)
  case (Node ob k c l r)
  have d: "increasing (items l @ (k, ob) # items r)" "distinct (map snd (items l @ (k, ob) # items r))"
    using Node.prems(2,3) by simp_all
  have "AssertValid l" "AssertValid r"
    using Node.IH valid_quasi [of l] valid_quasi [of r] Node.prems key_side(5,6) [OF d(1)] by auto
  moreover have "Color r \<noteq> Some Red"
    using Node.prems(1) by (simp add: FIsNonNullAndRed_def)
  ultimately show ?case
    using AssertValid_child [OF d] by (cases l; cases r) auto
qed simp

section \<open>Merging\<close>

lemma merge_loop_correct:
  "rbt_inv this \<Longrightarrow> rbt_inv src \<Longrightarrow> rbt_inv left \<Longrightarrow> dom (lookup left) \<inter> dom (lookup src) = {} \<Longrightarrow>
   \<exists>this' left'. merge_loop this src left = Some (this', left') \<and> rbt_inv this' \<and> rbt_inv left'
     \<and> lookup this' = lookup src ++ lookup this \<and> lookup left' = lookup left ++ (lookup src |` dom (lookup this))"
proof (induction this src left rule: merge_loop.induct)
  case (1 this left)
  then show ?case
    by simp
next
  case (2 this ob k c l r left)
  let ?src = "Node ob k c l r"
  have sk: "lookup ?src k = Some ob"
    using lookup_Some [OF "2.prems"(2), of k ob] by simp
  then have lk: "lookup left k = None"
    using "2.prems"(4) by blast
  obtain src' where src': "ErrDelete k ?src = Some (src', RB_errSuccess, Some ob)" "rbt_inv src'" "lookup src' = (lookup ?src)(k := None)"
    using ErrDelete_law [OF "2.prems"(2), of k] sk by auto
  obtain this' where this': "ErrInsert k ob this = Some (this', if lookup this k = None then RB_errSuccess else RB_errDuplicateEntry)"
      "rbt_inv this'" "lookup this' = (if lookup this k = None then (lookup this)(k \<mapsto> ob) else lookup this)"
    using ErrInsert_law [OF "2.prems"(1), of k ob] by blast
  obtain left' where left': "ErrInsert k ob left = Some (left', RB_errSuccess)" "rbt_inv left'" "lookup left' = (lookup left)(k \<mapsto> ob)"
    using ErrInsert_law [OF "2.prems"(3), of k ob] lk by auto
  have this_map: "lookup src' ++ lookup this' = lookup ?src ++ lookup this"
    using sk by (auto simp: src'(3) this'(3) map_add_def fun_eq_iff split: option.splits)
  show ?case
  proof (cases "lookup this k = None")
    case True
    have "dom (lookup left) \<inter> dom (lookup src') = {}"
      using "2.prems"(4) by (auto simp: src'(3))
    moreover have "lookup left ++ (lookup src' |` dom (lookup this')) = lookup left ++ (lookup ?src |` dom (lookup this))"
      using True by (auto simp: src'(3) this'(3) map_add_def restrict_map_def fun_eq_iff)
    ultimately show ?thesis
      using "2.IH"(2) [OF src'(1) refl refl this'(1) refl] True this'(1,2) src'(1,2) "2.prems"(3) this_map by simp
  next
    case False
    have "dom (lookup left') \<inter> dom (lookup src') = {}"
      using "2.prems"(4) by (auto simp: src'(3) left'(3))
    moreover have "lookup left' ++ (lookup src' |` dom (lookup this')) = lookup left ++ (lookup ?src |` dom (lookup this))"
      using False sk lk by (auto simp: src'(3) this'(3) left'(3) map_add_def restrict_map_def fun_eq_iff split: option.splits)
    ultimately show ?thesis
      using "2.IH"(1) [OF src'(1) refl refl this'(1) refl _ left'(1) refl] False this'(1,2) src'(1,2) left'(1,2) this_map by auto
  qed
qed

lemma lookup_empty: "lookup t = Map.empty \<longleftrightarrow> t = Null"
  by (cases t) (auto simp: lookup_def fun_eq_iff map_of_eq_None_iff)

section \<open>\<open>CRedBlackTree\<close>\<close>

text \<open>The nodes of the tree are exactly the allocated ones, each once.\<close>

definition owns :: "('k::linorder, 'd) CRedBlackTree \<Rightarrow> bool" where
  "owns t \<longleftrightarrow> rbt_inv (m_irbtBase t) \<and> distinct (map snd (items (m_irbtBase t)))
     \<and> dom (m_data t) = snd ` set (items (m_irbtBase t))"

definition data_of :: "('k, 'd) CRedBlackTree \<Rightarrow> 'k \<rightharpoonup> 'd" where
  "data_of t k = do { a \<leftarrow> lookup (m_irbtBase t) k; m_data t a }"

lemma lookup_in: "lookup t k = Some ob \<Longrightarrow> (k, ob) \<in> set (items t)"
  by (simp add: lookup_def map_of_SomeD)

lemma owns_data:
  assumes "owns t" "lookup (m_irbtBase t) k = Some a"
  shows "\<exists>d. m_data t a = Some d"
proof -
  have "a \<in> snd ` set (items (m_irbtBase t))"
    using lookup_in [OF assms(2)] by force
  then have "a \<in> dom (m_data t)"
    using assms(1) by (simp add: owns_def)
  then show ?thesis
    by auto
qed

text \<open>Two keys never share a node.\<close>

lemma owns_inj:
  assumes "owns t" "lookup (m_irbtBase t) k = Some a" "lookup (m_irbtBase t) k' = Some a"
  shows "k = k'"
proof -
  have "inj_on snd (set (items (m_irbtBase t)))"
    using assms(1) by (simp add: owns_def distinct_map)
  from inj_onD [OF this, of "(k, a)" "(k', a)"] show ?thesis
    using lookup_in [OF assms(2)] lookup_in [OF assms(3)] by simp
qed

lemma items_inserted:
  assumes "rbt_inv t" "lookup t k = None"
  obtains t' where "ErrInsert k ob t = Some (t', RB_errSuccess)" "rbt_inv t'" "items t' = inserted k ob (items t)"
    "lookup t' = (lookup t)(k \<mapsto> ob)"
  using insert_top [of t k ob] assms increasing_inserted [of "items t" k ob] map_of_inserted [of "items t" k ob]
  by (auto simp: rbt_inv_def lookup_None) (auto simp: lookup_def)

lemma insert_present:
  assumes "rbt_inv t" "lookup t k \<noteq> None"
  shows "ErrInsert k ob t = Some (t, RB_errDuplicateEntry)"
  using insert_top [of t k ob] assms by (auto simp: rbt_inv_def lookup_None)

lemma distinct_inserted:
  assumes "distinct (map snd xs)" "ob \<notin> snd ` set xs" "key \<notin> fst ` set xs" "increasing xs"
  shows "distinct (map snd (inserted key ob xs))"
proof -
  have "distinct (map fst (inserted key ob xs))"
    using increasing_distinct [OF increasing_inserted [OF assms(4)]] .
  then have "distinct (inserted key ob xs)"
    using distinct_map by blast
  moreover have "inj_on snd (insert (key, ob) (set xs))"
    using assms(1,2) by (auto simp: distinct_map inj_on_insert)
  ultimately show ?thesis
    by (simp add: distinct_map set_inserted [OF assms(3)])
qed

lemma RBT_ErrInsert_ok:
  assumes "owns t" "m_data t a = None"
  shows "\<exists>t'. RBT_ErrInsert (Some a) k d t = Some (t', if data_of t k = None then RB_errSuccess else RB_errDuplicateEntry)
    \<and> owns t' \<and> data_of t' = (if data_of t k = None then (data_of t)(k \<mapsto> d) else data_of t)"
proof (cases "lookup (m_irbtBase t) k")
  case None
  then have dk: "data_of t k = None" and inv: "rbt_inv (m_irbtBase t)" and a: "a \<notin> snd ` set (items (m_irbtBase t))"
    using assms by (auto simp: data_of_def owns_def)
  obtain b where b: "ErrInsert k a (m_irbtBase t) = Some (b, RB_errSuccess)" "rbt_inv b" "items b = inserted k a (items (m_irbtBase t))"
      "lookup b = (lookup (m_irbtBase t))(k \<mapsto> a)"
    using items_inserted [OF inv None] by blast
  let ?t = "t\<lparr>m_data := (m_data t)(a \<mapsto> d), m_irbtBase := b\<rparr>"
  have k: "k \<notin> fst ` set (items (m_irbtBase t))"
    using None by (simp add: lookup_None)
  have "owns ?t"
    using assms(1) b(2,3) distinct_inserted [OF _ a k] set_inserted [OF k, of a]
    by (auto simp: owns_def rbt_inv_def)
  moreover have "data_of ?t x = ((data_of t)(k \<mapsto> d)) x" for x
  proof (cases "x = k")
    case False
    have "lookup (m_irbtBase t) x \<noteq> Some a"
      using lookup_in [of "m_irbtBase t" x a] a by (force simp: image_iff)
    then show ?thesis
      using False by (cases "lookup (m_irbtBase t) x") (auto simp: data_of_def b(4))
  qed (simp add: data_of_def b(4))
  ultimately show ?thesis
    using b(1) dk by (auto simp: RBT_ErrInsert_def PnodeAlloc_def fun_eq_iff)
next
  case (Some a')
  then have dk: "data_of t k \<noteq> None" and inv: "rbt_inv (m_irbtBase t)"
    using assms(1) owns_data [OF assms(1) Some] by (auto simp: data_of_def owns_def)
  have "RBT_ErrInsert (Some a) k d t = Some (t, RB_errDuplicateEntry)"
    using insert_present [OF inv, of k a] Some assms(2) by (simp add: RBT_ErrInsert_def PnodeAlloc_def RBT_Free_def fun_upd_idem)
  then show ?thesis
    using dk assms(1) by auto
qed

lemma RBT_ErrDelete_ok:
  assumes "owns t"
  shows "\<exists>t'. RBT_ErrDelete k t = Some (t', if data_of t k = None then RB_errEntryNotFound else RB_errSuccess)
    \<and> owns t' \<and> data_of t' = (data_of t)(k := None)"
proof (cases "lookup (m_irbtBase t) k")
  case None
  then have "data_of t k = None"
    by (simp add: data_of_def)
  moreover have "\<not> FContainsKey k (m_irbtBase t)"
    using None assms FContainsKey_items [of "m_irbtBase t" k] by (simp add: owns_def rbt_inv_def lookup_None)
  ultimately show ?thesis
    using assms by (simp add: RBT_ErrDelete_def ErrDelete_def fun_upd_idem)
next
  case (Some a)
  have inv: "rbt_inv (m_irbtBase t)" and k: "k \<in> fst ` set (items (m_irbtBase t))"
    using assms lookup_in [OF Some] by (force simp: owns_def)+
  obtain d where d: "m_data t a = Some d"
    using owns_data [OF assms Some] by blast
  obtain b ob where b: "Delete k (m_irbtBase t) = Some (b, ob)" "quasi b" "items b = without k (items (m_irbtBase t))"
      "(k, ob) \<in> set (items (m_irbtBase t))"
    using Delete_top [of "m_irbtBase t" k] inv k by (auto simp: rbt_inv_def)
  have ob: "ob = a"
    using lookup_Some [OF inv b(4)] Some by simp
  let ?t = "t\<lparr>m_irbtBase := b, m_data := (m_data t)(a := None)\<rparr>"
  have inj: "x = k" if "(x, a) \<in> set (items (m_irbtBase t))" for x
    using owns_inj [OF assms lookup_Some [OF inv that] Some] .
  have sole: "y = a" if "(k, y) \<in> set (items (m_irbtBase t))" for y
    using lookup_Some [OF inv that] Some by simp
  have "snd ` set (items b) = snd ` set (items (m_irbtBase t)) - {a}"
  proof (intro equalityI subsetI)
    fix y
    assume "y \<in> snd ` set (items (m_irbtBase t)) - {a}"
    then obtain x where "(x, y) \<in> set (items (m_irbtBase t))" "x \<noteq> k"
      using sole by force
    then show "y \<in> snd ` set (items b)"
      using b(3) by force
  qed (use b(3) inj in force)
  then have "owns ?t"
    using assms b(2,3) increasing_without [of "items (m_irbtBase t)" k] inv
    by (auto simp: owns_def rbt_inv_def distinct_map inj_on_def)
  moreover have "data_of ?t x = ((data_of t)(k := None)) x" for x
  proof (cases "x = k")
    case False
    have "lookup (m_irbtBase t) x \<noteq> Some a"
      using inj [of x] lookup_in [of "m_irbtBase t" x a] False by blast
    then show ?thesis
      using False by (cases "lookup (m_irbtBase t) x") (auto simp: data_of_def lookup_def b(3) map_of_without)
  qed (simp add: data_of_def lookup_def b(3) map_of_without)
  moreover have "data_of t k \<noteq> None"
    using Some d by (simp add: data_of_def)
  moreover have "RBT_ErrDelete k t = Some (?t, RB_errSuccess)"
    using b(1) ob d k FContainsKey_items [of "m_irbtBase t" k] inv by (simp add: RBT_ErrDelete_def ErrDelete_def RBT_Free_def rbt_inv_def)
  ultimately show ?thesis
    by (auto simp: fun_eq_iff)
qed

lemma free_nodes:
  "distinct (map snd (items s)) \<Longrightarrow> snd ` set (items s) \<subseteq> dom (m_data t) \<Longrightarrow>
   RBT_MakeEmpty_node s t = Some (t\<lparr>m_data := m_data t |` (- snd ` set (items s))\<rparr>)"
proof (induction s arbitrary: t)
  case (Node a k c l r)
  have l: "RBT_MakeEmpty_node l t = Some (t\<lparr>m_data := m_data t |` (- snd ` set (items l))\<rparr>)"
    using Node.prems by (intro Node.IH(1)) auto
  let ?t = "t\<lparr>m_data := m_data t |` (- snd ` set (items l))\<rparr>"
  have r: "RBT_MakeEmpty_node r ?t = Some (?t\<lparr>m_data := m_data ?t |` (- snd ` set (items r))\<rparr>)"
    using Node.prems by (intro Node.IH(2)) auto
  have "a \<in> dom (m_data t)" "a \<notin> snd ` set (items l)" "a \<notin> snd ` set (items r)"
    using Node.prems by auto
  then obtain d where d: "m_data t a = Some d" "a \<notin> snd ` set (items l)" "a \<notin> snd ` set (items r)"
    by blast
  have "(m_data t |` (- snd ` set (items l)) |` (- snd ` set (items r)))(a := None) =
      m_data t |` (- snd ` set (items (Node a k c l r)))"
    by (auto simp: restrict_map_def fun_eq_iff)
  then show ?case
    using l r d by (simp add: RBT_Free_def)
qed (simp add: restrict_map_def)

lemma RBT_MakeEmpty_ok:
  fixes t :: "('k::linorder, 'd) CRedBlackTree"
  assumes "owns t"
  shows "RBT_MakeEmpty t = Some CRedBlackTree_new"
proof (cases "m_irbtBase t")
  case Null
  then have "t = CRedBlackTree_new"
    using assms by (cases t) (simp add: owns_def CRedBlackTree_new_def)
  then show ?thesis
    by (simp add: RBT_MakeEmpty_def CRedBlackTree_new_def)
next
  case (Node a k c l r)
  have d: "distinct (map snd (items l @ (k, a) # items r))" "dom (m_data t) = snd ` set (items l @ (k, a) # items r)"
    using assms Node by (simp_all add: owns_def)
  have l: "RBT_MakeEmpty_node l t = Some (t\<lparr>m_data := m_data t |` (- snd ` set (items l))\<rparr>)"
    using d by (intro free_nodes) auto
  let ?t = "t\<lparr>m_data := m_data t |` (- snd ` set (items l))\<rparr>"
  have r: "RBT_MakeEmpty_node r ?t = Some (?t\<lparr>m_data := m_data ?t |` (- snd ` set (items r))\<rparr>)"
    using d by (intro free_nodes) auto
  have a: "a \<in> dom (m_data t)" "a \<notin> snd ` set (items l)" "a \<notin> snd ` set (items r)"
    using d by auto
  have "m_data t x = None" if "x \<notin> snd ` set (items l)" "x \<notin> snd ` set (items r)" "x \<noteq> a" for x
    using d(2) that by (auto simp: domIff)
  then show ?thesis
    using l r a Node by (auto simp: RBT_MakeEmpty_def MakeEmpty_def RBT_Free_def CRedBlackTree_new_def restrict_map_def fun_eq_iff)
qed

text \<open>The trees that insertions, with any result of \<open>new\<close>, deletions and emptying lead to.\<close>

inductive crbt_reach :: "('k::linorder, 'd) CRedBlackTree \<Rightarrow> bool" where
  new: "crbt_reach CRedBlackTree_new"
| insert: "crbt_reach t \<Longrightarrow> (\<forall>a. mem = Some a \<longrightarrow> m_data t a = None) \<Longrightarrow>
    RBT_ErrInsert mem k d t = Some (t', err) \<Longrightarrow> crbt_reach t'"
| delete: "crbt_reach t \<Longrightarrow> RBT_ErrDelete k t = Some (t', err) \<Longrightarrow> crbt_reach t'"
| make_empty: "crbt_reach t \<Longrightarrow> RBT_MakeEmpty t = Some t' \<Longrightarrow> crbt_reach t'"

lemma owns_new: "owns CRedBlackTree_new"
  by (simp add: owns_def CRedBlackTree_new_def)

lemma RBT_ErrInsert_None: "RBT_ErrInsert None k d t = Some (t, RB_errOutOfMemory)"
  by (simp add: RBT_ErrInsert_def PnodeAlloc_def)

lemma crbt_reach_owns: "crbt_reach t \<Longrightarrow> owns t"
proof (induction rule: crbt_reach.induct)
  case (insert t mem k d t' err)
  then show ?case
    using RBT_ErrInsert_ok [of t "the mem" k d] by (cases mem) (auto simp: RBT_ErrInsert_None)
next
  case (delete t k t' err)
  then show ?case
    using RBT_ErrDelete_ok [of t k] by auto
next
  case (make_empty t t')
  then show ?case
    using RBT_MakeEmpty_ok [of t] owns_new by auto
qed (rule owns_new)

lemma RBT_ErrFind_ok:
  assumes "owns t"
  shows "RBT_ErrFind True k t = Some (case data_of t k of
    None \<Rightarrow> (RB_errEntryNotFound, None) | Some d \<Rightarrow> (RB_errSuccess, Some d))"
proof -
  have "ErrFind k (m_irbtBase t) = (case lookup (m_irbtBase t) k of
      None \<Rightarrow> (RB_errEntryNotFound, None) | Some a \<Rightarrow> (RB_errSuccess, Some a))"
    using ErrFind_items [of "m_irbtBase t" k] assms by (simp add: owns_def rbt_inv_def lookup_def)
  then show ?thesis
    using owns_data [OF assms, of k] by (cases "lookup (m_irbtBase t) k") (auto simp: RBT_ErrFind_def data_of_def)
qed

section \<open>Properties\<close>

text \<open>
  The duty of the caller: an object that is linked is not inserted under a new key. (Under a key that is there already the insertion is refused
  before the node in the object is touched.)
\<close>

fun unlinked :: "('k, 'o) map_op list \<Rightarrow> ('k \<rightharpoonup> 'o) \<Rightarrow> bool" where
  "unlinked [] m = True"
| "unlinked (Ins k ob # ops) m = (if m k = None then ob \<notin> ran m \<and> unlinked ops (m(k \<mapsto> ob)) else unlinked ops m)"
| "unlinked (Del k # ops) m = unlinked ops (m(k := None))"

lemma unlinked_inj: "unlinked ops m \<Longrightarrow> inj_on m (dom m) \<Longrightarrow> inj_on (snd (map_run ops m)) (dom (snd (map_run ops m)))"
proof (induction ops arbitrary: m)
  case (Cons op ops)
  show ?case
  proof (cases op)
    case (Ins k ob)
    have "inj_on (m(k \<mapsto> ob)) (dom (m(k \<mapsto> ob)))" if "m k = None" "ob \<notin> ran m"
      using Cons.prems(2) that by (auto simp: inj_on_def ran_def)
    then show ?thesis
      using Cons.IH [of "m(k \<mapsto> ob)"] Cons.IH [of m] Cons.prems unfolding Ins by (cases "m k") (simp_all del: fun_upd_apply dom_fun_upd)
  next
    case (Del k)
    have "inj_on (m(k := None)) (dom (m(k := None)))"
      using Cons.prems(2) by (auto simp: inj_on_def)
    then show ?thesis
      using Cons.IH [of "m(k := None)"] Cons.prems(1) unfolding Del by (simp del: fun_upd_apply dom_fun_upd)
  qed
qed simp

lemma lookup_distinct:
  assumes "rbt_inv t" "inj_on (lookup t) (dom (lookup t))"
  shows "distinct (map snd (items t))"
proof -
  have d: "distinct (map fst (items t))"
    using assms(1) by (simp add: rbt_inv_def increasing_distinct)
  have "k = k'" if "(k, ob) \<in> set (items t)" "(k', ob) \<in> set (items t)" for k k' ob
  proof -
    have "lookup t k = Some ob" "lookup t k' = Some ob"
      using that d by (simp_all add: lookup_def)
    then show ?thesis
      using assms(2) unfolding inj_on_def by (metis domI)
  qed
  then have "inj_on snd (set (items t))"
    by (auto intro!: inj_onI)
  then show ?thesis
    using d by (auto simp: distinct_map)
qed

text \<open>
  C30: any history of insertions and deletions on an initially empty tree in which no linked object is inserted under a new key runs without reading through a null
  pointer, and returns, error by error and object by object, what the same history returns on a map;
  the tree then represents the map, with each object in one node. In particular \<open>ErrDelete\<close> hands back the object inserted under the key.
\<close>

theorem rbt_history:
  fixes ops :: "('k::linorder, 'o) map_op list"
  assumes "unlinked ops Map.empty"
  shows "\<exists>t. tree_run ErrInsert ErrDelete ops Null = Some (fst (map_run ops Map.empty), t)
    \<and> lookup t = snd (map_run ops Map.empty) \<and> increasing (items t) \<and> distinct (map snd (items t))"
proof -
  obtain t where t: "tree_run ErrInsert ErrDelete ops Null = Some (fst (map_run ops Map.empty), t)" "rbt_inv t" "lookup t = snd (map_run ops Map.empty)"
    using rbt.run_refines [of "Null :: ('k, 'o) Node" ops] by auto
  moreover have "distinct (map snd (items t))"
    using unlinked_inj [OF assms] lookup_distinct [OF t(2)] unfolding t(3) by simp
  ultimately show ?thesis
    by (auto simp: rbt_inv_def)
qed

theorem rbt_history_witness:
  "\<exists>t. tree_run ErrInsert ErrDelete [Ins (2::int) ''b'', Ins 1 ''a'', Ins 2 ''a'', Del 2, Ins 3 ''b''] Null
      = Some ([(RB_errSuccess, None), (RB_errSuccess, None), (RB_errDuplicateEntry, None), (RB_errSuccess, Some ''b''), (RB_errSuccess, None)], t)
    \<and> lookup t = [1 \<mapsto> ''a'', 3 \<mapsto> ''b'']"
  using rbt_history [of "[Ins (2::int) ''b'', Ins 1 ''a'', Ins 2 ''a'', Del 2, Ins 3 ''b'']"] by (auto simp: fun_upd_twist)

text \<open>
  C31: after any history in which no linked object is inserted under a new key the tree is balanced although its root may stay red: a tree of \<open>n\<close> nodes has
  height at most about \<open>2 log (n + 1) + 2\<close>; and every assertion of \<open>AssertValid\<close> holds.
\<close>

theorem rbt_balanced:
  fixes ops :: "('k::linorder, 'o) map_op list"
  assumes "unlinked ops Map.empty" "tree_run ErrInsert ErrDelete ops Null = Some (rs, t)"
  shows "2 ^ height t \<le> 4 * (size t + 1)\<^sup>2 \<and> AssertValid t"
proof -
  have t: "rbt_inv t" "lookup t = snd (map_run ops Map.empty)"
    using rbt.run_refines [of "Null :: ('k, 'o) Node" ops] assms(2) by auto
  have "distinct (map snd (items t))"
    using unlinked_inj [OF assms(1)] lookup_distinct [OF t(1)] unfolding t(2) by simp
  then show ?thesis
    using t(1) height_quasi [of t] AssertValid_quasi [of t] by (auto simp: rbt_inv_def)
qed

theorem rbt_balanced_witness:
  "\<exists>rs t. tree_run ErrInsert ErrDelete [Ins (2::int) ''b'', Ins 1 ''a'', Ins 3 ''c'', Del 2] Null = Some (rs, t)
    \<and> 2 ^ height t \<le> 4 * (size t + 1)\<^sup>2 \<and> AssertValid t"
proof -
  obtain rs t where run: "tree_run ErrInsert ErrDelete [Ins (2::int) ''b'', Ins 1 ''a'', Ins 3 ''c'', Del 2] Null = Some (rs, t)"
    using rbt.run_refines [of Null "[Ins (2::int) ''b'', Ins 1 ''a'', Ins 3 ''c'', Del 2]"] by auto
  from rbt_balanced [OF _ this] show ?thesis
    using run by auto
qed

text \<open>
  C32: the three searches. \<open>ErrFind\<close> finds the object of the key, \<open>ErrFindGreaterThanOrEqual\<close> the first
  entry from the key on, and \<open>ErrFindNearest\<close> an entry with no other entry between it and the key, which is
  the key's own entry when there is one; each fails exactly when there is none.
\<close>

theorem rbt_searches:
  assumes "rbt_inv t"
  shows "ErrFind key t = (case lookup t key of None \<Rightarrow> (RB_errEntryNotFound, None) | Some ob \<Rightarrow> (RB_errSuccess, Some ob))
    \<and> ErrFindGreaterThanOrEqual key t = (case filter (\<lambda>p. key \<le> fst p) (items t) of
        [] \<Rightarrow> (RB_errEntryNotFound, None) | p # _ \<Rightarrow> (RB_errSuccess, Some p))
    \<and> (if t = Null then ErrFindNearest key t = (RB_errEntryNotFound, None)
       else \<exists>p \<in> set (items t). ErrFindNearest key t = (RB_errSuccess, Some p)
         \<and> (\<forall>q \<in> set (items t). \<not> (fst p < fst q \<and> fst q \<le> key) \<and> \<not> (key \<le> fst q \<and> fst q < fst p)))"
proof -
  have srt: "increasing (items t)"
    using assms by (simp add: rbt_inv_def)
  have "\<exists>p \<in> set (items t). ErrFindNearest key t = (RB_errSuccess, Some p)
      \<and> (\<forall>q \<in> set (items t). \<not> (fst p < fst q \<and> fst q \<le> key) \<and> \<not> (key \<le> fst q \<and> fst q < fst p))" if "t \<noteq> Null"
    using nearest_items [OF srt that, of key] that by (auto simp: ErrFindNearest_def adjacent_def)
  then show ?thesis
    using ErrFind_items [OF srt, of key] ErrFindGE_items [OF srt, of key] by (simp add: lookup_def ErrFindNearest_def)
qed

definition sample_tree :: "(int, string) Node" where
  "sample_tree = Node ''b'' 2 Black (Node ''a'' 1 Black Null Null) (Node ''c'' 5 Black Null Null)"

theorem rbt_searches_witness:
  "ErrFind 5 sample_tree = (RB_errSuccess, Some ''c'') \<and> ErrFindGreaterThanOrEqual 3 sample_tree = (RB_errSuccess, Some (5, ''c''))"
proof -
  have "rbt_inv sample_tree"
    by (simp add: rbt_inv_def sample_tree_def)
  from rbt_searches [OF this, of 5] rbt_searches [OF this, of 3] show ?thesis
    by (simp add: sample_tree_def lookup_def)
qed

text \<open>
  C33: \<open>ErrMerge\<close> moves every entry whose key is new out of the source into this tree and leaves exactly the entries with
  duplicate keys in the source; it reports \<open>errDuplicateEntry\<close> exactly when there are any. No entry is lost
  or held by both trees.
\<close>

theorem rbt_merge_correct:
  assumes "rbt_inv this" "rbt_inv src"
  shows "\<exists>this' src'. ErrMerge this src = Some (this', src',
        if dom (lookup this) \<inter> dom (lookup src) = {} then RB_errSuccess else RB_errDuplicateEntry)
    \<and> rbt_inv this' \<and> rbt_inv src' \<and> lookup this' = lookup src ++ lookup this
    \<and> lookup src' = lookup src |` dom (lookup this)"
proof (cases "this = Null")
  case True
  then show ?thesis
    using assms by (auto simp: ErrMerge_def Move_def fun_eq_iff map_add_def restrict_map_def)
next
  case False
  obtain this' left' where m: "merge_loop this src Null = Some (this', left')" "rbt_inv this'" "rbt_inv left'"
      "lookup this' = lookup src ++ lookup this" "lookup left' = lookup src |` dom (lookup this)"
    using merge_loop_correct [OF assms, of Null] by auto
  have "left' = Null \<longleftrightarrow> dom (lookup this) \<inter> dom (lookup src) = {}"
    unfolding lookup_empty [symmetric] m(5)
    using dom_eq_empty_conv [of "lookup src |` dom (lookup this)"] by (simp add: Int_commute)
  then show ?thesis
    using m False by (auto simp: ErrMerge_def Move_def)
qed

theorem rbt_merge_correct_witness:
  "\<exists>this' src'. ErrMerge sample_tree (Node ''x'' 5 Red (Node ''y'' 4 Red Null Null) Null) = Some (this', src', RB_errDuplicateEntry)
    \<and> lookup this' 4 = Some ''y'' \<and> lookup this' 5 = Some ''c'' \<and> lookup src' 5 = Some ''x'' \<and> lookup src' 4 = None"
proof -
  have inv: "rbt_inv sample_tree" "rbt_inv (Node ''x'' (5::int) Red (Node ''y'' 4 Red Null Null) Null)"
    by (simp_all add: rbt_inv_def sample_tree_def)
  have d: "\<not> dom (lookup sample_tree) \<inter> dom (lookup (Node ''x'' (5::int) Red (Node ''y'' 4 Red Null Null) Null)) = {}"
    by (auto simp: sample_tree_def lookup_def)
  from rbt_merge_correct [OF inv] d show ?thesis
    by (auto simp: sample_tree_def lookup_def restrict_map_def map_add_def)
qed

text \<open>
  C34: in every history of a \<open>CRedBlackTree\<close>, whatever \<open>new\<close> returns, the allocated nodes are exactly those in the tree. Insertion, deletion and
  lookup act as on a map from keys to data; a refused or failed insertion changes nothing and frees the
  node it allocated; \<open>MakeEmpty\<close> frees every node exactly once.
\<close>

theorem crbt_correct:
  assumes "crbt_reach t"
  shows "dom (m_data t) = snd ` set (items (m_irbtBase t))
    \<and> (\<forall>a. m_data t a = None \<longrightarrow> (\<exists>t'. RBT_ErrInsert (Some a) k d t =
          Some (t', if data_of t k = None then RB_errSuccess else RB_errDuplicateEntry)
        \<and> data_of t' = (if data_of t k = None then (data_of t)(k \<mapsto> d) else data_of t)))
    \<and> RBT_ErrInsert None k d t = Some (t, RB_errOutOfMemory)
    \<and> (\<exists>t'. RBT_ErrDelete k t = Some (t', if data_of t k = None then RB_errEntryNotFound else RB_errSuccess)
        \<and> data_of t' = (data_of t)(k := None))
    \<and> RBT_ErrFind True k t = Some (case data_of t k of
        None \<Rightarrow> (RB_errEntryNotFound, None) | Some e \<Rightarrow> (RB_errSuccess, Some e))
    \<and> RBT_MakeEmpty t = Some CRedBlackTree_new"
proof -
  have o: "owns t"
    using crbt_reach_owns [OF assms] .
  show ?thesis
  proof (intro conjI allI impI)
    show "dom (m_data t) = snd ` set (items (m_irbtBase t))"
      using o by (simp add: owns_def)
    show "\<exists>t'. RBT_ErrInsert (Some a) k d t = Some (t', if data_of t k = None then RB_errSuccess else RB_errDuplicateEntry)
        \<and> data_of t' = (if data_of t k = None then (data_of t)(k \<mapsto> d) else data_of t)" if "m_data t a = None" for a
      using RBT_ErrInsert_ok [OF o that, of k d] by blast
    show "\<exists>t'. RBT_ErrDelete k t = Some (t', if data_of t k = None then RB_errEntryNotFound else RB_errSuccess)
        \<and> data_of t' = (data_of t)(k := None)"
      using RBT_ErrDelete_ok [OF o, of k] by blast
  qed (rule RBT_ErrInsert_None RBT_ErrFind_ok [OF o] RBT_MakeEmpty_ok [OF o])+
qed

theorem crbt_correct_witness:
  "\<exists>t'. RBT_ErrInsert (Some 16) (3::int) ''d'' CRedBlackTree_new = Some (t', RB_errSuccess) \<and> data_of t' 3 = Some ''d''"
proof -
  let ?t = "CRedBlackTree_new :: (int, string) CRedBlackTree"
  have e: "data_of ?t = Map.empty" "m_data ?t 16 = None"
    by (simp_all add: data_of_def CRedBlackTree_new_def fun_eq_iff)
  have "\<forall>a. m_data ?t a = None \<longrightarrow> (\<exists>t'. RBT_ErrInsert (Some a) 3 ''d'' ?t =
        Some (t', if data_of ?t 3 = None then RB_errSuccess else RB_errDuplicateEntry)
      \<and> data_of t' = (if data_of ?t 3 = None then (data_of ?t)(3 \<mapsto> ''d'') else data_of ?t))"
    using crbt_correct [OF crbt_reach.new, of "3::int" "''d''"] by (elim conjE)
  from this [rule_format, OF e(2)] show ?thesis
    by (auto simp: e(1))
qed

end
