(* ===== verification/Linked_Lists.thy ===== *)
theory Linked_Lists
  imports Ese_Prelude
begin

text \<open>
  \<open>CInvasiveList\<close> and \<open>CCountedInvasiveList\<close> of \<open>ms/collection.hxx\<close>: doubly linked lists whose
  elements lie inside the objects, at the offset \<open>off\<close>. Addresses are 64-bit words with the pointer arithmetic of the
  code, the memory is a map from addresses to elements, and following a pointer to no
  element gives \<open>None\<close>. The interface \<open>object_sequence\<close> states what the operations do to the sequence of
  objects; both classes satisfy it.
\<close>

section \<open>\<open>CInvasiveList\<close>\<close>

type_synonym ptr = "64 word"

record CElement =
  m_pilePrev :: ptr
  m_pileNext :: ptr

type_synonym ile_heap = "ptr \<rightharpoonup> CElement"

record CInvasiveList =
  m_pilePrevMost :: ptr
  m_pileNextMost :: ptr

definition CElement_new :: CElement where
  "CElement_new = \<lparr>m_pilePrev = - 1, m_pileNext = - 1\<rparr>"

definition FUninitialized :: "CElement \<Rightarrow> bool" where
  "FUninitialized e \<longleftrightarrow> m_pilePrev e = - 1 \<and> m_pileNext e = - 1"

definition PileFromPobj :: "ptr \<Rightarrow> ptr \<Rightarrow> ptr" where
  "PileFromPobj off pobj = pobj + off"

definition PobjFromPile :: "ptr \<Rightarrow> ptr \<Rightarrow> ptr" where
  "PobjFromPile off pile = pile - off"

definition Pnil :: "ptr \<Rightarrow> ptr" where
  "Pnil off = PobjFromPile off (- 1)"

text \<open>Writing a member of an element; \<open>None\<close> when there is no element at the address.\<close>

definition SetPrev :: "ptr \<Rightarrow> ptr \<Rightarrow> ile_heap \<Rightarrow> ile_heap option" where
  "SetPrev pile v h = do { e \<leftarrow> h pile; Some (h(pile \<mapsto> e\<lparr>m_pilePrev := v\<rparr>)) }"

definition SetNext :: "ptr \<Rightarrow> ptr \<Rightarrow> ile_heap \<Rightarrow> ile_heap option" where
  "SetNext pile v h = do { e \<leftarrow> h pile; Some (h(pile \<mapsto> e\<lparr>m_pileNext := v\<rparr>)) }"

definition List_Empty :: "ptr \<Rightarrow> CInvasiveList" where
  "List_Empty off = \<lparr>m_pilePrevMost = PileFromPobj off 0, m_pileNextMost = PileFromPobj off 0\<rparr>"

definition CInvasiveList_new :: "ptr \<Rightarrow> CInvasiveList" where
  "CInvasiveList_new off = List_Empty off"

definition CInvasiveList_assign :: "CInvasiveList \<Rightarrow> CInvasiveList \<Rightarrow> CInvasiveList" where
  "CInvasiveList_assign il this = this\<lparr>m_pilePrevMost := m_pilePrevMost il, m_pileNextMost := m_pileNextMost il\<rparr>"

definition FEmpty :: "ptr \<Rightarrow> CInvasiveList \<Rightarrow> bool" where
  "FEmpty off l \<longleftrightarrow> m_pilePrevMost l = PileFromPobj off 0"

definition FMember :: "ptr \<Rightarrow> ile_heap \<Rightarrow> ptr \<Rightarrow> bool option" where
  "FMember off h pobj = do { e \<leftarrow> h (PileFromPobj off pobj); Some (m_pilePrev e \<noteq> - 1) }"

definition Prev :: "ptr \<Rightarrow> ile_heap \<Rightarrow> ptr \<Rightarrow> ptr option" where
  "Prev off h pobj = do { e \<leftarrow> h (PileFromPobj off pobj); Some (PobjFromPile off (m_pilePrev e)) }"

definition Next :: "ptr \<Rightarrow> ile_heap \<Rightarrow> ptr \<Rightarrow> ptr option" where
  "Next off h pobj = do { e \<leftarrow> h (PileFromPobj off pobj); Some (PobjFromPile off (m_pileNext e)) }"

definition PrevMost :: "ptr \<Rightarrow> CInvasiveList \<Rightarrow> ptr" where
  "PrevMost off l = PobjFromPile off (m_pilePrevMost l)"

definition NextMost :: "ptr \<Rightarrow> CInvasiveList \<Rightarrow> ptr" where
  "NextMost off l = PobjFromPile off (m_pileNextMost l)"

definition InsertAsPrevMost :: "ptr \<Rightarrow> ptr \<Rightarrow> ile_heap \<times> CInvasiveList \<Rightarrow> (ile_heap \<times> CInvasiveList) option" where
  "InsertAsPrevMost off pobj st =
     (let (h, l) = st; pile = PileFromPobj off pobj
      in if m_pilePrevMost l = PileFromPobj off 0
         then do { h \<leftarrow> SetPrev pile (PileFromPobj off 0) h; h \<leftarrow> SetNext pile (PileFromPobj off 0) h;
                   Some (h, l\<lparr>m_pilePrevMost := pile, m_pileNextMost := pile\<rparr>) }
         else do { h \<leftarrow> SetPrev pile (PileFromPobj off 0) h; h \<leftarrow> SetNext pile (m_pilePrevMost l) h;
                   h \<leftarrow> SetPrev (m_pilePrevMost l) pile h;
                   Some (h, l\<lparr>m_pilePrevMost := pile\<rparr>) })"

definition InsertAsNextMost :: "ptr \<Rightarrow> ptr \<Rightarrow> ile_heap \<times> CInvasiveList \<Rightarrow> (ile_heap \<times> CInvasiveList) option" where
  "InsertAsNextMost off pobj st =
     (let (h, l) = st; pile = PileFromPobj off pobj
      in if m_pileNextMost l = PileFromPobj off 0
         then do { h \<leftarrow> SetPrev pile (PileFromPobj off 0) h; h \<leftarrow> SetNext pile (PileFromPobj off 0) h;
                   Some (h, l\<lparr>m_pilePrevMost := pile, m_pileNextMost := pile\<rparr>) }
         else do { h \<leftarrow> SetPrev pile (m_pileNextMost l) h; h \<leftarrow> SetNext pile (PileFromPobj off 0) h;
                   h \<leftarrow> SetNext (m_pileNextMost l) pile h;
                   Some (h, l\<lparr>m_pileNextMost := pile\<rparr>) })"

definition Insert :: "ptr \<Rightarrow> ptr \<Rightarrow> ptr \<Rightarrow> ile_heap \<times> CInvasiveList \<Rightarrow> (ile_heap \<times> CInvasiveList) option" where
  "Insert off pobj pobjNext st =
     (let (h, l) = st; pileNext = PileFromPobj off pobjNext
      in if pileNext = PileFromPobj off 0 then InsertAsNextMost off pobj st
         else if pileNext = m_pilePrevMost l then InsertAsPrevMost off pobj st
         else (let pile = PileFromPobj off pobj
               in do { eNext \<leftarrow> h pileNext; h \<leftarrow> SetPrev pile (m_pilePrev eNext) h;
                       e \<leftarrow> h pile; h \<leftarrow> SetNext (m_pilePrev e) pile h;
                       h \<leftarrow> SetNext pile pileNext h; h \<leftarrow> SetPrev pileNext pile h;
                       Some (h, l) }))"

definition Remove :: "ptr \<Rightarrow> ptr \<Rightarrow> ile_heap \<times> CInvasiveList \<Rightarrow> (ile_heap \<times> CInvasiveList) option" where
  "Remove off pobj st =
     (let (h, l) = st; pile = PileFromPobj off pobj
      in do { e \<leftarrow> h pile;
              (h, l) \<leftarrow> (if m_pileNext e \<noteq> PileFromPobj off 0
                         then do { h \<leftarrow> SetPrev (m_pileNext e) (m_pilePrev e) h; Some (h, l) }
                         else Some (h, l\<lparr>m_pileNextMost := m_pilePrev e\<rparr>));
              e \<leftarrow> h pile;
              (h, l) \<leftarrow> (if m_pilePrev e \<noteq> PileFromPobj off 0
                         then do { h \<leftarrow> SetNext (m_pilePrev e) (m_pileNext e) h; Some (h, l) }
                         else Some (h, l\<lparr>m_pilePrevMost := m_pileNext e\<rparr>));
              h \<leftarrow> SetPrev pile (- 1) h; h \<leftarrow> SetNext pile (- 1) h;
              Some (h, l) })"

section \<open>\<open>CCountedInvasiveList\<close>\<close>

record CCountedInvasiveList =
  m_base :: CInvasiveList
  m_c :: nat

definition counted :: "nat \<Rightarrow> (ile_heap \<times> CInvasiveList) option \<Rightarrow> (ile_heap \<times> CCountedInvasiveList) option" where
  "counted c r = do { (h, l) \<leftarrow> r; Some (h, \<lparr>m_base = l, m_c = c\<rparr>) }"

definition CCountedInvasiveList_new :: "ptr \<Rightarrow> CCountedInvasiveList" where
  "CCountedInvasiveList_new off = \<lparr>m_base = CInvasiveList_new off, m_c = 0\<rparr>"

definition CCountedInvasiveList_assign :: "CCountedInvasiveList \<Rightarrow> CCountedInvasiveList \<Rightarrow> CCountedInvasiveList" where
  "CCountedInvasiveList_assign il this = this\<lparr>m_c := m_c il, m_base := CInvasiveList_assign (m_base il) (m_base this)\<rparr>"

definition Counted_InsertAsPrevMost :: "ptr \<Rightarrow> ptr \<Rightarrow> ile_heap \<times> CCountedInvasiveList \<Rightarrow> (ile_heap \<times> CCountedInvasiveList) option" where
  "Counted_InsertAsPrevMost off pobj st =
     counted ((m_c (snd st) + 1) mod 2 ^ 64) (InsertAsPrevMost off pobj (fst st, m_base (snd st)))"

definition Counted_InsertAsNextMost :: "ptr \<Rightarrow> ptr \<Rightarrow> ile_heap \<times> CCountedInvasiveList \<Rightarrow> (ile_heap \<times> CCountedInvasiveList) option" where
  "Counted_InsertAsNextMost off pobj st =
     counted ((m_c (snd st) + 1) mod 2 ^ 64) (InsertAsNextMost off pobj (fst st, m_base (snd st)))"

definition Counted_Insert :: "ptr \<Rightarrow> ptr \<Rightarrow> ptr \<Rightarrow> ile_heap \<times> CCountedInvasiveList \<Rightarrow> (ile_heap \<times> CCountedInvasiveList) option" where
  "Counted_Insert off pobj pobjNext st =
     counted ((m_c (snd st) + 1) mod 2 ^ 64) (Insert off pobj pobjNext (fst st, m_base (snd st)))"

definition Counted_Remove :: "ptr \<Rightarrow> ptr \<Rightarrow> ile_heap \<times> CCountedInvasiveList \<Rightarrow> (ile_heap \<times> CCountedInvasiveList) option" where
  "Counted_Remove off pobj st =
     counted ((m_c (snd st) + 2 ^ 64 - 1) mod 2 ^ 64) (Remove off pobj (fst st, m_base (snd st)))"

definition Counted_Empty :: "ptr \<Rightarrow> CCountedInvasiveList \<Rightarrow> CCountedInvasiveList" where
  "Counted_Empty off l = l\<lparr>m_base := List_Empty off, m_c := 0\<rparr>"

definition Count :: "CCountedInvasiveList \<Rightarrow> nat" where
  "Count l = m_c l"

section \<open>Chains in the heap\<close>

text \<open>The elements of a chain between two neighbours, each with the right links.\<close>

primrec chain :: "ile_heap \<Rightarrow> ptr \<Rightarrow> ptr list \<Rightarrow> ptr \<Rightarrow> bool" where
  "chain h p [] n \<longleftrightarrow> True"
| "chain h p (x # xs) n \<longleftrightarrow> h x = Some \<lparr>m_pilePrev = p, m_pileNext = hd (xs @ [n])\<rparr> \<and> chain h x xs n"

lemma chain_append [simp]:
  "chain h p (xs @ ys) n \<longleftrightarrow> chain h p xs (hd (ys @ [n])) \<and> chain h (last (p # xs)) ys n"
  by (induction xs arbitrary: p) (auto simp: hd_append)

lemma chain_frame [simp]: "x \<notin> set xs \<Longrightarrow> chain (h(x := v)) p xs n \<longleftrightarrow> chain h p xs n"
  by (induction xs arbitrary: p) auto

text \<open>A list holds the elements \<open>xs\<close>, given by their addresses.\<close>

definition dll :: "ptr \<Rightarrow> ile_heap \<Rightarrow> CInvasiveList \<Rightarrow> ptr list \<Rightarrow> bool" where
  "dll off h l xs \<longleftrightarrow> chain h off xs off \<and> distinct xs \<and> off \<notin> set xs \<and> - 1 \<notin> set xs \<and> off \<noteq> - 1
     \<and> m_pilePrevMost l = hd (xs @ [off]) \<and> m_pileNextMost l = last (off # xs)"

lemma Pile_0 [simp]: "PileFromPobj off 0 = off"
  by (simp add: PileFromPobj_def)

text \<open>An element outside the list that may be inserted.\<close>

definition loose :: "ptr \<Rightarrow> ile_heap \<Rightarrow> ptr \<Rightarrow> bool" where
  "loose off h pile \<longleftrightarrow> h pile = Some CElement_new \<and> pile \<noteq> off \<and> pile \<noteq> - 1"

lemma Set_simps:
  "h x = Some e \<Longrightarrow> SetPrev x v h = Some (h(x \<mapsto> e\<lparr>m_pilePrev := v\<rparr>))"
  "h x = Some e \<Longrightarrow> SetNext x v h = Some (h(x \<mapsto> e\<lparr>m_pileNext := v\<rparr>))"
  by (simp_all add: SetPrev_def SetNext_def)

lemma insert_first:
  assumes "dll off h l xs" "loose off h (PileFromPobj off p)" "PileFromPobj off p \<notin> set xs"
  shows "\<exists>h' l'. InsertAsPrevMost off p (h, l) = Some (h', l') \<and> dll off h' l' (PileFromPobj off p # xs)
    \<and> (\<forall>a. a \<notin> set xs \<and> a \<noteq> PileFromPobj off p \<longrightarrow> h' a = h a)"
  using assms
  by (cases xs) (auto simp: InsertAsPrevMost_def dll_def loose_def CElement_new_def Let_def Set_simps)

lemma insert_last:
  assumes "dll off h l xs" "loose off h (PileFromPobj off p)" "PileFromPobj off p \<notin> set xs"
  shows "\<exists>h' l'. InsertAsNextMost off p (h, l) = Some (h', l') \<and> dll off h' l' (xs @ [PileFromPobj off p])
    \<and> (\<forall>a. a \<notin> set xs \<and> a \<noteq> PileFromPobj off p \<longrightarrow> h' a = h a)"
  using assms
  by (cases xs rule: rev_cases) (auto simp: InsertAsNextMost_def dll_def loose_def CElement_new_def Let_def Set_simps)

lemma insert_middle:
  assumes "dll off h l (ys @ y # PileFromPobj off q # zs)" "loose off h (PileFromPobj off p)"
    and "PileFromPobj off p \<notin> set (ys @ y # PileFromPobj off q # zs)"
  shows "\<exists>h' l'. Insert off p q (h, l) = Some (h', l') \<and> dll off h' l' (ys @ y # PileFromPobj off p # PileFromPobj off q # zs)
    \<and> (\<forall>a. a \<notin> set (ys @ y # PileFromPobj off q # zs) \<and> a \<noteq> PileFromPobj off p \<longrightarrow> h' a = h a)"
  using assms
  by (auto simp: Insert_def dll_def loose_def CElement_new_def Let_def Set_simps hd_append split: if_splits)

lemma remove_element:
  assumes "dll off h l (ys @ PileFromPobj off p # zs)"
  shows "\<exists>h' l'. Remove off p (h, l) = Some (h', l') \<and> dll off h' l' (ys @ zs) \<and> loose off h' (PileFromPobj off p)
    \<and> (\<forall>a. a \<notin> set (ys @ PileFromPobj off p # zs) \<longrightarrow> h' a = h a)"
  using assms
  by (cases ys rule: rev_cases; cases zs)
    (auto simp: Remove_def dll_def loose_def CElement_new_def Let_def Set_simps hd_append last_append split: if_splits)

lemma Pile_inj [simp]: "PileFromPobj off a = PileFromPobj off b \<longleftrightarrow> a = b"
  by (simp add: PileFromPobj_def)

lemma Pobj_Pile [simp]: "PobjFromPile off (PileFromPobj off p) = p"
  by (simp add: PileFromPobj_def PobjFromPile_def)

lemma insert_before:
  assumes "dll off h l (ys @ PileFromPobj off q # zs)" "loose off h (PileFromPobj off p)"
    and "PileFromPobj off p \<notin> set (ys @ PileFromPobj off q # zs)"
  shows "\<exists>h' l'. Insert off p q (h, l) = Some (h', l') \<and> dll off h' l' (ys @ PileFromPobj off p # PileFromPobj off q # zs)
    \<and> (\<forall>a. a \<notin> set (ys @ PileFromPobj off q # zs) \<and> a \<noteq> PileFromPobj off p \<longrightarrow> h' a = h a)"
proof (cases ys rule: rev_cases)
  case Nil
  then have "Insert off p q (h, l) = InsertAsPrevMost off p (h, l)"
    using assms(1) by (auto simp: Insert_def dll_def)
  then show ?thesis
    using insert_first [of off h l "PileFromPobj off q # zs" p] assms Nil by simp
next
  case (snoc ys' y)
  then show ?thesis
    using insert_middle [of off h l ys' y q zs p] assms by simp
qed

section \<open>The interface of a sequence of objects\<close>

datatype 'a seq_op = First 'a | Last 'a | Before 'a 'a | Rem 'a

text \<open>The operations on plain lists; \<open>None\<close> where the code asserts that they are not applied.\<close>

fun seq_apply :: "'a seq_op \<Rightarrow> 'a list \<Rightarrow> 'a list option" where
  "seq_apply (First x) xs = (if x \<in> set xs then None else Some (x # xs))"
| "seq_apply (Last x) xs = (if x \<in> set xs then None else Some (xs @ [x]))"
| "seq_apply (Before x y) xs =
     (if x \<in> set xs \<or> y \<notin> set xs then None else Some (takeWhile (\<lambda>z. z \<noteq> y) xs @ x # dropWhile (\<lambda>z. z \<noteq> y) xs))"
| "seq_apply (Rem x) xs = (if x \<in> set xs then Some (remove1 x xs) else None)"

fun seq_run :: "'a seq_op list \<Rightarrow> 'a list \<Rightarrow> 'a list option" where
  "seq_run [] xs = Some xs"
| "seq_run (op # ops) xs = do { xs \<leftarrow> seq_apply op xs; seq_run ops xs }"

fun seq_subject :: "'a seq_op \<Rightarrow> 'a" where
  "seq_subject (First x) = x"
| "seq_subject (Last x) = x"
| "seq_subject (Before x y) = x"
| "seq_subject (Rem x) = x"

fun list_apply ::
  "('a \<Rightarrow> 's \<Rightarrow> 's option) \<Rightarrow> ('a \<Rightarrow> 's \<Rightarrow> 's option) \<Rightarrow> ('a \<Rightarrow> 'a \<Rightarrow> 's \<Rightarrow> 's option) \<Rightarrow> ('a \<Rightarrow> 's \<Rightarrow> 's option) \<Rightarrow>
   'a seq_op \<Rightarrow> 's \<Rightarrow> 's option" where
  "list_apply fi la bef rem (First x) = fi x"
| "list_apply fi la bef rem (Last x) = la x"
| "list_apply fi la bef rem (Before x y) = bef x y"
| "list_apply fi la bef rem (Rem x) = rem x"

fun list_run :: "('a seq_op \<Rightarrow> 's \<Rightarrow> 's option) \<Rightarrow> 'a seq_op list \<Rightarrow> 's \<Rightarrow> 's option" where
  "list_run ap [] s = Some s"
| "list_run ap (op # ops) s = do { s \<leftarrow> ap op s; list_run ap ops s }"

locale object_sequence =
  fixes rep :: "'s \<Rightarrow> 'a list \<Rightarrow> bool" and free :: "'s \<Rightarrow> 'a \<Rightarrow> bool"
    and ins_first ins_last :: "'a \<Rightarrow> 's \<Rightarrow> 's option" and ins_before :: "'a \<Rightarrow> 'a \<Rightarrow> 's \<Rightarrow> 's option"
    and remove :: "'a \<Rightarrow> 's \<Rightarrow> 's option"
  assumes rep_distinct: "rep s xs \<Longrightarrow> distinct xs"
    and first_law: "rep s xs \<Longrightarrow> free s x \<Longrightarrow> x \<notin> set xs \<Longrightarrow> \<exists>s'. ins_first x s = Some s' \<and> rep s' (x # xs)
      \<and> (\<forall>y. free s y \<and> y \<notin> set xs \<and> y \<noteq> x \<longrightarrow> free s' y)"
    and last_law: "rep s xs \<Longrightarrow> free s x \<Longrightarrow> x \<notin> set xs \<Longrightarrow> \<exists>s'. ins_last x s = Some s' \<and> rep s' (xs @ [x])
      \<and> (\<forall>y. free s y \<and> y \<notin> set xs \<and> y \<noteq> x \<longrightarrow> free s' y)"
    and before_law: "rep s (xs @ z # zs) \<Longrightarrow> free s x \<Longrightarrow> x \<notin> set (xs @ z # zs) \<Longrightarrow>
      \<exists>s'. ins_before x z s = Some s' \<and> rep s' (xs @ x # z # zs)
        \<and> (\<forall>y. free s y \<and> y \<notin> set (xs @ z # zs) \<and> y \<noteq> x \<longrightarrow> free s' y)"
    and remove_law: "rep s (xs @ x # ys) \<Longrightarrow> \<exists>s'. remove x s = Some s' \<and> rep s' (xs @ ys) \<and> free s' x
        \<and> (\<forall>y. free s y \<and> y \<notin> set (xs @ x # ys) \<longrightarrow> free s' y)"
begin

lemma apply_refines:
  assumes "rep s xs" "\<forall>x \<in> U - set xs. free s x" "seq_subject op \<in> U" "seq_apply op xs = Some xs'"
  shows "\<exists>s'. list_apply ins_first ins_last ins_before remove op s = Some s' \<and> rep s' xs' \<and> (\<forall>x \<in> U - set xs'. free s' x)"
proof (cases op)
  case (First x)
  then show ?thesis
    using first_law [OF assms(1), of x] assms by (auto split: if_splits)
next
  case (Last x)
  then show ?thesis
    using last_law [OF assms(1), of x] assms by (auto split: if_splits)
next
  case (Before x y)
  have xy: "x \<notin> set xs" "y \<in> set xs" "free s x"
    using Before assms(2-4) by (auto split: if_splits)
  let ?ys = "takeWhile (\<lambda>z. z \<noteq> y) xs" and ?zs = "tl (dropWhile (\<lambda>z. z \<noteq> y) xs)"
  have "dropWhile (\<lambda>z. z \<noteq> y) xs = y # ?zs"
    using xy(2) hd_dropWhile [of "\<lambda>z. z \<noteq> y" xs] by (cases "dropWhile (\<lambda>z. z \<noteq> y) xs") auto
  then have s: "xs = ?ys @ y # ?zs" "xs' = ?ys @ x # y # ?zs"
    using takeWhile_dropWhile_id [of "\<lambda>z. z \<noteq> y" xs] Before assms(4) xy by simp_all
  have "rep s (?ys @ y # ?zs)" "x \<notin> set (?ys @ y # ?zs)"
    using assms(1) xy(1) s(1) by simp_all
  then obtain s' where s': "ins_before x y s = Some s'" "rep s' xs'"
      "\<forall>z. free s z \<and> z \<notin> set (?ys @ y # ?zs) \<and> z \<noteq> x \<longrightarrow> free s' z"
    using before_law [of s ?ys y ?zs x] xy(3) s(2) by auto
  have "set (?ys @ y # ?zs) = set xs" "set xs' = insert x (set xs)"
    using arg_cong [OF s(1), of set] arg_cong [OF s(2), of set] by auto
  then show ?thesis
    using s' Before assms(2) by auto
next
  case (Rem x)
  then have x: "x \<in> set xs" "xs' = remove1 x xs"
    using assms(4) by (auto split: if_splits)
  then obtain ys zs where xs: "xs = ys @ x # zs" "x \<notin> set ys"
    by (metis split_list_first)
  then have "xs' = ys @ zs" "x \<notin> set zs"
    using x(2) rep_distinct [OF assms(1)] by (simp_all add: remove1_append)
  then show ?thesis
    using remove_law [of s ys x zs] assms(1,2) xs Rem by (auto, blast)
qed

lemma run_refines:
  "rep s xs \<Longrightarrow> \<forall>x \<in> U - set xs. free s x \<Longrightarrow> seq_subject ` set ops \<subseteq> U \<Longrightarrow> seq_run ops xs = Some xs' \<Longrightarrow>
   \<exists>s'. list_run (list_apply ins_first ins_last ins_before remove) ops s = Some s' \<and> rep s' xs' \<and> (\<forall>x \<in> U - set xs'. free s' x)"
proof (induction ops arbitrary: s xs)
  case (Cons op ops)
  then obtain xs1 where xs1: "seq_apply op xs = Some xs1" "seq_run ops xs1 = Some xs'"
    by (auto simp: bind_eq_Some_conv)
  obtain s1 where s1: "list_apply ins_first ins_last ins_before remove op s = Some s1" "rep s1 xs1" "\<forall>x \<in> U - set xs1. free s1 x"
    using apply_refines [OF Cons.prems(1,2) _ xs1(1)] Cons.prems(3) by auto
  then show ?case
    using Cons.IH [OF s1(2,3) _ xs1(2)] Cons.prems(3) by auto
qed simp

end

section \<open>The lists meet the interface\<close>

abbreviation piles :: "ptr \<Rightarrow> ptr list \<Rightarrow> ptr list" where
  "piles off \<equiv> map (PileFromPobj off)"

definition holds :: "ptr \<Rightarrow> ile_heap \<times> CInvasiveList \<Rightarrow> ptr list \<Rightarrow> bool" where
  "holds off s xs \<longleftrightarrow> dll off (fst s) (snd s) (piles off xs)"

definition unlinked :: "ptr \<Rightarrow> ile_heap \<times> 'l \<Rightarrow> ptr \<Rightarrow> bool" where
  "unlinked off s p \<longleftrightarrow> loose off (fst s) (PileFromPobj off p)"

lemma in_piles: "PileFromPobj off p \<in> set (piles off xs) \<longleftrightarrow> p \<in> set xs"
  by auto

lemma holds_distinct: "holds off s xs \<Longrightarrow> distinct xs"
  by (auto simp: holds_def dll_def distinct_map)

text \<open>What does not change outside the list stays unlinked.\<close>

lemma unlinked_frame:
  assumes "\<forall>a. a \<notin> set (piles off xs) \<and> a \<noteq> PileFromPobj off x \<longrightarrow> h' a = h a"
    and "unlinked off (h, l) y" "y \<notin> set xs" "y \<noteq> x"
  shows "unlinked off (h', l') y"
proof -
  have "h' (PileFromPobj off y) = h (PileFromPobj off y)"
    using assms(1,3,4) in_piles [of off y xs] by simp
  then show ?thesis
    using assms(2) by (simp add: unlinked_def loose_def)
qed

lemma holds_step:
  assumes "\<exists>h' l'. op (h, l) = Some (h', l') \<and> dll off h' l' (piles off ys)
      \<and> (\<forall>a. a \<notin> set (piles off xs) \<and> a \<noteq> PileFromPobj off x \<longrightarrow> h' a = h a)"
  shows "\<exists>s'. op (h, l) = Some s' \<and> holds off s' ys
    \<and> (\<forall>y. unlinked off (h, l) y \<and> y \<notin> set xs \<and> y \<noteq> x \<longrightarrow> unlinked off s' y)"
proof -
  obtain h' l' where *: "op (h, l) = Some (h', l')" "dll off h' l' (piles off ys)"
      "\<forall>a. a \<notin> set (piles off xs) \<and> a \<noteq> PileFromPobj off x \<longrightarrow> h' a = h a"
    using assms by blast
  show ?thesis
  proof (intro exI [of _ "(h', l')"] conjI allI impI)
    show "op (h, l) = Some (h', l')" "holds off (h', l') ys"
      using *(1,2) by (simp_all add: holds_def)
    show "unlinked off (h', l') y" if "unlinked off (h, l) y \<and> y \<notin> set xs \<and> y \<noteq> x" for y
      using unlinked_frame [OF *(3), of l y l'] that by blast
  qed
qed

lemma holds_first:
  assumes "holds off s xs" "unlinked off s x" "x \<notin> set xs"
  shows "\<exists>s'. InsertAsPrevMost off x s = Some s' \<and> holds off s' (x # xs)
    \<and> (\<forall>y. unlinked off s y \<and> y \<notin> set xs \<and> y \<noteq> x \<longrightarrow> unlinked off s' y)"
  using insert_first [of off "fst s" "snd s" "piles off xs" x] assms in_piles [of off x xs]
    holds_step [of "InsertAsPrevMost off x" "fst s" "snd s" off "x # xs" xs x]
  by (simp add: holds_def unlinked_def)

lemma holds_last:
  assumes "holds off s xs" "unlinked off s x" "x \<notin> set xs"
  shows "\<exists>s'. InsertAsNextMost off x s = Some s' \<and> holds off s' (xs @ [x])
    \<and> (\<forall>y. unlinked off s y \<and> y \<notin> set xs \<and> y \<noteq> x \<longrightarrow> unlinked off s' y)"
  using insert_last [of off "fst s" "snd s" "piles off xs" x] assms in_piles [of off x xs]
    holds_step [of "InsertAsNextMost off x" "fst s" "snd s" off "xs @ [x]" xs x]
  by (simp add: holds_def unlinked_def)

lemma holds_before:
  assumes "holds off s (xs @ z # zs)" "unlinked off s x" "x \<notin> set (xs @ z # zs)"
  shows "\<exists>s'. Insert off x z s = Some s' \<and> holds off s' (xs @ x # z # zs)
    \<and> (\<forall>y. unlinked off s y \<and> y \<notin> set (xs @ z # zs) \<and> y \<noteq> x \<longrightarrow> unlinked off s' y)"
  using insert_before [of off "fst s" "snd s" "piles off xs" z "piles off zs" x] assms in_piles [of off x "xs @ z # zs"]
    holds_step [of "Insert off x z" "fst s" "snd s" off "xs @ x # z # zs" "xs @ z # zs" x]
  by (simp add: holds_def unlinked_def)

lemma holds_remove:
  assumes "holds off s (xs @ x # ys)"
  shows "\<exists>s'. Remove off x s = Some s' \<and> holds off s' (xs @ ys) \<and> unlinked off s' x
    \<and> (\<forall>y. unlinked off s y \<and> y \<notin> set (xs @ x # ys) \<longrightarrow> unlinked off s' y)"
proof -
  obtain h' l' where *: "Remove off x s = Some (h', l')" "dll off h' l' (piles off xs @ piles off ys)" "loose off h' (PileFromPobj off x)"
      "\<forall>a. a \<notin> set (piles off (xs @ x # ys)) \<longrightarrow> h' a = fst s a"
    using remove_element [of off "fst s" "snd s" "piles off xs" x "piles off ys"] assms by (auto simp: holds_def)
  show ?thesis
  proof (intro exI [of _ "(h', l')"] conjI allI impI)
    show "Remove off x s = Some (h', l')" "holds off (h', l') (xs @ ys)" "unlinked off (h', l') x"
      using *(1-3) by (simp_all add: holds_def unlinked_def)
    show "unlinked off (h', l') y" if "unlinked off s y \<and> y \<notin> set (xs @ x # ys)" for y
      using unlinked_frame [of off "xs @ x # ys" x h' "fst s" "snd s" y l'] *(4) that by simp
  qed
qed

interpretation ilist: object_sequence "holds off" "unlinked off" "InsertAsPrevMost off" "InsertAsNextMost off" "Insert off" "Remove off" for off
  by unfold_locales (rule holds_distinct holds_first holds_last holds_before holds_remove; assumption)+

text \<open>The counted list: the counter is the length, which always fits because the elements have distinct addresses.\<close>

definition holds_counted :: "ptr \<Rightarrow> ile_heap \<times> CCountedInvasiveList \<Rightarrow> ptr list \<Rightarrow> bool" where
  "holds_counted off s xs \<longleftrightarrow> holds off (fst s, m_base (snd s)) xs \<and> m_c (snd s) = length xs"

lemma holds_length:
  assumes "holds off s xs"
  shows "length xs < 2 ^ 64"
proof -
  have d: "distinct (piles off xs)" "off \<notin> set (piles off xs)"
    using assms by (auto simp: holds_def dll_def)
  have "length xs = card (set (piles off xs))"
    using distinct_card [OF d(1)] by simp
  also have "\<dots> < card (UNIV :: ptr set)"
    using d(2) by (intro psubset_card_mono) auto
  finally show ?thesis
    by (simp add: card_word)
qed

lemma unlinked_heap: "unlinked off s y \<longleftrightarrow> unlinked off (fst s, l) y"
  by (simp add: unlinked_def)

lemma holds_counted_base: "holds_counted off s xs \<Longrightarrow> holds off (fst s, m_base (snd s)) xs"
  by (simp add: holds_counted_def)

text \<open>An operation of the base class with the counter set to the new length.\<close>

lemma counted_step:
  assumes "\<exists>s1. r = Some s1 \<and> holds off s1 ys \<and> (\<forall>y. unlinked off (fst s, m_base (snd s)) y \<and> P y \<longrightarrow> unlinked off s1 y)"
    and "length ys < 2 ^ 64 \<Longrightarrow> c = length ys"
  shows "\<exists>s'. counted c r = Some s' \<and> holds_counted off s' ys \<and> (\<forall>y. unlinked off s y \<and> P y \<longrightarrow> unlinked off s' y)"
proof -
  obtain h l where s1: "r = Some (h, l)" "holds off (h, l) ys"
      "\<forall>y. unlinked off (fst s, m_base (snd s)) y \<and> P y \<longrightarrow> unlinked off (h, l) y"
    using assms(1) by auto
  have "c = length ys"
    using assms(2) holds_length [OF s1(2)] .
  then show ?thesis
    using s1 by (auto simp: counted_def holds_counted_def unlinked_def)
qed

lemma counted_first:
  assumes "holds_counted off s xs" "unlinked off s x" "x \<notin> set xs"
  shows "\<exists>s'. Counted_InsertAsPrevMost off x s = Some s' \<and> holds_counted off s' (x # xs)
    \<and> (\<forall>y. unlinked off s y \<and> y \<notin> set xs \<and> y \<noteq> x \<longrightarrow> unlinked off s' y)"
  unfolding Counted_InsertAsPrevMost_def
  using holds_first [OF holds_counted_base [OF assms(1)] _ assms(3)] assms(1,2)
  by (intro counted_step) (auto simp: holds_counted_def unlinked_def)

lemma counted_last:
  assumes "holds_counted off s xs" "unlinked off s x" "x \<notin> set xs"
  shows "\<exists>s'. Counted_InsertAsNextMost off x s = Some s' \<and> holds_counted off s' (xs @ [x])
    \<and> (\<forall>y. unlinked off s y \<and> y \<notin> set xs \<and> y \<noteq> x \<longrightarrow> unlinked off s' y)"
  unfolding Counted_InsertAsNextMost_def
  using holds_last [OF holds_counted_base [OF assms(1)] _ assms(3)] assms(1,2)
  by (intro counted_step) (auto simp: holds_counted_def unlinked_def)

lemma counted_before:
  assumes "holds_counted off s (xs @ z # zs)" "unlinked off s x" "x \<notin> set (xs @ z # zs)"
  shows "\<exists>s'. Counted_Insert off x z s = Some s' \<and> holds_counted off s' (xs @ x # z # zs)
    \<and> (\<forall>y. unlinked off s y \<and> y \<notin> set (xs @ z # zs) \<and> y \<noteq> x \<longrightarrow> unlinked off s' y)"
  unfolding Counted_Insert_def
  using holds_before [OF holds_counted_base [OF assms(1)] _ assms(3)] assms(1,2)
  by (intro counted_step) (auto simp: holds_counted_def unlinked_def)

lemma counted_remove:
  assumes "holds_counted off s (xs @ x # ys)"
  shows "\<exists>s'. Counted_Remove off x s = Some s' \<and> holds_counted off s' (xs @ ys) \<and> unlinked off s' x
    \<and> (\<forall>y. unlinked off s y \<and> y \<notin> set (xs @ x # ys) \<longrightarrow> unlinked off s' y)"
proof -
  obtain s1 where s1: "Remove off x (fst s, m_base (snd s)) = Some s1" "holds off s1 (xs @ ys)" "unlinked off s1 x"
      "\<forall>y. unlinked off (fst s, m_base (snd s)) y \<and> y \<notin> set (xs @ x # ys) \<longrightarrow> unlinked off s1 y"
    using holds_remove [OF holds_counted_base [OF assms]] by blast
  have "\<exists>s'. Counted_Remove off x s = Some s' \<and> holds_counted off s' (xs @ ys)
      \<and> (\<forall>y. unlinked off s y \<and> y \<notin> set (xs @ x # ys) \<longrightarrow> unlinked off s' y)"
    unfolding Counted_Remove_def using s1 assms
    by (intro counted_step) (auto simp: holds_counted_def)
  moreover have "fst s' = fst s1" if "Counted_Remove off x s = Some s'" for s'
    using that s1(1) by (cases s1) (auto simp: Counted_Remove_def counted_def)
  ultimately show ?thesis
    using s1(3) by (auto simp: unlinked_def)
qed

lemma holds_counted_distinct: "holds_counted off s xs \<Longrightarrow> distinct xs"
  using holds_distinct holds_counted_base by blast

interpretation clist: object_sequence "holds_counted off" "unlinked off" "Counted_InsertAsPrevMost off"
    "Counted_InsertAsNextMost off" "Counted_Insert off" "Counted_Remove off" for off
  by unfold_locales (rule holds_counted_distinct counted_first counted_last counted_before counted_remove; assumption)+

section \<open>Walking the list\<close>

lemma chain_nth:
  assumes "chain h p xs n" "i < length xs"
  shows "h (xs ! i) = Some \<lparr>m_pilePrev = (p # xs) ! i, m_pileNext = (xs @ [n]) ! (i + 1)\<rparr>"
  using assms
proof (induction xs arbitrary: p i)
  case (Cons x xs)
  then show ?case
    by (cases i; cases xs) auto
qed simp

lemma piles_nth: "i < length ys \<Longrightarrow> PobjFromPile off (piles off ys ! i) = ys ! i"
  by simp

lemma holds_links:
  assumes "holds off (h, l) xs" "i < length xs"
  shows "Next off h (xs ! i) = Some ((xs @ [0]) ! (i + 1)) \<and> Prev off h (xs ! i) = Some ((0 # xs) ! i)
    \<and> FMember off h (xs ! i) = Some True"
proof -
  have d: "chain h off (piles off xs) off" "- 1 \<notin> set (piles off xs)" "off \<noteq> - 1"
    using assms(1) by (simp_all add: holds_def dll_def)
  have e: "h (PileFromPobj off (xs ! i)) = Some \<lparr>m_pilePrev = piles off (0 # xs) ! i, m_pileNext = piles off (xs @ [0]) ! (i + 1)\<rparr>"
    using chain_nth [OF d(1), of i] assms(2) by simp
  have "piles off (0 # xs) ! i \<in> insert off (set (piles off xs))"
    using nth_mem [of i "piles off (0 # xs)"] assms(2) by simp
  then have "piles off (0 # xs) ! i \<noteq> - 1"
    using d(2,3) by (auto simp only: insert_iff)
  then show ?thesis
    using e assms(2) piles_nth [of "i + 1" "xs @ [0]" off] piles_nth [of i "0 # xs" off]
    by (simp add: Next_def Prev_def FMember_def del: list.map map_append)
qed

lemma holds_ends:
  assumes "holds off (h, l) xs"
  shows "PrevMost off l = hd (xs @ [0]) \<and> NextMost off l = last (0 # xs) \<and> (FEmpty off l \<longleftrightarrow> xs = [])"
proof -
  have d: "m_pilePrevMost l = hd (piles off xs @ [off])" "m_pileNextMost l = last (off # piles off xs)" "off \<notin> set (piles off xs)"
    using assms by (simp_all add: holds_def dll_def)
  have "PobjFromPile off off = 0"
    by (simp add: PobjFromPile_def)
  then show ?thesis
    using d by (cases xs) (auto simp: PrevMost_def NextMost_def FEmpty_def last_map)
qed

section \<open>Properties\<close>

text \<open>
  C37: any history of insertions and removals on a \<open>CCountedInvasiveList\<close> over loose objects, applied where the code's assertions allow,
  runs without a fault and gives the list that the same operations give on a plain list: the ends, the links in
  both directions, membership and the count agree with it, for every offset of the element in its object.
\<close>

theorem counted_list_history:
  assumes "off \<noteq> - 1" "\<forall>p \<in> U. loose off h (PileFromPobj off p)" "seq_subject ` set ops \<subseteq> U" "seq_run ops [] = Some xs"
  shows "\<exists>h' l'. list_run (list_apply (Counted_InsertAsPrevMost off) (Counted_InsertAsNextMost off) (Counted_Insert off)
        (Counted_Remove off)) ops (h, CCountedInvasiveList_new off) = Some (h', l')
    \<and> Count l' = length xs \<and> PrevMost off (m_base l') = hd (xs @ [0]) \<and> NextMost off (m_base l') = last (0 # xs)
    \<and> (FEmpty off (m_base l') \<longleftrightarrow> xs = [])
    \<and> (\<forall>i < length xs. Next off h' (xs ! i) = Some ((xs @ [0]) ! (i + 1)) \<and> Prev off h' (xs ! i) = Some ((0 # xs) ! i))
    \<and> (\<forall>p \<in> U. FMember off h' p = Some (p \<in> set xs))"
proof -
  have "holds_counted off (h, CCountedInvasiveList_new off) []"
    using assms(1)
    by (simp add: holds_counted_def holds_def dll_def CCountedInvasiveList_new_def CInvasiveList_new_def List_Empty_def)
  moreover have "\<forall>x \<in> U - set []. unlinked off (h, CCountedInvasiveList_new off) x"
    using assms(2) by (simp add: unlinked_def)
  ultimately obtain s' where s': "list_run (list_apply (Counted_InsertAsPrevMost off) (Counted_InsertAsNextMost off) (Counted_Insert off)
        (Counted_Remove off)) ops (h, CCountedInvasiveList_new off) = Some s'"
      "holds_counted off s' xs" "\<forall>x \<in> U - set xs. unlinked off s' x"
    using clist.run_refines [OF _ _ assms(3,4)] by blast
  obtain h' l' where e: "s' = (h', l')"
    by (cases s')
  have holds: "holds off (h', m_base l') xs" "Count l' = length xs"
    using s'(2) e by (simp_all add: holds_counted_def Count_def)
  have "FMember off h' p = Some (p \<in> set xs)" if "p \<in> U" for p
  proof (cases "p \<in> set xs")
    case True
    then show ?thesis
      using holds_links [OF holds(1)] by (auto simp: in_set_conv_nth)
  next
    case False
    then show ?thesis
      using s'(3) that e by (simp add: unlinked_def loose_def FMember_def CElement_new_def)
  qed
  then show ?thesis
    using s'(1) e holds(2) holds_ends [OF holds(1)] holds_links [OF holds(1)] by auto
qed

theorem counted_list_history_witness:
  "\<exists>h' l'. list_run (list_apply (Counted_InsertAsPrevMost 8) (Counted_InsertAsNextMost 8) (Counted_Insert 8) (Counted_Remove 8))
      [First 64, Last 128, Before 192 128, Rem 64]
      ((\<lambda>a. if a \<in> {72, 136, 200} then Some CElement_new else None), CCountedInvasiveList_new 8) = Some (h', l')
    \<and> Count l' = 2 \<and> PrevMost 8 (m_base l') = 192 \<and> Next 8 h' 192 = Some 128"
proof -
  let ?h = "\<lambda>a :: ptr. if a \<in> {72, 136, 200} then Some CElement_new else None"
  have "\<forall>p \<in> {64, 128, 192}. loose 8 ?h (PileFromPobj 8 p)"
    by (simp add: loose_def PileFromPobj_def)
  moreover have "seq_run [First (64 :: ptr), Last 128, Before 192 128, Rem 64] [] = Some [192, 128]"
    by simp
  ultimately show ?thesis
    using counted_list_history [of 8 "{64, 128, 192}" ?h "[First 64, Last 128, Before 192 128, Rem 64]" "[192, 128]"]
    by fastforce
qed

end
