(* ===== verification/Queues.thy ===== *)
theory Queues
  imports Ese_Prelude
begin

text \<open>
  The interface of a first-in first-out queue, and \<open>CStupidQueue\<close> of \<open>ms/collection.hxx\<close>, a ring
  buffer of fixed-size elements that doubles when it is full, modelled byte by byte. The ring
  satisfies the interface, so that its histories are histories of a list.
\<close>

section \<open>The interface of a queue\<close>

text \<open>
  A history of a queue: the values accepted and the values taken out, in order. An operation
  is applied only where \<open>ok\<close> holds; an enqueue reports whether it accepted.
\<close>

inductive fifo_run ::
  "('s \<Rightarrow> 'a \<Rightarrow> bool) \<Rightarrow> ('a \<Rightarrow> 's \<Rightarrow> ('s \<times> bool) option) \<Rightarrow> ('s \<Rightarrow> ('s \<times> 'b option) option) \<Rightarrow>
   's \<Rightarrow> 'a list \<Rightarrow> 'b list \<Rightarrow> 's \<Rightarrow> bool" for ok enq deq s where
  start: "fifo_run ok enq deq s [] [] s"
| accept: "fifo_run ok enq deq s ins outs t \<Longrightarrow> ok t x \<Longrightarrow> enq x t = Some (t', True) \<Longrightarrow>
    fifo_run ok enq deq s (ins @ [x]) outs t'"
| refuse: "fifo_run ok enq deq s ins outs t \<Longrightarrow> ok t x \<Longrightarrow> enq x t = Some (t', False) \<Longrightarrow>
    fifo_run ok enq deq s ins outs t'"
| take_out: "fifo_run ok enq deq s ins outs t \<Longrightarrow> deq t = Some (t', Some y) \<Longrightarrow>
    fifo_run ok enq deq s ins (outs @ [y]) t'"
| empty: "fifo_run ok enq deq s ins outs t \<Longrightarrow> deq t = Some (t', None) \<Longrightarrow>
    fifo_run ok enq deq s ins outs t'"

locale fifo =
  fixes inv :: "'s \<Rightarrow> bool" and items :: "'s \<Rightarrow> 'b list" and ok :: "'s \<Rightarrow> 'a \<Rightarrow> bool" and val :: "'a \<Rightarrow> 'b"
    and enq :: "'a \<Rightarrow> 's \<Rightarrow> ('s \<times> bool) option" and deq :: "'s \<Rightarrow> ('s \<times> 'b option) option"
  assumes enq_law: "inv s \<Longrightarrow> ok s x \<Longrightarrow>
      \<exists>s' acc. enq x s = Some (s', acc) \<and> inv s' \<and> items s' = (if acc then items s @ [val x] else items s)"
    and deq_law: "inv s \<Longrightarrow> \<exists>s'. deq s = Some (s', case items s of [] \<Rightarrow> None | y # _ \<Rightarrow> Some y)
      \<and> inv s' \<and> items s' = tl (items s)"
begin

lemma history:
  "fifo_run ok enq deq s ins outs t \<Longrightarrow> inv s \<Longrightarrow> inv t \<and> items s @ map val ins = outs @ items t"
proof (induction rule: fifo_run.induct)
  case (accept ins outs t x t')
  then show ?case
    using enq_law [of t x] by auto
next
  case (refuse ins outs t x t')
  then show ?case
    using enq_law [of t x] by auto
next
  case (take_out ins outs t t' y)
  then show ?case
    using deq_law [of t] by (cases "items t") auto
next
  case (empty ins outs t t')
  then show ?case
    using deq_law [of t] by (cases "items t") auto
qed simp

lemma never_stuck:
  assumes "fifo_run ok enq deq s ins outs t" "inv s"
  shows "deq t \<noteq> None" "ok t x \<Longrightarrow> enq x t \<noteq> None"
  using history [OF assms] deq_law [of t] enq_law [of t x] by auto

end

section \<open>\<open>CStupidQueue\<close>\<close>

text \<open>
  A ring of \<open>m_cAlloc\<close> elements of \<open>m_cbElement\<close> bytes; the entries lie after \<open>m_iHead\<close> up to
  \<open>m_iTail\<close>. The block is \<open>None\<close> for the null pointer, the \<open>DWORD\<close> members are natural numbers
  and every product and sum wraps at 32 bits. What \<open>malloc\<close> gives is an argument: \<open>None\<close>
  when it fails, otherwise the contents of the block.
\<close>

datatype SQ_ERR = SQ_errSuccess | SQ_errInvalidParameter | SQ_errOutOfMemory | SQ_wrnEmptyQueue

record CStupidQueue =
  m_cbElement :: nat
  m_iHead :: nat
  m_iTail :: nat
  m_cAlloc :: nat
  m_rg :: "BYTE list option"

definition dword :: "nat \<Rightarrow> nat" where "dword n = n mod 2 ^ 32"

definition malloc_block :: "(nat \<Rightarrow> BYTE) option \<Rightarrow> nat \<Rightarrow> BYTE list option" where
  "malloc_block mem n = map_option (\<lambda>f. map f [0..<n]) mem"

text \<open>The two sides of a \<open>memcpy\<close>: the bytes read at an offset, and written at one.\<close>

definition bytes_at :: "BYTE list \<Rightarrow> nat \<Rightarrow> nat \<Rightarrow> BYTE list option" where
  "bytes_at rg i n = (if i + n \<le> length rg then Some (take n (drop i rg)) else None)"

definition put_bytes :: "BYTE list \<Rightarrow> nat \<Rightarrow> BYTE list \<Rightarrow> BYTE list option" where
  "put_bytes rg i bs =
     (if i + length bs \<le> length rg then Some (take i rg @ bs @ drop (i + length bs) rg) else None)"

definition CStupidQueue_new :: "nat \<Rightarrow> CStupidQueue" where
  "CStupidQueue_new cbElement = \<lparr>m_cbElement = cbElement, m_iHead = 0, m_iTail = 0, m_cAlloc = 0, m_rg = None\<rparr>"

text \<open>The offset of an element.\<close>

definition PvElement :: "CStupidQueue \<Rightarrow> nat \<Rightarrow> nat" where
  "PvElement q iElement = dword (iElement * m_cbElement q)"

text \<open>The second half of \<open>ErrAdjustSize\<close>, on the new block; a remainder by zero faults.\<close>

definition unwrap :: "CStupidQueue \<Rightarrow> CStupidQueue option" where
  "unwrap q =
     (let half = m_cAlloc q div 2
      in if half = 0 then None
         else (let iT = dword (m_iTail q + 1) mod half
               in if iT \<noteq> 0
                  then do { rg \<leftarrow> m_rg q;
                            bs \<leftarrow> bytes_at rg (PvElement q 0) (dword (iT * m_cbElement q));
                            rg \<leftarrow> put_bytes rg (PvElement q half) bs;
                            Some (q\<lparr>m_rg := Some rg, m_iTail := dword (half + m_iTail q)\<rparr>) }
                  else Some q))"

definition ErrAdjustSize :: "(nat \<Rightarrow> BYTE) option \<Rightarrow> CStupidQueue \<Rightarrow> (CStupidQueue \<times> SQ_ERR) option" where
  "ErrAdjustSize mem q =
     (let cNew = dword (m_cAlloc q * 2)
      in case malloc_block mem (dword (m_cbElement q * cNew)) of
           None \<Rightarrow> Some (q, SQ_errOutOfMemory)
         | Some rgNew \<Rightarrow>
             do { rg \<leftarrow> m_rg q;
                  old \<leftarrow> bytes_at rg 0 (dword (m_cAlloc q * m_cbElement q));
                  rgNew \<leftarrow> put_bytes rgNew 0 old;
                  q \<leftarrow> unwrap (q\<lparr>m_cAlloc := cNew, m_rg := Some rgNew\<rparr>);
                  Some (q, SQ_errSuccess) })"

text \<open>The last part of \<open>ErrEnqueue\<close>: the entry is copied behind the last one.\<close>

definition store_entry :: "BYTE list \<Rightarrow> CStupidQueue \<Rightarrow> (CStupidQueue \<times> SQ_ERR) option" where
  "store_entry pvEntry q =
     (let q = q\<lparr>m_iTail := dword (m_iTail q + 1) mod m_cAlloc q\<rparr>
      in do { bs \<leftarrow> bytes_at pvEntry 0 (m_cbElement q); rg \<leftarrow> m_rg q;
              rg \<leftarrow> put_bytes rg (PvElement q (m_iTail q)) bs;
              Some (q\<lparr>m_rg := Some rg\<rparr>, SQ_errSuccess) })"

definition ErrEnqueue :: "(nat \<Rightarrow> BYTE) option \<Rightarrow> BYTE list \<Rightarrow> CStupidQueue \<Rightarrow> (CStupidQueue \<times> SQ_ERR) option" where
  "ErrEnqueue mem pvEntry q =
     (let (q, err) =
        (if m_cAlloc q = 0
         then (let q = q\<lparr>m_cAlloc := 32\<rparr>; rg = malloc_block mem (dword (m_cbElement q * m_cAlloc q))
               in (q\<lparr>m_rg := rg\<rparr>, if rg = None then SQ_errOutOfMemory else SQ_errSuccess))
         else (q, SQ_errSuccess))
      in if err \<noteq> SQ_errSuccess then Some (q, err)
         else do {
           (q, err) \<leftarrow> (if m_iHead q = dword (m_iTail q + 1) mod m_cAlloc q then ErrAdjustSize mem q
                        else Some (q, SQ_errSuccess));
           if err \<noteq> SQ_errSuccess then Some (q, err)
           else store_entry pvEntry q })"

text \<open>The entry read and the error; without an entry the output variable is left alone.\<close>

definition ErrPeek :: "CStupidQueue \<Rightarrow> (BYTE list option \<times> SQ_ERR) option" where
  "ErrPeek q =
     (if m_iHead q = m_iTail q then Some (None, SQ_wrnEmptyQueue)
      else if m_cAlloc q = 0 then None
      else (let iPeek = dword (m_iHead q + 1) mod m_cAlloc q
            in do { rg \<leftarrow> m_rg q; bs \<leftarrow> bytes_at rg (PvElement q iPeek) (m_cbElement q);
                    Some (Some bs, SQ_errSuccess) }))"

definition ErrDequeue :: "CStupidQueue \<Rightarrow> (CStupidQueue \<times> BYTE list option \<times> SQ_ERR) option" where
  "ErrDequeue q =
     do { (pvEntry, err) \<leftarrow> ErrPeek q;
          Some (if err = SQ_errSuccess then q\<lparr>m_iHead := dword (m_iHead q + 1) mod m_cAlloc q\<rparr> else q, pvEntry, err) }"

definition CStupidQueue_destroy :: "CStupidQueue \<Rightarrow> CStupidQueue" where
  "CStupidQueue_destroy q =
     (let q = (if m_rg q \<noteq> None then q\<lparr>m_rg := None, m_cAlloc := 0\<rparr> else q)
      in q\<lparr>m_iHead := 0, m_iTail := 0\<rparr>)"

section \<open>The ring as a list\<close>

definition slot :: "nat \<Rightarrow> BYTE list \<Rightarrow> nat \<Rightarrow> BYTE list" where
  "slot cb rg j = take cb (drop (j * cb) rg)"

lemma slot_before:
  assumes "j < p" "p * cb \<le> length xs"
  shows "slot cb (xs @ ys) j = slot cb xs j"
proof -
  have "Suc j * cb \<le> p * cb"
    using assms(1) by (intro mult_le_mono1) simp
  then have "cb \<le> length xs - j * cb" "j * cb \<le> length xs"
    using assms(2) by auto
  then show ?thesis
    by (simp add: slot_def)
qed

lemma slot_take: "j < p \<Longrightarrow> slot cb (take (p * cb) xs) j = slot cb xs j"
proof -
  assume "j < p"
  then have "Suc j * cb \<le> p * cb"
    by (intro mult_le_mono1) simp
  then have "cb \<le> p * cb - j * cb"
    by simp
  then show ?thesis
    by (simp add: slot_def drop_take min_absorb1)
qed

lemma slot_after: "p \<le> j \<Longrightarrow> length xs = p * cb \<Longrightarrow> slot cb (xs @ ys) j = slot cb ys (j - p)"
  by (simp add: slot_def diff_mult_distrib)

lemma slot_drop: "slot cb (drop (p * cb) xs) j = slot cb xs (p + j)"
  by (simp add: slot_def add_mult_distrib add.commute)

text \<open>Writing whole elements at the element \<open>p\<close>.\<close>

lemma put_elements:
  assumes "length rg = n * cb" "length bs = m * cb" "p + m \<le> n"
  shows "\<exists>rg'. put_bytes rg (p * cb) bs = Some rg' \<and> length rg' = n * cb
    \<and> (\<forall>j. slot cb rg' j = (if j < p then slot cb rg j else if j < p + m then slot cb bs (j - p) else slot cb rg j))"
proof -
  have le: "p * cb + m * cb \<le> n * cb"
    using mult_le_mono1 [OF assms(3), of cb] by (simp add: add_mult_distrib)
  let ?rg = "take (p * cb) rg @ bs @ drop (p * cb + m * cb) rg"
  have "slot cb ?rg j = slot cb rg j" if "j < p" for j
    using slot_before [of j p cb "take (p * cb) rg"] slot_take [OF that, of cb rg] that assms(1,3) by simp
  moreover have "slot cb ?rg j = slot cb bs (j - p)" if "\<not> j < p" "j < p + m" for j
    using slot_after [of p j "take (p * cb) rg" cb] slot_before [of "j - p" m cb bs] that assms by simp
  moreover have "slot cb ?rg j = slot cb rg j" if "\<not> j < p + m" for j
    using slot_after [of p j "take (p * cb) rg" cb] slot_after [of m "j - p" bs cb] slot_drop [of cb "p + m" rg "j - p - m"] that
      assms by (simp add: add_mult_distrib)
  moreover have "put_bytes rg (p * cb) bs = Some ?rg" "length ?rg = n * cb"
    using le assms(1,2) by (simp_all add: put_bytes_def)
  ultimately show ?thesis
    by auto
qed

definition entry_count :: "CStupidQueue \<Rightarrow> nat" where
  "entry_count q = (m_iTail q + m_cAlloc q - m_iHead q) mod m_cAlloc q"

definition sq_items :: "CStupidQueue \<Rightarrow> BYTE list list" where
  "sq_items q = (case m_rg q of None \<Rightarrow> []
     | Some rg \<Rightarrow> map (\<lambda>i. slot (m_cbElement q) rg ((m_iHead q + 1 + i) mod m_cAlloc q)) [0..<entry_count q])"

definition sq_ring :: "CStupidQueue \<Rightarrow> BYTE list \<Rightarrow> bool" where
  "sq_ring q rg \<longleftrightarrow> m_rg q = Some rg \<and> length rg = m_cAlloc q * m_cbElement q \<and> 2 \<le> m_cAlloc q
     \<and> m_cAlloc q * m_cbElement q < 2 ^ 32 \<and> m_iHead q < m_cAlloc q \<and> m_iTail q < m_cAlloc q \<and> 0 < m_cbElement q"

definition sq_inv :: "nat \<Rightarrow> CStupidQueue \<Rightarrow> bool" where
  "sq_inv cb q \<longleftrightarrow> 0 < cb \<and> (q = CStupidQueue_new cb \<or> m_cbElement q = cb \<and> (\<exists>rg. sq_ring q rg))"

lemma dword_small [simp]: "n < 2 ^ 32 \<Longrightarrow> dword n = n"
  by (simp add: dword_def)

lemma ring_bounds:
  assumes "sq_ring q rg"
  shows "m_cAlloc q < 2 ^ 32" "dword (m_iTail q + 1) = m_iTail q + 1" "dword (m_iHead q + 1) = m_iHead q + 1"
    "j < m_cAlloc q \<Longrightarrow> PvElement q j = j * m_cbElement q"
proof -
  have "m_cAlloc q \<le> m_cAlloc q * m_cbElement q"
    using assms by (simp add: sq_ring_def)
  then show c: "m_cAlloc q < 2 ^ 32"
    using assms unfolding sq_ring_def by linarith
  show "dword (m_iTail q + 1) = m_iTail q + 1" "dword (m_iHead q + 1) = m_iHead q + 1"
    using assms c by (simp_all add: sq_ring_def)
  show "PvElement q j = j * m_cbElement q" if "j < m_cAlloc q"
  proof -
    have "j * m_cbElement q \<le> m_cAlloc q * m_cbElement q"
      using that by (intro mult_le_mono1) simp
    then have "j * m_cbElement q < 2 ^ 32"
      using assms unfolding sq_ring_def by linarith
    then show ?thesis
      by (simp add: PvElement_def)
  qed
qed

section \<open>The operations on the ring\<close>

lemma bytes_at_slot: "(j + 1) * cb \<le> length rg \<Longrightarrow> bytes_at rg (j * cb) cb = Some (slot cb rg j)"
  by (simp add: bytes_at_def slot_def add.commute)

lemma mod_less_twice: "a < (c :: nat) \<Longrightarrow> b < c \<Longrightarrow> (a + b) mod c = (if a + b < c then a + b else a + b - c)"
  by (simp add: mod_if)

lemma entry_count_ring:
  assumes "sq_ring q rg"
  shows "entry_count q = (if m_iHead q \<le> m_iTail q then m_iTail q - m_iHead q else m_iTail q + m_cAlloc q - m_iHead q)"
  using assms by (auto simp: entry_count_def sq_ring_def mod_if)

lemma ErrDequeue_ring:
  assumes "sq_ring q rg"
  shows "\<exists>q'. ErrDequeue q = Some (q', case sq_items q of [] \<Rightarrow> (None, SQ_wrnEmptyQueue) | y # _ \<Rightarrow> (Some y, SQ_errSuccess))
    \<and> sq_ring q' rg \<and> m_cbElement q' = m_cbElement q \<and> sq_items q' = tl (sq_items q)"
proof (cases "m_iHead q = m_iTail q")
  case True
  then show ?thesis
    using assms entry_count_ring [OF assms] by (simp add: ErrDequeue_def ErrPeek_def sq_items_def sq_ring_def)
next
  case False
  let ?c = "m_cAlloc q" and ?cb = "m_cbElement q" and ?p = "(m_iHead q + 1) mod m_cAlloc q"
  have b: "?p < ?c" "m_iHead q < ?c" "m_iTail q < ?c" "m_rg q = Some rg" "length rg = ?c * ?cb" "0 < ?c"
    using assms by (auto simp: sq_ring_def)
  have "(?p + 1) * ?cb \<le> ?c * ?cb"
    using b(1) by (intro mult_le_mono1) simp
  then have peek: "ErrPeek q = Some (Some (slot ?cb rg ?p), SQ_errSuccess)"
    using False b ring_bounds [OF assms] bytes_at_slot [of ?p ?cb rg] by (simp add: ErrPeek_def)
  let ?q = "q\<lparr>m_iHead := ?p\<rparr>"
  have ring: "sq_ring ?q rg"
    using assms b by (simp add: sq_ring_def)
  have n: "entry_count q = Suc (entry_count ?q)"
    using entry_count_ring [OF assms] entry_count_ring [OF ring] False b by (auto simp: mod_if split: if_splits)
  have "(?p + 1 + i) mod ?c = (m_iHead q + 1 + Suc i) mod ?c" for i
    by (metis add.assoc add.commute mod_add_right_eq plus_1_eq_Suc)
  then have "sq_items q = slot ?cb rg ?p # sq_items ?q"
    using b(4) n by (simp add: sq_items_def upt_conv_Cons map_Suc_upt [symmetric] del: upt_Suc)
  then show ?thesis
    using peek ring ring_bounds(3) [OF assms] by (auto simp: ErrDequeue_def)
qed

text \<open>Putting an entry after the last when there is room.\<close>

lemma enqueue_room:
  assumes "sq_ring q rg" "m_iHead q \<noteq> (m_iTail q + 1) mod m_cAlloc q" "length bs = m_cbElement q"
  shows "\<exists>q' rg'. store_entry bs q = Some (q', SQ_errSuccess)
    \<and> sq_ring q' rg' \<and> m_cbElement q' = m_cbElement q \<and> sq_items q' = sq_items q @ [bs]"
proof -
  let ?c = "m_cAlloc q" and ?cb = "m_cbElement q" and ?t = "(m_iTail q + 1) mod m_cAlloc q"
  have b: "?t < ?c" "m_iHead q < ?c" "m_iTail q < ?c" "m_rg q = Some rg" "length rg = ?c * ?cb" "0 < ?c"
    using assms(1) by (auto simp: sq_ring_def)
  have bs: "length bs = 1 * ?cb" "?t + 1 \<le> ?c"
    using assms(3) b(1) by auto
  obtain rg' where rg': "put_bytes rg (?t * ?cb) bs = Some rg'" "length rg' = ?c * ?cb"
      "\<forall>j. slot ?cb rg' j = (if j < ?t then slot ?cb rg j else if j < ?t + 1 then slot ?cb bs (j - ?t) else slot ?cb rg j)"
    using put_elements [OF b(5) bs] by blast
  let ?q = "q\<lparr>m_iTail := ?t, m_rg := Some rg'\<rparr>"
  have ring: "sq_ring ?q rg'"
    using assms(1) b rg'(2) by (simp add: sq_ring_def)
  have n: "entry_count ?q = Suc (entry_count q)"
    using entry_count_ring [OF assms(1)] entry_count_ring [OF ring] assms(2) b by (auto simp: mod_if split: if_splits)
  have last: "(m_iHead q + 1 + entry_count q) mod ?c = ?t"
    using entry_count_ring [OF assms(1)] b by (auto simp: mod_if split: if_splits)
  have other: "(m_iHead q + 1 + i) mod ?c \<noteq> ?t" if "i < entry_count q" for i
  proof
    assume "(m_iHead q + 1 + i) mod ?c = ?t"
    then have "?c dvd (m_iHead q + 1 + entry_count q) - (m_iHead q + 1 + i)"
      using that last mod_eq_dvd_iff_nat [of "m_iHead q + 1 + i" "m_iHead q + 1 + entry_count q" ?c] by simp
    then have "?c \<le> entry_count q - i"
      using that by (intro dvd_imp_le) simp_all
    moreover have "entry_count q < ?c"
      using b(6) by (simp add: entry_count_def)
    ultimately show False
      by simp
  qed
  have "slot ?cb rg' ((m_iHead q + 1 + i) mod ?c) = slot ?cb rg ((m_iHead q + 1 + i) mod ?c)" if "i < entry_count q" for i
    using rg'(3) other [OF that] by simp
  moreover have "slot ?cb rg' ?t = bs"
    using rg'(3) assms(3) by (simp add: slot_def)
  ultimately have "sq_items ?q = sq_items q @ [bs]"
    using b(4) n last by (simp add: sq_items_def)
  moreover have "PvElement (q\<lparr>m_iTail := ?t\<rparr>) ?t = ?t * ?cb"
    using ring_bounds(4) [OF assms(1) b(1)] by (simp add: PvElement_def)
  ultimately show ?thesis
    using ring rg'(1) b(4) assms(3) ring_bounds(2) [OF assms(1)] by (auto simp: store_entry_def bytes_at_def)
qed

text \<open>Doubling a full ring keeps the entries and makes room.\<close>

lemma unwrap_ring:
  assumes "m_rg q = Some rg" "m_cAlloc q = 2 * c" "length rg = m_cAlloc q * m_cbElement q" "m_cAlloc q * m_cbElement q < 2 ^ 32"
    and "2 \<le> c" "0 < m_cbElement q" "m_iTail q < c" "m_iHead q = (m_iTail q + 1) mod c"
  shows "\<exists>rg'. unwrap q = Some (q\<lparr>m_rg := Some rg', m_iTail := (if m_iHead q = 0 then m_iTail q else c + m_iTail q)\<rparr>)
    \<and> length rg' = length rg \<and> (\<forall>j < c. slot (m_cbElement q) rg' j = slot (m_cbElement q) rg j)
    \<and> (\<forall>j < m_iHead q. slot (m_cbElement q) rg' (c + j) = slot (m_cbElement q) rg j)"
proof -
  let ?cb = "m_cbElement q" and ?h = "m_iHead q"
  have big: "2 * c < 2 ^ 32"
    using assms(2,4,6) by (metis (no_types) Suc_leI less_le_trans mult.right_neutral mult_le_mono2 not_less One_nat_def)
  have h: "dword (m_iTail q + 1) mod c = ?h"
    using assms(7,8) big by simp
  show ?thesis
  proof (cases "?h = 0")
    case True
    then show ?thesis
      using h assms(1,2,5) by (intro exI [of _ rg]) (simp add: unwrap_def)
  next
    case False
    then have ht: "?h = m_iTail q + 1" "?h < c"
      using assms(7,8) by (auto simp: mod_if split: if_splits)
    have hcb: "?h * ?cb \<le> 2 * c * ?cb" "c * ?cb \<le> 2 * c * ?cb"
      using ht(2) by (intro mult_le_mono1; simp)+
    then have w: "dword (?h * ?cb) = ?h * ?cb" "PvElement q c = c * ?cb" "dword (c + m_iTail q) = c + m_iTail q"
      using assms(2,4) big ht by (simp_all add: PvElement_def)
    have src: "bytes_at rg 0 (?h * ?cb) = Some (take (?h * ?cb) rg)"
      using hcb(1) assms(2,3) by (simp add: bytes_at_def)
    have len: "length rg = (2 * c) * ?cb" "length (take (?h * ?cb) rg) = ?h * ?cb" "c + ?h \<le> 2 * c"
      using assms(2,3) hcb(1) ht(2) by simp_all
    obtain rg' where rg': "put_bytes rg (c * ?cb) (take (?h * ?cb) rg) = Some rg'" "length rg' = 2 * c * ?cb"
        "\<forall>j. slot ?cb rg' j = (if j < c then slot ?cb rg j else if j < c + ?h then slot ?cb (take (?h * ?cb) rg) (j - c) else slot ?cb rg j)"
      using put_elements [OF len] by blast
    have "slot ?cb rg' (c + j) = slot ?cb rg j" if "j < ?h" for j
      using rg'(3) that slot_take [OF that, of ?cb rg] by simp
    then show ?thesis
      using False h w src rg' assms(1,2,5) len(1) by (intro exI [of _ rg']) (simp add: unwrap_def PvElement_def)
  qed
qed

lemma ErrAdjustSize_ring:
  assumes "sq_ring q rg" "m_iHead q = (m_iTail q + 1) mod m_cAlloc q" "2 * m_cAlloc q * m_cbElement q < 2 ^ 32"
  shows "\<exists>q' rg'. ErrAdjustSize (Some f) q = Some (q', SQ_errSuccess) \<and> sq_ring q' rg' \<and> m_cbElement q' = m_cbElement q
    \<and> sq_items q' = sq_items q \<and> m_iHead q' \<noteq> (m_iTail q' + 1) mod m_cAlloc q'"
proof -
  let ?c = "m_cAlloc q" and ?cb = "m_cbElement q" and ?h = "m_iHead q"
  have b: "m_rg q = Some rg" "length rg = ?c * ?cb" "2 \<le> ?c" "?c * ?cb < 2 ^ 32" "?h < ?c" "m_iTail q < ?c" "0 < ?cb"
    using assms(1) by (auto simp: sq_ring_def)
  have "2 * ?c \<le> 2 * ?c * ?cb"
    using b(7) by simp
  then have "2 * ?c < 2 ^ 32"
    using assms(3) by linarith
  then have w: "dword (?c * 2) = 2 * ?c" "dword (?cb * (2 * ?c)) = 2 * ?c * ?cb" "dword (?c * ?cb) = ?c * ?cb"
    using assms(3) b(4) by (simp_all add: ac_simps)
  define new where "new = rg @ drop (?c * ?cb) (map f [0..<2 * ?c * ?cb])"
  have new: "put_bytes (map f [0..<2 * ?c * ?cb]) 0 rg = Some new" "length new = 2 * ?c * ?cb"
    using b(2) by (simp_all add: put_bytes_def new_def)
  have slots: "slot ?cb new j = slot ?cb rg j" if "j < ?c" for j
    using slot_before [OF that, of ?cb rg] b(2) by (simp add: new_def)
  let ?q = "q\<lparr>m_cAlloc := 2 * ?c, m_rg := Some new\<rparr>"
  obtain rg' where u: "unwrap ?q = Some (?q\<lparr>m_rg := Some rg', m_iTail := (if ?h = 0 then m_iTail q else ?c + m_iTail q)\<rparr>)"
      "length rg' = length new" "\<forall>j < ?c. slot ?cb rg' j = slot ?cb new j" "\<forall>j < ?h. slot ?cb rg' (?c + j) = slot ?cb new j"
    using unwrap_ring [of ?q new ?c] new(2) assms(2,3) b by (auto cong: if_cong)
  let ?q' = "?q\<lparr>m_rg := Some rg', m_iTail := (if ?h = 0 then m_iTail q else ?c + m_iTail q)\<rparr>"
  have ring: "sq_ring ?q' rg'"
    using b assms(3) u(2) new(2) by (auto simp: sq_ring_def)
  have full: "?h = 0 \<and> m_iTail q = ?c - 1 \<or> ?h = m_iTail q + 1"
    using assms(2) b(3,6) by (auto simp: mod_if split: if_splits)
  have n: "entry_count q = ?c - 1" "entry_count ?q' = ?c - 1"
    using full entry_count_ring [OF assms(1)] entry_count_ring [OF ring] b by auto
  have "slot ?cb rg' ((?h + 1 + i) mod (2 * ?c)) = slot ?cb rg ((?h + 1 + i) mod ?c)" if "i < ?c - 1" for i
  proof (cases "?h + 1 + i < ?c")
    case True
    then show ?thesis
      using u(3) slots by simp
  next
    case False
    then obtain j where j: "?h + 1 + i = ?c + j"
      using le_Suc_ex [of ?c "?h + 1 + i"] by auto
    with that have "j < ?h"
      by linarith
    with j have "(?h + 1 + i) mod (2 * ?c) = ?c + j" "(?h + 1 + i) mod ?c = j"
      using b(5) by simp_all
    then show ?thesis
      using u(4) slots b(5) \<open>j < ?h\<close> by simp
  qed
  then have "sq_items ?q' = sq_items q"
    using n b(1) by (simp add: sq_items_def)
  moreover have "m_iHead ?q' \<noteq> (m_iTail ?q' + 1) mod m_cAlloc ?q'"
    using full b by (auto simp: mod_if split: if_splits)
  moreover have "ErrAdjustSize (Some f) q = Some (?q', SQ_errSuccess)"
    using w b new(1) u(1) by (simp add: ErrAdjustSize_def malloc_block_def bytes_at_def)
  ultimately show ?thesis
    using ring by (intro exI [of _ ?q'] exI [of _ rg']) simp
qed

section \<open>The queue meets its interface\<close>

lemma ErrEnqueue_ring:
  assumes "sq_ring q rg" "length bs = m_cbElement q" "2 * m_cAlloc q * m_cbElement q < 2 ^ 32"
  shows "\<exists>q' rg' err. ErrEnqueue mem bs q = Some (q', err) \<and> m_cbElement q' = m_cbElement q
    \<and> (err = SQ_errSuccess \<and> sq_ring q' rg' \<and> sq_items q' = sq_items q @ [bs]
        \<or> err = SQ_errOutOfMemory \<and> q' = q \<and> mem = None \<and> m_iHead q = (m_iTail q + 1) mod m_cAlloc q)"
proof (cases "m_iHead q = (m_iTail q + 1) mod m_cAlloc q")
  case False
  then have "ErrEnqueue mem bs q = store_entry bs q"
    using ring_bounds(2) [OF assms(1)] assms(1) by (simp add: ErrEnqueue_def sq_ring_def)
  then show ?thesis
    using enqueue_room [OF assms(1) False assms(2)] by auto
next
  case full: True
  show ?thesis
  proof (cases mem)
    case None
    then show ?thesis
      using full ring_bounds(2) [OF assms(1)] assms(1) by (auto simp: ErrEnqueue_def ErrAdjustSize_def malloc_block_def sq_ring_def)
  next
    case (Some f)
    obtain q1 rg1 where q1: "ErrAdjustSize (Some f) q = Some (q1, SQ_errSuccess)" "sq_ring q1 rg1" "m_cbElement q1 = m_cbElement q"
        "sq_items q1 = sq_items q" "m_iHead q1 \<noteq> (m_iTail q1 + 1) mod m_cAlloc q1"
      using ErrAdjustSize_ring [OF assms(1) full assms(3)] by blast
    have "ErrEnqueue mem bs q = store_entry bs q1"
      using q1(1) full ring_bounds(2) [OF assms(1)] assms(1) Some by (simp add: ErrEnqueue_def sq_ring_def)
    moreover have "length bs = m_cbElement q1"
      using q1(3) assms(2) by simp
    ultimately show ?thesis
      using enqueue_room [OF q1(2,5), of bs] q1(3,4) by auto
  qed
qed

text \<open>The first enqueue allocates 32 elements.\<close>

lemma ErrEnqueue_new:
  assumes "0 < cb" "cb * 32 < 2 ^ 32" "length bs = cb"
  shows "\<exists>q' rg'. ErrEnqueue (Some f) bs (CStupidQueue_new cb) = Some (q', SQ_errSuccess) \<and> m_cbElement q' = cb
    \<and> sq_ring q' rg' \<and> sq_items q' = [bs]"
proof -
  let ?q = "(CStupidQueue_new cb)\<lparr>m_cAlloc := 32, m_rg := Some (map f [0..<cb * 32])\<rparr>"
  have ring: "sq_ring ?q (map f [0..<cb * 32])"
    using assms(1,2) by (simp add: sq_ring_def CStupidQueue_new_def)
  have h: "m_iHead ?q \<noteq> (m_iTail ?q + 1) mod m_cAlloc ?q" "length bs = m_cbElement ?q" "sq_items ?q = []"
    using assms(3) by (simp_all add: CStupidQueue_new_def sq_items_def entry_count_def)
  have "ErrEnqueue (Some f) bs (CStupidQueue_new cb) = store_entry bs ?q"
    using assms(2) by (simp add: ErrEnqueue_def CStupidQueue_new_def malloc_block_def)
  moreover have "m_cbElement ?q = cb"
    by (simp add: CStupidQueue_new_def)
  ultimately show ?thesis
    using enqueue_room [OF ring h(1,2)] h(3) by auto
qed

text \<open>
  An enqueue as the interface sees it: the result of \<open>malloc\<close> and the entry. It is applied
  to entries of the right size, while the next doubling stays below 4 GB, and the very first
  allocation has to succeed.
\<close>

definition sq_ok :: "nat \<Rightarrow> CStupidQueue \<Rightarrow> (nat \<Rightarrow> BYTE) option \<times> BYTE list \<Rightarrow> bool" where
  "sq_ok cb q x \<longleftrightarrow> length (snd x) = cb \<and> 32 * cb < 2 ^ 32 \<and> 2 * m_cAlloc q * cb < 2 ^ 32 \<and> (m_cAlloc q = 0 \<longrightarrow> fst x \<noteq> None)"

definition sq_enq :: "(nat \<Rightarrow> BYTE) option \<times> BYTE list \<Rightarrow> CStupidQueue \<Rightarrow> (CStupidQueue \<times> bool) option" where
  "sq_enq x q = do { (q, err) \<leftarrow> ErrEnqueue (fst x) (snd x) q; Some (q, err = SQ_errSuccess) }"

definition sq_deq :: "CStupidQueue \<Rightarrow> (CStupidQueue \<times> BYTE list option) option" where
  "sq_deq q = do { (q, entry, err) \<leftarrow> ErrDequeue q; Some (q, if err = SQ_errSuccess then entry else None) }"

lemma sq_items_new: "sq_items (CStupidQueue_new cb) = []"
  by (simp add: sq_items_def CStupidQueue_new_def)

lemma sq_enq_law:
  assumes "sq_inv cb q" "sq_ok cb q x"
  shows "\<exists>q' acc. sq_enq x q = Some (q', acc) \<and> sq_inv cb q' \<and> sq_items q' = (if acc then sq_items q @ [snd x] else sq_items q)"
proof (cases "q = CStupidQueue_new cb")
  case True
  then obtain f where "fst x = Some f"
    using assms(2) by (auto simp: sq_ok_def CStupidQueue_new_def)
  moreover obtain q' rg' where "ErrEnqueue (Some f) (snd x) (CStupidQueue_new cb) = Some (q', SQ_errSuccess)" "m_cbElement q' = cb"
      "sq_ring q' rg'" "sq_items q' = [snd x]"
    using ErrEnqueue_new [of cb "snd x" f] assms unfolding sq_inv_def sq_ok_def by (auto simp: mult.commute)
  ultimately show ?thesis
    using True assms(1) sq_items_new [of cb] unfolding sq_enq_def sq_inv_def by auto
next
  case False
  then obtain rg where ring: "sq_ring q rg" "m_cbElement q = cb"
    using assms(1) by (auto simp: sq_inv_def)
  have x: "length (snd x) = m_cbElement q" "2 * m_cAlloc q * m_cbElement q < 2 ^ 32"
    using assms(2) ring(2) by (simp_all add: sq_ok_def)
  obtain q' rg' err where q': "ErrEnqueue (fst x) (snd x) q = Some (q', err)" "m_cbElement q' = m_cbElement q"
      "err = SQ_errSuccess \<and> sq_ring q' rg' \<and> sq_items q' = sq_items q @ [snd x] \<or> err = SQ_errOutOfMemory \<and> q' = q"
    using ErrEnqueue_ring [OF ring(1) x, of "fst x"] by blast
  from q'(3) show ?thesis
  proof
    assume "err = SQ_errSuccess \<and> sq_ring q' rg' \<and> sq_items q' = sq_items q @ [snd x]"
    then show ?thesis
      using q'(1,2) ring(2) assms(1) by (intro exI [of _ q'] exI [of _ True]) (auto simp: sq_enq_def sq_inv_def)
  next
    assume "err = SQ_errOutOfMemory \<and> q' = q"
    then show ?thesis
      using q'(1) assms(1) by (intro exI [of _ q'] exI [of _ False]) (simp add: sq_enq_def)
  qed
qed

lemma sq_deq_law:
  assumes "sq_inv cb q"
  shows "\<exists>q'. sq_deq q = Some (q', case sq_items q of [] \<Rightarrow> None | y # _ \<Rightarrow> Some y) \<and> sq_inv cb q' \<and> sq_items q' = tl (sq_items q)"
proof (cases "q = CStupidQueue_new cb")
  case True
  then show ?thesis
    using assms sq_items_new [of cb] by (simp add: sq_deq_def ErrDequeue_def ErrPeek_def CStupidQueue_new_def)
next
  case False
  then obtain rg where ring: "sq_ring q rg" "m_cbElement q = cb"
    using assms by (auto simp: sq_inv_def)
  from ErrDequeue_ring [OF ring(1)] show ?thesis
    using ring assms by (auto simp: sq_deq_def sq_inv_def split: list.splits)
qed

interpretation squeue: fifo "sq_inv cb" sq_items "sq_ok cb" snd sq_enq sq_deq for cb
  by unfold_locales (rule sq_enq_law sq_deq_law; assumption)+

section \<open>Histories, result by result\<close>

text \<open>
  A ring as its user sees it: how many elements are allocated and the entries in it. An enqueue fails only when the ring is full and the allocation
  of a larger one fails; a dequeue and a peek fail only when it is empty.
\<close>

datatype sq_op = Enq "(nat \<Rightarrow> BYTE) option" "BYTE list" | Deq | Peek

fun ring_step :: "sq_op \<Rightarrow> nat \<times> BYTE list list \<Rightarrow> (BYTE list option \<times> SQ_ERR) \<times> nat \<times> BYTE list list" where
  "ring_step (Enq mem bs) (c, xs) =
     (if c = 0 then ((None, SQ_errSuccess), 32, xs @ [bs])
      else if Suc (length xs) < c then ((None, SQ_errSuccess), c, xs @ [bs])
      else if mem = None then ((None, SQ_errOutOfMemory), c, xs)
      else ((None, SQ_errSuccess), 2 * c, xs @ [bs]))"
| "ring_step Deq (c, xs) = (case xs of [] \<Rightarrow> ((None, SQ_wrnEmptyQueue), c, []) | x # ys \<Rightarrow> ((Some x, SQ_errSuccess), c, ys))"
| "ring_step Peek (c, xs) = (case xs of [] \<Rightarrow> ((None, SQ_wrnEmptyQueue), c, []) | x # ys \<Rightarrow> ((Some x, SQ_errSuccess), c, xs))"

fun ring_run :: "sq_op list \<Rightarrow> nat \<times> BYTE list list \<Rightarrow> (BYTE list option \<times> SQ_ERR) list \<times> nat \<times> BYTE list list" where
  "ring_run [] a = ([], a)"
| "ring_run (op # ops) a = (let (r, a) = ring_step op a; (rs, a) = ring_run ops a in (r # rs, a))"

fun sq_step :: "sq_op \<Rightarrow> CStupidQueue \<Rightarrow> ((BYTE list option \<times> SQ_ERR) \<times> CStupidQueue) option" where
  "sq_step (Enq mem bs) q = do { (q, err) \<leftarrow> ErrEnqueue mem bs q; Some ((None, err), q) }"
| "sq_step Deq q = do { (q, r) \<leftarrow> ErrDequeue q; Some (r, q) }"
| "sq_step Peek q = do { r \<leftarrow> ErrPeek q; Some (r, q) }"

fun sq_run :: "sq_op list \<Rightarrow> CStupidQueue \<Rightarrow> ((BYTE list option \<times> SQ_ERR) list \<times> CStupidQueue) option" where
  "sq_run [] q = Some ([], q)"
| "sq_run (op # ops) q = do { (r, q) \<leftarrow> sq_step op q; (rs, q) \<leftarrow> sq_run ops q; Some (r # rs, q) }"

text \<open>
  What the code relies on and does not check: an entry has the size of an element, the very first allocation succeeds, and the size of a block that is allocated
  is below 4 GB.
\<close>

fun ring_fits :: "nat \<Rightarrow> sq_op \<Rightarrow> nat \<times> BYTE list list \<Rightarrow> bool" where
  "ring_fits cb (Enq mem bs) (c, xs) \<longleftrightarrow> length bs = cb \<and> (c = 0 \<longrightarrow> mem \<noteq> None \<and> 32 * cb < 2 ^ 32)
     \<and> (0 < c \<and> \<not> Suc (length xs) < c \<and> mem \<noteq> None \<longrightarrow> 2 * c * cb < 2 ^ 32)"
| "ring_fits cb _ _ \<longleftrightarrow> True"

fun all_fit :: "nat \<Rightarrow> sq_op list \<Rightarrow> nat \<times> BYTE list list \<Rightarrow> bool" where
  "all_fit cb [] a \<longleftrightarrow> True"
| "all_fit cb (op # ops) a \<longleftrightarrow> ring_fits cb op a \<and> all_fit cb ops (snd (ring_step op a))"

abbreviation ring_view :: "CStupidQueue \<Rightarrow> nat \<times> BYTE list list" where
  "ring_view q \<equiv> (m_cAlloc q, sq_items q)"

lemma store_alloc: "store_entry bs q = Some (q', err) \<Longrightarrow> m_cAlloc q' = m_cAlloc q"
  by (auto simp: store_entry_def Let_def bind_eq_Some_conv)

lemma adjust_alloc: "ErrAdjustSize mem q = Some (q', SQ_errSuccess) \<Longrightarrow> m_cAlloc q' = dword (m_cAlloc q * 2)"
  by (auto simp: ErrAdjustSize_def unwrap_def Let_def bind_eq_Some_conv split: option.splits if_splits)

lemma ring_length:
  assumes "sq_ring q rg"
  shows "length (sq_items q) = entry_count q" "Suc (entry_count q) \<le> m_cAlloc q"
    "m_iHead q = (m_iTail q + 1) mod m_cAlloc q \<longleftrightarrow> \<not> Suc (length (sq_items q)) < m_cAlloc q"
proof -
  show l: "length (sq_items q) = entry_count q"
    using assms by (simp add: sq_items_def sq_ring_def)
  show "Suc (entry_count q) \<le> m_cAlloc q"
    using assms by (auto simp: entry_count_def sq_ring_def Suc_le_eq)
  show "m_iHead q = (m_iTail q + 1) mod m_cAlloc q \<longleftrightarrow> \<not> Suc (length (sq_items q)) < m_cAlloc q"
    unfolding l entry_count_ring [OF assms] using assms by (auto simp: sq_ring_def mod_if split: if_splits)
qed

lemma ErrEnqueue_step:
  assumes "sq_ring q rg" "ring_fits (m_cbElement q) (Enq mem bs) (ring_view q)"
  shows "\<exists>q' rg'. ErrEnqueue mem bs q = Some (q', snd (fst (ring_step (Enq mem bs) (ring_view q)))) \<and> sq_ring q' rg'
    \<and> m_cbElement q' = m_cbElement q \<and> ring_view q' = snd (ring_step (Enq mem bs) (ring_view q))"
proof -
  let ?full = "m_iHead q = (m_iTail q + 1) mod m_cAlloc q"
  have c: "m_cAlloc q \<noteq> 0" "dword (m_iTail q + 1) = m_iTail q + 1"
    using assms(1) ring_bounds(2) [OF assms(1)] by (simp_all add: sq_ring_def)
  note full = ring_length(3) [OF assms(1)]
  have bs: "length bs = m_cbElement q"
    using assms(2) by simp
  consider "\<not> ?full" | "?full" "mem = None" | f where "?full" "mem = Some f"
    by (cases mem) auto
  then show ?thesis
  proof cases
    case 1
    then have "ErrEnqueue mem bs q = store_entry bs q"
      using c by (simp add: ErrEnqueue_def)
    then show ?thesis
      using enqueue_room [OF assms(1) 1 bs] store_alloc full 1 c(1) by auto
  next
    case 2
    then have "ErrEnqueue mem bs q = Some (q, SQ_errOutOfMemory)"
      using c by (simp add: ErrEnqueue_def ErrAdjustSize_def malloc_block_def)
    then show ?thesis
      using assms(1) full 2 c(1) by auto
  next
    case 3
    have big: "2 * m_cAlloc q * m_cbElement q < 2 ^ 32"
      using assms(2) 3 full c(1) by simp
    obtain q1 rg1 where q1: "ErrAdjustSize (Some f) q = Some (q1, SQ_errSuccess)" "sq_ring q1 rg1" "m_cbElement q1 = m_cbElement q"
        "sq_items q1 = sq_items q" "m_iHead q1 \<noteq> (m_iTail q1 + 1) mod m_cAlloc q1"
      using ErrAdjustSize_ring [OF assms(1) 3(1) big] by blast
    have e: "ErrEnqueue mem bs q = store_entry bs q1" "length bs = m_cbElement q1"
      using q1(1,3) 3 c bs by (simp_all add: ErrEnqueue_def)
    have "2 * m_cAlloc q \<le> 2 * m_cAlloc q * m_cbElement q"
      using assms(1) by (simp add: sq_ring_def)
    then have "m_cAlloc q * 2 < 2 ^ 32"
      using big by linarith
    then have "m_cAlloc q1 = 2 * m_cAlloc q"
      using adjust_alloc [OF q1(1)] by simp
    then show ?thesis
      using enqueue_room [OF q1(2,5) e(2)] store_alloc e(1) q1(3,4) full 3 c(1) by auto
  qed
qed

lemma sq_step_refines:
  assumes "sq_inv cb q" "ring_fits cb op (ring_view q)"
  shows "\<exists>q'. sq_step op q = Some (fst (ring_step op (ring_view q)), q') \<and> sq_inv cb q' \<and> ring_view q' = snd (ring_step op (ring_view q))"
proof (cases "q = CStupidQueue_new cb")
  case True
  have new: "m_cAlloc q = 0" "sq_items q = []" "m_iHead q = m_iTail q" "0 < cb"
    using True sq_items_new [of cb] assms(1) by (simp_all add: CStupidQueue_new_def sq_inv_def)
  show ?thesis
  proof (cases op)
    case (Enq mem bs)
    then obtain f where f: "mem = Some f" "length bs = cb" "cb * 32 < 2 ^ 32"
      using assms(2) new(1) by (auto simp: mult.commute)
    obtain q' rg' where q': "ErrEnqueue (Some f) bs (CStupidQueue_new cb) = Some (q', SQ_errSuccess)" "m_cbElement q' = cb" "sq_ring q' rg'" "sq_items q' = [bs]"
      using ErrEnqueue_new [OF new(4) f(3,2)] by blast
    have "m_cAlloc q' = 32"
      using q'(1) by (auto simp: ErrEnqueue_def CStupidQueue_new_def malloc_block_def Let_def bind_eq_Some_conv dest: store_alloc split: if_splits)
    then show ?thesis
      using True Enq f(1) q' new by (auto simp: sq_inv_def)
  qed (use new assms(1) in \<open>simp_all add: ErrDequeue_def ErrPeek_def\<close>)
next
  case False
  then obtain rg where ring: "sq_ring q rg" "m_cbElement q = cb" "0 < cb"
    using assms(1) by (auto simp: sq_inv_def)
  have inv: "sq_inv cb q'" if "sq_ring q' rg'" "m_cbElement q' = m_cbElement q" for q' rg'
    using that ring(2,3) by (auto simp: sq_inv_def)
  show ?thesis
  proof (cases op)
    case (Enq mem bs)
    have "ring_fits (m_cbElement q) (Enq mem bs) (ring_view q)"
      using assms(2) ring(2) Enq by simp
    from ErrEnqueue_step [OF ring(1) this] obtain q' rg' where q': "ErrEnqueue mem bs q = Some (q', snd (fst (ring_step (Enq mem bs) (ring_view q))))"
        "sq_ring q' rg'" "m_cbElement q' = m_cbElement q" "ring_view q' = snd (ring_step (Enq mem bs) (ring_view q))"
      by blast
    moreover have "(None, snd (fst (ring_step (Enq mem bs) (ring_view q)))) = fst (ring_step (Enq mem bs) (ring_view q))"
      by simp
    ultimately show ?thesis
      using inv [OF q'(2,3)] unfolding Enq by (intro exI [of _ q']) (simp del: ring_step.simps)
  next
    case Deq
    obtain q' where q': "ErrDequeue q = Some (q', case sq_items q of [] \<Rightarrow> (None, SQ_wrnEmptyQueue) | y # _ \<Rightarrow> (Some y, SQ_errSuccess))"
        "sq_ring q' rg" "m_cbElement q' = m_cbElement q" "sq_items q' = tl (sq_items q)"
      using ErrDequeue_ring [OF ring(1)] by blast
    have "m_cAlloc q' = m_cAlloc q"
      using q'(1) by (auto simp: ErrDequeue_def bind_eq_Some_conv split: if_splits)
    then show ?thesis
      using q' inv [OF q'(2,3)] unfolding Deq by (cases "sq_items q") auto
  next
    case Peek
    obtain q' where "ErrDequeue q = Some (q', case sq_items q of [] \<Rightarrow> (None, SQ_wrnEmptyQueue) | y # _ \<Rightarrow> (Some y, SQ_errSuccess))"
      using ErrDequeue_ring [OF ring(1)] by blast
    then have "ErrPeek q = Some (case sq_items q of [] \<Rightarrow> (None, SQ_wrnEmptyQueue) | y # _ \<Rightarrow> (Some y, SQ_errSuccess))"
      by (auto simp: ErrDequeue_def bind_eq_Some_conv)
    then show ?thesis
      using assms(1) unfolding Peek by (cases "sq_items q") auto
  qed
qed

lemma sq_run_refines:
  assumes "sq_inv cb q" "all_fit cb ops (ring_view q)"
  shows "\<exists>q'. sq_run ops q = Some (fst (ring_run ops (ring_view q)), q') \<and> sq_inv cb q' \<and> ring_view q' = snd (ring_run ops (ring_view q))"
  using assms
proof (induction ops arbitrary: q)
  case (Cons op ops)
  obtain q1 where q1: "sq_step op q = Some (fst (ring_step op (ring_view q)), q1)" "sq_inv cb q1" "ring_view q1 = snd (ring_step op (ring_view q))"
    using sq_step_refines [of cb q op] Cons.prems by auto
  then show ?case
    using Cons.IH [OF q1(2)] Cons.prems(2) by (auto simp: Let_def split: prod.split)
qed simp

section \<open>Properties\<close>

text \<open>
  C36: every history of enqueues, dequeues and peeks of a \<open>CStupidQueue\<close>, with entries of its element size, in which the very first allocation succeeds
  and no block that is allocated exceeds 4 GB, returns, result by result and byte by byte, what it returns on a list of entries with a number of allocated elements:
  a dequeue or peek gives the oldest entry and says \<open>wrnEmptyQueue\<close> exactly when there is none; an enqueue fails exactly when the
  ring is full and the allocation of one twice as large fails, and then nothing is lost; no operation reads or writes outside the block.
\<close>

theorem stupid_queue_fifo:
  assumes "0 < cb" "all_fit cb ops (0, [])"
  shows "\<exists>q. sq_run ops (CStupidQueue_new cb) = Some (fst (ring_run ops (0, [])), q) \<and> ring_view q = snd (ring_run ops (0, []))"
proof -
  have "sq_inv cb (CStupidQueue_new cb)" "ring_view (CStupidQueue_new cb) = (0, [])"
    using assms(1) sq_items_new [of cb] by (simp_all add: sq_inv_def CStupidQueue_new_def)
  then show ?thesis
    using sq_run_refines [of cb "CStupidQueue_new cb" ops] assms(2) by metis
qed

theorem stupid_queue_fifo_witness:
  "\<exists>q. sq_run [Deq, Enq (Some (\<lambda>_. 0)) [5, 6], Enq None [7, 8], Peek, Deq, Deq, Deq] (CStupidQueue_new 2)
      = Some ([(None, SQ_wrnEmptyQueue), (None, SQ_errSuccess), (None, SQ_errSuccess), (Some [5, 6], SQ_errSuccess), (Some [5, 6], SQ_errSuccess),
         (Some [7, 8], SQ_errSuccess), (None, SQ_wrnEmptyQueue)], q) \<and> ring_view q = (32, [])"
  using stupid_queue_fifo [of 2 "[Deq, Enq (Some (\<lambda>_. 0)) [5, 6], Enq None [7, 8], Peek, Deq, Deq, Deq]"] by simp

text \<open>
  C39: the allocations. When the very first one fails the queue keeps \<open>m_cAlloc = 32\<close> with no block, and every later enqueue writes through the null pointer; when
  its 32-bit size wraps below two elements the first enqueue writes outside the block. When the allocation of a larger ring fails, the enqueue reports it and
  changes nothing; when its 32-bit size wraps, the old entries are copied to outside the new block.
\<close>

theorem stupid_queue_allocation:
  assumes "length bs = cb" "0 < cb" "cb < 2 ^ 32"
  shows "(\<exists>q. ErrEnqueue None bs (CStupidQueue_new cb) = Some (q, SQ_errOutOfMemory) \<and> (\<forall>mem. ErrEnqueue mem bs q = None))
    \<and> ((32 * cb) mod 2 ^ 32 < 2 * cb \<longrightarrow> ErrEnqueue (Some f) bs (CStupidQueue_new cb) = None)
    \<and> (\<forall>q rg. sq_ring q rg \<and> m_cbElement q = cb \<and> Suc (length (sq_items q)) = m_cAlloc q \<longrightarrow>
         ErrEnqueue None bs q = Some (q, SQ_errOutOfMemory) \<and> (2 ^ 32 \<le> 2 * m_cAlloc q * cb \<longrightarrow> ErrEnqueue (Some f) bs q = None))"
proof (intro conjI allI impI)
  show "\<exists>q. ErrEnqueue None bs (CStupidQueue_new cb) = Some (q, SQ_errOutOfMemory) \<and> (\<forall>mem. ErrEnqueue mem bs q = None)"
    using assms(1) by (simp add: ErrEnqueue_def CStupidQueue_new_def malloc_block_def store_entry_def bytes_at_def)
next
  assume "(32 * cb) mod 2 ^ 32 < 2 * cb"
  then have "\<not> dword cb + length bs \<le> dword (cb * 32)"
    using assms by (simp add: dword_def mult.commute)
  then show "ErrEnqueue (Some f) bs (CStupidQueue_new cb) = None"
    using assms(1) by (simp add: ErrEnqueue_def CStupidQueue_new_def malloc_block_def store_entry_def bytes_at_def put_bytes_def PvElement_def Let_def)
next
  fix q rg
  assume q: "sq_ring q rg \<and> m_cbElement q = cb \<and> Suc (length (sq_items q)) = m_cAlloc q"
  then have c: "m_cAlloc q \<noteq> 0" "dword (m_iTail q + 1) = m_iTail q + 1" "m_iHead q = (m_iTail q + 1) mod m_cAlloc q" "m_rg q = Some rg"
      "length rg = m_cAlloc q * cb" "m_cAlloc q * cb < 2 ^ 32"
    using ring_bounds(2) [of q rg] ring_length(3) [of q rg] by (auto simp: sq_ring_def)
  show "ErrEnqueue None bs q = Some (q, SQ_errOutOfMemory)"
    using c by (simp add: ErrEnqueue_def ErrAdjustSize_def malloc_block_def)
  assume "2 ^ 32 \<le> 2 * m_cAlloc q * cb"
  then have "dword (cb * dword (m_cAlloc q * 2)) = 2 * m_cAlloc q * cb - 2 ^ 32"
    using c(6) unfolding dword_def mod_mult_right_eq by (simp add: mod_if ac_simps)
  then have "dword (cb * dword (m_cAlloc q * 2)) < m_cAlloc q * cb"
    using c(6) \<open>2 ^ 32 \<le> 2 * m_cAlloc q * cb\<close> by linarith
  then have "ErrAdjustSize (Some f) q = None"
    using c q by (auto simp: ErrAdjustSize_def malloc_block_def Let_def bytes_at_def put_bytes_def)
  then show "ErrEnqueue (Some f) bs q = None"
    using c by (simp add: ErrEnqueue_def)
qed

theorem stupid_queue_allocation_witness:
  "(\<exists>q. ErrEnqueue None [7] (CStupidQueue_new 1) = Some (q, SQ_errOutOfMemory) \<and> (\<forall>mem. ErrEnqueue mem [7] q = None))
    \<and> ErrEnqueue (Some (\<lambda>_. 0)) (replicate (2 ^ 27) 7) (CStupidQueue_new (2 ^ 27)) = None"
  using stupid_queue_allocation [of "[7]" 1] stupid_queue_allocation [of "replicate (2 ^ 27) 7" "2 ^ 27" "\<lambda>_. 0"] by simp

end
