(* ===== verification/Simple_Queue.thy ===== *)
theory Simple_Queue
  imports Queues
begin

text \<open>
  \<open>CLocklessLinkedList\<close> and \<open>CSimpleQueue\<close> of \<open>ms/collection.hxx\<close> with the atomic operations of
  \<open>ms/sync.hxx\<close> they rest on. The queue meets the interface of \<open>Queues\<close>; the lock-free list is
  shown to behave as a stack with atomic operations under every interleaving of threads.
\<close>

section \<open>The lock-free list\<close>

text \<open>Objects are natural numbers, 0 being null; the memory gives the next pointer of each object.\<close>

type_synonym links = "nat \<rightharpoonup> nat"

definition set_next :: "nat \<Rightarrow> nat \<Rightarrow> links \<Rightarrow> links option" where
  "set_next pobj v h = do { old \<leftarrow> h pobj; Some (h(pobj \<mapsto> v)) }"

record CLocklessLinkedList =
  m_pHead :: nat

definition CLocklessLinkedList_new :: CLocklessLinkedList where
  "CLocklessLinkedList_new = \<lparr>m_pHead = 0\<rparr>"

definition CLocklessLinkedList_from :: "nat \<Rightarrow> CLocklessLinkedList" where
  "CLocklessLinkedList_from phead = \<lparr>m_pHead = phead\<rparr>"

text \<open>
  One pass of \<open>AtomicAddLinklistNode\<close> in two parts: linking the node to the head that was read, and the
  compare-and-swap on the head, which reports whether the loop ends.
\<close>

definition link_node :: "nat \<Rightarrow> nat \<Rightarrow> links \<Rightarrow> links option" where
  "link_node pvNode pvHead h = set_next pvNode pvHead h"

definition swap_head :: "nat \<Rightarrow> nat \<Rightarrow> nat \<Rightarrow> nat \<times> bool" where
  "swap_head pvNode pvHead head = (let pvResult = head in (if head = pvHead then pvNode else head, pvResult = pvHead))"

text \<open>The loop run without interference, with \<open>fuel\<close> passes.\<close>

fun AtomicAddLinklistNode :: "nat \<Rightarrow> nat \<Rightarrow> links \<times> nat \<Rightarrow> (links \<times> nat) option" where
  "AtomicAddLinklistNode 0 pvNode st = None"
| "AtomicAddLinklistNode (Suc fuel) pvNode (h, head) =
     (let pvHead = head
      in do { h \<leftarrow> link_node pvNode pvHead h;
              let (head, done) = swap_head pvNode pvHead head
              in if done then Some (h, head) else AtomicAddLinklistNode fuel pvNode (h, head) })"

definition PvAtomicRetrieveLinklist :: "nat \<Rightarrow> nat \<times> nat" where
  "PvAtomicRetrieveLinklist head = (0, head)"

definition AtomicInsertAsPrevMost :: "nat \<Rightarrow> links \<times> CLocklessLinkedList \<Rightarrow> (links \<times> CLocklessLinkedList) option" where
  "AtomicInsertAsPrevMost pobj st =
     do { (h, head) \<leftarrow> AtomicAddLinklistNode 1 pobj (fst st, m_pHead (snd st)); Some (h, (snd st)\<lparr>m_pHead := head\<rparr>) }"

definition AtomicRemoveList :: "CLocklessLinkedList \<Rightarrow> CLocklessLinkedList \<times> nat" where
  "AtomicRemoveList l = (let (head, pobj) = PvAtomicRetrieveLinklist (m_pHead l) in (l\<lparr>m_pHead := head\<rparr>, pobj))"

definition Lockless_RemovePrevMost :: "links \<times> CLocklessLinkedList \<Rightarrow> (links \<times> CLocklessLinkedList \<times> nat) option" where
  "Lockless_RemovePrevMost st =
     (let (h, l) = st; pobj = m_pHead l
      in if pobj \<noteq> 0
         then do { n \<leftarrow> h pobj; h \<leftarrow> set_next pobj 0 h; Some (h, l\<lparr>m_pHead := n\<rparr>, pobj) }
         else Some (h, l, pobj))"

definition Lockless_FEmpty :: "CLocklessLinkedList \<Rightarrow> bool" where
  "Lockless_FEmpty l \<longleftrightarrow> 0 = m_pHead l"

definition Lockless_Head :: "CLocklessLinkedList \<Rightarrow> nat" where
  "Lockless_Head l = m_pHead l"

section \<open>\<open>CSimpleQueue\<close>\<close>

record CSimpleQueue =
  m_Head :: CLocklessLinkedList
  m_pTail :: nat
  m_cObject :: nat

definition FValid :: "CSimpleQueue \<Rightarrow> bool" where
  "FValid q \<longleftrightarrow>
     (Lockless_FEmpty (m_Head q) \<and> m_pTail q = 0 \<and> m_cObject q = 0
      \<or> \<not> Lockless_FEmpty (m_Head q) \<and> m_pTail q \<noteq> 0 \<and> m_cObject q \<noteq> 0)
     \<and> (m_cObject q \<noteq> 1 \<or> Lockless_Head (m_Head q) = m_pTail q)
     \<and> (m_cObject q \<noteq> 2 \<or> Lockless_Head (m_Head q) \<noteq> m_pTail q)"

definition CSimpleQueue_new :: CSimpleQueue where
  "CSimpleQueue_new = \<lparr>m_Head = CLocklessLinkedList_new, m_pTail = 0, m_cObject = 0\<rparr>"

text \<open>The loop of the second constructor over a given list, which need not end on a cyclic one.\<close>

partial_function (option) count_list :: "links \<Rightarrow> nat \<Rightarrow> nat \<Rightarrow> nat \<Rightarrow> (nat \<times> nat) option" where
  "count_list h pobj2 tail c =
     (if pobj2 = 0 then Some (tail, c)
      else do { n \<leftarrow> h pobj2; count_list h n (if n = 0 then pobj2 else tail) ((c + 1) mod 2 ^ 32) })"

definition CSimpleQueue_from :: "links \<Rightarrow> nat \<Rightarrow> CSimpleQueue option" where
  "CSimpleQueue_from h pobj =
     (let head = CLocklessLinkedList_from pobj
      in if \<not> Lockless_FEmpty head
         then do { (tail, c) \<leftarrow> count_list h (Lockless_Head head) 0 0; Some \<lparr>m_Head = head, m_pTail = tail, m_cObject = c\<rparr> }
         else Some \<lparr>m_Head = head, m_pTail = 0, m_cObject = 0\<rparr>)"

definition Simple_InsertAsPrevMost :: "nat \<Rightarrow> links \<times> CSimpleQueue \<Rightarrow> (links \<times> CSimpleQueue) option" where
  "Simple_InsertAsPrevMost pobj st =
     (let (h, q) = st
      in do { (h, head) \<leftarrow> AtomicInsertAsPrevMost pobj (h, m_Head q);
              let q = q\<lparr>m_Head := head\<rparr>; q = (if m_pTail q = 0 then q\<lparr>m_pTail := pobj\<rparr> else q)
              in Some (h, q\<lparr>m_cObject := (m_cObject q + 1) mod 2 ^ 32\<rparr>) })"

definition Simple_InsertAsNextMost :: "nat \<Rightarrow> links \<times> CSimpleQueue \<Rightarrow> (links \<times> CSimpleQueue) option" where
  "Simple_InsertAsNextMost pobj st =
     (let (h, q) = st
      in do { (h, q) \<leftarrow> (if m_pTail q \<noteq> 0
                         then do { h \<leftarrow> set_next (m_pTail q) pobj h; Some (h, q\<lparr>m_pTail := pobj\<rparr>) }
                         else do { (h, head) \<leftarrow> AtomicInsertAsPrevMost pobj (h, m_Head q);
                                   Some (h, q\<lparr>m_Head := head, m_pTail := pobj\<rparr>) });
              Some (h, q\<lparr>m_cObject := (m_cObject q + 1) mod 2 ^ 32\<rparr>) })"

definition RemoveList :: "CSimpleQueue \<Rightarrow> CSimpleQueue \<times> nat" where
  "RemoveList q = (let (head, pobj) = AtomicRemoveList (m_Head q) in (q\<lparr>m_Head := head, m_pTail := 0, m_cObject := 0\<rparr>, pobj))"

definition Simple_RemovePrevMost :: "links \<times> CSimpleQueue \<Rightarrow> (links \<times> CSimpleQueue \<times> nat) option" where
  "Simple_RemovePrevMost st =
     (let (h, q) = st
      in do { (h, head, pobj) \<leftarrow> Lockless_RemovePrevMost (h, m_Head q);
              let q = q\<lparr>m_Head := head\<rparr>;
                  q = (if Lockless_Head (m_Head q) = 0 then q\<lparr>m_pTail := 0\<rparr> else q);
                  q = (if pobj \<noteq> 0 then q\<lparr>m_cObject := (m_cObject q + 2 ^ 32 - 1) mod 2 ^ 32\<rparr> else q)
              in Some (h, q, pobj) })"

definition Simple_FEmpty :: "CSimpleQueue \<Rightarrow> bool" where
  "Simple_FEmpty q \<longleftrightarrow> Lockless_FEmpty (m_Head q)"

definition CElements :: "CSimpleQueue \<Rightarrow> nat" where
  "CElements q = m_cObject q"

definition Simple_Head :: "CSimpleQueue \<Rightarrow> nat" where
  "Simple_Head q = Lockless_Head (m_Head q)"

definition Simple_Tail :: "CSimpleQueue \<Rightarrow> nat" where
  "Simple_Tail q = m_pTail q"

section \<open>Lists in memory\<close>

primrec lseg :: "links \<Rightarrow> nat \<Rightarrow> nat list \<Rightarrow> nat \<Rightarrow> bool" where
  "lseg h p [] e \<longleftrightarrow> p = e"
| "lseg h p (x # xs) e \<longleftrightarrow> p = x \<and> x \<noteq> 0 \<and> (\<exists>n. h x = Some n \<and> lseg h n xs e)"

lemma lseg_append: "lseg h p (xs @ ys) e \<longleftrightarrow> (\<exists>m. lseg h p xs m \<and> lseg h m ys e)"
  by (induction xs arbitrary: p) auto

lemma lseg_frame [simp]: "x \<notin> set xs \<Longrightarrow> lseg (h(x := v)) p xs e \<longleftrightarrow> lseg h p xs e"
  by (induction xs arbitrary: p) auto

lemma lseg_nonzero: "lseg h p xs e \<Longrightarrow> 0 \<notin> set xs"
  by (induction xs arbitrary: p) auto

lemma lseg_start: "lseg h p xs 0 \<Longrightarrow> p = 0 \<longleftrightarrow> xs = []"
  by (cases xs) auto

lemma lseg_last: "lseg h p (ys @ [y]) 0 \<Longrightarrow> h y = Some 0"
  by (auto simp: lseg_append)

text \<open>Appending behind the last object.\<close>

lemma lseg_extend:
  assumes "lseg h p (ys @ [y]) 0" "distinct (ys @ [y])" "x \<notin> set (ys @ [y])" "h x = Some 0" "x \<noteq> 0"
  shows "lseg (h(y \<mapsto> x)) p (ys @ [y, x]) 0"
  using assms by (auto simp: lseg_append)

primrec walk :: "links \<Rightarrow> nat \<Rightarrow> nat \<Rightarrow> nat list" where
  "walk h p 0 = []"
| "walk h p (Suc n) = p # (case h p of None \<Rightarrow> [] | Some q \<Rightarrow> walk h q n)"

lemma walk_seg: "lseg h p xs 0 \<Longrightarrow> walk h p (length xs) = xs"
  by (induction xs arbitrary: p) auto

section \<open>The queue as a list\<close>

definition listed :: "links \<times> CSimpleQueue \<Rightarrow> nat list \<Rightarrow> bool" where
  "listed s xs \<longleftrightarrow> lseg (fst s) (m_pHead (m_Head (snd s))) xs 0 \<and> distinct xs \<and> m_pTail (snd s) = last (0 # xs)
     \<and> m_cObject (snd s) = length xs \<and> length xs < 2 ^ 32"

definition queued :: "links \<times> CSimpleQueue \<Rightarrow> nat list" where
  "queued s = walk (fst s) (m_pHead (m_Head (snd s))) (m_cObject (snd s))"

lemma listed_queued: "listed s xs \<Longrightarrow> queued s = xs"
  by (simp add: listed_def queued_def walk_seg)

lemma listed_FValid: "listed (h, q) xs \<Longrightarrow> FValid q"
  by (cases xs rule: rev_cases; cases "butlast xs")
    (auto simp: listed_def FValid_def Lockless_FEmpty_def Lockless_Head_def lseg_append neq_Nil_conv dest: lseg_nonzero)

lemma AtomicInsertAsPrevMost_eq:
  "h pobj = Some n \<Longrightarrow> AtomicInsertAsPrevMost pobj (h, l) = Some (h(pobj \<mapsto> m_pHead l), l\<lparr>m_pHead := pobj\<rparr>)"
  by (simp add: AtomicInsertAsPrevMost_def link_node_def set_next_def swap_head_def)

lemma insert_front_listed:
  assumes "listed (h, q) xs" "x \<noteq> 0" "h x = Some 0" "x \<notin> set xs" "length xs + 1 < 2 ^ 32"
  shows "\<exists>h' q'. Simple_InsertAsPrevMost x (h, q) = Some (h', q') \<and> listed (h', q') (x # xs)"
  using assms lseg_nonzero [of h "m_pHead (m_Head q)" xs 0]
  by (cases xs rule: rev_cases) (auto simp: Simple_InsertAsPrevMost_def AtomicInsertAsPrevMost_eq listed_def Let_def)

lemma insert_back_listed:
  assumes "listed (h, q) xs" "x \<noteq> 0" "h x = Some 0" "x \<notin> set xs" "length xs + 1 < 2 ^ 32"
  shows "\<exists>h' q'. Simple_InsertAsNextMost x (h, q) = Some (h', q') \<and> listed (h', q') (xs @ [x])"
proof (cases xs rule: rev_cases)
  case Nil
  then show ?thesis
    using assms by (auto simp: Simple_InsertAsNextMost_def AtomicInsertAsPrevMost_eq listed_def)
next
  case (snoc ys y)
  have q: "lseg h (m_pHead (m_Head q)) (ys @ [y]) 0" "distinct (ys @ [y])" "m_pTail q = y" "m_cObject q = length (ys @ [y])"
    using assms(1) snoc by (auto simp: listed_def)
  have "y \<noteq> 0" "h y = Some 0"
    using lseg_nonzero [OF q(1)] lseg_last [OF q(1)] by auto
  then have "Simple_InsertAsNextMost x (h, q) =
      Some (h(y \<mapsto> x), q\<lparr>m_pTail := x, m_cObject := length (ys @ [y, x])\<rparr>)"
    using q(3,4) assms(5) snoc by (simp add: Simple_InsertAsNextMost_def set_next_def)
  moreover have "lseg (h(y \<mapsto> x)) (m_pHead (m_Head q)) (ys @ [y, x]) 0"
    using lseg_extend [OF q(1,2), of x] assms(2-4) snoc by simp
  ultimately show ?thesis
    using q(2) assms(4,5) snoc by (auto simp: listed_def)
qed

lemma remove_front_listed:
  assumes "listed (h, q) xs"
  shows "\<exists>h' q'. Simple_RemovePrevMost (h, q) = Some (h', q', hd (xs @ [0])) \<and> listed (h', q') (tl xs)
    \<and> (\<forall>x rest. xs = x # rest \<longrightarrow> h' = h(x \<mapsto> 0))"
proof (cases xs)
  case Nil
  then show ?thesis
    using assms by (auto simp: Simple_RemovePrevMost_def Lockless_RemovePrevMost_def Lockless_Head_def listed_def)
next
  case (Cons x rest)
  obtain n where x: "m_pHead (m_Head q) = x" "x \<noteq> 0" "h x = Some n" "lseg h n rest 0" "x \<notin> set rest" "distinct rest"
    using assms Cons by (auto simp: listed_def)
  then show ?thesis
    using assms Cons lseg_start [OF x(4)]
    by (auto simp: Simple_RemovePrevMost_def Lockless_RemovePrevMost_def Lockless_Head_def listed_def set_next_def Let_def)
qed

section \<open>The queue meets its interface\<close>

definition simple_ok :: "links \<times> CSimpleQueue \<Rightarrow> nat \<Rightarrow> bool" where
  "simple_ok s x \<longleftrightarrow> x \<noteq> 0 \<and> fst s x = Some 0 \<and> x \<notin> set (queued s) \<and> length (queued s) + 1 < 2 ^ 32"

definition simple_enq :: "nat \<Rightarrow> links \<times> CSimpleQueue \<Rightarrow> ((links \<times> CSimpleQueue) \<times> bool) option" where
  "simple_enq x s = do { s' \<leftarrow> Simple_InsertAsNextMost x s; Some (s', True) }"

definition simple_deq :: "links \<times> CSimpleQueue \<Rightarrow> ((links \<times> CSimpleQueue) \<times> nat option) option" where
  "simple_deq s = do { (h, q, pobj) \<leftarrow> Simple_RemovePrevMost s; Some ((h, q), if pobj = 0 then None else Some pobj) }"

definition simple_inv :: "links \<times> CSimpleQueue \<Rightarrow> bool" where
  "simple_inv s \<longleftrightarrow> listed s (queued s)"

lemma simple_enq_law:
  assumes "simple_inv s" "simple_ok s x"
  shows "\<exists>s' acc. simple_enq x s = Some (s', acc) \<and> simple_inv s' \<and> queued s' = (if acc then queued s @ [id x] else queued s)"
proof -
  obtain h' q' where s': "Simple_InsertAsNextMost x s = Some (h', q')" "listed (h', q') (queued s @ [x])"
    using insert_back_listed [of "fst s" "snd s" "queued s" x] assms by (auto simp: simple_inv_def simple_ok_def)
  then show ?thesis
    using listed_queued [OF s'(2)] by (auto simp: simple_enq_def simple_inv_def)
qed

lemma simple_deq_law:
  assumes "simple_inv s"
  shows "\<exists>s'. simple_deq s = Some (s', case queued s of [] \<Rightarrow> None | y # _ \<Rightarrow> Some y) \<and> simple_inv s' \<and> queued s' = tl (queued s)"
proof -
  obtain h' q' where s': "Simple_RemovePrevMost s = Some (h', q', hd (queued s @ [0]))" "listed (h', q') (tl (queued s))"
    using remove_front_listed [of "fst s" "snd s" "queued s"] assms by (auto simp: simple_inv_def)
  have "0 \<notin> set (queued s)"
    using assms lseg_nonzero by (auto simp: simple_inv_def listed_def)
  then show ?thesis
    using s' listed_queued [OF s'(2)] by (cases "queued s") (auto simp: simple_deq_def simple_inv_def)
qed

interpretation simpleq: fifo simple_inv queued simple_ok id simple_enq simple_deq
  by unfold_locales (rule simple_enq_law simple_deq_law; assumption)+

section \<open>Building the queue from a list\<close>

lemma count_list_seg:
  "lseg h p xs 0 \<Longrightarrow> count_list h p tail c = Some (last (tail # xs), if xs = [] then c else (c + length xs) mod 2 ^ 32)"
proof (induction xs arbitrary: p tail c)
  case Nil
  then show ?case
    by (subst count_list.simps) simp
next
  case (Cons x xs)
  obtain n where n: "p = x" "x \<noteq> 0" "h x = Some n" "lseg h n xs 0"
    using Cons.prems by auto
  have "count_list h p tail c = count_list h n (if n = 0 then x else tail) ((c + 1) mod 2 ^ 32)"
    using n by (subst count_list.simps) simp
  also have "\<dots> = Some (last (tail # x # xs), (c + length (x # xs)) mod 2 ^ 32)"
    using Cons.IH [OF n(4)] lseg_start [OF n(4)] by (auto simp: mod_simps)
  finally show ?case
    by simp
qed

lemma CSimpleQueue_from_listed:
  assumes "lseg h p xs 0" "distinct xs" "length xs < 2 ^ 32"
  shows "\<exists>q. CSimpleQueue_from h p = Some q \<and> listed (h, q) xs"
  using assms count_list_seg [OF assms(1), of 0 0] lseg_start [OF assms(1)]
  by (auto simp: CSimpleQueue_from_def CLocklessLinkedList_from_def Lockless_FEmpty_def Lockless_Head_def listed_def Let_def)

lemma RemoveList_eq: "RemoveList q = (CSimpleQueue_new\<lparr>m_Head := (m_Head q)\<lparr>m_pHead := 0\<rparr>\<rparr>, m_pHead (m_Head q))"
  by (simp add: RemoveList_def AtomicRemoveList_def PvAtomicRetrieveLinklist_def CSimpleQueue_new_def)

lemma CSimpleQueue_new_listed: "listed (h, CSimpleQueue_new) []"
  by (simp add: listed_def CSimpleQueue_new_def CLocklessLinkedList_new_def)

lemma simple_inv_listed: "listed s xs \<Longrightarrow> simple_inv s"
  using listed_queued [of s xs] by (simp add: simple_inv_def)

text \<open>
  However insertions at the tail and removals at the head of a \<open>CSimpleQueue\<close> follow each other
  from the empty queue, the objects come out in the order they went in, the ones that are left are
  the list the links in memory describe, \<open>CElements\<close>, \<open>Head\<close>, \<open>Tail\<close> and \<open>FEmpty\<close> report that list,
  the consistency check \<open>FValid\<close> holds, no operation follows a bad pointer, and taking the whole list
  with \<open>RemoveList\<close> and building a queue from it gives the same contents back.
\<close>

theorem simple_queue_fifo:
  assumes "fifo_run simple_ok simple_enq simple_deq (h, CSimpleQueue_new) ins outs (h', q)"
  shows "ins = outs @ queued (h', q) \<and> FValid q \<and> CElements q = length (queued (h', q))
    \<and> (Simple_FEmpty q \<longleftrightarrow> queued (h', q) = [])
    \<and> Simple_Head q = hd (queued (h', q) @ [0]) \<and> Simple_Tail q = last (0 # queued (h', q))
    \<and> Simple_RemovePrevMost (h', q) \<noteq> None
    \<and> (\<forall>x. simple_ok (h', q) x \<longrightarrow> Simple_InsertAsNextMost x (h', q) \<noteq> None)
    \<and> (\<exists>q'. CSimpleQueue_from h' (snd (RemoveList q)) = Some q' \<and> queued (h', q') = queued (h', q)
         \<and> CElements q' = CElements q \<and> Simple_Tail q' = Simple_Tail q)
    \<and> Simple_FEmpty (fst (RemoveList q)) \<and> FValid (fst (RemoveList q))"
proof (intro conjI allI impI)
  have "listed (h, CSimpleQueue_new) []"
    by (rule CSimpleQueue_new_listed)
  then have start: "simple_inv (h, CSimpleQueue_new)" "queued (h, CSimpleQueue_new) = []"
    by (auto intro: simple_inv_listed dest: listed_queued)
  have run: "simple_inv (h', q)" "ins = outs @ queued (h', q)"
    using simpleq.history [OF assms start(1)] start(2) by auto
  then have l: "listed (h', q) (queued (h', q))"
    by (simp add: simple_inv_def)
  then have lseg: "lseg h' (m_pHead (m_Head q)) (queued (h', q)) 0"
    by (simp add: listed_def)
  show "ins = outs @ queued (h', q)"
    by (rule run)
  show "FValid q"
    using l by (rule listed_FValid)
  show "CElements q = length (queued (h', q))" "Simple_Tail q = last (0 # queued (h', q))"
    using l by (simp_all add: listed_def CElements_def Simple_Tail_def)
  show "Simple_FEmpty q \<longleftrightarrow> queued (h', q) = []"
    using lseg_start [OF lseg] by (auto simp: Simple_FEmpty_def Lockless_FEmpty_def)
  show "Simple_Head q = hd (queued (h', q) @ [0])"
    using lseg by (cases "queued (h', q)") (auto simp: Simple_Head_def Lockless_Head_def)
  show "Simple_RemovePrevMost (h', q) \<noteq> None"
    using simpleq.never_stuck(1) [OF assms start(1)] by (cases "Simple_RemovePrevMost (h', q)") (auto simp: simple_deq_def)
  show "Simple_InsertAsNextMost x (h', q) \<noteq> None" if "simple_ok (h', q) x" for x
    using that simpleq.never_stuck(2) [OF assms start(1), of x] by (cases "Simple_InsertAsNextMost x (h', q)") (auto simp: simple_enq_def)
  obtain q' where q': "CSimpleQueue_from h' (m_pHead (m_Head q)) = Some q'" "listed (h', q') (queued (h', q))"
    using CSimpleQueue_from_listed [OF lseg] l by (auto simp: listed_def)
  then show "\<exists>q'. CSimpleQueue_from h' (snd (RemoveList q)) = Some q' \<and> queued (h', q') = queued (h', q)
       \<and> CElements q' = CElements q \<and> Simple_Tail q' = Simple_Tail q"
    using l listed_queued [OF q'(2)] by (auto simp: RemoveList_eq CElements_def Simple_Tail_def listed_def)
  show "Simple_FEmpty (fst (RemoveList q))" "FValid (fst (RemoveList q))"
    by (simp_all add: RemoveList_eq Simple_FEmpty_def FValid_def Lockless_FEmpty_def CSimpleQueue_new_def)
qed

text \<open>Three objects go in and one comes out.\<close>

definition sample_links :: links where
  "sample_links = [1 \<mapsto> 0, 2 \<mapsto> 0, 3 \<mapsto> 0]"

lemma sample_enq:
  "simple_enq 1 (sample_links, CSimpleQueue_new) =
     Some (([1 \<mapsto> 0, 2 \<mapsto> 0, 3 \<mapsto> 0], \<lparr>m_Head = \<lparr>m_pHead = 1\<rparr>, m_pTail = 1, m_cObject = 1\<rparr>), True)"
  "simple_enq 2 ([1 \<mapsto> 0, 2 \<mapsto> 0, 3 \<mapsto> 0], \<lparr>m_Head = \<lparr>m_pHead = 1\<rparr>, m_pTail = 1, m_cObject = 1\<rparr>) =
     Some (([1 \<mapsto> 2, 2 \<mapsto> 0, 3 \<mapsto> 0], \<lparr>m_Head = \<lparr>m_pHead = 1\<rparr>, m_pTail = 2, m_cObject = 2\<rparr>), True)"
  by (auto simp: simple_enq_def Simple_InsertAsNextMost_def AtomicInsertAsPrevMost_eq sample_links_def CSimpleQueue_new_def
      CLocklessLinkedList_new_def set_next_def fun_eq_iff)

lemma sample_deq:
  "simple_deq ([1 \<mapsto> 2, 2 \<mapsto> 0, 3 \<mapsto> 0], \<lparr>m_Head = \<lparr>m_pHead = 1\<rparr>, m_pTail = 2, m_cObject = 2\<rparr>) =
     Some (([1 \<mapsto> 0, 2 \<mapsto> 0, 3 \<mapsto> 0], \<lparr>m_Head = \<lparr>m_pHead = 2\<rparr>, m_pTail = 2, m_cObject = 1\<rparr>), Some 1)"
  by (auto simp: simple_deq_def Simple_RemovePrevMost_def Lockless_RemovePrevMost_def Lockless_Head_def set_next_def fun_eq_iff)

lemma sample_run:
  "fifo_run simple_ok simple_enq simple_deq (sample_links, CSimpleQueue_new) [1, 2] [1]
     ([1 \<mapsto> 0, 2 \<mapsto> 0, 3 \<mapsto> 0], \<lparr>m_Head = \<lparr>m_pHead = 2\<rparr>, m_pTail = 2, m_cObject = 1\<rparr>)"
proof -
  note start = fifo_run.start [of simple_ok simple_enq simple_deq "(sample_links, CSimpleQueue_new)"]
  have "simple_ok (sample_links, CSimpleQueue_new) 1"
    "simple_ok ([1 \<mapsto> 0, 2 \<mapsto> 0, 3 \<mapsto> 0], \<lparr>m_Head = \<lparr>m_pHead = 1\<rparr>, m_pTail = 1, m_cObject = 1\<rparr>) 2"
    by (simp_all add: simple_ok_def queued_def sample_links_def CSimpleQueue_new_def)
  then have "fifo_run simple_ok simple_enq simple_deq (sample_links, CSimpleQueue_new) ([] @ [1] @ [2]) []
     ([1 \<mapsto> 2, 2 \<mapsto> 0, 3 \<mapsto> 0], \<lparr>m_Head = \<lparr>m_pHead = 1\<rparr>, m_pTail = 2, m_cObject = 2\<rparr>)"
    unfolding append_assoc [symmetric]
    by (intro fifo_run.accept [OF fifo_run.accept [OF start _ sample_enq(1)] _ sample_enq(2)])
  from fifo_run.take_out [OF this sample_deq] show ?thesis
    by simp
qed

theorem simple_queue_fifo_witness:
  "([1, 2] :: nat list) = [1] @ queued ([1 \<mapsto> 0, 2 \<mapsto> 0, 3 \<mapsto> 0], \<lparr>m_Head = \<lparr>m_pHead = 2\<rparr>, m_pTail = 2, m_cObject = 1\<rparr>)
   \<and> Simple_InsertAsNextMost 3 ([1 \<mapsto> 0, 2 \<mapsto> 0, 3 \<mapsto> 0], \<lparr>m_Head = \<lparr>m_pHead = 2\<rparr>, m_pTail = 2, m_cObject = 1\<rparr>) \<noteq> None"
proof -
  have "simple_ok ([1 \<mapsto> 0, 2 \<mapsto> 0, 3 \<mapsto> 0], \<lparr>m_Head = \<lparr>m_pHead = 2\<rparr>, m_pTail = 2, m_cObject = 1\<rparr>) 3"
    by (simp add: simple_ok_def queued_def)
  then show ?thesis
    using simple_queue_fifo [OF sample_run] by blast
qed

section \<open>The lock-free list under threads\<close>

text \<open>
  Threads push nodes with the loop of \<open>AtomicAddLinklistNode\<close>, whose accesses to shared memory are
  separate steps, take the whole list with \<open>PvAtomicRetrieveLinklist\<close> and unpack what they took with
  \<open>RemovePrevMost\<close> of a list of their own; a node that is unpacked may be pushed again.
\<close>

datatype pc = Outside | LoopTop nat | HaveHead nat nat | Linked nat nat

record lf_state =
  mem :: links
  head :: nat
  pcs :: "nat \<Rightarrow> pc"
  taken :: "nat \<Rightarrow> CLocklessLinkedList"
  spare :: "nat set"

datatype event = Start nat nat | Pushed nat | Took nat nat | Unpacked nat nat

inductive lf_step :: "lf_state \<Rightarrow> event option \<Rightarrow> lf_state \<Rightarrow> bool" where
  start: "pcs s t = Outside \<Longrightarrow> n \<in> spare s \<Longrightarrow>
    lf_step s (Some (Start t n)) (s\<lparr>pcs := (pcs s)(t := LoopTop n), spare := spare s - {n}\<rparr>)"
| read: "pcs s t = LoopTop n \<Longrightarrow> lf_step s None (s\<lparr>pcs := (pcs s)(t := HaveHead n (head s))\<rparr>)"
| link: "pcs s t = HaveHead n p \<Longrightarrow> link_node n p (mem s) = Some h \<Longrightarrow>
    lf_step s None (s\<lparr>mem := h, pcs := (pcs s)(t := Linked n p)\<rparr>)"
| swapped: "pcs s t = Linked n p \<Longrightarrow> swap_head n p (head s) = (hd', True) \<Longrightarrow>
    lf_step s (Some (Pushed t)) (s\<lparr>head := hd', pcs := (pcs s)(t := Outside)\<rparr>)"
| retry: "pcs s t = Linked n p \<Longrightarrow> swap_head n p (head s) = (hd', False) \<Longrightarrow>
    lf_step s None (s\<lparr>head := hd', pcs := (pcs s)(t := LoopTop n)\<rparr>)"
| take_list: "pcs s t = Outside \<Longrightarrow> Lockless_FEmpty (taken s t) \<Longrightarrow> PvAtomicRetrieveLinklist (head s) = (hd', q) \<Longrightarrow>
    lf_step s (Some (Took t q)) (s\<lparr>head := hd', taken := (taken s)(t := CLocklessLinkedList_from q)\<rparr>)"
| unpack: "pcs s t = Outside \<Longrightarrow> Lockless_RemovePrevMost (mem s, taken s t) = Some (h, l, p) \<Longrightarrow> p \<noteq> 0 \<Longrightarrow>
    lf_step s (Some (Unpacked t p)) (s\<lparr>mem := h, taken := (taken s)(t := l), spare := insert p (spare s)\<rparr>)"

definition lf_init :: "nat set \<Rightarrow> lf_state" where
  "lf_init N = \<lparr>mem = (\<lambda>n. if n \<in> N then Some 0 else None), head = 0, pcs = (\<lambda>t. Outside),
     taken = (\<lambda>t. CLocklessLinkedList_new), spare = N\<rparr>"

inductive lf_run :: "nat set \<Rightarrow> event list \<Rightarrow> lf_state \<Rightarrow> bool" for N where
  init: "lf_run N [] (lf_init N)"
| silent: "lf_run N evs s \<Longrightarrow> lf_step s None s' \<Longrightarrow> lf_run N evs s'"
| visible: "lf_run N evs s \<Longrightarrow> lf_step s (Some e) s' \<Longrightarrow> lf_run N (evs @ [e]) s'"

text \<open>
  The specification: one shared stack of nodes, a stack of each thread, and the node each thread
  is pushing. A push and a take are atomic.
\<close>

record stacks =
  shared :: "nat list"
  own :: "nat \<Rightarrow> nat list"
  pushing :: "nat \<Rightarrow> nat option"
  idle :: "nat set"

inductive spec_step :: "stacks \<Rightarrow> event \<Rightarrow> stacks \<Rightarrow> bool" where
  start: "pushing a t = None \<Longrightarrow> n \<in> idle a \<Longrightarrow>
    spec_step a (Start t n) (a\<lparr>pushing := (pushing a)(t \<mapsto> n), idle := idle a - {n}\<rparr>)"
| pushed: "pushing a t = Some n \<Longrightarrow>
    spec_step a (Pushed t) (a\<lparr>shared := n # shared a, pushing := (pushing a)(t := None)\<rparr>)"
| took: "pushing a t = None \<Longrightarrow> own a t = [] \<Longrightarrow> q = hd (shared a @ [0]) \<Longrightarrow>
    spec_step a (Took t q) (a\<lparr>own := (own a)(t := shared a), shared := []\<rparr>)"
| unpacked: "pushing a t = None \<Longrightarrow> own a t = p # ps \<Longrightarrow>
    spec_step a (Unpacked t p) (a\<lparr>own := (own a)(t := ps), idle := insert p (idle a)\<rparr>)"

definition spec_init :: "nat set \<Rightarrow> stacks" where
  "spec_init N = \<lparr>shared = [], own = (\<lambda>t. []), pushing = (\<lambda>t. None), idle = N\<rparr>"

inductive spec_run :: "nat set \<Rightarrow> event list \<Rightarrow> stacks \<Rightarrow> bool" for N where
  init: "spec_run N [] (spec_init N)"
| step: "spec_run N evs a \<Longrightarrow> spec_step a e a' \<Longrightarrow> spec_run N (evs @ [e]) a'"

inductive_cases spec_stepE: "spec_step a e a'"

text \<open>Every node is in exactly one place.\<close>

datatype place = Idle | Shared | Owned nat | Moving nat

fun at :: "stacks \<Rightarrow> place \<Rightarrow> nat \<Rightarrow> bool" where
  "at a Idle n \<longleftrightarrow> n \<in> idle a"
| "at a Shared n \<longleftrightarrow> n \<in> set (shared a)"
| "at a (Owned t) n \<longleftrightarrow> n \<in> set (own a t)"
| "at a (Moving t) n \<longleftrightarrow> pushing a t = Some n"

definition one_place :: "nat set \<Rightarrow> stacks \<Rightarrow> bool" where
  "one_place N a \<longleftrightarrow> (\<forall>n. (n \<in> N \<longrightarrow> (\<exists>!pl. at a pl n)) \<and> (n \<notin> N \<longrightarrow> (\<forall>pl. \<not> at a pl n)))
     \<and> distinct (shared a) \<and> (\<forall>t. distinct (own a t))"

text \<open>How the lists in memory represent the stacks.\<close>

fun pending :: "pc \<Rightarrow> nat option" where
  "pending Outside = None"
| "pending (LoopTop n) = Some n"
| "pending (HaveHead n p) = Some n"
| "pending (Linked n p) = Some n"

definition represents :: "lf_state \<Rightarrow> stacks \<Rightarrow> bool" where
  "represents s a \<longleftrightarrow> lseg (mem s) (head s) (shared a) 0
     \<and> (\<forall>t. lseg (mem s) (m_pHead (taken s t)) (own a t) 0)
     \<and> pushing a = (\<lambda>t. pending (pcs s t)) \<and> idle a = spare s
     \<and> (\<forall>t n p. pcs s t = Linked n p \<longrightarrow> mem s n = Some p)"

lemma one_place_unique: "one_place N a \<Longrightarrow> at a pl n \<Longrightarrow> at a pl' n \<Longrightarrow> pl' = pl"
  unfolding one_place_def by blast

lemma one_place_in: "one_place N a \<Longrightarrow> at a pl n \<Longrightarrow> n \<in> N"
  unfolding one_place_def by blast

definition placed :: "(nat \<rightharpoonup> place) \<Rightarrow> nat set \<Rightarrow> stacks \<Rightarrow> bool" where
  "placed f N a \<longleftrightarrow> (\<forall>n pl. at a pl n \<longleftrightarrow> f n = Some pl) \<and> dom f = N \<and> distinct (shared a) \<and> (\<forall>t. distinct (own a t))"

lemma one_place_placed: "one_place N a \<longleftrightarrow> (\<exists>f. placed f N a)"
proof
  assume one: "one_place N a"
  define f where "f n = (if n \<in> N then Some (THE pl. at a pl n) else None)" for n
  have "at a pl n \<longleftrightarrow> f n = Some pl" for n pl
  proof (cases "n \<in> N")
    case True
    then obtain pl' where pl': "at a pl' n" "\<forall>pl. at a pl n \<longrightarrow> pl = pl'"
      using one unfolding one_place_def by meson
    then have "f n = Some pl'"
      using True unfolding f_def by (metis the_equality)
    then show ?thesis
      using pl' by (metis option.inject)
  qed (use one in \<open>auto simp: one_place_def f_def\<close>)
  moreover have "dom f = N"
    by (auto simp: f_def dom_def)
  moreover have "distinct (shared a)" "\<forall>t. distinct (own a t)"
    using one unfolding one_place_def by blast+
  ultimately have "placed f N a"
    by (simp add: placed_def)
  then show "\<exists>f. placed f N a"
    by blast
qed (auto simp: one_place_def placed_def)

lemma spec_step_one_place: "spec_step a e a' \<Longrightarrow> one_place N a \<Longrightarrow> one_place N a'"
proof (induction rule: spec_step.induct)
  case (start a t n)
  then obtain f where "placed f N a"
    by (auto simp: one_place_placed)
  then have f: "at a pl n \<longleftrightarrow> f n = Some pl" "dom f = N" "distinct (shared a)" "distinct (own a t)" for pl n t
    by (auto simp: placed_def)
  have n: "f n = Some Idle"
    using start(2) f(1) [of Idle n] by simp
  have "at (a\<lparr>pushing := (pushing a)(t \<mapsto> n), idle := idle a - {n}\<rparr>) pl m \<longleftrightarrow> (f(n \<mapsto> Moving t)) m = Some pl" for pl m
    using start(1,2) f(1) [of pl m] f(1) [of Idle n] f(1) [of pl n] by (cases pl) auto
  then show ?case
    using f n unfolding one_place_placed by (intro exI [of _ "f(n \<mapsto> Moving t)"]) (auto simp: placed_def)
next
  case (pushed a t n)
  then obtain f where "placed f N a"
    by (auto simp: one_place_placed)
  then have f: "at a pl n \<longleftrightarrow> f n = Some pl" "dom f = N" "distinct (shared a)" "distinct (own a t)" for pl n t
    by (auto simp: placed_def)
  have n: "f n = Some (Moving t)"
    using pushed(1) f(1) [of "Moving t" n] by simp
  have "at (a\<lparr>shared := n # shared a, pushing := (pushing a)(t := None)\<rparr>) pl m \<longleftrightarrow> (f(n \<mapsto> Shared)) m = Some pl" for pl m
    using pushed(1) n f(1) [of pl m] f(1) [of pl n] by (cases pl) auto
  then show ?case
    using f n f(1) [of Shared n] unfolding one_place_placed by (intro exI [of _ "f(n \<mapsto> Shared)"]) (auto simp: placed_def)
next
  case (took a t q)
  then obtain f where "placed f N a"
    by (auto simp: one_place_placed)
  then have f: "at a pl n \<longleftrightarrow> f n = Some pl" "dom f = N" "distinct (shared a)" "distinct (own a t)" for pl n t
    by (auto simp: placed_def)
  define g where "g m = (if f m = Some Shared then Some (Owned t) else f m)" for m
  have "at (a\<lparr>own := (own a)(t := shared a), shared := []\<rparr>) pl m \<longleftrightarrow> g m = Some pl" for pl m
    using took(2) f(1) [of pl m] f(1) [of Shared m] f(1) [of "Owned t" m] by (cases pl) (auto simp: g_def)
  then show ?case
    using f unfolding one_place_placed by (intro exI [of _ g]) (auto simp: placed_def g_def split: if_splits)
next
  case (unpacked a t p ps)
  then obtain f where "placed f N a"
    by (auto simp: one_place_placed)
  then have f: "at a pl n \<longleftrightarrow> f n = Some pl" "dom f = N" "distinct (shared a)" "distinct (own a t)" for pl n t
    by (auto simp: placed_def)
  have p: "f p = Some (Owned t)" "p \<notin> set ps" "distinct ps"
    using unpacked(2) f(1) [of "Owned t" p] f(4) [of t] by auto
  have "at (a\<lparr>own := (own a)(t := ps), idle := insert p (idle a)\<rparr>) pl m \<longleftrightarrow> (f(p \<mapsto> Idle)) m = Some pl" for pl m
    using unpacked(2) p f(1) [of pl m] f(1) [of pl p] by (cases pl) auto
  then show ?case
    using f p unfolding one_place_placed by (intro exI [of _ "f(p \<mapsto> Idle)"]) (auto simp: placed_def)
qed

lemma spec_init_one_place: "one_place N (spec_init N)"
proof -
  have "at (spec_init N) pl n \<longleftrightarrow> (if n \<in> N then Some Idle else None) = Some pl" for pl n
    by (cases pl) (auto simp: spec_init_def)
  then have "placed (\<lambda>n. if n \<in> N then Some Idle else None) N (spec_init N)"
    by (auto simp: placed_def spec_init_def dom_def)
  then show ?thesis
    unfolding one_place_placed by blast
qed

lemma spec_run_one_place: "spec_run N evs a \<Longrightarrow> one_place N a"
  by (induction rule: spec_run.induct) (auto intro: spec_init_one_place spec_step_one_place)

section \<open>The threads refine the stacks\<close>

lemma represents_init: "represents (lf_init N) (spec_init N)"
  by (simp add: represents_def lf_init_def spec_init_def CLocklessLinkedList_new_def)

text \<open>The link of a node that a thread is pushing belongs to no list.\<close>

lemma moving_fresh:
  assumes "one_place N a" "pushing a t = Some n"
  shows "n \<notin> set (shared a)" "n \<notin> set (own a t')" "pushing a t' = Some n \<Longrightarrow> t' = t"
  using one_place_unique [OF assms(1), of "Moving t" n] assms(2) by (metis at.simps place.distinct place.inject)+

lemma silent_represents:
  assumes "lf_step s None s'" "one_place N a" "represents s a"
  shows "represents s' a"
  using assms(1)
proof cases
  case (link t n p h)
  then have n: "pushing a t = Some n"
    using assms(3) by (simp add: represents_def)
  have h: "h = (mem s)(n \<mapsto> p)"
    using link by (auto simp: link_node_def set_next_def split: bind_splits)
  have "t' = t" if "pcs s t' = Linked n q" for t' q
    using that moving_fresh(3) [OF assms(2) n, of t'] assms(3) by (simp add: represents_def)
  then show ?thesis
    using assms(3) link(1,2) h moving_fresh(1,2) [OF assms(2) n] by (auto simp: represents_def fun_eq_iff)
qed (use assms(3) in \<open>auto simp: represents_def swap_head_def fun_eq_iff split: if_splits\<close>)

lemma visible_represents:
  assumes "lf_step s (Some e) s'" "one_place N a" "represents s a" "0 \<notin> N"
  shows "\<exists>a'. spec_step a e a' \<and> represents s' a'"
  using assms(1)
proof cases
  case (start t n)
  then have "pushing a t = None" "n \<in> idle a"
    using assms(3) by (auto simp: represents_def)
  from spec_step.start [OF this] show ?thesis
    using assms(3) start by (intro exI conjI) (auto simp: represents_def fun_eq_iff)
next
  case (swapped t n p hd')
  then have n: "pushing a t = Some n" "mem s n = Some p" "head s = p" "hd' = n"
    using assms(3) by (auto simp: represents_def swap_head_def split: if_splits)
  have "n \<in> N"
    using one_place_in [OF assms(2), of "Moving t" n] n(1) by simp
  then have "n \<noteq> 0"
    using assms(4) by metis
  with spec_step.pushed [OF n(1)] show ?thesis
    using assms(3) swapped n by (intro exI conjI) (auto simp: represents_def fun_eq_iff)
next
  case (take_list t hd' q)
  then have q: "hd' = 0" "q = head s" "pushing a t = None"
    using assms(3) by (auto simp: represents_def PvAtomicRetrieveLinklist_def)
  have own: "own a t = []"
    using assms(3) take_list lseg_start by (auto simp: represents_def Lockless_FEmpty_def)
  have "q = hd (shared a @ [0])"
    using assms(3) q(2) by (cases "shared a") (auto simp: represents_def)
  from spec_step.took [OF q(3) own this] show ?thesis
    using assms(3) take_list q by (intro exI conjI) (auto simp: represents_def CLocklessLinkedList_from_def fun_eq_iff)
next
  case (unpack t h l p)
  then obtain n where p: "m_pHead (taken s t) = p" "mem s p = Some n" "h = (mem s)(p \<mapsto> 0)" "m_pHead l = n" "pushing a t = None"
    using assms(3) by (auto simp: represents_def Lockless_RemovePrevMost_def set_next_def Let_def split: bind_splits if_splits)
  have own_p: "lseg (mem s) (m_pHead (taken s t)) (own a t) 0"
    using assms(3) by (simp add: represents_def)
  obtain ps where ps: "own a t = p # ps" "lseg (mem s) n ps 0"
    using own_p p(1,2) \<open>p \<noteq> 0\<close> by (cases "own a t") auto
  have fresh: "p \<notin> set (shared a)" "\<And>t'. t' \<noteq> t \<Longrightarrow> p \<notin> set (own a t')" "\<And>t'. pushing a t' \<noteq> Some p" "p \<notin> set ps"
    using one_place_unique [OF assms(2), of "Owned t" p] assms(2) ps(1)
    by (metis at.simps list.set_intros(1) place.distinct place.inject, metis at.simps list.set_intros(1) place.inject(1),
        metis at.simps list.set_intros(1) place.distinct, metis distinct.simps(2) one_place_def)
  have "pcs s t' \<noteq> Linked p q" for t' q
    using fresh(3) [of t'] assms(3) by (auto simp: represents_def)
  with spec_step.unpacked [OF p(5) ps(1)] show ?thesis
    using assms(3) unpack p ps fresh by (intro exI conjI) (auto simp: represents_def fun_eq_iff)
qed

lemma lf_run_refines:
  assumes "lf_run N evs s" "0 \<notin> N"
  shows "\<exists>a. spec_run N evs a \<and> represents s a"
  using assms(1)
proof (induction rule: lf_run.induct)
  case init
  then show ?case
    using spec_run.init represents_init by blast
next
  case (silent evs s s')
  then show ?case
    using silent_represents spec_run_one_place by blast
next
  case (visible evs s e s')
  then obtain a where "spec_run N evs a" "represents s a"
    by blast
  then show ?case
    using visible_represents [OF visible(2) spec_run_one_place _ assms(2), of evs a] spec_run.step by blast
qed

text \<open>A thread left alone finishes its push, whatever it had read before.\<close>

inductive alone :: "lf_state \<Rightarrow> nat \<Rightarrow> nat \<Rightarrow> lf_state \<Rightarrow> bool" for s t where
  none: "alone s t 0 s"
| more: "alone s t k u \<Longrightarrow> lf_step u ev v \<Longrightarrow> (\<forall>t'. t' \<noteq> t \<longrightarrow> pcs v t' = pcs u t') \<Longrightarrow> alone s t (Suc k) v"

lemma push_finishes:
  assumes "pcs s t = LoopTop n" "mem s n = Some x"
  shows "\<exists>u. alone s t 3 u \<and> pcs u t = Outside \<and> head u = n"
proof -
  define s1 where "s1 = s\<lparr>pcs := (pcs s)(t := HaveHead n (head s))\<rparr>"
  define s2 where "s2 = s1\<lparr>mem := (mem s)(n \<mapsto> head s), pcs := (pcs s1)(t := Linked n (head s))\<rparr>"
  define s3 where "s3 = s2\<lparr>head := n, pcs := (pcs s2)(t := Outside)\<rparr>"
  have 1: "lf_step s None s1"
    unfolding s1_def using assms(1) by (rule lf_step.read)
  have 2: "lf_step s1 None s2"
    unfolding s2_def using assms by (intro lf_step.link) (simp_all add: s1_def link_node_def set_next_def)
  have 3: "lf_step s2 (Some (Pushed t)) s3"
    unfolding s3_def by (intro lf_step.swapped [of _ _ n "head s"]) (simp_all add: s1_def s2_def swap_head_def)
  have "alone s t (Suc (Suc (Suc 0))) s3"
    by (intro alone.more [OF alone.more [OF alone.more [OF alone.none 1] 2] 3]) (simp_all add: s1_def s2_def s3_def)
  then show ?thesis
    by (intro exI [of _ s3]) (simp add: s3_def numeral_3_eq_3)
qed

lemma lf_run_dom: "lf_run N evs s \<Longrightarrow> dom (mem s) = N"
proof (induction rule: lf_run.induct)
  case init
  then show ?case
    by (auto simp: lf_init_def dom_def)
next
  case (silent evs s s')
  from silent(2,3) show ?case
    by (cases rule: lf_step.cases) (auto simp: link_node_def set_next_def split: bind_splits if_splits)
next
  case (visible evs s e s')
  from visible(2,3) show ?case
    by (cases rule: lf_step.cases)
      (auto simp: Lockless_RemovePrevMost_def set_next_def Let_def split: bind_splits if_splits)
qed

text \<open>
  C35: Whatever the interleaving of any number of threads that push nodes on a \<open>CLocklessLinkedList\<close>,
  take the whole list and unpack what they took, the list behaves as a stack whose push and take are
  atomic: a run has the events of a run of the stacks, the links in memory represent those stacks,
  and every node is in exactly one place, so that none is lost and none is linked twice. The link a
  thread writes is always valid, and a thread left alone at the top of its loop ends it in three
  steps with its node in front.
\<close>

theorem lockless_list_refines:
  assumes "lf_run N evs s" "0 \<notin> N"
  shows "(\<exists>a. spec_run N evs a \<and> represents s a \<and> one_place N a)
    \<and> (\<forall>t n p. pcs s t = HaveHead n p \<longrightarrow> link_node n p (mem s) \<noteq> None)
    \<and> (\<forall>t n. pcs s t = LoopTop n \<longrightarrow> (\<exists>u. alone s t 3 u \<and> pcs u t = Outside \<and> head u = n))"
proof (intro conjI allI impI)
  obtain a where a: "spec_run N evs a" "represents s a" "one_place N a"
    using lf_run_refines [OF assms] spec_run_one_place by blast
  then show "\<exists>a. spec_run N evs a \<and> represents s a \<and> one_place N a"
    by blast
  have mem: "\<exists>x. mem s n = Some x" if "pending (pcs s t) = Some n" for t n
    using that a one_place_in [OF a(3), of "Moving t" n] lf_run_dom [OF assms(1)] by (auto simp: represents_def dom_def)
  show "link_node n p (mem s) \<noteq> None" if "pcs s t = HaveHead n p" for t n p
    using that mem [of t n] by (auto simp: link_node_def set_next_def)
  show "\<exists>u. alone s t 3 u \<and> pcs u t = Outside \<and> head u = n" if "pcs s t = LoopTop n" for t n
    using that mem [of t n] push_finishes by auto
qed

text \<open>Thread 1 reads the empty head, thread 2 pushes node 7 meanwhile, and thread 1 has to try again.\<close>

definition lf_race :: lf_state where
  "lf_race = \<lparr>mem = (\<lambda>n. if n \<in> {7, 8} then Some 0 else None), head = 7,
     pcs = (\<lambda>t. Outside)(1 := LoopTop 8, 2 := Outside), taken = (\<lambda>t. CLocklessLinkedList_new), spare = {}\<rparr>"

lemma lf_race_run: "lf_run {7, 8} [Start 1 8, Start 2 7, Pushed 2] lf_race"
proof -
  define m :: links where "m = (\<lambda>n. if n \<in> {7, 8} then Some 0 else None)"
  define st where "st hd p1 p2 sp = \<lparr>mem = m, head = hd, pcs = (\<lambda>t. Outside)(1 := p1, 2 := p2),
     taken = (\<lambda>t. CLocklessLinkedList_new), spare = sp\<rparr>" for hd p1 p2 and sp :: "nat set"
  have upd: "(\<lambda>t. Outside)(Suc 0 := x, 2 := y, Suc 0 := z) = (\<lambda>t. Outside)(Suc 0 := z, 2 := y)"
    "(\<lambda>t. Outside)(Suc 0 := x, 2 := y, 2 := z) = (\<lambda>t. Outside)(Suc 0 := x, 2 := z)" for x y z :: pc
    by auto
  have m: "m(7 \<mapsto> 0) = m" "m(8 \<mapsto> 0) = m"
    by (auto simp: m_def)
  have sp: "{7, 8 :: nat} - {8} = {7}" "{7 :: nat} - {7} = {}"
    by auto
  note st = sp st_def upd lf_init_def link_node_def set_next_def swap_head_def
  have "lf_init {7, 8} = st 0 Outside Outside {7, 8}"
    by (auto simp: st m_def)
  then have 0: "lf_run {7, 8} [] (st 0 Outside Outside {7, 8})"
    using lf_run.init [of "{7, 8}"] by simp
  have 1: "lf_step (st 0 Outside Outside {7, 8}) (Some (Start 1 8)) (st 0 (LoopTop 8) Outside {7})"
    using lf_step.start [of "st 0 Outside Outside {7, 8}" 1 8] by (simp add: st)
  have 2: "lf_step (st 0 (LoopTop 8) Outside {7}) None (st 0 (HaveHead 8 0) Outside {7})"
    using lf_step.read [of "st 0 (LoopTop 8) Outside {7}" 1 8] by (simp add: st)
  have 3: "lf_step (st 0 (HaveHead 8 0) Outside {7}) None (st 0 (Linked 8 0) Outside {7})"
    using lf_step.link [of "st 0 (HaveHead 8 0) Outside {7}" 1 8 0 m] m by (simp add: st m_def)
  have 4: "lf_step (st 0 (Linked 8 0) Outside {7}) (Some (Start 2 7)) (st 0 (Linked 8 0) (LoopTop 7) {})"
    using lf_step.start [of "st 0 (Linked 8 0) Outside {7}" 2 7] by (simp add: st)
  have 5: "lf_step (st 0 (Linked 8 0) (LoopTop 7) {}) None (st 0 (Linked 8 0) (HaveHead 7 0) {})"
    using lf_step.read [of "st 0 (Linked 8 0) (LoopTop 7) {}" 2 7] by (simp add: st)
  have 6: "lf_step (st 0 (Linked 8 0) (HaveHead 7 0) {}) None (st 0 (Linked 8 0) (Linked 7 0) {})"
    using lf_step.link [of "st 0 (Linked 8 0) (HaveHead 7 0) {}" 2 7 0 m] m by (simp add: st m_def)
  have 7: "lf_step (st 0 (Linked 8 0) (Linked 7 0) {}) (Some (Pushed 2)) (st 7 (Linked 8 0) Outside {})"
    using lf_step.swapped [of "st 0 (Linked 8 0) (Linked 7 0) {}" 2 7 0 7] by (simp add: st)
  have 8: "lf_step (st 7 (Linked 8 0) Outside {}) None (st 7 (LoopTop 8) Outside {})"
    using lf_step.retry [of "st 7 (Linked 8 0) Outside {}" 1 8 0 7] by (simp add: st)
  have "lf_run {7, 8} (([] @ [Start 1 8]) @ [Start 2 7]) (st 0 (Linked 8 0) (Linked 7 0) {})"
    by (rule lf_run.silent [OF lf_run.silent [OF lf_run.visible [OF lf_run.silent [OF lf_run.silent [OF lf_run.visible
            [OF 0 1] 2] 3] 4] 5] 6])
  from lf_run.silent [OF lf_run.visible [OF this 7] 8] show ?thesis
    by (simp add: st_def m_def lf_race_def)
qed

theorem lockless_list_refines_witness:
  "(\<exists>a. spec_run {7, 8} [Start 1 8, Start 2 7, Pushed 2] a \<and> represents lf_race a \<and> one_place {7, 8} a)
   \<and> (\<exists>u. alone lf_race 1 3 u \<and> pcs u 1 = Outside \<and> head u = 8)"
proof -
  have "pcs lf_race 1 = LoopTop 8"
    by (simp add: lf_race_def)
  then show ?thesis
    using lockless_list_refines [OF lf_race_run] by simp
qed

end
