(* ===== verification/SXW_Latch.thy ===== *)
theory SXW_Latch
  imports Ese_Prelude
begin

text \<open>
  \<open>CSXWLatch\<close> of \<open>ms/sync.hxx\<close>: a latch held by many sharers, by one exclusive owner beside the sharers, or by one
  writer alone, with upgrades, downgrades and attempts that do not wait. Its operations work on one control word by
  compare-and-swap and atomic addition, on the count of sharers a writer waits for, and on three
  semaphores. They are modelled as they stand, and run by any number of threads that interleave at
  every atomic access. The bookkeeping of owners for deadlock detection and the performance counters, which release builds leave
  out, are not modelled.
\<close>

unbundle bit_operations_syntax

section \<open>The latch\<close>

text \<open>
  The control word packs the count of shared owners or waiters (bits 0 to 14), the quiesced bit
  (bit 15) and the count of the exclusive owner and waiters (bits 16 to 31). A semaphore is what its interface
  promises: a number of available counts.
\<close>

record CSXWLatchState =
  m_cw :: ULONG
  m_cQS :: ULONG
  m_semS :: nat
  m_semX :: nat
  m_semW :: nat

datatype SXW_ERR = errSuccess | errWaitForSharedLatch | errWaitForExclusiveLatch | errWaitForWriteLatch | errLatchConflict

datatype iGroup = iSharedGroup | iExclusiveGroup | iWriteGroup | iNoGroup

definition CSXWLatchState_new :: CSXWLatchState where
  "CSXWLatchState_new = \<lparr>m_cw = 0, m_cQS = 0, m_semS = 0, m_semX = 0, m_semW = 0\<rparr>"

definition AssertValid :: "iGroup \<Rightarrow> CSXWLatchState \<Rightarrow> bool" where
  "AssertValid iGroupOwnsOrWaits s \<longleftrightarrow>
     m_cw s AND 0x00007fff \<noteq> 0x00007fff \<and> m_cw s AND 0xffff0000 \<noteq> 0xffff0000
     \<and> (case iGroupOwnsOrWaits of
          iSharedGroup \<Rightarrow> True
        | iExclusiveGroup \<Rightarrow> m_cw s AND 0xffff0000 \<noteq> 0
        | iWriteGroup \<Rightarrow> m_cw s AND 0xffff0000 \<noteq> 0 \<and> m_cw s AND 0x00008000 = 0x00008000
        | iNoGroup \<Rightarrow> True)"

text \<open>
  An operation changes the control word in one atomic access. The accesses it makes after that, each
  atomic by itself, are the actions it leaves to be run. The result of an operation is \<open>None\<close> when its
  compare-and-swap failed and the loop goes on; the argument \<open>cwRead\<close> of such an operation is
  the word it read before.
\<close>

datatype action = UpdateQuiescedSharedLatchCount ULONG | ReleaseS nat | ReleaseX | ReleaseW

definition AtomicCompareExchange_cw :: "ULONG \<Rightarrow> ULONG \<Rightarrow> CSXWLatchState \<Rightarrow> CSXWLatchState \<times> ULONG" where
  "AtomicCompareExchange_cw cwBIExpected cwAI s = (if m_cw s = cwBIExpected then s\<lparr>m_cw := cwAI\<rparr> else s, m_cw s)"

definition AtomicExchangeAdd_cw :: "ULONG \<Rightarrow> CSXWLatchState \<Rightarrow> CSXWLatchState \<times> ULONG" where
  "AtomicExchangeAdd_cw cwDelta s = (s\<lparr>m_cw := m_cw s + cwDelta\<rparr>, m_cw s)"

type_synonym outcome = "(CSXWLatchState \<times> action list \<times> SXW_ERR) option"

definition run_action :: "action \<Rightarrow> CSXWLatchState \<Rightarrow> CSXWLatchState \<times> action list" where
  "run_action act s = (case act of
      UpdateQuiescedSharedLatchCount cQSDelta \<Rightarrow>
        (let cQSBI = m_cQS s; cQSAI = cQSBI + cQSDelta
         in (s\<lparr>m_cQS := cQSAI\<rparr>, if cQSAI = 0 then [ReleaseW] else []))
    | ReleaseS n \<Rightarrow> (s\<lparr>m_semS := m_semS s + n\<rparr>, [])
    | ReleaseX \<Rightarrow> (s\<lparr>m_semX := m_semX s + 1\<rparr>, [])
    | ReleaseW \<Rightarrow> (s\<lparr>m_semW := m_semW s + 1\<rparr>, []))"

section \<open>Acquiring\<close>

definition ErrAcquireSharedLatch :: "CSXWLatchState \<Rightarrow> outcome" where
  "ErrAcquireSharedLatch s =
     (let (s, cwBI) = AtomicExchangeAdd_cw 0x00000001 s
      in if cwBI AND 0x00008000 \<noteq> 0 then Some (s, [], errWaitForSharedLatch) else Some (s, [], errSuccess))"

definition ErrTryAcquireSharedLatch :: "ULONG \<Rightarrow> CSXWLatchState \<Rightarrow> outcome" where
  "ErrTryAcquireSharedLatch cwRead s =
     (let cwBIExpected = cwRead AND 0xFFFF7FFF; cwAI = cwBIExpected + 0x00000001;
          (s, cwBI) = AtomicCompareExchange_cw cwBIExpected cwAI s
      in if cwBI \<noteq> cwBIExpected
         then if cwBI AND 0x00008000 \<noteq> 0 then Some (s, [], errLatchConflict) else None
         else Some (s, [], errSuccess))"

definition ErrAcquireExclusiveLatch :: "CSXWLatchState \<Rightarrow> outcome" where
  "ErrAcquireExclusiveLatch s =
     (let (s, cwBI) = AtomicExchangeAdd_cw 0x00010000 s
      in if cwBI AND 0xFFFF0000 \<noteq> 0 then Some (s, [], errWaitForExclusiveLatch) else Some (s, [], errSuccess))"

definition ErrTryAcquireExclusiveLatch :: "ULONG \<Rightarrow> CSXWLatchState \<Rightarrow> outcome" where
  "ErrTryAcquireExclusiveLatch cwRead s =
     (let cwBIExpected = cwRead AND 0x0000FFFF; cwAI = cwBIExpected + 0x00010000;
          (s, cwBI) = AtomicCompareExchange_cw cwBIExpected cwAI s
      in if cwBI \<noteq> cwBIExpected
         then if cwBI AND 0xFFFF0000 \<noteq> 0 then Some (s, [], errLatchConflict) else None
         else Some (s, [], errSuccess))"

definition ErrTryAcquireWriteLatch :: "CSXWLatchState \<Rightarrow> outcome" where
  "ErrTryAcquireWriteLatch s =
     (let cwBIExpected = 0x00000000; cwAI = 0x00018000;
          (s, cwBI) = AtomicCompareExchange_cw cwBIExpected cwAI s
      in if cwBI \<noteq> cwBIExpected then Some (s, [], errLatchConflict) else Some (s, [], errSuccess))"

section \<open>Upgrading\<close>

definition ErrUpgradeSharedLatchToExclusiveLatch :: "ULONG \<Rightarrow> CSXWLatchState \<Rightarrow> outcome" where
  "ErrUpgradeSharedLatchToExclusiveLatch cwRead s =
     (let cwBIExpected = cwRead AND 0x0000FFFF; cwAI = cwBIExpected + 0x0000FFFF;
          (s, cwBI) = AtomicCompareExchange_cw cwBIExpected cwAI s
      in if cwBI \<noteq> cwBIExpected
         then if cwBI AND 0xFFFF0000 \<noteq> 0 then Some (s, [], errLatchConflict) else None
         else Some (s, [], errSuccess))"

definition ErrUpgradeSharedLatchToWriteLatch :: "ULONG \<Rightarrow> CSXWLatchState \<Rightarrow> outcome" where
  "ErrUpgradeSharedLatchToWriteLatch cwRead s =
     (let cwBIExpected = cwRead AND 0x0000FFFF; cwAI = 0x00018000;
          (s, cwBI) = AtomicCompareExchange_cw cwBIExpected cwAI s
      in if cwBI \<noteq> cwBIExpected
         then if cwBI AND 0xFFFF0000 \<noteq> 0 then Some (s, [], errLatchConflict) else None
         else if cwBI \<noteq> 0x00000001 then Some (s, [UpdateQuiescedSharedLatchCount (cwBI - 1)], errWaitForWriteLatch)
         else Some (s, [], errSuccess))"

definition ErrUpgradeExclusiveLatchToWriteLatch :: "ULONG \<Rightarrow> CSXWLatchState \<Rightarrow> outcome" where
  "ErrUpgradeExclusiveLatchToWriteLatch cwRead s =
     (let cwBIExpected = cwRead; cwAI = (cwBIExpected AND 0xFFFF0000) OR 0x00008000;
          (s, cwBI) = AtomicCompareExchange_cw cwBIExpected cwAI s
      in if cwBI \<noteq> cwBIExpected then None
         else if cwBI AND 0x00007FFF \<noteq> 0
         then Some (s, [UpdateQuiescedSharedLatchCount (cwBI AND 0x00007FFF)], errWaitForWriteLatch)
         else Some (s, [], errSuccess))"

definition ErrTryUpgradeSharedLatchToWriteLatch :: "CSXWLatchState \<Rightarrow> outcome" where
  "ErrTryUpgradeSharedLatchToWriteLatch s =
     (let cwBIExpected = 0x00000001; cwAI = 0x00018000;
          (s, cwBI) = AtomicCompareExchange_cw cwBIExpected cwAI s
      in if cwBI \<noteq> cwBIExpected then Some (s, [], errLatchConflict) else Some (s, [], errSuccess))"

definition ErrTryUpgradeExclusiveLatchToWriteLatch :: "CSXWLatchState \<Rightarrow> outcome" where
  "ErrTryUpgradeExclusiveLatchToWriteLatch s =
     (let cwBIExpected = 0x00010000; cwAI = 0x00018000;
          (s, cwBI) = AtomicCompareExchange_cw cwBIExpected cwAI s
      in if cwBI \<noteq> cwBIExpected then Some (s, [], errLatchConflict) else Some (s, [], errSuccess))"

section \<open>Downgrading and releasing\<close>

definition DowngradeWriteLatchToExclusiveLatch :: "CSXWLatchState \<Rightarrow> outcome" where
  "DowngradeWriteLatchToExclusiveLatch s =
     (let (s, cwBI) = AtomicExchangeAdd_cw 0xFFFF8000 s
      in Some (s, if cwBI AND 0x00007FFF \<noteq> 0 then [ReleaseS (unat (cwBI AND 0x00007FFF))] else [], errSuccess))"

definition DowngradeWriteLatchToSharedLatch :: "CSXWLatchState \<Rightarrow> outcome" where
  "DowngradeWriteLatchToSharedLatch s =
     (let (s, cwBI) = AtomicExchangeAdd_cw 0xFFFE8001 s
      in Some (s, (if cwBI AND 0x00007FFF \<noteq> 0 then [ReleaseS (unat (cwBI AND 0x00007FFF))] else [])
                  @ (if cwBI \<ge> 0x00020000 then [ReleaseX] else []), errSuccess))"

definition DowngradeExclusiveLatchToSharedLatch :: "CSXWLatchState \<Rightarrow> outcome" where
  "DowngradeExclusiveLatchToSharedLatch s =
     (let (s, cwBI) = AtomicExchangeAdd_cw 0xFFFF0001 s
      in Some (s, if cwBI \<ge> 0x00020000 then [ReleaseX] else [], errSuccess))"

definition ReleaseWriteLatch :: "CSXWLatchState \<Rightarrow> outcome" where
  "ReleaseWriteLatch s =
     (let (s, cwBI) = AtomicExchangeAdd_cw 0xFFFE8000 s
      in Some (s, (if cwBI AND 0x00007FFF \<noteq> 0 then [ReleaseS (unat (cwBI AND 0x00007FFF))] else [])
                  @ (if cwBI \<ge> 0x00020000 then [ReleaseX] else []), errSuccess))"

definition ReleaseExclusiveLatch :: "CSXWLatchState \<Rightarrow> outcome" where
  "ReleaseExclusiveLatch s =
     (let (s, cwBI) = AtomicExchangeAdd_cw 0xFFFF0000 s
      in Some (s, if cwBI \<ge> 0x00020000 then [ReleaseX] else [], errSuccess))"

definition ReleaseSharedLatch :: "ULONG \<Rightarrow> CSXWLatchState \<Rightarrow> outcome" where
  "ReleaseSharedLatch cwRead s =
     (let cwBIExpected = cwRead AND 0xFFFF7FFF; cwAI = cwBIExpected + 0xFFFFFFFF;
          (s, cwBI) = AtomicCompareExchange_cw cwBIExpected cwAI s
      in if cwBI \<noteq> cwBIExpected
         then if cwBI AND 0x00008000 \<noteq> 0 then Some (s, [UpdateQuiescedSharedLatchCount 0xFFFFFFFF], errSuccess) else None
         else Some (s, [], errSuccess))"

definition ReleaseLatch :: "iGroup \<Rightarrow> ULONG \<Rightarrow> CSXWLatchState \<Rightarrow> outcome" where
  "ReleaseLatch igroup cwRead s = (case igroup of
      iSharedGroup \<Rightarrow> ReleaseSharedLatch cwRead s
    | iExclusiveGroup \<Rightarrow> ReleaseExclusiveLatch s
    | iWriteGroup \<Rightarrow> ReleaseWriteLatch s
    | iNoGroup \<Rightarrow> Some (s, [], errSuccess))"

section \<open>Waiting\<close>

text \<open>Acquiring a semaphore: \<open>None\<close> while there is no count.\<close>

definition WaitForSharedLatch :: "CSXWLatchState \<Rightarrow> CSXWLatchState option" where
  "WaitForSharedLatch s = (if 0 < m_semS s then Some (s\<lparr>m_semS := m_semS s - 1\<rparr>) else None)"

definition WaitForExclusiveLatch :: "CSXWLatchState \<Rightarrow> CSXWLatchState option" where
  "WaitForExclusiveLatch s = (if 0 < m_semX s then Some (s\<lparr>m_semX := m_semX s - 1\<rparr>) else None)"

definition WaitForWriteLatch :: "CSXWLatchState \<Rightarrow> CSXWLatchState option" where
  "WaitForWriteLatch s = (if 0 < m_semW s then Some (s\<lparr>m_semW := m_semW s - 1\<rparr>) else None)"

section \<open>Calls that wait\<close>

text \<open>The compound operations, run without interference; \<open>None\<close> is a call that blocks.\<close>

definition run_all :: "action list \<Rightarrow> CSXWLatchState \<Rightarrow> CSXWLatchState" where
  "run_all acts s = foldl (\<lambda>s act. let (s, more) = run_action act s in foldl (\<lambda>s act. fst (run_action act s)) s more) s acts"

definition UpgradeExclusiveLatchToWriteLatch :: "CSXWLatchState \<Rightarrow> CSXWLatchState option" where
  "UpgradeExclusiveLatchToWriteLatch s =
     do { (s, acts, err) \<leftarrow> ErrUpgradeExclusiveLatchToWriteLatch (m_cw s) s;
          let s = run_all acts s
          in if err = errWaitForWriteLatch then WaitForWriteLatch s else Some s }"

definition AcquireSharedLatch :: "CSXWLatchState \<Rightarrow> CSXWLatchState option" where
  "AcquireSharedLatch s =
     do { (s, acts, err) \<leftarrow> ErrAcquireSharedLatch s; if err = errWaitForSharedLatch then WaitForSharedLatch s else Some s }"

definition AcquireExclusiveLatch :: "CSXWLatchState \<Rightarrow> CSXWLatchState option" where
  "AcquireExclusiveLatch s =
     do { (s, acts, err) \<leftarrow> ErrAcquireExclusiveLatch s; if err = errWaitForExclusiveLatch then WaitForExclusiveLatch s else Some s }"

definition AcquireWriteLatch :: "CSXWLatchState \<Rightarrow> CSXWLatchState option" where
  "AcquireWriteLatch s = do { s \<leftarrow> AcquireExclusiveLatch s; UpgradeExclusiveLatchToWriteLatch s }"

section \<open>Threads\<close>

text \<open>
  A thread holds or waits for one latch, and has the actions of its last operation still to run; one that
  holds several counts as several. Any number of threads interleave at their atomic accesses. The word
  a loop has read is arbitrary, which covers every value another thread may have left there.
\<close>

datatype status = Outside | Owns iGroup | Waits iGroup

datatype latch_op = AcquireS | TryAcquireS | AcquireX | TryAcquireX | TryAcquireW | UpgradeSX | UpgradeSW | UpgradeXW
  | TryUpgradeSW | TryUpgradeXW | DowngradeWX | DowngradeWS | DowngradeXS | ReleaseIn iGroup

fun call :: "latch_op \<Rightarrow> ULONG \<Rightarrow> CSXWLatchState \<Rightarrow> outcome" where
  "call AcquireS cwRead s = ErrAcquireSharedLatch s"
| "call TryAcquireS cwRead s = ErrTryAcquireSharedLatch cwRead s"
| "call AcquireX cwRead s = ErrAcquireExclusiveLatch s"
| "call TryAcquireX cwRead s = ErrTryAcquireExclusiveLatch cwRead s"
| "call TryAcquireW cwRead s = ErrTryAcquireWriteLatch s"
| "call UpgradeSX cwRead s = ErrUpgradeSharedLatchToExclusiveLatch cwRead s"
| "call UpgradeSW cwRead s = ErrUpgradeSharedLatchToWriteLatch cwRead s"
| "call UpgradeXW cwRead s = ErrUpgradeExclusiveLatchToWriteLatch cwRead s"
| "call TryUpgradeSW cwRead s = ErrTryUpgradeSharedLatchToWriteLatch s"
| "call TryUpgradeXW cwRead s = ErrTryUpgradeExclusiveLatchToWriteLatch s"
| "call DowngradeWX cwRead s = DowngradeWriteLatchToExclusiveLatch s"
| "call DowngradeWS cwRead s = DowngradeWriteLatchToSharedLatch s"
| "call DowngradeXS cwRead s = DowngradeExclusiveLatchToSharedLatch s"
| "call (ReleaseIn g) cwRead s = ReleaseLatch g cwRead s"

text \<open>What the assertions at the start of an operation require of its thread, and what it holds on success.\<close>

fun needs :: "latch_op \<Rightarrow> status" where
  "needs AcquireS = Outside"
| "needs TryAcquireS = Outside"
| "needs AcquireX = Outside"
| "needs TryAcquireX = Outside"
| "needs TryAcquireW = Outside"
| "needs UpgradeSX = Owns iSharedGroup"
| "needs UpgradeSW = Owns iSharedGroup"
| "needs UpgradeXW = Owns iExclusiveGroup"
| "needs TryUpgradeSW = Owns iSharedGroup"
| "needs TryUpgradeXW = Owns iExclusiveGroup"
| "needs DowngradeWX = Owns iWriteGroup"
| "needs DowngradeWS = Owns iWriteGroup"
| "needs DowngradeXS = Owns iExclusiveGroup"
| "needs (ReleaseIn g) = (if g = iNoGroup then Outside else Owns g)"

fun gives :: "latch_op \<Rightarrow> status" where
  "gives AcquireS = Owns iSharedGroup"
| "gives TryAcquireS = Owns iSharedGroup"
| "gives AcquireX = Owns iExclusiveGroup"
| "gives TryAcquireX = Owns iExclusiveGroup"
| "gives TryAcquireW = Owns iWriteGroup"
| "gives UpgradeSX = Owns iExclusiveGroup"
| "gives UpgradeSW = Owns iWriteGroup"
| "gives UpgradeXW = Owns iWriteGroup"
| "gives TryUpgradeSW = Owns iWriteGroup"
| "gives TryUpgradeXW = Owns iWriteGroup"
| "gives DowngradeWX = Owns iExclusiveGroup"
| "gives DowngradeWS = Owns iSharedGroup"
| "gives DowngradeXS = Owns iSharedGroup"
| "gives (ReleaseIn g) = Outside"

fun status_after :: "latch_op \<Rightarrow> SXW_ERR \<Rightarrow> status" where
  "status_after op errSuccess = gives op"
| "status_after op errWaitForSharedLatch = Waits iSharedGroup"
| "status_after op errWaitForExclusiveLatch = Waits iExclusiveGroup"
| "status_after op errWaitForWriteLatch = Waits iWriteGroup"
| "status_after op errLatchConflict = needs op"

fun wait_for :: "iGroup \<Rightarrow> CSXWLatchState \<Rightarrow> CSXWLatchState option" where
  "wait_for iSharedGroup s = WaitForSharedLatch s"
| "wait_for iExclusiveGroup s = WaitForExclusiveLatch s"
| "wait_for iWriteGroup s = WaitForWriteLatch s"
| "wait_for iNoGroup s = None"

type_synonym thread = "status \<times> action list"

inductive latch_step :: "nat set \<Rightarrow> CSXWLatchState \<times> (nat \<Rightarrow> thread) \<Rightarrow> CSXWLatchState \<times> (nat \<Rightarrow> thread) \<Rightarrow> bool" for T where
  operation: "t \<in> T \<Longrightarrow> th t = (needs op, []) \<Longrightarrow> call op cwRead s = Some (s', acts, err) \<Longrightarrow>
    latch_step T (s, th) (s', th(t := (status_after op err, acts)))"
| act: "t \<in> T \<Longrightarrow> th t = (st, a # as) \<Longrightarrow> run_action a s = (s', new) \<Longrightarrow>
    latch_step T (s, th) (s', th(t := (st, new @ as)))"
| wake: "t \<in> T \<Longrightarrow> th t = (Waits g, []) \<Longrightarrow> wait_for g s = Some s' \<Longrightarrow>
    latch_step T (s, th) (s', th(t := (Owns g, [])))"

inductive latch_reach :: "nat set \<Rightarrow> CSXWLatchState \<times> (nat \<Rightarrow> thread) \<Rightarrow> bool" for T where
  init: "latch_reach T (CSXWLatchState_new, \<lambda>t. (Outside, []))"
| step: "latch_reach T c \<Longrightarrow> latch_step T c c' \<Longrightarrow> latch_reach T c'"

end
