(* ===== verification/Thread_Counts.thy ===== *)
theory Thread_Counts
  imports Ese_Prelude
begin

text \<open>
  Sums of a weight over the threads of a finite set: how they change when one thread moves, and what
  they say about single threads. The invariants of the concurrent components are stated with them.
\<close>

definition tot :: "('p \<Rightarrow> int) \<Rightarrow> 't set \<Rightarrow> ('t \<Rightarrow> 'p) \<Rightarrow> int" where
  "tot f T th = (\<Sum>t\<in>T. f (th t))"

lemma tot_upd:
  assumes "finite T" "t \<in> T"
  shows "tot f T (th(t := p)) = tot f T th - f (th t) + f p"
proof -
  have "(\<Sum>u\<in>T - {t}. f ((th(t := p)) u)) = (\<Sum>u\<in>T - {t}. f (th u))"
    by (rule sum.cong) auto
  then show ?thesis
    unfolding tot_def using sum.remove [OF assms, of "\<lambda>u. f ((th(t := p)) u)"] sum.remove [OF assms, of "\<lambda>u. f (th u)"] by simp
qed

lemma tot_nonneg: "(\<And>p. 0 \<le> f p) \<Longrightarrow> 0 \<le> tot f T th"
  unfolding tot_def by (rule sum_nonneg) simp

lemma tot_ge: "finite T \<Longrightarrow> t \<in> T \<Longrightarrow> (\<And>p. 0 \<le> f p) \<Longrightarrow> f (th t) \<le> tot f T th"
  unfolding tot_def by (rule member_le_sum) auto

lemma tot_mono: "(\<And>t. t \<in> T \<Longrightarrow> f (th t) \<le> g (th t)) \<Longrightarrow> tot f T th \<le> tot g T th"
  unfolding tot_def by (rule sum_mono) simp

lemma tot_add: "tot (\<lambda>p. f p + g p) T th = tot f T th + tot g T th"
  unfolding tot_def by (rule sum.distrib)

lemma tot_le_card: "(\<And>p. f p \<le> 1) \<Longrightarrow> tot f T th \<le> int (card T)"
  unfolding tot_def using sum_bounded_above [of T "\<lambda>t. f (th t)" 1] by simp

lemma tot_zero: "(\<And>p. f p = 0) \<Longrightarrow> tot f T th = 0"
  by (simp add: tot_def)

lemma tot_pos: "finite T \<Longrightarrow> 0 < tot f T th \<Longrightarrow> \<exists>t\<in>T. 0 < f (th t)"
  unfolding tot_def by (metis not_less sum_nonpos)

lemma tot_ge2:
  assumes "finite T" "t \<in> T" "u \<in> T" "t \<noteq> u" "\<And>p. 0 \<le> f p"
  shows "f (th t) + f (th u) \<le> tot f T th"
proof -
  have "(\<Sum>v\<in>{t, u}. f (th v)) \<le> tot f T th"
    unfolding tot_def by (rule sum_mono2) (use assms in auto)
  then show ?thesis
    using assms(4) by simp
qed

end
