(* ===== verification/SXW_Latch_Props.thy ===== *)
theory SXW_Latch_Props
  imports SXW_Latch Thread_Counts
begin

text \<open>
  Correctness of \<open>CSXWLatch\<close>. The books of the latch (\<open>balance\<close>) relate the fields of the control word to
  the numbers of threads by what they own, wait for or are about to release; every step keeps them
  balanced, and mutual exclusion, the checks of the code and the absence of lost wake-ups follow.
\<close>

unbundle bit_operations_syntax

section \<open>The fields of the control word\<close>

definition packed :: "int \<Rightarrow> bool \<Rightarrow> int \<Rightarrow> ULONG" where
  "packed a b c = word_of_int (a + 0x8000 * of_bool b + 0x10000 * c)"

definition in_range :: "int \<Rightarrow> int \<Rightarrow> bool" where
  "in_range a c \<longleftrightarrow> 0 \<le> a \<and> a < 0x7FFF \<and> 0 \<le> c \<and> c < 0x7FFF"

lemma packed_add:
  "packed a b c + 1 = packed (a + 1) b c"
  "packed a b c + 0x10000 = packed a b (c + 1)"
  "packed a b c + 0xFFFF = packed (a - 1) b (c + 1)"
  "packed a b c + 0xFFFFFFFF = packed (a - 1) b c"
  "packed a b c + 0xFFFF0001 = packed (a + 1) b (c - 1)"
  "packed a b c + 0xFFFF0000 = packed a b (c - 1)"
  "packed a True c + 0xFFFF8000 = packed a False c"
  "packed a True c + 0xFFFE8001 = packed (a + 1) False (c - 1)"
  "packed a True c + 0xFFFE8000 = packed a False (c - 1)"
proof -
  have k: "(0xFFFFFFFF :: ULONG) = word_of_int (- 1)" "(0xFFFF0001 :: ULONG) = word_of_int (- 0xFFFF)"
    "(0xFFFF0000 :: ULONG) = word_of_int (- 0x10000)" "(0xFFFF8000 :: ULONG) = word_of_int (- 0x8000)"
    "(0xFFFE8001 :: ULONG) = word_of_int (- 0x17FFF)" "(0xFFFE8000 :: ULONG) = word_of_int (- 0x18000)"
    by simp_all
  show "packed a b c + 1 = packed (a + 1) b c"
  "packed a b c + 0x10000 = packed a b (c + 1)"
  "packed a b c + 0xFFFF = packed (a - 1) b (c + 1)"
    by (simp_all add: packed_def algebra_simps)
  show "packed a b c + 0xFFFFFFFF = packed (a - 1) b c"
  "packed a b c + 0xFFFF0001 = packed (a + 1) b (c - 1)"
  "packed a b c + 0xFFFF0000 = packed a b (c - 1)"
  "packed a True c + 0xFFFF8000 = packed a False c"
  "packed a True c + 0xFFFE8001 = packed (a + 1) False (c - 1)"
  "packed a True c + 0xFFFE8000 = packed a False (c - 1)"
    unfolding k packed_def wi_hom_add by (simp_all add: algebra_simps)
qed

lemma uint_packed: "in_range a c \<Longrightarrow> uint (packed a b c) = a + 0x8000 * of_bool b + 0x10000 * c"
  unfolding packed_def uint_word_of_int by (cases b) (auto simp: in_range_def)

lemma uint_small: "0 \<le> k \<Longrightarrow> k < 2 ^ 31 \<Longrightarrow> uint (word_of_int k :: ULONG) = k"
  unfolding uint_word_of_int by simp

lemma packed_low:
  assumes "in_range a c"
  shows "packed a b c AND 0x7FFF = word_of_int a"
proof -
  have "uint (packed a b c AND 0x7FFF) = uint (take_bit 15 (packed a b c))"
    by (simp add: take_bit_eq_mask mask_numeral)
  also have "\<dots> = uint (packed a b c) mod 2 ^ 15"
    unfolding unsigned_take_bit_eq by (rule take_bit_eq_mod)
  also have "uint (packed a b c) = a + (of_bool b + 2 * c) * 2 ^ 15"
    by (simp add: uint_packed [OF assms])
  also have "(a + (of_bool b + 2 * c) * 2 ^ 15) mod 2 ^ 15 = a"
    unfolding mod_mult_self1 using assms by (simp add: in_range_def)
  also have "\<dots> = uint (word_of_int a :: ULONG)"
    using assms by (simp add: uint_small in_range_def)
  finally show ?thesis
    by (simp only: word_uint_eqI)
qed

lemma word_and_exp: "w AND 2 ^ n = (if bit w n then 2 ^ n else 0)" for w :: "'a::len word"
  by (rule bit_word_eqI) (auto simp: bit_and_iff bit_exp_iff)

lemma packed_bit15:
  assumes "in_range a c"
  shows "packed a b c AND 0x8000 = (if b then 0x8000 else 0)"
proof -
  have "bit (packed a b c) 15 \<longleftrightarrow> odd (uint (packed a b c) div 2 ^ 15)"
    using bit_uint_iff [of "packed a b c" 15] bit_iff_odd [of "uint (packed a b c)" 15] by simp
  also have "uint (packed a b c) = a + (of_bool b + 2 * c) * 2 ^ 15"
    by (simp add: uint_packed [OF assms])
  also have "(a + (of_bool b + 2 * c) * 2 ^ 15) div 2 ^ 15 = of_bool b + 2 * c"
    using assms by (subst div_mult_self1) (auto simp: in_range_def)
  finally have b: "bit (packed a b c) 15 \<longleftrightarrow> b"
    by simp
  have "packed a b c AND 2 ^ 15 = (if b then 2 ^ 15 else 0)"
    using word_and_exp [of "packed a b c" 15] b by simp
  then show ?thesis
    by simp
qed

lemma packed_high:
  assumes "in_range a c"
  shows "packed a b c AND 0xFFFF0000 = packed 0 False c"
proof -
  have c: "0 \<le> c" "c < 2 ^ 15"
    using assms by (auto simp: in_range_def)
  have "uint (drop_bit 16 (packed a b c)) = uint (packed a b c) div 2 ^ 16"
    unfolding unsigned_drop_bit_eq using assms
    by (cases b) (auto simp: drop_bit_eq_div take_bit_int_eq_self uint_packed in_range_def)
  also have "\<dots> = ((a + 0x8000 * of_bool b) + c * 2 ^ 16) div 2 ^ 16"
    by (simp add: uint_packed [OF assms])
  also have "\<dots> = c"
    using assms by (subst div_mult_self1) (auto simp: in_range_def)
  finally have "drop_bit 16 (packed a b c) = word_of_int c"
    by (metis word_of_int_uint)
  moreover have "take_bit 16 (word_of_int c :: ULONG) = word_of_int c"
    using c by (intro word_uint_eqI) (simp add: unsigned_take_bit_eq uint_small take_bit_int_eq_self)
  ultimately have "push_bit 16 (take_bit 16 (drop_bit 16 (packed a b c))) = packed 0 False c"
    by (simp add: push_bit_eq_mult packed_def)
  then show ?thesis
    unfolding slice_eq_mask by (simp add: mask_numeral)
qed

lemma packed_or: "in_range 0 c \<Longrightarrow> packed 0 False c OR 0x8000 = packed 0 True c"
proof -
  assume r: "in_range 0 c"
  have "packed 0 False c OR 0x8000 = packed 0 False c + 0x8000"
    using packed_bit15 [OF r, of False] by (simp add: disjunctive_add_eq_or)
  then show ?thesis
    by (simp add: packed_def)
qed

lemma packed_ge: "in_range a c \<Longrightarrow> 0x20000 \<le> packed a b c \<longleftrightarrow> 2 \<le> c"
  by (cases b) (auto simp: word_le_def uint_packed in_range_def)

lemma packed_eq:
  assumes "in_range a c" "in_range a' c'"
  shows "packed a b c = packed a' b' c' \<longleftrightarrow> a = a' \<and> b = b' \<and> c = c'"
proof
  assume e: "packed a b c = packed a' b' c'"
  have "(word_of_int a :: ULONG) = word_of_int a'"
    using packed_low [OF assms(1), of b] packed_low [OF assms(2), of b'] e by simp
  then have "uint (word_of_int a :: ULONG) = uint (word_of_int a' :: ULONG)"
    by (rule arg_cong)
  moreover have "uint (word_of_int a :: ULONG) = a" "uint (word_of_int a' :: ULONG) = a'"
    using assms by (simp_all add: uint_small in_range_def)
  ultimately have a: "a = a'"
    by metis
  have b: "b = b'"
    using packed_bit15 [OF assms(1), of b] packed_bit15 [OF assms(2), of b'] e by (simp split: if_splits)
  have "uint (packed a b c) = uint (packed a' b' c')"
    using e by simp
  then show "a = a' \<and> b = b' \<and> c = c'"
    unfolding uint_packed [OF assms(1)] uint_packed [OF assms(2)] using a b by simp
qed simp

lemma packed_numerals: "0 = packed 0 False 0" "1 = packed 1 False 0" "0x10000 = packed 0 False 1" "0x18000 = packed 0 True 1"
  by (simp_all add: packed_def)

text \<open>What the masks of a compare-and-swap say about the word it found.\<close>

lemma mask_15:
  assumes "packed a b c = w AND 0xFFFF7FFF" "in_range a c"
  shows "\<not> b"
proof -
  have "packed a b c AND 0x8000 = w AND (0xFFFF7FFF AND 0x8000)"
    unfolding assms(1) by (rule and.assoc)
  then show ?thesis
    by (simp add: packed_bit15 [OF assms(2)] split: if_splits)
qed

lemma mask_16:
  assumes "packed a b c = w AND 0x0000FFFF" "in_range a c"
  shows "c = 0"
proof -
  have "packed a b c AND 0xFFFF0000 = w AND (0x0000FFFF AND 0xFFFF0000)"
    unfolding assms(1) by (rule and.assoc)
  also have "\<dots> = packed 0 False 0"
    by (simp add: packed_def)
  finally show ?thesis
    using packed_eq [of 0 c 0 0 False False] assms(2) by (simp add: packed_high in_range_def)
qed

lemma high_zero: "in_range a c \<Longrightarrow> packed a b c AND 0xFFFF0000 = 0 \<longleftrightarrow> c = 0"
  using packed_high [of a c b] packed_eq [of 0 c 0 0 False False] by (auto simp: packed_numerals(1) in_range_def)

lemma low_zero: "in_range a c \<Longrightarrow> (word_of_int a :: ULONG) = 0 \<longleftrightarrow> a = 0"
  using uint_small [of a] by (auto simp: in_range_def)

section \<open>Counting threads\<close>

primrec pending_S :: "action list \<Rightarrow> int" where
  "pending_S [] = 0"
| "pending_S (a # as) = (case a of ReleaseS n \<Rightarrow> int n | _ \<Rightarrow> 0) + pending_S as"

primrec pending_up :: "action list \<Rightarrow> int" where
  "pending_up [] = 0"
| "pending_up (a # as) = (case a of UpdateQuiescedSharedLatchCount d \<Rightarrow> if d = - 1 then 0 else uint d | _ \<Rightarrow> 0) + pending_up as"

definition count :: "action \<Rightarrow> action list \<Rightarrow> int" where
  "count a as = int (length (filter ((=) a) as))"

definition owns :: "iGroup \<Rightarrow> thread \<Rightarrow> int" where
  "owns g p = of_bool (fst p = Owns g)"

definition waits :: "iGroup \<Rightarrow> thread \<Rightarrow> int" where
  "waits g p = of_bool (fst p = Waits g)"

definition upgrading :: "thread \<Rightarrow> int" where
  "upgrading p = of_bool (pending_up (snd p) \<noteq> 0)"

abbreviation "leaving \<equiv> count (UpdateQuiescedSharedLatchCount (- 1))"

lemma pending_nonneg [simp]: "0 \<le> pending_S as" "0 \<le> pending_up as"
  by (induction as) (auto split: action.splits)

lemma weight_nonneg [simp]: "0 \<le> owns g p" "0 \<le> waits g p" "0 \<le> count a as" "0 \<le> upgrading p"
  by (simp_all add: owns_def waits_def count_def upgrading_def)

section \<open>The invariant\<close>

text \<open>
  The books of the latch: \<open>a\<close>, \<open>b\<close> and \<open>c\<close> are the fields of the control word and \<open>k\<close> is the signed quiesced count; then
  come the counts in the semaphores, the numbers of threads by status, and what their pending actions will
  release: shared counts, exclusive and write counts, the count an upgrading thread will add (\<open>pU\<close>, if \<open>nU\<close>)
  and the shared owners that will leave (\<open>pL\<close>).
\<close>

definition balance :: "int \<Rightarrow> bool \<Rightarrow> int \<Rightarrow> int \<Rightarrow> int \<Rightarrow> int \<Rightarrow> int \<Rightarrow> int \<Rightarrow> int \<Rightarrow> int \<Rightarrow> int \<Rightarrow> int \<Rightarrow> int \<Rightarrow> int \<Rightarrow> int \<Rightarrow> int \<Rightarrow> int \<Rightarrow> int \<Rightarrow> int \<Rightarrow> bool" where
  "balance a b c k sS sX sW oS wS oX wX oW wW pS pX pW pU nU pL \<longleftrightarrow>
     c = oX + wX + oW + wW \<and> oX + oW + wW + sX + pX = (if c = 0 then 0 else 1)
     \<and> wS = sS + pS + (if b then a else 0) \<and> 0 \<le> a
     \<and> (if b then oW + wW = 1 \<and> k + pU = oS + sS + pS + pL \<and> (nU = 1 \<longrightarrow> k \<le> 0)
               \<and> sW + pW = (if wW = 1 \<and> nU = 0 \<and> oS + sS + pS + pL = 0 then 1 else 0)
               \<and> (oW = 1 \<longrightarrow> nU = 0 \<and> oS + sS + pS + pL = 0)
        else a = oS + wS \<and> oW = 0 \<and> wW = 0 \<and> k = 0 \<and> nU = 0 \<and> pL = 0 \<and> sW = 0 \<and> pW = 0)
     \<and> 0 \<le> sS \<and> 0 \<le> sX \<and> 0 \<le> sW \<and> 0 \<le> oS \<and> 0 \<le> wS \<and> 0 \<le> oX \<and> 0 \<le> wX \<and> 0 \<le> oW \<and> 0 \<le> wW
     \<and> 0 \<le> pS \<and> 0 \<le> pX \<and> 0 \<le> pW \<and> 0 \<le> nU \<and> 0 \<le> pL \<and> nU \<le> wW \<and> nU \<le> pU \<and> pU \<le> 0x8000 * nU"

definition wf_thread :: "thread \<Rightarrow> bool" where
  "wf_thread p \<longleftrightarrow> fst p \<noteq> Owns iNoGroup \<and> fst p \<noteq> Waits iNoGroup
     \<and> (\<forall>d. UpdateQuiescedSharedLatchCount d \<in> set (snd p) \<longrightarrow> snd p = [UpdateQuiescedSharedLatchCount d]
          \<and> (d = - 1 \<and> fst p = Outside \<or> fst p = Waits iWriteGroup \<and> 0 < uint d \<and> uint d < 0x8000))"

definition books :: "nat set \<Rightarrow> int \<Rightarrow> bool \<Rightarrow> int \<Rightarrow> int \<Rightarrow> CSXWLatchState \<Rightarrow> (nat \<Rightarrow> thread) \<Rightarrow> bool" where
  "books T a b c k s th \<longleftrightarrow> m_cw s = packed a b c \<and> m_cQS s = word_of_int k
     \<and> balance a b c k (int (m_semS s)) (int (m_semX s)) (int (m_semW s))
         (tot (owns iSharedGroup) T th) (tot (waits iSharedGroup) T th)
         (tot (owns iExclusiveGroup) T th) (tot (waits iExclusiveGroup) T th)
         (tot (owns iWriteGroup) T th) (tot (waits iWriteGroup) T th)
         (tot (\<lambda>p. pending_S (snd p)) T th) (tot (\<lambda>p. count ReleaseX (snd p)) T th) (tot (\<lambda>p. count ReleaseW (snd p)) T th)
         (tot (\<lambda>p. pending_up (snd p)) T th) (tot upgrading T th) (tot (\<lambda>p. leaving (snd p)) T th)"

definition latch_inv :: "nat set \<Rightarrow> CSXWLatchState \<times> (nat \<Rightarrow> thread) \<Rightarrow> bool" where
  "latch_inv T c \<longleftrightarrow> (\<exists>a b e k. books T a b e k (fst c) (snd c)) \<and> (\<forall>t \<in> T. wf_thread (snd c t))"

lemma wf_weights:
  assumes "wf_thread p"
  shows "upgrading p \<le> waits iWriteGroup p" "upgrading p \<le> pending_up (snd p)" "pending_up (snd p) \<le> 0x8000 * upgrading p"
    "leaving (snd p) \<le> 1"
proof -
  have *: "pending_up (snd p) = 0 \<and> leaving (snd p) = 0 \<or>
     (\<exists>d. snd p = [UpdateQuiescedSharedLatchCount d] \<and> (d = - 1 \<or> fst p = Waits iWriteGroup \<and> 0 < uint d \<and> uint d < 0x8000))"
  proof (cases "\<exists>d. UpdateQuiescedSharedLatchCount d \<in> set (snd p)")
    case True
    then show ?thesis
      using assms unfolding wf_thread_def by blast
  next
    case False
    have "pending_up as = 0 \<and> leaving as = 0" if "\<forall>d. UpdateQuiescedSharedLatchCount d \<notin> set as" for as
      using that by (induction as) (auto simp: count_def split: action.splits)
    then show ?thesis
      using False by blast
  qed
  show "upgrading p \<le> waits iWriteGroup p" "upgrading p \<le> pending_up (snd p)" "pending_up (snd p) \<le> 0x8000 * upgrading p"
    "leaving (snd p) \<le> 1"
    using * by (auto simp: upgrading_def waits_def count_def)
qed

lemma book_facts:
  assumes "finite T" "\<forall>t\<in>T. wf_thread (th t)"
  shows "tot upgrading T th \<le> tot (waits iWriteGroup) T th" "tot upgrading T th \<le> tot (\<lambda>p. pending_up (snd p)) T th"
    "tot (\<lambda>p. pending_up (snd p)) T th \<le> 0x8000 * tot upgrading T th" "tot (\<lambda>p. leaving (snd p)) T th \<le> int (card T)"
    "tot (owns iSharedGroup) T th + tot (waits iSharedGroup) T th \<le> int (card T)"
    "tot (owns iExclusiveGroup) T th + tot (waits iExclusiveGroup) T th + tot (owns iWriteGroup) T th + tot (waits iWriteGroup) T th \<le> int (card T)"
proof -
  show "tot upgrading T th \<le> tot (waits iWriteGroup) T th" "tot upgrading T th \<le> tot (\<lambda>p. pending_up (snd p)) T th"
    by (rule tot_mono, rule wf_weights, erule bspec [OF assms(2)])+
  have "tot (\<lambda>p. pending_up (snd p)) T th \<le> tot (\<lambda>p. 0x8000 * upgrading p) T th"
    by (rule tot_mono, rule wf_weights, erule bspec [OF assms(2)])
  then show "tot (\<lambda>p. pending_up (snd p)) T th \<le> 0x8000 * tot upgrading T th"
    by (simp add: tot_def sum_distrib_left)
  have "tot (\<lambda>p. leaving (snd p)) T th \<le> tot (\<lambda>p. 1) T th"
    by (rule tot_mono, rule wf_weights, erule bspec [OF assms(2)])
  then show "tot (\<lambda>p. leaving (snd p)) T th \<le> int (card T)"
    by (simp add: tot_def)
  show "tot (owns iSharedGroup) T th + tot (waits iSharedGroup) T th \<le> int (card T)"
    "tot (owns iExclusiveGroup) T th + tot (waits iExclusiveGroup) T th + tot (owns iWriteGroup) T th + tot (waits iWriteGroup) T th \<le> int (card T)"
    unfolding tot_add [symmetric] by (rule tot_le_card; simp add: owns_def waits_def)+
qed

text \<open>Every step keeps the books balanced.\<close>

lemma bal_share:
  "balance a b c k sS sX sW oS wS oX wX oW wW pS pX pW pU nU pL \<Longrightarrow> \<not> b \<Longrightarrow> balance (a + 1) b c k sS sX sW (oS + 1) wS oX wX oW wW pS pX pW pU nU pL"
  by (auto simp: balance_def split: if_splits)

lemma bal_share_wait:
  "balance a b c k sS sX sW oS wS oX wX oW wW pS pX pW pU nU pL \<Longrightarrow> b \<Longrightarrow> balance (a + 1) b c k sS sX sW oS (wS + 1) oX wX oW wW pS pX pW pU nU pL"
  by (auto simp: balance_def split: if_splits)

lemma bal_excl:
  "balance a b c k sS sX sW oS wS oX wX oW wW pS pX pW pU nU pL \<Longrightarrow> c = 0 \<Longrightarrow> balance a b (c + 1) k sS sX sW oS wS (oX + 1) wX oW wW pS pX pW pU nU pL"
  by (auto simp: balance_def split: if_splits)

lemma bal_excl_wait:
  "balance a b c k sS sX sW oS wS oX wX oW wW pS pX pW pU nU pL \<Longrightarrow> c \<noteq> 0 \<Longrightarrow> balance a b (c + 1) k sS sX sW oS wS oX (wX + 1) oW wW pS pX pW pU nU pL"
  by (auto simp: balance_def split: if_splits)

lemma bal_write:
  "balance a b c k sS sX sW oS wS oX wX oW wW pS pX pW pU nU pL \<Longrightarrow> a = 0 \<Longrightarrow> c = 0 \<Longrightarrow> balance a True 1 k sS sX sW oS wS oX wX (oW + 1) wW pS pX pW pU nU pL"
  by (auto simp: balance_def split: if_splits)

lemma bal_share_excl:
  "balance a b c k sS sX sW oS wS oX wX oW wW pS pX pW pU nU pL \<Longrightarrow> c = 0 \<Longrightarrow> 1 \<le> oS \<Longrightarrow> balance (a - 1) b (c + 1) k sS sX sW (oS - 1) wS (oX + 1) wX oW wW pS pX pW pU nU pL"
  by (auto simp: balance_def split: if_splits)

lemma bal_share_write:
  "balance a b c k sS sX sW oS wS oX wX oW wW pS pX pW pU nU pL \<Longrightarrow> a = 1 \<Longrightarrow> c = 0 \<Longrightarrow> 1 \<le> oS \<Longrightarrow> balance 0 True 1 k sS sX sW (oS - 1) wS oX wX (oW + 1) wW pS pX pW pU nU pL"
  by (auto simp: balance_def split: if_splits)

lemma bal_share_write_wait:
  "balance a b c k sS sX sW oS wS oX wX oW wW pS pX pW pU nU pL \<Longrightarrow> a \<noteq> 1 \<Longrightarrow> a < 0x7FFF \<Longrightarrow> c = 0 \<Longrightarrow> 1 \<le> oS \<Longrightarrow> balance 0 True 1 k sS sX sW (oS - 1) wS oX wX oW (wW + 1) pS pX pW (pU + (a - 1)) (nU + 1) pL"
  by (auto simp: balance_def split: if_splits)

lemma bal_excl_write:
  "balance a b c k sS sX sW oS wS oX wX oW wW pS pX pW pU nU pL \<Longrightarrow> a = 0 \<Longrightarrow> 1 \<le> oX \<Longrightarrow> balance 0 True c k sS sX sW oS wS (oX - 1) wX (oW + 1) wW pS pX pW pU nU pL"
  by (auto simp: balance_def split: if_splits)

lemma bal_excl_write_wait:
  "balance a b c k sS sX sW oS wS oX wX oW wW pS pX pW pU nU pL \<Longrightarrow> a \<noteq> 0 \<Longrightarrow> a < 0x7FFF \<Longrightarrow> 1 \<le> oX \<Longrightarrow> balance 0 True c k sS sX sW oS wS (oX - 1) wX oW (wW + 1) pS pX pW (pU + a) (nU + 1) pL"
  by (auto simp: balance_def split: if_splits)

lemma bal_write_excl:
  "balance a b c k sS sX sW oS wS oX wX oW wW pS pX pW pU nU pL \<Longrightarrow> 1 \<le> oW \<Longrightarrow> balance a False c k sS sX sW oS wS (oX + 1) wX (oW - 1) wW (pS + a) pX pW pU nU pL"
  by (auto simp: balance_def split: if_splits)

lemma bal_write_share:
  "balance a b c k sS sX sW oS wS oX wX oW wW pS pX pW pU nU pL \<Longrightarrow> 1 \<le> oW \<Longrightarrow> balance (a + 1) False (c - 1) k sS sX sW (oS + 1) wS oX wX (oW - 1) wW (pS + a) (pX + (if 2 \<le> c then 1 else 0)) pW pU nU pL"
  by (auto simp: balance_def split: if_splits)

lemma bal_excl_share:
  "balance a b c k sS sX sW oS wS oX wX oW wW pS pX pW pU nU pL \<Longrightarrow> 1 \<le> oX \<Longrightarrow> balance (a + 1) b (c - 1) k sS sX sW (oS + 1) wS (oX - 1) wX oW wW pS (pX + (if 2 \<le> c then 1 else 0)) pW pU nU pL"
  by (auto simp: balance_def split: if_splits)

lemma bal_leave_write:
  "balance a b c k sS sX sW oS wS oX wX oW wW pS pX pW pU nU pL \<Longrightarrow> 1 \<le> oW \<Longrightarrow> balance a False (c - 1) k sS sX sW oS wS oX wX (oW - 1) wW (pS + a) (pX + (if 2 \<le> c then 1 else 0)) pW pU nU pL"
  by (auto simp: balance_def split: if_splits)

lemma bal_leave_excl:
  "balance a b c k sS sX sW oS wS oX wX oW wW pS pX pW pU nU pL \<Longrightarrow> 1 \<le> oX \<Longrightarrow> balance a b (c - 1) k sS sX sW oS wS (oX - 1) wX oW wW pS (pX + (if 2 \<le> c then 1 else 0)) pW pU nU pL"
  by (auto simp: balance_def split: if_splits)

lemma bal_leave_share:
  "balance a b c k sS sX sW oS wS oX wX oW wW pS pX pW pU nU pL \<Longrightarrow> \<not> b \<Longrightarrow> 1 \<le> oS \<Longrightarrow> balance (a - 1) b c k sS sX sW (oS - 1) wS oX wX oW wW pS pX pW pU nU pL"
  by (auto simp: balance_def split: if_splits)

lemma bal_leave_quiesced:
  "balance a b c k sS sX sW oS wS oX wX oW wW pS pX pW pU nU pL \<Longrightarrow> b \<Longrightarrow> 1 \<le> oS \<Longrightarrow> balance a b c k sS sX sW (oS - 1) wS oX wX oW wW pS pX pW pU nU (pL + 1)"
  by (auto simp: balance_def split: if_splits)

lemma bal_left:
  "balance a b c k sS sX sW oS wS oX wX oW wW pS pX pW pU nU pL \<Longrightarrow> 1 \<le> pL \<Longrightarrow> balance a b c (k - 1) sS sX sW oS wS oX wX oW wW pS pX (pW + (if k - 1 = 0 then 1 else 0)) pU nU (pL - 1)"
  by (auto simp: balance_def split: if_splits)

lemma bal_upgraded:
  "balance a b c k sS sX sW oS wS oX wX oW wW pS pX pW pU nU pL \<Longrightarrow> 1 \<le> nU \<Longrightarrow> pU - n = 0 \<Longrightarrow> balance a b c (k + n) sS sX sW oS wS oX wX oW wW pS pX (pW + (if k + n = 0 then 1 else 0)) (pU - n) (nU - 1) pL"
  by (auto simp: balance_def split: if_splits)

lemma bal_ReleaseS:
  "balance a b c k sS sX sW oS wS oX wX oW wW pS pX pW pU nU pL \<Longrightarrow> n \<le> pS \<Longrightarrow> 0 \<le> n \<Longrightarrow> balance a b c k (sS + n) sX sW oS wS oX wX oW wW (pS - n) pX pW pU nU pL"
  by (auto simp: balance_def split: if_splits)

lemma bal_ReleaseX:
  "balance a b c k sS sX sW oS wS oX wX oW wW pS pX pW pU nU pL \<Longrightarrow> 1 \<le> pX \<Longrightarrow> balance a b c k sS (1 + sX) sW oS wS oX wX oW wW pS (pX - 1) pW pU nU pL"
  by (auto simp: balance_def split: if_splits)

lemma bal_ReleaseW:
  "balance a b c k sS sX sW oS wS oX wX oW wW pS pX pW pU nU pL \<Longrightarrow> 1 \<le> pW \<Longrightarrow> balance a b c k sS sX (1 + sW) oS wS oX wX oW wW pS pX (pW - 1) pU nU pL"
  by (auto simp: balance_def split: if_splits)

lemma bal_wake_S:
  "balance a b c k sS sX sW oS wS oX wX oW wW pS pX pW pU nU pL \<Longrightarrow> 1 \<le> sS \<Longrightarrow> balance a b c k (sS - 1) sX sW (oS + 1) (wS - 1) oX wX oW wW pS pX pW pU nU pL"
  by (auto simp: balance_def split: if_splits)

lemma bal_wake_X:
  "balance a b c k sS sX sW oS wS oX wX oW wW pS pX pW pU nU pL \<Longrightarrow> 1 \<le> sX \<Longrightarrow> balance a b c k sS (sX - 1) sW oS wS (oX + 1) (wX - 1) oW wW pS pX pW pU nU pL"
  by (auto simp: balance_def split: if_splits)

lemma bal_wake_W:
  "balance a b c k sS sX sW oS wS oX wX oW wW pS pX pW pU nU pL \<Longrightarrow> 1 \<le> sW \<Longrightarrow> balance a b c k sS sX (sW - 1) oS wS oX wX (oW + 1) (wW - 1) pS pX pW pU nU pL"
  by (auto simp: balance_def split: if_splits)

section \<open>Every step keeps the invariant\<close>

lemma books_upd:
  assumes "finite T" "t \<in> T"
  shows "books T a b c k s (th(t := p)) \<longleftrightarrow> m_cw s = packed a b c \<and> m_cQS s = word_of_int k
     \<and> balance a b c k (int (m_semS s)) (int (m_semX s)) (int (m_semW s))
         (tot (owns iSharedGroup) T th - owns iSharedGroup (th t) + owns iSharedGroup p)
         (tot (waits iSharedGroup) T th - waits iSharedGroup (th t) + waits iSharedGroup p)
         (tot (owns iExclusiveGroup) T th - owns iExclusiveGroup (th t) + owns iExclusiveGroup p)
         (tot (waits iExclusiveGroup) T th - waits iExclusiveGroup (th t) + waits iExclusiveGroup p)
         (tot (owns iWriteGroup) T th - owns iWriteGroup (th t) + owns iWriteGroup p)
         (tot (waits iWriteGroup) T th - waits iWriteGroup (th t) + waits iWriteGroup p)
         (tot (\<lambda>p. pending_S (snd p)) T th - pending_S (snd (th t)) + pending_S (snd p))
         (tot (\<lambda>p. count ReleaseX (snd p)) T th - count ReleaseX (snd (th t)) + count ReleaseX (snd p))
         (tot (\<lambda>p. count ReleaseW (snd p)) T th - count ReleaseW (snd (th t)) + count ReleaseW (snd p))
         (tot (\<lambda>p. pending_up (snd p)) T th - pending_up (snd (th t)) + pending_up (snd p))
         (tot upgrading T th - upgrading (th t) + upgrading p)
         (tot (\<lambda>p. leaving (snd p)) T th - leaving (snd (th t)) + leaving (snd p))"
  by (simp add: books_def tot_upd [OF assms])

lemma bal_range:
  "balance a b c k sS sX sW oS wS oX wX oW wW pS pX pW pU nU pL \<Longrightarrow> oS + wS \<le> n \<Longrightarrow> oX + wX + oW + wW \<le> n \<Longrightarrow> n < 0x7FFF \<Longrightarrow>
   in_range a c"
  by (auto simp: balance_def in_range_def split: if_splits)

lemma books_range:
  assumes "books T a b c k s th" "finite T" "card T < 0x7FFF" "\<forall>t\<in>T. wf_thread (th t)"
  shows "in_range a c"
proof -
  note facts = book_facts(5,6) [OF assms(2,4)]
  have "int (card T) < 0x7FFF"
    using assms(3) by simp
  then show ?thesis
    using bal_range facts assms(1) unfolding books_def by blast
qed

lemma latch_inv_upd:
  assumes "latch_inv T (s, th)" "wf_thread p" "books T a b c k s' (th(t := p))"
  shows "latch_inv T (s', th(t := p))"
  using assms unfolding latch_inv_def by auto

named_theorems weights
declare owns_def [weights] waits_def [weights] upgrading_def [weights]

lemma count_simps [weights]: "count a [] = 0" "count a (x # xs) = of_bool (a = x) + count a xs" "count a (xs @ ys) = count a xs + count a ys"
  by (simp_all add: count_def)

lemma int_unat_small: "in_range a c \<Longrightarrow> int (unat (word_of_int a :: ULONG)) = a"
  using uint_small [of a] by (simp add: in_range_def)

lemma small_not_minus: "0 \<le> n \<Longrightarrow> n < 0x8000 \<Longrightarrow> (word_of_int n :: ULONG) \<noteq> - 1"
proof
  assume n: "0 \<le> n" "n < 0x8000" and e: "(word_of_int n :: ULONG) = - 1"
  have "uint (word_of_int n :: ULONG) = n"
    using n by (simp add: uint_small)
  then show False
    using e n by (simp add: unsigned_minus_1_eq_mask mask_eq_exp_minus_1)
qed

text \<open>A state in which thread \<open>t\<close> takes a step.\<close>

definition steady :: "nat set \<Rightarrow> nat \<Rightarrow> CSXWLatchState \<Rightarrow> (nat \<Rightarrow> thread) \<Rightarrow> int \<Rightarrow> bool \<Rightarrow> int \<Rightarrow> int \<Rightarrow> bool" where
  "steady T t s th a b c k \<longleftrightarrow> finite T \<and> card T < 0x7FFF \<and> t \<in> T \<and> books T a b c k s th \<and> (\<forall>t\<in>T. wf_thread (th t))"

lemma steadyD:
  assumes "steady T t s th a b c k"
  shows "finite T" "t \<in> T" "m_cw s = packed a b c" "in_range a c" "m_cQS s = word_of_int k"
    "balance a b c k (int (m_semS s)) (int (m_semX s)) (int (m_semW s))
       (tot (owns iSharedGroup) T th) (tot (waits iSharedGroup) T th)
       (tot (owns iExclusiveGroup) T th) (tot (waits iExclusiveGroup) T th)
       (tot (owns iWriteGroup) T th) (tot (waits iWriteGroup) T th)
       (tot (\<lambda>p. pending_S (snd p)) T th) (tot (\<lambda>p. count ReleaseX (snd p)) T th) (tot (\<lambda>p. count ReleaseW (snd p)) T th)
       (tot (\<lambda>p. pending_up (snd p)) T th) (tot upgrading T th) (tot (\<lambda>p. leaving (snd p)) T th)"
    "latch_inv T (s, th)" "owns g (th t) \<le> tot (owns g) T th"
  using assms books_range tot_ge [of T t "owns g" th]
  unfolding steady_def books_def latch_inv_def by (auto simp: books_def)

lemma steady_step:
  assumes "steady T t s th a b c k" "wf_thread p" "books T a' b' c' k' s' (th(t := p))"
  shows "latch_inv T (s', th(t := p))"
  using assms steadyD(7) latch_inv_upd by blast

lemma steady_stay: "steady T t s th a b c k \<Longrightarrow> th t = p \<Longrightarrow> latch_inv T (s, th(t := p))"
  using steadyD(7) by fastforce

lemma wf_idle [simp]: "g \<noteq> iNoGroup \<Longrightarrow> wf_thread (Owns g, [])" "g \<noteq> iNoGroup \<Longrightarrow> wf_thread (Waits g, [])" "wf_thread (Outside, [])"
  by (auto simp: wf_thread_def)

lemma ErrAcquireSharedLatch_inv:
  assumes "steady T t s th a b c k" "th t = (Outside, [])" "ErrAcquireSharedLatch s = Some (s', acts, err)"
  shows "latch_inv T (s', th(t := (status_after AcquireS err, acts)))"
proof -
  note S = steadyD [OF assms(1)]
  have s': "s' = s\<lparr>m_cw := packed (a + 1) b c\<rparr>" "acts = []" "err = (if b then errWaitForSharedLatch else errSuccess)"
    using assms(3) S(3) packed_bit15 [OF S(4), of b]
    by (auto simp: ErrAcquireSharedLatch_def AtomicExchangeAdd_cw_def packed_add split: if_splits)
  have "books T (a + 1) b c k s' (th(t := (status_after AcquireS err, acts)))"
    using bal_share [OF S(6)] bal_share_wait [OF S(6)] S(5) assms(2) s' by (auto simp: books_upd [OF S(1,2)] weights)
  then show ?thesis
    using steady_step [OF assms(1)] s' by simp
qed

lemma ErrAcquireExclusiveLatch_inv:
  assumes "steady T t s th a b c k" "th t = (Outside, [])" "ErrAcquireExclusiveLatch s = Some (s', acts, err)"
  shows "latch_inv T (s', th(t := (status_after AcquireX err, acts)))"
proof -
  note S = steadyD [OF assms(1)]
  have s': "s' = s\<lparr>m_cw := packed a b (c + 1)\<rparr>" "acts = []" "err = (if c = 0 then errSuccess else errWaitForExclusiveLatch)"
    using assms(3) S(3) high_zero [OF S(4), of b]
    by (auto simp: ErrAcquireExclusiveLatch_def AtomicExchangeAdd_cw_def packed_add split: if_splits)
  have "books T a b (c + 1) k s' (th(t := (status_after AcquireX err, acts)))"
    using bal_excl [OF S(6)] bal_excl_wait [OF S(6)] S(5) assms(2) s' by (auto simp: books_upd [OF S(1,2)] weights)
  then show ?thesis
    using steady_step [OF assms(1)] s' by simp
qed

lemma ErrTryAcquireSharedLatch_inv:
  assumes "steady T t s th a b c k" "th t = (Outside, [])" "ErrTryAcquireSharedLatch cwRead s = Some (s', acts, err)"
  shows "latch_inv T (s', th(t := (status_after TryAcquireS err, acts)))"
proof (cases "m_cw s = cwRead AND 0xFFFF7FFF")
  case True
  note S = steadyD [OF assms(1)]
  have b: "\<not> b"
    using mask_15 [of a b c cwRead] True S(3,4) by simp
  have s': "s' = s\<lparr>m_cw := packed (a + 1) b c\<rparr>" "acts = []" "err = errSuccess"
    using assms(3) True S(3) by (auto simp: ErrTryAcquireSharedLatch_def AtomicCompareExchange_cw_def Let_def simp flip: packed_add(1))
  have "books T (a + 1) b c k s' (th(t := (status_after TryAcquireS err, acts)))"
    using bal_share [OF S(6) b] S(5) assms(2) s' by (auto simp: books_upd [OF S(1,2)] weights)
  then show ?thesis
    using steady_step [OF assms(1)] s' by simp
next
  case False
  then have "s' = s" "acts = []" "err = errLatchConflict"
    using assms(3) by (auto simp: ErrTryAcquireSharedLatch_def AtomicCompareExchange_cw_def Let_def split: if_splits)
  then show ?thesis
    using steady_stay [OF assms(1,2)] by simp
qed

lemma ErrTryAcquireExclusiveLatch_inv:
  assumes "steady T t s th a b c k" "th t = (Outside, [])" "ErrTryAcquireExclusiveLatch cwRead s = Some (s', acts, err)"
  shows "latch_inv T (s', th(t := (status_after TryAcquireX err, acts)))"
proof (cases "m_cw s = cwRead AND 0xFFFF")
  case True
  note S = steadyD [OF assms(1)]
  have c: "c = 0"
    using mask_16 [of a b c cwRead] True S(3,4) by simp
  have s': "s' = s\<lparr>m_cw := packed a b (c + 1)\<rparr>" "acts = []" "err = errSuccess"
    using assms(3) True S(3) by (auto simp: ErrTryAcquireExclusiveLatch_def AtomicCompareExchange_cw_def Let_def simp flip: packed_add(2))
  have "books T a b (c + 1) k s' (th(t := (status_after TryAcquireX err, acts)))"
    using bal_excl [OF S(6) c] S(5) assms(2) s' by (auto simp: books_upd [OF S(1,2)] weights)
  then show ?thesis
    using steady_step [OF assms(1)] s' by simp
next
  case False
  then have "s' = s" "acts = []" "err = errLatchConflict"
    using assms(3) by (auto simp: ErrTryAcquireExclusiveLatch_def AtomicCompareExchange_cw_def Let_def split: if_splits)
  then show ?thesis
    using steady_stay [OF assms(1,2)] by simp
qed

lemma ErrTryAcquireWriteLatch_inv:
  assumes "steady T t s th a b c k" "th t = (Outside, [])" "ErrTryAcquireWriteLatch s = Some (s', acts, err)"
  shows "latch_inv T (s', th(t := (status_after TryAcquireW err, acts)))"
proof (cases "m_cw s = 0")
  case True
  note S = steadyD [OF assms(1)]
  have abc: "a = 0" "\<not> b" "c = 0"
    using True S(3,4) packed_eq [OF S(4), of 0 0 b False] by (auto simp: packed_numerals(1) in_range_def)
  have s': "s' = s\<lparr>m_cw := packed a True 1\<rparr>" "acts = []" "err = errSuccess"
    using assms(3) True abc by (auto simp: ErrTryAcquireWriteLatch_def AtomicCompareExchange_cw_def packed_numerals(4))
  have "books T a True 1 k s' (th(t := (status_after TryAcquireW err, acts)))"
    using bal_write [OF S(6) abc(1,3)] S(5) assms(2) s' by (auto simp: books_upd [OF S(1,2)] weights)
  then show ?thesis
    using steady_step [OF assms(1)] s' by simp
next
  case False
  then have "s' = s" "acts = []" "err = errLatchConflict"
    using assms(3) by (auto simp: ErrTryAcquireWriteLatch_def AtomicCompareExchange_cw_def Let_def split: if_splits)
  then show ?thesis
    using steady_stay [OF assms(1,2)] by simp
qed

lemma ErrUpgradeSharedLatchToExclusiveLatch_inv:
  assumes "steady T t s th a b c k" "th t = (Owns iSharedGroup, [])" "ErrUpgradeSharedLatchToExclusiveLatch cwRead s = Some (s', acts, err)"
  shows "latch_inv T (s', th(t := (status_after UpgradeSX err, acts)))"
proof (cases "m_cw s = cwRead AND 0xFFFF")
  case True
  note S = steadyD [OF assms(1)]
  have c: "c = 0"
    using mask_16 [of a b c cwRead] True S(3,4) by simp
  have o: "1 \<le> tot (owns iSharedGroup) T th"
    using S(8) [of iSharedGroup] assms(2) by (simp add: weights)
  have s': "s' = s\<lparr>m_cw := packed (a - 1) b (c + 1)\<rparr>" "acts = []" "err = errSuccess"
    using assms(3) True S(3) by (auto simp: ErrUpgradeSharedLatchToExclusiveLatch_def AtomicCompareExchange_cw_def Let_def simp flip: packed_add(3))
  have "books T (a - 1) b (c + 1) k s' (th(t := (status_after UpgradeSX err, acts)))"
    using bal_share_excl [OF S(6) c o] S(5) assms(2) s' by (auto simp: books_upd [OF S(1,2)] weights)
  then show ?thesis
    using steady_step [OF assms(1)] s' by simp
next
  case False
  then have "s' = s" "acts = []" "err = errLatchConflict"
    using assms(3) by (auto simp: ErrUpgradeSharedLatchToExclusiveLatch_def AtomicCompareExchange_cw_def Let_def split: if_splits)
  then show ?thesis
    using steady_stay [OF assms(1,2)] by simp
qed

lemma wf_upgrade: "0 < n \<Longrightarrow> n < 0x8000 \<Longrightarrow> wf_thread (Waits iWriteGroup, [UpdateQuiescedSharedLatchCount (word_of_int n)])"
  using uint_small [of n] by (simp add: wf_thread_def)

lemma pending_up_small: "0 < n \<Longrightarrow> n < 0x8000 \<Longrightarrow> pending_up [UpdateQuiescedSharedLatchCount (word_of_int n)] = n"
  using uint_small [of n] small_not_minus [of n] by simp

lemma leaving_small: "0 < n \<Longrightarrow> n < 0x8000 \<Longrightarrow> leaving [UpdateQuiescedSharedLatchCount (word_of_int n)] = 0"
  using small_not_minus [of n] by (simp add: count_def)

lemma ErrUpgradeSharedLatchToWriteLatch_inv:
  assumes "steady T t s th a b c k" "th t = (Owns iSharedGroup, [])" "ErrUpgradeSharedLatchToWriteLatch cwRead s = Some (s', acts, err)"
  shows "latch_inv T (s', th(t := (status_after UpgradeSW err, acts)))"
proof (cases "m_cw s = cwRead AND 0xFFFF")
  case True
  note S = steadyD [OF assms(1)]
  have c: "c = 0"
    using mask_16 [of a b c cwRead] True S(3,4) by simp
  have o: "1 \<le> tot (owns iSharedGroup) T th"
    using S(8) [of iSharedGroup] assms(2) by (simp add: weights)
  have b: "\<not> b" "a < 0x7FFF" "1 \<le> a"
    using S(4,6) c o by (auto simp: balance_def in_range_def split: if_splits)
  have cw: "m_cw s = word_of_int a"
    using S(3) b(1) c by (simp add: packed_def)
  have one: "word_of_int a = (1 :: ULONG) \<longleftrightarrow> a = 1"
    using packed_eq [OF S(4), of 1 0 b False] S(3) cw b(1) c by (auto simp: packed_numerals(2) in_range_def)
  show ?thesis
  proof (cases "a = 1")
    case a: True
    have s': "s' = s\<lparr>m_cw := packed 0 True 1\<rparr>" "acts = []" "err = errSuccess"
      using assms(3) True cw a by (auto simp: ErrUpgradeSharedLatchToWriteLatch_def AtomicCompareExchange_cw_def Let_def packed_numerals(4))
    have "books T 0 True 1 k s' (th(t := (status_after UpgradeSW err, acts)))"
      using bal_share_write [OF S(6) a c o] S(5) assms(2) s' by (auto simp: books_upd [OF S(1,2)] weights)
    then show ?thesis
      using steady_step [OF assms(1)] s' by simp
  next
    case a: False
    then have n: "0 < a - 1" "a - 1 < 0x8000"
      using b by simp_all
    have s': "s' = s\<lparr>m_cw := packed 0 True 1\<rparr>" "acts = [UpdateQuiescedSharedLatchCount (word_of_int (a - 1))]" "err = errWaitForWriteLatch"
      using assms(3) True cw a one
      by (auto simp: ErrUpgradeSharedLatchToWriteLatch_def AtomicCompareExchange_cw_def Let_def packed_numerals(4) wi_hom_sub)
    have "books T 0 True 1 k s' (th(t := (status_after UpgradeSW err, acts)))"
      using bal_share_write_wait [OF S(6) a b(2) c o] S(5) assms(2) s' n pending_up_small [OF n] leaving_small [OF n]
      by (auto simp: books_upd [OF S(1,2)] weights simp del: pending_up.simps(2))
    then show ?thesis
      using steady_step [OF assms(1) wf_upgrade [OF n]] s' by simp
  qed
next
  case False
  then have "s' = s" "acts = []" "err = errLatchConflict"
    using assms(3) by (auto simp: ErrUpgradeSharedLatchToWriteLatch_def AtomicCompareExchange_cw_def Let_def split: if_splits)
  then show ?thesis
    using steady_stay [OF assms(1,2)] by simp
qed

lemma ErrUpgradeExclusiveLatchToWriteLatch_inv:
  assumes "steady T t s th a b c k" "th t = (Owns iExclusiveGroup, [])" "ErrUpgradeExclusiveLatchToWriteLatch cwRead s = Some (s', acts, err)"
  shows "latch_inv T (s', th(t := (status_after UpgradeXW err, acts)))"
proof -
  note S = steadyD [OF assms(1)]
  have o: "1 \<le> tot (owns iExclusiveGroup) T th"
    using S(8) [of iExclusiveGroup] assms(2) by (simp add: weights)
  have a: "0 \<le> a" "a < 0x7FFF" and r: "in_range 0 c"
    using S(4) by (auto simp: in_range_def)
  have run: "m_cw s = cwRead" "s' = s\<lparr>m_cw := packed 0 True c\<rparr>"
      "(acts, err) = (if a = 0 then ([], errSuccess) else ([UpdateQuiescedSharedLatchCount (word_of_int a)], errWaitForWriteLatch))"
    using assms(3) S(3) packed_high [OF S(4), of b] packed_or [OF r] packed_low [OF S(4), of b] low_zero [OF S(4)]
    by (auto simp: ErrUpgradeExclusiveLatchToWriteLatch_def AtomicCompareExchange_cw_def Let_def split: if_splits)
  show ?thesis
  proof (cases "a = 0")
    case True
    then have "books T 0 True c k s' (th(t := (status_after UpgradeXW err, acts)))"
      using bal_excl_write [OF S(6) True o] S(5) assms(2) run by (auto simp: books_upd [OF S(1,2)] weights)
    then show ?thesis
      using steady_step [OF assms(1)] run True by simp
  next
    case False
    then have n: "0 < a" "a < 0x8000"
      using a by simp_all
    have "books T 0 True c k s' (th(t := (status_after UpgradeXW err, acts)))"
      using bal_excl_write_wait [OF S(6) False a(2) o] S(5) assms(2) run False pending_up_small [OF n] leaving_small [OF n]
      by (auto simp: books_upd [OF S(1,2)] weights simp del: pending_up.simps(2))
    then show ?thesis
      using steady_step [OF assms(1) wf_upgrade [OF n]] run False by simp
  qed
qed

lemma ErrTryUpgradeSharedLatchToWriteLatch_inv:
  assumes "steady T t s th a b c k" "th t = (Owns iSharedGroup, [])" "ErrTryUpgradeSharedLatchToWriteLatch s = Some (s', acts, err)"
  shows "latch_inv T (s', th(t := (status_after TryUpgradeSW err, acts)))"
proof (cases "m_cw s = 1")
  case True
  note S = steadyD [OF assms(1)]
  have abc: "a = 1" "\<not> b" "c = 0"
    using True S(3,4) packed_eq [OF S(4), of 1 0 b False] by (auto simp: packed_numerals(2) in_range_def)
  have o: "1 \<le> tot (owns iSharedGroup) T th"
    using S(8) [of iSharedGroup] assms(2) by (simp add: weights)
  have s': "s' = s\<lparr>m_cw := packed 0 True 1\<rparr>" "acts = []" "err = errSuccess"
    using assms(3) True by (auto simp: ErrTryUpgradeSharedLatchToWriteLatch_def AtomicCompareExchange_cw_def packed_numerals(4))
  have "books T 0 True 1 k s' (th(t := (status_after TryUpgradeSW err, acts)))"
    using bal_share_write [OF S(6) abc(1,3) o] S(5) assms(2) s' by (auto simp: books_upd [OF S(1,2)] weights)
  then show ?thesis
    using steady_step [OF assms(1)] s' by simp
next
  case False
  then have "s' = s" "acts = []" "err = errLatchConflict"
    using assms(3) by (auto simp: ErrTryUpgradeSharedLatchToWriteLatch_def AtomicCompareExchange_cw_def split: if_splits)
  then show ?thesis
    using steady_stay [OF assms(1,2)] by simp
qed

lemma ErrTryUpgradeExclusiveLatchToWriteLatch_inv:
  assumes "steady T t s th a b c k" "th t = (Owns iExclusiveGroup, [])" "ErrTryUpgradeExclusiveLatchToWriteLatch s = Some (s', acts, err)"
  shows "latch_inv T (s', th(t := (status_after TryUpgradeXW err, acts)))"
proof (cases "m_cw s = 0x10000")
  case True
  note S = steadyD [OF assms(1)]
  have abc: "a = 0" "\<not> b" "c = 1"
    using True S(3,4) packed_eq [OF S(4), of 0 1 b False] by (auto simp: packed_numerals(3) in_range_def)
  have o: "1 \<le> tot (owns iExclusiveGroup) T th"
    using S(8) [of iExclusiveGroup] assms(2) by (simp add: weights)
  have s': "s' = s\<lparr>m_cw := packed 0 True c\<rparr>" "acts = []" "err = errSuccess"
    using assms(3) True abc by (auto simp: ErrTryUpgradeExclusiveLatchToWriteLatch_def AtomicCompareExchange_cw_def packed_numerals(4))
  have "books T 0 True c k s' (th(t := (status_after TryUpgradeXW err, acts)))"
    using bal_excl_write [OF S(6) abc(1) o] S(5) assms(2) s' by (auto simp: books_upd [OF S(1,2)] weights)
  then show ?thesis
    using steady_step [OF assms(1)] s' by simp
next
  case False
  then have "s' = s" "acts = []" "err = errLatchConflict"
    using assms(3) by (auto simp: ErrTryUpgradeExclusiveLatchToWriteLatch_def AtomicCompareExchange_cw_def split: if_splits)
  then show ?thesis
    using steady_stay [OF assms(1,2)] by simp
qed

text \<open>The owner of the write latch finds the quiesced bit set.\<close>

lemma bal_write_quiesced:
  "balance a b c k sS sX sW oS wS oX wX oW wW pS pX pW pU nU pL \<Longrightarrow> 1 \<le> oW \<Longrightarrow> b"
  by (auto simp: balance_def split: if_splits)

lemma wf_releases [simp]: "g \<noteq> iNoGroup \<Longrightarrow> \<forall>d. UpdateQuiescedSharedLatchCount d \<notin> set as \<Longrightarrow> wf_thread (Owns g, as)"
  "\<forall>d. UpdateQuiescedSharedLatchCount d \<notin> set as \<Longrightarrow> wf_thread (Outside, as)"
  by (auto simp: wf_thread_def)

definition granted_S :: "int \<Rightarrow> action list" where
  "granted_S a = (if a = 0 then [] else [ReleaseS (nat a)])"

definition granted_X :: "int \<Rightarrow> action list" where
  "granted_X c = (if 2 \<le> c then [ReleaseX] else [])"

lemma granted_weights:
  "0 \<le> a \<Longrightarrow> pending_S (granted_S a @ granted_X c) = a" "0 \<le> a \<Longrightarrow> pending_S (granted_S a) = a" "pending_S (granted_X c) = 0"
  "pending_up (granted_S a @ granted_X c) = 0" "pending_up (granted_S a) = 0" "pending_up (granted_X c) = 0"
  "count ReleaseX (granted_S a @ granted_X c) = (if 2 \<le> c then 1 else 0)" "count ReleaseX (granted_S a) = 0"
  "count ReleaseX (granted_X c) = (if 2 \<le> c then 1 else 0)"
  "count ReleaseW (granted_S a @ granted_X c) = 0" "count ReleaseW (granted_S a) = 0" "count ReleaseW (granted_X c) = 0"
  "leaving (granted_S a @ granted_X c) = 0" "leaving (granted_S a) = 0" "leaving (granted_X c) = 0"
  "UpdateQuiescedSharedLatchCount d \<notin> set (granted_S a)" "UpdateQuiescedSharedLatchCount d \<notin> set (granted_X c)"
  by (auto simp: granted_S_def granted_X_def count_simps)

lemma unat_small: "in_range a c \<Longrightarrow> unat (word_of_int a :: ULONG) = nat a"
  using int_unat_small by (metis nat_int)

lemma release_S_granted:
  assumes "in_range a c"
  shows "(if packed a b c AND 0x7FFF \<noteq> 0 then [ReleaseS (unat (packed a b c AND 0x7FFF))] else []) = granted_S a"
  using low_zero [OF assms] unat_small [OF assms] by (auto simp: packed_low [OF assms] granted_S_def)

lemma release_X_granted: "in_range a c \<Longrightarrow> (if 0x20000 \<le> packed a b c then [ReleaseX] else []) = granted_X c"
  by (simp add: packed_ge granted_X_def)

lemma DowngradeWriteLatchToExclusiveLatch_inv:
  assumes "steady T t s th a b c k" "th t = (Owns iWriteGroup, [])" "DowngradeWriteLatchToExclusiveLatch s = Some (s', acts, err)"
  shows "latch_inv T (s', th(t := (status_after DowngradeWX err, acts)))"
proof -
  note S = steadyD [OF assms(1)]
  have o: "1 \<le> tot (owns iWriteGroup) T th"
    using S(8) [of iWriteGroup] assms(2) by (simp add: weights)
  have b and a: "0 \<le> a"
    using bal_write_quiesced [OF S(6) o] S(4) by (auto simp: in_range_def)
  have s': "s' = s\<lparr>m_cw := packed a False c\<rparr>" "acts = granted_S a" "err = errSuccess"
    using assms(3) S(3) \<open>b\<close> release_S_granted [OF S(4), of b]
    by (auto simp: DowngradeWriteLatchToExclusiveLatch_def AtomicExchangeAdd_cw_def packed_add)
  have "books T a False c k s' (th(t := (status_after DowngradeWX err, acts)))"
    using bal_write_excl [OF S(6) o] S(5) assms(2) s' a by (auto simp: books_upd [OF S(1,2)] weights granted_weights)
  then show ?thesis
    using steady_step [OF assms(1)] s' by (simp add: granted_weights)
qed

lemma DowngradeWriteLatchToSharedLatch_inv:
  assumes "steady T t s th a b c k" "th t = (Owns iWriteGroup, [])" "DowngradeWriteLatchToSharedLatch s = Some (s', acts, err)"
  shows "latch_inv T (s', th(t := (status_after DowngradeWS err, acts)))"
proof -
  note S = steadyD [OF assms(1)]
  have o: "1 \<le> tot (owns iWriteGroup) T th"
    using S(8) [of iWriteGroup] assms(2) by (simp add: weights)
  have b and a: "0 \<le> a"
    using bal_write_quiesced [OF S(6) o] S(4) by (auto simp: in_range_def)
  have s': "s' = s\<lparr>m_cw := packed (a + 1) False (c - 1)\<rparr>" "acts = granted_S a @ granted_X c" "err = errSuccess"
    using assms(3) S(3) \<open>b\<close> release_S_granted [OF S(4), of b] release_X_granted [OF S(4), of b]
    by (auto simp: DowngradeWriteLatchToSharedLatch_def AtomicExchangeAdd_cw_def packed_add)
  have "books T (a + 1) False (c - 1) k s' (th(t := (status_after DowngradeWS err, acts)))"
    using bal_write_share [OF S(6) o] S(5) assms(2) s'(1,3) a
    by (auto simp: books_upd [OF S(1,2)] weights granted_weights s'(2) simp del: count_simps(3))
  then show ?thesis
    using steady_step [OF assms(1)] s' by (simp add: granted_weights)
qed

lemma DowngradeExclusiveLatchToSharedLatch_inv:
  assumes "steady T t s th a b c k" "th t = (Owns iExclusiveGroup, [])" "DowngradeExclusiveLatchToSharedLatch s = Some (s', acts, err)"
  shows "latch_inv T (s', th(t := (status_after DowngradeXS err, acts)))"
proof -
  note S = steadyD [OF assms(1)]
  have o: "1 \<le> tot (owns iExclusiveGroup) T th"
    using S(8) [of iExclusiveGroup] assms(2) by (simp add: weights)
  have s': "s' = s\<lparr>m_cw := packed (a + 1) b (c - 1)\<rparr>" "acts = granted_X c" "err = errSuccess"
    using assms(3) S(3) release_X_granted [OF S(4), of b]
    by (auto simp: DowngradeExclusiveLatchToSharedLatch_def AtomicExchangeAdd_cw_def packed_add)
  have "books T (a + 1) b (c - 1) k s' (th(t := (status_after DowngradeXS err, acts)))"
    using bal_excl_share [OF S(6) o] S(5) assms(2) s' by (auto simp: books_upd [OF S(1,2)] weights granted_weights)
  then show ?thesis
    using steady_step [OF assms(1)] s' by (simp add: granted_weights)
qed

lemma ReleaseWriteLatch_inv:
  assumes "steady T t s th a b c k" "th t = (Owns iWriteGroup, [])" "ReleaseWriteLatch s = Some (s', acts, err)"
  shows "latch_inv T (s', th(t := (status_after (ReleaseIn iWriteGroup) err, acts)))"
proof -
  note S = steadyD [OF assms(1)]
  have o: "1 \<le> tot (owns iWriteGroup) T th"
    using S(8) [of iWriteGroup] assms(2) by (simp add: weights)
  have b and a: "0 \<le> a"
    using bal_write_quiesced [OF S(6) o] S(4) by (auto simp: in_range_def)
  have s': "s' = s\<lparr>m_cw := packed a False (c - 1)\<rparr>" "acts = granted_S a @ granted_X c" "err = errSuccess"
    using assms(3) S(3) \<open>b\<close> release_S_granted [OF S(4), of b] release_X_granted [OF S(4), of b]
    by (auto simp: ReleaseWriteLatch_def AtomicExchangeAdd_cw_def packed_add)
  have "books T a False (c - 1) k s' (th(t := (status_after (ReleaseIn iWriteGroup) err, acts)))"
    using bal_leave_write [OF S(6) o] S(5) assms(2) s'(1,3) a
    by (auto simp: books_upd [OF S(1,2)] weights granted_weights s'(2) simp del: count_simps(3))
  then show ?thesis
    using steady_step [OF assms(1)] s' by (simp add: granted_weights)
qed

lemma ReleaseExclusiveLatch_inv:
  assumes "steady T t s th a b c k" "th t = (Owns iExclusiveGroup, [])" "ReleaseExclusiveLatch s = Some (s', acts, err)"
  shows "latch_inv T (s', th(t := (status_after (ReleaseIn iExclusiveGroup) err, acts)))"
proof -
  note S = steadyD [OF assms(1)]
  have o: "1 \<le> tot (owns iExclusiveGroup) T th"
    using S(8) [of iExclusiveGroup] assms(2) by (simp add: weights)
  have s': "s' = s\<lparr>m_cw := packed a b (c - 1)\<rparr>" "acts = granted_X c" "err = errSuccess"
    using assms(3) S(3) release_X_granted [OF S(4), of b]
    by (auto simp: ReleaseExclusiveLatch_def AtomicExchangeAdd_cw_def packed_add)
  have "books T a b (c - 1) k s' (th(t := (status_after (ReleaseIn iExclusiveGroup) err, acts)))"
    using bal_leave_excl [OF S(6) o] S(5) assms(2) s' by (auto simp: books_upd [OF S(1,2)] weights granted_weights)
  then show ?thesis
    using steady_step [OF assms(1)] s' by (simp add: granted_weights)
qed

lemma ReleaseSharedLatch_inv:
  assumes "steady T t s th a b c k" "th t = (Owns iSharedGroup, [])" "ReleaseSharedLatch cwRead s = Some (s', acts, err)"
  shows "latch_inv T (s', th(t := (status_after (ReleaseIn iSharedGroup) err, acts)))"
proof (cases "m_cw s = cwRead AND 0xFFFF7FFF")
  case True
  note S = steadyD [OF assms(1)]
  have o: "1 \<le> tot (owns iSharedGroup) T th"
    using S(8) [of iSharedGroup] assms(2) by (simp add: weights)
  have b: "\<not> b"
    using mask_15 [of a b c cwRead] True S(3,4) by simp
  have s': "s' = s\<lparr>m_cw := packed (a - 1) b c\<rparr>" "acts = []" "err = errSuccess"
    using assms(3) True S(3) by (auto simp: ReleaseSharedLatch_def AtomicCompareExchange_cw_def Let_def simp flip: packed_add(4))
  have "books T (a - 1) b c k s' (th(t := (status_after (ReleaseIn iSharedGroup) err, acts)))"
    using bal_leave_share [OF S(6) b o] S(5) assms(2) s' by (auto simp: books_upd [OF S(1,2)] weights)
  then show ?thesis
    using steady_step [OF assms(1)] s' by simp
next
  case False
  note S = steadyD [OF assms(1)]
  have o: "1 \<le> tot (owns iSharedGroup) T th"
    using S(8) [of iSharedGroup] assms(2) by (simp add: weights)
  have s': "s' = s" "acts = [UpdateQuiescedSharedLatchCount (- 1)]" "err = errSuccess" "packed a b c AND 0x8000 \<noteq> 0"
    using assms(3) False S(3) by (auto simp: ReleaseSharedLatch_def AtomicCompareExchange_cw_def Let_def split: if_splits)
  then have b: b
    using packed_bit15 [OF S(4), of b] by (simp split: if_splits)
  have "books T a b c k s' (th(t := (status_after (ReleaseIn iSharedGroup) err, acts)))"
    using bal_leave_quiesced [OF S(6) b o] S(3,5) assms(2) s' by (auto simp: books_upd [OF S(1,2)] weights)
  moreover have "wf_thread (Outside, [UpdateQuiescedSharedLatchCount (- 1)])"
    by (simp add: wf_thread_def)
  ultimately show ?thesis
    using steady_step [OF assms(1)] s' by simp
qed

lemma bal_quiesced_bound:
  "balance a b c k sS sX sW oS wS oX wX oW wW pS pX pW pU nU pL \<Longrightarrow> oS + wS \<le> n \<Longrightarrow> pL \<le> n \<Longrightarrow> n < 0x7FFF \<Longrightarrow>
   - 0x8000 \<le> k \<and> k < 0x10000"
  by (auto simp: balance_def split: if_splits)

lemma small_zero: "- 0x10000 < x \<Longrightarrow> x < 0x20000 \<Longrightarrow> (word_of_int x :: ULONG) = 0 \<longleftrightarrow> x = 0"
proof
  assume x: "- 0x10000 < x" "x < 0x20000" and z: "(word_of_int x :: ULONG) = 0"
  have "uint (word_of_int x :: ULONG) = 0"
    unfolding z by simp
  then have "x mod 2 ^ 32 = 0"
    unfolding uint_word_of_int by simp
  then have "2 ^ 32 dvd x"
    by presburger
  then show "x = 0"
    using x zdvd_imp_le [of "2 ^ 32" "\<bar>x\<bar>"] by auto
qed simp

lemma steady_bounds:
  assumes "steady T t s th a b c k"
  shows "- 0x8000 \<le> k" "k < 0x10000"
proof -
  have fin: "finite T" "\<forall>t\<in>T. wf_thread (th t)" "int (card T) < 0x7FFF"
    using assms by (auto simp: steady_def)
  show "- 0x8000 \<le> k" "k < 0x10000"
    using bal_quiesced_bound [OF steadyD(6) [OF assms] book_facts(5,4) [OF fin(1,2)] fin(3)] by auto
qed

lemma wf_update:
  assumes "wf_thread (st, UpdateQuiescedSharedLatchCount d # as)"
  shows "as = []" "d = - 1 \<and> st = Outside \<or> st = Waits iWriteGroup \<and> 0 < uint d \<and> uint d < 0x8000"
  using assms by (auto simp: wf_thread_def)

lemma wf_tail:
  assumes "wf_thread (st, act # as)" "\<forall>d. act \<noteq> UpdateQuiescedSharedLatchCount d"
  shows "wf_thread (st, as)"
proof -
  have "UpdateQuiescedSharedLatchCount d \<notin> set as" for d
    using assms by (auto simp: wf_thread_def)
  then show ?thesis
    using assms(1) by (auto simp: wf_thread_def)
qed

lemma update_leaving_inv:
  assumes "steady T t s th a b c k" "th t = (Outside, [UpdateQuiescedSharedLatchCount (- 1)])"
    "run_action (UpdateQuiescedSharedLatchCount (- 1)) s = (s', new)"
  shows "latch_inv T (s', th(t := (Outside, new)))"
proof -
  note S = steadyD [OF assms(1)]
  have pL: "1 \<le> tot (\<lambda>p. leaving (snd p)) T th"
    using tot_ge [OF S(1,2), of "\<lambda>p. leaving (snd p)" th] assms(2) by (simp add: weights)
  have z: "word_of_int k + - 1 = (0 :: ULONG) \<longleftrightarrow> k - 1 = 0"
    using small_zero [of "k - 1"] steady_bounds [OF assms(1)] by simp
  then have s': "s' = s\<lparr>m_cQS := word_of_int (k - 1)\<rparr>" "new = (if k - 1 = 0 then [ReleaseW] else [])"
    using assms(3) S(5) by (auto simp: run_action_def Let_def)
  have "books T a b c (k - 1) s' (th(t := (Outside, new)))"
    using bal_left [OF S(6) pL] S(3) assms(2) s' by (auto simp: books_upd [OF S(1,2)] weights)
  then show ?thesis
    using steady_step [OF assms(1)] s' by simp
qed

lemma update_upgrading_inv:
  assumes "steady T t s th a b c k" "th t = (Waits iWriteGroup, [UpdateQuiescedSharedLatchCount d])" "0 < uint d" "uint d < 0x8000"
    "run_action (UpdateQuiescedSharedLatchCount d) s = (s', new)"
  shows "latch_inv T (s', th(t := (Waits iWriteGroup, new)))"
proof -
  note S = steadyD [OF assms(1)]
  have d: "d = word_of_int (uint d)"
    by simp
  have up: "pending_up [UpdateQuiescedSharedLatchCount d] = uint d" "leaving [UpdateQuiescedSharedLatchCount d] = 0"
    using pending_up_small [OF assms(3,4)] leaving_small [OF assms(3,4)] by simp_all
  have nU: "1 \<le> tot upgrading T th"
    using tot_ge [OF S(1,2), of upgrading th] assms(2,3) up(1) by (simp add: weights)
  have z: "word_of_int k + d = 0 \<longleftrightarrow> k + uint d = 0"
    using small_zero [of "k + uint d"] steady_bounds [OF assms(1)] assms(3,4) by simp
  have s': "s' = s\<lparr>m_cQS := word_of_int (k + uint d)\<rparr>" "new = (if k + uint d = 0 then [ReleaseW] else [])"
    using assms(5) S(5) z by (auto simp: run_action_def Let_def)
  have wf: "wf_thread (Waits iWriteGroup, new)"
    using s'(2) by (auto simp: wf_thread_def)
  have th: "\<forall>u\<in>T. wf_thread ((th(t := (Waits iWriteGroup, new))) u)"
    using assms(1) wf by (auto simp: steady_def)
  have "tot upgrading T (th(t := (Waits iWriteGroup, new))) = tot upgrading T th - 1"
    "tot (\<lambda>p. pending_up (snd p)) T (th(t := (Waits iWriteGroup, new))) = tot (\<lambda>p. pending_up (snd p)) T th - uint d"
    using assms(2,3) up s'(2) by (auto simp: tot_upd [OF S(1,2)] weights)
  moreover have "tot upgrading T th \<le> 1"
    using S(6) by (auto simp: balance_def split: if_splits)
  ultimately have pU: "tot (\<lambda>p. pending_up (snd p)) T th - uint d = 0"
    using book_facts(2,3) [OF S(1) th] nU by linarith
  have rel: "pending_up [ReleaseW] = 0"
    by simp
  have "books T a b c (k + uint d) s' (th(t := (Waits iWriteGroup, new)))"
    using bal_upgraded [OF S(6) nU pU] S(3) assms(2,3) s' up rel by (auto simp: books_upd [OF S(1,2)] weights simp del: pending_up.simps(2))
  then show ?thesis
    by (rule steady_step [OF assms(1) wf])
qed

lemma release_inv:
  assumes "steady T t s th a b c k" "th t = (st, act # as)" "run_action act s = (s', new)" "\<forall>d. act \<noteq> UpdateQuiescedSharedLatchCount d"
  shows "latch_inv T (s', th(t := (st, new @ as)))"
proof -
  note S = steadyD [OF assms(1)]
  have wf: "wf_thread (st, as)"
    using assms(1,2,4) wf_tail [of st act as] by (auto simp: steady_def)
  have new: "new = []"
    using assms(3,4) by (auto simp: run_action_def split: action.splits)
  have ge: "pending_S (act # as) \<le> tot (\<lambda>p. pending_S (snd p)) T th"
    "count ReleaseX (act # as) \<le> tot (\<lambda>p. count ReleaseX (snd p)) T th"
    "count ReleaseW (act # as) \<le> tot (\<lambda>p. count ReleaseW (snd p)) T th"
    using tot_ge [OF S(1,2), of "\<lambda>p. pending_S (snd p)" th] tot_ge [OF S(1,2), of "\<lambda>p. count ReleaseX (snd p)" th]
      tot_ge [OF S(1,2), of "\<lambda>p. count ReleaseW (snd p)" th] assms(2) by simp_all
  have "books T a b c k s' (th(t := (st, as)))"
  proof (cases act)
    case (ReleaseS n)
    then have n: "int n \<le> tot (\<lambda>p. pending_S (snd p)) T th"
      using ge(1) pending_nonneg(1) [of as] by (simp del: pending_nonneg)
    show ?thesis
      using bal_ReleaseS [OF S(6) n] S(3,5) assms(2,3) ReleaseS by (auto simp: run_action_def books_upd [OF S(1,2)] weights)
  next
    case ReleaseX
    then have n: "1 \<le> tot (\<lambda>p. count ReleaseX (snd p)) T th"
      using ge(2) weight_nonneg(3) [of ReleaseX as] by (simp add: weights del: weight_nonneg)
    show ?thesis
      using bal_ReleaseX [OF S(6) n] S(3,5) assms(2,3) ReleaseX by (auto simp: run_action_def books_upd [OF S(1,2)] weights)
  next
    case ReleaseW
    then have n: "1 \<le> tot (\<lambda>p. count ReleaseW (snd p)) T th"
      using ge(3) weight_nonneg(3) [of ReleaseW as] by (simp add: weights del: weight_nonneg)
    show ?thesis
      using bal_ReleaseW [OF S(6) n] S(3,5) assms(2,3) ReleaseW by (auto simp: run_action_def books_upd [OF S(1,2)] weights)
  qed (use assms(4) in blast)
  then show ?thesis
    using steady_step [OF assms(1) wf] new by simp
qed

lemma wake_inv:
  assumes "steady T t s th a b c k" "th t = (Waits g, [])" "wait_for g s = Some s'"
  shows "latch_inv T (s', th(t := (Owns g, [])))"
proof -
  note S = steadyD [OF assms(1)]
  have "books T a b c k s' (th(t := (Owns g, [])))"
  proof (cases g)
    case iSharedGroup
    then show ?thesis
      using bal_wake_S [OF S(6)] S(3,5) assms(2,3)
      by (auto simp: WaitForSharedLatch_def books_upd [OF S(1,2)] weights of_nat_diff split: if_splits)
  next
    case iExclusiveGroup
    then show ?thesis
      using bal_wake_X [OF S(6)] S(3,5) assms(2,3)
      by (auto simp: WaitForExclusiveLatch_def books_upd [OF S(1,2)] weights of_nat_diff split: if_splits)
  next
    case iWriteGroup
    then show ?thesis
      using bal_wake_W [OF S(6)] S(3,5) assms(2,3)
      by (auto simp: WaitForWriteLatch_def books_upd [OF S(1,2)] weights of_nat_diff split: if_splits)
  qed (use assms(3) in simp)
  moreover have "g \<noteq> iNoGroup"
    using assms(3) by auto
  ultimately show ?thesis
    using steady_step [OF assms(1)] by simp
qed

lemma operation_inv:
  assumes "steady T t s th a b c k" "th t = (needs op, [])" "call op cwRead s = Some (s', acts, err)"
  shows "latch_inv T (s', th(t := (status_after op err, acts)))"
proof (cases op)
  case (ReleaseIn g)
  then show ?thesis
    using assms ReleaseSharedLatch_inv [OF assms(1), of cwRead] ReleaseExclusiveLatch_inv [OF assms(1)] ReleaseWriteLatch_inv [OF assms(1)]
      steady_stay [OF assms(1)]
    by (cases g) (auto simp: ReleaseLatch_def)
qed (use assms in \<open>auto intro: ErrAcquireSharedLatch_inv ErrTryAcquireSharedLatch_inv ErrAcquireExclusiveLatch_inv
    ErrTryAcquireExclusiveLatch_inv ErrTryAcquireWriteLatch_inv ErrUpgradeSharedLatchToExclusiveLatch_inv
    ErrUpgradeSharedLatchToWriteLatch_inv ErrUpgradeExclusiveLatchToWriteLatch_inv ErrTryUpgradeSharedLatchToWriteLatch_inv
    ErrTryUpgradeExclusiveLatchToWriteLatch_inv DowngradeWriteLatchToExclusiveLatch_inv DowngradeWriteLatchToSharedLatch_inv
    DowngradeExclusiveLatchToSharedLatch_inv\<close>)

lemma action_inv:
  assumes "steady T t s th a b c k" "th t = (st, act # as)" "run_action act s = (s', new)"
  shows "latch_inv T (s', th(t := (st, new @ as)))"
proof (cases "\<exists>d. act = UpdateQuiescedSharedLatchCount d")
  case True
  then obtain d where d: "act = UpdateQuiescedSharedLatchCount d"
    by blast
  have "wf_thread (st, UpdateQuiescedSharedLatchCount d # as)"
    using assms(1,2) d by (auto simp: steady_def)
  note w = wf_update [OF this]
  show ?thesis
    using w(2) update_leaving_inv [OF assms(1)] update_upgrading_inv [OF assms(1)] assms(2,3) d w(1) by auto
next
  case False
  then show ?thesis
    using release_inv [OF assms] by blast
qed

lemma latch_step_inv:
  assumes "latch_step T c c'" "finite T" "card T < 0x7FFF" "latch_inv T c"
  shows "latch_inv T c'"
proof -
  have steady: "\<exists>a b e k. steady T t s th a b e k" if "c = (s, th)" "t \<in> T" for t s th
    using assms(2-4) that unfolding latch_inv_def steady_def by fastforce
  show ?thesis
    using assms(1)
  proof cases
    case (operation t th op cwRead s s' acts err)
    then show ?thesis
      using steady operation_inv by metis
  next
    case (act t th st a as s s' new)
    then show ?thesis
      using steady action_inv by metis
  next
    case (wake t th g s s')
    then show ?thesis
      using steady wake_inv by metis
  qed
qed

lemma latch_reach_inv:
  assumes "latch_reach T c" "finite T" "card T < 0x7FFF"
  shows "latch_inv T c"
  using assms(1)
proof (induction rule: latch_reach.induct)
  case init
  have "packed 0 False 0 = 0"
    by (simp add: packed_def)
  then have "books T 0 False 0 0 CSXWLatchState_new (\<lambda>t. (Outside, []))"
    by (simp add: books_def balance_def CSXWLatchState_new_def tot_def owns_def waits_def upgrading_def count_def)
  then show ?case
    unfolding latch_inv_def by auto
next
  case (step c c')
  then show ?case
    using latch_step_inv assms(2,3) by blast
qed

lemma reach_steady:
  assumes "latch_reach T (s, th)" "finite T" "card T < 0x7FFF" "t \<in> T"
  shows "\<exists>a b c k. steady T t s th a b c k"
  using latch_reach_inv [OF assms(1-3)] assms(2-4) unfolding latch_inv_def steady_def by auto

section \<open>What the latch guarantees\<close>

lemma bal_exclusion:
  "balance a b c k sS sX sW oS wS oX wX oW wW pS pX pW pU nU pL \<Longrightarrow> oX + oW \<le> 1 \<and> (1 \<le> oW \<longrightarrow> oS = 0)"
  by (auto simp: balance_def split: if_splits)

text \<open>
  C8: Whatever the interleaving of fewer than 32767 threads that acquire, try to acquire, upgrade, downgrade, wait
  for and release a \<open>CSXWLatch\<close>: while a thread owns the write latch no other thread owns the latch in
  any group, and while a thread owns the exclusive latch no other one owns it exclusively or for writing.
\<close>

theorem latch_mutual_exclusion:
  assumes "latch_reach T (s, th)" "finite T" "card T < 0x7FFF" "t \<in> T" "u \<in> T" "t \<noteq> u"
  shows "(fst (th t) = Owns iWriteGroup \<longrightarrow> (\<forall>g. fst (th u) \<noteq> Owns g))
    \<and> (fst (th t) = Owns iExclusiveGroup \<longrightarrow> fst (th u) \<noteq> Owns iExclusiveGroup \<and> fst (th u) \<noteq> Owns iWriteGroup)"
proof -
  obtain a b c k where st: "steady T t s th a b c k"
    using reach_steady [OF assms(1-4)] by blast
  have wf: "fst (th u) \<noteq> Owns iNoGroup"
    using st assms(5) by (auto simp: steady_def wf_thread_def)
  have sum: "owns g (th t) + owns g (th u) \<le> tot (owns g) T th" for g
    using tot_ge2 [OF assms(2,4-6), of "owns g" th] by simp
  have one: "owns g (th v) \<le> tot (owns g) T th" if "v \<in> T" for g v
    using tot_ge [OF assms(2) that, of "owns g" th] by simp
  note x = bal_exclusion [OF steadyD(6) [OF st]]
  show ?thesis
  proof (intro conjI impI allI)
    fix g
    assume "fst (th t) = Owns iWriteGroup"
    then show "fst (th u) \<noteq> Owns g"
      using x sum [of iWriteGroup] one [OF assms(4), of iWriteGroup] one [OF assms(5), of g] one [OF assms(5), of iExclusiveGroup] wf
      by (cases g) (auto simp: owns_def)
  next
    assume "fst (th t) = Owns iExclusiveGroup"
    then show "fst (th u) \<noteq> Owns iExclusiveGroup" "fst (th u) \<noteq> Owns iWriteGroup"
      using x sum [of iExclusiveGroup] one [OF assms(4), of iExclusiveGroup] one [OF assms(5), of iWriteGroup] by (auto simp: owns_def)
  qed
qed

text \<open>The groups a thread passes to \<open>AssertValid\<close> in its present state and before its next action.\<close>

fun asserted :: "thread \<Rightarrow> iGroup list" where
  "asserted (st, as) =
     iNoGroup # (case st of Outside \<Rightarrow> [] | Owns g \<Rightarrow> [g] | Waits g \<Rightarrow> [g])
     @ (case as of UpdateQuiescedSharedLatchCount d # _ \<Rightarrow> [iWriteGroup] | ReleaseS n # _ \<Rightarrow> [iSharedGroup]
          | ReleaseX # _ \<Rightarrow> [iExclusiveGroup] | ReleaseW # _ \<Rightarrow> [iWriteGroup] | [] \<Rightarrow> [])"

lemma AssertValid_packed:
  assumes "m_cw s = packed a b c" "in_range a c"
  shows "AssertValid g s \<longleftrightarrow> (g = iExclusiveGroup \<longrightarrow> c \<noteq> 0) \<and> (g = iWriteGroup \<longrightarrow> c \<noteq> 0 \<and> b)"
proof -
  have low: "m_cw s AND 0x7fff \<noteq> 0x7fff"
  proof
    assume "m_cw s AND 0x7fff = 0x7fff"
    then have "uint (word_of_int a :: ULONG) = uint (0x7fff :: ULONG)"
      using packed_low [OF assms(2), of b] assms(1) by (metis)
    then show False
      using assms(2) by (simp add: uint_small in_range_def)
  qed
  have high: "m_cw s AND 0xffff0000 \<noteq> 0xffff0000"
  proof
    assume "m_cw s AND 0xffff0000 = 0xffff0000"
    then have "uint (packed 0 False c) = uint (0xffff0000 :: ULONG)"
      using packed_high [OF assms(2), of b] assms(1) by metis
    then show False
      using assms(2) by (simp add: uint_packed in_range_def)
  qed
  show ?thesis
    using low high high_zero [OF assms(2), of b] packed_bit15 [OF assms(2), of b] assms(1)
    by (cases g) (auto simp: AssertValid_def split: if_splits)
qed

lemma bal_groups:
  "balance a b c k sS sX sW oS wS oX wX oW wW pS pX pW pU nU pL \<Longrightarrow>
   (1 \<le> oX \<or> 1 \<le> wX \<or> 1 \<le> pX \<longrightarrow> c \<noteq> 0) \<and> (1 \<le> oW \<or> 1 \<le> wW \<or> 1 \<le> pW \<or> 1 \<le> pL \<longrightarrow> c \<noteq> 0 \<and> b)"
  by (auto simp: balance_def split: if_splits)

lemma asserted_cases:
  assumes "g \<in> set (asserted p)"
  shows "g = iNoGroup \<or> g = iSharedGroup \<or> fst p = Owns g \<or> fst p = Waits g
    \<or> (\<exists>d as. snd p = UpdateQuiescedSharedLatchCount d # as \<and> g = iWriteGroup)
    \<or> (\<exists>as. snd p = ReleaseX # as \<and> g = iExclusiveGroup) \<or> (\<exists>as. snd p = ReleaseW # as \<and> g = iWriteGroup)"
  using assms by (cases "fst p"; cases "snd p"; cases "hd (snd p)"; cases p) auto

lemma asserted_weights:
  assumes "g \<in> set (asserted p)" "wf_thread p"
  shows "(g = iExclusiveGroup \<longrightarrow> 1 \<le> owns iExclusiveGroup p \<or> 1 \<le> waits iExclusiveGroup p \<or> 1 \<le> count ReleaseX (snd p))
    \<and> (g = iWriteGroup \<longrightarrow> 1 \<le> owns iWriteGroup p \<or> 1 \<le> waits iWriteGroup p \<or> 1 \<le> count ReleaseW (snd p) \<or> 1 \<le> leaving (snd p))"
  using asserted_cases [OF assms(1)]
proof (elim disjE exE conjE)
  fix d as
  assume d: "snd p = UpdateQuiescedSharedLatchCount d # as" and g: "g = iWriteGroup"
  have "wf_thread (fst p, UpdateQuiescedSharedLatchCount d # as)"
    using assms(2) d by (metis prod.collapse)
  from wf_update [OF this] show ?thesis
    using d g by (auto simp: waits_def count_simps)
qed (auto simp: owns_def waits_def count_simps)

text \<open>
  In every reachable state of the latch, with fewer than 32767 threads, the checks \<open>AssertValid\<close> that the
  operations enforce hold for every thread: no field of the control word overflows, an exclusive owner or waiter finds
  itself counted, and a writer, waiting or not, finds the latch quiesced.
\<close>

theorem latch_checks_hold:
  assumes "latch_reach T (s, th)" "finite T" "card T < 0x7FFF" "t \<in> T" "g \<in> set (asserted (th t))"
  shows "AssertValid g s"
proof -
  obtain a b c k where st: "steady T t s th a b c k"
    using reach_steady [OF assms(1-4)] by blast
  note S = steadyD [OF st]
  have wf: "wf_thread (th t)"
    using st assms(4) by (auto simp: steady_def)
  have ge: "f (th t) \<le> tot f T th" if "\<And>p. 0 \<le> f p" for f
    using tot_ge [OF assms(2,4), of f th] that by simp
  have "(g = iExclusiveGroup \<longrightarrow> c \<noteq> 0) \<and> (g = iWriteGroup \<longrightarrow> c \<noteq> 0 \<and> b)"
    using bal_groups [OF S(6)] asserted_weights [OF assms(5) wf] ge [of "owns iExclusiveGroup"] ge [of "waits iExclusiveGroup"]
      ge [of "owns iWriteGroup"] ge [of "waits iWriteGroup"] ge [of "\<lambda>p. count ReleaseX (snd p)"]
      ge [of "\<lambda>p. count ReleaseW (snd p)"] ge [of "\<lambda>p. leaving (snd p)"]
    by (meson dual_order.trans weight_nonneg)
  then show ?thesis
    using AssertValid_packed [OF S(3,4)] by blast
qed

text \<open>A loop goes on only when the word has changed since it was read.\<close>

lemma split_16: "w AND 0xFFFF0000 = 0 \<Longrightarrow> w AND 0xFFFF = w" for w :: ULONG
proof -
  assume z: "w AND 0xFFFF0000 = 0"
  have m: "(0xFFFF OR 0xFFFF0000 :: ULONG) = - 1"
    by simp
  have "w = w AND (0xFFFF OR 0xFFFF0000)"
    unfolding m by simp
  also have "\<dots> = (w AND 0xFFFF) OR (w AND 0xFFFF0000)"
    by (rule bit.conj_disj_distrib)
  finally show ?thesis
    using z by simp
qed

lemma split_15: "w AND 0x8000 = 0 \<Longrightarrow> w AND 0xFFFF7FFF = w" for w :: ULONG
proof -
  assume z: "w AND 0x8000 = 0"
  have m: "(0xFFFF7FFF OR 0x8000 :: ULONG) = - 1"
    by simp
  have "w = w AND (0xFFFF7FFF OR 0x8000)"
    unfolding m by simp
  also have "\<dots> = (w AND 0xFFFF7FFF) OR (w AND 0x8000)"
    by (rule bit.conj_disj_distrib)
  finally show ?thesis
    using z by simp
qed

lemma call_retry: "call op cwRead s = None \<Longrightarrow> m_cw s \<noteq> cwRead"
proof
  assume n: "call op cwRead s = None" and e: "m_cw s = cwRead"
  show False
  proof (cases op)
    case (ReleaseIn g)
    then show False
      using n e split_15 [of cwRead]
      by (cases g) (auto simp: ReleaseLatch_def ReleaseSharedLatch_def ReleaseExclusiveLatch_def ReleaseWriteLatch_def
          AtomicCompareExchange_cw_def AtomicExchangeAdd_cw_def Let_def split: if_splits)
  qed (use n e split_15 [of cwRead] split_16 [of cwRead] in \<open>auto simp: ErrAcquireSharedLatch_def ErrTryAcquireSharedLatch_def
      ErrAcquireExclusiveLatch_def ErrTryAcquireExclusiveLatch_def ErrTryAcquireWriteLatch_def ErrUpgradeSharedLatchToExclusiveLatch_def
      ErrUpgradeSharedLatchToWriteLatch_def ErrUpgradeExclusiveLatchToWriteLatch_def ErrTryUpgradeSharedLatchToWriteLatch_def
      ErrTryUpgradeExclusiveLatchToWriteLatch_def DowngradeWriteLatchToExclusiveLatch_def DowngradeWriteLatchToSharedLatch_def
      DowngradeExclusiveLatchToSharedLatch_def AtomicCompareExchange_cw_def AtomicExchangeAdd_cw_def Let_def split: if_splits\<close>)
qed

lemma bal_idle:
  "balance a b c k sS sX sW 0 wS 0 wX 0 wW 0 0 0 0 0 0 \<Longrightarrow>
   (wS + wX + wW = 0 \<longrightarrow> a = 0 \<and> \<not> b \<and> c = 0 \<and> k = 0 \<and> sS = 0 \<and> sX = 0 \<and> sW = 0)
   \<and> (0 < wS + wX + wW \<longrightarrow> 0 < sS \<and> 0 < wS \<or> 0 < sX \<and> 0 < wX \<or> 0 < sW \<and> 0 < wW)"
  by (auto simp: balance_def split: if_splits)

lemma waiting_thread:
  assumes "finite T" "0 < tot (waits g) T th" "\<forall>u\<in>T. snd (th u) = []"
  shows "\<exists>u\<in>T. th u = (Waits g, [])"
proof -
  obtain u where "u \<in> T" "0 < waits g (th u)"
    using tot_pos [OF assms(1,2)] by blast
  then show ?thesis
    using assms(3) by (intro bexI [of _ u]) (auto simp: waits_def prod_eq_iff)
qed

text \<open>
  C9: No wake-up is lost. When no thread owns the latch and none has an action left to run, then either some thread
  waits and one of the waiting threads can go on, or no thread waits and the latch is as it was created. And
  an operation goes round its loop only if another thread changed the control word after it was read.
\<close>

theorem latch_no_lost_wakeup:
  assumes "latch_reach T (s, th)" "finite T" "card T < 0x7FFF" "\<forall>u\<in>T. snd (th u) = [] \<and> (\<forall>g. fst (th u) \<noteq> Owns g)"
  shows "((\<exists>t\<in>T. \<exists>g. fst (th t) = Waits g) \<longrightarrow> (\<exists>u\<in>T. \<exists>g s'. th u = (Waits g, []) \<and> wait_for g s = Some s'))
    \<and> ((\<forall>t\<in>T. fst (th t) = Outside) \<longrightarrow> s = CSXWLatchState_new)
    \<and> (\<forall>op cwRead. call op cwRead s = None \<longrightarrow> m_cw s \<noteq> cwRead)"
proof (intro conjI impI allI)
  obtain a b c k where books: "books T a b c k s th" and wf: "\<forall>t\<in>T. wf_thread (th t)"
    using latch_reach_inv [OF assms(1-3)] by (auto simp: latch_inv_def)
  have z: "tot (owns g) T th = 0" "tot (\<lambda>p. pending_S (snd p)) T th = 0" "tot (\<lambda>p. count x (snd p)) T th = 0"
    "tot (\<lambda>p. pending_up (snd p)) T th = 0" "tot upgrading T th = 0" for g x
    using assms(4) by (simp_all add: tot_def owns_def count_simps upgrading_def)
  have bal: "balance a b c k (int (m_semS s)) (int (m_semX s)) (int (m_semW s)) 0 (tot (waits iSharedGroup) T th)
      0 (tot (waits iExclusiveGroup) T th) 0 (tot (waits iWriteGroup) T th) 0 0 0 0 0 0"
    using books z by (simp add: books_def)
  note idle = bal_idle [OF bal]
  have w: "0 \<le> tot (waits g) T th" for g
    by (simp add: tot_nonneg)
  {
    assume "\<exists>t\<in>T. \<exists>g. fst (th t) = Waits g"
    then obtain t g where t: "t \<in> T" "fst (th t) = Waits g"
      by blast
    then have "1 \<le> tot (waits g) T th" "g \<noteq> iNoGroup"
      using tot_ge [OF assms(2) t(1), of "waits g" th] wf by (auto simp: waits_def wf_thread_def)
    then have "0 < tot (waits iSharedGroup) T th + tot (waits iExclusiveGroup) T th + tot (waits iWriteGroup) T th"
      using w [of iSharedGroup] w [of iExclusiveGroup] w [of iWriteGroup] by (cases g) auto
    then obtain h where "0 < tot (waits h) T th" "\<exists>s'. wait_for h s = Some s'"
      using idle by (auto simp: WaitForSharedLatch_def WaitForExclusiveLatch_def WaitForWriteLatch_def)
    then show "\<exists>u\<in>T. \<exists>g s'. th u = (Waits g, []) \<and> wait_for g s = Some s'"
      using waiting_thread [OF assms(2), of h th] assms(4) by blast
  }
  {
    assume "\<forall>t\<in>T. fst (th t) = Outside"
    then have "tot (waits g) T th = 0" for g
      by (simp add: tot_def waits_def)
    then show "s = CSXWLatchState_new"
      using idle books by (auto simp: books_def CSXWLatchState_new_def packed_def)
  }
  show "m_cw s \<noteq> cwRead" if "call op cwRead s = None" for op cwRead
    using that by (rule call_retry)
qed

text \<open>Thread 1 writes while thread 2 waits to share; then thread 1 leaves.\<close>

definition writing :: "CSXWLatchState \<times> (nat \<Rightarrow> thread)" where
  "writing = (\<lparr>m_cw = 0x18001, m_cQS = 0, m_semS = 0, m_semX = 0, m_semW = 0\<rparr>,
     (\<lambda>t. (Outside, []))(1 := (Owns iWriteGroup, []), 2 := (Waits iSharedGroup, [])))"

definition written :: "CSXWLatchState \<times> (nat \<Rightarrow> thread)" where
  "written = (\<lparr>m_cw = 1, m_cQS = 0, m_semS = 1, m_semX = 0, m_semW = 0\<rparr>,
     (\<lambda>t. (Outside, []))(1 := (Outside, []), 2 := (Waits iSharedGroup, [])))"

lemma operation_step:
  "t \<in> T \<Longrightarrow> th t = (needs op, []) \<Longrightarrow> call op cwRead s = Some (s', acts, err) \<Longrightarrow> th' = th(t := (status_after op err, acts)) \<Longrightarrow>
   latch_step T (s, th) (s', th')"
  by (simp add: latch_step.operation)

lemma action_step:
  "t \<in> T \<Longrightarrow> th t = (st, a # as) \<Longrightarrow> run_action a s = (s', new) \<Longrightarrow> th' = th(t := (st, new @ as)) \<Longrightarrow> latch_step T (s, th) (s', th')"
  by (simp add: latch_step.act)

lemma writing_reach: "latch_reach {1, 2} writing"
proof -
  define st where "st cw p q = (\<lparr>m_cw = cw, m_cQS = 0, m_semS = 0, m_semX = 0, m_semW = 0\<rparr>, (\<lambda>t. (Outside, []))(Suc 0 := p, 2 := q))"
    for cw :: ULONG and p q :: thread
  have upd: "(\<lambda>t. (Outside, []))(Suc 0 := x, 2 := y, Suc 0 := z) = (\<lambda>t. (Outside, []))(Suc 0 := z, 2 := y)"
    "(\<lambda>t. (Outside, []))(Suc 0 := x, 2 := y, 2 := z) = (\<lambda>t. (Outside, []))(Suc 0 := x, 2 := z)" for x y z :: thread
    by auto
  have "(CSXWLatchState_new, \<lambda>t. (Outside, [])) = st 0 (Outside, []) (Outside, [])"
    by (auto simp: st_def CSXWLatchState_new_def)
  then have 0: "latch_reach {1, 2} (st 0 (Outside, []) (Outside, []))"
    using latch_reach.init [of "{1, 2}"] by simp
  have 1: "latch_step {1, 2} (st 0 (Outside, []) (Outside, [])) (st 0x10000 (Owns iExclusiveGroup, []) (Outside, []))"
    unfolding st_def
    by (rule operation_step [where t = 1 and op = AcquireX and cwRead = 0 and acts = "[]" and err = errSuccess])
      (simp_all add: ErrAcquireExclusiveLatch_def AtomicExchangeAdd_cw_def upd)
  have 2: "latch_step {1, 2} (st 0x10000 (Owns iExclusiveGroup, []) (Outside, [])) (st 0x18000 (Owns iWriteGroup, []) (Outside, []))"
    unfolding st_def
    by (rule operation_step [where t = 1 and op = UpgradeXW and cwRead = "0x10000" and acts = "[]" and err = errSuccess])
      (simp_all add: ErrUpgradeExclusiveLatchToWriteLatch_def AtomicCompareExchange_cw_def upd)
  have 3: "latch_step {1, 2} (st 0x18000 (Owns iWriteGroup, []) (Outside, [])) (st 0x18001 (Owns iWriteGroup, []) (Waits iSharedGroup, []))"
    unfolding st_def
    by (rule operation_step [where t = 2 and op = AcquireS and cwRead = 0 and acts = "[]" and err = errWaitForSharedLatch])
      (simp_all add: ErrAcquireSharedLatch_def AtomicExchangeAdd_cw_def upd)
  show ?thesis
    using latch_reach.step [OF latch_reach.step [OF latch_reach.step [OF 0 1] 2] 3] by (simp add: st_def writing_def)
qed

lemma written_reach: "latch_reach {1, 2} written"
proof -
  define mid where "mid = (\<lparr>m_cw = 1, m_cQS = 0, m_semS = 0, m_semX = 0, m_semW = 0\<rparr> :: CSXWLatchState,
     (\<lambda>t. (Outside, []))(1 := (Outside, [ReleaseS 1]), 2 := (Waits iSharedGroup, [])) :: nat \<Rightarrow> thread)"
  have 1: "latch_step {1, 2} writing mid"
    unfolding writing_def mid_def
    by (rule operation_step [where t = 1 and op = "ReleaseIn iWriteGroup" and cwRead = 0 and acts = "[ReleaseS 1]" and err = errSuccess])
      (simp_all add: ReleaseLatch_def ReleaseWriteLatch_def AtomicExchangeAdd_cw_def fun_eq_iff)
  have 2: "latch_step {1, 2} mid written"
    unfolding mid_def written_def
    by (rule action_step [where t = 1 and st = Outside and a = "ReleaseS 1" and as = "[]" and new = "[]"])
      (simp_all add: run_action_def fun_eq_iff)
  show ?thesis
    by (rule latch_reach.step [OF latch_reach.step [OF writing_reach 1] 2])
qed

theorem latch_mutual_exclusion_witness: "\<forall>g. fst (snd writing 2) \<noteq> Owns g"
  using latch_mutual_exclusion [of "{1, 2}" "fst writing" "snd writing" 1 2] writing_reach by (simp add: writing_def)

theorem latch_checks_hold_witness: "AssertValid iWriteGroup (fst writing)"
  by (rule latch_checks_hold [of "{1, 2}" _ "snd writing" 1]) (use writing_reach in \<open>simp_all add: writing_def\<close>)

theorem latch_no_lost_wakeup_witness: "\<exists>u\<in>{1, 2}. \<exists>g s'. snd written u = (Waits g, []) \<and> wait_for g (fst written) = Some s'"
proof -
  have idle: "\<forall>u\<in>{1, 2}. snd (snd written u) = [] \<and> (\<forall>g. fst (snd written u) \<noteq> Owns g)"
    and waiting: "\<exists>t\<in>{1, 2}. \<exists>g. fst (snd written t) = Waits g"
    by (simp_all add: written_def)
  have "latch_reach {1, 2} (fst written, snd written)" "finite {1, 2 :: nat}" "card {1, 2 :: nat} < 0x7FFF"
    using written_reach by simp_all
  from latch_no_lost_wakeup [OF this idle] waiting show ?thesis
    by blast
qed

text \<open>On a latch nobody uses the compound calls do not block, and releasing restores it.\<close>

lemma AcquireWriteLatch_new:
  "AcquireWriteLatch CSXWLatchState_new = Some (CSXWLatchState_new\<lparr>m_cw := 0x18000\<rparr>)"
  "ReleaseWriteLatch (CSXWLatchState_new\<lparr>m_cw := 0x18000\<rparr>) = Some (CSXWLatchState_new, [], errSuccess)"
  "AcquireSharedLatch CSXWLatchState_new = Some (CSXWLatchState_new\<lparr>m_cw := 1\<rparr>)"
  by (simp_all add: AcquireWriteLatch_def AcquireExclusiveLatch_def ErrAcquireExclusiveLatch_def AtomicExchangeAdd_cw_def
      UpgradeExclusiveLatchToWriteLatch_def run_all_def ErrUpgradeExclusiveLatchToWriteLatch_def AtomicCompareExchange_cw_def
      CSXWLatchState_new_def ReleaseWriteLatch_def AcquireSharedLatch_def ErrAcquireSharedLatch_def)

end
