(* ===== verification/Semaphore.thy ===== *)
theory Semaphore
  imports Thread_Counts
begin

text \<open>
  \<open>CSemaphore\<close> of \<open>sync.hxx\<close> and \<open>sync.cxx\<close>: the state word, the lock-free fast paths and the slow paths that put threads to sleep
  on kernel semaphores. An operation is a sequence of atomic accesses to the state word, so it is given as the
  pass it makes between a reading and the compare-and-swap that follows, and \<open>sem_step\<close> interleaves the passes of any
  number of threads. The invariant accounts for every unit, whether it is in the state word, in a kernel semaphore or on its
  way there, and the theorem at the end says that the whole is a counter. The latch takes its semaphores to be
  such counters.
\<close>

unbundle bit_operations_syntax

section \<open>The state word\<close>

text \<open>
  \<open>CSemaphoreState\<close> is a union: the \<open>LONG\<close> \<open>m_cAvail\<close>, or the \<open>USHORT\<close> \<open>m_irksem\<close> in its low half and the \<open>SHORT\<close>
  \<open>m_cWaitNeg\<close> in its high half. A negative value names the kernel semaphore on which threads wait and
  their number.
\<close>

type_synonym CSemaphoreState = ULONG

definition m_irksem :: "CSemaphoreState \<Rightarrow> 16 word" where
  "m_irksem state = ucast state"

definition m_cWaitNeg :: "CSemaphoreState \<Rightarrow> 16 word" where
  "m_cWaitNeg state = ucast (drop_bit 16 state)"

definition StateAvail :: "int \<Rightarrow> CSemaphoreState" where
  "StateAvail cAvail = word_of_int cAvail"

definition StateWait :: "int \<Rightarrow> int \<Rightarrow> CSemaphoreState" where
  "StateWait cWait irksem = push_bit 16 (ucast (word_of_int (- cWait) :: 16 word)) OR ucast (word_of_int irksem :: 16 word)"

definition FNoWait :: "CSemaphoreState \<Rightarrow> bool" where
  "FNoWait state \<longleftrightarrow> sint state \<ge> 0"

definition FWait :: "CSemaphoreState \<Rightarrow> bool" where
  "FWait state \<longleftrightarrow> sint state < 0"

definition FAvail :: "CSemaphoreState \<Rightarrow> bool" where
  "FAvail state \<longleftrightarrow> sint state > 0"

definition FNoWaitAndNoAvail :: "CSemaphoreState \<Rightarrow> bool" where
  "FNoWaitAndNoAvail state \<longleftrightarrow> sint state = 0"

definition State_CAvail :: "CSemaphoreState \<Rightarrow> int" where
  "State_CAvail state = sint state"

definition State_CWait :: "CSemaphoreState \<Rightarrow> int" where
  "State_CWait state = - sint (m_cWaitNeg state)"

definition Irksem :: "CSemaphoreState \<Rightarrow> int" where
  "Irksem state = uint (m_irksem state)"

text \<open>The new state and whether the change was made.\<close>

definition FChange :: "CSemaphoreState \<Rightarrow> CSemaphoreState \<Rightarrow> CSemaphoreState \<Rightarrow> CSemaphoreState \<times> bool" where
  "FChange stateCur stateNew m = (if m = stateCur then stateNew else m, m = stateCur)"

text \<open>
  One pass of the loops of the fast paths, given the value read: \<open>None\<close> means another pass, otherwise
  the result of the function.
\<close>

definition FIncAvail_body :: "ULONG \<Rightarrow> int \<Rightarrow> CSemaphoreState \<Rightarrow> CSemaphoreState \<times> bool option" where
  "FIncAvail_body cAvail cToInc m =
     (let cAvailStart = cAvail AND 0x7FFFFFFF; cAvailEnd = cAvailStart + word_of_int cToInc;
          cAvailOld = m; m = (if m = cAvailStart then cAvailEnd else m)
      in (m, if cAvailOld = cAvailStart then Some True else if sint cAvailOld \<ge> 0 then None else Some False))"

definition FDecAvail_body :: "ULONG \<Rightarrow> CSemaphoreState \<Rightarrow> CSemaphoreState \<times> bool option" where
  "FDecAvail_body cAvail m =
     (let cAvailEnd = (cAvail - 1) AND 0x7FFFFFFF; cAvailStart = cAvailEnd + 1;
          cAvailOld = m; m = (if m = cAvailStart then cAvailEnd else m)
      in (m, if cAvailOld = cAvailStart then Some True else if sint cAvailOld > 0 then None else Some False))"

definition CSemaphore_CWait :: "CSemaphoreState \<Rightarrow> int" where
  "CSemaphore_CWait m = (let stateCur = m in if FWait stateCur then State_CWait stateCur else 0)"

definition CSemaphore_CAvail :: "CSemaphoreState \<Rightarrow> int" where
  "CSemaphore_CAvail m = (let stateCur = m in if FNoWait stateCur then State_CAvail stateCur else 0)"

section \<open>The slow paths\<close>

text \<open>
  What one pass of a slow path comes to: the state is read, and either it is changed by \<open>FChange\<close>, with something left
  to do on a kernel semaphore, or the loop goes on.
\<close>

datatype pass = Again | AcquireDone | SleepOn int | ReleaseDone | Wake int int | GaveUp | TakeFrom int

text \<open>
  \<open>_FAcquire\<close> with the kernel semaphore \<open>irksemAlloc\<close> it allocated, if it came to that; \<open>cSpin\<close> says whether
  it still spins. Joining the threads that wait on a kernel semaphore takes a reference to it and gives it back
  when the change fails.
\<close>

definition FAcquire_pass :: "bool \<Rightarrow> int option \<Rightarrow> CSemaphoreState \<Rightarrow> CSemaphoreState \<Rightarrow> CSemaphoreState \<times> pass" where
  "FAcquire_pass cSpin irksemAlloc stateCur m =
     (if FAvail stateCur
      then let (m, fChange) = FChange stateCur (StateAvail (State_CAvail stateCur - 1)) m in (m, if fChange then AcquireDone else Again)
      else if cSpin then (m, Again)
      else if FNoWaitAndNoAvail stateCur
      then (case irksemAlloc of
              None \<Rightarrow> (m, Again)
            | Some irksem \<Rightarrow>
                let (m, fChange) = FChange stateCur (StateWait 1 irksem) m in (m, if fChange then SleepOn irksem else Again))
      else let (m, fChange) = FChange stateCur (StateWait (State_CWait stateCur + 1) (Irksem stateCur)) m
           in (m, if fChange then SleepOn (Irksem stateCur) else Again))"

text \<open>The inner loop after the wait on kernel semaphore \<open>irksem\<close> timed out.\<close>

definition AfterWait_pass :: "int \<Rightarrow> CSemaphoreState \<Rightarrow> CSemaphoreState \<Rightarrow> CSemaphoreState \<times> pass" where
  "AfterWait_pass irksem stateAfterWait m =
     (if FNoWait stateAfterWait \<or> Irksem stateAfterWait \<noteq> irksem then (m, TakeFrom irksem)
      else if State_CWait stateAfterWait = 1
      then let (m, fChange) = FChange stateAfterWait (StateAvail 0) m in (m, if fChange then GaveUp else Again)
      else let (m, fChange) = FChange stateAfterWait (StateWait (State_CWait stateAfterWait - 1) (Irksem stateAfterWait)) m
           in (m, if fChange then GaveUp else Again))"

definition Release_pass :: "int \<Rightarrow> CSemaphoreState \<Rightarrow> CSemaphoreState \<Rightarrow> CSemaphoreState \<times> pass" where
  "Release_pass cToRelease stateCur m =
     (if FNoWait stateCur
      then let (m, fChange) = FChange stateCur (StateAvail (State_CAvail stateCur + cToRelease)) m
           in (m, if fChange then ReleaseDone else Again)
      else if State_CWait stateCur \<le> cToRelease
      then let (m, fChange) = FChange stateCur (StateAvail (cToRelease - State_CWait stateCur)) m
           in (m, if fChange then Wake (Irksem stateCur) (State_CWait stateCur) else Again)
      else let (m, fChange) = FChange stateCur (StateWait (State_CWait stateCur - cToRelease) (Irksem stateCur)) m
           in (m, if fChange then Wake (Irksem stateCur) cToRelease else Again))"

definition ReleaseAllWaiters_pass :: "CSemaphoreState \<Rightarrow> CSemaphoreState \<Rightarrow> CSemaphoreState \<times> pass" where
  "ReleaseAllWaiters_pass stateCur m =
     (if FNoWait stateCur then (m, ReleaseDone)
      else let (m, fChange) = FChange stateCur (StateAvail 0) m
           in (m, if fChange then Wake (Irksem stateCur) (State_CWait stateCur) else Again))"

section \<open>Threads on a semaphore\<close>

text \<open>
  A kernel semaphore is the counter the operating system documents. The pool hands out kernel semaphores that no thread
  holds: a thread holds the one it allocated and the one it waits on. Giving one back is taken together with the access
  before it, which lets the pool hand it out earlier than the code does. The value a compare-and-swap expects is arbitrary, which covers
  every earlier reading; only the decision after a timeout depends on what was read, and reading is a step there.
\<close>

datatype sem_pc =
    Idle
  | Acquiring "int option"
  | Sleeping int
  | TimedOut int "CSemaphoreState option"
  | Taking int
  | Releasing int
  | Waking int int

record sem_state =
  m_cAvail :: CSemaphoreState
  ksem :: "int \<Rightarrow> nat"
  released :: int
  acquired :: int

datatype sem_event = Released int | Acquired

fun holds :: "sem_pc \<Rightarrow> int \<Rightarrow> bool" where
  "holds (Acquiring a) r \<longleftrightarrow> a = Some r"
| "holds (Sleeping q) r \<longleftrightarrow> q = r"
| "holds (TimedOut q s) r \<longleftrightarrow> q = r"
| "holds (Taking q) r \<longleftrightarrow> q = r"
| "holds _ r \<longleftrightarrow> False"

inductive sem_step :: "nat set \<Rightarrow> sem_state \<times> (nat \<Rightarrow> sem_pc) \<Rightarrow> sem_event option \<Rightarrow> sem_state \<times> (nat \<Rightarrow> sem_pc) \<Rightarrow> bool" for T where
  fast_acquire: "t \<in> T \<Longrightarrow> th t = Idle \<Longrightarrow> FDecAvail_body x (m_cAvail s) = (m, Some True) \<Longrightarrow>
    sem_step T (s, th) (Some Acquired) (s\<lparr>m_cAvail := m, acquired := acquired s + 1\<rparr>, th)"
| slow_acquire: "t \<in> T \<Longrightarrow> th t = Idle \<Longrightarrow> FDecAvail_body x (m_cAvail s) = (m, Some False) \<Longrightarrow>
    sem_step T (s, th) None (s, th(t := Acquiring None))"
| allocate: "t \<in> T \<Longrightarrow> th t = Acquiring None \<Longrightarrow> 0 \<le> r \<Longrightarrow> r \<le> 0xFFFE \<Longrightarrow> \<forall>u\<in>T. \<not> holds (th u) r \<Longrightarrow>
    sem_step T (s, th) None (s, th(t := Acquiring (Some r)))"
| acquire_done: "t \<in> T \<Longrightarrow> th t = Acquiring a \<Longrightarrow> FAcquire_pass spin a x (m_cAvail s) = (m, AcquireDone) \<Longrightarrow>
    sem_step T (s, th) (Some Acquired) (s\<lparr>m_cAvail := m, acquired := acquired s + 1\<rparr>, th(t := Idle))"
| acquire_sleep: "t \<in> T \<Longrightarrow> th t = Acquiring a \<Longrightarrow> FAcquire_pass spin a x (m_cAvail s) = (m, SleepOn r) \<Longrightarrow>
    sem_step T (s, th) None (s\<lparr>m_cAvail := m\<rparr>, th(t := Sleeping r))"
| wake_up: "t \<in> T \<Longrightarrow> th t = Sleeping r \<or> th t = Taking r \<Longrightarrow> 0 < ksem s r \<Longrightarrow>
    sem_step T (s, th) (Some Acquired) (s\<lparr>ksem := (ksem s)(r := ksem s r - 1), acquired := acquired s + 1\<rparr>, th(t := Idle))"
| timeout: "t \<in> T \<Longrightarrow> th t = Sleeping r \<Longrightarrow> sem_step T (s, th) None (s, th(t := TimedOut r None))"
| after_read: "t \<in> T \<Longrightarrow> th t = TimedOut r None \<Longrightarrow> sem_step T (s, th) None (s, th(t := TimedOut r (Some (m_cAvail s))))"
| after_take: "t \<in> T \<Longrightarrow> th t = TimedOut r (Some x) \<Longrightarrow> AfterWait_pass r x (m_cAvail s) = (m, TakeFrom q) \<Longrightarrow>
    sem_step T (s, th) None (s, th(t := Taking q))"
| after_again: "t \<in> T \<Longrightarrow> th t = TimedOut r (Some x) \<Longrightarrow> AfterWait_pass r x (m_cAvail s) = (m, Again) \<Longrightarrow>
    sem_step T (s, th) None (s, th(t := TimedOut r None))"
| give_up: "t \<in> T \<Longrightarrow> th t = TimedOut r (Some x) \<Longrightarrow> AfterWait_pass r x (m_cAvail s) = (m, GaveUp) \<Longrightarrow>
    sem_step T (s, th) None (s\<lparr>m_cAvail := m\<rparr>, th(t := Idle))"
| fast_release: "t \<in> T \<Longrightarrow> th t = Idle \<Longrightarrow> 0 \<le> c \<Longrightarrow> released s - acquired s + c < 2 ^ 31 \<Longrightarrow>
    FIncAvail_body x c (m_cAvail s) = (m, Some True) \<Longrightarrow>
    sem_step T (s, th) (Some (Released c)) (s\<lparr>m_cAvail := m, released := released s + c\<rparr>, th)"
| slow_release: "t \<in> T \<Longrightarrow> th t = Idle \<Longrightarrow> 0 \<le> c \<Longrightarrow> FIncAvail_body x c (m_cAvail s) = (m, Some False) \<Longrightarrow>
    sem_step T (s, th) None (s, th(t := Releasing c))"
| release_done: "t \<in> T \<Longrightarrow> th t = Releasing c \<Longrightarrow> released s - acquired s + c < 2 ^ 31 \<Longrightarrow>
    Release_pass c x (m_cAvail s) = (m, ReleaseDone) \<Longrightarrow>
    sem_step T (s, th) (Some (Released c)) (s\<lparr>m_cAvail := m, released := released s + c\<rparr>, th(t := Idle))"
| release_wake: "t \<in> T \<Longrightarrow> th t = Releasing c \<Longrightarrow> released s - acquired s + c < 2 ^ 31 \<Longrightarrow>
    Release_pass c x (m_cAvail s) = (m, Wake r n) \<Longrightarrow>
    sem_step T (s, th) (Some (Released c)) (s\<lparr>m_cAvail := m, released := released s + c\<rparr>, th(t := Waking r n))"
| release_all: "t \<in> T \<Longrightarrow> th t = Idle \<Longrightarrow> ReleaseAllWaiters_pass x (m_cAvail s) = (m, Wake r n) \<Longrightarrow>
    sem_step T (s, th) (Some (Released n)) (s\<lparr>m_cAvail := m, released := released s + n\<rparr>, th(t := Waking r n))"
| wake: "t \<in> T \<Longrightarrow> th t = Waking r n \<Longrightarrow>
    sem_step T (s, th) None (s\<lparr>ksem := (ksem s)(r := ksem s r + nat n)\<rparr>, th(t := Idle))"

definition sem_new :: sem_state where
  "sem_new = \<lparr>m_cAvail = 0, ksem = (\<lambda>r. 0), released = 0, acquired = 0\<rparr>"

inductive sem_run :: "nat set \<Rightarrow> sem_event list \<Rightarrow> sem_state \<times> (nat \<Rightarrow> sem_pc) \<Rightarrow> bool" for T where
  init: "sem_run T [] (sem_new, \<lambda>t. Idle)"
| silent: "sem_run T evs c \<Longrightarrow> sem_step T c None c' \<Longrightarrow> sem_run T evs c'"
| visible: "sem_run T evs c \<Longrightarrow> sem_step T c (Some e) c' \<Longrightarrow> sem_run T (evs @ [e]) c'"

text \<open>The specification: a counter that is never taken below zero.\<close>

inductive counter_run :: "sem_event list \<Rightarrow> int \<Rightarrow> bool" where
  init: "counter_run [] 0"
| release: "counter_run evs n \<Longrightarrow> 0 \<le> c \<Longrightarrow> counter_run (evs @ [Released c]) (n + c)"
| acquire: "counter_run evs n \<Longrightarrow> 0 < n \<Longrightarrow> counter_run (evs @ [Acquired]) (n - 1)"

section \<open>Reading the state word\<close>

lemma sint_avail: "0 \<le> n \<Longrightarrow> n < 2 ^ 31 \<Longrightarrow> sint (word_of_int n :: ULONG) = n"
  by (simp add: sint_uint uint_word_of_int_eq signed_take_bit_take_bit signed_take_bit_int_eq_self)

lemma StateAvail_simps:
  assumes "0 \<le> n" "n < 2 ^ 31"
  shows "FNoWait (StateAvail n)" "\<not> FWait (StateAvail n)" "FAvail (StateAvail n) \<longleftrightarrow> 0 < n"
    "FNoWaitAndNoAvail (StateAvail n) \<longleftrightarrow> n = 0" "State_CAvail (StateAvail n) = n"
  using assms by (simp_all add: FNoWait_def FWait_def FAvail_def FNoWaitAndNoAvail_def State_CAvail_def StateAvail_def sint_avail)

lemma StateWait_halves:
  "m_irksem (StateWait n r) = word_of_int r" "m_cWaitNeg (StateWait n r) = word_of_int (- n)"
  unfolding m_irksem_def m_cWaitNeg_def StateWait_def
  by (rule bit_word_eqI; auto simp: bit_simps)+

lemma StateWait_sign: "sint (StateWait n r) < 0 \<longleftrightarrow> sint (word_of_int (- n) :: 16 word) < 0"
proof -
  have "bit (StateWait n r) 31 \<longleftrightarrow> bit (word_of_int (- n) :: 16 word) 15"
    unfolding StateWait_def by (simp add: bit_simps)
  then show ?thesis
    using bit_last_iff [of "StateWait n r"] bit_last_iff [of "word_of_int (- n) :: 16 word"] by simp
qed

lemma sint_neg16: "1 \<le> n \<Longrightarrow> n \<le> 0x7FFF \<Longrightarrow> sint (word_of_int (- n) :: 16 word) = - n"
  unfolding sint_uint uint_word_of_int_eq by (simp add: signed_take_bit_take_bit signed_take_bit_int_eq_self)

lemma StateWait_simps:
  assumes "1 \<le> n" "n \<le> 0x7FFF" "0 \<le> r" "r \<le> 0xFFFE"
  shows "\<not> FNoWait (StateWait n r)" "FWait (StateWait n r)" "\<not> FAvail (StateWait n r)" "\<not> FNoWaitAndNoAvail (StateWait n r)"
    "State_CWait (StateWait n r) = n" "Irksem (StateWait n r) = r"
proof -
  have neg: "sint (StateWait n r) < 0"
    using assms(1,2) StateWait_sign sint_neg16 by simp
  then show "\<not> FNoWait (StateWait n r)" "FWait (StateWait n r)" "\<not> FAvail (StateWait n r)" "\<not> FNoWaitAndNoAvail (StateWait n r)"
    by (simp_all add: FNoWait_def FWait_def FAvail_def FNoWaitAndNoAvail_def)
  show "State_CWait (StateWait n r) = n"
    using sint_neg16 [OF assms(1,2)] unfolding State_CWait_def StateWait_halves by simp
  show "Irksem (StateWait n r) = r"
    unfolding Irksem_def StateWait_halves uint_word_of_int using assms(3,4) by simp
qed

lemma word31: "x AND 0x7FFFFFFF = word_of_int (uint x mod 2 ^ 31)" for x :: ULONG
proof -
  have "uint (x AND 0x7FFFFFFF) = uint (take_bit 31 x)"
    by (simp add: take_bit_eq_mask mask_numeral)
  also have "\<dots> = uint x mod 2 ^ 31"
    unfolding unsigned_take_bit_eq by (rule take_bit_eq_mod)
  finally show ?thesis
    by (metis word_of_int_uint)
qed

text \<open>The fast paths change a non-negative state by the amount they should, whatever was read.\<close>

lemma FIncAvail_True:
  assumes "FIncAvail_body x c m = (m', Some True)"
  shows "\<exists>n. 0 \<le> n \<and> n < 2 ^ 31 \<and> m = StateAvail n \<and> m' = StateAvail (n + c)"
proof -
  define n where "n = uint x mod 2 ^ 31"
  have "0 \<le> n" "n < 2 ^ 31"
    by (simp_all add: n_def)
  moreover have "m = word_of_int n" "m' = word_of_int n + word_of_int c"
    using assms word31 [of x] by (auto simp: FIncAvail_body_def Let_def n_def split: if_splits)
  ultimately show ?thesis
    by (intro exI [of _ n]) (simp add: StateAvail_def)
qed

lemma FDecAvail_True:
  assumes "FDecAvail_body x m = (m', Some True)" "m \<noteq> 0x80000000"
  shows "\<exists>n. 0 < n \<and> n < 2 ^ 31 \<and> m = StateAvail n \<and> m' = StateAvail (n - 1)"
proof -
  define e where "e = uint (x - 1) mod 2 ^ 31"
  have e: "0 \<le> e" "e < 2 ^ 31"
    by (simp_all add: e_def)
  have m: "m = word_of_int e + 1" "m' = word_of_int e"
    using assms(1) word31 [of "x - 1"] by (auto simp: FDecAvail_body_def Let_def e_def split: if_splits)
  have "e + 1 \<noteq> 2 ^ 31"
  proof
    assume a: "e + 1 = 2 ^ 31"
    have "m = word_of_int (e + 1)"
      unfolding m by simp
    then show False
      unfolding a using assms(2) by simp
  qed
  then show ?thesis
    using e m by (intro exI [of _ "e + 1"]) (simp add: StateAvail_def)
qed

lemma FDecAvail_False: "FDecAvail_body x m = (m', Some False) \<Longrightarrow> \<not> FAvail m"
  by (auto simp: FDecAvail_body_def FAvail_def Let_def split: if_splits)

section \<open>The invariant\<close>

fun waits_on :: "sem_pc \<Rightarrow> int option" where
  "waits_on (Sleeping r) = Some r"
| "waits_on (TimedOut r x) = Some r"
| "waits_on (Taking r) = Some r"
| "waits_on _ = None"

definition waiting :: "int \<Rightarrow> sem_pc \<Rightarrow> int" where
  "waiting r p = of_bool (waits_on p = Some r)"

definition any_wait :: "sem_pc \<Rightarrow> int" where
  "any_wait p = of_bool (waits_on p \<noteq> None)"

fun waking :: "int \<Rightarrow> sem_pc \<Rightarrow> int" where
  "waking r (Waking q n) = (if q = r then n else 0)"
| "waking r _ = 0"

text \<open>
  The state is either a number \<open>n\<close> of available units, or names \<open>w\<close> threads that wait on kernel semaphore \<open>r\<close>;
  \<open>waits_in\<close> says the latter.
\<close>

definition waits_in :: "int \<Rightarrow> int \<Rightarrow> int \<Rightarrow> bool" where
  "waits_in w r q \<longleftrightarrow> w \<noteq> 0 \<and> q = r"

definition word_is :: "int \<Rightarrow> int \<Rightarrow> int \<Rightarrow> CSemaphoreState \<Rightarrow> bool" where
  "word_is n w r m \<longleftrightarrow> (if w = 0 then 0 \<le> n \<and> n < 2 ^ 31 \<and> m = StateAvail n
     else n = 0 \<and> 1 \<le> w \<and> w \<le> 0x7FFF \<and> 0 \<le> r \<and> r \<le> 0xFFFE \<and> m = StateWait w r)"

definition units :: "nat set \<Rightarrow> int \<Rightarrow> int \<Rightarrow> int \<Rightarrow> sem_state \<Rightarrow> (nat \<Rightarrow> sem_pc) \<Rightarrow> bool" where
  "units T n w r s th \<longleftrightarrow> released s + w = acquired s + n + tot any_wait T th
     \<and> (\<forall>q. int (ksem s q) + tot (waking q) T th + (if waits_in w r q then w else 0) = tot (waiting q) T th)"

text \<open>What each thread may rely on; \<open>other\<close> says whether some other thread holds a kernel semaphore.\<close>

fun pc_ok :: "(int \<Rightarrow> bool) \<Rightarrow> (int \<Rightarrow> bool) \<Rightarrow> sem_pc \<Rightarrow> bool" where
  "pc_ok other wi (Acquiring (Some q)) \<longleftrightarrow> 0 \<le> q \<and> q \<le> 0xFFFE \<and> \<not> other q"
| "pc_ok other wi (TimedOut q (Some x)) \<longleftrightarrow> (FNoWait x \<or> Irksem x \<noteq> q \<longrightarrow> \<not> wi q)"
| "pc_ok other wi (Taking q) \<longleftrightarrow> \<not> wi q"
| "pc_ok other wi (Releasing c) \<longleftrightarrow> 0 \<le> c"
| "pc_ok other wi (Waking q n) \<longleftrightarrow> 0 \<le> n"
| "pc_ok other wi _ \<longleftrightarrow> True"

definition other_holds :: "nat set \<Rightarrow> (nat \<Rightarrow> sem_pc) \<Rightarrow> nat \<Rightarrow> int \<Rightarrow> bool" where
  "other_holds T th t q \<longleftrightarrow> (\<exists>u\<in>T. u \<noteq> t \<and> holds (th u) q)"

definition sem_inv :: "nat set \<Rightarrow> sem_state \<times> (nat \<Rightarrow> sem_pc) \<Rightarrow> bool" where
  "sem_inv T c \<longleftrightarrow> (\<exists>n w r. word_is n w r (m_cAvail (fst c)) \<and> units T n w r (fst c) (snd c)
     \<and> (\<forall>t\<in>T. pc_ok (other_holds T (snd c) t) (waits_in w r) (snd c t)))"

lemma units_upd:
  assumes "finite T" "t \<in> T"
  shows "units T n w r s (th(t := p)) \<longleftrightarrow>
     released s + w = acquired s + n + (tot any_wait T th - any_wait (th t) + any_wait p)
     \<and> (\<forall>q. int (ksem s q) + (tot (waking q) T th - waking q (th t) + waking q p) + (if waits_in w r q then w else 0)
          = tot (waiting q) T th - waiting q (th t) + waiting q p)"
  by (simp add: units_def tot_upd [OF assms])

lemma waits_on_holds: "waits_on p = Some q \<Longrightarrow> holds p q"
  by (cases p) auto

text \<open>
  A thread may move to \<open>p\<close> when the others keep what they rely on: it holds nothing new that another thread allocated, and the
  state does not come to name a kernel semaphore that another thread holds.
\<close>

lemma pc_ok_upd:
  assumes "\<forall>u\<in>T. pc_ok (other_holds T th u) (waits_in w r) (th u)"
    and "\<And>q. holds p q \<Longrightarrow> \<not> holds (th t) q \<Longrightarrow> \<forall>u\<in>T. th u \<noteq> Acquiring (Some q)"
    and "\<And>q. waits_in w' r' q \<Longrightarrow> \<not> waits_in w r q \<Longrightarrow> \<not> other_holds T th t q"
    and "pc_ok (other_holds T th t) (waits_in w' r') p"
  shows "\<forall>u\<in>T. pc_ok (other_holds T (th(t := p)) u) (waits_in w' r') ((th(t := p)) u)"
proof
  fix u
  assume u: "u \<in> T"
  show "pc_ok (other_holds T (th(t := p)) u) (waits_in w' r') ((th(t := p)) u)"
  proof (cases "u = t")
    case True
    have "other_holds T (th(t := p)) t = other_holds T th t"
      by (auto simp: other_holds_def fun_eq_iff)
    then show ?thesis
      using True assms(4) by simp
  next
    case False
    have ok: "pc_ok (other_holds T th u) (waits_in w r) (th u)"
      using assms(1) u by blast
    have wi: "\<not> waits_in w' r' q" if "holds (th u) q" "\<not> waits_in w r q" for q
      using assms(3) [of q] that u False by (auto simp: other_holds_def)
    show ?thesis
      using False ok wi assms(2) u
      by (cases "(other_holds T th u, waits_in w r, th u)" rule: pc_ok.cases) (auto simp: other_holds_def; blast)+
  qed
qed

section \<open>What a pass does\<close>

lemma word_is_facts:
  assumes "word_is n w r m"
  shows "FNoWait m \<longleftrightarrow> w = 0" "FAvail m \<longleftrightarrow> w = 0 \<and> 0 < n" "FNoWaitAndNoAvail m \<longleftrightarrow> w = 0 \<and> n = 0"
    "w = 0 \<Longrightarrow> State_CAvail m = n" "w \<noteq> 0 \<Longrightarrow> State_CWait m = w" "w \<noteq> 0 \<Longrightarrow> Irksem m = r" "0 \<le> n"
  using assms StateAvail_simps [of n] StateWait_simps [of w r] by (auto simp: word_is_def split: if_splits)

lemma word_is_counts:
  assumes "word_is n w r m"
  shows "CSemaphore_CWait m = w" "CSemaphore_CAvail m = n" "0 \<le> w" "0 < w \<Longrightarrow> n = 0"
  using assms word_is_facts(1,4,5) [OF assms]
  by (auto simp: CSemaphore_CWait_def CSemaphore_CAvail_def FWait_def FNoWait_def word_is_def split: if_splits)

lemma word_is_avail:
  assumes "word_is n w r (StateAvail k)" "0 \<le> k" "k < 2 ^ 31"
  shows "w = 0" "n = k"
  using word_is_facts(1,4) [OF assms(1)] StateAvail_simps [OF assms(2,3)] by auto

lemma word_is_not_min: "word_is n w r m \<Longrightarrow> m \<noteq> 0x80000000"
proof
  assume w: "word_is n w r m" and m: "m = 0x80000000"
  have "m_cWaitNeg m = 0x8000"
    unfolding m m_cWaitNeg_def by simp
  then have "State_CWait m = 0x8000"
    by (simp add: State_CWait_def)
  moreover have "sint m < 0"
    unfolding m by simp
  ultimately show False
    using w word_is_facts(1,5) [OF w] by (auto simp: FNoWait_def word_is_def split: if_splits)
qed

lemma FAcquire_done:
  assumes "FAcquire_pass spin a x m = (m', AcquireDone)" "word_is n w r m"
  shows "w = 0" "0 < n" "m' = StateAvail (n - 1)"
proof -
  have "FAvail m \<and> m' = StateAvail (State_CAvail m - 1)"
    using assms(1) by (auto simp: FAcquire_pass_def FChange_def split: if_splits option.splits)
  then show "w = 0" "0 < n" "m' = StateAvail (n - 1)"
    using word_is_facts(2,4) [OF assms(2)] by auto
qed

lemma FAcquire_sleep:
  assumes "FAcquire_pass spin a x m = (m', SleepOn q)" "word_is n w r m"
  shows "w = 0 \<and> n = 0 \<and> a = Some q \<and> m' = StateWait 1 q \<or> w \<noteq> 0 \<and> q = r \<and> m' = StateWait (w + 1) r"
proof -
  have "x = m"
    using assms(1) by (simp add: FAcquire_pass_def FChange_def split: if_splits option.splits)
  then show ?thesis
    using assms(1) word_is_facts [OF assms(2)]
    by (cases "w = 0"; cases "n = 0"; cases a) (auto simp: FAcquire_pass_def FChange_def split: if_splits)
qed

lemma AfterWait_take: "AfterWait_pass q x m = (m', TakeFrom p) \<Longrightarrow> p = q \<and> (FNoWait x \<or> Irksem x \<noteq> q)"
  by (auto simp: AfterWait_pass_def FChange_def split: if_splits)

lemma AfterWait_give_up:
  assumes "AfterWait_pass q x m = (m', GaveUp)" "word_is n w r m"
  shows "w \<noteq> 0" "q = r" "m' = (if w = 1 then StateAvail 0 else StateWait (w - 1) r)"
  using assms word_is_facts [OF assms(2)] by (auto simp: AfterWait_pass_def FChange_def split: if_splits)

lemma Release_done:
  assumes "Release_pass c x m = (m', ReleaseDone)" "word_is n w r m"
  shows "w = 0" "m' = StateAvail (n + c)"
  using assms word_is_facts [OF assms(2)] by (auto simp: Release_pass_def FChange_def split: if_splits)

lemma Release_wake:
  assumes "Release_pass c x m = (m', Wake q k)" "word_is n w r m"
  shows "w \<noteq> 0" "q = r" "k = min w c" "m' = (if w \<le> c then StateAvail (c - w) else StateWait (w - c) r)"
  using assms word_is_facts [OF assms(2)] by (auto simp: Release_pass_def FChange_def split: if_splits)

lemma ReleaseAll_wake:
  assumes "ReleaseAllWaiters_pass x m = (m', Wake q k)" "word_is n w r m"
  shows "w \<noteq> 0" "q = r" "k = w" "m' = StateAvail 0"
  using assms word_is_facts [OF assms(2)] by (auto simp: ReleaseAllWaiters_pass_def FChange_def split: if_splits)

section \<open>Every step keeps the invariant\<close>

lemma waiting_le: "0 \<le> waiting q p" "waiting q p \<le> any_wait p" "any_wait p \<le> 1" "0 \<le> any_wait p"
  by (auto simp: waiting_def any_wait_def)

lemma wakes_nonneg:
  assumes "\<forall>t\<in>T. pc_ok (other_holds T th t) (waits_in w r) (th t)"
  shows "0 \<le> tot (waking q) T th"
proof -
  have "0 \<le> waking q (th t)" if "t \<in> T" for t
    using assms that by (cases "th t") auto
  then show ?thesis
    unfolding tot_def by (simp add: sum_nonneg)
qed

lemma units_at: "units T n w r s th \<Longrightarrow> int (ksem s r) + tot (waking r) T th + w = tot (waiting r) T th"
proof -
  assume "units T n w r s th"
  then have "int (ksem s r) + tot (waking r) T th + (if waits_in w r r then w else 0) = tot (waiting r) T th"
    unfolding units_def by (elim conjE allE)
  then show ?thesis
    by (simp add: waits_in_def split: if_splits)
qed

lemma units_bounds:
  assumes "units T n w r s th" "word_is n w r m" "finite T" "card T < 0x7FFF" "\<forall>t\<in>T. pc_ok (other_holds T th t) (waits_in w r) (th t)"
  shows "w \<le> tot any_wait T th" "tot any_wait T th < 0x7FFF" "acquired s + n \<le> released s" "0 \<le> w" "0 \<le> n"
proof -
  have wake: "0 \<le> tot (waking q) T th" for q
    by (rule wakes_nonneg [OF assms(5)])
  have "tot (waiting r) T th \<le> tot any_wait T th"
    by (rule tot_mono) (rule waiting_le)
  moreover note units_at [OF assms(1)]
  moreover have "0 \<le> tot any_wait T th"
    by (rule tot_nonneg) (rule waiting_le)
  ultimately show w: "w \<le> tot any_wait T th"
    using wake [of r] by linarith
  have "tot any_wait T th \<le> int (card T)"
    by (rule tot_le_card) (rule waiting_le)
  then show "tot any_wait T th < 0x7FFF"
    using assms(4) by simp
  show "acquired s + n \<le> released s"
    using w assms(1) by (simp add: units_def)
  show "0 \<le> w" "0 \<le> n"
    using assms(2) by (auto simp: word_is_def split: if_splits)
qed

lemma sem_invI:
  assumes "word_is n' w' r' (m_cAvail s')" "units T n' w' r' s' th'" "\<forall>t\<in>T. pc_ok (other_holds T th' t) (waits_in w' r') (th' t)"
  shows "sem_inv T (s', th')"
  using assms unfolding sem_inv_def by auto

definition sem_steady :: "nat set \<Rightarrow> nat \<Rightarrow> sem_state \<Rightarrow> (nat \<Rightarrow> sem_pc) \<Rightarrow> int \<Rightarrow> int \<Rightarrow> int \<Rightarrow> bool" where
  "sem_steady T t s th n w r \<longleftrightarrow> finite T \<and> card T < 0x7FFF \<and> t \<in> T \<and> word_is n w r (m_cAvail s) \<and> units T n w r s th
     \<and> (\<forall>t\<in>T. pc_ok (other_holds T th t) (waits_in w r) (th t))"

lemma sem_steadyD:
  assumes "sem_steady T t s th n w r"
  shows "finite T" "t \<in> T" "word_is n w r (m_cAvail s)" "units T n w r s th" "\<forall>t\<in>T. pc_ok (other_holds T th t) (waits_in w r) (th t)"
    "w \<le> tot any_wait T th" "tot any_wait T th < 0x7FFF" "acquired s + n \<le> released s" "0 \<le> w" "0 \<le> n"
proof -
  show S: "finite T" "t \<in> T" "word_is n w r (m_cAvail s)" "units T n w r s th"
    "\<forall>t\<in>T. pc_ok (other_holds T th t) (waits_in w r) (th t)"
    using assms by (simp_all add: sem_steady_def)
  have "card T < 0x7FFF"
    using assms by (simp add: sem_steady_def)
  from units_bounds [OF S(4,3,1) this S(5)] show "w \<le> tot any_wait T th" "tot any_wait T th < 0x7FFF"
    "acquired s + n \<le> released s" "0 \<le> w" "0 \<le> n" .
qed

lemma units_waiting: "sem_steady T t s th n w r \<Longrightarrow> w \<noteq> 0 \<Longrightarrow> 0 < tot (waiting r) T th"
proof -
  assume st: "sem_steady T t s th n w r" and w: "w \<noteq> 0"
  note S = sem_steadyD [OF st]
  show ?thesis
    using units_at [OF S(4)] wakes_nonneg [OF S(5), of r] S(9) w by linarith
qed

lemma word_is_intro: "0 \<le> n \<Longrightarrow> n < 2 ^ 31 \<Longrightarrow> word_is n 0 r (StateAvail n)"
  "1 \<le> w \<Longrightarrow> w \<le> 0x7FFF \<Longrightarrow> 0 \<le> r \<Longrightarrow> r \<le> 0xFFFE \<Longrightarrow> word_is 0 w r (StateWait w r)"
  by (auto simp: word_is_def)

lemma step_fast_acquire:
  assumes "sem_steady T t s th n w r" "FDecAvail_body x (m_cAvail s) = (m, Some True)"
  shows "sem_inv T (s\<lparr>m_cAvail := m, acquired := acquired s + 1\<rparr>, th)"
proof -
  note S = sem_steadyD [OF assms(1)]
  obtain k where k: "0 < k" "k < 2 ^ 31" "m_cAvail s = StateAvail k" "m = StateAvail (k - 1)"
    using FDecAvail_True [OF assms(2) word_is_not_min [OF S(3)]] by blast
  then have "w = 0" "n = k"
    using word_is_avail [of n w r k] S(3) by auto
  then show ?thesis
    using S(4,5) k word_is_intro(1) [of "k - 1"] by (intro sem_invI [of "k - 1" 0 r]) (auto simp: units_def)
qed

lemma step_fast_release:
  assumes "sem_steady T t s th n w r" "0 \<le> c" "released s - acquired s + c < 2 ^ 31" "FIncAvail_body x c (m_cAvail s) = (m, Some True)"
  shows "sem_inv T (s\<lparr>m_cAvail := m, released := released s + c\<rparr>, th)"
proof -
  note S = sem_steadyD [OF assms(1)]
  obtain k where k: "0 \<le> k" "k < 2 ^ 31" "m_cAvail s = StateAvail k" "m = StateAvail (k + c)"
    using FIncAvail_True [OF assms(4)] by blast
  then have "w = 0" "n = k"
    using word_is_avail [of n w r k] S(3) by auto
  then show ?thesis
    using S(4,5,8) k assms(2,3) word_is_intro(1) [of "k + c"] by (intro sem_invI [of "k + c" 0 r]) (auto simp: units_def)
qed

text \<open>
  The moves of a thread on an unchanged kernel semaphore: \<open>d\<close> units are added, and the thread goes to \<open>p\<close>.
\<close>

lemma move_inv:
  assumes "sem_steady T t s th n w r" "word_is n' w' r' m"
    and "d + w' - w = n' - n + any_wait p - any_wait (th t)"
    and "\<And>q. waking q p - waking q (th t) + (if waits_in w' r' q then w' else 0) - (if waits_in w r q then w else 0)
           = waiting q p - waiting q (th t)"
    and "\<And>q. holds p q \<Longrightarrow> \<not> holds (th t) q \<Longrightarrow> \<forall>u\<in>T. th u \<noteq> Acquiring (Some q)"
    and "\<And>q. waits_in w' r' q \<Longrightarrow> \<not> waits_in w r q \<Longrightarrow> \<not> other_holds T th t q"
    and "pc_ok (other_holds T th t) (waits_in w' r') p"
    and "m_cAvail s' = m" "ksem s' = ksem s" "released s' - acquired s' = released s - acquired s + d"
  shows "sem_inv T (s', th(t := p))"
proof (rule sem_invI [of n' w' r'])
  note S = sem_steadyD [OF assms(1)]
  show "word_is n' w' r' (m_cAvail s')"
    using assms(2,8) by simp
  have "int (ksem s q) + (tot (waking q) T th - waking q (th t) + waking q p) + (if waits_in w' r' q then w' else 0)
      = tot (waiting q) T th - waiting q (th t) + waiting q p" for q
  proof -
    have "int (ksem s q) + tot (waking q) T th + (if waits_in w r q then w else 0) = tot (waiting q) T th"
      using S(4) by (simp add: units_def)
    then show ?thesis
      using assms(4) [of q] by linarith
  qed
  moreover have "released s' + w' = acquired s' + n' + (tot any_wait T th - any_wait (th t) + any_wait p)"
    using S(4) assms(3,10) by (simp add: units_def)
  ultimately show "units T n' w' r' s' (th(t := p))"
    by (simp add: units_upd [OF S(1,2)] assms(9))
  show "\<forall>u\<in>T. pc_ok (other_holds T (th(t := p)) u) (waits_in w' r') ((th(t := p)) u)"
    by (rule pc_ok_upd [OF S(5) assms(5-7)])
qed

lemmas weigh = any_wait_def waiting_def waits_in_def

lemma step_allocate:
  assumes "sem_steady T t s th n w r" "th t = Acquiring None" "0 \<le> q" "q \<le> 0xFFFE" "\<forall>u\<in>T. \<not> holds (th u) q"
  shows "sem_inv T (s, th(t := Acquiring (Some q)))"
  by (rule move_inv [OF assms(1) sem_steadyD(3) [OF assms(1)], where d = 0])
    (use assms(2-5) in \<open>auto simp: weigh other_holds_def\<close>)

lemma step_acquire_done:
  assumes "sem_steady T t s th n w r" "th t = Acquiring a" "FAcquire_pass spin a x (m_cAvail s) = (m, AcquireDone)"
  shows "sem_inv T (s\<lparr>m_cAvail := m, acquired := acquired s + 1\<rparr>, th(t := Idle))"
proof -
  note S = sem_steadyD [OF assms(1)]
  note F = FAcquire_done [OF assms(3) S(3)]
  have "word_is (n - 1) 0 r m"
    using F S(3) word_is_intro(1) [of "n - 1"] by (simp add: word_is_def split: if_splits)
  then show ?thesis
    by (rule move_inv [OF assms(1), where d = "- 1"]) (use assms(2) F in \<open>auto simp: weigh\<close>)
qed

lemma step_acquire_sleep:
  assumes "sem_steady T t s th n w r" "th t = Acquiring a" "FAcquire_pass spin a x (m_cAvail s) = (m, SleepOn q)"
  shows "sem_inv T (s\<lparr>m_cAvail := m\<rparr>, th(t := Sleeping q))"
  using FAcquire_sleep [OF assms(3) sem_steadyD(3) [OF assms(1)]]
proof (elim disjE conjE)
  note S = sem_steadyD [OF assms(1)]
  assume F: "w = 0" "n = 0" "a = Some q" "m = StateWait 1 q"
  have q: "0 \<le> q" "q \<le> 0xFFFE" "\<not> other_holds T th t q"
    using S(5,2) assms(2) F(3) by fastforce+
  have "word_is 0 1 q m"
    using word_is_intro(2) [of 1 q] q F(4) by simp
  then show ?thesis
    by (rule move_inv [OF assms(1), where d = 0]) (use assms(2) F q in \<open>auto simp: weigh\<close>)
next
  note S = sem_steadyD [OF assms(1)]
  assume F: "w \<noteq> 0" "q = r" "m = StateWait (w + 1) r"
  have n: "n = 0" and "word_is 0 (w + 1) r m"
    using S(3,6,7) F word_is_intro(2) [of "w + 1" r] by (auto simp: word_is_def split: if_splits)
  have new: "th u \<noteq> Acquiring (Some r)" if "u \<in> T" for u
  proof
    assume u: "th u = Acquiring (Some r)"
    have "0 < tot (waiting r) T th"
      by (rule units_waiting [OF assms(1) F(1)])
    then obtain v where v: "v \<in> T" "0 < waiting r (th v)"
      using tot_pos [OF S(1)] by blast
    then have "holds (th v) r" "v \<noteq> u"
      using waits_on_holds [of "th v" r] u by (auto simp: waiting_def split: if_splits)
    then show False
      using S(5) that u v(1) by (fastforce simp: other_holds_def)
  qed
  show ?thesis
    by (rule move_inv [OF assms(1) \<open>word_is 0 (w + 1) r m\<close>, where d = 0]) (use assms(2) F n new S(9) in \<open>auto simp: weigh\<close>)
qed

lemma step_silent:
  assumes "sem_steady T t s th n w r" "any_wait p = any_wait (th t)" "\<And>q. waking q p = waking q (th t)" "\<And>q. waiting q p = waiting q (th t)"
    "\<And>q. holds p q \<Longrightarrow> holds (th t) q" "pc_ok (other_holds T th t) (waits_in w r) p"
  shows "sem_inv T (s, th(t := p))"
  by (rule move_inv [OF assms(1) sem_steadyD(3) [OF assms(1)], where d = 0]) (use assms(2-6) in auto)

lemma step_after_read:
  assumes "sem_steady T t s th n w r" "th t = TimedOut q None"
  shows "sem_inv T (s, th(t := TimedOut q (Some (m_cAvail s))))"
proof (rule step_silent [OF assms(1)])
  show "pc_ok (other_holds T th t) (waits_in w r) (TimedOut q (Some (m_cAvail s)))"
    using word_is_facts(1,6) [OF sem_steadyD(3) [OF assms(1)]] by (auto simp: waits_in_def)
qed (auto simp: assms(2) any_wait_def waiting_def)

lemma step_after_take:
  assumes "sem_steady T t s th n w r" "th t = TimedOut q (Some x)" "AfterWait_pass q x (m_cAvail s) = (m, TakeFrom p)"
  shows "sem_inv T (s, th(t := Taking p))"
proof (rule step_silent [OF assms(1)])
  have "pc_ok (other_holds T th t) (waits_in w r) (th t)"
    using sem_steadyD(2,5) [OF assms(1)] by blast
  then show "pc_ok (other_holds T th t) (waits_in w r) (Taking p)"
    using assms(2) AfterWait_take [OF assms(3)] by auto
qed (use assms(2) AfterWait_take [OF assms(3)] in \<open>auto simp: any_wait_def waiting_def\<close>)

lemma step_give_up:
  assumes "sem_steady T t s th n w r" "th t = TimedOut q (Some x)" "AfterWait_pass q x (m_cAvail s) = (m, GaveUp)"
  shows "sem_inv T (s\<lparr>m_cAvail := m\<rparr>, th(t := Idle))"
proof -
  note S = sem_steadyD [OF assms(1)]
  note F = AfterWait_give_up [OF assms(3) S(3)]
  have n: "n = 0" and m: "word_is 0 (w - 1) r m"
    using S(3) F word_is_intro(1) [of 0] word_is_intro(2) [of "w - 1" r] by (auto simp: word_is_def split: if_splits)
  show ?thesis
    by (rule move_inv [OF assms(1) m, where d = 0]) (use assms(2) F n in \<open>auto simp: weigh\<close>)
qed

lemma step_release_done:
  assumes "sem_steady T t s th n w r" "th t = Releasing c" "released s - acquired s + c < 2 ^ 31" "Release_pass c x (m_cAvail s) = (m, ReleaseDone)"
  shows "sem_inv T (s\<lparr>m_cAvail := m, released := released s + c\<rparr>, th(t := Idle))"
proof -
  note S = sem_steadyD [OF assms(1)]
  note F = Release_done [OF assms(4) S(3)]
  have c: "0 \<le> c"
    using S(2,5) assms(2) by fastforce
  have "word_is (n + c) 0 r m"
    using F S(8,10) c assms(3) word_is_intro(1) [of "n + c"] by simp
  then show ?thesis
    by (rule move_inv [OF assms(1), where d = c]) (use assms(2) F in \<open>auto simp: weigh\<close>)
qed

lemma step_release_wake:
  assumes "sem_steady T t s th n w r" "th t = Releasing c" "released s - acquired s + c < 2 ^ 31" "Release_pass c x (m_cAvail s) = (m, Wake q k)"
  shows "sem_inv T (s\<lparr>m_cAvail := m, released := released s + c\<rparr>, th(t := Waking q k))"
proof -
  note S = sem_steadyD [OF assms(1)]
  note F = Release_wake [OF assms(4) S(3)]
  have c: "0 \<le> c"
    using S(2,5) assms(2) by fastforce
  have w: "n = 0" "1 \<le> w" "w \<le> 0x7FFF" "0 \<le> r" "r \<le> 0xFFFE"
    using S(3) F(1) by (auto simp: word_is_def)
  show ?thesis
  proof (cases "w \<le> c")
    case True
    have "word_is (c - w) 0 r m"
      using True F(4) S(8,10) w assms(3) word_is_intro(1) [of "c - w"] by simp
    then show ?thesis
      by (rule move_inv [OF assms(1), where d = c]) (use assms(2) F(1-3) True w in \<open>auto simp: weigh\<close>)
  next
    case False
    then have "word_is 0 (w - c) r m"
      using F(4) c w word_is_intro(2) [of "w - c" r] by simp
    then show ?thesis
      by (rule move_inv [OF assms(1), where d = c]) (use assms(2) F(1-3) False c w in \<open>auto simp: weigh\<close>)
  qed
qed

lemma step_release_all:
  assumes "sem_steady T t s th n w r" "th t = Idle" "ReleaseAllWaiters_pass x (m_cAvail s) = (m, Wake q k)"
  shows "sem_inv T (s\<lparr>m_cAvail := m, released := released s + k\<rparr>, th(t := Waking q k))"
proof -
  note S = sem_steadyD [OF assms(1)]
  note F = ReleaseAll_wake [OF assms(3) S(3)]
  have n: "n = 0" "0 \<le> w" and m: "word_is 0 0 r m"
    using S(3) F word_is_intro(1) [of 0] by (auto simp: word_is_def split: if_splits)
  show ?thesis
    by (rule move_inv [OF assms(1) m, where d = k]) (use assms(2) F(1-3) n in \<open>auto simp: weigh\<close>)
qed

text \<open>The steps on a kernel semaphore.\<close>

lemma kernel_inv:
  assumes "sem_steady T t s th n w r" "0 \<le> k + int (ksem s q)"
    and "any_wait p - any_wait (th t) = - d" "waking q p - waking q (th t) + k = waiting q p - waiting q (th t)"
    and "\<And>u. u \<noteq> q \<Longrightarrow> waking u p - waking u (th t) = waiting u p - waiting u (th t)" "\<And>u. \<not> holds p u" "p = Idle"
    and "m_cAvail s' = m_cAvail s" "ksem s' = (ksem s)(q := nat (int (ksem s q) + k))" "released s' = released s" "acquired s' = acquired s + d"
  shows "sem_inv T (s', th(t := p))"
proof (rule sem_invI [of n w r])
  note S = sem_steadyD [OF assms(1)]
  show "word_is n w r (m_cAvail s')"
    using S(3) assms(8) by simp
  have "int (ksem s' u) + (tot (waking u) T th - waking u (th t) + waking u p) + (if waits_in w r u then w else 0)
      = tot (waiting u) T th - waiting u (th t) + waiting u p" for u
  proof -
    have "int (ksem s u) + tot (waking u) T th + (if waits_in w r u then w else 0) = tot (waiting u) T th"
      using S(4) by (simp add: units_def)
    then show ?thesis
      using assms(2,4,9) assms(5) [of u] by (cases "u = q") auto
  qed
  moreover have "released s' + w = acquired s' + n + (tot any_wait T th - any_wait (th t) + any_wait p)"
    using S(4) assms(3,10,11) by (simp add: units_def)
  ultimately show "units T n w r s' (th(t := p))"
    by (simp add: units_upd [OF S(1,2)])
  show "\<forall>u\<in>T. pc_ok (other_holds T (th(t := p)) u) (waits_in w r) ((th(t := p)) u)"
    by (rule pc_ok_upd [OF S(5)]) (use assms(6,7) in auto)
qed

lemma step_wake_up:
  assumes "sem_steady T t s th n w r" "th t = Sleeping q \<or> th t = Taking q" "0 < ksem s q"
  shows "sem_inv T (s\<lparr>ksem := (ksem s)(q := ksem s q - 1), acquired := acquired s + 1\<rparr>, th(t := Idle))"
proof -
  have "nat (int (ksem s q) - 1) = ksem s q - 1"
    using assms(3) by simp
  then show ?thesis
    by (intro kernel_inv [OF assms(1), where q = q and k = "- 1" and d = 1]) (use assms(2,3) in \<open>auto simp: any_wait_def waiting_def\<close>)
qed

lemma step_wake:
  assumes "sem_steady T t s th n w r" "th t = Waking q k"
  shows "sem_inv T (s\<lparr>ksem := (ksem s)(q := ksem s q + nat k)\<rparr>, th(t := Idle))"
proof -
  have "0 \<le> k"
    using sem_steadyD(2,5) [OF assms(1)] assms(2) by fastforce
  moreover from this have "nat (int (ksem s q) + k) = ksem s q + nat k"
    by (simp add: nat_add_distrib)
  ultimately show ?thesis
    by (intro kernel_inv [OF assms(1), where q = q and k = k and d = 0]) (use assms(2) in \<open>auto simp: any_wait_def waiting_def\<close>)
qed

lemma sem_step_inv:
  assumes "sem_step T c ev c'" "finite T" "card T < 0x7FFF" "sem_inv T c"
  shows "sem_inv T c'"
proof -
  have steady: "\<exists>n w r. sem_steady T t s th n w r" if "c = (s, th)" "t \<in> T" for t s th
    using assms(2-4) that unfolding sem_inv_def sem_steady_def by fastforce
  show ?thesis
    using assms(1)
  proof cases
    case (slow_acquire t th x s m)
    then show ?thesis
      using steady step_silent [where p = "Acquiring None"] by (fastforce simp: any_wait_def waiting_def)
  next
    case (timeout t th r s)
    then show ?thesis
      using steady step_silent [where p = "TimedOut r None"] by (fastforce simp: any_wait_def waiting_def)
  next
    case (after_again t th r x s m)
    then show ?thesis
      using steady step_silent [where p = "TimedOut r None"] by (fastforce simp: any_wait_def waiting_def)
  next
    case (slow_release t th c x s m)
    then show ?thesis
      using steady step_silent [where p = "Releasing c"] by (fastforce simp: any_wait_def waiting_def)
  qed (use steady step_fast_acquire step_fast_release step_allocate step_acquire_done step_acquire_sleep step_wake_up step_after_read
      step_after_take step_give_up step_release_done step_release_wake step_release_all step_wake in metis)+
qed

section \<open>The semaphore is a counter\<close>

lemma sem_run_inv:
  assumes "sem_run T evs c" "finite T" "card T < 0x7FFF"
  shows "sem_inv T c"
  using assms(1)
proof (induction rule: sem_run.induct)
  case init
  have "word_is 0 0 0 (m_cAvail sem_new)"
    by (simp add: word_is_def sem_new_def StateAvail_def)
  moreover have "units T 0 0 0 sem_new (\<lambda>t. Idle)"
    by (simp add: units_def sem_new_def tot_def any_wait_def waiting_def waits_in_def)
  ultimately show ?case
    by (rule sem_invI) simp
qed (use sem_step_inv assms(2,3) in blast)+

lemma sem_inv_le:
  assumes "sem_inv T (s, th)" "finite T" "card T < 0x7FFF"
  shows "acquired s \<le> released s"
proof -
  obtain n w r where b: "word_is n w r (m_cAvail s)" "units T n w r s th" "\<forall>t\<in>T. pc_ok (other_holds T th t) (waits_in w r) (th t)"
    using assms(1) by (auto simp: sem_inv_def)
  show ?thesis
    using units_bounds(3,5) [OF b(2,1) assms(2,3) b(3)] by simp
qed

lemma sem_step_count:
  assumes "sem_step T (s, th) ev (s', th')" "sem_inv T (s, th)"
  shows "case ev of None \<Rightarrow> released s' = released s \<and> acquired s' = acquired s
    | Some Acquired \<Rightarrow> released s' = released s \<and> acquired s' = acquired s + 1
    | Some (Released c) \<Rightarrow> 0 \<le> c \<and> released s' = released s + c \<and> acquired s' = acquired s"
  using assms(1)
proof cases
  case (release_done t c x m)
  then show ?thesis
    using assms(2) by (fastforce simp: sem_inv_def)
next
  case (release_wake t c x m r n)
  then show ?thesis
    using assms(2) by (fastforce simp: sem_inv_def)
next
  case (release_all t x m r n)
  obtain k w q where W: "word_is k w q (m_cAvail s)"
    using assms(2) by (auto simp: sem_inv_def)
  have "ReleaseAllWaiters_pass x (m_cAvail s) = (m, Wake r n)"
    using release_all by simp
  from ReleaseAll_wake [OF this W] have "0 \<le> n"
    using W by (simp add: word_is_def)
  then show ?thesis
    using release_all by simp
qed auto

lemma counter_of_run:
  assumes "sem_run T evs c" "finite T" "card T < 0x7FFF"
  shows "counter_run evs (released (fst c) - acquired (fst c))"
  using assms(1)
proof (induction rule: sem_run.induct)
  case init
  then show ?case
    using counter_run.init by (simp add: sem_new_def)
next
  case (silent evs c c')
  then show ?case
    using sem_step_count [of T "fst c" "snd c" None "fst c'" "snd c'"] sem_run_inv [OF silent(1) assms(2,3)] by simp
next
  case (visible evs c e c')
  have inv: "sem_inv T c" "sem_inv T c'"
    using sem_run_inv [OF visible(1) assms(2,3)] sem_step_inv [OF visible(2) assms(2,3)] by auto
  have count: "case e of Acquired \<Rightarrow> released (fst c') = released (fst c) \<and> acquired (fst c') = acquired (fst c) + 1
      | Released k \<Rightarrow> 0 \<le> k \<and> released (fst c') = released (fst c) + k \<and> acquired (fst c') = acquired (fst c)"
    using sem_step_count [of T "fst c" "snd c" "Some e" "fst c'" "snd c'"] visible(2) inv(1) by simp
  have le: "acquired (fst c') \<le> released (fst c')"
    using sem_inv_le [of T "fst c'" "snd c'"] inv(2) assms(2,3) by simp
  show ?case
  proof (cases e)
    case (Released k)
    then show ?thesis
      using counter_run.release [OF visible(3), of k] count by (simp add: algebra_simps)
  next
    case Acquired
    then show ?thesis
      using counter_run.acquire [OF visible(3)] count le by (simp add: algebra_simps)
  qed
qed

text \<open>A thread that waits is counted in the state, or a count for it is in the kernel semaphore or on its way there.\<close>

lemma sem_inv_sleepers:
  assumes "sem_inv T (s, th)" "finite T" "t \<in> T" "waits_on (th t) = Some q"
  shows "0 < CSemaphore_CWait (m_cAvail s) \<and> Irksem (m_cAvail s) = q \<or> 0 < ksem s q \<or> (\<exists>u\<in>T. \<exists>k>0. th u = Waking q k)"
proof -
  obtain n w r where b: "word_is n w r (m_cAvail s)" "units T n w r s th"
    using assms(1) by (auto simp: sem_inv_def)
  show ?thesis
  proof (cases "waits_in w r q \<or> 0 < ksem s q")
    case True
    then show ?thesis
      using word_is_facts(6) [OF b(1)] word_is_counts(1,3) [OF b(1)] by (auto simp: waits_in_def)
  next
    case False
    have "1 \<le> tot (waiting q) T th"
      using tot_ge [OF assms(2,3), of "waiting q" th] waiting_le(1) assms(4) by (simp add: waiting_def)
    moreover have "int (ksem s q) + tot (waking q) T th + (if waits_in w r q then w else 0) = tot (waiting q) T th"
      using b(2) by (simp add: units_def)
    ultimately obtain u where "u \<in> T" "0 < waking q (th u)"
      using False tot_pos [OF assms(2), of "waking q" th] by auto
    then have "\<exists>k>0. th u = Waking q k"
      by (cases "th u") (auto split: if_splits)
    then show ?thesis
      using \<open>u \<in> T\<close> by blast
  qed
qed

text \<open>When all threads are done nothing is left in the kernel semaphores, and nobody is counted as waiting.\<close>

lemma sem_inv_idle:
  assumes "sem_inv T (s, th)" "\<forall>t\<in>T. th t = Idle"
  shows "CSemaphore_CAvail (m_cAvail s) = released s - acquired s" "CSemaphore_CWait (m_cAvail s) = 0" "ksem s q = 0"
proof -
  obtain n w r where b: "word_is n w r (m_cAvail s)" "units T n w r s th"
    using assms(1) by (auto simp: sem_inv_def)
  have z: "tot (waiting q) T th = 0" "tot (waking q) T th = 0" "tot any_wait T th = 0" for q
    using assms(2) by (simp_all add: tot_def waiting_def any_wait_def)
  have w0: "w = 0"
    using units_at [OF b(2)] word_is_counts(3) [OF b(1)] z(1,2) [of r] by linarith
  then show "CSemaphore_CAvail (m_cAvail s) = released s - acquired s" "CSemaphore_CWait (m_cAvail s) = 0"
    using b(2) word_is_counts(1,2) [OF b(1)] z(3) by (simp_all add: units_def)
  have "int (ksem s q) + tot (waking q) T th + (if waits_in w r q then w else 0) = tot (waiting q) T th"
    using b(2) by (simp add: units_def)
  then show "ksem s q = 0"
    using z(1,2) [of q] w0 by (simp add: waits_in_def)
qed

text \<open>
  C14: Whatever the interleaving of fewer than 32767 threads that acquire a \<open>CSemaphore\<close>, with or without a timeout, release it by any
  amount or release all waiters: the releases and the successful acquisitions are those of a counter that never
  falls below zero, so no unit is lost and none is taken twice. A thread that waits on a kernel semaphore is still
  counted in the state, or the kernel semaphore has a count for it, or another thread is about to give it one. While threads
  are counted as waiting no unit is available; the fast path fails only when none is; and when all threads are done \<open>CAvail\<close>
  is the value of the counter and every kernel semaphore is empty.
\<close>

theorem semaphore_refines_counter:
  assumes "sem_run T evs (s, th)" "finite T" "card T < 0x7FFF"
  shows "counter_run evs (released s - acquired s)
    \<and> (\<forall>t\<in>T. \<forall>q. waits_on (th t) = Some q \<longrightarrow>
          0 < CSemaphore_CWait (m_cAvail s) \<and> Irksem (m_cAvail s) = q \<or> 0 < ksem s q \<or> (\<exists>u\<in>T. \<exists>k>0. th u = Waking q k))
    \<and> (0 < CSemaphore_CWait (m_cAvail s) \<longrightarrow> CSemaphore_CAvail (m_cAvail s) = 0)
    \<and> (\<forall>x m. FDecAvail_body x (m_cAvail s) = (m, Some False) \<longrightarrow> CSemaphore_CAvail (m_cAvail s) = 0)
    \<and> ((\<forall>t\<in>T. th t = Idle) \<longrightarrow> CSemaphore_CAvail (m_cAvail s) = released s - acquired s \<and> (\<forall>q. ksem s q = 0))"
proof (intro conjI ballI allI impI)
  note I = sem_run_inv [OF assms]
  then obtain n w r where b: "word_is n w r (m_cAvail s)"
    by (auto simp: sem_inv_def)
  note W = word_is_counts [OF b]
  show "counter_run evs (released s - acquired s)"
    using counter_of_run [OF assms] by simp
  show "0 < CSemaphore_CWait (m_cAvail s) \<and> Irksem (m_cAvail s) = q \<or> 0 < ksem s q \<or> (\<exists>u\<in>T. \<exists>k>0. th u = Waking q k)"
    if "t \<in> T" "waits_on (th t) = Some q" for t q
    by (rule sem_inv_sleepers [OF I assms(2) that])
  show "CSemaphore_CAvail (m_cAvail s) = 0" if "0 < CSemaphore_CWait (m_cAvail s)"
    using that W by simp
  show "CSemaphore_CAvail (m_cAvail s) = 0" if "FDecAvail_body x (m_cAvail s) = (m, Some False)" for x m
    using FDecAvail_False [OF that] word_is_facts(2,7) [OF b] W(2,3,4) by fastforce
  assume idle: "\<forall>t\<in>T. th t = Idle"
  show "CSemaphore_CAvail (m_cAvail s) = released s - acquired s" "ksem s q = 0" for q
    using sem_inv_idle [OF I idle] by auto
qed

text \<open>Thread 1 comes to sleep, thread 2 releases and wakes it.\<close>

definition asleep :: "sem_state \<times> (nat \<Rightarrow> sem_pc)" where
  "asleep = (sem_new\<lparr>m_cAvail := StateWait 1 5\<rparr>, (\<lambda>t. Idle)(1 := Sleeping 5))"

lemma asleep_run: "sem_run {1, 2} [] asleep"
proof -
  have 1: "sem_step {1, 2} (sem_new, \<lambda>t. Idle) None (sem_new, (\<lambda>t. Idle)(1 := Acquiring None))"
    by (rule sem_step.slow_acquire [where x = 1 and m = 0]) (simp_all add: FDecAvail_body_def sem_new_def)
  have 2: "sem_step {1, 2} (sem_new, (\<lambda>t. Idle)(1 := Acquiring None)) None (sem_new, (\<lambda>t. Idle)(1 := Acquiring None, 1 := Acquiring (Some 5)))"
    by (rule sem_step.allocate) simp_all
  have 3: "sem_step {1, 2} (sem_new, (\<lambda>t. Idle)(1 := Acquiring None, 1 := Acquiring (Some 5))) None
      (sem_new\<lparr>m_cAvail := StateWait 1 5\<rparr>, (\<lambda>t. Idle)(1 := Acquiring None, 1 := Acquiring (Some 5), 1 := Sleeping 5))"
    by (rule sem_step.acquire_sleep [where a = "Some 5" and x = 0 and spin = False])
      (simp_all add: FAcquire_pass_def FChange_def FAvail_def FNoWaitAndNoAvail_def sem_new_def)
  show ?thesis
    using sem_run.silent [OF sem_run.silent [OF sem_run.silent [OF sem_run.init 1] 2] 3] by (simp add: asleep_def)
qed

theorem semaphore_refines_counter_witness:
  "counter_run [] 0 \<and> 0 < CSemaphore_CWait (m_cAvail (fst asleep)) \<and> CSemaphore_CAvail (m_cAvail (fst asleep)) = 0"
proof -
  have run: "sem_run {1, 2} [] (fst asleep, snd asleep)"
    using asleep_run by simp
  have "CSemaphore_CWait (m_cAvail (fst asleep)) = 1"
    using StateWait_simps [of 1 5] by (simp add: asleep_def CSemaphore_CWait_def)
  then show ?thesis
    using semaphore_refines_counter [OF run] by (simp add: asleep_def sem_new_def)
qed

end
