(* ===== verification/Signals.thy ===== *)
theory Signals
  imports Semaphore
begin

text \<open>
  \<open>CAutoResetSignal\<close> and \<open>CManualResetSignal\<close> of \<open>sync.hxx\<close> and \<open>sync.cxx\<close>. Their threads sleep by the protocol of the semaphore, so its
  invariant is used again: a signal is read as a semaphore whose units are the flag and the waits that took effect. The theorem
  at the end says that a signal is a flag.
\<close>

unbundle bit_operations_syntax

section \<open>The state word\<close>

text \<open>
  The states of both signals have the layout of a semaphore's: a \<open>LONG\<close> \<open>m_fSet\<close>, which is 0 or 1 unless threads wait, or their
  negated number over the index of the kernel semaphore they wait on. Constructors, \<open>FChange\<close>, \<open>FWait\<close>, \<open>CWait\<close> and
  \<open>Irksem\<close> are those of \<open>CSemaphoreState\<close> word for word.
\<close>

type_synonym SignalState = CSemaphoreState

definition FNoWaitAndSet :: "SignalState \<Rightarrow> bool" where
  "FNoWaitAndSet state \<longleftrightarrow> sint state > 0"

definition FNoWaitAndNotSet :: "SignalState \<Rightarrow> bool" where
  "FNoWaitAndNotSet state \<longleftrightarrow> sint state = 0"

definition FIsSet :: "SignalState \<Rightarrow> bool" where
  "FIsSet state \<longleftrightarrow> sint state > 0"

section \<open>CAutoResetSignal\<close>

text \<open>One pass of the loop of \<open>FSimpleSet\<close>, given the value read: \<open>None\<close> means another pass.\<close>

definition FSimpleSet_body :: "ULONG \<Rightarrow> SignalState \<Rightarrow> SignalState \<times> bool option" where
  "FSimpleSet_body fSet m =
     (let fSetStart = fSet AND 0x7FFFFFFF; fSetEnd = 1;
          fSetOld = m; m = (if m = fSetStart then fSetEnd else m)
      in (m, if fSetOld = fSetStart then Some True else if sint fSetOld \<ge> 0 then None else Some False))"

definition Auto_FTryWait :: "SignalState \<Rightarrow> SignalState \<times> bool" where
  "Auto_FTryWait m = FChange (StateAvail 1) (StateAvail 0) m"

definition Auto_Reset :: "SignalState \<Rightarrow> SignalState" where
  "Auto_Reset m = fst (FChange (StateAvail 1) (StateAvail 0) m)"

definition Auto_FWait_pass :: "bool \<Rightarrow> int option \<Rightarrow> SignalState \<Rightarrow> SignalState \<Rightarrow> SignalState \<times> pass" where
  "Auto_FWait_pass cSpin irksemAlloc stateCur m =
     (if FNoWaitAndSet stateCur
      then let (m, fChange) = FChange stateCur (StateAvail 0) m in (m, if fChange then AcquireDone else Again)
      else if cSpin then (m, Again)
      else if FNoWaitAndNotSet stateCur
      then (case irksemAlloc of
              None \<Rightarrow> (m, Again)
            | Some irksem \<Rightarrow>
                let (m, fChange) = FChange stateCur (StateWait 1 irksem) m in (m, if fChange then SleepOn irksem else Again))
      else let (m, fChange) = FChange stateCur (StateWait (State_CWait stateCur + 1) (Irksem stateCur)) m
           in (m, if fChange then SleepOn (Irksem stateCur) else Again))"

text \<open>\<open>_Set\<close>: \<open>stateCur\<close> is what it read, \<open>fSet\<close> what \<open>FSimpleSet\<close> read after it.\<close>

definition Auto_Set_pass :: "SignalState \<Rightarrow> ULONG \<Rightarrow> SignalState \<Rightarrow> SignalState \<times> pass" where
  "Auto_Set_pass stateCur fSet m =
     (if FNoWait stateCur
      then let (m, fSimpleSet) = FSimpleSet_body fSet m in (m, if fSimpleSet = Some True then ReleaseDone else Again)
      else if State_CWait stateCur = 1
      then let (m, fChange) = FChange stateCur (StateAvail 0) m in (m, if fChange then Wake (Irksem stateCur) 1 else Again)
      else let (m, fChange) = FChange stateCur (StateWait (State_CWait stateCur - 1) (Irksem stateCur)) m
           in (m, if fChange then Wake (Irksem stateCur) 1 else Again))"

section \<open>CManualResetSignal\<close>

definition Manual_FTryWait :: "SignalState \<Rightarrow> SignalState \<times> bool" where
  "Manual_FTryWait m = (m, FNoWaitAndSet m)"

definition Manual_Reset :: "SignalState \<Rightarrow> SignalState" where
  "Manual_Reset m = fst (FChange (StateAvail 1) (StateAvail 0) m)"

definition Manual_FWait_pass :: "bool \<Rightarrow> int option \<Rightarrow> SignalState \<Rightarrow> SignalState \<Rightarrow> SignalState \<times> pass" where
  "Manual_FWait_pass cSpin irksemAlloc stateCur m =
     (if FNoWaitAndSet stateCur then (m, AcquireDone)
      else if cSpin then (m, Again)
      else if FNoWaitAndNotSet stateCur
      then (case irksemAlloc of
              None \<Rightarrow> (m, Again)
            | Some irksem \<Rightarrow>
                let (m, fChange) = FChange stateCur (StateWait 1 irksem) m in (m, if fChange then SleepOn irksem else Again))
      else let (m, fChange) = FChange stateCur (StateWait (State_CWait stateCur + 1) (Irksem stateCur)) m
           in (m, if fChange then SleepOn (Irksem stateCur) else Again))"

text \<open>The state is exchanged for the set one, and what it was decides.\<close>

definition Manual_Set :: "SignalState \<Rightarrow> SignalState \<times> pass" where
  "Manual_Set m = (let stateOld = m in
     (StateAvail 1, if FWait stateOld then Wake (Irksem stateOld) (State_CWait stateOld) else ReleaseDone))"

section \<open>Threads on a signal\<close>

datatype signal_kind = AutoReset | ManualReset

fun Signal_FTryWait :: "signal_kind \<Rightarrow> SignalState \<Rightarrow> SignalState \<times> bool" where
  "Signal_FTryWait AutoReset = Auto_FTryWait"
| "Signal_FTryWait ManualReset = Manual_FTryWait"

fun Signal_FWait_pass :: "signal_kind \<Rightarrow> bool \<Rightarrow> int option \<Rightarrow> SignalState \<Rightarrow> SignalState \<Rightarrow> SignalState \<times> pass" where
  "Signal_FWait_pass AutoReset = Auto_FWait_pass"
| "Signal_FWait_pass ManualReset = Manual_FWait_pass"

fun Signal_Reset :: "signal_kind \<Rightarrow> SignalState \<Rightarrow> SignalState" where
  "Signal_Reset AutoReset = Auto_Reset"
| "Signal_Reset ManualReset = Manual_Reset"

record signal_state =
  m_fSet :: SignalState
  ksems :: "int \<Rightarrow> nat"
  returned :: int

text \<open>
  A wait takes effect where it finds the signal set, or, for a thread that sleeps, where \<open>Set\<close> takes it off the state. That is the event
  \<open>Waited\<close>; \<open>returned\<close> counts the waits that have returned true. As in the semaphore the value a compare-and-swap expects is
  arbitrary; a wait on a manual-reset signal may return on what it read, and then the reading is the step. The loop after a timeout
  is the semaphore's.
\<close>

datatype signal_event = WasSet | WasReset | Waited

inductive sig_step ::
  "signal_kind \<Rightarrow> nat set \<Rightarrow> signal_state \<times> (nat \<Rightarrow> sem_pc) \<Rightarrow> signal_event list \<Rightarrow> signal_state \<times> (nat \<Rightarrow> sem_pc) \<Rightarrow> bool"
  for k T where
  try_wait: "t \<in> T \<Longrightarrow> th t = Idle \<Longrightarrow> Signal_FTryWait k (m_fSet s) = (m, True) \<Longrightarrow>
    sig_step k T (s, th) [Waited] (s\<lparr>m_fSet := m, returned := returned s + 1\<rparr>, th)"
| wait: "t \<in> T \<Longrightarrow> th t = Idle \<Longrightarrow> Signal_FTryWait k (m_fSet s) = (m, False) \<Longrightarrow>
    sig_step k T (s, th) [] (s, th(t := Acquiring None))"
| allocate: "t \<in> T \<Longrightarrow> th t = Acquiring None \<Longrightarrow> 0 \<le> r \<Longrightarrow> r \<le> 0xFFFE \<Longrightarrow> \<forall>u\<in>T. \<not> holds (th u) r \<Longrightarrow>
    sig_step k T (s, th) [] (s, th(t := Acquiring (Some r)))"
| wait_done: "t \<in> T \<Longrightarrow> th t = Acquiring a \<Longrightarrow> Signal_FWait_pass k spin a x (m_fSet s) = (m, AcquireDone) \<Longrightarrow>
    k = ManualReset \<longrightarrow> x = m_fSet s \<Longrightarrow>
    sig_step k T (s, th) [Waited] (s\<lparr>m_fSet := m, returned := returned s + 1\<rparr>, th(t := Idle))"
| wait_sleep: "t \<in> T \<Longrightarrow> th t = Acquiring a \<Longrightarrow> Signal_FWait_pass k spin a x (m_fSet s) = (m, SleepOn r) \<Longrightarrow>
    sig_step k T (s, th) [] (s\<lparr>m_fSet := m\<rparr>, th(t := Sleeping r))"
| wake_up: "t \<in> T \<Longrightarrow> th t = Sleeping r \<or> th t = Taking r \<Longrightarrow> 0 < ksems s r \<Longrightarrow>
    sig_step k T (s, th) [] (s\<lparr>ksems := (ksems s)(r := ksems s r - 1), returned := returned s + 1\<rparr>, th(t := Idle))"
| timeout: "t \<in> T \<Longrightarrow> th t = Sleeping r \<Longrightarrow> sig_step k T (s, th) [] (s, th(t := TimedOut r None))"
| after_read: "t \<in> T \<Longrightarrow> th t = TimedOut r None \<Longrightarrow> sig_step k T (s, th) [] (s, th(t := TimedOut r (Some (m_fSet s))))"
| after_take: "t \<in> T \<Longrightarrow> th t = TimedOut r (Some x) \<Longrightarrow> AfterWait_pass r x (m_fSet s) = (m, TakeFrom q) \<Longrightarrow>
    sig_step k T (s, th) [] (s, th(t := Taking q))"
| after_again: "t \<in> T \<Longrightarrow> th t = TimedOut r (Some x) \<Longrightarrow> AfterWait_pass r x (m_fSet s) = (m, Again) \<Longrightarrow>
    sig_step k T (s, th) [] (s, th(t := TimedOut r None))"
| give_up: "t \<in> T \<Longrightarrow> th t = TimedOut r (Some x) \<Longrightarrow> AfterWait_pass r x (m_fSet s) = (m, GaveUp) \<Longrightarrow>
    sig_step k T (s, th) [] (s\<lparr>m_fSet := m\<rparr>, th(t := Idle))"
| simple_set: "k = AutoReset \<Longrightarrow> t \<in> T \<Longrightarrow> th t = Idle \<Longrightarrow> FSimpleSet_body x (m_fSet s) = (m, Some True) \<Longrightarrow>
    sig_step k T (s, th) [WasSet] (s\<lparr>m_fSet := m\<rparr>, th)"
| slow_set: "k = AutoReset \<Longrightarrow> t \<in> T \<Longrightarrow> th t = Idle \<Longrightarrow> FSimpleSet_body x (m_fSet s) = (m, Some False) \<Longrightarrow>
    sig_step k T (s, th) [] (s, th(t := Releasing 1))"
| set_done: "k = AutoReset \<Longrightarrow> t \<in> T \<Longrightarrow> th t = Releasing 1 \<Longrightarrow> Auto_Set_pass x y (m_fSet s) = (m, ReleaseDone) \<Longrightarrow>
    sig_step k T (s, th) [WasSet] (s\<lparr>m_fSet := m\<rparr>, th(t := Idle))"
| set_wake: "k = AutoReset \<Longrightarrow> t \<in> T \<Longrightarrow> th t = Releasing 1 \<Longrightarrow> Auto_Set_pass x y (m_fSet s) = (m, Wake r n) \<Longrightarrow>
    sig_step k T (s, th) [WasSet, Waited] (s\<lparr>m_fSet := m\<rparr>, th(t := Waking r n))"
| manual_set: "k = ManualReset \<Longrightarrow> t \<in> T \<Longrightarrow> th t = Idle \<Longrightarrow> Manual_Set (m_fSet s) = (m, ReleaseDone) \<Longrightarrow>
    sig_step k T (s, th) [WasSet] (s\<lparr>m_fSet := m\<rparr>, th)"
| manual_wake: "k = ManualReset \<Longrightarrow> t \<in> T \<Longrightarrow> th t = Idle \<Longrightarrow> Manual_Set (m_fSet s) = (m, Wake r n) \<Longrightarrow>
    sig_step k T (s, th) (WasSet # replicate (nat n) Waited) (s\<lparr>m_fSet := m\<rparr>, th(t := Waking r n))"
| reset: "t \<in> T \<Longrightarrow> th t = Idle \<Longrightarrow>
    sig_step k T (s, th) [WasReset] (s\<lparr>m_fSet := Signal_Reset k (m_fSet s)\<rparr>, th)"
| wake: "t \<in> T \<Longrightarrow> th t = Waking r n \<Longrightarrow>
    sig_step k T (s, th) [] (s\<lparr>ksems := (ksems s)(r := ksems s r + nat n)\<rparr>, th(t := Idle))"

definition signal_new :: signal_state where
  "signal_new = \<lparr>m_fSet = 0, ksems = (\<lambda>r. 0), returned = 0\<rparr>"

inductive sig_run :: "signal_kind \<Rightarrow> nat set \<Rightarrow> signal_event list \<Rightarrow> signal_state \<times> (nat \<Rightarrow> sem_pc) \<Rightarrow> bool" for k T where
  init: "sig_run k T [] (signal_new, \<lambda>t. Idle)"
| step: "sig_run k T evs c \<Longrightarrow> sig_step k T c es c' \<Longrightarrow> sig_run k T (evs @ es) c'"

text \<open>The specification: a flag, which a wait needs set and which a wait on an auto-reset signal clears.\<close>

inductive flag_run :: "signal_kind \<Rightarrow> signal_event list \<Rightarrow> bool \<Rightarrow> bool" for k where
  init: "flag_run k [] False"
| set: "flag_run k evs b \<Longrightarrow> flag_run k (evs @ [WasSet]) True"
| reset: "flag_run k evs b \<Longrightarrow> flag_run k (evs @ [WasReset]) False"
| wait: "flag_run k evs True \<Longrightarrow> flag_run k (evs @ [Waited]) (k = ManualReset)"

section \<open>A signal as a semaphore\<close>

text \<open>
  The units of the semaphore are the flag and the waits that took effect, so that the invariant of the semaphore accounts for
  the threads of a signal.
\<close>

definition as_sem :: "int \<Rightarrow> signal_state \<Rightarrow> sem_state" where
  "as_sem c s = \<lparr>m_cAvail = m_fSet s, ksem = ksems s, released = c + CSemaphore_CAvail (m_fSet s), acquired = returned s\<rparr>"

lemma as_sem_simps [simp]:
  "m_cAvail (as_sem c s) = m_fSet s" "ksem (as_sem c s) = ksems s" "released (as_sem c s) = c + CSemaphore_CAvail (m_fSet s)"
  "acquired (as_sem c s) = returned s"
  by (simp_all add: as_sem_def)

definition sig_inv :: "nat set \<Rightarrow> int \<Rightarrow> signal_state \<times> (nat \<Rightarrow> sem_pc) \<Rightarrow> bool" where
  "sig_inv T c st \<longleftrightarrow> sem_inv T (as_sem c (fst st), snd st) \<and> CSemaphore_CAvail (m_fSet (fst st)) \<le> 1"

definition sig_steady :: "nat set \<Rightarrow> nat \<Rightarrow> int \<Rightarrow> signal_state \<Rightarrow> (nat \<Rightarrow> sem_pc) \<Rightarrow> int \<Rightarrow> int \<Rightarrow> int \<Rightarrow> bool" where
  "sig_steady T t c s th n w r \<longleftrightarrow> sem_steady T t (as_sem c s) th n w r \<and> n \<le> 1"

lemma sig_steadyD:
  assumes "sig_steady T t c s th n w r"
  shows "sem_steady T t (as_sem c s) th n w r" "word_is n w r (m_fSet s)" "0 \<le> n" "n \<le> 1" "0 \<le> w" "w \<noteq> 0 \<Longrightarrow> n = 0"
proof -
  show st: "sem_steady T t (as_sem c s) th n w r" and "n \<le> 1"
    using assms by (simp_all add: sig_steady_def)
  show w: "word_is n w r (m_fSet s)"
    using sem_steadyD(3) [OF st] by simp
  show "0 \<le> n" "0 \<le> w" "w \<noteq> 0 \<Longrightarrow> n = 0"
    using sem_steadyD(10) [OF st] word_is_counts [OF w] by auto
qed

lemma sig_move:
  assumes "sig_steady T t c s th n w r" "word_is n' w' r' (m_fSet s')" "n' \<le> 1"
    and "c' - c - (returned s' - returned s) + w' - w = any_wait p - any_wait (th t)"
    and "\<And>q. waking q p - waking q (th t) + (if waits_in w' r' q then w' else 0) - (if waits_in w r q then w else 0)
           = waiting q p - waiting q (th t)"
    and "\<And>q. holds p q \<Longrightarrow> \<not> holds (th t) q \<Longrightarrow> \<forall>u\<in>T. th u \<noteq> Acquiring (Some q)"
    and "\<And>q. waits_in w' r' q \<Longrightarrow> \<not> waits_in w r q \<Longrightarrow> \<not> other_holds T th t q"
    and "pc_ok (other_holds T th t) (waits_in w' r') p"
    and "ksems s' = ksems s"
  shows "sig_inv T c' (s', th(t := p))"
proof -
  note S = sig_steadyD [OF assms(1)]
  have n: "CSemaphore_CAvail (m_fSet s') = n'" "CSemaphore_CAvail (m_fSet s) = n"
    using word_is_counts(2) assms(2) S(2) by auto
  have "sem_inv T (as_sem c' s', th(t := p))"
    by (rule move_inv [OF S(1) assms(2), where d = "c' - c - (returned s' - returned s) + n' - n"])
      (use assms(4-9) n in auto)
  then show ?thesis
    using n(1) assms(3) by (simp add: sig_inv_def)
qed

lemma sem_inv_cong:
  assumes "sem_inv T (s, th)" "m_cAvail s' = m_cAvail s" "ksem s' = ksem s" "released s' - acquired s' = released s - acquired s"
  shows "sem_inv T (s', th)"
proof -
  have "units T n w r s' th \<longleftrightarrow> units T n w r s th" for n w r
    using assms(3,4) by (auto simp: units_def)
  then show ?thesis
    using assms(1,2) by (simp add: sem_inv_def)
qed

text \<open>A step of the semaphore is a step of the signal when it keeps the books.\<close>

lemma sig_of_sem:
  assumes "sem_inv T (u, th')" "m_cAvail u = m_fSet s'" "ksem u = ksems s'" "CSemaphore_CAvail (m_fSet s') \<le> 1"
    and "released u - acquired u = c' + CSemaphore_CAvail (m_fSet s') - returned s'"
  shows "sig_inv T c' (s', th')"
  using sem_inv_cong [OF assms(1), of "as_sem c' s'"] assms(2-5) by (simp add: sig_inv_def)

section \<open>What a pass does\<close>

lemma FSimpleSet_True:
  assumes "FSimpleSet_body x m = (m', Some True)"
  shows "FNoWait m \<and> m' = StateAvail 1"
proof -
  have m: "m = word_of_int (uint x mod 2 ^ 31)" "m' = 1"
    using assms word31 [of x] by (auto simp: FSimpleSet_body_def Let_def split: if_splits)
  have "FNoWait (StateAvail (uint x mod 2 ^ 31))"
    by (rule StateAvail_simps) simp_all
  then show ?thesis
    using m by (simp add: StateAvail_def)
qed

lemma signal_tests: "FNoWaitAndSet m = FAvail m" "FNoWaitAndNotSet m = FNoWaitAndNoAvail m" "FIsSet m = FAvail m"
  by (simp_all add: FNoWaitAndSet_def FAvail_def FNoWaitAndNotSet_def FNoWaitAndNoAvail_def FIsSet_def)

lemma Signal_sleep:
  "Signal_FWait_pass k spin a x m = (m', SleepOn q) \<Longrightarrow> FAcquire_pass spin a x m = (m', SleepOn q)"
  by (cases k) (auto simp: Auto_FWait_pass_def Manual_FWait_pass_def FAcquire_pass_def FChange_def signal_tests split: if_splits)

lemma Signal_done:
  assumes "Signal_FWait_pass k spin a x m = (m', AcquireDone)" "k = ManualReset \<longrightarrow> x = m"
  shows "FAvail m \<and> m' = (if k = AutoReset then StateAvail 0 else m)"
  using assms
  by (cases k) (auto simp: Auto_FWait_pass_def Manual_FWait_pass_def FChange_def signal_tests split: if_splits option.splits)

lemma Signal_try:
  assumes "Signal_FTryWait k m = (m', True)" "word_is n w r m"
  shows "FAvail m \<and> m' = (if k = AutoReset then StateAvail 0 else m)"
  using assms(1) StateAvail_simps(3) [of 1]
  by (cases k) (auto simp: Auto_FTryWait_def Manual_FTryWait_def FChange_def signal_tests)

lemma Signal_Reset_eq: "Signal_Reset k m = (if m = StateAvail 1 then StateAvail 0 else m)"
  by (cases k) (simp_all add: Auto_Reset_def Manual_Reset_def FChange_def)

lemma Auto_Set_wake:
  assumes "Auto_Set_pass x y m = (m', Wake q i)" "word_is n w r m"
  shows "w \<noteq> 0" "q = r" "i = 1" "m' = (if w = 1 then StateAvail 0 else StateWait (w - 1) r)"
  using assms word_is_facts [OF assms(2)] by (auto simp: Auto_Set_pass_def FChange_def split: if_splits prod.splits)

lemma Auto_Set_done: "Auto_Set_pass x y m = (m', ReleaseDone) \<Longrightarrow> FNoWait m \<and> m' = StateAvail 1"
  using FSimpleSet_True by (auto simp: Auto_Set_pass_def FChange_def split: if_splits prod.splits)

section \<open>Every step keeps the invariant and runs the flag\<close>

text \<open>
  \<open>sig_ok\<close> is what a step that emits \<open>es\<close> has to show: the books stay balanced, and the flag goes
  from the old state to the new one by \<open>es\<close>.
\<close>

fun flag_after :: "signal_kind \<Rightarrow> bool \<Rightarrow> signal_event list \<Rightarrow> bool option" where
  "flag_after k b [] = Some b"
| "flag_after k b (WasSet # es) = flag_after k True es"
| "flag_after k b (WasReset # es) = flag_after k False es"
| "flag_after k b (Waited # es) = (if b then flag_after k (k = ManualReset) es else None)"

lemma flag_run_after: "flag_run k evs b \<Longrightarrow> flag_after k b es = Some b' \<Longrightarrow> flag_run k (evs @ es) b'"
proof (induction k b es arbitrary: evs rule: flag_after.induct)
  case (4 k b es)
  then show ?case
    using "4.IH" [of "evs @ [Waited]"] flag_run.wait [of k evs] by (simp split: if_splits)
next
  case (2 k b es)
  then show ?case
    using "2.IH" [of "evs @ [WasSet]"] flag_run.set [of k evs] by simp
next
  case (3 k b es)
  then show ?case
    using "3.IH" [of "evs @ [WasReset]"] flag_run.reset [of k evs] by simp
qed simp

lemma flag_after_waits: "flag_after ManualReset True (replicate i Waited) = Some True"
  by (induction i) auto

definition waits_of :: "signal_event list \<Rightarrow> int" where
  "waits_of es = int (count_list es Waited)"

lemma waits_of_simps [simp]:
  "waits_of [] = 0" "waits_of (Waited # es) = waits_of es + 1" "waits_of (WasSet # es) = waits_of es"
  "waits_of (WasReset # es) = waits_of es" "waits_of (xs @ ys) = waits_of xs + waits_of ys"
  "waits_of (replicate i Waited) = int i"
  by (simp_all add: waits_of_def count_list_append) (induction i; simp)

definition sig_ok :: "signal_kind \<Rightarrow> nat set \<Rightarrow> int \<Rightarrow> signal_state \<Rightarrow> signal_event list \<Rightarrow> signal_state \<times> (nat \<Rightarrow> sem_pc) \<Rightarrow> bool" where
  "sig_ok k T c s es c' \<longleftrightarrow> sig_inv T (c + waits_of es) c'
     \<and> flag_after k (FIsSet (m_fSet s)) es = Some (FIsSet (m_fSet (fst c')))"

lemma FIsSet_word: "word_is n w r m \<Longrightarrow> FIsSet m \<longleftrightarrow> 0 < n"
  using word_is_facts(2) [of n w r m] word_is_counts(3,4) [of n w r m] by (auto simp: signal_tests)

lemma sig_ok_silent:
  assumes "sem_inv T (as_sem c s, th')" "sig_steady T t c s th n w r"
  shows "sig_ok k T c s [] (s, th')"
  using assms(1) word_is_counts(2) [OF sig_steadyD(2) [OF assms(2)]] sig_steadyD(4) [OF assms(2)] by (simp add: sig_ok_def sig_inv_def)

lemma sem_inv_count:
  assumes "sem_inv T (u, th)"
  shows "CSemaphore_CAvail (m_cAvail u) - CSemaphore_CWait (m_cAvail u) = released u - acquired u - tot any_wait T th"
    "0 \<le> CSemaphore_CAvail (m_cAvail u)" "0 \<le> CSemaphore_CWait (m_cAvail u)" "0 < CSemaphore_CWait (m_cAvail u) \<Longrightarrow> CSemaphore_CAvail (m_cAvail u) = 0"
    "FIsSet (m_cAvail u) \<longleftrightarrow> 0 < CSemaphore_CAvail (m_cAvail u)"
proof -
  obtain n w r where b: "word_is n w r (m_cAvail u)" "units T n w r u th"
    using assms by (auto simp: sem_inv_def)
  note W = word_is_counts [OF b(1)]
  show "CSemaphore_CAvail (m_cAvail u) - CSemaphore_CWait (m_cAvail u) = released u - acquired u - tot any_wait T th"
    using b(2) W(1,2) by (simp add: units_def)
  show "0 \<le> CSemaphore_CAvail (m_cAvail u)" "0 \<le> CSemaphore_CWait (m_cAvail u)"
    "0 < CSemaphore_CWait (m_cAvail u) \<Longrightarrow> CSemaphore_CAvail (m_cAvail u) = 0"
    using W word_is_facts(7) [OF b(1)] by auto
  show "FIsSet (m_cAvail u) \<longleftrightarrow> 0 < CSemaphore_CAvail (m_cAvail u)"
    using FIsSet_word [OF b(1)] W(2) by simp
qed

text \<open>The steps on the state that leave the flag cleared: one more thread waits, or one less.\<close>

lemma sig_ok_waiters:
  assumes "sig_steady T t c s th n w r" "n = 0" "sem_inv T ((as_sem c s)\<lparr>m_cAvail := m\<rparr>, th(t := p))"
    and "any_wait p - any_wait (th t) = d" "0 \<le> w + d"
  shows "sig_ok k T c s [] (s\<lparr>m_fSet := m\<rparr>, th(t := p))"
proof -
  note S = sig_steadyD [OF assms(1)] and St = sem_steadyD [OF sig_steadyD(1) [OF assms(1)]]
  have n: "CSemaphore_CAvail (m_fSet s) = 0" "\<not> FIsSet (m_fSet s)"
    using word_is_counts(2) [OF S(2)] FIsSet_word [OF S(2)] assms(2) by simp_all
  have "CSemaphore_CAvail m - CSemaphore_CWait m = c - returned s - tot any_wait T th - d"
    using sem_inv_count(1) [OF assms(3)] assms(4) n(1) by (simp add: tot_upd [OF St(1,2)])
  moreover have "- w = c - returned s - tot any_wait T th"
    using St(4) assms(2) n(1) by (simp add: units_def)
  ultimately have m: "CSemaphore_CAvail m = 0"
    using sem_inv_count(2-4) [OF assms(3)] assms(5) by fastforce
  then have "sig_inv T c (s\<lparr>m_fSet := m\<rparr>, th(t := p))"
    by (intro sig_of_sem [OF assms(3)]) (simp_all add: n)
  then show ?thesis
    using m n sem_inv_count(5) [OF assms(3)] by (simp add: sig_ok_def)
qed

lemma step_wait_sleep:
  assumes "sig_steady T t c s th n w r" "th t = Acquiring a" "Signal_FWait_pass k spin a x (m_fSet s) = (m, SleepOn q)"
  shows "sig_ok k T c s [] (s\<lparr>m_fSet := m\<rparr>, th(t := Sleeping q))"
proof -
  note S = sig_steadyD [OF assms(1)]
  have pass: "FAcquire_pass spin a x (m_fSet s) = (m, SleepOn q)"
    by (rule Signal_sleep [OF assms(3)])
  have "sem_inv T ((as_sem c s)\<lparr>m_cAvail := m\<rparr>, th(t := Sleeping q))"
    using step_acquire_sleep [OF S(1) assms(2)] pass by simp
  then show ?thesis
    using FAcquire_sleep [OF pass S(2)] S(5,6) assms(2)
    by (intro sig_ok_waiters [OF assms(1), where d = 1]) (auto simp: any_wait_def)
qed

lemma step_wait_give_up:
  assumes "sig_steady T t c s th n w r" "th t = TimedOut q (Some x)" "AfterWait_pass q x (m_fSet s) = (m, GaveUp)"
  shows "sig_ok k T c s [] (s\<lparr>m_fSet := m\<rparr>, th(t := Idle))"
proof -
  note S = sig_steadyD [OF assms(1)]
  have "sem_inv T ((as_sem c s)\<lparr>m_cAvail := m\<rparr>, th(t := Idle))"
    using step_give_up [OF S(1) assms(2)] assms(3) by simp
  then show ?thesis
    using AfterWait_give_up(1) [OF assms(3) S(2)] S(5,6) assms(2)
    by (intro sig_ok_waiters [OF assms(1), where d = "- 1"]) (auto simp: any_wait_def)
qed

lemma sig_ok_move:
  assumes "sig_steady T t c s th n w r" "word_is n' w' r' m" "n' \<le> 1"
    and "waits_of es - i + w' - w = any_wait p - any_wait (th t)"
    and "\<And>q. waking q p - waking q (th t) + (if waits_in w' r' q then w' else 0) - (if waits_in w r q then w else 0)
           = waiting q p - waiting q (th t)"
    and "\<And>q. \<not> holds p q" "\<And>q. waits_in w' r' q \<Longrightarrow> waits_in w r q" "pc_ok (other_holds T th t) (waits_in w' r') p"
    and "flag_after k (0 < n) es = Some (0 < n')"
  shows "sig_ok k T c s es (s\<lparr>m_fSet := m, returned := returned s + i\<rparr>, th(t := p))"
proof -
  have "sig_inv T (c + waits_of es) (s\<lparr>m_fSet := m, returned := returned s + i\<rparr>, th(t := p))"
    by (rule sig_move [OF assms(1), where n' = n' and w' = w' and r' = r']) (use assms(2-8) in simp_all)
  then show ?thesis
    using assms(9) FIsSet_word [OF assms(2)] FIsSet_word [OF sig_steadyD(2) [OF assms(1)]] by (simp add: sig_ok_def)
qed

text \<open>A wait finds the signal set.\<close>

lemma step_waited:
  assumes "sig_steady T t c s th n w r" "FAvail (m_fSet s) \<and> m = (if k = AutoReset then StateAvail 0 else m_fSet s)"
    and "th t = Idle \<or> (\<exists>a. th t = Acquiring a)"
  shows "sig_ok k T c s [Waited] (s\<lparr>m_fSet := m, returned := returned s + 1\<rparr>, th(t := Idle))"
proof -
  note S = sig_steadyD [OF assms(1)]
  have wn: "w = 0" "n = 1"
    using word_is_facts(2) [OF S(2)] assms(2) S(4) by auto
  have "word_is (if k = AutoReset then 0 else 1) 0 r m"
    using assms(2) S(2) wn word_is_intro(1) [of 0] by simp
  then show ?thesis
    by (rule sig_ok_move [OF assms(1)]) (use assms(3) wn in \<open>cases k; auto simp: weigh\<close>)+
qed

text \<open>\<open>Set\<close> finds nobody waiting, and \<open>Reset\<close>.\<close>

lemma step_set:
  assumes "sig_steady T t c s th n w r" "FNoWait (m_fSet s) \<and> m = StateAvail 1" "th t = Idle \<or> th t = Releasing 1"
  shows "sig_ok k T c s [WasSet] (s\<lparr>m_fSet := m\<rparr>, th(t := Idle))"
proof -
  note S = sig_steadyD [OF assms(1)]
  have w: "w = 0"
    using word_is_facts(1) [OF S(2)] assms(2) by simp
  have "word_is 1 0 r m"
    using assms(2) word_is_intro(1) [of 1] by simp
  then have "sig_ok k T c s [WasSet] (s\<lparr>m_fSet := m, returned := returned s + 0\<rparr>, th(t := Idle))"
    by (rule sig_ok_move [OF assms(1)]) (use assms(3) w in \<open>auto simp: weigh\<close>)
  then show ?thesis
    by simp
qed

lemma step_reset:
  assumes "sig_steady T t c s th n w r" "th t = Idle"
  shows "sig_ok k T c s [WasReset] (s\<lparr>m_fSet := Signal_Reset k (m_fSet s)\<rparr>, th(t := Idle))"
proof -
  note S = sig_steadyD [OF assms(1)]
  have one: "n = 1 \<and> w = 0" if "m_fSet s = StateAvail 1"
    using word_is_avail [of n w r 1] S(2) that by simp
  have zero: "n = 0" if "m_fSet s \<noteq> StateAvail 1"
    using that S(2-4) by (cases "n = 1") (auto simp: word_is_def split: if_splits)
  have "word_is 0 w r (Signal_Reset k (m_fSet s))"
    using one zero S(2) word_is_intro(1) [of 0] by (cases "m_fSet s = StateAvail 1") (auto simp: Signal_Reset_eq)
  then have "sig_ok k T c s [WasReset] (s\<lparr>m_fSet := Signal_Reset k (m_fSet s), returned := returned s + 0\<rparr>, th(t := Idle))"
    by (rule sig_ok_move [OF assms(1)]) (use assms(2) in \<open>auto simp: weigh\<close>)
  then show ?thesis
    by simp
qed

text \<open>\<open>Set\<close> takes one waiting thread off the state, or all of them.\<close>

lemma step_set_wake:
  assumes "sig_steady T t c s th n w r" "th t = Releasing 1" "Auto_Set_pass x y (m_fSet s) = (m, Wake q i)"
  shows "sig_ok AutoReset T c s [WasSet, Waited] (s\<lparr>m_fSet := m\<rparr>, th(t := Waking q i))"
proof -
  note S = sig_steadyD [OF assms(1)] and F = Auto_Set_wake [OF assms(3) sig_steadyD(2) [OF assms(1)]]
  have w: "n = 0" "1 \<le> w" "w \<le> 0x7FFF" "0 \<le> r" "r \<le> 0xFFFE"
    using S(2) F(1) by (auto simp: word_is_def)
  have "word_is 0 (w - 1) r m"
    using F(4) w word_is_intro(1) [of 0] word_is_intro(2) [of "w - 1" r] by auto
  then have "sig_ok AutoReset T c s [WasSet, Waited] (s\<lparr>m_fSet := m, returned := returned s + 0\<rparr>, th(t := Waking q i))"
    by (rule sig_ok_move [OF assms(1)]) (use assms(2) F(1-3) w(1) in \<open>auto simp: weigh\<close>)
  then show ?thesis
    by simp
qed

lemma step_manual_wake:
  assumes "sig_steady T t c s th n w r" "th t = Idle" "Manual_Set (m_fSet s) = (m, Wake q i)"
  shows "sig_ok ManualReset T c s (WasSet # replicate (nat i) Waited) (s\<lparr>m_fSet := m\<rparr>, th(t := Waking q i))"
proof -
  note S = sig_steadyD [OF assms(1)]
  have m: "m = StateAvail 1" "FWait (m_fSet s)" "q = Irksem (m_fSet s)" "i = State_CWait (m_fSet s)"
    using assms(3) by (auto simp: Manual_Set_def Let_def split: if_splits)
  have "w \<noteq> 0"
    using m(2) word_is_facts(1) [OF S(2)] by (auto simp: FWait_def FNoWait_def)
  then have w: "q = r" "i = w" "n = 0" "0 \<le> w" "w \<noteq> 0"
    using m(3,4) word_is_facts(5,6) [OF S(2)] S(5,6) by auto
  have "word_is 1 0 r m"
    using m(1) word_is_intro(1) [of 1] by simp
  then have "sig_ok ManualReset T c s (WasSet # replicate (nat i) Waited) (s\<lparr>m_fSet := m, returned := returned s + 0\<rparr>, th(t := Waking q i))"
    by (rule sig_ok_move [OF assms(1)]) (use assms(2) w in \<open>auto simp: weigh flag_after_waits\<close>)
  then show ?thesis
    by simp
qed

text \<open>The steps on a kernel semaphore.\<close>

lemma step_signal_kernel:
  assumes "sig_steady T t c s th n w r"
  shows "th t = Sleeping q \<or> th t = Taking q \<Longrightarrow> 0 < ksems s q \<Longrightarrow>
      sig_ok k T c s [] (s\<lparr>ksems := (ksems s)(q := ksems s q - 1), returned := returned s + 1\<rparr>, th(t := Idle))"
    "th t = Waking q i \<Longrightarrow> sig_ok k T c s [] (s\<lparr>ksems := (ksems s)(q := ksems s q + nat i)\<rparr>, th(t := Idle))"
proof -
  note S = sig_steadyD [OF assms]
  have n: "CSemaphore_CAvail (m_fSet s) \<le> 1"
    using word_is_counts(2) [OF S(2)] S(4) by simp
  show "sig_ok k T c s [] (s\<lparr>ksems := (ksems s)(q := ksems s q - 1), returned := returned s + 1\<rparr>, th(t := Idle))"
    if "th t = Sleeping q \<or> th t = Taking q" "0 < ksems s q"
    using sig_of_sem [OF step_wake_up [OF S(1) that(1)]] that(2) n by (simp add: sig_ok_def)
  show "sig_ok k T c s [] (s\<lparr>ksems := (ksems s)(q := ksems s q + nat i)\<rparr>, th(t := Idle))" if "th t = Waking q i"
    using sig_of_sem [OF step_wake [OF S(1) that]] n by (simp add: sig_ok_def)
qed

text \<open>The steps that change the thread only.\<close>

lemma step_signal_silent:
  assumes "sig_steady T t c s th n w r" "any_wait p = any_wait (th t)" "\<And>q. waking q p = waking q (th t)" "\<And>q. waiting q p = waiting q (th t)"
    "\<And>q. holds p q \<Longrightarrow> holds (th t) q" "pc_ok (other_holds T th t) (waits_in w r) p"
  shows "sig_ok k T c s [] (s, th(t := p))"
  by (rule sig_ok_silent [OF step_silent [OF sig_steadyD(1) [OF assms(1)] assms(2-6)] assms(1)])

lemma step_signal_thread:
  assumes "sig_steady T t c s th n w r"
  shows "th t = Idle \<Longrightarrow> sig_ok k T c s [] (s, th(t := Acquiring None))"
    "th t = Idle \<Longrightarrow> sig_ok k T c s [] (s, th(t := Releasing 1))"
    "th t = Sleeping q \<Longrightarrow> sig_ok k T c s [] (s, th(t := TimedOut q None))"
    "th t = TimedOut q (Some x) \<Longrightarrow> sig_ok k T c s [] (s, th(t := TimedOut q None))"
    "th t = TimedOut q None \<Longrightarrow> sig_ok k T c s [] (s, th(t := TimedOut q (Some (m_fSet s))))"
    "th t = TimedOut q (Some x) \<Longrightarrow> AfterWait_pass q x (m_fSet s) = (m, TakeFrom p) \<Longrightarrow> sig_ok k T c s [] (s, th(t := Taking p))"
    "th t = Acquiring None \<Longrightarrow> 0 \<le> q \<Longrightarrow> q \<le> 0xFFFE \<Longrightarrow> \<forall>u\<in>T. \<not> holds (th u) q \<Longrightarrow> sig_ok k T c s [] (s, th(t := Acquiring (Some q)))"
proof -
  note S = sig_steadyD(1) [OF assms]
  note sil = step_signal_silent [OF assms]
  show "th t = Idle \<Longrightarrow> sig_ok k T c s [] (s, th(t := Acquiring None))"
    "th t = Idle \<Longrightarrow> sig_ok k T c s [] (s, th(t := Releasing 1))"
    "th t = Sleeping q \<Longrightarrow> sig_ok k T c s [] (s, th(t := TimedOut q None))"
    "th t = TimedOut q (Some x) \<Longrightarrow> sig_ok k T c s [] (s, th(t := TimedOut q None))"
    by (rule sil; auto simp: any_wait_def waiting_def)+
  show "sig_ok k T c s [] (s, th(t := TimedOut q (Some (m_fSet s))))" if "th t = TimedOut q None"
    using sig_ok_silent [OF _ assms] step_after_read [OF S that] by simp
  show "sig_ok k T c s [] (s, th(t := Taking p))" if "th t = TimedOut q (Some x)" "AfterWait_pass q x (m_fSet s) = (m, TakeFrom p)"
    using sig_ok_silent [OF _ assms] step_after_take [OF S that(1)] that(2) by simp
  show "sig_ok k T c s [] (s, th(t := Acquiring (Some q)))"
    if "th t = Acquiring None" "0 \<le> q" "q \<le> 0xFFFE" "\<forall>u\<in>T. \<not> holds (th u) q"
    by (rule sig_ok_silent [OF step_allocate [OF S that] assms])
qed

lemma sig_step_ok:
  assumes "sig_step k T (s, th) es (s', th')" "finite T" "card T < 0x7FFF" "sig_inv T c (s, th)"
  shows "sig_ok k T c s es (s', th')"
proof -
  have steady: "\<exists>n w r. sig_steady T t c s th n w r" if t: "t \<in> T" for t
  proof -
    obtain n w r where b: "word_is n w r (m_fSet s)" "units T n w r (as_sem c s) th"
        "\<forall>t\<in>T. pc_ok (other_holds T th t) (waits_in w r) (th t)"
      using assms(4) by (auto simp: sig_inv_def sem_inv_def)
    then show ?thesis
      using assms(2-4) t word_is_counts(2) [OF b(1)] unfolding sig_steady_def sem_steady_def sig_inv_def by auto
  qed
  show ?thesis
    using assms(1)
  proof cases
    case (try_wait t m)
    then show ?thesis
      using steady [of t] step_waited [of T t c s th _ _ _ m k] Signal_try sig_steadyD(2) fun_upd_idem_iff by metis
  next
    case (wait_done t a spin x m)
    then show ?thesis
      using steady [of t] step_waited [of T t c s th _ _ _ m k] Signal_done by metis
  next
    case (simple_set t x m)
    then show ?thesis
      using steady [of t] step_set [of T t c s th _ _ _ m k] FSimpleSet_True fun_upd_idem_iff by metis
  next
    case (set_done t x y m)
    then show ?thesis
      using steady [of t] step_set [of T t c s th _ _ _ m k] Auto_Set_done by metis
  next
    case (manual_set t m)
    have "FNoWait (m_fSet s) \<and> m = StateAvail 1"
      using manual_set by (auto simp: Manual_Set_def Let_def FWait_def FNoWait_def split: if_splits)
    then show ?thesis
      using manual_set steady [of t] step_set [of T t c s th _ _ _ m k] fun_upd_idem_iff by metis
  next
    case (reset t)
    then show ?thesis
      using steady [of t] step_reset [of T t c s th _ _ _ k] fun_upd_idem_iff by metis
  next
    case (set_wake t x y m r n)
    then show ?thesis
      using steady [of t] step_set_wake by blast
  next
    case (manual_wake t m r n)
    then show ?thesis
      using steady [of t] step_manual_wake by blast
  qed (use steady step_signal_thread step_signal_kernel step_wait_sleep step_wait_give_up in metis)+
qed

section \<open>A signal is a flag\<close>

lemma signal_run_inv:
  assumes "sig_run k T evs c" "finite T" "card T < 0x7FFF"
  shows "sig_inv T (waits_of evs) c \<and> flag_run k evs (FIsSet (m_fSet (fst c)))"
  using assms(1)
proof (induction rule: sig_run.induct)
  case init
  have "sem_inv T (sem_new, \<lambda>t. Idle)"
    using sem_run_inv [OF sem_run.init assms(2,3)] .
  then have "sig_inv T 0 (signal_new, \<lambda>t. Idle)"
    by (rule sig_of_sem) (simp_all add: sem_new_def signal_new_def CSemaphore_CAvail_def State_CAvail_def)
  then show ?case
    using flag_run.init by (simp add: signal_new_def FIsSet_def)
next
  case (step evs c es c')
  have "sig_ok k T (waits_of evs) (fst c) es (fst c', snd c')"
    using sig_step_ok [of k T "fst c" "snd c" es "fst c'" "snd c'"] step assms(2,3) by simp
  then show ?case
    using flag_run_after [of k evs _ es] step.IH by (auto simp: sig_ok_def)
qed

text \<open>
  C15: Whatever the interleaving of fewer than 32767 threads that wait on a \<open>CAutoResetSignal\<close> or a \<open>CManualResetSignal\<close>, with or
  without a timeout, set it and reset it: the waits that succeed, the sets and the resets are those of a flag that a wait finds set, and clears
  when the signal is auto-reset, and \<open>FIsSet\<close> reads the flag. No wait is lost and none succeeds twice: those that took effect are
  those that returned and the threads that sleep without being counted as waiting. A thread that sleeps is counted, or its kernel
  semaphore has a count for it, or another thread is about to give it one. While threads are counted the flag is clear; when
  all threads are done every kernel semaphore is empty.
\<close>

theorem signal_refines_flag:
  assumes "sig_run k T evs (s, th)" "finite T" "card T < 0x7FFF"
  shows "flag_run k evs (FIsSet (m_fSet s))
    \<and> int (count_list evs Waited) = returned s + int (card {t \<in> T. waits_on (th t) \<noteq> None}) - CSemaphore_CWait (m_fSet s)
    \<and> (\<forall>t\<in>T. \<forall>q. waits_on (th t) = Some q \<longrightarrow>
          0 < CSemaphore_CWait (m_fSet s) \<and> Irksem (m_fSet s) = q \<or> 0 < ksems s q \<or> (\<exists>u\<in>T. \<exists>i>0. th u = Waking q i))
    \<and> (0 < CSemaphore_CWait (m_fSet s) \<longrightarrow> \<not> FIsSet (m_fSet s))
    \<and> ((\<forall>t\<in>T. th t = Idle) \<longrightarrow> int (count_list evs Waited) = returned s \<and> (\<forall>q. ksems s q = 0))"
proof (intro conjI ballI allI impI)
  have I: "sem_inv T (as_sem (waits_of evs) s, th)" and F: "flag_run k evs (FIsSet (m_fSet s))"
    using signal_run_inv [OF assms] by (simp_all add: sig_inv_def)
  note C = sem_inv_count [OF I]
  show "flag_run k evs (FIsSet (m_fSet s))"
    by (rule F)
  have "tot any_wait T th = int (card {t \<in> T. waits_on (th t) \<noteq> None})"
    using assms(2) unfolding tot_def any_wait_def by (subst sum_of_bool_eq) (simp_all add: Int_def)
  then show "int (count_list evs Waited) = returned s + int (card {t \<in> T. waits_on (th t) \<noteq> None}) - CSemaphore_CWait (m_fSet s)"
    using C(1) by (simp add: waits_of_def)
  show "0 < CSemaphore_CWait (m_fSet s) \<and> Irksem (m_fSet s) = q \<or> 0 < ksems s q \<or> (\<exists>u\<in>T. \<exists>i>0. th u = Waking q i)"
    if "t \<in> T" "waits_on (th t) = Some q" for t q
    using sem_inv_sleepers [OF I assms(2) that] by simp
  show "\<not> FIsSet (m_fSet s)" if "0 < CSemaphore_CWait (m_fSet s)"
    using C(4,5) that by simp
  assume "\<forall>t\<in>T. th t = Idle"
  note J = sem_inv_idle [OF I this]
  show "int (count_list evs Waited) = returned s" "ksems s q = 0" for q
    using J(1) J(3) [of q] by (simp_all add: waits_of_def)
qed

text \<open>Thread 1 sleeps on a manual-reset signal, thread 2 sets it.\<close>

definition woken :: "signal_state \<times> (nat \<Rightarrow> sem_pc)" where
  "woken = (signal_new\<lparr>m_fSet := StateAvail 1\<rparr>, (\<lambda>t. Idle)(1 := Sleeping 5, 2 := Waking 5 1))"

lemma woken_run: "sig_run ManualReset {1, 2} [WasSet, Waited] woken"
proof -
  have 1: "sig_step ManualReset {1, 2} (signal_new, \<lambda>t. Idle) [] (signal_new, (\<lambda>t. Idle)(1 := Acquiring None))"
    by (rule sig_step.wait) (simp_all add: Manual_FTryWait_def FNoWaitAndSet_def signal_new_def)
  have 2: "sig_step ManualReset {1, 2} (signal_new, (\<lambda>t. Idle)(1 := Acquiring None)) []
      (signal_new, (\<lambda>t. Idle)(1 := Acquiring None, 1 := Acquiring (Some 5)))"
    by (rule sig_step.allocate) simp_all
  have 3: "sig_step ManualReset {1, 2} (signal_new, (\<lambda>t. Idle)(1 := Acquiring None, 1 := Acquiring (Some 5))) []
      (signal_new\<lparr>m_fSet := StateWait 1 5\<rparr>, (\<lambda>t. Idle)(1 := Acquiring None, 1 := Acquiring (Some 5), 1 := Sleeping 5))"
    by (rule sig_step.wait_sleep [where a = "Some 5" and x = 0 and spin = False])
      (simp_all add: Manual_FWait_pass_def FChange_def FNoWaitAndSet_def FNoWaitAndNotSet_def signal_new_def)
  have 4: "sig_step ManualReset {1, 2} (signal_new\<lparr>m_fSet := StateWait 1 5\<rparr>, (\<lambda>t. Idle)(1 := Sleeping 5)) (WasSet # replicate (nat 1) Waited)
      (signal_new\<lparr>m_fSet := StateWait 1 5, m_fSet := StateAvail 1\<rparr>, (\<lambda>t. Idle)(1 := Sleeping 5, 2 := Waking 5 1))"
    by (rule sig_step.manual_wake) (use StateWait_simps [of 1 5] in \<open>simp_all add: Manual_Set_def\<close>)
  have "sig_run ManualReset {1, 2} ((([] @ []) @ []) @ []) (signal_new\<lparr>m_fSet := StateWait 1 5\<rparr>, (\<lambda>t. Idle)(1 := Sleeping 5))"
    using sig_run.step [OF sig_run.step [OF sig_run.step [OF sig_run.init 1] 2] 3] by (simp only: fun_upd_upd)
  from sig_run.step [OF this 4] show ?thesis
    by (simp add: woken_def)
qed

theorem signal_refines_flag_witness:
  "flag_run ManualReset [WasSet, Waited] (FIsSet (m_fSet (fst woken))) \<and> snd woken 1 = Sleeping 5 \<and> returned (fst woken) = 0"
proof -
  have run: "sig_run ManualReset {1, 2} [WasSet, Waited] (fst woken, snd woken)"
    using woken_run by simp
  show ?thesis
    using signal_refines_flag [OF run] by (simp add: woken_def signal_new_def)
qed

end
