(* ===== verification/Group_Locks.thy ===== *)
theory Group_Locks
  imports Ese_Prelude
begin

text \<open>
  \<open>CBinaryLock\<close> and \<open>CReaderWriterLock\<close> of \<open>ms/sync.hxx\<close> and \<open>ms/sync.cxx\<close>: locks that two groups of threads own in turn, on one control
  word changed by compare-and-swap, a count of the owners that a quiesced group still has, and two semaphores. The operations are
  modelled as they stand and run by any number of threads that interleave at every atomic access. The
  bookkeeping of owners for deadlock detection and the performance counters, which release builds leave out, are not modelled.
\<close>

unbundle bit_operations_syntax

section \<open>The state\<close>

text \<open>
  The states of the two locks have one layout: the control word packs the owners or waiters of group 1 (bits 0 to 14) and
  of group 2 (bits 16 to 30), each followed by the bit that says that the group is quiesced; \<open>m_cOwner\<close>
  counts the owners that a quiesced group still has. In the reader-writer lock group 1 are the writers, who own the lock one at
  a time, and group 2 the readers. A semaphore is what its interface promises: a number of available counts.
\<close>

record LockState =
  m_cw :: ULONG
  m_cOwner :: ULONG
  m_sem1 :: nat
  m_sem2 :: nat

definition LockState_new :: LockState where
  "LockState_new = \<lparr>m_cw = 0, m_cOwner = 0, m_sem1 = 0, m_sem2 = 0\<rparr>"

datatype group = Group1 | Group2

text \<open>
  An operation changes the control word in one atomic access and leaves the accesses it makes after that as
  actions. \<open>UpdateOwner\<close> is the addition to \<open>m_cOwner\<close> at the start of \<open>_UpdateQuiescedOwnerCount...\<close>, \<open>Handover\<close> its loop,
  \<open>AddOwner\<close> and \<open>Release\<close> what follows. An operation gives \<open>None\<close> when its compare-and-swap failed and the loop goes on;
  \<open>cwRead\<close> is the word it read.
\<close>

datatype lock_action = UpdateOwner group ULONG | Handover group | AddOwner group ULONG | Release group nat

datatype lock_result = Entered | MustWait | Failed | Left

type_synonym lock_outcome = "(LockState \<times> lock_action list \<times> lock_result) option"

definition sar31 :: "ULONG \<Rightarrow> ULONG" where
  "sar31 w = signed_drop_bit 31 w"

definition CompareExchange :: "ULONG \<Rightarrow> ULONG \<Rightarrow> LockState \<Rightarrow> LockState \<times> ULONG" where
  "CompareExchange cwBIExpected cwAI s = (if m_cw s = cwBIExpected then s\<lparr>m_cw := cwAI\<rparr> else s, m_cw s)"

section \<open>CBinaryLock\<close>

definition slow_Enter1 :: "ULONG \<Rightarrow> lock_action list" where
  "slow_Enter1 cwBIOld =
     (if cwBIOld AND 0x80008000 = 0x00008000 then [UpdateOwner Group2 (drop_bit 16 (cwBIOld AND 0x7FFF0000))] else [])"

definition slow_Enter2 :: "ULONG \<Rightarrow> lock_action list" where
  "slow_Enter2 cwBIOld =
     (if cwBIOld AND 0x80008000 = 0x80000000 then [UpdateOwner Group1 (cwBIOld AND 0x00007FFF)] else [])"

definition enter1_cwAI :: "ULONG \<Rightarrow> ULONG" where
  "enter1_cwAI cwBIExpected = ((cwBIExpected AND (sar31 cwBIExpected OR 0x0000FFFF)) OR 0x80000000) + 0x00000001"

definition enter2_cwAI :: "ULONG \<Rightarrow> ULONG" where
  "enter2_cwAI cwBIExpected = ((cwBIExpected AND (sar31 (push_bit 16 cwBIExpected) OR 0xFFFF0000)) OR 0x00008000) + 0x00010000"

definition Enter1 :: "ULONG \<Rightarrow> LockState \<Rightarrow> lock_outcome" where
  "Enter1 cwRead s =
     (let cwBIExpected = cwRead; cwAI = enter1_cwAI cwBIExpected;
          (s, cwBI) = CompareExchange cwBIExpected cwAI s
      in if ((cwBI XOR cwBIExpected) OR (cwBI AND 0x00008000)) \<noteq> 0
         then if cwBI \<noteq> cwBIExpected then None else Some (s, slow_Enter1 cwBI, MustWait)
         else Some (s, [], Entered))"

definition FTryEnter1 :: "ULONG \<Rightarrow> LockState \<Rightarrow> lock_outcome" where
  "FTryEnter1 cwRead s =
     (let cwBIExpected = cwRead AND 0xFFFF7FFF; cwAI = enter1_cwAI cwBIExpected;
          (s, cwBI) = CompareExchange cwBIExpected cwAI s
      in if cwBI \<noteq> cwBIExpected
         then if cwBI AND 0x00008000 \<noteq> 0 then Some (s, [], Failed) else None
         else Some (s, [], Entered))"

definition leave1_cwAI :: "ULONG \<Rightarrow> ULONG" where
  "leave1_cwAI cwBIExpected =
     (let cwAI = cwBIExpected + 0xFFFFFFFF in cwAI - (push_bit 16 (cwAI + 0xFFFFFFFF) AND 0x80000000))"

definition Leave1 :: "ULONG \<Rightarrow> LockState \<Rightarrow> lock_outcome" where
  "Leave1 cwRead s =
     (let cwBIExpected = cwRead AND 0xFFFF7FFF; cwAI = leave1_cwAI cwBIExpected;
          (s, cwBI) = CompareExchange cwBIExpected cwAI s
      in if cwBI \<noteq> cwBIExpected
         then if cwBI AND 0x00008000 \<noteq> 0 then Some (s, [UpdateOwner Group1 0xFFFFFFFF], Left) else None
         else Some (s, [], Left))"

definition Enter2 :: "ULONG \<Rightarrow> LockState \<Rightarrow> lock_outcome" where
  "Enter2 cwRead s =
     (let cwBIExpected = cwRead; cwAI = enter2_cwAI cwBIExpected;
          (s, cwBI) = CompareExchange cwBIExpected cwAI s
      in if ((cwBI XOR cwBIExpected) OR (cwBI AND 0x80000000)) \<noteq> 0
         then if cwBI \<noteq> cwBIExpected then None else Some (s, slow_Enter2 cwBI, MustWait)
         else Some (s, [], Entered))"

definition FTryEnter2 :: "ULONG \<Rightarrow> LockState \<Rightarrow> lock_outcome" where
  "FTryEnter2 cwRead s =
     (let cwBIExpected = cwRead AND 0x7FFFFFFF; cwAI = enter2_cwAI cwBIExpected;
          (s, cwBI) = CompareExchange cwBIExpected cwAI s
      in if cwBI \<noteq> cwBIExpected
         then if cwBI AND 0x80000000 \<noteq> 0 then Some (s, [], Failed) else None
         else Some (s, [], Entered))"

definition leave2_cwAI :: "ULONG \<Rightarrow> ULONG" where
  "leave2_cwAI cwBIExpected =
     (let cwAI = cwBIExpected + 0xFFFF0000 in cwAI - (drop_bit 16 (cwAI + 0xFFFF0000) AND 0x00008000))"

definition Leave2 :: "ULONG \<Rightarrow> LockState \<Rightarrow> lock_outcome" where
  "Leave2 cwRead s =
     (let cwBIExpected = cwRead AND 0x7FFFFFFF; cwAI = leave2_cwAI cwBIExpected;
          (s, cwBI) = CompareExchange cwBIExpected cwAI s
      in if cwBI \<noteq> cwBIExpected
         then if cwBI AND 0x80000000 \<noteq> 0 then Some (s, [UpdateOwner Group2 0xFFFFFFFF], Left) else None
         else Some (s, [], Left))"

text \<open>The loops of \<open>_UpdateQuiescedOwnerCountAsGroup1\<close> and \<open>_UpdateQuiescedOwnerCountAsGroup2\<close> and what follows them.\<close>

definition handover1_cwAI :: "ULONG \<Rightarrow> ULONG" where
  "handover1_cwAI cwBIExpected =
     cwBIExpected AND ((sar31 (push_bit 16 (cwBIExpected + 0xFFFF7FFF)) AND 0xFFFF0000) XOR 0x8000FFFF)"

definition UpdateQuiescedOwnerCountAsGroup1 :: "ULONG \<Rightarrow> LockState \<Rightarrow> (LockState \<times> lock_action list) option" where
  "UpdateQuiescedOwnerCountAsGroup1 cwRead s =
     (let cwBIExpected = cwRead; (s, cwBI) = CompareExchange cwBIExpected (handover1_cwAI cwBIExpected) s;
          cOwnerDeltaT = drop_bit 16 (cwBI AND 0x7FFF0000)
      in if cwBI \<noteq> cwBIExpected then None
         else Some (s, (if cwBI AND 0x00007FFF \<noteq> 0 then [AddOwner Group2 cOwnerDeltaT] else [])
                @ [Release Group2 (unat (drop_bit 16 (cwBI AND 0x7FFF0000)))]))"

definition handover2_cwAI :: "ULONG \<Rightarrow> ULONG" where
  "handover2_cwAI cwBIExpected = cwBIExpected AND ((sar31 (cwBIExpected + 0x7FFF0000) AND 0x0000FFFF) XOR 0xFFFF8000)"

definition UpdateQuiescedOwnerCountAsGroup2 :: "ULONG \<Rightarrow> LockState \<Rightarrow> (LockState \<times> lock_action list) option" where
  "UpdateQuiescedOwnerCountAsGroup2 cwRead s =
     (let cwBIExpected = cwRead; (s, cwBI) = CompareExchange cwBIExpected (handover2_cwAI cwBIExpected) s;
          cOwnerDeltaT = cwBI AND 0x00007FFF
      in if cwBI \<noteq> cwBIExpected then None
         else Some (s, (if cwBI AND 0x7FFF0000 \<noteq> 0 then [AddOwner Group1 cOwnerDeltaT] else [])
                @ [Release Group1 (unat (cwBI AND 0x00007FFF))]))"

section \<open>CReaderWriterLock\<close>

definition slow_EnterAsWriter :: "ULONG \<Rightarrow> lock_action list" where
  "slow_EnterAsWriter cwBIOld =
     (if cwBIOld AND 0x80008000 = 0x00008000 then [UpdateOwner Group2 (drop_bit 16 (cwBIOld AND 0x7FFF0000))] else [])"

definition slow_EnterAsReader :: "ULONG \<Rightarrow> lock_action list" where
  "slow_EnterAsReader cwBIOld = (if cwBIOld AND 0x80008000 = 0x80000000 then [UpdateOwner Group1 0x00000001] else [])"

definition EnterAsWriter :: "ULONG \<Rightarrow> LockState \<Rightarrow> lock_outcome" where
  "EnterAsWriter cwRead s =
     (let cwBIExpected = cwRead; cwAI = enter1_cwAI cwBIExpected;
          (s, cwBI) = CompareExchange cwBIExpected cwAI s
      in if ((cwBI XOR cwBIExpected) OR (cwBI AND 0x0000FFFF)) \<noteq> 0
         then if cwBI \<noteq> cwBIExpected then None else Some (s, slow_EnterAsWriter cwBI, MustWait)
         else Some (s, [], Entered))"

text \<open>\<open>cwSeen\<close> is the word read by the test before the loop.\<close>

definition FTryEnterAsWriter :: "ULONG \<Rightarrow> ULONG \<Rightarrow> LockState \<Rightarrow> lock_outcome" where
  "FTryEnterAsWriter cwSeen cwRead s =
     (if cwSeen AND 0x0000FFFF \<noteq> 0 then Some (s, [], Failed)
      else let cwBIExpected = cwRead AND 0xFFFF0000; cwAI = enter1_cwAI cwBIExpected;
               (s, cwBI) = CompareExchange cwBIExpected cwAI s
           in if cwBI \<noteq> cwBIExpected
              then if cwBI AND 0x0000FFFF \<noteq> 0 then Some (s, [], Failed) else None
              else Some (s, [], Entered))"

definition LeaveAsWriter :: "ULONG \<Rightarrow> LockState \<Rightarrow> lock_outcome" where
  "LeaveAsWriter cwRead s =
     (let cwBIExpected = cwRead AND 0xFFFF7FFF; cwAI = leave1_cwAI cwBIExpected;
          (s, cwBI) = CompareExchange cwBIExpected cwAI s
      in if cwBI \<noteq> cwBIExpected
         then if cwBI AND 0x00008000 \<noteq> 0 then Some (s, [UpdateOwner Group1 0xFFFFFFFF], Left) else None
         else Some (s, if cwAI AND 0x00007FFF \<noteq> 0 then [Release Group1 1] else [], Left))"

definition enterR_cwAI :: "ULONG \<Rightarrow> ULONG" where
  "enterR_cwAI cwBIExpected =
     (cwBIExpected AND 0xFFFF7FFF) + (if cwBIExpected AND 0x80008000 = 0x80000000 then 0x00017FFF else 0x00018000)"

definition EnterAsReader :: "ULONG \<Rightarrow> LockState \<Rightarrow> lock_outcome" where
  "EnterAsReader cwRead s =
     (let cwBIExpected = cwRead; cwAI = enterR_cwAI cwBIExpected;
          (s, cwBI) = CompareExchange cwBIExpected cwAI s
      in if ((cwBI XOR cwBIExpected) OR (cwBI AND 0x80000000)) \<noteq> 0
         then if cwBI \<noteq> cwBIExpected then None else Some (s, slow_EnterAsReader cwBI, MustWait)
         else Some (s, [], Entered))"

definition FTryEnterAsReader :: "ULONG \<Rightarrow> LockState \<Rightarrow> lock_outcome" where
  "FTryEnterAsReader cwRead s =
     (let cwBIExpected = cwRead AND 0x7FFFFFFF; cwAI = enterR_cwAI cwBIExpected;
          (s, cwBI) = CompareExchange cwBIExpected cwAI s
      in if cwBI \<noteq> cwBIExpected
         then if cwBI AND 0x80000000 \<noteq> 0 then Some (s, [], Failed) else None
         else Some (s, [], Entered))"

definition leaveR_cwAI :: "ULONG \<Rightarrow> ULONG" where
  "leaveR_cwAI cwBIExpected = cwBIExpected + 0xFFFF0000 + (sar31 (cwBIExpected + 0xFFFE0000) AND 0xFFFF8000)"

definition LeaveAsReader :: "ULONG \<Rightarrow> LockState \<Rightarrow> lock_outcome" where
  "LeaveAsReader cwRead s =
     (let cwBIExpected = cwRead AND 0x7FFFFFFF; cwAI = leaveR_cwAI cwBIExpected;
          (s, cwBI) = CompareExchange cwBIExpected cwAI s
      in if cwBI \<noteq> cwBIExpected
         then if cwBI AND 0x80000000 \<noteq> 0 then Some (s, [UpdateOwner Group2 0xFFFFFFFF], Left) else None
         else Some (s, [], Left))"

definition UpdateQuiescedOwnerCountAsWriter :: "ULONG \<Rightarrow> LockState \<Rightarrow> (LockState \<times> lock_action list) option" where
  "UpdateQuiescedOwnerCountAsWriter cwRead s =
     (let cwBIExpected = cwRead; (s, cwBI) = CompareExchange cwBIExpected (handover1_cwAI cwBIExpected) s;
          cOwnerDeltaT = drop_bit 16 (cwBI AND 0x7FFF0000)
      in if cwBI \<noteq> cwBIExpected then None
         else Some (s, (if cwBI AND 0x00007FFF \<noteq> 0 then [AddOwner Group2 cOwnerDeltaT] else [])
                @ [Release Group2 (unat (drop_bit 16 (cwBI AND 0x7FFF0000)))]))"

definition handoverR_cwAI :: "ULONG \<Rightarrow> ULONG" where
  "handoverR_cwAI cwBIExpected = cwBIExpected + (if cwBIExpected AND 0x7FFF0000 \<noteq> 0 then 0xFFFFFFFF else 0xFFFF8000)"

definition UpdateQuiescedOwnerCountAsReader :: "ULONG \<Rightarrow> LockState \<Rightarrow> (LockState \<times> lock_action list) option" where
  "UpdateQuiescedOwnerCountAsReader cwRead s =
     (let cwBIExpected = cwRead; (s, cwBI) = CompareExchange cwBIExpected (handoverR_cwAI cwBIExpected) s
      in if cwBI \<noteq> cwBIExpected then None
         else Some (s, (if cwBI AND 0x7FFF0000 \<noteq> 0 then [AddOwner Group1 1] else []) @ [Release Group1 1]))"

section \<open>The checks\<close>

text \<open>
  The state a control word is in, by the fields that are not zero, and the transitions the code asserts: the tables say for which
  reasons one state may follow another.
\<close>

definition mpindexstate :: "int list" where
  "mpindexstate = [0, - 1, - 1, - 1, - 1, - 1, 1, - 1, - 1, 2, - 1, 3, - 1, - 1, 4, 5]"

definition StateFromControlWord :: "ULONG \<Rightarrow> int" where
  "StateFromControlWord cw =
     mpindexstate ! ((if cw AND 0x80000000 \<noteq> 0 then 8 else 0) + (if cw AND 0x7FFF0000 \<noteq> 0 then 4 else 0)
       + (if cw AND 0x00008000 \<noteq> 0 then 2 else 0) + (if cw AND 0x00007FFF \<noteq> 0 then 1 else 0))"

datatype TransitionReason = trEnter group | trLeave group

definition mpstatestatetrmask :: "TransitionReason set list list" where
  "mpstatestatetrmask = (let NO = {}; E1 = {trEnter Group1}; L1 = {trLeave Group1}; E2 = {trEnter Group2}; L2 = {trLeave Group2} in
     [[NO, E2, E1, NO, NO, NO],
      [L2, E2 \<union> L2, NO, E1, NO, NO],
      [L1, NO, E1 \<union> L1, NO, E2, NO],
      [NO, NO, L2, E1 \<union> L2, NO, E2],
      [NO, L1, NO, NO, L1 \<union> E2, E1],
      [NO, NO, NO, L1, L2, E1 \<union> L1 \<union> E2 \<union> L2]])"

definition mpstatestatetrmaskRW :: "TransitionReason set list list" where
  "mpstatestatetrmaskRW = (let NO = {}; EW = {trEnter Group1}; LW = {trLeave Group1}; ER = {trEnter Group2}; LR = {trLeave Group2} in
     [[NO, ER, EW, NO, NO, NO],
      [LR, ER \<union> LR, NO, EW, NO, NO],
      [LW, NO, EW \<union> LW, NO, ER, ER],
      [NO, NO, LR, EW \<union> LR, NO, ER],
      [NO, LW, NO, NO, ER, EW],
      [NO, NO, NO, LW, LR, EW \<union> ER \<union> LR]])"

definition dcOOW2 :: "ULONG \<Rightarrow> ULONG \<Rightarrow> int" where
  "dcOOW2 cwBI cwAI = sint (drop_bit 16 (cwAI AND 0x7FFF0000) - drop_bit 16 (cwBI AND 0x7FFF0000))"

definition dcOOW1 :: "ULONG \<Rightarrow> ULONG \<Rightarrow> int" where
  "dcOOW1 cwBI cwAI = sint ((cwAI AND 0x00007FFF) - (cwBI AND 0x00007FFF))"

definition FValidStateTransition :: "ULONG \<Rightarrow> ULONG \<Rightarrow> TransitionReason \<Rightarrow> bool" where
  "FValidStateTransition cwBI cwAI tr =
     (let stateBI = StateFromControlWord cwBI; stateAI = StateFromControlWord cwAI
      in if stateBI < 0 \<or> stateAI < 0 then False
         else if (dcOOW2 cwBI cwAI < - 1 \<or> dcOOW2 cwBI cwAI > 1) \<and> cwAI AND 0x7FFF0000 \<noteq> 0 then False
         else if (dcOOW1 cwBI cwAI < - 1 \<or> dcOOW1 cwBI cwAI > 1) \<and> cwAI AND 0x00007FFF \<noteq> 0 then False
         else tr \<in> mpstatestatetrmask ! nat stateBI ! nat stateAI)"

definition FValidStateTransitionRW :: "ULONG \<Rightarrow> ULONG \<Rightarrow> TransitionReason \<Rightarrow> bool" where
  "FValidStateTransitionRW cwBI cwAI tr =
     (let stateBI = StateFromControlWord cwBI; stateAI = StateFromControlWord cwAI
      in if stateBI < 0 \<or> stateAI < 0 then False
         else if (dcOOW2 cwBI cwAI < - 1 \<or> dcOOW2 cwBI cwAI > 1) \<and> cwAI AND 0x7FFF0000 \<noteq> 0 then False
         else if dcOOW1 cwBI cwAI < - 1 \<or> dcOOW1 cwBI cwAI > 1 then False
         else tr \<in> mpstatestatetrmaskRW ! nat stateBI ! nat stateAI)"

section \<open>Threads\<close>

text \<open>
  A thread is in one group or waits for it, and has the actions of its last operation still to run. Any number of threads
  interleave at their atomic accesses; the word a loop has read is arbitrary.
\<close>

datatype lock_kind = BinaryLock | ReaderWriterLock

datatype lock_status = Outside | Owns group | Waits group

datatype lock_op = Enter group | TryEnter group | Leave group

fun lock_call :: "lock_kind \<Rightarrow> lock_op \<Rightarrow> ULONG \<Rightarrow> ULONG \<Rightarrow> LockState \<Rightarrow> lock_outcome" where
  "lock_call BinaryLock (Enter Group1) cwSeen cwRead s = Enter1 cwRead s"
| "lock_call BinaryLock (Enter Group2) cwSeen cwRead s = Enter2 cwRead s"
| "lock_call BinaryLock (TryEnter Group1) cwSeen cwRead s = FTryEnter1 cwRead s"
| "lock_call BinaryLock (TryEnter Group2) cwSeen cwRead s = FTryEnter2 cwRead s"
| "lock_call BinaryLock (Leave Group1) cwSeen cwRead s = Leave1 cwRead s"
| "lock_call BinaryLock (Leave Group2) cwSeen cwRead s = Leave2 cwRead s"
| "lock_call ReaderWriterLock (Enter Group1) cwSeen cwRead s = EnterAsWriter cwRead s"
| "lock_call ReaderWriterLock (Enter Group2) cwSeen cwRead s = EnterAsReader cwRead s"
| "lock_call ReaderWriterLock (TryEnter Group1) cwSeen cwRead s = FTryEnterAsWriter cwSeen cwRead s"
| "lock_call ReaderWriterLock (TryEnter Group2) cwSeen cwRead s = FTryEnterAsReader cwRead s"
| "lock_call ReaderWriterLock (Leave Group1) cwSeen cwRead s = LeaveAsWriter cwRead s"
| "lock_call ReaderWriterLock (Leave Group2) cwSeen cwRead s = LeaveAsReader cwRead s"

fun handover :: "lock_kind \<Rightarrow> group \<Rightarrow> ULONG \<Rightarrow> LockState \<Rightarrow> (LockState \<times> lock_action list) option" where
  "handover BinaryLock Group1 cwRead s = UpdateQuiescedOwnerCountAsGroup1 cwRead s"
| "handover BinaryLock Group2 cwRead s = UpdateQuiescedOwnerCountAsGroup2 cwRead s"
| "handover ReaderWriterLock Group1 cwRead s = UpdateQuiescedOwnerCountAsWriter cwRead s"
| "handover ReaderWriterLock Group2 cwRead s = UpdateQuiescedOwnerCountAsReader cwRead s"

fun release_sem :: "group \<Rightarrow> nat \<Rightarrow> LockState \<Rightarrow> LockState" where
  "release_sem Group1 n s = s\<lparr>m_sem1 := m_sem1 s + n\<rparr>"
| "release_sem Group2 n s = s\<lparr>m_sem2 := m_sem2 s + n\<rparr>"

fun acquire_sem :: "group \<Rightarrow> LockState \<Rightarrow> LockState option" where
  "acquire_sem Group1 s = (if 0 < m_sem1 s then Some (s\<lparr>m_sem1 := m_sem1 s - 1\<rparr>) else None)"
| "acquire_sem Group2 s = (if 0 < m_sem2 s then Some (s\<lparr>m_sem2 := m_sem2 s - 1\<rparr>) else None)"

fun lock_act :: "lock_kind \<Rightarrow> lock_action \<Rightarrow> ULONG \<Rightarrow> LockState \<Rightarrow> (LockState \<times> lock_action list) option" where
  "lock_act K (UpdateOwner g cOwnerDelta) cwRead s =
     (let cOwnerBI = m_cOwner s; cOwnerAI = cOwnerBI + cOwnerDelta
      in Some (s\<lparr>m_cOwner := cOwnerAI\<rparr>, if cOwnerAI = 0 then [Handover g] else []))"
| "lock_act K (Handover g) cwRead s = handover K g cwRead s"
| "lock_act K (AddOwner g cOwnerDeltaT) cwRead s = Some (s\<lparr>m_cOwner := m_cOwner s + cOwnerDeltaT\<rparr>, [])"
| "lock_act K (Release g n) cwRead s = Some (release_sem g n s, [])"

fun op_needs :: "lock_op \<Rightarrow> lock_status" where
  "op_needs (Enter g) = Outside"
| "op_needs (TryEnter g) = Outside"
| "op_needs (Leave g) = Owns g"

fun op_after :: "lock_op \<Rightarrow> lock_result \<Rightarrow> lock_status" where
  "op_after (Enter g) r = (if r = Entered then Owns g else Waits g)"
| "op_after (TryEnter g) r = (if r = Entered then Owns g else Outside)"
| "op_after (Leave g) r = Outside"

type_synonym lock_thread = "lock_status \<times> lock_action list"

inductive lock_step :: "lock_kind \<Rightarrow> nat set \<Rightarrow> LockState \<times> (nat \<Rightarrow> lock_thread) \<Rightarrow> LockState \<times> (nat \<Rightarrow> lock_thread) \<Rightarrow> bool" for K T where
  operation: "t \<in> T \<Longrightarrow> th t = (op_needs op, []) \<Longrightarrow> lock_call K op cwSeen cwRead s = Some (s', acts, r) \<Longrightarrow>
    lock_step K T (s, th) (s', th(t := (op_after op r, acts)))"
| act: "t \<in> T \<Longrightarrow> th t = (st, a # as) \<Longrightarrow> lock_act K a cwRead s = Some (s', new) \<Longrightarrow>
    lock_step K T (s, th) (s', th(t := (st, new @ as)))"
| wake: "t \<in> T \<Longrightarrow> th t = (Waits g, []) \<Longrightarrow> acquire_sem g s = Some s' \<Longrightarrow>
    lock_step K T (s, th) (s', th(t := (Owns g, [])))"

inductive lock_reach :: "lock_kind \<Rightarrow> nat set \<Rightarrow> LockState \<times> (nat \<Rightarrow> lock_thread) \<Rightarrow> bool" for K T where
  init: "lock_reach K T (LockState_new, \<lambda>t. (Outside, []))"
| step: "lock_reach K T c \<Longrightarrow> lock_step K T c c' \<Longrightarrow> lock_reach K T c'"

text \<open>What an operation asserts of the word it read, before the compare-and-swap.\<close>

definition valid_unless_illegal :: "(ULONG \<Rightarrow> ULONG \<Rightarrow> TransitionReason \<Rightarrow> bool) \<Rightarrow> ULONG \<Rightarrow> ULONG \<Rightarrow> TransitionReason \<Rightarrow> bool" where
  "valid_unless_illegal valid cwBIExpected cwAI tr \<longleftrightarrow> StateFromControlWord cwBIExpected < 0 \<or> valid cwBIExpected cwAI tr"

fun asserts :: "lock_kind \<Rightarrow> lock_op \<Rightarrow> ULONG \<Rightarrow> bool" where
  "asserts BinaryLock (Enter Group1) cw = FValidStateTransition cw (enter1_cwAI cw) (trEnter Group1)"
| "asserts BinaryLock (Enter Group2) cw = FValidStateTransition cw (enter2_cwAI cw) (trEnter Group2)"
| "asserts BinaryLock (TryEnter Group1) cw =
     (let e = cw AND 0xFFFF7FFF in valid_unless_illegal FValidStateTransition e (enter1_cwAI e) (trEnter Group1))"
| "asserts BinaryLock (TryEnter Group2) cw =
     (let e = cw AND 0x7FFFFFFF in valid_unless_illegal FValidStateTransition e (enter2_cwAI e) (trEnter Group2))"
| "asserts BinaryLock (Leave Group1) cw =
     (let e = cw AND 0xFFFF7FFF in valid_unless_illegal FValidStateTransition e (leave1_cwAI e) (trLeave Group1))"
| "asserts BinaryLock (Leave Group2) cw =
     (let e = cw AND 0x7FFFFFFF in valid_unless_illegal FValidStateTransition e (leave2_cwAI e) (trLeave Group2))"
| "asserts ReaderWriterLock (Enter Group1) cw = FValidStateTransitionRW cw (enter1_cwAI cw) (trEnter Group1)"
| "asserts ReaderWriterLock (Enter Group2) cw = FValidStateTransitionRW cw (enterR_cwAI cw) (trEnter Group2)"
| "asserts ReaderWriterLock (TryEnter Group1) cw =
     (let e = cw AND 0xFFFF0000 in valid_unless_illegal FValidStateTransitionRW e (enter1_cwAI e) (trEnter Group1))"
| "asserts ReaderWriterLock (TryEnter Group2) cw =
     (let e = cw AND 0x7FFFFFFF in valid_unless_illegal FValidStateTransitionRW e (enterR_cwAI e) (trEnter Group2))"
| "asserts ReaderWriterLock (Leave Group1) cw =
     (let e = cw AND 0xFFFF7FFF in valid_unless_illegal FValidStateTransitionRW e (leave1_cwAI e) (trLeave Group1))"
| "asserts ReaderWriterLock (Leave Group2) cw =
     (let e = cw AND 0x7FFFFFFF in valid_unless_illegal FValidStateTransitionRW e (leaveR_cwAI e) (trLeave Group2))"

fun handover_asserts :: "lock_kind \<Rightarrow> group \<Rightarrow> ULONG \<Rightarrow> bool" where
  "handover_asserts BinaryLock Group1 cw = FValidStateTransition cw (handover1_cwAI cw) (trLeave Group1)"
| "handover_asserts BinaryLock Group2 cw = FValidStateTransition cw (handover2_cwAI cw) (trLeave Group2)"
| "handover_asserts ReaderWriterLock Group1 cw = FValidStateTransitionRW cw (handover1_cwAI cw) (trLeave Group1)"
| "handover_asserts ReaderWriterLock Group2 cw = FValidStateTransitionRW cw (handoverR_cwAI cw) (trLeave Group2)"

end
