(* ===== verification/Control_Words.thy ===== *)
theory Control_Words
  imports Ese_Prelude
begin

text \<open>
  A 32-bit control word that packs two counters of 15 bits, each followed by a flag: the layout that the locks and the metered
  section of \<open>ms/sync.hxx\<close> share. Masks, additions and tests on the word by its fields.
\<close>

unbundle bit_operations_syntax

section \<open>The fields of the control word\<close>

definition fields :: "int \<Rightarrow> bool \<Rightarrow> int \<Rightarrow> bool \<Rightarrow> ULONG" where
  "fields a p c q = word_of_int (concat_bit 15 a (concat_bit 1 (of_bool p) (concat_bit 15 c (of_bool q))))"

abbreviation cw_fields :: "int \<Rightarrow> bool \<Rightarrow> int \<Rightarrow> bool \<Rightarrow> ULONG" where
  "cw_fields \<equiv> fields"

definition small :: "int \<Rightarrow> bool" where
  "small a \<longleftrightarrow> 0 \<le> a \<and> a < 0x8000"

lemma bit_fields:
  "bit (fields a p c q) n \<longleftrightarrow> n < 15 \<and> bit a n \<or> n = 15 \<and> p \<or> 16 \<le> n \<and> n < 31 \<and> bit c (n - 16) \<or> n = 31 \<and> q"
  unfolding fields_def by (auto simp: bit_word_of_int_iff bit_concat_bit_iff bit_simps)

lemma fields_int:
  assumes "small a" "small c"
  shows "fields a p c q = word_of_int (a + 0x8000 * of_bool p + 0x10000 * c + 0x80000000 * of_bool q)"
proof -
  have "take_bit 15 a = a" "take_bit 15 c = c"
    using assms by (simp_all add: take_bit_int_eq_self small_def)
  then have "concat_bit 15 a (concat_bit 1 (of_bool p) (concat_bit 15 c (of_bool q)))
      = a + 0x8000 * of_bool p + 0x10000 * c + 0x80000000 * of_bool q"
    by (simp add: concat_bit_eq push_bit_eq_mult)
  then show ?thesis
    by (simp add: fields_def)
qed

text \<open>A mask keeps or clears each field.\<close>

definition keep :: "bool \<Rightarrow> int" where
  "keep b = (if b then mask 15 else 0)"

lemma fields_and:
  "fields a p c q AND fields (keep ka) kp (keep kc) kq
   = fields (if ka then a else 0) (p \<and> kp) (if kc then c else 0) (q \<and> kq)"
  by (rule bit_word_eqI) (auto simp: bit_and_iff bit_fields keep_def bit_mask_iff)

lemma masks:
  "0x00007FFF = fields (keep True) False (keep False) False" "0x00008000 = fields (keep False) True (keep False) False"
  "0x0000FFFF = fields (keep True) True (keep False) False" "0x7FFF0000 = fields (keep False) False (keep True) False"
  "0x80000000 = fields (keep False) False (keep False) True" "0x7FFFFFFF = fields (keep True) True (keep True) False"
  "0xFFFF7FFF = fields (keep True) False (keep True) True" "0xFFFF0000 = fields (keep False) False (keep True) True"
  "0x80008000 = fields (keep False) True (keep False) True" "0x8000FFFF = fields (keep True) True (keep False) True"
  "0xFFFF8000 = fields (keep False) True (keep True) True"
  by (subst fields_int; simp add: small_def keep_def mask_numeral)+

lemma fields_masks:
  "fields a p c q AND 0x00007FFF = fields a False 0 False" "fields a p c q AND 0x00008000 = fields 0 p 0 False"
  "fields a p c q AND 0x0000FFFF = fields a p 0 False" "fields a p c q AND 0x7FFF0000 = fields 0 False c False"
  "fields a p c q AND 0x80000000 = fields 0 False 0 q" "fields a p c q AND 0x7FFFFFFF = fields a p c False"
  "fields a p c q AND 0xFFFF7FFF = fields a False c q" "fields a p c q AND 0xFFFF0000 = fields 0 False c q"
  "fields a p c q AND 0x80008000 = fields 0 p 0 q" "fields a p c q AND 0x8000FFFF = fields a p 0 q"
  "fields a p c q AND 0xFFFF8000 = fields 0 p c q"
  unfolding masks fields_and by simp_all

lemma fields_eq:
  assumes "small a" "small c" "small a'" "small c'"
  shows "fields a p c q = fields a' p' c' q' \<longleftrightarrow> a = a' \<and> p = p' \<and> c = c' \<and> q = q'"
proof
  assume e: "fields a p c q = fields a' p' c' q'"
  have b: "bit (fields a p c q) n = bit (fields a' p' c' q') n" for n
    using e by simp
  have "take_bit 15 a = take_bit 15 a'" "take_bit 15 c = take_bit 15 c'"
  proof -
    show "take_bit 15 a = take_bit 15 a'"
    proof (rule bit_eqI)
      fix n
      show "bit (take_bit 15 a) n \<longleftrightarrow> bit (take_bit 15 a') n"
        using b [of n] by (auto simp: bit_take_bit_iff bit_fields)
    qed
    show "take_bit 15 c = take_bit 15 c'"
    proof (rule bit_eqI)
      fix n
      show "bit (take_bit 15 c) n \<longleftrightarrow> bit (take_bit 15 c') n"
        using b [of "n + 16"] by (auto simp: bit_take_bit_iff bit_fields)
    qed
  qed
  then show "a = a' \<and> p = p' \<and> c = c' \<and> q = q'"
    using assms b [of 15] b [of 31] by (simp add: take_bit_int_eq_self small_def bit_fields)
qed simp

lemma fields_zero: "small a \<Longrightarrow> small c \<Longrightarrow> fields a p c q = 0 \<longleftrightarrow> a = 0 \<and> \<not> p \<and> c = 0 \<and> \<not> q"
  using fields_eq [of a c 0 0 p q False False] by (simp add: fields_int small_def)

lemma fields_or: "fields a p c q OR fields 0 p' 0 q' = fields a (p \<or> p') c (q \<or> q')"
  by (rule bit_word_eqI) (auto simp: bit_or_iff bit_fields)

lemma fields_ors: "fields a p c q OR 0x80000000 = fields a p c True" "fields a p c q OR 0x00008000 = fields a True c q"
  unfolding masks(2,5) keep_def by (simp_all add: fields_or)

lemma fields_arith:
  assumes "small a" "small c"
  shows "small (a + 1) \<Longrightarrow> fields a p c q + 1 = fields (a + 1) p c q"
    "small (c + 1) \<Longrightarrow> fields a p c q + 0x00010000 = fields a p (c + 1) q"
    "small (c + 1) \<Longrightarrow> fields a False c q + 0x00018000 = fields a True (c + 1) q"
    "1 \<le> a \<Longrightarrow> small (c + 1) \<Longrightarrow> fields a False c q + 0x00017FFF = fields (a - 1) True (c + 1) q"
    "1 \<le> a \<Longrightarrow> fields a p c q + 0xFFFFFFFF = fields (a - 1) p c q"
    "1 \<le> c \<Longrightarrow> fields a p c q + 0xFFFF0000 = fields a p (c - 1) q"
    "fields a True c q + 0xFFFF8000 = fields a False c q"
    "fields a p c True - 0x80000000 = fields a p c False"
    "fields a True c q - 0x00008000 = fields a False c q"
proof -
  have k: "(0xFFFFFFFF :: ULONG) = word_of_int (- 1)" "(0xFFFF0000 :: ULONG) = word_of_int (- 0x10000)"
    "(0xFFFF8000 :: ULONG) = word_of_int (- 0x8000)"
    by simp_all
  have dec: "1 \<le> a \<Longrightarrow> small (a - 1)" "1 \<le> c \<Longrightarrow> small (c - 1)"
    using assms by (auto simp: small_def)
  show "small (a + 1) \<Longrightarrow> fields a p c q + 1 = fields (a + 1) p c q"
    "small (c + 1) \<Longrightarrow> fields a p c q + 0x00010000 = fields a p (c + 1) q"
    "small (c + 1) \<Longrightarrow> fields a False c q + 0x00018000 = fields a True (c + 1) q"
    "1 \<le> a \<Longrightarrow> small (c + 1) \<Longrightarrow> fields a False c q + 0x00017FFF = fields (a - 1) True (c + 1) q"
    "fields a p c True - 0x80000000 = fields a p c False"
    "fields a True c q - 0x00008000 = fields a False c q"
    using assms dec by (simp_all add: fields_int algebra_simps)
  show "1 \<le> a \<Longrightarrow> fields a p c q + 0xFFFFFFFF = fields (a - 1) p c q"
    "1 \<le> c \<Longrightarrow> fields a p c q + 0xFFFF0000 = fields a p (c - 1) q"
    "fields a True c q + 0xFFFF8000 = fields a False c q"
    unfolding k using assms dec by (simp_all only: fields_int wi_hom_add) (simp_all add: algebra_simps)
qed

lemma small_0 [simp]: "small 0"
  by (simp add: small_def)

lemma fields_eq_consts:
  "fields 0 p 0 q = 0x80000000 \<longleftrightarrow> \<not> p \<and> q" "fields 0 p 0 q = 0x00008000 \<longleftrightarrow> p \<and> \<not> q"
  unfolding masks(2,5) keep_def by (auto simp: fields_eq)

lemma fields_values:
  "small a \<Longrightarrow> fields a False 0 False = word_of_int a" "small c \<Longrightarrow> drop_bit 16 (fields 0 False c False) = word_of_int c"
  "small a \<Longrightarrow> uint (word_of_int a :: ULONG) = a" "small a \<Longrightarrow> unat (word_of_int a :: ULONG) = nat a"
proof -
  show a: "small a \<Longrightarrow> fields a False 0 False = word_of_int a" for a
    by (simp add: fields_int)
  show "small c \<Longrightarrow> drop_bit 16 (fields 0 False c False) = word_of_int c"
    unfolding a [symmetric] by (rule bit_word_eqI) (auto simp: bit_drop_bit_eq bit_fields)
  show u: "small a \<Longrightarrow> uint (word_of_int a :: ULONG) = a"
    by (simp add: uint_word_of_int small_def)
  show "small a \<Longrightarrow> unat (word_of_int a :: ULONG) = nat a"
    using u by (simp add: unat_eq_nat_uint)
qed

lemma field_small_zero: "small a \<Longrightarrow> (word_of_int a :: ULONG) = 0 \<longleftrightarrow> a = 0"
  using fields_values(3) [of a] by (metis uint_0_iff of_int_0)

lemma bit_tests:
  assumes "small a" "small c"
  shows "fields a p c q AND 0x00008000 = 0 \<longleftrightarrow> \<not> p" "fields a p c q AND 0x80000000 = 0 \<longleftrightarrow> \<not> q"
    "fields a p c q AND 0x0000FFFF = 0 \<longleftrightarrow> \<not> p \<and> a = 0" "fields a p c q AND 0x00007FFF = 0 \<longleftrightarrow> a = 0"
    "fields a p c q AND 0x7FFF0000 = 0 \<longleftrightarrow> c = 0"
    "fields a p c q AND 0x80008000 = 0x00008000 \<longleftrightarrow> p \<and> \<not> q" "fields a p c q AND 0x80008000 = 0x80000000 \<longleftrightarrow> q \<and> \<not> p"
    "drop_bit 16 (fields a p c q) AND 0x7FFF = word_of_int c" "fields a p c q AND 0x00007FFF = word_of_int a"
proof -
  have "drop_bit 16 (fields a p c q) AND 0x7FFF = drop_bit 16 (fields a p c q AND 0x7FFF0000)"
    by simp
  also have "\<dots> = word_of_int c"
    unfolding fields_masks using assms by (simp add: fields_values)
  finally show "drop_bit 16 (fields a p c q) AND 0x7FFF = word_of_int c" .
qed (use assms in \<open>auto simp: fields_masks fields_eq_consts fields_zero fields_values field_small_zero\<close>)

end
