(* ===== verification/Lock_Words.thy ===== *)
theory Lock_Words
  imports Group_Locks Control_Words
begin

text \<open>
  What the operations of the two locks do to the fields of their control word.
\<close>

unbundle bit_operations_syntax

lemma sar31_bit: "sar31 w = (if bit w 31 then - 1 else 0)"
proof (rule bit_word_eqI)
  fix n
  show "bit (sar31 w) n \<longleftrightarrow> bit (if bit w 31 then - 1 else 0 :: ULONG) n" if "n < LENGTH(32)"
    using that by (cases "n = 0") (auto simp: sar31_def bit_signed_drop_bit_iff)
qed

lemma borrow15: "small c \<Longrightarrow> bit (fields 0 False c q + 0xFFFFFFFF) 15"
proof -
  assume c: "small c"
  define y where "y = c + 0x8000 * of_bool q"
  have "fields 0 False c q + 0xFFFFFFFF = word_of_int (0x10000 * y) + word_of_int (- 1)"
    using c by (simp add: fields_int y_def)
  also have "\<dots> = word_of_int (0x10000 * y - 1)"
    by (simp only: wi_hom_add) simp
  finally have w: "fields 0 False c q + 0xFFFFFFFF = word_of_int (0x10000 * y - 1)" .
  have "(0x10000 * y - 1) div 2 ^ 15 = 2 * y - 1"
    by (rule int_div_pos_eq [where r = "0x7FFF"]) (simp_all add: algebra_simps)
  then have "bit (0x10000 * y - 1) 15"
    by (simp add: bit_iff_odd)
  then show ?thesis
    unfolding w bit_word_of_int_iff by simp
qed

lemma borrow31: "small a \<Longrightarrow> bit (fields a p 0 False + 0xFFFF0000) 31"
proof -
  assume a: "small a"
  define y where "y = a + 0x8000 * of_bool p"
  have y: "0 \<le> y" "y < 0x10000"
    using a by (auto simp: small_def y_def)
  have "fields a p 0 False + 0xFFFF0000 = word_of_int y + word_of_int (- 0x10000)"
    using a by (simp add: fields_int y_def)
  also have "\<dots> = word_of_int (y - 0x10000)"
    by (simp only: wi_hom_add) simp
  finally have w: "fields a p 0 False + 0xFFFF0000 = word_of_int (y - 0x10000)" .
  have "(y - 0x10000) div 2 ^ 31 = - 1"
    using y by (intro int_div_pos_eq [where r = "y - 0x10000 + 2 ^ 31"]) simp_all
  then have "bit (y - 0x10000) 31"
    by (simp add: bit_iff_odd)
  then show ?thesis
    unfolding w bit_word_of_int_iff by simp
qed

lemma word_and_bit: "w AND 2 ^ n = (if bit w n then 2 ^ n else 0)" for w :: ULONG
  by (rule bit_word_eqI) (auto simp: bit_and_iff bit_exp_iff)

lemma top_bits: "w AND 0x80000000 = (if bit w 31 then 0x80000000 else 0)" "w AND 0x00008000 = (if bit w 15 then 0x00008000 else 0)"
  for w :: ULONG
  using word_and_bit [of w 31] word_and_bit [of w 15] by simp_all

lemma halves:
  "bit (push_bit 16 w) 31 = bit w 15" "bit (drop_bit 16 w) 15 = bit w 31" for w :: ULONG
  by (simp_all add: bit_push_bit_iff bit_drop_bit_eq)

lemma enter1_fields:
  assumes "small a" "small c" "small (a + 1)"
  shows "enter1_cwAI (fields a p c q) = fields (a + 1) p (if q then c else 0) True"
proof -
  have "fields a p c q AND (sar31 (fields a p c q) OR 0x0000FFFF) = fields a p (if q then c else 0) q"
    by (cases q) (simp_all add: sar31_bit bit_fields fields_masks)
  then show ?thesis
    using assms by (simp add: enter1_cwAI_def fields_ors fields_arith(1))
qed

lemma enter2_fields:
  assumes "small a" "small c" "small (c + 1)"
  shows "enter2_cwAI (fields a p c q) = fields (if p then a else 0) True (c + 1) q"
proof -
  have "fields a p c q AND (sar31 (push_bit 16 (fields a p c q)) OR 0xFFFF0000) = fields (if p then a else 0) p c q"
    by (cases p) (simp_all add: sar31_bit halves bit_fields fields_masks)
  then show ?thesis
    using assms by (simp add: enter2_cwAI_def fields_ors fields_arith(2))
qed

lemma enterR_fields:
  assumes "small a" "small c" "small (c + 1)" "q \<and> \<not> p \<longrightarrow> 1 \<le> a"
  shows "enterR_cwAI (fields a p c q) = fields (if q \<and> \<not> p then a - 1 else a) True (c + 1) q"
  using assms unfolding enterR_cwAI_def fields_masks fields_eq_consts
  by (auto simp: fields_arith(3,4))

lemma leave1_fields:
  assumes "small a" "small c" "1 \<le> a" "q"
  shows "leave1_cwAI (fields a False c q) = fields (a - 1) False c (a \<noteq> 1)"
proof -
  have s: "small (a - 1)"
    using assms by (auto simp: small_def)
  have "bit (fields (a - 1) False c q + 0xFFFFFFFF) 15 \<longleftrightarrow> a = 1"
  proof (cases "a = 1")
    case False
    then have "fields (a - 1) False c q + 0xFFFFFFFF = fields (a - 1 - 1) False c q"
      using fields_arith(5) [OF s assms(2)] assms(3) by simp
    then show ?thesis
      using False by (simp add: bit_fields)
  qed (use borrow15 [OF assms(2)] in simp)
  then show ?thesis
    using assms s fields_arith(5) [OF assms(1,2,3)] fields_arith(8) [OF small_0 assms(2)]
    by (simp add: leave1_cwAI_def top_bits halves)
qed

lemma high_borrow:
  assumes "small a" "small c"
  shows "bit (fields a p c False + 0xFFFF0000) 31 \<longleftrightarrow> c = 0"
proof (cases "c = 0")
  case False
  then have "fields a p c False + 0xFFFF0000 = fields a p (c - 1) False"
    using fields_arith(6) [OF assms] assms(2) by (simp add: small_def)
  then show ?thesis
    using False by (simp add: bit_fields)
qed (use borrow31 [OF assms(1)] in simp)

lemma leave2_fields:
  assumes "small a" "small c" "1 \<le> c" "p"
  shows "leave2_cwAI (fields a p c False) = fields a (c \<noteq> 1) (c - 1) False"
    "leaveR_cwAI (fields a p c False) = fields a (c \<noteq> 1) (c - 1) False"
proof -
  have s: "small (c - 1)"
    using assms by (auto simp: small_def)
  have d: "fields a p c False + 0xFFFF0000 = fields a p (c - 1) False"
    by (rule fields_arith(6) [OF assms(1-3)])
  show "leave2_cwAI (fields a p c False) = fields a (c \<noteq> 1) (c - 1) False"
    using assms(4) high_borrow [OF assms(1) s] fields_arith(9) [OF assms(1) small_0] d
    by (simp add: leave2_cwAI_def top_bits halves)
  have e: "fields a p c False + 0xFFFE0000 = fields a p (c - 1) False + 0xFFFF0000"
    unfolding d [symmetric] by (simp add: add.assoc)
  show "leaveR_cwAI (fields a p c False) = fields a (c \<noteq> 1) (c - 1) False"
    unfolding leaveR_cwAI_def sar31_bit e d using assms(4) high_borrow [OF assms(1) s] fields_arith(7) [OF assms(1) small_0]
    by simp
qed

lemma handover1_fields:
  assumes "small a" "small c"
  shows "handover1_cwAI (fields a True c True) = (if a = 0 then fields 0 True c False else fields a True 0 True)"
proof -
  have w: "fields a True c True + 0xFFFF7FFF = fields a False c True + 0xFFFFFFFF"
    unfolding fields_arith(7) [OF assms, symmetric] by (simp add: add.assoc)
  have "bit (fields a False c True + 0xFFFFFFFF) 15 \<longleftrightarrow> a = 0"
  proof (cases "a = 0")
    case False
    then have "fields a False c True + 0xFFFFFFFF = fields (a - 1) False c True"
      using fields_arith(5) [OF assms] assms(1) by (simp add: small_def)
    then show ?thesis
      using False by (simp add: bit_fields)
  qed (use borrow15 [OF assms(2)] in simp)
  then show ?thesis
    by (simp add: handover1_cwAI_def sar31_bit halves w fields_masks)
qed

lemma handover2_fields:
  assumes "small a" "small c"
  shows "handover2_cwAI (fields a True c True) = (if c = 0 then fields a False 0 True else fields 0 True c True)"
    "1 \<le> a \<Longrightarrow> handoverR_cwAI (fields a True c True) = (if c = 0 then fields a False 0 True else fields (a - 1) True c True)"
proof -
  have "fields a True c True + 0x7FFF0000 = fields a True c True - 0x80000000 + 0xFFFF0000"
    by simp
  then have w: "fields a True c True + 0x7FFF0000 = fields a True c False + 0xFFFF0000"
    by (simp only: fields_arith(8) [OF assms])
  show "handover2_cwAI (fields a True c True) = (if c = 0 then fields a False 0 True else fields 0 True c True)"
    unfolding handover2_cwAI_def w using high_borrow [OF assms, of True] by (simp add: sar31_bit fields_masks)
  show "handoverR_cwAI (fields a True c True) = (if c = 0 then fields a False 0 True else fields (a - 1) True c True)" if "1 \<le> a"
    using that assms fields_arith(5) [OF assms] fields_arith(7) [OF assms(1) small_0] by (simp add: handoverR_cwAI_def fields_masks fields_zero)
qed

section \<open>What the operations do to the fields\<close>

text \<open>Group 1 owns the reader-writer lock one thread at a time.\<close>

definition exclusive :: "lock_kind \<Rightarrow> bool" where
  "exclusive K \<longleftrightarrow> K = ReaderWriterLock"

lemma masked:
  "fields a p c q = w AND 0xFFFF7FFF \<Longrightarrow> \<not> p" "fields a p c q = w AND 0x7FFFFFFF \<Longrightarrow> \<not> q"
  "fields a p c q = w AND 0xFFFF0000 \<Longrightarrow> small a \<Longrightarrow> \<not> p \<and> a = 0"
proof -
  show "fields a p c q = w AND 0xFFFF7FFF \<Longrightarrow> \<not> p"
    using bit_fields [of a p c q 15] by (auto simp: bit_and_iff)
  show "fields a p c q = w AND 0x7FFFFFFF \<Longrightarrow> \<not> q"
    using bit_fields [of a p c q 31] by (auto simp: bit_and_iff)
  assume e: "fields a p c q = w AND 0xFFFF0000" and a: "small a"
  have "fields a p c q AND 0x0000FFFF = w AND (0xFFFF0000 AND 0x0000FFFF)"
    unfolding e by (rule and.assoc)
  then have "fields a p 0 False = 0"
    by (simp add: fields_masks)
  then show "\<not> p \<and> a = 0"
    using a by (simp add: fields_zero)
qed

text \<open>A word whose fields can grow by one.\<close>

definition roomy :: "int \<Rightarrow> int \<Rightarrow> bool" where
  "roomy a c \<longleftrightarrow> 0 \<le> a \<and> a < 0x7FFF \<and> 0 \<le> c \<and> c < 0x7FFF"

lemma roomyD: "roomy a c \<Longrightarrow> small a \<and> small c \<and> small (a + 1) \<and> small (c + 1)"
  by (simp add: roomy_def small_def)

lemma roomy_small: "roomy a c \<Longrightarrow> small a" "roomy a c \<Longrightarrow> small c"
  by (simp_all add: roomy_def small_def)

lemmas call_defs = CompareExchange_def Let_def slow_Enter1_def slow_Enter2_def slow_EnterAsWriter_def slow_EnterAsReader_def

lemma xor_or_zero: "(u XOR v) OR y = 0 \<longleftrightarrow> u = v \<and> y = 0" for u :: ULONG
proof -
  have "u = v" if "u XOR v = 0"
    using that xor.assoc [of u v v] by simp
  then show ?thesis
    by (auto simp: or_eq_0_iff)
qed

lemma Enter1_fields:
  assumes "lock_call K (Enter Group1) w x s = Some (s', acts, r)" "m_cw s = fields a p c q" "roomy a c"
  shows "s' = s\<lparr>m_cw := fields (a + 1) p (if q then c else 0) True\<rparr> \<and> r = (if p \<or> exclusive K \<and> a \<noteq> 0 then MustWait else Entered)
    \<and> acts = (if p \<and> \<not> q then [UpdateOwner Group2 (word_of_int c)] else [])"
proof -
  have x: "x = fields a p c q"
    using assms(1,2) by (cases K) (auto simp: Enter1_def EnterAsWriter_def CompareExchange_def Let_def xor_or_zero split: if_splits)
  have w: "enter1_cwAI (fields a p c q) = fields (a + 1) p (if q then c else 0) True" for p q
    using roomyD [OF assms(3)] by (simp add: enter1_fields)
  show ?thesis
    using assms(1) w
    by (cases K; cases p; cases q)
      (auto simp: x Enter1_def EnterAsWriter_def call_defs assms(2) bit_tests [OF roomy_small [OF assms(3)]] exclusive_def split: if_splits)
qed

lemma TryEnter1_fields:
  assumes "lock_call K (TryEnter Group1) w x s = Some (s', acts, r)" "m_cw s = fields a p c q" "roomy a c"
  shows "acts = [] \<and> (s' = s \<and> r = Failed
    \<or> \<not> p \<and> (exclusive K \<longrightarrow> a = 0) \<and> s' = s\<lparr>m_cw := fields (a + 1) p (if q then c else 0) True\<rparr> \<and> r = Entered)"
proof -
  define e where "e = x AND (if exclusive K then 0xFFFF0000 else 0xFFFF7FFF)"
  have w: "enter1_cwAI (fields a p c q) = fields (a + 1) p (if q then c else 0) True"
    using roomyD [OF assms(3)] by (simp add: enter1_fields)
  have m: "fields a p c q = e \<Longrightarrow> \<not> p \<and> (exclusive K \<longrightarrow> a = 0)"
    using masked(1,3) [of a p c q x] roomyD [OF assms(3)] by (auto simp: e_def split: if_splits)
  have "acts = [] \<and> (s' = s \<and> r = Failed \<or> fields a p c q = e \<and> s' = s\<lparr>m_cw := enter1_cwAI e\<rparr> \<and> r = Entered)"
    using assms(1,2)
    by (cases K) (auto simp: FTryEnter1_def FTryEnterAsWriter_def CompareExchange_def Let_def exclusive_def e_def split: if_splits)
  then show ?thesis
    using m w by auto
qed

lemma Enter2_fields:
  assumes "lock_call K (Enter Group2) w x s = Some (s', acts, r)" "m_cw s = fields a p c q" "roomy a c" "q \<and> \<not> p \<longrightarrow> 1 \<le> a"
  shows "s' = s\<lparr>m_cw := fields (if q \<and> \<not> p then if exclusive K then a - 1 else 0 else if p \<or> exclusive K then a else 0) True (c + 1) q\<rparr>
    \<and> r = (if q then MustWait else Entered)
    \<and> acts = (if q \<and> \<not> p then [UpdateOwner Group1 (if exclusive K then 1 else word_of_int a)] else [])"
proof -
  have x: "x = fields a p c q"
    using assms(1,2) by (cases K) (auto simp: Enter2_def EnterAsReader_def CompareExchange_def Let_def xor_or_zero split: if_splits)
  have w: "enter2_cwAI (fields a p c q) = fields (if p then a else 0) True (c + 1) q"
    "enterR_cwAI (fields a p c q) = fields (if q \<and> \<not> p then a - 1 else a) True (c + 1) q"
    using roomyD [OF assms(3)] assms(4) by (simp_all add: enter2_fields enterR_fields)
  show ?thesis
    using assms(1) w
    by (cases K; cases p; cases q)
      (auto simp: x Enter2_def EnterAsReader_def call_defs assms(2) bit_tests [OF roomy_small [OF assms(3)]] exclusive_def)
qed

lemma TryEnter2_fields:
  assumes "lock_call K (TryEnter Group2) w x s = Some (s', acts, r)" "m_cw s = fields a p c q" "roomy a c"
  shows "acts = [] \<and> (s' = s \<and> r = Failed
    \<or> \<not> q \<and> s' = s\<lparr>m_cw := fields (if p \<or> exclusive K then a else 0) True (c + 1) q\<rparr> \<and> r = Entered)"
proof -
  define e where "e = x AND 0x7FFFFFFF"
  have m: "fields a p c q = e \<Longrightarrow> \<not> q"
    using masked(2) [of a p c q x] by (auto simp: e_def)
  have w: "enter2_cwAI (fields a p c q) = fields (if p then a else 0) True (c + 1) q"
    "\<not> q \<Longrightarrow> enterR_cwAI (fields a p c q) = fields a True (c + 1) q"
    using roomyD [OF assms(3)] by (simp_all add: enter2_fields enterR_fields)
  have "acts = [] \<and> (s' = s \<and> r = Failed
      \<or> fields a p c q = e \<and> s' = s\<lparr>m_cw := (if exclusive K then enterR_cwAI e else enter2_cwAI e)\<rparr> \<and> r = Entered)"
    using assms(1,2)
    by (cases K) (auto simp: FTryEnter2_def FTryEnterAsReader_def CompareExchange_def Let_def exclusive_def e_def split: if_splits)
  then show ?thesis
    using m w by (cases "exclusive K") auto
qed

lemma Leave1_fields:
  assumes "lock_call K (Leave Group1) w x s = Some (s', acts, r)" "m_cw s = fields a p c q" "roomy a c" "\<not> p \<longrightarrow> q \<and> 1 \<le> a"
  shows "p \<and> s' = s \<and> acts = [UpdateOwner Group1 (- 1)]
    \<or> \<not> p \<and> s' = s\<lparr>m_cw := fields (a - 1) False c (a \<noteq> 1)\<rparr> \<and> acts = (if exclusive K \<and> a \<noteq> 1 then [Release Group1 1] else [])"
proof -
  define e where "e = x AND 0xFFFF7FFF"
  have m: "fields a p c q = e \<Longrightarrow> \<not> p"
    using masked(1) [of a p c q x] by (auto simp: e_def)
  have w: "\<not> p \<Longrightarrow> leave1_cwAI (fields a p c q) = fields (a - 1) False c (a \<noteq> 1)"
    using roomyD [OF assms(3)] assms(4) leave1_fields [of a c q] by simp
  have z: "fields (a - 1) False c (a \<noteq> 1) AND 0x00007FFF = 0 \<longleftrightarrow> a = 1" if "\<not> p"
    using assms(3,4) that bit_tests(4) [of "a - 1" c] by (simp add: roomy_def small_def)
  have "(s' = s \<and> m_cw s AND 0x00008000 \<noteq> 0 \<and> acts = [UpdateOwner Group1 (- 1)])
      \<or> fields a p c q = e \<and> s' = s\<lparr>m_cw := leave1_cwAI e\<rparr>
         \<and> acts = (if exclusive K \<and> leave1_cwAI e AND 0x00007FFF \<noteq> 0 then [Release Group1 1] else [])"
    using assms(1,2)
    by (cases K) (auto simp: Leave1_def LeaveAsWriter_def CompareExchange_def Let_def exclusive_def e_def split: if_splits)
  then show ?thesis
    using m w z bit_tests(1) [OF roomy_small [OF assms(3)], of p q] assms(2) by (cases p) auto
qed

lemma Leave2_fields:
  assumes "lock_call K (Leave Group2) w x s = Some (s', acts, r)" "m_cw s = fields a p c q" "roomy a c" "\<not> q \<longrightarrow> p \<and> 1 \<le> c"
  shows "q \<and> s' = s \<and> acts = [UpdateOwner Group2 (- 1)]
    \<or> \<not> q \<and> s' = s\<lparr>m_cw := fields a (c \<noteq> 1) (c - 1) False\<rparr> \<and> acts = []"
proof -
  define e where "e = x AND 0x7FFFFFFF"
  have m: "fields a p c q = e \<Longrightarrow> \<not> q"
    using masked(2) [of a p c q x] by (auto simp: e_def)
  have w: "\<not> q \<Longrightarrow> leave2_cwAI (fields a p c q) = fields a (c \<noteq> 1) (c - 1) False"
    "\<not> q \<Longrightarrow> leaveR_cwAI (fields a p c q) = fields a (c \<noteq> 1) (c - 1) False"
    using roomyD [OF assms(3)] assms(4) leave2_fields [of a c p] by simp_all
  have "(s' = s \<and> m_cw s AND 0x80000000 \<noteq> 0 \<and> acts = [UpdateOwner Group2 (- 1)])
      \<or> fields a p c q = e \<and> s' = s\<lparr>m_cw := (if exclusive K then leaveR_cwAI e else leave2_cwAI e)\<rparr> \<and> acts = []"
    using assms(1,2)
    by (cases K) (auto simp: Leave2_def LeaveAsReader_def CompareExchange_def Let_def exclusive_def e_def split: if_splits)
  then show ?thesis
    using m w bit_tests(2) [OF roomy_small [OF assms(3)], of p q] assms(2) by (cases q) auto
qed

lemma handover_fields:
  assumes "handover K g x s = Some (s', acts)" "m_cw s = fields a True c True" "roomy a c" "1 \<le> a \<or> g = Group1"
  shows "g = Group1 \<Longrightarrow> s' = s\<lparr>m_cw := (if a = 0 then fields 0 True c False else fields a True 0 True)\<rparr>
      \<and> acts = (if a = 0 then [] else [AddOwner Group2 (word_of_int c)]) @ [Release Group2 (nat c)]"
    "g = Group2 \<Longrightarrow> s' = s\<lparr>m_cw := (if c = 0 then fields a False 0 True else fields (if exclusive K then a - 1 else 0) True c True)\<rparr>
      \<and> acts = (if c = 0 then [] else [AddOwner Group1 (if exclusive K then 1 else word_of_int a)]) @ [Release Group1 (if exclusive K then 1 else nat a)]"
proof -
  have x: "x = fields a True c True"
    using assms(1,2) by (cases K; cases g) (auto simp: UpdateQuiescedOwnerCountAsGroup1_def UpdateQuiescedOwnerCountAsGroup2_def
        UpdateQuiescedOwnerCountAsWriter_def UpdateQuiescedOwnerCountAsReader_def CompareExchange_def Let_def split: if_splits)
  have s: "small a" "small c"
    using roomyD [OF assms(3)] by auto
  have v: "unat (word_of_int c :: ULONG) = nat c" "unat (word_of_int a :: ULONG) = nat a"
    using fields_values(4) s by auto
  have w: "handover1_cwAI (fields a True c True) = (if a = 0 then fields 0 True c False else fields a True 0 True)"
    "handover2_cwAI (fields a True c True) = (if c = 0 then fields a False 0 True else fields 0 True c True)"
    "g = Group2 \<Longrightarrow> handoverR_cwAI (fields a True c True) = (if c = 0 then fields a False 0 True else fields (a - 1) True c True)"
    using handover1_fields [OF s] handover2_fields [OF s] assms(4) by auto
  note B = bit_tests(4,5,8) [OF roomy_small [OF assms(3)]]
  have B9: "fields a True c True AND 0x00007FFF = word_of_int a"
    using bit_tests(9) [OF roomy_small [OF assms(3)]] .
  show "s' = s\<lparr>m_cw := (if a = 0 then fields 0 True c False else fields a True 0 True)\<rparr>
      \<and> acts = (if a = 0 then [] else [AddOwner Group2 (word_of_int c)]) @ [Release Group2 (nat c)]" if "g = Group1"
    using assms(1) that w(1) B v unfolding x
    by (cases K; cases "a = 0")
      (auto simp: UpdateQuiescedOwnerCountAsGroup1_def UpdateQuiescedOwnerCountAsWriter_def CompareExchange_def Let_def assms(2))
  show "s' = s\<lparr>m_cw := (if c = 0 then fields a False 0 True else fields (if exclusive K then a - 1 else 0) True c True)\<rparr>
      \<and> acts = (if c = 0 then [] else [AddOwner Group1 (if exclusive K then 1 else word_of_int a)]) @ [Release Group1 (if exclusive K then 1 else nat a)]"
    if "g = Group2"
    using assms(1) that w(2) w(3) [OF that] B(2) B9 v unfolding x
    by (cases K; cases "c = 0")
      (auto simp: UpdateQuiescedOwnerCountAsGroup2_def UpdateQuiescedOwnerCountAsReader_def CompareExchange_def Let_def assms(2) exclusive_def)
qed

end
