(* ===== verification/Lock_Books.thy ===== *)
theory Lock_Books
  imports Lock_Words Thread_Counts
begin

text \<open>
  The books of the two locks: what each thread contributes to its group, the invariant that relates these numbers to the
  control word, the owner count and the semaphores, and how every move of a thread keeps it.
\<close>

section \<open>Counting threads\<close>

text \<open>
  What a thread contributes to a group: it owns it, waits for it, is about to release counts to it, to leave its quiesced
  period (\<open>Leaving\<close>), to add its owners to \<open>m_cOwner\<close> at the start of such a period (\<open>Upd\<close>, the number of such threads
  is \<open>NUpd\<close>) or at a handover (\<open>Add\<close> and \<open>NAdd\<close>), or to hand the lock over.
\<close>

datatype fld = Own | Wait | Rel | Leaving | Upd | NUpd | Add | NAdd | Hand

fun weight :: "group \<Rightarrow> fld \<Rightarrow> lock_thread \<Rightarrow> int" where
  "weight g Own p = of_bool (fst p = Owns g)"
| "weight g Wait p = of_bool (fst p = Waits g)"
| "weight g Rel p = (case snd p of Release h n # _ \<Rightarrow> if h = g then int n else 0 | _ \<Rightarrow> 0)"
| "weight g Leaving p = (case snd p of UpdateOwner h d # _ \<Rightarrow> of_bool (h = g \<and> d = - 1) | _ \<Rightarrow> 0)"
| "weight g Upd p = (case snd p of UpdateOwner h d # _ \<Rightarrow> if h = g \<and> d \<noteq> - 1 then uint d else 0 | _ \<Rightarrow> 0)"
| "weight g NUpd p = (case snd p of UpdateOwner h d # _ \<Rightarrow> of_bool (h = g \<and> d \<noteq> - 1) | _ \<Rightarrow> 0)"
| "weight g Add p = (case snd p of AddOwner h d # _ \<Rightarrow> if h = g then uint d else 0 | _ \<Rightarrow> 0)"
| "weight g NAdd p = (case snd p of AddOwner h d # _ \<Rightarrow> of_bool (h = g) | _ \<Rightarrow> 0)"
| "weight g Hand p = (case snd p of Handover h # _ \<Rightarrow> of_bool (h = g) | _ \<Rightarrow> 0)"

definition totals :: "nat set \<Rightarrow> (nat \<Rightarrow> lock_thread) \<Rightarrow> group \<Rightarrow> fld \<Rightarrow> int" where
  "totals T th g f = tot (weight g f) T th"

lemma lock_weight_nonneg: "0 \<le> weight g f p"
  by (cases f) (auto split: list.splits lock_action.splits)

lemma totals_move:
  assumes "finite T" "t \<in> T"
  shows "totals T (th(t := p)) g = (\<lambda>f. totals T th g f + (weight g f p - weight g f (th t)))"
  by (rule ext) (simp add: totals_def tot_upd [OF assms])

section \<open>The invariant\<close>

text \<open>
  The four situations of a group with the number \<open>f\<close> in its field of the control word and \<open>s\<close> counts in its semaphore: nobody is there;
  threads wait and nothing else; the group owns the lock; or the group is quiesced and its period ends,
  with \<open>k\<close> in \<open>m_cOwner\<close>. \<open>x\<close> says that the group owns the lock one thread at a time.
\<close>

definition absent :: "(fld \<Rightarrow> int) \<Rightarrow> int \<Rightarrow> int \<Rightarrow> bool" where
  "absent G s f \<longleftrightarrow> f = 0 \<and> s = 0 \<and> G Own = 0 \<and> G Wait = 0 \<and> G Rel = 0 \<and> G Leaving = 0 \<and> G NUpd = 0 \<and> G NAdd = 0 \<and> G Hand = 0"

definition queued :: "(fld \<Rightarrow> int) \<Rightarrow> int \<Rightarrow> int \<Rightarrow> bool" where
  "queued G s f \<longleftrightarrow> 1 \<le> f \<and> s = 0 \<and> G Own = 0 \<and> G Wait = f \<and> G Rel = 0 \<and> G Leaving = 0 \<and> G NUpd = 0 \<and> G NAdd = 0 \<and> G Hand = 0"

definition active :: "bool \<Rightarrow> (fld \<Rightarrow> int) \<Rightarrow> int \<Rightarrow> int \<Rightarrow> bool" where
  "active x G s f \<longleftrightarrow> 1 \<le> f \<and> f = G Own + G Wait \<and> (if x then G Own + s + G Rel = 1 else G Wait = s + G Rel)
     \<and> G Leaving = 0 \<and> G NUpd = 0 \<and> G NAdd = 0 \<and> G Hand = 0"

definition ending :: "bool \<Rightarrow> (fld \<Rightarrow> int) \<Rightarrow> int \<Rightarrow> int \<Rightarrow> int \<Rightarrow> bool" where
  "ending x G s f k \<longleftrightarrow> 0 \<le> f \<and> G Wait = f + s + G Rel + G Add \<and> k + G Upd = G Own + s + G Rel + G Leaving \<and> G NUpd \<le> 1
     \<and> (x \<longrightarrow> G Own + s + G Rel + G Leaving + G Add \<le> 1) \<and> (G NUpd = 1 \<longrightarrow> k \<le> 0)
     \<and> G NAdd \<le> 1 \<and> (G NAdd = 1 \<longrightarrow> G Own + s + G Rel + G Leaving = 0 \<and> G NUpd = 0)
     \<and> G Hand = of_bool (G NUpd = 0 \<and> G Own + s + G Rel + G Leaving + G Add = 0)"

definition phase :: "bool \<Rightarrow> int \<Rightarrow> bool \<Rightarrow> int \<Rightarrow> bool \<Rightarrow> int \<Rightarrow> int \<Rightarrow> int \<Rightarrow> (fld \<Rightarrow> int) \<Rightarrow> (fld \<Rightarrow> int) \<Rightarrow> bool" where
  "phase x a p c q k s1 s2 G1 G2 \<longleftrightarrow>
     (if p \<and> q then ending x G1 s1 a k \<and> queued G2 s2 c \<or> queued G1 s1 a \<and> ending False G2 s2 c k
      else k = 0 \<and> (if p then absent G1 s1 a \<and> active False G2 s2 c
                    else if q then active x G1 s1 a \<and> absent G2 s2 c
                    else absent G1 s1 a \<and> absent G2 s2 c))"

lemmas phase_defs = phase_def absent_def queued_def active_def ending_def

definition sane :: "(fld \<Rightarrow> int) \<Rightarrow> int \<Rightarrow> bool" where
  "sane G s \<longleftrightarrow> 0 \<le> s \<and> 0 \<le> G Own \<and> 0 \<le> G Wait \<and> 0 \<le> G Rel \<and> 0 \<le> G Leaving \<and> 0 \<le> G NUpd \<and> 0 \<le> G NAdd \<and> 0 \<le> G Hand
     \<and> G NUpd \<le> G Upd \<and> G Upd \<le> 0x8000 * G NUpd \<and> G NAdd \<le> G Add \<and> G Add \<le> 0x8000 * G NAdd"

fun wf_actions :: "lock_action list \<Rightarrow> bool" where
  "wf_actions [] \<longleftrightarrow> True"
| "wf_actions [UpdateOwner g d] \<longleftrightarrow> d = - 1 \<or> 0 < uint d \<and> uint d < 0x8000"
| "wf_actions [AddOwner g n, Release h m] \<longleftrightarrow> g = h \<and> uint n = int m \<and> 0 < m \<and> m < 0x8000"
| "wf_actions [Handover g] \<longleftrightarrow> True"
| "wf_actions [Release g m] \<longleftrightarrow> True"
| "wf_actions _ \<longleftrightarrow> False"

definition lock_books :: "lock_kind \<Rightarrow> nat set \<Rightarrow> LockState \<Rightarrow> (nat \<Rightarrow> lock_thread) \<Rightarrow> int \<Rightarrow> bool \<Rightarrow> int \<Rightarrow> bool \<Rightarrow> int \<Rightarrow> bool" where
  "lock_books K T s th a p c q k \<longleftrightarrow> m_cw s = fields a p c q \<and> m_cOwner s = word_of_int k
     \<and> phase (exclusive K) a p c q k (int (m_sem1 s)) (int (m_sem2 s)) (totals T th Group1) (totals T th Group2)
     \<and> (\<forall>t\<in>T. wf_actions (snd (th t)))"

definition lock_inv :: "lock_kind \<Rightarrow> nat set \<Rightarrow> LockState \<times> (nat \<Rightarrow> lock_thread) \<Rightarrow> bool" where
  "lock_inv K T c \<longleftrightarrow> (\<exists>a p e q k. lock_books K T (fst c) (snd c) a p e q k)"

lemma wf_weight:
  assumes "wf_actions (snd p)"
  shows "weight g NUpd p \<le> weight g Upd p" "weight g Upd p \<le> 0x8000 * weight g NUpd p"
    "weight g NAdd p \<le> weight g Add p" "weight g Add p \<le> 0x8000 * weight g NAdd p"
  using assms by (cases "snd p" rule: wf_actions.cases; auto)+

lemma totals_sane:
  assumes "\<forall>t\<in>T. wf_actions (snd (th t))" "0 \<le> s"
  shows "sane (totals T th g) s"
proof -
  have "0 \<le> totals T th g f" for f
    unfolding totals_def by (rule tot_nonneg) (rule lock_weight_nonneg)
  moreover have "totals T th g NUpd \<le> totals T th g Upd" "totals T th g NAdd \<le> totals T th g Add"
    unfolding totals_def by (rule tot_mono, use assms(1) wf_weight in blast)+
  moreover have "tot f T th \<le> 0x8000 * tot h T th" if "\<And>t. t \<in> T \<Longrightarrow> f (th t) \<le> 0x8000 * h (th t)" for f h :: "lock_thread \<Rightarrow> int"
    using tot_mono [of T f th "\<lambda>p. 0x8000 * h p"] that by (simp add: tot_def sum_distrib_left)
  ultimately show ?thesis
    using assms wf_weight by (auto simp: sane_def totals_def)
qed

lemma totals_card:
  "totals T th Group1 Own + totals T th Group1 Wait + totals T th Group2 Own + totals T th Group2 Wait \<le> int (card T)"
  "totals T th g Leaving \<le> int (card T)"
proof -
  have "tot (\<lambda>p. weight Group1 Own p + weight Group1 Wait p + weight Group2 Own p + weight Group2 Wait p) T th \<le> int (card T)"
    by (rule tot_le_card) (case_tac "fst p"; auto)
  then show "totals T th Group1 Own + totals T th Group1 Wait + totals T th Group2 Own + totals T th Group2 Wait \<le> int (card T)"
    by (simp only: totals_def tot_add)
  show "totals T th g Leaving \<le> int (card T)"
    unfolding totals_def by (rule tot_le_card) (auto split: list.splits lock_action.splits)
qed

lemma phase_range:
  assumes "phase x a p c q k s1 s2 G1 G2" "sane G1 s1" "sane G2 s2" "G1 Own + G1 Wait + G2 Own + G2 Wait \<le> N" "G1 Leaving \<le> N" "G2 Leaving \<le> N"
  shows "0 \<le> a" "a \<le> N" "0 \<le> c" "c \<le> N" "- 0x8000 \<le> k" "k \<le> 2 * N"
proof -
  show "0 \<le> a" "a \<le> N" "0 \<le> c" "c \<le> N"
    using assms by (auto simp: phase_defs sane_def split: if_splits)
  show "- 0x8000 \<le> k" "k \<le> 2 * N"
    using assms by (auto simp: phase_defs sane_def split: if_splits)
qed

section \<open>The moves on the books of a group\<close>

text \<open>A thread arrives.\<close>

lemma absent_own: "absent G s f \<Longrightarrow> active x (G(Own := G Own + 1)) s (f + 1)"
  by (auto simp: absent_def active_def)

lemma absent_wait: "absent G s f \<Longrightarrow> queued (G(Wait := G Wait + 1)) s (f + 1)"
  by (auto simp: absent_def queued_def)

lemma active_own: "active False G s f \<Longrightarrow> active False (G(Own := G Own + 1)) s (f + 1)"
  by (auto simp: active_def)

lemma active_wait: "active True G s f \<Longrightarrow> active True (G(Wait := G Wait + 1)) s (f + 1)"
  by (auto simp: active_def)

lemma queued_wait: "queued G s f \<Longrightarrow> queued (G(Wait := G Wait + 1)) s (f + 1)"
  by (auto simp: queued_def)

lemma ending_wait: "ending x G s f k \<Longrightarrow> ending x (G(Wait := G Wait + 1)) s (f + 1) k"
  by (auto simp: ending_def)

text \<open>The group is quiesced: its owners are taken off the control word.\<close>

definition takes :: "bool \<Rightarrow> int \<Rightarrow> int" where
  "takes x f = (if x then 1 else f)"

lemma active_ending:
  "active x G s f \<Longrightarrow> sane G s \<Longrightarrow> ending x (G(Upd := G Upd + takes x f, NUpd := G NUpd + 1)) s (f - takes x f) 0"
  by (auto simp: active_def ending_def sane_def takes_def split: if_splits)

text \<open>An owner leaves.\<close>

lemma active_leave:
  "active False G s f \<Longrightarrow> 1 \<le> G Own \<Longrightarrow> sane G s \<Longrightarrow> if f = 1 then absent (G(Own := G Own - 1)) s (f - 1) else active False (G(Own := G Own - 1)) s (f - 1)"
  "active True G s f \<Longrightarrow> 1 \<le> G Own \<Longrightarrow> sane G s \<Longrightarrow> if f = 1 then absent (G(Own := G Own - 1)) s (f - 1) else active True (G(Own := G Own - 1, Rel := G Rel + 1)) s (f - 1)"
  by (auto simp: active_def absent_def sane_def split: if_splits)

lemma ending_leave: "ending x G s f k \<Longrightarrow> 1 \<le> G Own \<Longrightarrow> sane G s \<Longrightarrow> ending x (G(Own := G Own - 1, Leaving := G Leaving + 1)) s f k"
  by (auto simp: ending_def sane_def)

text \<open>The additions to \<open>m_cOwner\<close>.\<close>

lemma ending_left:
  assumes "ending x G s f k" "1 \<le> G Leaving" "sane G s"
  shows "ending x (G(Leaving := G Leaving - 1, Hand := G Hand + of_bool (k - 1 = 0))) s f (k - 1)"
proof -
  have "G NAdd = 0" "G Add = 0"
    using assms by (auto simp: ending_def sane_def)
  moreover have "G NUpd = 0 \<or> G NUpd = 1" "G NUpd = 0 \<longrightarrow> G Upd = 0"
    using assms by (auto simp: ending_def sane_def)
  ultimately show ?thesis
    using assms by (auto simp: ending_def sane_def)
qed

lemma ending_upd:
  assumes "ending x G s f k" "1 \<le> G NUpd" "sane G s" "sane (G(Upd := G Upd - d, NUpd := G NUpd - 1)) s" "0 \<le> d"
  shows "ending x (G(Upd := G Upd - d, NUpd := G NUpd - 1, Hand := G Hand + of_bool (k + d = 0))) s f (k + d)"
proof -
  have "G NUpd = 1" "G NAdd = 0" "G Add = 0"
    using assms by (auto simp: ending_def sane_def)
  moreover from this have "G Upd = d"
    using assms(4) by (auto simp: sane_def)
  ultimately show ?thesis
    using assms by (auto simp: ending_def sane_def)
qed

lemma ending_add:
  assumes "ending x G s f k" "1 \<le> G NAdd" "sane G s" "sane (G(Add := G Add - d, NAdd := G NAdd - 1)) s" "1 \<le> d"
  shows "ending x (G(Add := G Add - d, NAdd := G NAdd - 1, Rel := G Rel + d)) s f (k + d)"
proof -
  have "G NAdd = 1" "G NUpd = 0" "G Upd = 0"
    using assms by (auto simp: ending_def sane_def)
  moreover from this have "G Add = d"
    using assms(4) by (auto simp: sane_def)
  ultimately show ?thesis
    using assms by (auto simp: ending_def sane_def)
qed

text \<open>Counts are released to the semaphore and taken from it.\<close>

lemma group_release:
  assumes "sane G s" "0 \<le> n" "n \<le> G Rel"
  shows "absent G s f \<Longrightarrow> absent (G(Rel := G Rel - n)) (s + n) f" "queued G s f \<Longrightarrow> queued (G(Rel := G Rel - n)) (s + n) f"
    "active x G s f \<Longrightarrow> active x (G(Rel := G Rel - n)) (s + n) f" "ending x G s f k \<Longrightarrow> ending x (G(Rel := G Rel - n)) (s + n) f k"
proof -
  show "absent G s f \<Longrightarrow> absent (G(Rel := G Rel - n)) (s + n) f" "queued G s f \<Longrightarrow> queued (G(Rel := G Rel - n)) (s + n) f"
    using assms by (auto simp: absent_def queued_def)
  have e: "u + (s + n) + (G Rel - n) = u + s + G Rel" for u
    by simp
  show "active x G s f \<Longrightarrow> active x (G(Rel := G Rel - n)) (s + n) f"
    by (auto simp: active_def e)
  show "ending x G s f k \<Longrightarrow> ending x (G(Rel := G Rel - n)) (s + n) f k"
    by (simp add: ending_def e)
qed

lemma group_wake:
  assumes "sane G s" "1 \<le> s"
  shows "\<not> absent G s f" "\<not> queued G s f" "active x G s f \<Longrightarrow> active x (G(Own := G Own + 1, Wait := G Wait - 1)) (s - 1) f"
    "ending x G s f k \<Longrightarrow> ending x (G(Own := G Own + 1, Wait := G Wait - 1)) (s - 1) f k"
proof -
  show "\<not> absent G s f" "\<not> queued G s f"
    using assms(2) by (auto simp: absent_def queued_def)
  have e: "u + 1 + (s - 1) = u + s" for u
    by simp
  show "active x G s f \<Longrightarrow> active x (G(Own := G Own + 1, Wait := G Wait - 1)) (s - 1) f"
    by (auto simp: active_def e)
  show "ending x G s f k \<Longrightarrow> ending x (G(Own := G Own + 1, Wait := G Wait - 1)) (s - 1) f k"
    by (simp add: ending_def e)
qed

text \<open>The lock is handed over.\<close>

lemma ending_hand:
  assumes "ending x G s f k" "1 \<le> G Hand" "sane G s"
  shows "k = 0" "f = 0 \<Longrightarrow> absent (G(Hand := G Hand - 1)) s f" "f \<noteq> 0 \<Longrightarrow> queued (G(Hand := G Hand - 1)) s f"
proof -
  have e: "G NUpd = 0" "G Own + s + G Rel + G Leaving + G Add = 0" "G Hand = 1"
    using assms(1,2) by (auto simp: ending_def of_bool_def split: if_splits)
  then have z: "G Own = 0" "s = 0" "G Rel = 0" "G Leaving = 0" "G Add = 0" "G NAdd = 0" "G Upd = 0"
    using assms(3) by (auto simp: sane_def)
  then show "k = 0" "f = 0 \<Longrightarrow> absent (G(Hand := G Hand - 1)) s f" "f \<noteq> 0 \<Longrightarrow> queued (G(Hand := G Hand - 1)) s f"
    using assms(1) e by (simp_all add: ending_def absent_def queued_def)
qed

lemma queued_active: "queued G s f \<Longrightarrow> active x (G(Rel := G Rel + takes x f)) s f"
  by (auto simp: queued_def active_def takes_def)

lemma queued_ending: "queued G s f \<Longrightarrow> sane G s \<Longrightarrow> ending x (G(Add := G Add + takes x f, NAdd := G NAdd + 1)) s (f - takes x f) 0"
  by (auto simp: queued_def ending_def takes_def sane_def)

section \<open>The moves on the books of the lock\<close>

lemma absent_field: "absent G s f \<Longrightarrow> f = 0 \<and> absent G s 0"
  by (simp add: absent_def)

lemma active_field: "active x G s f \<Longrightarrow> 1 \<le> f"
  by (simp add: active_def)

lemma phase_enter1:
  assumes "phase x a p c q k s1 s2 G1 G2" "sane G2 s2"
  shows "\<not> p \<Longrightarrow> x \<longrightarrow> a = 0 \<Longrightarrow> phase x (a + 1) p (if q then c else 0) True k s1 s2 (G1(Own := G1 Own + 1)) G2"
    "p \<Longrightarrow> \<not> q \<Longrightarrow> phase x (a + 1) p 0 True k s1 s2 (G1(Wait := G1 Wait + 1)) (G2(Upd := G2 Upd + c, NUpd := G2 NUpd + 1))"
    "p \<Longrightarrow> q \<Longrightarrow> phase x (a + 1) p c True k s1 s2 (G1(Wait := G1 Wait + 1)) G2"
    "\<not> p \<Longrightarrow> x \<Longrightarrow> a \<noteq> 0 \<Longrightarrow> phase x (a + 1) p (if q then c else 0) True k s1 s2 (G1(Wait := G1 Wait + 1)) G2"
proof -
  show "phase x (a + 1) p (if q then c else 0) True k s1 s2 (G1(Own := G1 Own + 1)) G2" if p: "\<not> p" "x \<longrightarrow> a = 0"
  proof (cases q)
    case True
    then have "active x G1 s1 a" "absent G2 s2 c" "k = 0"
      using assms(1) p by (simp_all add: phase_def)
    then show ?thesis
      using True p active_field [of x G1 s1 a] active_own [of G1 s1 a] by (cases x) (simp_all add: phase_def)
  next
    case False
    then have "absent G1 s1 a" "absent G2 s2 c" "k = 0"
      using assms(1) p by (simp_all add: phase_def)
    then show ?thesis
      using False p absent_own [of G1 s1 a x] absent_field [of G2 s2 c] by (simp add: phase_def)
  qed
  show "phase x (a + 1) p 0 True k s1 s2 (G1(Wait := G1 Wait + 1)) (G2(Upd := G2 Upd + c, NUpd := G2 NUpd + 1))" if "p" "\<not> q"
    using assms that absent_wait [of G1 s1 a] active_ending [of False G2 s2 c] by (simp add: phase_def takes_def)
  show "phase x (a + 1) p c True k s1 s2 (G1(Wait := G1 Wait + 1)) G2" if "p" "q"
    using assms(1) that ending_wait [of x G1 s1 a k] queued_wait [of G1 s1 a] by (auto simp: phase_def)
  show "phase x (a + 1) p (if q then c else 0) True k s1 s2 (G1(Wait := G1 Wait + 1)) G2" if "\<not> p" "x" "a \<noteq> 0"
    using assms(1) that active_wait [of G1 s1 a] absent_field [of G1 s1 a] by (cases q) (simp_all add: phase_def)
qed

lemma phase_enter2:
  assumes "phase x a p c q k s1 s2 G1 G2" "sane G1 s1"
  shows "\<not> q \<Longrightarrow> phase x a True (c + 1) q k s1 s2 G1 (G2(Own := G2 Own + 1)) \<and> a = 0"
    "q \<Longrightarrow> \<not> p \<Longrightarrow> phase x (a - takes x a) True (c + 1) q k s1 s2
       (G1(Upd := G1 Upd + takes x a, NUpd := G1 NUpd + 1)) (G2(Wait := G2 Wait + 1))"
    "q \<Longrightarrow> p \<Longrightarrow> phase x a True (c + 1) q k s1 s2 G1 (G2(Wait := G2 Wait + 1))"
proof -
  show "phase x a True (c + 1) q k s1 s2 G1 (G2(Own := G2 Own + 1)) \<and> a = 0" if "\<not> q"
    using assms(1) that absent_own [of G2 s2 c False] active_own [of G2 s2 c] absent_field [of G1 s1 a]
    by (cases p) (simp_all add: phase_def)
  show "phase x (a - takes x a) True (c + 1) q k s1 s2 (G1(Upd := G1 Upd + takes x a, NUpd := G1 NUpd + 1)) (G2(Wait := G2 Wait + 1))"
    if "q" "\<not> p"
    using assms that absent_wait [of G2 s2 c] active_ending [of x G1 s1 a] by (simp add: phase_def)
  show "phase x a True (c + 1) q k s1 s2 G1 (G2(Wait := G2 Wait + 1))" if "q" "p"
    using assms(1) that ending_wait [of False G2 s2 c k] queued_wait [of G2 s2 c] by (auto simp: phase_def)
qed

lemma phase_leave1:
  assumes "phase x a p c q k s1 s2 G1 G2" "sane G1 s1" "1 \<le> G1 Own"
  shows "p \<Longrightarrow> phase x a p c q k s1 s2 (G1(Own := G1 Own - 1, Leaving := G1 Leaving + 1)) G2"
    "\<not> p \<Longrightarrow> q \<and> 1 \<le> a"
    "\<not> p \<Longrightarrow> phase x (a - 1) False c (a \<noteq> 1) k s1 s2 (if x \<and> a \<noteq> 1 then G1(Own := G1 Own - 1, Rel := G1 Rel + 1) else G1(Own := G1 Own - 1)) G2"
proof -
  have no: "\<not> absent G1 s1 a" "\<not> queued G1 s1 a"
    using assms(3) by (auto simp: absent_def queued_def)
  show "phase x a p c q k s1 s2 (G1(Own := G1 Own - 1, Leaving := G1 Leaving + 1)) G2" if "p"
    using assms that no ending_leave [of x G1 s1 a k] by (auto simp: phase_def split: if_splits)
  show "q \<and> 1 \<le> a" if "\<not> p"
    using assms(1) that no active_field [of x G1 s1 a] by (auto simp: phase_def split: if_splits)
  show "phase x (a - 1) False c (a \<noteq> 1) k s1 s2 (if x \<and> a \<noteq> 1 then G1(Own := G1 Own - 1, Rel := G1 Rel + 1) else G1(Own := G1 Own - 1)) G2"
    if "\<not> p"
  proof -
    have P: "active x G1 s1 a" "absent G2 s2 c" "k = 0"
      using assms(1) that no by (auto simp: phase_def split: if_splits)
    show ?thesis
      using P active_leave [of G1 s1 a] assms(2,3) by (cases x; cases "a = 1") (simp_all add: phase_def)
  qed
qed

lemma phase_leave2:
  assumes "phase x a p c q k s1 s2 G1 G2" "sane G2 s2" "1 \<le> G2 Own"
  shows "q \<Longrightarrow> phase x a p c q k s1 s2 G1 (G2(Own := G2 Own - 1, Leaving := G2 Leaving + 1))"
    "\<not> q \<Longrightarrow> p \<and> 1 \<le> c"
    "\<not> q \<Longrightarrow> phase x a (c \<noteq> 1) (c - 1) False k s1 s2 G1 (G2(Own := G2 Own - 1))"
proof -
  have no: "\<not> absent G2 s2 c" "\<not> queued G2 s2 c"
    using assms(3) by (auto simp: absent_def queued_def)
  show "phase x a p c q k s1 s2 G1 (G2(Own := G2 Own - 1, Leaving := G2 Leaving + 1))" if "q"
    using assms that no ending_leave [of False G2 s2 c k] by (auto simp: phase_def split: if_splits)
  show "p \<and> 1 \<le> c" if "\<not> q"
    using assms(1) that no active_field [of False G2 s2 c] by (auto simp: phase_def split: if_splits)
  show "phase x a (c \<noteq> 1) (c - 1) False k s1 s2 G1 (G2(Own := G2 Own - 1))" if "\<not> q"
  proof -
    have P: "absent G1 s1 a" "active False G2 s2 c" "k = 0"
      using assms(1) that no by (auto simp: phase_def split: if_splits)
    show ?thesis
      using P active_leave(1) [of G2 s2 c] assms(2,3) by (cases "c = 1") (simp_all add: phase_def)
  qed
qed

text \<open>The actions of a quiesced group.\<close>

definition busy :: "(fld \<Rightarrow> int) \<Rightarrow> bool" where
  "busy G \<longleftrightarrow> 1 \<le> G Leaving \<or> 1 \<le> G NUpd \<or> 1 \<le> G NAdd \<or> 1 \<le> G Hand"

lemma busy_ending:
  assumes "phase x a p c q k s1 s2 G1 G2"
  shows "busy G1 \<Longrightarrow> p \<and> q \<and> ending x G1 s1 a k \<and> queued G2 s2 c" "busy G2 \<Longrightarrow> p \<and> q \<and> queued G1 s1 a \<and> ending False G2 s2 c k"
proof -
  have no: "busy G \<Longrightarrow> \<not> absent G s f \<and> \<not> queued G s f \<and> \<not> active y G s f" for G s f y
    by (auto simp: busy_def absent_def queued_def active_def)
  show "busy G1 \<Longrightarrow> p \<and> q \<and> ending x G1 s1 a k \<and> queued G2 s2 c"
    using assms no [of G1] unfolding phase_def by (metis (full_types))
  show "busy G2 \<Longrightarrow> p \<and> q \<and> queued G1 s1 a \<and> ending False G2 s2 c k"
    using assms no [of G2] unfolding phase_def by (metis (full_types))
qed

lemma phase_left:
  assumes "phase x a p c q k s1 s2 G1 G2" "sane G1 s1" "sane G2 s2"
  shows "1 \<le> G1 Leaving \<Longrightarrow> phase x a p c q (k - 1) s1 s2 (G1(Leaving := G1 Leaving - 1, Hand := G1 Hand + of_bool (k - 1 = 0))) G2"
    "1 \<le> G2 Leaving \<Longrightarrow> phase x a p c q (k - 1) s1 s2 G1 (G2(Leaving := G2 Leaving - 1, Hand := G2 Hand + of_bool (k - 1 = 0)))"
  using busy_ending [OF assms(1)] ending_left [of x G1 s1 a k] ending_left [of False G2 s2 c k] assms(2,3)
  by (auto simp: phase_def busy_def)

lemma phase_upd:
  assumes "phase x a p c q k s1 s2 G1 G2" "sane G1 s1" "sane G2 s2" "0 \<le> d"
  shows "1 \<le> G1 NUpd \<Longrightarrow> sane (G1(Upd := G1 Upd - d, NUpd := G1 NUpd - 1)) s1 \<Longrightarrow>
      phase x a p c q (k + d) s1 s2 (G1(Upd := G1 Upd - d, NUpd := G1 NUpd - 1, Hand := G1 Hand + of_bool (k + d = 0))) G2"
    "1 \<le> G2 NUpd \<Longrightarrow> sane (G2(Upd := G2 Upd - d, NUpd := G2 NUpd - 1)) s2 \<Longrightarrow>
      phase x a p c q (k + d) s1 s2 G1 (G2(Upd := G2 Upd - d, NUpd := G2 NUpd - 1, Hand := G2 Hand + of_bool (k + d = 0)))"
  using busy_ending [OF assms(1)] ending_upd [of x G1 s1 a k d] ending_upd [of False G2 s2 c k d] assms(2-4)
  by (simp_all add: phase_def busy_def)

lemma phase_add:
  assumes "phase x a p c q k s1 s2 G1 G2" "sane G1 s1" "sane G2 s2" "1 \<le> d"
  shows "1 \<le> G1 NAdd \<Longrightarrow> sane (G1(Add := G1 Add - d, NAdd := G1 NAdd - 1)) s1 \<Longrightarrow>
      phase x a p c q (k + d) s1 s2 (G1(Add := G1 Add - d, NAdd := G1 NAdd - 1, Rel := G1 Rel + d)) G2"
    "1 \<le> G2 NAdd \<Longrightarrow> sane (G2(Add := G2 Add - d, NAdd := G2 NAdd - 1)) s2 \<Longrightarrow>
      phase x a p c q (k + d) s1 s2 G1 (G2(Add := G2 Add - d, NAdd := G2 NAdd - 1, Rel := G2 Rel + d))"
  using busy_ending [OF assms(1)] ending_add [of x G1 s1 a k d] ending_add [of False G2 s2 c k d] assms(2-4)
  by (simp_all add: phase_def busy_def)

lemma phase_release:
  assumes "phase x a p c q k s1 s2 G1 G2" "sane G1 s1" "sane G2 s2" "0 \<le> n"
  shows "n \<le> G1 Rel \<Longrightarrow> phase x a p c q k (s1 + n) s2 (G1(Rel := G1 Rel - n)) G2"
    "n \<le> G2 Rel \<Longrightarrow> phase x a p c q k s1 (s2 + n) G1 (G2(Rel := G2 Rel - n))"
  using assms group_release [of G1 s1 n] group_release [of G2 s2 n] unfolding phase_def by (auto split: if_splits)

lemma phase_wake:
  assumes "phase x a p c q k s1 s2 G1 G2" "sane G1 s1" "sane G2 s2"
  shows "1 \<le> s1 \<Longrightarrow> phase x a p c q k (s1 - 1) s2 (G1(Own := G1 Own + 1, Wait := G1 Wait - 1)) G2"
    "1 \<le> s2 \<Longrightarrow> phase x a p c q k s1 (s2 - 1) G1 (G2(Own := G2 Own + 1, Wait := G2 Wait - 1))"
  using assms group_wake [of G1 s1] group_wake [of G2 s2] unfolding phase_def by (auto split: if_splits)

lemma phase_handover1:
  assumes "phase x a p c q k s1 s2 G1 G2" "sane G1 s1" "sane G2 s2" "1 \<le> G1 Hand"
  shows "p \<and> q \<and> 1 \<le> c"
    "a = 0 \<Longrightarrow> phase x 0 True c False k s1 s2 (G1(Hand := G1 Hand - 1)) (G2(Rel := G2 Rel + c))"
    "a \<noteq> 0 \<Longrightarrow> phase x a True 0 True k s1 s2 (G1(Hand := G1 Hand - 1)) (G2(Add := G2 Add + c, NAdd := G2 NAdd + 1))"
proof -
  have P: "p" "q" "ending x G1 s1 a k" "queued G2 s2 c"
    using busy_ending(1) [OF assms(1)] assms(4) by (auto simp: busy_def)
  note E = ending_hand [OF P(3) assms(4,2)]
  show "p \<and> q \<and> 1 \<le> c"
    using P by (simp add: queued_def)
  show "phase x 0 True c False k s1 s2 (G1(Hand := G1 Hand - 1)) (G2(Rel := G2 Rel + c))" if "a = 0"
    using E(1) E(2) that queued_active [OF P(4), of False] by (simp add: phase_def takes_def)
  show "phase x a True 0 True k s1 s2 (G1(Hand := G1 Hand - 1)) (G2(Add := G2 Add + c, NAdd := G2 NAdd + 1))" if "a \<noteq> 0"
    using E(1) E(3) that queued_ending [OF P(4) assms(3), of False] by (simp add: phase_def takes_def)
qed

lemma phase_handover2:
  assumes "phase x a p c q k s1 s2 G1 G2" "sane G1 s1" "sane G2 s2" "1 \<le> G2 Hand"
  shows "p \<and> q \<and> 1 \<le> a"
    "c = 0 \<Longrightarrow> phase x a False 0 True k s1 s2 (G1(Rel := G1 Rel + takes x a)) (G2(Hand := G2 Hand - 1))"
    "c \<noteq> 0 \<Longrightarrow> phase x (a - takes x a) True c True k s1 s2 (G1(Add := G1 Add + takes x a, NAdd := G1 NAdd + 1)) (G2(Hand := G2 Hand - 1))"
proof -
  have P: "p" "q" "queued G1 s1 a" "ending False G2 s2 c k"
    using busy_ending(2) [OF assms(1)] assms(4) by (auto simp: busy_def)
  note E = ending_hand [OF P(4) assms(4,3)]
  show "p \<and> q \<and> 1 \<le> a"
    using P by (simp add: queued_def)
  show "phase x a False 0 True k s1 s2 (G1(Rel := G1 Rel + takes x a)) (G2(Hand := G2 Hand - 1))" if "c = 0"
    using E(1) E(2) that queued_active [OF P(3), of x] by (simp add: phase_def)
  show "phase x (a - takes x a) True c True k s1 s2 (G1(Add := G1 Add + takes x a, NAdd := G1 NAdd + 1)) (G2(Hand := G2 Hand - 1))" if "c \<noteq> 0"
    using E(1) E(3) that queued_ending [OF P(3) assms(2), of x] by (simp add: phase_def)
qed

end
