(* ===== verification/Lock_Props.thy ===== *)
theory Lock_Props
  imports Lock_Books
begin

text \<open>
  Correctness of \<open>CBinaryLock\<close> and \<open>CReaderWriterLock\<close>: every step of every thread keeps the books of \<open>Lock_Books\<close>, and mutual exclusion,
  the assertions of the code and the absence of lost wake-ups follow.
\<close>

unbundle bit_operations_syntax

section \<open>Every step keeps the invariant\<close>

definition lock_steady :: "lock_kind \<Rightarrow> nat set \<Rightarrow> nat \<Rightarrow> LockState \<Rightarrow> (nat \<Rightarrow> lock_thread) \<Rightarrow> int \<Rightarrow> bool \<Rightarrow> int \<Rightarrow> bool \<Rightarrow> int \<Rightarrow> bool" where
  "lock_steady K T t s th a p c q k \<longleftrightarrow> finite T \<and> card T < 0x7FFF \<and> t \<in> T \<and> lock_books K T s th a p c q k"

lemma lock_steadyD:
  assumes "lock_steady K T t s th a p c q k"
  shows "finite T" "t \<in> T" "m_cw s = fields a p c q" "m_cOwner s = word_of_int k"
    "phase (exclusive K) a p c q k (int (m_sem1 s)) (int (m_sem2 s)) (totals T th Group1) (totals T th Group2)"
    "sane (totals T th Group1) (int (m_sem1 s))" "sane (totals T th Group2) (int (m_sem2 s))" "roomy a c"
    "- 0x8000 \<le> k" "k \<le> 0x10000" "wf_actions (snd (th t))"
proof -
  have B: "lock_books K T s th a p c q k" and T: "card T < 0x7FFF"
    using assms by (simp_all add: lock_steady_def)
  show "finite T" "t \<in> T" "m_cw s = fields a p c q" "m_cOwner s = word_of_int k"
    using assms B by (simp_all add: lock_steady_def lock_books_def)
  show P: "phase (exclusive K) a p c q k (int (m_sem1 s)) (int (m_sem2 s)) (totals T th Group1) (totals T th Group2)"
    using B by (simp add: lock_books_def)
  have wf: "\<forall>t\<in>T. wf_actions (snd (th t))"
    using B by (simp add: lock_books_def)
  then show "wf_actions (snd (th t))"
    using assms by (simp add: lock_steady_def)
  show S: "sane (totals T th Group1) (int (m_sem1 s))" "sane (totals T th Group2) (int (m_sem2 s))"
    by (rule totals_sane [OF wf]; simp)+
  note R = phase_range [OF P S totals_card(1) totals_card(2) totals_card(2)]
  show "roomy a c" "- 0x8000 \<le> k" "k \<le> 0x10000"
    using R T by (auto simp: roomy_def)
qed

lemma weight_le: "lock_steady K T t s th a p c q k \<Longrightarrow> weight g f (th t) \<le> totals T th g f"
  unfolding totals_def using lock_steadyD(1,2) by (intro tot_ge) (auto simp: lock_weight_nonneg)

lemma fld_all: "(\<forall>f. R f) \<longleftrightarrow> R Own \<and> R Wait \<and> R Rel \<and> R Leaving \<and> R Upd \<and> R NUpd \<and> R Add \<and> R NAdd \<and> R Hand"
  by (metis fld.exhaust)

lemma lock_move:
  assumes "lock_steady K T t s th a p c q k" "wf_actions (snd P)" "m_cw s' = fields a' p' c' q'" "m_cOwner s' = word_of_int k'"
    and "phase (exclusive K) a' p' c' q' k' s1 s2 G1 G2" "s1 = int (m_sem1 s')" "s2 = int (m_sem2 s')"
    and "\<forall>f. G1 f = totals T th Group1 f + (weight Group1 f P - weight Group1 f (th t))"
    and "\<forall>f. G2 f = totals T th Group2 f + (weight Group2 f P - weight Group2 f (th t))"
  shows "lock_inv K T (s', th(t := P))"
proof -
  note S = lock_steadyD [OF assms(1)]
  have "\<forall>u\<in>T. wf_actions (snd ((th(t := P)) u))"
    using assms(1,2) by (simp add: lock_steady_def lock_books_def)
  moreover have "G1 = totals T (th(t := P)) Group1" "G2 = totals T (th(t := P)) Group2"
    unfolding totals_move [OF S(1,2)] using assms(8,9) by auto
  ultimately have "lock_books K T s' (th(t := P)) a' p' c' q' k'"
    using assms(3-7) by (simp add: lock_books_def)
  then show ?thesis
    unfolding lock_inv_def fst_conv snd_conv by blast
qed

lemma small_word: "small a \<Longrightarrow> uint (word_of_int a :: ULONG) = a \<and> (word_of_int a :: ULONG) \<noteq> - 1"
proof -
  assume a: "small a"
  have "(- 1 :: ULONG) = 0xFFFFFFFF"
    by simp
  then have "uint (- 1 :: ULONG) = 0xFFFFFFFF"
    by (simp only:) simp
  then show ?thesis
    using fields_values(3) [OF a] a by (auto simp: small_def)
qed

lemma phase_fields: "phase x a p c q k s1 s2 G1 G2 \<Longrightarrow> (p \<and> \<not> q \<longrightarrow> 1 \<le> c) \<and> (q \<and> \<not> p \<longrightarrow> 1 \<le> a)"
  by (auto simp: phase_def active_def)

lemma step_Enter1:
  assumes "lock_steady K T t s th a p c q k" "th t = (Outside, [])" "lock_call K (Enter Group1) w x s = Some (s', acts, r)"
  shows "lock_inv K T (s', th(t := (op_after (Enter Group1) r, acts)))"
proof -
  note S = lock_steadyD [OF assms(1)]
  note F = Enter1_fields [OF assms(3) S(3,8)]
  note P = phase_enter1 [OF S(5,7)]
  have c: "0 \<le> c" "uint (word_of_int c :: ULONG) = c" "(word_of_int c :: ULONG) \<noteq> - 1" "c < 0x8000"
    using roomyD [OF S(8)] small_word [of c] by (auto simp: small_def)
  consider "\<not> p" "exclusive K \<longrightarrow> a = 0" | "p" "\<not> q" | "p" "q" | "\<not> p" "exclusive K" "a \<noteq> 0"
    by blast
  then show ?thesis
  proof cases
    case 1
    show ?thesis
      by (rule lock_move [OF assms(1) _ _ _ P(1)]) (use F S(4) 1 assms(2) in \<open>auto simp: fld_all\<close>)
  next
    case 2
    show ?thesis
      by (rule lock_move [OF assms(1) _ _ _ P(2)]) (use F S(4) 2 assms(2) c phase_fields [OF S(5)] in \<open>auto simp: fld_all\<close>)
  next
    case 3
    show ?thesis
      by (rule lock_move [OF assms(1) _ _ _ P(3)]) (use F S(4) 3 assms(2) in \<open>auto simp: fld_all\<close>)
  next
    case 4
    show ?thesis
      by (rule lock_move [OF assms(1) _ _ _ P(4)]) (use F S(4) 4 assms(2) in \<open>auto simp: fld_all\<close>)
  qed
qed

lemma step_Enter2:
  assumes "lock_steady K T t s th a p c q k" "th t = (Outside, [])" "lock_call K (Enter Group2) w x s = Some (s', acts, r)"
  shows "lock_inv K T (s', th(t := (op_after (Enter Group2) r, acts)))"
proof -
  note S = lock_steadyD [OF assms(1)]
  note P = phase_enter2 [OF S(5,6)] and R = phase_fields [OF S(5)]
  have "q \<and> \<not> p \<longrightarrow> 1 \<le> a"
    using R by blast
  note F = Enter2_fields [OF assms(3) S(3,8) this]
  have a: "0 \<le> a" "uint (word_of_int a :: ULONG) = a" "(word_of_int a :: ULONG) \<noteq> - 1" "a < 0x8000" "(1 :: ULONG) \<noteq> - 1"
    using roomyD [OF S(8)] small_word [of a] by (auto simp: small_def)
  consider "\<not> q" | "q" "\<not> p" | "q" "p"
    by blast
  then show ?thesis
  proof cases
    case 1
    note E = P(1) [OF 1]
    show ?thesis
      by (rule lock_move [OF assms(1) _ _ _ conjunct1 [OF E]]) (use F S(4) 1 assms(2) E in \<open>auto simp: fld_all\<close>)
  next
    case 2
    show ?thesis
      by (rule lock_move [OF assms(1) _ _ _ P(2)])
        (use F S(4) 2 assms(2) a R in \<open>cases "exclusive K"; auto simp: fld_all takes_def\<close>)+
  next
    case 3
    show ?thesis
      by (rule lock_move [OF assms(1) _ _ _ P(3)]) (use F S(4) 3 assms(2) in \<open>auto simp: fld_all\<close>)
  qed
qed

lemma step_TryEnter1:
  assumes "lock_steady K T t s th a p c q k" "th t = (Outside, [])" "lock_call K (TryEnter Group1) w x s = Some (s', acts, r)"
  shows "lock_inv K T (s', th(t := (op_after (TryEnter Group1) r, acts)))"
proof -
  note S = lock_steadyD [OF assms(1)]
  note F = TryEnter1_fields [OF assms(3) S(3,8)]
  note P = phase_enter1(1) [OF S(5,7)]
  show ?thesis
  proof (cases "r = Failed")
    case True
    show ?thesis
      by (rule lock_move [OF assms(1) _ _ _ S(5)]) (use F S(3,4) True assms(2) in \<open>auto simp: fld_all\<close>)
  next
    case False
    show ?thesis
      by (rule lock_move [OF assms(1) _ _ _ P]) (use F S(4) False assms(2) in \<open>auto simp: fld_all\<close>)
  qed
qed

lemma step_TryEnter2:
  assumes "lock_steady K T t s th a p c q k" "th t = (Outside, [])" "lock_call K (TryEnter Group2) w x s = Some (s', acts, r)"
  shows "lock_inv K T (s', th(t := (op_after (TryEnter Group2) r, acts)))"
proof -
  note S = lock_steadyD [OF assms(1)]
  note F = TryEnter2_fields [OF assms(3) S(3,8)]
  show ?thesis
  proof (cases "r = Failed")
    case True
    show ?thesis
      by (rule lock_move [OF assms(1) _ _ _ S(5)]) (use F S(3,4) True assms(2) in \<open>auto simp: fld_all\<close>)
  next
    case False
    then have "\<not> q"
      using F by auto
    note P = phase_enter2(1) [OF S(5,6) this]
    show ?thesis
      by (rule lock_move [OF assms(1) _ _ _ conjunct1 [OF P]]) (use F S(4) False assms(2) P in \<open>auto simp: fld_all\<close>)
  qed
qed

lemma step_Leave1:
  assumes "lock_steady K T t s th a p c q k" "th t = (Owns Group1, [])" "lock_call K (Leave Group1) w x s = Some (s', acts, r)"
  shows "lock_inv K T (s', th(t := (op_after (Leave Group1) r, acts)))"
proof -
  note S = lock_steadyD [OF assms(1)]
  have "1 \<le> totals T th Group1 Own"
    using weight_le [OF assms(1), of Group1 Own] assms(2) by simp
  note P = phase_leave1 [OF S(5,6) this]
  have "\<not> p \<longrightarrow> q \<and> 1 \<le> a"
    using P(2) by blast
  note F = Leave1_fields [OF assms(3) S(3,8) this]
  show ?thesis
  proof (cases p)
    case True
    show ?thesis
      by (rule lock_move [OF assms(1) _ _ _ P(1)]) (use F S(3,4) True assms(2) in \<open>auto simp: fld_all\<close>)
  next
    case False
    show ?thesis
      by (rule lock_move [OF assms(1) _ _ _ P(3)]) (use F S(4) False assms(2) in \<open>auto simp: fld_all\<close>)
  qed
qed

lemma step_Leave2:
  assumes "lock_steady K T t s th a p c q k" "th t = (Owns Group2, [])" "lock_call K (Leave Group2) w x s = Some (s', acts, r)"
  shows "lock_inv K T (s', th(t := (op_after (Leave Group2) r, acts)))"
proof -
  note S = lock_steadyD [OF assms(1)]
  have "1 \<le> totals T th Group2 Own"
    using weight_le [OF assms(1), of Group2 Own] assms(2) by simp
  note P = phase_leave2 [OF S(5,7) this]
  have "\<not> q \<longrightarrow> p \<and> 1 \<le> c"
    using P(2) by blast
  note F = Leave2_fields [OF assms(3) S(3,8) this]
  show ?thesis
  proof (cases q)
    case True
    show ?thesis
      by (rule lock_move [OF assms(1) _ _ _ P(1)]) (use F S(3,4) True assms(2) in \<open>auto simp: fld_all\<close>)
  next
    case False
    show ?thesis
      by (rule lock_move [OF assms(1) _ _ _ P(3)]) (use F S(4) False assms(2) in \<open>auto simp: fld_all\<close>)
  qed
qed

text \<open>The actions.\<close>

lemma owner_zero: "- 0x10000 \<le> j \<Longrightarrow> j \<le> 0x20000 \<Longrightarrow> (word_of_int j :: ULONG) = 0 \<longleftrightarrow> j = 0"
proof -
  assume j: "- 0x10000 \<le> j" "j \<le> 0x20000"
  have "sint (word_of_int j :: ULONG) = j"
    unfolding sint_uint uint_word_of_int_eq using j by (simp add: signed_take_bit_take_bit signed_take_bit_int_eq_self)
  then show ?thesis
    using j by (auto simp del: sint_0)
qed

lemma sane_idle:
  assumes "lock_steady K T t s th a p c q k"
  shows "sane (\<lambda>f. totals T th g f + (weight g f (st, []) - weight g f (th t))) (int n)"
proof -
  note S = lock_steadyD [OF assms]
  have "\<forall>u\<in>T. wf_actions (snd ((th(t := (st, []))) u))"
    using assms by (simp add: lock_steady_def lock_books_def)
  then show ?thesis
    using totals_sane [of T "th(t := (st, []))" "int n" g] by (simp add: totals_move [OF S(1,2)])
qed

lemma step_UpdateOwner:
  assumes "lock_steady K T t s th a p c q k" "th t = (st, UpdateOwner g d # as)" "lock_act K (UpdateOwner g d) x s = Some (s', new)"
  shows "lock_inv K T (s', th(t := (st, new @ as)))"
proof -
  note S = lock_steadyD [OF assms(1)]
  have as: "as = []" and d: "d = - 1 \<or> 0 < uint d \<and> uint d < 0x8000 \<and> d \<noteq> - 1"
    using S(11) assms(2) by (cases as; auto)+
  define k' where "k' = (if d = - 1 then k - 1 else k + uint d)"
  have own: "m_cOwner s + d = word_of_int k'"
    using S(4) by (simp add: k'_def)
  then have s': "s' = s\<lparr>m_cOwner := word_of_int k'\<rparr>" and new: "new = (if k' = 0 then [Handover g] else [])"
    using assms(3) owner_zero [of k'] S(9,10) d by (auto simp: k'_def)
  note W = weight_le [OF assms(1), of g]
  show ?thesis
  proof (cases "d = - 1")
    case True
    note L = phase_left [OF S(5-7)]
    show ?thesis
      using W [of Leaving] assms(2) True as S(3) s' new
      by (cases g) (rule lock_move [OF assms(1) _ _ _ L(1)] lock_move [OF assms(1) _ _ _ L(2)]; auto simp: fld_all k'_def)+
  next
    case False
    have d0: "0 \<le> uint d"
      by simp
    note L = phase_upd [OF S(5-7) d0]
    have sane: "sane ((totals T th g)(Upd := totals T th g Upd - uint d, NUpd := totals T th g NUpd - 1)) (int n)" for n
      using sane_idle [OF assms(1), of g st n] assms(2) False by (simp add: sane_def)
    show ?thesis
      using W [of NUpd] assms(2) False as S(3) s' new sane
      by (cases g) (rule lock_move [OF assms(1) _ _ _ L(1)] lock_move [OF assms(1) _ _ _ L(2)]; auto simp: fld_all k'_def)+
  qed
qed

lemma step_AddOwner:
  assumes "lock_steady K T t s th a p c q k" "th t = (st, AddOwner g d # as)" "lock_act K (AddOwner g d) x s = Some (s', new)"
  shows "lock_inv K T (s', th(t := (st, new @ as)))"
proof -
  note S = lock_steadyD [OF assms(1)]
  obtain m where as: "as = [Release g m]" and d: "uint d = int m" "0 < m"
    using S(11) assms(2) by (cases "AddOwner g d # as" rule: wf_actions.cases) auto
  have d1: "1 \<le> uint d"
    using d by simp
  note L = phase_add [OF S(5-7) d1]
  have sane: "sane ((totals T th g)(Add := totals T th g Add - uint d, NAdd := totals T th g NAdd - 1)) (int n)" for n
    using sane_idle [OF assms(1), of g st n] assms(2) by (simp add: sane_def)
  have s': "m_cw s' = m_cw s" "m_cOwner s' = word_of_int (k + uint d)" "m_sem1 s' = m_sem1 s" "m_sem2 s' = m_sem2 s" "new = []"
    using assms(3) S(4) by auto
  show ?thesis
    using weight_le [OF assms(1), of g NAdd] assms(2) as d S(3) s' sane
    by (cases g) (rule lock_move [OF assms(1) _ _ _ L(1)] lock_move [OF assms(1) _ _ _ L(2)]; auto simp: fld_all)+
qed

lemma step_Release:
  assumes "lock_steady K T t s th a p c q k" "th t = (st, Release g n # as)" "lock_act K (Release g n) x s = Some (s', new)"
  shows "lock_inv K T (s', th(t := (st, new @ as)))"
proof -
  note S = lock_steadyD [OF assms(1)]
  have as: "as = []"
    using S(11) assms(2) by (cases "Release g n # as" rule: wf_actions.cases) auto
  have n: "0 \<le> int n"
    by simp
  note L = phase_release [OF S(5-7) n]
  show ?thesis
    using weight_le [OF assms(1), of g Rel] assms(2,3) as S(3,4)
    by (cases g) (rule lock_move [OF assms(1) _ _ _ L(1)] lock_move [OF assms(1) _ _ _ L(2)]; auto simp: fld_all)+
qed

lemma step_group_wake:
  assumes "lock_steady K T t s th a p c q k" "th t = (Waits g, [])" "acquire_sem g s = Some s'"
  shows "lock_inv K T (s', th(t := (Owns g, [])))"
proof -
  note S = lock_steadyD [OF assms(1)]
  note L = phase_wake [OF S(5-7)]
  show ?thesis
    using assms(2,3) S(3,4)
    by (cases g) (rule lock_move [OF assms(1) _ _ _ L(1)] lock_move [OF assms(1) _ _ _ L(2)]; auto simp: fld_all split: if_splits)+
qed

lemma step_Handover1:
  assumes "lock_steady K T t s th a p c q k" "th t = (st, Handover Group1 # as)" "handover K Group1 x s = Some (s', new)"
  shows "lock_inv K T (s', th(t := (st, new @ as)))"
proof -
  note S = lock_steadyD [OF assms(1)]
  have as: "as = []"
    using S(11) assms(2) by (cases "Handover Group1 # as" rule: wf_actions.cases) auto
  have "1 \<le> totals T th Group1 Hand"
    using weight_le [OF assms(1), of Group1 Hand] assms(2) by simp
  note P = phase_handover1 [OF S(5-7) this]
  have "m_cw s = fields a True c True"
    using S(3) P(1) by simp
  note F = handover_fields(1) [OF assms(3) this S(8) _ refl]
  have c: "0 < c" "c < 0x8000" "uint (word_of_int c :: ULONG) = c"
    using P(1) S(8) small_word [of c] by (auto simp: roomy_def small_def)
  show ?thesis
  proof (cases "a = 0")
    case True
    show ?thesis
      by (rule lock_move [OF assms(1) _ _ _ P(2)]) (use F S(4) True assms(2) as c in \<open>auto simp: fld_all\<close>)
  next
    case False
    show ?thesis
      by (rule lock_move [OF assms(1) _ _ _ P(3)]) (use F S(4) False assms(2) as c in \<open>auto simp: fld_all\<close>)
  qed
qed

lemma step_Handover2:
  assumes "lock_steady K T t s th a p c q k" "th t = (st, Handover Group2 # as)" "handover K Group2 x s = Some (s', new)"
  shows "lock_inv K T (s', th(t := (st, new @ as)))"
proof -
  note S = lock_steadyD [OF assms(1)]
  have as: "as = []"
    using S(11) assms(2) by (cases "Handover Group2 # as" rule: wf_actions.cases) auto
  have "1 \<le> totals T th Group2 Hand"
    using weight_le [OF assms(1), of Group2 Hand] assms(2) by simp
  note P = phase_handover2 [OF S(5-7) this]
  have "m_cw s = fields a True c True" "1 \<le> a \<or> Group2 = Group1"
    using S(3) P(1) by simp_all
  note F = handover_fields(2) [OF assms(3) this(1) S(8) this(2) refl]
  have a: "0 < a" "a < 0x8000" "uint (word_of_int a :: ULONG) = a"
    using P(1) S(8) small_word [of a] by (auto simp: roomy_def small_def)
  show ?thesis
  proof (cases "c = 0")
    case True
    show ?thesis
      by (rule lock_move [OF assms(1) _ _ _ P(2)]) (use F S(4) True assms(2) as a in \<open>cases "exclusive K"; auto simp: fld_all takes_def\<close>)+
  next
    case False
    show ?thesis
      by (rule lock_move [OF assms(1) _ _ _ P(3)]) (use F S(4) False assms(2) as a in \<open>cases "exclusive K"; auto simp: fld_all takes_def\<close>)+
  qed
qed

lemmas lock_steps = step_Enter1 step_Enter2 step_TryEnter1 step_TryEnter2 step_Leave1 step_Leave2

lemma lock_step_inv:
  assumes "lock_step K T c c'" "finite T" "card T < 0x7FFF" "lock_inv K T c"
  shows "lock_inv K T c'"
  using assms(1)
proof cases
  case (operation t th op w x s s' acts r)
  then obtain a p e q k where st: "lock_steady K T t s th a p e q k"
    using assms(2-4) by (auto simp: lock_inv_def lock_steady_def)
  obtain g where "op = Enter g \<or> op = TryEnter g \<or> op = Leave g"
    by (cases op) auto
  then show ?thesis
    using operation lock_steps [OF st] by (cases g) auto
next
  case (act t th st x as y s s' new)
  then obtain a p e q k where st: "lock_steady K T t s th a p e q k"
    using assms(2-4) by (auto simp: lock_inv_def lock_steady_def)
  show ?thesis
  proof (cases x)
    case (Handover g)
    then show ?thesis
      using act step_Handover1 [OF st] step_Handover2 [OF st] by (cases g) auto
  qed (use act step_UpdateOwner [OF st] step_AddOwner [OF st] step_Release [OF st] in auto)
next
  case (wake t th g s s')
  then obtain a p e q k where st: "lock_steady K T t s th a p e q k"
    using assms(2-4) by (auto simp: lock_inv_def lock_steady_def)
  show ?thesis
    using wake step_group_wake [OF st] by simp
qed

lemma lock_reach_inv:
  assumes "lock_reach K T c" "finite T" "card T < 0x7FFF"
  shows "lock_inv K T c"
  using assms(1)
proof (induction rule: lock_reach.induct)
  case init
  have "totals T (\<lambda>t. (Outside, [])) g f = 0" for g f
    by (cases f) (simp_all add: totals_def tot_def)
  then have "lock_books K T LockState_new (\<lambda>t. (Outside, [])) 0 False 0 False 0"
    by (simp add: lock_books_def LockState_new_def fields_int phase_def absent_def)
  then show ?case
    unfolding lock_inv_def fst_conv snd_conv by blast
next
  case (step c c')
  then show ?case
    using lock_step_inv assms(2,3) by blast
qed

lemma lock_reach_steady:
  assumes "lock_reach K T (s, th)" "finite T" "card T < 0x7FFF" "t \<in> T"
  shows "\<exists>a p c q k. lock_steady K T t s th a p c q k"
  using lock_reach_inv [OF assms(1-3)] assms(2-4) by (auto simp: lock_inv_def lock_steady_def)

section \<open>Mutual exclusion\<close>

lemma phase_exclusion:
  assumes "phase x a p c q k s1 s2 G1 G2" "sane G1 s1"
  shows "1 \<le> G1 Own \<Longrightarrow> G2 Own = 0" "x \<Longrightarrow> G1 Own \<le> 1"
proof -
  show "1 \<le> G1 Own \<Longrightarrow> G2 Own = 0"
    using assms(1) by (auto simp: phase_def absent_def queued_def split: if_splits)
  have "active True G1 s1 a \<or> ending True G1 s1 a k \<Longrightarrow> G1 Own + s1 + G1 Rel \<le> 1"
    using assms(2) by (auto simp: active_def ending_def sane_def)
  then show "x \<Longrightarrow> G1 Own \<le> 1"
    using assms by (auto simp: phase_def absent_def queued_def sane_def split: if_splits)
qed

text \<open>
  C10: Under every interleaving of fewer than 32767 threads, two owners of a \<open>CBinaryLock\<close> or of a \<open>CReaderWriterLock\<close> are in the same group, and
  the reader-writer lock has at most one writer.
\<close>

theorem lock_mutual_exclusion:
  assumes "lock_reach K T (s, th)" "finite T" "card T < 0x7FFF" "t \<in> T" "u \<in> T" "t \<noteq> u"
    and "fst (th t) = Owns g" "fst (th u) = Owns h"
  shows "g = h \<and> (K = ReaderWriterLock \<longrightarrow> g = Group2)"
proof -
  obtain a p c q k where "lock_steady K T t s th a p c q k"
    using lock_reach_steady [OF assms(1-4)] by blast
  note S = lock_steadyD [OF this]
  note X = phase_exclusion [OF S(5,6)]
  have one: "1 \<le> totals T th j Own" if "v \<in> T" "fst (th v) = Owns j" for v j
    using tot_ge [OF assms(2) that(1), of "weight j Own" th] that(2) by (simp add: totals_def)
  have "2 \<le> totals T th Group1 Own" if "g = Group1" "h = Group1"
    using tot_ge2 [OF assms(2,4,5,6), of "weight Group1 Own" th] assms(7,8) that by (simp add: totals_def)
  then show ?thesis
    using X one [OF assms(4,7)] one [OF assms(5,8)] by (cases g; cases h) (auto simp: exclusive_def)
qed

section \<open>The checks hold\<close>

definition state_of :: "int \<Rightarrow> bool \<Rightarrow> int \<Rightarrow> bool \<Rightarrow> int" where
  "state_of a p c q = (if q then if p then if c = 0 then if a = 0 then - 1 else 3 else if a = 0 then 4 else 5
       else if c = 0 \<and> a \<noteq> 0 then 2 else - 1
     else if p then if c \<noteq> 0 \<and> a = 0 then 1 else - 1
     else if c = 0 \<and> a = 0 then 0 else - 1)"

lemma StateFromControlWord_fields: "small a \<Longrightarrow> small c \<Longrightarrow> StateFromControlWord (fields a p c q) = state_of a p c q"
  by (cases "a = 0"; cases p; cases "c = 0"; cases q)
    (simp_all add: StateFromControlWord_def bit_tests(1-5) state_of_def mpindexstate_def)

lemma sint_diff: "small a \<Longrightarrow> small b \<Longrightarrow> sint (word_of_int a - word_of_int b :: ULONG) = a - b"
proof -
  assume s: "small a" "small b"
  have "(word_of_int a - word_of_int b :: ULONG) = word_of_int (a - b)"
    by simp
  then show ?thesis
    unfolding sint_uint using s by (simp only: uint_word_of_int_eq) (simp add: small_def signed_take_bit_take_bit signed_take_bit_int_eq_self)
qed

lemma changes:
  assumes "small a" "small c" "small a'" "small c'"
  shows "dcOOW1 (fields a p c q) (fields a' p' c' q') = a' - a" "dcOOW2 (fields a p c q) (fields a' p' c' q') = c' - c"
proof -
  show "dcOOW1 (fields a p c q) (fields a' p' c' q') = a' - a"
    unfolding dcOOW1_def bit_tests(9) [OF assms(1,2)] bit_tests(9) [OF assms(3,4)] by (rule sint_diff [OF assms(3,1)])
  show "dcOOW2 (fields a p c q) (fields a' p' c' q') = c' - c"
    unfolding dcOOW2_def fields_masks fields_values(2) [OF assms(2)] fields_values(2) [OF assms(4)] by (rule sint_diff [OF assms(4,2)])
qed

definition valid_move :: "lock_kind \<Rightarrow> int \<Rightarrow> bool \<Rightarrow> int \<Rightarrow> bool \<Rightarrow> int \<Rightarrow> bool \<Rightarrow> int \<Rightarrow> bool \<Rightarrow> TransitionReason \<Rightarrow> bool" where
  "valid_move K a p c q a' p' c' q' tr \<longleftrightarrow> 0 \<le> state_of a p c q \<and> 0 \<le> state_of a' p' c' q'
     \<and> (c' \<noteq> 0 \<longrightarrow> - 1 \<le> c' - c \<and> c' - c \<le> 1) \<and> (a' \<noteq> 0 \<or> exclusive K \<longrightarrow> - 1 \<le> a' - a \<and> a' - a \<le> 1)
     \<and> tr \<in> (if exclusive K then mpstatestatetrmaskRW else mpstatestatetrmask) ! nat (state_of a p c q) ! nat (state_of a' p' c' q')"

lemma FValid_fields:
  assumes "small a" "small c" "small a'" "small c'"
  shows "FValidStateTransition (fields a p c q) (fields a' p' c' q') tr \<longleftrightarrow> valid_move BinaryLock a p c q a' p' c' q' tr"
    "FValidStateTransitionRW (fields a p c q) (fields a' p' c' q') tr \<longleftrightarrow> valid_move ReaderWriterLock a p c q a' p' c' q' tr"
  unfolding FValidStateTransition_def FValidStateTransitionRW_def Let_def StateFromControlWord_fields [OF assms(1,2)]
    StateFromControlWord_fields [OF assms(3,4)] changes [OF assms] bit_tests(4,5) [OF assms(3,4)] valid_move_def exclusive_def
  by (simp_all add: not_less not_le) auto

lemmas tables = valid_move_def state_of_def mpstatestatetrmask_def mpstatestatetrmaskRW_def exclusive_def Let_def

text \<open>The situations of the lock, with what they say about the fields.\<close>

lemma phase_states:
  assumes "phase x a p c q k s1 s2 G1 G2"
  shows "\<not> p \<and> \<not> q \<and> a = 0 \<and> c = 0 \<or> p \<and> \<not> q \<and> a = 0 \<and> 1 \<le> c \<or> \<not> p \<and> q \<and> 1 \<le> a \<and> c = 0
    \<or> p \<and> q \<and> 0 \<le> a \<and> 0 \<le> c \<and> 1 \<le> a + c"
    "1 \<le> G1 Own \<Longrightarrow> \<not> p \<and> q \<or> p \<and> q \<and> 1 \<le> c" "1 \<le> G2 Own \<Longrightarrow> p \<and> \<not> q \<or> p \<and> q \<and> 1 \<le> a"
  using assms by (auto simp: phase_def absent_def queued_def active_def ending_def split: if_splits)

lemma enter_valid:
  assumes "roomy a c" "phase (exclusive K) a p c q k s1 s2 G1 G2"
  shows "asserts K (Enter g) (fields a p c q)"
proof -
  note P = phase_states(1) [OF assms(2)] and R = roomyD [OF assms(1)]
  have a: "small (a - 1)" if "1 \<le> a"
    using that R by (simp add: small_def)
  have "valid_move K a p c q (a + 1) p (if q then c else 0) True (trEnter Group1)"
    using P by (cases K) (auto simp: tables)
  moreover have "valid_move K a p c q (if q \<and> \<not> p then if exclusive K then a - 1 else 0 else a) True (c + 1) q (trEnter Group2)"
    using P by (cases K) (auto simp: tables)
  moreover have "\<not> p \<Longrightarrow> \<not> q \<Longrightarrow> a = 0" "q \<Longrightarrow> \<not> p \<Longrightarrow> 1 \<le> a"
    using P by auto
  ultimately show ?thesis
    using R a by (cases K; cases g; cases p; cases q) (simp_all add: enter1_fields enter2_fields enterR_fields FValid_fields exclusive_def)
qed

lemma valid_legal: "StateFromControlWord e < 0 \<or> valid e w tr \<Longrightarrow> valid_unless_illegal valid e w tr"
  by (simp add: valid_unless_illegal_def)

lemma tryenter_valid:
  assumes "roomy a c" "phase (exclusive K) a p c q k s1 s2 G1 G2"
  shows "asserts K (TryEnter g) (fields a p c q)"
proof -
  note P = phase_states(1) [OF assms(2)] and R = roomyD [OF assms(1)]
  have "state_of a False c q < 0 \<or> valid_move BinaryLock a False c q (a + 1) False (if q then c else 0) True (trEnter Group1)"
    using P by (elim disjE conjE) (simp_all add: tables)
  moreover have "state_of 0 False c q < 0 \<or> valid_move ReaderWriterLock 0 False c q 1 False (if q then c else 0) True (trEnter Group1)"
    using P by (elim disjE conjE) (simp_all add: tables)
  moreover have "state_of a p c False < 0 \<or> valid_move K a p c False (if p \<or> exclusive K then a else 0) True (c + 1) False (trEnter Group2)"
    using P by (cases K; elim disjE conjE) (simp_all add: tables)
  ultimately show ?thesis
    using R by (cases K; cases g)
      (auto simp: valid_unless_illegal_def fields_masks StateFromControlWord_fields enter1_fields enter2_fields enterR_fields FValid_fields exclusive_def small_def)
qed

lemma leave1_valid:
  assumes "roomy a c" "phase (exclusive K) a p c q k s1 s2 G1 G2" "1 \<le> G1 Own"
  shows "asserts K (Leave Group1) (fields a p c q)"
proof -
  note P = phase_states [OF assms(2)] and R = roomyD [OF assms(1)]
  consider "\<not> p" "q" "1 \<le> a" "c = 0" | "p" "q" "1 \<le> c"
    using P(1) P(2) [OF assms(3)] by auto
  then show ?thesis
  proof cases
    case 1
    have s: "small (a - 1)"
      using 1 R by (simp add: small_def)
    have "valid_move K a False c q (a - 1) False c (a \<noteq> 1) (trLeave Group1)"
      using 1 by (cases K; cases "a = 1") (simp_all add: tables)
    then show ?thesis
      using 1 R s by (cases K) (simp_all add: fields_masks leave1_fields FValid_fields valid_unless_illegal_def exclusive_def)
  next
    case 2
    then have "state_of a False c q < 0"
      by (simp add: state_of_def)
    then show ?thesis
      using R by (cases K) (simp_all add: fields_masks StateFromControlWord_fields valid_unless_illegal_def Let_def)
  qed
qed

lemma leave2_valid:
  assumes "roomy a c" "phase (exclusive K) a p c q k s1 s2 G1 G2" "1 \<le> G2 Own"
  shows "asserts K (Leave Group2) (fields a p c q)"
proof -
  note P = phase_states [OF assms(2)] and R = roomyD [OF assms(1)]
  consider "p" "\<not> q" "1 \<le> c" "a = 0" | "p" "q" "1 \<le> a"
    using P(1) P(3) [OF assms(3)] by auto
  then show ?thesis
  proof cases
    case 1
    have s: "small (c - 1)"
      using 1 R by (simp add: small_def)
    have "valid_move K a p c False a (c \<noteq> 1) (c - 1) False (trLeave Group2)"
      using 1 by (cases K; cases "c = 1") (simp_all add: tables)
    then show ?thesis
      using 1 R s by (cases K) (simp_all add: fields_masks leave2_fields FValid_fields valid_unless_illegal_def exclusive_def)
  next
    case 2
    then have "state_of a p c False < 0"
      by (simp add: state_of_def)
    then show ?thesis
      using R by (cases K) (simp_all add: fields_masks StateFromControlWord_fields valid_unless_illegal_def Let_def)
  qed
qed

lemma handover_valid:
  assumes "roomy a c" "p" "q" "g = Group1 \<and> 1 \<le> c \<or> g = Group2 \<and> 1 \<le> a"
  shows "handover_asserts K g (fields a p c q)"
proof -
  note R = roomyD [OF assms(1)]
  have s: "small (a - 1)" if "1 \<le> a"
    using that R by (simp add: small_def)
  have "1 \<le> c \<Longrightarrow> valid_move K a True c True a True (if a = 0 then c else 0) (a \<noteq> 0) (trLeave Group1)"
    using assms(1) by (cases K; cases "a = 0") (simp_all add: tables roomy_def)
  moreover have "1 \<le> a \<Longrightarrow> valid_move K a True c True (if c = 0 then a else if exclusive K then a - 1 else 0) (c \<noteq> 0) c True (trLeave Group2)"
    using assms(1) by (cases K; cases "c = 0") (simp_all add: tables roomy_def)
  ultimately show ?thesis
    using assms(2-4) R s by (cases K; cases "a = 0"; cases "c = 0") (auto simp: handover1_fields handover2_fields FValid_fields exclusive_def)
qed

text \<open>
  C12: In every reachable state of a \<open>CBinaryLock\<close> or a \<open>CReaderWriterLock\<close>, with fewer than 32767 threads, a thread that starts an operation or
  hands the lock over finds a control word from which its transition is one the code's tables allow: the assertions
  \<open>_FValidStateTransition\<close> never fail.
\<close>

theorem lock_transitions_valid:
  assumes "lock_reach K T (s, th)" "finite T" "card T < 0x7FFF" "t \<in> T"
  shows "(\<forall>op. th t = (op_needs op, []) \<longrightarrow> asserts K op (m_cw s)) \<and> (\<forall>st g as. th t = (st, Handover g # as) \<longrightarrow> handover_asserts K g (m_cw s))"
proof (intro conjI allI impI)
  obtain a p c q k where st: "lock_steady K T t s th a p c q k"
    using lock_reach_steady [OF assms] by blast
  note S = lock_steadyD [OF st] and W = weight_le [OF st]
  show "asserts K op (m_cw s)" if "th t = (op_needs op, [])" for op
  proof (cases op)
    case (Leave g)
    then have "1 \<le> totals T th g Own"
      using W [of g Own] that by simp
    then show ?thesis
      using Leave leave1_valid [OF S(8,5)] leave2_valid [OF S(8,5)] S(3) by (cases g) simp_all
  qed (use enter_valid [OF S(8,5)] tryenter_valid [OF S(8,5)] S(3) in simp_all)
  show "handover_asserts K g (m_cw s)" if "th t = (st, Handover g # as)" for st g as
  proof -
    have "1 \<le> totals T th g Hand"
      using W [of g Hand] that by simp
    then have "p \<and> q \<and> (g = Group1 \<and> 1 \<le> c \<or> g = Group2 \<and> 1 \<le> a)"
      using phase_handover1(1) [OF S(5-7)] phase_handover2(1) [OF S(5-7)] by (cases g) auto
    then show ?thesis
      using handover_valid [OF S(8)] S(3) by auto
  qed
qed

section \<open>No lost wake-up\<close>

lemma phase_idle:
  assumes "phase x a p c q k s1 s2 G1 G2" "sane G1 s1" "sane G2 s2"
    and "G1 Own = 0" "G2 Own = 0" "G1 Rel = 0" "G2 Rel = 0" "G1 Leaving = 0" "G2 Leaving = 0" "G1 NUpd = 0" "G2 NUpd = 0"
    and "G1 NAdd = 0" "G2 NAdd = 0" "G1 Hand = 0" "G2 Hand = 0"
  shows "G1 Wait + G2 Wait = 0 \<Longrightarrow> a = 0 \<and> \<not> p \<and> c = 0 \<and> \<not> q \<and> k = 0 \<and> s1 = 0 \<and> s2 = 0"
    "0 < G1 Wait + G2 Wait \<Longrightarrow> 0 < s1 \<and> 0 < G1 Wait \<or> 0 < s2 \<and> 0 < G2 Wait"
proof -
  have e: "active y G s f \<Longrightarrow> G Own = 0 \<Longrightarrow> G Rel = 0 \<Longrightarrow> 0 < s \<and> 0 < G Wait" for y G s f
    by (auto simp: active_def split: if_splits)
  have d: "ending y G s f k \<Longrightarrow> sane G s \<Longrightarrow> G Own = 0 \<Longrightarrow> G Rel = 0 \<Longrightarrow> G Leaving = 0 \<Longrightarrow> G NUpd = 0 \<Longrightarrow> G NAdd = 0 \<Longrightarrow> G Hand = 0
      \<Longrightarrow> 0 < s \<and> 0 < G Wait" for y G s f
    by (auto simp: ending_def sane_def)
  have w: "absent G s f \<Longrightarrow> G Wait = 0 \<and> f = 0 \<and> s = 0" for G s f
    by (simp add: absent_def)
  have n: "0 \<le> G1 Wait" "0 \<le> G2 Wait"
    using assms(2,3) by (simp_all add: sane_def)
  show "G1 Wait + G2 Wait = 0 \<Longrightarrow> a = 0 \<and> \<not> p \<and> c = 0 \<and> \<not> q \<and> k = 0 \<and> s1 = 0 \<and> s2 = 0"
    "0 < G1 Wait + G2 Wait \<Longrightarrow> 0 < s1 \<and> 0 < G1 Wait \<or> 0 < s2 \<and> 0 < G2 Wait"
    using assms e [of x G1 s1 a] e [of False G2 s2 c] d [of x G1 s1 a] d [of False G2 s2 c] w [of G1 s1 a] w [of G2 s2 c] n
    unfolding phase_def by (auto split: if_splits)
qed

text \<open>A loop goes on only when the word has changed since it was read.\<close>

lemma mask_clear: "w AND m = 0 \<Longrightarrow> w AND NOT m = w" for w :: ULONG
proof -
  assume z: "w AND m = 0"
  have "w = w AND (m OR NOT m)"
    by simp
  also have "\<dots> = (w AND m) OR (w AND NOT m)"
    by (rule bit.conj_disj_distrib)
  finally show ?thesis
    using z by simp
qed

lemma mask_clears:
  "w AND 0x00008000 = 0 \<Longrightarrow> w AND 0xFFFF7FFF = w" "w AND 0x80000000 = 0 \<Longrightarrow> w AND 0x7FFFFFFF = w"
  "w AND 0x0000FFFF = 0 \<Longrightarrow> w AND 0xFFFF0000 = w" for w :: ULONG
proof -
  have k: "(0xFFFF7FFF :: ULONG) = NOT 0x00008000" "(0x7FFFFFFF :: ULONG) = NOT 0x80000000" "(0xFFFF0000 :: ULONG) = NOT 0x0000FFFF"
    by simp_all
  show "w AND 0x00008000 = 0 \<Longrightarrow> w AND 0xFFFF7FFF = w" "w AND 0x80000000 = 0 \<Longrightarrow> w AND 0x7FFFFFFF = w"
    "w AND 0x0000FFFF = 0 \<Longrightarrow> w AND 0xFFFF0000 = w"
    unfolding k by (rule mask_clear, assumption)+
qed

lemma lock_retry:
  "lock_call K op w x s = None \<Longrightarrow> m_cw s \<noteq> x" "handover K g x s = None \<Longrightarrow> m_cw s \<noteq> x"
proof -
  have "lock_call K op w (m_cw s) s \<noteq> None"
  proof (cases op)
    case (Enter g)
    then show ?thesis
      by (cases K; cases g) (simp_all add: Enter1_def Enter2_def EnterAsWriter_def EnterAsReader_def CompareExchange_def Let_def)
  next
    case (TryEnter g)
    then show ?thesis
      by (cases K; cases g) (simp_all add: mask_clears FTryEnter1_def FTryEnter2_def FTryEnterAsWriter_def FTryEnterAsReader_def CompareExchange_def Let_def)
  next
    case (Leave g)
    then show ?thesis
      by (cases K; cases g) (simp_all add: mask_clears Leave1_def Leave2_def LeaveAsWriter_def LeaveAsReader_def CompareExchange_def Let_def)
  qed
  then show "lock_call K op w x s = None \<Longrightarrow> m_cw s \<noteq> x"
    by auto
  show "handover K g x s = None \<Longrightarrow> m_cw s \<noteq> x"
    by (cases K; cases g) (auto simp: UpdateQuiescedOwnerCountAsGroup1_def UpdateQuiescedOwnerCountAsGroup2_def
        UpdateQuiescedOwnerCountAsWriter_def UpdateQuiescedOwnerCountAsReader_def CompareExchange_def Let_def split: if_splits)
qed

lemma waiting_group:
  assumes "finite T" "0 < totals T th g Wait" "\<forall>u\<in>T. snd (th u) = []"
  shows "\<exists>u\<in>T. th u = (Waits g, [])"
proof -
  obtain u where "u \<in> T" "0 < weight g Wait (th u)"
    using tot_pos [OF assms(1)] assms(2) unfolding totals_def by blast
  then show ?thesis
    using assms(3) by (intro bexI [of _ u]) (auto simp: prod_eq_iff)
qed

text \<open>
  C11: No wake-up is lost. When no thread owns the lock and none has an action left to run, then either some thread waits and one of the
  waiting threads can go on, or no thread waits and the lock is as it was created. And an operation or a handover goes
  round its loop only if another thread changed the control word after it was read.
\<close>

theorem lock_no_lost_wakeup:
  assumes "lock_reach K T (s, th)" "finite T" "card T < 0x7FFF" "\<forall>u\<in>T. snd (th u) = [] \<and> (\<forall>g. fst (th u) \<noteq> Owns g)"
  shows "((\<exists>t\<in>T. \<exists>g. fst (th t) = Waits g) \<longrightarrow> (\<exists>u\<in>T. \<exists>g s'. th u = (Waits g, []) \<and> acquire_sem g s = Some s'))
    \<and> ((\<forall>t\<in>T. fst (th t) = Outside) \<longrightarrow> s = LockState_new)
    \<and> (\<forall>op cwSeen cwRead. lock_call K op cwSeen cwRead s = None \<longrightarrow> m_cw s \<noteq> cwRead)
    \<and> (\<forall>g cwRead. handover K g cwRead s = None \<longrightarrow> m_cw s \<noteq> cwRead)"
proof (intro conjI allI impI)
  obtain a p c q k where B: "lock_books K T s th a p c q k"
    using lock_reach_inv [OF assms(1-3)] by (auto simp: lock_inv_def)
  have wf: "\<forall>t\<in>T. wf_actions (snd (th t))"
    using B by (simp add: lock_books_def)
  have z: "totals T th g f = 0" if "f \<noteq> Wait" for g f
    unfolding totals_def tot_def using assms(4) that by (intro sum.neutral) (cases f; auto)
  have P: "phase (exclusive K) a p c q k (int (m_sem1 s)) (int (m_sem2 s)) (totals T th Group1) (totals T th Group2)"
    using B by (simp add: lock_books_def)
  note I = phase_idle [OF P totals_sane [OF wf] totals_sane [OF wf] z z z z z z z z z z z z, simplified]
  {
    assume "\<exists>t\<in>T. \<exists>g. fst (th t) = Waits g"
    then obtain t g where t: "t \<in> T" "fst (th t) = Waits g"
      by blast
    have n: "0 \<le> totals T th h Wait" for h
      unfolding totals_def by (rule tot_nonneg) (rule lock_weight_nonneg)
    have "1 \<le> totals T th g Wait"
      using tot_ge [OF assms(2) t(1), of "weight g Wait" th] t(2) by (simp add: totals_def)
    then have "0 < totals T th Group1 Wait + totals T th Group2 Wait"
      using n [of Group1] n [of Group2] by (cases g) auto
    then obtain h where "0 < totals T th h Wait" "\<exists>s'. acquire_sem h s = Some s'"
      using I(2) by (metis acquire_sem.simps)
    then show "\<exists>u\<in>T. \<exists>g s'. th u = (Waits g, []) \<and> acquire_sem g s = Some s'"
      using waiting_group [OF assms(2), of th h] assms(4) by blast
  }
  {
    assume "\<forall>t\<in>T. fst (th t) = Outside"
    then have "totals T th g Wait = 0" for g
      by (simp add: totals_def tot_def)
    then have "a = 0 \<and> \<not> p \<and> c = 0 \<and> \<not> q \<and> k = 0 \<and> m_sem1 s = 0 \<and> m_sem2 s = 0"
      using I(1) by simp
    then show "s = LockState_new"
      using B by (auto simp: lock_books_def LockState_new_def fields_int)
  }
  show "m_cw s \<noteq> cwRead" if "lock_call K op cwSeen cwRead s = None" for op cwSeen cwRead
    using that by (rule lock_retry)
  show "m_cw s \<noteq> cwRead" if "handover K g cwRead s = None" for g cwRead
    using that by (rule lock_retry)
qed

text \<open>Two readers; and a reader whom a writer has let in when it left.\<close>

definition lock_at :: "ULONG \<Rightarrow> ULONG \<Rightarrow> nat \<Rightarrow> lock_thread \<Rightarrow> lock_thread \<Rightarrow> LockState \<times> (nat \<Rightarrow> lock_thread)" where
  "lock_at cw own n p q = (\<lparr>m_cw = cw, m_cOwner = own, m_sem1 = 0, m_sem2 = n\<rparr>, (\<lambda>t. (Outside, []))(1 := p, 2 := q))"

lemma lock_at_upd:
  "(\<lambda>t. (Outside, []))(Suc 0 := x, 2 := y, Suc 0 := z) = (\<lambda>t. (Outside, []))(Suc 0 := z, 2 := y)"
  "(\<lambda>t. (Outside, []))(Suc 0 := x, 2 := y, 2 := z) = (\<lambda>t. (Outside, []))(Suc 0 := x, 2 := z)" for x y z :: lock_thread
  by auto

lemma lock_at_op:
  assumes "lock_reach K {1, 2} (s, th)" "t \<in> {1, 2}" "th t = (op_needs op, [])" "lock_call K op cw cw s = Some (s', acts, r)"
    "c = (s', th(t := (op_after op r, acts)))"
  shows "lock_reach K {1, 2} c"
proof (rule lock_reach.step [OF assms(1)])
  show "lock_step K {1, 2} (s, th) c"
    unfolding assms(5) using assms(2-4) by (rule lock_step.operation)
qed

lemma lock_at_act:
  assumes "lock_reach K {1, 2} (s, th)" "t \<in> {1, 2}" "th t = (st, a # as)" "lock_act K a cw s = Some (s', new)" "c = (s', th(t := (st, new @ as)))"
  shows "lock_reach K {1, 2} c"
proof (rule lock_reach.step [OF assms(1)])
  show "lock_step K {1, 2} (s, th) c"
    unfolding assms(5) using assms(2-4) by (rule lock_step.act)
qed

lemma lock_at_new: "lock_reach K {1, 2} (lock_at 0 0 0 (Outside, []) (Outside, []))"
proof -
  have "lock_at 0 0 0 (Outside, []) (Outside, []) = (LockState_new, \<lambda>t. (Outside, []))"
    by (auto simp: lock_at_def LockState_new_def)
  then show ?thesis
    using lock_reach.init by simp
qed

lemma two_readers: "lock_reach ReaderWriterLock {1, 2} (lock_at 0x00028000 0 0 (Owns Group2, []) (Owns Group2, []))"
proof -
  have 1: "lock_reach ReaderWriterLock {1, 2} (lock_at 0x00018000 0 0 (Owns Group2, []) (Outside, []))"
    by (rule lock_at_op [OF lock_at_new [unfolded lock_at_def], where t = 1 and op = "Enter Group2" and cw = "0" and r = Entered and acts = "[]"])
      (simp_all add: lock_at_def lock_at_upd CompareExchange_def EnterAsReader_def enterR_cwAI_def)
  show "lock_reach ReaderWriterLock {1, 2} (lock_at 0x00028000 0 0 (Owns Group2, []) (Owns Group2, []))"
    by (rule lock_at_op [OF 1 [unfolded lock_at_def], where t = 2 and op = "Enter Group2" and cw = "0x00018000" and r = Entered and acts = "[]"])
      (simp_all add: lock_at_def lock_at_upd CompareExchange_def EnterAsReader_def enterR_cwAI_def)
qed

lemma let_in: "lock_reach ReaderWriterLock {1, 2} (lock_at 0x00018000 0 1 (Outside, []) (Waits Group2, []))"
proof -
  let ?R = "\<lambda>cw own n p q. lock_reach ReaderWriterLock {1, 2} (lock_at cw own n p q)"
  have 1: "?R 0x80000001 0 0 (Owns Group1, []) (Outside, [])"
    by (rule lock_at_op [OF lock_at_new [unfolded lock_at_def], where t = 1 and op = "Enter Group1" and cw = "0" and r = Entered and acts = "[]"])
      (simp_all add: lock_at_def lock_at_upd CompareExchange_def EnterAsWriter_def enter1_cwAI_def sar31_def)
  have 2: "?R 0x80018000 0 0 (Owns Group1, []) (Waits Group2, [UpdateOwner Group1 1])"
    by (rule lock_at_op [OF 1 [unfolded lock_at_def], where t = 2 and op = "Enter Group2" and cw = "0x80000001" and r = MustWait and acts = "[UpdateOwner Group1 1]"])
      (simp_all add: lock_at_def lock_at_upd CompareExchange_def EnterAsReader_def slow_EnterAsReader_def enterR_cwAI_def)
  have 3: "?R 0x80018000 1 0 (Owns Group1, []) (Waits Group2, [])"
    by (rule lock_at_act [OF 2 [unfolded lock_at_def], where t = 2 and a = "UpdateOwner Group1 1" and cw = "0" and as = "[]" and new = "[]"])
      (simp_all add: lock_at_def lock_at_upd CompareExchange_def)
  have 4: "?R 0x80018000 1 0 (Outside, [UpdateOwner Group1 0xFFFFFFFF]) (Waits Group2, [])"
    by (rule lock_at_op [OF 3 [unfolded lock_at_def], where t = 1 and op = "Leave Group1" and cw = "0x80018000" and r = Left and acts = "[UpdateOwner Group1 0xFFFFFFFF]"])
      (simp_all add: lock_at_def lock_at_upd CompareExchange_def LeaveAsWriter_def)
  have 5: "?R 0x80018000 0 0 (Outside, [Handover Group1]) (Waits Group2, [])"
    by (rule lock_at_act [OF 4 [unfolded lock_at_def], where t = 1 and a = "UpdateOwner Group1 0xFFFFFFFF" and cw = "0" and as = "[]" and new = "[Handover Group1]"])
      (simp_all add: lock_at_def lock_at_upd CompareExchange_def)
  have 6: "?R 0x00018000 0 0 (Outside, [Release Group2 1]) (Waits Group2, [])"
    by (rule lock_at_act [OF 5 [unfolded lock_at_def], where t = 1 and a = "Handover Group1" and cw = "0x80018000" and as = "[]" and new = "[Release Group2 1]"])
      (simp_all add: lock_at_def lock_at_upd CompareExchange_def UpdateQuiescedOwnerCountAsWriter_def handover1_cwAI_def sar31_def)
  show "?R 0x00018000 0 1 (Outside, []) (Waits Group2, [])"
    by (rule lock_at_act [OF 6 [unfolded lock_at_def], where t = 1 and a = "Release Group2 1" and cw = "0" and as = "[]" and new = "[]"])
      (simp_all add: lock_at_def lock_at_upd CompareExchange_def)
qed

theorem lock_mutual_exclusion_witness:
  "\<exists>T s th. lock_reach ReaderWriterLock T (s, th) \<and> fst (th 1) = Owns Group2 \<and> fst (th 2) = Owns Group2
    \<and> (Group2 = Group2 \<and> (ReaderWriterLock = ReaderWriterLock \<longrightarrow> Group2 = Group2))"
proof -
  let ?c = "lock_at 0x00028000 0 0 (Owns Group2, []) (Owns Group2, [])"
  have r: "lock_reach ReaderWriterLock {1, 2} (fst ?c, snd ?c)"
    using two_readers by simp
  have o: "fst (snd ?c 1) = Owns Group2" "fst (snd ?c 2) = Owns Group2"
    by (simp_all add: lock_at_def)
  have "Group2 = Group2 \<and> (ReaderWriterLock = ReaderWriterLock \<longrightarrow> Group2 = Group2)"
    by (rule lock_mutual_exclusion [OF r _ _ _ _ _ o]) simp_all
  then show ?thesis
    using r o by blast
qed

theorem lock_transitions_valid_witness: "asserts ReaderWriterLock (Leave Group2) 0x00028000"
proof -
  let ?c = "lock_at 0x00028000 0 0 (Owns Group2, []) (Owns Group2, [])"
  have r: "lock_reach ReaderWriterLock {1, 2} (fst ?c, snd ?c)" and t: "snd ?c 1 = (op_needs (Leave Group2), [])"
    using two_readers by (simp_all add: lock_at_def)
  have "finite {1, 2 :: nat}" "card {1, 2 :: nat} < 0x7FFF" "1 \<in> {1, 2 :: nat}"
    by simp_all
  from lock_transitions_valid [OF r this] t have "asserts ReaderWriterLock (Leave Group2) (m_cw (fst ?c))"
    by blast
  then show ?thesis
    by (simp add: lock_at_def del: asserts.simps)
qed

theorem lock_no_lost_wakeup_witness:
  "\<exists>u\<in>{1, 2}. \<exists>g s'. snd (lock_at 0x00018000 0 1 (Outside, []) (Waits Group2, [])) u = (Waits g, [])
     \<and> acquire_sem g (fst (lock_at 0x00018000 0 1 (Outside, []) (Waits Group2, []))) = Some s'"
proof -
  let ?c = "lock_at 0x00018000 0 1 (Outside, []) (Waits Group2, [])"
  have "\<forall>u\<in>{1, 2}. snd (snd ?c u) = [] \<and> (\<forall>g. fst (snd ?c u) \<noteq> Owns g)" "\<exists>t\<in>{1, 2}. \<exists>g. fst (snd ?c t) = Waits g"
    by (simp_all add: lock_at_def)
  moreover have "lock_reach ReaderWriterLock {1, 2} (fst ?c, snd ?c)" "finite {1, 2 :: nat}" "card {1, 2 :: nat} < 0x7FFF"
    using let_in by simp_all
  ultimately show ?thesis
    using lock_no_lost_wakeup by blast
qed

end
