(* ===== verification/Metered_Section.thy ===== *)
theory Metered_Section
  imports Control_Words Thread_Counts
begin

text \<open>
  \<open>CMeteredSection\<close> of \<open>ms/sync.hxx\<close>: a section that threads enter and leave in one of two groups, and that a partition
  divides in those who entered before it and those who enter after it; the completion of the partition is called when the former
  have left. The control word counts the current group (bits 0 to 14) and the quiesced one (bits 16 to 30), each with the number
  of the group in the bit above. The operations are modelled as they stand; threads interleave at every atomic access.
\<close>

unbundle bit_operations_syntax

section \<open>State and operations\<close>

text \<open>
  \<open>m_pfnPartitionComplete\<close> with its key: a routine of the user, or \<open>_PartitionSyncComplete\<close> on the signal of the thread
  that waits in \<open>Partition\<close>.
\<close>

datatype pfn = UserComplete nat | PartitionSyncComplete nat

record CMeteredSection =
  ms_cw :: ULONG
  m_pfnPartitionComplete :: "pfn option"

definition CMeteredSection_new :: CMeteredSection where
  "CMeteredSection_new = \<lparr>ms_cw = 0x80000000, m_pfnPartitionComplete = None\<rparr>"

definition cMaxActive :: ULONG where "cMaxActive = 0x7FFE"
definition groupTooManyActiveErr :: int where "groupTooManyActiveErr = - 2"

definition FEmpty :: "CMeteredSection \<Rightarrow> bool" where
  "FEmpty ms \<longleftrightarrow> ms_cw ms AND 0x7FFF7FFF = 0"

definition GroupActive :: "CMeteredSection \<Rightarrow> int" where
  "GroupActive ms = uint (drop_bit 15 (ms_cw ms) AND 1)"

definition GroupInactive :: "CMeteredSection \<Rightarrow> int" where
  "GroupInactive ms = 1 - GroupActive ms"

text \<open>
  One pass of a loop on the word that it read: the compare-and-swap failed and the loop goes on, a check that is enforced in all
  builds failed and the process stops, or the call is done.
\<close>

datatype 'a pass = Again | Enforced | Done 'a

definition ExchangeWord :: "ULONG \<Rightarrow> ULONG \<Rightarrow> CMeteredSection \<Rightarrow> CMeteredSection \<times> ULONG" where
  "ExchangeWord cwBIExpected cwAI ms = (if ms_cw ms = cwBIExpected then ms\<lparr>ms_cw := cwAI\<rparr> else ms, ms_cw ms)"

definition GroupEnter :: "ULONG \<Rightarrow> CMeteredSection \<Rightarrow> (CMeteredSection \<times> int) pass" where
  "GroupEnter cwRead ms =
     (let cwBIExpected = cwRead; cwAI = cwBIExpected + 1
      in if cwAI AND 0x00007FFF > cMaxActive then Done (ms, groupTooManyActiveErr)
         else let (ms, cwBI) = ExchangeWord cwBIExpected cwAI ms
              in if cwBI \<noteq> cwBIExpected then Again else Done (ms, uint (drop_bit 15 cwBI AND 1)))"

definition MeteredEnter :: "ULONG \<Rightarrow> CMeteredSection \<Rightarrow> (CMeteredSection \<times> int) pass" where
  "MeteredEnter cwRead ms =
     (case GroupEnter cwRead ms of
        Done (ms, groupRet) \<Rightarrow> if groupRet \<noteq> groupTooManyActiveErr then Done (ms, groupRet) else Enforced
      | r \<Rightarrow> r)"

text \<open>The flag of \<open>MeteredLeave\<close> and \<open>PartitionAsync\<close>: the call goes on to run the completion.\<close>

definition metered_leave_cwAI :: "ULONG \<Rightarrow> int \<Rightarrow> ULONG" where
  "metered_leave_cwAI cwBIExpected grp =
     (let g = word_of_int grp
      in cwBIExpected - (drop_bit 15 ((cwBIExpected AND 0x80008000) XOR 0x80008000) XOR (push_bit 16 g OR g)))"

definition MeteredLeave :: "ULONG \<Rightarrow> int \<Rightarrow> CMeteredSection \<Rightarrow> (CMeteredSection \<times> bool) pass" where
  "MeteredLeave cwRead grp ms =
     (let cwBIExpected = cwRead; cwAI = metered_leave_cwAI cwBIExpected grp
      in if cwBIExpected AND 0x80008000 \<noteq> cwAI AND 0x80008000 then Enforced
         else let (ms, cwBI) = ExchangeWord cwBIExpected cwAI ms
              in if cwBI \<noteq> cwBIExpected then Again
                 else Done (ms, (cwBI AND 0x7FFF0000) + (cwAI AND 0x7FFF0000) = 0x00010000))"

text \<open>\<open>_PartitionAsync\<close>: the stores before the loop, and a pass of the loop.\<close>

definition PartitionAsync_set :: "pfn \<Rightarrow> CMeteredSection \<Rightarrow> CMeteredSection" where
  "PartitionAsync_set f ms = ms\<lparr>m_pfnPartitionComplete := Some f\<rparr>"

definition PartitionAsync :: "ULONG \<Rightarrow> CMeteredSection \<Rightarrow> (CMeteredSection \<times> bool) pass" where
  "PartitionAsync cwRead ms =
     (let cwBIExpected = cwRead; cwAI = drop_bit 16 cwBIExpected OR push_bit 16 cwBIExpected;
          (ms, cwBI) = ExchangeWord cwBIExpected cwAI ms
      in if cwBI \<noteq> cwBIExpected then Again else Done (ms, cwAI AND 0x7FFF0000 = 0))"

section \<open>Threads\<close>

text \<open>
  A thread is outside, in a group, between the two halves of \<open>_PartitionAsync\<close>, about to call the completion, or waiting for its
  signal in a synchronous \<open>Partition\<close>. A member carries the number of partitions made when it entered, a waiting thread the
  number of its own partition. \<open>started\<close> and \<open>completed\<close> list the completions of the partitions that were started and those that were called.
\<close>

datatype ms_pc = MOut | MIn int nat | MSwap bool | MComplete bool | MAwait nat

record ms_sys =
  sec :: CMeteredSection
  mth :: "nat \<Rightarrow> ms_pc"
  gen :: nat
  started :: "pfn list"
  completed :: "pfn list"
  asig :: "nat set"

definition ms_init :: ms_sys where
  "ms_init = \<lparr>sec = CMeteredSection_new, mth = (\<lambda>_. MOut), gen = 0, started = [], completed = [], asig = {}\<rparr>"

definition after_completion :: "bool \<Rightarrow> nat \<Rightarrow> ms_pc" where
  "after_completion sync n = (if sync then MAwait n else MOut)"

fun call_completion :: "pfn \<Rightarrow> nat set \<Rightarrow> nat set" where
  "call_completion (UserComplete k) S = S"
| "call_completion (PartitionSyncComplete t) S = insert t S"

inductive ms_step :: "ms_sys \<Rightarrow> nat \<Rightarrow> ms_sys \<Rightarrow> bool" where
  enter: "mth s t = MOut \<Longrightarrow> MeteredEnter cwRead (sec s) = Done (ms, g) \<Longrightarrow>
    ms_step s t (s\<lparr>sec := ms, mth := (mth s)(t := MIn g (gen s))\<rparr>)"
| leave: "mth s t = MIn g e \<Longrightarrow> MeteredLeave cwRead g (sec s) = Done (ms, fin) \<Longrightarrow>
    ms_step s t (s\<lparr>sec := ms, mth := (mth s)(t := if fin then MComplete False else MOut)\<rparr>)"
| part: "mth s t = MOut \<Longrightarrow>
    ms_step s t (s\<lparr>sec := PartitionAsync_set (UserComplete k) (sec s), mth := (mth s)(t := MSwap False),
      started := started s @ [UserComplete k]\<rparr>)"
| part_sync: "mth s t = MOut \<Longrightarrow>
    ms_step s t (s\<lparr>sec := PartitionAsync_set (PartitionSyncComplete t) (sec s), mth := (mth s)(t := MSwap True),
      started := started s @ [PartitionSyncComplete t], asig := asig s - {t}\<rparr>)"
| swap: "mth s t = MSwap sync \<Longrightarrow> PartitionAsync cwRead (sec s) = Done (ms, fin) \<Longrightarrow>
    ms_step s t (s\<lparr>sec := ms, gen := Suc (gen s),
      mth := (mth s)(t := if fin then MComplete sync else after_completion sync (Suc (gen s)))\<rparr>)"
| complete: "mth s t = MComplete sync \<Longrightarrow> m_pfnPartitionComplete (sec s) = Some f \<Longrightarrow>
    ms_step s t (s\<lparr>mth := (mth s)(t := after_completion sync (gen s)), completed := completed s @ [f],
      asig := call_completion f (asig s)\<rparr>)"
| wake: "mth s t = MAwait n \<Longrightarrow> t \<in> asig s \<Longrightarrow>
    ms_step s t (s\<lparr>mth := (mth s)(t := MOut), asig := asig s - {t}\<rparr>)"

text \<open>
  Partitions must not overlap; it is the users of the class who see to that. A discipline says in which states they start one. The one the class asks for is that
  the completion of the last partition has been called: it may start the next one itself, as the hash table does. What the class asserts in debug builds is only that no
  member of the quiesced group is left.
\<close>

definition may_partition :: "ms_sys \<Rightarrow> bool" where
  "may_partition s \<longleftrightarrow> length (started s) = length (completed s)"

definition asserted :: "ms_sys \<Rightarrow> bool" where
  "asserted s \<longleftrightarrow> ms_cw (sec s) AND 0x7FFF0000 = 0"

inductive ms_reach :: "(ms_sys \<Rightarrow> bool) \<Rightarrow> nat set \<Rightarrow> ms_sys \<Rightarrow> bool" for D T where
  init: "ms_reach D T ms_init"
| step: "ms_reach D T s \<Longrightarrow> t \<in> T \<Longrightarrow> ms_step s t s' \<Longrightarrow> started s' = started s \<or> D s \<Longrightarrow> ms_reach D T s'"

section \<open>The control word\<close>

definition groups :: "int \<Rightarrow> bool \<Rightarrow> int \<Rightarrow> ULONG" where
  "groups a p c = cw_fields a p c (\<not> p)"

lemma group_bit: "drop_bit 15 (groups a p c) AND 1 = of_bool p"
  unfolding groups_def by (rule bit_word_eqI) (auto simp: bit_and_iff bit_drop_bit_eq bit_fields bit_1_iff)

lemma swap_halves: "drop_bit 16 (cw_fields a p c q) OR push_bit 16 (cw_fields a p c q) = cw_fields c q a p"
  by (rule bit_word_eqI) (auto simp: bit_or_iff bit_drop_bit_eq bit_push_bit_iff bit_fields)

lemma leave_delta:
  "drop_bit 15 ((cw_fields a p c (\<not> p) AND 0x80008000) XOR 0x80008000) XOR (push_bit 16 (of_bool g) OR of_bool g)
   = (if g = p then 1 else 0x00010000 :: ULONG)"
  unfolding fields_masks by (cases p; cases g) (simp_all add: fields_int)

lemma enter_groups:
  assumes "ms_cw ms = groups a p c" "small a" "small c" "a \<le> 0x7FFE"
  shows "MeteredEnter cwRead ms = Done (ms', g) \<Longrightarrow> a < 0x7FFE \<and> ms' = ms\<lparr>ms_cw := groups (a + 1) p c\<rparr> \<and> g = of_bool p"
    "a < 0x7FFE \<Longrightarrow> MeteredEnter (ms_cw ms) ms = Done (ms\<lparr>ms_cw := groups (a + 1) p c\<rparr>, of_bool p)"
proof -
  have s: "small (a + 1)"
    using assms(2,4) by (simp add: small_def)
  have w: "groups a p c + 1 = groups (a + 1) p c"
    using fields_arith(1) [OF assms(2,3) s] by (simp add: groups_def)
  have m: "groups (a + 1) p c AND 0x00007FFF = word_of_int (a + 1)"
    using bit_tests(9) [OF s assms(3)] by (simp add: groups_def)
  have le: "word_of_int (a + 1) > cMaxActive \<longleftrightarrow> \<not> a < 0x7FFE"
    using assms(4) fields_values(3) [OF s] by (auto simp: cMaxActive_def word_less_def simp del: of_int_add)
  have e: "GroupEnter cwRead ms = Done (ms', g) \<Longrightarrow> g \<noteq> groupTooManyActiveErr \<Longrightarrow> cwRead = groups a p c"
    by (auto simp: GroupEnter_def ExchangeWord_def Let_def assms(1) split: if_splits)
  have d: "MeteredEnter (groups a p c) ms =
      (if a < 0x7FFE then Done (ms\<lparr>ms_cw := groups (a + 1) p c\<rparr>, of_bool p) else Enforced)"
    by (simp add: MeteredEnter_def GroupEnter_def ExchangeWord_def Let_def assms(1) w m le groupTooManyActiveErr_def group_bit del: of_int_add)
  show "a < 0x7FFE \<and> ms' = ms\<lparr>ms_cw := groups (a + 1) p c\<rparr> \<and> g = of_bool p" if "MeteredEnter cwRead ms = Done (ms', g)"
  proof -
    have "cwRead = groups a p c"
      using that e by (auto simp: MeteredEnter_def split: pass.splits prod.splits if_splits)
    then show ?thesis
      using that d by (auto split: if_splits)
  qed
  show "MeteredEnter (ms_cw ms) ms = Done (ms\<lparr>ms_cw := groups (a + 1) p c\<rparr>, of_bool p)" if "a < 0x7FFE"
    using that d assms(1) by simp
qed

lemma leave_groups:
  assumes "ms_cw ms = groups a p c" "small a" "small c" "g \<in> {0, 1}" "if g = of_bool p then 1 \<le> a else 1 \<le> c"
  shows "MeteredLeave cwRead g ms = Done (ms', fin) \<Longrightarrow>
      ms' = ms\<lparr>ms_cw := if g = of_bool p then groups (a - 1) p c else groups a p (c - 1)\<rparr> \<and> fin = (g \<noteq> of_bool p \<and> c = 1)"
    "MeteredLeave (ms_cw ms) g ms =
      Done (ms\<lparr>ms_cw := if g = of_bool p then groups (a - 1) p c else groups a p (c - 1)\<rparr>, g \<noteq> of_bool p \<and> c = 1)"
proof -
  have g: "(word_of_int g :: ULONG) = of_bool (g = 1)" "g = of_bool p \<longleftrightarrow> (g = 1) = p"
    using assms(4) by auto
  have k: "x + 0xFFFFFFFF = x - 1" "x + 0xFFFF0000 = x - 0x00010000" for x :: ULONG
    by simp_all
  have t: "groups a p c - (if (g = 1) = p then 1 else 0x00010000)
      = (if (g = 1) = p then groups (a - 1) p c else groups a p (c - 1))"
    using assms(5) fields_arith(5,6) [OF assms(2,3), of p "\<not> p"] k [of "cw_fields a p c (\<not> p)"] unfolding groups_def g(2)
    by (auto split: if_splits)
  have sm: "(g = 1) = p \<Longrightarrow> small (a - 1)" "(g = 1) \<noteq> p \<Longrightarrow> small (c - 1)"
    using assms(2,3,5) unfolding g(2) by (auto simp: small_def split: if_splits)
  have hi: "(cw_fields 0 False c False :: ULONG) + cw_fields 0 False d False = 0x00010000 \<longleftrightarrow> c + d = 1"
    if "small d" for d
  proof -
    have "(cw_fields 0 False c False :: ULONG) + cw_fields 0 False d False = word_of_int (0x10000 * (c + d))"
      using that assms(3) by (simp add: fields_int algebra_simps)
    moreover have "uint (word_of_int (0x10000 * (c + d)) :: ULONG) = 0x10000 * (c + d)"
      using that assms(3) by (simp only: uint_word_of_int) (simp add: small_def)
    moreover have "word_of_int (0x10000 * (c + d)) = (0x00010000 :: ULONG) \<longleftrightarrow> uint (word_of_int (0x10000 * (c + d)) :: ULONG) = 0x10000"
      by (simp add: word_uint_eq_iff del: of_int_mult of_int_add)
    ultimately show ?thesis
      by auto
  qed
  have ai: "metered_leave_cwAI (groups a p c) g = (if g = of_bool p then groups (a - 1) p c else groups a p (c - 1))"
    using leave_delta [of a p c "g = 1"] t unfolding metered_leave_cwAI_def Let_def g by (simp add: groups_def)
  have m: "groups a p c AND 0x80008000 = groups a' p c' AND 0x80008000" "groups a p c AND 0x7FFF0000 = cw_fields 0 False c False"
    for a c a' c'
    unfolding groups_def fields_masks by simp_all
  have hi1: "(cw_fields 0 False c False :: ULONG) + cw_fields 0 False c False \<noteq> 0x00010000"
    using hi [OF assms(3)] by presburger
  have hi2: "(cw_fields 0 False c False :: ULONG) + cw_fields 0 False (c - 1) False = 0x00010000 \<longleftrightarrow> c = 1" if "g \<noteq> of_bool p"
    using hi [OF sm(2)] that unfolding g(2) by auto
  have d: "MeteredLeave (groups a p c) g ms =
      Done (ms\<lparr>ms_cw := if g = of_bool p then groups (a - 1) p c else groups a p (c - 1)\<rparr>, g \<noteq> of_bool p \<and> c = 1)"
  proof -
    define w where "w = (if g = of_bool p then groups (a - 1) p c else groups a p (c - 1))"
    have "groups a p c AND 0x80008000 = w AND 0x80008000"
      unfolding w_def using m(1) by auto
    moreover have "(groups a p c AND 0x7FFF0000) + (w AND 0x7FFF0000) = 0x00010000 \<longleftrightarrow> g \<noteq> of_bool p \<and> c = 1"
      unfolding w_def using hi1 hi2 m(2) by (cases "g = of_bool p") (simp_all only: if_True if_False, simp_all)
    ultimately show ?thesis
      unfolding MeteredLeave_def Let_def ai w_def [symmetric] ExchangeWord_def assms(1) by simp
  qed
  have "cwRead = groups a p c" if "MeteredLeave cwRead g ms = Done (ms', fin)"
    using that by (auto simp: MeteredLeave_def ExchangeWord_def Let_def assms(1) split: if_splits)
  then show "ms' = ms\<lparr>ms_cw := if g = of_bool p then groups (a - 1) p c else groups a p (c - 1)\<rparr> \<and> fin = (g \<noteq> of_bool p \<and> c = 1)"
    if "MeteredLeave cwRead g ms = Done (ms', fin)"
    using that d by auto
  show "MeteredLeave (ms_cw ms) g ms =
      Done (ms\<lparr>ms_cw := if g = of_bool p then groups (a - 1) p c else groups a p (c - 1)\<rparr>, g \<noteq> of_bool p \<and> c = 1)"
    using d assms(1) by simp
qed

lemma partition_groups:
  assumes "ms_cw ms = groups a p c" "small a" "small c"
  shows "PartitionAsync cwRead ms = Done (ms', fin) \<Longrightarrow> ms' = ms\<lparr>ms_cw := groups c (\<not> p) a\<rparr> \<and> fin = (a = 0)"
    "PartitionAsync (ms_cw ms) ms = Done (ms\<lparr>ms_cw := groups c (\<not> p) a\<rparr>, a = 0)"
proof -
  have d: "PartitionAsync (groups a p c) ms = Done (ms\<lparr>ms_cw := groups c (\<not> p) a\<rparr>, a = 0)"
    using swap_halves [of a p c "\<not> p"] bit_tests(5) [OF assms(3,2), of "\<not> p" p]
    by (simp add: PartitionAsync_def ExchangeWord_def Let_def assms(1) groups_def)
  have "cwRead = groups a p c" if "PartitionAsync cwRead ms = Done (ms', fin)"
    using that by (auto simp: PartitionAsync_def ExchangeWord_def Let_def assms(1) split: if_splits)
  then show "ms' = ms\<lparr>ms_cw := groups c (\<not> p) a\<rparr> \<and> fin = (a = 0)" if "PartitionAsync cwRead ms = Done (ms', fin)"
    using that d by auto
  show "PartitionAsync (ms_cw ms) ms = Done (ms\<lparr>ms_cw := groups c (\<not> p) a\<rparr>, a = 0)"
    using d assms(1) by simp
qed

section \<open>The invariant\<close>

fun memb :: "bool \<Rightarrow> ms_pc \<Rightarrow> int" where
  "memb p (MIn g e) = of_bool (g = of_bool p)"
| "memb p _ = 0"

fun busy :: "ms_pc \<Rightarrow> int" where
  "busy (MSwap b) = 1"
| "busy (MComplete b) = 1"
| "busy _ = 0"

text \<open>The word counts the two groups, and only the members of the quiesced one entered before the last partition.\<close>

definition word_counts :: "nat set \<Rightarrow> ms_sys \<Rightarrow> int \<Rightarrow> bool \<Rightarrow> int \<Rightarrow> bool" where
  "word_counts T s a p c \<longleftrightarrow> ms_cw (sec s) = groups a p c \<and> 0 \<le> a \<and> a \<le> 0x7FFE \<and> 0 \<le> c \<and> c \<le> 0x7FFE
     \<and> a = tot (memb p) T (mth s) \<and> c = tot (memb (\<not> p)) T (mth s)"

definition epochs :: "ms_sys \<Rightarrow> bool \<Rightarrow> bool" where
  "epochs s p \<longleftrightarrow> (\<forall>t g e. mth s t = MIn g e \<longrightarrow> g \<in> {0, 1} \<and> (if g = of_bool p then e = gen s else e < gen s))"

text \<open>A partition that is started and not completed is in the hands of one thread, or of the members it waits for.\<close>

definition pending :: "nat set \<Rightarrow> ms_sys \<Rightarrow> int \<Rightarrow> bool" where
  "pending T s c \<longleftrightarrow> int (length (started s)) = int (length (completed s)) + tot busy T (mth s) + of_bool (0 < c)
     \<and> tot busy T (mth s) + of_bool (0 < c) \<le> 1
     \<and> completed s = take (length (completed s)) (started s)
     \<and> (length (started s) \<noteq> length (completed s) \<longrightarrow> m_pfnPartitionComplete (sec s) = Some (last (started s)))"

definition awaits :: "ms_sys \<Rightarrow> bool" where
  "awaits s \<longleftrightarrow> (\<forall>t. mth s t \<in> {MSwap True, MComplete True} \<longrightarrow> t \<notin> asig s \<and> last (started s) = PartitionSyncComplete t)
     \<and> (\<forall>t n. mth s t = MAwait n \<longrightarrow> n \<le> gen s \<and>
          (if t \<in> asig s then \<forall>u g e. mth s u = MIn g e \<longrightarrow> n \<le> e
           else length (started s) \<noteq> length (completed s) \<and> last (started s) = PartitionSyncComplete t))"

definition ms_inv :: "nat set \<Rightarrow> ms_sys \<Rightarrow> bool" where
  "ms_inv T s \<longleftrightarrow> (\<exists>a p c. word_counts T s a p c \<and> epochs s p \<and> pending T s c) \<and> awaits s"

lemma weights_nonneg: "0 \<le> memb p pc" "0 \<le> busy pc"
  by (cases pc; simp)+

lemma word_countsD:
  assumes "word_counts T s a p c"
  shows "ms_cw (sec s) = groups a p c" "small a" "small c" "a \<le> 0x7FFE"
  using assms by (simp_all add: word_counts_def small_def)

lemma upd_counts:
  assumes "word_counts T s a p c" "finite T" "t \<in> T" "ms_cw ms = groups a' p' c'" "a' \<le> 0x7FFE" "c' \<le> 0x7FFE"
    "a' = tot (memb p') T (mth s) - memb p' (mth s t) + memb p' pc" "c' = tot (memb (\<not> p')) T (mth s) - memb (\<not> p') (mth s t) + memb (\<not> p') pc"
    "sec s' = ms" "mth s' = (mth s)(t := pc)"
  shows "word_counts T s' a' p' c'"
proof -
  have "a' = tot (memb p') T (mth s')" "c' = tot (memb (\<not> p')) T (mth s')"
    using assms(7,8) unfolding assms(10) by (simp_all add: tot_upd [OF assms(2,3)])
  moreover have "0 \<le> tot (memb q) T (mth s')" for q
    by (rule tot_nonneg) (rule weights_nonneg)
  ultimately show ?thesis
    using assms(4-6,9) unfolding word_counts_def by metis
qed

lemma member_counted:
  assumes "word_counts T s a p c" "finite T" "t \<in> T" "mth s t = MIn g e" "g \<in> {0, 1}"
  shows "if g = of_bool p then 1 \<le> a else 1 \<le> c"
proof -
  have q: "memb q (mth s t) \<le> tot (memb q) T (mth s)" for q
    by (rule tot_ge [OF assms(2,3)]) (rule weights_nonneg)
  show ?thesis
    using q [of p] q [of "\<not> p"] assms(1,4,5) by (cases p) (auto simp: word_counts_def)
qed

lemma pending_upd:
  assumes "pending T s c" "finite T" "t \<in> T" "mth s' = (mth s)(t := pc)" "busy pc + of_bool (0 < c') = busy (mth s t) + of_bool (0 < c)"
    "started s' = started s" "completed s' = completed s" "m_pfnPartitionComplete (sec s') = m_pfnPartitionComplete (sec s)"
  shows "pending T s' c'"
  using assms(1,5) unfolding pending_def assms(4,6,7,8) tot_upd [OF assms(2,3)] by auto

lemma awaits_upd:
  assumes "awaits s" "mth s' = (mth s)(t := pc)" "pc \<notin> {MSwap True, MComplete True}" "\<And>n. pc \<noteq> MAwait n"
    "\<And>g e. pc = MIn g e \<Longrightarrow> e = gen s"
    "started s' = started s" "completed s' = completed s" "gen s' = gen s" "asig s' = asig s"
  shows "awaits s'"
  using assms(1,3,4,5) unfolding awaits_def assms(2,6-9) by (auto split: if_splits)

lemma step_metered_enter:
  assumes "ms_inv T s" "finite T" "t \<in> T" "mth s t = MOut" "MeteredEnter cwRead (sec s) = Done (ms, g)"
  shows "ms_inv T (s\<lparr>sec := ms, mth := (mth s)(t := MIn g (gen s))\<rparr>)"
proof -
  obtain a p c where w: "word_counts T s a p c" and e: "epochs s p" and b: "pending T s c" and v: "awaits s"
    using assms(1) unfolding ms_inv_def by blast
  have r: "a < 0x7FFE" "ms = (sec s)\<lparr>ms_cw := groups (a + 1) p c\<rparr>" "g = of_bool p"
    using enter_groups(1) [OF word_countsD [OF w] assms(5)] by blast+
  have "word_counts T (s\<lparr>sec := ms, mth := (mth s)(t := MIn g (gen s))\<rparr>) (a + 1) p c"
    by (rule upd_counts [OF w assms(2,3)]) (use r w in \<open>auto simp: word_counts_def assms(4)\<close>)
  moreover have "epochs (s\<lparr>sec := ms, mth := (mth s)(t := MIn g (gen s))\<rparr>) p"
    using e r(3) by (auto simp: epochs_def)
  moreover have "pending T (s\<lparr>sec := ms, mth := (mth s)(t := MIn g (gen s))\<rparr>) c"
    by (rule pending_upd [OF b assms(2,3), where pc = "MIn g (gen s)"]) (simp_all add: assms(4) r(2))
  moreover have "awaits (s\<lparr>sec := ms, mth := (mth s)(t := MIn g (gen s))\<rparr>)"
    by (rule awaits_upd [OF v, where pc = "MIn g (gen s)"]) simp_all
  ultimately show ?thesis
    unfolding ms_inv_def by blast
qed

lemma step_metered_leave:
  assumes "ms_inv T s" "finite T" "t \<in> T" "mth s t = MIn g e" "MeteredLeave cwRead g (sec s) = Done (ms, fin)"
  shows "ms_inv T (s\<lparr>sec := ms, mth := (mth s)(t := if fin then MComplete False else MOut)\<rparr>)"
    (is "ms_inv T ?s'")
proof -
  obtain a p c where w: "word_counts T s a p c" and ep: "epochs s p" and b: "pending T s c" and v: "awaits s"
    using assms(1) unfolding ms_inv_def by blast
  have g: "g \<in> {0, 1}"
    using ep assms(4) unfolding epochs_def by blast
  have m: "if g = of_bool p then 1 \<le> a else 1 \<le> c"
    by (rule member_counted [OF w assms(2-4) g])
  have r: "ms = (sec s)\<lparr>ms_cw := if g = of_bool p then groups (a - 1) p c else groups a p (c - 1)\<rparr>" "fin = (g \<noteq> of_bool p \<and> c = 1)"
    using leave_groups(1) [OF word_countsD(1-3) [OF w] g m assms(5)] by blast+
  define a' c' where "a' = (if g = of_bool p then a - 1 else a)" and "c' = (if g = of_bool p then c else c - 1)"
  have "word_counts T ?s' a' p c'"
    by (rule upd_counts [OF w assms(2,3)]) (use r g w in \<open>auto simp: word_counts_def assms(4) a'_def c'_def split: if_splits\<close>)
  moreover have "epochs ?s' p"
    using ep by (auto simp: epochs_def)
  moreover have "pending T ?s' c'"
    by (rule pending_upd [OF b assms(2,3)]) (use m r in \<open>auto simp: assms(4) c'_def split: if_splits\<close>)
  moreover have "awaits ?s'"
    by (rule awaits_upd [OF v]) (auto split: if_splits)
  ultimately show ?thesis
    unfolding ms_inv_def by blast
qed

lemma no_busy:
  assumes "tot busy T (mth s) \<le> 0" "finite T" "\<And>t. t \<notin> T \<Longrightarrow> mth s t = MOut"
  shows "busy (mth s u) = 0"
proof (cases "u \<in> T")
  case True
  then show ?thesis
    using tot_ge [OF assms(2) True, of busy "mth s"] weights_nonneg(2) assms(1) by (metis order.antisym order.trans)
qed (simp add: assms(3))

lemma one_busy:
  assumes "tot busy T (mth s) \<le> 1" "finite T" "t \<in> T" "busy (mth s t) = 1" "u \<noteq> t" "\<And>t. t \<notin> T \<Longrightarrow> mth s t = MOut"
  shows "busy (mth s u) = 0"
proof (cases "u \<in> T")
  case True
  then show ?thesis
    using tot_ge2 [OF assms(2) True assms(3,5), of busy "mth s"] weights_nonneg(2) [of "mth s u"] weights_nonneg(2) assms(1,4) by fastforce
qed (simp add: assms(6))

lemma pending_busy:
  assumes "pending T s c" "word_counts T s a p c" "finite T" "t \<in> T" "busy (mth s t) = 1"
  shows "tot busy T (mth s) = 1" "c = 0"
proof -
  have "1 \<le> tot busy T (mth s)"
    using tot_ge [OF assms(3,4), of busy "mth s"] weights_nonneg assms(5) by simp
  then show "tot busy T (mth s) = 1" "c = 0"
    using assms(1,2) unfolding pending_def word_counts_def by (cases "0 < c"; simp)+
qed

lemma awaits_await:
  assumes "awaits s" "mth s t = MAwait n"
  shows "n \<le> gen s" "if t \<in> asig s then \<forall>u g e. mth s u = MIn g e \<longrightarrow> n \<le> e
    else length (started s) \<noteq> length (completed s) \<and> last (started s) = PartitionSyncComplete t"
  using assms unfolding awaits_def by blast+

lemma take_snoc: "xs = take n ys \<Longrightarrow> length ys = Suc (length xs) \<Longrightarrow> xs @ [last ys] = ys"
  by (metis append_butlast_last_id butlast_conv_take diff_Suc_1 length_0_conv length_take min_def nat.simps(3) not_less_eq_eq take_all)

lemma start_partition:
  assumes "ms_inv T s" "finite T" "t \<in> T" "mth s t = MOut" "may_partition s" "\<And>t. t \<notin> T \<Longrightarrow> mth s t = MOut"
    "f = (if sync then PartitionSyncComplete t else UserComplete k)" "S = (if sync then asig s - {t} else asig s)"
  shows "ms_inv T (s\<lparr>sec := PartitionAsync_set f (sec s), mth := (mth s)(t := MSwap sync), started := started s @ [f], asig := S\<rparr>)"
    (is "ms_inv T ?s'")
proof -
  obtain a p c where w: "word_counts T s a p c" and ep: "epochs s p" and b: "pending T s c" and v: "awaits s"
    using assms(1) unfolding ms_inv_def by blast
  have z: "tot busy T (mth s) + of_bool (0 < c) = 0" "length (started s) = length (completed s)"
    using b assms(5) unfolding pending_def may_partition_def by simp_all
  have nb: "busy (mth s u) = 0" for u
    by (rule no_busy [OF _ assms(2)]) (use z(1) assms(6) in \<open>auto simp: of_bool_def split: if_splits\<close>)
  have "word_counts T ?s' a p c"
    by (rule upd_counts [OF w assms(2,3)]) (use w in \<open>auto simp: word_counts_def assms(4) PartitionAsync_set_def\<close>)
  moreover have "epochs ?s' p"
    using ep by (auto simp: epochs_def)
  moreover have "pending T ?s' c"
    using z b unfolding pending_def by (simp add: tot_upd [OF assms(2,3)] assms(4) PartitionAsync_set_def)
  moreover have "awaits ?s'"
    unfolding awaits_def
  proof (intro conjI allI impI)
    fix u assume "mth ?s' u \<in> {MSwap True, MComplete True}"
    then have "u = t \<and> sync"
      using nb [of u] by (auto split: if_splits)
    then show "u \<notin> asig ?s'" "last (started ?s') = PartitionSyncComplete u"
      using assms(7,8) by simp_all
  next
    fix u n assume u: "mth ?s' u = MAwait n"
    then have "mth s u = MAwait n" "u \<noteq> t"
      by (auto split: if_splits)
    then have *: "n \<le> gen s" "u \<in> asig s" "\<forall>v g e. mth s v = MIn g e \<longrightarrow> n \<le> e"
      using awaits_await [OF v, of u n] z(2) by (simp_all split: if_splits)
    then show "n \<le> gen ?s'" "if u \<in> asig ?s' then \<forall>v g e. mth ?s' v = MIn g e \<longrightarrow> n \<le> e
        else length (started ?s') \<noteq> length (completed ?s') \<and> last (started ?s') = PartitionSyncComplete u"
      using \<open>u \<noteq> t\<close> assms(8) by auto
  qed
  ultimately show ?thesis
    unfolding ms_inv_def by blast
qed

lemma step_metered_swap:
  assumes "ms_inv T s" "finite T" "t \<in> T" "mth s t = MSwap sync" "PartitionAsync cwRead (sec s) = Done (ms, fin)"
    "\<And>t. t \<notin> T \<Longrightarrow> mth s t = MOut"
  shows "ms_inv T (s\<lparr>sec := ms, gen := Suc (gen s),
    mth := (mth s)(t := if fin then MComplete sync else after_completion sync (Suc (gen s)))\<rparr>)" (is "ms_inv T ?s'")
proof -
  obtain a p c where w: "word_counts T s a p c" and ep: "epochs s p" and b: "pending T s c" and v: "awaits s"
    using assms(1) unfolding ms_inv_def by blast
  have r: "ms = (sec s)\<lparr>ms_cw := groups c (\<not> p) a\<rparr>" "fin = (a = 0)"
    using partition_groups(1) [OF word_countsD(1-3) [OF w] assms(5)] by blast+
  have z: "tot busy T (mth s) = 1" "c = 0"
    by (rule pending_busy [OF b w assms(2,3)], simp add: assms(4))+
  have nb: "u \<noteq> t \<Longrightarrow> busy (mth s u) = 0" for u
    by (rule one_busy [OF _ assms(2,3)]) (use z(1) assms(4,6) in auto)
  define pc where "pc = (if fin then MComplete sync else after_completion sync (Suc (gen s)))"
  have pc: "memb q pc = 0" "busy pc = of_bool fin" for q
    by (auto simp: pc_def after_completion_def)
  have cur: "g = of_bool p" "e = gen s" if "mth s u = MIn g e" for u g e
  proof -
    have "u \<in> T"
      using that assms(6) by force
    moreover have g: "g \<in> {0, 1}"
      using ep that unfolding epochs_def by blast
    ultimately show "g = of_bool p"
      using member_counted [OF w assms(2) _ that] z(2) by (auto split: if_splits)
    then show "e = gen s"
      using ep that unfolding epochs_def by auto
  qed
  have "word_counts T ?s' c (\<not> p) a"
    by (rule upd_counts [OF w assms(2,3)]) (use w r pc in \<open>auto simp: word_counts_def assms(4) pc_def\<close>)
  moreover have "epochs ?s' (\<not> p)"
    unfolding epochs_def
  proof (intro allI impI)
    fix u g e assume "mth ?s' u = MIn g e"
    then have "mth s u = MIn g e"
      by (auto simp: after_completion_def split: if_splits)
    from cur [OF this] show "g \<in> {0, 1} \<and> (if g = of_bool (\<not> p) then e = gen ?s' else e < gen ?s')"
      by simp
  qed
  moreover have "pending T ?s' a"
    using b z w r pc(2) unfolding pending_def word_counts_def
    by (auto simp: tot_upd [OF assms(2,3)] assms(4) after_completion_def simp flip: pc_def split: if_splits)
  moreover have "awaits ?s'"
    unfolding awaits_def
  proof (intro conjI allI impI)
    fix u assume "mth ?s' u \<in> {MSwap True, MComplete True}"
    then have "u = t \<and> sync"
      using nb [of u] by (auto simp: after_completion_def split: if_splits)
    then show "u \<notin> asig ?s'" "last (started ?s') = PartitionSyncComplete u"
      using v assms(4) unfolding awaits_def by auto
  next
    fix u n assume u: "mth ?s' u = MAwait n"
    have *: "mth s u = MAwait n \<or> u = t \<and> sync \<and> n = Suc (gen s)"
      using u by (auto simp: after_completion_def split: if_splits)
    have k: "length (started s) \<noteq> length (completed s)" "sync \<Longrightarrow> t \<notin> asig s" "sync \<Longrightarrow> last (started s) = PartitionSyncComplete t"
      using b z assms(4) v unfolding pending_def awaits_def by auto
    show "n \<le> gen ?s'"
      using * awaits_await(1) [OF v, of u n] by auto
    show "if u \<in> asig ?s' then \<forall>v g e. mth ?s' v = MIn g e \<longrightarrow> n \<le> e
        else length (started ?s') \<noteq> length (completed ?s') \<and> last (started ?s') = PartitionSyncComplete u"
      using * awaits_await(2) [OF v, of u n] k by (auto simp: after_completion_def split: if_splits)
  qed
  ultimately show ?thesis
    unfolding ms_inv_def by blast
qed

lemma step_metered_complete:
  assumes "ms_inv T s" "finite T" "t \<in> T" "mth s t = MComplete sync" "m_pfnPartitionComplete (sec s) = Some f"
    "\<And>t. t \<notin> T \<Longrightarrow> mth s t = MOut"
  shows "ms_inv T (s\<lparr>mth := (mth s)(t := after_completion sync (gen s)), completed := completed s @ [f],
      asig := call_completion f (asig s)\<rparr>)" (is "ms_inv T ?s'")
proof -
  obtain a p c where w: "word_counts T s a p c" and ep: "epochs s p" and b: "pending T s c" and v: "awaits s"
    using assms(1) unfolding ms_inv_def by blast
  have z: "tot busy T (mth s) = 1" "c = 0"
    by (rule pending_busy [OF b w assms(2,3)], simp add: assms(4))+
  have nb: "u \<noteq> t \<Longrightarrow> busy (mth s u) = 0" for u
    by (rule one_busy [OF _ assms(2,3)]) (use z(1) assms(4,6) in auto)
  have k: "length (started s) = Suc (length (completed s))" "f = last (started s)" "completed s = take (length (completed s)) (started s)"
    using b z assms(5) unfolding pending_def by auto
  have all: "completed s @ [f] = started s"
    unfolding k(2) by (rule take_snoc [OF k(3,1)])
  have cur: "e = gen s" if "mth s u = MIn g e" for u g e
  proof -
    have "u \<in> T"
      using that assms(6) by force
    then show ?thesis
      using member_counted [OF w assms(2) _ that] z(2) ep that unfolding epochs_def by (auto split: if_splits)
  qed
  have "word_counts T ?s' a p c"
    by (rule upd_counts [OF w assms(2,3)]) (use w in \<open>auto simp: word_counts_def assms(4) after_completion_def\<close>)
  moreover have "epochs ?s' p"
    using ep unfolding epochs_def by (auto simp: after_completion_def split: if_splits)
  moreover have "pending T ?s' c"
    using z(1) k(1) unfolding pending_def by (simp add: z(2) tot_upd [OF assms(2,3)] assms(4) all after_completion_def)
  moreover have "awaits ?s'"
    unfolding awaits_def
  proof (intro conjI allI impI)
    fix u assume "mth ?s' u \<in> {MSwap True, MComplete True}"
    then have False
      using nb [of u] by (auto simp: after_completion_def split: if_splits)
    then show "u \<notin> asig ?s'" "last (started ?s') = PartitionSyncComplete u"
      by simp_all
  next
    fix u n assume u: "mth ?s' u = MAwait n"
    have *: "mth s u = MAwait n \<or> u = t \<and> sync \<and> n = gen s"
      using u by (auto simp: after_completion_def split: if_splits)
    have le: "n \<le> gen s" and sig: "u \<in> asig ?s'"
      using * v assms(4) unfolding awaits_def k(2) by (auto split: if_splits) (metis call_completion.simps insertI1 insertI2 call_completion.elims)+
    show "n \<le> gen ?s'"
      using le by simp
    show "if u \<in> asig ?s' then \<forall>v g e. mth ?s' v = MIn g e \<longrightarrow> n \<le> e
        else length (started ?s') \<noteq> length (completed ?s') \<and> last (started ?s') = PartitionSyncComplete u"
      using sig le cur by (auto simp: after_completion_def split: if_splits)
  qed
  ultimately show ?thesis
    unfolding ms_inv_def by blast
qed

lemma step_metered_wake:
  assumes "ms_inv T s" "finite T" "t \<in> T" "mth s t = MAwait n"
  shows "ms_inv T (s\<lparr>mth := (mth s)(t := MOut), asig := asig s - {t}\<rparr>)" (is "ms_inv T ?s'")
proof -
  obtain a p c where w: "word_counts T s a p c" and ep: "epochs s p" and b: "pending T s c" and v: "awaits s"
    using assms(1) unfolding ms_inv_def by blast
  have "word_counts T ?s' a p c"
    by (rule upd_counts [OF w assms(2,3)]) (use w in \<open>auto simp: word_counts_def assms(4)\<close>)
  moreover have "epochs ?s' p"
    using ep by (auto simp: epochs_def)
  moreover have "pending T ?s' c"
    by (rule pending_upd [OF b assms(2,3), where pc = MOut]) (simp_all add: assms(4))
  moreover have "awaits ?s'"
    using v unfolding awaits_def by (auto split: if_splits)
  ultimately show ?thesis
    unfolding ms_inv_def by blast
qed

lemma ms_step_outside: "ms_step s t s' \<Longrightarrow> u \<noteq> t \<Longrightarrow> mth s' u = mth s u"
  by (induction rule: ms_step.induct) simp_all

lemma ms_reach_outside: "ms_reach D T s \<Longrightarrow> u \<notin> T \<Longrightarrow> mth s u = MOut"
proof (induction rule: ms_reach.induct)
  case (step s t s')
  then show ?case
    using ms_step_outside [OF step.hyps(3), of u] by auto
qed (simp add: ms_init_def)

lemma ms_step_inv:
  assumes "ms_step s t s'" "ms_inv T s" "finite T" "t \<in> T" "\<And>t. t \<notin> T \<Longrightarrow> mth s t = MOut" "started s' = started s \<or> may_partition s"
  shows "ms_inv T s'"
  using assms(1)
proof cases
  case (part k)
  then have "may_partition s"
    using assms(6) by simp
  with part show ?thesis
    using start_partition [OF assms(2-4) part(2) _ assms(5), where sync = False and k = k and S = "asig s"] by simp
next
  case part_sync
  then have "may_partition s"
    using assms(6) by simp
  with part_sync show ?thesis
    using start_partition [OF assms(2-4) part_sync(2) _ assms(5), where sync = True and S = "asig s - {t}"] by simp
qed (use step_metered_enter [OF assms(2-4)] step_metered_leave [OF assms(2-4)] step_metered_swap [OF assms(2-4) _ _ assms(5)]
    step_metered_complete [OF assms(2-4) _ _ assms(5)] step_metered_wake [OF assms(2-4)] in auto)

lemma ms_reach_inv: "ms_reach may_partition T s \<Longrightarrow> finite T \<Longrightarrow> ms_inv T s"
proof (induction rule: ms_reach.induct)
  case init
  have "word_counts T ms_init 0 False 0" "pending T ms_init 0"
    by (simp_all add: word_counts_def pending_def ms_init_def CMeteredSection_new_def groups_def fields_int tot_def)
  then show ?case
    unfolding ms_inv_def by (auto simp: epochs_def awaits_def ms_init_def)
next
  case (step s t s')
  then show ?case
    using ms_step_inv ms_reach_outside by metis
qed

section \<open>Properties\<close>

text \<open>
  C13: A metered section gives partitions their grace period, for any number of threads that enter, leave and partition it in any
  interleaving in which a partition is started only after the completion of the last one has been called. When a thread calls the completion of a partition, every thread in the section entered after that partition, and a
  synchronous \<open>Partition\<close> whose signal is set has no earlier member to wait for. Completions are called in the order of the partitions, each at most once,
  and one that is due is not lost: a thread that will call it is on its way or a member that entered before is still inside. No
  thread that leaves its group runs into the enforced underflow check, and the word tells whether the section is empty.
\<close>

theorem metered_section_grace:
  assumes "finite T" "ms_reach may_partition T s"
  shows "(\<forall>t u g e sync. mth s t = MComplete sync \<and> mth s u = MIn g e \<longrightarrow> e = gen s)
    \<and> (\<forall>t n u g e. mth s t = MAwait n \<and> t \<in> asig s \<and> mth s u = MIn g e \<longrightarrow> n \<le> e)
    \<and> completed s = take (length (completed s)) (started s) \<and> length (started s) \<le> Suc (length (completed s))
    \<and> (length (started s) \<noteq> length (completed s) \<longrightarrow>
         (\<exists>t. (\<exists>sync. mth s t = MSwap sync \<or> mth s t = MComplete sync) \<or> (\<exists>g e. mth s t = MIn g e \<and> e < gen s)))
    \<and> (\<forall>t g e. mth s t = MIn g e \<longrightarrow> (\<exists>r. MeteredLeave (ms_cw (sec s)) g (sec s) = Done r))
    \<and> (FEmpty (sec s) \<longleftrightarrow> (\<forall>t g e. mth s t \<noteq> MIn g e))"
proof -
  note out = ms_reach_outside [OF assms(2)]
  obtain a p c where w: "word_counts T s a p c" and ep: "epochs s p" and b: "pending T s c" and v: "awaits s"
    using ms_reach_inv [OF assms(2,1)] unfolding ms_inv_def by blast
  have mem: "t \<in> T \<and> g \<in> {0, 1} \<and> (if g = of_bool p then 1 \<le> a else 1 \<le> c)
      \<and> (if g = of_bool p then e = gen s else e < gen s)" if "mth s t = MIn g e" for t g e
  proof -
    have "t \<in> T" "g \<in> {0, 1}"
      using that out ep unfolding epochs_def by (force, blast)
    then show ?thesis
      using member_counted [OF w assms(1) _ that] ep that unfolding epochs_def by blast
  qed
  have grace: "e = gen s" if "mth s t = MComplete sync" "mth s u = MIn g e" for t u g e sync
  proof -
    have "t \<in> T"
      using that(1) out by force
    then have "c = 0"
      using pending_busy(2) [OF b w assms(1)] that(1) by simp
    then show ?thesis
      using mem [OF that(2)] by (auto split: if_splits)
  qed
  have due: "\<exists>t. (\<exists>sync. mth s t = MSwap sync \<or> mth s t = MComplete sync) \<or> (\<exists>g e. mth s t = MIn g e \<and> e < gen s)"
    if "length (started s) \<noteq> length (completed s)"
  proof (cases "0 < c")
    case True
    then obtain t where "0 < memb (\<not> p) (mth s t)"
      using w tot_pos [OF assms(1)] unfolding word_counts_def by blast
    then obtain g e where "mth s t = MIn g e" "g = of_bool (\<not> p)"
      by (cases "mth s t") (auto split: if_splits)
    then show ?thesis
      using mem [of t g e] by (cases p) auto
  next
    case False
    then have "0 < tot busy T (mth s)"
      using that b tot_nonneg [of busy T "mth s"] weights_nonneg(2) unfolding pending_def by simp
    then obtain t where "0 < busy (mth s t)"
      using tot_pos [OF assms(1)] by blast
    then show ?thesis
      by (cases "mth s t") auto
  qed
  have leave: "\<exists>r. MeteredLeave (ms_cw (sec s)) g (sec s) = Done r" if "mth s t = MIn g e" for t g e
    using leave_groups(2) [OF word_countsD(1-3) [OF w]] mem [OF that] by blast
  have empty: "FEmpty (sec s) \<longleftrightarrow> (\<forall>t g e. mth s t \<noteq> MIn g e)"
  proof -
    have "(0x7FFF7FFF :: ULONG) = cw_fields (keep True) False (keep True) False"
      by (subst fields_int) (simp_all add: small_def keep_def mask_numeral)
    then have "FEmpty (sec s) \<longleftrightarrow> cw_fields a False c False = 0"
      using word_countsD(1) [OF w] fields_and [of a p c "\<not> p" True False True False] by (simp add: FEmpty_def groups_def)
    then have f: "FEmpty (sec s) \<longleftrightarrow> a = 0 \<and> c = 0"
      using word_countsD(2,3) [OF w] by (simp add: fields_zero)
    have "a = 0 \<and> c = 0" if "\<forall>t g e. mth s t \<noteq> MIn g e"
    proof -
      have "memb q (mth s t) = 0" for q t
        using that by (cases "mth s t") auto
      then show ?thesis
        using w unfolding word_counts_def tot_def by simp
    qed
    then show ?thesis
      using f mem by (metis not_one_le_zero)
  qed
  have ord: "completed s = take (length (completed s)) (started s)" "length (started s) \<le> Suc (length (completed s))"
    using b unfolding pending_def by (blast, linarith)
  have sync: "n \<le> e" if "mth s t = MAwait n" "t \<in> asig s" "mth s u = MIn g e" for t n u g e
    using awaits_await(2) [OF v that(1)] that(2,3) by simp
  show ?thesis
    using grace sync ord(1,2) due leave empty by blast
qed

text \<open>A thread enters, another starts a synchronous partition and waits for it, a third enters: only the first is waited for.\<close>

definition drained :: ms_sys where
  "drained = \<lparr>sec = \<lparr>ms_cw = 0x00008001, m_pfnPartitionComplete = Some (PartitionSyncComplete 1)\<rparr>,
     mth = (\<lambda>_. MOut)(0 := MComplete False, 1 := MAwait 1, 2 := MIn 1 1), gen = 1,
     started = [PartitionSyncComplete 1], completed = [], asig = {}\<rparr>"

lemma drained_reach: "ms_reach may_partition {0, 1, 2} drained"
proof -
  define s1 where "s1 = ms_init\<lparr>sec := \<lparr>ms_cw = 0x80000001, m_pfnPartitionComplete = None\<rparr>, mth := (\<lambda>_. MOut)(0 := MIn 0 0)\<rparr>"
  define s2 where "s2 = s1\<lparr>sec := \<lparr>ms_cw = 0x80000001, m_pfnPartitionComplete = Some (PartitionSyncComplete 1)\<rparr>,
    mth := (mth s1)(1 := MSwap True), started := [PartitionSyncComplete 1]\<rparr>"
  define s3 where "s3 = s2\<lparr>sec := (sec s2)\<lparr>ms_cw := 0x00018000\<rparr>, gen := 1, mth := (mth s2)(1 := MAwait 1)\<rparr>"
  define s4 where "s4 = s3\<lparr>sec := (sec s3)\<lparr>ms_cw := 0x00018001\<rparr>, mth := (mth s3)(2 := MIn 1 1)\<rparr>"
  note defs = ExchangeWord_def MeteredEnter_def GroupEnter_def groupTooManyActiveErr_def cMaxActive_def Let_def CMeteredSection_new_def
    MeteredLeave_def metered_leave_cwAI_def PartitionAsync_def PartitionAsync_set_def after_completion_def ms_init_def
  have st1: "ms_step ms_init 0 s1"
    using ms_step.enter [of ms_init 0 "0x80000000" "sec s1" 0] by (simp add: s1_def defs)
  have 1: "ms_reach may_partition {0, 1, 2} s1"
    by (rule ms_reach.step [OF ms_reach.init _ st1]) (simp_all add: s1_def)
  have st2: "ms_step s1 1 s2"
    using ms_step.part_sync [of s1 1] by (simp add: s1_def s2_def defs)
  have 2: "ms_reach may_partition {0, 1, 2} s2"
    by (rule ms_reach.step [OF 1 _ st2]) (simp_all add: s1_def s2_def may_partition_def ms_init_def)
  have st3: "ms_step s2 1 s3"
    using ms_step.swap [of s2 1 True "0x80000001" "sec s3" False] by (simp add: s1_def s2_def s3_def defs)
  have 3: "ms_reach may_partition {0, 1, 2} s3"
    by (rule ms_reach.step [OF 2 _ st3]) (simp_all add: s1_def s3_def may_partition_def ms_init_def)
  have st4: "ms_step s3 2 s4"
    using ms_step.enter [of s3 2 "0x00018000" "sec s4" 1] by (simp add: s1_def s2_def s3_def s4_def defs)
  have 4: "ms_reach may_partition {0, 1, 2} s4"
    by (rule ms_reach.step [OF 3 _ st4]) (simp_all add: s1_def s4_def may_partition_def ms_init_def)
  have st5: "ms_step s4 0 drained"
    using ms_step.leave [of s4 0 0 0 "0x00018001" "sec drained" True]
    by (simp add: s1_def s2_def s3_def s4_def drained_def defs fun_upd_twist)
  show ?thesis
    by (rule ms_reach.step [OF 4 _ st5]) (simp_all add: s1_def s2_def s3_def s4_def drained_def)
qed

theorem metered_section_grace_witness:
  "ms_reach may_partition {0, 1, 2} drained \<and> mth drained 0 = MComplete False \<and> mth drained 2 = MIn 1 (gen drained)
   \<and> \<not> FEmpty (sec drained) \<and> (\<exists>r. MeteredLeave (ms_cw (sec drained)) 1 (sec drained) = Done r)"
proof -
  have t: "mth drained 0 = MComplete False" "mth drained 2 = MIn 1 (gen drained)"
    by (simp_all add: drained_def)
  moreover have "\<not> FEmpty (sec drained)" "\<exists>r. MeteredLeave (ms_cw (sec drained)) 1 (sec drained) = Done r"
    using metered_section_grace [OF _ drained_reach] t by blast+
  ultimately show ?thesis
    using drained_reach by blast
qed

text \<open>
  The assertion of \<open>_PartitionAsync\<close> does not keep partitions apart. When the last member of the quiesced group has left and not yet called the completion,
  the assertion holds, and a partition that starts then overwrites the completion: the first completion is never called, and the second is called twice, the first
  time before its partition is made.
\<close>

definition lost :: ms_sys where
  "lost = \<lparr>sec = \<lparr>ms_cw = 0x80000000, m_pfnPartitionComplete = Some (UserComplete 8)\<rparr>,
     mth = (\<lambda>_. MOut), gen = Suc 1, started = [UserComplete 7, UserComplete 8], completed = [UserComplete 8, UserComplete 8], asig = {}\<rparr>"

theorem assertion_loses_completion:
  "ms_reach asserted {0, 1} lost \<and> UserComplete 7 \<in> set (started lost) \<and> UserComplete 7 \<notin> set (completed lost) \<and> (\<forall>t. mth lost t = MOut)
    \<and> \<not> (\<exists>T. finite T \<and> ms_reach may_partition T lost)"
proof -
  define s1 where "s1 = ms_init\<lparr>sec := \<lparr>ms_cw = 0x80000001, m_pfnPartitionComplete = None\<rparr>, mth := (\<lambda>_. MOut)(0 := MIn 0 0)\<rparr>"
  define s2 where "s2 = s1\<lparr>sec := \<lparr>ms_cw = 0x80000001, m_pfnPartitionComplete = Some (UserComplete 7)\<rparr>,
    mth := (mth s1)(1 := MSwap False), started := [UserComplete 7]\<rparr>"
  define s3 where "s3 = s2\<lparr>sec := (sec s2)\<lparr>ms_cw := 0x00018000\<rparr>, gen := 1, mth := (mth s2)(1 := MOut)\<rparr>"
  define s4 where "s4 = s3\<lparr>sec := (sec s3)\<lparr>ms_cw := 0x00008000\<rparr>, mth := (mth s3)(0 := MComplete False)\<rparr>"
  define s5 where "s5 = s4\<lparr>sec := (sec s4)\<lparr>m_pfnPartitionComplete := Some (UserComplete 8)\<rparr>, mth := (mth s4)(1 := MSwap False),
    started := [UserComplete 7, UserComplete 8]\<rparr>"
  define s6 where "s6 = s5\<lparr>mth := (mth s5)(0 := MOut), completed := [UserComplete 8]\<rparr>"
  define s7 where "s7 = s6\<lparr>sec := (sec s6)\<lparr>ms_cw := 0x80000000\<rparr>, gen := Suc 1, mth := (mth s6)(1 := MComplete False)\<rparr>"
  note defs = ExchangeWord_def MeteredEnter_def GroupEnter_def groupTooManyActiveErr_def cMaxActive_def Let_def CMeteredSection_new_def
    MeteredLeave_def metered_leave_cwAI_def PartitionAsync_def PartitionAsync_set_def after_completion_def ms_init_def asserted_def
  note s = s1_def s2_def s3_def s4_def s5_def s6_def s7_def
  have st1: "ms_step ms_init 0 s1"
    using ms_step.enter [of ms_init 0 "0x80000000" "sec s1" 0] by (simp add: s1_def defs)
  have 1: "ms_reach asserted {0, 1} s1"
    by (rule ms_reach.step [OF ms_reach.init _ st1]) (simp_all add: s1_def)
  have st2: "ms_step s1 1 s2"
    using ms_step.part [of s1 1 7] by (simp add: s1_def s2_def defs)
  have 2: "ms_reach asserted {0, 1} s2"
    by (rule ms_reach.step [OF 1 _ st2]) (simp_all add: s1_def s2_def defs)
  have st3: "ms_step s2 1 s3"
    using ms_step.swap [of s2 1 False "0x80000001" "sec s3" False] by (simp add: s1_def s2_def s3_def defs)
  have 3: "ms_reach asserted {0, 1} s3"
    by (rule ms_reach.step [OF 2 _ st3]) (simp_all add: s3_def)
  have st4: "ms_step s3 0 s4"
    using ms_step.leave [of s3 0 0 0 "0x00018000" "sec s4" True] by (simp add: s1_def s2_def s3_def s4_def defs)
  have 4: "ms_reach asserted {0, 1} s4"
    by (rule ms_reach.step [OF 3 _ st4]) (simp_all add: s4_def)
  have st5: "ms_step s4 1 s5"
    using ms_step.part [of s4 1 8] by (simp add: s1_def s2_def s3_def s4_def s5_def defs)
  have 5: "ms_reach asserted {0, 1} s5"
    by (rule ms_reach.step [OF 4 _ st5]) (simp_all add: s1_def s2_def s3_def s4_def s5_def defs)
  have st6: "ms_step s5 0 s6"
    using ms_step.complete [of s5 0 False "UserComplete 8"] by (simp add: s defs)
  have 6: "ms_reach asserted {0, 1} s6"
    by (rule ms_reach.step [OF 5 _ st6]) (simp_all add: s6_def)
  have st7: "ms_step s6 1 s7"
    using ms_step.swap [of s6 1 False "0x00008000" "sec s7" True] by (simp add: s defs)
  have 7: "ms_reach asserted {0, 1} s7"
    by (rule ms_reach.step [OF 6 _ st7]) (simp_all add: s7_def)
  have st8: "ms_step s7 1 lost"
    using ms_step.complete [of s7 1 False "UserComplete 8"] by (simp add: s defs lost_def fun_upd_idem)
  have "ms_reach asserted {0, 1} lost"
    by (rule ms_reach.step [OF 7 _ st8]) (simp_all add: s lost_def)
  moreover have "\<not> ms_reach may_partition T lost" if "finite T" for T
    using ms_reach_inv [of T lost] that by (auto simp: ms_inv_def pending_def lost_def)
  ultimately show ?thesis
    by (auto simp: lost_def)
qed

end
