(* ===== verification/Hash_Table.thy ===== *)
theory Hash_Table
  imports Metered_Section
begin

text \<open>
  \<open>CDynamicHashTable\<close> of \<open>ms/dht.hxx\<close>: a hash table that grows and shrinks one bucket at a time (linear hashing). A directory of
  arrays holds the bucket heads; each head starts a chain of overflow buckets on the heap, all full but the last. Maintenance splits
  and merges buckets, and a state machine on metered sections doubles and halves the directory.

  Buckets live in an explicit memory, because a split rewrites a chain in place while it reads it. \<open>None\<close> stands for
  behaviour the source leaves undefined (a freed or null bucket, an entry outside its bucket or never written, a failed enforced check),
  and for a call that would wait for a bucket lock. An operation runs without interruption; calls of different clients interleave.
  Code under \<open>DEBUG\<close> and \<open>DHT_STATS\<close> is left out, but for the debug field \<open>m_key\<close> of a lock, which names the key it was taken for.
\<close>

unbundle bit_operations_syntax

section \<open>Types\<close>

type_synonym NativeCounter = QWORD

datatype dht_err = errSuccess | errOutOfMemory | errInvalidParameter | errEntryNotFound | errNoCurrentEntry | errKeyDuplicate

datatype ENUMSTATE = stateNil | stateShrinkFromGrow | stateShrinkFromGrow2 | stateGrowFromShrink | stateGrowFromShrink2
  | stateSplitFromGrow | stateSplitFromGrow2 | stateGrowFromSplit | stateGrowFromSplit2 | stateMergeFromShrink | stateMergeFromShrink2
  | stateShrinkFromMerge | stateShrinkFromMerge2 | stateUnused | stateGrow | stateShrink | stateSplit | stateMerge

text \<open>What a user of the template supplies: the hash of a key and of an entry, and the test whether an entry has a key.\<close>

record ('k, 'e) CKeyEntry =
  HashKey :: "'k \<Rightarrow> NativeCounter"
  HashEntry :: "'e \<Rightarrow> NativeCounter"
  FEntryMatchesKey :: "'e \<Rightarrow> 'k \<Rightarrow> bool"

text \<open>
  A bucket is addressed by its place in an array of the directory or as an allocation of its own. The first union of a bucket is
  the lock of a head or the link to the previous bucket; the second is null, the last entry in use, or the next bucket,
  which the source tells apart by comparing addresses. The lock of a head is what its interface promises while no call waits: free, read by some or written by one.
\<close>

datatype PBUCKET = DirBucket nat nat | HeapBucket nat

datatype rwl = LockFree | LockRead nat | LockWrite

datatype bucket_lock = NoLock | RWL rwl | BucketPrev PBUCKET

datatype bucket_end = NoEnd | EndNull | EntryLast nat | BucketNext PBUCKET

record 'e BUCKET =
  m_u :: bucket_lock
  m_pb :: bucket_end
  m_rgEntry :: "'e option list"

text \<open>The memory: the live buckets, how many allocations were made, and which of them fail.\<close>

record 'e memory =
  cells :: "PBUCKET \<Rightarrow> 'e BUCKET option"
  cAlloc :: nat
  fails :: "nat \<Rightarrow> bool"

record DIRPTRS =
  m_cBucketMax :: NativeCounter
  m_cBucket :: NativeCounter

record HOTSTUFF =
  m_cEntry :: NativeCounter
  m_cOp :: NativeCounter
  m_cms :: CMeteredSection
  m_pReserve :: "PBUCKET option"
  m_cReserve :: "32 word"

record 'e CDynamicHashTable =
  m_cLoadFactor :: NativeCounter
  m_centryBucket :: NativeCounter
  m_cbBucket :: NativeCounter
  m_rghs :: "HOTSTUFF list"
  m_cbucketMin :: NativeCounter
  m_dirptrs0 :: DIRPTRS
  m_dirptrs1 :: DIRPTRS
  m_rgrgBucket :: "bool list"
  m_cOpSensitivity :: NativeCounter
  m_cBucketPreferred :: NativeCounter
  m_stateCur :: ENUMSTATE
  m_semPolicy :: nat
  m_cCompletions :: nat
  mem :: "'e memory"

text \<open>\<open>m_chs\<close> is the length of \<open>m_rghs\<close>; an entry of \<open>m_rgrgBucket\<close> tells whether the array of the directory is allocated.\<close>

datatype ENUMLOCKSTATE = lsNil | lsRead | lsWrite | lsScan

record 'k CLock =
  m_ls :: ENUMLOCKSTATE
  m_fInsertOrDelete :: bool
  m_phs :: nat
  m_key :: "'k option"
  m_pBucketHead :: "PBUCKET option"
  m_pBucket :: "PBUCKET option"
  m_pEntryPrev :: "(PBUCKET \<times> nat) option"
  m_pEntry :: "(PBUCKET \<times> nat) option"
  m_pEntryNext :: "(PBUCKET \<times> nat) option"
  m_iBucket :: NativeCounter

definition CLock_new :: "'k CLock" where
  "CLock_new = \<lparr>m_ls = lsNil, m_fInsertOrDelete = False, m_phs = 0, m_key = None, m_pBucketHead = None, m_pBucket = None,
     m_pEntryPrev = None, m_pEntry = None, m_pEntryNext = None, m_iBucket = 0\<rparr>"

definition IsSameBucketHead :: "'k CLock \<Rightarrow> 'k CLock \<Rightarrow> bool" where
  "IsSameBucketHead this pLock \<longleftrightarrow> m_pBucketHead pLock = m_pBucketHead this"

definition FHasCurrentRecord :: "'k CLock \<Rightarrow> bool" where
  "FHasCurrentRecord plock \<longleftrightarrow> m_pEntry plock \<noteq> None"

section \<open>Memory\<close>

definition centry :: "'e CDynamicHashTable \<Rightarrow> nat" where
  "centry t = unat (m_centryBucket t)"

definition new_BUCKET :: "nat \<Rightarrow> 'e BUCKET" where
  "new_BUCKET C = \<lparr>m_u = NoLock, m_pb = NoEnd, m_rgEntry = replicate C None\<rparr>"

text \<open>\<open>PvMEMAlloc\<close> of one bucket: null, or a new bucket with nothing in it.\<close>

definition PvMEMAlloc :: "nat \<Rightarrow> 'e memory \<Rightarrow> 'e memory \<times> PBUCKET option" where
  "PvMEMAlloc C m =
     (let m' = m\<lparr>cAlloc := Suc (cAlloc m)\<rparr>
      in if fails m (cAlloc m) then (m', None)
         else (m'\<lparr>cells := (cells m)(HeapBucket (cAlloc m) \<mapsto> new_BUCKET C)\<rparr>, Some (HeapBucket (cAlloc m))))"

definition MEMFree :: "PBUCKET option \<Rightarrow> 'e memory \<Rightarrow> 'e memory option" where
  "MEMFree p m = (case p of None \<Rightarrow> Some m
     | Some p \<Rightarrow> if cells m p = None then None else Some (m\<lparr>cells := (cells m)(p := None)\<rparr>))"

definition change :: "PBUCKET \<Rightarrow> ('e BUCKET \<Rightarrow> 'e BUCKET) \<Rightarrow> 'e memory \<Rightarrow> 'e memory option" where
  "change p f m = (case cells m p of None \<Rightarrow> None | Some b \<Rightarrow> Some (m\<lparr>cells := (cells m)(p \<mapsto> f b)\<rparr>))"

definition set_pb :: "PBUCKET \<Rightarrow> bucket_end \<Rightarrow> 'e memory \<Rightarrow> 'e memory option" where
  "set_pb p v = change p (\<lambda>b. b\<lparr>m_pb := v\<rparr>)"

definition set_prev :: "PBUCKET \<Rightarrow> PBUCKET \<Rightarrow> 'e memory \<Rightarrow> 'e memory option" where
  "set_prev p q = change p (\<lambda>b. b\<lparr>m_u := BucketPrev q\<rparr>)"

text \<open>\<open>SetEntry\<close> and \<open>GetEntry\<close> of a \<open>CKeyEntry\<close> store and load \<open>m_entry\<close>.\<close>

definition SetEntry :: "PBUCKET \<Rightarrow> nat \<Rightarrow> 'e \<Rightarrow> 'e memory \<Rightarrow> 'e memory option" where
  "SetEntry p i e m = do {
     b \<leftarrow> cells m p;
     es \<leftarrow> wr (m_rgEntry b) i (Some e);
     Some (m\<lparr>cells := (cells m)(p \<mapsto> b\<lparr>m_rgEntry := es\<rparr>)\<rparr>) }"

definition GetEntry :: "PBUCKET \<Rightarrow> nat \<Rightarrow> 'e memory \<Rightarrow> 'e option" where
  "GetEntry p i m = do { b \<leftarrow> cells m p; e \<leftarrow> rd (m_rgEntry b) i; e }"

section \<open>The pool of reserved buckets\<close>

text \<open>
  The semaphore of a pool guards the list of its buckets; a call takes and releases it around each access.
\<close>

definition get_hs :: "nat \<Rightarrow> 'e CDynamicHashTable \<Rightarrow> HOTSTUFF option" where
  "get_hs h t = rd (m_rghs t) h"

definition set_hs :: "nat \<Rightarrow> HOTSTUFF \<Rightarrow> 'e CDynamicHashTable \<Rightarrow> 'e CDynamicHashTable" where
  "set_hs h hs t = t\<lparr>m_rghs := (m_rghs t)[h := hs]\<rparr>"

definition link_end :: "PBUCKET option \<Rightarrow> bucket_end" where
  "link_end p = (case p of None \<Rightarrow> EndNull | Some q \<Rightarrow> BucketNext q)"

definition FPOOLReserve_slow :: "nat \<Rightarrow> 'e CDynamicHashTable \<Rightarrow> ('e CDynamicHashTable \<times> bool) option" where
  "FPOOLReserve_slow h t = do {
     hs \<leftarrow> get_hs h t;
     let hs = hs\<lparr>m_cReserve := m_cReserve hs + 1\<rparr>;
     let (m, pBucket) = PvMEMAlloc (centry t) (mem t);
     (case pBucket of
        Some p \<Rightarrow> do {
          m \<leftarrow> set_pb p (link_end (m_pReserve hs)) m;
          Some (set_hs h (hs\<lparr>m_pReserve := Some p\<rparr>) (t\<lparr>mem := m\<rparr>), True) }
      | None \<Rightarrow> Some (set_hs h hs (t\<lparr>mem := m\<rparr>), False)) }"

definition FPOOLReserve :: "nat \<Rightarrow> 'e CDynamicHashTable \<Rightarrow> ('e CDynamicHashTable \<times> bool) option" where
  "FPOOLReserve h t = do {
     hs \<leftarrow> get_hs h t;
     let cReserve = m_cReserve hs - 1;
     let t = set_hs h (hs\<lparr>m_cReserve := cReserve\<rparr>) t;
     if \<not> cReserve <s 0 then Some (t, True) else FPOOLReserve_slow h t }"

definition next_of :: "bucket_end \<Rightarrow> PBUCKET option option" where
  "next_of v = (case v of NoEnd \<Rightarrow> None | BucketNext p \<Rightarrow> Some (Some p) | EndNull \<Rightarrow> Some None | EntryLast i \<Rightarrow> Some None)"

definition PbucketPOOLCommit :: "nat \<Rightarrow> 'e CDynamicHashTable \<Rightarrow> ('e CDynamicHashTable \<times> PBUCKET) option" where
  "PbucketPOOLCommit h t = do {
     hs \<leftarrow> get_hs h t;
     p \<leftarrow> m_pReserve hs;
     b \<leftarrow> cells (mem t) p;
     q \<leftarrow> next_of (m_pb b);
     Some (set_hs h (hs\<lparr>m_pReserve := q\<rparr>) t, p) }"

definition POOLUnreserve :: "nat \<Rightarrow> 'e CDynamicHashTable \<Rightarrow> 'e CDynamicHashTable option" where
  "POOLUnreserve h t = do {
     hs \<leftarrow> get_hs h t;
     Some (set_hs h (hs\<lparr>m_cReserve := m_cReserve hs + 1\<rparr>) t) }"

text \<open>The destructor of the pool.\<close>

partial_function (option) free_pool :: "PBUCKET option \<Rightarrow> 'e memory \<Rightarrow> 'e memory option" where
  "free_pool p m = (case p of None \<Rightarrow> Some m
     | Some p \<Rightarrow> do {
         b \<leftarrow> cells m p;
         q \<leftarrow> next_of (m_pb b);
         m \<leftarrow> MEMFree (Some p) m;
         free_pool q m })"

section \<open>Chains\<close>

definition PentryBKTNextMost :: "'e CDynamicHashTable \<Rightarrow> PBUCKET \<Rightarrow> nat option" where
  "PentryBKTNextMost t pBucket = do {
     b \<leftarrow> cells (mem t) pBucket;
     (case m_pb b of
        EntryLast i \<Rightarrow> Some (if i < centry t then Suc i else centry t)
      | EndNull \<Rightarrow> Some 0
      | BucketNext q \<Rightarrow> Some (centry t)
      | NoEnd \<Rightarrow> None) }"

definition PbucketBKTNext :: "'e CDynamicHashTable \<Rightarrow> PBUCKET \<Rightarrow> PBUCKET option option" where
  "PbucketBKTNext t pBucket = do { b \<leftarrow> cells (mem t) pBucket; next_of (m_pb b) }"

text \<open>The entry loops of \<open>BKTSeek\<close> and \<open>BKTISeek\<close>: \<open>n\<close> entries from index \<open>i\<close>.\<close>

fun seek_entries :: "('e \<Rightarrow> bool) \<Rightarrow> 'e option list \<Rightarrow> nat \<Rightarrow> nat \<Rightarrow> nat option option" where
  "seek_entries f es i 0 = Some None"
| "seek_entries f es i (Suc n) = do {
     e \<leftarrow> rd es i;
     e \<leftarrow> e;
     if f e then Some (Some i) else seek_entries f es (Suc i) n }"

partial_function (option) BKTISeek_loop ::
  "('e \<Rightarrow> bool) \<Rightarrow> 'e CDynamicHashTable \<Rightarrow> PBUCKET \<Rightarrow> (PBUCKET \<times> nat option) option" where
  "BKTISeek_loop f t pBucket = do {
     b \<leftarrow> cells (mem t) pBucket;
     most \<leftarrow> PentryBKTNextMost t pBucket;
     r \<leftarrow> seek_entries f (m_rgEntry b) 0 most;
     (case r of
        Some i \<Rightarrow> Some (pBucket, Some i)
      | None \<Rightarrow> do {
          q \<leftarrow> PbucketBKTNext t pBucket;
          (case q of None \<Rightarrow> Some (pBucket, None) | Some q \<Rightarrow> BKTISeek_loop f t q) }) }"

definition BKTISeek :: "('k, 'e) CKeyEntry \<Rightarrow> 'e CDynamicHashTable \<Rightarrow> 'k CLock \<Rightarrow> 'k \<Rightarrow> 'k CLock option" where
  "BKTISeek kf t plock key = do {
     pBucketHead \<leftarrow> m_pBucketHead plock;
     (pBucket, i) \<leftarrow> BKTISeek_loop (\<lambda>e. FEntryMatchesKey kf e key) t pBucketHead;
     Some (plock\<lparr>m_pBucket := Some pBucket, m_pEntryPrev := None, m_pEntry := map_option (Pair pBucket) i, m_pEntryNext := None\<rparr>) }"

definition BKTSeek :: "('k, 'e) CKeyEntry \<Rightarrow> 'e CDynamicHashTable \<Rightarrow> 'k CLock \<Rightarrow> 'k \<Rightarrow> 'k CLock option" where
  "BKTSeek kf t plock key = do {
     pBucketHead \<leftarrow> m_pBucketHead plock;
     let plock = plock\<lparr>m_pBucket := m_pBucketHead plock, m_pEntryPrev := None, m_pEntryNext := None\<rparr>;
     b \<leftarrow> cells (mem t) pBucketHead;
     (case m_pb b of
        EntryLast i \<Rightarrow> do {
          r \<leftarrow> seek_entries (\<lambda>e. FEntryMatchesKey kf e key) (m_rgEntry b) 0 (Suc i);
          Some (plock\<lparr>m_pEntry := map_option (Pair pBucketHead) r\<rparr>) }
      | EndNull \<Rightarrow> Some (plock\<lparr>m_pEntry := None\<rparr>)
      | BucketNext q \<Rightarrow> BKTISeek kf t plock key
      | NoEnd \<Rightarrow> None) }"

definition ErrBKTGetEntry :: "'e CDynamicHashTable \<Rightarrow> 'k CLock \<Rightarrow> (dht_err \<times> 'e option) option" where
  "ErrBKTGetEntry t plock = (case m_pEntry plock of
     Some (p, i) \<Rightarrow> do { e \<leftarrow> GetEntry p i (mem t); Some (errSuccess, Some e) }
   | None \<Rightarrow> Some (errEntryNotFound, None))"

definition ErrBKTReplaceEntry :: "'e CDynamicHashTable \<Rightarrow> 'k CLock \<Rightarrow> 'e \<Rightarrow> (dht_err \<times> 'e CDynamicHashTable) option" where
  "ErrBKTReplaceEntry t plock entry = (case m_pEntry plock of
     Some (p, i) \<Rightarrow> do { m \<leftarrow> SetEntry p i entry (mem t); Some (errSuccess, t\<lparr>mem := m\<rparr>) }
   | None \<Rightarrow> Some (errNoCurrentEntry, t))"

text \<open>The loops that walk to the last bucket of a chain.\<close>

partial_function (option) last_bucket :: "'e CDynamicHashTable \<Rightarrow> PBUCKET \<Rightarrow> PBUCKET option" where
  "last_bucket t pBucketThis = do {
     q \<leftarrow> PbucketBKTNext t pBucketThis;
     (case q of None \<Rightarrow> Some pBucketThis | Some q \<Rightarrow> last_bucket t q) }"

definition ErrBKTInsertEntry ::
  "'e CDynamicHashTable \<Rightarrow> 'k CLock \<Rightarrow> 'e \<Rightarrow> (dht_err \<times> 'e CDynamicHashTable \<times> 'k CLock) option" where
  "ErrBKTInsertEntry t plock entry =
     (if m_pEntry plock \<noteq> None then Some (errKeyDuplicate, t, plock)
      else do {
        pBucket \<leftarrow> m_pBucket plock;
        pBucketThis \<leftarrow> last_bucket t pBucket;
        iThis \<leftarrow> PentryBKTNextMost t pBucketThis;
        (if iThis \<noteq> centry t
         then do {
           m \<leftarrow> SetEntry pBucketThis iThis entry (mem t);
           m \<leftarrow> set_pb pBucketThis (EntryLast iThis) m;
           Some (errSuccess, t\<lparr>mem := m\<rparr>, plock\<lparr>m_pBucket := Some pBucketThis, m_pEntry := Some (pBucketThis, iThis)\<rparr>) }
         else (case PvMEMAlloc (centry t) (mem t) of
             (m, None) \<Rightarrow> Some (errOutOfMemory, t\<lparr>mem := m\<rparr>, plock)
           | (m, Some pBucketT) \<Rightarrow> do {
               m \<leftarrow> set_pb pBucketThis (BucketNext pBucketT) m;
               m \<leftarrow> set_prev pBucketT pBucketThis m;
               m \<leftarrow> SetEntry pBucketT 0 entry m;
               m \<leftarrow> set_pb pBucketT (EntryLast 0) m;
               Some (errSuccess, t\<lparr>mem := m\<rparr>, plock\<lparr>m_pBucket := Some pBucketT, m_pEntry := Some (pBucketT, 0)\<rparr>) })) })"

definition entry_last :: "'e BUCKET \<Rightarrow> nat option" where
  "entry_last b = (case m_pb b of EntryLast i \<Rightarrow> Some i | _ \<Rightarrow> None)"

definition ErrBKTDeleteEntry :: "'e CDynamicHashTable \<Rightarrow> 'k CLock \<Rightarrow> (dht_err \<times> 'e CDynamicHashTable \<times> 'k CLock) option" where
  "ErrBKTDeleteEntry t plock = (case m_pEntry plock of
     None \<Rightarrow> Some (errNoCurrentEntry, t, plock)
   | Some (pEntry, iEntry) \<Rightarrow> do {
       pBucket \<leftarrow> m_pBucket plock;
       b \<leftarrow> cells (mem t) pBucket;
       (pBucketThis, iThis, m) \<leftarrow>
         (if pEntry = pBucket \<and> m_pb b = EntryLast iEntry then Some (pBucket, iEntry, mem t)
          else do {
            pBucketThis \<leftarrow> last_bucket t pBucket;
            bT \<leftarrow> cells (mem t) pBucketThis;
            iThis \<leftarrow> entry_last bT;
            e \<leftarrow> GetEntry pBucketThis iThis (mem t);
            m \<leftarrow> SetEntry pEntry iEntry e (mem t);
            Some (pBucketThis, iThis, m) });
       let plock = plock\<lparr>m_pEntry := None\<rparr>;
       if iThis \<noteq> 0 then do {
         m \<leftarrow> set_pb pBucketThis (EntryLast (iThis - 1)) m;
         Some (errSuccess, t\<lparr>mem := m\<rparr>, plock) }
       else if Some pBucketThis = m_pBucketHead plock then do {
         m \<leftarrow> set_pb pBucketThis EndNull m;
         Some (errSuccess, t\<lparr>mem := m\<rparr>, plock) }
       else do {
         bT \<leftarrow> cells m pBucketThis;
         pPrev \<leftarrow> (case m_u bT of BucketPrev q \<Rightarrow> Some q | _ \<Rightarrow> None);
         m \<leftarrow> set_pb pPrev (EntryLast (centry t - 1)) m;
         m \<leftarrow> MEMFree (Some pBucketThis) m;
         Some (errSuccess, t\<lparr>mem := m\<rparr>,
           if m_pBucket plock = Some pBucketThis then plock\<lparr>m_pBucket := Some pPrev\<rparr> else plock) } })"

section \<open>Splitting and merging chains\<close>

text \<open>The loop of \<open>BKTIDoSplit\<close>: the cursor on the source chain, and the two chains that entries are appended to.\<close>

record split_state =
  pBucketSrcSrc :: PBUCKET
  pBucketNextSrc :: "PBUCKET option"
  iThisSrc :: nat
  iMostSrc :: nat
  pBucketThis0 :: PBUCKET
  iThis0 :: nat
  iLast0 :: "nat option"
  pBucketThis1 :: PBUCKET
  iThis1 :: nat
  iLast1 :: "nat option"
  pBucketAvail :: "PBUCKET option"
  fBucketFromHeap :: bool

definition next_link :: "'e memory \<Rightarrow> PBUCKET \<Rightarrow> PBUCKET option option" where
  "next_link m p = do { b \<leftarrow> cells m p; next_of (m_pb b) }"

text \<open>The step to the next source bucket; a source bucket that is not in use for the kept entries becomes available.\<close>

definition split_advance ::
  "'e CDynamicHashTable \<Rightarrow> split_state \<Rightarrow> PBUCKET \<Rightarrow> ('e CDynamicHashTable \<times> split_state) option" where
  "split_advance t v nxt = do {
     (m, v) \<leftarrow>
       (if pBucketSrcSrc v \<noteq> pBucketThis0 v then do {
          m \<leftarrow> set_pb (pBucketThis0 v) (BucketNext nxt) (mem t);
          m \<leftarrow> set_prev nxt (pBucketThis0 v) m;
          m \<leftarrow> set_pb (pBucketSrcSrc v) (link_end (pBucketAvail v)) m;
          Some (m, v\<lparr>pBucketAvail := Some (pBucketSrcSrc v)\<rparr>) }
        else Some (mem t, v));
     let t = t\<lparr>mem := m\<rparr>;
     most \<leftarrow> PentryBKTNextMost t nxt;
     q \<leftarrow> PbucketBKTNext t nxt;
     Some (t, v\<lparr>iThisSrc := 0, iMostSrc := most, pBucketSrcSrc := nxt, pBucketNextSrc := q\<rparr>) }"

text \<open>The target bucket that is full is followed by the next one.\<close>

definition split_extend :: "nat \<Rightarrow> 'e CDynamicHashTable \<Rightarrow> split_state \<Rightarrow> bool \<Rightarrow> ('e CDynamicHashTable \<times> split_state) option" where
  "split_extend h t v moves =
     (if \<not> moves then
        if iThis0 v < centry t then Some (t, v)
        else do {
          q \<leftarrow> next_link (mem t) (pBucketThis0 v);
          q \<leftarrow> q;
          Some (t, v\<lparr>pBucketThis0 := q, iThis0 := 0\<rparr>) }
      else if iThis1 v < centry t then Some (t, v)
      else do {
        (t, new, v) \<leftarrow>
          (case pBucketAvail v of
             Some p \<Rightarrow> do {
               q \<leftarrow> next_link (mem t) p;
               Some (t, p, v\<lparr>pBucketAvail := q\<rparr>) }
           | None \<Rightarrow> do {
               (t, p) \<leftarrow> PbucketPOOLCommit h t;
               Some (t, p, v\<lparr>fBucketFromHeap := True\<rparr>) });
        m \<leftarrow> set_pb (pBucketThis1 v) (BucketNext new) (mem t);
        m \<leftarrow> set_prev new (pBucketThis1 v) m;
        Some (t\<lparr>mem := m\<rparr>, v\<lparr>pBucketThis1 := new, iThis1 := 0\<rparr>) })"

definition split_store :: "'e CDynamicHashTable \<Rightarrow> split_state \<Rightarrow> bool \<Rightarrow> 'e \<Rightarrow> ('e CDynamicHashTable \<times> split_state) option" where
  "split_store t v moves e =
     (if \<not> moves then do {
        m \<leftarrow> SetEntry (pBucketThis0 v) (iThis0 v) e (mem t);
        Some (t\<lparr>mem := m\<rparr>, v\<lparr>iLast0 := Some (iThis0 v), iThis0 := Suc (iThis0 v), iThisSrc := Suc (iThisSrc v)\<rparr>) }
      else do {
        m \<leftarrow> SetEntry (pBucketThis1 v) (iThis1 v) e (mem t);
        Some (t\<lparr>mem := m\<rparr>, v\<lparr>iLast1 := Some (iThis1 v), iThis1 := Suc (iThis1 v), iThisSrc := Suc (iThisSrc v)\<rparr>) })"

definition split_move ::
  "('e \<Rightarrow> NativeCounter) \<Rightarrow> nat \<Rightarrow> NativeCounter \<Rightarrow> NativeCounter \<Rightarrow> 'e CDynamicHashTable \<Rightarrow> split_state
   \<Rightarrow> ('e CDynamicHashTable \<times> split_state) option" where
  "split_move hash h iHashMask iHashSrc t v = do {
     e \<leftarrow> GetEntry (pBucketSrcSrc v) (iThisSrc v) (mem t);
     let moves = (hash e AND iHashMask \<noteq> iHashSrc);
     (t, v) \<leftarrow> split_extend h t v moves;
     e \<leftarrow> GetEntry (pBucketSrcSrc v) (iThisSrc v) (mem t);
     split_store t v moves e }"

partial_function (option) split_loop ::
  "('e \<Rightarrow> NativeCounter) \<Rightarrow> nat \<Rightarrow> NativeCounter \<Rightarrow> NativeCounter \<Rightarrow> 'e CDynamicHashTable \<Rightarrow> split_state
   \<Rightarrow> ('e CDynamicHashTable \<times> split_state) option" where
  "split_loop hash h iHashMask iHashSrc t v =
     (if iThisSrc v < iMostSrc v then do {
        (t, v) \<leftarrow> split_move hash h iHashMask iHashSrc t v;
        split_loop hash h iHashMask iHashSrc t v }
      else (case pBucketNextSrc v of
          None \<Rightarrow> Some (t, v)
        | Some nxt \<Rightarrow> do {
            (t, v) \<leftarrow> split_advance t v nxt;
            (t, v) \<leftarrow> split_move hash h iHashMask iHashSrc t v;
            split_loop hash h iHashMask iHashSrc t v }))"

definition last_end :: "nat option \<Rightarrow> bucket_end" where
  "last_end i = (case i of None \<Rightarrow> EndNull | Some i \<Rightarrow> EntryLast i)"

definition BKTIDoSplit ::
  "('e \<Rightarrow> NativeCounter) \<Rightarrow> nat \<Rightarrow> PBUCKET \<Rightarrow> PBUCKET \<Rightarrow> NativeCounter \<Rightarrow> 'e CDynamicHashTable \<Rightarrow> 'e CDynamicHashTable option" where
  "BKTIDoSplit hash h src dst iHashSrc t = do {
     let iHashMask = (m_cBucketMax (m_dirptrs0 t) - 1) + m_cBucketMax (m_dirptrs0 t);
     nxt \<leftarrow> PbucketBKTNext t src;
     most \<leftarrow> PentryBKTNextMost t src;
     (t, v) \<leftarrow> split_loop hash h iHashMask iHashSrc t
        \<lparr>pBucketSrcSrc = src, pBucketNextSrc = nxt, iThisSrc = 0, iMostSrc = most,
         pBucketThis0 = src, iThis0 = 0, iLast0 = None, pBucketThis1 = dst, iThis1 = 0, iLast1 = None,
         pBucketAvail = None, fBucketFromHeap = False\<rparr>;
     m \<leftarrow> (if pBucketSrcSrc v = pBucketThis0 v then Some (mem t) else MEMFree (Some (pBucketSrcSrc v)) (mem t));
     m \<leftarrow> set_pb (pBucketThis0 v) (last_end (iLast0 v)) m;
     m \<leftarrow> set_pb (pBucketThis1 v) (last_end (iLast1 v)) m;
     m \<leftarrow> free_pool (pBucketAvail v) m;
     let t = t\<lparr>mem := m\<rparr>;
     if fBucketFromHeap v then Some t else POOLUnreserve h t }"

text \<open>The loop of \<open>BKTIDoMerge\<close>: entries \<open>iSrc\<close> up to \<open>iMost\<close> of the source go to \<open>pDst\<close> from \<open>iDst\<close> on.\<close>

partial_function (option) merge_loop ::
  "nat \<Rightarrow> PBUCKET \<Rightarrow> nat \<Rightarrow> nat \<Rightarrow> PBUCKET \<Rightarrow> nat \<Rightarrow> bool \<Rightarrow> bool \<Rightarrow> 'e CDynamicHashTable
   \<Rightarrow> ('e CDynamicHashTable \<times> PBUCKET \<times> nat \<times> bool \<times> bool) option" where
  "merge_loop h src iSrc iMost pDst iDst fSetEndPtr fHeap t =
     (if iSrc < iMost then
        if iDst < centry t then do {
          e \<leftarrow> GetEntry src iSrc (mem t);
          m \<leftarrow> SetEntry pDst iDst e (mem t);
          merge_loop h src (Suc iSrc) iMost pDst (Suc iDst) fSetEndPtr fHeap (t\<lparr>mem := m\<rparr>) }
        else if \<not> fSetEndPtr then do {
          q \<leftarrow> PbucketBKTNext t pDst;
          q \<leftarrow> q;
          pDst \<leftarrow> last_bucket t q;
          b \<leftarrow> cells (mem t) pDst;
          i \<leftarrow> entry_last b;
          merge_loop h src iSrc iMost pDst (Suc i) True fHeap t }
        else do {
          (t, new) \<leftarrow> PbucketPOOLCommit h t;
          m \<leftarrow> set_pb pDst (BucketNext new) (mem t);
          m \<leftarrow> set_prev new pDst m;
          e \<leftarrow> GetEntry src iSrc m;
          m \<leftarrow> SetEntry new 0 e m;
          merge_loop h src (Suc iSrc) iMost new 1 fSetEndPtr True (t\<lparr>mem := m\<rparr>) }
      else Some (t, pDst, iDst, fSetEndPtr, fHeap))"

definition BKTIDoMerge :: "nat \<Rightarrow> PBUCKET \<Rightarrow> PBUCKET \<Rightarrow> 'e CDynamicHashTable \<Rightarrow> 'e CDynamicHashTable option" where
  "BKTIDoMerge h src dst t = do {
     pDst \<leftarrow> last_bucket t dst;
     iDst \<leftarrow> PentryBKTNextMost t pDst;
     nxt \<leftarrow> PbucketBKTNext t src;
     (t, iMost, fSetEndPtr) \<leftarrow>
       (case nxt of
          None \<Rightarrow> do { most \<leftarrow> PentryBKTNextMost t src; Some (t, most, 0 < most) }
        | Some q \<Rightarrow> do {
            m \<leftarrow> set_pb pDst (BucketNext q) (mem t);
            m \<leftarrow> set_prev q pDst m;
            Some (t\<lparr>mem := m\<rparr>, centry t, False) });
     (t, pDst, iDst, fSetEndPtr, fHeap) \<leftarrow> merge_loop h src 0 iMost pDst iDst fSetEndPtr False t;
     m \<leftarrow> set_pb src EndNull (mem t);
     m \<leftarrow> (if fSetEndPtr then if iDst = 0 then None else set_pb pDst (EntryLast (iDst - 1)) m else Some m);
     let t = t\<lparr>mem := m\<rparr>;
     if fHeap then Some t else POOLUnreserve h t }"

section \<open>The directory\<close>

definition cbCacheLine :: NativeCounter where "cbCacheLine = 32"

definition dir_index :: "ENUMSTATE \<Rightarrow> nat" where
  "dir_index es = (if es = stateSplit \<or> es = stateMerge then 1 else 0)"

definition dirptrs :: "ENUMSTATE \<Rightarrow> 'e CDynamicHashTable \<Rightarrow> DIRPTRS" where
  "dirptrs es t = (if dir_index es = 0 then m_dirptrs0 t else m_dirptrs1 t)"

definition NcDIRIGetBucketMax :: "ENUMSTATE \<Rightarrow> 'e CDynamicHashTable \<Rightarrow> NativeCounter" where
  "NcDIRIGetBucketMax es t = m_cBucketMax (dirptrs es t)"

definition NcDIRIGetBucket :: "ENUMSTATE \<Rightarrow> 'e CDynamicHashTable \<Rightarrow> NativeCounter" where
  "NcDIRIGetBucket es t = m_cBucket (dirptrs es t)"

partial_function (option) log2_loop ::
  "NativeCounter \<Rightarrow> NativeCounter \<Rightarrow> NativeCounter \<Rightarrow> NativeCounter \<Rightarrow> (NativeCounter \<times> NativeCounter) option" where
  "log2_loop iValue iExponent iMaskLast iMask =
     (if iMask < iValue then log2_loop iValue (iExponent + 1) iMask (push_bit 1 iMask + 1)
      else Some (iExponent, iMaskLast AND iValue))"

definition DIRILog2 :: "NativeCounter \<Rightarrow> (NativeCounter \<times> NativeCounter) option" where
  "DIRILog2 iValue = log2_loop iValue 0 1 1"

definition PbucketDIRIResolve :: "NativeCounter \<Rightarrow> NativeCounter \<Rightarrow> 'e CDynamicHashTable \<Rightarrow> PBUCKET option" where
  "PbucketDIRIResolve ibucketIndex ibucketOffset t =
     (case rd (m_rgrgBucket t) (unat ibucketIndex) of
        Some True \<Rightarrow> Some (DirBucket (unat ibucketIndex) (unat ibucketOffset)) | _ \<Rightarrow> None)"

definition iBucket_of :: "NativeCounter \<Rightarrow> NativeCounter \<Rightarrow> NativeCounter \<Rightarrow> NativeCounter" where
  "iBucket_of cBucketMax cBucket iHash =
     (let iBucket = iHash AND ((cBucketMax - 1) + cBucketMax)
      in if iBucket \<ge> cBucketMax + cBucket then iBucket - cBucketMax else iBucket)"

definition PbucketDIRIHash :: "ENUMSTATE \<Rightarrow> NativeCounter \<Rightarrow> 'e CDynamicHashTable \<Rightarrow> (PBUCKET \<times> NativeCounter \<times> NativeCounter) option" where
  "PbucketDIRIHash es iHash t = do {
     let cBucket = NcDIRIGetBucket es t;
     let cBucketMax = NcDIRIGetBucketMax es t;
     let iBucket = iBucket_of cBucketMax cBucket iHash;
     (iExponent, iRemainder) \<leftarrow> DIRILog2 iBucket;
     p \<leftarrow> PbucketDIRIResolve iExponent iRemainder t;
     Some (p, iBucket, cBucket) }"

definition ErrDIRInitBucketArray :: "NativeCounter \<Rightarrow> nat \<Rightarrow> 'e CDynamicHashTable \<Rightarrow> dht_err \<times> 'e CDynamicHashTable" where
  "ErrDIRInitBucketArray cbucketAlloc iArray t =
     (let m = mem t; m' = m\<lparr>cAlloc := Suc (cAlloc m)\<rparr>
      in if fails m (cAlloc m)
         then (errOutOfMemory, t\<lparr>mem := m', m_rgrgBucket := (m_rgrgBucket t)[iArray := False]\<rparr>)
         else (errSuccess, t\<lparr>mem := m'\<lparr>cells := \<lambda>p. (case p of
                   DirBucket a i \<Rightarrow> if a = iArray \<and> i < unat cbucketAlloc
                     then Some ((new_BUCKET (centry t))\<lparr>m_u := RWL LockFree, m_pb := EndNull\<rparr>) else cells m p
                 | _ \<Rightarrow> cells m p)\<rparr>,
               m_rgrgBucket := (m_rgrgBucket t)[iArray := True]\<rparr>))"

text \<open>The loop that allocates the arrays of the first buckets.\<close>

fun init_arrays :: "nat \<Rightarrow> nat \<Rightarrow> 'e CDynamicHashTable \<Rightarrow> dht_err \<times> 'e CDynamicHashTable" where
  "init_arrays iExponent 0 t = (errSuccess, t)"
| "init_arrays iExponent (Suc n) t =
     (if push_bit iExponent 1 < m_cbucketMin t
      then case ErrDIRInitBucketArray (push_bit iExponent 1) iExponent t of
          (errSuccess, t) \<Rightarrow> init_arrays (Suc iExponent) n t
        | r \<Rightarrow> r
      else (errSuccess, t))"

definition ErrDIRInit ::
  "NativeCounter \<Rightarrow> NativeCounter \<Rightarrow> nat \<Rightarrow> NativeCounter \<Rightarrow> NativeCounter \<Rightarrow> 'e CDynamicHashTable
   \<Rightarrow> (dht_err \<times> 'e CDynamicHashTable) option" where
  "ErrDIRInit cbBUCKET cbEntry cProcessor cLoadFactor cbucketMin t =
     (if cLoadFactor < 1 then Some (errInvalidParameter, t)
      else do {
        let t = t\<lparr>m_cLoadFactor := cLoadFactor\<rparr>;
        let cb = cbBUCKET + (cLoadFactor * 2 + 1) * cbEntry;
        let cb = ((cb + cbCacheLine - 1) div cbCacheLine) * cbCacheLine;
        let t = t\<lparr>m_cbBucket := cb, m_centryBucket := (cb - cbBUCKET) div cbEntry\<rparr>;
        let cMin = max (max cbucketMin (word_of_nat cProcessor)) 2;
        (iExponent, iRemainder) \<leftarrow> DIRILog2 cMin;
        let iExponent = (if iRemainder \<noteq> 0 then iExponent + 1 else iExponent);
        let t = t\<lparr>m_cbucketMin := cMin\<rparr>;
        if iRemainder \<noteq> 0 \<and> iExponent \<ge> 64 then Some (errInvalidParameter, t)
        else
          let t = t\<lparr>m_cbucketMin := push_bit (unat iExponent) 1\<rparr>;
              t = t\<lparr>m_dirptrs0 := \<lparr>m_cBucketMax = m_cbucketMin t div 2, m_cBucket = m_cbucketMin t div 2\<rparr>\<rparr>;
              (err, t) = ErrDIRInitBucketArray 2 0 t
          in if err \<noteq> errSuccess then Some (err, t)
             else let (err, t) = init_arrays 1 63 t
                  in if err \<noteq> errSuccess then Some (err, t)
                     else Some (errSuccess, t\<lparr>m_dirptrs1 := \<lparr>m_cBucketMax = 0, m_cBucket = 0\<rparr>\<rparr>) })"

text \<open>\<open>DIRTermBucketArray\<close> frees the overflow buckets of each head, and the array.\<close>

fun term_heads :: "nat \<Rightarrow> nat \<Rightarrow> nat \<Rightarrow> 'e memory \<Rightarrow> 'e memory option" where
  "term_heads iArray i 0 m = Some m"
| "term_heads iArray i (Suc n) m = do {
     q \<leftarrow> next_link m (DirBucket iArray i);
     m \<leftarrow> free_pool q m;
     term_heads iArray (Suc i) n m }"

definition DIRTermBucketArray :: "nat \<Rightarrow> NativeCounter \<Rightarrow> 'e CDynamicHashTable \<Rightarrow> 'e CDynamicHashTable option" where
  "DIRTermBucketArray iArray cbucketTerm t = do {
     m \<leftarrow> term_heads iArray 0 (unat cbucketTerm) (mem t);
     Some (t\<lparr>mem := m\<lparr>cells := \<lambda>p. (case p of DirBucket a i \<Rightarrow> if a = iArray then None else cells m p | _ \<Rightarrow> cells m p)\<rparr>\<rparr>) }"

fun term_arrays :: "nat \<Rightarrow> nat \<Rightarrow> 'e CDynamicHashTable \<Rightarrow> 'e CDynamicHashTable option" where
  "term_arrays iExponent 0 t = Some t"
| "term_arrays iExponent (Suc n) t = do {
     t \<leftarrow> (if m_rgrgBucket t ! iExponent then do {
         t \<leftarrow> DIRTermBucketArray iExponent (if iExponent = 0 then 2 else push_bit iExponent 1) t;
         Some (t\<lparr>m_rgrgBucket := (m_rgrgBucket t)[iExponent := False]\<rparr>) }
       else Some t);
     term_arrays (Suc iExponent) n t }"

definition DIRTerm :: "'e CDynamicHashTable \<Rightarrow> 'e CDynamicHashTable option" where
  "DIRTerm t = do {
     t \<leftarrow> term_arrays 0 64 t;
     Some (t\<lparr>m_dirptrs0 := \<lparr>m_cBucketMax = 0, m_cBucket = 0\<rparr>, m_dirptrs1 := \<lparr>m_cBucketMax = 0, m_cBucket = 0\<rparr>\<rparr>) }"

definition DIRISplit :: "'e CDynamicHashTable \<Rightarrow> 'e CDynamicHashTable" where
  "DIRISplit t = t\<lparr>m_dirptrs0 := \<lparr>m_cBucketMax = m_cBucketMax (m_dirptrs0 t) * 2, m_cBucket = 0\<rparr>\<rparr>"

definition DIRIMerge :: "'e CDynamicHashTable \<Rightarrow> 'e CDynamicHashTable option" where
  "DIRIMerge t = do {
     let cBucketMax = m_cBucketMax (m_dirptrs0 t);
     (iExponent, iRemainder) \<leftarrow> DIRILog2 cBucketMax;
     array \<leftarrow> rd (m_rgrgBucket t) (unat iExponent);
     t \<leftarrow> (if array then do {
         t \<leftarrow> DIRTermBucketArray (unat iExponent) cBucketMax t;
         Some (t\<lparr>m_rgrgBucket := (m_rgrgBucket t)[unat iExponent := False]\<rparr>) }
       else Some t);
     Some (t\<lparr>m_dirptrs0 := \<lparr>m_cBucketMax = cBucketMax div 2, m_cBucket = cBucketMax div 2\<rparr>\<rparr>) }"

section \<open>Bucket locks\<close>

definition set_lock :: "PBUCKET \<Rightarrow> rwl \<Rightarrow> 'e CDynamicHashTable \<Rightarrow> 'e CDynamicHashTable option" where
  "set_lock p r t = do { m \<leftarrow> change p (\<lambda>b. b\<lparr>m_u := RWL r\<rparr>) (mem t); Some (t\<lparr>mem := m\<rparr>) }"

definition CRWL :: "PBUCKET \<Rightarrow> 'e CDynamicHashTable \<Rightarrow> rwl option" where
  "CRWL p t = do { b \<leftarrow> cells (mem t) p; (case m_u b of RWL r \<Rightarrow> Some r | _ \<Rightarrow> None) }"

definition EnterAsReader :: "PBUCKET \<Rightarrow> 'e CDynamicHashTable \<Rightarrow> 'e CDynamicHashTable option" where
  "EnterAsReader p t = do {
     r \<leftarrow> CRWL p t;
     (case r of LockFree \<Rightarrow> set_lock p (LockRead 1) t | LockRead n \<Rightarrow> set_lock p (LockRead (Suc n)) t | LockWrite \<Rightarrow> None) }"

definition FTryEnterAsWriter :: "PBUCKET \<Rightarrow> 'e CDynamicHashTable \<Rightarrow> ('e CDynamicHashTable \<times> bool) option" where
  "FTryEnterAsWriter p t = do {
     r \<leftarrow> CRWL p t;
     if r = LockFree then do { t \<leftarrow> set_lock p LockWrite t; Some (t, True) } else Some (t, False) }"

definition EnterAsWriter :: "PBUCKET \<Rightarrow> 'e CDynamicHashTable \<Rightarrow> 'e CDynamicHashTable option" where
  "EnterAsWriter p t = do { (t, ok) \<leftarrow> FTryEnterAsWriter p t; if ok then Some t else None }"

definition LeaveAsReader :: "PBUCKET \<Rightarrow> 'e CDynamicHashTable \<Rightarrow> 'e CDynamicHashTable option" where
  "LeaveAsReader p t = do {
     r \<leftarrow> CRWL p t;
     (case r of LockRead n \<Rightarrow> set_lock p (if n \<le> 1 then LockFree else LockRead (n - 1)) t | _ \<Rightarrow> None) }"

definition LeaveAsWriter :: "PBUCKET \<Rightarrow> 'e CDynamicHashTable \<Rightarrow> 'e CDynamicHashTable option" where
  "LeaveAsWriter p t = do { r \<leftarrow> CRWL p t; if r = LockWrite then set_lock p LockFree t else None }"

definition FWritersQuiesced :: "PBUCKET \<Rightarrow> 'e CDynamicHashTable \<Rightarrow> bool option" where
  "FWritersQuiesced p t = do { r \<leftarrow> CRWL p t; Some (case r of LockRead n \<Rightarrow> True | _ \<Rightarrow> False) }"

text \<open>The bucket that a hash names may have moved between the read of the directory and the lock.\<close>

definition moved :: "NativeCounter \<Rightarrow> NativeCounter \<Rightarrow> NativeCounter \<Rightarrow> NativeCounter \<Rightarrow> bool" where
  "moved cBucketBefore cBucketAfter cBucketMax iBucket \<longleftrightarrow> cBucketBefore \<noteq> cBucketAfter \<and>
     (cBucketBefore \<le> iBucket \<and> iBucket < cBucketAfter \<or>
      cBucketMax + cBucketAfter \<le> iBucket \<and> iBucket < cBucketMax + cBucketBefore)"

definition DIRReadLockKey ::
  "('k, 'e) CKeyEntry \<Rightarrow> ENUMSTATE \<Rightarrow> 'k \<Rightarrow> 'k CLock \<Rightarrow> 'e CDynamicHashTable \<Rightarrow> ('e CDynamicHashTable \<times> 'k CLock) option" where
  "DIRReadLockKey kf es key plock t = do {
     let iHash = HashKey kf key;
     (p, iBucket, cBucketBefore) \<leftarrow> PbucketDIRIHash es iHash t;
     t \<leftarrow> EnterAsReader p t;
     (t, p) \<leftarrow>
       (if moved cBucketBefore (NcDIRIGetBucket es t) (NcDIRIGetBucketMax es t) iBucket then do {
          t \<leftarrow> LeaveAsReader p t;
          (p, i, c) \<leftarrow> PbucketDIRIHash es iHash t;
          t \<leftarrow> EnterAsReader p t;
          Some (t, p) }
        else Some (t, p));
     Some (t, plock\<lparr>m_key := Some key, m_pBucketHead := Some p\<rparr>) }"

definition DIRReadUnlockKey :: "'k CLock \<Rightarrow> 'e CDynamicHashTable \<Rightarrow> ('e CDynamicHashTable \<times> 'k CLock) option" where
  "DIRReadUnlockKey plock t = do {
     p \<leftarrow> m_pBucketHead plock;
     t \<leftarrow> LeaveAsReader p t;
     Some (t, plock\<lparr>m_pBucketHead := None\<rparr>) }"

definition lock_writer :: "bool \<Rightarrow> PBUCKET \<Rightarrow> 'e CDynamicHashTable \<Rightarrow> ('e CDynamicHashTable \<times> bool) option" where
  "lock_writer fCanFail p t =
     (if fCanFail then FTryEnterAsWriter p t else do { t \<leftarrow> EnterAsWriter p t; Some (t, True) })"

definition FDIRTryWriteLockKey ::
  "('k, 'e) CKeyEntry \<Rightarrow> ENUMSTATE \<Rightarrow> 'k \<Rightarrow> bool \<Rightarrow> 'k CLock \<Rightarrow> 'e CDynamicHashTable \<Rightarrow> ('e CDynamicHashTable \<times> 'k CLock \<times> bool) option" where
  "FDIRTryWriteLockKey kf es key fCanFail plock t = do {
     let plock = plock\<lparr>m_key := Some key\<rparr>;
     let iHash = HashKey kf key;
     (p, iBucket, cBucketBefore) \<leftarrow> PbucketDIRIHash es iHash t;
     (t, ok) \<leftarrow> lock_writer fCanFail p t;
     if \<not> ok then Some (t, plock\<lparr>m_pBucketHead := None\<rparr>, False)
     else if moved cBucketBefore (NcDIRIGetBucket es t) (NcDIRIGetBucketMax es t) iBucket then do {
       t \<leftarrow> LeaveAsWriter p t;
       (p, i, c) \<leftarrow> PbucketDIRIHash es iHash t;
       (t, ok) \<leftarrow> lock_writer fCanFail p t;
       Some (t, plock\<lparr>m_pBucketHead := if ok then Some p else None\<rparr>, ok) }
     else Some (t, plock\<lparr>m_pBucketHead := Some p\<rparr>, True) }"

definition DIRWriteUnlockKey :: "'k CLock \<Rightarrow> 'e CDynamicHashTable \<Rightarrow> ('e CDynamicHashTable \<times> 'k CLock) option" where
  "DIRWriteUnlockKey plock t = do {
     p \<leftarrow> m_pBucketHead plock;
     t \<leftarrow> LeaveAsWriter p t;
     Some (t, plock\<lparr>m_pBucketHead := None\<rparr>) }"

section \<open>The state machine\<close>

text \<open>The result of a call of the metered section that no other thread disturbs.\<close>

definition alone :: "'a pass \<Rightarrow> 'a option" where
  "alone r = (case r of Done x \<Rightarrow> Some x | _ \<Rightarrow> None)"

definition rgstt_next :: "ENUMSTATE \<Rightarrow> ENUMSTATE" where
  "rgstt_next es = (case es of
       stateNil \<Rightarrow> stateNil
     | stateShrinkFromGrow \<Rightarrow> stateShrinkFromGrow2
     | stateShrinkFromGrow2 \<Rightarrow> stateShrink
     | stateGrowFromShrink \<Rightarrow> stateGrowFromShrink2
     | stateGrowFromShrink2 \<Rightarrow> stateGrow
     | stateSplitFromGrow \<Rightarrow> stateSplitFromGrow2
     | stateSplitFromGrow2 \<Rightarrow> stateSplit
     | stateGrowFromSplit \<Rightarrow> stateGrowFromSplit2
     | stateGrowFromSplit2 \<Rightarrow> stateGrow
     | stateMergeFromShrink \<Rightarrow> stateMergeFromShrink2
     | stateMergeFromShrink2 \<Rightarrow> stateMerge
     | stateShrinkFromMerge \<Rightarrow> stateShrinkFromMerge2
     | stateShrinkFromMerge2 \<Rightarrow> stateShrink
     | stateUnused \<Rightarrow> stateNil
     | stateGrow \<Rightarrow> stateNil
     | stateShrink \<Rightarrow> stateNil
     | stateSplit \<Rightarrow> stateGrowFromSplit
     | stateMerge \<Rightarrow> stateShrinkFromMerge)"

definition STCompletionCopyDir :: "'e CDynamicHashTable \<Rightarrow> 'e CDynamicHashTable" where
  "STCompletionCopyDir t = t\<lparr>m_dirptrs1 := m_dirptrs0 t\<rparr>"

definition STCompletionGrowShrink :: "'e CDynamicHashTable \<Rightarrow> 'e CDynamicHashTable" where
  "STCompletionGrowShrink t = t\<lparr>m_semPolicy := Suc (m_semPolicy t)\<rparr>"

definition rgstt_completion :: "ENUMSTATE \<Rightarrow> 'e CDynamicHashTable \<Rightarrow> 'e CDynamicHashTable option" where
  "rgstt_completion es t = (case es of
       stateSplitFromGrow2 \<Rightarrow> Some (STCompletionCopyDir t)
     | stateMergeFromShrink2 \<Rightarrow> Some (STCompletionCopyDir t)
     | stateGrow \<Rightarrow> Some (STCompletionGrowShrink t)
     | stateShrink \<Rightarrow> Some (STCompletionGrowShrink t)
     | stateSplit \<Rightarrow> Some (DIRISplit t)
     | stateMerge \<Rightarrow> DIRIMerge t
     | _ \<Rightarrow> Some t)"

definition STCompletion_by ::
  "(ENUMSTATE \<Rightarrow> 'e CDynamicHashTable \<Rightarrow> 'e CDynamicHashTable option) \<Rightarrow> 'e CDynamicHashTable \<Rightarrow> 'e CDynamicHashTable option" where
  "STCompletion_by transition t =
     (let t = t\<lparr>m_cCompletions := Suc (m_cCompletions t)\<rparr>
      in if m_cCompletions t \<ge> length (m_rghs t) then do {
           let esCurrent = m_stateCur t;
           t \<leftarrow> rgstt_completion esCurrent t;
           if rgstt_next esCurrent \<noteq> stateNil then transition (rgstt_next esCurrent) t else Some t }
         else Some t)"

text \<open>The loop of \<open>STTransition\<close>, with what the completion of a partition runs.\<close>

fun partition_all ::
  "('e CDynamicHashTable \<Rightarrow> 'e CDynamicHashTable option) \<Rightarrow> nat list \<Rightarrow> 'e CDynamicHashTable \<Rightarrow> 'e CDynamicHashTable option" where
  "partition_all completion [] t = Some t"
| "partition_all completion (ihs # ihss) t = do {
     hs \<leftarrow> get_hs ihs t;
     let cms = PartitionAsync_set (UserComplete 0) (m_cms hs);
     (cms, fin) \<leftarrow> alone (PartitionAsync (ms_cw cms) cms);
     let t = set_hs ihs (hs\<lparr>m_cms := cms\<rparr>) t;
     t \<leftarrow> (if fin then completion t else Some t);
     partition_all completion ihss t }"

text \<open>The table of transitions has no cycle, so that a number of nested transitions up to the number of states is enough.\<close>

fun STTransition_by :: "nat \<Rightarrow> ENUMSTATE \<Rightarrow> 'e CDynamicHashTable \<Rightarrow> 'e CDynamicHashTable option" where
  "STTransition_by 0 esNew t = None"
| "STTransition_by (Suc n) esNew t =
     partition_all (STCompletion_by (STTransition_by n)) [0..<length (m_rghs t)] (t\<lparr>m_stateCur := esNew, m_cCompletions := 0\<rparr>)"

definition cStates :: nat where "cStates = 18"

definition STTransition :: "ENUMSTATE \<Rightarrow> 'e CDynamicHashTable \<Rightarrow> 'e CDynamicHashTable option" where
  "STTransition = STTransition_by cStates"

definition STCompletion :: "'e CDynamicHashTable \<Rightarrow> 'e CDynamicHashTable option" where
  "STCompletion = STCompletion_by STTransition"

definition UiSTEnter :: "nat \<Rightarrow> 'e CDynamicHashTable \<Rightarrow> ('e CDynamicHashTable \<times> int) option" where
  "UiSTEnter cpu t = do {
     hs \<leftarrow> get_hs cpu t;
     (cms, iGroup) \<leftarrow> alone (MeteredEnter (ms_cw (m_cms hs)) (m_cms hs));
     Some (set_hs cpu (hs\<lparr>m_cms := cms\<rparr>) t, iGroup) }"

definition STLeave :: "int \<Rightarrow> nat \<Rightarrow> 'e CDynamicHashTable \<Rightarrow> 'e CDynamicHashTable option" where
  "STLeave iGroup h t = do {
     hs \<leftarrow> get_hs h t;
     (cms, fin) \<leftarrow> alone (MeteredLeave (ms_cw (m_cms hs)) iGroup (m_cms hs));
     let t = set_hs h (hs\<lparr>m_cms := cms\<rparr>) t;
     if fin then STCompletion t else Some t }"

section \<open>Maintenance\<close>

text \<open>The part of \<open>BKTISplit\<close> after the source bucket is locked.\<close>

definition split_locked ::
  "('e \<Rightarrow> NativeCounter) \<Rightarrow> nat \<Rightarrow> PBUCKET \<Rightarrow> NativeCounter \<Rightarrow> NativeCounter \<Rightarrow> 'e CDynamicHashTable \<Rightarrow> 'e CDynamicHashTable option" where
  "split_locked hash h src cBucketMax cBucket t = do {
     (iExponent, iRemainder) \<leftarrow> DIRILog2 (cBucketMax + cBucket);
     array \<leftarrow> rd (m_rgrgBucket t) (unat iExponent);
     let (err, t) = (if array then (errSuccess, t) else ErrDIRInitBucketArray cBucketMax (unat iExponent) t);
     if err \<noteq> errSuccess then do { t \<leftarrow> LeaveAsWriter src t; POOLUnreserve h t }
     else do {
       dst \<leftarrow> PbucketDIRIResolve iExponent iRemainder t;
       (t, ok) \<leftarrow> FTryEnterAsWriter dst t;
       let t = t\<lparr>m_dirptrs0 := (m_dirptrs0 t)\<lparr>m_cBucket := m_cBucket (m_dirptrs0 t) + 1\<rparr>\<rparr>;
       t \<leftarrow> BKTIDoSplit hash h src dst cBucket t;
       t \<leftarrow> LeaveAsWriter src t;
       LeaveAsWriter dst t } }"

text \<open>\<open>FWritersQuiesced() || !FTryEnterAsWriter()\<close>: the bucket is contended, or it is locked now.\<close>

definition lock_for_maintenance :: "PBUCKET \<Rightarrow> 'e CDynamicHashTable \<Rightarrow> ('e CDynamicHashTable \<times> bool) option" where
  "lock_for_maintenance p t = do {
     quiesced \<leftarrow> FWritersQuiesced p t;
     if quiesced then Some (t, False) else FTryEnterAsWriter p t }"

definition BKTISplit :: "('e \<Rightarrow> NativeCounter) \<Rightarrow> nat \<Rightarrow> 'e CDynamicHashTable \<Rightarrow> 'e CDynamicHashTable option" where
  "BKTISplit hash h t = do {
     let cBucketMax = NcDIRIGetBucketMax stateGrow t;
     let cBucket = NcDIRIGetBucket stateGrow t;
     if cBucketMax + cBucket \<ge> m_cBucketPreferred t \<or> cBucket = cBucketMax then Some t
     else do {
       (t, ok) \<leftarrow> FPOOLReserve h t;
       if \<not> ok then Some t
       else do {
         (src, i, c) \<leftarrow> PbucketDIRIHash stateGrow cBucket t;
         (t, ok) \<leftarrow> lock_for_maintenance src t;
         if \<not> ok then POOLUnreserve h t
         else if cBucket \<noteq> NcDIRIGetBucket stateGrow t then do { t \<leftarrow> LeaveAsWriter src t; POOLUnreserve h t }
         else split_locked hash h src cBucketMax cBucket t } } }"

definition BKTIMerge :: "nat \<Rightarrow> 'e CDynamicHashTable \<Rightarrow> 'e CDynamicHashTable option" where
  "BKTIMerge h t = do {
     let cBucketMax = NcDIRIGetBucketMax stateShrink t;
     let cBucket = NcDIRIGetBucket stateShrink t;
     if cBucketMax + cBucket \<le> m_cBucketPreferred t \<or> cBucket = 0 then Some t
     else do {
       let cBucket = cBucket - 1;
       (t, ok) \<leftarrow> FPOOLReserve h t;
       if \<not> ok then Some t
       else do {
         (dst, i, c) \<leftarrow> PbucketDIRIHash stateShrink cBucket t;
         (t, ok) \<leftarrow> lock_for_maintenance dst t;
         if \<not> ok then POOLUnreserve h t
         else if cBucket + 1 \<noteq> NcDIRIGetBucket stateShrink t then do { t \<leftarrow> LeaveAsWriter dst t; POOLUnreserve h t }
         else do {
           (iExponent, iRemainder) \<leftarrow> DIRILog2 (cBucket + NcDIRIGetBucketMax stateShrink t);
           src \<leftarrow> PbucketDIRIResolve iExponent iRemainder t;
           (t, ok) \<leftarrow> lock_for_maintenance src t;
           if \<not> ok then do { t \<leftarrow> LeaveAsWriter dst t; POOLUnreserve h t }
           else do {
             let t = t\<lparr>m_dirptrs0 := (m_dirptrs0 t)\<lparr>m_cBucket := m_cBucket (m_dirptrs0 t) - 1\<rparr>\<rparr>;
             t \<leftarrow> BKTIDoMerge h src dst t;
             t \<leftarrow> LeaveAsWriter dst t;
             LeaveAsWriter src t } } } } }"

definition PerformMaintenance :: "('e \<Rightarrow> NativeCounter) \<Rightarrow> nat \<Rightarrow> 'e CDynamicHashTable \<Rightarrow> 'e CDynamicHashTable option" where
  "PerformMaintenance hash cpu t = do {
     (t, iGroup) \<leftarrow> UiSTEnter cpu t;
     let esCurrent = m_stateCur t;
     t \<leftarrow> (if esCurrent = stateGrow then BKTISplit hash cpu t
          else if esCurrent = stateShrink then BKTIMerge cpu t else Some t);
     STLeave iGroup cpu t }"

text \<open>The state that the policy selects.\<close>

definition select_state :: "ENUMSTATE \<Rightarrow> NativeCounter \<Rightarrow> NativeCounter \<Rightarrow> NativeCounter \<Rightarrow> NativeCounter \<Rightarrow> ENUMSTATE" where
  "select_state esCurrent cBucketPreferred cBucketActive cBucketMax cBucket =
     (if esCurrent = stateGrow then
        if cBucketPreferred < cBucketActive then stateShrinkFromGrow
        else if cBucketPreferred > cBucketActive then
          if cBucket = cBucketMax then stateSplitFromGrow else stateNil
        else stateNil
      else
        if cBucketPreferred < cBucketActive then
          if cBucket = 0 then stateMergeFromShrink else stateNil
        else if cBucketPreferred > cBucketActive then stateGrowFromShrink
        else stateNil)"

definition cEntryPreferred_of :: "NativeCounter \<Rightarrow> NativeCounter \<Rightarrow> NativeCounter \<Rightarrow> NativeCounter" where
  "cEntryPreferred_of cEntry cEntryIdeal slack =
     (if cEntryIdeal + slack < cEntry then cEntry - slack
      else if cEntryIdeal > cEntry + slack then cEntry + slack
      else cEntry)"

definition SelectMaintenancePolicy :: "nat \<Rightarrow> 'e CDynamicHashTable \<Rightarrow> 'e CDynamicHashTable option" where
  "SelectMaintenancePolicy h t = do {
     phs \<leftarrow> get_hs h t;
     let esCurrent = m_stateCur t;
     let cBucketMax = NcDIRIGetBucketMax esCurrent t;
     let cBucket = NcDIRIGetBucket esCurrent t;
     let cBucketActive = cBucketMax + cBucket;
     let cOpLocal = m_cOp phs;
     let cEntry = sum_list (map m_cEntry (m_rghs t));
     let cOp = sum_list (map m_cOp (m_rghs t));
     let t = t\<lparr>m_rghs := map (\<lambda>hs. hs\<lparr>m_cOp := 0\<rparr>) (m_rghs t)\<rparr>;
     let cEntryIdeal = m_cLoadFactor t * cBucketActive;
     let cEntryMax = m_centryBucket t * cBucketActive;
     let cEntryFlexibility = max (m_centryBucket t - m_cLoadFactor t) (cEntryMax div 2 - cEntryIdeal);
     let cOpSensitivity = max 1 (cEntryFlexibility div 2);
     if cOpLocal = 0 then None
     else do {
       let ratio = (cOp + cOpLocal - 1) div cOpLocal;
       if ratio = 0 \<or> m_cLoadFactor t = 0 then None
       else do {
         let cOpSensitivityLocal = max 1 (cOpSensitivity div ratio);
         let cEntryPreferred = cEntryPreferred_of cEntry cEntryIdeal (cEntryFlexibility - cOpSensitivity);
         let cBucketPreferred = max (m_cbucketMin t) ((cEntryPreferred + m_cLoadFactor t - 1) div m_cLoadFactor t);
         let esNew = select_state esCurrent cBucketPreferred cBucketActive cBucketMax cBucket;
         let t = t\<lparr>m_cOpSensitivity := cOpSensitivityLocal, m_cBucketPreferred := cBucketPreferred\<rparr>;
         if esNew \<noteq> stateNil then STTransition esNew t
         else Some (t\<lparr>m_semPolicy := Suc (m_semPolicy t)\<rparr>) } } }"

definition MaintainTable :: "('e \<Rightarrow> NativeCounter) \<Rightarrow> nat \<Rightarrow> nat \<Rightarrow> 'e CDynamicHashTable \<Rightarrow> 'e CDynamicHashTable option" where
  "MaintainTable hash cpu h t = do {
     phs \<leftarrow> get_hs h t;
     t \<leftarrow> (if m_cOp phs > m_cOpSensitivity t \<and> 0 < m_semPolicy t
          then SelectMaintenancePolicy h (t\<lparr>m_semPolicy := m_semPolicy t - 1\<rparr>) else Some t);
     if NcDIRIGetBucketMax stateGrow t + NcDIRIGetBucket stateGrow t < m_cBucketPreferred t \<or>
        m_cBucketPreferred t < NcDIRIGetBucketMax stateShrink t + NcDIRIGetBucket stateShrink t
     then PerformMaintenance hash cpu t else Some t }"

section \<open>The interface\<close>

definition count_entry :: "NativeCounter \<Rightarrow> nat \<Rightarrow> 'e CDynamicHashTable \<Rightarrow> 'e CDynamicHashTable option" where
  "count_entry d h t = do {
     hs \<leftarrow> get_hs h t;
     Some (set_hs h (hs\<lparr>m_cEntry := m_cEntry hs + d, m_cOp := m_cOp hs + 1\<rparr>) t) }"

definition STATInsertEntry :: "nat \<Rightarrow> 'e CDynamicHashTable \<Rightarrow> 'e CDynamicHashTable option" where
  "STATInsertEntry = count_entry 1"

definition STATDeleteEntry :: "nat \<Rightarrow> 'e CDynamicHashTable \<Rightarrow> 'e CDynamicHashTable option" where
  "STATDeleteEntry = count_entry (- 1)"

definition HOTSTUFF_new :: HOTSTUFF where
  "HOTSTUFF_new = \<lparr>m_cEntry = 0, m_cOp = 0, m_cms = CMeteredSection_new, m_pReserve = None, m_cReserve = 0\<rparr>"

fun free_pools :: "HOTSTUFF list \<Rightarrow> 'e memory \<Rightarrow> 'e memory option" where
  "free_pools [] m = Some m"
| "free_pools (hs # hss) m = do { m \<leftarrow> free_pools hss m; free_pool (m_pReserve hs) m }"

definition Term :: "'e CDynamicHashTable \<Rightarrow> 'e CDynamicHashTable option" where
  "Term t = do {
     t \<leftarrow> DIRTerm t;
     m \<leftarrow> free_pools (m_rghs t) (mem t);
     Some (t\<lparr>m_rghs := [], mem := m\<rparr>) }"

text \<open>
  \<open>cLoadFactor\<close> is the product of the load factor and the uniformity, which the source converts from floating point; \<open>cbBUCKET\<close> and
  \<open>cbEntry\<close> are the sizes of a bucket's header and of an entry.
\<close>

definition ErrInit ::
  "NativeCounter \<Rightarrow> NativeCounter \<Rightarrow> nat \<Rightarrow> NativeCounter \<Rightarrow> NativeCounter \<Rightarrow> 'e memory
   \<Rightarrow> (dht_err \<times> 'e CDynamicHashTable) option" where
  "ErrInit cbBUCKET cbEntry cProcessor cLoadFactor cBucketMinimum m = do {
     let t = \<lparr>m_cLoadFactor = 0, m_centryBucket = 0, m_cbBucket = 0, m_rghs = [], m_cbucketMin = 0,
              m_dirptrs0 = \<lparr>m_cBucketMax = 0, m_cBucket = 0\<rparr>, m_dirptrs1 = \<lparr>m_cBucketMax = 0, m_cBucket = 0\<rparr>,
              m_rgrgBucket = replicate 64 False, m_cOpSensitivity = 0, m_cBucketPreferred = cBucketMinimum,
              m_stateCur = stateGrow, m_semPolicy = 1, m_cCompletions = 0, mem = m\<lparr>cAlloc := Suc (cAlloc m)\<rparr>\<rparr>;
     if fails m (cAlloc m) then do { t \<leftarrow> Term t; Some (errOutOfMemory, t) }
     else do {
       (err, t) \<leftarrow> ErrDIRInit cbBUCKET cbEntry cProcessor cLoadFactor cBucketMinimum
                     (t\<lparr>m_rghs := replicate cProcessor HOTSTUFF_new\<rparr>);
       if err \<noteq> errSuccess then do { t \<leftarrow> Term t; Some (err, t) } else Some (errSuccess, t) } }"

definition ReadLockKey ::
  "('k, 'e) CKeyEntry \<Rightarrow> nat \<Rightarrow> 'k \<Rightarrow> 'k CLock \<Rightarrow> 'e CDynamicHashTable \<Rightarrow> ('e CDynamicHashTable \<times> 'k CLock) option" where
  "ReadLockKey kf cpu key plock t = do {
     let plock = plock\<lparr>m_ls := lsRead\<rparr>;
     (t, iGroup) \<leftarrow> UiSTEnter cpu t;
     let plock = plock\<lparr>m_phs := cpu\<rparr>;
     (t, plock) \<leftarrow> DIRReadLockKey kf (m_stateCur t) key plock t;
     plock \<leftarrow> BKTSeek kf t plock key;
     t \<leftarrow> STLeave iGroup (m_phs plock) t;
     Some (t, plock) }"

definition ReadUnlockKey :: "'k CLock \<Rightarrow> 'e CDynamicHashTable \<Rightarrow> ('e CDynamicHashTable \<times> 'k CLock) option" where
  "ReadUnlockKey plock t = do {
     (t, plock) \<leftarrow> DIRReadUnlockKey plock t;
     Some (t, plock\<lparr>m_ls := lsNil\<rparr>) }"

definition FTryWriteLockKey ::
  "('k, 'e) CKeyEntry \<Rightarrow> nat \<Rightarrow> 'k \<Rightarrow> bool \<Rightarrow> 'k CLock \<Rightarrow> 'e CDynamicHashTable \<Rightarrow> ('e CDynamicHashTable \<times> 'k CLock \<times> bool) option" where
  "FTryWriteLockKey kf cpu key fCanFail plock t = do {
     let plock = plock\<lparr>m_ls := lsWrite, m_fInsertOrDelete := False\<rparr>;
     (t, iGroup) \<leftarrow> UiSTEnter cpu t;
     let plock = plock\<lparr>m_phs := cpu\<rparr>;
     (t, plock, ok) \<leftarrow> FDIRTryWriteLockKey kf (m_stateCur t) key fCanFail plock t;
     if \<not> ok then do {
       let plock = plock\<lparr>m_ls := lsNil\<rparr>;
       t \<leftarrow> STLeave iGroup (m_phs plock) t;
       Some (t, plock, False) }
     else do {
       plock \<leftarrow> BKTSeek kf t plock key;
       t \<leftarrow> STLeave iGroup (m_phs plock) t;
       Some (t, plock, True) } }"

definition WriteLockKey ::
  "('k, 'e) CKeyEntry \<Rightarrow> nat \<Rightarrow> 'k \<Rightarrow> 'k CLock \<Rightarrow> 'e CDynamicHashTable \<Rightarrow> ('e CDynamicHashTable \<times> 'k CLock) option" where
  "WriteLockKey kf cpu key plock t = do {
     (t, plock, ok) \<leftarrow> FTryWriteLockKey kf cpu key False plock t;
     Some (t, plock) }"

definition WriteUnlockKey ::
  "('k, 'e) CKeyEntry \<Rightarrow> nat \<Rightarrow> 'k CLock \<Rightarrow> 'e CDynamicHashTable \<Rightarrow> ('e CDynamicHashTable \<times> 'k CLock) option" where
  "WriteUnlockKey kf cpu plock t = do {
     (t, plock) \<leftarrow> DIRWriteUnlockKey plock t;
     t \<leftarrow> (if m_fInsertOrDelete plock then MaintainTable (HashEntry kf) cpu (m_phs plock) t else Some t);
     Some (t, plock\<lparr>m_ls := lsNil, m_fInsertOrDelete := False\<rparr>) }"

definition ErrRetrieveEntry :: "'k CLock \<Rightarrow> 'e CDynamicHashTable \<Rightarrow> (dht_err \<times> 'e option) option" where
  "ErrRetrieveEntry plock t = ErrBKTGetEntry t plock"

definition ErrReplaceEntry :: "'e \<Rightarrow> 'k CLock \<Rightarrow> 'e CDynamicHashTable \<Rightarrow> (dht_err \<times> 'e CDynamicHashTable) option" where
  "ErrReplaceEntry entry plock t = ErrBKTReplaceEntry t plock entry"

definition ErrInsertEntry :: "'e \<Rightarrow> 'k CLock \<Rightarrow> 'e CDynamicHashTable \<Rightarrow> (dht_err \<times> 'e CDynamicHashTable \<times> 'k CLock) option" where
  "ErrInsertEntry entry plock t = do {
     (err, t, plock) \<leftarrow> ErrBKTInsertEntry t plock entry;
     if err = errSuccess then do {
       t \<leftarrow> STATInsertEntry (m_phs plock) t;
       Some (err, t, plock\<lparr>m_fInsertOrDelete := True\<rparr>) }
     else Some (err, t, plock) }"

definition ErrDeleteEntry :: "'k CLock \<Rightarrow> 'e CDynamicHashTable \<Rightarrow> (dht_err \<times> 'e CDynamicHashTable \<times> 'k CLock) option" where
  "ErrDeleteEntry plock t = do {
     plock \<leftarrow> (if m_ls plock = lsScan then do {
         pBucket \<leftarrow> m_pBucket plock;
         b \<leftarrow> cells (mem t) pBucket;
         Some (plock\<lparr>m_pEntryNext := (case m_pEntry plock of
             Some (p, i) \<Rightarrow> if p = pBucket \<and> m_pb b = EntryLast i then None else Some (p, i) | None \<Rightarrow> None)\<rparr>) }
       else Some plock);
     (err, t, plock) \<leftarrow> ErrBKTDeleteEntry t plock;
     if err = errSuccess then do {
       t \<leftarrow> STATDeleteEntry (m_phs plock) t;
       Some (err, t, plock\<lparr>m_fInsertOrDelete := True\<rparr>) }
     else Some (err, t, plock) }"

section \<open>Scans\<close>

definition first_entry :: "PBUCKET \<Rightarrow> 'e CDynamicHashTable \<Rightarrow> (PBUCKET \<times> nat) option option" where
  "first_entry p t = do {
     b \<leftarrow> cells (mem t) p;
     Some (if m_pb b \<noteq> EndNull then Some (p, 0) else None) }"

definition begin_scan :: "'k CLock \<Rightarrow> 'e CDynamicHashTable \<Rightarrow> 'k CLock option" where
  "begin_scan plock t = do {
     p \<leftarrow> m_pBucketHead plock;
     n \<leftarrow> first_entry p t;
     Some (plock\<lparr>m_pBucket := Some p, m_pEntryPrev := None, m_pEntry := None, m_pEntryNext := n\<rparr>) }"

definition BeginHashScan :: "nat \<Rightarrow> 'k CLock \<Rightarrow> 'e CDynamicHashTable \<Rightarrow> ('e CDynamicHashTable \<times> 'k CLock) option" where
  "BeginHashScan cpu plock t = do {
     let plock = plock\<lparr>m_ls := lsScan, m_fInsertOrDelete := False, m_iBucket := 0\<rparr>;
     (t, iGroup) \<leftarrow> UiSTEnter cpu t;
     let plock = plock\<lparr>m_phs := cpu\<rparr>;
     (p, i, c) \<leftarrow> PbucketDIRIHash (m_stateCur t) (m_iBucket plock) t;
     t \<leftarrow> EnterAsWriter p t;
     let plock = plock\<lparr>m_pBucketHead := Some p\<rparr>;
     t \<leftarrow> STLeave iGroup (m_phs plock) t;
     plock \<leftarrow> begin_scan plock t;
     Some (t, plock) }"

definition BeginHashScanFromKey ::
  "('k, 'e) CKeyEntry \<Rightarrow> nat \<Rightarrow> 'k \<Rightarrow> 'k CLock \<Rightarrow> 'e CDynamicHashTable \<Rightarrow> ('e CDynamicHashTable \<times> 'k CLock) option" where
  "BeginHashScanFromKey kf cpu key plock t = do {
     let plock = plock\<lparr>m_ls := lsScan, m_fInsertOrDelete := False\<rparr>;
     (t, iGroup) \<leftarrow> UiSTEnter cpu t;
     let plock = plock\<lparr>m_phs := cpu\<rparr>;
     let es = m_stateCur t;
     (t, plock, ok) \<leftarrow> FDIRTryWriteLockKey kf es key False plock t;
     let plock = plock\<lparr>m_iBucket := iBucket_of (NcDIRIGetBucketMax es t) (NcDIRIGetBucket es t) (HashKey kf key)\<rparr>;
     t \<leftarrow> STLeave iGroup (m_phs plock) t;
     plock \<leftarrow> begin_scan plock t;
     Some (t, plock) }"

partial_function (option) scan_loop ::
  "ENUMSTATE \<Rightarrow> 'k CLock \<Rightarrow> 'e CDynamicHashTable \<Rightarrow> ('e CDynamicHashTable \<times> 'k CLock) option" where
  "scan_loop es plock t =
     (if m_iBucket plock + 1 < NcDIRIGetBucketMax es t + NcDIRIGetBucket es t then do {
        let plock = plock\<lparr>m_iBucket := m_iBucket plock + 1\<rparr>;
        (p, i, c) \<leftarrow> PbucketDIRIHash es (m_iBucket plock) t;
        t \<leftarrow> EnterAsWriter p t;
        n \<leftarrow> first_entry p t;
        if m_iBucket plock < NcDIRIGetBucketMax es t + NcDIRIGetBucket es t \<and> n \<noteq> None
        then Some (t, plock\<lparr>m_pBucketHead := Some p, m_pBucket := Some p, m_pEntry := n\<rparr>)
        else do {
          t \<leftarrow> LeaveAsWriter p t;
          scan_loop es (plock\<lparr>m_pBucketHead := None\<rparr>) t } }
      else Some (t, plock))"

definition ErrSCANMoveNext ::
  "('k, 'e) CKeyEntry \<Rightarrow> nat \<Rightarrow> 'k CLock \<Rightarrow> 'e CDynamicHashTable \<Rightarrow> (dht_err \<times> 'e CDynamicHashTable \<times> 'k CLock) option" where
  "ErrSCANMoveNext kf cpu plock t = do {
     (t, plock) \<leftarrow> (case m_pBucketHead plock of
         Some p \<Rightarrow> do {
           t \<leftarrow> LeaveAsWriter p t;
           t \<leftarrow> (if m_fInsertOrDelete plock then MaintainTable (HashEntry kf) cpu (m_phs plock) t else Some t);
           Some (t, plock\<lparr>m_pBucketHead := None\<rparr>) }
       | None \<Rightarrow> Some (t, plock));
     (t, iGroup) \<leftarrow> UiSTEnter cpu t;
     let plock = plock\<lparr>m_phs := cpu\<rparr>;
     (t, plock) \<leftarrow> scan_loop (m_stateCur t) plock t;
     t \<leftarrow> STLeave iGroup (m_phs plock) t;
     Some (if m_pEntry plock \<noteq> None then errSuccess else errNoCurrentEntry, t, plock) }"

text \<open>The result tells also whether the scan has gone on to another bucket.\<close>

definition ErrMoveNext ::
  "('k, 'e) CKeyEntry \<Rightarrow> nat \<Rightarrow> 'k CLock \<Rightarrow> 'e CDynamicHashTable \<Rightarrow> (dht_err \<times> bool \<times> 'e CDynamicHashTable \<times> 'k CLock) option" where
  "ErrMoveNext kf cpu plock t = do {
     plock \<leftarrow> (case m_pEntry plock of
         Some (p, i) \<Rightarrow> do {
           pBucket \<leftarrow> m_pBucket plock;
           most \<leftarrow> PentryBKTNextMost t pBucket;
           if i + 1 < most then Some (plock\<lparr>m_pEntry := Some (p, i + 1)\<rparr>)
           else do {
             q \<leftarrow> PbucketBKTNext t pBucket;
             Some (plock\<lparr>m_pBucket := q, m_pEntry := map_option (\<lambda>q. (q, 0)) q\<rparr>) } }
       | None \<Rightarrow> Some (plock\<lparr>m_pEntry := m_pEntryNext plock\<rparr>));
     let plock = plock\<lparr>m_pEntryNext := None\<rparr>;
     if m_pEntry plock \<noteq> None then Some (errSuccess, False, t, plock)
     else do {
       (err, t, plock) \<leftarrow> ErrSCANMoveNext kf cpu plock t;
       Some (err, True, t, plock) } }"

definition EndHashScan ::
  "('k, 'e) CKeyEntry \<Rightarrow> nat \<Rightarrow> 'k CLock \<Rightarrow> 'e CDynamicHashTable \<Rightarrow> ('e CDynamicHashTable \<times> 'k CLock) option" where
  "EndHashScan kf cpu plock t = do {
     (t, plock) \<leftarrow> (case m_pBucketHead plock of
         Some p \<Rightarrow> do {
           t \<leftarrow> LeaveAsWriter p t;
           t \<leftarrow> (if m_fInsertOrDelete plock then MaintainTable (HashEntry kf) cpu (m_phs plock) t else Some t);
           Some (t, plock\<lparr>m_pBucketHead := None\<rparr>) }
       | None \<Rightarrow> Some (t, plock));
     Some (t, plock\<lparr>m_ls := lsNil, m_fInsertOrDelete := False\<rparr>) }"

declare free_pool.simps [code] BKTISeek_loop.simps [code] last_bucket.simps [code] split_loop.simps [code] merge_loop.simps [code]
  log2_loop.simps [code] scan_loop.simps [code]

end
