(* ===== verification/Hash_Chain.thy ===== *)
theory Hash_Chain
  imports Hash_Table
begin

text \<open>
  Chains of buckets in memory: what the parts of a bucket are after each store, the list of entries a chain holds, and the
  operations that search, extend and shorten a chain.
\<close>

section \<open>Views of the memory\<close>

definition pb :: "'e memory \<Rightarrow> PBUCKET \<Rightarrow> bucket_end option" where
  "pb m p = map_option m_pb (cells m p)"

definition um :: "'e memory \<Rightarrow> PBUCKET \<Rightarrow> bucket_lock option" where
  "um m p = map_option m_u (cells m p)"

definition cap :: "'e memory \<Rightarrow> PBUCKET \<Rightarrow> nat option" where
  "cap m p = map_option (\<lambda>b. length (m_rgEntry b)) (cells m p)"

definition live :: "'e memory \<Rightarrow> PBUCKET set" where
  "live m = dom (cells m)"

definition put :: "PBUCKET \<Rightarrow> ('e BUCKET \<Rightarrow> 'e BUCKET) \<Rightarrow> 'e memory \<Rightarrow> 'e memory" where
  "put p f m = m\<lparr>cells := (cells m)(p := map_option f (cells m p))\<rparr>"

abbreviation put_pb :: "PBUCKET \<Rightarrow> bucket_end \<Rightarrow> 'e memory \<Rightarrow> 'e memory" where
  "put_pb p v \<equiv> put p (\<lambda>b. b\<lparr>m_pb := v\<rparr>)"

abbreviation put_u :: "PBUCKET \<Rightarrow> bucket_lock \<Rightarrow> 'e memory \<Rightarrow> 'e memory" where
  "put_u p v \<equiv> put p (\<lambda>b. b\<lparr>m_u := v\<rparr>)"

abbreviation put_entry :: "PBUCKET \<Rightarrow> nat \<Rightarrow> 'e \<Rightarrow> 'e memory \<Rightarrow> 'e memory" where
  "put_entry p i e \<equiv> put p (\<lambda>b. b\<lparr>m_rgEntry := (m_rgEntry b)[i := Some e]\<rparr>)"

definition drop_cell :: "PBUCKET \<Rightarrow> 'e memory \<Rightarrow> 'e memory" where
  "drop_cell p m = m\<lparr>cells := (cells m)(p := None)\<rparr>"

lemma put_frame [simp]: "cAlloc (put p f m) = cAlloc m" "fails (put p f m) = fails m" "live (put p f m) = live m"
  "cAlloc (drop_cell p m) = cAlloc m" "fails (drop_cell p m) = fails m" "live (drop_cell p m) = live m - {p}"
  by (auto simp: put_def drop_cell_def live_def split: if_splits)

lemma cells_put [simp]: "cells (put p f m) q = (if q = p then map_option f (cells m p) else cells m q)"
  "cells (drop_cell p m) q = (if q = p then None else cells m q)"
  by (simp_all add: put_def drop_cell_def)

lemma pb_put [simp]:
  "pb (put_pb p v m) q = (if q = p \<and> p \<in> live m then Some v else pb m q)"
  "pb (put_u p u m) q = pb m q" "pb (put_entry p i e m) q = pb m q" "pb (drop_cell p m) q = (if q = p then None else pb m q)"
  by (auto simp: pb_def put_def drop_cell_def live_def option.map_comp comp_def intro: option.map_cong)

lemma um_put [simp]:
  "um (put_u p v m) q = (if q = p \<and> p \<in> live m then Some v else um m q)"
  "um (put_pb p u m) q = um m q" "um (put_entry p i e m) q = um m q" "um (drop_cell p m) q = (if q = p then None else um m q)"
  by (auto simp: um_def put_def drop_cell_def live_def option.map_comp comp_def intro: option.map_cong)

lemma cap_put [simp]:
  "cap (put_pb p v m) q = cap m q" "cap (put_u p u m) q = cap m q" "cap (put_entry p i e m) q = cap m q"
  "cap (drop_cell p m) q = (if q = p then None else cap m q)"
  by (auto simp: cap_def put_def drop_cell_def option.map_comp comp_def intro: option.map_cong)

lemma GetEntry_alt: "GetEntry p i m = (case cells m p of None \<Rightarrow> None
    | Some b \<Rightarrow> if i < length (m_rgEntry b) then m_rgEntry b ! i else None)"
  by (auto simp: GetEntry_def rd_def split: option.splits)

lemma GetEntry_put [simp]:
  "GetEntry q j (put_pb p v m) = GetEntry q j m" "GetEntry q j (put_u p u m) = GetEntry q j m"
  "cap m p = Some C \<Longrightarrow> i < C \<Longrightarrow> GetEntry q j (put_entry p i e m) = (if q = p \<and> j = i then Some e else GetEntry q j m)"
  "GetEntry q j (drop_cell p m) = (if q = p then None else GetEntry q j m)"
  by (auto simp: GetEntry_alt put_def cap_def drop_cell_def split: option.splits)

lemma live_iff: "p \<in> live m \<longleftrightarrow> cells m p \<noteq> None" "p \<in> live m \<longleftrightarrow> (\<exists>C. cap m p = Some C)" "p \<in> live m \<longleftrightarrow> (\<exists>v. pb m p = Some v)"
  by (auto simp: live_def cap_def pb_def)

lemma live_cap: "cap m p = Some C \<Longrightarrow> p \<in> live m"
  by (auto simp: live_def cap_def)

lemma stores [simp]:
  "p \<in> live m \<Longrightarrow> set_pb p v m = Some (put_pb p v m)"
  "p \<in> live m \<Longrightarrow> set_prev p q m = Some (put_u p (BucketPrev q) m)"
  "p \<in> live m \<Longrightarrow> MEMFree (Some p) m = Some (drop_cell p m)"
  "MEMFree None m = Some m"
  by (auto simp: set_pb_def set_prev_def change_def MEMFree_def put_def drop_cell_def live_def)

lemma SetEntry_put [simp]: "cap m p = Some C \<Longrightarrow> i < C \<Longrightarrow> SetEntry p i e m = Some (put_entry p i e m)"
  by (auto simp: SetEntry_def cap_def wr_def put_def)

lemma next_link_pb: "next_link m p = Option.bind (pb m p) next_of"
  by (cases "cells m p") (simp_all add: next_link_def pb_def)

lemma PbucketBKTNext_pb: "PbucketBKTNext t p = Option.bind (pb (mem t) p) next_of"
  by (cases "cells (mem t) p") (simp_all add: PbucketBKTNext_def pb_def)

lemma NextMost_pb: "PentryBKTNextMost t p = Option.bind (pb (mem t) p) (\<lambda>v. case v of
     EntryLast i \<Rightarrow> Some (if i < centry t then Suc i else centry t) | EndNull \<Rightarrow> Some 0 | BucketNext q \<Rightarrow> Some (centry t) | NoEnd \<Rightarrow> None)"
  by (cases "cells (mem t) p") (simp_all add: PentryBKTNextMost_def pb_def split: bucket_end.splits)

lemma next_of_simps [simp]: "next_of (BucketNext p) = Some (Some p)" "next_of EndNull = Some None" "next_of (EntryLast i) = Some None"
  "next_of (link_end q) = Some q"
  by (simp_all add: next_of_def link_end_def split: option.splits)

text \<open>Memories that agree on a set of buckets.\<close>

definition agree :: "PBUCKET set \<Rightarrow> 'e memory \<Rightarrow> 'e memory \<Rightarrow> bool" where
  "agree A m m' \<longleftrightarrow> (\<forall>p\<in>A. cells m' p = cells m p)"

lemma agree_views: "agree A m m' \<Longrightarrow> p \<in> A \<Longrightarrow>
    pb m' p = pb m p \<and> um m' p = um m p \<and> cap m' p = cap m p \<and> GetEntry p i m' = GetEntry p i m \<and> (p \<in> live m' \<longleftrightarrow> p \<in> live m)"
  by (simp add: agree_def pb_def um_def cap_def GetEntry_alt live_def dom_def)

lemma agree_put: "p \<notin> A \<Longrightarrow> agree A m (put p f m)" "p \<notin> A \<Longrightarrow> agree A m (drop_cell p m)" "agree A m m"
  by (auto simp: agree_def)

lemma agree_trans: "agree A m m' \<Longrightarrow> agree A m' m'' \<Longrightarrow> agree A m m''"
  by (simp add: agree_def)

lemma agree_mono: "agree A m m' \<Longrightarrow> B \<subseteq> A \<Longrightarrow> agree B m m'"
  by (auto simp: agree_def)

section \<open>Chains\<close>

text \<open>
  A chain of buckets \<open>ps\<close> with room for \<open>C\<close> entries each holds the list \<open>es\<close>: entry \<open>i\<close> is in slot \<open>i mod C\<close> of bucket \<open>i div C\<close>,
  and the chain has no more buckets than it needs.
\<close>

definition linked :: "'e memory \<Rightarrow> PBUCKET list \<Rightarrow> bool" where
  "linked m ps \<longleftrightarrow> (\<forall>k. Suc k < length ps \<longrightarrow> pb m (ps ! k) = Some (BucketNext (ps ! Suc k)) \<and> um m (ps ! Suc k) = Some (BucketPrev (ps ! k)))"

definition stored :: "'e memory \<Rightarrow> nat \<Rightarrow> PBUCKET list \<Rightarrow> 'e list \<Rightarrow> bool" where
  "stored m C ps es \<longleftrightarrow> (\<forall>i<length es. GetEntry (ps ! (i div C)) (i mod C) m = Some (es ! i))"

definition roomy :: "'e memory \<Rightarrow> nat \<Rightarrow> PBUCKET set \<Rightarrow> bool" where
  "roomy m C A \<longleftrightarrow> (\<forall>p\<in>A. cap m p = Some C)"

definition buckets :: "nat \<Rightarrow> 'e list \<Rightarrow> nat" where
  "buckets C es = Suc ((length es - 1) div C)"

definition chain_end :: "nat \<Rightarrow> 'e list \<Rightarrow> bucket_end" where
  "chain_end C es = (if es = [] then EndNull else EntryLast ((length es - 1) mod C))"

definition chain :: "'e memory \<Rightarrow> nat \<Rightarrow> PBUCKET list \<Rightarrow> 'e list \<Rightarrow> bool" where
  "chain m C ps es \<longleftrightarrow> 0 < C \<and> length ps = buckets C es \<and> distinct ps \<and> roomy m C (set ps) \<and> linked m ps \<and> stored m C ps es
     \<and> pb m (last ps) = Some (chain_end C es)"

lemma chainD:
  assumes "chain m C ps es"
  shows "0 < C" "length ps = buckets C es" "distinct ps" "roomy m C (set ps)" "linked m ps" "stored m C ps es"
    "pb m (last ps) = Some (chain_end C es)" "ps \<noteq> []" "set ps \<subseteq> live m"
proof -
  show *: "0 < C" "length ps = buckets C es" "distinct ps" "roomy m C (set ps)" "linked m ps" "stored m C ps es"
    "pb m (last ps) = Some (chain_end C es)"
    using assms by (simp_all add: chain_def)
  then show "ps \<noteq> []"
    by (auto simp: buckets_def)
  show "set ps \<subseteq> live m"
    using *(4) live_cap by (auto simp: roomy_def)
qed

lemma linked_agree: "linked m ps \<Longrightarrow> agree (set ps) m m' \<Longrightarrow> linked m' ps"
  unfolding linked_def
  by (metis Suc_lessD agree_views nth_mem)

lemma buckets_div: "0 < C \<Longrightarrow> i < length es \<Longrightarrow> i div C < buckets C es"
  by (simp add: buckets_def less_Suc_eq_le div_le_mono)

lemma stored_agree: "stored m C ps es \<Longrightarrow> agree (set ps) m m' \<Longrightarrow> 0 < C \<Longrightarrow> length ps = buckets C es \<Longrightarrow> stored m' C ps es"
  unfolding stored_def by (metis agree_views buckets_div nth_mem)

lemma chain_agree:
  assumes "chain m C ps es" "agree (set ps) m m'"
  shows "chain m' C ps es"
  using chainD [OF assms(1)] assms(2) linked_agree stored_agree agree_views [OF assms(2)] unfolding chain_def roomy_def
  by (metis last_in_set)

lemma buckets_last: "0 < C \<Longrightarrow> length ps = buckets C es \<Longrightarrow> last ps = ps ! ((length es - 1) div C)"
  by (simp add: last_conv_nth buckets_def) (metis diff_Suc_1 last_conv_nth length_0_conv nat.distinct(1))

lemma end_most:
  assumes "0 < C" "length ps = buckets C es" "k < length ps" "centry t = C"
    "pb (mem t) (ps ! k) = Some (if Suc k < length ps then BucketNext (ps ! Suc k) else chain_end C es)"
  shows "PbucketBKTNext t (ps ! k) = Some (if Suc k < length ps then Some (ps ! Suc k) else None)"
    "PentryBKTNextMost t (ps ! k) = Some (if Suc k < length ps then C else length es - k * C)"
proof -
  have *: "PbucketBKTNext t (ps ! k) = Some (if Suc k < length ps then Some (ps ! Suc k) else None)
    \<and> PentryBKTNextMost t (ps ! k) = Some (if Suc k < length ps then C else length es - k * C)"
  proof (cases "Suc k < length ps")
    case True
    then show ?thesis
      using assms(4,5) by (simp add: PbucketBKTNext_pb NextMost_pb)
  next
    case False
    then have k: "k = (length es - 1) div C"
      using assms(2,3) by (simp add: buckets_def)
    have l: "(length es - 1) mod C < C"
      using assms(1) by simp
    have "Suc ((length es - 1) mod C) = length es - k * C" if "es \<noteq> []"
    proof -
      have "length es - 1 = k * C + (length es - 1) mod C" "0 < length es"
        using k that by simp_all
      then show ?thesis
        by linarith
    qed
    then show ?thesis
      using False assms(4,5) l by (simp add: PbucketBKTNext_pb NextMost_pb chain_end_def)
  qed
  then show "PbucketBKTNext t (ps ! k) = Some (if Suc k < length ps then Some (ps ! Suc k) else None)"
    "PentryBKTNextMost t (ps ! k) = Some (if Suc k < length ps then C else length es - k * C)"
    by blast+
qed

lemma chain_next:
  assumes "chain m C ps es" "k < length ps" "centry t = C" "mem t = m"
  shows "PbucketBKTNext t (ps ! k) = Some (if Suc k < length ps then Some (ps ! Suc k) else None)"
    "PentryBKTNextMost t (ps ! k) = Some (if Suc k < length ps then C else length es - k * C)"
proof -
  note c = chainD [OF assms(1)]
  have "ps ! k = last ps" if "\<not> Suc k < length ps"
    using that assms(2) by (cases ps rule: rev_cases) (auto simp: nth_append)
  then have "pb (mem t) (ps ! k) = Some (if Suc k < length ps then BucketNext (ps ! Suc k) else chain_end C es)"
    using c(5,7) assms(4) by (simp add: linked_def)
  then show "PbucketBKTNext t (ps ! k) = Some (if Suc k < length ps then Some (ps ! Suc k) else None)"
    "PentryBKTNextMost t (ps ! k) = Some (if Suc k < length ps then C else length es - k * C)"
    by (rule end_most [OF c(1,2) assms(2,3)])+
qed

lemma slot_arith [simp]: "j < C \<Longrightarrow> (k * C + j) div C = k" "j < C \<Longrightarrow> (k * C + j) mod C = j" for C :: nat
  by simp_all

text \<open>The entries of bucket \<open>k\<close>.\<close>

definition held :: "nat \<Rightarrow> PBUCKET list \<Rightarrow> 'e list \<Rightarrow> nat \<Rightarrow> nat" where
  "held C ps es k = (if Suc k < length ps then C else length es - k * C)"

lemma held_bounds:
  assumes "0 < C" "length ps = buckets C es" "k < length ps"
  shows "held C ps es k \<le> C" "j < held C ps es k \<Longrightarrow> k * C + j < length es" "k * C \<le> length es"
    "Suc k < length ps \<Longrightarrow> Suc k * C < length es" "\<not> Suc k < length ps \<Longrightarrow> k * C + held C ps es k = length es"
    "es \<noteq> [] \<Longrightarrow> 0 < held C ps es k"
proof -
  have le: "k \<le> (length es - 1) div C"
    using assms(2,3) by (simp add: buckets_def)
  then have "k * C \<le> length es - 1"
    using assms(1) by (simp add: less_eq_div_iff_mult_less_eq)
  then show 3: "k * C \<le> length es"
    by simp
  show 4: "Suc k * C < length es" if "Suc k < length ps"
  proof -
    have "Suc k \<le> (length es - 1) div C"
      using that assms(2) by (simp add: buckets_def)
    then have "Suc k * C \<le> length es - 1"
      using assms(1) less_eq_div_iff_mult_less_eq by blast
    moreover have "0 < Suc k * C"
      using assms(1) by simp
    ultimately show ?thesis
      by linarith
  qed
  have l: "length es - k * C \<le> C" if "\<not> Suc k < length ps"
  proof -
    have "(length es - 1) div C = k"
      using that assms(2,3) by (simp add: buckets_def)
    then have "length es - 1 < Suc k * C"
      using assms(1) by (metis div_less_iff_less_mult lessI mult.commute)
    then show ?thesis
      by simp
  qed
  show "held C ps es k \<le> C"
    using l by (simp add: held_def)
  show "k * C + j < length es" if "j < held C ps es k"
    using that 4 by (auto simp: held_def split: if_splits)
  show "\<not> Suc k < length ps \<Longrightarrow> k * C + held C ps es k = length es"
    using 3 by (simp add: held_def)
  show "es \<noteq> [] \<Longrightarrow> 0 < held C ps es k"
    using assms(1) \<open>k * C \<le> length es - 1\<close> by (cases es) (auto simp: held_def)
qed

lemma chain_slot:
  assumes "chain m C ps es" "k < length ps" "j < held C ps es k"
  shows "GetEntry (ps ! k) j m = Some (es ! (k * C + j))"
proof -
  note c = chainD [OF assms(1)]
  have "j < C" "k * C + j < length es"
    using held_bounds(1,2) [OF c(1,2) assms(2)] less_le_trans [OF assms(3)] assms(3) by blast+
  then have "GetEntry (ps ! ((k * C + j) div C)) ((k * C + j) mod C) m = Some (es ! (k * C + j))"
    using c(6) unfolding stored_def by blast
  then show ?thesis
    using \<open>j < C\<close> by (simp only: slot_arith)
qed

lemma chain_cell:
  assumes "chain m C ps es" "k < length ps"
  shows "\<exists>b. cells m (ps ! k) = Some b"
  using subsetD [OF chainD(9) [OF assms(1)] nth_mem [OF assms(2)]] by (auto simp: live_def)

lemma chain_entries:
  assumes "chain m C ps es" "k < length ps" "cells m (ps ! k) = Some b" "j < held C ps es k"
  shows "j < length (m_rgEntry b)" "m_rgEntry b ! j = Some (es ! (k * C + j))"
proof -
  note c = chainD [OF assms(1)]
  have "cap m (ps ! k) = Some C"
    using c(4) assms(2) by (simp add: roomy_def)
  then have "length (m_rgEntry b) = C"
    using assms(3) by (simp add: cap_def)
  then show l: "j < length (m_rgEntry b)"
    using less_le_trans [OF assms(4) held_bounds(1) [OF c(1,2) assms(2)]] by simp
  show "m_rgEntry b ! j = Some (es ! (k * C + j))"
    using chain_slot [OF assms(1,2,4)] assms(3) l by (simp add: GetEntry_alt)
qed

lemma last_nth: "k < length ps \<Longrightarrow> \<not> Suc k < length ps \<Longrightarrow> ps ! k = last ps"
  by (cases ps rule: rev_cases) (auto simp: nth_append)

section \<open>Searching\<close>

lemma seek_entries_spec:
  assumes "\<And>j. j < n \<Longrightarrow> i + j < length rg \<and> rg ! (i + j) = Some (g (i + j))"
  shows "(\<exists>j<n. f (g (i + j)) \<and> seek_entries f rg i n = Some (Some (i + j)))
    \<or> (\<forall>j<n. \<not> f (g (i + j))) \<and> seek_entries f rg i n = Some None"
  using assms
proof (induction n arbitrary: i)
  case (Suc n)
  have h: "rd rg i = Some (Some (g i))"
    using Suc.prems [of 0] by (simp add: rd_def)
  show ?case
  proof (cases "f (g i)")
    case True
    then show ?thesis
      using h by (auto intro!: exI [of _ 0])
  next
    case False
    have "j < n \<Longrightarrow> Suc i + j < length rg \<and> rg ! (Suc i + j) = Some (g (Suc i + j))" for j
      using Suc.prems [of "Suc j"] by simp
    from Suc.IH [OF this] show ?thesis
    proof
      assume "\<exists>j<n. f (g (Suc i + j)) \<and> seek_entries f rg (Suc i) n = Some (Some (Suc i + j))"
      then obtain j where "j < n" "f (g (i + Suc j))" "seek_entries f rg (Suc i) n = Some (Some (i + Suc j))"
        by auto
      then show ?thesis
        using h False by (auto intro!: exI [of _ "Suc j"])
    next
      assume *: "(\<forall>j<n. \<not> f (g (Suc i + j))) \<and> seek_entries f rg (Suc i) n = Some None"
      have "\<not> f (g (i + j))" if "j < Suc n" for j
        using that False * by (cases j) auto
      then show ?thesis
        using h False * by simp
    qed
  qed
qed simp

lemma seek_bucket:
  assumes "chain m C ps es" "k < length ps" "cells m (ps ! k) = Some b"
  shows "(\<exists>j<held C ps es k. f (es ! (k * C + j)) \<and> seek_entries f (m_rgEntry b) 0 (held C ps es k) = Some (Some j))
    \<or> (\<forall>j<held C ps es k. \<not> f (es ! (k * C + j))) \<and> seek_entries f (m_rgEntry b) 0 (held C ps es k) = Some None"
proof -
  have "j < length (m_rgEntry b) \<and> m_rgEntry b ! j = Some (es ! (k * C + j))" if "j < held C ps es k" for j
    using chain_entries [OF assms that] by blast
  then show ?thesis
    using seek_entries_spec [of "held C ps es k" 0 "m_rgEntry b" "\<lambda>j. es ! (k * C + j)" f] by simp
qed

lemma index_bucket:
  assumes "0 < C" "length ps = buckets C es" "n < length es" "k * C \<le> n" "k < length ps"
  shows "(\<exists>j<held C ps es k. n = k * C + j) \<or> Suc k < length ps \<and> Suc k * C \<le> n"
proof (cases "n < k * C + held C ps es k")
  case True
  then show ?thesis
    using assms(4) by (intro disjI1 exI [of _ "n - k * C"]) auto
next
  case False
  then show ?thesis
    using assms(3) held_bounds(5) [OF assms(1,2,5)] by (auto simp: held_def split: if_splits)
qed

lemma BKTISeek_loop_spec:
  assumes "chain (mem t) C ps es" "centry t = C" "k < length ps"
  shows "(\<exists>n<length es. f (es ! n) \<and> BKTISeek_loop f t (ps ! k) = Some (ps ! (n div C), Some (n mod C)))
    \<or> (\<forall>n<length es. k * C \<le> n \<longrightarrow> \<not> f (es ! n)) \<and> BKTISeek_loop f t (ps ! k) = Some (last ps, None)"
  using assms(3)
proof (induction "length ps - k" arbitrary: k)
  case (Suc x)
  note c = chainD [OF assms(1)]
  obtain b where b: "cells (mem t) (ps ! k) = Some b"
    using chain_cell [OF assms(1) Suc.prems] by blast
  note nx = chain_next [OF assms(1) Suc.prems assms(2) refl]
  have most: "PentryBKTNextMost t (ps ! k) = Some (held C ps es k)"
    using nx(2) by (simp add: held_def)
  from seek_bucket [OF assms(1) Suc.prems b, of f] show ?case
  proof
    assume "\<exists>j<held C ps es k. f (es ! (k * C + j)) \<and> seek_entries f (m_rgEntry b) 0 (held C ps es k) = Some (Some j)"
    then obtain j where j: "j < held C ps es k" "f (es ! (k * C + j))" "seek_entries f (m_rgEntry b) 0 (held C ps es k) = Some (Some j)"
      by blast
    have "BKTISeek_loop f t (ps ! k) = Some (ps ! k, Some j)"
      by (subst BKTISeek_loop.simps) (simp add: b most j(3))
    moreover have "j < C" "k * C + j < length es"
      using held_bounds(1,2) [OF c(1,2) Suc.prems] less_le_trans [OF j(1)] j(1) by blast+
    ultimately show ?thesis
      using j(2) by (intro disjI1 exI [of _ "k * C + j"]) simp
  next
    assume *: "(\<forall>j<held C ps es k. \<not> f (es ! (k * C + j))) \<and> seek_entries f (m_rgEntry b) 0 (held C ps es k) = Some None"
    show ?thesis
    proof (cases "Suc k < length ps")
      case True
      have eq: "BKTISeek_loop f t (ps ! k) = BKTISeek_loop f t (ps ! Suc k)"
        by (subst BKTISeek_loop.simps) (simp add: b most * nx(1) True)
      have none: "\<forall>n<length es. k * C \<le> n \<longrightarrow> \<not> f (es ! n)" if "\<forall>n<length es. Suc k * C \<le> n \<longrightarrow> \<not> f (es ! n)"
        using index_bucket [OF c(1,2) _ _ Suc.prems] that * by blast
      have "(\<exists>n<length es. f (es ! n) \<and> BKTISeek_loop f t (ps ! Suc k) = Some (ps ! (n div C), Some (n mod C)))
          \<or> (\<forall>n<length es. Suc k * C \<le> n \<longrightarrow> \<not> f (es ! n)) \<and> BKTISeek_loop f t (ps ! Suc k) = Some (last ps, None)"
        by (rule Suc.hyps(1)) (use Suc.hyps(2) True in simp_all)
      then show ?thesis
        unfolding eq using none by blast
    next
      case False
      have "BKTISeek_loop f t (ps ! k) = Some (ps ! k, None)"
        by (subst BKTISeek_loop.simps) (simp add: b most * nx(1) False)
      moreover have "ps ! k = last ps"
        using last_nth [OF Suc.prems False] .
      moreover have "\<not> f (es ! n)" if "n < length es" "k * C \<le> n" for n
        using index_bucket [OF c(1,2) that Suc.prems] False * by blast
      ultimately show ?thesis
        by simp
    qed
  qed
qed simp

lemma last_bucket_spec:
  assumes "chain (mem t) C ps es" "centry t = C" "k < length ps"
  shows "last_bucket t (ps ! k) = Some (last ps)"
  using assms(3)
proof (induction "length ps - k" arbitrary: k)
  case (Suc x)
  note c = chainD [OF assms(1)]
  note nx = chain_next(1) [OF assms(1) Suc.prems assms(2) refl]
  show ?case
  proof (cases "Suc k < length ps")
    case True
    have "last_bucket t (ps ! k) = last_bucket t (ps ! Suc k)"
      by (subst last_bucket.simps) (simp add: nx True)
    then show ?thesis
      using Suc.hyps(1) [of "Suc k"] Suc.hyps(2) True by simp
  next
    case False
    then have "ps ! k = last ps"
      by (rule last_nth [OF Suc.prems])
    moreover have "last_bucket t (ps ! k) = Some (ps ! k)"
      by (subst last_bucket.simps) (simp add: nx False)
    ultimately show ?thesis
      by simp
  qed
qed simp

section \<open>The seek of a key\<close>

text \<open>A lock whose cursor stands on entry \<open>n\<close> of a chain.\<close>

definition on_entry :: "nat \<Rightarrow> PBUCKET list \<Rightarrow> nat \<Rightarrow> 'k CLock \<Rightarrow> bool" where
  "on_entry C ps n plock \<longleftrightarrow> m_pBucket plock = Some (ps ! (n div C)) \<and> m_pEntry plock = Some (ps ! (n div C), n mod C)"

lemma BKTSeek_spec:
  assumes "chain (mem t) C ps es" "centry t = C" "m_pBucketHead plock = Some (hd ps)"
  obtains plock' where "BKTSeek kf t plock key = Some plock'"
    "plock' = plock\<lparr>m_pBucket := m_pBucket plock', m_pEntryPrev := None, m_pEntry := m_pEntry plock', m_pEntryNext := None\<rparr>"
    "(\<exists>n<length es. FEntryMatchesKey kf (es ! n) key \<and> on_entry C ps n plock')
     \<or> (\<forall>e\<in>set es. \<not> FEntryMatchesKey kf e key) \<and> m_pEntry plock' = None \<and> (\<exists>k<length ps. m_pBucket plock' = Some (ps ! k))"
proof -
  note c = chainD [OF assms(1)] and res = that
  define f where "f e = FEntryMatchesKey kf e key" for e
  have k0: "0 < length ps" "hd ps = ps ! 0"
    using c(8) by (simp_all add: hd_conv_nth)
  obtain b where b: "cells (mem t) (hd ps) = Some b"
    using chain_cell [OF assms(1) k0(1)] k0(2) by auto
  have p: "pb (mem t) (hd ps) = Some (m_pb b)"
    using b by (simp add: pb_def)
  have all: "(\<forall>e\<in>set es. \<not> f e) \<longleftrightarrow> (\<forall>n<length es. \<not> f (es ! n))"
    by (metis in_set_conv_nth)
  define L where "L q i = plock\<lparr>m_pBucket := Some q, m_pEntryPrev := None, m_pEntry := map_option (Pair q) i, m_pEntryNext := None\<rparr>" for q i
  have goal: thesis if "BKTSeek kf t plock key = Some (L q i)"
    "(\<exists>n<length es. f (es ! n) \<and> q = ps ! (n div C) \<and> i = Some (n mod C)) \<or> (\<forall>e\<in>set es. \<not> f e) \<and> i = None \<and> (\<exists>k<length ps. q = ps ! k)" for q i
  proof (rule res [OF that(1)])
    show "L q i = plock\<lparr>m_pBucket := m_pBucket (L q i), m_pEntryPrev := None, m_pEntry := m_pEntry (L q i), m_pEntryNext := None\<rparr>"
      by (simp add: L_def)
    show "(\<exists>n<length es. FEntryMatchesKey kf (es ! n) key \<and> on_entry C ps n (L q i))
     \<or> (\<forall>e\<in>set es. \<not> FEntryMatchesKey kf e key) \<and> m_pEntry (L q i) = None \<and> (\<exists>k<length ps. m_pBucket (L q i) = Some (ps ! k))"
      using that(2) by (auto simp: on_entry_def L_def f_def)
  qed
  show thesis
  proof (cases "Suc 0 < length ps")
    case True
    then have e: "m_pb b = BucketNext (ps ! 1)"
      using c(5) p k0 by (simp add: linked_def)
    have k: "\<exists>k<length ps. last ps = ps ! k"
      using c(8) by (auto simp: last_conv_nth intro!: exI [of _ "length ps - 1"])
    from BKTISeek_loop_spec [OF assms(1,2) k0(1), of f] obtain q i where r: "BKTISeek_loop f t (ps ! 0) = Some (q, i)"
      "(\<exists>n<length es. f (es ! n) \<and> q = ps ! (n div C) \<and> i = Some (n mod C)) \<or> (\<forall>e\<in>set es. \<not> f e) \<and> i = None \<and> (\<exists>k<length ps. q = ps ! k)"
      unfolding all using k by auto
    have "BKTSeek kf t plock key = Some (L q i)"
      using r(1) by (simp add: BKTSeek_def BKTISeek_def Let_def assms(3) b [unfolded k0(2)] k0(2) e L_def f_def [abs_def])
    then show ?thesis
      using goal r(2) by blast
  next
    case False
    then have ps: "length ps = Suc 0"
      using k0(1) by linarith
    have e: "m_pb b = chain_end C es"
      using c(7) p ps by (cases ps) auto
    have h: "held C ps es 0 = length es"
      using ps by (simp add: held_def)
    show ?thesis
    proof (cases "es = []")
      case True
      then have "BKTSeek kf t plock key = Some (L (hd ps) None)"
        by (simp add: BKTSeek_def Let_def assms(3) b e chain_end_def L_def)
      then show ?thesis
        using goal True k0 by auto
    next
      case False
      have le: "length es \<le> C"
        using held_bounds(1) [OF c(1,2) k0(1)] h by simp
      then have l: "Suc ((length es - 1) mod C) = length es"
        using False c(1) by simp
      from seek_bucket [OF assms(1) k0(1), of b f] b k0(2) h
      obtain i where r: "seek_entries f (m_rgEntry b) 0 (length es) = Some i"
        "(\<exists>n<length es. f (es ! n) \<and> i = Some n) \<or> (\<forall>n<length es. \<not> f (es ! n)) \<and> i = None"
        by auto
      have "BKTSeek kf t plock key = Some (L (hd ps) i)"
        using r(1) False l by (simp add: BKTSeek_def Let_def assms(3) b e chain_end_def L_def f_def [abs_def] del: seek_entries.simps)
      moreover have "n < length es \<Longrightarrow> hd ps = ps ! (n div C) \<and> n = n mod C" for n
        using le k0(2) by simp
      ultimately show ?thesis
        using goal [of "hd ps" i] r(2) k0 unfolding all by metis
    qed
  qed
qed

section \<open>Replacing, inserting and deleting\<close>

lemma cursor_bucket:
  assumes "chain m C ps es" "n < length es"
  shows "n div C < length ps" "n mod C < C" "cap m (ps ! (n div C)) = Some C" "GetEntry (ps ! (n div C)) (n mod C) m = Some (es ! n)"
  using chainD(1,2,4,6) [OF assms(1)] buckets_div [of C n es] assms(2) by (simp_all add: roomy_def stored_def)

lemma slot_eq:
  assumes "distinct ps" "i div C < length ps" "n div C < length ps"
  shows "ps ! (i div C) = ps ! (n div C) \<and> i mod C = n mod C \<longleftrightarrow> i = n"
  using assms by (metis div_mult_mod_eq nth_eq_iff_index_eq)

lemma buckets_cong: "length es = length fs \<Longrightarrow> buckets C es = buckets C fs"
  by (simp add: buckets_def)

lemma chain_replace:
  assumes "chain m C ps es" "n < length es"
  shows "chain (put_entry (ps ! (n div C)) (n mod C) e m) C ps (es[n := e])"
proof -
  note c = chainD [OF assms(1)] and k = cursor_bucket [OF assms]
  have "stored (put_entry (ps ! (n div C)) (n mod C) e m) C ps (es[n := e])"
    unfolding stored_def
  proof (intro allI impI)
    fix i assume i: "i < length (es[n := e])"
    then have "i div C < length ps"
      using c(1,2) buckets_div [of C i es] by simp
    then have "ps ! (i div C) = ps ! (n div C) \<and> i mod C = n mod C \<longleftrightarrow> i = n"
      using slot_eq [OF c(3) _ k(1)] by blast
    then show "GetEntry (ps ! (i div C)) (i mod C) (put_entry (ps ! (n div C)) (n mod C) e m) = Some (es[n := e] ! i)"
      using i c(6) GetEntry_put(3) [OF k(3,2)] by (auto simp: stored_def)
  qed
  then show ?thesis
    using c(1-5,7) buckets_cong [of "es[n := e]" es C] by (auto simp: chain_def roomy_def linked_def chain_end_def)
qed

lemma ErrBKTReplaceEntry_spec:
  assumes "chain (mem t) C ps es" "n < length es" "on_entry C ps n plock"
  shows "ErrBKTReplaceEntry t plock e = Some (errSuccess, t\<lparr>mem := put_entry (ps ! (n div C)) (n mod C) e (mem t)\<rparr>)"
  using cursor_bucket [OF assms(1,2)] assms(3) by (simp add: ErrBKTReplaceEntry_def on_entry_def)

lemma ErrBKTGetEntry_spec:
  assumes "chain (mem t) C ps es" "n < length es" "on_entry C ps n plock"
  shows "ErrBKTGetEntry t plock = Some (errSuccess, Some (es ! n))"
  using cursor_bucket [OF assms(1,2)] assms(3) by (simp add: ErrBKTGetEntry_def on_entry_def)

definition bump :: "'e memory \<Rightarrow> 'e memory" where
  "bump m = m\<lparr>cAlloc := Suc (cAlloc m)\<rparr>"

definition newcell :: "nat \<Rightarrow> 'e memory \<Rightarrow> 'e memory" where
  "newcell C m = (bump m)\<lparr>cells := (cells m)(HeapBucket (cAlloc m) \<mapsto> new_BUCKET C)\<rparr>"

lemma PvMEMAlloc_alt:
  "PvMEMAlloc C m = (if fails m (cAlloc m) then (bump m, None) else (newcell C m, Some (HeapBucket (cAlloc m))))"
  by (simp add: PvMEMAlloc_def bump_def newcell_def)

lemma bump_views [simp]: "cells (bump m) = cells m" "pb (bump m) = pb m" "um (bump m) = um m" "cap (bump m) = cap m" "live (bump m) = live m"
  "GetEntry p i (bump m) = GetEntry p i m" "cAlloc (bump m) = Suc (cAlloc m)" "fails (bump m) = fails m"
  by (auto simp: bump_def pb_def um_def cap_def live_def GetEntry_def)

lemma newcell_views [simp]:
  "live (newcell C m) = insert (HeapBucket (cAlloc m)) (live m)" "cap (newcell C m) (HeapBucket (cAlloc m)) = Some C"
  "p \<noteq> HeapBucket (cAlloc m) \<Longrightarrow> cells (newcell C m) p = cells m p"
  "cAlloc (newcell C m) = Suc (cAlloc m)" "fails (newcell C m) = fails m"
  by (auto simp: newcell_def live_def cap_def new_BUCKET_def bump_def)

lemma agree_newcell: "HeapBucket (cAlloc m) \<notin> A \<Longrightarrow> agree A m (newcell C m)" "agree A m (bump m)"
  by (auto simp: agree_def newcell_def)

text \<open>The buckets that hold one entry more, or one less.\<close>

lemma buckets_snoc:
  assumes "0 < C" "length ps = buckets C es"
  shows "length es < length ps * C \<Longrightarrow> length es div C = length ps - 1 \<and> buckets C (es @ [e]) = length ps"
    "\<not> length es < length ps * C \<Longrightarrow> length es = length ps * C \<and> buckets C (es @ [e]) = Suc (length ps)"
proof -
  show "length es div C = length ps - 1 \<and> buckets C (es @ [e]) = length ps" if "length es < length ps * C"
  proof -
    have "length es div C < length ps"
      using that assms(1) by (simp add: div_less_iff_less_mult)
    moreover have "(length es - 1) div C \<le> length es div C"
      by (simp add: div_le_mono)
    ultimately have "length es div C = length ps - 1"
      using assms(2) unfolding buckets_def by linarith
    then show ?thesis
      using assms(2) by (simp add: buckets_def)
  qed
  show "length es = length ps * C \<and> buckets C (es @ [e]) = Suc (length ps)" if "\<not> length es < length ps * C"
  proof -
    have "length es - 1 < length ps * C"
      using assms unfolding buckets_def by (metis div_less_iff_less_mult lessI)
    then have "length es = length ps * C"
      using that by linarith
    then show ?thesis
      using assms(1) by (simp add: buckets_def)
  qed
qed

lemma chain_append_room:
  assumes "chain m C ps es" "length es < length ps * C"
  shows "chain (put_pb (last ps) (EntryLast (length es mod C)) (put_entry (last ps) (length es mod C) e m)) C ps (es @ [e])"
    (is "chain ?m C ps _")
proof -
  note c = chainD [OF assms(1)] and b = buckets_snoc(1) [OF chainD(1,2) [OF assms(1)] assms(2)]
  have k: "length es div C < length ps" "last ps = ps ! (length es div C)" "length es mod C < C"
    using b c(1,8) by (simp_all add: last_conv_nth)
  have cap: "cap m (last ps) = Some C" "last ps \<in> live m"
    using c(4,8,9) by (auto simp: roomy_def)
  have "stored ?m C ps (es @ [e])"
    unfolding stored_def
  proof (intro allI impI)
    fix i assume i: "i < length (es @ [e])"
    then have "i div C < length ps"
      using c(1,2) b buckets_div [of C i "es @ [e]"] by simp
    then have "ps ! (i div C) = last ps \<and> i mod C = length es mod C \<longleftrightarrow> i = length es"
      using slot_eq [OF c(3) _ k(1)] k(2) by simp
    then show "GetEntry (ps ! (i div C)) (i mod C) ?m = Some ((es @ [e]) ! i)"
      using i c(6) GetEntry_put(3) [OF cap(1) k(3)] by (auto simp: stored_def nth_append less_Suc_eq)
  qed
  moreover have "linked ?m ps"
    unfolding linked_def
  proof (intro allI impI)
    fix j assume j: "Suc j < length ps"
    then have "ps ! j \<noteq> last ps"
      using c(3,8) by (simp add: last_conv_nth nth_eq_iff_index_eq)
    then show "pb ?m (ps ! j) = Some (BucketNext (ps ! Suc j)) \<and> um ?m (ps ! Suc j) = Some (BucketPrev (ps ! j))"
      using c(5) j by (simp add: linked_def)
  qed
  ultimately show ?thesis
    using c(1-4) cap b by (simp add: chain_def roomy_def chain_end_def)
qed

lemma chain_append_new:
  assumes "chain m C ps es" "\<not> length es < length ps * C" "q \<notin> set ps" "cap m q = Some C"
  shows "chain (put_pb q (EntryLast 0) (put_entry q 0 e (put_u q (BucketPrev (last ps)) (put_pb (last ps) (BucketNext q) m))))
    C (ps @ [q]) (es @ [e])" (is "chain ?m C _ _")
proof -
  note c = chainD [OF assms(1)] and b = buckets_snoc(2) [OF chainD(1,2) [OF assms(1)] assms(2)]
  have n: "length es div C = length ps" "length es mod C = 0"
    using b c(1) by simp_all
  have cap: "last ps \<in> live m" "q \<in> live m" "q \<noteq> last ps"
    using c(8,9) assms(3,4) live_cap by auto
  have g: "GetEntry p i ?m = (if p = q \<and> i = 0 then Some e else GetEntry p i m)" for p i
    using assms(4) c(1) by simp
  have "stored ?m C (ps @ [q]) (es @ [e])"
    unfolding stored_def
  proof (intro allI impI)
    fix i assume i: "i < length (es @ [e])"
    show "GetEntry ((ps @ [q]) ! (i div C)) (i mod C) ?m = Some ((es @ [e]) ! i)"
    proof (cases "i < length es")
      case True
      then have k: "i div C < length ps"
        using c(1,2) buckets_div [of C i es] by simp
      then have "ps ! (i div C) \<noteq> q"
        using assms(3) nth_mem by metis
      then show ?thesis
        using True k c(6) unfolding g by (simp add: stored_def nth_append)
    next
      case False
      then have "i = length es"
        using i by simp
      then show ?thesis
        using n unfolding g by (simp add: nth_append)
    qed
  qed
  moreover have "linked ?m (ps @ [q])"
    unfolding linked_def
  proof (intro allI impI)
    fix j assume j: "Suc j < length (ps @ [q])"
    show "pb ?m ((ps @ [q]) ! j) = Some (BucketNext ((ps @ [q]) ! Suc j)) \<and> um ?m ((ps @ [q]) ! Suc j) = Some (BucketPrev ((ps @ [q]) ! j))"
    proof (cases "Suc j < length ps")
      case True
      have "ps ! j \<noteq> last ps" "ps ! j \<noteq> q" "ps ! Suc j \<noteq> q"
        using True c(3,8) assms(3) nth_mem by (simp add: last_conv_nth nth_eq_iff_index_eq, metis Suc_lessD nth_mem, metis nth_mem)
      then show ?thesis
        using c(5) True by (simp add: linked_def nth_append)
    next
      case False
      then have "j = length ps - 1" "j < length ps"
        using j c(8) by (auto simp: Suc_lessI)
      then have "(ps @ [q]) ! j = last ps" "(ps @ [q]) ! Suc j = q"
        using c(8) by (auto simp: nth_append last_conv_nth)
      then show ?thesis
        using cap by simp
    qed
  qed
  moreover have "roomy ?m C (set (ps @ [q]))"
    using c(4) assms(4) by (simp add: roomy_def)
  ultimately show ?thesis
    using c(1-3) assms(3) cap b n by (simp add: chain_def chain_end_def)
qed

lemma ErrBKTInsertEntry_spec:
  assumes "chain (mem t) C ps es" "centry t = C" "m_pEntry plock = None" "m_pBucket plock = Some (ps ! k)" "k < length ps"
    "HeapBucket (cAlloc (mem t)) \<notin> live (mem t)"
  obtains (full) "fails (mem t) (cAlloc (mem t))" "ErrBKTInsertEntry t plock e = Some (errOutOfMemory, t\<lparr>mem := bump (mem t)\<rparr>, plock)"
  | (room) m where "ErrBKTInsertEntry t plock e = Some (errSuccess, t\<lparr>mem := m\<rparr>,
        plock\<lparr>m_pBucket := Some (last ps), m_pEntry := Some (last ps, length es mod C)\<rparr>)"
      "chain m C ps (es @ [e])" "agree (- set ps) (mem t) m" "live m = live (mem t)" "cAlloc m = cAlloc (mem t)" "fails m = fails (mem t)"
      "um m = um (mem t)" "on_entry C ps (length es) (plock\<lparr>m_pBucket := Some (last ps), m_pEntry := Some (last ps, length es mod C)\<rparr>)"
  | (new) m q where "q = HeapBucket (cAlloc (mem t))" "ErrBKTInsertEntry t plock e = Some (errSuccess, t\<lparr>mem := m\<rparr>,
        plock\<lparr>m_pBucket := Some q, m_pEntry := Some (q, 0)\<rparr>)"
      "chain m C (ps @ [q]) (es @ [e])" "agree (- insert q (set ps)) (mem t) m" "live m = insert q (live (mem t))"
      "cAlloc m = Suc (cAlloc (mem t))" "fails m = fails (mem t)" "\<forall>p. p \<noteq> q \<longrightarrow> um m p = um (mem t) p"
      "on_entry C (ps @ [q]) (length es) (plock\<lparr>m_pBucket := Some q, m_pEntry := Some (q, 0)\<rparr>)"
proof -
  note c = chainD [OF assms(1)]
  define k1 where "k1 = length ps - 1"
  have k1: "k1 < length ps" "ps ! k1 = last ps"
    using c(8) by (simp_all add: k1_def last_conv_nth)
  have lb: "last_bucket t (ps ! k) = Some (last ps)"
    by (rule last_bucket_spec [OF assms(1,2,5)])
  define h where "h = held C ps es k1"
  have most: "PentryBKTNextMost t (last ps) = Some h"
    using chain_next(2) [OF assms(1) k1(1) assms(2) refl] k1(2) by (simp add: held_def h_def)
  have h: "k1 * C + h = length es" "h \<le> C"
    using held_bounds(5,1) [OF c(1,2) k1(1)] c(8) by (simp_all add: k1_def h_def)
  have live: "last ps \<in> live (mem t)" "cap (mem t) (last ps) = Some C"
    using c(4,8,9) by (auto simp: roomy_def)
  show thesis
  proof (cases "h = C")
    case False
    then have lt: "h < C"
      using h(2) by simp
    have l: "length ps = Suc k1"
      using c(8) by (simp add: k1_def)
    have room: "length es < length ps * C" "length es mod C = h" "length es div C = k1"
      unfolding h(1) [symmetric] l using lt by simp_all
    show thesis
    proof (rule that(2))
      show "ErrBKTInsertEntry t plock e = Some (errSuccess, t\<lparr>mem := put_pb (last ps) (EntryLast h) (put_entry (last ps) h e (mem t))\<rparr>,
          plock\<lparr>m_pBucket := Some (last ps), m_pEntry := Some (last ps, length es mod C)\<rparr>)"
        using lt live room(2) by (simp add: ErrBKTInsertEntry_def assms(2-4) lb most)
      show "chain (put_pb (last ps) (EntryLast h) (put_entry (last ps) h e (mem t))) C ps (es @ [e])"
        using chain_append_room [OF assms(1) room(1), of e] room(2) by simp
      show "agree (- set ps) (mem t) (put_pb (last ps) (EntryLast h) (put_entry (last ps) h e (mem t)))"
        using c(8) by (auto intro!: agree_trans [OF agree_put(1) agree_put(1)])
      show "on_entry C ps (length es) (plock\<lparr>m_pBucket := Some (last ps), m_pEntry := Some (last ps, length es mod C)\<rparr>)"
        using k1 room(3) by (simp add: on_entry_def)
    qed (simp_all add: fun_eq_iff)
  next
    case True
    have l: "length ps = Suc k1"
      using c(8) by (simp add: k1_def)
    have full: "\<not> length es < length ps * C" "length es mod C = 0" "length es div C = length ps"
      unfolding h(1) [symmetric] True l using c(1) by simp_all
    show thesis
    proof (cases "fails (mem t) (cAlloc (mem t))")
      case True
      then show thesis
        using that(1) \<open>h = C\<close> by (simp add: ErrBKTInsertEntry_def assms(2-4) lb most PvMEMAlloc_alt)
    next
      case False
      define q where "q = HeapBucket (cAlloc (mem t))"
      define m where "m = put_pb q (EntryLast 0) (put_entry q 0 e (put_u q (BucketPrev (last ps)) (put_pb (last ps) (BucketNext q) (newcell C (mem t)))))"
      have q: "q \<notin> live (mem t)" "q \<notin> set ps"
        using assms(6) c(9) by (auto simp: q_def)
      have ch: "chain (newcell C (mem t)) C ps es"
        by (rule chain_agree [OF assms(1) agree_newcell(1)]) (use q in \<open>simp add: q_def\<close>)
      have cap: "cap (newcell C (mem t)) q = Some C"
        by (simp add: q_def)
      have lv: "q \<in> live (newcell C (mem t))" "last ps \<in> live (newcell C (mem t))"
        using live by (simp_all add: q_def)
      show thesis
      proof (rule that(3))
        show "q = HeapBucket (cAlloc (mem t))"
          by (rule q_def)
        show "ErrBKTInsertEntry t plock e = Some (errSuccess, t\<lparr>mem := m\<rparr>, plock\<lparr>m_pBucket := Some q, m_pEntry := Some (q, 0)\<rparr>)"
          using \<open>h = C\<close> False cap lv c(1) unfolding m_def
          by (simp add: ErrBKTInsertEntry_def assms(2-4) lb most PvMEMAlloc_alt flip: q_def)
        show "chain m C (ps @ [q]) (es @ [e])"
          unfolding m_def by (rule chain_append_new [OF ch full(1) q(2) cap])
        show "agree (- insert q (set ps)) (mem t) m"
          using c(8) by (auto simp: m_def agree_def) (simp add: q_def)
        show "live m = insert q (live (mem t))" "cAlloc m = Suc (cAlloc (mem t))" "fails m = fails (mem t)"
          by (simp_all add: m_def q_def)
        show "\<forall>p. p \<noteq> q \<longrightarrow> um m p = um (mem t) p"
          by (simp add: m_def) (simp add: um_def q_def)
        show "on_entry C (ps @ [q]) (length es) (plock\<lparr>m_pBucket := Some q, m_pEntry := Some (q, 0)\<rparr>)"
          using full by (simp add: on_entry_def nth_append)
      qed
    qed
  qed
qed

text \<open>The last entry of a chain is dropped: from its bucket, with its head's content, or with its bucket.\<close>

definition shorten :: "nat \<Rightarrow> PBUCKET list \<Rightarrow> nat \<Rightarrow> 'e memory \<Rightarrow> 'e memory" where
  "shorten C ps n m =
     (if n mod C \<noteq> 0 then put_pb (last ps) (EntryLast (n mod C - 1)) m
      else if length ps = 1 then put_pb (last ps) EndNull m
      else drop_cell (last ps) (put_pb (ps ! (length ps - 2)) (EntryLast (C - 1)) m))"

lemma buckets_butlast:
  assumes "0 < C" "length ps = buckets C es" "es \<noteq> []" "n = length es - 1"
  shows "n div C = length ps - 1"
    "n mod C \<noteq> 0 \<Longrightarrow> buckets C (butlast es) = length ps \<and> (n - 1) mod C = n mod C - 1 \<and> 0 < n"
    "n mod C = 0 \<Longrightarrow> n = 0 \<and> length ps = 1 \<or> 0 < n \<and> 1 < length ps \<and> buckets C (butlast es) = length ps - 1 \<and> (n - 1) mod C = C - 1"
proof -
  show d: "n div C = length ps - 1"
    using assms by (simp add: buckets_def)
  have b: "buckets C (butlast es) = Suc ((n - 1) div C)"
    using assms(4) by (simp add: buckets_def)
  have n: "n = (length ps - 1) * C + n mod C"
    using d div_mult_mod_eq [of n C] by simp
  show "buckets C (butlast es) = length ps \<and> (n - 1) mod C = n mod C - 1 \<and> 0 < n" if "n mod C \<noteq> 0"
  proof -
    have m: "n - 1 = (length ps - 1) * C + (n mod C - 1)" "n mod C - 1 < C" "0 < n"
      using n that assms(1) mod_less_divisor [OF assms(1), of n] by (linarith, linarith, auto)
    then have "(n - 1) div C = length ps - 1" "(n - 1) mod C = n mod C - 1"
      using slot_arith [OF m(2)] by metis+
    then show ?thesis
      using b m(3) assms(2) by (simp add: buckets_def)
  qed
  show "n = 0 \<and> length ps = 1 \<or> 0 < n \<and> 1 < length ps \<and> buckets C (butlast es) = length ps - 1 \<and> (n - 1) mod C = C - 1" if "n mod C = 0"
  proof (cases "length ps - 1")
    case 0
    then show ?thesis
      using n that assms(2) by (simp add: buckets_def)
  next
    case (Suc k)
    then have k: "n = k * C + C"
      using n that by simp
    have m: "n - 1 = k * C + (C - 1)" "C - 1 < C"
      using k assms(1) by simp_all
    then have "(n - 1) div C = k" "(n - 1) mod C = C - 1"
      using slot_arith [OF m(2)] by metis+
    then show ?thesis
      using b k Suc assms(1) by auto
  qed
qed

lemma chain_shorten:
  assumes "chain m C ps es" "es \<noteq> []" "n = length es - 1"
  shows "chain (shorten C ps n m) C (take (buckets C (butlast es)) ps) (butlast es)"
    "live (shorten C ps n m) = live m - set (drop (buckets C (butlast es)) ps)" "agree (- set ps) m (shorten C ps n m)"
    "cAlloc (shorten C ps n m) = cAlloc m" "fails (shorten C ps n m) = fails m"
    "\<forall>p. p \<notin> set (drop (buckets C (butlast es)) ps) \<longrightarrow> um (shorten C ps n m) p = um m p"
proof -
  note c = chainD [OF assms(1)] and bb = buckets_butlast [OF chainD(1,2) [OF assms(1)] assms(2,3)]
  let ?m = "shorten C ps n m"
  have st: "stored m C ps (butlast es)"
    using c(6) by (auto simp: stored_def nth_butlast)
  have lv: "last ps \<in> live m" "p \<in> set ps \<Longrightarrow> p \<in> live m" for p
    using c(8,9) by auto
  show "agree (- set ps) m ?m"
    using c(8) by (auto simp: shorten_def agree_def)
  have nl: "ps ! j \<noteq> last ps" if "Suc j < length ps" for j
    using that c(3,8) by (simp add: last_conv_nth nth_eq_iff_index_eq)
  have "chain ?m C (take (buckets C (butlast es)) ps) (butlast es)
    \<and> live ?m = live m - set (drop (buckets C (butlast es)) ps)
    \<and> (\<forall>p. p \<notin> set (drop (buckets C (butlast es)) ps) \<longrightarrow> um ?m p = um m p)"
  proof (cases "n mod C = 0")
    case False
    note f = bb(2) [OF False]
    have "linked ?m ps"
      using c(5) False nl by (simp add: linked_def shorten_def)
    moreover have "stored ?m C ps (butlast es)" "roomy ?m C (set ps)"
      using st c(4) False by (simp_all add: stored_def roomy_def shorten_def)
    moreover have "pb ?m (last ps) = Some (chain_end C (butlast es))"
      using False f lv assms(3) by (cases es rule: rev_cases) (auto simp: shorten_def chain_end_def)
    ultimately have "chain ?m C ps (butlast es)"
      using c(1,3) f by (simp add: chain_def)
    then show ?thesis
      using f False by (simp add: shorten_def)
  next
    case True
    from bb(3) [OF True] show ?thesis
    proof (elim disjE conjE)
      assume o: "n = 0" "length ps = 1"
      then have e: "butlast es = []"
        using assms(2,3) by (cases es) auto
      have "chain ?m C ps []"
        using o c(1,3,4) lv by (simp add: chain_def buckets_def linked_def stored_def roomy_def shorten_def chain_end_def)
      then show ?thesis
        using o e by (simp add: shorten_def buckets_def)
    next
      assume o: "0 < n" "1 < length ps" "buckets C (butlast es) = length ps - 1" "(n - 1) mod C = C - 1"
      have tk: "take (length ps - 1) ps = butlast ps" "drop (length ps - 1) ps = [last ps]"
        using c(8) by (cases ps rule: rev_cases; simp)+
      have m: "?m = drop_cell (last ps) (put_pb (ps ! (length ps - 2)) (EntryLast (C - 1)) m)"
        using True o by (simp add: shorten_def)
      have lb: "last (butlast ps) = ps ! (length ps - 2)" "butlast ps \<noteq> []" "length ps - 2 < length (butlast ps)"
      proof -
        show ne: "butlast ps \<noteq> []"
          using o(2) by (simp flip: length_greater_0_conv)
        show l: "length ps - 2 < length (butlast ps)"
          using o(2) by simp
        have "last (butlast ps) = butlast ps ! (length ps - 2)"
          using ne by (simp add: last_conv_nth numeral_2_eq_2)
        then show "last (butlast ps) = ps ! (length ps - 2)"
          using l by (simp add: nth_butlast)
      qed
      have ni: "ps ! j \<noteq> last ps" "butlast ps ! j = ps ! j" if "j < length (butlast ps)" for j
        using nl that by (auto simp: nth_butlast)
      have nm: "p \<noteq> last ps" if "p \<in> set (butlast ps)" for p
        using that ni by (metis in_set_conv_nth)
      have nd: "ps ! j \<noteq> ps ! (length ps - 2)" if "Suc j < length (butlast ps)" for j
        using that c(3) by (simp add: nth_eq_iff_index_eq)
      have "linked ?m (butlast ps)"
        using c(5) ni nd by (simp add: linked_def m)
      moreover have "stored ?m C (butlast ps) (butlast es)"
        unfolding stored_def
      proof (intro allI impI)
        fix i assume i: "i < length (butlast es)"
        then have "i div C < length (butlast ps)"
          using buckets_div [OF c(1) i] o(3) by simp
        then show "GetEntry (butlast ps ! (i div C)) (i mod C) ?m = Some (butlast es ! i)"
          using st i ni by (simp add: stored_def m)
      qed
      moreover have "roomy ?m C (set (butlast ps))"
        using c(4) nm by (auto simp: roomy_def m dest: in_set_butlastD)
      moreover have "pb ?m (last (butlast ps)) = Some (chain_end C (butlast es))"
      proof -
        have "ps ! (length ps - 2) \<in> live m"
          using lv(2) o(2) by simp
        moreover have "butlast es \<noteq> []" "length (butlast es) - 1 = n - 1"
          using o(1) assms(3) by (auto simp flip: length_greater_0_conv)
        ultimately show ?thesis
          using lb ni(1) [OF lb(3)] o(4) by (simp add: m chain_end_def)
      qed
      ultimately have "chain ?m C (butlast ps) (butlast es)"
        using c(1,3) o by (simp add: chain_def distinct_butlast)
      then show ?thesis
        using o(3) tk by (simp add: m)
    qed
  qed
  then show "chain ?m C (take (buckets C (butlast es)) ps) (butlast es)" "live ?m = live m - set (drop (buckets C (butlast es)) ps)"
    "\<forall>p. p \<notin> set (drop (buckets C (butlast es)) ps) \<longrightarrow> um ?m p = um m p"
    by blast+
  show "cAlloc ?m = cAlloc m" "fails ?m = fails m"
    by (simp_all add: shorten_def)
qed

text \<open>What is left of a list when entry \<open>n\<close> is deleted: the last entry takes its place.\<close>

definition without :: "'e list \<Rightarrow> nat \<Rightarrow> 'e list" where
  "without es n = butlast (es[n := last es])"

lemma ErrBKTDeleteEntry_spec:
  assumes "chain (mem t) C ps es" "centry t = C" "n < length es" "on_entry C ps n plock" "m_pBucketHead plock = Some (hd ps)"
  obtains m p where "ErrBKTDeleteEntry t plock = Some (errSuccess, t\<lparr>mem := m\<rparr>, plock\<lparr>m_pEntry := None, m_pBucket := Some p\<rparr>)"
    "chain m C (take (buckets C (without es n)) ps) (without es n)" "live m = live (mem t) - set (drop (buckets C (without es n)) ps)"
    "agree (- set ps) (mem t) m" "cAlloc m = cAlloc (mem t)" "fails m = fails (mem t)"
    "\<forall>p. p \<notin> set (drop (buckets C (without es n)) ps) \<longrightarrow> um m p = um (mem t) p"
    "p \<in> set (take (buckets C (without es n)) ps)" "n < length es - 1 \<longrightarrow> p = ps ! (n div C)"
proof -
  note c = chainD [OF assms(1)] and k = cursor_bucket [OF assms(1,3)]
  define N where "N = length es - 1"
  have N: "es \<noteq> []" "N < length es" "N div C = length ps - 1" "last ps = ps ! (N div C)" "last es = es ! N"
  proof -
    show ne: "es \<noteq> []"
      using assms(3) by auto
    then show "N < length es" "last es = es ! N"
      by (simp_all add: N_def last_conv_nth)
    show "N div C = length ps - 1"
      by (rule buckets_butlast(1) [OF c(1,2) ne N_def])
    then show "last ps = ps ! (N div C)"
      using c(8) by (simp add: last_conv_nth)
  qed
  have lp: "pb (mem t) (last ps) = Some (EntryLast (N mod C))" "last ps \<in> live (mem t)" "cap (mem t) (last ps) = Some C"
    using c(4,7,8,9) N(1) by (auto simp: chain_end_def N_def roomy_def)
  obtain b where b: "cells (mem t) (ps ! (n div C)) = Some b"
    using chain_cell [OF assms(1) k(1)] by blast
  obtain bl where bl: "cells (mem t) (last ps) = Some bl" "m_pb bl = EntryLast (N mod C)"
    using lp(1) by (auto simp: pb_def)
  have atlast: "m_pb b = EntryLast (n mod C) \<longleftrightarrow> n = N"
  proof
    assume e: "m_pb b = EntryLast (n mod C)"
    have "\<not> Suc (n div C) < length ps"
      using e c(5) b by (auto simp: linked_def pb_def)
    then have "ps ! (n div C) = last ps"
      using last_nth [OF k(1)] by blast
    then have "n mod C = N mod C"
      using e b bl by simp
    moreover have "n div C = N div C"
      using \<open>\<not> Suc (n div C) < length ps\<close> k(1) N(3) by linarith
    ultimately show "n = N"
      by (metis div_mult_mod_eq)
  next
    assume "n = N"
    then show "m_pb b = EntryLast (n mod C)"
      using b bl N(4) by simp
  qed
  define m1 where "m1 = (if n = N then mem t else put_entry (ps ! (n div C)) (n mod C) (last es) (mem t))"
  have ch1: "chain m1 C ps (es[n := last es])"
    using chain_replace [OF assms(1,3), of "last es"] assms(1) N(5) by (simp add: m1_def)
  have ne: "es[n := last es] \<noteq> []" "N = length (es[n := last es]) - 1"
    using N(1) by (simp_all add: N_def)
  note sh = chain_shorten [OF ch1 ne, folded without_def]
  have lb: "last_bucket t (ps ! (n div C)) = Some (last ps)"
    by (rule last_bucket_spec [OF assms(1,2) k(1)])
  have lastval: "GetEntry (last ps) (N mod C) (mem t) = Some (last es)"
    using cursor_bucket(4) [OF assms(1) N(2)] N(4,5) by simp
  have l1: "last ps \<in> live m1" "p \<in> live m1 \<longleftrightarrow> p \<in> live (mem t)" for p
    using lp(2) by (auto simp: m1_def)
  define p where "p = (if n = N \<and> N mod C = 0 \<and> length ps \<noteq> 1 then ps ! (length ps - 2) else ps ! (n div C))"
  have bw: "buckets C (without es n) = (if N mod C = 0 \<and> length ps \<noteq> 1 then length ps - 1 else length ps)"
  proof -
    have "buckets C (without es n) = buckets C (butlast es)"
      by (rule buckets_cong) (simp add: without_def)
    then show ?thesis
      using buckets_butlast(2,3) [OF c(1,2) N(1) N_def] N(1) by (cases "N mod C = 0") (auto simp: buckets_def N_def)
  qed
  have hd: "hd ps = ps ! 0" "last ps = hd ps \<longleftrightarrow> length ps = 1"
    using c(3,8) by (cases ps; auto simp: hd_conv_nth)+
  have prev: "length ps \<noteq> 1 \<Longrightarrow> um m1 (last ps) = Some (BucketPrev (ps ! (length ps - 2)))"
  proof -
    assume "length ps \<noteq> 1"
    then have s: "Suc (length ps - 2) < length ps" "length ps - 1 = Suc (length ps - 2)"
      using c(8) by (auto simp: neq_Nil_conv)
    have "um (mem t) (ps ! Suc (length ps - 2)) = Some (BucketPrev (ps ! (length ps - 2)))"
      using c(5) s(1) unfolding linked_def by blast
    then show ?thesis
      unfolding last_conv_nth [OF c(8)] s(2) by (simp add: m1_def)
  qed
  obtain bl1 where bl1: "cells m1 (last ps) = Some bl1" "length ps \<noteq> 1 \<Longrightarrow> m_u bl1 = BucketPrev (ps ! (length ps - 2))"
    using l1(1) prev by (cases "cells m1 (last ps)") (auto simp: live_def um_def)
  have l2: "length ps \<noteq> 1 \<Longrightarrow> ps ! (length ps - 2) \<in> live m1" "length ps \<noteq> 1 \<Longrightarrow> ps ! (length ps - 2) \<noteq> last ps"
  proof -
    assume "length ps \<noteq> 1"
    then have s: "length ps - 2 < length ps" "length ps - 2 \<noteq> length ps - 1"
      using c(8) by (auto simp: neq_Nil_conv)
    show "ps ! (length ps - 2) \<in> live m1"
      unfolding l1(2) using subsetD [OF c(9) nth_mem [OF s(1)]] .
    show "ps ! (length ps - 2) \<noteq> last ps"
      using c(3,8) s by (simp add: last_conv_nth nth_eq_iff_index_eq)
  qed
  have step1: "ErrBKTDeleteEntry t plock = (
       let plock = plock\<lparr>m_pEntry := None\<rparr>; m = m1; iThis = N mod C
       in if iThis \<noteq> 0 then do { m \<leftarrow> set_pb (last ps) (EntryLast (iThis - 1)) m; Some (errSuccess, t\<lparr>mem := m\<rparr>, plock) }
       else if Some (last ps) = m_pBucketHead plock then do { m \<leftarrow> set_pb (last ps) EndNull m; Some (errSuccess, t\<lparr>mem := m\<rparr>, plock) }
       else do {
         bT \<leftarrow> cells m (last ps);
         pPrev \<leftarrow> (case m_u bT of BucketPrev q \<Rightarrow> Some q | _ \<Rightarrow> None);
         m \<leftarrow> set_pb pPrev (EntryLast (centry t - 1)) m;
         m \<leftarrow> MEMFree (Some (last ps)) m;
         Some (errSuccess, t\<lparr>mem := m\<rparr>,
           if m_pBucket plock = Some (last ps) then plock\<lparr>m_pBucket := Some pPrev\<rparr> else plock) })"
    using assms(4) b atlast lb bl lastval k(2,3) N(4)
    by (cases "n = N") (simp_all add: ErrBKTDeleteEntry_def on_entry_def m1_def Let_def entry_last_def)
  have res: "ErrBKTDeleteEntry t plock = Some (errSuccess, t\<lparr>mem := shorten C ps N m1\<rparr>, plock\<lparr>m_pEntry := None, m_pBucket := Some p\<rparr>)"
  proof -
    have mb: "m_pBucket plock = Some (ps ! (n div C))"
      using assms(4) by (simp add: on_entry_def)
    have at: "ps ! (n div C) = last ps \<longleftrightarrow> n div C = length ps - 1"
      using c(3,8) k(1) by (simp add: last_conv_nth nth_eq_iff_index_eq)
    have nN: "N mod C = 0 \<Longrightarrow> n div C = length ps - 1 \<longleftrightarrow> n = N"
      using N(3) assms(3) by (metis N_def One_nat_def Suc_pred add_cancel_right_right antisym div_mult_mod_eq le_add1 length_greater_0_conv less_Suc_eq_le list.size(3) not_less_zero)
    show ?thesis
      unfolding step1 Let_def
      using l1(1) l2 bl1 at nN mb by (auto simp: shorten_def assms(2,5) hd(2) p_def)
  qed
  show thesis
  proof (rule that [OF res sh(1)])
    have a: "agree (- set ps) (mem t) m1"
      using k(1) by (auto simp: m1_def agree_def)
    show "live (shorten C ps N m1) = live (mem t) - set (drop (buckets C (without es n)) ps)"
      using sh(2) l1(2) by auto
    show "agree (- set ps) (mem t) (shorten C ps N m1)"
      using agree_trans [OF a sh(3)] .
    show "cAlloc (shorten C ps N m1) = cAlloc (mem t)" "fails (shorten C ps N m1) = fails (mem t)"
      using sh(4,5) by (simp_all add: m1_def)
    show "\<forall>p. p \<notin> set (drop (buckets C (without es n)) ps) \<longrightarrow> um (shorten C ps N m1) p = um (mem t) p"
      using sh(6) by (simp add: m1_def)
    show "n < length es - 1 \<longrightarrow> p = ps ! (n div C)"
      by (auto simp: p_def N_def)
    show "p \<in> set (take (buckets C (without es n)) ps)"
    proof -
      have "n div C < length ps - 1" if "N mod C = 0" "n \<noteq> N"
      proof -
        have "n < N"
          using that(2) assms(3) by (simp add: N_def)
        moreover have "N = (length ps - 1) * C"
          using that(1) N(3) div_mult_mod_eq [of N C] by simp
        ultimately show ?thesis
          using c(1) by (simp add: div_less_iff_less_mult)
      qed
      moreover have "length ps \<noteq> 1 \<Longrightarrow> length ps - 2 < length ps - 1"
        using c(8) by (cases ps) auto
      ultimately have "\<exists>j<buckets C (without es n). j < length ps \<and> p = ps ! j"
        unfolding bw p_def using k(1) by (auto split: if_splits)
      then show ?thesis
        by (auto simp: in_set_conv_nth)
    qed
  qed
qed

end
