(* ===== verification/Hash_Split.thy ===== *)
theory Hash_Split
  imports Hash_Chain "HOL-Library.Multiset"
begin

text \<open>
  Splitting and merging chains. A split reads a chain and writes the entries that stay back into its own buckets, behind the cursor that reads;
  buckets that fall empty are used for the entries that move, and one bucket reserved beforehand is enough for the rest.
\<close>

section \<open>Lists of spare buckets\<close>

fun pooled :: "'e memory \<Rightarrow> PBUCKET list \<Rightarrow> PBUCKET option \<Rightarrow> bool" where
  "pooled m [] p \<longleftrightarrow> p = None"
| "pooled m (q # R) p \<longleftrightarrow> p = Some q \<and> (\<exists>p'. pb m q = Some (link_end p') \<and> pooled m R p')"

lemma pooled_frame: "pooled m R p \<Longrightarrow> (\<And>q. q \<in> set R \<Longrightarrow> pb m' q = pb m q) \<Longrightarrow> pooled m' R p"
  by (induction R arbitrary: p) auto

lemma pooled_agree: "pooled m R p \<Longrightarrow> agree (set R) m m' \<Longrightarrow> pooled m' R p"
  by (rule pooled_frame) (simp_all add: agree_views)

lemma pooled_live: "pooled m R p \<Longrightarrow> q \<in> set R \<Longrightarrow> q \<in> live m"
  by (induction R arbitrary: p) (auto simp: live_iff(3))

lemma pooled_cases: "pooled m R p \<Longrightarrow> p = (case R of [] \<Rightarrow> None | q # _ \<Rightarrow> Some q)"
  by (cases R) auto

definition drop_cells :: "PBUCKET set \<Rightarrow> 'e memory \<Rightarrow> 'e memory" where
  "drop_cells A m = m\<lparr>cells := \<lambda>p. if p \<in> A then None else cells m p\<rparr>"

lemma drop_cells_views [simp]:
  "cells (drop_cells A m) p = (if p \<in> A then None else cells m p)" "live (drop_cells A m) = live m - A"
  "cAlloc (drop_cells A m) = cAlloc m" "fails (drop_cells A m) = fails m" "drop_cells {} m = m"
  "pb (drop_cells A m) p = (if p \<in> A then None else pb m p)" "um (drop_cells A m) p = (if p \<in> A then None else um m p)"
  by (auto simp: drop_cells_def live_def pb_def um_def split: if_splits)

lemma agree_drop: "A \<inter> B = {} \<Longrightarrow> agree A m (drop_cells B m)"
  by (auto simp: agree_def)

lemma free_pool_spec:
  assumes "pooled m R p" "distinct R"
  shows "free_pool p m = Some (drop_cells (set R) m)"
  using assms
proof (induction R arbitrary: m p)
  case (Cons q R)
  then obtain p' where p: "p = Some q" "pb m q = Some (link_end p')" "pooled m R p'"
    by auto
  then obtain b where b: "cells m q = Some b" "m_pb b = link_end p'"
    by (auto simp: pb_def)
  have "pooled (drop_cell q m) R p'"
    by (rule pooled_agree [OF p(3) agree_put(2)]) (use Cons.prems in auto)
  then have "free_pool p' (drop_cell q m) = Some (drop_cells (set R) (drop_cell q m))"
    using Cons by simp
  moreover have "drop_cells (set R) (drop_cell q m) = drop_cells (set (q # R)) m"
    by (auto simp: drop_cells_def drop_cell_def fun_eq_iff)
  ultimately show ?case
    using b by (subst free_pool.simps) (simp add: p(1) MEMFree_def drop_cell_def)
qed (simp add: free_pool.simps)

section \<open>A chain that is being filled\<close>

text \<open>The list \<open>L\<close> fills the buckets \<open>qs\<close> up to slot \<open>i\<close> of the last one, whose end is not set yet.\<close>

definition filling :: "'e memory \<Rightarrow> nat \<Rightarrow> PBUCKET list \<Rightarrow> 'e list \<Rightarrow> nat \<Rightarrow> bool" where
  "filling m C qs L i \<longleftrightarrow> 0 < C \<and> qs \<noteq> [] \<and> distinct qs \<and> roomy m C (set qs) \<and> linked m qs \<and> stored m C qs L
     \<and> length L = (length qs - 1) * C + i \<and> i \<le> C \<and> (1 < length qs \<longrightarrow> 0 < i)"

lemma fillingD:
  assumes "filling m C qs L i"
  shows "0 < C" "qs \<noteq> []" "distinct qs" "roomy m C (set qs)" "linked m qs" "stored m C qs L" "length L = (length qs - 1) * C + i"
    "i \<le> C" "1 < length qs \<Longrightarrow> 0 < i" "cap m (last qs) = Some C" "set qs \<subseteq> live m"
    "\<And>j. j < length L \<Longrightarrow> j div C < length qs"
proof -
  show *: "0 < C" "qs \<noteq> []" "distinct qs" "roomy m C (set qs)" "linked m qs" "stored m C qs L" "length L = (length qs - 1) * C + i"
    "i \<le> C" "1 < length qs \<Longrightarrow> 0 < i"
    using assms by (simp_all add: filling_def)
  show "cap m (last qs) = Some C" "set qs \<subseteq> live m"
    using *(2,4) live_cap by (auto simp: roomy_def)
  show "j div C < length qs" if "j < length L" for j
  proof -
    have "j < (length qs - 1) * C + C"
      using that *(7,8) by linarith
    also have "\<dots> = length qs * C"
      using *(2) by (cases qs) simp_all
    finally show ?thesis
      using *(1) by (simp add: div_less_iff_less_mult)
  qed
qed

text \<open>Its end may be changed, and so may other buckets.\<close>

lemma filling_frame:
  assumes "filling m C qs L i" "\<And>q. q \<in> set qs \<Longrightarrow> um m' q = um m q \<and> cap m' q = cap m q"
    "\<And>q. q \<in> set (butlast qs) \<Longrightarrow> pb m' q = pb m q"
    "\<And>j. j < length L \<Longrightarrow> GetEntry (qs ! (j div C)) (j mod C) m' = GetEntry (qs ! (j div C)) (j mod C) m"
  shows "filling m' C qs L i"
proof -
  note f = fillingD [OF assms(1)]
  have "qs ! k \<in> set (butlast qs)" if "Suc k < length qs" for k
    using that by (metis length_butlast less_diff_conv nth_butlast nth_mem Suc_eq_plus1)
  then have "linked m' qs"
    using f(5) assms(2,3) by (simp add: linked_def)
  moreover have "stored m' C qs L"
    using f(6) assms(4) by (simp add: stored_def)
  moreover have "roomy m' C (set qs)"
    using f(4) assms(2) by (simp add: roomy_def)
  ultimately show ?thesis
    using f by (simp add: filling_def)
qed

lemma fill_room:
  assumes "filling m C qs L i" "i < C"
  shows "filling (put_entry (last qs) i e m) C qs (L @ [e]) (Suc i)"
proof -
  note f = fillingD [OF assms(1)]
  have k: "length L div C = length qs - 1" "length L mod C = i" "length L div C < length qs" "last qs = qs ! (length L div C)"
    using f(2,7) assms(2) by (simp_all add: last_conv_nth)
  have "stored (put_entry (last qs) i e m) C qs (L @ [e])"
    unfolding stored_def
  proof (intro allI impI)
    fix j assume j: "j < length (L @ [e])"
    have "j div C < length qs"
      using j f(12) [of j] k(3) by (cases "j = length L") auto
    then have "qs ! (j div C) = last qs \<and> j mod C = i \<longleftrightarrow> j = length L"
      using slot_eq [OF f(3) _ k(3)] k(2,4) by simp
    then show "GetEntry (qs ! (j div C)) (j mod C) (put_entry (last qs) i e m) = Some ((L @ [e]) ! j)"
      using j f(6) GetEntry_put(3) [OF f(10) assms(2)] by (auto simp: stored_def nth_append less_Suc_eq)
  qed
  then show ?thesis
    using f assms(2) by (simp add: filling_def roomy_def linked_def)
qed

lemma fill_new:
  assumes "filling m C qs L C" "q \<notin> set qs" "cap m q = Some C" "pb m (last qs) = Some (BucketNext q)" "um m q = Some (BucketPrev (last qs))"
  shows "filling (put_entry q 0 e m) C (qs @ [q]) (L @ [e]) 1"
proof -
  note f = fillingD [OF assms(1)]
  have n: "length L = length qs * C"
    using f(2,7) by (cases qs) simp_all
  have "stored (put_entry q 0 e m) C (qs @ [q]) (L @ [e])"
    unfolding stored_def
  proof (intro allI impI)
    fix j assume j: "j < length (L @ [e])"
    show "GetEntry ((qs @ [q]) ! (j div C)) (j mod C) (put_entry q 0 e m) = Some ((L @ [e]) ! j)"
    proof (cases "j < length L")
      case True
      note k = f(12) [OF True]
      have "qs ! (j div C) \<noteq> q"
        using assms(2) nth_mem [OF k] by metis
      then show ?thesis
        using True k f(1,6) assms(3) by (simp add: stored_def nth_append)
    next
      case False
      then have "j = length L"
        using j by simp
      then show ?thesis
        using n f(1) assms(3) by (simp add: nth_append)
    qed
  qed
  moreover have "linked (put_entry q 0 e m) (qs @ [q])"
    unfolding linked_def
  proof (intro allI impI)
    fix j assume j: "Suc j < length (qs @ [q])"
    show "pb (put_entry q 0 e m) ((qs @ [q]) ! j) = Some (BucketNext ((qs @ [q]) ! Suc j))
      \<and> um (put_entry q 0 e m) ((qs @ [q]) ! Suc j) = Some (BucketPrev ((qs @ [q]) ! j))"
    proof (cases "Suc j < length qs")
      case False
      then have "j < length qs" "(qs @ [q]) ! j = last qs" "(qs @ [q]) ! Suc j = q"
        using j last_nth [of j qs] by (auto simp: nth_append less_Suc_eq)
      then show ?thesis
        using assms(4,5) by simp
    qed (use f(5) in \<open>simp add: linked_def nth_append\<close>)
  qed
  moreover have "roomy (put_entry q 0 e m) C (set (qs @ [q]))"
    using f(4) assms(3) by (simp add: roomy_def)
  ultimately show ?thesis
    using f(1-3) assms(2) n by (simp add: filling_def)
qed

text \<open>Once its end is set it is a chain.\<close>

lemma filling_chain:
  assumes "filling m C qs L i" "pb m (last qs) = Some (last_end (if L = [] then None else Some (i - 1)))"
  shows "chain m C qs L"
proof -
  note f = fillingD [OF assms(1)]
  have "length qs = buckets C L \<and> (L \<noteq> [] \<longrightarrow> (length L - 1) mod C = i - 1)"
  proof (cases "0 < i")
    case True
    then have "length L - 1 = (length qs - 1) * C + (i - 1)" "i - 1 < C"
      using f(7,8) by auto
    then show ?thesis
      using f(2) slot_arith [of "i - 1" C "length qs - 1"] by (simp add: buckets_def)
  next
    case False
    then have q: "length qs = 1"
      using f(2,9) by (cases qs) auto
    moreover have "L = []"
      using f(7) False q by simp
    ultimately show ?thesis
      by (simp add: buckets_def)
  qed
  then show ?thesis
    using f assms(2) by (auto simp: chain_def chain_end_def last_end_def)
qed

section \<open>The loop of a split\<close>

text \<open>The cursor is at entry \<open>r\<close> in bucket \<open>s\<close> of the chain; the entries from there on are as they were.\<close>

definition at_source :: "nat \<Rightarrow> PBUCKET list \<Rightarrow> 'e list \<Rightarrow> split_state \<Rightarrow> nat \<Rightarrow> nat \<Rightarrow> bool" where
  "at_source C ps es v s r \<longleftrightarrow> s < length ps \<and> pBucketSrcSrc v = ps ! s
     \<and> pBucketNextSrc v = (if Suc s < length ps then Some (ps ! Suc s) else None)
     \<and> iMostSrc v = held C ps es s \<and> r = s * C + iThisSrc v \<and> iThisSrc v \<le> iMostSrc v"

definition unread :: "'e memory \<Rightarrow> nat \<Rightarrow> PBUCKET list \<Rightarrow> 'e list \<Rightarrow> nat \<Rightarrow> nat \<Rightarrow> bool" where
  "unread m C ps es s r \<longleftrightarrow> (\<forall>i. r \<le> i \<and> i < length es \<longrightarrow> GetEntry (ps ! (i div C)) (i mod C) m = Some (es ! i))
     \<and> (\<forall>k. s \<le> k \<and> Suc k < length ps \<longrightarrow> pb m (ps ! k) = Some (BucketNext (ps ! Suc k)) \<and> um m (ps ! Suc k) = Some (BucketPrev (ps ! k)))
     \<and> pb m (last ps) = Some (chain_end C es)"

text \<open>The source buckets that the kept entries do not use yet.\<close>

definition unused :: "PBUCKET list \<Rightarrow> PBUCKET list \<Rightarrow> nat \<Rightarrow> PBUCKET list" where
  "unused ps qs0 s = drop (if ps ! s = last qs0 then Suc s else s) ps"

definition behind :: "'e memory \<Rightarrow> PBUCKET list \<Rightarrow> PBUCKET list \<Rightarrow> nat \<Rightarrow> split_state \<Rightarrow> bool" where
  "behind m ps qs0 s v \<longleftrightarrow> (if ps ! s = last qs0 then iThis0 v \<le> iThisSrc v
     else pb m (last qs0) = Some (BucketNext (ps ! s)) \<and> um m (ps ! s) = Some (BucketPrev (last qs0)))"

definition spare :: "PBUCKET list \<Rightarrow> split_state \<Rightarrow> PBUCKET list" where
  "spare R v = (if fBucketFromHeap v then tl R else R)"

definition last_slot :: "'e list \<Rightarrow> nat \<Rightarrow> nat option" where
  "last_slot L i = (if L = [] then None else Some (i - 1))"

definition splitting ::
  "('e \<Rightarrow> bool) \<Rightarrow> nat \<Rightarrow> PBUCKET list \<Rightarrow> PBUCKET \<Rightarrow> 'e list \<Rightarrow> PBUCKET list \<Rightarrow> 'e memory \<Rightarrow> PBUCKET option \<Rightarrow> split_state
   \<Rightarrow> PBUCKET list \<Rightarrow> PBUCKET list \<Rightarrow> PBUCKET list \<Rightarrow> nat \<Rightarrow> nat \<Rightarrow> bool" where
  "splitting stays C ps dst es R m res v qs0 qs1 av s r \<longleftrightarrow>
     at_source C ps es v s r \<and> unread m C ps es s r
   \<and> filling m C qs0 (filter stays (take r es)) (iThis0 v) \<and> last qs0 = pBucketThis0 v \<and> hd qs0 = hd ps
   \<and> iLast0 v = last_slot (filter stays (take r es)) (iThis0 v)
   \<and> filling m C qs1 (filter (\<lambda>e. \<not> stays e) (take r es)) (iThis1 v) \<and> last qs1 = pBucketThis1 v \<and> hd qs1 = dst
   \<and> iLast1 v = last_slot (filter (\<lambda>e. \<not> stays e) (take r es)) (iThis1 v)
   \<and> pooled m av (pBucketAvail v) \<and> pooled m (spare R v) res \<and> behind m ps qs0 s v
   \<and> mset (qs0 @ qs1 @ av @ unused ps qs0 s @ spare R v) = mset (ps @ [dst] @ R)
   \<and> roomy m C (set (ps @ [dst] @ R))"

lemma splittingD:
  assumes "splitting stays C ps dst es R m res v qs0 qs1 av s r"
  shows "at_source C ps es v s r" "unread m C ps es s r"
    "filling m C qs0 (filter stays (take r es)) (iThis0 v)" "last qs0 = pBucketThis0 v" "hd qs0 = hd ps"
    "iLast0 v = last_slot (filter stays (take r es)) (iThis0 v)"
    "filling m C qs1 (filter (\<lambda>e. \<not> stays e) (take r es)) (iThis1 v)" "last qs1 = pBucketThis1 v" "hd qs1 = dst"
    "iLast1 v = last_slot (filter (\<lambda>e. \<not> stays e) (take r es)) (iThis1 v)"
    "pooled m av (pBucketAvail v)" "pooled m (spare R v) res" "behind m ps qs0 s v"
    "mset (qs0 @ qs1 @ av @ unused ps qs0 s @ spare R v) = mset (ps @ [dst] @ R)"
    "roomy m C (set (ps @ [dst] @ R))"
  using assms unfolding splitting_def by blast+

text \<open>The buckets of all lists are distinct, and none is lost.\<close>

lemma splitting_distinct:
  assumes "splitting stays C ps dst es R m res v qs0 qs1 av s r" "distinct (ps @ [dst] @ R)"
  shows "distinct (qs0 @ qs1 @ av @ unused ps qs0 s @ spare R v)"
    "set (qs0 @ qs1 @ av @ unused ps qs0 s @ spare R v) = set (ps @ [dst] @ R)"
  using mset_eq_imp_distinct_iff [OF splittingD(14) [OF assms(1)]] mset_eq_setD [OF splittingD(14) [OF assms(1)]] assms(2) by blast+

lemma splitting_cap:
  assumes "splitting stays C ps dst es R m res v qs0 qs1 av s r" "distinct (ps @ [dst] @ R)"
    "p \<in> set (qs0 @ qs1 @ av @ unused ps qs0 s @ spare R v)"
  shows "cap m p = Some C"
  using splittingD(15) [OF assms(1)] splitting_distinct(2) [OF assms(1,2)] assms(3) unfolding roomy_def by blast

lemma at_entry:
  assumes "at_source C ps es v s r" "iThisSrc v < iMostSrc v" "0 < C" "length ps = buckets C es"
  shows "r < length es" "r div C = s" "r mod C = iThisSrc v" "iThisSrc v < C"
proof -
  have a: "s < length ps" "iMostSrc v = held C ps es s" "r = s * C + iThisSrc v"
    using assms(1) by (simp_all add: at_source_def)
  have h: "iThisSrc v < held C ps es s"
    using assms(2) a(2) by simp
  show l: "iThisSrc v < C"
    using less_le_trans [OF h held_bounds(1) [OF assms(3,4) a(1)]] .
  show "r < length es"
    unfolding a(3) by (rule held_bounds(2) [OF assms(3,4) a(1) h])
  show "r div C = s" "r mod C = iThisSrc v"
    unfolding a(3) using l by simp_all
qed

lemma unread_head:
  assumes "unread m C ps es s r" "at_source C ps es v s r" "iThisSrc v < iMostSrc v" "0 < C" "length ps = buckets C es"
  shows "GetEntry (pBucketSrcSrc v) (iThisSrc v) m = Some (es ! r)"
  using assms(1,2) at_entry [OF assms(2-5)] by (auto simp: unread_def at_source_def)

text \<open>A store at a slot that was read does not touch what is unread.\<close>

lemma unread_frame:
  assumes "unread m C ps es s r"
    "\<And>i. r < i \<Longrightarrow> i < length es \<Longrightarrow> GetEntry (ps ! (i div C)) (i mod C) m' = GetEntry (ps ! (i div C)) (i mod C) m"
    "\<And>k. s \<le> k \<Longrightarrow> k < length ps \<Longrightarrow> pb m' (ps ! k) = pb m (ps ! k)"
    "\<And>k. s < k \<Longrightarrow> k < length ps \<Longrightarrow> um m' (ps ! k) = um m (ps ! k)"
    "s < length ps"
  shows "unread m' C ps es s (Suc r)"
proof -
  have "pb m' (last ps) = pb m (last ps)"
    using assms(3) [of "length ps - 1"] assms(5) by (cases "ps = []") (simp_all add: last_conv_nth)
  then show ?thesis
    using assms(1-4) unfolding unread_def by (auto simp: less_Suc_eq_le)
qed

lemma later_slot:
  assumes "distinct ps" "s < length ps" "0 < C" "length ps = buckets C es" "r div C = s" "j \<le> r mod C" "r < i" "i < length es"
  shows "\<not> (ps ! (i div C) = ps ! s \<and> i mod C = j)"
proof
  assume a: "ps ! (i div C) = ps ! s \<and> i mod C = j"
  have "i div C < length ps"
    using buckets_div [OF assms(3,8)] assms(4) by simp
  then have "i div C = s"
    using a assms(1,2) by (simp add: nth_eq_iff_index_eq)
  then have "i \<le> r"
    using a assms(5,6) by (metis add_le_cancel_left div_mult_mod_eq)
  then show False
    using assms(7) by simp
qed

lemma later_bucket:
  assumes "0 < C" "length ps = buckets C es" "r div C = s" "r \<le> i" "i < length es"
  shows "s \<le> i div C" "i div C < length ps" "ps ! (i div C) \<in> set (drop s ps)"
proof -
  show "s \<le> i div C" "i div C < length ps"
    using buckets_div [OF assms(1,5)] assms(2-4) div_le_mono [OF assms(4), of C] by simp_all
  then show "ps ! (i div C) \<in> set (drop s ps)"
    by (auto simp: in_set_conv_nth intro!: exI [of _ "i div C - s"])
qed

lemma take_filter_Suc: "r < length es \<Longrightarrow> filter f (take (Suc r) es) = filter f (take r es) @ (if f (es ! r) then [es ! r] else [])"
  by (simp add: take_Suc_conv_app_nth)

text \<open>The table while it is split, and what a step may change.\<close>

definition in_split :: "nat \<Rightarrow> HOTSTUFF \<Rightarrow> 'e CDynamicHashTable \<Rightarrow> 'e memory \<Rightarrow> PBUCKET option \<Rightarrow> 'e CDynamicHashTable" where
  "in_split h hs t m res = set_hs h (hs\<lparr>m_pReserve := res\<rparr>) (t\<lparr>mem := m\<rparr>)"

lemma in_split_simps [simp]:
  "mem (in_split h hs t m res) = m" "centry (in_split h hs t m res) = centry t" "(in_split h hs t m res)\<lparr>mem := m'\<rparr> = in_split h hs t m' res"
  "h < length (m_rghs t) \<Longrightarrow> get_hs h (in_split h hs t m res) = Some (hs\<lparr>m_pReserve := res\<rparr>)"
  by (simp_all add: in_split_def set_hs_def centry_def get_hs_def rd_def)

definition within :: "PBUCKET set \<Rightarrow> PBUCKET set \<Rightarrow> 'e memory \<Rightarrow> 'e memory \<Rightarrow> bool" where
  "within A H m m' \<longleftrightarrow> agree (- A) m m' \<and> live m' = live m \<and> (\<forall>p. cap m' p = cap m p) \<and> cAlloc m' = cAlloc m \<and> fails m' = fails m \<and> (\<forall>p\<in>H. um m' p = um m p)"

lemma within_refl: "within A H m m"
  by (simp add: within_def agree_put)

lemma within_trans: "within A H m m' \<Longrightarrow> within A H m' m'' \<Longrightarrow> within A H m m''"
  using agree_trans unfolding within_def by metis

lemma within_put: "p \<in> A \<Longrightarrow> within A H m (put_entry p i e m)" "p \<in> A \<Longrightarrow> within A H m (put_pb p u m)"
  "p \<in> A \<Longrightarrow> p \<notin> H \<Longrightarrow> within A H m (put_u p w m)"
  by (auto simp: within_def agree_def)

lemma commit_pool:
  assumes "h < length (m_rghs t)" "pooled m (q # R) res"
  obtains res' where "PbucketPOOLCommit h (in_split h hs t m res) = Some (in_split h hs t m res', q)" "pooled m R res'"
proof -
  obtain p' where p: "res = Some q" "pb m q = Some (link_end p')" "pooled m R p'"
    using assms(2) by auto
  then obtain b where b: "cells m q = Some b" "m_pb b = link_end p'"
    by (auto simp: pb_def)
  have "PbucketPOOLCommit h (in_split h hs t m res) = Some (in_split h hs t m p', q)"
    using assms(1) p b by (simp add: PbucketPOOLCommit_def) (simp add: in_split_def set_hs_def)
  then show thesis
    using that p(3) by blast
qed

text \<open>An entry that stays, stored in the bucket in use.\<close>

lemma keep_room:
  assumes "splitting stays C ps dst es R m res v qs0 qs1 av s r" "distinct (ps @ [dst] @ R)" "length ps = buckets C es"
    "iThisSrc v < iMostSrc v" "stays (es ! r)" "iThis0 v < C"
  shows "splitting stays C ps dst es R (put_entry (last qs0) (iThis0 v) (es ! r) m) res
    (v\<lparr>iLast0 := Some (iThis0 v), iThis0 := Suc (iThis0 v), iThisSrc := Suc (iThisSrc v)\<rparr>) qs0 qs1 av s (Suc r)"
    (is "splitting _ _ _ _ _ _ ?m _ ?v _ _ _ _ _")
proof -
  note d = splittingD [OF assms(1)] and D = splitting_distinct [OF assms(1,2)]
  note f0 = fillingD [OF d(3)] and f1 = fillingD [OF d(7)]
  note a = at_entry [OF d(1) assms(4) f0(1) assms(3)]
  have s: "s < length ps" "r = s * C + iThisSrc v" "iMostSrc v = held C ps es s"
    using d(1) by (simp_all add: at_source_def)
  have l: "last qs0 \<in> set qs0"
    using f0(2) by simp
  then have l0: "last qs0 \<in> set qs0" "last qs0 \<notin> set qs1"
    using D(1) by (auto simp: disjoint_iff)
  have g: "GetEntry p i ?m = (if p = last qs0 \<and> i = iThis0 v then Some (es ! r) else GetEntry p i m)" for p i
    using f0(10) assms(6) by simp
  have "unread ?m C ps es s (Suc r)"
  proof (rule unread_frame [OF d(2) _ _ _ s(1)])
    fix i assume i: "r < i" "i < length es"
    have "\<not> (ps ! (i div C) = last qs0 \<and> i mod C = iThis0 v)"
    proof (cases "ps ! s = last qs0")
      case True
      then have "iThis0 v \<le> r mod C"
        using d(13) a(3) by (simp add: behind_def)
      then show ?thesis
        using later_slot [OF _ s(1) f0(1) assms(3) a(2) _ i] assms(2) True by simp
    next
      case False
      then have "ps ! (i div C) \<in> set (unused ps qs0 s)"
        using later_bucket(3) [OF f0(1) assms(3) a(2) less_imp_le [OF i(1)] i(2)] by (simp add: unused_def)
      then show ?thesis
        using D(1) l0 by auto
    qed
    then show "GetEntry (ps ! (i div C)) (i mod C) ?m = GetEntry (ps ! (i div C)) (i mod C) m"
      unfolding g by auto
  qed simp_all
  moreover have "filling ?m C qs0 (filter stays (take (Suc r) es)) (Suc (iThis0 v))"
    using fill_room [OF d(3) assms(6), of "es ! r"] assms(5) by (simp add: take_filter_Suc [OF a(1)])
  moreover have "filling ?m C qs1 (filter (\<lambda>e. \<not> stays e) (take (Suc r) es)) (iThis1 v)"
  proof -
    have "qs1 ! (j div C) \<noteq> last qs0" if "j < length (filter (\<lambda>e. \<not> stays e) (take r es))" for j
      using f1(12) [OF that] l0(2) nth_mem by metis
    then have "filling ?m C qs1 (filter (\<lambda>e. \<not> stays e) (take r es)) (iThis1 v)"
      by (intro filling_frame [OF d(7)]) (simp_all add: g)
    then show ?thesis
      using assms(5) by (simp add: take_filter_Suc [OF a(1)])
  qed
  moreover have "at_source C ps es ?v s (Suc r)"
    using d(1) assms(4) by (simp add: at_source_def)
  moreover have "behind ?m ps qs0 s ?v"
    using d(13) by (simp add: behind_def split: if_splits)
  moreover have "pooled ?m av (pBucketAvail ?v)" "pooled ?m (spare R ?v) res" "roomy ?m C (set (ps @ [dst] @ R))"
    using pooled_frame [OF d(11), of ?m] pooled_frame [OF d(12), of ?m] d(15) by (simp_all add: spare_def roomy_def)
  moreover have "mset (qs0 @ qs1 @ av @ unused ps qs0 s @ spare R ?v) = mset (ps @ [dst] @ R)"
    using d(14) by (simp add: spare_def)
  ultimately show ?thesis
    using d(4-6,8-10) assms(5) unfolding splitting_def by (simp add: last_slot_def take_filter_Suc [OF a(1)])
qed

text \<open>An entry that stays, stored in the source bucket itself when the bucket in use is full.\<close>

lemma keep_next:
  assumes "splitting stays C ps dst es R m res v qs0 qs1 av s r" "distinct (ps @ [dst] @ R)" "length ps = buckets C es"
    "iThisSrc v < iMostSrc v" "stays (es ! r)" "\<not> iThis0 v < C"
  shows "next_link m (last qs0) = Some (Some (ps ! s))"
    "splitting stays C ps dst es R (put_entry (ps ! s) 0 (es ! r) m) res
    (v\<lparr>pBucketThis0 := ps ! s, iLast0 := Some 0, iThis0 := 1, iThisSrc := Suc (iThisSrc v)\<rparr>) (qs0 @ [ps ! s]) qs1 av s (Suc r)"
    (is "splitting _ _ _ _ _ _ ?m _ ?v ?qs0 _ _ _ _")
proof -
  note d = splittingD [OF assms(1)] and D = splitting_distinct [OF assms(1,2)]
  note f0 = fillingD [OF d(3)] and f1 = fillingD [OF d(7)]
  note a = at_entry [OF d(1) assms(4) f0(1) assms(3)]
  have s: "s < length ps" "r = s * C + iThisSrc v" "iMostSrc v = held C ps es s"
    using d(1) by (simp_all add: at_source_def)
  have full: "iThis0 v = C"
    using f0(8) assms(6) by simp
  have ne: "ps ! s \<noteq> last qs0"
    using d(13) a(4) full by (auto simp: behind_def)
  then have b: "pb m (last qs0) = Some (BucketNext (ps ! s))" "um m (ps ! s) = Some (BucketPrev (last qs0))"
    using d(13) by (simp_all add: behind_def)
  then show "next_link m (last qs0) = Some (Some (ps ! s))"
    by (simp add: next_link_pb)
  have un: "unused ps qs0 s = ps ! s # drop (Suc s) ps" "unused ps ?qs0 s = drop (Suc s) ps"
    using ne s(1) by (simp_all add: unused_def Cons_nth_drop_Suc)
  have nq: "ps ! s \<notin> set qs0" "ps ! s \<notin> set qs1" "cap m (ps ! s) = Some C"
    using D(1) splitting_cap [OF assms(1,2)] unfolding un(1) by auto
  have g: "GetEntry p i ?m = (if p = ps ! s \<and> i = 0 then Some (es ! r) else GetEntry p i m)" for p i
    using nq(3) f0(1) by simp
  have "unread ?m C ps es s (Suc r)"
  proof (rule unread_frame [OF d(2) _ _ _ s(1)])
    fix i assume i: "r < i" "i < length es"
    show "GetEntry (ps ! (i div C)) (i mod C) ?m = GetEntry (ps ! (i div C)) (i mod C) m"
      unfolding g using later_slot [OF _ s(1) f0(1) assms(3) a(2) le0 i] assms(2) by auto
  qed simp_all
  moreover have "filling ?m C ?qs0 (filter stays (take (Suc r) es)) 1"
    using fill_new [OF d(3) [unfolded full] nq(1,3) b, of "es ! r"] assms(5) by (simp add: take_filter_Suc [OF a(1)])
  moreover have "filling ?m C qs1 (filter (\<lambda>e. \<not> stays e) (take (Suc r) es)) (iThis1 v)"
  proof -
    have "qs1 ! (j div C) \<noteq> ps ! s" if "j < length (filter (\<lambda>e. \<not> stays e) (take r es))" for j
      using f1(12) [OF that] nq(2) nth_mem by metis
    then have "filling ?m C qs1 (filter (\<lambda>e. \<not> stays e) (take r es)) (iThis1 v)"
      by (intro filling_frame [OF d(7)]) (simp_all add: g)
    then show ?thesis
      using assms(5) by (simp add: take_filter_Suc [OF a(1)])
  qed
  moreover have "at_source C ps es ?v s (Suc r)"
    using d(1) assms(4) by (simp add: at_source_def)
  moreover have "behind ?m ps ?qs0 s ?v"
    by (simp add: behind_def)
  moreover have "pooled ?m av (pBucketAvail ?v)" "pooled ?m (spare R ?v) res" "roomy ?m C (set (ps @ [dst] @ R))"
    using pooled_frame [OF d(11), of ?m] pooled_frame [OF d(12), of ?m] d(15) by (simp_all add: spare_def roomy_def)
  moreover have "mset (?qs0 @ qs1 @ av @ unused ps ?qs0 s @ spare R ?v) = mset (ps @ [dst] @ R)"
    using d(14) unfolding un by (simp add: spare_def)
  ultimately show "splitting stays C ps dst es R ?m res ?v ?qs0 qs1 av s (Suc r)"
    using d(5,8-10) f0(2) assms(5) unfolding splitting_def by (simp add: last_slot_def take_filter_Suc [OF a(1)])
qed

text \<open>An entry that moves, stored in the bucket in use.\<close>

lemma move_room:
  assumes "splitting stays C ps dst es R m res v qs0 qs1 av s r" "distinct (ps @ [dst] @ R)" "length ps = buckets C es"
    "iThisSrc v < iMostSrc v" "\<not> stays (es ! r)" "iThis1 v < C"
  shows "splitting stays C ps dst es R (put_entry (last qs1) (iThis1 v) (es ! r) m) res
    (v\<lparr>iLast1 := Some (iThis1 v), iThis1 := Suc (iThis1 v), iThisSrc := Suc (iThisSrc v)\<rparr>) qs0 qs1 av s (Suc r)"
    (is "splitting _ _ _ _ _ _ ?m _ ?v _ _ _ _ _")
proof -
  note d = splittingD [OF assms(1)] and D = splitting_distinct [OF assms(1,2)]
  note f0 = fillingD [OF d(3)] and f1 = fillingD [OF d(7)]
  note a = at_entry [OF d(1) assms(4) f0(1) assms(3)]
  have s: "s < length ps" "r = s * C + iThisSrc v" "iMostSrc v = held C ps es s"
    using d(1) by (simp_all add: at_source_def)
  have l: "last qs1 \<in> set qs1"
    using f1(2) by simp
  then have l1: "last qs1 \<notin> set qs0" "last qs1 \<notin> set (unused ps qs0 s)"
    using D(1) by (auto simp: disjoint_iff)
  have g: "GetEntry p i ?m = (if p = last qs1 \<and> i = iThis1 v then Some (es ! r) else GetEntry p i m)" for p i
    using f1(10) assms(6) by simp
  have "unread ?m C ps es s (Suc r)"
  proof (rule unread_frame [OF d(2) _ _ _ s(1)])
    fix i assume i: "r < i" "i < length es"
    have "ps ! (i div C) \<in> set (drop s ps)"
      by (rule later_bucket(3) [OF f0(1) assms(3) a(2) less_imp_le [OF i(1)] i(2)])
    also have "set (drop s ps) \<subseteq> set qs0 \<union> set (unused ps qs0 s)"
      using s(1) f0(2) by (auto simp: unused_def simp flip: Cons_nth_drop_Suc)
    finally have "ps ! (i div C) \<noteq> last qs1"
      using l1 by auto
    then show "GetEntry (ps ! (i div C)) (i mod C) ?m = GetEntry (ps ! (i div C)) (i mod C) m"
      unfolding g by auto
  qed simp_all
  moreover have "filling ?m C qs1 (filter (\<lambda>e. \<not> stays e) (take (Suc r) es)) (Suc (iThis1 v))"
    using fill_room [OF d(7) assms(6), of "es ! r"] assms(5) by (simp add: take_filter_Suc [OF a(1)])
  moreover have "filling ?m C qs0 (filter stays (take (Suc r) es)) (iThis0 v)"
  proof -
    have "qs0 ! (j div C) \<noteq> last qs1" if "j < length (filter stays (take r es))" for j
      using f0(12) [OF that] l1(1) nth_mem by metis
    then have "filling ?m C qs0 (filter stays (take r es)) (iThis0 v)"
      by (intro filling_frame [OF d(3)]) (simp_all add: g)
    then show ?thesis
      using assms(5) by (simp add: take_filter_Suc [OF a(1)])
  qed
  moreover have "at_source C ps es ?v s (Suc r)"
    using d(1) assms(4) by (simp add: at_source_def)
  moreover have "behind ?m ps qs0 s ?v"
    using d(13) by (simp add: behind_def split: if_splits)
  moreover have "pooled ?m av (pBucketAvail ?v)" "pooled ?m (spare R ?v) res" "roomy ?m C (set (ps @ [dst] @ R))"
    using pooled_frame [OF d(11), of ?m] pooled_frame [OF d(12), of ?m] d(15) by (simp_all add: spare_def roomy_def)
  moreover have "mset (qs0 @ qs1 @ av @ unused ps qs0 s @ spare R ?v) = mset (ps @ [dst] @ R)"
    using d(14) by (simp add: spare_def)
  ultimately show ?thesis
    using d(4-6,8-10) assms(5) unfolding splitting_def by (simp add: last_slot_def take_filter_Suc [OF a(1)])
qed

text \<open>
  An entry that moves, stored in a new bucket \<open>q\<close> when the bucket in use is full. The bucket is the first that fell empty, or a reserved one.
\<close>

lemma move_next:
  assumes "splitting stays C ps dst es R m res v qs0 qs1 av s r" "distinct (ps @ [dst] @ R)" "length ps = buckets C es"
    "iThisSrc v < iMostSrc v" "\<not> stays (es ! r)" "\<not> iThis1 v < C"
    "av @ spare R v = q # av' @ R'" "pooled m av' p'" "pooled m R' res'" "R' = spare R (v\<lparr>fBucketFromHeap := b\<rparr>)"
  shows "splitting stays C ps dst es R
    (put_entry q 0 (es ! r) (put_u q (BucketPrev (last qs1)) (put_pb (last qs1) (BucketNext q) m))) res'
    (v\<lparr>pBucketAvail := p', fBucketFromHeap := b, pBucketThis1 := q, iLast1 := Some 0, iThis1 := 1, iThisSrc := Suc (iThisSrc v)\<rparr>)
    qs0 (qs1 @ [q]) av' s (Suc r)" (is "splitting _ _ _ _ _ _ (put_entry _ _ _ ?m1) _ ?v _ ?qs1 _ _ _")
proof -
  note d = splittingD [OF assms(1)] and D = splitting_distinct [OF assms(1,2)]
  note f0 = fillingD [OF d(3)] and f1 = fillingD [OF d(7)]
  note a = at_entry [OF d(1) assms(4) f0(1) assms(3)]
  let ?m = "put_entry q 0 (es ! r) ?m1"
  have s: "s < length ps" "r = s * C + iThisSrc v" "iMostSrc v = held C ps es s"
    using d(1) by (simp_all add: at_source_def)
  have full: "iThis1 v = C"
    using f1(8) assms(6) by simp
  have perm: "mset (qs0 @ qs1 @ av @ unused ps qs0 s @ spare R v) = mset (qs0 @ qs1 @ q # av' @ unused ps qs0 s @ R')"
    using arg_cong [OF assms(7), of mset] by simp
  then have D': "distinct (qs0 @ qs1 @ q # av' @ unused ps qs0 s @ R')"
    using mset_eq_imp_distinct_iff [OF perm] D(1) by simp
  have l: "last qs1 \<in> set qs1"
    using f1(2) by simp
  then have l1: "last qs1 \<notin> set qs0" "last qs1 \<notin> set (unused ps qs0 s)" "last qs1 \<notin> set av'" "last qs1 \<notin> set R'" "last qs1 \<noteq> q"
    and q: "q \<notin> set qs0" "q \<notin> set qs1" "q \<notin> set (unused ps qs0 s)" "q \<notin> set av'" "q \<notin> set R'"
    using D' by (auto simp: disjoint_iff)
  have "q \<in> set (qs0 @ qs1 @ av @ unused ps qs0 s @ spare R v)"
    using arg_cong [OF assms(7), of set] by auto
  then have cq: "cap m q = Some C" "q \<in> live m" "last qs1 \<in> live m"
    using splitting_cap [OF assms(1,2)] live_cap f1(10) by blast+
  have g: "GetEntry p i ?m = (if p = q \<and> i = 0 then Some (es ! r) else GetEntry p i m)" for p i
    using cq(1) f0(1) by simp
  have src: "set (drop s ps) \<subseteq> set qs0 \<union> set (unused ps qs0 s)"
    using s(1) f0(2) by (auto simp: unused_def simp flip: Cons_nth_drop_Suc)
  have ps: "ps ! k \<noteq> q \<and> ps ! k \<noteq> last qs1" if "s \<le> k" "k < length ps" for k
  proof -
    have "ps ! k \<in> set (drop s ps)"
      using that by (auto simp: in_set_conv_nth intro!: exI [of _ "k - s"])
    then show ?thesis
      using src l1 q by auto
  qed
  have "unread ?m C ps es s (Suc r)"
  proof (rule unread_frame [OF d(2) _ _ _ s(1)])
    fix i assume i: "r < i" "i < length es"
    show "GetEntry (ps ! (i div C)) (i mod C) ?m = GetEntry (ps ! (i div C)) (i mod C) m"
      unfolding g using ps later_bucket(1,2) [OF f0(1) assms(3) a(2) less_imp_le [OF i(1)] i(2)] by auto
  qed (use ps in auto)
  moreover have "filling ?m C ?qs1 (filter (\<lambda>e. \<not> stays e) (take (Suc r) es)) 1"
  proof -
    have nb: "p \<noteq> last qs1" if "p \<in> set (butlast qs1)" for p
      using that f1(2,3) by (metis append_butlast_last_id distinct_append disjoint_iff list.set_intros(1))
    have "filling ?m1 C qs1 (filter (\<lambda>e. \<not> stays e) (take r es)) (iThis1 v)"
      by (rule filling_frame [OF d(7)]) (use q nb in auto)
    then show ?thesis
      using fill_new [of ?m1 C qs1 _ q "es ! r"] q(2) cq l1(5) full assms(5) by (simp add: take_filter_Suc [OF a(1)])
  qed
  moreover have "filling ?m C qs0 (filter stays (take (Suc r) es)) (iThis0 v)"
  proof -
    have "qs0 ! (j div C) \<noteq> q" if "j < length (filter stays (take r es))" for j
      using f0(12) [OF that] q(1) nth_mem by metis
    moreover have "p \<in> set (butlast qs0) \<Longrightarrow> p \<noteq> last qs1" for p
      using l1(1) in_set_butlastD by metis
    ultimately have "filling ?m C qs0 (filter stays (take r es)) (iThis0 v)"
      using q(1) by (intro filling_frame [OF d(3)]) (auto simp: g)
    then show ?thesis
      using assms(5) by (simp add: take_filter_Suc [OF a(1)])
  qed
  moreover have "at_source C ps es ?v s (Suc r)"
    using d(1) assms(4) by (simp add: at_source_def)
  moreover have "behind ?m ps qs0 s ?v"
  proof -
    have "last qs0 \<in> set qs0"
      using f0(2) by simp
    then have "last qs0 \<noteq> last qs1"
      using l1(1) by metis
    then show ?thesis
      using d(13) ps [of s] s(1) by (auto simp: behind_def split: if_splits)
  qed
  moreover have "pooled ?m av' (pBucketAvail ?v)" "pooled ?m (spare R ?v) res'" "roomy ?m C (set (ps @ [dst] @ R))"
  proof -
    have "spare R ?v = R'"
      using assms(10) by (simp add: spare_def)
    moreover have "pooled ?m av' p'" "pooled ?m R' res'"
      using l1 q by (auto intro!: pooled_frame [OF assms(8)] pooled_frame [OF assms(9)])
    ultimately show "pooled ?m av' (pBucketAvail ?v)" "pooled ?m (spare R ?v) res'"
      by simp_all
    show "roomy ?m C (set (ps @ [dst] @ R))"
      using d(15) by (simp add: roomy_def)
  qed
  moreover have "mset (qs0 @ ?qs1 @ av' @ unused ps qs0 s @ spare R ?v) = mset (ps @ [dst] @ R)"
    using d(14) perm assms(10) by (simp add: spare_def)
  ultimately show ?thesis
    using d(4-6,9) f1(2) assms(5) unfolding splitting_def by (simp add: last_slot_def take_filter_Suc [OF a(1)])
qed

text \<open>When no bucket has fallen empty, the reserved bucket has not been used yet: the entries read so far would not fill the buckets in use.\<close>

lemma reserve_unused:
  assumes "splitting stays C ps dst es R m res v qs0 qs1 [] s r" "length ps = buckets C es" "iThisSrc v < iMostSrc v" "\<not> iThis1 v < C" "R \<noteq> []"
  shows "\<not> fBucketFromHeap v"
proof
  assume heap: "fBucketFromHeap v"
  note d = splittingD [OF assms(1)]
  note f0 = fillingD [OF d(3)] and f1 = fillingD [OF d(7)]
  note a = at_entry [OF d(1) assms(3) f0(1) assms(2)]
  have s: "s < length ps" "r = s * C + iThisSrc v"
    using d(1) by (simp_all add: at_source_def)
  have len: "length qs0 + length qs1 + length (unused ps qs0 s) = length ps + 2"
    using arg_cong [OF d(14), of size] heap assms(5) by (cases R) (simp_all add: spare_def)
  have u: "length (unused ps qs0 s) \<le> length ps - s"
    by (simp add: unused_def diff_le_mono2)
  have "length qs0 + length qs1 \<ge> s + 2"
    using len u s(1) by linarith
  moreover have "length (filter stays (take r es)) + length (filter (\<lambda>e. \<not> stays e) (take r es)) = r"
    using sum_length_filter_compl [of stays "take r es"] a(1) by simp
  moreover have "length (filter (\<lambda>e. \<not> stays e) (take r es)) = length qs1 * C"
    using f1(2,7,8) assms(4) by (cases qs1) simp_all
  moreover have "(length qs0 - 1) * C \<le> length (filter stays (take r es))"
    using f0(7) by simp
  ultimately have "(length qs0 - 1) * C + length qs1 * C \<le> r" and "s + 2 \<le> length qs0 + length qs1"
    by linarith+
  moreover from this(2) have "Suc s \<le> length qs0 - 1 + length qs1"
    using f0(2) by (cases qs0) simp_all
  ultimately have "Suc s * C \<le> r"
    by (metis (no_types, lifting) add_mult_distrib mult_le_mono1 order.trans)
  then show False
    using s(2) a(4) by simp
qed

lemma split_move_spec:
  assumes "splitting (\<lambda>e. hash e AND hm = src) C ps dst es R m res v qs0 qs1 av s r" "distinct (ps @ [dst] @ R)" "length ps = buckets C es"
    "iThisSrc v < iMostSrc v" "R \<noteq> []" "centry t = C" "h < length (m_rghs t)"
  obtains m' res' v' qs0' qs1' av' where
    "split_move hash h hm src (in_split h hs t m res) v = Some (in_split h hs t m' res', v')"
    "splitting (\<lambda>e. hash e AND hm = src) C ps dst es R m' res' v' qs0' qs1' av' s (Suc r)"
    "within (set (ps @ [dst] @ R)) {hd ps, dst} m m'"
proof -
  let ?stays = "\<lambda>e. hash e AND hm = src"
  note d = splittingD [OF assms(1)] and D = splitting_distinct [OF assms(1,2)]
  note f0 = fillingD [OF d(3)] and f1 = fillingD [OF d(7)]
  note e = unread_head [OF d(2,1) assms(4) f0(1) assms(3)]
  have s: "s < length ps" "pBucketSrcSrc v = ps ! s"
    using d(1) by (simp_all add: at_source_def)
  have e': "GetEntry (ps ! s) (iThisSrc v) m = Some (es ! r)"
    using e s(2) by simp
  have all: "set qs0 \<subseteq> set (ps @ [dst] @ R)" "set qs1 \<subseteq> set (ps @ [dst] @ R)" "set av \<subseteq> set (ps @ [dst] @ R)" "set R \<subseteq> set (ps @ [dst] @ R)"
    using D(2) by auto
  have last: "last qs0 \<in> set qs0" "last qs1 \<in> set qs1"
    using f0(2) f1(2) by simp_all
  have heads: "hd ps \<in> set qs0" "dst \<in> set qs1"
    using d(5,9) f0(2) f1(2) hd_in_set by metis+
  show thesis
  proof (cases "?stays (es ! r)")
    case True
    show thesis
    proof (cases "iThis0 v < C")
      case room: True
      show thesis
      proof (rule that)
        show "split_move hash h hm src (in_split h hs t m res) v = Some (in_split h hs t (put_entry (last qs0) (iThis0 v) (es ! r) m) res,
            v\<lparr>iLast0 := Some (iThis0 v), iThis0 := Suc (iThis0 v), iThisSrc := Suc (iThisSrc v)\<rparr>)"
          using room True f0(10) d(4) by (simp add: split_move_def split_extend_def split_store_def s(2) e' assms(6))
        show "within (set (ps @ [dst] @ R)) {hd ps, dst} m (put_entry (last qs0) (iThis0 v) (es ! r) m)"
          using all(1) last(1) by (intro within_put) auto
      qed (rule keep_room [OF assms(1-4) True room])
    next
      case full: False
      note k = keep_next [OF assms(1-4) True full]
      show thesis
      proof (rule that)
        have "cap m (ps ! s) = Some C"
          using d(15) s(1) by (simp add: roomy_def)
        then show "split_move hash h hm src (in_split h hs t m res) v = Some (in_split h hs t (put_entry (ps ! s) 0 (es ! r) m) res,
            v\<lparr>pBucketThis0 := ps ! s, iLast0 := Some 0, iThis0 := 1, iThisSrc := Suc (iThisSrc v)\<rparr>)"
          using full True d(4) k(1) f0(1) by (simp add: split_move_def split_extend_def split_store_def s(2) e' assms(6))
        show "within (set (ps @ [dst] @ R)) {hd ps, dst} m (put_entry (ps ! s) 0 (es ! r) m)"
          using s(1) by (intro within_put) auto
      qed (rule k(2))
    qed
  next
    case False
    show thesis
    proof (cases "iThis1 v < C")
      case room: True
      show thesis
      proof (rule that)
        show "split_move hash h hm src (in_split h hs t m res) v = Some (in_split h hs t (put_entry (last qs1) (iThis1 v) (es ! r) m) res,
            v\<lparr>iLast1 := Some (iThis1 v), iThis1 := Suc (iThis1 v), iThisSrc := Suc (iThisSrc v)\<rparr>)"
          using room False f1(10) d(8) by (simp add: split_move_def split_extend_def split_store_def s(2) e' assms(6))
        show "within (set (ps @ [dst] @ R)) {hd ps, dst} m (put_entry (last qs1) (iThis1 v) (es ! r) m)"
          using all(2) last(2) by (intro within_put) auto
      qed (rule move_room [OF assms(1-4) False room])
    next
      case full: False
      define new where "new q = put_entry q 0 (es ! r) (put_u q (BucketPrev (last qs1)) (put_pb (last qs1) (BucketNext q) m))" for q
      have wi: "within (set (ps @ [dst] @ R)) {hd ps, dst} m (new q)" if "q \<in> set (ps @ [dst] @ R)" "q \<notin> {hd ps, dst}" for q
      proof -
        have 1: "within (set (ps @ [dst] @ R)) {hd ps, dst} m (put_pb (last qs1) (BucketNext q) m)"
          using all(2) last(2) by (intro within_put) auto
        show ?thesis
          unfolding new_def by (rule within_trans [OF within_trans [OF 1 within_put(3) [OF that]] within_put(1) [OF that(1)]])
      qed
      show thesis
      proof (cases av)
        case (Cons q av')
        obtain p' where p: "pBucketAvail v = Some q" "pb m q = Some (link_end p')" "pooled m av' p'"
          using d(11) Cons by auto
        have q: "q \<in> set av" "q \<notin> set qs0" "q \<notin> set qs1"
          using D(1) Cons by auto
        have cq: "cap m q = Some C" "q \<in> live m" "last qs1 \<in> live m"
          using splitting_cap [OF assms(1,2), of q] Cons live_cap f1(10) by auto
        show thesis
        proof (rule that)
          show "split_move hash h hm src (in_split h hs t m res) v = Some (in_split h hs t (new q) res,
              v\<lparr>pBucketAvail := p', fBucketFromHeap := fBucketFromHeap v, pBucketThis1 := q, iLast1 := Some 0, iThis1 := 1, iThisSrc := Suc (iThisSrc v)\<rparr>)"
            using full False p cq d(8) f0(1) by (simp add: split_move_def split_extend_def split_store_def s(2) e' assms(6) next_link_pb new_def)
          show "splitting ?stays C ps dst es R (new q) res
              (v\<lparr>pBucketAvail := p', fBucketFromHeap := fBucketFromHeap v, pBucketThis1 := q, iLast1 := Some 0, iThis1 := 1, iThisSrc := Suc (iThisSrc v)\<rparr>)
              qs0 (qs1 @ [q]) av' s (Suc r)"
            unfolding new_def
            by (rule move_next [OF assms(1-4) False full _ p(3) d(12)]) (simp_all add: Cons spare_def)
          show "within (set (ps @ [dst] @ R)) {hd ps, dst} m (new q)"
            using q all(3) heads by (intro wi) auto
        qed
      next
        case Nil
        have heap: "\<not> fBucketFromHeap v"
          using reserve_unused assms(1,3,4,5) full Nil by blast
        obtain q R' where R: "R = q # R'"
          using assms(5) by (cases R) auto
        have po: "pooled m (q # R') res"
          using d(12) heap R by (simp add: spare_def)
        obtain res' where c: "PbucketPOOLCommit h (in_split h hs t m res) = Some (in_split h hs t m res', q)" "pooled m R' res'"
          by (rule commit_pool [OF assms(7) po])
        have q: "q \<in> set (spare R v)" "q \<notin> set qs0" "q \<notin> set qs1"
          using D(1) R heap by (auto simp: spare_def)
        have cq: "cap m q = Some C" "q \<in> live m" "last qs1 \<in> live m"
          using splitting_cap [OF assms(1,2), of q] q(1) live_cap f1(10) by auto
        have na: "pBucketAvail v = None"
          using d(11) Nil by simp
        show thesis
        proof (rule that)
          show "split_move hash h hm src (in_split h hs t m res) v = Some (in_split h hs t (new q) res',
              v\<lparr>pBucketAvail := None, fBucketFromHeap := True, pBucketThis1 := q, iLast1 := Some 0, iThis1 := 1, iThisSrc := Suc (iThisSrc v)\<rparr>)"
            using full False c(1) cq d(8) f0(1) na by (simp add: split_move_def split_extend_def split_store_def s(2) e' assms(6) new_def)
          show "splitting ?stays C ps dst es R (new q) res'
              (v\<lparr>pBucketAvail := None, fBucketFromHeap := True, pBucketThis1 := q, iLast1 := Some 0, iThis1 := 1, iThisSrc := Suc (iThisSrc v)\<rparr>)
              qs0 (qs1 @ [q]) [] s (Suc r)"
            unfolding new_def
            by (rule move_next [OF assms(1-4) False full _ _ c(2)]) (simp_all add: Nil spare_def heap R)
          show "within (set (ps @ [dst] @ R)) {hd ps, dst} m (new q)"
            using q R heads by (intro wi) auto
        qed
      qed
    qed
  qed
qed

lemma unread_next:
  assumes "unread m C ps es s r" "0 < C" "length ps = buckets C es" "s \<le> k" "k < length ps" "centry t = C"
    "pb (mem t) (ps ! k) = pb m (ps ! k)"
  shows "PbucketBKTNext t (ps ! k) = Some (if Suc k < length ps then Some (ps ! Suc k) else None)"
    "PentryBKTNextMost t (ps ! k) = Some (held C ps es k)"
proof -
  have "pb (mem t) (ps ! k) = Some (if Suc k < length ps then BucketNext (ps ! Suc k) else chain_end C es)"
    using assms(1,4,7) last_nth [OF assms(5)] by (auto simp: unread_def)
  from end_most [OF assms(2,3,5,6) this] show "PbucketBKTNext t (ps ! k) = Some (if Suc k < length ps then Some (ps ! Suc k) else None)"
    "PentryBKTNextMost t (ps ! k) = Some (held C ps es k)"
    by (simp_all add: held_def)
qed

lemma split_advance_spec:
  assumes "splitting stays C ps dst es R m res v qs0 qs1 av s r" "distinct (ps @ [dst] @ R)" "length ps = buckets C es"
    "\<not> iThisSrc v < iMostSrc v" "Suc s < length ps" "centry t = C"
  obtains m' v' av' where "split_advance (in_split h hs t m res) v (ps ! Suc s) = Some (in_split h hs t m' res, v')"
    "splitting stays C ps dst es R m' res v' qs0 qs1 av' (Suc s) r" "within (set (ps @ [dst] @ R)) {hd ps, dst} m m'"
    "iThisSrc v' < iMostSrc v'"
proof -
  note d = splittingD [OF assms(1)] and D = splitting_distinct [OF assms(1,2)]
  note f0 = fillingD [OF d(3)] and f1 = fillingD [OF d(7)]
  have a: "pBucketSrcSrc v = ps ! s" "iThisSrc v = held C ps es s" "r = s * C + held C ps es s"
    using d(1) assms(4) by (simp_all add: at_source_def)
  have h: "held C ps es s = C" "r = Suc s * C"
    using a(3) assms(5) by (simp_all add: held_def)
  have es: "es \<noteq> []"
    using held_bounds(4) [OF f0(1) assms(3) _ assms(5)] assms(5) by auto
  have dp: "distinct ps" "ps ! Suc s \<noteq> ps ! s"
    using assms(2,5) by (simp_all add: nth_eq_iff_index_eq)
  define v1 where "v1 = v\<lparr>iThisSrc := 0, iMostSrc := held C ps es (Suc s), pBucketSrcSrc := ps ! Suc s,
     pBucketNextSrc := (if Suc (Suc s) < length ps then Some (ps ! Suc (Suc s)) else None)\<rparr>"
  have src: "at_source C ps es (v1\<lparr>pBucketAvail := x\<rparr>) (Suc s) r" "at_source C ps es v1 (Suc s) r" for x
    using assms(5) h by (simp_all add: at_source_def v1_def)
  have lt: "iThisSrc v1 < iMostSrc v1"
    using held_bounds(6) [OF f0(1) assms(3,5) es] by (simp add: v1_def)
  have un: "unread m C ps es (Suc s) r"
    using d(2) by (simp add: unread_def)
  have notlast: "ps ! Suc s \<noteq> last qs0"
  proof -
    have "ps ! Suc s \<in> set (drop (Suc s) ps)"
      using assms(5) by (simp flip: Cons_nth_drop_Suc)
    moreover have "set (drop (Suc s) ps) \<subseteq> set (unused ps qs0 s)"
      by (simp add: unused_def set_drop_subset_set_drop)
    ultimately have "ps ! Suc s \<in> set (unused ps qs0 s)"
      by blast
    moreover have "last qs0 \<in> set qs0"
      using f0(2) by simp
    ultimately show ?thesis
      using D(1) by (auto simp: disjoint_iff)
  qed
  show thesis
  proof (cases "ps ! s = last qs0")
    case True
    have nx: "PbucketBKTNext (in_split h hs t m res) (ps ! Suc s) = Some (if Suc (Suc s) < length ps then Some (ps ! Suc (Suc s)) else None)"
      "PentryBKTNextMost (in_split h hs t m res) (ps ! Suc s) = Some (held C ps es (Suc s))"
      by (rule unread_next [OF un f0(1) assms(3) order_refl assms(5)]; simp add: assms(6))+
    have "split_advance (in_split h hs t m res) v (ps ! Suc s) = Some (in_split h hs t m res, v1)"
      using True d(4) a(1) by (simp add: split_advance_def nx v1_def Let_def)
    moreover have "splitting stays C ps dst es R m res v1 qs0 qs1 av (Suc s) r"
    proof -
      have "pb m (ps ! s) = Some (BucketNext (ps ! Suc s)) \<and> um m (ps ! Suc s) = Some (BucketPrev (ps ! s))"
        using d(2) assms(5) by (simp add: unread_def)
      then have "behind m ps qs0 (Suc s) v1"
        using notlast unfolding True by (simp add: behind_def)
      moreover have "unused ps qs0 (Suc s) = unused ps qs0 s"
        using notlast True by (simp add: unused_def)
      ultimately show ?thesis
        using d src(2) un unfolding splitting_def by (simp add: v1_def spare_def)
    qed
    ultimately show thesis
      using that within_refl lt by blast
  next
    case False
    define m1 where "m1 = put_pb (ps ! s) (link_end (pBucketAvail v)) (put_u (ps ! Suc s) (BucketPrev (last qs0)) (put_pb (last qs0) (BucketNext (ps ! Suc s)) m))"
    define v2 where "v2 = v1\<lparr>pBucketAvail := Some (ps ! s)\<rparr>"
    have us: "unused ps qs0 s = ps ! s # drop (Suc s) ps" "unused ps qs0 (Suc s) = drop (Suc s) ps"
      using False notlast assms(5) by (simp_all add: unused_def Cons_nth_drop_Suc)
    have l: "last qs0 \<in> set qs0" "ps ! Suc s \<in> set (drop (Suc s) ps)"
      using f0(2) assms(5) by (simp_all flip: Cons_nth_drop_Suc)
    have nq: "ps ! s \<notin> set qs0" "ps ! s \<notin> set qs1" "ps ! s \<notin> set av" "ps ! s \<notin> set (drop (Suc s) ps)" "ps ! s \<notin> set (spare R v)"
      "ps ! Suc s \<notin> set qs0" "ps ! Suc s \<notin> set qs1" "ps ! Suc s \<notin> set av" "ps ! Suc s \<notin> set (spare R v)"
      "last qs0 \<notin> set qs1" "last qs0 \<notin> set av" "last qs0 \<notin> set (drop (Suc s) ps)" "last qs0 \<notin> set (spare R v)"
      using D(1) l unfolding us by (auto simp: disjoint_iff)
    have lv: "ps ! s \<in> live m" "ps ! Suc s \<in> live m" "last qs0 \<in> live m"
      using d(15) assms(5) f0(10) by (simp_all add: roomy_def live_cap [of m _ C])
    have drop: "ps ! k \<noteq> ps ! s \<and> ps ! k \<noteq> last qs0" if "Suc s \<le> k" "k < length ps" for k
    proof -
      have "ps ! k \<in> set (drop (Suc s) ps)"
        using that by (auto simp: in_set_conv_nth intro!: exI [of _ "k - Suc s"])
      then show ?thesis
        using nq by auto
    qed
    have g: "GetEntry p i m1 = GetEntry p i m" "cap m1 p = cap m p" for p i
      by (simp_all add: m1_def)
    have pbu: "pb m1 p = pb m p" "um m1 p = um m p" if "p \<noteq> ps ! s" "p \<noteq> ps ! Suc s" "p \<noteq> last qs0" for p
      using that by (simp_all add: m1_def)
    have un1: "unread m1 C ps es (Suc s) r"
      using un drop unfolding unread_def g
    proof (elim conjE, intro conjI allI impI)
      assume u: "\<forall>k. Suc s \<le> k \<and> Suc k < length ps \<longrightarrow> pb m (ps ! k) = Some (BucketNext (ps ! Suc k)) \<and> um m (ps ! Suc k) = Some (BucketPrev (ps ! k))"
        "pb m (last ps) = Some (chain_end C es)"
      show "pb m1 (last ps) = Some (chain_end C es)"
      proof -
        have i: "ps \<noteq> []" "Suc s \<le> length ps - 1" "length ps - 1 < length ps"
          using assms(5) by auto
        have "last ps \<noteq> ps ! s \<and> last ps \<noteq> last qs0"
          using drop [OF i(2,3)] unfolding last_conv_nth [OF i(1)] .
        then show ?thesis
          using u(2) by (simp add: m1_def)
      qed
      fix k assume k: "Suc s \<le> k \<and> Suc k < length ps"
      have "ps ! Suc k \<noteq> ps ! Suc s"
        using k dp(1) by (simp add: nth_eq_iff_index_eq)
      then show "pb m1 (ps ! k) = Some (BucketNext (ps ! Suc k))" "um m1 (ps ! Suc k) = Some (BucketPrev (ps ! k))"
        using u(1) k drop [of k] by (simp_all add: m1_def)
    qed blast
    have nx: "PbucketBKTNext (in_split h hs t m1 res) (ps ! Suc s) = Some (if Suc (Suc s) < length ps then Some (ps ! Suc (Suc s)) else None)"
      "PentryBKTNextMost (in_split h hs t m1 res) (ps ! Suc s) = Some (held C ps es (Suc s))"
      by (rule unread_next [OF un1 f0(1) assms(3) order_refl assms(5)]; simp add: assms(6))+
    have "split_advance (in_split h hs t m res) v (ps ! Suc s) = Some (in_split h hs t m1 res, v2)"
      using False a(1) lv by (simp add: split_advance_def nx v1_def v2_def Let_def flip: d(4) m1_def)
    moreover have "splitting stays C ps dst es R m1 res v2 qs0 qs1 (ps ! s # av) (Suc s) r"
    proof -
      have nb: "p \<in> set (butlast qs0) \<Longrightarrow> p \<noteq> last qs0" for p
        using f0(2,3) by (metis append_butlast_last_id distinct_append disjoint_iff list.set_intros(1))
      have "filling m1 C qs0 (filter stays (take r es)) (iThis0 v)"
        by (rule filling_frame [OF d(3)]) (use nq nb g in \<open>auto simp: m1_def dest: in_set_butlastD\<close>)
      moreover have "filling m1 C qs1 (filter (\<lambda>e. \<not> stays e) (take r es)) (iThis1 v)"
        by (rule filling_frame [OF d(7)]) (use nq g in \<open>auto simp: m1_def dest: in_set_butlastD\<close>)
      moreover have "behind m1 ps qs0 (Suc s) v2"
        using notlast False lv by (simp add: behind_def m1_def)
      moreover have "pooled m1 (ps ! s # av) (pBucketAvail v2)"
      proof -
        have "pooled m1 av (pBucketAvail v)"
          by (rule pooled_frame [OF d(11)]) (use nq in \<open>auto simp: m1_def\<close>)
        then show ?thesis
          using lv by (auto simp: v2_def m1_def)
      qed
      moreover have "pooled m1 (spare R v2) res"
        by (rule pooled_frame [of m]) (use d(12) nq in \<open>auto simp: m1_def v2_def v1_def spare_def\<close>)
      moreover have "mset (qs0 @ qs1 @ (ps ! s # av) @ unused ps qs0 (Suc s) @ spare R v2) = mset (ps @ [dst] @ R)"
        using d(14) unfolding us by (simp add: v2_def v1_def spare_def)
      moreover have "roomy m1 C (set (ps @ [dst] @ R))"
        using d(15) by (simp add: roomy_def g)
      ultimately show ?thesis
        using d(4-6,8-10) src(1) un1 unfolding splitting_def by (simp add: v2_def v1_def)
    qed
    moreover have "within (set (ps @ [dst] @ R)) {hd ps, dst} m m1"
    proof -
      have "last qs0 \<in> set (ps @ [dst] @ R)"
        using D(2) l(1) by auto
      moreover have "hd ps \<in> set qs0" "dst \<in> set qs1"
        using d(5,9) f0(2) f1(2) hd_in_set by metis+
      ultimately show ?thesis
        using assms(5) nq unfolding within_def by (auto simp: agree_def m1_def)
    qed
    moreover have "iThisSrc v2 < iMostSrc v2"
      using lt by (simp add: v2_def)
    ultimately show thesis
      using that by blast
  qed
qed

lemma split_loop_spec:
  assumes "splitting (\<lambda>e. hash e AND hm = src) C ps dst es R m res v qs0 qs1 av s r" "distinct (ps @ [dst] @ R)" "length ps = buckets C es"
    "R \<noteq> []" "centry t = C" "h < length (m_rghs t)"
  shows "\<exists>m' res' v' qs0' qs1' av' s'. split_loop hash h hm src (in_split h hs t m res) v = Some (in_split h hs t m' res', v')
    \<and> splitting (\<lambda>e. hash e AND hm = src) C ps dst es R m' res' v' qs0' qs1' av' s' (length es)
    \<and> within (set (ps @ [dst] @ R)) {hd ps, dst} m m' \<and> \<not> Suc s' < length ps"
  using assms(1)
proof (induction "length es - r" arbitrary: m res v qs0 qs1 av s r rule: less_induct)
  case less
  note d = splittingD [OF less.prems] and f0 = fillingD [OF splittingD(3) [OF less.prems]]
  have s: "s < length ps" "pBucketNextSrc v = (if Suc s < length ps then Some (ps ! Suc s) else None)" "iMostSrc v = held C ps es s"
    "r = s * C + iThisSrc v" "iThisSrc v \<le> iMostSrc v"
    using d(1) by (simp_all add: at_source_def)
  have step: ?case if "split_loop hash h hm src (in_split h hs t m res) v =
      do { (t, v) \<leftarrow> split_move hash h hm src (in_split h hs t m1 res) v1; split_loop hash h hm src t v }"
    "splitting (\<lambda>e. hash e AND hm = src) C ps dst es R m1 res v1 qs0 qs1 av1 s1 r" "iThisSrc v1 < iMostSrc v1"
    "within (set (ps @ [dst] @ R)) {hd ps, dst} m m1" for m1 v1 av1 s1
  proof -
    note st = that
    obtain m2 res2 v2 qs02 qs12 av2 where 2: "split_move hash h hm src (in_split h hs t m1 res) v1 = Some (in_split h hs t m2 res2, v2)"
      "splitting (\<lambda>e. hash e AND hm = src) C ps dst es R m2 res2 v2 qs02 qs12 av2 s1 (Suc r)" "within (set (ps @ [dst] @ R)) {hd ps, dst} m1 m2"
      by (rule split_move_spec [OF st(2) assms(2,3) st(3) assms(4-6)])
    have "r < length es"
      using at_entry(1) [OF splittingD(1) [OF st(2)] st(3) f0(1) assms(3)] .
    then have "length es - Suc r < length es - r"
      by simp
    from less.hyps [OF this 2(2)] obtain m3 res3 v3 qs03 qs13 av3 s3 where
      3: "split_loop hash h hm src (in_split h hs t m2 res2) v2 = Some (in_split h hs t m3 res3, v3)"
      "splitting (\<lambda>e. hash e AND hm = src) C ps dst es R m3 res3 v3 qs03 qs13 av3 s3 (length es)"
      "within (set (ps @ [dst] @ R)) {hd ps, dst} m2 m3" "\<not> Suc s3 < length ps"
      by blast
    have "split_loop hash h hm src (in_split h hs t m res) v = Some (in_split h hs t m3 res3, v3)"
      using st(1) 2(1) 3(1) by simp
    then show ?thesis
      using 3(2,4) within_trans [OF within_trans [OF st(4) 2(3)] 3(3)] by blast
  qed
  show ?case
  proof (cases "iThisSrc v < iMostSrc v")
    case True
    show ?thesis
      by (rule step [OF _ less.prems True within_refl]) (subst split_loop.simps, simp add: True)
  next
    case False
    show ?thesis
    proof (cases "Suc s < length ps")
      case True
      obtain m' v' av' where a: "split_advance (in_split h hs t m res) v (ps ! Suc s) = Some (in_split h hs t m' res, v')"
        "splitting (\<lambda>e. hash e AND hm = src) C ps dst es R m' res v' qs0 qs1 av' (Suc s) r" "within (set (ps @ [dst] @ R)) {hd ps, dst} m m'"
        "iThisSrc v' < iMostSrc v'"
        by (rule split_advance_spec [OF less.prems assms(2,3) False True assms(5)])
      show ?thesis
        by (rule step [OF _ a(2,4,3)]) (subst split_loop.simps, simp add: False s(2) True a(1))
    next
      case last: False
      have "split_loop hash h hm src (in_split h hs t m res) v = Some (in_split h hs t m res, v)"
        by (subst split_loop.simps) (simp add: False s(2) last)
      moreover have "r = length es"
        using held_bounds(5) [OF f0(1) assms(3) s(1) last] s(3-5) False by simp
      ultimately show ?thesis
        using less.prems last within_refl by blast
    qed
  qed
qed

section \<open>A split\<close>

text \<open>
  The reserved bucket is used up, or goes back to the pool; what else a split or a merge changes: of the buckets in \<open>A\<close> those in \<open>B\<close> stay live,
  the locks of the heads in \<open>H\<close> are untouched.
\<close>

definition spent :: "HOTSTUFF \<Rightarrow> PBUCKET list \<Rightarrow> HOTSTUFF \<Rightarrow> PBUCKET list \<Rightarrow> bool" where
  "spent hs R hs' R' \<longleftrightarrow> hs' = hs\<lparr>m_pReserve := m_pReserve hs', m_cReserve := m_cReserve hs'\<rparr>
     \<and> (R' = tl R \<and> m_cReserve hs' = m_cReserve hs \<or> R' = R \<and> m_cReserve hs' = m_cReserve hs + 1)"

definition reshaped ::
  "nat \<Rightarrow> PBUCKET set \<Rightarrow> PBUCKET set \<Rightarrow> PBUCKET set \<Rightarrow> 'e memory \<Rightarrow> HOTSTUFF \<Rightarrow> PBUCKET list \<Rightarrow> 'e memory \<Rightarrow> HOTSTUFF \<Rightarrow> PBUCKET list \<Rightarrow> bool" where
  "reshaped C A B H m hs R m' hs' R' \<longleftrightarrow> B \<subseteq> A \<and> agree (- A) m m' \<and> live m' = live m - A \<union> B \<and> cAlloc m' = cAlloc m \<and> fails m' = fails m
     \<and> (\<forall>p\<in>H. um m' p = um m p) \<and> spent hs R hs' R' \<and> pooled m' R' (m_pReserve hs') \<and> roomy m' C (set R')"

lemma in_split_id: "get_hs h t = Some hs \<Longrightarrow> t = in_split h hs t (mem t) (m_pReserve hs)"
  by (auto simp: in_split_def set_hs_def get_hs_def rd_def split: if_splits)

lemma POOLUnreserve_spec: "h < length (m_rghs t) \<Longrightarrow>
    POOLUnreserve h (in_split h hs t m res) = Some (set_hs h (hs\<lparr>m_pReserve := res, m_cReserve := m_cReserve hs + 1\<rparr>) (t\<lparr>mem := m\<rparr>))"
  by (simp add: POOLUnreserve_def) (simp add: in_split_def set_hs_def)

lemma splitting_start:
  assumes "chain m C ps es" "pooled m R res" "roomy m C (set (ps @ [dst] @ R))"
  shows "splitting stays C ps dst es R m res
    \<lparr>pBucketSrcSrc = hd ps, pBucketNextSrc = (if Suc 0 < length ps then Some (ps ! Suc 0) else None), iThisSrc = 0, iMostSrc = held C ps es 0,
     pBucketThis0 = hd ps, iThis0 = 0, iLast0 = None, pBucketThis1 = dst, iThis1 = 0, iLast1 = None,
     pBucketAvail = None, fBucketFromHeap = False\<rparr> [hd ps] [dst] [] 0 0"
proof -
  note c = chainD [OF assms(1)]
  have h: "hd ps = ps ! 0"
    using c(8) by (simp add: hd_conv_nth)
  have "unread m C ps es 0 0"
    using c(5-7) by (simp add: unread_def linked_def stored_def)
  moreover have "filling m C [p] [] 0" if "p \<in> set (ps @ [dst])" for p
    using that c(1) assms(3) by (auto simp: filling_def roomy_def linked_def stored_def)
  moreover have "mset ([hd ps] @ [dst] @ [] @ unused ps [hd ps] 0 @ R) = mset (ps @ [dst] @ R)"
    using c(8) by (cases ps) (simp_all add: unused_def)
  ultimately show ?thesis
    using assms(2,3) c(8) unfolding splitting_def
    by (simp add: at_source_def h last_slot_def behind_def spare_def)
qed

text \<open>What the loop has left is finished: the ends of both chains are set, and the buckets that fell empty are freed.\<close>

lemma splitting_finish:
  assumes "splitting stays C ps dst es R m res v qs0 qs1 av s (length es)" "distinct (ps @ [dst] @ R)" "\<not> Suc s < length ps"
  defines "m1 \<equiv> drop_cells (set (unused ps qs0 s)) m"
  defines "m2 \<equiv> put_pb (last qs1) (last_end (iLast1 v)) (put_pb (last qs0) (last_end (iLast0 v)) m1)"
  defines "m3 \<equiv> drop_cells (set av) m2"
  shows "(if pBucketSrcSrc v = pBucketThis0 v then Some m else MEMFree (Some (pBucketSrcSrc v)) m) = Some m1"
    "set_pb (pBucketThis0 v) (last_end (iLast0 v)) m1 = Some (put_pb (last qs0) (last_end (iLast0 v)) m1)"
    "set_pb (pBucketThis1 v) (last_end (iLast1 v)) (put_pb (last qs0) (last_end (iLast0 v)) m1) = Some m2"
    "free_pool (pBucketAvail v) m2 = Some m3"
    "chain m3 C qs0 (filter stays es)" "chain m3 C qs1 (filter (\<lambda>e. \<not> stays e) es)" "pooled m3 (spare R v) res"
    "live m3 = live m - set (ps @ [dst] @ R) \<union> set (qs0 @ qs1 @ spare R v)" "roomy m3 C (set (qs0 @ qs1 @ spare R v))"
    "agree (- set (ps @ [dst] @ R)) m m3" "cAlloc m3 = cAlloc m" "fails m3 = fails m" "\<forall>p\<in>set (qs0 @ qs1). um m3 p = um m p"
proof -
  note d = splittingD [OF assms(1)] and D = splitting_distinct [OF assms(1,2)]
  note f0 = fillingD [OF d(3)] and f1 = fillingD [OF d(7)]
  have s: "Suc s = length ps" "pBucketSrcSrc v = ps ! s"
    using d(1) assms(3) by (simp_all add: at_source_def)
  have u: "unused ps qs0 s = (if ps ! s = last qs0 then [] else [ps ! s])"
    using s(1) by (simp add: unused_def flip: Cons_nth_drop_Suc)
  have l: "last qs0 \<in> set qs0" "last qs1 \<in> set qs1"
    using f0(2) f1(2) by simp_all
  have dis: "set qs0 \<inter> set (unused ps qs0 s) = {}" "set qs1 \<inter> set (unused ps qs0 s) = {}" "set av \<inter> set (unused ps qs0 s) = {}"
    "set (spare R v) \<inter> set (unused ps qs0 s) = {}" "set qs0 \<inter> set qs1 = {}" "set qs0 \<inter> set av = {}" "set qs1 \<inter> set av = {}"
    "set qs0 \<inter> set (spare R v) = {}" "set qs1 \<inter> set (spare R v) = {}" "set av \<inter> set (spare R v) = {}" "distinct av"
    using D(1) by auto
  have caps: "roomy m C (set (qs0 @ qs1 @ av @ unused ps qs0 s @ spare R v))"
    using d(15) D(2) by (simp add: roomy_def)
  then have lv: "set qs0 \<subseteq> live m" "set qs1 \<subseteq> live m" "ps ! s = last qs0 \<or> ps ! s \<in> live m"
    using live_cap u by (auto simp: roomy_def split: if_splits)
  show "(if pBucketSrcSrc v = pBucketThis0 v then Some m else MEMFree (Some (pBucketSrcSrc v)) m) = Some m1"
    using lv(3) unfolding m1_def u s(2) by (auto simp: d(4) [symmetric] drop_cells_def drop_cell_def fun_upd_def intro!: arg_cong [of _ _ "\<lambda>c. m\<lparr>cells := c\<rparr>"])
  have l1: "last qs0 \<in> live m1" "last qs1 \<in> live (put_pb (last qs0) (last_end (iLast0 v)) m1)"
    using l lv(1,2) dis(1,2) by (auto simp: m1_def)
  then show "set_pb (pBucketThis0 v) (last_end (iLast0 v)) m1 = Some (put_pb (last qs0) (last_end (iLast0 v)) m1)"
    "set_pb (pBucketThis1 v) (last_end (iLast1 v)) (put_pb (last qs0) (last_end (iLast0 v)) m1) = Some m2"
    by (simp_all add: m2_def flip: d(4,8))
  have pb2: "pb m2 p = pb m p" if "p \<in> set av \<union> set (spare R v)" for p
    using that dis l by (auto simp: m2_def m1_def)
  have "pooled m2 av (pBucketAvail v)"
    by (rule pooled_frame [OF d(11)]) (use pb2 in auto)
  then show "free_pool (pBucketAvail v) m2 = Some m3"
    unfolding m3_def by (rule free_pool_spec [OF _ dis(11)])
  have v: "um m3 p = um m p" "cap m3 p = cap m p" "GetEntry p i m3 = GetEntry p i m" "p \<noteq> last qs0 \<Longrightarrow> p \<noteq> last qs1 \<Longrightarrow> pb m3 p = pb m p"
    if "p \<in> set (qs0 @ qs1 @ spare R v)" for p i
  proof -
    have p: "p \<notin> set av" "p \<notin> set (unused ps qs0 s)"
      using that dis by auto
    show "um m3 p = um m p" "p \<noteq> last qs0 \<Longrightarrow> p \<noteq> last qs1 \<Longrightarrow> pb m3 p = pb m p"
      using p by (simp_all add: m3_def m2_def m1_def)
    have "agree {p} m2 m3" "agree {p} m m1"
      using p by (simp_all add: m3_def m1_def agree_drop)
    from agree_views [OF this(1)] agree_views [OF this(2)] show "cap m3 p = cap m p" "GetEntry p i m3 = GetEntry p i m"
      by (simp_all add: m2_def)
  qed
  have pbl: "pb m3 (last qs0) = Some (last_end (iLast0 v))" "pb m3 (last qs1) = Some (last_end (iLast1 v))"
    using l l1 dis(5-7) by (auto simp: m3_def m2_def)
  have nb: "p \<noteq> last qs0 \<and> p \<noteq> last qs1" if "p \<in> set (butlast qs0) \<or> p \<in> set (butlast qs1)" for p
  proof -
    have "distinct (butlast qs0 @ [last qs0])" "distinct (butlast qs1 @ [last qs1])"
      using f0(2,3) f1(2,3) by simp_all
    then show ?thesis
      using that dis(5) l in_set_butlastD by fastforce
  qed
  have vb: "pb m3 p = pb m p" if "p \<in> set (butlast qs0) \<or> p \<in> set (butlast qs1)" for p
    using that nb [OF that] by (intro v(4)) (auto dest: in_set_butlastD)
  have "filling m3 C qs0 (filter stays es) (iThis0 v)"
    using f0(12) by (intro filling_frame [OF d(3) [simplified]]) (auto simp: v vb)
  then show "chain m3 C qs0 (filter stays es)"
    using pbl(1) d(6) by (auto intro: filling_chain simp: last_slot_def)
  have "filling m3 C qs1 (filter (\<lambda>e. \<not> stays e) es) (iThis1 v)"
    using f1(12) by (intro filling_frame [OF d(7) [simplified]]) (auto simp: v vb)
  then show "chain m3 C qs1 (filter (\<lambda>e. \<not> stays e) es)"
    using pbl(2) d(10) by (auto intro: filling_chain simp: last_slot_def)
  have "pb m3 p = pb m p" if "p \<in> set (spare R v)" for p
    using that l dis(8,9) by (intro v(4)) auto
  then show "pooled m3 (spare R v) res"
    by (rule pooled_frame [OF d(12)])
  show "roomy m3 C (set (qs0 @ qs1 @ spare R v))"
    using caps v(2) by (auto simp: roomy_def)
  have "live m3 = live m - set (unused ps qs0 s) - set av"
    by (simp add: m3_def m2_def m1_def)
  moreover have "set (qs0 @ qs1 @ spare R v) \<subseteq> live m"
    using caps live_cap by (force simp: roomy_def)
  ultimately show "live m3 = live m - set (ps @ [dst] @ R) \<union> set (qs0 @ qs1 @ spare R v)"
    unfolding D(2) [symmetric] using dis by auto
  have "agree (- set (ps @ [dst] @ R)) m m1" "agree (- set (ps @ [dst] @ R)) m2 m3" "agree (- set (ps @ [dst] @ R)) m1 m2"
    using l unfolding D(2) [symmetric] m1_def m2_def m3_def by (auto simp: agree_def)
  then show "agree (- set (ps @ [dst] @ R)) m m3"
    using agree_trans by blast
  show "\<forall>p\<in>set (qs0 @ qs1). um m3 p = um m p"
    using v(1) by auto
  show "cAlloc m3 = cAlloc m" "fails m3 = fails m"
    by (simp_all add: m3_def m2_def m1_def)
qed

text \<open>
  A split of a chain leaves the entries that stay, in their order, in the chain of the old head, and the others in that of the new head; it uses at most one
  reserved bucket and frees what it does not need.
\<close>

lemma BKTIDoSplit_spec:
  assumes "chain (mem t) C ps es" "centry t = C" "get_hs h t = Some hs" "pooled (mem t) R (m_pReserve hs)" "R \<noteq> []"
    "distinct (ps @ [dst] @ R)" "roomy (mem t) C (set (ps @ [dst] @ R))"
    "stays = (\<lambda>e. hash e AND ((m_cBucketMax (m_dirptrs0 t) - 1) + m_cBucketMax (m_dirptrs0 t)) = i)"
  shows "\<exists>m hs' R' qs0 qs1. BKTIDoSplit hash h (hd ps) dst i t = Some (set_hs h hs' (t\<lparr>mem := m\<rparr>))
    \<and> chain m C qs0 (filter stays es) \<and> chain m C qs1 (filter (\<lambda>e. \<not> stays e) es) \<and> hd qs0 = hd ps \<and> hd qs1 = dst
    \<and> distinct (qs0 @ qs1 @ R') \<and> reshaped C (set (ps @ [dst] @ R)) (set (qs0 @ qs1 @ R')) {hd ps, dst} (mem t) hs R m hs' R'"
proof -
  let ?m = "mem t" and ?hm = "(m_cBucketMax (m_dirptrs0 t) - 1) + m_cBucketMax (m_dirptrs0 t)" and ?A = "set (ps @ [dst] @ R)"
  note c = chainD [OF assms(1)]
  have h: "h < length (m_rghs t)"
    using assms(3) by (auto simp: get_hs_def rd_def split: if_splits)
  have "0 < length ps" "hd ps = ps ! 0"
    using c(8) by (simp_all add: hd_conv_nth)
  then have n: "PbucketBKTNext t (hd ps) = Some (if Suc 0 < length ps then Some (ps ! Suc 0) else None)"
    "PentryBKTNextMost t (hd ps) = Some (held C ps es 0)"
    using chain_next [OF assms(1) _ assms(2) refl, of 0] by (simp_all add: held_def)
  let ?v = "\<lparr>pBucketSrcSrc = hd ps, pBucketNextSrc = (if Suc 0 < length ps then Some (ps ! Suc 0) else None), iThisSrc = 0, iMostSrc = held C ps es 0,
     pBucketThis0 = hd ps, iThis0 = 0, iLast0 = None, pBucketThis1 = dst, iThis1 = 0, iLast1 = None,
     pBucketAvail = None, fBucketFromHeap = False\<rparr>"
  have "splitting (\<lambda>e. hash e AND ?hm = i) C ps dst es R ?m (m_pReserve hs) ?v [hd ps] [dst] [] 0 0"
    by (rule splitting_start [OF assms(1,4,7)])
  from split_loop_spec [OF this assms(6) c(2) assms(5,2) h, of hs] obtain m res v qs0 qs1 av s where
    1: "split_loop hash h ?hm i (in_split h hs t ?m (m_pReserve hs)) ?v = Some (in_split h hs t m res, v)"
    "splitting stays C ps dst es R m res v qs0 qs1 av s (length es)" "within ?A {hd ps, dst} ?m m" "\<not> Suc s < length ps"
    unfolding assms(8) by blast
  note d = splittingD [OF 1(2)] and D = splitting_distinct [OF 1(2) assms(6)]
  define m1 where "m1 = drop_cells (set (unused ps qs0 s)) m"
  define m2 where "m2 = put_pb (last qs1) (last_end (iLast1 v)) (put_pb (last qs0) (last_end (iLast0 v)) m1)"
  define m3 where "m3 = drop_cells (set av) m2"
  note F = splitting_finish [OF 1(2) assms(6) 1(4), folded m1_def, folded m2_def, folded m3_def]
  define hs' where "hs' = (if fBucketFromHeap v then hs\<lparr>m_pReserve := res\<rparr> else hs\<lparr>m_pReserve := res, m_cReserve := m_cReserve hs + 1\<rparr>)"
  have "BKTIDoSplit hash h (hd ps) dst i t = (if fBucketFromHeap v then Some (in_split h hs t m3 res) else POOLUnreserve h (in_split h hs t m3 res))"
    using 1(1) unfolding in_split_id [OF assms(3), symmetric]
    by (simp only: BKTIDoSplit_def n Let_def Option.bind.simps prod.case in_split_simps(1,3) F(1-4))
  also have "\<dots> = Some (set_hs h hs' (t\<lparr>mem := m3\<rparr>))"
    by (simp add: POOLUnreserve_spec [OF h] hs'_def) (simp add: in_split_def)
  finally have eq: "BKTIDoSplit hash h (hd ps) dst i t = Some (set_hs h hs' (t\<lparr>mem := m3\<rparr>))" .
  have sub: "set (qs0 @ qs1 @ spare R v) \<subseteq> ?A"
    using D(2) by auto
  have "reshaped C ?A (set (qs0 @ qs1 @ spare R v)) {hd ps, dst} ?m hs R m3 hs' (spare R v)"
    unfolding reshaped_def
  proof (intro conjI sub ballI)
    have w: "agree (- ?A) ?m m" "live m = live ?m" "cAlloc m = cAlloc ?m" "fails m = fails ?m" "\<forall>p\<in>{hd ps, dst}. um m p = um ?m p"
      using 1(3) unfolding within_def by blast+
    show "agree (- ?A) ?m m3"
      by (rule agree_trans [OF w(1) F(10)])
    show "live m3 = live ?m - ?A \<union> set (qs0 @ qs1 @ spare R v)" "cAlloc m3 = cAlloc ?m" "fails m3 = fails ?m"
      unfolding F(8) F(11,12) w(2-4) by (rule refl)+
    show "spent hs R hs' (spare R v)"
      by (simp add: spent_def hs'_def spare_def)
    show "pooled m3 (spare R v) (m_pReserve hs')"
      using F(7) by (simp add: hs'_def)
    show "roomy m3 C (set (spare R v))"
      using F(9) by (simp add: roomy_def)
    fix p assume p: "p \<in> {hd ps, dst}"
    have "hd qs0 \<in> set qs0" "hd qs1 \<in> set qs1"
      using fillingD(2) [OF d(3)] fillingD(2) [OF d(7)] by simp_all
    then show "um m3 p = um ?m p"
      using p d(5,9) F(13) w(5) by auto
  qed
  moreover have "distinct (qs0 @ qs1 @ spare R v)"
    using D(1) by auto
  ultimately show ?thesis
    using eq F(5,6) d(5,9) by blast
qed

end
