(* ===== verification/Hash_Merge.thy ===== *)
theory Hash_Merge
  imports Hash_Split
begin

text \<open>
  Merging two chains: the buckets of the source go to the target, whose last bucket is filled up first, and one bucket reserved beforehand is enough.
\<close>

section \<open>Copying entries\<close>

fun copy :: "PBUCKET \<Rightarrow> nat \<Rightarrow> 'e list \<Rightarrow> 'e memory \<Rightarrow> 'e memory" where
  "copy p i [] m = m"
| "copy p i (x # xs) m = copy p (Suc i) xs (put_entry p i x m)"

lemma copy_views [simp]: "pb (copy p i xs m) q = pb m q" "um (copy p i xs m) q = um m q" "cap (copy p i xs m) q = cap m q"
  "live (copy p i xs m) = live m" "q \<noteq> p \<Longrightarrow> GetEntry q j (copy p i xs m) = GetEntry q j m"
  by (induction xs arbitrary: i m) (auto simp: GetEntry_alt)

lemma within_copy: "p \<in> A \<Longrightarrow> within A H m (copy p i xs m)"
proof (induction xs arbitrary: i m)
  case (Cons x xs)
  from within_trans [OF within_put(1) [OF Cons.prems] Cons.IH [OF Cons.prems]] show ?case
    by simp
qed (simp add: within_refl)

lemma fill_copy:
  assumes "filling m C qs L i" "i + length xs \<le> C"
  shows "filling (copy (last qs) i xs m) C qs (L @ xs) (i + length xs)"
  using assms
proof (induction xs arbitrary: i L m)
  case (Cons x xs)
  have "filling (put_entry (last qs) i x m) C qs (L @ [x]) (Suc i)"
    using Cons.prems by (intro fill_room) simp_all
  from Cons.IH [OF this] Cons.prems(2) show ?case
    by simp
qed simp

definition reads :: "'e memory \<Rightarrow> PBUCKET \<Rightarrow> nat \<Rightarrow> 'e list \<Rightarrow> bool" where
  "reads m p i xs \<longleftrightarrow> (\<forall>j<length xs. GetEntry p (i + j) m = Some (xs ! j))"

lemma reads_Cons: "reads m p i (x # xs) \<longleftrightarrow> GetEntry p i m = Some x \<and> reads m p (Suc i) xs"
  by (auto simp: reads_def nth_Cons less_Suc_eq_0_disj split: nat.splits)

lemma reads_drop: "reads m p i xs \<Longrightarrow> reads m p (i + k) (drop k xs)"
  by (auto simp: reads_def add.assoc)

text \<open>The loop copies entries of the source while the bucket it writes to has room.\<close>

lemma merge_copy:
  assumes "reads m src a xs" "a + length xs \<le> most" "i + length xs \<le> C" "cap m p = Some C" "p \<noteq> src" "centry t = C"
  shows "merge_loop h src a most p i fs fh (in_split h hs t m res)
    = merge_loop h src (a + length xs) most p (i + length xs) fs fh (in_split h hs t (copy p i xs m) res)"
  using assms
proof (induction xs arbitrary: a i m)
  case (Cons x xs)
  have c: "i < C" "a < most"
    using Cons.prems by simp_all
  have e: "GetEntry src a m = Some x" "reads m src (Suc a) xs"
    using Cons.prems(1) by (simp_all add: reads_Cons)
  have "merge_loop h src a most p i fs fh (in_split h hs t m res)
      = merge_loop h src (Suc a) most p (Suc i) fs fh (in_split h hs t (put_entry p i x m) res)"
    using c e(1) Cons.prems(4,6) by (subst merge_loop.simps) simp
  also have "\<dots> = merge_loop h src (Suc a + length xs) most p (Suc i + length xs) fs fh (in_split h hs t (copy p (Suc i) xs (put_entry p i x m)) res)"
    by (rule Cons.IH) (use Cons.prems e(2) c in \<open>auto simp: reads_def GetEntry_alt\<close>)
  finally show ?case
    by simp
qed simp

text \<open>At the end of a chain it goes on in a reserved bucket.\<close>

lemma merge_append:
  assumes "filling m C qs L i" "reads m src a xs" "most = a + length xs" "length xs \<le> C" "src \<notin> set qs" "src \<notin> set R" "distinct (qs @ R)"
    "pooled m R res" "R \<noteq> []" "roomy m C (set R)" "centry t = C" "h < length (m_rghs t)"
  shows "\<exists>m' res' qs' i' fh. merge_loop h src a most (last qs) i True False (in_split h hs t m res)
      = Some (in_split h hs t m' res', last qs', i', True, fh)
    \<and> filling m' C qs' (L @ xs) i' \<and> qs' = qs @ (if fh then [hd R] else []) \<and> pooled m' (if fh then tl R else R) res'
    \<and> within (set (last qs # R)) (- set R) m m'"
proof -
  note f = fillingD [OF assms(1)]
  define k where "k = min (length xs) (C - i)"
  define m1 where "m1 = copy (last qs) i (take k xs) m"
  have "last qs \<in> set qs"
    using f(2) by simp
  then have l: "last qs \<in> set qs" "last qs \<noteq> src" "last qs \<notin> set R"
    using assms(5,7) by auto
  have k: "length (take k xs) = k" "i + k \<le> C" "k \<le> length xs"
    using f(8) by (auto simp: k_def)
  have f1: "filling m1 C qs (L @ take k xs) (i + k)"
    using fill_copy [OF assms(1), of "take k xs"] k by (simp add: m1_def)
  have w1: "within (set (last qs # R)) (- set R) m m1"
    unfolding m1_def by (rule within_copy) simp
  have p1: "pooled m1 R res"
    by (rule pooled_frame [OF assms(8)]) (simp add: m1_def)
  have "merge_loop h src a most (last qs) i True False (in_split h hs t m res)
      = merge_loop h src (a + length (take k xs)) most (last qs) (i + length (take k xs)) True False (in_split h hs t m1 res)"
    unfolding m1_def
    by (rule merge_copy) (use assms(2,3,11) k f(10) l in \<open>auto simp: reads_def\<close>)
  then have eq1: "merge_loop h src a most (last qs) i True False (in_split h hs t m res)
      = merge_loop h src (a + k) most (last qs) (i + k) True False (in_split h hs t m1 res)"
    by (simp only: k(1))
  show ?thesis
  proof (cases "k = length xs")
    case True
    have "merge_loop h src (a + k) most (last qs) (i + k) True False (in_split h hs t m1 res) = Some (in_split h hs t m1 res, last qs, i + k, True, False)"
      using True assms(3) by (subst merge_loop.simps) simp
    then show ?thesis
      using eq1 f1 p1 w1 True by (intro exI [of _ m1] exI [of _ res] exI [of _ qs] exI [of _ "i + k"] exI [of _ False]) simp
  next
    case False
    then have full: "i + k = C" "k < length xs"
      using k(3) f(8) by (auto simp: k_def min_def split: if_splits)
    obtain q R' where R: "R = q # R'"
      using assms(9) by (cases R) auto
    obtain res' where c: "PbucketPOOLCommit h (in_split h hs t m1 res) = Some (in_split h hs t m1 res', q)" "pooled m1 R' res'"
      using commit_pool [OF assms(12) p1 [unfolded R]] by blast
    have q: "q \<noteq> src" "q \<notin> set qs" "q \<noteq> last qs" "q \<notin> set R'"
      using assms(6,7) R l by auto
    have cq: "cap m q = Some C" "q \<in> live m" "last qs \<in> live m"
      using assms(10) R live_cap [of m q C] live_cap [OF f(10)] by (simp_all add: roomy_def)
    define m2 where "m2 = put_entry q 0 (xs ! k) (put_u q (BucketPrev (last qs)) (put_pb (last qs) (BucketNext q) m1))"
    define m3 where "m3 = copy q 1 (drop (Suc k) xs) m2"
    have rd: "GetEntry src (a + k) m = Some (xs ! k)"
      using assms(2) full(2) by (simp add: reads_def)
    have "merge_loop h src (a + k) most (last qs) (i + k) True False (in_split h hs t m1 res)
        = merge_loop h src (Suc (a + k)) most q 1 True True (in_split h hs t m2 res')"
      using full assms(3,11) cq f(1) rd l(2) q(1) c(1) by (subst merge_loop.simps) (simp add: m1_def m2_def)
    also have "\<dots> = merge_loop h src (Suc (a + k) + length (drop (Suc k) xs)) most q (1 + length (drop (Suc k) xs)) True True (in_split h hs t m3 res')"
      unfolding m3_def
    proof (rule merge_copy)
      show "reads m2 src (Suc (a + k)) (drop (Suc k) xs)"
        using reads_drop [OF assms(2), of "Suc k"] l(2) q(1) cq f(1) by (simp add: reads_def m2_def m1_def)
      show "1 + length (drop (Suc k) xs) \<le> C" "Suc (a + k) + length (drop (Suc k) xs) \<le> most"
        using assms(3,4) full(2) by simp_all
    qed (use cq q assms(11) in \<open>simp_all add: m2_def m1_def\<close>)
    also have "\<dots> = Some (in_split h hs t m3 res', q, 1 + length (drop (Suc k) xs), True, True)"
    proof -
      have "\<not> Suc (a + k) + length (drop (Suc k) xs) < most"
        using full(2) assms(3) by simp
      then show ?thesis
        by (subst merge_loop.simps) (simp only: if_False)
    qed
    finally have eq2: "merge_loop h src (a + k) most (last qs) (i + k) True False (in_split h hs t m1 res)
      = Some (in_split h hs t m3 res', last (qs @ [q]), 1 + length (drop (Suc k) xs), True, True)"
      by simp
    have "filling (put_u q (BucketPrev (last qs)) (put_pb (last qs) (BucketNext q) m1)) C qs (L @ take k xs) C"
    proof -
      have "p \<noteq> last qs" if "p \<in> set (butlast qs)" for p
        using that f(2,3) by (metis append_butlast_last_id distinct_append disjoint_iff list.set_intros(1))
      then show ?thesis
        using q(2) by (intro filling_frame [OF f1 [unfolded full(1)]]) auto
    qed
    then have "filling m2 C (qs @ [q]) ((L @ take k xs) @ [xs ! k]) 1"
      unfolding m2_def by (rule fill_new [OF _ q(2)]) (use cq q(3) in \<open>simp_all add: m1_def\<close>)
    from fill_copy [OF this, of "drop (Suc k) xs"] have "filling m3 C (qs @ [q]) (((L @ take k xs) @ [xs ! k]) @ drop (Suc k) xs) (1 + length (drop (Suc k) xs))"
      using assms(4) full(2) by (simp add: m3_def)
    then have f3: "filling m3 C (qs @ [q]) (L @ xs) (1 + length (drop (Suc k) xs))"
      using full(2) by (simp add: id_take_nth_drop [symmetric])
    have p3: "pooled m3 R' res'"
      by (rule pooled_frame [OF c(2)]) (use q l(3) R in \<open>auto simp: m3_def m2_def m1_def\<close>)
    have "within (set (last qs # R)) (- set R) m1 m2"
      unfolding m2_def
      by (intro within_trans [OF within_put(2) within_trans [OF within_put(3) within_put(1)]]) (simp_all add: R)
    moreover have "within (set (last qs # R)) (- set R) m2 m3"
      unfolding m3_def by (rule within_copy) (simp add: R)
    ultimately have "within (set (last qs # R)) (- set R) m m3"
      using w1 within_trans by blast
    then show ?thesis
      using eq1 eq2 f3 p3 R by (intro exI [of _ m3] exI [of _ res'] exI [of _ "qs @ [q]"] exI [of _ "1 + length (drop (Suc k) xs)"] exI [of _ True]) simp
  qed
qed

section \<open>A merge\<close>

lemma within_mono: "within A H m m' \<Longrightarrow> A \<subseteq> A' \<Longrightarrow> H' \<subseteq> H \<Longrightarrow> within A' H' m m'"
  unfolding within_def by (blast intro: agree_mono)

lemma chain_filling:
  assumes "chain m C qs es"
  shows "filling m C qs es (held C qs es (length qs - 1))" "es \<noteq> [] \<Longrightarrow> (length es - 1) mod C = held C qs es (length qs - 1) - 1"
proof -
  note c = chainD [OF assms]
  have k: "length qs - 1 < length qs" "\<not> Suc (length qs - 1) < length qs"
    using c(8) by simp_all
  note b = held_bounds [OF c(1,2) k(1)]
  have "es \<noteq> []" if "1 < length qs"
    using that c(2) by (auto simp: buckets_def)
  then show "filling m C qs es (held C qs es (length qs - 1))"
    using c b(1,6) b(5) [OF k(2)] by (auto simp: filling_def)
  assume "es \<noteq> []"
  then have "length es - 1 = (length qs - 1) * C + (held C qs es (length qs - 1) - 1)" "held C qs es (length qs - 1) - 1 < C"
    using b(1,6) b(5) [OF k(2)] by auto
  then show "(length es - 1) mod C = held C qs es (length qs - 1) - 1"
    by simp
qed

text \<open>The overflow buckets of one chain are linked behind a full one.\<close>

lemma chain_concat:
  assumes "chain m C ps es" "1 < length ps" "filling m' C qs L C" "distinct (ps @ qs)"
    "pb m' (last qs) = Some (BucketNext (ps ! 1))" "um m' (ps ! 1) = Some (BucketPrev (last qs))"
    "\<And>p. p \<in> set (tl ps) \<Longrightarrow> pb m' p = pb m p \<and> cap m' p = cap m p \<and> (\<forall>j. GetEntry p j m' = GetEntry p j m)"
    "\<And>k. 1 < k \<Longrightarrow> k < length ps \<Longrightarrow> um m' (ps ! k) = um m (ps ! k)"
  shows "chain m' C (qs @ tl ps) (L @ drop C es)"
proof -
  note c = chainD [OF assms(1)] and f = fillingD [OF assms(3)]
  have L: "length L = length qs * C" "0 < length qs"
    using f(2,7) by (cases qs; simp)+
  have n: "C < length es"
    using held_bounds(4) [OF c(1,2), of 0] assms(2) c(8) by simp
  have tl: "tl ps ! k = ps ! Suc k" "tl ps ! k \<in> set (tl ps)" if "k < length ps - 1" for k
    using that nth_mem [of k "tl ps"] by (simp_all add: nth_tl)
  have len: "length (L @ drop C es) - 1 = (length es - 1) + (length qs - 1) * C"
    using L n by (cases "length qs") auto
  have lst: "last (qs @ tl ps) = last ps"
    using assms(2) by (cases ps) auto
  have "length (qs @ tl ps) = buckets C (L @ drop C es)"
    using len L(2) c(1,2) assms(2) by (simp add: buckets_def)
  moreover have "distinct (qs @ tl ps)"
    using assms(2,4) by (cases ps) auto
  moreover have "roomy m' C (set (qs @ tl ps))"
    using f(4) c(4) assms(7) list.set_sel(2) [of ps] c(8) by (auto simp: roomy_def)
  moreover have "linked m' (qs @ tl ps)"
    unfolding linked_def
  proof (intro allI impI)
    fix k assume k: "Suc k < length (qs @ tl ps)"
    consider "Suc k < length qs" | "Suc k = length qs" | "length qs \<le> k"
      by linarith
    then show "pb m' ((qs @ tl ps) ! k) = Some (BucketNext ((qs @ tl ps) ! Suc k)) \<and> um m' ((qs @ tl ps) ! Suc k) = Some (BucketPrev ((qs @ tl ps) ! k))"
    proof cases
      case 1
      then show ?thesis
        using f(5) by (simp add: linked_def nth_append)
    next
      case 2
      then have "(qs @ tl ps) ! k = last qs" "(qs @ tl ps) ! Suc k = ps ! 1"
        using last_nth [of k qs] tl(1) [of 0] assms(2) by (simp_all add: nth_append)
      then show ?thesis
        using assms(5,6) by simp
    next
      case 3
      define j where "j = Suc (k - length qs)"
      have j: "Suc j < length ps" "1 \<le> j" "(qs @ tl ps) ! k = ps ! j" "(qs @ tl ps) ! Suc k = ps ! Suc j" "ps ! j \<in> set (tl ps)"
        using 3 k tl [of "k - length qs"] tl(1) [of "Suc k - length qs"] by (auto simp: j_def nth_append Suc_diff_le)
      have "pb m (ps ! j) = Some (BucketNext (ps ! Suc j))" "um m (ps ! Suc j) = Some (BucketPrev (ps ! j))"
        using c(5) j(1) by (simp_all add: linked_def)
      then show ?thesis
        using assms(7) [OF j(5)] assms(8) [of "Suc j"] j by simp
    qed
  qed
  moreover have "stored m' C (qs @ tl ps) (L @ drop C es)"
    unfolding stored_def
  proof (intro allI impI)
    fix j assume j: "j < length (L @ drop C es)"
    show "GetEntry ((qs @ tl ps) ! (j div C)) (j mod C) m' = Some ((L @ drop C es) ! j)"
    proof (cases "j < length L")
      case True
      then show ?thesis
        using f(6) f(12) [OF True] by (simp add: stored_def nth_append)
    next
      case False
      define i where "i = j - length L"
      have i: "j = length qs * C + i" "C + i < length es"
        using False j L n by (auto simp: i_def)
      have d: "j div C = length qs + i div C" "j mod C = i mod C" "(C + i) div C = Suc (i div C)"
        using c(1) by (simp_all add: i(1) div_add_self1)
      have "Suc (i div C) < length ps"
        using buckets_div [OF c(1) i(2)] c(2) d(3) by simp
      then have p: "(qs @ tl ps) ! (j div C) = ps ! Suc (i div C)" "ps ! Suc (i div C) \<in> set (tl ps)"
        using tl [of "i div C"] by (simp_all add: d(1) nth_append)
      have "GetEntry (ps ! ((C + i) div C)) ((C + i) mod C) m = Some (es ! (C + i))"
        using c(6) i(2) by (simp only: stored_def)
      then show ?thesis
        using p assms(7) [OF p(2)] d n L(1) by (simp add: i(1) nth_append)
    qed
  qed
  moreover have "pb m' (last (qs @ tl ps)) = Some (chain_end C (L @ drop C es))"
  proof -
    have "last ps \<in> set (tl ps)"
      using lst assms(2) last_in_set [of "tl ps"] by (cases ps) auto
    moreover have "chain_end C (L @ drop C es) = chain_end C es"
    proof -
      have "(length (L @ drop C es) - 1) mod C = (length es - 1) mod C"
        unfolding len by (rule mod_mult_self1)
      moreover have "L @ drop C es \<noteq> []" "es \<noteq> []"
        using n by auto
      ultimately show ?thesis
        by (simp only: chain_end_def if_False)
    qed
    ultimately show ?thesis
      unfolding lst using assms(7) c(7) by simp
  qed
  ultimately show ?thesis
    using c(1) by (simp add: chain_def)
qed

definition merged ::
  "nat \<Rightarrow> PBUCKET list \<Rightarrow> PBUCKET list \<Rightarrow> PBUCKET list \<Rightarrow> 'e list \<Rightarrow> 'e memory \<Rightarrow> 'e memory \<Rightarrow> PBUCKET option \<Rightarrow> PBUCKET \<Rightarrow> nat \<Rightarrow> bool \<Rightarrow> bool
   \<Rightarrow> PBUCKET list \<Rightarrow> 'e list \<Rightarrow> bool" where
  "merged C ps qs R es m m1 res p i fse fh qs' es' \<longleftrightarrow>
     (if fse then filling m1 C qs' es' i \<and> 0 < i \<and> p = last qs' else chain m1 C qs' es') \<and> mset es' = mset es \<and> hd qs' = hd qs
   \<and> mset (qs' @ hd ps # (if fh then tl R else R)) = mset (ps @ qs @ R) \<and> pooled m1 (if fh then tl R else R) res
   \<and> within (set (ps @ qs @ R)) {hd ps, hd qs} m m1"

lemma merge_append_merged:
  assumes "filling m C qs L i" "reads m (hd ps) a xs" "most = a + length xs" "length xs \<le> C" "xs \<noteq> []" "distinct (hd ps # qs @ R)"
    "pooled m R res" "R \<noteq> []" "roomy m C (set R)" "centry t = C" "h < length (m_rghs t)" "mset (qs @ [hd ps]) = mset (ps @ qs0)" "hd qs = hd qs0"
    "mset (L @ xs) = mset es" "within (set (ps @ qs0 @ R)) {hd ps, hd qs0} m0 m"
  shows "\<exists>m' res' p i' fh qs' es'. merge_loop h (hd ps) a most (last qs) i True False (in_split h hs t m res)
      = Some (in_split h hs t m' res', p, i', True, fh) \<and> merged C ps qs0 R es m0 m' res' p i' True fh qs' es'"
proof -
  note f = fillingD [OF assms(1)]
  obtain m' res' qs' i' fh where 1: "merge_loop h (hd ps) a most (last qs) i True False (in_split h hs t m res)
      = Some (in_split h hs t m' res', last qs', i', True, fh)" "filling m' C qs' (L @ xs) i'" "qs' = qs @ (if fh then [hd R] else [])"
    "pooled m' (if fh then tl R else R) res'" "within (set (last qs # R)) (- set R) m m'"
    using merge_append [OF assms(1-4) _ _ _ assms(7-11), of hs] assms(6) by auto
  have "0 < i'"
    using fillingD(7,9) [OF 1(2)] assms(5) by (cases "1 < length qs'") auto
  moreover have "set qs \<subseteq> set (ps @ qs0)" "set ps \<union> set qs0 = insert (hd ps) (set qs)"
    using mset_eq_setD [OF assms(12)] by auto
  then have "last qs \<in> set (ps @ qs0 @ R)" "hd ps \<notin> set R" "hd qs0 \<notin> set R"
    using f(2) last_in_set [of qs] hd_in_set [of qs] assms(6,13) by auto
  then have "within (set (ps @ qs0 @ R)) {hd ps, hd qs0} m m'"
    by (intro within_mono [OF 1(5)]) auto
  then have "within (set (ps @ qs0 @ R)) {hd ps, hd qs0} m0 m'"
    using assms(15) within_trans by blast
  moreover have "hd qs' = hd qs0"
    using 1(3) f(2) assms(13) by (cases qs) simp_all
  moreover have "mset (qs' @ hd ps # (if fh then tl R else R)) = mset (ps @ qs0 @ R)"
    using assms(8,12) 1(3) by (cases R) auto
  ultimately have "merged C ps qs0 R es m0 m' res' (last qs') i' True fh qs' (L @ xs)"
    using 1(2,4) assms(14) unfolding merged_def by simp
  then show ?thesis
    using 1(1) by blast
qed

lemma merge_short:
  assumes "chain m C [src] es" "chain m C qs fs" "distinct (src # qs @ R)" "pooled m R res" "R \<noteq> []" "roomy m C (set R)" "centry t = C" "h < length (m_rghs t)"
  shows "\<exists>m' res' p i' fse fh qs' es'. merge_loop h src 0 (length es) (last qs) (held C qs fs (length qs - 1)) (0 < length es) False (in_split h hs t m res)
      = Some (in_split h hs t m' res', p, i', fse, fh) \<and> merged C [src] qs R (fs @ es) m m' res' p i' fse fh qs' es'"
proof (cases "es = []")
  case True
  have "merge_loop h src 0 (length es) (last qs) (held C qs fs (length qs - 1)) (0 < length es) False (in_split h hs t m res)
      = Some (in_split h hs t m res, last qs, held C qs fs (length qs - 1), False, False)"
    using True by (subst merge_loop.simps) simp
  moreover have "merged C [src] qs R (fs @ es) m m res (last qs) (held C qs fs (length qs - 1)) False False qs fs"
    using True assms(2,4) by (simp add: merged_def within_refl)
  ultimately show ?thesis
    by blast
next
  case False
  note c = chainD [OF assms(1)]
  have "length es \<le> C"
    using c(1,2) by (simp add: buckets_def div_eq_0_iff)
  moreover have "reads m (hd [src]) 0 es"
  proof -
    have "GetEntry src j m = Some (es ! j)" if "j < length es" for j
      using c(6) that \<open>length es \<le> C\<close> by (simp add: stored_def)
    then show ?thesis
      by (simp add: reads_def)
  qed
  ultimately show ?thesis
    using merge_append_merged [OF chain_filling(1) [OF assms(2)] _ _ _ False _ assms(4-8) _ refl refl within_refl, of "[src]" 0 "length es" hs] assms(3) False
    by simp blast
qed

text \<open>A source with overflow buckets: they are linked behind the target, whose last bucket is filled up first.\<close>

lemma merge_long:
  assumes "chain m C ps es" "1 < length ps" "chain m C qs fs" "distinct (ps @ qs @ R)" "pooled m R res" "R \<noteq> []" "roomy m C (set R)"
    "centry t = C" "h < length (m_rghs t)"
  defines "m0 \<equiv> put_u (ps ! 1) (BucketPrev (last qs)) (put_pb (last qs) (BucketNext (ps ! 1)) m)"
  shows "\<exists>m' res' p i' fse fh qs' es'. merge_loop h (hd ps) 0 C (last qs) (held C qs fs (length qs - 1)) False False (in_split h hs t m0 res)
      = Some (in_split h hs t m' res', p, i', fse, fh) \<and> merged C ps qs R (fs @ es) m m' res' p i' fse fh qs' es'"
proof -
  note c = chainD [OF assms(1)] and d = chainD [OF assms(3)] and f = chain_filling [OF assms(3)]
  note f' = fillingD [OF f(1)]
  define i where "i = held C qs fs (length qs - 1)"
  define k where "k = C - i"
  define xs where "xs = take C es"
  define m1 where "m1 = copy (last qs) i (take k xs) m0"
  have n: "C < length es" "length xs = C"
    using held_bounds(4) [OF c(1,2), of 0] assms(2) c(8) by (simp_all add: xs_def)
  have k: "i + k = C" "k \<le> C" "length (take k xs) = k"
    using f'(8) n(2) by (simp_all add: i_def k_def)
  obtain p0 p1 ps' where ps: "ps = p0 # p1 # ps'"
    using assms(2) by (cases ps; cases "tl ps") auto
  have h: "hd ps = ps ! 0"
    using c(8) by (simp add: hd_conv_nth)
  have l: "last qs \<in> set qs"
    using d(8) by simp
  have "ps ! 1 \<in> set ps" "hd ps \<in> set ps" "ps ! 1 \<noteq> hd ps" "hd qs \<in> set qs"
    using ps c(3) d(8) by auto
  then have ne: "ps ! 1 \<notin> set qs" "hd ps \<notin> set qs" "last qs \<notin> set ps" "last qs \<noteq> hd ps" "ps ! 1 \<notin> {hd ps, hd qs}" "ps ! 1 \<in> set ps"
    "last qs \<notin> set R" "ps ! 1 \<notin> set R" "hd ps \<notin> set R"
    using assms(4) l by (auto simp: disjoint_iff)
  have lv: "last qs \<in> live m" "ps ! 1 \<in> live m"
    using l d(9) c(9) ne(6) by auto
  have rd: "reads m0 (hd ps) 0 xs"
  proof -
    have "GetEntry (hd ps) j m = Some (es ! j)" if "j < C" for j
      using c(6) [unfolded stored_def, rule_format, of j] that n(1) by (simp add: h)
    then show ?thesis
      by (simp add: reads_def m0_def xs_def)
  qed
  have "merge_loop h (hd ps) 0 C (last qs) i False False (in_split h hs t m0 res)
      = merge_loop h (hd ps) (0 + length (take k xs)) C (last qs) (i + length (take k xs)) False False (in_split h hs t m1 res)"
    unfolding m1_def
    by (rule merge_copy) (use rd k n f'(10) ne(4) assms(8) in \<open>auto simp: reads_def m0_def\<close>)
  then have eq1: "merge_loop h (hd ps) 0 C (last qs) i False False (in_split h hs t m0 res)
      = merge_loop h (hd ps) k C (last qs) C False False (in_split h hs t m1 res)"
    by (simp only: k(1,3) add_0)
  have "filling m0 C qs fs i"
    unfolding i_def
  proof (rule filling_frame [OF f(1)])
    fix q assume "q \<in> set (butlast qs)"
    then have "q \<noteq> last qs"
      using d(3,8) by (metis append_butlast_last_id distinct_append disjoint_iff list.set_intros(1))
    then show "pb m0 q = pb m q"
      by (simp add: m0_def)
  qed (use ne(1) in \<open>auto simp: m0_def\<close>)
  from fill_copy [OF this, of "take k xs"] have f1: "filling m1 C qs (fs @ take k xs) C"
    using k by (simp add: m1_def)
  have ch: "chain m1 C (qs @ tl ps) ((fs @ take k xs) @ drop C es)"
  proof (rule chain_concat [OF assms(1,2) f1])
    show "pb m1 (last qs) = Some (BucketNext (ps ! 1))" "um m1 (ps ! 1) = Some (BucketPrev (last qs))"
      using lv by (simp_all add: m1_def m0_def)
    show "pb m1 p = pb m p \<and> cap m1 p = cap m p \<and> (\<forall>j. GetEntry p j m1 = GetEntry p j m)" if "p \<in> set (tl ps)" for p
    proof -
      have "p \<noteq> last qs"
        using that ne(3) by (metis list.set_sel(2) c(8))
      then show ?thesis
        by (simp add: m1_def m0_def)
    qed
    show "um m1 (ps ! j) = um m (ps ! j)" if "1 < j" "j < length ps" for j
      using that c(3) assms(2) nth_eq_iff_index_eq [of ps j 1] by (simp add: m1_def m0_def)
  qed (use assms(4) in auto)
  have w: "within (set (ps @ qs @ R)) {hd ps, hd qs} m m1"
    unfolding m1_def m0_def
    by (intro within_trans [OF within_put(2) within_trans [OF within_put(3) within_copy]]) (use ne l in auto)
  have p1: "pooled m1 R res"
    by (rule pooled_frame [OF assms(5)]) (use ne in \<open>auto simp: m1_def m0_def\<close>)
  have ms: "mset ((qs @ tl ps) @ [hd ps]) = mset (ps @ qs)" "hd (qs @ tl ps) = hd qs"
    using ps d(8) by (cases ps; simp)+
  have esx: "es = take k xs @ drop k xs @ drop C es"
    by (metis append.assoc append_take_drop_id xs_def)
  have mse: "mset ((fs @ take k xs) @ drop C es @ drop k xs) = mset (fs @ es)"
    by (subst (2) esx) simp
  show ?thesis
    unfolding i_def [symmetric] eq1
  proof (cases "k = C")
    case True
    have "merge_loop h (hd ps) k C (last qs) C False False (in_split h hs t m1 res) = Some (in_split h hs t m1 res, last qs, C, False, False)"
      using True by (subst merge_loop.simps) simp
    moreover have "merged C ps qs R (fs @ es) m m1 res (last qs) C False False (qs @ tl ps) ((fs @ take k xs) @ drop C es)"
      using ch w p1 ms mse True n(2) unfolding merged_def by (simp add: union_commute)
    ultimately show "\<exists>m' res' p i' fse fh qs' es'. merge_loop h (hd ps) k C (last qs) C False False (in_split h hs t m1 res)
      = Some (in_split h hs t m' res', p, i', fse, fh) \<and> merged C ps qs R (fs @ es) m m' res' p i' fse fh qs' es'"
      by blast
  next
    case False
    let ?t = "in_split h hs t m1 res" and ?L = "(fs @ take k xs) @ drop C es"
    have ct: "chain (mem ?t) C (qs @ tl ps) ?L" "centry ?t = C"
      using ch assms(8) by simp_all
    have q: "(qs @ tl ps) ! (length qs - 1) = last qs" "(qs @ tl ps) ! length qs = ps ! 1" "length qs < length (qs @ tl ps)" "0 < length qs"
      using d(8) assms(2) by (auto simp: nth_append last_conv_nth nth_tl)
    have nx: "PbucketBKTNext ?t (last qs) = Some (Some (ps ! 1))" "last_bucket ?t (ps ! 1) = Some (last (qs @ tl ps))"
      using chain_next(1) [OF ct(1) _ ct(2) refl, of "length qs - 1"] last_bucket_spec [OF ct q(3)] q by simp_all
    define i' where "i' = held C (qs @ tl ps) ?L (length (qs @ tl ps) - 1)"
    have ne': "?L \<noteq> []"
      using n(1) by simp
    have f2: "filling m1 C (qs @ tl ps) ?L i'" "pb m1 (last (qs @ tl ps)) = Some (EntryLast (i' - 1))" "0 < i'"
    proof -
      show "filling m1 C (qs @ tl ps) ?L i'"
        unfolding i'_def by (rule chain_filling(1) [OF ch])
      show "pb m1 (last (qs @ tl ps)) = Some (EntryLast (i' - 1))"
        using chainD(7) [OF ch] chain_filling(2) [OF ch ne'] ne' by (simp only: chain_end_def if_False i'_def)
      show "0 < i'"
        by (rule fillingD(9) [OF \<open>filling m1 C (qs @ tl ps) ?L i'\<close>]) (use q(3,4) in linarith)
    qed
    obtain b where b: "cells m1 (last (qs @ tl ps)) = Some b" "m_pb b = EntryLast (i' - 1)"
      using f2(2) by (auto simp: pb_def)
    have eq2: "merge_loop h (hd ps) k C (last qs) C False False ?t = merge_loop h (hd ps) k C (last (qs @ tl ps)) i' True False ?t"
      using False k(2) nx b f2(3) assms(8) by (subst merge_loop.simps) (simp add: entry_last_def)
    have "\<exists>m' res' p i'' fh qs' es'. merge_loop h (hd ps) k C (last (qs @ tl ps)) i' True False ?t
      = Some (in_split h hs t m' res', p, i'', True, fh) \<and> merged C ps qs R (fs @ es) m m' res' p i'' True fh qs' es'"
    proof (rule merge_append_merged [OF f2(1) _ _ _ _ _ p1 assms(6) _ assms(8,9) ms _ w])
      show "reads m1 (hd ps) k (drop k xs)"
        using reads_drop [OF rd, of k] ne(4) by (simp add: reads_def m1_def)
      show "C = k + length (drop k xs)" "length (drop k xs) \<le> C" "drop k xs \<noteq> []"
        using n(2) k(2) False by simp_all
      show "distinct (hd ps # (qs @ tl ps) @ R)"
        using assms(4) ps by (cases ps) auto
      show "roomy m1 C (set R)"
        using assms(7) by (simp add: roomy_def m1_def m0_def)
      show "mset (?L @ drop k xs) = mset (fs @ es)"
        using mse by simp
    qed
    then show "\<exists>m' res' p i' fse fh qs' es'. merge_loop h (hd ps) k C (last qs) C False False ?t
      = Some (in_split h hs t m' res', p, i', fse, fh) \<and> merged C ps qs R (fs @ es) m m' res' p i' fse fh qs' es'"
      unfolding eq2 by blast
  qed
qed

text \<open>A merge leaves every entry of both chains in the chain of the target and an empty source, with at most one reserved bucket.\<close>

lemma BKTIDoMerge_spec:
  assumes "chain (mem t) C ps es" "chain (mem t) C qs fs" "centry t = C" "get_hs h t = Some hs" "pooled (mem t) R (m_pReserve hs)" "R \<noteq> []"
    "distinct (ps @ qs @ R)" "roomy (mem t) C (set R)"
  shows "\<exists>m hs' R' qs' es'. BKTIDoMerge h (hd ps) (hd qs) t = Some (set_hs h hs' (t\<lparr>mem := m\<rparr>))
    \<and> chain m C qs' es' \<and> chain m C [hd ps] [] \<and> mset es' = mset (fs @ es) \<and> hd qs' = hd qs
    \<and> distinct (qs' @ [hd ps] @ R') \<and> reshaped C (set (ps @ qs @ R)) (set (qs' @ [hd ps] @ R')) {hd ps, hd qs} (mem t) hs R m hs' R'"
proof -
  let ?m = "mem t" and ?A = "set (ps @ qs @ R)" and ?i = "held C qs fs (length qs - 1)"
  note c = chainD [OF assms(1)] and d = chainD [OF assms(2)]
  have h: "h < length (m_rghs t)"
    using assms(4) by (auto simp: get_hs_def rd_def split: if_splits)
  have hd: "hd ps = ps ! 0" "hd qs = qs ! 0" "last qs = qs ! (length qs - 1)" "0 < length ps" "0 < length qs"
    using c(8) d(8) by (simp_all add: hd_conv_nth last_conv_nth)
  have n: "last_bucket t (hd qs) = Some (last qs)" "PentryBKTNextMost t (last qs) = Some ?i"
    "PbucketBKTNext t (hd ps) = Some (if 1 < length ps then Some (ps ! 1) else None)" "PentryBKTNextMost t (hd ps) = Some (held C ps es 0)"
    using last_bucket_spec [OF assms(2,3), of 0] chain_next [OF assms(1) _ assms(3) refl, of 0] chain_next(2) [OF assms(2) _ assms(3) refl, of "length qs - 1"] hd
    by (simp_all add: held_def)
  have lv: "last qs \<in> live ?m" "1 < length ps \<Longrightarrow> ps ! 1 \<in> live ?m" "hd ps \<in> live ?m"
    using c(8,9) d(8,9) by (auto simp: subset_iff)
  define loop where "loop = (if 1 < length ps then merge_loop h (hd ps) 0 C (last qs) ?i False False
      (in_split h hs t (put_u (ps ! 1) (BucketPrev (last qs)) (put_pb (last qs) (BucketNext (ps ! 1)) ?m)) (m_pReserve hs))
    else merge_loop h (hd ps) 0 (length es) (last qs) ?i (0 < length es) False (in_split h hs t ?m (m_pReserve hs)))"
  have "\<exists>m' res' p i' fse fh qs' es'. loop = Some (in_split h hs t m' res', p, i', fse, fh) \<and> merged C ps qs R (fs @ es) ?m m' res' p i' fse fh qs' es'"
  proof (cases "1 < length ps")
    case True
    then show ?thesis
      unfolding loop_def using merge_long [OF assms(1) True assms(2,7,5,6,8,3) h, of hs] by simp
  next
    case False
    then have "ps = [hd ps]"
      using c(8) by (cases ps) auto
    then show ?thesis
      using merge_short [of ?m C "hd ps" es qs fs R "m_pReserve hs" t h hs] assms(1-3,5-8) False h unfolding loop_def
      by (metis append_Cons append_Nil)
  qed
  then obtain m1 res1 p i fse fh qs' es' where 1: "loop = Some (in_split h hs t m1 res1, p, i, fse, fh)" and
    2: "merged C ps qs R (fs @ es) ?m m1 res1 p i fse fh qs' es'"
    by blast
  let ?R = "if fh then tl R else R"
  have 3: "if fse then filling m1 C qs' es' i \<and> 0 < i \<and> p = last qs' else chain m1 C qs' es'" "mset es' = mset (fs @ es)" "hd qs' = hd qs"
    "mset (qs' @ hd ps # ?R) = mset (ps @ qs @ R)" "pooled m1 ?R res1" "within ?A {hd ps, hd qs} ?m m1"
    using 2 unfolding merged_def by blast+
  have w: "agree (- ?A) ?m m1" "live m1 = live ?m" "cAlloc m1 = cAlloc ?m" "fails m1 = fails ?m" "\<forall>p\<in>{hd ps, hd qs}. um m1 p = um ?m p" "\<And>p. cap m1 p = cap ?m p"
    using 3(6) unfolding within_def by blast+
  have D: "distinct (qs' @ hd ps # ?R)" "set (qs' @ hd ps # ?R) = ?A"
    using mset_eq_imp_distinct_iff [OF 3(4)] mset_eq_setD [OF 3(4)] assms(7) by blast+
  have q': "qs' \<noteq> []" "last qs' \<in> live m1" "roomy m1 C (set qs')"
    using 3(1) fillingD(2,4,10) [of m1 C qs' es' i] chainD(4,8,9) [of m1 C qs' es'] live_cap [of m1 "last qs'" C] by (auto split: if_splits)
  define m2 where "m2 = put_pb (hd ps) EndNull m1"
  define m3 where "m3 = (if fse then put_pb (last qs') (EntryLast (i - 1)) m2 else m2)"
  define hs' where "hs' = (if fh then hs\<lparr>m_pReserve := res1\<rparr> else hs\<lparr>m_pReserve := res1, m_cReserve := m_cReserve hs + 1\<rparr>)"
  have e0: "held C ps es 0 = length es" if "\<not> 1 < length ps"
    using that by (simp add: held_def)
  have "BKTIDoMerge h (hd ps) (hd qs) t = (if fh then Some (in_split h hs t m3 res1) else POOLUnreserve h (in_split h hs t m3 res1))"
  proof -
    have i: "0 < i" "p = last qs'" if fse
      using 3(1) that by simp_all
    have st: "set_pb (hd ps) EndNull m1 = Some m2"
      "fse \<Longrightarrow> set_pb p (EntryLast (i - Suc 0)) m2 = Some m3" "\<not> fse \<Longrightarrow> m3 = m2"
      using lv(3) q'(2) i by (auto simp: m2_def m3_def w(2))
    have "in_split h hs t m (m_pReserve hs) = t\<lparr>mem := m\<rparr>" for m
      using in_split_id [OF assms(4)] by (metis in_split_simps(3))
    then have L: "loop = (if 1 < length ps then merge_loop h (hd ps) 0 C (last qs) ?i False False
        (t\<lparr>mem := put_u (ps ! 1) (BucketPrev (last qs)) (put_pb (last qs) (BucketNext (ps ! 1)) ?m)\<rparr>)
      else merge_loop h (hd ps) 0 (length es) (last qs) ?i (0 < length es) False t)"
      unfolding loop_def by simp
    show ?thesis
    proof (cases "1 < length ps")
      case True
      show ?thesis
        using 1 True lv(1,2) L i(1) by (cases fse) (simp_all add: BKTIDoMerge_def n assms(3) st)
    next
      case False
      show ?thesis
        using 1 False L e0 i(1) by (cases fse) (simp_all add: BKTIDoMerge_def n st)
    qed
  qed
  also have "\<dots> = Some (set_hs h hs' (t\<lparr>mem := m3\<rparr>))"
    by (simp add: POOLUnreserve_spec [OF h] hs'_def) (simp add: in_split_def)
  finally have eq: "BKTIDoMerge h (hd ps) (hd qs) t = Some (set_hs h hs' (t\<lparr>mem := m3\<rparr>))" .
  have l: "last qs' \<in> set qs'" "hd ps \<notin> set qs'" "last qs' \<noteq> hd ps" "last qs' \<notin> set ?R" "hd ps \<notin> set ?R"
    using D(1) q'(1) by (auto simp: disjoint_iff)
  have v: "um m3 q = um m1 q" "cap m3 q = cap m1 q" "GetEntry q j m3 = GetEntry q j m1" "live m3 = live m1" "cAlloc m3 = cAlloc m1" "fails m3 = fails m1"
    "q \<noteq> hd ps \<Longrightarrow> q \<noteq> last qs' \<Longrightarrow> pb m3 q = pb m1 q" for q j
    by (simp_all add: m3_def m2_def)
  have ch: "chain m3 C qs' es'"
  proof (cases fse)
    case True
    then have f: "filling m1 C qs' es' i" "0 < i"
      using 3(1) by simp_all
    have nb: "q \<noteq> last qs' \<and> q \<noteq> hd ps" if "q \<in> set (butlast qs')" for q
      using that fillingD(2,3) [OF f(1)] l(2) append_butlast_last_id [of qs'] distinct_append [of "butlast qs'" "[last qs']"] by (auto dest: in_set_butlastD)
    have "filling m3 C qs' es' i"
      by (rule filling_frame [OF f(1)]) (use v nb in auto)
    moreover have "pb m3 (last qs') = Some (EntryLast (i - 1))"
      using True q'(2) by (simp add: m3_def m2_def)
    moreover have "es' \<noteq> []"
      using fillingD(7) [OF f(1)] f(2) by auto
    ultimately show ?thesis
      by (auto intro!: filling_chain simp: last_end_def)
  next
    case False
    then have m: "m3 = put_pb (hd ps) EndNull m1" "chain m1 C qs' es'"
      using 3(1) by (simp_all add: m3_def m2_def)
    show ?thesis
      unfolding m(1) by (rule chain_agree [OF m(2) agree_put(1) [OF l(2)]])
  qed
  have "chain m3 C [hd ps] []"
  proof -
    have "pb m3 (hd ps) = Some EndNull" "cap m3 (hd ps) = Some C"
      using l(3) lv(3) w(2) c(4,8) by (simp_all add: m3_def m2_def w(6) roomy_def)
    then show ?thesis
      using c(1) by (simp add: chain_def buckets_def linked_def stored_def roomy_def chain_end_def)
  qed
  moreover have "reshaped C ?A (set (qs' @ [hd ps] @ ?R)) {hd ps, hd qs} ?m hs R m3 hs' ?R"
    unfolding reshaped_def
  proof (intro conjI)
    show "agree (- ?A) ?m m3"
      by (rule agree_trans [OF w(1)]) (use l(1) D(2) in \<open>auto simp: m3_def m2_def agree_def\<close>)
    have "?A \<subseteq> live ?m"
      using c(9) d(9) pooled_live [OF assms(5)] by auto
    then show "live m3 = live ?m - ?A \<union> set (qs' @ [hd ps] @ ?R)"
      using D(2) by (auto simp: v w(2))
    show "spent hs R hs' ?R"
      by (simp add: spent_def hs'_def)
    have "pb m3 q = pb m1 q" if "q \<in> set ?R" for q
      using that l(4,5) by (intro v(7)) auto
    then have "pooled m3 ?R res1"
      by (rule pooled_frame [OF 3(5)])
    moreover have "m_pReserve hs' = res1"
      by (simp add: hs'_def)
    ultimately show "pooled m3 ?R (m_pReserve hs')"
      by (simp only:)
    show "roomy m3 C (set ?R)"
      using assms(8) by (cases R) (auto simp: roomy_def v w(6))
  qed (use D(2) w in \<open>auto simp: v\<close>)
  moreover have "distinct (qs' @ [hd ps] @ ?R)"
    using D(1) by simp
  ultimately show ?thesis
    using eq ch 3(2,3) by blast
qed

end
