(* ===== verification/Hash_Props.thy ===== *)
theory Hash_Props
  imports Hash_Merge
begin

text \<open>The dynamic hash table: what its operations promise.\<close>

section \<open>Samples\<close>

text \<open>Buckets for two numbers each: a chain to split, and two chains to merge.\<close>

definition sample_bucket :: "bucket_lock \<Rightarrow> bucket_end \<Rightarrow> nat option list \<Rightarrow> nat BUCKET" where
  "sample_bucket u e es = \<lparr>m_u = u, m_pb = e, m_rgEntry = es\<rparr>"

definition sample_memory :: "(PBUCKET \<times> nat BUCKET) list \<Rightarrow> nat memory" where
  "sample_memory bs = \<lparr>cells = map_of bs, cAlloc = 9, fails = (\<lambda>i. False)\<rparr>"

definition sample_table :: "(PBUCKET \<times> nat BUCKET) list \<Rightarrow> nat CDynamicHashTable" where
  "sample_table bs = \<lparr>m_cLoadFactor = 1, m_centryBucket = 2, m_cbBucket = 64,
     m_rghs = [\<lparr>m_cEntry = 0, m_cOp = 0, m_cms = CMeteredSection_new, m_pReserve = Some (HeapBucket 1), m_cReserve = 0\<rparr>], m_cbucketMin = 2,
     m_dirptrs0 = \<lparr>m_cBucketMax = 1, m_cBucket = 0\<rparr>, m_dirptrs1 = \<lparr>m_cBucketMax = 0, m_cBucket = 0\<rparr>,
     m_rgrgBucket = True # replicate 63 False, m_cOpSensitivity = 0, m_cBucketPreferred = 2,
     m_stateCur = stateGrow, m_semPolicy = 1, m_cCompletions = 0, mem = sample_memory bs\<rparr>"

definition sample_chain :: "(PBUCKET \<times> nat BUCKET) list" where
  "sample_chain = [(DirBucket 0 0, sample_bucket (RWL LockWrite) (BucketNext (HeapBucket 0)) [Some 4, Some 7]),
     (HeapBucket 0, sample_bucket (BucketPrev (DirBucket 0 0)) (EntryLast 1) [Some 5, Some 6]),
     (DirBucket 0 1, sample_bucket (RWL LockWrite) EndNull [None, None]),
     (HeapBucket 1, sample_bucket NoLock EndNull [None, None])]"

definition sample_pair :: "(PBUCKET \<times> nat BUCKET) list" where
  "sample_pair = [(DirBucket 0 0, sample_bucket (RWL LockWrite) (EntryLast 1) [Some 4, Some 6]),
     (DirBucket 0 1, sample_bucket (RWL LockWrite) (BucketNext (HeapBucket 2)) [Some 5, Some 7]),
     (HeapBucket 2, sample_bucket (BucketPrev (DirBucket 0 1)) (EntryLast 0) [Some 9, None]),
     (HeapBucket 1, sample_bucket NoLock EndNull [None, None])]"

lemmas sample_defs = sample_table_def sample_memory_def sample_chain_def sample_bucket_def centry_def get_hs_def rd_def chain_def linked_def stored_def
  roomy_def buckets_def chain_end_def link_end_def cap_def pb_def um_def GetEntry_def All_less_Suc

section \<open>Splits and merges\<close>

text \<open>
  C16: \<open>BKTIDoSplit\<close> on any chain, with one bucket reserved, returns: the entries whose hash still names the old bucket stay in its chain in their order, the others are in the chain
  of the new one, the chains and what is left of the pool share no bucket, every bucket that neither needs is freed, no other bucket changes, and the reservation is used up or returned.
\<close>

theorem split_partitions_chain:
  assumes "chain (mem t) C ps es" "centry t = C" "get_hs h t = Some hs" "pooled (mem t) R (m_pReserve hs)" "R \<noteq> []"
    "distinct (ps @ [dst] @ R)" "roomy (mem t) C (set (ps @ [dst] @ R))"
  shows "\<exists>m hs' R' qs0 qs1. BKTIDoSplit hash h (hd ps) dst i t = Some (set_hs h hs' (t\<lparr>mem := m\<rparr>))
    \<and> chain m C qs0 (filter (\<lambda>e. hash e AND (2 * m_cBucketMax (m_dirptrs0 t) - 1) = i) es)
    \<and> chain m C qs1 (filter (\<lambda>e. hash e AND (2 * m_cBucketMax (m_dirptrs0 t) - 1) \<noteq> i) es) \<and> hd qs0 = hd ps \<and> hd qs1 = dst
    \<and> distinct (qs0 @ qs1 @ R') \<and> reshaped C (set (ps @ [dst] @ R)) (set (qs0 @ qs1 @ R')) {hd ps, dst} (mem t) hs R m hs' R'"
proof -
  have "(m_cBucketMax (m_dirptrs0 t) - 1) + m_cBucketMax (m_dirptrs0 t) = 2 * m_cBucketMax (m_dirptrs0 t) - 1"
    by simp
  with BKTIDoSplit_spec [OF assms refl, of hash i] show ?thesis
    by simp
qed

lemma split_partitions_chain_witness:
  "\<exists>m hs' R' qs0 qs1. BKTIDoSplit of_nat 0 (DirBucket 0 0) (DirBucket 0 1) 0 (sample_table sample_chain)
      = Some (set_hs 0 hs' (sample_table sample_chain\<lparr>mem := m\<rparr>)) \<and> chain m 2 qs0 [4, 6] \<and> chain m 2 qs1 [7, 5]"
proof -
  let ?t = "sample_table sample_chain" and ?hs = "m_rghs (sample_table sample_chain) ! 0"
  have 1: "chain (mem ?t) 2 [DirBucket 0 0, HeapBucket 0] [4, 7, 5, 6]"
    by (simp add: sample_defs)
  have 2: "centry ?t = 2" "get_hs 0 ?t = Some ?hs" "pooled (mem ?t) [HeapBucket 1] (m_pReserve ?hs)"
    by (simp_all add: sample_defs exI [of _ None])
  have 3: "distinct ([DirBucket 0 0, HeapBucket 0] @ [DirBucket 0 1] @ [HeapBucket 1])"
    "roomy (mem ?t) 2 (set ([DirBucket 0 0, HeapBucket 0] @ [DirBucket 0 1] @ [HeapBucket 1]))"
    by (simp_all add: sample_defs)
  have 4: "filter (\<lambda>e. of_nat e AND (2 * m_cBucketMax (m_dirptrs0 ?t) - 1) = 0) [4, 7, 5, 6] = [4, 6]"
    "filter (\<lambda>e. of_nat e AND (2 * m_cBucketMax (m_dirptrs0 ?t) - 1) \<noteq> 0) [4, 7, 5, 6] = [7, 5]"
    by (simp_all add: sample_table_def)
  have "hd [DirBucket 0 0, HeapBucket 0] = DirBucket 0 0"
    by simp
  with split_partitions_chain [OF 1 2 _ 3, of of_nat 0] show ?thesis
    unfolding 4 by auto
qed

text \<open>
  C17: \<open>BKTIDoMerge\<close> on any two chains, with one bucket reserved, returns: the chain of the target holds exactly the entries of both and the source is empty, no bucket is in two chains,
  none is lost, no other bucket changes, and the reservation is used up or returned.
\<close>

theorem merge_joins_chains:
  assumes "chain (mem t) C ps es" "chain (mem t) C qs fs" "centry t = C" "get_hs h t = Some hs" "pooled (mem t) R (m_pReserve hs)" "R \<noteq> []"
    "distinct (ps @ qs @ R)" "roomy (mem t) C (set R)"
  shows "\<exists>m hs' R' qs' es'. BKTIDoMerge h (hd ps) (hd qs) t = Some (set_hs h hs' (t\<lparr>mem := m\<rparr>))
    \<and> chain m C qs' es' \<and> chain m C [hd ps] [] \<and> mset es' = mset fs + mset es \<and> hd qs' = hd qs
    \<and> distinct (qs' @ [hd ps] @ R') \<and> reshaped C (set (ps @ qs @ R)) (set (qs' @ [hd ps] @ R')) {hd ps, hd qs} (mem t) hs R m hs' R'"
  using BKTIDoMerge_spec [OF assms] by simp

lemma merge_joins_chains_witness:
  "\<exists>m hs' qs' es'. BKTIDoMerge 0 (DirBucket 0 1) (DirBucket 0 0) (sample_table sample_pair)
      = Some (set_hs 0 hs' (sample_table sample_pair\<lparr>mem := m\<rparr>)) \<and> chain m 2 qs' es' \<and> mset es' = {#4, 7, 5, 6, 9#}"
proof -
  let ?t = "sample_table sample_pair" and ?hs = "m_rghs (sample_table sample_pair) ! 0"
  have 1: "chain (mem ?t) 2 [DirBucket 0 1, HeapBucket 2] [5, 7, 9]" "chain (mem ?t) 2 [DirBucket 0 0] [4, 6]"
    by (simp_all add: sample_defs sample_pair_def)
  have 2: "centry ?t = 2" "get_hs 0 ?t = Some ?hs" "pooled (mem ?t) [HeapBucket 1] (m_pReserve ?hs)"
    by (simp_all add: sample_defs sample_pair_def exI [of _ None])
  have 3: "distinct ([DirBucket 0 1, HeapBucket 2] @ [DirBucket 0 0] @ [HeapBucket 1])" "roomy (mem ?t) 2 (set [HeapBucket 1])"
    by (simp_all add: sample_defs sample_pair_def)
  from merge_joins_chains [OF 1 2 _ 3] obtain m hs' R' qs' es' where
    4: "BKTIDoMerge 0 (hd [DirBucket 0 1, HeapBucket 2]) (hd [DirBucket 0 0]) ?t = Some (set_hs 0 hs' (?t\<lparr>mem := m\<rparr>))" "chain m 2 qs' es'"
      "mset es' = mset [4, 6] + mset [5, 7, 9]"
    by blast
  have "mset es' = {#4, 7, 5, 6, 9#}"
    using 4(3) by simp
  then show ?thesis
    using 4(1,2) by auto
qed

end
