(* ===== verification/Spec2Isabelle.thy ===== *)
theory Spec2Isabelle
  imports Math_Lib Quota Checksum_SIMD Decompress_Props Table_Props Red_Black_Map Linked_Lists Simple_Queue SXW_Latch_Props Signals Lock_Props Hash_Props
begin

text \<open>
  \<^bold>\<open>A verification library for the C++ part of ese_parser.\<close>

  The C++ part, \<open>src/lib/cpp\<close>, decompresses the columns of an ESE database for a Rust parser.
  \<open>decompress.cpp\<close> exports one function, \<open>decompress\<close>, over a static worker object; it calls
  the Xpress decoder of \<open>ms/_xpress\<close> and keeps the decoder handles in the lock-free pointer cache of
  \<open>ms/collection.hxx\<close>. Around it lie the parts of the storage engine the sources come with: the
  page checksums, the collection classes, the resource quota and the arithmetic helpers.

  \<^bold>\<open>Theories and what they model.\<close>

  \<^item> \<open>Ese_Prelude\<close>: machine types (\<open>BYTE\<close>, \<open>ULONG\<close>, ...), status codes, buffers whose access
    outside gives \<open>None\<close>, little-endian numbers, exclusive-or sums, shared lemmas.
  \<^item> \<open>Xpress_Decode\<close>, \<open>Xpress_Props\<close>: \<open>XpressDecode\<close> of \<open>xdecode.c\<close> with the decoder of
    \<open>xdecode.i\<close> as a step function over its labels. The theorems: it returns on every input, stays inside
    its buffers, computes what the list-based decoder \<open>lz_decode\<close> specifies, and decodes prefixes.
  \<^item> \<open>Ptr_Cache\<close>: \<open>GetCachedPtr\<close>, \<open>FCachePtr\<close> and \<open>ObjectPool\<close> of \<open>collection.hxx\<close>,
    sequentially and under any interleaving of threads; a pointer that moves through the cache has one owner, whether
    or not the clients create pointers that differ.
  \<^item> \<open>Decompress\<close>, \<open>Decompress_Props\<close>: \<open>CDataCompressor\<close> and \<open>decompress\<close>. Memory safety, round
    trips of both 7-bit schemes, the Xpress path on every block, size queries, and an input on which the code
    misbehaves. The property on histories of calls, size queries included, is at the end of this root theory.
  \<^item> \<open>Checksum\<close>, \<open>Checksum_Props\<close>, \<open>Checksum_SIMD\<close>: \<open>checksum.cxx\<close>,
    \<open>checksum_amd64.cxx\<close>, \<open>checksum_avx.cxx\<close>. The interface \<open>xe_routine\<close> states what a new-format routine computes;
    the scalar, SSE, SSE2 and AVX routines and the self-patching dispatch satisfy it, and single-bit correction and
    double-bit detection follow from it.
  \<^item> \<open>Dyn_Array\<close>, \<open>Sorted_Table\<close>, \<open>Table_Props\<close>: \<open>CArray\<close> and \<open>CTable\<close> of
    \<open>collection.hxx\<close> with growth, both sorts, both searches and the six seeks; the table uses the array through the
    interface \<open>entry_array\<close>.
  \<^item> \<open>Red_Black\<close>, \<open>Red_Black_Props\<close>, \<open>Red_Black_Map\<close>: \<open>InvasiveRedBlackTree\<close> and
    \<open>CRedBlackTree\<close>; the shape invariant, and the refinement of a map through the interface \<open>object_map\<close>. The
    node lies inside the object, so a history links an object only while it is in no tree (\<open>unlinked\<close>).
  \<^item> \<open>Queues\<close>: \<open>CStupidQueue\<close>, a ring of bytes, as a first-in first-out queue (interface \<open>fifo\<close>): every result of a
    history is the one a plain queue gives. Its conditions, which the code does not check, are written out (\<open>ring_fits\<close>).
  \<^item> \<open>Linked_Lists\<close>: \<open>CInvasiveList\<close> and \<open>CCountedInvasiveList\<close> over a memory of links (interface
    \<open>object_sequence\<close>).
  \<^item> \<open>Simple_Queue\<close>: \<open>CLocklessLinkedList\<close> and \<open>CSimpleQueue\<close>, the latter again a \<open>fifo\<close>; the former
    refines a stack with atomic operations under every interleaving.
  \<^item> \<open>SXW_Latch\<close>, \<open>SXW_Latch_Props\<close>: \<open>CSXWLatch\<close> of \<open>sync.hxx\<close>, its operations on the packed control word
    under any interleaving of threads: mutual exclusion, the checks the code enforces, no lost wake-up.
  \<^item> \<open>Group_Locks\<close>, \<open>Lock_Words\<close>, \<open>Lock_Books\<close>, \<open>Lock_Props\<close>: \<open>CBinaryLock\<close> and \<open>CReaderWriterLock\<close>, two groups that own a lock in
    turn: mutual exclusion, the tables of transitions the code asserts, no lost wake-up.
  \<^item> \<open>Semaphore\<close>: \<open>CSemaphore\<close> of \<open>sync.hxx\<close> and \<open>sync.cxx\<close> refines a counter, with timeouts and
    under any interleaving; the latch takes its semaphores to be such counters.
  \<^item> \<open>Signals\<close>: \<open>CAutoResetSignal\<close> and \<open>CManualResetSignal\<close> refine a flag; the invariant is the semaphore's.
  \<^item> \<open>Thread_Counts\<close>: sums over the threads, which the concurrent components use.
  \<^item> \<open>Control_Words\<close>: fields of packed control words, which the locks and the metered section share.
  \<^item> \<open>Metered_Section\<close>: \<open>CMeteredSection\<close> under any interleaving of threads: a partition completes only when
    everyone who entered before it has left, and no completion is lost if the next partition waits for the completion
    call of the last. The weaker condition the code asserts does not suffice.
  \<^item> \<open>Hash_Table\<close>, \<open>Hash_Chain\<close>, \<open>Hash_Split\<close>, \<open>Hash_Merge\<close>, \<open>Hash_Props\<close>: \<open>CDynamicHashTable\<close> of \<open>dht.hxx\<close> over an explicit
    memory of buckets, from \<open>ErrInit\<close> to the scans, with the directory, the maintenance policy and its state machine on metered sections. Shown are
    the operations on chains of buckets: seeking, inserting, replacing and deleting, and what a split and a merge make of them.
  \<^item> \<open>Quota\<close>: \<open>CQuota\<close> of \<open>cresmgr.hxx\<close>, its compare-and-swap loop under any interleaving.
  \<^item> \<open>Math_Lib\<close>: the integer helpers of \<open>math.hxx\<close> and \<open>math.cxx\<close>.

  \<^bold>\<open>How code becomes definitions.\<close> A class is a record with the members of the code, an operation is a
  function from the state to the state and its result. \<open>None\<close> is undefined behaviour: an access outside a buffer or
  through a null pointer, so a theorem that a call gives \<open>Some\<close> is a theorem of memory safety. Status
  codes are values. Integers are words, or numbers with the wrap-around written out. What lies outside
  the sources (\<open>malloc\<close>, \<open>qsort\<close>, the current processor, comparison functions of template users) is an argument.
  Concurrent operations are split at their accesses to shared memory; the pieces make up both the sequential
  operation and a step relation over any number of threads.

  \<^bold>\<open>Bounds.\<close> Loops whose end is not structural take fuel that is proved sufficient: each activation of the quicksort \<open>2 * n\<close>
  iterations for \<open>n\<close> entries, the cache loops one pass per slot, the compare-and-swap loops one pass when no other thread
  interferes. The Xpress decoder has a termination measure. The constructor of \<open>CSimpleQueue\<close> from a given list is partial and proved
  to return on every list that ends.

  \<^bold>\<open>Not modelled.\<close> The operating-system layer (files, disks, threads, timers, virtual memory), the
  debugger extension, tracing and performance counters are calls of Win32. Of the synchronisation library the
  semaphore, the signals, the metered sections, the binary and reader-writer locks, the latch and the lock-free list are modelled; kernel objects and
  their pool, critical sections and gates are not. Normalisation and encryption call Windows
  libraries. The Xpress encoder runs in the test driver only. The chi-squared test of \<open>math.cxx\<close> computes with floating-point
  numbers. \<open>CInvasiveConcurrentModSet\<close> and \<open>CApproximateIndex\<close>, which rest on the locks and the dynamic hash
  table, are not modelled. Debug printing is left out.
\<close>

section \<open>Histories of calls\<close>

text \<open>
  The exported function keeps one static \<open>CDataCompressor\<close>. A history is a list of calls, each
  on some processor, with its data, its output buffer, or null when the caller asks for the size, and the size it gives for the buffer.
\<close>

type_synonym call = "nat \<times> BYTE list \<times> obuffer \<times> nat"

fun run_calls :: "CDataCompressor \<Rightarrow> call list \<Rightarrow> (ULONG \<times> ULONG \<times> obuffer) option list" where
  "run_calls worker [] = []"
| "run_calls worker ((processor, data, buf, n) # calls) =
     (case decompress processor worker data (length data) buf n of
        None \<Rightarrow> [None]
      | Some (res, actual, out, worker') \<Rightarrow> Some (res, actual, out) # run_calls worker' calls)"

text \<open>A call with a header, with the size field that an Xpress header announces, and with a size that is not beyond the buffer.\<close>

definition good_call :: "call \<Rightarrow> bool" where
  "good_call = (\<lambda>(processor, data, buf, n). data \<noteq> [] \<and> length data < 2 ^ 28 \<and> n < 2 ^ 31
     \<and> (case buf of None \<Rightarrow> True | Some pbOut \<Rightarrow> n \<le> length pbOut)
     \<and> (drop_bit 3 (hd data) = scheme_code COMPRESS_XPRESS \<longrightarrow> 3 \<le> length data))"

lemma good_call_indep:
  assumes "winv w" "winv w'" "good_call (processor, data, buf, n)"
  shows "\<exists>res actual out w1 w2. decompress processor w data (length data) buf n = Some (res, actual, out, w1)
    \<and> winv w1 \<and> decompress processor' w' data (length data) buf n = Some (res, actual, out, w2)"
proof -
  have g: "data \<noteq> []" "length data < 2 ^ 28" "n < 2 ^ 31" "drop_bit 3 (hd data) = scheme_code COMPRESS_XPRESS \<Longrightarrow> 3 \<le> length data"
    using assms(3) by (auto simp: good_call_def)
  show ?thesis
  proof (cases buf)
    case None
    then show ?thesis
      using decompress_query [OF g(1,4), of n] assms(1) by metis
  next
    case (Some pbOut)
    then have "n \<le> length pbOut"
      using assms(3) by (simp add: good_call_def)
    from decompress_worker_indep [OF assms(1,2) g(1-3) this g(4)] show ?thesis
      unfolding Some by blast
  qed
qed

lemma run_calls_alone:
  assumes "winv worker" "winv fresh" "\<forall>c\<in>set calls. good_call c"
  shows "run_calls worker calls = map (\<lambda>c. hd (run_calls fresh [c])) calls"
  using assms(1,3)
proof (induction calls arbitrary: worker)
  case (Cons c calls)
  obtain processor data buf n where c: "c = (processor, data, buf, n)"
    by (cases c)
  have g: "good_call (processor, data, buf, n)"
    using Cons.prems(2) by (simp add: c)
  obtain res actual out w1 w2 where
      "decompress processor worker data (length data) buf n = Some (res, actual, out, w1)" "winv w1"
      "decompress processor fresh data (length data) buf n = Some (res, actual, out, w2)"
    using good_call_indep [OF Cons.prems(1) assms(2) g] by blast
  then show ?case
    using Cons.IH [of w1] Cons.prems(2) by (simp add: c)
qed simp

text \<open>
  C19: the worker shared by all calls is a cache and nothing else. In every history of calls from
  the initial worker, calls without a buffer that ask for the size included, in which every call has a header, its size field when it is Xpress, and no more
  than its buffer, every call returns, and it returns the status, the size and the bytes that the same call returns on a worker of its own.
\<close>

theorem decompress_history:
  assumes "0 < processorCountMax" "\<forall>c\<in>set calls. good_call c"
  shows "run_calls (Decompress.ErrInit processorCountMax) calls = map (\<lambda>c. hd (run_calls (Decompress.ErrInit 1) [c])) calls
    \<and> None \<notin> set (run_calls (Decompress.ErrInit processorCountMax) calls)"
proof -
  have "hd (run_calls (Decompress.ErrInit 1) [c]) \<noteq> None" if "c \<in> set calls" for c
  proof -
    obtain processor data buf n where c: "c = (processor, data, buf, n)"
      by (cases c)
    have w: "winv (Decompress.ErrInit 1)"
      by (simp add: ErrInit_winv)
    have "good_call (processor, data, buf, n)"
      using assms(2) that by (simp add: c)
    from good_call_indep [OF w w this, of processor] show ?thesis
      by (auto simp: c)
  qed
  moreover have "run_calls (Decompress.ErrInit processorCountMax) calls = map (\<lambda>c. hd (run_calls (Decompress.ErrInit 1) [c])) calls"
    using assms by (intro run_calls_alone) (simp_all add: ErrInit_winv)
  ultimately show ?thesis
    by (simp only: set_map image_iff) metis
qed

theorem decompress_history_witness:
  "run_calls (Decompress.ErrInit 2) [(1, sample_block, None, 0), (1, sample_block, Some (replicate 16 0), 16), (0, [0x20], Some [], 0), (1, sample_block, Some [7], 1)]
      = map (\<lambda>c. hd (run_calls (Decompress.ErrInit 1) [c]))
          [(1, sample_block, None, 0), (1, sample_block, Some (replicate 16 0), 16), (0, [0x20], Some [], 0), (1, sample_block, Some [7], 1)]
    \<and> None \<notin> set (run_calls (Decompress.ErrInit 2)
          [(1, sample_block, None, 0), (1, sample_block, Some (replicate 16 0), 16), (0, [0x20], Some [], 0), (1, sample_block, Some [7], 1)])"
  by (rule decompress_history) (simp_all add: good_call_def sample_block_facts, simp add: sample_block_def)

end
